(* ===== verification/Prelude.thy ===== *)
theory Prelude
  imports Main "HOL-Library.Word"
begin

text \<open>
  Shared vocabulary of the development: the machine integer types of
  \<^verbatim>\<open>kernel/types.h\<close>, the outcome type of a kernel routine, the sleep channels,
  and the generic facts on words and lists that the component theories use.

  A kernel routine takes the state it works on and has one of three outcomes:
  it returns a value and a new state (\<open>Done\<close>), it calls \<^verbatim>\<open>panic\<close> with a message
  (\<open>Panic\<close>), or it calls \<^verbatim>\<open>sleep\<close> on a channel in a given state (\<open>Sleep\<close>);
  \<open>kbind\<close> sequences routines the way the C statements are sequenced.
\<close>

unbundle bit_operations_syntax

section \<open>Machine integers\<close>

type_synonym byte = "8 word"
type_synonym ushort = "16 word"
type_synonym uint = "32 word"
type_synonym uint64 = "64 word"
type_synonym addr = "64 word"
type_synonym memory = "addr \<Rightarrow> byte"

section \<open>Collections of facts\<close>

named_theorems outcome_simps \<open>equations that decompose a successful outcome\<close>
named_theorems const_defs \<open>the numeric constants of the kernel headers\<close>
named_theorems word_nat_simps \<open>equations that move word operations to natural numbers\<close>

section \<open>Outcomes of kernel routines\<close>

text \<open>
  The address of a kernel object on which a process can sleep, one constructor per
  kind of object the sources pass to \<^verbatim>\<open>sleep\<close> and \<^verbatim>\<open>wakeup\<close>.
\<close>

datatype chan =
    ChanProc nat        \<comment> \<open>a \<^verbatim>\<open>struct proc\<close>: \<^verbatim>\<open>wait\<close>\<close>
  | ChanLog             \<comment> \<open>\<^verbatim>\<open>&log\<close>\<close>
  | ChanBufLock nat     \<comment> \<open>the sleep-lock of a buffer\<close>
  | ChanInodeLock nat   \<comment> \<open>the sleep-lock of an inode\<close>
  | ChanPipeRead addr   \<comment> \<open>\<^verbatim>\<open>&pi->nread\<close>\<close>
  | ChanPipeWrite addr  \<comment> \<open>\<^verbatim>\<open>&pi->nwrite\<close>\<close>
  | ChanTicks           \<comment> \<open>\<^verbatim>\<open>&ticks\<close>\<close>
  | ChanCons            \<comment> \<open>\<^verbatim>\<open>&cons.r\<close>\<close>
  | ChanUartTx          \<comment> \<open>\<^verbatim>\<open>&uart_tx_r\<close>\<close>
  | ChanDiskFree        \<comment> \<open>\<^verbatim>\<open>&disk.free[0]\<close>\<close>
  | ChanBuf nat         \<comment> \<open>a \<^verbatim>\<open>struct buf\<close> waiting for the disk\<close>

datatype ('a, 's) outcome =
    Done 'a 's
  | Panic string
  | Sleep chan 's

fun kbind :: "('a, 's) outcome \<Rightarrow> ('a \<Rightarrow> 's \<Rightarrow> ('b, 's) outcome) \<Rightarrow> ('b, 's) outcome" where
  "kbind (Done a s) f = f a s"
| "kbind (Panic msg) f = Panic msg"
| "kbind (Sleep c s) f = Sleep c s"

lemma kbind_eq_Done [outcome_simps]:
  "kbind m f = Done b t \<longleftrightarrow> (\<exists>a s. m = Done a s \<and> f a s = Done b t)"
  by (cases m) auto

lemma kbind_eq_Panic:
  "kbind m f = Panic msg \<longleftrightarrow> m = Panic msg \<or> (\<exists>a s. m = Done a s \<and> f a s = Panic msg)"
  by (cases m) auto

lemma kbind_cong [fundef_cong]:
  "m = m' \<Longrightarrow> (\<And>a s. m' = Done a s \<Longrightarrow> f a s = g a s) \<Longrightarrow> kbind m f = kbind m' g"
  by (cases m') auto

lemma kbind_assoc: "kbind (kbind m f) g = kbind m (\<lambda>a s. kbind (f a s) g)"
  by (cases m) auto

lemma if_eq_Done [outcome_simps]:
  "(if b then x else y) = Done a s \<longleftrightarrow> (b \<and> x = Done a s) \<or> (\<not> b \<and> y = Done a s)"
  by simp

section \<open>Words and natural numbers\<close>

lemma unat_word64_less: "unat (w :: 64 word) < 18446744073709551616"
  using unsigned_less [of w] by simp

lemma unat_word32_less: "unat (w :: 32 word) < 4294967296"
  using unsigned_less [of w, where 'a = nat] by simp

lemma unat_add_nowrap:
  fixes a b :: "'a::len word"
  assumes "unat a + unat b < 2 ^ LENGTH('a)"
  shows "unat (a + b) = unat a + unat b"
  using assms by (simp add: unat_word_ariths)

lemma unat_add_of_nat64:
  fixes a :: "64 word"
  assumes "unat a + n < 18446744073709551616"
  shows "unat (a + of_nat n) = unat a + n"
  using assms by (simp add: unat_word_ariths unat_of_nat)

lemma unat_of_nat64 [simp]: "n < 18446744073709551616 \<Longrightarrow> unat (of_nat n :: 64 word) = n"
  by (simp add: unat_of_nat)

lemma word_eq_iff_unat64: "(a :: 64 word) = b \<longleftrightarrow> unat a = unat b"
  by (simp add: word_unat_eq_iff)

lemma unat_and_not_mask:
  fixes a :: "'a::len word"
  shows "unat (a AND NOT (mask n)) = unat a div 2 ^ n * 2 ^ n"
proof -
  have "a AND NOT (mask n) = push_bit n (drop_bit n a)"
    by (rule bit_word_eqI) (auto simp: bit_simps)
  moreover have "unat (push_bit n (drop_bit n a)) = unat a div 2 ^ n * 2 ^ n"
  proof -
    have "unat a div 2 ^ n * 2 ^ n \<le> unat a" by simp
    then have "unat a div 2 ^ n * 2 ^ n < 2 ^ LENGTH('a)"
      using unsigned_less [of a] by (rule le_less_trans)
    moreover have "unat (push_bit n (drop_bit n a)) = take_bit LENGTH('a) (push_bit n (drop_bit n (unat a)))"
      by (simp only: unsigned_push_bit_eq unsigned_drop_bit_eq unsigned_take_bit_eq [symmetric]
          take_bit_length_eq)
    ultimately show ?thesis
      by (simp only: drop_bit_eq_div push_bit_eq_mult take_bit_eq_mod mod_less)
  qed
  ultimately show ?thesis by simp
qed

lemma unat_and_mask:
  fixes a :: "'a::len word"
  shows "unat (a AND mask n) = unat a mod 2 ^ n"
proof -
  have "a AND mask n = take_bit n a"
    by (simp add: take_bit_eq_mask)
  also have "unat (take_bit n a) = take_bit n (unat a)"
    by (rule unsigned_take_bit_eq)
  finally show ?thesis
    by (simp only: take_bit_eq_mod)
qed

lemma bit_unat_small:
  fixes w :: "'a::len word"
  assumes "unat w < 2 ^ k" "k \<le> n"
  shows "\<not> bit w n"
proof
  assume "bit w n"
  then have "bit (unat w) n" by (simp add: bit_unsigned_iff)
  then have "odd (unat w div 2 ^ n)" by (simp add: bit_iff_odd)
  moreover have "unat w < 2 ^ n"
    using assms by (meson less_le_trans one_le_numeral power_increasing)
  ultimately show False by simp
qed

lemma unat_less_exp_bits:
  fixes w :: "'a::len word"
  assumes "\<And>n. k \<le> n \<Longrightarrow> \<not> bit w n"
  shows "unat w < 2 ^ k"
proof -
  have "take_bit k w = w"
    by (rule bit_word_eqI) (use assms in \<open>auto simp: bit_simps intro: ccontr [of "_ < k"]\<close>)
  then have "take_bit k (unat w) = unat w" by (metis unsigned_take_bit_eq)
  then show ?thesis by (metis take_bit_nat_less_exp)
qed

end
