(* ===== verification/Machine.thy ===== *)
theory Machine
  imports Prelude
begin

text \<open>
  The constants and macros of \<^verbatim>\<open>kernel/riscv.h\<close>, \<^verbatim>\<open>kernel/memlayout.h\<close> and
  \<^verbatim>\<open>kernel/param.h\<close>, and 64-bit little-endian loads and stores on byte-addressed
  physical memory, which the kernel uses through its direct map.
\<close>

section \<open>Page geometry (riscv.h)\<close>

abbreviation (input) PGSIZE :: "64 word" where "PGSIZE \<equiv> 4096"
abbreviation (input) PGSHIFT :: nat where "PGSHIFT \<equiv> 12"
abbreviation (input) SUPERPGSIZE :: "64 word" where "SUPERPGSIZE \<equiv> 2097152"
abbreviation (input) MAXVA :: "64 word" where "MAXVA \<equiv> 274877906944"

definition PGROUNDUP :: "uint64 \<Rightarrow> uint64" where
  "PGROUNDUP sz = (sz + PGSIZE - 1) AND NOT (PGSIZE - 1)"

definition PGROUNDDOWN :: "uint64 \<Rightarrow> uint64" where
  "PGROUNDDOWN a = a AND NOT (PGSIZE - 1)"

definition SUPERPGROUNDUP :: "uint64 \<Rightarrow> uint64" where
  "SUPERPGROUNDUP sz = (sz + SUPERPGSIZE - 1) AND NOT (SUPERPGSIZE - 1)"

section \<open>Page-table entries (riscv.h)\<close>

type_synonym pte = "64 word"

abbreviation (input) PTE_V :: pte where "PTE_V \<equiv> 1"
abbreviation (input) PTE_R :: pte where "PTE_R \<equiv> 2"
abbreviation (input) PTE_W :: pte where "PTE_W \<equiv> 4"
abbreviation (input) PTE_X :: pte where "PTE_X \<equiv> 8"
abbreviation (input) PTE_U :: pte where "PTE_U \<equiv> 16"

definition PTE_LEAF :: "pte \<Rightarrow> pte" where
  "PTE_LEAF e = ((e AND PTE_R) OR (e AND PTE_W) OR (e AND PTE_X))"

definition PA2PTE :: "uint64 \<Rightarrow> pte" where
  "PA2PTE pa = push_bit 10 (drop_bit 12 pa)"

definition PTE2PA :: "pte \<Rightarrow> uint64" where
  "PTE2PA e = push_bit 12 (drop_bit 10 e)"

definition PTE_FLAGS :: "pte \<Rightarrow> uint64" where
  "PTE_FLAGS e = e AND 0x3FF"

definition PXSHIFT :: "nat \<Rightarrow> nat" where
  "PXSHIFT level = PGSHIFT + 9 * level"

definition PX :: "nat \<Rightarrow> uint64 \<Rightarrow> uint64" where
  "PX level va = drop_bit (PXSHIFT level) va AND 0x1FF"

definition MAKE_SATP :: "uint64 \<Rightarrow> uint64" where
  "MAKE_SATP pagetable = push_bit 60 8 OR drop_bit 12 pagetable"

section \<open>Physical memory layout (memlayout.h)\<close>

abbreviation (input) UART0 :: addr where "UART0 \<equiv> 0x10000000"
abbreviation (input) VIRTIO0 :: addr where "VIRTIO0 \<equiv> 0x10001000"
abbreviation (input) PLIC :: addr where "PLIC \<equiv> 0x0c000000"
abbreviation (input) KERNBASE :: addr where "KERNBASE \<equiv> 0x80000000"
abbreviation (input) PHYSTOP :: addr where "PHYSTOP \<equiv> 0x88000000"
abbreviation (input) TRAMPOLINE :: addr where "TRAMPOLINE \<equiv> MAXVA - PGSIZE"
abbreviation (input) TRAPFRAME :: addr where "TRAPFRAME \<equiv> TRAMPOLINE - PGSIZE"

definition KSTACK :: "nat \<Rightarrow> addr" where
  "KSTACK p = TRAMPOLINE - (of_nat p + 1) * 2 * PGSIZE"

section \<open>Loads and stores of 64-bit values\<close>

definition load64 :: "memory \<Rightarrow> addr \<Rightarrow> 64 word" where
  "load64 m a = word_rcat (map (\<lambda>k. m (a + of_nat k)) [7, 6, 5, 4, 3, 2, 1, 0])"

definition store64 :: "memory \<Rightarrow> addr \<Rightarrow> 64 word \<Rightarrow> memory" where
  "store64 m a v = (\<lambda>x. if x - a < 8 then ucast (drop_bit (8 * unat (x - a)) v) else m x)"

section \<open>Rounding and alignment\<close>

lemma PGROUNDDOWN_mask: "PGROUNDDOWN a = a AND NOT (mask 12)"
  by (simp add: PGROUNDDOWN_def mask_eq_exp_minus_1)

lemma unat_PGROUNDDOWN [word_nat_simps]: "unat (PGROUNDDOWN a) = unat a div 4096 * 4096"
  using unat_and_not_mask [of a 12] by (simp add: PGROUNDDOWN_mask)

lemma unat_PGROUNDUP [word_nat_simps]:
  assumes "unat a + 4095 < 18446744073709551616"
  shows "unat (PGROUNDUP a) = (unat a + 4095) div 4096 * 4096"
proof -
  have m: "PGROUNDUP a = (a + 4095) AND NOT (mask 12)"
    by (simp add: PGROUNDUP_def mask_eq_exp_minus_1 add_diff_eq [symmetric])
  have "unat (a + 4095) = unat a + 4095"
    using assms by (simp add: unat_word_ariths)
  then show ?thesis
    using unat_and_not_mask [of "a + 4095" 12] by (simp add: m)
qed

text \<open>An address is page-aligned when its low twelve bits are clear.\<close>

definition page_aligned :: "addr \<Rightarrow> bool" where
  "page_aligned a \<longleftrightarrow> a mod PGSIZE = 0"

lemma page_aligned_nat: "page_aligned a \<longleftrightarrow> unat a mod 4096 = 0"
  by (simp add: page_aligned_def word_eq_iff_unat64 unat_mod)

lemma PGROUNDDOWN_aligned [simp]: "page_aligned (PGROUNDDOWN a)"
  by (simp add: page_aligned_nat unat_PGROUNDDOWN)

lemma page_aligned_top:
  assumes "page_aligned t"
  shows "unat t + 4096 \<le> 18446744073709551616"
proof -
  obtain q where q: "unat t = 4096 * q"
    using assms by (auto simp: page_aligned_nat dvd_def mod_eq_0_iff_dvd)
  with unat_word64_less [of t] have "q < 4503599627370496" by linarith
  with q show ?thesis by simp
qed

lemma unat_page_offset:
  assumes "page_aligned t" and "n < 4096"
  shows "unat (t + of_nat n) = unat t + n"
  using page_aligned_top [OF assms(1)] assms(2) by (intro unat_add_of_nat64) linarith

lemma PGROUNDDOWN_offset:
  assumes "page_aligned t" and "n < 4096"
  shows "PGROUNDDOWN (t + of_nat n) = t"
proof -
  obtain q where "unat t = 4096 * q"
    using assms(1) by (auto simp: page_aligned_nat dvd_def mod_eq_0_iff_dvd)
  with assms show ?thesis
    by (simp add: word_eq_iff_unat64 unat_PGROUNDDOWN unat_page_offset)
qed

lemma PGROUNDDOWN_of_aligned [simp]: "page_aligned t \<Longrightarrow> PGROUNDDOWN t = t"
  using PGROUNDDOWN_offset [of t 0] by simp

lemma page_offset_inj:
  assumes "page_aligned t" and "i < 4096" and "j < 4096"
  shows "t + of_nat i = t + of_nat j \<longleftrightarrow> i = j"
  using unat_page_offset [OF assms(1,2)] unat_page_offset [OF assms(1,3)]
  by (metis add_left_cancel)

lemma page_addr_cases:
  assumes "page_aligned t" and "PGROUNDDOWN a = t"
  obtains n where "n < 4096" and "a = t + of_nat n"
proof
  let ?n = "unat a mod 4096"
  show n: "?n < 4096" by simp
  have "unat t = unat a div 4096 * 4096"
    using assms(2) unat_PGROUNDDOWN [of a] by simp
  then have "unat (t + of_nat ?n) = unat a"
    using unat_page_offset [OF assms(1) n] by simp
  then show "a = t + of_nat ?n"
    by (simp add: word_eq_iff_unat64)
qed

section \<open>Laws of loads and stores\<close>

lemma bit_load64:
  "bit (load64 m a) n \<longleftrightarrow> n < 64 \<and> bit (m (a + of_nat (n div 8))) (n mod 8)"
proof (cases "n < 64")
  case False
  then show ?thesis
    using bit_imp_le_length [of "load64 m a" n] by auto
next
  case True
  let ?ws = "map (\<lambda>k. m (a + of_nat k)) [0..<8]"
  have ws: "rev (map (\<lambda>k. m (a + of_nat k)) [7, 6, 5, 4, 3, 2, 1, 0]) = ?ws"
    by (simp add: upt_rec)
  have "bit (load64 m a) n \<longleftrightarrow> bit (horner_sum uint (2 ^ LENGTH(8)) ?ws) n"
    using True by (simp only: load64_def word_rcat_def o_apply ws bit_word_of_int_iff) simp
  also have "\<dots> \<longleftrightarrow> bit (?ws ! (n div 8)) (n mod 8)"
    using True by (simp only: bit_horner_sum_uint_exp_iff) auto
  finally show ?thesis using True by auto
qed

lemma load64_cong:
  assumes "\<And>k. k < 8 \<Longrightarrow> m (a + of_nat k) = m' (a + of_nat k)"
  shows "load64 m a = load64 m' a"
  by (rule bit_word_eqI) (simp add: bit_load64 assms)

lemma store64_byte:
  assumes "k < 8"
  shows "store64 m a v (a + of_nat k) = ucast (drop_bit (8 * k) v)"
proof -
  have "unat (of_nat k :: 64 word) = k"
    using assms by (simp add: unat_of_nat)
  moreover have "(of_nat k :: 64 word) < 8"
    using assms calculation by (simp add: word_less_nat_alt)
  ultimately show ?thesis
    by (simp add: store64_def)
qed

lemma store64_other: "\<not> x - a < 8 \<Longrightarrow> store64 m a v x = m x"
  by (simp add: store64_def)

lemma load64_store64_same [simp]: "load64 (store64 m a v) a = v"
proof (rule bit_word_eqI)
  fix n assume "n < LENGTH(64)"
  then have n: "n < 64" by simp
  then have "n div 8 < 8" by linarith
  with n show "bit (load64 (store64 m a v) a) n = bit v n"
    by (simp add: bit_load64 store64_byte bit_simps)
qed

end
