(* ===== verification/CString.thy ===== *)
theory CString
  imports Machine
begin

text \<open>
  \<^verbatim>\<open>kernel/string.c\<close>: the byte-block and string routines, as loops over byte memory.
  Counts of type \<^verbatim>\<open>uint\<close> are 32-bit words, counts of type \<^verbatim>\<open>int\<close> are integers, and
  \<^verbatim>\<open>strlen\<close>, whose loop has no bound, is a partial function. The lemmas give each
  loop its closed form; \<^verbatim>\<open>memmove\<close> is shown to copy overlapping blocks correctly.
\<close>

section \<open>Block operations\<close>

function memset_loop :: "memory \<Rightarrow> addr \<Rightarrow> byte \<Rightarrow> nat \<Rightarrow> nat \<Rightarrow> memory" where
  "memset_loop m dst c i n =
     (if i < n then memset_loop (m(dst + of_nat i := c)) dst c (Suc i) n else m)"
  by pat_completeness auto
termination
  by (relation "measure (\<lambda>(m, dst, c, i, n). n - i)") auto

definition memset :: "memory \<Rightarrow> addr \<Rightarrow> uint \<Rightarrow> uint \<Rightarrow> memory" where
  "memset m dst c n = memset_loop m dst (ucast c) 0 (unat n)"

fun memcmp_loop :: "memory \<Rightarrow> addr \<Rightarrow> addr \<Rightarrow> nat \<Rightarrow> int" where
  "memcmp_loop m s1 s2 0 = 0"
| "memcmp_loop m s1 s2 (Suc n) =
     (if m s1 \<noteq> m s2 then uint (m s1) - uint (m s2) else memcmp_loop m (s1 + 1) (s2 + 1) n)"

definition memcmp :: "memory \<Rightarrow> addr \<Rightarrow> addr \<Rightarrow> uint \<Rightarrow> int" where
  "memcmp m v1 v2 n = memcmp_loop m v1 v2 (unat n)"

text \<open>\<^verbatim>\<open>while(n-- > 0) *d++ = *s++;\<close>\<close>

fun move_up :: "memory \<Rightarrow> addr \<Rightarrow> addr \<Rightarrow> nat \<Rightarrow> memory" where
  "move_up m d s 0 = m"
| "move_up m d s (Suc n) = move_up (m(d := m s)) (d + 1) (s + 1) n"

text \<open>\<^verbatim>\<open>while(n-- > 0) *--d = *--s;\<close>\<close>

fun move_down :: "memory \<Rightarrow> addr \<Rightarrow> addr \<Rightarrow> nat \<Rightarrow> memory" where
  "move_down m d s 0 = m"
| "move_down m d s (Suc n) = move_down (m(d - 1 := m (s - 1))) (d - 1) (s - 1) n"

definition memmove :: "memory \<Rightarrow> addr \<Rightarrow> addr \<Rightarrow> uint \<Rightarrow> memory" where
  "memmove m dst src n =
     (if n = 0 then m
      else if src < dst \<and> src + ucast n > dst
      then move_down m (dst + ucast n) (src + ucast n) (unat n)
      else move_up m dst src (unat n))"

definition memcpy :: "memory \<Rightarrow> addr \<Rightarrow> addr \<Rightarrow> uint \<Rightarrow> memory" where
  "memcpy m dst src n = memmove m dst src n"

section \<open>String operations\<close>

fun strncmp_loop :: "memory \<Rightarrow> addr \<Rightarrow> addr \<Rightarrow> nat \<Rightarrow> int" where
  "strncmp_loop m p q 0 = 0"
| "strncmp_loop m p q (Suc n) =
     (if m p \<noteq> 0 \<and> m p = m q then strncmp_loop m (p + 1) (q + 1) n
      else uint (m p) - uint (m q))"

definition strncmp :: "memory \<Rightarrow> addr \<Rightarrow> addr \<Rightarrow> uint \<Rightarrow> int" where
  "strncmp m p q n = strncmp_loop m p q (unat n)"

fun strncpy_pad :: "memory \<Rightarrow> addr \<Rightarrow> nat \<Rightarrow> memory" where
  "strncpy_pad m s 0 = m"
| "strncpy_pad m s (Suc n) = strncpy_pad (m(s := 0)) (s + 1) n"

fun strncpy_loop :: "memory \<Rightarrow> addr \<Rightarrow> addr \<Rightarrow> nat \<Rightarrow> memory" where
  "strncpy_loop m s t 0 = m"
| "strncpy_loop m s t (Suc n) =
     (let m' = m(s := m t)
      in if m t \<noteq> 0 then strncpy_loop m' (s + 1) (t + 1) n else strncpy_pad m' (s + 1) n)"

definition strncpy :: "memory \<Rightarrow> addr \<Rightarrow> addr \<Rightarrow> int \<Rightarrow> memory" where
  "strncpy m s t n = strncpy_loop m s t (nat n)"

text \<open>The loop \<^verbatim>\<open>while(--n > 0 && (*s++ = *t++) != 0)\<close>; the last argument is \<^verbatim>\<open>n - 1\<close>.\<close>

fun safestrcpy_loop :: "memory \<Rightarrow> addr \<Rightarrow> addr \<Rightarrow> nat \<Rightarrow> memory \<times> addr" where
  "safestrcpy_loop m s t 0 = (m, s)"
| "safestrcpy_loop m s t (Suc n) =
     (let m' = m(s := m t)
      in if m t \<noteq> 0 then safestrcpy_loop m' (s + 1) (t + 1) n else (m', s + 1))"

definition safestrcpy :: "memory \<Rightarrow> addr \<Rightarrow> addr \<Rightarrow> int \<Rightarrow> memory" where
  "safestrcpy m s t n =
     (if n \<le> 0 then m
      else let (m', s') = safestrcpy_loop m s t (nat (n - 1)) in m'(s' := 0))"

partial_function (option) strlen_loop :: "memory \<Rightarrow> addr \<Rightarrow> nat \<Rightarrow> nat option" where
  "strlen_loop m s n = (if m (s + of_nat n) \<noteq> 0 then strlen_loop m s (Suc n) else Some n)"

definition strlen :: "memory \<Rightarrow> addr \<Rightarrow> nat option" where
  "strlen m s = strlen_loop m s 0"

declare memset_loop.simps [simp del]

section \<open>Closed forms\<close>

text \<open>Whether an address lies in the block of \<open>n\<close> bytes at \<open>d\<close>.\<close>

definition in_block :: "addr \<Rightarrow> nat \<Rightarrow> addr \<Rightarrow> bool" where
  "in_block d n a \<longleftrightarrow> unat (a - d) < n"

lemma unat_Suc_offset:
  fixes a d :: addr
  assumes "unat (a - d) \<noteq> 0"
  shows "unat (a - (d + 1)) = unat (a - d) - 1"
proof -
  have "a - (d + 1) = (a - d) - 1" by simp
  moreover have "a - d \<noteq> 0" using assms by auto
  ultimately show ?thesis
    by (metis unat_minus_one)
qed

lemma memset_loop_eq:
  assumes "n \<le> 18446744073709551616"
  shows "memset_loop m dst c i n =
    (\<lambda>a. if i \<le> unat (a - dst) \<and> unat (a - dst) < n then c else m a)"
  using assms
proof (induction m dst c i n rule: memset_loop.induct)
  case (1 m dst c i n)
  show ?case
  proof (cases "i < n")
    case False
    then show ?thesis by (auto simp: memset_loop.simps fun_eq_iff)
  next
    case True
    have i: "i < 18446744073709551616" using True "1.prems" by linarith
    have hit: "a = dst + of_nat i \<longleftrightarrow> unat (a - dst) = i" for a
    proof
      assume "a = dst + of_nat i"
      with i show "unat (a - dst) = i" by (simp add: unat_of_nat)
    next
      assume "unat (a - dst) = i"
      then have "of_nat i = a - dst" by auto
      then show "a = dst + of_nat i" by simp
    qed
    have "memset_loop m dst c i n = memset_loop (m(dst + of_nat i := c)) dst c (Suc i) n"
      using True by (simp add: memset_loop.simps [of m dst c i n])
    also have "\<dots> = (\<lambda>a. if Suc i \<le> unat (a - dst) \<and> unat (a - dst) < n then c
        else (m(dst + of_nat i := c)) a)"
      using True "1.prems" by (intro "1.IH") simp_all
    also have "\<dots> = (\<lambda>a. if i \<le> unat (a - dst) \<and> unat (a - dst) < n then c else m a)"
      using True by (auto simp: fun_eq_iff hit)
    finally show ?thesis .
  qed
qed

lemma memset_eq: "memset m dst c n = (\<lambda>a. if in_block dst (unat n) a then ucast c else m a)"
proof -
  have "unat n \<le> 18446744073709551616"
    using unat_word32_less [of n] by simp
  then show ?thesis
    by (simp add: memset_def memset_loop_eq in_block_def)
qed

text \<open>The copy of a block in one step, the specification of \<^verbatim>\<open>memmove\<close>.\<close>

definition copy_block :: "memory \<Rightarrow> addr \<Rightarrow> addr \<Rightarrow> nat \<Rightarrow> memory" where
  "copy_block m d s n = (\<lambda>a. if in_block d n a then m (s + (a - d)) else m a)"

lemma move_up_eq:
  assumes "n \<le> 18446744073709551616"
    and "\<And>i j. j < i \<Longrightarrow> i < n \<Longrightarrow> d + of_nat j \<noteq> s + of_nat i"
  shows "move_up m d s n = copy_block m d s n"
  using assms
proof (induction n arbitrary: m d s)
  case 0
  show ?case by (simp add: copy_block_def in_block_def fun_eq_iff)
next
  case (Suc n)
  let ?m = "m(d := m s)"
  have IH: "move_up ?m (d + 1) (s + 1) n = copy_block ?m (d + 1) (s + 1) n"
  proof (rule Suc.IH)
    show "n \<le> 18446744073709551616" using Suc.prems(1) by simp
    fix i j :: nat assume "j < i" "i < n"
    with Suc.prems(2) [of "Suc j" "Suc i"] show "d + 1 + of_nat j \<noteq> s + 1 + of_nat i"
      by (simp add: algebra_simps)
  qed
  show ?case
  proof
    fix a
    show "move_up m d s (Suc n) a = copy_block m d s (Suc n) a"
    proof (cases "unat (a - d) = 0")
      case True
      then have a: "a = d" by (simp add: unat_eq_0)
      have "unat (d - (d + 1)) = 18446744073709551615" by (simp add: unsigned_minus_1_eq_mask mask_eq_exp_minus_1)
      with a Suc.prems(1) show ?thesis by (simp add: IH copy_block_def in_block_def)
    next
      case False
      let ?k = "unat (a - d)"
      have k: "a - d = of_nat ?k" by simp
      have ad: "a \<noteq> d" using False by auto
      have "s + (a - d) \<noteq> d" if "?k < Suc n"
        using Suc.prems(2) [of 0 ?k] False that by (simp only: k [symmetric]) auto
      with False ad show ?thesis
        by (auto simp: IH copy_block_def in_block_def unat_Suc_offset)
    qed
  qed
qed

lemma move_down_eq:
  assumes "n \<le> 18446744073709551616"
    and "\<And>i j. j < i \<Longrightarrow> i < n \<Longrightarrow> d + of_nat i \<noteq> s + of_nat j"
  shows "move_down m (d + of_nat n) (s + of_nat n) n = copy_block m d s n"
  using assms
proof (induction n arbitrary: m)
  case 0
  show ?case by (simp add: copy_block_def in_block_def fun_eq_iff)
next
  case (Suc n)
  let ?m = "m(d + of_nat n := m (s + of_nat n))"
  have step: "move_down m (d + of_nat (Suc n)) (s + of_nat (Suc n)) (Suc n) =
      move_down ?m (d + of_nat n) (s + of_nat n) n"
    by (simp add: algebra_simps)
  have IH: "move_down ?m (d + of_nat n) (s + of_nat n) n = copy_block ?m d s n"
    using Suc.prems by (intro Suc.IH) auto
  show ?case
    unfolding step IH
  proof
    fix a
    let ?k = "unat (a - d)"
    have k: "a - d = of_nat ?k" by simp
    have at_n: "a = d + of_nat n \<longleftrightarrow> ?k = n"
      using Suc.prems(1) by (auto simp: algebra_simps)
    have "s + (a - d) \<noteq> d + of_nat n" if "?k < n"
      using Suc.prems(2) [of ?k n] that by (simp only: k [symmetric]) auto
    then show "copy_block ?m d s n a = copy_block m d s (Suc n) a"
      using at_n by (auto simp: copy_block_def in_block_def less_Suc_eq)
  qed
qed

lemma memmove_eq:
  assumes d: "unat dst + unat n \<le> 18446744073709551616"
    and s: "unat src + unat n \<le> 18446744073709551616"
  shows "memmove m dst src n = copy_block m dst src (unat n)"
proof (cases "n = 0")
  case True
  then show ?thesis by (simp add: memmove_def copy_block_def in_block_def fun_eq_iff)
next
  case False
  have n: "ucast n = (of_nat (unat n) :: 64 word)" by simp
  have neq: "x + of_nat i \<noteq> y + of_nat j"
    if "unat x + i \<noteq> unat y + j" "unat x + i < 18446744073709551616"
      "unat y + j < 18446744073709551616" for x y :: addr and i j
    using that unat_add_of_nat64 [of x i] unat_add_of_nat64 [of y j] by metis
  show ?thesis
  proof (cases "src < dst \<and> src + ucast n > dst")
    case True
    then have "unat src < unat dst" by (simp add: word_less_nat_alt)
    then have "move_down m (dst + of_nat (unat n)) (src + of_nat (unat n)) (unat n)
        = copy_block m dst src (unat n)"
      using d s unat_word32_less [of n] by (intro move_down_eq neq) linarith+
    with True False show ?thesis by (simp add: memmove_def)
  next
    case F: False
    have "unat dst \<le> unat src \<or> unat src + unat n \<le> unat dst"
    proof (rule ccontr)
      assume a: "\<not> ?thesis"
      then have "unat (src + of_nat (unat n)) = unat src + unat n"
        using d s by (intro unat_add_of_nat64) linarith
      with a F show False by (simp add: word_less_nat_alt)
    qed
    then have "move_up m dst src (unat n) = copy_block m dst src (unat n)"
      using d s unat_word32_less [of n] by (intro move_up_eq neq) linarith+
    with F False show ?thesis by (auto simp: memmove_def)
  qed
qed

section \<open>Strings in memory\<close>

text \<open>The bytes of the string at \<open>a\<close> before its terminating NUL, at most \<open>n\<close> of them.\<close>

fun cbytes :: "memory \<Rightarrow> addr \<Rightarrow> nat \<Rightarrow> byte list" where
  "cbytes m a 0 = []"
| "cbytes m a (Suc n) = (if m a = 0 then [] else m a # cbytes m (a + 1) n)"

lemma cbytes_length: "length (cbytes m a n) \<le> n"
  by (induction m a n rule: cbytes.induct) auto

lemma cbytes_nonzero: "0 \<notin> set (cbytes m a n)"
  by (induction m a n rule: cbytes.induct) auto

lemma byte_diff_zero: "uint (a :: byte) - uint b = 0 \<longleftrightarrow> a = b"
  unfolding word_uint_eq_iff by simp

lemma strncmp_loop_zero: "strncmp_loop m p q n = 0 \<longleftrightarrow> cbytes m p n = cbytes m q n"
  by (induction m p q n rule: strncmp_loop.induct) (auto simp: byte_diff_zero uint_0_iff simp del: right_minus_eq)

lemma strlen_loop_eq:
  assumes "\<And>i. n \<le> i \<Longrightarrow> i < k \<Longrightarrow> m (s + of_nat i) \<noteq> 0" and "m (s + of_nat k) = 0" and "n \<le> k"
  shows "strlen_loop m s n = Some k"
  using assms
proof (induction "k - n" arbitrary: n)
  case 0
  then show ?case by (simp add: strlen_loop.simps)
next
  case (Suc d)
  then have "strlen_loop m s (Suc n) = Some k" by (intro Suc.hyps) auto
  with Suc show ?case by (simp add: strlen_loop.simps [of m s n])
qed

lemma in_block_Suc:
  assumes "Suc n \<le> 18446744073709551616"
  shows "in_block s (Suc n) a \<longleftrightarrow> a = s \<or> (a \<noteq> s \<and> in_block (s + 1) n a)"
proof (cases "a = s")
  case True
  then show ?thesis by (simp add: in_block_def)
next
  case False
  then have "unat (a - s) \<noteq> 0" by (simp add: unat_eq_0)
  with False unat_Suc_offset [OF this] show ?thesis by (simp only: in_block_def) auto
qed

lemma strncpy_pad_eq:
  assumes "n \<le> 18446744073709551616"
  shows "strncpy_pad m s n = (\<lambda>a. if in_block s n a then 0 else m a)"
  using assms
  by (induction m s n rule: strncpy_pad.induct) (auto simp: in_block_Suc fun_eq_iff, simp add: in_block_def)

text \<open>Two blocks of \<open>n\<close> bytes that do not overlap.\<close>

definition disjoint_blocks :: "addr \<Rightarrow> addr \<Rightarrow> nat \<Rightarrow> bool" where
  "disjoint_blocks s t n \<longleftrightarrow> (\<forall>i<n. \<forall>j<n. s + of_nat i \<noteq> t + of_nat j)"

lemma disjoint_blocks_Suc:
  assumes "disjoint_blocks s t (Suc n)"
  shows "disjoint_blocks (s + 1) (t + 1) n"
  using assms
  unfolding disjoint_blocks_def
  by (metis (no_types, lifting) Suc_less_eq add.assoc of_nat_Suc)

lemma cbytes_upd:
  assumes "\<And>j. j < n \<Longrightarrow> x \<noteq> t + of_nat j"
  shows "cbytes (m(x := v)) t n = cbytes m t n"
  using assms
proof (induction n arbitrary: t)
  case (Suc n)
  have "x \<noteq> t + 1 + of_nat j" if "j < n" for j
    using Suc.prems [of "Suc j"] that by (simp add: add.assoc)
  then have "cbytes (m(x := v)) (t + 1) n = cbytes m (t + 1) n" by (rule Suc.IH)
  moreover have "x \<noteq> t" using Suc.prems [of 0] by simp
  ultimately show ?case by (simp add: fun_upd_def)
qed simp

text \<open>What \<^verbatim>\<open>strncpy\<close> leaves in its destination block: the string, padded with NULs.\<close>

definition padded :: "byte list \<Rightarrow> nat \<Rightarrow> byte" where
  "padded xs k = (if k < length xs then xs ! k else 0)"

lemma strncpy_loop_eq:
  assumes "n \<le> 18446744073709551616" and "disjoint_blocks s t n"
  shows "strncpy_loop m s t n =
    (\<lambda>a. if in_block s n a then padded (cbytes m t n) (unat (a - s)) else m a)"
  using assms
proof (induction n arbitrary: m s t)
  case 0
  then show ?case by (simp add: in_block_def fun_eq_iff)
next
  case (Suc n)
  let ?m = "m(s := m t)"
  have s_out: "\<not> in_block (s + 1) n s"
    using Suc.prems(1) by (simp add: in_block_def unsigned_minus_1_eq_mask mask_eq_exp_minus_1)
  have st: "s \<noteq> t + of_nat j" if "j < Suc n" for j
    using Suc.prems(2) [unfolded disjoint_blocks_def, rule_format, of 0 j] that by simp
  show ?case
  proof (cases "m t = 0")
    case True
    then have "strncpy_loop m s t (Suc n) = (\<lambda>a. if in_block (s + 1) n a then 0 else ?m a)"
      using Suc.prems(1) by (simp add: strncpy_pad_eq fun_eq_iff Let_def)
    with True Suc.prems(1) show ?thesis
      by (auto simp: fun_eq_iff in_block_Suc padded_def)
  next
    case False
    have cb: "cbytes ?m (t + 1) n = cbytes m (t + 1) n"
    proof (rule cbytes_upd)
      fix j assume "j < n"
      then show "s \<noteq> t + 1 + of_nat j" using st [of "Suc j"] by (simp add: add.assoc)
    qed
    have step: "strncpy_loop m s t (Suc n) a = (if in_block (s + 1) n a
        then padded (cbytes m (t + 1) n) (unat (a - (s + 1))) else ?m a)" for a
      using False Suc.prems by (simp add: Suc.IH disjoint_blocks_Suc cb Let_def)
    have tl: "padded (m t # xs) (unat (a - s)) = padded xs (unat (a - (s + 1)))"
      if "a \<noteq> s" for a xs
    proof -
      have nz: "unat (a - s) \<noteq> 0" using that by (simp add: unat_eq_0)
      then obtain k where k: "unat (a - s) = Suc k" by (cases "unat (a - s)") auto
      have "unat (a - (s + 1)) = k" using unat_Suc_offset [OF nz] k by simp
      with k show ?thesis by (simp only: padded_def) simp
    qed
    show ?thesis
    proof
      fix a
      show "strncpy_loop m s t (Suc n) a =
        (if in_block s (Suc n) a then padded (cbytes m t (Suc n)) (unat (a - s)) else m a)"
      proof (cases "a = s")
        case True
        have "in_block s (Suc n) s" by (simp add: in_block_def)
        with True False s_out show ?thesis
          by (simp only: step cbytes.simps if_True if_False fun_upd_same) (simp add: padded_def)
      next
        case ne: False
        then show ?thesis
          using False in_block_Suc [OF Suc.prems(1), of s a]
          by (simp only: step cbytes.simps if_False tl fun_upd_other not_False_eq_True) simp
      qed
    qed
  qed
qed

lemma unat_diff_Suc: "a \<noteq> s \<Longrightarrow> unat (a - s) = Suc (unat (a - (s + 1)))" for a s :: addr
  using unat_Suc_offset [of a s] by (cases "unat (a - s)") (auto simp: unat_eq_0)

text \<open>
  What \<^verbatim>\<open>safestrcpy\<close> writes: the string, cut to \<open>n\<close> bytes, a NUL, and one more NUL if it
  stopped at the end of the source.
\<close>

lemma safestrcpy_loop_eq:
  assumes "Suc n \<le> 18446744073709551616" and "disjoint_blocks s t n"
  shows "case safestrcpy_loop m s t n of (m', s') \<Rightarrow> m'(s' := 0) =
    (\<lambda>a. if unat (a - s) < min (Suc n) (length (cbytes m t n) + 2)
         then padded (cbytes m t n) (unat (a - s)) else m a)"
  using assms
proof (induction n arbitrary: m s t)
  case 0
  then show ?case by (auto simp: padded_def fun_eq_iff unat_eq_0)
next
  case (Suc n)
  let ?m = "m(s := m t)"
  have st: "s \<noteq> t + of_nat j" if "j < Suc n" for j
    using Suc.prems(2) [unfolded disjoint_blocks_def, rule_format, of 0 j] that by simp
  show ?case
  proof (cases "m t = 0")
    case True
    have "a = s + 1 \<longleftrightarrow> unat (a - s) = 1" for a
      by (metis add_diff_cancel_left' diff_add_cancel unat_1 unsigned_1 word_eq_iff_unat64 add.commute)
    moreover have "a = s \<longleftrightarrow> unat (a - s) = 0" for a by (auto simp: unat_eq_0)
    ultimately show ?thesis using True by (auto simp: padded_def fun_eq_iff less_Suc_eq numeral_2_eq_2)
  next
    case False
    have cb: "cbytes ?m (t + 1) n = cbytes m (t + 1) n"
    proof (rule cbytes_upd)
      fix j assume "j < n"
      then show "s \<noteq> t + 1 + of_nat j" using st [of "Suc j"] by (simp add: add.assoc)
    qed
    obtain m' s' where ms: "safestrcpy_loop ?m (s + 1) (t + 1) n = (m', s')" by fastforce
    have eq: "(m'(s' := 0)) a = (if unat (a - (s + 1)) < min (Suc n) (length (cbytes m (t + 1) n) + 2)
         then padded (cbytes m (t + 1) n) (unat (a - (s + 1))) else ?m a)" for a
    proof -
      have "Suc n \<le> 18446744073709551616" using Suc.prems(1) by simp
      from Suc.IH [OF this disjoint_blocks_Suc [OF Suc.prems(2)], of ?m]
      show ?thesis unfolding ms prod.case cb by (rule fun_cong)
    qed
    have big: "\<not> unat (s - (s + 1)) < Suc n"
      using Suc.prems(1) by (simp add: unsigned_minus_1_eq_mask mask_eq_exp_minus_1)
    show ?thesis
    proof (simp only: safestrcpy_loop.simps Let_def False not_False_eq_True if_True ms case_prod_conv, rule ext)
      fix a
      show "(m'(s' := 0)) a = (if unat (a - s) < min (Suc (Suc n)) (length (cbytes m t (Suc n)) + 2)
         then padded (cbytes m t (Suc n)) (unat (a - s)) else m a)"
      proof (cases "a = s")
        case True
        with big False cbytes_length [of m "t + 1" n] show ?thesis
          by (simp only: eq) (auto simp: padded_def min_def)
      next
        case ne: False
        with False show ?thesis unfolding eq unat_diff_Suc [OF ne] by (simp add: padded_def)
      qed
    qed
  qed
qed

lemma cbytes_padded:
  assumes "\<And>i. i < n \<Longrightarrow> m (a + of_nat i) = padded xs i" "0 \<notin> set xs" "length xs < n"
  shows "cbytes m a n = xs"
  using assms
proof (induction xs arbitrary: a n)
  case Nil
  then obtain k where "n = Suc k" by (cases n) auto
  with Nil.prems(1) [of 0] show ?case by (simp add: padded_def)
next
  case (Cons x xs)
  then obtain k where k: "n = Suc k" by (cases n) auto
  have "cbytes m (a + 1) k = xs"
  proof (rule Cons.IH)
    fix i assume "i < k"
    then show "m (a + 1 + of_nat i) = padded xs i"
      using Cons.prems(1) [of "Suc i"] k by (simp add: padded_def add.assoc)
  qed (use Cons.prems k in auto)
  then show ?case using Cons.prems(1) [of 0] Cons.prems(2) k by (simp add: padded_def)
qed

text \<open>A string that ends before a bound does not depend on the bound.\<close>

lemma cbytes_longer:
  assumes "cbytes m a n = xs" "length xs < n" "n \<le> n'"
  shows "cbytes m a n' = xs"
  using assms
proof (induction n arbitrary: a xs n')
  case (Suc n)
  then obtain k where k: "n' = Suc k" "n \<le> k" by (cases n') auto
  show ?case
  proof (cases "m a = 0")
    case False
    then have xs: "xs = m a # cbytes m (a + 1) n" using Suc.prems(1) by simp
    have "length (cbytes m (a + 1) n) < n" using Suc.prems(2) unfolding xs by simp
    then have "cbytes m (a + 1) k = cbytes m (a + 1) n" using Suc.IH [OF refl _ k(2)] by simp
    with False xs k(1) show ?thesis by simp
  qed (use Suc.prems(1) k(1) in simp)
qed simp

lemma disjoint_blocksI:
  assumes "unat t + n \<le> unat s" "unat s + n \<le> 18446744073709551616"
  shows "disjoint_blocks s t n"
  unfolding disjoint_blocks_def
proof (intro allI impI notI)
  fix i j assume ij: "i < n" "j < n" "s + of_nat i = t + of_nat j"
  have "unat (s + of_nat i) = unat s + i" "unat (t + of_nat j) = unat t + j"
    using assms ij by (intro unat_add_of_nat64; linarith)+
  with ij assms(1) show False by simp
qed

section \<open>Properties\<close>

text \<open>
  C9. \<^verbatim>\<open>memmove\<close> copies a block correctly whether or not source and destination overlap:
  every destination byte gets the value its source byte had before the call, and no
  other byte changes.
\<close>

theorem memmove_correct:
  assumes "unat dst + unat n \<le> 18446744073709551616" "unat src + unat n \<le> 18446744073709551616"
  shows "memmove m dst src n a =
    (if unat (a - dst) < unat n then m (src + (a - dst)) else m a)"
  using memmove_eq [OF assms] by (simp add: copy_block_def in_block_def)

theorem memmove_correct_witness:
  "memmove (\<lambda>a. ucast a) 0x1002 0x1000 8 0x1005 = 3"
  using memmove_correct [of "0x1002" 8 "0x1000" "\<lambda>a. ucast a" "0x1005"] by simp

text \<open>
  \<^verbatim>\<open>safestrcpy\<close> with a positive size into a block that does not overlap the source always
  leaves a NUL-terminated string there: the source string, cut to \<open>n - 1\<close> bytes. It
  writes nothing outside the \<open>n\<close> bytes of the destination.
\<close>

theorem safestrcpy_correct:
  assumes "0 < n" "n \<le> 2147483647" "disjoint_blocks s t (nat n)"
  shows "cbytes (safestrcpy m s t n) s (nat n) = cbytes m t (nat n - 1) \<and>
    length (cbytes (safestrcpy m s t n) s (nat n)) < nat n \<and>
    (\<forall>a. \<not> in_block s (nat n) a \<longrightarrow> safestrcpy m s t n a = m a)"
proof -
  obtain k where k: "nat n = Suc k" using assms(1) by (cases "nat n") auto
  then have k': "nat (n - 1) = k" by linarith
  have lt: "Suc k < 18446744073709551616" using k assms(2) by linarith
  have dis: "disjoint_blocks s t k" using assms(3) k by (simp add: disjoint_blocks_def)
  let ?c = "cbytes m t k"
  have len: "length ?c \<le> k" by (rule cbytes_length)
  have eq: "safestrcpy m s t n a = (if unat (a - s) < min (Suc k) (length ?c + 2)
      then padded ?c (unat (a - s)) else m a)" for a
    using safestrcpy_loop_eq [OF _ dis, of m] lt assms(1) k'
    by (cases "safestrcpy_loop m s t k") (simp add: safestrcpy_def fun_eq_iff)
  have "cbytes (safestrcpy m s t n) s (Suc (length ?c)) = ?c"
  proof (rule cbytes_padded)
    fix i assume "i < Suc (length ?c)"
    then show "safestrcpy m s t n (s + of_nat i) = padded ?c i" using len lt by (auto simp: eq)
  qed (simp_all add: cbytes_nonzero)
  then have "cbytes (safestrcpy m s t n) s (Suc k) = ?c" by (rule cbytes_longer) (use len in simp_all)
  moreover have "safestrcpy m s t n a = m a" if "\<not> in_block s (Suc k) a" for a
    using that by (auto simp: eq in_block_def)
  ultimately show ?thesis unfolding k using len by simp
qed

theorem safestrcpy_correct_witness:
  "cbytes (safestrcpy (\<lambda>a. if a < 0x2005 then ucast a + 1 else 0) 0x3000 0x2000 4) 0x3000 4 = [1, 2, 3]"
proof -
  have "disjoint_blocks 0x3000 0x2000 (nat 4)"
    by (rule disjoint_blocksI) simp_all
  from safestrcpy_correct [OF _ _ this, of "\<lambda>a. if a < 0x2005 then ucast a + 1 else 0"]
  have "cbytes (safestrcpy (\<lambda>a. if a < 0x2005 then ucast a + 1 else 0) 0x3000 0x2000 4) 0x3000 4 =
    cbytes (\<lambda>a. if a < 0x2005 then ucast a + 1 else 0) 0x2000 3" by simp
  also have "\<dots> = [1, 2, 3]" by code_simp
  finally show ?thesis .
qed

text \<open>
  \<^verbatim>\<open>strncmp\<close> returns 0 exactly when the two strings agree, cut to \<open>n\<close> bytes.
\<close>

theorem strncmp_correct: "strncmp m p q n = 0 \<longleftrightarrow> cbytes m p (unat n) = cbytes m q (unat n)"
  by (simp add: strncmp_def strncmp_loop_zero)

text \<open>
  \<^verbatim>\<open>strncpy\<close> into a block that does not overlap the source leaves the source string, cut to
  \<open>n\<close> bytes and padded with NULs, and changes no other byte.
\<close>

theorem strncpy_correct:
  assumes "0 \<le> n" "n \<le> 2147483647" "disjoint_blocks s t (nat n)"
  shows "strncpy m s t n a = (if in_block s (nat n) a then padded (cbytes m t (nat n)) (unat (a - s)) else m a)"
  using strncpy_loop_eq [of "nat n" s t m] assms by (simp add: strncpy_def)

theorem strncpy_correct_witness:
  "strncpy (\<lambda>a. if a < 0x2002 then ucast a + 1 else 0) 0x3000 0x2000 4 0x3003 = 0"
proof -
  have "disjoint_blocks 0x3000 0x2000 (nat 4)"
    by (rule disjoint_blocksI) simp_all
  from strncpy_correct [OF _ _ this, of "\<lambda>a. if a < 0x2002 then ucast a + 1 else 0" "0x3003"]
  have "strncpy (\<lambda>a. if a < 0x2002 then ucast a + 1 else 0) 0x3000 0x2000 4 0x3003 =
    padded (cbytes (\<lambda>a. if a < 0x2002 then ucast a + 1 else 0) 0x2000 4) 3" by (simp add: in_block_def)
  also have "\<dots> = 0" by code_simp
  finally show ?thesis .
qed

end
