(* ===== verification/Kalloc.thy ===== *)
theory Kalloc
  imports CString
begin

text \<open>
  \<^verbatim>\<open>kernel/kalloc.c\<close>: the allocator of 4096-byte pages, whose free list is threaded
  through the free pages themselves, and the pool of 2 MiB superpages, an array used
  as a stack. The routines work on physical memory; the sections the sources guard
  with \<^verbatim>\<open>kmem.lock\<close> and \<^verbatim>\<open>supermem.lock\<close> are single steps here. The symbol \<^verbatim>\<open>end\<close>,
  which the linker script defines, is the state component \<open>kend\<close> that no routine writes.

  Both allocators are shown to implement one interface, the locale \<open>page_pool\<close>.
\<close>

section \<open>State\<close>

record kmem =
  mem :: memory              \<comment> \<open>physical memory\<close>
  kend :: addr               \<comment> \<open>first address after the kernel\<close>
  freelist :: addr           \<comment> \<open>\<^verbatim>\<open>kmem.freelist\<close>\<close>
  superpages :: "addr list"  \<comment> \<open>\<^verbatim>\<open>supermem.superpages\<close>, \<open>NSUPERPAGES\<close> entries\<close>
  nfree :: nat               \<comment> \<open>\<^verbatim>\<open>supermem.nfree\<close>\<close>

abbreviation (input) NSUPERPAGES :: nat where "NSUPERPAGES \<equiv> 60"

text \<open>The start of the superpage pool, \<^verbatim>\<open>PHYSTOP - NSUPERPAGES * SUPERPGSIZE\<close>.\<close>

definition SUPERBASE :: addr where
  "SUPERBASE = PHYSTOP - of_nat NSUPERPAGES * SUPERPGSIZE"

section \<open>Operations\<close>

definition kfree :: "addr \<Rightarrow> 'z kmem_scheme \<Rightarrow> (unit, 'z kmem_scheme) outcome" where
  "kfree pa s =
     (if pa mod PGSIZE \<noteq> 0 \<or> pa < kend s \<or> pa \<ge> PHYSTOP then Panic ''kfree''
      else let m = memset (mem s) pa 1 4096
           in Done () (s\<lparr>mem := store64 m pa (freelist s), freelist := pa\<rparr>))"

definition kalloc :: "'z kmem_scheme \<Rightarrow> (addr, 'z kmem_scheme) outcome" where
  "kalloc s =
     (let r = freelist s
      in if r \<noteq> 0
         then Done r (s\<lparr>mem := memset (mem s) r 5 4096, freelist := load64 (mem s) r\<rparr>)
         else Done r s)"

definition superalloc :: "'z kmem_scheme \<Rightarrow> (addr, 'z kmem_scheme) outcome" where
  "superalloc s =
     (if nfree s = 0 then Done 0 s
      else let n = nfree s - 1; pg = superpages s ! n
           in Done pg (s\<lparr>nfree := n, mem := memset (mem s) pg 5 2097152\<rparr>))"

definition superfree :: "addr \<Rightarrow> 'z kmem_scheme \<Rightarrow> (unit, 'z kmem_scheme) outcome" where
  "superfree pa s =
     (if pa mod SUPERPGSIZE \<noteq> 0 then Panic ''superfree: pa not 2MiB aligned''
      else if pa < SUPERBASE \<or> pa \<ge> PHYSTOP
      then Panic ''superfree: pa outside of superpage pool range''
      else let s = s\<lparr>mem := memset (mem s) pa 1 2097152\<rparr>
           in if nfree s \<ge> NSUPERPAGES then Panic ''superfree: superpage pool overflow''
              else Done () (s\<lparr>superpages := (superpages s)[nfree s := pa], nfree := nfree s + 1\<rparr>))"

function freerange_loop :: "addr \<Rightarrow> addr \<Rightarrow> 'z kmem_scheme \<Rightarrow> (unit, 'z kmem_scheme) outcome" where
  "freerange_loop p pa_end s =
     (if p + PGSIZE \<le> pa_end
      then kbind (kfree p s) (\<lambda>_ s. freerange_loop (p + PGSIZE) pa_end s)
      else Done () s)"
  by pat_completeness auto
termination
proof (relation "measure (\<lambda>(p, pa_end, s). unat PHYSTOP - unat p)")
  fix p pa_end :: addr and s s' :: "'z kmem_scheme" and u :: unit
  assume "kfree p s = Done u s'"
  then have "p < PHYSTOP"
    by (simp add: kfree_def not_le split: if_splits)
  then have "unat p < 2281701376"
    by (simp add: word_less_nat_alt)
  then have "unat (p + 4096) = unat p + 4096"
    by (intro unat_add_nowrap [of p 4096, simplified]) simp
  with \<open>unat p < 2281701376\<close>
  show "((p + PGSIZE, pa_end, s'), p, pa_end, s) \<in> measure (\<lambda>(p, pa_end, s). unat PHYSTOP - unat p)"
    by simp
qed simp

definition freerange :: "addr \<Rightarrow> addr \<Rightarrow> 'z kmem_scheme \<Rightarrow> (unit, 'z kmem_scheme) outcome" where
  "freerange pa_start pa_end s = freerange_loop (PGROUNDUP pa_start) pa_end s"

fun superinit_loop :: "nat \<Rightarrow> addr \<Rightarrow> 'z kmem_scheme \<Rightarrow> 'z kmem_scheme" where
  "superinit_loop 0 ptop s = s"
| "superinit_loop (Suc i) ptop s =
     (let ptop = (ptop - SUPERPGSIZE) AND NOT (SUPERPGSIZE - 1)
      in superinit_loop i ptop
           (s\<lparr>superpages := (superpages s)[nfree s := ptop], nfree := nfree s + 1\<rparr>))"

definition superinit :: "'z kmem_scheme \<Rightarrow> (unit, 'z kmem_scheme) outcome" where
  "superinit s = Done () (superinit_loop NSUPERPAGES PHYSTOP (s\<lparr>nfree := 0\<rparr>))"

definition kinit :: "'z kmem_scheme \<Rightarrow> (unit, 'z kmem_scheme) outcome" where
  "kinit s = kbind (superinit s) (\<lambda>_ s. freerange (kend s) SUPERBASE s)"

declare freerange_loop.simps [simp del]

section \<open>The free list in memory\<close>

fun flist :: "memory \<Rightarrow> addr \<Rightarrow> addr list \<Rightarrow> bool" where
  "flist m p [] \<longleftrightarrow> p = 0"
| "flist m p (x # xs) \<longleftrightarrow> p = x \<and> x \<noteq> 0 \<and> flist m (load64 m x) xs"

text \<open>A page the allocator may hand out: what \<^verbatim>\<open>kfree\<close> checks.\<close>

definition phys_page :: "'z kmem_scheme \<Rightarrow> addr \<Rightarrow> bool" where
  "phys_page s p \<longleftrightarrow> page_aligned p \<and> kend s \<le> p \<and> p < PHYSTOP"

definition kmem_pool :: "'z kmem_scheme \<Rightarrow> addr list \<Rightarrow> bool" where
  "kmem_pool s fl \<longleftrightarrow> 0 < kend s \<and> flist (mem s) (freelist s) fl \<and> distinct fl \<and>
     (\<forall>p\<in>set fl. phys_page s p)"

text \<open>Two memories that agree outside one page.\<close>

definition same_except_page :: "addr \<Rightarrow> memory \<Rightarrow> memory \<Rightarrow> bool" where
  "same_except_page p m m' \<longleftrightarrow> (\<forall>a. PGROUNDDOWN a \<noteq> p \<longrightarrow> m' a = m a)"

lemma in_block_page:
  assumes "page_aligned p"
  shows "in_block p 4096 a \<longleftrightarrow> PGROUNDDOWN a = p"
proof
  assume "in_block p 4096 a"
  then have "unat (a - p) < 4096" by (simp add: in_block_def)
  moreover have "a = p + of_nat (unat (a - p))" by simp
  ultimately show "PGROUNDDOWN a = p"
    using PGROUNDDOWN_offset [OF assms] by metis
next
  assume "PGROUNDDOWN a = p"
  with assms obtain n where "n < 4096" "a = p + of_nat n"
    by (rule page_addr_cases)
  then show "in_block p 4096 a" by (simp add: in_block_def)
qed

lemma memset_page:
  assumes "page_aligned p"
  shows "memset m p c 4096 = (\<lambda>a. if PGROUNDDOWN a = p then ucast c else m a)"
  by (simp add: memset_eq in_block_page [OF assms])

lemma load64_page:
  assumes "page_aligned p" "page_aligned q" "same_except_page p m m'" "p \<noteq> q"
  shows "load64 m' q = load64 m q"
proof (rule load64_cong)
  fix k :: nat assume "k < 8"
  then have "PGROUNDDOWN (q + of_nat k) = q"
    using assms(2) by (intro PGROUNDDOWN_offset) simp_all
  with assms(3,4) show "m' (q + of_nat k) = m (q + of_nat k)"
    by (auto simp: same_except_page_def)
qed

lemma flist_same_except:
  assumes "flist m h fl" "same_except_page p m m'" "page_aligned p" "p \<notin> set fl"
    and "\<forall>q\<in>set fl. page_aligned q"
  shows "flist m' h fl"
  using assms
proof (induction fl arbitrary: h)
  case (Cons q fl)
  then have "load64 m' q = load64 m q"
    by (intro load64_page [of p]) auto
  with Cons show ?case by auto
qed simp

lemma store64_same_except:
  assumes "page_aligned p"
  shows "same_except_page p m (store64 m p v)"
  unfolding same_except_page_def
proof (intro allI impI)
  fix a assume ne: "PGROUNDDOWN a \<noteq> p"
  have "\<not> a - p < 8"
  proof
    assume "a - p < 8"
    then have "unat (a - p) < 4096" by (simp add: word_less_nat_alt)
    with ne in_block_page [OF assms] show False by (auto simp: in_block_def)
  qed
  then show "store64 m p v a = m a" by (rule store64_other)
qed

lemma same_except_trans:
  "same_except_page p m m' \<Longrightarrow> same_except_page p m' m'' \<Longrightarrow> same_except_page p m m''"
  by (auto simp: same_except_page_def)

lemma memset_same_except: "page_aligned p \<Longrightarrow> same_except_page p m (memset m p c 4096)"
  by (auto simp: same_except_page_def memset_page)

section \<open>The interface of a pool of pages\<close>

text \<open>
  A pool hands out its pages in stack order and takes pages back. The relation
  \<open>pool s ps\<close> says that the pool holds the pages \<open>ps\<close>, the next one to be handed out
  first; \<open>page s p\<close> says that \<open>p\<close> is a page of this pool's kind.
\<close>

locale page_pool =
  fixes alloc :: "'s \<Rightarrow> (addr, 's) outcome"
    and free :: "addr \<Rightarrow> 's \<Rightarrow> (unit, 's) outcome"
    and pool :: "'s \<Rightarrow> addr list \<Rightarrow> bool"
    and page :: "'s \<Rightarrow> addr \<Rightarrow> bool"
  assumes alloc_Nil: "pool s [] \<Longrightarrow> alloc s = Done 0 s"
    and alloc_Cons: "pool s (p # ps) \<Longrightarrow> \<exists>t. alloc s = Done p t \<and> pool t ps \<and> (\<forall>q. page t q = page s q)"
    and free_page: "pool s ps \<Longrightarrow> page s p \<Longrightarrow> p \<notin> set ps \<Longrightarrow>
        \<exists>t. free p s = Done () t \<and> pool t (p # ps) \<and> (\<forall>q. page t q = page s q)"
    and pool_distinct: "pool s ps \<Longrightarrow> distinct ps"
    and pool_page: "pool s ps \<Longrightarrow> p \<in> set ps \<Longrightarrow> page s p \<and> p \<noteq> 0"
begin

lemma alloc_zero_iff:
  assumes "pool s ps"
  shows "(\<exists>t. alloc s = Done 0 t) \<longleftrightarrow> ps = []"
proof (cases ps)
  case Nil
  with assms alloc_Nil show ?thesis by auto
next
  case (Cons p qs)
  with assms alloc_Cons obtain t where "alloc s = Done p t" by blast
  moreover have "p \<noteq> 0" using assms Cons pool_page [of s ps p] by simp
  ultimately show ?thesis using Cons by simp
qed

lemma alloc_then_free:
  assumes "pool s (p # ps)"
  obtains t u where "alloc s = Done p t" "free p t = Done () u" "pool t ps" "pool u (p # ps)"
proof -
  from assms alloc_Cons obtain t where t: "alloc s = Done p t" "pool t ps" "\<forall>q. page t q = page s q"
    by blast
  have "p \<notin> set ps" using pool_distinct [OF assms] by simp
  moreover have "page t p" using pool_page [OF assms, of p] t(3) by simp
  ultimately obtain u where "free p t = Done () u" "pool u (p # ps)"
    using free_page [OF t(2)] by blast
  with t that show thesis by blast
qed

lemma free_then_alloc:
  assumes "pool s ps" "page s p" "p \<notin> set ps"
  obtains t u where "free p s = Done () t" "alloc t = Done p u" "pool u ps"
proof -
  from free_page [OF assms] obtain t where t: "free p s = Done () t" "pool t (p # ps)" by blast
  from alloc_Cons [OF t(2)] obtain u where "alloc t = Done p u" "pool u ps" by blast
  with t that show thesis by blast
qed

text \<open>The first \<open>n\<close> allocations from a pool, as far as it has pages.\<close>

primrec alloc_n :: "nat \<Rightarrow> 's \<Rightarrow> (addr list, 's) outcome" where
  "alloc_n 0 s = Done [] s"
| "alloc_n (Suc n) s = kbind (alloc s) (\<lambda>p s. kbind (alloc_n n s) (\<lambda>ps s. Done (p # ps) s))"

lemma alloc_n_take:
  assumes "pool s ps" and "n \<le> length ps"
  shows "\<exists>t. alloc_n n s = Done (take n ps) t \<and> pool t (drop n ps)"
  using assms
proof (induction n arbitrary: s ps)
  case 0
  then show ?case by simp
next
  case (Suc n)
  then obtain p qs where ps: "ps = p # qs" by (cases ps) auto
  with Suc.prems alloc_Cons obtain t where t: "alloc s = Done p t" "pool t qs" by blast
  with Suc.IH [of t qs] Suc.prems ps obtain u where
    "alloc_n n t = Done (take n qs) u" "pool u (drop n qs)" by auto
  with t ps show ?case by simp
qed

lemma alloc_n_distinct:
  assumes "pool s ps" "n \<le> length ps" "alloc_n n s = Done qs t"
  shows "distinct qs" and "length qs = n" and "set qs \<inter> set (drop n ps) = {}"
  using alloc_n_take [OF assms(1,2)] assms pool_distinct [OF assms(1)]
  by (auto simp: set_take_disj_set_drop_if_distinct)

end

section \<open>The page allocator is a pool\<close>

lemma kalloc_empty: "kmem_pool s [] \<Longrightarrow> kalloc s = Done 0 s"
  by (simp add: kmem_pool_def kalloc_def)

lemma kmem_pool_page:
  "kmem_pool s fl \<Longrightarrow> p \<in> set fl \<Longrightarrow> phys_page s p \<and> p \<noteq> 0"
  by (auto simp: kmem_pool_def phys_page_def)

lemma kalloc_Cons:
  assumes "kmem_pool s (p # fl)"
  shows "kalloc s = Done p (s\<lparr>mem := memset (mem s) p 5 4096, freelist := load64 (mem s) p\<rparr>)"
  using assms by (auto simp: kmem_pool_def kalloc_def)

lemma phys_page_cong: "kend t = kend s \<Longrightarrow> phys_page t = phys_page s"
  by (simp add: phys_page_def fun_eq_iff)

lemma kalloc_pool:
  assumes "kmem_pool s (p # fl)" and "kalloc s = Done q t"
  shows "kmem_pool t fl" and "q = p" and "kend t = kend s"
    and "mem t = (\<lambda>a. if PGROUNDDOWN a = p then 5 else mem s a)"
    and "same_except_page p (mem s) (mem t)"
proof -
  have p: "page_aligned p" using assms(1) by (simp add: kmem_pool_def phys_page_def)
  have t: "q = p" "t = s\<lparr>mem := memset (mem s) p 5 4096, freelist := load64 (mem s) p\<rparr>"
    using kalloc_Cons [OF assms(1)] assms(2) by auto
  show "q = p" by (fact t(1))
  show "kend t = kend s" by (simp add: t)
  show "mem t = (\<lambda>a. if PGROUNDDOWN a = p then 5 else mem s a)"
    using p by (simp add: t memset_page fun_eq_iff)
  show se: "same_except_page p (mem s) (mem t)"
    using p by (simp add: t memset_same_except)
  have "flist (mem t) (load64 (mem s) p) fl"
    using assms(1) p
    by (intro flist_same_except [OF _ se]) (auto simp: kmem_pool_def phys_page_def)
  with assms(1) phys_page_cong [of t s] show "kmem_pool t fl"
    by (simp add: kmem_pool_def t)
qed

lemma kfree_pool:
  assumes "kmem_pool s fl" "phys_page s p" "p \<notin> set fl"
  obtains t where "kfree p s = Done () t" "kmem_pool t (p # fl)" "kend t = kend s"
    "same_except_page p (mem s) (mem t)"
proof -
  let ?m = "store64 (memset (mem s) p 1 4096) p (freelist s)"
  let ?t = "s\<lparr>mem := ?m, freelist := p\<rparr>"
  have p: "page_aligned p" using assms(2) by (simp add: phys_page_def)
  have free: "kfree p s = Done () ?t"
    using assms(2) by (auto simp: kfree_def phys_page_def page_aligned_def)
  have se: "same_except_page p (mem s) ?m"
    using p by (intro same_except_trans [OF memset_same_except store64_same_except])
  have "flist ?m (freelist s) fl"
    using assms p by (intro flist_same_except [OF _ se]) (auto simp: kmem_pool_def phys_page_def)
  moreover have "p \<noteq> 0" using assms(1,2) by (auto simp: kmem_pool_def phys_page_def)
  ultimately have "kmem_pool ?t (p # fl)"
    using assms phys_page_cong [of ?t s] by (auto simp: kmem_pool_def)
  with free se that show thesis by simp
qed

interpretation kmem: page_pool kalloc kfree kmem_pool phys_page
proof unfold_locales
  fix s :: "'a kmem_scheme" and p ps
  assume pool: "kmem_pool s (p # ps)"
  then obtain t where t: "kalloc s = Done p t" using kalloc_Cons by blast
  then show "\<exists>t. kalloc s = Done p t \<and> kmem_pool t ps \<and> (\<forall>q. phys_page t q = phys_page s q)"
    using kalloc_pool [OF pool t] phys_page_cong [of t s] by simp
next
  fix s :: "'a kmem_scheme" and p ps
  assume "kmem_pool s ps" "phys_page s p" "p \<notin> set ps"
  then show "\<exists>t. kfree p s = Done () t \<and> kmem_pool t (p # ps) \<and> (\<forall>q. phys_page t q = phys_page s q)"
    by (metis kfree_pool phys_page_cong)
qed (auto simp: kalloc_empty kmem_pool_def phys_page_def)

section \<open>The superpage pool is a pool\<close>

text \<open>A superpage of the pool: what \<^verbatim>\<open>superfree\<close> checks.\<close>

definition super_page :: "addr \<Rightarrow> bool" where
  "super_page p \<longleftrightarrow> p mod SUPERPGSIZE = 0 \<and> SUPERBASE \<le> p \<and> p < PHYSTOP"

definition super_pool :: "'z kmem_scheme \<Rightarrow> addr list \<Rightarrow> bool" where
  "super_pool s ps \<longleftrightarrow> nfree s \<le> NSUPERPAGES \<and> length (superpages s) = NSUPERPAGES \<and>
     ps = rev (take (nfree s) (superpages s)) \<and> distinct ps \<and> (\<forall>p\<in>set ps. super_page p)"

text \<open>The superpages from the top of memory down, in the order \<^verbatim>\<open>superinit\<close> stores them.\<close>

definition super_addr :: "nat \<Rightarrow> addr" where
  "super_addr i = of_nat (2281701376 - Suc i * 2097152)"

lemma SUPERBASE_eq: "SUPERBASE = 2155872256"
  by (simp add: SUPERBASE_def)

lemma unat_super_addr: "unat (super_addr i) = 2281701376 - Suc i * 2097152"
  unfolding super_addr_def by (rule unat_of_nat64) linarith

lemma super_page_nat:
  "super_page p \<longleftrightarrow> unat p mod 2097152 = 0 \<and> 2155872256 \<le> unat p \<and> unat p < 2281701376"
  by (simp add: super_page_def SUPERBASE_eq word_le_nat_alt word_less_nat_alt word_eq_iff_unat64 unat_mod)

lemma super_page_nonzero: "super_page p \<Longrightarrow> p \<noteq> 0"
  by (auto simp: super_page_nat)

lemma super_page_addr: "super_page p \<longleftrightarrow> (\<exists>i<60. p = super_addr i)"
proof
  assume p: "super_page p"
  then obtain q where q: "unat p = 2097152 * q"
    by (auto simp: super_page_nat dvd_def mod_eq_0_iff_dvd)
  with p have b: "1028 \<le> q" "q < 1088" by (auto simp: super_page_nat)
  then have "unat (super_addr (1087 - q)) = unat p"
    using q by (simp add: unat_super_addr Suc_diff_le [symmetric] diff_mult_distrib)
  with b show "\<exists>i<60. p = super_addr i"
    by (intro exI [of _ "1087 - q"]) (auto simp: word_eq_iff_unat64)
next
  assume "\<exists>i<60. p = super_addr i"
  then obtain i where i: "i < 60" "p = super_addr i" by blast
  have "2281701376 - Suc i * 2097152 = 2097152 * (1087 - i)"
    using i(1) by (simp add: diff_mult_distrib2)
  moreover have "1028 \<le> 1087 - i" "1087 - i < 1088" using i(1) by linarith+
  ultimately show "super_page p"
    using i(2) by (simp add: super_page_nat unat_super_addr)
qed

lemma super_page_finite: "finite (Collect super_page)" and super_page_card: "card (Collect super_page) \<le> 60"
proof -
  have eq: "Collect super_page = super_addr ` {..<60}"
    by (auto simp: super_page_addr)
  show "finite (Collect super_page)" by (simp add: eq)
  have "card (super_addr ` {..<60}) \<le> card {..<60::nat}" by (rule card_image_le) simp
  then show "card (Collect super_page) \<le> 60" by (simp add: eq)
qed

lemma super_pool_room:
  assumes "super_pool s ps" "super_page p" "p \<notin> set ps"
  shows "nfree s < NSUPERPAGES"
proof -
  have "distinct (p # ps)" "set (p # ps) \<subseteq> Collect super_page"
    using assms by (auto simp: super_pool_def)
  then have "length (p # ps) \<le> card (Collect super_page)"
    by (metis card_mono distinct_card super_page_finite)
  then show ?thesis
    using super_page_card assms(1) by (simp add: super_pool_def)
qed

lemma superalloc_pool:
  assumes "super_pool s (p # ps)"
  shows "superalloc s = Done p (s\<lparr>nfree := nfree s - 1, mem := memset (mem s) p 5 2097152\<rparr>)"
    and "super_pool (s\<lparr>nfree := nfree s - 1, mem := memset (mem s) p 5 2097152\<rparr>) ps"
proof -
  obtain n where n: "nfree s = Suc n" using assms by (cases "nfree s") (auto simp: super_pool_def)
  then have len: "n < length (superpages s)" using assms by (simp add: super_pool_def)
  have "p # ps = rev (take (Suc n) (superpages s))"
    using assms n by (simp add: super_pool_def)
  then have ps: "p = superpages s ! n" "ps = rev (take n (superpages s))"
    using len by (auto simp: take_Suc_conv_app_nth)
  show "superalloc s = Done p (s\<lparr>nfree := nfree s - 1, mem := memset (mem s) p 5 2097152\<rparr>)"
    by (simp add: superalloc_def n ps Let_def)
  show "super_pool (s\<lparr>nfree := nfree s - 1, mem := memset (mem s) p 5 2097152\<rparr>) ps"
    using assms n ps(2) by (auto simp: super_pool_def)
qed

lemma superfree_pool:
  assumes "super_pool s ps" "super_page p" "p \<notin> set ps"
  shows "superfree p s = Done () (s\<lparr>mem := memset (mem s) p 1 2097152,
      superpages := (superpages s)[nfree s := p], nfree := nfree s + 1\<rparr>)"
    and "super_pool (s\<lparr>mem := memset (mem s) p 1 2097152,
      superpages := (superpages s)[nfree s := p], nfree := nfree s + 1\<rparr>) (p # ps)"
proof -
  have n: "nfree s < NSUPERPAGES" by (rule super_pool_room [OF assms])
  show "superfree p s = Done () (s\<lparr>mem := memset (mem s) p 1 2097152,
      superpages := (superpages s)[nfree s := p], nfree := nfree s + 1\<rparr>)"
    using n assms(2) by (auto simp: superfree_def super_page_def Let_def)
  show "super_pool (s\<lparr>mem := memset (mem s) p 1 2097152,
      superpages := (superpages s)[nfree s := p], nfree := nfree s + 1\<rparr>) (p # ps)"
    using n assms by (auto simp: super_pool_def take_Suc_conv_app_nth)
qed

interpretation super: page_pool superalloc superfree super_pool "\<lambda>s. super_page"
proof unfold_locales
  fix s :: "'a kmem_scheme" assume "super_pool s []"
  then show "superalloc s = Done 0 s"
    by (auto simp: super_pool_def superalloc_def)
next
  fix s :: "'a kmem_scheme" and ps p
  assume "super_pool s ps" "p \<in> set ps"
  then show "super_page p \<and> p \<noteq> 0"
    by (auto simp: super_pool_def dest: super_page_nonzero)
next
  fix s :: "'a kmem_scheme" and p ps
  assume "super_pool s (p # ps)"
  then show "\<exists>t. superalloc s = Done p t \<and> super_pool t ps \<and> (\<forall>q. super_page q = super_page q)"
    using superalloc_pool by blast
next
  fix s :: "'a kmem_scheme" and p ps
  assume "super_pool s ps" "super_page p" "p \<notin> set ps"
  then show "\<exists>t. superfree p s = Done () t \<and> super_pool t (p # ps) \<and> (\<forall>q. super_page q = super_page q)"
    using superfree_pool by blast
qed (simp add: super_pool_def)

section \<open>Initialisation\<close>

lemma superinit_loop_eq:
  assumes "nfree s + n \<le> 60" "length (superpages s) = 60"
    and "\<forall>j<nfree s. superpages s ! j = super_addr j"
  shows "superinit_loop n (of_nat (2281701376 - nfree s * 2097152)) s =
    s\<lparr>superpages := map super_addr [0..<nfree s + n] @ drop (nfree s + n) (superpages s),
      nfree := nfree s + n\<rparr>"
  using assms
proof (induction n arbitrary: s)
  case 0
  then have "superpages s = map super_addr [0..<nfree s] @ drop (nfree s) (superpages s)"
    by (intro nth_equalityI) (auto simp: nth_append)
  then show ?case by simp
next
  case (Suc n)
  let ?k = "nfree s"
  let ?s = "s\<lparr>superpages := (superpages s)[?k := super_addr ?k], nfree := ?k + 1\<rparr>"
  have k: "?k < 60" using Suc.prems(1) by simp
  have "unat (of_nat (2281701376 - ?k * 2097152) :: addr) = 2281701376 - ?k * 2097152"
    by (rule unat_of_nat64) linarith
  then have "unat (of_nat (2281701376 - ?k * 2097152) - 2097152 :: addr) = 2281701376 - Suc ?k * 2097152"
    using k by (subst unat_sub) (simp_all only: word_le_nat_alt, simp_all)
  then have sub: "of_nat (2281701376 - ?k * 2097152) - 2097152 = super_addr ?k"
    by (simp add: word_eq_iff_unat64 unat_super_addr)
  have "2281701376 - Suc ?k * 2097152 = 2097152 * (1087 - ?k)"
    using k by (simp add: diff_mult_distrib2)
  then have "unat (super_addr ?k AND NOT (mask 21)) = unat (super_addr ?k)"
    by (simp add: unat_and_not_mask unat_super_addr)
  then have al: "super_addr ?k AND - 2097152 = super_addr ?k"
    by (simp add: word_eq_iff_unat64 mask_eq_exp_minus_1)
  have "superinit_loop (Suc n) (of_nat (2281701376 - ?k * 2097152)) s =
      superinit_loop n (of_nat (2281701376 - nfree ?s * 2097152)) ?s"
    by (simp add: Let_def sub al) (simp add: super_addr_def)
  also have "\<dots> = ?s\<lparr>superpages := map super_addr [0..<nfree ?s + n] @ drop (nfree ?s + n) (superpages ?s),
      nfree := nfree ?s + n\<rparr>"
    using Suc.prems k by (intro Suc.IH) (auto simp: nth_list_update less_Suc_eq)
  finally show ?case by simp
qed

text \<open>The page addresses from \<open>p\<close> (page-aligned) up to \<open>e\<close>, in increasing order.\<close>

definition range_pages :: "addr \<Rightarrow> addr \<Rightarrow> addr list" where
  "range_pages p e = map (\<lambda>i. p + of_nat (4096 * i)) [0..<(unat e - unat p) div 4096]"

lemma freerange_loop_pool:
  assumes "kmem_pool s fl" "page_aligned p" "kend s \<le> p" "e \<le> PHYSTOP" "\<forall>q\<in>set fl. q < p"
    and "p \<le> PHYSTOP"
  shows "\<exists>t. freerange_loop p e s = Done () t \<and> kmem_pool t (rev (range_pages p e) @ fl) \<and>
    kend t = kend s \<and> superpages t = superpages s \<and> nfree t = nfree s"
  using assms
proof (induction "(unat e - unat p) div 4096" arbitrary: s p fl)
  case 0
  have "\<not> p + PGSIZE \<le> e"
  proof
    assume "p + PGSIZE \<le> e"
    moreover have "unat e \<le> 2281701376" using "0.prems"(4) by (simp add: word_le_nat_alt)
    moreover have "unat (p + 4096) = unat p + 4096"
      using "0.prems"(6) by (intro unat_add_nowrap [of p 4096, simplified]) (simp add: word_le_nat_alt)
    ultimately show False
      using "0.hyps" by (auto simp: word_le_nat_alt div_eq_0_iff)
  qed
  with "0" show ?case by (simp add: freerange_loop.simps [of p] range_pages_def)
next
  case (Suc n)
  have e: "unat e \<le> 2281701376" using Suc.prems(4) by (simp add: word_le_nat_alt)
  have n: "(unat e - (unat p + 4096)) div 4096 = n" "unat p + 4096 \<le> unat e"
    using Suc.hyps(2) by linarith+
  have p4: "unat (p + 4096) = unat p + 4096"
    using n(2) e by (intro unat_add_nowrap [of p 4096, simplified]) simp
  have go: "p + 4096 \<le> e" using p4 n(2) by (simp add: word_le_nat_alt)
  have pp: "phys_page s p"
    using Suc.prems(2,3) n(2) e by (simp add: phys_page_def word_less_nat_alt)
  have "p \<notin> set fl" using Suc.prems(5) by auto
  with Suc.prems(1) pp obtain t where t: "kfree p s = Done () t" "kmem_pool t (p # fl)" "kend t = kend s"
    by (rule kfree_pool)
  have sup: "superpages t = superpages s" "nfree t = nfree s"
    using t(1) by (auto simp: kfree_def Let_def split: if_splits)
  have lt: "p < p + 4096" using p4 by (simp add: word_less_nat_alt)
  have "\<exists>u. freerange_loop (p + 4096) e t = Done () u \<and>
      kmem_pool u (rev (range_pages (p + 4096) e) @ p # fl) \<and>
      kend u = kend t \<and> superpages u = superpages t \<and> nfree u = nfree t"
  proof (rule Suc.hyps(1) [OF _ t(2)])
    show "n = (unat e - unat (p + 4096)) div 4096" using n(1) p4 by simp
    show "page_aligned (p + 4096)" using Suc.prems(2) p4 by (simp add: page_aligned_nat)
    show "kend t \<le> p + 4096" using t(3) Suc.prems(3) lt by simp
    show "\<forall>q\<in>set (p # fl). q < p + 4096" using Suc.prems(5) lt by auto
    show "p + 4096 \<le> PHYSTOP" using n(2) e p4 by (simp add: word_le_nat_alt)
  qed (rule Suc.prems(4))
  moreover have "range_pages p e = p # range_pages (p + 4096) e"
    unfolding range_pages_def p4 n(1) Suc.hyps(2) [symmetric]
    by (simp add: upt_conv_Cons map_Suc_upt [symmetric] algebra_simps del: upt_Suc)
  ultimately show ?case
    using go t sup by (auto simp: freerange_loop.simps [of p])
qed

lemma set_range_pages:
  assumes "page_aligned p" "e \<le> PHYSTOP" "p \<le> e"
  shows "set (range_pages p e) = {q. page_aligned q \<and> p \<le> q \<and> unat q + 4096 \<le> unat e}"
proof -
  have e: "unat e \<le> 2281701376" using assms(2) by (simp add: word_le_nat_alt)
  have pe: "unat p \<le> unat e" using assms(3) by (simp add: word_le_nat_alt)
  obtain k where k: "unat p = 4096 * k"
    using assms(1) by (auto simp: page_aligned_nat dvd_def mod_eq_0_iff_dvd)
  have un: "unat (p + of_nat (4096 * i)) = unat p + 4096 * i" if "i < (unat e - unat p) div 4096" for i
  proof (rule unat_add_of_nat64)
    show "unat p + 4096 * i < 18446744073709551616" using that e pe by linarith
  qed
  show ?thesis
  proof (intro set_eqI iffI)
    fix q assume "q \<in> set (range_pages p e)"
    then obtain i where i: "i < (unat e - unat p) div 4096" "q = p + of_nat (4096 * i)"
      by (auto simp: range_pages_def)
    have "unat q = unat p + 4096 * i" using un [OF i(1)] i(2) by simp
    with i(1) k pe show "q \<in> {q. page_aligned q \<and> p \<le> q \<and> unat q + 4096 \<le> unat e}"
      by (auto simp: page_aligned_nat word_le_nat_alt)
  next
    fix q assume "q \<in> {q. page_aligned q \<and> p \<le> q \<and> unat q + 4096 \<le> unat e}"
    then have q: "page_aligned q" "unat p \<le> unat q" "unat q + 4096 \<le> unat e"
      by (auto simp: word_le_nat_alt)
    obtain j where j: "unat q = 4096 * j"
      using q(1) by (auto simp: page_aligned_nat dvd_def mod_eq_0_iff_dvd)
    let ?i = "j - k"
    have "4096 * Suc ?i \<le> unat e - unat p" using q(2,3) j k by (simp add: diff_mult_distrib2)
    then have i: "?i < (unat e - unat p) div 4096"
      unfolding Suc_le_eq [symmetric] by (subst less_eq_div_iff_mult_less_eq) (simp_all add: mult.commute)
    moreover have "q = p + of_nat (4096 * ?i)"
      using un [OF i] q(2) j k by (simp add: word_eq_iff_unat64 diff_mult_distrib2)
    ultimately show "q \<in> set (range_pages p e)"
      unfolding range_pages_def by (metis (no_types, lifting) atLeast0LessThan image_eqI lessThan_iff set_map set_upt)
  qed
qed

lemma PGROUNDUP_props:
  assumes "unat a + 4095 < 18446744073709551616"
  shows "page_aligned (PGROUNDUP a)" "a \<le> PGROUNDUP a"
    and "page_aligned q \<Longrightarrow> PGROUNDUP a \<le> q \<longleftrightarrow> a \<le> q"
proof -
  note u = unat_PGROUNDUP [OF assms]
  show "page_aligned (PGROUNDUP a)" by (simp add: page_aligned_nat u)
  show le: "a \<le> PGROUNDUP a" by (simp add: word_le_nat_alt u)
  assume "page_aligned q"
  then obtain j where j: "unat q = 4096 * j" by (auto simp: page_aligned_nat dvd_def mod_eq_0_iff_dvd)
  have "(unat a + 4095) div 4096 \<le> j \<longleftrightarrow> unat a \<le> 4096 * j" by linarith
  then show "PGROUNDUP a \<le> q \<longleftrightarrow> a \<le> q"
    by (simp add: word_le_nat_alt u j)
qed

lemma superinit_pool:
  assumes "length (superpages s) = NSUPERPAGES"
  shows "superinit s = Done () (s\<lparr>superpages := map super_addr [0..<60], nfree := 60\<rparr>)"
    and "super_pool (s\<lparr>superpages := map super_addr [0..<60], nfree := 60\<rparr>) (rev (map super_addr [0..<60]))"
proof -
  show "superinit s = Done () (s\<lparr>superpages := map super_addr [0..<60], nfree := 60\<rparr>)"
    using superinit_loop_eq [of "s\<lparr>nfree := 0\<rparr>" 60] assms by (simp add: superinit_def del: upt_Suc)
  have "inj_on super_addr {0..<60}"
  proof (rule inj_onI)
    fix i j assume ij: "i \<in> {0..<60}" "j \<in> {0..<60}" "super_addr i = super_addr j"
    then have "2281701376 - Suc i * 2097152 = 2281701376 - Suc j * 2097152"
      using unat_super_addr [of i] unat_super_addr [of j] by simp
    with ij(1,2) show "i = j" by auto
  qed
  then have "distinct (map super_addr [0..<60])" by (simp add: distinct_map)
  moreover have "\<forall>p\<in>set (map super_addr [0..<60]). super_page p"
    by (auto simp: super_page_addr)
  ultimately show "super_pool (s\<lparr>superpages := map super_addr [0..<60], nfree := 60\<rparr>)
      (rev (map super_addr [0..<60]))"
    by (simp add: super_pool_def del: upt_Suc)
qed

text \<open>
  C7. After \<^verbatim>\<open>kinit\<close> the free list holds exactly the pages that lie between the end of the
  kernel and the superpage pool, each once, and the pool holds the 60 superpages below
  \<open>PHYSTOP\<close>, so the two allocators never share memory.
\<close>

theorem kinit_correct:
  assumes "freelist s = 0" "length (superpages s) = NSUPERPAGES" "0 < kend s" "kend s \<le> SUPERBASE"
  shows "\<exists>t fl. kinit s = Done () t \<and> kmem_pool t fl \<and>
    set fl = {q. page_aligned q \<and> kend s \<le> q \<and> unat q + 4096 \<le> unat SUPERBASE} \<and>
    super_pool t (rev (map super_addr [0..<60])) \<and> kend t = kend s"
proof -
  let ?s = "s\<lparr>superpages := map super_addr [0..<60], nfree := 60\<rparr>"
  have k: "unat (kend s) \<le> 2155872256"
    using assms(4) by (simp add: SUPERBASE_eq word_le_nat_alt)
  note up = PGROUNDUP_props [of "kend s"]
  have le: "PGROUNDUP (kend s) \<le> SUPERBASE"
    using up(3) [of SUPERBASE] assms(4) k by (simp add: SUPERBASE_eq page_aligned_def)
  have le': "PGROUNDUP (kend s) \<le> PHYSTOP"
    using le by (rule order_trans) (simp add: SUPERBASE_eq)
  have pool: "kmem_pool ?s []" using assms by (simp add: kmem_pool_def)
  from freerange_loop_pool [OF pool, of "PGROUNDUP (kend s)" SUPERBASE] up(1,2) le le' k
  obtain t where t: "freerange_loop (PGROUNDUP (kend s)) SUPERBASE ?s = Done () t"
    "kmem_pool t (rev (range_pages (PGROUNDUP (kend s)) SUPERBASE))"
    "kend t = kend s" "superpages t = map super_addr [0..<60]" "nfree t = 60"
    by (auto simp: SUPERBASE_eq)
  have "set (range_pages (PGROUNDUP (kend s)) SUPERBASE) =
      {q. page_aligned q \<and> PGROUNDUP (kend s) \<le> q \<and> unat q + 4096 \<le> unat SUPERBASE}"
    using up(1) le k by (intro set_range_pages) (auto simp: SUPERBASE_eq)
  also have "\<dots> = {q. page_aligned q \<and> kend s \<le> q \<and> unat q + 4096 \<le> unat SUPERBASE}"
    using up(3) k by auto
  finally have set: "set (rev (range_pages (PGROUNDUP (kend s)) SUPERBASE)) = \<dots>" by simp
  moreover have "super_pool t (rev (map super_addr [0..<60]))"
    using superinit_pool(2) [OF assms(2)] t(4,5) by (simp add: super_pool_def del: upt_Suc)
  moreover have "kinit s = Done () t"
    using t(1) by (simp add: kinit_def superinit_pool(1) [OF assms(2)] freerange_def)
  ultimately show ?thesis using t(2,3) by blast
qed

definition boot_state :: kmem where
  "boot_state = \<lparr>mem = (\<lambda>_. 0), kend = 0x80021d10, freelist = 0, superpages = replicate 60 0, nfree = 0\<rparr>"

theorem kinit_correct_witness:
  "\<exists>t fl. kinit boot_state = Done () t \<and> kmem_pool t fl \<and>
    set fl = {q. page_aligned q \<and> 0x80021d10 \<le> q \<and> unat q + 4096 \<le> unat SUPERBASE} \<and>
    super_pool t (rev (map super_addr [0..<60])) \<and> kend t = 0x80021d10"
  using kinit_correct [of boot_state] by (simp add: boot_state_def SUPERBASE_eq)

section \<open>Properties of the allocators\<close>

text \<open>
  C8. Freeing an allocated page and allocating gives the same page back and restores the
  free list; allocating fails (returns 0) exactly when the free list is empty.
\<close>

theorem kfree_kalloc:
  assumes "kmem_pool s fl" "phys_page s p" "p \<notin> set fl"
  shows "(\<exists>t u. kfree p s = Done () t \<and> kmem_pool t (p # fl) \<and> kalloc t = Done p u \<and> kmem_pool u fl) \<and>
    ((\<exists>t. kalloc s = Done 0 t) \<longleftrightarrow> fl = [])"
proof -
  obtain t where t: "kfree p s = Done () t" "kmem_pool t (p # fl)"
    using kmem.free_page [OF assms] by blast
  with kmem.alloc_Cons [OF t(2)] kmem.alloc_zero_iff [OF assms(1)] show ?thesis by blast
qed

theorem kfree_kalloc_witness:
  "\<exists>t u. kfree 0x80022000 boot_state = Done () t \<and> kmem_pool t [0x80022000] \<and>
    kalloc t = Done 0x80022000 u \<and> kmem_pool u []"
  using kfree_kalloc [of boot_state "[]" "0x80022000"]
  by (simp add: boot_state_def kmem_pool_def phys_page_def page_aligned_def)

text \<open>
  The superpage pool never overflows: returning a superpage that is not in the pool
  does not panic, and the next \<^verbatim>\<open>superalloc\<close> hands out that superpage and restores the pool.
\<close>

theorem superfree_superalloc:
  assumes "super_pool s ps" "super_page p" "p \<notin> set ps"
  shows "\<exists>t u. superfree p s = Done () t \<and> super_pool t (p # ps) \<and> superalloc t = Done p u \<and> super_pool u ps"
proof -
  obtain t where t: "superfree p s = Done () t" "super_pool t (p # ps)"
    using super.free_page [OF assms] by blast
  with super.alloc_Cons [OF t(2)] show ?thesis by blast
qed

theorem superfree_superalloc_witness:
  "\<exists>t u. superfree 0x87e00000 boot_state = Done () t \<and> super_pool t [0x87e00000] \<and>
    superalloc t = Done 0x87e00000 u \<and> super_pool u []"
  using superfree_superalloc [of boot_state "[]" "0x87e00000"]
  by (simp add: boot_state_def super_pool_def super_page_nat)

end
