(* ===== verification/Vm.thy ===== *)
theory Vm
  imports Kalloc
begin

text \<open>
  \<^verbatim>\<open>kernel/vm.c\<close>: Sv39 page tables in physical memory. A page table is the address of
  a page of 512 little-endian entries; a pointer to an entry is its address, and the
  null pointer is address 0. Kernel buffers that \<^verbatim>\<open>copyout\<close>, \<^verbatim>\<open>copyin\<close> and
  \<^verbatim>\<open>copyinstr\<close> move bytes from and to are byte lists; user memory is physical memory
  reached through a page table. Every call of \<^verbatim>\<open>panic\<close> is an outcome, so a loop whose
  body panics above \<open>MAXVA\<close> ends. The build defines \<^verbatim>\<open>LAB_PGTBL\<close> (\<^verbatim>\<open>conf/lab.mk\<close>).
\<close>

section \<open>State\<close>

text \<open>
  \<open>etext\<close> and \<open>trampoline\<close> are symbols of the linker script, \<open>satp\<close> is the supervisor
  address-translation register of the hart that runs.
\<close>

record vm = kmem +
  kernel_pagetable :: addr
  etext :: addr
  trampoline :: addr
  satp :: uint64

section \<open>Walking a page table\<close>

text \<open>\<^verbatim>\<open>&pagetable[i]\<close>\<close>

definition pte_slot :: "addr \<Rightarrow> uint64 \<Rightarrow> addr" where
  "pte_slot pagetable i = pagetable + 8 * i"

definition read_pte :: "addr \<Rightarrow> 'z kmem_scheme \<Rightarrow> pte" where
  "read_pte pte s = load64 (mem s) pte"

definition write_pte :: "addr \<Rightarrow> pte \<Rightarrow> 'z kmem_scheme \<Rightarrow> 'z kmem_scheme" where
  "write_pte pte v s = s\<lparr>mem := store64 (mem s) pte v\<rparr>"

definition zero_page :: "addr \<Rightarrow> 'z kmem_scheme \<Rightarrow> 'z kmem_scheme" where
  "zero_page p s = s\<lparr>mem := memset (mem s) p 0 4096\<rparr>"

text \<open>The loop over \<^verbatim>\<open>level\<close>, from level 2 down to level 0.\<close>

fun walk_loop :: "nat \<Rightarrow> addr \<Rightarrow> uint64 \<Rightarrow> bool \<Rightarrow> 'z kmem_scheme \<Rightarrow> (addr, 'z kmem_scheme) outcome" where
  "walk_loop 0 pagetable va alloc s = Done (pte_slot pagetable (PX 0 va)) s"
| "walk_loop (Suc level) pagetable va alloc s =
     (let pte = pte_slot pagetable (PX (Suc level) va)
      in if read_pte pte s AND PTE_V \<noteq> 0
         then let pagetable = PTE2PA (read_pte pte s)
              in if PTE_LEAF (read_pte pte s) \<noteq> 0 then Done pte s
                 else walk_loop level pagetable va alloc s
         else if \<not> alloc then Done 0 s
         else kbind (kalloc s) (\<lambda>pagetable s.
           if pagetable = 0 then Done 0 s
           else walk_loop level pagetable va alloc
                  (write_pte pte (PA2PTE pagetable OR PTE_V) (zero_page pagetable s))))"

definition walk :: "addr \<Rightarrow> uint64 \<Rightarrow> bool \<Rightarrow> 'z kmem_scheme \<Rightarrow> (addr, 'z kmem_scheme) outcome" where
  "walk pagetable va alloc s =
     (if va \<ge> MAXVA then Panic ''walk'' else walk_loop 2 pagetable va alloc s)"

definition superwalk :: "addr \<Rightarrow> uint64 \<Rightarrow> bool \<Rightarrow> 'z kmem_scheme \<Rightarrow> (addr, 'z kmem_scheme) outcome" where
  "superwalk pagetable va alloc s =
     (if va \<ge> MAXVA then Panic ''superwalk''
      else let pte = pte_slot pagetable (PX 2 va)
           in if read_pte pte s AND PTE_V \<noteq> 0
              then Done (pte_slot (PTE2PA (read_pte pte s)) (PX 1 va)) s
              else if \<not> alloc then Done 0 s
              else kbind (kalloc s) (\<lambda>pagetable s.
                if pagetable = 0 then Done 0 s
                else Done (pte_slot pagetable (PX 1 va))
                       (write_pte pte (PA2PTE pagetable OR PTE_V) (zero_page pagetable s))))"

definition walkaddr :: "addr \<Rightarrow> uint64 \<Rightarrow> 'z kmem_scheme \<Rightarrow> (uint64, 'z kmem_scheme) outcome" where
  "walkaddr pagetable va s =
     (if va \<ge> MAXVA then Done 0 s
      else kbind (walk pagetable va False s) (\<lambda>pte s.
        if pte = 0 then Done 0 s
        else if read_pte pte s AND PTE_V = 0 then Done 0 s
        else if read_pte pte s AND PTE_U = 0 then Done 0 s
        else Done (PTE2PA (read_pte pte s)) s))"

definition pgpte :: "addr \<Rightarrow> uint64 \<Rightarrow> 'z kmem_scheme \<Rightarrow> (addr, 'z kmem_scheme) outcome" where
  "pgpte pagetable va s = walk pagetable va False s"

text \<open>A call of \<^verbatim>\<open>walk\<close> that returns had an address below \<open>MAXVA\<close>: the loops below end.\<close>

lemma walk_Done_MAXVA: "walk pt va alloc s = Done r t \<Longrightarrow> unat va < 274877906944"
  by (simp add: walk_def word_le_nat_alt not_le split: if_splits)

lemma superwalk_Done_MAXVA: "superwalk pt va alloc s = Done r t \<Longrightarrow> unat va < 274877906944"
  by (simp add: superwalk_def word_le_nat_alt not_le split: if_splits)

lemma unat_va_step:
  assumes "unat (va :: uint64) < 274877906944"
  shows "unat (va + 4096) = unat va + 4096" and "unat (va + 2097152) = unat va + 2097152"
  using assms unat_add_nowrap [of va 4096] unat_add_nowrap [of va 2097152] by simp_all

section \<open>Installing mappings\<close>

function mappages_loop ::
  "addr \<Rightarrow> uint64 \<Rightarrow> uint64 \<Rightarrow> uint64 \<Rightarrow> pte \<Rightarrow> 'z kmem_scheme \<Rightarrow> (int, 'z kmem_scheme) outcome" where
  "mappages_loop pagetable a lastva pa perm s =
     kbind (walk pagetable a True s) (\<lambda>pte s.
       if pte = 0 then Done (-1) s
       else if read_pte pte s AND PTE_V \<noteq> 0 then Panic ''mappages: remap''
       else let s = write_pte pte (PA2PTE pa OR perm OR PTE_V) s
            in if a = lastva then Done 0 s
               else mappages_loop pagetable (a + PGSIZE) lastva (pa + PGSIZE) perm s)"
  by pat_completeness auto
termination
  by (relation "measure (\<lambda>(pagetable, a, lastva, pa, perm, s). 274877906944 - unat a)")
    (auto dest!: walk_Done_MAXVA simp: unat_va_step)

definition mappages ::
  "addr \<Rightarrow> uint64 \<Rightarrow> uint64 \<Rightarrow> uint64 \<Rightarrow> pte \<Rightarrow> 'z kmem_scheme \<Rightarrow> (int, 'z kmem_scheme) outcome" where
  "mappages pagetable va sz pa perm s =
     (if va mod PGSIZE \<noteq> 0 then Panic ''mappages: va not aligned''
      else if sz mod PGSIZE \<noteq> 0 then Panic ''mappages: size not aligned''
      else if sz = 0 then Panic ''mappages: size''
      else mappages_loop pagetable va (va + sz - PGSIZE) pa perm s)"

definition supermappages ::
  "addr \<Rightarrow> uint64 \<Rightarrow> uint64 \<Rightarrow> pte \<Rightarrow> 'z kmem_scheme \<Rightarrow> (int, 'z kmem_scheme) outcome" where
  "supermappages pagetable va pa perm s =
     (if va mod SUPERPGSIZE \<noteq> 0 then Panic ''supermappages: va not aligned''
      else kbind (superwalk pagetable va True s) (\<lambda>pte s.
        if pte = 0 then Done (-1) s
        else if read_pte pte s AND PTE_V \<noteq> 0 then Panic ''supermappages: remap''
        else Done 0 (write_pte pte (PA2PTE pa OR perm OR PTE_V) s)))"

definition kvmmap ::
  "addr \<Rightarrow> uint64 \<Rightarrow> uint64 \<Rightarrow> uint64 \<Rightarrow> pte \<Rightarrow> 'z kmem_scheme \<Rightarrow> (unit, 'z kmem_scheme) outcome" where
  "kvmmap kpgtbl va pa sz perm s =
     kbind (mappages kpgtbl va sz pa perm s) (\<lambda>r s. if r \<noteq> 0 then Panic ''kvmmap'' else Done () s)"

declare mappages_loop.simps [simp del]

section \<open>Removing mappings\<close>

text \<open>
  The test that \<^verbatim>\<open>uvmunmap\<close> and \<^verbatim>\<open>uvmcopy\<close> make at an aligned address: the level-1
  entry, if it is valid and readable and so maps a superpage, else 0.
\<close>

definition superpage_at :: "addr \<Rightarrow> uint64 \<Rightarrow> 'z kmem_scheme \<Rightarrow> (addr, 'z kmem_scheme) outcome" where
  "superpage_at pagetable a s =
     (if a mod SUPERPGSIZE = 0
      then kbind (superwalk pagetable a False s) (\<lambda>spte s.
        if spte \<noteq> 0 \<and> read_pte spte s AND PTE_V \<noteq> 0 \<and> read_pte spte s AND PTE_R \<noteq> 0
        then Done spte s else Done 0 s)
      else Done 0 s)"

lemma superpage_at_MAXVA:
  "superpage_at pt a s = Done spte t \<Longrightarrow> spte \<noteq> 0 \<Longrightarrow> unat a < 274877906944"
  by (auto simp: superpage_at_def outcome_simps dest: superwalk_Done_MAXVA split: if_splits)

function uvmunmap_loop ::
  "addr \<Rightarrow> uint64 \<Rightarrow> uint64 \<Rightarrow> bool \<Rightarrow> 'z kmem_scheme \<Rightarrow> (unit, 'z kmem_scheme) outcome" where
  "uvmunmap_loop pagetable a lim do_free s =
     (if a < lim
      then kbind (superpage_at pagetable a s) (\<lambda>spte s.
        if spte \<noteq> 0
        then kbind (if do_free then superfree (PTE2PA (read_pte spte s)) s else Done () s) (\<lambda>_ s.
          uvmunmap_loop pagetable (a + SUPERPGSIZE) lim do_free (write_pte spte 0 s))
        else kbind (walk pagetable a False s) (\<lambda>pte s.
          if pte = 0 then Panic ''uvmunmap: walk''
          else if read_pte pte s AND PTE_V = 0 then Panic ''uvmunmap: not mapped''
          else if PTE_FLAGS (read_pte pte s) = PTE_V then Panic ''uvmunmap: not a leaf''
          else kbind (if do_free then kfree (PTE2PA (read_pte pte s)) s else Done () s) (\<lambda>_ s.
            uvmunmap_loop pagetable (a + PGSIZE) lim do_free (write_pte pte 0 s))))
      else Done () s)"
  by pat_completeness auto
termination
  by (relation "measure (\<lambda>(pagetable, a, lim, do_free, s). 274877906944 - unat a)")
    (auto dest!: walk_Done_MAXVA superpage_at_MAXVA simp: unat_va_step)

definition uvmunmap ::
  "addr \<Rightarrow> uint64 \<Rightarrow> uint64 \<Rightarrow> bool \<Rightarrow> 'z kmem_scheme \<Rightarrow> (unit, 'z kmem_scheme) outcome" where
  "uvmunmap pagetable va npages do_free s =
     (if va mod PGSIZE \<noteq> 0 then Panic ''uvmunmap: not aligned''
      else uvmunmap_loop pagetable va (va + npages * PGSIZE) do_free s)"

declare uvmunmap_loop.simps [simp del]

definition uvmdealloc ::
  "addr \<Rightarrow> uint64 \<Rightarrow> uint64 \<Rightarrow> 'z kmem_scheme \<Rightarrow> (uint64, 'z kmem_scheme) outcome" where
  "uvmdealloc pagetable oldsz newsz s =
     (if newsz \<ge> oldsz then Done oldsz s
      else if PGROUNDUP newsz < PGROUNDUP oldsz
      then let npages = (ucast ((PGROUNDUP oldsz - PGROUNDUP newsz) div PGSIZE) :: 32 word)
           in kbind (uvmunmap pagetable (PGROUNDUP newsz) (scast npages) True s) (\<lambda>_ s. Done newsz s)
      else Done newsz s)"

section \<open>User address spaces\<close>

definition uvmcreate :: "'z kmem_scheme \<Rightarrow> (addr, 'z kmem_scheme) outcome" where
  "uvmcreate s =
     kbind (kalloc s) (\<lambda>pagetable s. if pagetable = 0 then Done 0 s else Done pagetable (zero_page pagetable s))"

definition uvmfirst :: "addr \<Rightarrow> addr \<Rightarrow> uint \<Rightarrow> 'z kmem_scheme \<Rightarrow> (unit, 'z kmem_scheme) outcome" where
  "uvmfirst pagetable src sz s =
     (if sz \<ge> 4096 then Panic ''uvmfirst: more than a page''
      else kbind (kalloc s) (\<lambda>p s.
        kbind (mappages pagetable 0 PGSIZE p (PTE_W OR PTE_R OR PTE_X OR PTE_U) (zero_page p s)) (\<lambda>_ s.
          Done () (s\<lparr>mem := memmove (mem s) p src sz\<rparr>))))"

lemma mappages_Done_MAXVA: "mappages pt va sz pa perm s = Done r t \<Longrightarrow> unat va < 274877906944"
  by (auto simp: mappages_def mappages_loop.simps [of pt va] outcome_simps dest: walk_Done_MAXVA
      split: if_splits)

lemma supermappages_Done_MAXVA: "supermappages pt va pa perm s = Done r t \<Longrightarrow> unat va < 274877906944"
  by (auto simp: supermappages_def outcome_simps dest: superwalk_Done_MAXVA split: if_splits)

function uvmalloc_loop ::
  "addr \<Rightarrow> uint64 \<Rightarrow> uint64 \<Rightarrow> uint64 \<Rightarrow> pte \<Rightarrow> 'z kmem_scheme \<Rightarrow> (uint64, 'z kmem_scheme) outcome" where
  "uvmalloc_loop pagetable a oldsz newsz xperm s =
     (if a < newsz
      then if a mod SUPERPGSIZE = 0 \<and> newsz - a \<ge> SUPERPGSIZE
      then kbind (superalloc s) (\<lambda>p s.
        if p = 0 then kbind (uvmdealloc pagetable a oldsz s) (\<lambda>_ s. Done 0 s)
        else kbind (supermappages pagetable a p (PTE_R OR PTE_W OR PTE_U OR xperm)
                      (s\<lparr>mem := memset (mem s) p 0 2097152\<rparr>)) (\<lambda>r s.
          if r \<noteq> 0
          then kbind (superfree p s) (\<lambda>_ s. kbind (uvmdealloc pagetable a oldsz s) (\<lambda>_ s. Done 0 s))
          else uvmalloc_loop pagetable (a + SUPERPGSIZE) oldsz newsz xperm s))
      else kbind (kalloc s) (\<lambda>p s.
        if p = 0 then kbind (uvmdealloc pagetable a oldsz s) (\<lambda>_ s. Done 0 s)
        else kbind (mappages pagetable a PGSIZE p (PTE_R OR PTE_U OR xperm) (zero_page p s)) (\<lambda>r s.
          if r \<noteq> 0
          then kbind (kfree p s) (\<lambda>_ s. kbind (uvmdealloc pagetable a oldsz s) (\<lambda>_ s. Done 0 s))
          else uvmalloc_loop pagetable (a + PGSIZE) oldsz newsz xperm s))
      else Done newsz s)"
  by pat_completeness auto
termination
  by (relation "measure (\<lambda>(pagetable, a, oldsz, newsz, xperm, s). 274877906944 - unat a)")
    (auto dest!: mappages_Done_MAXVA supermappages_Done_MAXVA simp: unat_va_step)

definition uvmalloc ::
  "addr \<Rightarrow> uint64 \<Rightarrow> uint64 \<Rightarrow> pte \<Rightarrow> 'z kmem_scheme \<Rightarrow> (uint64, 'z kmem_scheme) outcome" where
  "uvmalloc pagetable oldsz newsz xperm s =
     (if newsz < oldsz then Done oldsz s
      else let oldsz = PGROUNDUP oldsz in uvmalloc_loop pagetable oldsz oldsz newsz xperm s)"

declare uvmalloc_loop.simps [simp del]

text \<open>
  \<^verbatim>\<open>freewalk\<close> recurses into every entry that points to a lower table. The recursion is
  bounded by a depth, 3 at the only callers (a page table has three levels); a table
  nested deeper is the outcome \<open>Panic ''freewalk: depth''\<close>, which no panic of the
  sources uses.
\<close>

function freewalk :: "nat \<Rightarrow> addr \<Rightarrow> 'z kmem_scheme \<Rightarrow> (unit, 'z kmem_scheme) outcome"
  and freewalk_loop :: "nat \<Rightarrow> addr \<Rightarrow> nat \<Rightarrow> 'z kmem_scheme \<Rightarrow> (unit, 'z kmem_scheme) outcome" where
  "freewalk 0 pagetable s = Panic ''freewalk: depth''"
| "freewalk (Suc d) pagetable s = kbind (freewalk_loop d pagetable 0 s) (\<lambda>_ s. kfree pagetable s)"
| "freewalk_loop d pagetable i s =
     (if i < 512
      then let pte = read_pte (pte_slot pagetable (of_nat i)) s
           in if pte AND PTE_V \<noteq> 0 \<and> pte AND (PTE_R OR PTE_W OR PTE_X) = 0
              then kbind (freewalk d (PTE2PA pte) s) (\<lambda>_ s.
                freewalk_loop d pagetable (Suc i) (write_pte (pte_slot pagetable (of_nat i)) 0 s))
              else if pte AND PTE_V \<noteq> 0 then Panic ''freewalk: leaf''
              else freewalk_loop d pagetable (Suc i) s
      else Done () s)"
  by pat_completeness auto
termination
  by (relation "measures [\<lambda>x. case x of Inl (d, p, s) \<Rightarrow> 2 * d | Inr (d, p, i, s) \<Rightarrow> Suc (2 * d),
      \<lambda>x. case x of Inl (d, p, s) \<Rightarrow> 0 | Inr (d, p, i, s) \<Rightarrow> 512 - i]") auto

declare freewalk_loop.simps [simp del]

definition uvmfree :: "addr \<Rightarrow> uint64 \<Rightarrow> 'z kmem_scheme \<Rightarrow> (unit, 'z kmem_scheme) outcome" where
  "uvmfree pagetable sz s =
     kbind (if sz > 0 then uvmunmap pagetable 0 (PGROUNDUP sz div PGSIZE) True s else Done () s) (\<lambda>_ s.
       freewalk 3 pagetable s)"

function uvmcopy_loop ::
  "addr \<Rightarrow> addr \<Rightarrow> uint64 \<Rightarrow> uint64 \<Rightarrow> 'z kmem_scheme \<Rightarrow> (int, 'z kmem_scheme) outcome" where
  "uvmcopy_loop old new i sz s =
     (let err = (\<lambda>s. kbind (uvmunmap new 0 (i div PGSIZE) True s) (\<lambda>_ s. Done (-1) s))
      in if i < sz
      then kbind (superpage_at old i s) (\<lambda>spte s.
        if spte \<noteq> 0
        then let spa = PTE2PA (read_pte spte s); flags = PTE_FLAGS (read_pte spte s)
             in kbind (superalloc s) (\<lambda>p s.
               if p = 0 then err s
               else kbind (supermappages new i p flags (s\<lparr>mem := memmove (mem s) p spa 2097152\<rparr>)) (\<lambda>r s.
                 if r \<noteq> 0 then kbind (superfree p s) (\<lambda>_ s. err s)
                 else uvmcopy_loop old new (i + SUPERPGSIZE) sz s))
        else kbind (walk old i False s) (\<lambda>pte s.
          if pte = 0 then Panic ''uvmcopy: pte should exist''
          else if read_pte pte s AND PTE_V = 0 then Panic ''uvmcopy: page not present''
          else let pa = PTE2PA (read_pte pte s); flags = PTE_FLAGS (read_pte pte s)
               in kbind (kalloc s) (\<lambda>p s.
                 if p = 0 then err s
                 else kbind (mappages new i PGSIZE p flags (s\<lparr>mem := memmove (mem s) p pa 4096\<rparr>)) (\<lambda>r s.
                   if r \<noteq> 0 then kbind (kfree p s) (\<lambda>_ s. err s)
                   else uvmcopy_loop old new (i + PGSIZE) sz s))))
      else Done 0 s)"
  by pat_completeness auto
termination
  by (relation "measure (\<lambda>(old, new, i, sz, s). 274877906944 - unat i)")
    (auto dest!: mappages_Done_MAXVA supermappages_Done_MAXVA simp: unat_va_step)

definition uvmcopy :: "addr \<Rightarrow> addr \<Rightarrow> uint64 \<Rightarrow> 'z kmem_scheme \<Rightarrow> (int, 'z kmem_scheme) outcome" where
  "uvmcopy old new sz s = uvmcopy_loop old new 0 sz s"

declare uvmcopy_loop.simps [simp del]

definition uvmclear :: "addr \<Rightarrow> uint64 \<Rightarrow> 'z kmem_scheme \<Rightarrow> (unit, 'z kmem_scheme) outcome" where
  "uvmclear pagetable va s =
     kbind (walk pagetable va False s) (\<lambda>pte s.
       if pte = 0 then Panic ''uvmclear''
       else Done () (write_pte pte (read_pte pte s AND NOT PTE_U) s))"

section \<open>Copying between kernel and user memory\<close>

text \<open>Bytes of a kernel buffer stored at, and loaded from, a physical address.\<close>

definition store_bytes :: "memory \<Rightarrow> addr \<Rightarrow> byte list \<Rightarrow> memory" where
  "store_bytes m a bs = (\<lambda>x. if unat (x - a) < length bs then bs ! unat (x - a) else m x)"

definition load_bytes :: "memory \<Rightarrow> addr \<Rightarrow> nat \<Rightarrow> byte list" where
  "load_bytes m a n = map (\<lambda>i. m (a + of_nat i)) [0..<n]"

text \<open>Bytes from a user address to the end of its page, \<^verbatim>\<open>PGSIZE - (va - va0)\<close>.\<close>

definition to_page_end :: "uint64 \<Rightarrow> nat" where
  "to_page_end va = unat (PGSIZE - (va - PGROUNDDOWN va))"

lemma unat_page_rest: "unat (va - PGROUNDDOWN va) = unat va mod 4096"
proof -
  have le: "PGROUNDDOWN va \<le> va" by (simp add: word_le_nat_alt unat_PGROUNDDOWN)
  have "unat (va - PGROUNDDOWN va) = unat va - unat va div 4096 * 4096"
    by (simp add: unat_sub [OF le] unat_PGROUNDDOWN)
  then show ?thesis by (simp add: minus_div_mult_eq_mod)
qed

lemma to_page_end_eq: "to_page_end va = 4096 - unat va mod 4096"
proof -
  have "va - PGROUNDDOWN va \<le> 4096"
    by (simp add: word_le_nat_alt unat_page_rest)
  then show ?thesis
    by (simp add: to_page_end_def unat_sub unat_page_rest)
qed

lemma to_page_end_pos: "0 < to_page_end va" and to_page_end_le: "to_page_end va \<le> 4096"
  by (simp_all add: to_page_end_eq)

function copyout :: "addr \<Rightarrow> uint64 \<Rightarrow> byte list \<Rightarrow> 'z kmem_scheme \<Rightarrow> (int, 'z kmem_scheme) outcome" where
  "copyout pagetable dstva src s =
     (if src = [] then Done 0 s
      else let va0 = PGROUNDDOWN dstva
           in if va0 \<ge> MAXVA then Done (-1) s
              else kbind (walk pagetable va0 False s) (\<lambda>pte s.
                if pte = 0 then Done (-1) s
                else if read_pte pte s AND PTE_W = 0 then Done (-1) s
                else kbind (walkaddr pagetable va0 s) (\<lambda>pa0 s.
                  if pa0 = 0 then Done (-1) s
                  else let n = min (to_page_end dstva) (length src)
                       in copyout pagetable (va0 + PGSIZE) (drop n src)
                            (s\<lparr>mem := store_bytes (mem s) (pa0 + (dstva - va0)) (take n src)\<rparr>))))"
  by pat_completeness auto
termination
  by (relation "measure (\<lambda>(pagetable, dstva, src, s). length src)") (auto simp: to_page_end_pos)

function copyin :: "addr \<Rightarrow> uint64 \<Rightarrow> nat \<Rightarrow> 'z kmem_scheme \<Rightarrow> (int \<times> byte list, 'z kmem_scheme) outcome" where
  "copyin pagetable srcva len s =
     (if len = 0 then Done (0, []) s
      else let va0 = PGROUNDDOWN srcva
           in kbind (walkaddr pagetable va0 s) (\<lambda>pa0 s.
                if pa0 = 0 then Done (-1, []) s
                else let n = min (to_page_end srcva) len;
                         bs = load_bytes (mem s) (pa0 + (srcva - va0)) n
                     in kbind (copyin pagetable (va0 + PGSIZE) (len - n) s) (\<lambda>(r, rest) s.
                          Done (r, bs @ rest) s)))"
  by pat_completeness auto
termination
  by (relation "measure (\<lambda>(pagetable, srcva, len, s). len)") (auto simp: to_page_end_pos)

text \<open>The inner loop of \<^verbatim>\<open>copyinstr\<close>: the bytes stored and whether a NUL was met.\<close>

fun copyinstr_page :: "memory \<Rightarrow> addr \<Rightarrow> nat \<Rightarrow> byte list \<times> bool" where
  "copyinstr_page m p 0 = ([], False)"
| "copyinstr_page m p (Suc n) =
     (if m p = 0 then ([0], True)
      else let (bs, got_null) = copyinstr_page m (p + 1) n in (m p # bs, got_null))"

function copyinstr :: "addr \<Rightarrow> uint64 \<Rightarrow> nat \<Rightarrow> 'z kmem_scheme \<Rightarrow> (int \<times> byte list, 'z kmem_scheme) outcome" where
  "copyinstr pagetable srcva maxlen s =
     (if maxlen = 0 then Done (-1, []) s
      else let va0 = PGROUNDDOWN srcva
           in kbind (walkaddr pagetable va0 s) (\<lambda>pa0 s.
                if pa0 = 0 then Done (-1, []) s
                else let n = min (to_page_end srcva) maxlen;
                         (bs, got_null) = copyinstr_page (mem s) (pa0 + (srcva - va0)) n
                     in if got_null then Done (0, bs) s
                        else kbind (copyinstr pagetable (va0 + PGSIZE) (maxlen - n) s) (\<lambda>(r, rest) s.
                               Done (r, bs @ rest) s)))"
  by pat_completeness auto
termination
  by (relation "measure (\<lambda>(pagetable, srcva, maxlen, s). maxlen)") (auto simp: to_page_end_pos)

declare copyout.simps [simp del] copyin.simps [simp del] copyinstr.simps [simp del]

section \<open>The kernel page table\<close>

fun proc_mapstacks_loop :: "addr \<Rightarrow> nat \<Rightarrow> nat \<Rightarrow> 'z kmem_scheme \<Rightarrow> (unit, 'z kmem_scheme) outcome" where
  "proc_mapstacks_loop kpgtbl p 0 s = Done () s"
| "proc_mapstacks_loop kpgtbl p (Suc n) s =
     kbind (kalloc s) (\<lambda>pa s.
       if pa = 0 then Panic ''kalloc''
       else kbind (kvmmap kpgtbl (KSTACK p) pa PGSIZE (PTE_R OR PTE_W) s) (\<lambda>_ s.
         proc_mapstacks_loop kpgtbl (Suc p) n s))"

definition proc_mapstacks :: "addr \<Rightarrow> 'z kmem_scheme \<Rightarrow> (unit, 'z kmem_scheme) outcome" where
  "proc_mapstacks kpgtbl s = proc_mapstacks_loop kpgtbl 0 64 s"

definition kvmmake :: "'z vm_scheme \<Rightarrow> (addr, 'z vm_scheme) outcome" where
  "kvmmake s =
     kbind (kalloc s) (\<lambda>kpgtbl s.
     kbind (kvmmap kpgtbl UART0 UART0 PGSIZE (PTE_R OR PTE_W) (zero_page kpgtbl s)) (\<lambda>_ s.
     kbind (kvmmap kpgtbl VIRTIO0 VIRTIO0 PGSIZE (PTE_R OR PTE_W) s) (\<lambda>_ s.
     kbind (kvmmap kpgtbl PLIC PLIC 0x4000000 (PTE_R OR PTE_W) s) (\<lambda>_ s.
     kbind (kvmmap kpgtbl KERNBASE KERNBASE (etext s - KERNBASE) (PTE_R OR PTE_X) s) (\<lambda>_ s.
     kbind (kvmmap kpgtbl (etext s) (etext s) (PHYSTOP - etext s) (PTE_R OR PTE_W) s) (\<lambda>_ s.
     kbind (kvmmap kpgtbl TRAMPOLINE (trampoline s) PGSIZE (PTE_R OR PTE_X) s) (\<lambda>_ s.
     kbind (proc_mapstacks kpgtbl s) (\<lambda>_ s. Done kpgtbl s))))))))"

definition kvminit :: "'z vm_scheme \<Rightarrow> (unit, 'z vm_scheme) outcome" where
  "kvminit s = kbind (kvmmake s) (\<lambda>pt s. Done () (s\<lparr>kernel_pagetable := pt\<rparr>))"

definition kvminithart :: "'z vm_scheme \<Rightarrow> (unit, 'z vm_scheme) outcome" where
  "kvminithart s = Done () (s\<lparr>satp := MAKE_SATP (kernel_pagetable s)\<rparr>)"

section \<open>Printing a page table\<close>

text \<open>One printed line: the depth, which sets the indentation, the address, the entry and \<^verbatim>\<open>PTE2PA\<close> of it.\<close>

datatype vmline = VmLine nat uint64 pte uint64

text \<open>The first argument bounds the recursion as in \<^verbatim>\<open>freewalk\<close>; the lines below it are cut off.\<close>

fun vmprint_recurse :: "nat \<Rightarrow> memory \<Rightarrow> addr \<Rightarrow> nat \<Rightarrow> uint64 \<Rightarrow> vmline list" where
  "vmprint_recurse 0 m pagetable depth va_recursive = []"
| "vmprint_recurse (Suc d) m pagetable depth va_recursive =
     concat (map (\<lambda>i.
       let pte = load64 m (pte_slot pagetable (of_nat i))
       in if pte AND PTE_V = 0 then []
          else let va = va_recursive OR push_bit (PXSHIFT (2 - depth)) (of_nat i)
               in VmLine depth va pte (PTE2PA pte) #
                  (if pte AND PTE_V \<noteq> 0 \<and> pte AND (PTE_R OR PTE_W OR PTE_X) = 0
                   then vmprint_recurse d m (PTE2PA pte) (depth + 1) va else [])) [0..<512])"

definition vmprint :: "addr \<Rightarrow> memory \<Rightarrow> vmline list" where
  "vmprint pagetable m = vmprint_recurse 3 m pagetable 0 0"

end
