(* ===== verification/PageTable.thy ===== *)
theory PageTable
  imports Vm "HOL-Library.Sublist"
begin

text \<open>
  The structure of a page table in memory and what the routines of \<^verbatim>\<open>kernel/vm.c\<close> do to
  it. A table page is named by the path of indices from the root; the invariant
  \<open>pt_state\<close> says that distinct paths lead to distinct pages, all of them pages of the
  allocator and none of them free. The abstraction \<open>lookup\<close> is the mapping the page
  table stands for. Each routine is shown to have its effect on this mapping, and no
  other, and to keep the invariant.
\<close>

section \<open>Entries\<close>

lemma page_aligned_bits: "page_aligned p \<longleftrightarrow> (\<forall>n<12. \<not> bit p n)"
proof -
  have "page_aligned p \<longleftrightarrow> take_bit 12 p = 0"
    by (simp add: page_aligned_def take_bit_eq_mod)
  also have "\<dots> \<longleftrightarrow> (\<forall>n<12. \<not> bit p n)"
    by (auto simp: bit_eq_iff bit_take_bit_iff)
  finally show ?thesis .
qed

lemma PTE2PA_PA2PTE:
  assumes "page_aligned p" "unat p < 72057594037927936" "unat f < 1024"
  shows "PTE2PA (PA2PTE p OR f) = p"
proof (rule bit_word_eqI)
  fix n assume "n < LENGTH(64)"
  then have n: "n < 64" by simp
  have low: "\<not> bit p n" if "n < 12"
    using assms(1) that by (simp add: page_aligned_bits)
  have high: "\<not> bit p n" if "56 \<le> n"
    using assms(2) that by (intro bit_unat_small [of p 56]) simp_all
  have fl: "\<not> bit f (n - 2)" if "12 \<le> n"
    using assms(3) that by (intro bit_unat_small [of f 10]) simp_all
  have eq: "10 + (n - 12) = n - 2" if "12 \<le> n" using that by simp
  show "bit (PTE2PA (PA2PTE p OR f)) n = bit p n"
    using n low high fl by (cases "12 \<le> n") (auto simp: PTE2PA_def PA2PTE_def bit_simps eq)
qed

lemma page_aligned_PTE2PA [simp]: "page_aligned (PTE2PA e)"
  by (simp add: page_aligned_bits PTE2PA_def bit_simps)


text \<open>A valid entry that points to a lower-level table.\<close>

definition is_table :: "pte \<Rightarrow> bool" where
  "is_table e \<longleftrightarrow> e AND PTE_V \<noteq> 0 \<and> PTE_LEAF e = 0"

lemma and_pow2_bit: "(e :: 64 word) AND 2 ^ n = 0 \<longleftrightarrow> \<not> bit e n"
  by (simp add: and_exp_eq_0_iff_not_bit)

lemma PTE_V_bit [simp]: "(e :: pte) AND 1 = 0 \<longleftrightarrow> \<not> bit e 0"
  using and_pow2_bit [of e 0] by simp

lemma PTE_R_bit [simp]: "(e :: pte) AND 2 = 0 \<longleftrightarrow> \<not> bit e (Suc 0)"
  using and_pow2_bit [of e 1] by simp

lemma PTE_W_bit [simp]: "(e :: pte) AND 4 = 0 \<longleftrightarrow> \<not> bit e 2"
  using and_pow2_bit [of e 2] by simp

lemma PTE_X_bit [simp]: "(e :: pte) AND 8 = 0 \<longleftrightarrow> \<not> bit e 3"
  using and_pow2_bit [of e 3] by simp

lemma PTE_U_bit [simp]: "(e :: pte) AND 16 = 0 \<longleftrightarrow> \<not> bit e 4"
  using and_pow2_bit [of e 4] by simp

lemma PTE_LEAF_bits: "PTE_LEAF e = 0 \<longleftrightarrow> \<not> bit e 1 \<and> \<not> bit e 2 \<and> \<not> bit e 3"
  by (simp add: PTE_LEAF_def or_eq_0_iff)

lemma is_table_bits: "is_table e \<longleftrightarrow> bit e 0 \<and> \<not> bit e 1 \<and> \<not> bit e 2 \<and> \<not> bit e 3"
  by (simp add: is_table_def PTE_LEAF_bits)

lemma bit_PA2PTE_low: "n < 10 \<Longrightarrow> \<not> bit (PA2PTE p) n"
  by (simp add: PA2PTE_def bit_simps)

lemma is_table_new: "is_table (PA2PTE p OR PTE_V)"
  by (simp add: is_table_bits bit_simps bit_PA2PTE_low bit_1_iff)

lemma unat_PX: "unat (PX l va) < 512"
proof -
  have "unat (drop_bit (PXSHIFT l) va AND mask 9) < 512"
    by (simp add: unat_and_mask)
  then show ?thesis by (simp add: PX_def mask_eq_exp_minus_1)
qed

section \<open>Slots\<close>

lemma unat_pte_slot:
  assumes "page_aligned t" "unat i < 512"
  shows "unat (pte_slot t i) = unat t + 8 * unat i"
proof -
  have "8 * i = of_nat (8 * unat i)" by simp
  then show ?thesis
    unfolding pte_slot_def using unat_page_offset [OF assms(1), of "8 * unat i"] assms(2) by simp
qed

lemma pte_slot_offset: "pte_slot t i + of_nat k = t + of_nat (8 * unat i + k)"
  by (simp add: pte_slot_def)

lemma PGROUNDDOWN_slot:
  assumes "page_aligned t" "unat i < 512" "k < 8"
  shows "PGROUNDDOWN (pte_slot t i + of_nat k) = t"
  using assms by (simp only: pte_slot_offset) (intro PGROUNDDOWN_offset, simp_all)

lemma slot_bytes_disjoint:
  assumes "page_aligned t" "page_aligned u" "unat i < 512" "unat j < 512" "k < 8"
    and "(t, i) \<noteq> (u, j)"
  shows "\<not> pte_slot u j + of_nat k - pte_slot t i < 8"
proof
  assume less: "pte_slot u j + of_nat k - pte_slot t i < 8"
  then obtain l where l: "l < 8" "pte_slot u j + of_nat k = pte_slot t i + of_nat l"
  proof -
    let ?l = "unat (pte_slot u j + of_nat k - pte_slot t i)"
    have "?l < 8" using less by (simp add: word_less_nat_alt)
    moreover have "pte_slot u j + of_nat k = pte_slot t i + of_nat ?l" by simp
    ultimately show thesis by (rule that)
  qed
  then have "u = t"
    using PGROUNDDOWN_slot [OF assms(2,4,5)] PGROUNDDOWN_slot [OF assms(1,3) l(1)] by simp
  moreover have "8 * unat j + k = 8 * unat i + l"
    using l(2) page_offset_inj [OF assms(1), of "8 * unat j + k" "8 * unat i + l"] assms(3,4,5) l(1)
    by (simp add: pte_slot_offset \<open>u = t\<close>)
  then have "unat i = unat j" using assms(5) l(1) by linarith
  ultimately show False using assms(6) by (simp add: word_eq_iff_unat64)
qed

lemma load64_store64_slot:
  assumes "page_aligned t" "page_aligned u" "unat i < 512" "unat j < 512"
  shows "load64 (store64 m (pte_slot t i) v) (pte_slot u j) =
    (if (t, i) = (u, j) then v else load64 m (pte_slot u j))"
proof (cases "(t, i) = (u, j)")
  case False
  have "load64 (store64 m (pte_slot t i) v) (pte_slot u j) = load64 m (pte_slot u j)"
  proof (rule load64_cong)
    fix k :: nat assume "k < 8"
    with assms False have "\<not> pte_slot u j + of_nat k - pte_slot t i < 8"
      by (intro slot_bytes_disjoint)
    then show "store64 m (pte_slot t i) v (pte_slot u j + of_nat k) = m (pte_slot u j + of_nat k)"
      by (rule store64_other)
  qed
  with False show ?thesis by auto
qed auto

lemma store64_slot_outside:
  assumes "page_aligned t" "unat i < 512" "PGROUNDDOWN a \<noteq> t"
  shows "store64 m (pte_slot t i) v a = m a"
proof (rule store64_other, rule notI)
  let ?k = "unat (a - pte_slot t i)"
  assume "a - pte_slot t i < 8"
  then have "?k < 8" by (simp add: word_less_nat_alt)
  moreover have "a = pte_slot t i + of_nat ?k" by simp
  ultimately show False using PGROUNDDOWN_slot [OF assms(1,2)] assms(3) by metis
qed

lemma load64_slot_same:
  assumes "page_aligned t" "unat i < 512" "\<And>a. PGROUNDDOWN a = t \<Longrightarrow> m' a = m a"
  shows "load64 m' (pte_slot t i) = load64 m (pte_slot t i)"
  by (rule load64_cong) (simp add: assms PGROUNDDOWN_slot)

lemma load64_zeroed:
  assumes "page_aligned t" "unat i < 512" "\<And>a. PGROUNDDOWN a = t \<Longrightarrow> m a = 0"
  shows "load64 m (pte_slot t i) = 0"
proof -
  have "load64 m (pte_slot t i) = load64 (\<lambda>_. 0) (pte_slot t i)"
    using assms by (intro load64_slot_same) auto
  also have "\<dots> = 0" by (rule bit_word_eqI) (simp add: bit_load64)
  finally show ?thesis .
qed

section \<open>Tables and paths\<close>

text \<open>The table that an entry of a table leads to, and the table at the end of a path of indices.\<close>

definition child :: "memory \<Rightarrow> addr \<Rightarrow> uint64 \<Rightarrow> addr option" where
  "child m t i = (let e = load64 m (pte_slot t i) in if is_table e then Some (PTE2PA e) else None)"

fun tbl :: "memory \<Rightarrow> addr \<Rightarrow> uint64 list \<Rightarrow> addr option" where
  "tbl m t [] = Some t"
| "tbl m t (i # is) = Option.bind (child m t i) (\<lambda>u. tbl m u is)"

text \<open>Paths to table pages: at most two indices below the root, each below 512.\<close>

definition good_path :: "uint64 list \<Rightarrow> bool" where
  "good_path p \<longleftrightarrow> length p \<le> 2 \<and> (\<forall>i\<in>set p. unat i < 512)"

definition va_path :: "uint64 \<Rightarrow> uint64 list" where
  "va_path va = [PX 2 va, PX 1 va, PX 0 va]"

definition tables :: "memory \<Rightarrow> addr \<Rightarrow> addr set" where
  "tables m pt = {t. \<exists>p. good_path p \<and> tbl m pt p = Some t}"

definition pt_inj :: "memory \<Rightarrow> addr \<Rightarrow> bool" where
  "pt_inj m pt \<longleftrightarrow> (\<forall>p q t. good_path p \<longrightarrow> good_path q \<longrightarrow>
     tbl m pt p = Some t \<longrightarrow> tbl m pt q = Some t \<longrightarrow> p = q)"

definition pt_state :: "'z kmem_scheme \<Rightarrow> addr \<Rightarrow> addr list \<Rightarrow> bool" where
  "pt_state s pt fl \<longleftrightarrow> kmem_pool s fl \<and> pt_inj (mem s) pt \<and>
     (\<forall>t\<in>tables (mem s) pt. phys_page s t \<and> t \<notin> set fl)"

lemma tbl_append: "tbl m t (p @ q) = Option.bind (tbl m t p) (\<lambda>u. tbl m u q)"
  by (induction p arbitrary: t) (simp_all add: Option.bind_assoc)

lemma tbl_snoc: "tbl m t (p @ [i]) = Option.bind (tbl m t p) (\<lambda>u. child m u i)"
  by (simp add: tbl_append)

lemma good_path_snocD: "good_path (p @ [i]) \<Longrightarrow> good_path p \<and> unat i < 512"
  by (simp add: good_path_def)

lemma good_path_Nil [simp]: "good_path []"
  by (simp add: good_path_def)

lemma tables_root [simp]: "pt \<in> tables m pt"
  unfolding tables_def by (intro CollectI exI [of _ "[]"]) simp

lemma tblI: "good_path p \<Longrightarrow> tbl m pt p = Some t \<Longrightarrow> t \<in> tables m pt"
  by (auto simp: tables_def)

lemma pt_state_table:
  assumes "pt_state s pt fl" "t \<in> tables (mem s) pt"
  shows "page_aligned t" "phys_page s t" "t \<notin> set fl" "t \<noteq> 0" "unat t < 2281701376"
proof -
  show "phys_page s t" "t \<notin> set fl" using assms by (auto simp: pt_state_def)
  then show "page_aligned t" "t \<noteq> 0" "unat t < 2281701376"
    using assms(1) by (auto simp: phys_page_def pt_state_def kmem_pool_def word_less_nat_alt)
qed

text \<open>Tables depend only on the contents of the table pages.\<close>

lemma child_cong:
  assumes "page_aligned t" "unat i < 512" "\<And>a. PGROUNDDOWN a = t \<Longrightarrow> m' a = m a"
  shows "child m' t i = child m t i"
  using load64_slot_same [OF assms] by (simp add: child_def)

lemma tbl_same:
  assumes al: "\<And>t. t \<in> tables m pt \<Longrightarrow> page_aligned t"
    and eq: "\<And>a. PGROUNDDOWN a \<in> tables m pt \<Longrightarrow> m' a = m a"
    and "good_path p"
  shows "tbl m' pt p = tbl m pt p"
  using assms(3)
proof (induction p rule: rev_induct)
  case (snoc i p)
  then have p: "good_path p" "unat i < 512" using good_path_snocD by blast+
  show ?case
  proof (cases "tbl m pt p")
    case None
    then show ?thesis using snoc.IH p by (simp add: tbl_snoc)
  next
    case (Some t)
    then have "t \<in> tables m pt" using p(1) by (rule tblI [rotated])
    then have "child m' t i = child m t i" using p(2) al eq by (intro child_cong) auto
    with Some snoc.IH p show ?thesis by (simp add: tbl_snoc)
  qed
qed simp

lemma tables_same:
  assumes "\<And>t. t \<in> tables m pt \<Longrightarrow> page_aligned t"
    and "\<And>a. PGROUNDDOWN a \<in> tables m pt \<Longrightarrow> m' a = m a"
  shows "tables m' pt = tables m pt" "pt_inj m' pt = pt_inj m pt"
  using tbl_same [OF assms] by (auto simp: tables_def pt_inj_def)

text \<open>
  A store to the entry \<open>i\<close> of the table at path \<open>p\<close> changes only the paths that go
  through that entry.
\<close>

lemma tbl_store_other:
  assumes inj: "pt_inj m pt" and al: "\<And>t. t \<in> tables m pt \<Longrightarrow> page_aligned t"
    and p: "good_path p" "tbl m pt p = Some t" and i: "unat i < 512"
    and q: "good_path q" "\<not> prefix (p @ [i]) q"
  shows "tbl (store64 m (pte_slot t i) v) pt q = tbl m pt q"
  using q
proof (induction q rule: rev_induct)
  case (snoc j q)
  let ?m = "store64 m (pte_slot t i) v"
  have gq: "good_path q" "unat j < 512" using snoc.prems(1) good_path_snocD by blast+
  have "\<not> prefix (p @ [i]) q" using snoc.prems(2) by (meson append_prefixD prefix_order.trans prefixI)
  with snoc.IH gq have IH: "tbl ?m pt q = tbl m pt q" by blast
  show ?case
  proof (cases "tbl m pt q")
    case None
    then show ?thesis using IH by (simp add: tbl_snoc)
  next
    case (Some u)
    have "(t, i) \<noteq> (u, j)"
    proof
      assume eq: "(t, i) = (u, j)"
      then have "p = q" using inj p gq(1) Some by (auto simp: pt_inj_def)
      with eq snoc.prems(2) show False by simp
    qed
    moreover have "page_aligned t" "page_aligned u" using al tblI p gq(1) Some by blast+
    ultimately have "child ?m u j = child m u j"
      using i gq(2) by (auto simp: child_def load64_store64_slot)
    with IH Some show ?thesis by (simp add: tbl_snoc)
  qed
qed simp

section \<open>Entries\<close>

text \<open>
  The entry at a path: the last index selects the entry in the table at the path before it.
  The partial function \<open>ent\<close> is the abstract page table that the stores below update.
\<close>

definition ent :: "memory \<Rightarrow> addr \<Rightarrow> uint64 list \<Rightarrow> pte option" where
  "ent m pt p = map_option (\<lambda>t. load64 m (pte_slot t (last p))) (tbl m pt (butlast p))"

definition entry_path :: "uint64 list \<Rightarrow> bool" where
  "entry_path p \<longleftrightarrow> p \<noteq> [] \<and> length p \<le> 3 \<and> (\<forall>i\<in>set p. unat i < 512)"

lemma ent_snoc: "ent m pt (p @ [i]) = map_option (\<lambda>t. load64 m (pte_slot t i)) (tbl m pt p)"
  by (simp add: ent_def)

lemma tbl_ent:
  "tbl m pt (p @ [i]) = Option.bind (ent m pt (p @ [i])) (\<lambda>e. if is_table e then Some (PTE2PA e) else None)"
  by (cases "tbl m pt p") (simp_all add: tbl_snoc ent_snoc child_def Let_def)

lemma entry_path_snoc: "entry_path (p @ [i]) \<longleftrightarrow> good_path p \<and> unat i < 512"
  by (auto simp: entry_path_def good_path_def)

lemma entry_path_cases:
  assumes "entry_path p"
  obtains q i where "p = q @ [i]" "good_path q" "unat i < 512"
  using assms entry_path_snoc by (cases p rule: rev_cases) (auto simp: entry_path_def)

lemma good_entry_path: "good_path p \<Longrightarrow> p \<noteq> [] \<Longrightarrow> entry_path p"
  by (simp add: good_path_def entry_path_def)

lemma tbl_of_ent:
  assumes "\<And>q. entry_path q \<Longrightarrow> length q \<le> 2 \<Longrightarrow> ent m' pt q = ent m pt q" "good_path p"
  shows "tbl m' pt p = tbl m pt p"
proof (cases p rule: rev_cases)
  case (snoc q i)
  then have "ent m' pt p = ent m pt p"
    using assms good_entry_path [of p] by (simp add: good_path_def)
  with snoc show ?thesis by (simp add: tbl_ent)
qed simp

text \<open>Storing an entry that is not a table pointer over one that is not a table pointer.\<close>

definition no_table :: "uint64 list \<Rightarrow> pte \<Rightarrow> bool" where
  "no_table p e \<longleftrightarrow> length p < 3 \<longrightarrow> \<not> is_table e"

lemma tbl_store_leaf:
  assumes inj: "pt_inj m pt" and al: "\<And>t. t \<in> tables m pt \<Longrightarrow> page_aligned t"
    and q: "good_path q" "tbl m pt q = Some t" and i: "unat i < 512"
    and old: "no_table (q @ [i]) (load64 m (pte_slot t i))" and new: "no_table (q @ [i]) v"
    and p: "good_path p"
  shows "tbl (store64 m (pte_slot t i) v) pt p = tbl m pt p"
proof (cases "prefix (q @ [i]) p")
  case False
  with tbl_store_other [OF inj al q i p] show ?thesis by blast
next
  case True
  let ?m = "store64 m (pte_slot t i) v"
  from True obtain r where r: "p = (q @ [i]) @ r" by (auto simp: prefix_def)
  have "tbl ?m pt q = tbl m pt q"
    using q(1) by (intro tbl_store_other [OF inj al q i]) (auto dest: prefix_length_le)
  moreover have "length (q @ [i]) < 3" using p r by (simp add: good_path_def)
  moreover have "load64 ?m (pte_slot t i) = v" by (simp add: load64_store64_same)
  ultimately have "tbl ?m pt (q @ [i]) = None" "tbl m pt (q @ [i]) = None"
    using old new q(2) by (simp_all add: tbl_snoc child_def no_table_def)
  then show ?thesis unfolding r tbl_append [of _ _ "q @ [i]"] by simp
qed

lemma ent_store_leaf:
  assumes inj: "pt_inj m pt" and al: "\<And>t. t \<in> tables m pt \<Longrightarrow> page_aligned t"
    and q: "good_path q" "tbl m pt q = Some t" and i: "unat i < 512"
    and "no_table (q @ [i]) (load64 m (pte_slot t i))" "no_table (q @ [i]) v"
    and p: "entry_path p"
  shows "ent (store64 m (pte_slot t i) v) pt p = (if p = q @ [i] then Some v else ent m pt p)"
proof -
  from p obtain r j where r: "p = r @ [j]" "good_path r" "unat j < 512" by (rule entry_path_cases)
  have tr: "tbl (store64 m (pte_slot t i) v) pt r = tbl m pt r"
    using tbl_store_leaf [OF assms(1-7) r(2)] .
  show ?thesis
  proof (cases "tbl m pt r")
    case None
    with tr r q(2) show ?thesis by (auto simp: ent_snoc)
  next
    case (Some u)
    have tu: "page_aligned t" "page_aligned u" using al tblI q r(2) Some by blast+
    have "(t, i) = (u, j) \<longleftrightarrow> p = q @ [i]"
      using inj q Some r(1,2) by (auto simp: pt_inj_def)
    with tu i r(3) show ?thesis
      by (simp add: r(1) ent_snoc tr Some load64_store64_slot)
  qed
qed

text \<open>Hanging a zeroed page into the tree: what \<^verbatim>\<open>walk\<close> does when it allocates a table.\<close>

lemma ent_same:
  assumes al: "\<And>t. t \<in> tables m pt \<Longrightarrow> page_aligned t"
    and eq: "\<And>a. PGROUNDDOWN a \<in> tables m pt \<Longrightarrow> m' a = m a"
    and p: "entry_path p"
  shows "ent m' pt p = ent m pt p"
proof -
  from p obtain q i where q: "p = q @ [i]" "good_path q" "unat i < 512" by (rule entry_path_cases)
  have tq: "tbl m' pt q = tbl m pt q" using al eq q(2) by (rule tbl_same)
  show ?thesis
  proof (cases "tbl m pt q")
    case (Some t)
    with q(2) have "t \<in> tables m pt" by (intro tblI)
    with al eq q(3) have "load64 m' (pte_slot t i) = load64 m (pte_slot t i)"
      by (intro load64_slot_same) auto
    with q(1) tq Some show ?thesis by (simp add: ent_snoc)
  qed (simp add: q(1) ent_snoc tq)
qed

lemma tbl_extend:
  assumes inj: "pt_inj m pt" and al: "\<And>t. t \<in> tables m pt \<Longrightarrow> page_aligned t"
    and q: "good_path (q @ [i])" "tbl m pt q = Some t"
    and old: "\<not> is_table (load64 m (pte_slot t i))"
    and new: "is_table v" "PTE2PA v = u" "u \<notin> tables m pt" "page_aligned u"
    and zero: "\<And>a. PGROUNDDOWN a = u \<Longrightarrow> m a = 0"
    and p: "good_path p"
  shows "tbl (store64 m (pte_slot t i) v) pt p = (if p = q @ [i] then Some u else tbl m pt p)"
proof (cases "prefix (q @ [i]) p")
  case False
  have "good_path q" "unat i < 512" using q(1) good_path_snocD by blast+
  with tbl_store_other [OF inj al _ q(2) _ p False] False show ?thesis by auto
next
  case True
  let ?m = "store64 m (pte_slot t i) v"
  have gq: "good_path q" "unat i < 512" using q(1) good_path_snocD by blast+
  from True obtain r where r: "p = (q @ [i]) @ r" by (auto simp: prefix_def)
  have "tbl ?m pt q = tbl m pt q"
    using gq by (intro tbl_store_other [OF inj al _ q(2)]) (auto dest: prefix_length_le)
  then have at: "tbl ?m pt (q @ [i]) = Some u" "tbl m pt (q @ [i]) = None"
    using old new q(2) by (simp_all add: tbl_snoc child_def load64_store64_same)
  show ?thesis
  proof (cases r)
    case Nil
    with at r show ?thesis by simp
  next
    case (Cons j r')
    have j: "unat j < 512" using p r Cons by (simp add: good_path_def)
    have t: "page_aligned t" "t \<noteq> u" using al tblI [OF gq(1) q(2)] new(3) by auto
    have "load64 ?m (pte_slot u j) = load64 m (pte_slot u j)"
      using t gq(2) j new(4) by (simp add: load64_store64_slot)
    also have "\<dots> = 0" using new(4) j zero by (rule load64_zeroed)
    finally have "child ?m u j = None" by (simp add: child_def is_table_bits)
    with at Cons show ?thesis unfolding r tbl_append [of _ _ "q @ [i]"] by simp
  qed
qed

lemma ent_extend:
  assumes inj: "pt_inj m pt" and al: "\<And>t. t \<in> tables m pt \<Longrightarrow> page_aligned t"
    and q: "good_path (q @ [i])" "tbl m pt q = Some t"
    and old: "\<not> is_table (load64 m (pte_slot t i))"
    and new: "is_table v" "PTE2PA v = u" "u \<notin> tables m pt" "page_aligned u"
    and zero: "\<And>a. PGROUNDDOWN a = u \<Longrightarrow> m a = 0"
    and p: "entry_path p"
  shows "ent (store64 m (pte_slot t i) v) pt p =
    (if p = q @ [i] then Some v else if butlast p = q @ [i] then Some 0 else ent m pt p)"
proof -
  let ?m = "store64 m (pte_slot t i) v"
  from p obtain r j where r: "p = r @ [j]" "good_path r" "unat j < 512" by (rule entry_path_cases)
  have gq: "good_path q" "unat i < 512" using q(1) good_path_snocD by blast+
  have t: "page_aligned t" "t \<noteq> u" using al tblI [OF gq(1) q(2)] new(3) by auto
  have tr: "tbl ?m pt r = (if r = q @ [i] then Some u else tbl m pt r)"
    using tbl_extend [OF inj al q old new zero r(2)] .
  show ?thesis
  proof (cases "r = q @ [i]")
    case True
    have "load64 ?m (pte_slot u j) = load64 m (pte_slot u j)"
      using t gq(2) r(3) new(4) by (simp add: load64_store64_slot)
    also have "\<dots> = 0" using new(4) r(3) zero by (rule load64_zeroed)
    finally show ?thesis using tr by (simp only: r(1) ent_snoc butlast_snoc) (simp add: True)
  next
    case False
    show ?thesis
    proof (cases "tbl m pt r")
      case None
      with tr False r(1) q(2) show ?thesis by (auto simp: ent_snoc)
    next
      case (Some w)
      have w: "page_aligned w" using al tblI r(2) Some by blast
      have "(t, i) = (w, j) \<longleftrightarrow> p = q @ [i]"
        using inj q gq Some r(1,2) by (auto simp: pt_inj_def)
      with t w gq(2) r(3) False tr show ?thesis
        by (simp add: r(1) ent_snoc Some load64_store64_slot)
    qed
  qed
qed

section \<open>Lookup\<close>

text \<open>
  The entry that the page table holds for a path of indices: the first valid entry that
  is a leaf or is at level 0, with its level.
\<close>

fun lookup_path :: "memory \<Rightarrow> addr \<Rightarrow> uint64 list \<Rightarrow> uint64 list \<Rightarrow> (nat \<times> pte) option" where
  "lookup_path m pt p [] = None"
| "lookup_path m pt p (i # is) =
     (case ent m pt (p @ [i]) of None \<Rightarrow> None
      | Some e \<Rightarrow> if \<not> bit e 0 then None
                  else if is = [] \<or> \<not> is_table e then Some (length is, e)
                  else lookup_path m pt (p @ [i]) is)"

definition lookup :: "memory \<Rightarrow> addr \<Rightarrow> uint64 \<Rightarrow> (nat \<times> pte) option" where
  "lookup m pt va = lookup_path m pt [] (va_path va)"

lemma va_path_good: "i \<in> set (va_path va) \<Longrightarrow> unat i < 512"
  by (auto simp: va_path_def unat_PX)

lemma lookup_path_cong:
  assumes "\<And>q. prefix q is \<Longrightarrow> q \<noteq> [] \<Longrightarrow> ent m' pt (p @ q) = ent m pt (p @ q)"
  shows "lookup_path m' pt p is = lookup_path m pt p is"
  using assms
proof (induction "is" arbitrary: p)
  case (Cons i "is")
  have "ent m' pt (p @ [i]) = ent m pt (p @ [i])" using Cons.prems [of "[i]"] by simp
  moreover have "lookup_path m' pt (p @ [i]) is = lookup_path m pt (p @ [i]) is"
    using Cons.prems [of "i # q" for q] by (intro Cons.IH) simp
  ultimately show ?case by (simp split: option.splits)
qed simp

lemma entry_path_va: "prefix q (va_path va) \<Longrightarrow> q \<noteq> [] \<Longrightarrow> entry_path q"
  using prefix_length_le [of q "va_path va"] va_path_good [of _ va] set_mono_prefix [of q "va_path va"]
  by (auto simp: entry_path_def va_path_def)

lemma lookup_cong:
  assumes "\<And>q. entry_path q \<Longrightarrow> prefix q (va_path va) \<Longrightarrow> ent m' pt q = ent m pt q"
  shows "lookup m' pt va = lookup m pt va"
  unfolding lookup_def using assms entry_path_va by (intro lookup_path_cong) simp

text \<open>A lookup whose path runs through table pointers to the entry at \<open>q\<close>.\<close>

lemma lookup_path_at:
  assumes "tbl m pt (p @ r) = Some t" "length (p @ r) < length (p @ is)" "prefix r is"
  shows "lookup_path m pt p is = lookup_path m pt (p @ r) (drop (length r) is)"
  using assms
proof (induction r arbitrary: p "is")
  case (Cons i r)
  then obtain js where js: "is = i # js" "prefix r js" by (cases "is") auto
  from Cons.prems(1) obtain u where "tbl m pt (p @ [i]) = Some u"
    using tbl_append [of m pt "p @ [i]" r] by (auto split: bind_splits)
  then obtain e where "ent m pt (p @ [i]) = Some e" "is_table e"
    by (auto simp: tbl_ent split: bind_splits if_splits)
  moreover have "js \<noteq> []" using Cons.prems(2) js(1) by auto
  moreover have "lookup_path m pt (p @ [i]) js = lookup_path m pt ((p @ [i]) @ r) (drop (length r) js)"
    using Cons.prems js by (intro Cons.IH) auto
  ultimately show ?case using js(1) by (simp add: is_table_bits)
qed simp

lemma lookup_at:
  assumes "tbl m pt q = Some t" "prefix (q @ [i]) (va_path va)"
  shows "lookup m pt va =
    (let e = load64 m (pte_slot t i)
     in if \<not> bit e 0 then None
        else if length q = 2 \<or> \<not> is_table e then Some (2 - length q, e)
        else lookup_path m pt (q @ [i]) (drop (Suc (length q)) (va_path va)))"
proof -
  from assms(2) obtain r where r: "va_path va = q @ i # r" by (auto simp: prefix_def)
  have "length (va_path va) = 3" by (simp add: va_path_def)
  with r have len: "length q + length r = 2" by simp
  have "lookup m pt va = lookup_path m pt ([] @ q) (drop (length q) (va_path va))"
    unfolding lookup_def using assms(1) r by (intro lookup_path_at) auto
  then show ?thesis using assms(1) len by (auto simp: r ent_snoc Let_def)
qed

section \<open>Updates of the state\<close>

lemma flist_cong:
  assumes "flist m h fl" "\<forall>p\<in>set fl. page_aligned p"
    and "\<And>a. PGROUNDDOWN a \<in> set fl \<Longrightarrow> m' a = m a"
  shows "flist m' h fl"
  using assms
proof (induction fl arbitrary: h)
  case (Cons p fl)
  have "load64 m' p = load64 m p"
  proof (rule load64_cong)
    fix k :: nat assume "k < 8"
    then have "PGROUNDDOWN (p + of_nat k) = p"
      using Cons.prems(2) by (intro PGROUNDDOWN_offset) simp_all
    then show "m' (p + of_nat k) = m (p + of_nat k)" using Cons.prems(3) by simp
  qed
  with Cons show ?case by auto
qed simp

lemma kmem_pool_mem:
  assumes "kmem_pool s fl" "\<And>a. PGROUNDDOWN a \<in> set fl \<Longrightarrow> m' a = mem s a"
  shows "kmem_pool (s\<lparr>mem := m'\<rparr>) fl"
  using assms flist_cong [of "mem s" "freelist s" fl m'] phys_page_cong [of "s\<lparr>mem := m'\<rparr>" s]
  by (auto simp: kmem_pool_def phys_page_def)

text \<open>
  The state \<open>t\<close> comes from \<open>s\<close> by stores to table pages, with the pages \<open>us\<close> of the free
  list turned into tables; \<open>grows\<close> adds that the new tables are empty, so that no lookup
  changes.
\<close>

definition table_step :: "'z kmem_scheme \<Rightarrow> addr \<Rightarrow> addr list \<Rightarrow> addr list \<Rightarrow> 'z kmem_scheme \<Rightarrow> bool" where
  "table_step s pt us fl t \<longleftrightarrow> pt_state t pt fl \<and> tables (mem t) pt = tables (mem s) pt \<union> set us \<and>
     (\<forall>a. PGROUNDDOWN a \<notin> tables (mem t) pt \<longrightarrow> mem t a = mem s a) \<and>
     t = s\<lparr>mem := mem t, freelist := freelist t\<rparr>"

definition grows :: "'z kmem_scheme \<Rightarrow> addr \<Rightarrow> addr list \<Rightarrow> addr list \<Rightarrow> 'z kmem_scheme \<Rightarrow> bool" where
  "grows s pt us fl t \<longleftrightarrow> table_step s pt us fl t \<and> lookup (mem t) pt = lookup (mem s) pt"

lemma grows_refl: "pt_state s pt fl \<Longrightarrow> grows s pt [] fl s"
  by (simp add: grows_def table_step_def)

lemma table_step_trans:
  assumes "table_step s pt us fl t" "table_step t pt vs fl' u"
  shows "table_step s pt (us @ vs) fl' u"
proof -
  have "u = t\<lparr>mem := mem u, freelist := freelist u\<rparr>"
    and t: "t = s\<lparr>mem := mem t, freelist := freelist t\<rparr>"
    using assms unfolding table_step_def by blast+
  moreover have "t\<lparr>mem := a, freelist := b\<rparr> = s\<lparr>mem := a, freelist := b\<rparr>" for a b
    by (subst t) simp
  ultimately have "u = s\<lparr>mem := mem u, freelist := freelist u\<rparr>" by simp
  with assms show ?thesis by (auto simp: table_step_def)
qed

lemma grows_trans: "grows s pt us fl t \<Longrightarrow> grows t pt vs fl' u \<Longrightarrow> grows s pt (us @ vs) fl' u"
  by (auto simp: grows_def intro: table_step_trans)

lemma unat_phys_page: "phys_page s p \<Longrightarrow> unat p < 2281701376"
  by (simp add: phys_page_def word_less_nat_alt)

lemma tables_extend:
  assumes "good_path r" "\<And>p. good_path p \<Longrightarrow> tbl m' pt p = (if p = r then Some u else tbl m pt p)"
    and "tbl m pt r = None" "u \<notin> tables m pt" "pt_inj m pt"
  shows "tables m' pt = insert u (tables m pt)" "pt_inj m' pt"
proof -
  show "tables m' pt = insert u (tables m pt)"
    unfolding tables_def using assms(1,2,3) by (force split: if_splits)
  show "pt_inj m' pt"
    using assms unfolding pt_inj_def tables_def by (auto split: if_splits)
qed

lemma lookup_extend:
  assumes inj: "pt_inj m pt" and al: "\<And>t. t \<in> tables m pt \<Longrightarrow> page_aligned t"
    and q: "good_path (q @ [i])" "tbl m pt q = Some t"
    and inval: "\<not> bit (load64 m (pte_slot t i)) 0"
    and new: "is_table v" "PTE2PA v = u" "u \<notin> tables m pt" "page_aligned u"
    and zero: "\<And>a. PGROUNDDOWN a = u \<Longrightarrow> m a = 0"
  shows "lookup (store64 m (pte_slot t i) v) pt va = lookup m pt va"
proof -
  let ?m2 = "store64 m (pte_slot t i) v"
  have notab: "\<not> is_table (load64 m (pte_slot t i))" using inval by (simp add: is_table_bits)
  have ent2: "ent ?m2 pt p = (if p = q @ [i] then Some v else if butlast p = q @ [i] then Some 0
      else ent m pt p)" if "entry_path p" for p
    using ent_extend [OF inj al q notab new zero that] .
  have gq: "good_path q" using q(1) good_path_snocD by blast
  show ?thesis
  proof (cases "prefix (q @ [i]) (va_path va)")
    case False
    have "ent ?m2 pt p = ent m pt p" if "entry_path p" "prefix p (va_path va)" for p
    proof -
      have "prefix (butlast p) (va_path va)"
        using that(2) prefix_order.trans prefixeq_butlast by blast
      with that False have "p \<noteq> q @ [i]" "butlast p \<noteq> q @ [i]" by auto
      then show ?thesis by (simp add: ent2 [OF that(1)])
    qed
    then show ?thesis by (rule lookup_cong)
  next
    case True
    have len: "length q < 2" using q(1) by (simp add: good_path_def)
    then obtain j js where j: "drop (Suc (length q)) (va_path va) = j # js"
      by (cases "drop (Suc (length q)) (va_path va)") (auto simp: va_path_def)
    then have "j \<in> set (va_path va)" by (metis in_set_dropD list.set_intros(1))
    then have "entry_path ((q @ [i]) @ [j])"
      using q(1) va_path_good [of j va] by (simp only: entry_path_snoc)
    from ent2 [OF this] have "ent ?m2 pt ((q @ [i]) @ [j]) = Some 0"
      by (simp only: butlast_snoc) simp
    moreover have "tbl ?m2 pt q = Some t"
      using tbl_extend [OF inj al q notab new zero gq] q(2) by simp
    ultimately have "lookup ?m2 pt va = None"
      using lookup_at [of ?m2 pt q t i va] True len j new(1) by (simp add: Let_def load64_store64_same)
    moreover have "lookup m pt va = None" using lookup_at [OF q(2) True] inval by simp
    ultimately show ?thesis by simp
  qed
qed

text \<open>Zeroing a page that is no table changes no entry.\<close>

lemma zeroed_page:
  assumes "pt_inj m pt" "\<And>t. t \<in> tables m pt \<Longrightarrow> page_aligned t" "u \<notin> tables m pt"
  defines "m' \<equiv> \<lambda>a. if PGROUNDDOWN a = u then 0 else m a"
  shows "tables m' pt = tables m pt" "pt_inj m' pt" "\<And>p. good_path p \<Longrightarrow> tbl m' pt p = tbl m pt p"
    "lookup m' pt = lookup m pt"
    "\<And>t i. t \<in> tables m pt \<Longrightarrow> unat i < 512 \<Longrightarrow> load64 m' (pte_slot t i) = load64 m (pte_slot t i)"
proof -
  have eq: "m' a = m a" if "PGROUNDDOWN a \<in> tables m pt" for a using that assms(3) by (auto simp: m'_def)
  show "tables m' pt = tables m pt" "pt_inj m' pt" using tables_same [OF assms(2) eq] assms(1) by auto
  show "tbl m' pt p = tbl m pt p" if "good_path p" for p using tbl_same [OF assms(2) eq that] .
  show "lookup m' pt = lookup m pt"
    using ent_same [OF assms(2) eq] by (intro ext lookup_cong) auto
  show "load64 m' (pte_slot t i) = load64 m (pte_slot t i)" if "t \<in> tables m pt" "unat i < 512" for t i
    using that assms(2) eq by (intro load64_slot_same) auto
qed

lemma install_table:
  assumes st: "pt_state s pt (u # fl)" and q: "good_path (q @ [i])" "tbl (mem s) pt q = Some t"
    and inval: "\<not> bit (load64 (mem s) (pte_slot t i)) 0" and alloc: "kalloc s = Done u' s1"
  defines "s2 \<equiv> write_pte (pte_slot t i) (PA2PTE u' OR PTE_V) (zero_page u' s1)"
  shows "u' = u" "grows s pt [u] fl s2" "tbl (mem s2) pt (q @ [i]) = Some u"
proof -
  let ?v = "PA2PTE u OR PTE_V" and ?m = "\<lambda>a. if PGROUNDDOWN a = u then 0 else mem s a"
  have pool: "kmem_pool s (u # fl)" and inj: "pt_inj (mem s) pt" using st by (simp_all add: pt_state_def)
  note al = pt_state_table(1) [OF st] and k = kalloc_pool [OF pool alloc]
  show u: "u' = u" by (fact k)
  have pu: "phys_page s u" "page_aligned u" "u \<notin> set fl" using pool by (simp_all add: kmem_pool_def phys_page_def)
  have unew: "u \<notin> tables (mem s) pt" using pt_state_table(3) [OF st, of u] by auto
  have gq: "good_path q" "unat i < 512" using q(1) good_path_snocD by blast+
  then have tt: "t \<in> tables (mem s) pt" using q(2) by (intro tblI)
  note z = zeroed_page(1,2,4) [OF inj al unew]
  have z3: "tbl ?m pt p = tbl (mem s) pt p" if "good_path p" for p
    using zeroed_page(3) [OF inj al unew that] .
  have m2: "mem s2 = store64 ?m (pte_slot t i) ?v"
    using k(4) pu(2) by (simp add: s2_def write_pte_def zero_page_def memset_page fun_eq_iff u cong: if_cong)
  have v: "is_table ?v" "PTE2PA ?v = u"
    using pu(2) unat_phys_page [OF pu(1)] by (auto intro: is_table_new PTE2PA_PA2PTE)
  have inv: "\<not> bit (load64 ?m (pte_slot t i)) 0" using inval zeroed_page(5) [OF inj al unew tt gq(2)] by simp
  then have notab: "\<not> is_table (load64 ?m (pte_slot t i))" by (simp add: is_table_bits)
  have qm: "tbl ?m pt q = Some t" using z3 [OF gq(1)] q(2) by simp
  have alm: "page_aligned t'" if "t' \<in> tables ?m pt" for t' using that al z(1) by simp
  have um: "u \<notin> tables ?m pt" using unew z(1) by simp
  have tbl2: "tbl (mem s2) pt p = (if p = q @ [i] then Some u else tbl ?m pt p)" if "good_path p" for p
    unfolding m2 using tbl_extend [OF z(2) alm q(1) qm notab v um pu(2) _ that] by simp
  show "tbl (mem s2) pt (q @ [i]) = Some u" using tbl2 [OF q(1)] by simp
  have look: "lookup (mem s2) pt = lookup (mem s) pt"
    using lookup_extend [OF z(2) alm q(1) qm inv v um pu(2)] z(3) by (simp add: m2 fun_eq_iff)
  have "tbl ?m pt (q @ [i]) = None" using notab qm by (simp add: tbl_snoc child_def)
  from tables_extend [OF q(1) tbl2 this um z(2)]
  have tab2: "tables (mem s2) pt = insert u (tables (mem s) pt)" "pt_inj (mem s2) pt"
    using z(1) by auto
  have out: "mem s2 a = mem s a" if "PGROUNDDOWN a \<notin> insert u (tables (mem s) pt)" for a
  proof -
    have "PGROUNDDOWN a \<noteq> t" using that tt by auto
    then show ?thesis using store64_slot_outside [OF al [OF tt] gq(2)] that by (simp add: m2)
  qed
  have s2: "s2 = s1\<lparr>mem := mem s2\<rparr>" by (simp add: s2_def write_pte_def zero_page_def)
  have "mem s2 a = mem s1 a" if "PGROUNDDOWN a \<in> set fl" for a
    using that out [of a] k(4) pu(3) pt_state_table(3) [OF st, of "PGROUNDDOWN a"] by auto
  then have "kmem_pool s2 fl" using kmem_pool_mem [OF k(1), of "mem s2"] s2 by metis
  moreover have s1: "s1 = s\<lparr>mem := mem s1, freelist := freelist s1\<rparr>"
    using alloc kalloc_Cons [OF pool] by auto
  have "s2 = s\<lparr>mem := mem s2, freelist := freelist s2\<rparr>" by (subst s2, subst s1) (simp add: s2_def write_pte_def zero_page_def)
  moreover have "phys_page s2 = phys_page s" using k(3) by (intro phys_page_cong) (simp add: s2_def write_pte_def zero_page_def)
  ultimately show "grows s pt [u] fl s2"
    using tab2 look out pu pt_state_table(2,3) [OF st] by (auto simp: grows_def table_step_def pt_state_def)
qed

end
