(* ===== verification/Mapping_Vm.thy ===== *)
theory Mapping_Vm
  imports PageTable
begin

text \<open>
  Correctness of the page-table operations of \<^verbatim>\<open>kernel/vm.c\<close> against the abstract lookup
  function of \<open>PageTable\<close>: what \<^verbatim>\<open>walk\<close> returns, and what \<^verbatim>\<open>mappages\<close>
  and \<^verbatim>\<open>uvmunmap\<close> do to it, page by page.
\<close>

section \<open>walk\<close>

text \<open>
  The address \<open>pte\<close> is that of the entry where the walk for \<open>va\<close> ends: an entry of a
  level-0 table, or a valid leaf above.
\<close>

definition at_slot :: "memory \<Rightarrow> addr \<Rightarrow> uint64 \<Rightarrow> addr \<Rightarrow> bool" where
  "at_slot m pt va pte \<longleftrightarrow> (\<exists>q i t. prefix (q @ [i]) (va_path va) \<and> tbl m pt q = Some t \<and>
     pte = pte_slot t i \<and> (length q = 2 \<or> bit (load64 m pte) 0 \<and> \<not> is_table (load64 m pte)))"

lemma va_path_prefix:
  assumes "prefix (q @ [i]) (va_path va)"
  shows "good_path q" "unat i < 512" "length q \<le> 2" "i = PX (2 - length q) va"
proof -
  have "entry_path (q @ [i])" using assms entry_path_va by blast
  then show "good_path q" "unat i < 512" "length q \<le> 2"
    by (simp_all add: entry_path_snoc good_path_def)
  from assms obtain r where "va_path va = q @ i # r" by (auto simp: prefix_def)
  then have "va_path va ! length q = i" by simp
  moreover have "length q = 0 \<or> length q = 1 \<or> length q = 2" using \<open>length q \<le> 2\<close> by linarith
  ultimately show "i = PX (2 - length q) va" by (auto simp: va_path_def)
qed

lemma lookup_at_slot:
  assumes "at_slot m pt va pte"
  shows "lookup m pt va = None \<longleftrightarrow> \<not> bit (load64 m pte) 0"
    and "lookup m pt va = Some (l, e) \<Longrightarrow> e = load64 m pte"
  using assms by (auto simp: at_slot_def lookup_at Let_def split: if_splits)

lemma prefix_va_path_snoc:
  assumes "prefix q (va_path va)" "length q + l = 2"
  shows "prefix (q @ [PX l va]) (va_path va)"
proof -
  from assms(1) obtain r where r: "va_path va = q @ r" by (auto simp: prefix_def)
  have "length (va_path va) = 3" by (simp add: va_path_def)
  with r assms(2) obtain i r' where "r = i # r'" by (cases r) auto
  with r have "prefix (q @ [i]) (va_path va)" by simp
  with va_path_prefix(4) [OF this] assms(2) show ?thesis
    by (metis add_diff_cancel_left')
qed

text \<open>
  The result of a walk: the pages \<open>us\<close> taken from the free list became tables; a null
  pointer means that the page is not mapped, and, when the walk may allocate, that
  there is no memory.
\<close>

definition walked :: "'z kmem_scheme \<Rightarrow> addr \<Rightarrow> uint64 \<Rightarrow> bool \<Rightarrow> addr list \<Rightarrow> addr \<Rightarrow> addr list \<Rightarrow>
    addr list \<Rightarrow> 'z kmem_scheme \<Rightarrow> bool" where
  "walked s pt va alloc fl pte us fl' t \<longleftrightarrow> fl = us @ fl' \<and> grows s pt us fl' t \<and>
     (pte = 0 \<longrightarrow> lookup (mem s) pt va = None \<and> (alloc \<longrightarrow> fl' = [])) \<and>
     (pte \<noteq> 0 \<longrightarrow> at_slot (mem t) pt va pte) \<and> (\<not> alloc \<longrightarrow> t = s)"

lemma walked_refl:
  assumes "pt_state s pt fl" "pte = 0 \<longrightarrow> lookup (mem s) pt va = None \<and> (alloc \<longrightarrow> fl = [])"
    and "pte \<noteq> 0 \<longrightarrow> at_slot (mem s) pt va pte"
  shows "walked s pt va alloc fl pte [] fl s"
  using assms by (simp add: walked_def grows_refl)

lemma walk_loop_spec:
  assumes "pt_state s pt fl" "prefix q (va_path va)" "length q + l = 2" "tbl (mem s) pt q = Some t"
  shows "\<exists>pte us fl' s'. walk_loop l t va alloc s = Done pte s' \<and> walked s pt va alloc fl pte us fl' s' \<and>
    length us \<le> l \<and> (alloc \<longrightarrow> pte = 0 \<longrightarrow> length us < l)"
  using assms
proof (induction l arbitrary: q t s fl)
  case 0
  have p: "prefix (q @ [PX 0 va]) (va_path va)" using 0 by (intro prefix_va_path_snoc) auto
  then have "at_slot (mem s) pt va (pte_slot t (PX 0 va))"
    using 0 by (auto simp: at_slot_def)
  moreover have "pte_slot t (PX 0 va) \<noteq> 0"
    using pt_state_table [OF 0(1) tblI [OF va_path_prefix(1) [OF p] 0(4)]]
      unat_pte_slot [of t "PX 0 va"] unat_PX [of 0 va] by (auto simp: word_eq_iff_unat64)
  ultimately have "walked s pt va alloc fl (pte_slot t (PX 0 va)) [] fl s"
    using 0(1) by (intro walked_refl) auto
  with \<open>pte_slot t (PX 0 va) \<noteq> 0\<close> show ?case by auto
next
  case (Suc l)
  let ?i = "PX (Suc l) va" and ?pte = "pte_slot t (PX (Suc l) va)"
  let ?e = "load64 (mem s) ?pte"
  have p: "prefix (q @ [?i]) (va_path va)" using Suc.prems by (intro prefix_va_path_snoc) auto
  note q = va_path_prefix [OF p]
  have gp: "good_path (q @ [?i])" using q Suc.prems(3) by (simp add: good_path_def)
  have tt: "t \<in> tables (mem s) pt" using q(1) Suc.prems(4) by (rule tblI)
  have nz: "?pte \<noteq> 0"
    using pt_state_table [OF Suc.prems(1) tt] unat_pte_slot [of t ?i] q(2)
    by (auto simp: word_eq_iff_unat64)
  consider "is_table ?e" | "bit ?e 0" "\<not> is_table ?e" | "\<not> bit ?e 0" by blast
  then show ?case
  proof cases
    case 1
    then have "tbl (mem s) pt (q @ [?i]) = Some (PTE2PA ?e)"
      using Suc.prems(4) by (simp add: tbl_snoc child_def)
    from Suc.IH [OF Suc.prems(1) p _ this] Suc.prems(3) obtain pte us fl' s'
      where "walk_loop l (PTE2PA ?e) va alloc s = Done pte s'" "walked s pt va alloc fl pte us fl' s'"
        "length us \<le> l" "alloc \<longrightarrow> pte = 0 \<longrightarrow> length us < l" by auto
    with 1 show ?thesis
      by (intro exI [of _ pte] exI [of _ us] exI [of _ fl'] exI [of _ s'])
        (simp add: Let_def read_pte_def is_table_def)
  next
    case 2
    then have "at_slot (mem s) pt va ?pte" using p Suc.prems(4) by (auto simp: at_slot_def)
    with nz Suc.prems(1) have "walked s pt va alloc fl ?pte [] fl s"
      by (intro walked_refl) auto
    with 2 nz show ?thesis by (auto simp: Let_def read_pte_def is_table_def)
  next
    case 3
    then have none: "lookup (mem s) pt va = None" using lookup_at [OF Suc.prems(4) p] by simp
    show ?thesis
    proof (cases "alloc \<and> fl \<noteq> []")
      case False
      with none Suc.prems(1) have "walked s pt va alloc fl 0 [] fl s"
        by (intro walked_refl) auto
      moreover have "walk_loop (Suc l) t va alloc s = Done 0 s"
        using 3 False kalloc_empty [of s] Suc.prems(1) by (auto simp: Let_def read_pte_def pt_state_def)
      ultimately show ?thesis by fastforce
    next
      case True
      then obtain u fl2 where fl: "fl = u # fl2" by (cases fl) auto
      then obtain s1 where k: "kalloc s = Done u s1"
        using kalloc_Cons [of s u fl2] Suc.prems(1) by (auto simp: pt_state_def)
      let ?s2 = "write_pte ?pte (PA2PTE u OR PTE_V) (zero_page u s1)"
      note ins = install_table [OF Suc.prems(1) [unfolded fl] gp Suc.prems(4) 3 k]
      have "pt_state ?s2 pt fl2" using ins(2) by (simp add: grows_def table_step_def)
      from Suc.IH [OF this p _ ins(3)] Suc.prems(3) obtain pte us fl' s'
        where w: "walk_loop l u va alloc ?s2 = Done pte s'" "walked ?s2 pt va alloc fl2 pte us fl' s'"
          "length us \<le> l" "alloc \<longrightarrow> pte = 0 \<longrightarrow> length us < l"
        by auto
      have "u \<noteq> 0" using kmem_pool_page [of s fl u] Suc.prems(1) fl by (simp add: pt_state_def)
      then have "walk_loop (Suc l) t va alloc s = Done pte s'"
        using 3 True k w(1) by (simp add: Let_def read_pte_def)
      moreover have "walked s pt va alloc fl pte (u # us) fl' s'"
        using w(2) grows_trans [OF ins(2), of us fl' s'] fl none True by (auto simp: walked_def)
      ultimately show ?thesis
        using w(3,4) by (intro exI [of _ pte] exI [of _ "u # us"] exI [of _ fl'] exI [of _ s']) auto
    qed
  qed
qed

lemma walk_spec:
  assumes "pt_state s pt fl" "va < MAXVA"
  obtains pte us fl' t where "walk pt va alloc s = Done pte t" "walked s pt va alloc fl pte us fl' t"
    "length us \<le> 2" "alloc \<longrightarrow> pte = 0 \<longrightarrow> length us < 2"
  using walk_loop_spec [OF assms(1), of "[]" va 2 pt alloc] assms(2) by (auto simp: walk_def not_le)

section \<open>Writing a leaf\<close>

lemma unat_PX_div: "unat (PX l va) = unat va div 2 ^ (12 + 9 * l) mod 512"
proof -
  have "unat (drop_bit k va) = unat va div 2 ^ k" for k
    unfolding unat_drop_bit_eq by (simp only: drop_bit_eq_div)
  then have "unat (drop_bit (PXSHIFT l) va AND mask 9) = unat va div 2 ^ (12 + 9 * l) mod 512"
    by (simp add: unat_and_mask PXSHIFT_def mult.commute)
  then show ?thesis by (simp add: PX_def mask_eq_exp_minus_1)
qed

lemma va_path_eq_iff:
  assumes "va < MAXVA" "va' < MAXVA"
  shows "va_path va = va_path va' \<longleftrightarrow> PGROUNDDOWN va = PGROUNDDOWN va'"
proof -
  let ?x = "unat va div 4096" and ?y = "unat va' div 4096"
  have lt: "?x < 134217728" "?y < 134217728"
    using assms by (simp_all add: word_less_nat_alt less_mult_imp_div_less)
  have "va_path va = va_path va' \<longleftrightarrow> ?x mod 512 = ?y mod 512 \<and>
      ?x div 512 mod 512 = ?y div 512 mod 512 \<and> ?x div 262144 mod 512 = ?y div 262144 mod 512"
    by (auto simp: va_path_def word_eq_iff_unat64 unat_PX_div div_mult2_eq [symmetric])
  also have "\<dots> \<longleftrightarrow> ?x = ?y"
  proof
    assume eq: "?x mod 512 = ?y mod 512 \<and> ?x div 512 mod 512 = ?y div 512 mod 512 \<and>
      ?x div 262144 mod 512 = ?y div 262144 mod 512"
    have decomp: "n = n div 262144 mod 512 * 262144 + n div 512 mod 512 * 512 + n mod 512"
      if "n < 134217728" for n :: nat
    proof -
      have "n div 262144 = n div 512 div 512" by (simp add: div_mult2_eq [symmetric])
      moreover have "n div 262144 mod 512 = n div 262144"
        using that by (simp add: less_mult_imp_div_less)
      ultimately show ?thesis
        using div_mult_mod_eq [of n 512] div_mult_mod_eq [of "n div 512" 512] by linarith
    qed
    show "?x = ?y" using decomp [OF lt(1)] decomp [OF lt(2)] eq by simp
  qed simp
  also have "\<dots> \<longleftrightarrow> PGROUNDDOWN va = PGROUNDDOWN va'"
    by (simp add: word_eq_iff_unat64 unat_PGROUNDDOWN)
  finally show ?thesis .
qed

text \<open>Updating the entry at the path \<open>q @ [i]\<close>, where neither the old nor the new value is a table.\<close>

definition set_entry :: "(uint64 \<Rightarrow> (nat \<times> pte) option) \<Rightarrow> uint64 list \<Rightarrow> pte \<Rightarrow> uint64 \<Rightarrow> (nat \<times> pte) option" where
  "set_entry f p v va = (if prefix p (va_path va) then if bit v 0 then Some (3 - length p, v) else None else f va)"

lemma write_leaf:
  assumes st: "pt_state s pt fl" and q: "good_path q" "tbl (mem s) pt q = Some t" and i: "unat i < 512"
    and old: "no_table (q @ [i]) (load64 (mem s) (pte_slot t i))" and new: "no_table (q @ [i]) v"
  defines "s' \<equiv> write_pte (pte_slot t i) v s"
  shows "pt_state s' pt fl" "tables (mem s') pt = tables (mem s) pt"
    "lookup (mem s') pt = set_entry (lookup (mem s) pt) (q @ [i]) v"
    "\<And>a. PGROUNDDOWN a \<noteq> t \<Longrightarrow> mem s' a = mem s a"
proof -
  have inj: "pt_inj (mem s) pt" and pool: "kmem_pool s fl" using st by (simp_all add: pt_state_def)
  note al = pt_state_table(1) [OF st]
  have tt: "t \<in> tables (mem s) pt" using q by (rule tblI)
  have m': "mem s' = store64 (mem s) (pte_slot t i) v" by (simp add: s'_def write_pte_def)
  have tbl': "tbl (mem s') pt p = tbl (mem s) pt p" if "good_path p" for p
    unfolding m' using tbl_store_leaf [OF inj al q i old new that] .
  then show tab: "tables (mem s') pt = tables (mem s) pt" by (auto simp: tables_def)
  show out: "mem s' a = mem s a" if "PGROUNDDOWN a \<noteq> t" for a
    unfolding m' using store64_slot_outside [OF al [OF tt] i that] .
  have "kmem_pool (s\<lparr>mem := mem s'\<rparr>) fl"
    using pool pt_state_table(3) [OF st tt] by (intro kmem_pool_mem out) auto
  moreover have "s\<lparr>mem := mem s'\<rparr> = s'" by (simp add: s'_def write_pte_def)
  ultimately have "kmem_pool s' fl" by simp
  moreover have "phys_page s' = phys_page s" by (rule phys_page_cong) (simp add: s'_def write_pte_def)
  moreover have "pt_inj (mem s') pt" using inj tbl' by (simp add: pt_inj_def)
  ultimately show "pt_state s' pt fl" using st tab by (auto simp: pt_state_def)
  have ent': "ent (mem s') pt p = (if p = q @ [i] then Some v else ent (mem s) pt p)"
    if "entry_path p" for p
    unfolding m' using ent_store_leaf [OF inj al q i old new that] .
  show "lookup (mem s') pt = set_entry (lookup (mem s) pt) (q @ [i]) v"
  proof
    fix va
    show "lookup (mem s') pt va = set_entry (lookup (mem s) pt) (q @ [i]) v va"
    proof (cases "prefix (q @ [i]) (va_path va)")
      case True
      have "length q \<le> 2" using q(1) by (simp add: good_path_def)
      then have "length q = 2 \<or> \<not> is_table v" using new by (auto simp: no_table_def)
      moreover have "load64 (mem s') (pte_slot t i) = v" by (simp add: m' load64_store64_same)
      ultimately show ?thesis
        using lookup_at [OF _ True, of "mem s'" pt t] tbl' [OF q(1)] q(2) True
        by (auto simp: set_entry_def)
    next
      case False
      then have "lookup (mem s') pt va = lookup (mem s) pt va" by (intro lookup_cong) (auto simp: ent')
      with False show ?thesis by (simp add: set_entry_def)
    qed
  qed
qed

section \<open>mappages\<close>

text \<open>A walk that may allocate, followed by a store of a new leaf.\<close>

lemma map_page:
  assumes st: "pt_state s pt fl" and a: "a < MAXVA" "page_aligned a" "lookup (mem s) pt a = None"
    and w: "walk pt a True s = Done pte t" "pte \<noteq> 0" and v: "bit v 0"
  defines "t' \<equiv> write_pte pte v t"
  shows "\<not> bit (read_pte pte t) 0"
    and "\<exists>us fl'. fl = us @ fl' \<and> length us \<le> 2 \<and> table_step s pt us fl' t'"
    and "\<And>x. x < MAXVA \<Longrightarrow> lookup (mem t') pt x =
      (if PGROUNDDOWN x = a then Some (0, v) else lookup (mem s) pt x)"
proof -
  obtain us fl' where wd: "walked s pt a True fl pte us fl' t" and us: "length us \<le> 2"
    using walk_spec [OF st a(1), of True] w(1) by (metis outcome.inject(1))
  then have gr: "fl = us @ fl'" "grows s pt us fl' t" and at: "at_slot (mem t) pt a pte"
    using w(2) by (simp_all add: walked_def)
  have stt: "pt_state t pt fl'" and look: "lookup (mem t) pt = lookup (mem s) pt"
    and step: "table_step s pt us fl' t" using gr(2) by (simp_all add: grows_def table_step_def)
  have inv: "\<not> bit (load64 (mem t) pte) 0"
    using lookup_at_slot(1) [OF at] look a(3) by simp
  then show "\<not> bit (read_pte pte t) 0" by (simp add: read_pte_def)
  from at inv obtain q i u where q: "prefix (q @ [i]) (va_path a)" "tbl (mem t) pt q = Some u"
    "pte = pte_slot u i" "length q = 2" by (auto simp: at_slot_def)
  note p = va_path_prefix [OF q(1)]
  have "no_table (q @ [i]) e" for e using q(4) by (simp add: no_table_def)
  note wl = write_leaf [OF stt p(1) q(2) p(2) this this, folded q(3), where v = v, folded t'_def]
  have full: "q @ [i] = va_path a"
  proof -
    obtain r where r: "va_path a = (q @ [i]) @ r" using q(1) by (auto simp: prefix_def)
    have "length (va_path a) = 3" by (simp add: va_path_def)
    with r q(4) show ?thesis by simp
  qed
  have tab: "u \<in> tables (mem t) pt" using p(1) q(2) by (rule tblI)
  have "mem t' x = mem t x" if "PGROUNDDOWN x \<notin> tables (mem t) pt" for x
    using wl(4) [of x] that tab by metis
  then have "table_step t pt [] fl' t'"
    using wl(1,2) by (simp add: table_step_def) (simp add: t'_def write_pte_def)
  from table_step_trans [OF step this] gr(1) us show "\<exists>us fl'. fl = us @ fl' \<and> length us \<le> 2 \<and> table_step s pt us fl' t'"
    by auto
  fix x assume x: "x < MAXVA"
  have "prefix (va_path a) (va_path x) \<longleftrightarrow> va_path a = va_path x"
    by (simp add: va_path_def)
  also have "\<dots> \<longleftrightarrow> PGROUNDDOWN x = a"
    using va_path_eq_iff [OF a(1) x] PGROUNDDOWN_of_aligned [OF a(2)] by auto
  finally show "lookup (mem t') pt x = (if PGROUNDDOWN x = a then Some (0, v) else lookup (mem s) pt x)"
    using wl(3) look v q(4) by (simp add: set_entry_def full) (simp add: va_path_def)
qed

text \<open>The lookups after \<open>k\<close> pages were mapped from \<open>a\<close> on to the frames from \<open>pa\<close> on.\<close>

definition in_pages :: "uint64 \<Rightarrow> nat \<Rightarrow> uint64 \<Rightarrow> bool" where
  "in_pages a k x \<longleftrightarrow> unat a \<le> unat x \<and> unat x < unat a + 4096 * k"

definition maps_pages :: "memory \<Rightarrow> addr \<Rightarrow> uint64 \<Rightarrow> nat \<Rightarrow> uint64 \<Rightarrow> pte \<Rightarrow> memory \<Rightarrow> bool" where
  "maps_pages m pt a k pa perm m' \<longleftrightarrow> (\<forall>x<MAXVA. lookup m' pt x =
     (if in_pages a k x then Some (0, PA2PTE (pa + (PGROUNDDOWN x - a)) OR perm OR PTE_V)
      else lookup m pt x))"

lemma in_pages_Suc:
  assumes "page_aligned a" "unat a + 4096 * Suc k \<le> 274877906944"
  shows "in_pages a (Suc k) x \<longleftrightarrow> PGROUNDDOWN x = a \<or> in_pages (a + 4096) k x"
    and "\<not> (PGROUNDDOWN x = a \<and> in_pages (a + 4096) k x)"
proof -
  have a: "unat (a + 4096) = unat a + 4096" using assms(2) unat_add_nowrap [of a 4096] by simp
  have "PGROUNDDOWN x = a \<longleftrightarrow> unat a \<le> unat x \<and> unat x < unat a + 4096"
  proof -
    obtain c where c: "unat a = 4096 * c" using assms(1) by (auto simp: page_aligned_nat dvd_eq_mod_eq_0 [symmetric] elim: dvdE)
    have "PGROUNDDOWN x = a \<longleftrightarrow> unat x div 4096 = c"
      by (simp add: word_eq_iff_unat64 unat_PGROUNDDOWN c)
    also have "\<dots> \<longleftrightarrow> 4096 * c \<le> unat x \<and> unat x < 4096 * c + 4096"
      by auto
    finally show ?thesis by (simp add: c)
  qed
  with a show "in_pages a (Suc k) x \<longleftrightarrow> PGROUNDDOWN x = a \<or> in_pages (a + 4096) k x"
    and "\<not> (PGROUNDDOWN x = a \<and> in_pages (a + 4096) k x)"
    by (auto simp: in_pages_def)
qed

lemma unat_page_add:
  assumes "unat (a :: uint64) + 4096 * k < 18446744073709551616"
  shows "unat (a + 4096 * of_nat k) = unat a + 4096 * k"
proof -
  have "a + 4096 * of_nat k = a + of_nat (4096 * k)" by simp
  then show ?thesis using assms unat_add_of_nat64 [of a "4096 * k"] by (simp only:)
qed

lemma mappages_step:
  assumes st: "pt_state s pt fl" and a: "a < MAXVA" "page_aligned a" "lookup (mem s) pt a = None"
  obtains (fail) t where "mappages_loop pt a l pa perm s = Done (-1) t" "grows s pt fl [] t" "length fl < 2"
  | (ok) us fl' t where "fl = us @ fl'" "length us \<le> 2" "table_step s pt us fl' t"
    "mappages_loop pt a l pa perm s =
      (if a = l then Done 0 t else mappages_loop pt (a + 4096) l (pa + 4096) perm t)"
    "\<And>x. x < MAXVA \<Longrightarrow> lookup (mem t) pt x =
      (if PGROUNDDOWN x = a then Some (0, PA2PTE pa OR perm OR 1) else lookup (mem s) pt x)"
proof -
  obtain pte us fl' t where w: "walk pt a True s = Done pte t" "walked s pt a True fl pte us fl' t"
    "length us \<le> 2" "True \<longrightarrow> pte = 0 \<longrightarrow> length us < 2"
    by (rule walk_spec [OF st a(1)])
  show thesis
  proof (cases "pte = 0")
    case True
    with w show thesis by (intro fail [of t]) (auto simp: mappages_loop.simps [of pt a] walked_def)
  next
    case False
    have v: "bit (PA2PTE pa OR perm OR 1) 0" by (simp add: bit_simps)
    note m = map_page [OF st a w(1) False v]
    from m(2) obtain us fl' where
      "fl = us @ fl'" "length us \<le> 2" "table_step s pt us fl' (write_pte pte (PA2PTE pa OR perm OR 1) t)" by blast
    then show thesis using False w(1) m(1,3)
      by (intro ok) (auto simp: mappages_loop.simps [of pt a] Let_def)
  qed
qed

lemma maps_pages_0: "lookup m' pt = lookup m pt \<Longrightarrow> maps_pages m pt a 0 pa perm m'"
  by (auto simp: maps_pages_def in_pages_def)

lemma maps_pages_Suc:
  assumes a: "page_aligned a" "unat a + 4096 * Suc k \<le> 274877906944"
    and "\<And>x. x < MAXVA \<Longrightarrow> lookup m1 pt x =
      (if PGROUNDDOWN x = a then Some (0, PA2PTE pa OR perm OR 1) else lookup m pt x)"
    and "maps_pages m1 pt (a + 4096) k (pa + 4096) perm m2"
  shows "maps_pages m pt a (Suc k) pa perm m2"
  using assms(3,4) in_pages_Suc [OF a] by (auto simp: maps_pages_def add_diff_eq)

lemma mappages_loop_spec:
  assumes "pt_state s pt fl" "page_aligned a" "unat a + 4096 * Suc n \<le> 274877906944"
    and "\<And>x. x < MAXVA \<Longrightarrow> in_pages a (Suc n) x \<Longrightarrow> lookup (mem s) pt x = None"
  shows "\<exists>r us fl' k t. mappages_loop pt a (a + 4096 * of_nat n) pa perm s = Done r t \<and>
    fl = us @ fl' \<and> table_step s pt us fl' t \<and> maps_pages (mem s) pt a k pa perm (mem t) \<and>
    (r = 0 \<and> k = Suc n \<or> r = -1 \<and> k \<le> n \<and> fl' = [] \<and> length fl < 2 * Suc n)"
  using assms
proof (induction n arbitrary: a pa s fl)
  case (0 a pa s fl)
  have lt: "a < MAXVA" using 0(3) by (simp add: word_less_nat_alt)
  have "lookup (mem s) pt a = None" using lt 0(4) by (simp add: in_pages_def)
  from 0(1) lt 0(2) this show ?case
  proof (cases rule: mappages_step [where l = a and pa = pa and perm = perm])
    case (fail t)
    then show ?thesis by (auto simp: grows_def intro!: exI maps_pages_0)
  next
    case (ok us fl' t)
    have "maps_pages (mem s) pt a (Suc 0) pa perm (mem t)"
      using 0(2,3) ok(5) by (intro maps_pages_Suc maps_pages_0) auto
    with ok show ?thesis by auto
  qed
next
  case (Suc n a pa s fl)
  let ?l = "a + 4096 * of_nat (Suc n)"
  have lt: "a < MAXVA" using Suc.prems(3) by (simp add: word_less_nat_alt)
  have "lookup (mem s) pt a = None" using lt Suc.prems(4) by (simp add: in_pages_def)
  from Suc.prems(1) lt Suc.prems(2) this show ?case
  proof (cases rule: mappages_step [where l = ?l and pa = pa and perm = perm])
    case (fail t)
    then have "maps_pages (mem s) pt a 0 pa perm (mem t)" by (simp add: grows_def maps_pages_0)
    moreover have "table_step s pt fl [] t" using fail(2) by (simp add: grows_def)
    ultimately show ?thesis
      using fail(1,3) by (intro exI [of _ "-1"] exI [of _ fl] exI [of _ "[]"] exI [of _ 0] exI [of _ t]) simp
  next
    case (ok us fl' t)
    have a4: "unat (a + 4096) = unat a + 4096"
      using Suc.prems(3) unat_add_nowrap [of a 4096] by simp
    then have al: "page_aligned (a + 4096)" using Suc.prems(2) by (simp add: page_aligned_nat)
    have none: "lookup (mem t) pt x = None" if "x < MAXVA" "in_pages (a + 4096) (Suc n) x" for x
      using in_pages_Suc [OF Suc.prems(2,3), of x] ok(5) [OF that(1)] Suc.prems(4) that by auto
    have "pt_state t pt fl'" using ok(3) by (simp add: table_step_def)
    from Suc.IH [OF this al _ none, of "pa + 4096"] a4 Suc.prems(3) obtain r vs fl2 k u where
      ih: "mappages_loop pt (a + 4096) (a + 4096 + 4096 * of_nat n) (pa + 4096) perm t = Done r u"
      "fl' = vs @ fl2" "table_step t pt vs fl2 u" "maps_pages (mem t) pt (a + 4096) k (pa + 4096) perm (mem u)"
      "r = 0 \<and> k = Suc n \<or> r = -1 \<and> k \<le> n \<and> fl2 = [] \<and> length fl' < 2 * Suc n" by auto
    have l: "a + 4096 + 4096 * of_nat n = ?l" by (simp add: algebra_simps)
    have "unat ?l = unat a + 4096 * Suc n" using Suc.prems(3) by (intro unat_page_add) simp
    then have "a \<noteq> ?l" by auto
    with ok(4) ih(1) l have "mappages_loop pt a ?l pa perm s = Done r u" by simp
    moreover have "maps_pages (mem s) pt a (Suc k) pa perm (mem u)"
      using Suc.prems(2,3) ok(5) ih(4,5) by (intro maps_pages_Suc) auto
    ultimately show ?thesis
      using ok(1,2) ih(2,5) table_step_trans [OF ok(3) ih(3)] 
      by (intro exI [of _ r] exI [of _ "us @ vs"] exI [of _ fl2] exI [of _ "Suc k"] exI [of _ u]) auto
  qed
qed

section \<open>Empty page tables and an example\<close>

lemma empty_table:
  assumes "page_aligned pt" "\<And>a. PGROUNDDOWN a = pt \<Longrightarrow> m a = 0"
  shows "tables m pt = {pt}" "pt_inj m pt" "lookup m pt va = None"
proof -
  have ent: "ent m pt [i] = Some 0" if "unat i < 512" for i
    using load64_zeroed [OF assms(1) that assms(2)] by (simp add: ent_def)
  have tbl: "tbl m pt p = (if p = [] then Some pt else None)" if "good_path p" for p
  proof (cases p)
    case (Cons i q)
    then have "unat i < 512" using that by (simp add: good_path_def)
    then have "child m pt i = None"
      using load64_zeroed [OF assms(1) _ assms(2)] by (simp add: child_def is_table_bits)
    with Cons show ?thesis by simp
  qed simp
  show "tables m pt = {pt}" using tbl by (auto simp: tables_def split: if_splits intro: exI [of _ "[]"])
  show "pt_inj m pt" using tbl by (auto simp: pt_inj_def split: if_splits)
  show "lookup m pt va = None" using ent [OF unat_PX] by (simp add: lookup_def va_path_def)
qed

text \<open>A machine with three free pages and an empty page table.\<close>

definition example_state :: kmem where
  "example_state = \<lparr>mem = store64 (store64 (\<lambda>_. 0) 0x80021000 0x80022000) 0x80022000 0x80023000,
     kend = 0x80020000, freelist = 0x80021000, superpages = [], nfree = 0\<rparr>"

lemma example_kmem_pool: "kmem_pool example_state [0x80021000, 0x80022000, 0x80023000]"
proof -
  have al: "page_aligned (0x80021000 :: addr)" "page_aligned (0x80022000 :: addr)"
    "page_aligned (0x80023000 :: addr)" by (simp_all add: page_aligned_def)
  let ?m = "store64 (\<lambda>_. 0) 0x80021000 0x80022000"
  have "load64 (mem example_state) 0x80021000 = 0x80022000"
    using load64_page [OF al(2,1) store64_same_except [OF al(2)], of ?m "0x80023000"]
    by (simp add: example_state_def load64_store64_same)
  moreover have "load64 (mem example_state) 0x80022000 = 0x80023000"
    by (simp add: example_state_def load64_store64_same)
  moreover have "load64 (mem example_state) 0x80023000 = 0"
    using load64_page [OF al(2,3) store64_same_except [OF al(2)], of ?m "0x80023000"]
      load64_page [OF al(1,3) store64_same_except [OF al(1)], of "\<lambda>_. 0" "0x80022000"]
      load64_zeroed [of "0x80023000" 0 "\<lambda>_. 0"] al(3)
    by (simp add: example_state_def pte_slot_def)
  ultimately show ?thesis
    by (simp add: kmem_pool_def phys_page_def page_aligned_def) (simp add: example_state_def)
qed

lemma example_zero: "PGROUNDDOWN a = 0x80024000 \<Longrightarrow> mem example_state a = 0"
  using store64_same_except [of "0x80021000"] store64_same_except [of "0x80022000"]
  by (simp add: example_state_def same_except_page_def page_aligned_def)

lemma example_pt_state:
  "pt_state example_state 0x80024000 [0x80021000, 0x80022000, 0x80023000]"
  "lookup (mem example_state) 0x80024000 va = None"
proof -
  have al: "page_aligned (0x80024000 :: addr)" "page_aligned (0x80021000 :: addr)"
    "page_aligned (0x80022000 :: addr)" by (simp_all add: page_aligned_def)
  note e = empty_table [OF al(1) example_zero]
  show "lookup (mem example_state) 0x80024000 va = None" by (rule e)
  show "pt_state example_state 0x80024000 [0x80021000, 0x80022000, 0x80023000]"
    using e example_kmem_pool al(1) by (simp add: pt_state_def phys_page_def) (simp add: example_state_def)
qed

text \<open>
  C2. \<^verbatim>\<open>mappages\<close> on a range of unmapped pages below \<open>MAXVA\<close> never panics. It returns 0 and
  then maps exactly the pages of the range, each to the frame at the same distance from
  \<open>pa\<close> with the permissions given, or it returns \<open>-1\<close> with the free list exhausted and a
  prefix of the range mapped, which needs a free list of fewer than two pages for each
  page of the range. All other translations are unchanged; the pages taken
  from the free list become table pages, and memory outside table pages is unchanged.
\<close>

theorem mappages_correct:
  assumes "pt_state s pt fl" "page_aligned va" "0 < n" "unat va + 4096 * n \<le> 274877906944"
    and "\<And>x. x < MAXVA \<Longrightarrow> in_pages va n x \<Longrightarrow> lookup (mem s) pt x = None"
  shows "\<exists>r us fl' k t. mappages pt va (4096 * of_nat n) pa perm s = Done r t \<and>
    fl = us @ fl' \<and> table_step s pt us fl' t \<and> maps_pages (mem s) pt va k pa perm (mem t) \<and>
    (r = 0 \<and> k = n \<or> r = -1 \<and> k < n \<and> fl' = [] \<and> length fl < 2 * n)"
proof -
  from assms(3) obtain j where n: "n = Suc j" by (cases n) auto
  have "unat (4096 * of_nat n :: uint64) = 4096 * n"
    using unat_page_add [of 0 n] assms(4) by simp
  then have sz: "(4096 * of_nat n :: uint64) mod 4096 = 0" "4096 * of_nat n \<noteq> (0 :: uint64)"
    using assms(3) by (auto simp: word_eq_iff_unat64 unat_mod)
  have l: "va + 4096 * of_nat n - 4096 = va + 4096 * of_nat j" by (simp add: n algebra_simps)
  have "mappages pt va (4096 * of_nat n) pa perm s = mappages_loop pt va (va + 4096 * of_nat j) pa perm s"
    using assms(2) sz by (simp only: mappages_def page_aligned_def l) simp
  with mappages_loop_spec [OF assms(1,2) assms(4,5) [unfolded n], of pa perm] show ?thesis
    by (simp add: n less_Suc_eq_le)
qed

theorem mappages_correct_witness:
  "\<exists>r us fl' k t. mappages 0x80024000 0x3000 (4096 * of_nat 2) 0x87000000 (PTE_R OR PTE_W) example_state = Done r t \<and>
    [0x80021000, 0x80022000, 0x80023000] = us @ fl' \<and> table_step example_state 0x80024000 us fl' t \<and>
    maps_pages (mem example_state) 0x80024000 0x3000 k 0x87000000 (PTE_R OR PTE_W) (mem t) \<and>
    (r = 0 \<and> k = 2 \<or> r = -1 \<and> k < 2 \<and> fl' = [] \<and> length [0x80021000, 0x80022000, 0x80023000 :: addr] < 2 * 2)"
  by (rule mappages_correct) (simp_all add: example_pt_state page_aligned_def)

section \<open>uvmunmap\<close>

text \<open>A page found at level 0 lies below table pointers at levels 2 and 1.\<close>

lemma lookup_level0:
  assumes "lookup m pt va = Some (0, e)"
  obtains t1 t0 where "is_table (load64 m (pte_slot pt (PX 2 va)))"
    "t1 = PTE2PA (load64 m (pte_slot pt (PX 2 va)))"
    "is_table (load64 m (pte_slot t1 (PX 1 va)))" "t0 = PTE2PA (load64 m (pte_slot t1 (PX 1 va)))"
    "e = load64 m (pte_slot t0 (PX 0 va))" "bit e 0"
    "tbl m pt [PX 2 va, PX 1 va] = Some t0"
  using assms by (auto simp: lookup_def va_path_def ent_def child_def Let_def
      split: option.splits bind_splits if_splits)

lemma superpage_at_level0:
  assumes "lookup (mem s) pt a = Some (0, e)" "a < MAXVA"
  shows "superpage_at pt a s = Done 0 s"
  using assms(1)
proof (rule lookup_level0)
  fix t1 t0
  assume t: "is_table (load64 (mem s) (pte_slot pt (PX 2 a)))"
    "t1 = PTE2PA (load64 (mem s) (pte_slot pt (PX 2 a)))"
    "is_table (load64 (mem s) (pte_slot t1 (PX 1 a)))"
  then show ?thesis
    using assms(2) by (auto simp: superpage_at_def superwalk_def read_pte_def is_table_bits Let_def)
qed

lemma walk_level0:
  assumes "lookup (mem s) pt a = Some (0, e)" "a < MAXVA"
  obtains t0 where "walk pt a alloc s = Done (pte_slot t0 (PX 0 a)) s"
    "tbl (mem s) pt [PX 2 a, PX 1 a] = Some t0" "e = load64 (mem s) (pte_slot t0 (PX 0 a))" "bit e 0"
  using assms(1)
proof (rule lookup_level0)
  fix t1 t0
  assume t: "is_table (load64 (mem s) (pte_slot pt (PX 2 a)))"
    "t1 = PTE2PA (load64 (mem s) (pte_slot pt (PX 2 a)))"
    "is_table (load64 (mem s) (pte_slot t1 (PX 1 a)))" "t0 = PTE2PA (load64 (mem s) (pte_slot t1 (PX 1 a)))"
    "e = load64 (mem s) (pte_slot t0 (PX 0 a))" "bit e 0" "tbl (mem s) pt [PX 2 a, PX 1 a] = Some t0"
  then show thesis
    using assms(2) by (intro that) (auto simp: walk_def numeral_2_eq_2 read_pte_def is_table_def not_le Let_def)
qed

text \<open>Freeing a page that is neither free nor a table leaves the page table alone.\<close>

lemma kfree_pt_state:
  assumes st: "pt_state s pt fl" and f: "phys_page s f" "f \<notin> set fl" "f \<notin> tables (mem s) pt"
  obtains t where "kfree f s = Done () t" "pt_state t pt (f # fl)" "kend t = kend s"
    "tables (mem t) pt = tables (mem s) pt" "lookup (mem t) pt = lookup (mem s) pt"
    "same_except_page f (mem s) (mem t)" "\<And>p. good_path p \<Longrightarrow> tbl (mem t) pt p = tbl (mem s) pt p"
    "\<And>u i. u \<in> tables (mem s) pt \<Longrightarrow> unat i < 512 \<Longrightarrow> load64 (mem t) (pte_slot u i) = load64 (mem s) (pte_slot u i)"
    "superpages t = superpages s \<and> nfree t = nfree s"
proof -
  have pool: "kmem_pool s fl" using st by (simp add: pt_state_def)
  obtain t where t: "kfree f s = Done () t" "kmem_pool t (f # fl)" "kend t = kend s"
    "same_except_page f (mem s) (mem t)" using kfree_pool [OF pool f(1,2)] .
  note al = pt_state_table(1) [OF st]
  have eq: "mem t a = mem s a" if "PGROUNDDOWN a \<in> tables (mem s) pt" for a
    using that f(3) t(4) by (auto simp: same_except_page_def)
  note same = tables_same [OF al eq]
  have "lookup (mem t) pt = lookup (mem s) pt"
    using ent_same [OF al eq] by (intro ext lookup_cong) auto
  moreover have "pt_state t pt (f # fl)"
    using st t(2) same f(3) phys_page_cong [OF t(3)] by (auto simp: pt_state_def)
  moreover have "tbl (mem t) pt p = tbl (mem s) pt p" if "good_path p" for p
    using tbl_same [OF al eq that] .
  moreover have "load64 (mem t) (pte_slot u i) = load64 (mem s) (pte_slot u i)"
    if "u \<in> tables (mem s) pt" "unat i < 512" for u i
    using that al eq by (intro load64_slot_same) auto
  moreover have "superpages t = superpages s \<and> nfree t = nfree s" using t(1) by (auto simp: kfree_def Let_def split: if_splits)
  ultimately show thesis using t same by (intro that)
qed

lemma uvmunmap_step:
  assumes st: "pt_state s pt fl" and a: "a < MAXVA" "page_aligned a" "a < lim"
    and e: "lookup (mem s) pt a = Some (0, e)" "PTE_FLAGS e \<noteq> PTE_V"
    and f: "phys_page s (PTE2PA e)" "PTE2PA e \<notin> set fl" "PTE2PA e \<notin> tables (mem s) pt"
  obtains t where "uvmunmap_loop pt a lim True s = uvmunmap_loop pt (a + 4096) lim True t"
    "pt_state t pt (PTE2PA e # fl)" "tables (mem t) pt = tables (mem s) pt" "kend t = kend s"
    "\<And>x. x < MAXVA \<Longrightarrow> lookup (mem t) pt x = (if PGROUNDDOWN x = a then None else lookup (mem s) pt x)"
    "\<And>x. PGROUNDDOWN x \<notin> tables (mem s) pt \<Longrightarrow> PGROUNDDOWN x \<noteq> PTE2PA e \<Longrightarrow> mem t x = mem s x"
    "superpages t = superpages s \<and> nfree t = nfree s"
proof -
  obtain t0 where w: "walk pt a False s = Done (pte_slot t0 (PX 0 a)) s"
    "tbl (mem s) pt [PX 2 a, PX 1 a] = Some t0" "e = load64 (mem s) (pte_slot t0 (PX 0 a))" "bit e 0"
    by (rule walk_level0 [OF e(1) a(1)])
  have gp: "good_path [PX 2 a, PX 1 a]" by (simp add: good_path_def unat_PX)
  have t0: "t0 \<in> tables (mem s) pt" using gp w(2) by (rule tblI)
  have nz: "pte_slot t0 (PX 0 a) \<noteq> 0"
    using pt_state_table [OF st t0] unat_pte_slot [of t0] unat_PX [of 0 a]
    by (auto simp: word_eq_iff_unat64)
  obtain s1 where k: "kfree (PTE2PA e) s = Done () s1" "pt_state s1 pt (PTE2PA e # fl)" "kend s1 = kend s"
    "tables (mem s1) pt = tables (mem s) pt" "lookup (mem s1) pt = lookup (mem s) pt"
    "same_except_page (PTE2PA e) (mem s) (mem s1)" "tbl (mem s1) pt [PX 2 a, PX 1 a] = Some t0"
    "superpages s1 = superpages s \<and> nfree s1 = nfree s"
    using kfree_pt_state [OF st f] w(2) gp by metis
  let ?t = "write_pte (pte_slot t0 (PX 0 a)) 0 s1"
  have "no_table ([PX 2 a, PX 1 a] @ [PX 0 a]) v" for v by (simp add: no_table_def)
  note wl = write_leaf [OF k(2) gp k(7) unat_PX [of 0 a] this this, where v = 0]
  have "uvmunmap_loop pt a lim True s = uvmunmap_loop pt (a + 4096) lim True ?t"
    using a(3) superpage_at_level0 [OF e(1) a(1)] w e(2) nz k(1)
    by (subst uvmunmap_loop.simps) (simp add: read_pte_def)
  moreover have "lookup (mem ?t) pt x = (if PGROUNDDOWN x = a then None else lookup (mem s) pt x)"
    if "x < MAXVA" for x
  proof -
    have "prefix (va_path a) (va_path x) \<longleftrightarrow> PGROUNDDOWN x = a"
      using va_path_eq_iff [OF a(1) that] PGROUNDDOWN_of_aligned [OF a(2)] by (auto simp: va_path_def)
    then show ?thesis using wl(3) k(5) by (simp add: set_entry_def va_path_def)
  qed
  moreover have "mem ?t x = mem s x" if "PGROUNDDOWN x \<notin> tables (mem s) pt" "PGROUNDDOWN x \<noteq> PTE2PA e" for x
    using wl(4) [of x] that t0 k(6) by (auto simp: same_except_page_def)
  ultimately show thesis using wl(1,2) k(3,4,8) by (intro that [of ?t]) (auto simp: write_pte_def)
qed

text \<open>The frames behind \<open>n\<close> pages.\<close>

definition frames :: "memory \<Rightarrow> addr \<Rightarrow> uint64 \<Rightarrow> nat \<Rightarrow> addr list" where
  "frames m pt a n = map (\<lambda>k. PTE2PA (snd (the (lookup m pt (a + 4096 * of_nat k))))) [0..<n]"

definition owned_pages :: "'z kmem_scheme \<Rightarrow> addr \<Rightarrow> addr list \<Rightarrow> uint64 \<Rightarrow> nat \<Rightarrow> bool" where
  "owned_pages s pt fl a n \<longleftrightarrow>
     (\<forall>k<n. \<exists>e. lookup (mem s) pt (a + 4096 * of_nat k) = Some (0, e) \<and> PTE_FLAGS e \<noteq> PTE_V) \<and>
     distinct (frames (mem s) pt a n) \<and>
     (\<forall>f\<in>set (frames (mem s) pt a n). phys_page s f \<and> f \<notin> set fl \<and> f \<notin> tables (mem s) pt)"

lemma frames_Suc:
  "frames m pt a (Suc n) = PTE2PA (snd (the (lookup m pt a))) # frames m pt (a + 4096) n"
  by (simp add: frames_def map_upt_Suc algebra_simps del: upt_Suc)

lemma frames_cong:
  assumes "\<And>k. k < n \<Longrightarrow> lookup m' pt (a + 4096 * of_nat k) = lookup m pt (a + 4096 * of_nat k)"
  shows "frames m' pt a n = frames m pt a n"
  using assms by (simp add: frames_def)

lemma page_step:
  assumes "page_aligned a" "unat a + 4096 * Suc n \<le> 274877906944"
  shows "a < MAXVA" "unat (a + 4096) = unat a + 4096" "page_aligned (a + 4096)"
    "\<And>k. k < n \<Longrightarrow> a + 4096 + 4096 * of_nat k < MAXVA \<and> PGROUNDDOWN (a + 4096 + 4096 * of_nat k) \<noteq> a"
proof -
  show "a < MAXVA" using assms(2) by (simp add: word_less_nat_alt)
  show a4: "unat (a + 4096) = unat a + 4096" using assms(2) unat_add_nowrap [of a 4096] by simp
  then show "page_aligned (a + 4096)" using assms(1) by (simp add: page_aligned_nat)
  fix k assume "k < n"
  then have u: "unat (a + 4096 + 4096 * of_nat k) = unat a + 4096 + 4096 * k"
    using unat_page_add [of "a + 4096" k] a4 assms(2) by simp
  moreover have "(unat a + 4096 + 4096 * k) div 4096 * 4096 = unat a + 4096 + 4096 * k"
    using assms(1) by (auto simp: page_aligned_nat)
  ultimately show "a + 4096 + 4096 * of_nat k < MAXVA \<and> PGROUNDDOWN (a + 4096 + 4096 * of_nat k) \<noteq> a"
    using \<open>k < n\<close> assms(2) by (simp add: word_less_nat_alt word_eq_iff_unat64 unat_PGROUNDDOWN)
qed

lemma owned_pages_step:
  assumes a: "page_aligned a" "unat a + 4096 * Suc n \<le> 274877906944"
    and own: "owned_pages s pt fl a (Suc n)" and e: "lookup (mem s) pt a = Some (0, e)"
    and t: "tables (mem t) pt = tables (mem s) pt" "kend t = kend s"
    and look: "\<And>x. x < MAXVA \<Longrightarrow> lookup (mem t) pt x = (if PGROUNDDOWN x = a then None else lookup (mem s) pt x)"
  shows "owned_pages t pt (PTE2PA e # fl) (a + 4096) n"
    "frames (mem t) pt (a + 4096) n = frames (mem s) pt (a + 4096) n"
proof -
  have same: "lookup (mem t) pt (a + 4096 + 4096 * of_nat k) = lookup (mem s) pt (a + 4096 + 4096 * of_nat k)"
    if "k < n" for k using page_step(4) [OF a that] look by simp
  then show fr: "frames (mem t) pt (a + 4096) n = frames (mem s) pt (a + 4096) n" by (rule frames_cong)
  have "\<exists>e. lookup (mem t) pt (a + 4096 + 4096 * of_nat k) = Some (0, e) \<and> PTE_FLAGS e \<noteq> PTE_V"
    if "k < n" for k
  proof -
    have "a + 4096 * of_nat (Suc k) = a + 4096 + 4096 * of_nat k" by (simp add: algebra_simps)
    with same [OF that] own that show ?thesis unfolding owned_pages_def by (metis Suc_less_eq)
  qed
  with own e fr t phys_page_cong [OF t(2)] show "owned_pages t pt (PTE2PA e # fl) (a + 4096) n"
    by (auto simp: owned_pages_def frames_Suc)
qed

lemma uvmunmap_loop_spec:
  assumes "pt_state s pt fl" "page_aligned a" "unat a + 4096 * n \<le> 274877906944"
    and "owned_pages s pt fl a n"
  shows "\<exists>t. uvmunmap_loop pt a (a + 4096 * of_nat n) True s = Done () t \<and>
    pt_state t pt (rev (frames (mem s) pt a n) @ fl) \<and> tables (mem t) pt = tables (mem s) pt \<and> kend t = kend s \<and>
    (\<forall>x<MAXVA. lookup (mem t) pt x = (if in_pages a n x then None else lookup (mem s) pt x)) \<and>
    (\<forall>x. PGROUNDDOWN x \<notin> tables (mem s) pt \<union> set (frames (mem s) pt a n) \<longrightarrow> mem t x = mem s x)"
  using assms
proof (induction n arbitrary: a s fl)
  case 0
  then show ?case by (auto simp: uvmunmap_loop.simps frames_def in_pages_def)
next
  case (Suc n)
  let ?l = "a + 4096 * of_nat (Suc n)"
  note p = page_step [OF Suc.prems(2,3)]
  have "unat ?l = unat a + 4096 * Suc n" using Suc.prems(3) by (intro unat_page_add) simp
  then have lt: "a < ?l" by (simp add: word_less_nat_alt)
  from Suc.prems(4) obtain e where e: "lookup (mem s) pt a = Some (0, e)" "PTE_FLAGS e \<noteq> PTE_V"
    by (force simp: owned_pages_def)
  have f: "phys_page s (PTE2PA e)" "PTE2PA e \<notin> set fl" "PTE2PA e \<notin> tables (mem s) pt"
    using Suc.prems(4) e(1) by (simp_all add: owned_pages_def frames_Suc)
  obtain t where t: "uvmunmap_loop pt a ?l True s = uvmunmap_loop pt (a + 4096) ?l True t"
    "pt_state t pt (PTE2PA e # fl)" "tables (mem t) pt = tables (mem s) pt" "kend t = kend s"
    "\<And>x. x < MAXVA \<Longrightarrow> lookup (mem t) pt x = (if PGROUNDDOWN x = a then None else lookup (mem s) pt x)"
    "\<And>x. PGROUNDDOWN x \<notin> tables (mem s) pt \<Longrightarrow> PGROUNDDOWN x \<noteq> PTE2PA e \<Longrightarrow> mem t x = mem s x"
    using uvmunmap_step [OF Suc.prems(1) p(1) Suc.prems(2) lt e f] by metis
  note own = owned_pages_step [OF Suc.prems(2-4) e(1) t(3,4,5)]
  have l: "?l = a + 4096 + 4096 * of_nat n" by (simp add: algebra_simps)
  have fs: "frames (mem s) pt a (Suc n) = PTE2PA e # frames (mem t) pt (a + 4096) n"
    using own(2) e(1) by (simp add: frames_Suc)
  from Suc.IH [OF t(2) p(3) _ own(1)] Suc.prems(3) p(2) obtain u where
    u: "uvmunmap_loop pt (a + 4096) ?l True t = Done () u"
    "pt_state u pt (rev (frames (mem t) pt (a + 4096) n) @ PTE2PA e # fl)" "tables (mem u) pt = tables (mem t) pt" "kend u = kend t"
    "\<And>x. x < MAXVA \<Longrightarrow> lookup (mem u) pt x = (if in_pages (a + 4096) n x then None else lookup (mem t) pt x)"
    "\<And>x. PGROUNDDOWN x \<notin> tables (mem t) pt \<union> set (frames (mem t) pt (a + 4096) n) \<Longrightarrow> mem u x = mem t x"
    unfolding l by auto
  have "lookup (mem u) pt x = (if in_pages a (Suc n) x then None else lookup (mem s) pt x)" if "x < MAXVA" for x
    using in_pages_Suc [OF Suc.prems(2,3), of x] u(5) [OF that] t(5) [OF that] by simp
  with t(1,3,4,6) u fs show ?case by (auto intro!: exI [of _ u])
qed

text \<open>The page mapped in the example by \<^verbatim>\<open>mappages\<close> can be unmapped again.\<close>

lemma example_mapped:
  obtains s :: kmem and fl where "pt_state s 0x80024000 fl" "owned_pages s 0x80024000 fl 0x3000 1"
    "lookup (mem s) 0x80024000 0x3000 = Some (0, PA2PTE 0x80025000 OR 22 OR 1)"
    "frames (mem s) 0x80024000 0x3000 1 = [0x80025000]"
proof -
  let ?fl = "[0x80021000, 0x80022000, 0x80023000 :: addr]" and ?e = "PA2PTE 0x80025000 OR 22 OR 1"
  obtain us fl' t where t: "?fl = us @ fl'" "table_step example_state 0x80024000 us fl' t"
    "maps_pages (mem example_state) 0x80024000 0x3000 1 0x80025000 22 (mem t)"
    using mappages_loop_spec [OF example_pt_state(1), of "0x3000" 0 "0x80025000" 22] example_pt_state(2)
    by (auto simp: page_aligned_def)
  have look: "lookup (mem t) 0x80024000 0x3000 = Some (0, ?e)"
    using t(3) by (simp add: maps_pages_def in_pages_def PGROUNDDOWN_of_aligned page_aligned_def)
  have pa: "PTE2PA ?e = 0x80025000" using PTE2PA_PA2PTE [of "0x80025000" 23] by (simp add: page_aligned_def or.assoc)
  have fr: "frames (mem t) 0x80024000 0x3000 1 = [0x80025000]" using look pa by (simp add: frames_def)
  have sub: "set us \<subseteq> set ?fl" "set fl' \<subseteq> set ?fl" using t(1) by auto
  have tab: "tables (mem t) 0x80024000 = {0x80024000} \<union> set us"
    using t(2) empty_table(1) [of "0x80024000" "mem example_state"] example_zero by (simp add: table_step_def page_aligned_def)
  have "phys_page t 0x80025000"
    using t(2) by (auto simp: table_step_def phys_page_def page_aligned_def example_state_def dest: arg_cong [of _ _ kend])
  moreover have "0x80025000 \<notin> set fl'" "0x80025000 \<notin> tables (mem t) 0x80024000"
    using sub by (auto simp: tab)
  moreover have "PTE_FLAGS ?e = 23" by (simp add: PTE_FLAGS_def PA2PTE_def)
  ultimately have "owned_pages t 0x80024000 fl' 0x3000 1"
    using look fr by (simp add: owned_pages_def)
  moreover have "pt_state t 0x80024000 fl'" using t(2) by (simp add: table_step_def)
  ultimately show thesis using look fr by (intro that)
qed

section \<open>Copying\<close>

text \<open>The physical page that \<^verbatim>\<open>walkaddr\<close> finds for a user address, 0 if there is none.\<close>

definition user_frame :: "memory \<Rightarrow> addr \<Rightarrow> uint64 \<Rightarrow> addr" where
  "user_frame m pt va = (if va \<ge> MAXVA then 0
     else case lookup m pt va of None \<Rightarrow> 0 | Some (l, e) \<Rightarrow> if bit e 4 then PTE2PA e else 0)"

lemma walkaddr_user_frame:
  assumes "pt_state s pt fl"
  shows "walkaddr pt va s = Done (user_frame (mem s) pt va) s"
proof (cases "va \<ge> MAXVA")
  case False
  then have va: "va < MAXVA" by simp
  obtain pte us fl' where w: "walk pt va False s = Done pte s" "walked s pt va False fl pte us fl' s"
    using walk_spec [OF assms va, of False] by (metis walked_def)
  then show ?thesis using False
    by (cases "lookup (mem s) pt va")
      (auto simp: walkaddr_def user_frame_def walked_def read_pte_def dest: lookup_at_slot)
qed (simp add: walkaddr_def user_frame_def)

lemma PGROUNDDOWN_MAXVA: "PGROUNDDOWN va \<ge> MAXVA \<longleftrightarrow> va \<ge> MAXVA"
proof -
  have "274877906944 \<le> n div 4096 * 4096 \<longleftrightarrow> 274877906944 \<le> n" for n :: nat
    using less_eq_div_iff_mult_less_eq [of 4096 67108864 n] by auto
  then show ?thesis by (simp add: word_le_nat_alt unat_PGROUNDDOWN)
qed

lemma lookup_page: "va < MAXVA \<Longrightarrow> PGROUNDDOWN x = PGROUNDDOWN va \<Longrightarrow> x < MAXVA \<Longrightarrow> lookup m pt x = lookup m pt va"
  using va_path_eq_iff [of va x] by (simp add: lookup_def)

lemma user_frame_page:
  assumes "PGROUNDDOWN x = PGROUNDDOWN va"
  shows "user_frame m pt x = user_frame m pt va"
  using assms PGROUNDDOWN_MAXVA [of x] PGROUNDDOWN_MAXVA [of va] lookup_page [of va x m pt]
  by (auto simp: user_frame_def not_le)

end
