(* ===== verification/Copy.thy ===== *)
theory Copy
  imports Mapping_Vm
begin

text \<open>
  The copies between kernel buffers and user memory of \<^verbatim>\<open>kernel/vm.c\<close> (\<^verbatim>\<open>copyin\<close>,
  \<^verbatim>\<open>copyout\<close>, \<^verbatim>\<open>copyinstr\<close>): they read and write user memory byte by byte through the
  page table, whatever the alignment and however many pages the range crosses.
\<close>

section \<open>User bytes\<close>

text \<open>The physical address that the kernel uses for a user byte.\<close>

definition user_pa :: "memory \<Rightarrow> addr \<Rightarrow> uint64 \<Rightarrow> addr" where
  "user_pa m pt x = user_frame m pt x + (x - PGROUNDDOWN x)"

definition user_bytes :: "memory \<Rightarrow> addr \<Rightarrow> uint64 \<Rightarrow> nat \<Rightarrow> byte list" where
  "user_bytes m pt va n = map (\<lambda>i. m (user_pa m pt (va + of_nat i))) [0..<n]"

definition user_mapped :: "memory \<Rightarrow> addr \<Rightarrow> uint64 \<Rightarrow> nat \<Rightarrow> bool" where
  "user_mapped m pt va n \<longleftrightarrow> (\<forall>i<n. user_frame m pt (va + of_nat i) \<noteq> 0)"

lemma all_less_split:
  assumes "(n :: nat) \<le> len"
  shows "(\<forall>i<len. P i) \<longleftrightarrow> (\<forall>i<n. P i) \<and> (\<forall>i<len - n. P (n + i))"
proof -
  have "P i" if "\<forall>i<n. P i" "\<forall>i<len - n. P (n + i)" "i < len" for i
    using that spec [OF that(2), of "i - n"] by (cases "i < n") auto
  then show ?thesis using assms by auto
qed

lemma same_page:
  assumes "i < to_page_end va"
  shows "PGROUNDDOWN (va + of_nat i) = PGROUNDDOWN va"
proof -
  have lt: "unat va mod 4096 + i < 4096" using assms by (simp add: to_page_end_eq)
  have "va = PGROUNDDOWN va + of_nat (unat (va - PGROUNDDOWN va))" by simp
  then have "va + of_nat i = PGROUNDDOWN va + of_nat (unat (va - PGROUNDDOWN va) + i)"
    by (metis (no_types, lifting) add.assoc of_nat_add)
  then show ?thesis
    using PGROUNDDOWN_offset [of "PGROUNDDOWN va" "unat (va - PGROUNDDOWN va) + i"] lt
    by (simp only: unat_page_rest PGROUNDDOWN_aligned)
qed

lemma next_page: "PGROUNDDOWN va + 4096 = va + of_nat (to_page_end va)"
proof -
  have "va = PGROUNDDOWN va + of_nat (unat (va - PGROUNDDOWN va))" by simp
  then have "va = PGROUNDDOWN va + of_nat (unat va mod 4096)" unfolding unat_page_rest .
  moreover have "of_nat (unat va mod 4096) + of_nat (to_page_end va) = (4096 :: uint64)"
    by (simp add: to_page_end_eq of_nat_add [symmetric] del: of_nat_add)
  ultimately show ?thesis by (metis add.assoc)
qed

lemma user_pa_page:
  assumes "i < to_page_end va"
  shows "user_pa m pt (va + of_nat i) = user_frame m pt va + (va - PGROUNDDOWN va) + of_nat i"
  using user_frame_page [OF same_page [OF assms], of m pt] same_page [OF assms]
  by (simp add: user_pa_def)

lemma user_bytes_split:
  assumes "n \<le> to_page_end va" "n \<le> len"
  shows "user_bytes m pt va len = load_bytes m (user_frame m pt va + (va - PGROUNDDOWN va)) n @
    user_bytes m pt (va + of_nat n) (len - n)"
proof -
  have "[0..<len] = [0..<n] @ map (\<lambda>i. n + i) [0..<len - n]"
    using assms(2) by (intro nth_equalityI) (auto simp: nth_append)
  then show ?thesis
    using assms(1) by (simp add: user_bytes_def load_bytes_def user_pa_page o_def add.assoc)
qed

lemma user_mapped_split:
  assumes "0 < n" "n \<le> to_page_end va" "n \<le> len"
  shows "user_mapped m pt va len \<longleftrightarrow> user_frame m pt va \<noteq> 0 \<and> user_mapped m pt (va + of_nat n) (len - n)"
proof -
  have "(\<forall>i<len. P i) \<longleftrightarrow> (\<forall>i<n. P i) \<and> (\<forall>i<len - n. P (n + i))" for P :: "nat \<Rightarrow> bool"
    using all_less_split [OF assms(3)] .
  moreover have "user_frame m pt (va + of_nat i) = user_frame m pt va" if "i < n" for i
    using that assms(2) by (intro user_frame_page same_page) simp
  ultimately show ?thesis using assms(1) by (auto simp: user_mapped_def add.assoc)
qed

section \<open>copyin\<close>

lemma copyin_spec:
  assumes "pt_state s pt fl"
  shows "\<exists>bs. copyin pt va n s = Done (if user_mapped (mem s) pt va n then 0 else -1, bs) s \<and>
    (user_mapped (mem s) pt va n \<longrightarrow> bs = user_bytes (mem s) pt va n)"
proof (induction n arbitrary: va rule: less_induct)
  case (less len)
  show ?case
  proof (cases "len = 0")
    case True
    then show ?thesis by (simp add: copyin.simps user_mapped_def user_bytes_def)
  next
    case False
    let ?n = "min (to_page_end va) len" and ?va = "PGROUNDDOWN va + 4096" and ?m = "mem s"
    have n: "0 < ?n" "?n \<le> to_page_end va" "?n \<le> len" using False to_page_end_pos by auto
    have fr: "user_frame ?m pt (PGROUNDDOWN va) = user_frame ?m pt va"
      by (rule user_frame_page) (simp add: PGROUNDDOWN_of_aligned)
    have rest: "user_mapped ?m pt (va + of_nat ?n) (len - ?n) = user_mapped ?m pt ?va (len - ?n)"
      "user_bytes ?m pt (va + of_nat ?n) (len - ?n) = user_bytes ?m pt ?va (len - ?n)"
      by (cases "to_page_end va \<le> len"; simp add: min_def next_page user_mapped_def user_bytes_def)+
    obtain bs where ih: "copyin pt ?va (len - ?n) s = Done (if user_mapped ?m pt ?va (len - ?n) then 0 else -1, bs) s"
      "user_mapped ?m pt ?va (len - ?n) \<longrightarrow> bs = user_bytes ?m pt ?va (len - ?n)"
      using less.IH [of "len - ?n" ?va] n by auto
    show ?thesis
      using False ih walkaddr_user_frame [OF assms, of "PGROUNDDOWN va"] fr
        user_mapped_split [OF n, of ?m pt] user_bytes_split [OF n(2,3), of ?m pt] rest
      by (subst copyin.simps) (auto simp: Let_def)
  qed
qed

section \<open>copyout\<close>

text \<open>
  A range that the user may write: every byte lies in a writable user page of 4096 bytes
  whose frame is neither a table nor free, and different pages have different frames.
\<close>

definition user_writable :: "'z kmem_scheme \<Rightarrow> addr \<Rightarrow> addr list \<Rightarrow> uint64 \<Rightarrow> nat \<Rightarrow> bool" where
  "user_writable s pt fl va n \<longleftrightarrow> unat va + n \<le> 274877906944 \<and>
     (\<forall>i<n. \<exists>e. lookup (mem s) pt (va + of_nat i) = Some (0, e) \<and> bit e 2 \<and> bit e 4 \<and>
        phys_page s (PTE2PA e) \<and> PTE2PA e \<notin> set fl \<and> PTE2PA e \<notin> tables (mem s) pt) \<and>
     (\<forall>i<n. \<forall>j<n. user_frame (mem s) pt (va + of_nat i) = user_frame (mem s) pt (va + of_nat j) \<longrightarrow>
        PGROUNDDOWN (va + of_nat i) = PGROUNDDOWN (va + of_nat j))"

text \<open>Writing a piece of one frame that is neither a table nor free.\<close>

lemma PGROUNDDOWN_frame:
  assumes "page_aligned f" "k < 4096"
  shows "PGROUNDDOWN (f + of_nat k) = f"
  using assms by (rule PGROUNDDOWN_offset)

lemma store_bytes_frame:
  assumes "page_aligned f" "unat off + length bs \<le> 4096" "PGROUNDDOWN a \<noteq> f"
  shows "store_bytes m (f + off) bs a = m a"
proof -
  have "\<not> unat (a - (f + off)) < length bs"
  proof
    assume lt: "unat (a - (f + off)) < length bs"
    have "a = f + of_nat (unat off + unat (a - (f + off)))" by simp
    moreover have "unat off + unat (a - (f + off)) < 4096" using lt assms(2) by simp
    ultimately have "PGROUNDDOWN a = f" using PGROUNDDOWN_frame [OF assms(1)] by metis
    with assms(3) show False by simp
  qed
  then show ?thesis by (simp add: store_bytes_def)
qed

lemma store_frame_pt_state:
  assumes st: "pt_state s pt fl" and f: "f \<notin> set fl" "f \<notin> tables (mem s) pt"
    and same: "same_except_page f (mem s) m"
  defines "t \<equiv> s\<lparr>mem := m\<rparr>"
  shows "pt_state t pt fl" "tables m pt = tables (mem s) pt" "lookup m pt = lookup (mem s) pt"
proof -
  note al = pt_state_table(1) [OF st]
  have eq: "m a = mem s a" if "PGROUNDDOWN a \<in> tables (mem s) pt" for a
    using that f(2) same by (auto simp: same_except_page_def)
  note ts = tables_same [OF al eq]
  show "tables m pt = tables (mem s) pt" using ts(1) by auto
  show "lookup m pt = lookup (mem s) pt"
    using ent_same [OF al eq] by (intro ext lookup_cong) auto
  have "kmem_pool t fl" unfolding t_def
    using st f(1) same by (intro kmem_pool_mem) (auto simp: pt_state_def same_except_page_def)
  then show "pt_state t pt fl"
    using st ts phys_page_cong [of t s] by (auto simp: pt_state_def t_def)
qed

lemma user_writable_cong:
  assumes "user_writable s pt fl va n" "lookup (mem t) pt = lookup (mem s) pt"
    "tables (mem t) pt = tables (mem s) pt" "kend t = kend s"
  shows "user_writable t pt fl va n"
  using assms(1) unfolding user_writable_def user_frame_def assms(2,3) phys_page_cong [OF assms(4)] .

lemma user_writable_drop:
  assumes w: "user_writable s pt fl va n" and k: "k \<le> n"
  shows "user_writable s pt fl (va + of_nat k) (n - k)"
proof -
  have u: "unat (va + of_nat k) = unat va + k"
    using w k by (intro unat_add_of_nat64) (simp add: user_writable_def)
  have eq: "va + of_nat k + of_nat i = va + of_nat (k + i)" for i by simp
  have lt: "k + i < n" if "i < n - k" for i using that by simp
  show ?thesis unfolding user_writable_def eq
  proof (intro conjI allI impI)
    show "unat (va + of_nat k) + (n - k) \<le> 274877906944" using w k u by (simp add: user_writable_def)
  qed (use w lt in \<open>unfold user_writable_def, blast\<close>)+
qed

lemma user_writable_frame:
  assumes "user_writable s pt fl va n" "i < n" and frame: "f = user_frame (mem s) pt (va + of_nat i)"
  shows "phys_page s f" "f \<noteq> 0 \<or> kend s = 0" "f \<notin> set fl" "f \<notin> tables (mem s) pt" "page_aligned f"
    "unat (va + of_nat i) = unat va + i" "va + of_nat i < MAXVA"
    "\<exists>e. lookup (mem s) pt (va + of_nat i) = Some (0, e) \<and> bit e 2"
proof -
  show u: "unat (va + of_nat i) = unat va + i"
    using assms by (intro unat_add_of_nat64) (simp add: user_writable_def)
  then show lt: "va + of_nat i < MAXVA" using assms by (simp add: user_writable_def word_less_nat_alt)
  obtain e where e: "lookup (mem s) pt (va + of_nat i) = Some (0, e)" "bit e 2" "bit e 4"
    "phys_page s (PTE2PA e)" "PTE2PA e \<notin> set fl" "PTE2PA e \<notin> tables (mem s) pt"
    using assms(1,2) by (auto simp: user_writable_def)
  moreover have "f = PTE2PA e" using e lt by (auto simp: frame user_frame_def)
  ultimately show "phys_page s f" "f \<notin> set fl" "f \<notin> tables (mem s) pt" "page_aligned f"
    "f \<noteq> 0 \<or> kend s = 0" "\<exists>e. lookup (mem s) pt (va + of_nat i) = Some (0, e) \<and> bit e 2"
    by (auto simp: phys_page_def)
qed

lemma user_writable_first:
  assumes "user_writable s pt fl va n" "0 < n" and frame: "f = user_frame (mem s) pt va"
  shows "phys_page s f" "f \<noteq> 0 \<or> kend s = 0" "f \<notin> set fl" "f \<notin> tables (mem s) pt" "page_aligned f"
    "va < MAXVA" "\<exists>e. lookup (mem s) pt va = Some (0, e) \<and> bit e 2"
  using user_writable_frame [OF assms(1,2), of f] frame by simp_all

lemma load_store_bytes:
  assumes "length bs \<le> 4096"
  shows "load_bytes (store_bytes m a bs) a (length bs) = bs"
proof (rule nth_equalityI)
  show "length (load_bytes (store_bytes m a bs) a (length bs)) = length bs" by (simp add: load_bytes_def)
  fix i assume "i < length (load_bytes (store_bytes m a bs) a (length bs))"
  then have "i < length bs" by (simp add: load_bytes_def)
  then show "load_bytes (store_bytes m a bs) a (length bs) ! i = bs ! i"
    using assms by (simp add: load_bytes_def store_bytes_def)
qed

text \<open>One round of the loop of \<^verbatim>\<open>copyout\<close>.\<close>

lemma copyout_step:
  assumes st: "pt_state s pt fl" and w: "user_writable s pt fl va k" and pos: "0 < k" and ne: "bs \<noteq> []"
  defines "n \<equiv> min (to_page_end va) (length bs)"
  defines "m \<equiv> store_bytes (mem s) (user_frame (mem s) pt va + (va - PGROUNDDOWN va)) (take n bs)"
  shows "copyout pt va bs s = copyout pt (PGROUNDDOWN va + 4096) (drop n bs) (s\<lparr>mem := m\<rparr>)"
    and "same_except_page (user_frame (mem s) pt va) (mem s) m"
proof -
  let ?f = "user_frame (mem s) pt va"
  note f = user_writable_first [OF w pos refl]
  have "0 < kend s" using st by (simp add: pt_state_def kmem_pool_def)
  with f(2) have nz: "?f \<noteq> 0" by auto
  have va: "va < MAXVA" "\<not> MAXVA \<le> PGROUNDDOWN va"
    using f(6) PGROUNDDOWN_MAXVA [of va] by (auto simp: not_le)
  have fr: "user_frame (mem s) pt (PGROUNDDOWN va) = ?f"
    by (rule user_frame_page) (simp add: PGROUNDDOWN_of_aligned)
  obtain e where e: "lookup (mem s) pt va = Some (0, e)" "bit e 2" using f(7) by auto
  have "lookup (mem s) pt (PGROUNDDOWN va) = Some (0, e)"
    using lookup_page [of va "PGROUNDDOWN va" "mem s" pt] va e(1) by (simp add: PGROUNDDOWN_of_aligned not_le)
  from walk_level0 [OF this, of False] va obtain t0 where
    t0: "walk pt (PGROUNDDOWN va) False s = Done (pte_slot t0 (PX 0 (PGROUNDDOWN va))) s"
    "tbl (mem s) pt [PX 2 (PGROUNDDOWN va), PX 1 (PGROUNDDOWN va)] = Some t0"
    "e = load64 (mem s) (pte_slot t0 (PX 0 (PGROUNDDOWN va)))" by (auto simp: not_le)
  have "t0 \<in> tables (mem s) pt" by (rule tblI [OF _ t0(2)]) (simp add: good_path_def unat_PX)
  from pt_state_table [OF st this] have "pte_slot t0 (PX 0 (PGROUNDDOWN va)) \<noteq> 0"
    using unat_pte_slot [of t0] unat_PX [of 0] by (auto simp: word_eq_iff_unat64)
  then show "copyout pt va bs s = copyout pt (PGROUNDDOWN va + 4096) (drop n bs) (s\<lparr>mem := m\<rparr>)"
    using ne va t0 e(2) nz fr walkaddr_user_frame [OF st, of "PGROUNDDOWN va"]
    by (subst copyout.simps) (simp add: Let_def read_pte_def n_def m_def)
  show "same_except_page ?f (mem s) m"
    unfolding same_except_page_def m_def
    using store_bytes_frame [OF f(5), of "va - PGROUNDDOWN va" "take n bs"]
    by (auto simp: unat_page_rest n_def to_page_end_eq)
qed

lemma user_pa_frame:
  assumes "user_writable s pt fl va len" "k < len"
  shows "PGROUNDDOWN (user_pa (mem s) pt (va + of_nat k)) = user_frame (mem s) pt (va + of_nat k)"
proof -
  have "user_pa (mem s) pt (va + of_nat k) =
    user_frame (mem s) pt (va + of_nat k) + of_nat (unat (va + of_nat k - PGROUNDDOWN (va + of_nat k)))"
    by (simp add: user_pa_def)
  then show ?thesis
    using PGROUNDDOWN_frame [OF user_writable_frame(5) [OF assms refl]] by (simp add: unat_page_rest)
qed

text \<open>The first page keeps its bytes: later bytes of the range lie in other frames.\<close>

lemma user_pa_other_page:
  assumes w: "user_writable s pt fl va len" and i: "i < to_page_end va" "i < len"
    and j: "to_page_end va \<le> j" "j < len"
  shows "user_pa (mem s) pt (va + of_nat j) \<noteq> user_frame (mem s) pt va + (va - PGROUNDDOWN va) + of_nat i"
proof
  let ?f = "\<lambda>k. user_frame (mem s) pt (va + of_nat k)"
  assume eq: "user_pa (mem s) pt (va + of_nat j) = user_frame (mem s) pt va + (va - PGROUNDDOWN va) + of_nat i"
  note pd = user_pa_frame [OF w]
  have "user_pa (mem s) pt (va + of_nat j) = user_pa (mem s) pt (va + of_nat i)"
    using eq user_pa_page [OF i(1)] by simp
  then have "?f j = ?f i" using pd [OF j(2)] pd [OF i(2)] by simp
  then have "PGROUNDDOWN (va + of_nat j) = PGROUNDDOWN (va + of_nat i)"
    using w i(2) j(2) unfolding user_writable_def by blast
  then have "PGROUNDDOWN (va + of_nat j) = PGROUNDDOWN va" using same_page [OF i(1)] by simp
  then have "unat (va + of_nat j) div 4096 = unat va div 4096"
    by (simp add: word_eq_iff_unat64 unat_PGROUNDDOWN)
  then have "(unat va + j) div 4096 = unat va div 4096"
    using user_writable_frame(6) [OF w j(2) refl] by simp
  moreover have "unat va div 4096 + 1 \<le> (unat va + j) div 4096"
  proof -
    have "unat va div 4096 * 4096 + 4096 \<le> unat va + j"
      using j(1) div_mult_mod_eq [of "unat va" 4096] unfolding to_page_end_eq by linarith
    then show ?thesis by (simp add: less_eq_div_iff_mult_less_eq)
  qed
  ultimately show False by simp
qed

lemma user_pa_inj:
  assumes w: "user_writable s pt fl va len" and i: "i < len" and j: "j < len"
    and eq: "user_pa (mem s) pt (va + of_nat i) = user_pa (mem s) pt (va + of_nat j)"
  shows "i = j"
proof -
  let ?f = "\<lambda>k. user_frame (mem s) pt (va + of_nat k)"
  note pd = user_pa_frame [OF w]
  have f: "?f i = ?f j" using pd [OF i] pd [OF j] eq by simp
  then have "PGROUNDDOWN (va + of_nat i) = PGROUNDDOWN (va + of_nat j)"
    using w i j unfolding user_writable_def by blast
  with eq f have "va + of_nat i = va + of_nat j" by (simp add: user_pa_def)
  then show ?thesis using user_writable_frame(6) [OF w _ refl] i j by (metis add_left_cancel)
qed

lemma copyout_Nil: "copyout pt va [] s = Done 0 s"
  by (simp add: copyout.simps)

lemma copyout_spec:
  assumes "pt_state s pt fl" "user_writable s pt fl va (length bs)"
  shows "\<exists>m. copyout pt va bs s = Done 0 (s\<lparr>mem := m\<rparr>) \<and> pt_state (s\<lparr>mem := m\<rparr>) pt fl \<and>
    lookup m pt = lookup (mem s) pt \<and> user_bytes m pt va (length bs) = bs \<and>
    (\<forall>a. (\<forall>i<length bs. a \<noteq> user_pa (mem s) pt (va + of_nat i)) \<longrightarrow> m a = mem s a)"
  using assms
proof (induction "length bs" arbitrary: va bs s rule: less_induct)
  case less
  show ?case
  proof (cases "bs = []")
    case True
    then show ?thesis using less.prems by (intro exI [of _ "mem s"]) (simp add: copyout.simps user_bytes_def)
  next
    case False
    define n where "n = min (to_page_end va) (length bs)"
    let ?f = "user_frame (mem s) pt va" and ?o = "va - PGROUNDDOWN va" and ?bs = "drop n bs"
    define m1 where "m1 = store_bytes (mem s) (?f + ?o) (take n bs)"
    have n: "0 < n" "n \<le> to_page_end va" "n \<le> length bs"
      using False to_page_end_pos [of va] by (auto simp: n_def)
    have pos: "0 < length bs" using False by simp
    note f = user_writable_first [OF less.prems(2) pos refl]
    note step = copyout_step [OF less.prems pos False, folded n_def, folded m1_def]
    note s1 = store_frame_pt_state [OF less.prems(1) f(3,4) step(2)]
    have rest: "PGROUNDDOWN va + 4096 = va + of_nat n \<or> ?bs = []"
      using next_page [of va] by (auto simp: n_def)
    have w1: "user_writable (s\<lparr>mem := m1\<rparr>) pt fl (va + of_nat n) (length ?bs)"
      using user_writable_drop [OF user_writable_cong [OF less.prems(2), of "s\<lparr>mem := m1\<rparr>"] n(3)] s1 by simp
    have shorter: "length ?bs < length bs" using n by simp
    obtain m where m: "copyout pt (va + of_nat n) ?bs (s\<lparr>mem := m1\<rparr>) = Done 0 (s\<lparr>mem := m\<rparr>)"
      "pt_state (s\<lparr>mem := m\<rparr>) pt fl" "lookup m pt = lookup m1 pt"
      "user_bytes m pt (va + of_nat n) (length ?bs) = ?bs"
      "\<forall>a. (\<forall>i<length ?bs. a \<noteq> user_pa m1 pt (va + of_nat n + of_nat i)) \<longrightarrow> m a = m1 a"
      using less.hyps [OF shorter s1(1) w1] by auto
    have call: "copyout pt va bs s = Done 0 (s\<lparr>mem := m\<rparr>)"
      using rest
    proof
      assume "PGROUNDDOWN va + 4096 = va + of_nat n"
      with step(1) m(1) show ?thesis by simp
    next
      assume "?bs = []"
      with step(1) m(1) show ?thesis by (simp only: copyout_Nil outcome.inject)
    qed
    have look: "lookup m pt = lookup (mem s) pt" using m(3) s1(3) by simp
    then have uf: "user_frame m pt x = user_frame (mem s) pt x" "user_frame m1 pt x = user_frame (mem s) pt x" for x
      using s1(3) by (simp_all add: user_frame_def)
    then have upa: "user_pa m1 pt x = user_pa (mem s) pt x" for x by (simp add: user_pa_def)
    have keep: "m (?f + ?o + of_nat i) = m1 (?f + ?o + of_nat i)" if "i < n" for i
    proof -
      have "?f + ?o + of_nat i \<noteq> user_pa m1 pt (va + of_nat n + of_nat j)" if "j < length ?bs" for j
      proof -
        have "to_page_end va \<le> n + j" "n + j < length bs" using that by (auto simp: n_def)
        then show ?thesis
          using user_pa_other_page [OF less.prems(2), of i "n + j"] \<open>i < n\<close> n by (simp add: upa add.assoc)
      qed
      with m(5) show ?thesis by blast
    qed
    have "load_bytes m (?f + ?o) n = load_bytes m1 (?f + ?o) n" using keep by (simp add: load_bytes_def)
    also have "\<dots> = take n bs"
      using load_store_bytes [of "take n bs" "mem s" "?f + ?o"] n to_page_end_le [of va] by (simp add: m1_def)
    finally have "user_bytes m pt va (length bs) = bs"
      using user_bytes_split [OF n(2,3), of m pt] m(4) uf by simp
    moreover have "m a = mem s a" if "\<forall>i<length bs. a \<noteq> user_pa (mem s) pt (va + of_nat i)" for a
    proof -
      have "a \<noteq> user_pa m1 pt (va + of_nat n + of_nat i)" if "i < length ?bs" for i
        using that \<open>\<forall>i<length bs. _ i\<close> [rule_format, of "n + i"] by (simp add: upa add.assoc)
      then have "m a = m1 a" using m(5) by blast
      moreover have "\<not> unat (a - (?f + ?o)) < n"
      proof
        assume lt: "unat (a - (?f + ?o)) < n"
        then have "user_pa (mem s) pt (va + of_nat (unat (a - (?f + ?o)))) = a"
          using user_pa_page [of "unat (a - (?f + ?o))" va "mem s" pt] n by simp
        moreover have "unat (a - (?f + ?o)) < length bs" using lt n by simp
        ultimately show False using that by metis
      qed
      ultimately show ?thesis using n by (simp add: m1_def store_bytes_def min_def)
    qed
    ultimately show ?thesis using call m(2) look by blast
  qed
qed

text \<open>A copy that begins with whole pages is a copy to these pages and a copy of the rest.\<close>

lemma copyout_append:
  assumes "pt_state s pt fl" "user_writable s pt fl va (length xs)"
    and "\<And>i. i < length xs \<Longrightarrow> PGROUNDDOWN (va + of_nat i) \<noteq> PGROUNDDOWN (va + of_nat (length xs))"
  shows "copyout pt va (xs @ ys) s = kbind (copyout pt va xs s) (\<lambda>_ t. copyout pt (va + of_nat (length xs)) ys t)"
  using assms
proof (induction "length xs" arbitrary: va xs s rule: less_induct)
  case less
  show ?case
  proof (cases "xs = []")
    case True
    then show ?thesis by (simp add: copyout_Nil)
  next
    case False
    let ?n = "to_page_end va" and ?f = "user_frame (mem s) pt va"
    have pos: "0 < length xs" using False by simp
    have n: "?n \<le> length xs"
    proof (rule ccontr)
      assume "\<not> ?n \<le> length xs"
      then have "PGROUNDDOWN (va + of_nat (length xs)) = PGROUNDDOWN va" by (intro same_page) simp
      then show False using less.prems(3) [of 0] pos by simp
    qed
    note f = user_writable_first [OF less.prems(2) pos refl]
    define m1 where "m1 = store_bytes (mem s) (?f + (va - PGROUNDDOWN va)) (take ?n xs)"
    have mins: "min ?n (length xs) = ?n" "min ?n (length (xs @ ys)) = ?n" using n by simp_all
    have ne: "xs @ ys \<noteq> []" using False by simp
    have tk: "take ?n (xs @ ys) = take ?n xs" "drop ?n (xs @ ys) = drop ?n xs @ ys" using n by simp_all
    note st1 = copyout_step [OF less.prems(1,2) pos False, unfolded mins, folded m1_def]
    note st2 = copyout_step(1) [OF less.prems(1,2) pos ne, unfolded mins tk, folded m1_def]
    note s1 = store_frame_pt_state [OF less.prems(1) f(3,4) st1(2)]
    have w1: "user_writable (s\<lparr>mem := m1\<rparr>) pt fl (va + of_nat ?n) (length (drop ?n xs))"
      using user_writable_drop [OF user_writable_cong [OF less.prems(2), of "s\<lparr>mem := m1\<rparr>"] n] s1 by simp
    have add: "va + of_nat ?n + of_nat i = va + of_nat (?n + i)" for i by simp
    have pg: "PGROUNDDOWN (va + of_nat ?n + of_nat i) \<noteq> PGROUNDDOWN (va + of_nat ?n + of_nat (length (drop ?n xs)))" if "i < length (drop ?n xs)" for i
      unfolding add using less.prems(3) [of "?n + i"] that n by simp
    have lt: "length (drop ?n xs) < length xs" using n pos to_page_end_pos [of va] by simp
    have e: "va + of_nat ?n + of_nat (length (drop ?n xs)) = va + of_nat (length xs)" unfolding add using n by simp
    have "copyout pt (va + of_nat ?n) (drop ?n xs @ ys) (s\<lparr>mem := m1\<rparr>) =
        kbind (copyout pt (va + of_nat ?n) (drop ?n xs) (s\<lparr>mem := m1\<rparr>)) (\<lambda>_ t. copyout pt (va + of_nat (length xs)) ys t)"
      using less.hyps [OF lt s1(1) w1 pg] unfolding e .
    then show ?thesis unfolding st1(1) st2 next_page .
  qed
qed

text \<open>An address that \<^verbatim>\<open>copyout\<close> refuses: unmapped, or in a read-only page.\<close>

definition no_write :: "memory \<Rightarrow> addr \<Rightarrow> uint64 \<Rightarrow> bool" where
  "no_write m pt x \<longleftrightarrow> user_frame m pt x = 0 \<or> x < MAXVA \<and> (\<exists>e. lookup m pt x = Some (0, e) \<and> \<not> bit e 2)"

lemma copyout_refused:
  assumes st: "pt_state s pt fl" and bad: "no_write (mem s) pt va" and ne: "bs \<noteq> []"
  shows "copyout pt va bs s = Done (-1) s"
proof (cases "va < MAXVA")
  case False
  then have "MAXVA \<le> PGROUNDDOWN va" using PGROUNDDOWN_MAXVA [of va] by (simp add: not_less)
  then show ?thesis using ne by (subst copyout.simps) (simp add: Let_def)
next
  case True
  then have p: "\<not> MAXVA \<le> PGROUNDDOWN va" using PGROUNDDOWN_MAXVA [of va] by (simp add: not_le)
  then have lt: "PGROUNDDOWN va < MAXVA" by (simp add: not_le)
  obtain pte where w: "walk pt (PGROUNDDOWN va) False s = Done pte s" using walk_spec [OF st lt, of False] by (metis walked_def)
  have pg: "PGROUNDDOWN (PGROUNDDOWN va) = PGROUNDDOWN va" by (simp add: PGROUNDDOWN_of_aligned)
  have wa: "walkaddr pt (PGROUNDDOWN va) s = Done (user_frame (mem s) pt va) s"
    using walkaddr_user_frame [OF st, of "PGROUNDDOWN va"] user_frame_page [OF pg] by simp
  show ?thesis
  proof (cases "user_frame (mem s) pt va = 0")
    case zero: True
    then show ?thesis using ne p w wa by (subst copyout.simps) (simp add: Let_def)
  next
    case False
    then obtain e where e: "lookup (mem s) pt va = Some (0, e)" "\<not> bit e 2" using bad by (auto simp: no_write_def)
    have "lookup (mem s) pt (PGROUNDDOWN va) = Some (0, e)" using lookup_page [OF True pg lt, of "mem s" pt] e(1) by simp
    from walk_level0 [OF this lt, of False] obtain t0 where "walk pt (PGROUNDDOWN va) False s = Done (pte_slot t0 (PX 0 (PGROUNDDOWN va))) s"
        "e = load64 (mem s) (pte_slot t0 (PX 0 (PGROUNDDOWN va)))" by auto
    then show ?thesis using ne p e(2) by (subst copyout.simps) (simp add: Let_def read_pte_def)
  qed
qed

text \<open>
  A copy whose first \<open>k\<close> bytes can be written and whose next byte cannot returns -1, after the first \<open>k\<close> bytes were written.
\<close>

lemma copyout_fails:
  assumes st: "pt_state s pt fl" and w: "user_writable s pt fl va k" and k: "k < length bs" and bad: "no_write (mem s) pt (va + of_nat k)"
  shows "\<exists>m. copyout pt va bs s = Done (-1) (s\<lparr>mem := m\<rparr>) \<and> pt_state (s\<lparr>mem := m\<rparr>) pt fl \<and>
    lookup m pt = lookup (mem s) pt \<and> user_bytes m pt va k = take k bs \<and>
    (\<forall>a. (\<forall>i<k. a \<noteq> user_pa (mem s) pt (va + of_nat i)) \<longrightarrow> m a = mem s a)"
proof -
  have l: "length (take k bs) = k" using k by simp
  have "0 < kend s" using st by (simp add: pt_state_def kmem_pool_def)
  then have nz: "user_frame (mem s) pt (va + of_nat i) \<noteq> 0" if "i < k" for i using user_writable_frame(2) [OF w that refl] by auto
  have pg: "PGROUNDDOWN (va + of_nat i) \<noteq> PGROUNDDOWN (va + of_nat k)" if i: "i < k" for i
  proof
    assume eq: "PGROUNDDOWN (va + of_nat i) = PGROUNDDOWN (va + of_nat k)"
    note wf = user_writable_frame [OF w i refl]
    obtain e where e: "lookup (mem s) pt (va + of_nat i) = Some (0, e)" "bit e 2" using wf(8) by blast
    have "user_frame (mem s) pt (va + of_nat k) \<noteq> 0" using user_frame_page [OF eq] nz [OF i] by simp
    then obtain e' where e': "va + of_nat k < MAXVA" "lookup (mem s) pt (va + of_nat k) = Some (0, e')" "\<not> bit e' 2"
      using bad by (auto simp: no_write_def)
    then show False using lookup_page [OF e'(1) eq wf(7), of "mem s" pt] e by simp
  qed
  obtain m where m: "copyout pt va (take k bs) s = Done 0 (s\<lparr>mem := m\<rparr>)" "pt_state (s\<lparr>mem := m\<rparr>) pt fl"
      "lookup m pt = lookup (mem s) pt" "user_bytes m pt va k = take k bs"
      "\<forall>a. (\<forall>i<k. a \<noteq> user_pa (mem s) pt (va + of_nat i)) \<longrightarrow> m a = mem s a"
    using copyout_spec [OF st, of va "take k bs"] w unfolding l by blast
  have "no_write m pt (va + of_nat k)" using bad unfolding no_write_def user_frame_def m(3) .
  then have "copyout pt (va + of_nat k) (drop k bs) (s\<lparr>mem := m\<rparr>) = Done (-1) (s\<lparr>mem := m\<rparr>)"
    using copyout_refused [OF m(2)] k by simp
  moreover have "copyout pt va (take k bs @ drop k bs) s =
      kbind (copyout pt va (take k bs) s) (\<lambda>_ t. copyout pt (va + of_nat (length (take k bs))) (drop k bs) t)"
    by (rule copyout_append [OF st]) (use w pg l in simp_all)
  ultimately have "copyout pt va bs s = Done (-1) (s\<lparr>mem := m\<rparr>)" using m(1) k by (simp add: min_absorb2)
  then show ?thesis using m(2-5) by blast
qed

text \<open>A concrete address space with a writable user page at \<open>0x3000\<close>.\<close>

lemma example_user:
  obtains s :: kmem and fl where "pt_state s 0x80024000 fl" "user_writable s 0x80024000 fl 0x3010 3"
    "user_mapped (mem s) 0x80024000 0x3010 3"
proof (rule example_mapped)
  fix s :: kmem and fl
  let ?e = "PA2PTE 0x80025000 OR 22 OR 1"
  assume a: "pt_state s 0x80024000 fl" "owned_pages s 0x80024000 fl 0x3000 1"
    "lookup (mem s) 0x80024000 0x3000 = Some (0, ?e)"
    "frames (mem s) 0x80024000 0x3000 1 = [0x80025000]"
  have page: "PGROUNDDOWN (0x3010 + of_nat i) = PGROUNDDOWN 0x3000" "0x3010 + of_nat i < MAXVA" if "i < 3" for i
  proof -
    have "0x3010 + of_nat i = (0x3000 :: uint64) + of_nat (16 + i)" by simp
    then show "PGROUNDDOWN (0x3010 + of_nat i) = PGROUNDDOWN 0x3000"
      using PGROUNDDOWN_frame [of "0x3000" "16 + i"] that PGROUNDDOWN_of_aligned [of "0x3000"]
      by (simp add: page_aligned_def)
    show "0x3010 + of_nat i < MAXVA"
      using that unat_add_of_nat64 [of "0x3010" i] by (simp add: word_less_nat_alt)
  qed
  have look: "lookup (mem s) 0x80024000 (0x3010 + of_nat i) = Some (0, ?e)" if "i < 3" for i
    using lookup_page [OF _ page [OF that]] a(3) by simp
  have "PTE2PA ?e = 0x80025000" using a(3,4) by (simp add: frames_def)
  moreover have "bit ?e 2" "bit ?e 4" by (simp_all add: bit_or_iff)
  ultimately have w: "user_writable s 0x80024000 fl 0x3010 3"
    using a(2,4) look page by (auto simp: user_writable_def owned_pages_def)
  have "0 < kend s" using a(1) by (simp add: pt_state_def kmem_pool_def)
  then have "user_mapped (mem s) 0x80024000 0x3010 3"
    using user_writable_frame(2) [OF w _ refl] by (auto simp: user_mapped_def)
  with a(1) w show thesis by (rule that)
qed

text \<open>
  C5. \<^verbatim>\<open>copyout\<close> to a range of user-writable pages and \<^verbatim>\<open>copyin\<close> from the same range form a
  round trip: both return 0, \<^verbatim>\<open>copyin\<close> gives back exactly the bytes that \<^verbatim>\<open>copyout\<close> was given, for
  every alignment and any number of pages crossed. The translations do not change and
  no byte outside the range is written.
\<close>

theorem copyout_copyin:
  assumes "pt_state s pt fl" "user_writable s pt fl va (length bs)"
  shows "\<exists>m. copyout pt va bs s = Done 0 (s\<lparr>mem := m\<rparr>) \<and>
    copyin pt va (length bs) (s\<lparr>mem := m\<rparr>) = Done (0, bs) (s\<lparr>mem := m\<rparr>) \<and>
    lookup m pt = lookup (mem s) pt \<and>
    (\<forall>a. (\<forall>i<length bs. a \<noteq> user_pa (mem s) pt (va + of_nat i)) \<longrightarrow> m a = mem s a)"
proof -
  obtain m where m: "copyout pt va bs s = Done 0 (s\<lparr>mem := m\<rparr>)" "pt_state (s\<lparr>mem := m\<rparr>) pt fl"
    "lookup m pt = lookup (mem s) pt" "user_bytes m pt va (length bs) = bs"
    "\<forall>a. (\<forall>i<length bs. a \<noteq> user_pa (mem s) pt (va + of_nat i)) \<longrightarrow> m a = mem s a"
    using copyout_spec [OF assms] by blast
  have "0 < kend s" using assms(1) by (simp add: pt_state_def kmem_pool_def)
  then have "user_mapped m pt va (length bs)"
    using user_writable_frame(2) [OF assms(2) _ refl] m(3) by (auto simp: user_mapped_def user_frame_def)
  with copyin_spec [OF m(2), of va "length bs"] m show ?thesis by auto
qed

theorem copyout_copyin_witness:
  "\<exists>(s :: kmem) m. copyout 0x80024000 0x3010 [1, 2, 3] s = Done 0 (s\<lparr>mem := m\<rparr>) \<and>
    copyin 0x80024000 0x3010 (length [1 :: byte, 2, 3]) (s\<lparr>mem := m\<rparr>) = Done (0, [1, 2, 3]) (s\<lparr>mem := m\<rparr>)"
proof (rule example_user)
  fix s :: kmem and fl
  assume a: "pt_state s 0x80024000 fl" "user_writable s 0x80024000 fl 0x3010 3"
  have "user_writable s 0x80024000 fl 0x3010 (length [1 :: byte, 2, 3])" using a(2) by (simp add: numeral_3_eq_3)
  from copyout_copyin [OF a(1) this] show ?thesis by blast
qed

text \<open>
  C6. \<^verbatim>\<open>copyin\<close> changes nothing, and it returns 0 exactly when every byte of the range
  lies in a valid user page, and then delivers the bytes that \<^verbatim>\<open>walkaddr\<close> locates.
\<close>

theorem copyin_correct:
  assumes "pt_state s pt fl"
  shows "\<exists>r bs. copyin pt va n s = Done (r, bs) s \<and> (r = 0 \<longleftrightarrow> user_mapped (mem s) pt va n) \<and>
    (r = 0 \<longrightarrow> bs = user_bytes (mem s) pt va n) \<and> (r \<noteq> 0 \<longrightarrow> r = -1)"
  using copyin_spec [OF assms, of va n] by auto

theorem copyin_correct_witness:
  "\<exists>r bs. copyin 0x80024000 0x3ff0 64 example_state = Done (r, bs) example_state \<and>
    (r = 0 \<longleftrightarrow> user_mapped (mem example_state) 0x80024000 0x3ff0 64) \<and>
    (r = 0 \<longrightarrow> bs = user_bytes (mem example_state) 0x80024000 0x3ff0 64) \<and> (r \<noteq> 0 \<longrightarrow> r = -1)"
  by (rule copyin_correct [OF example_pt_state(1)])

section \<open>Superpages\<close>

text \<open>The translation of \<open>va\<close> ends at level 1, with a leaf entry \<open>e\<close> for user memory.\<close>

definition superpage_leaf :: "addr \<Rightarrow> uint64 \<Rightarrow> pte \<Rightarrow> 'z kmem_scheme \<Rightarrow> bool" where
  "superpage_leaf pt va e s \<longleftrightarrow>
     (let e2 = read_pte (pte_slot pt (PX 2 va)) s; slot = pte_slot (PTE2PA e2) (PX 1 va)
      in va < MAXVA \<and> e2 AND PTE_V \<noteq> 0 \<and> PTE_LEAF e2 = 0 \<and> slot \<noteq> 0 \<and> read_pte slot s = e \<and>
         e AND PTE_V \<noteq> 0 \<and> PTE_LEAF e \<noteq> 0 \<and> e AND PTE_U \<noteq> 0 \<and> PTE2PA e \<noteq> 0)"

lemma walkaddr_superpage: "superpage_leaf pt va e s \<Longrightarrow> walkaddr pt va s = Done (PTE2PA e) s"
  by (simp add: superpage_leaf_def walkaddr_def walk_def Let_def numeral_2_eq_2 not_le del: PTE_V_bit PTE_U_bit)

text \<open>
  For an address in a superpage \<^verbatim>\<open>walkaddr\<close> gives the base of the superpage, whatever the address, and \<^verbatim>\<open>copyin\<close>
  adds only the offset in the page of 4096 bytes. So the byte that \<^verbatim>\<open>copyin\<close> delivers for an address in the superpage is the byte at
  that offset in the first 4096 bytes of the superpage, not the byte the hardware translates the address to.
\<close>

theorem copyin_superpage:
  assumes "superpage_leaf pt (PGROUNDDOWN va) e s"
  shows "copyin pt va 1 s = Done (0, [mem s (PTE2PA e + (va - PGROUNDDOWN va))]) s"
proof -
  have e: "PTE2PA e \<noteq> 0" using assms by (simp add: superpage_leaf_def Let_def)
  have "0 < to_page_end va" by (rule to_page_end_pos)
  then have "min (to_page_end va) 1 = 1" by simp
  then show ?thesis using e walkaddr_superpage [OF assms]
    by (subst copyin.simps) (simp add: Let_def load_bytes_def copyin.simps [of _ _ 0])
qed

text \<open>
  \<^verbatim>\<open>uvmunmap\<close> clears entries of pages of 4096 bytes but keeps the table that holds them. When such a table is left at the level-1 entry
  of an aligned address, mapping a superpage there panics.
\<close>

theorem supermappages_stale_table:
  assumes "va mod SUPERPGSIZE = 0" "va < MAXVA" "e2 = read_pte (pte_slot pt (PX 2 va)) s" "e2 AND PTE_V \<noteq> 0"
    "pte_slot (PTE2PA e2) (PX 1 va) \<noteq> 0" "is_table (read_pte (pte_slot (PTE2PA e2) (PX 1 va)) s)"
  shows "supermappages pt va pa perm s = Panic ''supermappages: remap''"
proof -
  have "read_pte (pte_slot (PTE2PA e2) (PX 1 va)) s AND PTE_V \<noteq> 0" using assms(6) by (simp add: is_table_bits)
  then show ?thesis using assms(1-5) by (simp add: supermappages_def superwalk_def not_le Let_def del: PTE_V_bit)
qed

end
