(* ===== verification/ProcState.thy ===== *)
theory ProcState
  imports Copy
begin

text \<open>
  The process table of \<^verbatim>\<open>kernel/proc.h\<close> and the routines of \<^verbatim>\<open>kernel/proc.c\<close> that other parts of
  the kernel call: \<^verbatim>\<open>myproc\<close>, \<^verbatim>\<open>sleep\<close>, \<^verbatim>\<open>wakeup\<close>, \<^verbatim>\<open>kill\<close>, \<^verbatim>\<open>killed\<close> and the copies to and from
  the memory of the current process. A process is named by its index in \<^verbatim>\<open>proc[]\<close>, an open
  file by its index in the file table, an inode by its index in the inode table; \<open>None\<close>
  stands for a null pointer. Sections that hold \<^verbatim>\<open>p->lock\<close> are single steps.

  \<open>Sleep ch s\<close> is the outcome of a routine that calls \<^verbatim>\<open>sleep\<close>: in the state \<open>s\<close> the process
  is asleep on \<open>ch\<close> and another process runs. A wait loop tests its condition again when
  the process is woken.
\<close>

section \<open>State\<close>

datatype procstate = UNUSED | USED | SLEEPING | RUNNABLE | RUNNING | ZOMBIE

text \<open>Of the saved kernel registers only the two that the C code writes.\<close>

record kcontext =
  ctx_ra :: uint64
  ctx_sp :: uint64

record proc =
  pstate :: procstate
  pchan :: "chan option"
  pkilled :: int
  xstate :: int
  pid :: int
  parent :: "nat option"
  kstack :: uint64
  psz :: uint64
  pagetable :: addr
  trapframe :: addr
  pcontext :: kcontext
  ofile :: "nat option list"
  cwd :: "nat option"
  pname :: "byte list"

record kproc = vm +
  procs :: "proc list"
  curproc :: nat
  nextpid :: int
  initproc :: nat
  ticks :: uint

abbreviation (input) NPROC :: nat where "NPROC \<equiv> 64"
abbreviation (input) NOFILE :: nat where "NOFILE \<equiv> 16"

section \<open>The current process\<close>

definition myproc :: "'z kproc_scheme \<Rightarrow> proc" where
  "myproc s = procs s ! curproc s"

definition upd_proc :: "nat \<Rightarrow> (proc \<Rightarrow> proc) \<Rightarrow> 'z kproc_scheme \<Rightarrow> 'z kproc_scheme" where
  "upd_proc i f s = s\<lparr>procs := (procs s)[i := f (procs s ! i)]\<rparr>"

section \<open>Sleeping and waking\<close>

text \<open>
  \<^verbatim>\<open>sleep\<close> up to the switch to the scheduler; the caller's lock is released in the same
  step that changes the state, so no wakeup is lost.
\<close>

definition ksleep :: "chan \<Rightarrow> 'z kproc_scheme \<Rightarrow> ('a, 'z kproc_scheme) outcome" where
  "ksleep ch s = Sleep ch (upd_proc (curproc s) (\<lambda>p. p\<lparr>pchan := Some ch, pstate := SLEEPING\<rparr>) s)"

definition wakeup_proc :: "nat \<Rightarrow> chan \<Rightarrow> nat \<Rightarrow> proc \<Rightarrow> proc" where
  "wakeup_proc cur ch i p =
     (if i \<noteq> cur
      then if pstate p = SLEEPING \<and> pchan p = Some ch then p\<lparr>pstate := RUNNABLE\<rparr> else p
      else p)"

definition wakeup :: "chan \<Rightarrow> 'z kproc_scheme \<Rightarrow> 'z kproc_scheme" where
  "wakeup ch s = s\<lparr>procs := map2 (wakeup_proc (curproc s) ch) [0..<length (procs s)] (procs s)\<rparr>"

section \<open>Killing\<close>

fun kill_loop :: "int \<Rightarrow> proc list \<Rightarrow> int \<times> proc list" where
  "kill_loop i [] = (-1, [])"
| "kill_loop i (p # ps) =
     (if pid p = i
      then let p = p\<lparr>pkilled := 1\<rparr>;
               p = (if pstate p = SLEEPING then p\<lparr>pstate := RUNNABLE\<rparr> else p)
           in (0, p # ps)
      else let (r, ps) = kill_loop i ps in (r, p # ps))"

definition kill :: "int \<Rightarrow> 'z kproc_scheme \<Rightarrow> int \<times> 'z kproc_scheme" where
  "kill i s = (let (r, ps) = kill_loop i (procs s) in (r, s\<lparr>procs := ps\<rparr>))"

definition setkilled :: "nat \<Rightarrow> 'z kproc_scheme \<Rightarrow> 'z kproc_scheme" where
  "setkilled i s = upd_proc i (\<lambda>p. p\<lparr>pkilled := 1\<rparr>) s"

definition killed :: "nat \<Rightarrow> 'z kproc_scheme \<Rightarrow> int" where
  "killed i s = pkilled (procs s ! i)"

section \<open>Copies for the current process\<close>

text \<open>A kernel buffer that the caller passes by address is a range of physical memory.\<close>

definition either_copyout :: "bool \<Rightarrow> uint64 \<Rightarrow> byte list \<Rightarrow> 'z kproc_scheme \<Rightarrow> (int, 'z kproc_scheme) outcome" where
  "either_copyout user_dst dst src s =
     (if user_dst then copyout (pagetable (myproc s)) dst src s
      else Done 0 (s\<lparr>mem := store_bytes (mem s) dst src\<rparr>))"

definition either_copyin :: "bool \<Rightarrow> uint64 \<Rightarrow> nat \<Rightarrow> 'z kproc_scheme \<Rightarrow> (int \<times> byte list, 'z kproc_scheme) outcome" where
  "either_copyin user_src src len s =
     (if user_src then copyin (pagetable (myproc s)) src len s
      else Done (0, load_bytes (mem s) src len) s)"

section \<open>Printing the process table\<close>

definition state_name :: "procstate \<Rightarrow> string" where
  "state_name st = (case st of UNUSED \<Rightarrow> ''unused'' | USED \<Rightarrow> ''used'' | SLEEPING \<Rightarrow> ''sleep ''
     | RUNNABLE \<Rightarrow> ''runble'' | RUNNING \<Rightarrow> ''run   '' | ZOMBIE \<Rightarrow> ''zombie'')"

text \<open>The lines that \<^verbatim>\<open>procdump\<close> prints: pid, state and name.\<close>

definition procdump :: "'z kproc_scheme \<Rightarrow> (int \<times> string \<times> byte list) list" where
  "procdump s = map (\<lambda>p. (pid p, state_name (pstate p), pname p)) (filter (\<lambda>p. pstate p \<noteq> UNUSED) (procs s))"

section \<open>Properties\<close>

lemma length_wakeup [simp]: "length (procs (wakeup ch s)) = length (procs s)"
  by (simp add: wakeup_def)

lemma wakeup_nth:
  "i < length (procs s) \<Longrightarrow> procs (wakeup ch s) ! i = wakeup_proc (curproc s) ch i (procs s ! i)"
  by (simp add: wakeup_def)

lemma wakeup_frame [simp]:
  "curproc (wakeup ch s) = curproc s" "mem (wakeup ch s) = mem s" "freelist (wakeup ch s) = freelist s"
  "kend (wakeup ch s) = kend s" "ticks (wakeup ch s) = ticks s" "nextpid (wakeup ch s) = nextpid s"
  by (simp_all add: wakeup_def)

text \<open>
  \<^verbatim>\<open>wakeup\<close> makes runnable exactly the processes, other than the caller, that sleep on the
  channel, and it changes no other process and nothing else of any process.
\<close>

theorem wakeup_correct:
  assumes "i < length (procs s)"
  shows "procs (wakeup ch s) ! i =
    (if i \<noteq> curproc s \<and> pstate (procs s ! i) = SLEEPING \<and> pchan (procs s ! i) = Some ch
     then (procs s ! i)\<lparr>pstate := RUNNABLE\<rparr> else procs s ! i)"
  using assms by (simp add: wakeup_nth wakeup_proc_def)

definition no_proc :: proc where
  "no_proc = \<lparr>pstate = UNUSED, pchan = None, pkilled = 0, xstate = 0, pid = 0, parent = None,
     kstack = 0, psz = 0, pagetable = 0, trapframe = 0, pcontext = \<lparr>ctx_ra = 0, ctx_sp = 0\<rparr>,
     ofile = replicate NOFILE None, cwd = None, pname = replicate 16 0\<rparr>"

text \<open>A kernel state on given memory and with a given process table; the first process runs.\<close>

definition kproc_on :: "kmem \<Rightarrow> proc list \<Rightarrow> kproc" where
  "kproc_on s ps = vm.extend (kmem.extend s (vm.fields 0 0x80008000 0x80007000 0)) (kproc.fields ps 0 1 0 0)"

definition no_mem :: kmem where
  "no_mem = \<lparr>mem = (\<lambda>_. 0), kend = 0x80020000, freelist = 0, superpages = replicate 60 0, nfree = 0\<rparr>"

lemma kproc_on_simps [simp]:
  "mem (kproc_on s ps) = mem s" "kend (kproc_on s ps) = kend s" "freelist (kproc_on s ps) = freelist s"
  "superpages (kproc_on s ps) = superpages s" "nfree (kproc_on s ps) = nfree s"
  "procs (kproc_on s ps) = ps" "curproc (kproc_on s ps) = 0" "initproc (kproc_on s ps) = 0"
  "nextpid (kproc_on s ps) = 1" "ticks (kproc_on s ps) = 0" "(kproc_on s ps)\<lparr>procs := qs\<rparr> = kproc_on s qs"
  by (simp_all add: kproc_on_def vm.defs kmem.defs kproc.defs)

abbreviation example_kproc :: "proc list \<Rightarrow> kproc" where
  "example_kproc ps \<equiv> kproc_on no_mem ps"

theorem wakeup_correct_witness:
  "procs (wakeup ChanTicks (example_kproc [no_proc, no_proc\<lparr>pstate := SLEEPING, pchan := Some ChanTicks\<rparr>])) ! 1 =
    no_proc\<lparr>pstate := RUNNABLE, pchan := Some ChanTicks\<rparr>"
  using wakeup_correct [of 1 "example_kproc [no_proc, no_proc\<lparr>pstate := SLEEPING, pchan := Some ChanTicks\<rparr>]" ChanTicks]
  by (simp add: no_proc_def)

text \<open>What \<^verbatim>\<open>kill\<close> does to the first process with the given pid.\<close>

definition kill_proc :: "proc \<Rightarrow> proc" where
  "kill_proc p = p\<lparr>pkilled := 1, pstate := if pstate p = SLEEPING then RUNNABLE else pstate p\<rparr>"

lemma kill_loop_spec:
  "(\<exists>xs p ys. ps = xs @ p # ys \<and> pid p = i \<and> (\<forall>q\<in>set xs. pid q \<noteq> i) \<and>
     kill_loop i ps = (0, xs @ kill_proc p # ys)) \<or>
   ((\<forall>q\<in>set ps. pid q \<noteq> i) \<and> kill_loop i ps = (-1, ps))"
proof (induction ps)
  case (Cons p ps)
  show ?case
  proof (cases "pid p = i")
    case True
    then have "kill_loop i (p # ps) = (0, [] @ kill_proc p # ps)" by (simp add: kill_proc_def)
    with True show ?thesis by (intro disjI1 exI [of _ "[]"]) auto
  next
    case False
    from Cons.IH show ?thesis
    proof
      assume "\<exists>xs q ys. ps = xs @ q # ys \<and> pid q = i \<and> (\<forall>q\<in>set xs. pid q \<noteq> i) \<and>
         kill_loop i ps = (0, xs @ kill_proc q # ys)"
      then obtain xs q ys where "ps = xs @ q # ys" "pid q = i" "\<forall>q\<in>set xs. pid q \<noteq> i"
        "kill_loop i ps = (0, xs @ kill_proc q # ys)" by blast
      with False show ?thesis by (intro disjI1 exI [of _ "p # xs"] exI [of _ q] exI [of _ ys]) auto
    qed (use False in auto)
  qed
qed simp

text \<open>
  \<^verbatim>\<open>kill\<close> returns 0 exactly when some slot of the table has the pid. It then marks the
  first such process as killed and wakes it if it sleeps, so that it notices; no other
  process changes.
\<close>

theorem kill_correct:
  shows "(\<exists>xs p ys. procs s = xs @ p # ys \<and> pid p = i \<and> (\<forall>q\<in>set xs. pid q \<noteq> i) \<and>
     kill i s = (0, s\<lparr>procs := xs @ kill_proc p # ys\<rparr>)) \<or>
   ((\<forall>q\<in>set (procs s). pid q \<noteq> i) \<and> kill i s = (-1, s))"
  using kill_loop_spec [of "procs s" i]
proof (elim disjE exE conjE)
  fix xs p ys
  assume "procs s = xs @ p # ys" "pid p = i" "\<forall>q\<in>set xs. pid q \<noteq> i"
    "kill_loop i (procs s) = (0, xs @ kill_proc p # ys)"
  then show ?thesis by (intro disjI1 exI [of _ xs] exI [of _ p] exI [of _ ys]) (simp add: kill_def)
qed (simp add: kill_def)

theorem kill_correct_witness:
  "kill 7 (example_kproc [no_proc\<lparr>pid := 3\<rparr>, no_proc\<lparr>pid := 7, pstate := SLEEPING\<rparr>]) =
    (0, example_kproc [no_proc\<lparr>pid := 3\<rparr>, no_proc\<lparr>pid := 7, pstate := RUNNABLE, pkilled := 1\<rparr>])"
proof -
  let ?p = "no_proc\<lparr>pid := 3\<rparr>" and ?q = "no_proc\<lparr>pid := 7, pstate := SLEEPING\<rparr>"
  let ?s = "example_kproc [?p, ?q]"
  have ps: "procs ?s = [?p, ?q]" by simp
  have "\<exists>xs p ys. procs ?s = xs @ p # ys \<and> pid p = 7 \<and> (\<forall>q\<in>set xs. pid q \<noteq> 7) \<and>
     kill 7 ?s = (0, ?s\<lparr>procs := xs @ kill_proc p # ys\<rparr>)"
    using kill_correct [of ?s 7] by (auto simp: ps)
  then obtain xs p ys where xs: "[?p, ?q] = xs @ p # ys" "pid p = 7"
    and k: "kill 7 ?s = (0, ?s\<lparr>procs := xs @ kill_proc p # ys\<rparr>)" by (auto simp: ps)
  from xs have "xs = [?p] \<and> p = ?q \<and> ys = []" by (auto simp: Cons_eq_append_conv)
  with k show ?thesis by (simp add: kill_proc_def no_proc_def)
qed

end
