(* ===== verification/Bytes.thy ===== *)
theory Bytes
  imports Machine
begin

text \<open>
  Little-endian fields in byte lists: how the on-disk structures (the log header, the
  superblock, inodes, directory entries) and the tables of 32-bit block numbers lie in
  the blocks that hold them. Reads outside the list give zero bytes and writes there have
  no effect; the offsets the kernel uses are inside.
\<close>

definition byte_at :: "byte list \<Rightarrow> nat \<Rightarrow> byte" where
  "byte_at bs i = (if i < length bs then bs ! i else 0)"

definition get16 :: "byte list \<Rightarrow> nat \<Rightarrow> ushort" where
  "get16 bs i = word_rcat [byte_at bs (i + 1), byte_at bs i]"

definition get32 :: "byte list \<Rightarrow> nat \<Rightarrow> uint" where
  "get32 bs i = word_rcat [byte_at bs (i + 3), byte_at bs (i + 2), byte_at bs (i + 1), byte_at bs i]"

definition put_bytes :: "byte list \<Rightarrow> nat \<Rightarrow> byte list \<Rightarrow> byte list" where
  "put_bytes bs i vs = map (\<lambda>k. if i \<le> k \<and> k < i + length vs then vs ! (k - i) else bs ! k) [0..<length bs]"

definition bytes16 :: "ushort \<Rightarrow> byte list" where
  "bytes16 v = map (\<lambda>k. ucast (drop_bit (8 * k) v)) [0..<2]"

definition bytes32 :: "uint \<Rightarrow> byte list" where
  "bytes32 v = map (\<lambda>k. ucast (drop_bit (8 * k) v)) [0..<4]"

definition bytes64 :: "uint64 \<Rightarrow> byte list" where
  "bytes64 v = map (\<lambda>k. ucast (drop_bit (8 * k) v)) [0..<8]"

definition get64 :: "byte list \<Rightarrow> nat \<Rightarrow> uint64" where
  "get64 bs i = load64 (\<lambda>a. byte_at bs (i + unat a)) 0"

definition put16 :: "byte list \<Rightarrow> nat \<Rightarrow> ushort \<Rightarrow> byte list" where
  "put16 bs i v = put_bytes bs i (bytes16 v)"

definition put32 :: "byte list \<Rightarrow> nat \<Rightarrow> uint \<Rightarrow> byte list" where
  "put32 bs i v = put_bytes bs i (bytes32 v)"

lemma length_put_bytes [simp]: "length (put_bytes bs i vs) = length bs"
  by (simp add: put_bytes_def)

lemma length_put [simp]: "length (put16 bs i v) = length bs" "length (put32 bs i w) = length bs"
  by (simp_all add: put16_def put32_def)

lemma byte_at_put_bytes:
  "byte_at (put_bytes bs i vs) k =
    (if k < length bs \<and> i \<le> k \<and> k < i + length vs then vs ! (k - i) else byte_at bs k)"
  by (simp add: byte_at_def put_bytes_def)

lemma bit_get32: "bit (get32 bs i) n \<longleftrightarrow> n < 32 \<and> bit (byte_at bs (i + n div 8)) (n mod 8)"
proof (cases "n < 32")
  case False
  then show ?thesis using bit_imp_le_length [of "get32 bs i" n] by auto
next
  case True
  let ?ws = "map (\<lambda>k. byte_at bs (i + k)) [0..<4]"
  have ws: "rev [byte_at bs (i + 3), byte_at bs (i + 2), byte_at bs (i + 1), byte_at bs i] = ?ws"
    by (simp add: upt_rec numeral_3_eq_3)
  have "bit (get32 bs i) n \<longleftrightarrow> bit (horner_sum uint (2 ^ LENGTH(8)) ?ws) n"
    using True by (simp only: get32_def word_rcat_def o_apply ws bit_word_of_int_iff) simp
  also have "\<dots> \<longleftrightarrow> bit (?ws ! (n div 8)) (n mod 8)"
    using True by (simp only: bit_horner_sum_uint_exp_iff) auto
  also have "\<dots> \<longleftrightarrow> bit (byte_at bs (i + n div 8)) (n mod 8)"
    using True by (simp add: less_mult_imp_div_less)
  finally show ?thesis using True by simp
qed

lemma bit_get16: "bit (get16 bs i) n \<longleftrightarrow> n < 16 \<and> bit (byte_at bs (i + n div 8)) (n mod 8)"
proof (cases "n < 16")
  case False
  then show ?thesis using bit_imp_le_length [of "get16 bs i" n] by auto
next
  case True
  let ?ws = "map (\<lambda>k. byte_at bs (i + k)) [0..<2]"
  have ws: "rev [byte_at bs (i + 1), byte_at bs i] = ?ws"
    by (simp add: upt_rec)
  have "bit (get16 bs i) n \<longleftrightarrow> bit (horner_sum uint (2 ^ LENGTH(8)) ?ws) n"
    using True by (simp only: get16_def word_rcat_def o_apply ws bit_word_of_int_iff) simp
  also have "\<dots> \<longleftrightarrow> bit (?ws ! (n div 8)) (n mod 8)"
    using True by (simp only: bit_horner_sum_uint_exp_iff) auto
  also have "\<dots> \<longleftrightarrow> bit (byte_at bs (i + n div 8)) (n mod 8)"
    using True by (simp add: less_mult_imp_div_less)
  finally show ?thesis using True by simp
qed

lemma length_bytes [simp]: "length (bytes16 v) = 2" "length (bytes32 w) = 4"
  by (simp_all add: bytes16_def bytes32_def)

lemma bit_bytes32: "k < 4 \<Longrightarrow> bit (bytes32 v ! k) n \<longleftrightarrow> n < 8 \<and> bit v (8 * k + n)"
  by (simp add: bytes32_def bit_simps)

lemma bit_bytes16: "k < 2 \<Longrightarrow> bit (bytes16 v ! k) n \<longleftrightarrow> n < 8 \<and> bit v (8 * k + n)"
  by (simp add: bytes16_def bit_simps)

lemma get32_put32_same:
  assumes "i + 4 \<le> length bs"
  shows "get32 (put32 bs i v) i = v"
proof (rule bit_word_eqI)
  fix n assume "n < LENGTH(32)"
  then have n: "n < 32" by simp
  then have k: "n div 8 < 4" by linarith
  then have "byte_at (put32 bs i v) (i + n div 8) = bytes32 v ! (n div 8)"
    using assms by (simp add: put32_def byte_at_put_bytes)
  with n k show "bit (get32 (put32 bs i v) i) n = bit v n"
    by (simp add: bit_get32 bit_bytes32)
qed

lemma get16_put16_same:
  assumes "i + 2 \<le> length bs"
  shows "get16 (put16 bs i v) i = v"
proof (rule bit_word_eqI)
  fix n assume "n < LENGTH(16)"
  then have n: "n < 16" by simp
  then have k: "n div 8 < 2" by linarith
  then have "byte_at (put16 bs i v) (i + n div 8) = bytes16 v ! (n div 8)"
    using assms by (simp add: put16_def byte_at_put_bytes)
  with n k show "bit (get16 (put16 bs i v) i) n = bit v n"
    by (simp add: bit_get16 bit_bytes16)
qed

lemma get32_cong:
  assumes "\<And>k. k < 4 \<Longrightarrow> byte_at bs' (j + k) = byte_at bs (i + k)"
  shows "get32 bs' j = get32 bs i"
  using assms [of 0] assms [of 1] assms [of 2] assms [of 3] by (simp add: get32_def)

lemma get16_cong:
  assumes "\<And>k. k < 2 \<Longrightarrow> byte_at bs' (j + k) = byte_at bs (i + k)"
  shows "get16 bs' j = get16 bs i"
  using assms [of 0] assms [of 1] by (simp add: get16_def)

lemma get32_put_other:
  assumes "j + 4 \<le> i \<or> i + length vs \<le> j"
  shows "get32 (put_bytes bs i vs) j = get32 bs j"
  using assms by (intro get32_cong) (auto simp: byte_at_put_bytes)

lemma get16_put_other:
  assumes "j + 2 \<le> i \<or> i + length vs \<le> j"
  shows "get16 (put_bytes bs i vs) j = get16 bs j"
  using assms by (intro get16_cong) (auto simp: byte_at_put_bytes)

lemma get32_put32_other: "j + 4 \<le> i \<or> i + 4 \<le> j \<Longrightarrow> get32 (put32 bs i v) j = get32 bs j"
  by (simp add: put32_def get32_put_other)

text \<open>A table of 32-bit numbers written entry by entry, as the loops over block lists do.\<close>

fun put32s :: "byte list \<Rightarrow> nat \<Rightarrow> uint list \<Rightarrow> byte list" where
  "put32s bs i [] = bs"
| "put32s bs i (v # vs) = put32s (put32 bs i v) (i + 4) vs"

definition get32s :: "byte list \<Rightarrow> nat \<Rightarrow> nat \<Rightarrow> uint list" where
  "get32s bs i n = map (\<lambda>k. get32 bs (i + 4 * k)) [0..<n]"

lemma length_put32s [simp]: "length (put32s bs i vs) = length bs"
  by (induction bs i vs rule: put32s.induct) simp_all

lemma get32_put32s_before: "j + 4 \<le> i \<Longrightarrow> get32 (put32s bs i vs) j = get32 bs j"
  by (induction bs i vs rule: put32s.induct) (simp_all add: get32_put32_other)

lemma get32s_put32s:
  assumes "i + 4 * length vs \<le> length bs"
  shows "get32s (put32s bs i vs) i (length vs) = vs"
  using assms
proof (induction bs i vs rule: put32s.induct)
  case (2 bs i v vs)
  have "get32s (put32s (put32 bs i v) (i + 4) vs) (i + 4) (length vs) = vs"
    using 2 by simp
  moreover have "get32 (put32s (put32 bs i v) (i + 4) vs) i = v"
    using 2(2) by (simp add: get32_put32s_before get32_put32_same)
  ultimately show ?case
    by (simp add: get32s_def map_upt_Suc add.assoc del: upt_Suc)
qed (simp add: get32s_def)

lemma get32_zeros: "d = replicate 1024 0 \<Longrightarrow> get32 d k = 0"
proof -
  assume c: "d = replicate 1024 0"
  have "byte_at d j = 0" for j by (simp add: c byte_at_def)
  then show ?thesis by (simp add: get32_def word_rcat_def)
qed

lemma put_bytes_nth:
  "k < length d \<Longrightarrow> put_bytes d o' q ! k = (if o' \<le> k \<and> k < o' + length q then q ! (k - o') else d ! k)"
  by (simp add: put_bytes_def)

end
