(* ===== verification/Bio.thy ===== *)
theory Bio
  imports ProcState Bytes
begin

text \<open>
  \<^verbatim>\<open>kernel/bio.c\<close>: the cache of disk blocks. The buffers are an array, and \<^verbatim>\<open>prev\<close> and \<^verbatim>\<open>next\<close>
  thread them into a circular list through \<^verbatim>\<open>bcache.head\<close>, most recently used first; a
  pointer is an index, and the head is the entry at index \<open>NBUF\<close>. The sleep lock of a
  buffer is the pair of its \<^verbatim>\<open>locked\<close> flag and owner pid. The sections guarded by
  \<^verbatim>\<open>bcache.lock\<close> are single steps. The disk is an array of blocks, and \<^verbatim>\<open>virtio_disk_rw\<close> is
  the transfer of one block. The component \<open>writes\<close> is a history variable that no routine
  reads: it records the order of the writes, for reasoning about crashes.

  The list operations on pointers are shown to implement operations on lists, and the
  cache never holds a block twice.
\<close>

section \<open>State\<close>

type_synonym block = "byte list"

record buf =
  valid :: bool
  bdev :: uint
  blockno :: uint
  buf_locked :: bool
  buf_pid :: int
  refcnt :: uint
  prev :: nat
  nxt :: nat
  bdata :: block

abbreviation (input) NBUF :: nat where "NBUF \<equiv> 30"
abbreviation (input) BSIZE :: nat where "BSIZE \<equiv> 1024"

record bio = kproc +
  bufs :: "buf list"           \<comment> \<open>\<^verbatim>\<open>bcache.buf\<close>, then \<^verbatim>\<open>bcache.head\<close>\<close>
  disk :: "uint \<Rightarrow> block"
  writes :: "(uint \<times> block) list"  \<comment> \<open>history: the blocks written so far, oldest first\<close>

definition upd_buf :: "nat \<Rightarrow> (buf \<Rightarrow> buf) \<Rightarrow> 'z bio_scheme \<Rightarrow> 'z bio_scheme" where
  "upd_buf b f s = s\<lparr>bufs := (bufs s)[b := f (bufs s ! b)]\<rparr>"

section \<open>The sleep lock of a buffer\<close>

definition acquiresleep_buf :: "nat \<Rightarrow> 'z bio_scheme \<Rightarrow> (unit, 'z bio_scheme) outcome" where
  "acquiresleep_buf b s =
     (if buf_locked (bufs s ! b) then ksleep (ChanBufLock b) s
      else Done () (upd_buf b (\<lambda>x. x\<lparr>buf_locked := True, buf_pid := pid (myproc s)\<rparr>) s))"

definition releasesleep_buf :: "nat \<Rightarrow> 'z bio_scheme \<Rightarrow> 'z bio_scheme" where
  "releasesleep_buf b s =
     wakeup (ChanBufLock b) (upd_buf b (\<lambda>x. x\<lparr>buf_locked := False, buf_pid := 0\<rparr>) s)"

definition holdingsleep_buf :: "nat \<Rightarrow> 'z bio_scheme \<Rightarrow> bool" where
  "holdingsleep_buf b s \<longleftrightarrow> buf_locked (bufs s ! b) \<and> buf_pid (bufs s ! b) = pid (myproc s)"

section \<open>Operations\<close>

text \<open>Pointer updates of the list, on the array of buffers.\<close>

definition set_next :: "nat \<Rightarrow> nat \<Rightarrow> buf list \<Rightarrow> buf list" where
  "set_next b v bs = bs[b := (bs ! b)\<lparr>nxt := v\<rparr>]"

definition set_prev :: "nat \<Rightarrow> nat \<Rightarrow> buf list \<Rightarrow> buf list" where
  "set_prev b v bs = bs[b := (bs ! b)\<lparr>prev := v\<rparr>]"

text \<open>The list insertion that \<^verbatim>\<open>binit\<close> and \<^verbatim>\<open>brelse\<close> share, and the removal in \<^verbatim>\<open>brelse\<close>.\<close>

definition link_head :: "nat \<Rightarrow> buf list \<Rightarrow> buf list" where
  "link_head b bs =
     (let bs = set_next b (nxt (bs ! NBUF)) bs;
          bs = set_prev b NBUF bs;
          bs = set_prev (nxt (bs ! NBUF)) b bs
      in set_next NBUF b bs)"

definition unlink :: "nat \<Rightarrow> buf list \<Rightarrow> buf list" where
  "unlink b bs =
     (let bs = set_prev (nxt (bs ! b)) (prev (bs ! b)) bs
      in set_next (prev (bs ! b)) (nxt (bs ! b)) bs)"

fun binit_loop :: "nat \<Rightarrow> nat \<Rightarrow> buf list \<Rightarrow> buf list" where
  "binit_loop b 0 bs = bs"
| "binit_loop b (Suc n) bs =
     binit_loop (Suc b) n (link_head b (bs[b := (bs ! b)\<lparr>buf_locked := False, buf_pid := 0\<rparr>]))"

definition binit :: "'z bio_scheme \<Rightarrow> 'z bio_scheme" where
  "binit s = s\<lparr>bufs := binit_loop 0 NBUF (set_next NBUF NBUF (set_prev NBUF NBUF (bufs s)))\<rparr>"

text \<open>
  The two searches of \<^verbatim>\<open>bget\<close>, along \<^verbatim>\<open>next\<close> and along \<^verbatim>\<open>prev\<close>. The first argument bounds the
  number of steps; the list has \<open>NBUF\<close> elements, so \<open>NBUF\<close> steps reach the head again.
\<close>

fun find_cached :: "nat \<Rightarrow> uint \<Rightarrow> uint \<Rightarrow> buf list \<Rightarrow> nat \<Rightarrow> nat option" where
  "find_cached 0 dev bno bs b = None"
| "find_cached (Suc n) dev bno bs b =
     (if b = NBUF then None
      else if bdev (bs ! b) = dev \<and> blockno (bs ! b) = bno then Some b
      else find_cached n dev bno bs (nxt (bs ! b)))"

fun find_unused :: "nat \<Rightarrow> buf list \<Rightarrow> nat \<Rightarrow> nat option" where
  "find_unused 0 bs b = None"
| "find_unused (Suc n) bs b =
     (if b = NBUF then None
      else if refcnt (bs ! b) = 0 then Some b
      else find_unused n bs (prev (bs ! b)))"

definition bget :: "uint \<Rightarrow> uint \<Rightarrow> 'z bio_scheme \<Rightarrow> (nat, 'z bio_scheme) outcome" where
  "bget dev bno s =
     (case find_cached NBUF dev bno (bufs s) (nxt (bufs s ! NBUF)) of
        Some b \<Rightarrow> kbind (acquiresleep_buf b (upd_buf b (\<lambda>x. x\<lparr>refcnt := refcnt x + 1\<rparr>) s)) (\<lambda>_ s. Done b s)
      | None \<Rightarrow>
          (case find_unused NBUF (bufs s) (prev (bufs s ! NBUF)) of
             Some b \<Rightarrow> kbind (acquiresleep_buf b
                 (upd_buf b (\<lambda>x. x\<lparr>bdev := dev, blockno := bno, valid := False, refcnt := 1\<rparr>) s)) (\<lambda>_ s. Done b s)
           | None \<Rightarrow> Panic ''bget: no buffers''))"

text \<open>The transfer that \<^verbatim>\<open>virtio_disk_rw(b, write)\<close> asks the device for.\<close>

definition disk_rw :: "nat \<Rightarrow> bool \<Rightarrow> 'z bio_scheme \<Rightarrow> 'z bio_scheme" where
  "disk_rw b write s =
     (if write then s\<lparr>disk := (disk s)(blockno (bufs s ! b) := bdata (bufs s ! b)),
        writes := writes s @ [(blockno (bufs s ! b), bdata (bufs s ! b))]\<rparr>
      else upd_buf b (\<lambda>x. x\<lparr>bdata := disk s (blockno x)\<rparr>) s)"

definition bread :: "uint \<Rightarrow> uint \<Rightarrow> 'z bio_scheme \<Rightarrow> (nat, 'z bio_scheme) outcome" where
  "bread dev bno s =
     kbind (bget dev bno s) (\<lambda>b s.
       if \<not> valid (bufs s ! b)
       then Done b (upd_buf b (\<lambda>x. x\<lparr>valid := True\<rparr>) (disk_rw b False s))
       else Done b s)"

definition bwrite :: "nat \<Rightarrow> 'z bio_scheme \<Rightarrow> (unit, 'z bio_scheme) outcome" where
  "bwrite b s = (if \<not> holdingsleep_buf b s then Panic ''bwrite'' else Done () (disk_rw b True s))"

definition brelse :: "nat \<Rightarrow> 'z bio_scheme \<Rightarrow> (unit, 'z bio_scheme) outcome" where
  "brelse b s =
     (if \<not> holdingsleep_buf b s then Panic ''brelse''
      else let s = releasesleep_buf b s;
               s = upd_buf b (\<lambda>x. x\<lparr>refcnt := refcnt x - 1\<rparr>) s
           in if refcnt (bufs s ! b) = 0
              then Done () (s\<lparr>bufs := link_head b (unlink b (bufs s))\<rparr>)
              else Done () s)"

definition bpin :: "nat \<Rightarrow> 'z bio_scheme \<Rightarrow> 'z bio_scheme" where
  "bpin b s = upd_buf b (\<lambda>x. x\<lparr>refcnt := refcnt x + 1\<rparr>) s"

definition bunpin :: "nat \<Rightarrow> 'z bio_scheme \<Rightarrow> 'z bio_scheme" where
  "bunpin b s = upd_buf b (\<lambda>x. x\<lparr>refcnt := refcnt x - 1\<rparr>) s"

section \<open>The circular list\<close>

text \<open>From \<open>a\<close> the \<^verbatim>\<open>next\<close> pointers lead through \<open>xs\<close> to \<open>b\<close>, and the \<^verbatim>\<open>prev\<close> pointers back.\<close>

fun seg :: "buf list \<Rightarrow> nat \<Rightarrow> nat list \<Rightarrow> nat \<Rightarrow> bool" where
  "seg bs a [] b \<longleftrightarrow> nxt (bs ! a) = b \<and> prev (bs ! b) = a"
| "seg bs a (x # xs) b \<longleftrightarrow> nxt (bs ! a) = x \<and> prev (bs ! x) = a \<and> seg bs x xs b"

definition lru :: "buf list \<Rightarrow> nat list \<Rightarrow> bool" where
  "lru bs xs \<longleftrightarrow> length bs = 31 \<and> distinct xs \<and> set xs = {..<NBUF} \<and> seg bs NBUF xs NBUF"

lemma seg_append: "seg bs a (xs @ x # ys) b \<longleftrightarrow> seg bs a xs x \<and> seg bs x ys b"
  by (induction xs arbitrary: a) auto

lemma seg_set_next:
  assumes "c \<notin> set (a # xs)" "c < length bs"
  shows "seg (set_next c v bs) a xs b = seg bs a xs b"
  using assms
  by (induction xs arbitrary: a) (auto simp: set_next_def nth_list_update)

lemma seg_set_prev:
  assumes "c \<notin> set (xs @ [b])" "c < length bs"
  shows "seg (set_prev c v bs) a xs b = seg bs a xs b"
  using assms
  by (induction xs arbitrary: a) (auto simp: set_prev_def nth_list_update)

text \<open>The links inside \<open>a # xs\<close>.\<close>

fun inner :: "buf list \<Rightarrow> nat \<Rightarrow> nat list \<Rightarrow> bool" where
  "inner bs a [] \<longleftrightarrow> True"
| "inner bs a (x # xs) \<longleftrightarrow> nxt (bs ! a) = x \<and> prev (bs ! x) = a \<and> inner bs x xs"

lemma seg_inner:
  "seg bs a xs b \<longleftrightarrow> inner bs a xs \<and> nxt (bs ! last (a # xs)) = b \<and> prev (bs ! b) = last (a # xs)"
  by (induction xs arbitrary: a) auto

lemma inner_set_next:
  assumes "c \<notin> set (butlast (a # xs))" "c < length bs"
  shows "inner (set_next c v bs) a xs = inner bs a xs"
  using assms by (induction xs arbitrary: a) (auto simp: set_next_def nth_list_update)

lemma inner_set_prev:
  assumes "c \<notin> set xs" "c < length bs"
  shows "inner (set_prev c v bs) a xs = inner bs a xs"
  using assms by (induction xs arbitrary: a) (auto simp: set_prev_def nth_list_update)

lemma set_next_length [simp]: "length (set_next c v bs) = length bs"
  by (simp add: set_next_def)

lemma set_next_prev [simp]: "prev (set_next c v bs ! i) = prev (bs ! i)"
  by (cases "c < length bs") (auto simp: set_next_def nth_list_update list_update_beyond)

lemma set_next_same [simp]: "c < length bs \<Longrightarrow> nxt (set_next c v bs ! c) = v"
  by (simp add: set_next_def)

lemma set_next_other [simp]: "i \<noteq> c \<Longrightarrow> nxt (set_next c v bs ! i) = nxt (bs ! i)"
  by (simp add: set_next_def)

lemma set_prev_length [simp]: "length (set_prev c v bs) = length bs"
  by (simp add: set_prev_def)

lemma set_prev_next [simp]: "nxt (set_prev c v bs ! i) = nxt (bs ! i)"
  by (cases "c < length bs") (auto simp: set_prev_def nth_list_update list_update_beyond)

lemma set_prev_same [simp]: "c < length bs \<Longrightarrow> prev (set_prev c v bs ! c) = v"
  by (simp add: set_prev_def)

lemma set_prev_other [simp]: "i \<noteq> c \<Longrightarrow> prev (set_prev c v bs ! i) = prev (bs ! i)"
  by (simp add: set_prev_def)

lemma last_not_butlast: "distinct (xs :: nat list) \<Longrightarrow> xs \<noteq> [] \<Longrightarrow> last xs \<notin> set (butlast xs)"
  by (metis append_butlast_last_id distinct_butlast not_distinct_conv_prefix)

lemma unlink_seg:
  assumes s: "seg bs 30 (as @ b # cs) 30" and d: "distinct (30 # as @ b # cs)"
    and l: "length bs = 31" "\<forall>x\<in>set (as @ b # cs). x < 30"
  shows "seg (unlink b bs) 30 (as @ cs) 30"
proof -
  let ?p = "last (30 # as)" and ?n = "hd (cs @ [30])"
  have ab: "seg bs 30 as b" "seg bs b cs 30" using s by (simp_all add: seg_append)
  have p: "prev (bs ! b) = ?p" using ab(1) by (simp add: seg_inner)
  have n: "nxt (bs ! b) = ?n" using ab(2) by (cases cs) auto
  have nb: "?n \<noteq> b" "?p \<noteq> b"
  proof -
    show "?n \<noteq> b" using d by (cases cs) auto
    have "?p \<in> set (30 # as)" by (rule last_in_set) simp
    then show "?p \<noteq> b" using d by auto
  qed
  have lt: "?p < length bs" "?n < length bs"
  proof -
    have "?p \<le> 30" using l(2) by (cases as rule: rev_cases) auto
    then show "?p < length bs" using l(1) by simp
    show "?n < length bs" using l by (cases cs) auto
  qed
  have un: "unlink b bs = set_next ?p ?n (set_prev ?n ?p bs)"
    using p n nb by (simp add: unlink_def Let_def)
  have i1: "inner bs 30 as" using ab(1) by (simp add: seg_inner)
  have "?n \<notin> set as" using d by (cases cs) auto
  moreover have "?p \<notin> set (butlast (30 # as))" using d by (intro last_not_butlast) auto
  ultimately have i2: "inner (unlink b bs) 30 as"
    using i1 lt by (simp add: un inner_set_next inner_set_prev)
  have link: "nxt (unlink b bs ! ?p) = ?n" "prev (unlink b bs ! ?n) = ?p"
    using lt by (simp_all add: un)
  show ?thesis
  proof (cases cs)
    case Nil
    then show ?thesis using i2 link by (simp add: seg_inner)
  next
    case (Cons c ds)
    have "seg bs c ds 30" using ab(2) Cons by simp
    moreover have "?p \<in> set (30 # as)" by (rule last_in_set) simp
    then have "?p \<notin> set (c # ds)" using d Cons by auto
    moreover have "?n \<notin> set (ds @ [30])" using d Cons by auto
    ultimately have "seg (unlink b bs) c ds 30" using lt by (simp add: un seg_set_next seg_set_prev)
    then show ?thesis using i2 link Cons by (simp add: seg_append) (simp add: seg_inner)
  qed
qed

lemma link_head_seg:
  assumes s: "seg bs 30 xs 30" and d: "b \<notin> set xs" "b < 30" "distinct xs"
    and l: "length bs = 31" "\<forall>x\<in>set xs. x < 30"
  shows "seg (link_head b bs) 30 (b # xs) 30"
proof -
  let ?n = "hd (xs @ [30])"
  have n: "nxt (bs ! 30) = ?n" using s by (cases xs) auto
  have nb: "?n \<noteq> b" "?n < 31" using d l by (cases xs; force)+
  have lk: "link_head b bs = set_next 30 b (set_prev ?n b (set_prev b 30 (set_next b ?n bs)))"
    using n d(2) by (simp add: link_head_def Let_def)
  show ?thesis
  proof (cases xs)
    case Nil
    then show ?thesis using d l nb by (simp add: lk)
  next
    case (Cons x ys)
    have "seg bs x ys 30" using s Cons by simp
    moreover have "30 \<notin> set (x # ys)" "b \<notin> set (x # ys)" "x \<notin> set (ys @ [30])" "b \<notin> set (ys @ [30])"
      using d l Cons by auto
    ultimately have "seg (link_head b bs) x ys 30"
      using d l nb Cons by (simp add: lk seg_set_next seg_set_prev)
    then show ?thesis using d l nb Cons by (simp add: lk)
  qed
qed

lemma length_link [simp]: "length (link_head b bs) = length bs" "length (unlink b bs) = length bs"
  by (simp_all add: link_head_def unlink_def Let_def)

lemma lru_move_front:
  assumes "lru bs xs" "b < 30"
  shows "lru (link_head b (unlink b bs)) (b # remove1 b xs)"
proof -
  have b: "b \<in> set xs" and d: "distinct xs" and l: "length bs = 31" and st: "set xs = {..<30}"
    using assms by (auto simp: lru_def)
  from split_list [OF b] obtain as cs where xs: "xs = as @ b # cs" by blast
  have "b \<notin> set as" using d xs by simp
  then have r: "remove1 b xs = as @ cs" by (simp add: xs remove1_append)
  have "seg (unlink b bs) 30 (as @ cs) 30"
    using assms(1) xs st by (intro unlink_seg) (auto simp: lru_def)
  then have "seg (link_head b (unlink b bs)) 30 (b # as @ cs) 30"
    using d xs l st assms(2) by (intro link_head_seg) auto
  moreover have "distinct (b # as @ cs)" "set (b # as @ cs) = {..<30}" using d st xs by auto
  ultimately show ?thesis unfolding r lru_def using l by simp
qed

section \<open>The searches\<close>

lemma find_cached_seg:
  assumes "seg bs a xs 30" "\<forall>x\<in>set xs. x \<noteq> 30" "length xs \<le> n"
  shows "find_cached n dev bno bs (nxt (bs ! a)) = find (\<lambda>b. bdev (bs ! b) = dev \<and> blockno (bs ! b) = bno) xs"
  using assms
proof (induction xs arbitrary: a n)
  case Nil
  then show ?case by (cases n) auto
next
  case (Cons x xs)
  then obtain k where "n = Suc k" by (cases n) auto
  with Cons show ?case by auto
qed

lemma seg_snoc: "seg bs a (xs @ [x]) b \<longleftrightarrow> seg bs a xs x \<and> nxt (bs ! x) = b \<and> prev (bs ! b) = x"
  using seg_append [of bs a xs x "[]" b] by simp

lemma find_unused_seg:
  assumes "seg bs 30 xs b" "\<forall>x\<in>set xs. x \<noteq> 30" "length xs \<le> n"
  shows "find_unused n bs (prev (bs ! b)) = find (\<lambda>b. refcnt (bs ! b) = 0) (rev xs)"
  using assms
proof (induction xs arbitrary: b n rule: rev_induct)
  case Nil
  then show ?case by (cases n) auto
next
  case (snoc x xs)
  then obtain k where "n = Suc k" by (cases n) auto
  with snoc show ?case by (auto simp: seg_snoc)
qed

lemma lru_length: "lru bs xs \<Longrightarrow> length xs = 30"
  unfolding lru_def by (metis card_lessThan distinct_card)

lemma bget_finds:
  assumes "lru bs xs"
  shows "find_cached 30 dev bno bs (nxt (bs ! 30)) = find (\<lambda>b. bdev (bs ! b) = dev \<and> blockno (bs ! b) = bno) xs"
    and "find_unused 30 bs (prev (bs ! 30)) = find (\<lambda>b. refcnt (bs ! b) = 0) (rev xs)"
proof -
  have "seg bs 30 xs 30" "\<forall>x\<in>set xs. x \<noteq> 30" "length xs \<le> 30"
    using assms lru_length [OF assms] by (auto simp: lru_def)
  then show "find_cached 30 dev bno bs (nxt (bs ! 30)) = find (\<lambda>b. bdev (bs ! b) = dev \<and> blockno (bs ! b) = bno) xs"
    and "find_unused 30 bs (prev (bs ! 30)) = find (\<lambda>b. refcnt (bs ! b) = 0) (rev xs)"
    by (rule find_cached_seg, rule find_unused_seg)
qed

text \<open>The list depends only on the pointers.\<close>

lemma seg_cong:
  assumes "\<And>i. nxt (bs' ! i) = nxt (bs ! i) \<and> prev (bs' ! i) = prev (bs ! i)"
  shows "seg bs' a xs b = seg bs a xs b"
  using assms by (induction xs arbitrary: a) auto

lemma lru_upd:
  assumes "lru bs xs" "nxt (f (bs ! b)) = nxt (bs ! b)" "prev (f (bs ! b)) = prev (bs ! b)"
  shows "lru (bs[b := f (bs ! b)]) xs"
proof -
  have "nxt (bs[b := f (bs ! b)] ! i) = nxt (bs ! i) \<and> prev (bs[b := f (bs ! b)] ! i) = prev (bs ! i)" for i
    using assms(2,3) by (cases "b < length bs") (auto simp: nth_list_update list_update_beyond)
  from seg_cong [of "bs[b := f (bs ! b)]" bs, OF this] assms(1) show ?thesis by (simp add: lru_def)
qed

section \<open>The cache and its contents\<close>

definition cached :: "uint \<Rightarrow> buf list \<Rightarrow> uint \<Rightarrow> nat option" where
  "cached dev bs bno = find (\<lambda>b. valid (bs ! b) \<and> bdev (bs ! b) = dev \<and> blockno (bs ! b) = bno) [0..<NBUF]"

text \<open>What a reader of block \<open>bno\<close> sees.\<close>

definition content :: "uint \<Rightarrow> 'z bio_scheme \<Rightarrow> uint \<Rightarrow> block" where
  "content dev s bno = (case cached dev (bufs s) bno of Some b \<Rightarrow> bdata (bufs s ! b) | None \<Rightarrow> disk s bno)"

text \<open>
  Invariant of the cache of device \<open>dev\<close>, when the current process holds the buffers \<open>H\<close> and
  no other process holds a buffer: no block is cached twice, every used buffer is valid,
  and an unused valid buffer agrees with the disk.
\<close>

definition buf_ok :: "uint \<Rightarrow> int \<Rightarrow> (uint \<Rightarrow> block) \<Rightarrow> bool \<Rightarrow> buf \<Rightarrow> bool" where
  "buf_ok dev me dsk held x \<longleftrightarrow> buf_locked x = held \<and> (held \<longrightarrow> buf_pid x = me \<and> refcnt x \<noteq> 0) \<and>
     (refcnt x \<noteq> 0 \<longrightarrow> valid x) \<and> (valid x \<longrightarrow> bdev x = dev) \<and> (bdev x = dev \<longrightarrow> valid x) \<and>
     (refcnt x = 0 \<longrightarrow> valid x \<longrightarrow> bdata x = dsk (blockno x)) \<and> unat (refcnt x) < 2147483648"

definition cache_ok :: "uint \<Rightarrow> 'z bio_scheme \<Rightarrow> nat set \<Rightarrow> bool" where
  "cache_ok dev s H \<longleftrightarrow> dev \<noteq> 0 \<and> curproc s < length (procs s) \<and> (\<exists>xs. lru (bufs s) xs) \<and> H \<subseteq> {..<NBUF} \<and>
     (\<forall>b<NBUF. buf_ok dev (pid (myproc s)) (disk s) (b \<in> H) (bufs s ! b)) \<and>
     (\<forall>b<NBUF. \<forall>c<NBUF. valid (bufs s ! b) \<longrightarrow> valid (bufs s ! c) \<longrightarrow>
        blockno (bufs s ! b) = blockno (bufs s ! c) \<longrightarrow> b = c)"

lemma cached_Some:
  assumes "cache_ok dev s H"
  shows "cached dev (bufs s) bno = Some b \<longleftrightarrow> b < 30 \<and> valid (bufs s ! b) \<and> blockno (bufs s ! b) = bno"
proof
  assume "cached dev (bufs s) bno = Some b"
  then show "b < 30 \<and> valid (bufs s ! b) \<and> blockno (bufs s ! b) = bno"
    by (auto simp: cached_def find_Some_iff)
next
  assume b: "b < 30 \<and> valid (bufs s ! b) \<and> blockno (bufs s ! b) = bno"
  then have d: "bdev (bufs s ! b) = dev" using assms by (auto simp: cache_ok_def buf_ok_def)
  show "cached dev (bufs s) bno = Some b"
  proof (cases "cached dev (bufs s) bno")
    case None
    then show ?thesis using b d by (auto simp: cached_def find_None_iff)
  next
    case (Some c)
    then have "c < 30" "valid (bufs s ! c)" "blockno (bufs s ! c) = bno"
      by (auto simp: cached_def find_Some_iff)
    with b assms have "c = b" by (auto simp: cache_ok_def)
    with Some show ?thesis by simp
  qed
qed

lemma content_cached:
  assumes "cache_ok dev s H" "b < 30" "valid (bufs s ! b)"
  shows "content dev s (blockno (bufs s ! b)) = bdata (bufs s ! b)"
  using cached_Some [OF assms(1), of "blockno (bufs s ! b)" b] assms(2,3) by (simp add: content_def)

lemma content_uncached:
  assumes "cache_ok dev s H" "\<And>b. b < 30 \<Longrightarrow> valid (bufs s ! b) \<Longrightarrow> blockno (bufs s ! b) \<noteq> bno"
  shows "content dev s bno = disk s bno"
proof -
  have "cached dev (bufs s) bno = None"
    using cached_Some [OF assms(1)] assms(2) by (cases "cached dev (bufs s) bno") auto
  then show ?thesis by (simp add: content_def)
qed

section \<open>What the operations do to the cache\<close>

lemma cache_ok_length: "cache_ok dev s H \<Longrightarrow> length (bufs s) = 31"
  by (auto simp: cache_ok_def lru_def)

lemma cache_ok_upd:
  assumes ok: "cache_ok dev s H" and b: "b < 30"
    and ptr: "nxt x = nxt (bufs s ! b)" "prev x = prev (bufs s ! b)"
    and x: "buf_ok dev (pid (myproc s)) (disk s) h x"
    and uniq: "valid x \<Longrightarrow> \<forall>c<30. c \<noteq> b \<longrightarrow> valid (bufs s ! c) \<longrightarrow> blockno (bufs s ! c) \<noteq> blockno x"
  shows "cache_ok dev (s\<lparr>bufs := (bufs s)[b := x]\<rparr>) (if h then insert b H else H - {b})"
proof -
  let ?s = "s\<lparr>bufs := (bufs s)[b := x]\<rparr>"
  have len: "length (bufs s) = 31" using ok by (rule cache_ok_length)
  obtain xs where "lru (bufs s) xs" using ok by (auto simp: cache_ok_def)
  then have "lru (bufs ?s) xs" using ptr lru_upd [of "bufs s" xs "\<lambda>_. x" b] by simp
  moreover have "buf_ok dev (pid (myproc ?s)) (disk ?s) (c \<in> (if h then insert b H else H - {b})) (bufs ?s ! c)"
    if "c < 30" for c
    using that ok b x len by (cases "c = b") (auto simp: cache_ok_def myproc_def)
  moreover have "c = d" if "c < 30" "d < 30" "valid (bufs ?s ! c)" "valid (bufs ?s ! d)"
    "blockno (bufs ?s ! c) = blockno (bufs ?s ! d)" for c d
    using that ok b uniq len by (cases "c = b"; cases "d = b") (auto simp: cache_ok_def nth_list_update)
  ultimately show ?thesis using ok b by (auto simp: cache_ok_def)
qed

lemma content_upd:
  assumes ok: "cache_ok dev s H" and ok': "cache_ok dev (s\<lparr>bufs := (bufs s)[b := x]\<rparr>) H'"
    and b: "b < 30" and v: "valid x"
    and old: "valid (bufs s ! b) \<Longrightarrow> blockno (bufs s ! b) \<noteq> blockno x \<Longrightarrow> bdata (bufs s ! b) = disk s (blockno (bufs s ! b))"
  shows "content dev (s\<lparr>bufs := (bufs s)[b := x]\<rparr>) = (content dev s)(blockno x := bdata x)"
proof
  fix bno
  let ?s = "s\<lparr>bufs := (bufs s)[b := x]\<rparr>"
  have len: "length (bufs s) = 31" using ok by (rule cache_ok_length)
  show "content dev ?s bno = ((content dev s)(blockno x := bdata x)) bno"
  proof (cases "bno = blockno x")
    case True
    have "content dev ?s (blockno (bufs ?s ! b)) = bdata (bufs ?s ! b)"
      using content_cached [OF ok', of b] b v len by simp
    with True b len show ?thesis by simp
  next
    case ne: False
    show ?thesis
    proof (cases "\<exists>c<30. valid (bufs s ! c) \<and> blockno (bufs s ! c) = bno")
      case True
      then obtain c where c: "c < 30" "valid (bufs s ! c)" "blockno (bufs s ! c) = bno" by blast
      then have cs: "content dev s bno = bdata (bufs s ! c)" using content_cached [OF ok, of c] by simp
      show ?thesis
      proof (cases "c = b")
        case True
        have "content dev ?s bno = disk ?s bno"
        proof (rule content_uncached [OF ok'])
          fix d assume d: "d < 30" "valid (bufs ?s ! d)"
          show "blockno (bufs ?s ! d) \<noteq> bno"
          proof (cases "d = b")
            case dn: False
            with d c True ok show ?thesis by (auto simp: cache_ok_def)
          qed (use ne b len in simp)
        qed
        with True c old ne cs show ?thesis by simp
      next
        case False
        then have "content dev ?s (blockno (bufs ?s ! c)) = bdata (bufs ?s ! c)"
          using content_cached [OF ok', of c] c by simp
        with False c cs ne show ?thesis by simp
      qed
    next
      case False
      then have "content dev s bno = disk s bno" using content_uncached [OF ok] by blast
      moreover have "content dev ?s bno = disk ?s bno"
      proof (rule content_uncached [OF ok'])
        fix d assume d: "d < 30" "valid (bufs ?s ! d)"
        then show "blockno (bufs ?s ! d) \<noteq> bno" using False ne b len by (cases "d = b") auto
      qed
      ultimately show ?thesis using ne by simp
    qed
  qed
qed

lemma find_hit:
  assumes "\<exists>x\<in>set xs. P x"
  obtains y where "find P xs = Some y" "y \<in> set xs" "P y"
  using assms by (metis find_None_iff find_Some_iff nth_mem option.exhaust)

lemma bread_cached:
  assumes ok: "cache_ok dev s H" and c: "c < 30" "valid (bufs s ! c)" "blockno (bufs s ! c) = bno" "c \<notin> H"
    and r: "unat (refcnt (bufs s ! c)) < 2147483647"
  defines "x \<equiv> (bufs s ! c)\<lparr>refcnt := refcnt (bufs s ! c) + 1, buf_locked := True, buf_pid := pid (myproc s)\<rparr>"
  shows "bread dev bno s = Done c (s\<lparr>bufs := (bufs s)[c := x]\<rparr>)"
    and "cache_ok dev (s\<lparr>bufs := (bufs s)[c := x]\<rparr>) (insert c H)"
    and "content dev (s\<lparr>bufs := (bufs s)[c := x]\<rparr>) = content dev s"
proof -
  obtain xs where xs: "lru (bufs s) xs" using ok by (auto simp: cache_ok_def)
  have len: "length (bufs s) = 31" using ok by (rule cache_ok_length)
  have okc: "buf_ok dev (pid (myproc s)) (disk s) False (bufs s ! c)" using ok c by (auto simp: cache_ok_def)
  then have dev: "bdev (bufs s ! c) = dev" "\<not> buf_locked (bufs s ! c)" using c by (auto simp: buf_ok_def)
  have "c \<in> set xs" using xs c by (auto simp: lru_def)
  then have ex: "\<exists>b\<in>set xs. bdev (bufs s ! b) = dev \<and> blockno (bufs s ! b) = bno" using dev c by auto
  obtain y where y: "find (\<lambda>b. bdev (bufs s ! b) = dev \<and> blockno (bufs s ! b) = bno) xs = Some y"
    "y \<in> set xs" "bdev (bufs s ! y) = dev \<and> blockno (bufs s ! y) = bno" by (rule find_hit [OF ex])
  have "y < 30" using y(2) xs by (auto simp: lru_def)
  moreover from this have "valid (bufs s ! y)" using y(3) ok by (auto simp: cache_ok_def buf_ok_def)
  ultimately have "y = c" using y(3) c ok by (auto simp: cache_ok_def)
  with y(1) bget_finds(1) [OF xs, of dev bno]
  have found: "find_cached 30 dev bno (bufs s) (nxt (bufs s ! 30)) = Some c" by simp
  show "bread dev bno s = Done c (s\<lparr>bufs := (bufs s)[c := x]\<rparr>)"
    using dev c len by (simp add: bread_def bget_def found upd_buf_def acquiresleep_buf_def x_def myproc_def)
  have u: "unat (refcnt (bufs s ! c) + 1) = unat (refcnt (bufs s ! c)) + 1"
    using r by (simp add: unat_word_ariths)
  then have nz: "refcnt (bufs s ! c) + 1 \<noteq> 0" by (auto simp: unat_eq_0 [symmetric])
  have ok': "buf_ok dev (pid (myproc s)) (disk s) True x"
    using okc c nz r unfolding buf_ok_def x_def by (simp add: u)
  have "cache_ok dev (s\<lparr>bufs := (bufs s)[c := x]\<rparr>) (if True then insert c H else H - {c})"
    using ok c ok' by (intro cache_ok_upd) (auto simp: x_def cache_ok_def)
  then show ok2: "cache_ok dev (s\<lparr>bufs := (bufs s)[c := x]\<rparr>) (insert c H)" by simp
  have "content dev (s\<lparr>bufs := (bufs s)[c := x]\<rparr>) = (content dev s)(blockno x := bdata x)"
    using c by (intro content_upd [OF ok ok2]) (auto simp: x_def)
  then show "content dev (s\<lparr>bufs := (bufs s)[c := x]\<rparr>) = content dev s"
    using content_cached [OF ok c(1,2)] by (simp add: x_def fun_upd_idem)
qed

lemma bread_uncached:
  assumes ok: "cache_ok dev s H" and unc: "\<And>c. c < 30 \<Longrightarrow> valid (bufs s ! c) \<Longrightarrow> blockno (bufs s ! c) \<noteq> bno"
    and free: "\<exists>c<30. refcnt (bufs s ! c) = 0"
  obtains b x where "bread dev bno s = Done b (s\<lparr>bufs := (bufs s)[b := x]\<rparr>)" "b < 30" "b \<notin> H"
    "refcnt (bufs s ! b) = 0" "refcnt x = 1" "blockno x = bno" "bdata x = disk s bno" "valid x"
    "cache_ok dev (s\<lparr>bufs := (bufs s)[b := x]\<rparr>) (insert b H)"
    "content dev (s\<lparr>bufs := (bufs s)[b := x]\<rparr>) = content dev s"
proof -
  obtain xs where xs: "lru (bufs s) xs" using ok by (auto simp: cache_ok_def)
  have len: "length (bufs s) = 31" using ok by (rule cache_ok_length)
  have "find (\<lambda>b. bdev (bufs s ! b) = dev \<and> blockno (bufs s ! b) = bno) xs = None"
  proof -
    have "\<not> (bdev (bufs s ! b) = dev \<and> blockno (bufs s ! b) = bno)" if "b \<in> set xs" for b
    proof
      assume a: "bdev (bufs s ! b) = dev \<and> blockno (bufs s ! b) = bno"
      have "b < 30" using that xs by (auto simp: lru_def)
      moreover from this have "valid (bufs s ! b)" using a ok by (auto simp: cache_ok_def buf_ok_def)
      ultimately show False using unc [of b] a by simp
    qed
    then show ?thesis by (auto simp: find_None_iff)
  qed
  with bget_finds(1) [OF xs, of dev bno]
  have nf: "find_cached 30 dev bno (bufs s) (nxt (bufs s ! 30)) = None" by simp
  have "\<exists>b\<in>set (rev xs). refcnt (bufs s ! b) = 0" using free xs by (auto simp: lru_def)
  then obtain b where "find (\<lambda>b. refcnt (bufs s ! b) = 0) (rev xs) = Some b" "b \<in> set (rev xs)"
    and ref: "refcnt (bufs s ! b) = 0" by (rule find_hit)
  with bget_finds(2) [OF xs] xs
  have uf: "find_unused 30 (bufs s) (prev (bufs s ! 30)) = Some b" and b: "b < 30" by (auto simp: lru_def)
  have okb: "buf_ok dev (pid (myproc s)) (disk s) (b \<in> H) (bufs s ! b)" using ok b by (auto simp: cache_ok_def)
  then have bH: "b \<notin> H" "\<not> buf_locked (bufs s ! b)" using ref by (auto simp: buf_ok_def)
  define x where "x = (bufs s ! b)\<lparr>bdev := dev, blockno := bno, refcnt := 1,
    buf_locked := True, buf_pid := pid (myproc s), bdata := disk s bno, valid := True\<rparr>"
  have call: "bread dev bno s = Done b (s\<lparr>bufs := (bufs s)[b := x]\<rparr>)"
    using bH b len
    by (simp add: bread_def bget_def nf uf upd_buf_def acquiresleep_buf_def disk_rw_def x_def myproc_def)
  have "buf_ok dev (pid (myproc s)) (disk s) True x" by (simp add: buf_ok_def x_def)
  then have "cache_ok dev (s\<lparr>bufs := (bufs s)[b := x]\<rparr>) (if True then insert b H else H - {b})"
    using ok b unc by (intro cache_ok_upd) (auto simp: x_def)
  then have ok2: "cache_ok dev (s\<lparr>bufs := (bufs s)[b := x]\<rparr>) (insert b H)" by simp
  have "content dev (s\<lparr>bufs := (bufs s)[b := x]\<rparr>) = (content dev s)(blockno x := bdata x)"
    using okb ref by (intro content_upd [OF ok ok2 b]) (auto simp: x_def buf_ok_def)
  also have "\<dots> = content dev s"
    using content_uncached [OF ok unc] by (simp add: x_def fun_upd_idem)
  finally show thesis using call b bH ref ok2 by (intro that [of b x]) (simp_all add: x_def)
qed

text \<open>\<^verbatim>\<open>bread\<close> returns a locked buffer that holds what readers of the block see.\<close>

lemma bread_spec:
  assumes ok: "cache_ok dev s H" and nh: "\<And>c. c \<in> H \<Longrightarrow> blockno (bufs s ! c) \<noteq> bno"
    and room: "(\<exists>c<30. refcnt (bufs s ! c) = 0) \<or> (\<exists>c<30. valid (bufs s ! c) \<and> blockno (bufs s ! c) = bno)"
    and small: "\<And>c. c < 30 \<Longrightarrow> unat (refcnt (bufs s ! c)) < 2147483647"
  obtains b x where "bread dev bno s = Done b (s\<lparr>bufs := (bufs s)[b := x]\<rparr>)" "b < 30" "b \<notin> H"
    "blockno x = bno" "bdata x = content dev s bno" "valid x"
    "refcnt x = (if valid (bufs s ! b) \<and> blockno (bufs s ! b) = bno then refcnt (bufs s ! b) + 1 else 1)"
    "valid (bufs s ! b) \<and> blockno (bufs s ! b) = bno \<or> refcnt (bufs s ! b) = 0"
    "cache_ok dev (s\<lparr>bufs := (bufs s)[b := x]\<rparr>) (insert b H)"
    "content dev (s\<lparr>bufs := (bufs s)[b := x]\<rparr>) = content dev s"
proof (cases "\<exists>c<30. valid (bufs s ! c) \<and> blockno (bufs s ! c) = bno")
  case True
  then obtain c where c: "c < 30" "valid (bufs s ! c)" "blockno (bufs s ! c) = bno" by blast
  then have cH: "c \<notin> H" using nh by blast
  show thesis
    by (rule that [OF bread_cached(1) [OF ok c cH small [OF c(1)]] _ _ _ _ _ _ _
          bread_cached(2,3) [OF ok c cH small [OF c(1)]]])
      (use c cH content_cached [OF ok c(1,2)] in simp_all)
next
  case False
  then have unc: "blockno (bufs s ! c) \<noteq> bno" if "c < 30" "valid (bufs s ! c)" for c using that by blast
  have free: "\<exists>c<30. refcnt (bufs s ! c) = 0" using room False by blast
  have ct: "content dev s bno = disk s bno" using content_uncached [OF ok] unc by blast
  from bread_uncached [OF ok unc free] obtain b x where
    "bread dev bno s = Done b (s\<lparr>bufs := (bufs s)[b := x]\<rparr>)" "b < 30" "b \<notin> H"
    "refcnt (bufs s ! b) = 0" "refcnt x = 1" "blockno x = bno" "bdata x = disk s bno" "valid x"
    "cache_ok dev (s\<lparr>bufs := (bufs s)[b := x]\<rparr>) (insert b H)"
    "content dev (s\<lparr>bufs := (bufs s)[b := x]\<rparr>) = content dev s" by metis
  with ct unc show thesis by (intro that [of b x]) auto
qed

text \<open>Changing the data of a held buffer, writing it, pinning it and releasing it.\<close>

lemma held_buf:
  assumes "cache_ok dev s H" "b \<in> H"
  shows "b < 30" "valid (bufs s ! b)" "holdingsleep_buf b s" "refcnt (bufs s ! b) \<noteq> 0"
    "buf_ok dev (pid (myproc s)) (disk s) True (bufs s ! b)"
  using assms by (auto simp: cache_ok_def buf_ok_def holdingsleep_buf_def)

lemma set_data_spec:
  fixes d :: block
  assumes ok: "cache_ok dev s H" and b: "b \<in> H"
  defines "s' \<equiv> upd_buf b (\<lambda>x. x\<lparr>bdata := d\<rparr>) s"
  shows "cache_ok dev s' H" "content dev s' = (content dev s)(blockno (bufs s ! b) := d)"
proof -
  note h = held_buf [OF ok b]
  let ?x = "(bufs s ! b)\<lparr>bdata := d\<rparr>"
  have s': "s' = s\<lparr>bufs := (bufs s)[b := ?x]\<rparr>" by (simp add: s'_def upd_buf_def)
  have "buf_ok dev (pid (myproc s)) (disk s) True ?x" using h(4,5) by (auto simp: buf_ok_def)
  then have "cache_ok dev s' (if True then insert b H else H - {b})"
    unfolding s' using ok h(1,2) by (intro cache_ok_upd) (auto simp: cache_ok_def)
  then show ok': "cache_ok dev s' H" using b by (simp add: insert_absorb)
  show "content dev s' = (content dev s)(blockno (bufs s ! b) := d)"
    using content_upd [OF ok ok' [unfolded s'] h(1)] h(2) by (simp add: s')
qed

lemma content_disk:
  assumes "\<And>bno. cached dev (bufs s) bno = None \<Longrightarrow> d bno = disk s bno" "bufs t = bufs s" "disk t = d"
  shows "content dev t = content dev s"
  using assms by (auto simp: content_def fun_eq_iff split: option.splits)

lemma bwrite_spec:
  assumes ok: "cache_ok dev s H" and b: "b \<in> H"
  defines "s' \<equiv> disk_rw b True s"
  shows "bwrite b s = Done () s'" "cache_ok dev s' H" "content dev s' = content dev s"
    "disk s' = (disk s)(blockno (bufs s ! b) := bdata (bufs s ! b))" "bufs s' = bufs s"
    "writes s' = writes s @ [(blockno (bufs s ! b), bdata (bufs s ! b))]"
proof -
  note h = held_buf [OF ok b]
  let ?n = "blockno (bufs s ! b)"
  show "bwrite b s = Done () s'" using h(3) by (simp add: bwrite_def s'_def)
  show d: "disk s' = (disk s)(?n := bdata (bufs s ! b))" and bf: "bufs s' = bufs s"
    and "writes s' = writes s @ [(?n, bdata (bufs s ! b))]"
    by (simp_all add: s'_def disk_rw_def)
  have "buf_ok dev (pid (myproc s)) (disk s') (c \<in> H) (bufs s ! c)" if c: "c < 30" for c
  proof -
    have "buf_ok dev (pid (myproc s)) (disk s) (c \<in> H) (bufs s ! c)" using ok c by (auto simp: cache_ok_def)
    moreover have "c = b" if "valid (bufs s ! c)" "blockno (bufs s ! c) = ?n"
      using that c h(1,2) ok by (auto simp: cache_ok_def)
    ultimately show ?thesis using h(4) by (auto simp: buf_ok_def d)
  qed
  moreover have "myproc s' = myproc s" "procs s' = procs s" "curproc s' = curproc s"
    by (simp_all add: s'_def disk_rw_def myproc_def)
  ultimately show ok': "cache_ok dev s' H" using ok by (simp add: cache_ok_def bf)
  have "cached dev (bufs s) ?n = Some b" using cached_Some [OF ok] h(1,2) by blast
  then show "content dev s' = content dev s" using d bf by (intro content_disk) auto
qed

lemma refcnt_spec:
  assumes ok: "cache_ok dev s H" and b: "b < 30" "valid (bufs s ! b)"
    and r: "unat r < 2147483648" "r = 0 \<longrightarrow> b \<notin> H \<and> bdata (bufs s ! b) = disk s (blockno (bufs s ! b))"
  defines "s' \<equiv> upd_buf b (\<lambda>x. x\<lparr>refcnt := r\<rparr>) s"
  shows "cache_ok dev s' H" "content dev s' = content dev s"
proof -
  let ?x = "(bufs s ! b)\<lparr>refcnt := r\<rparr>"
  have s': "s' = s\<lparr>bufs := (bufs s)[b := ?x]\<rparr>" by (simp add: s'_def upd_buf_def)
  have "buf_ok dev (pid (myproc s)) (disk s) (b \<in> H) (bufs s ! b)" using ok b by (auto simp: cache_ok_def)
  then have "buf_ok dev (pid (myproc s)) (disk s) (b \<in> H) ?x" using r b by (auto simp: buf_ok_def)
  then have "cache_ok dev s' (if b \<in> H then insert b H else H - {b})"
    unfolding s' using ok b by (intro cache_ok_upd) (auto simp: cache_ok_def)
  then show ok': "cache_ok dev s' H" by (cases "b \<in> H") (simp_all add: insert_absorb)
  have "content dev s' = (content dev s)(blockno (bufs s ! b) := bdata (bufs s ! b))"
    using content_upd [OF ok ok' [unfolded s'] b(1)] b(2) by (simp add: s')
  then show "content dev s' = content dev s"
    using content_cached [OF ok b] by (simp add: fun_upd_idem)
qed

text \<open>Moving a buffer in the list changes only pointers.\<close>

definition same_data :: "buf \<Rightarrow> buf \<Rightarrow> bool" where
  "same_data x y \<longleftrightarrow> y = x\<lparr>nxt := nxt y, prev := prev y\<rparr>"

lemma same_data_trans:
  assumes "same_data x y" "same_data y z"
  shows "same_data x z"
proof -
  have "x\<lparr>nxt := nxt z, prev := prev z\<rparr> = x\<lparr>nxt := nxt y, prev := prev y\<rparr>\<lparr>nxt := nxt z, prev := prev z\<rparr>"
    by simp
  also have "\<dots> = y\<lparr>nxt := nxt z, prev := prev z\<rparr>" using assms(1) by (simp add: same_data_def)
  also have "\<dots> = z" using assms(2) by (simp add: same_data_def)
  finally show ?thesis by (simp add: same_data_def)
qed

lemma same_data_refl: "same_data x x"
  by (cases x) (simp add: same_data_def)

lemma same_data_next: "same_data x (x\<lparr>nxt := v\<rparr>)"
  by (cases x) (simp add: same_data_def)

lemma same_data_prev: "same_data x (x\<lparr>prev := v\<rparr>)"
  by (cases x) (simp add: same_data_def)

lemma same_data_upd: "same_data (bs ! c) x \<Longrightarrow> same_data (bs ! i) (bs[c := x] ! i)"
  by (cases "c < length bs") (auto simp: nth_list_update list_update_beyond same_data_refl)

lemma same_data_set: "same_data (bs ! i) (set_next c v bs ! i)" "same_data (bs ! i) (set_prev c v bs ! i)"
  unfolding set_next_def set_prev_def
  by (rule same_data_upd [OF same_data_next], rule same_data_upd [OF same_data_prev])

lemma same_data_relink: "same_data (bs ! i) (link_head b (unlink b bs) ! i)"
  unfolding link_head_def unlink_def Let_def
  by (rule same_data_trans [OF _ same_data_set(1)], rule same_data_trans [OF _ same_data_set(2)],
      rule same_data_trans [OF _ same_data_set(2)], rule same_data_trans [OF _ same_data_set(1)],
      rule same_data_trans [OF same_data_set(2) same_data_set(1)])

lemma same_dataD:
  assumes "same_data x y"
  shows "valid y = valid x" "bdev y = bdev x" "blockno y = blockno x" "buf_locked y = buf_locked x"
    "buf_pid y = buf_pid x" "refcnt y = refcnt x" "bdata y = bdata x"
proof -
  have y: "y = x\<lparr>nxt := nxt y, prev := prev y\<rparr>" using assms by (simp add: same_data_def)
  show "valid y = valid x" "bdev y = bdev x" "blockno y = blockno x" "buf_locked y = buf_locked x"
    "buf_pid y = buf_pid x" "refcnt y = refcnt x" "bdata y = bdata x" by (subst y, simp)+
qed

lemma content_cong:
  assumes "\<And>c. c < 30 \<Longrightarrow> valid (bufs t ! c) = valid (bufs s ! c) \<and> bdev (bufs t ! c) = bdev (bufs s ! c) \<and>
      blockno (bufs t ! c) = blockno (bufs s ! c) \<and> bdata (bufs t ! c) = bdata (bufs s ! c)"
    and "disk t = disk s"
  shows "content dev t = content dev s"
proof
  fix bno
  have "cached dev (bufs t) bno = cached dev (bufs s) bno"
    unfolding cached_def by (rule find_cong) (use assms(1) in auto)
  moreover have "b < 30" if "cached dev (bufs s) bno = Some b" for b
    using that by (auto simp: cached_def find_Some_iff)
  ultimately show "content dev t bno = content dev s bno"
    using assms by (simp add: content_def split: option.splits)
qed

lemma cache_ok_relink:
  assumes ok: "cache_ok dev s H" and b: "b < 30"
  defines "t \<equiv> s\<lparr>bufs := link_head b (unlink b (bufs s))\<rparr>"
  shows "cache_ok dev t H" "content dev t = content dev s"
proof -
  have same: "same_data (bufs s ! c) (bufs t ! c)" for c by (simp add: t_def same_data_relink)
  obtain xs where "lru (bufs s) xs" using ok by (auto simp: cache_ok_def)
  then have "lru (bufs t) (b # remove1 b xs)" using lru_move_front b by (simp add: t_def)
  moreover have "buf_ok dev (pid (myproc t)) (disk t) (c \<in> H) (bufs t ! c)" if "c < 30" for c
    using ok that same_dataD [OF same [of c]] by (simp add: cache_ok_def buf_ok_def t_def myproc_def)
  ultimately show "cache_ok dev t H"
    using ok same_dataD [OF same] unfolding cache_ok_def by (auto simp: t_def)
  show "content dev t = content dev s"
    using same_dataD [OF same] by (intro content_cong) (auto simp: t_def)
qed

lemma myproc_wakeup: "curproc s < length (procs s) \<Longrightarrow> myproc (wakeup ch s) = myproc s"
  by (simp add: myproc_def wakeup_nth wakeup_proc_def)

lemma bufs_wakeup [simp]: "bufs (wakeup ch s) = bufs s" "disk (wakeup ch s) = disk s" "writes (wakeup ch s) = writes s"
  by (simp_all add: wakeup_def)

lemma cache_ok_wakeup: "cache_ok dev s H \<Longrightarrow> cache_ok dev (wakeup ch s) H"
  by (simp add: cache_ok_def myproc_wakeup)

lemma content_wakeup: "content dev (wakeup ch s) = content dev s"
  by (simp add: content_def fun_eq_iff split: option.split)

lemma unlock_spec:
  assumes ok: "cache_ok dev s H" and b: "b \<in> H"
    and clean: "refcnt (bufs s ! b) = 1 \<longrightarrow> bdata (bufs s ! b) = disk s (blockno (bufs s ! b))"
  defines "x \<equiv> (bufs s ! b)\<lparr>buf_locked := False, buf_pid := 0, refcnt := refcnt (bufs s ! b) - 1\<rparr>"
  defines "t \<equiv> s\<lparr>bufs := (bufs s)[b := x]\<rparr>"
  shows "cache_ok dev t (H - {b})" "content dev t = content dev s"
proof -
  note h = held_buf [OF ok b]
  have r: "unat (refcnt (bufs s ! b) - 1) = unat (refcnt (bufs s ! b)) - 1"
    using h(4) by (simp add: unat_minus_one)
  have z: "refcnt (bufs s ! b) - 1 = 0 \<longleftrightarrow> refcnt (bufs s ! b) = 1" by (metis diff_0_right eq_iff_diff_eq_0)
  have "buf_ok dev (pid (myproc s)) (disk s) False x"
    using h(2,5) clean r unfolding buf_ok_def x_def by (simp add: z) linarith
  then have "cache_ok dev t (if False then insert b H else H - {b})"
    unfolding t_def using ok h(1,2) by (intro cache_ok_upd) (auto simp: x_def cache_ok_def)
  then show ok': "cache_ok dev t (H - {b})" by simp
  have "content dev t = (content dev s)(blockno x := bdata x)"
    unfolding t_def using h by (intro content_upd [OF ok ok' [unfolded t_def]]) (auto simp: x_def)
  then show "content dev t = content dev s"
    using content_cached [OF ok h(1,2)] by (simp add: x_def fun_upd_idem)
qed

lemma brelse_spec:
  assumes ok: "cache_ok dev s H" and b: "b \<in> H"
    and clean: "refcnt (bufs s ! b) = 1 \<longrightarrow> bdata (bufs s ! b) = disk s (blockno (bufs s ! b))"
  obtains t where "brelse b s = Done () t" "cache_ok dev t (H - {b})" "content dev t = content dev s"
    "disk t = disk s" "writes t = writes s" "t = s\<lparr>bufs := bufs t, procs := procs t\<rparr>"
    "\<And>c. c < 30 \<Longrightarrow> blockno (bufs t ! c) = blockno (bufs s ! c) \<and> valid (bufs t ! c) = valid (bufs s ! c) \<and>
       bdata (bufs t ! c) = bdata (bufs s ! c) \<and>
       refcnt (bufs t ! c) = (if c = b then refcnt (bufs s ! b) - 1 else refcnt (bufs s ! c))"
proof -
  note h = held_buf [OF ok b]
  have len: "length (bufs s) = 31" using ok by (rule cache_ok_length)
  let ?x = "(bufs s ! b)\<lparr>buf_locked := False, buf_pid := 0, refcnt := refcnt (bufs s ! b) - 1\<rparr>"
  let ?u = "s\<lparr>bufs := (bufs s)[b := ?x]\<rparr>"
  note u = unlock_spec [OF ok b clean]
  have rel: "upd_buf b (\<lambda>x. x\<lparr>refcnt := refcnt x - 1\<rparr>) (releasesleep_buf b s) = wakeup (ChanBufLock b) ?u"
    using h(1) len by (simp add: upd_buf_def releasesleep_buf_def wakeup_def)
  let ?w = "wakeup (ChanBufLock b) ?u"
  have w: "cache_ok dev ?w (H - {b})" "content dev ?w = content dev s"
    using u cache_ok_wakeup content_wakeup [of dev _ ?u] by auto
  have fields: "blockno (bufs ?w ! c) = blockno (bufs s ! c) \<and> valid (bufs ?w ! c) = valid (bufs s ! c) \<and>
       bdata (bufs ?w ! c) = bdata (bufs s ! c) \<and>
       refcnt (bufs ?w ! c) = (if c = b then refcnt (bufs s ! b) - 1 else refcnt (bufs s ! c))" if "c < 30" for c
    using len that by (simp add: nth_list_update)
  have frame: "?w = s\<lparr>bufs := bufs ?w, procs := procs ?w\<rparr>" by (simp add: wakeup_def)
  show thesis
  proof (cases "refcnt (bufs ?w ! b) = 0")
    case True
    let ?t = "?w\<lparr>bufs := link_head b (unlink b (bufs ?w))\<rparr>"
    have "brelse b s = Done () ?t" using h(3) True by (simp add: brelse_def Let_def rel)
    moreover note cache_ok_relink [OF w(1) h(1)]
    moreover have "?t = s\<lparr>bufs := bufs ?t, procs := procs ?t\<rparr>" by (simp add: wakeup_def)
    ultimately show thesis
      using w(2) fields same_dataD [OF same_data_relink [of "bufs ?w" _ b]]
      by (intro that [of ?t]) auto
  next
    case False
    then have "brelse b s = Done () ?w" using h(3) by (simp add: brelse_def Let_def rel)
    then show thesis using w frame fields by (intro that [of ?w]) auto
  qed
qed

section \<open>Initialisation\<close>

lemma same_data_link: "same_data (bs ! i) (link_head b bs ! i)"
  unfolding link_head_def Let_def
  by (rule same_data_trans [OF _ same_data_set(1)], rule same_data_trans [OF _ same_data_set(2)],
      rule same_data_trans [OF same_data_set(1) same_data_set(2)])

lemma seg_lock:
  "seg (bs[b := (bs ! b)\<lparr>buf_locked := l, buf_pid := p\<rparr>]) a xs c = seg bs a xs c"
proof (rule seg_cong)
  fix i
  show "nxt (bs[b := (bs ! b)\<lparr>buf_locked := l, buf_pid := p\<rparr>] ! i) = nxt (bs ! i) \<and>
    prev (bs[b := (bs ! b)\<lparr>buf_locked := l, buf_pid := p\<rparr>] ! i) = prev (bs ! i)"
    by (cases "b < length bs") (auto simp: nth_list_update list_update_beyond)
qed

lemma binit_loop_seg:
  assumes "seg bs 30 (rev [0..<b]) 30" "b + n \<le> 30" "length bs = 31"
  shows "seg (binit_loop b n bs) 30 (rev [0..<b + n]) 30 \<and> length (binit_loop b n bs) = 31"
  using assms
proof (induction n arbitrary: b bs)
  case (Suc n)
  let ?bs = "bs[b := (bs ! b)\<lparr>buf_locked := False, buf_pid := 0\<rparr>]"
  have "seg ?bs 30 (rev [0..<b]) 30" using Suc.prems(1) by (simp only: seg_lock)
  then have "seg (link_head b ?bs) 30 (b # rev [0..<b]) 30"
    using Suc.prems by (intro link_head_seg) auto
  then have "seg (link_head b ?bs) 30 (rev [0..<Suc b]) 30" by simp
  from Suc.IH [OF this] Suc.prems show ?case by simp
qed simp

lemma binit_loop_data:
  assumes "length bs = 31" "b + n \<le> 30" "c < 30"
  shows "\<exists>x. same_data x (binit_loop b n bs ! c) \<and>
    x = (if b \<le> c \<and> c < b + n then (bs ! c)\<lparr>buf_locked := False, buf_pid := 0\<rparr> else bs ! c)"
  using assms
proof (induction n arbitrary: b bs)
  case 0
  then show ?case by (auto simp: same_data_refl)
next
  case (Suc n)
  let ?bs = "bs[b := (bs ! b)\<lparr>buf_locked := False, buf_pid := 0\<rparr>]"
  have sd: "same_data (?bs ! c) (link_head b ?bs ! c)" by (rule same_data_link)
  obtain x where x: "same_data x (binit_loop (Suc b) n (link_head b ?bs) ! c)"
    "x = (if Suc b \<le> c \<and> c < Suc b + n then (link_head b ?bs ! c)\<lparr>buf_locked := False, buf_pid := 0\<rparr>
      else link_head b ?bs ! c)" using Suc.IH [of "link_head b ?bs" "Suc b"] Suc.prems by auto
  have lk: "same_data (y\<lparr>buf_locked := l, buf_pid := p\<rparr>) (z\<lparr>buf_locked := l, buf_pid := p\<rparr>)"
    if "same_data y z" for y z :: buf and l p
    using that by (cases y; cases z) (simp add: same_data_def)
  have "same_data (if b \<le> c \<and> c < b + Suc n then (bs ! c)\<lparr>buf_locked := False, buf_pid := 0\<rparr> else bs ! c) x"
    using sd lk [OF sd, where l = False and p = 0] Suc.prems by (auto simp: x(2) nth_list_update split: if_splits)
  from same_data_trans [OF this x(1)] show ?case by simp
qed

lemma binit_spec:
  assumes "length (bufs s) = 31" "curproc s < length (procs s)" "dev \<noteq> 0"
    and "\<And>b. b < 30 \<Longrightarrow> \<not> valid (bufs s ! b) \<and> bdev (bufs s ! b) = 0 \<and> refcnt (bufs s ! b) = 0"
  shows "lru (bufs (binit s)) (rev [0..<NBUF]) \<and> cache_ok dev (binit s) {} \<and> content dev (binit s) = disk s"
proof -
  let ?bs = "set_next 30 30 (set_prev 30 30 (bufs s))"
  have seg: "seg (binit_loop 0 30 ?bs) 30 (rev [0..<0 + 30]) 30 \<and> length (binit_loop 0 30 ?bs) = 31"
    using assms(1) by (intro binit_loop_seg) simp_all
  then have l: "lru (bufs (binit s)) (rev [0..<30])"
    by (auto simp: lru_def binit_def simp del: upt_Suc)
  have d: "\<not> valid (bufs (binit s) ! c)" "bdev (bufs (binit s) ! c) = 0" "refcnt (bufs (binit s) ! c) = 0"
    "\<not> buf_locked (bufs (binit s) ! c)" if c: "c < 30" for c
  proof -
    obtain x where x: "same_data x (bufs (binit s) ! c)" "x = (?bs ! c)\<lparr>buf_locked := False, buf_pid := 0\<rparr>"
      using binit_loop_data [of ?bs 0 30 c] assms(1) c by (auto simp: binit_def)
    have "same_data (bufs s ! c) (?bs ! c)" by (rule same_data_trans [OF same_data_set(2) same_data_set(1)])
    note y = same_dataD [OF this]
    show "\<not> valid (bufs (binit s) ! c)" "bdev (bufs (binit s) ! c) = 0" "refcnt (bufs (binit s) ! c) = 0"
      "\<not> buf_locked (bufs (binit s) ! c)"
      using assms(4) [OF c] same_dataD [OF x(1)] y by (simp_all add: x(2))
  qed
  have ok: "cache_ok dev (binit s) {}"
    using l d assms(2,3) by (auto simp: cache_ok_def buf_ok_def simp: binit_def)
  moreover have "content dev (binit s) bno = disk (binit s) bno" for bno
    using d by (intro content_uncached [OF ok]) auto
  ultimately show ?thesis using l by (simp add: fun_eq_iff) (simp add: binit_def)
qed

section \<open>Properties\<close>

text \<open>A machine that has just loaded the kernel image, with a disk of zeros.\<close>

definition zero_buf :: buf where
  "zero_buf = \<lparr>valid = False, bdev = 0, blockno = 0, buf_locked = False, buf_pid = 0, refcnt = 0, prev = 0, nxt = 0,
     bdata = replicate BSIZE 0\<rparr>"

definition bio_on :: "kproc \<Rightarrow> bio" where
  "bio_on s = kproc.extend s (bio.fields (replicate 31 zero_buf) (\<lambda>_. replicate BSIZE 0) [])"

lemma bio_on_simps [simp]:
  "mem (bio_on s) = mem s" "kend (bio_on s) = kend s" "freelist (bio_on s) = freelist s"
  "superpages (bio_on s) = superpages s" "nfree (bio_on s) = nfree s"
  "procs (bio_on s) = procs s" "curproc (bio_on s) = curproc s" "initproc (bio_on s) = initproc s"
  "nextpid (bio_on s) = nextpid s" "ticks (bio_on s) = ticks s"
  "bufs (bio_on s) = replicate 31 zero_buf" "disk (bio_on s) = (\<lambda>_. replicate BSIZE 0)" "writes (bio_on s) = []"
  by (simp_all add: bio_on_def kproc.defs bio.defs)

abbreviation boot_bio :: bio where
  "boot_bio \<equiv> bio_on (example_kproc [no_proc\<lparr>pid := 1\<rparr>])"

lemma boot_bio_zero: "b < 30 \<Longrightarrow> \<not> valid (bufs boot_bio ! b) \<and> bdev (bufs boot_bio ! b) = 0 \<and> refcnt (bufs boot_bio ! b) = 0"
  by (simp add: zero_buf_def)

lemma binit_boot: "cache_ok 1 (binit boot_bio) {}"
  using binit_spec [of boot_bio 1] boot_bio_zero by simp

lemma binit_refcnt:
  assumes "length (bufs s) = 31" "c < 30"
  shows "refcnt (bufs (binit s) ! c) = refcnt (bufs s ! c)"
proof -
  let ?bs = "set_next 30 30 (set_prev 30 30 (bufs s))"
  obtain x where x: "same_data x (bufs (binit s) ! c)" "x = (?bs ! c)\<lparr>buf_locked := False, buf_pid := 0\<rparr>"
    using binit_loop_data [of ?bs 0 30 c] assms by (auto simp: binit_def)
  have "same_data (bufs s ! c) (?bs ! c)" by (rule same_data_trans [OF same_data_set(2) same_data_set(1)])
  with x show ?thesis by (simp add: same_dataD)
qed

text \<open>
  \<^verbatim>\<open>binit\<close> on the zeroed array of buffers builds a well-formed circular list and a
  consistent empty cache: readers of every block see the disk.
\<close>

theorem binit_correct:
  assumes "length (bufs s) = 31" "curproc s < length (procs s)" "dev \<noteq> 0"
    and "\<And>b. b < 30 \<Longrightarrow> \<not> valid (bufs s ! b) \<and> bdev (bufs s ! b) = 0 \<and> refcnt (bufs s ! b) = 0"
  shows "lru (bufs (binit s)) (rev [0..<NBUF]) \<and> cache_ok dev (binit s) {} \<and> content dev (binit s) = disk s"
  using assms by (rule binit_spec)

theorem binit_correct_witness: "lru (bufs (binit boot_bio)) (rev [0..<NBUF]) \<and> cache_ok 1 (binit boot_bio) {}"
  using binit_correct [of boot_bio 1] boot_bio_zero by simp

text \<open>
  C11. Reading a block through the cache: when no buffer of the block is locked and a buffer
  is free (or the block is cached), \<^verbatim>\<open>bread\<close> returns a buffer that the caller holds locked
  and whose data are what the last writer of the block stored, whether or not that
  reached the disk. No block is ever cached twice, and what readers of any block see
  does not change.
\<close>

theorem bread_correct:
  assumes "cache_ok dev s H" "\<And>c. c \<in> H \<Longrightarrow> blockno (bufs s ! c) \<noteq> bno"
    and "(\<exists>c<30. refcnt (bufs s ! c) = 0) \<or> (\<exists>c<30. valid (bufs s ! c) \<and> blockno (bufs s ! c) = bno)"
    and "\<And>c. c < 30 \<Longrightarrow> unat (refcnt (bufs s ! c)) < 2147483647"
  shows "\<exists>b t. bread dev bno s = Done b t \<and> b < NBUF \<and> b \<notin> H \<and> holdingsleep_buf b t \<and>
    blockno (bufs t ! b) = bno \<and> bdata (bufs t ! b) = content dev s bno \<and>
    cache_ok dev t (insert b H) \<and> content dev t = content dev s \<and> disk t = disk s"
proof -
  have len: "length (bufs s) = 31" using assms(1) by (rule cache_ok_length)
  obtain b x where b: "bread dev bno s = Done b (s\<lparr>bufs := (bufs s)[b := x]\<rparr>)" "b < 30" "b \<notin> H"
    "blockno x = bno" "bdata x = content dev s bno"
    "cache_ok dev (s\<lparr>bufs := (bufs s)[b := x]\<rparr>) (insert b H)"
    "content dev (s\<lparr>bufs := (bufs s)[b := x]\<rparr>) = content dev s"
    by (rule bread_spec [OF assms])
  have "holdingsleep_buf b (s\<lparr>bufs := (bufs s)[b := x]\<rparr>)" using held_buf(3) [OF b(6)] by simp
  with b len show ?thesis by (intro exI [of _ b] exI [of _ "s\<lparr>bufs := (bufs s)[b := x]\<rparr>"]) simp
qed

theorem bread_correct_witness:
  "\<exists>b t. bread 1 5 (binit boot_bio) = Done b t \<and> bdata (bufs t ! b) = content 1 (binit boot_bio) 5"
proof -
  have z: "refcnt (bufs (binit boot_bio) ! c) = 0" if "c < 30" for c
    using that by (simp add: binit_refcnt zero_buf_def)
  then have "\<exists>c<30. refcnt (bufs (binit boot_bio) ! c) = 0" by (intro exI [of _ 0]) simp
  with z bread_correct [OF binit_boot, of 5] show ?thesis by auto
qed

end
