(* ===== verification/Cache.thy ===== *)
theory Cache
  imports Bio
begin

text \<open>
  How the log and the file system use the buffer cache: a process holds a few buffers for a
  short time, and some blocks are pinned. The predicate \<open>held\<close> says which; the lemmas give what
  every operation of the cache does to it, to what readers see, to the disk and to the
  sequence of disk writes. As long as fewer than \<open>NBUF\<close> buffers are in use, \<^verbatim>\<open>bread\<close> succeeds.
\<close>

section \<open>Pinned and held buffers\<close>

definition pins :: "uint set \<Rightarrow> buf \<Rightarrow> bool" where
  "pins P x \<longleftrightarrow> valid x \<and> blockno x \<in> P"

definition held :: "uint \<Rightarrow> 'z bio_scheme \<Rightarrow> uint set \<Rightarrow> nat set \<Rightarrow> bool" where
  "held dev s P H \<longleftrightarrow> cache_ok dev s H \<and> finite P \<and>
     (\<forall>c<NBUF. refcnt (bufs s ! c) = (if pins P (bufs s ! c) then 1 else 0) + (if c \<in> H then 1 else 0)) \<and>
     (\<forall>b\<in>P. \<exists>c<NBUF. valid (bufs s ! c) \<and> blockno (bufs s ! c) = b)"

lemma heldD:
  assumes "held dev s P H"
  shows "cache_ok dev s H" "finite P"
    "c < 30 \<Longrightarrow> refcnt (bufs s ! c) = (if pins P (bufs s ! c) then 1 else 0) + (if c \<in> H then 1 else 0)"
    "b \<in> P \<Longrightarrow> \<exists>c<30. valid (bufs s ! c) \<and> blockno (bufs s ! c) = b"
  using assms by (auto simp: held_def)

lemma held_buffer:
  assumes "held dev s P H" "b \<in> H"
  shows "b < 30" "valid (bufs s ! b)" "b < length (bufs s)"
  using held_buf [OF heldD(1) [OF assms(1)] assms(2)] cache_ok_length [OF heldD(1) [OF assms(1)]] by simp_all

lemma held_small:
  assumes "held dev s P H" "c < 30"
  shows "unat (refcnt (bufs s ! c)) < 2147483647"
  using heldD(3) [OF assms] by simp

lemma cache_ok_unique:
  assumes "cache_ok dev s H" "c < 30" "d < 30" "valid (bufs s ! c)" "valid (bufs s ! d)"
    "blockno (bufs s ! c) = blockno (bufs s ! d)"
  shows "c = d"
  using assms by (auto simp: cache_ok_def)

lemmas held_unique = cache_ok_unique [OF heldD(1)]

text \<open>Counting: the buffers in use are the pinned ones and the held ones.\<close>

lemma held_free:
  assumes h: "held dev s P H" and n: "card P + card H < 30"
  shows "\<exists>c<30. refcnt (bufs s ! c) = 0"
proof -
  let ?U = "{c. c < 30 \<and> pins P (bufs s ! c)}"
  have H: "H \<subseteq> {..<30}" using heldD(1) [OF h] by (simp add: cache_ok_def)
  have "inj_on (\<lambda>c. blockno (bufs s ! c)) ?U"
    using held_unique [OF h] by (auto simp: inj_on_def pins_def)
  then have "card ?U \<le> card P"
    by (rule card_inj_on_le) (use heldD(2) [OF h] in \<open>auto simp: pins_def\<close>)
  then have "card (?U \<union> H) < 30" using card_Un_le [of ?U H] n by linarith
  moreover have "card {..<30 :: nat} = 30" by simp
  ultimately have "\<not> {..<30} \<subseteq> ?U \<union> H"
    using card_mono [of "?U \<union> H" "{..<30}"] finite_subset [OF H] by auto
  then obtain c where "c < 30" "c \<notin> ?U" "c \<notin> H" by auto
  then show ?thesis using heldD(3) [OF h, of c] by auto
qed

text \<open>A block that is neither pinned nor held reads as it is on the disk.\<close>

lemma held_clean:
  assumes h: "held dev s P H" and b: "b \<notin> P" "\<And>c. c \<in> H \<Longrightarrow> blockno (bufs s ! c) \<noteq> b"
  shows "content dev s b = disk s b"
proof (cases "\<exists>c<30. valid (bufs s ! c) \<and> blockno (bufs s ! c) = b")
  case True
  then obtain c where c: "c < 30" "valid (bufs s ! c)" "blockno (bufs s ! c) = b" by blast
  then have "refcnt (bufs s ! c) = 0" using heldD(3) [OF h c(1)] b by (auto simp: pins_def)
  then have "bdata (bufs s ! c) = disk s b" using heldD(1) [OF h] c by (auto simp: cache_ok_def buf_ok_def)
  then show ?thesis using content_cached [OF heldD(1) [OF h] c(1,2)] c(3) by simp
next
  case False
  then show ?thesis by (intro content_uncached [OF heldD(1) [OF h]]) blast
qed

section \<open>The operations\<close>

lemma held_bread:
  assumes h: "held dev s P H" and nh: "\<And>c. c \<in> H \<Longrightarrow> blockno (bufs s ! c) \<noteq> bno"
    and room: "bno \<in> P \<or> card P + card H < 30"
  obtains b t where "bread dev bno s = Done b t" "b < 30" "b \<notin> H" "held dev t P (insert b H)"
    "blockno (bufs t ! b) = bno" "bdata (bufs t ! b) = content dev s bno" "content dev t = content dev s"
    "\<And>c. c \<in> H \<Longrightarrow> bufs t ! c = bufs s ! c" "t = s\<lparr>bufs := bufs t\<rparr>"
proof -
  have len: "length (bufs s) = 31" using heldD(1) [OF h] by (rule cache_ok_length)
  have "(\<exists>c<30. refcnt (bufs s ! c) = 0) \<or> (\<exists>c<30. valid (bufs s ! c) \<and> blockno (bufs s ! c) = bno)"
    using room held_free [OF h] heldD(4) [OF h] by blast
  from bread_spec [OF heldD(1) [OF h] nh this held_small [OF h]] obtain b x where
    b: "bread dev bno s = Done b (s\<lparr>bufs := (bufs s)[b := x]\<rparr>)" "b < 30" "b \<notin> H"
    "blockno x = bno" "bdata x = content dev s bno" "valid x"
    "refcnt x = (if valid (bufs s ! b) \<and> blockno (bufs s ! b) = bno then refcnt (bufs s ! b) + 1 else 1)"
    "valid (bufs s ! b) \<and> blockno (bufs s ! b) = bno \<or> refcnt (bufs s ! b) = 0"
    "cache_ok dev (s\<lparr>bufs := (bufs s)[b := x]\<rparr>) (insert b H)"
    "content dev (s\<lparr>bufs := (bufs s)[b := x]\<rparr>) = content dev s" by metis
  let ?t = "s\<lparr>bufs := (bufs s)[b := x]\<rparr>"
  have np: "\<not> (valid (bufs s ! b) \<and> blockno (bufs s ! b) = bno) \<Longrightarrow> \<not> pins P (bufs s ! b) \<and> \<not> pins P x"
  proof (intro conjI notI)
    assume n: "\<not> (valid (bufs s ! b) \<and> blockno (bufs s ! b) = bno)"
    then have z: "refcnt (bufs s ! b) = 0" using b(8) by blast
    { assume "pins P (bufs s ! b)" then show False using heldD(3) [OF h b(2)] z b(3) by simp }
    assume "pins P x"
    then have "bno \<in> P" using b(4) by (simp add: pins_def)
    then obtain c where c: "c < 30" "valid (bufs s ! c)" "blockno (bufs s ! c) = bno" using heldD(4) [OF h] by blast
    then have "c \<noteq> b" using n by auto
    then have "valid (bufs ?t ! c)" "valid (bufs ?t ! b)" "blockno (bufs ?t ! c) = blockno (bufs ?t ! b)"
      using c b(2,4,6) len by simp_all
    then have "c = b" using cache_ok_unique [OF b(9) c(1) b(2)] by blast
    with n c show False by auto
  qed
  have "held dev ?t P (insert b H)"
    unfolding held_def
  proof (intro conjI allI impI ballI)
    show "cache_ok dev ?t (insert b H)" by (rule b(9))
    show "finite P" by (rule heldD(2) [OF h])
    fix c :: nat assume c: "c < 30"
    show "refcnt (bufs ?t ! c) = (if pins P (bufs ?t ! c) then 1 else 0) + (if c \<in> insert b H then 1 else 0)"
    proof (cases "c = b")
      case True
      show ?thesis
      proof (cases "valid (bufs s ! b) \<and> blockno (bufs s ! b) = bno")
        case hit: True
        then have "pins P x = pins P (bufs s ! b)" using b(4,6) by (simp add: pins_def)
        with hit True len b(2,3,7) heldD(3) [OF h b(2)] show ?thesis by auto
      next
        case False
        with np True len b(2,7) show ?thesis by auto
      qed
    next
      case False
      with c len heldD(3) [OF h c] show ?thesis by auto
    qed
  next
    fix p assume "p \<in> P"
    then obtain c where c: "c < 30" "valid (bufs s ! c)" "blockno (bufs s ! c) = p" using heldD(4) [OF h] by blast
    show "\<exists>c<30. valid (bufs ?t ! c) \<and> blockno (bufs ?t ! c) = p"
    proof (cases "c = b")
      case True
      have "pins P (bufs s ! b)" using c True \<open>p \<in> P\<close> by (simp add: pins_def)
      then have "blockno (bufs s ! b) = bno" using np by blast
      then show ?thesis using True c b(2,4,6) len by (intro exI [of _ b]) simp
    next
      case False
      then show ?thesis using c by (intro exI [of _ c]) simp
    qed
  qed
  moreover have "bufs ?t ! c = bufs s ! c" if "c \<in> H" for c using that b(3) by (cases "c = b") simp_all
  ultimately show thesis using b len by (intro that [of b ?t]) simp_all
qed

text \<open>The operations on held buffers keep which block each buffer holds.\<close>

lemma heldI:
  assumes h: "held dev s P H" and ok: "cache_ok dev t H'" and P: "P' \<subseteq> P"
    and same: "\<And>c. c < 30 \<Longrightarrow> blockno (bufs t ! c) = blockno (bufs s ! c) \<and> valid (bufs t ! c) = valid (bufs s ! c)"
    and r: "\<And>c. c < 30 \<Longrightarrow>
      refcnt (bufs t ! c) = (if pins P' (bufs s ! c) then 1 else 0) + (if c \<in> H' then 1 else 0)"
  shows "held dev t P' H'"
proof -
  have "pins P' (bufs t ! c) = pins P' (bufs s ! c)" if "c < 30" for c
    using same [OF that] by (simp add: pins_def)
  moreover have "\<exists>c<30. valid (bufs t ! c) \<and> blockno (bufs t ! c) = b" if b: "b \<in> P'" for b
  proof -
    obtain c where "c < 30" "valid (bufs s ! c)" "blockno (bufs s ! c) = b" using heldD(4) [OF h] b P by blast
    with same show ?thesis by auto
  qed
  ultimately show ?thesis using ok r finite_subset [OF P heldD(2) [OF h]] by (simp add: held_def)
qed

lemma held_set_data:
  fixes d :: block
  assumes h: "held dev s P H" and b: "b \<in> H"
  defines "t \<equiv> upd_buf b (\<lambda>x. x\<lparr>bdata := d\<rparr>) s"
  shows "held dev t P H" "content dev t = (content dev s)(blockno (bufs s ! b) := d)"
    "bufs t = (bufs s)[b := (bufs s ! b)\<lparr>bdata := d\<rparr>]" "t = s\<lparr>bufs := bufs t\<rparr>"
proof -
  note ok = set_data_spec [OF heldD(1) [OF h] b, of d, folded t_def]
  show bt: "bufs t = (bufs s)[b := (bufs s ! b)\<lparr>bdata := d\<rparr>]" by (simp add: t_def upd_buf_def)
  show "t = s\<lparr>bufs := bufs t\<rparr>" by (simp add: t_def upd_buf_def)
  show "content dev t = (content dev s)(blockno (bufs s ! b) := d)" by (rule ok(2))
  show "held dev t P H"
    by (rule heldI [OF h ok(1) order_refl])
      (use held_buffer(3) [OF h b] heldD(3) [OF h] in \<open>auto simp: bt nth_list_update\<close>)
qed

lemma held_bwrite:
  assumes h: "held dev s P H" and b: "b \<in> H"
  obtains t where "bwrite b s = Done () t" "held dev t P H" "content dev t = content dev s"
    "disk t = (disk s)(blockno (bufs s ! b) := bdata (bufs s ! b))" "bufs t = bufs s"
    "writes t = writes s @ [(blockno (bufs s ! b), bdata (bufs s ! b))]"
    "t = s\<lparr>disk := disk t, writes := writes t\<rparr>"
proof -
  note w = bwrite_spec [OF heldD(1) [OF h] b]
  have "held dev (disk_rw b True s) P H"
    by (rule heldI [OF h w(2) order_refl]) (use heldD(3) [OF h] in \<open>auto simp: w(5)\<close>)
  moreover have "disk_rw b True s = s\<lparr>disk := disk (disk_rw b True s), writes := writes (disk_rw b True s)\<rparr>"
    by (simp add: disk_rw_def)
  ultimately show thesis by (rule that [OF w(1) _ w(3-6)])
qed

lemma held_brelse:
  assumes h: "held dev s P H" and b: "b \<in> H"
    and clean: "blockno (bufs s ! b) \<in> P \<or> bdata (bufs s ! b) = disk s (blockno (bufs s ! b))"
  obtains t where "brelse b s = Done () t" "held dev t P (H - {b})" "content dev t = content dev s"
    "disk t = disk s" "writes t = writes s" "t = s\<lparr>bufs := bufs t, procs := procs t\<rparr>"
    "\<And>c. c < 30 \<Longrightarrow> blockno (bufs t ! c) = blockno (bufs s ! c) \<and> bdata (bufs t ! c) = bdata (bufs s ! c)"
proof -
  note r = heldD(3) [OF h held_buffer(1) [OF h b]]
  have "refcnt (bufs s ! b) = 1 \<longrightarrow> bdata (bufs s ! b) = disk s (blockno (bufs s ! b))"
    using clean r b held_buffer(2) [OF h b] by (auto simp: pins_def)
  from brelse_spec [OF heldD(1) [OF h] b this] obtain t where
    t: "brelse b s = Done () t" "cache_ok dev t (H - {b})" "content dev t = content dev s"
    "disk t = disk s" "writes t = writes s" "t = s\<lparr>bufs := bufs t, procs := procs t\<rparr>"
    "\<And>c. c < 30 \<Longrightarrow> blockno (bufs t ! c) = blockno (bufs s ! c) \<and> valid (bufs t ! c) = valid (bufs s ! c) \<and>
       bdata (bufs t ! c) = bdata (bufs s ! c) \<and>
       refcnt (bufs t ! c) = (if c = b then refcnt (bufs s ! b) - 1 else refcnt (bufs s ! c))" by blast
  have "held dev t P (H - {b})"
    by (rule heldI [OF h t(2) order_refl]) (use t(7) heldD(3) [OF h] b in \<open>auto\<close>)
  then show thesis using t(7) by (intro that [OF t(1) _ t(3-6)]) blast+
qed

lemma held_bunpin:
  assumes h: "held dev s P H" and b: "b \<in> H" "blockno (bufs s ! b) \<in> P"
  shows "held dev (bunpin b s) (P - {blockno (bufs s ! b)}) H" "content dev (bunpin b s) = content dev s"
    "bufs (bunpin b s) = (bufs s)[b := (bufs s ! b)\<lparr>refcnt := refcnt (bufs s ! b) - 1\<rparr>]"
    "bunpin b s = s\<lparr>bufs := bufs (bunpin b s)\<rparr>"
proof -
  note hb = held_buffer [OF h b(1)]
  have r: "refcnt (bufs s ! b) - 1 = 1" using heldD(3) [OF h hb(1)] b hb(2) by (simp add: pins_def)
  have u: "bunpin b s = upd_buf b (\<lambda>x. x\<lparr>refcnt := 1\<rparr>) s" using r by (simp add: bunpin_def upd_buf_def)
  note ok = refcnt_spec [OF heldD(1) [OF h] hb(1,2), of 1, simplified, folded u]
  show "content dev (bunpin b s) = content dev s" by (rule ok(2))
  show bt: "bufs (bunpin b s) = (bufs s)[b := (bufs s ! b)\<lparr>refcnt := refcnt (bufs s ! b) - 1\<rparr>]"
    "bunpin b s = s\<lparr>bufs := bufs (bunpin b s)\<rparr>"
    by (simp_all add: bunpin_def upd_buf_def)
  have other: "pins (P - {blockno (bufs s ! b)}) (bufs s ! c) = pins P (bufs s ! c)" if "c < 30" "c \<noteq> b" for c
    using held_unique [OF h that(1) hb(1) _ hb(2)] that(2) by (auto simp: pins_def)
  show "held dev (bunpin b s) (P - {blockno (bufs s ! b)}) H"
  proof (rule heldI [OF h ok(1)])
    fix c :: nat assume c: "c < 30"
    show "blockno (bufs (bunpin b s) ! c) = blockno (bufs s ! c) \<and> valid (bufs (bunpin b s) ! c) = valid (bufs s ! c)"
      using hb(3) by (simp add: bt(1) nth_list_update)
    show "refcnt (bufs (bunpin b s) ! c) =
        (if pins (P - {blockno (bufs s ! b)}) (bufs s ! c) then 1 else 0) + (if c \<in> H then 1 else 0)"
    proof (cases "c = b")
      case True
      then show ?thesis using hb(3) b(1) r by (simp add: bt(1) pins_def)
    next
      case False
      then show ?thesis using heldD(3) [OF h c] by (simp add: bt(1) other [OF c False])
    qed
  qed auto
qed

lemma held_bpin:
  assumes h: "held dev s P H" and b: "b \<in> H" "blockno (bufs s ! b) \<notin> P"
  shows "held dev (bpin b s) (insert (blockno (bufs s ! b)) P) H" "content dev (bpin b s) = content dev s"
    "bufs (bpin b s) = (bufs s)[b := (bufs s ! b)\<lparr>refcnt := refcnt (bufs s ! b) + 1\<rparr>]"
    "bpin b s = s\<lparr>bufs := bufs (bpin b s)\<rparr>"
proof -
  let ?P = "insert (blockno (bufs s ! b)) P"
  note hb = held_buffer [OF h b(1)]
  have r: "refcnt (bufs s ! b) + 1 = 2" using heldD(3) [OF h hb(1)] b by (simp add: pins_def)
  have u: "bpin b s = upd_buf b (\<lambda>x. x\<lparr>refcnt := 2\<rparr>) s" using r by (simp add: bpin_def upd_buf_def)
  note ok = refcnt_spec [OF heldD(1) [OF h] hb(1,2), of 2, simplified, folded u]
  show "content dev (bpin b s) = content dev s" by (rule ok(2))
  show bt: "bufs (bpin b s) = (bufs s)[b := (bufs s ! b)\<lparr>refcnt := refcnt (bufs s ! b) + 1\<rparr>]"
    "bpin b s = s\<lparr>bufs := bufs (bpin b s)\<rparr>"
    by (simp_all add: bpin_def upd_buf_def)
  have other: "pins ?P (bufs s ! c) = pins P (bufs s ! c)" if "c < 30" "c \<noteq> b" for c
    using held_unique [OF h that(1) hb(1) _ hb(2)] that(2) by (auto simp: pins_def)
  have same: "blockno (bufs (bpin b s) ! c) = blockno (bufs s ! c) \<and> valid (bufs (bpin b s) ! c) = valid (bufs s ! c)" for c
    using hb(3) by (simp add: bt(1) nth_list_update)
  have "refcnt (bufs (bpin b s) ! c) = (if pins ?P (bufs (bpin b s) ! c) then 1 else 0) + (if c \<in> H then 1 else 0)"
    if c: "c < 30" for c
  proof (cases "c = b")
    case True
    then show ?thesis using hb(2,3) b(1) r by (simp add: bt(1) pins_def)
  next
    case False
    then show ?thesis using heldD(3) [OF h c] by (simp add: bt(1) other [OF c False])
  qed
  moreover have "\<exists>c<30. valid (bufs (bpin b s) ! c) \<and> blockno (bufs (bpin b s) ! c) = p" if "p \<in> ?P" for p
    using that heldD(4) [OF h, of p] hb(1,2) same by auto
  ultimately show "held dev (bpin b s) ?P H" using ok(1) heldD(2) [OF h] by (simp add: held_def)
qed

text \<open>A cache just set up holds and pins nothing.\<close>

lemma held_fresh:
  assumes "cache_ok dev s {}" "\<And>b. b < 30 \<Longrightarrow> refcnt (bufs s ! b) = 0"
  shows "held dev s {} {}"
  using assms by (simp add: held_def pins_def)

end
