(* ===== verification/Log.thy ===== *)
theory Log
  imports Cache
begin

text \<open>
  \<^verbatim>\<open>kernel/log.c\<close>: the redo log of the file system. The in-memory header is \<open>lh_n\<close> and
  \<open>lh_block\<close>; on disk it is the block \<^verbatim>\<open>log.start\<close>, a little-endian count followed by block
  numbers, and the logged blocks follow it. Sections under \<^verbatim>\<open>log.lock\<close> are single steps.

  The main result is crash safety: whatever prefix of the disk writes of a commit reaches
  the disk before a crash, recovery brings every home block either to its contents before
  the transaction or to its contents after it, the same choice for all blocks.
\<close>

section \<open>State\<close>

abbreviation (input) MAXOPBLOCKS :: int where "MAXOPBLOCKS \<equiv> 10"
abbreviation (input) LOGSIZE :: int where "LOGSIZE \<equiv> 30"

record logst = bio +
  log_start :: uint
  log_size :: int
  log_outstanding :: int
  log_committing :: bool
  log_dev :: uint
  lh_n :: int
  lh_block :: "uint list"

record superblock =
  sb_magic :: uint
  sb_size :: uint
  sb_nblocks :: uint
  sb_ninodes :: uint
  sb_nlog :: uint
  sb_logstart :: uint
  sb_inodestart :: uint
  sb_bmapstart :: uint

section \<open>Transferring the header\<close>

text \<open>The loop of \<^verbatim>\<open>read_head\<close> over \<^verbatim>\<open>lh->block[i]\<close>.\<close>

fun read_head_loop :: "block \<Rightarrow> nat \<Rightarrow> nat \<Rightarrow> uint list \<Rightarrow> uint list" where
  "read_head_loop d i 0 bl = bl"
| "read_head_loop d i (Suc n) bl = read_head_loop d (Suc i) n (bl[i := get32 d (4 + 4 * i)])"

definition read_head :: "'z logst_scheme \<Rightarrow> (unit, 'z logst_scheme) outcome" where
  "read_head s =
     kbind (bread (log_dev s) (log_start s) s) (\<lambda>b s.
       let d = bdata (bufs s ! b);
           s = s\<lparr>lh_n := sint (get32 d 0)\<rparr>;
           s = s\<lparr>lh_block := read_head_loop d 0 (nat (lh_n s)) (lh_block s)\<rparr>
       in brelse b s)"

fun write_head_loop :: "uint list \<Rightarrow> nat \<Rightarrow> nat \<Rightarrow> block \<Rightarrow> block" where
  "write_head_loop bl i 0 d = d"
| "write_head_loop bl i (Suc n) d = write_head_loop bl (Suc i) n (put32 d (4 + 4 * i) (bl ! i))"

definition write_head :: "'z logst_scheme \<Rightarrow> (unit, 'z logst_scheme) outcome" where
  "write_head s =
     kbind (bread (log_dev s) (log_start s) s) (\<lambda>b s.
       let s = upd_buf b (\<lambda>x. x\<lparr>bdata := write_head_loop (lh_block s) 0 (nat (lh_n s))
                 (put32 (bdata x) 0 (word_of_int (lh_n s)))\<rparr>) s
       in kbind (bwrite b s) (\<lambda>_ s. brelse b s))"

section \<open>Copying blocks\<close>

text \<open>The last argument but one is the number of blocks left, \<^verbatim>\<open>log.lh.n - tail\<close>.\<close>

fun install_trans_loop :: "bool \<Rightarrow> nat \<Rightarrow> nat \<Rightarrow> 'z logst_scheme \<Rightarrow> (unit, 'z logst_scheme) outcome" where
  "install_trans_loop recovering tail 0 s = Done () s"
| "install_trans_loop recovering tail (Suc n) s =
     kbind (bread (log_dev s) (log_start s + of_nat tail + 1) s) (\<lambda>lbuf s.
     kbind (bread (log_dev s) (lh_block s ! tail) s) (\<lambda>dbuf s.
     let s = upd_buf dbuf (\<lambda>x. x\<lparr>bdata := bdata (bufs s ! lbuf)\<rparr>) s
     in kbind (bwrite dbuf s) (\<lambda>_ s.
        let s = (if \<not> recovering then bunpin dbuf s else s)
        in kbind (brelse lbuf s) (\<lambda>_ s.
           kbind (brelse dbuf s) (\<lambda>_ s.
             install_trans_loop recovering (Suc tail) n s)))))"

definition install_trans :: "bool \<Rightarrow> 'z logst_scheme \<Rightarrow> (unit, 'z logst_scheme) outcome" where
  "install_trans recovering s = install_trans_loop recovering 0 (nat (lh_n s)) s"

fun write_log_loop :: "nat \<Rightarrow> nat \<Rightarrow> 'z logst_scheme \<Rightarrow> (unit, 'z logst_scheme) outcome" where
  "write_log_loop tail 0 s = Done () s"
| "write_log_loop tail (Suc n) s =
     kbind (bread (log_dev s) (log_start s + of_nat tail + 1) s) (\<lambda>to s.
     kbind (bread (log_dev s) (lh_block s ! tail) s) (\<lambda>from s.
     let s = upd_buf to (\<lambda>x. x\<lparr>bdata := bdata (bufs s ! from)\<rparr>) s
     in kbind (bwrite to s) (\<lambda>_ s.
        kbind (brelse from s) (\<lambda>_ s.
          kbind (brelse to s) (\<lambda>_ s.
            write_log_loop (Suc tail) n s)))))"

definition write_log :: "'z logst_scheme \<Rightarrow> (unit, 'z logst_scheme) outcome" where
  "write_log s = write_log_loop 0 (nat (lh_n s)) s"

section \<open>Recovery and commit\<close>

definition recover_from_log :: "'z logst_scheme \<Rightarrow> (unit, 'z logst_scheme) outcome" where
  "recover_from_log s =
     kbind (read_head s) (\<lambda>_ s.
     kbind (install_trans True s) (\<lambda>_ s.
     write_head (s\<lparr>lh_n := 0\<rparr>)))"

text \<open>The size of \<^verbatim>\<open>struct logheader\<close>, 124 bytes, is less than a block: the test never panics.\<close>

definition initlog :: "uint \<Rightarrow> superblock \<Rightarrow> 'z logst_scheme \<Rightarrow> (unit, 'z logst_scheme) outcome" where
  "initlog dev sb s =
     (if 4 * (1 + nat LOGSIZE) \<ge> BSIZE then Panic ''initlog: too big logheader''
      else recover_from_log (s\<lparr>log_start := sb_logstart sb, log_size := sint (sb_nlog sb), log_dev := dev\<rparr>))"

definition commit :: "'z logst_scheme \<Rightarrow> (unit, 'z logst_scheme) outcome" where
  "commit s =
     (if lh_n s > 0
      then kbind (write_log s) (\<lambda>_ s.
           kbind (write_head s) (\<lambda>_ s.
           kbind (install_trans False s) (\<lambda>_ s.
           write_head (s\<lparr>lh_n := 0\<rparr>))))
      else Done () s)"

section \<open>Transactions\<close>

definition begin_op :: "'z logst_scheme \<Rightarrow> (unit, 'z logst_scheme) outcome" where
  "begin_op s =
     (if log_committing s then ksleep ChanLog s
      else if lh_n s + (log_outstanding s + 1) * MAXOPBLOCKS > LOGSIZE then ksleep ChanLog s
      else Done () (s\<lparr>log_outstanding := log_outstanding s + 1\<rparr>))"

definition end_op :: "'z logst_scheme \<Rightarrow> (unit, 'z logst_scheme) outcome" where
  "end_op s =
     (let s = s\<lparr>log_outstanding := log_outstanding s - 1\<rparr>
      in if log_committing s then Panic ''log.committing''
         else if log_outstanding s = 0
         then kbind (commit (s\<lparr>log_committing := True\<rparr>)) (\<lambda>_ s.
                Done () (wakeup ChanLog (s\<lparr>log_committing := False\<rparr>)))
         else Done () (wakeup ChanLog s))"

text \<open>The search for \<^verbatim>\<open>b->blockno\<close> among the first \<^verbatim>\<open>n\<close> logged blocks.\<close>

fun log_find :: "uint list \<Rightarrow> uint \<Rightarrow> nat \<Rightarrow> nat \<Rightarrow> nat" where
  "log_find bl bno i 0 = i"
| "log_find bl bno i (Suc n) = (if bl ! i = bno then i else log_find bl bno (Suc i) n)"

definition log_write :: "nat \<Rightarrow> 'z logst_scheme \<Rightarrow> (unit, 'z logst_scheme) outcome" where
  "log_write b s =
     (if lh_n s \<ge> LOGSIZE \<or> lh_n s \<ge> log_size s - 1 then Panic ''too big a transaction''
      else if log_outstanding s < 1 then Panic ''log_write outside of trans''
      else let bno = blockno (bufs s ! b);
               i = log_find (lh_block s) bno 0 (nat (lh_n s));
               s = s\<lparr>lh_block := (lh_block s)[i := bno]\<rparr>
           in if int i = lh_n s
              then Done () ((bpin b s)\<lparr>lh_n := lh_n s + 1\<rparr>)
              else Done () s)"

section \<open>A concrete state\<close>

text \<open>The log of the disk image that \<^verbatim>\<open>mkfs\<close> writes: 30 blocks from block 2, nothing logged.\<close>

definition log_on :: "bio \<Rightarrow> logst" where
  "log_on s = bio.extend s (logst.fields 2 30 0 False 1 0 (replicate 30 0))"

lemma log_on_simps [simp]:
  "mem (log_on s) = mem s" "kend (log_on s) = kend s" "freelist (log_on s) = freelist s"
  "superpages (log_on s) = superpages s" "nfree (log_on s) = nfree s"
  "procs (log_on s) = procs s" "curproc (log_on s) = curproc s" "initproc (log_on s) = initproc s"
  "nextpid (log_on s) = nextpid s" "ticks (log_on s) = ticks s"
  "bufs (log_on s) = bufs s" "disk (log_on s) = disk s" "writes (log_on s) = writes s"
  "log_start (log_on s) = 2" "log_size (log_on s) = 30" "log_outstanding (log_on s) = 0" "\<not> log_committing (log_on s)"
  "log_dev (log_on s) = 1" "lh_n (log_on s) = 0" "lh_block (log_on s) = replicate 30 0"
  by (simp_all add: log_on_def bio.defs logst.defs)

section \<open>The header block\<close>

lemma read_head_loop_length [simp]: "length (read_head_loop d i n bl) = length bl"
  by (induction d i n bl rule: read_head_loop.induct) simp_all

lemma read_head_loop_nth:
  "i + n \<le> length bl \<Longrightarrow> k < length bl \<Longrightarrow>
    read_head_loop d i n bl ! k = (if i \<le> k \<and> k < i + n then get32 d (4 + 4 * k) else bl ! k)"
  by (induction d i n bl rule: read_head_loop.induct) (auto simp: nth_list_update)

lemma write_head_loop_length [simp]: "length (write_head_loop bl i n d) = length d"
  by (induction bl i n d rule: write_head_loop.induct) simp_all

lemma write_head_loop_before: "j + 4 \<le> 4 + 4 * i \<Longrightarrow> get32 (write_head_loop bl i n d) j = get32 d j"
  by (induction bl i n d rule: write_head_loop.induct) (simp_all add: get32_put32_other)

lemma write_head_loop_get:
  "4 + 4 * (i + n) \<le> length d \<Longrightarrow> i \<le> k \<Longrightarrow> k < i + n \<Longrightarrow>
    get32 (write_head_loop bl i n d) (4 + 4 * k) = bl ! k"
proof (induction bl i n d rule: write_head_loop.induct)
  case (2 bl i n d)
  then show ?case
    by (cases "k = i") (simp_all add: write_head_loop_before get32_put32_same)
qed simp

text \<open>The number of logged blocks and their home blocks, as recovery reads them from a header.\<close>

definition hdr_n :: "block \<Rightarrow> nat" where
  "hdr_n h = nat (sint (get32 h 0))"

definition hdr_home :: "block \<Rightarrow> nat \<Rightarrow> uint" where
  "hdr_home h i = get32 h (4 + 4 * i)"

lemma sint_small: "0 \<le> n \<Longrightarrow> n \<le> 30 \<Longrightarrow> sint (word_of_int n :: uint) = n"
  by (subst sint_sbintrunc') (simp add: signed_take_bit_int_eq_self)

lemma write_head_data:
  fixes bl :: "uint list" and d :: block
  assumes "0 \<le> n" "n \<le> 30" "124 \<le> length d"
  defines "h \<equiv> write_head_loop bl 0 (nat n) (put32 d 0 (word_of_int n))"
  shows "hdr_n h = nat n" "i < nat n \<Longrightarrow> hdr_home h i = bl ! i" "length h = length d"
proof -
  have len: "4 + 4 * nat n \<le> length d" using assms(1-3) by linarith
  have "get32 h 0 = word_of_int n"
    using len by (simp add: h_def write_head_loop_before get32_put32_same)
  then show "hdr_n h = nat n" using sint_small assms(1,2) by (simp add: hdr_n_def)
  show "hdr_home h i = bl ! i" if "i < nat n"
    using write_head_loop_get [of 0 "nat n" "put32 d 0 (word_of_int n)" i bl] len that by (simp add: h_def hdr_home_def)
  show "length h = length d" by (simp add: h_def)
qed

section \<open>Steps of the log\<close>

text \<open>The parts of the state that the copying routines leave alone.\<close>

definition same_log :: "'z logst_scheme \<Rightarrow> 'z logst_scheme \<Rightarrow> bool" where
  "same_log s t \<longleftrightarrow> (\<exists>b p d w. t = s\<lparr>bufs := b, procs := p, disk := d, writes := w\<rparr>)"

lemma same_logD:
  assumes "same_log s t"
  shows "log_dev t = log_dev s" "log_start t = log_start s" "lh_n t = lh_n s" "lh_block t = lh_block s"
    "curproc t = curproc s" "log_size t = log_size s"
    "log_outstanding t = log_outstanding s" "log_committing t = log_committing s"
  using assms by (auto simp: same_log_def)

lemma same_log_refl: "same_log s s"
  unfolding same_log_def by (rule exI [of _ "bufs s"], rule exI [of _ "procs s"], rule exI [of _ "disk s"], rule exI [of _ "writes s"]) simp

lemma same_log_trans: "same_log s t \<Longrightarrow> same_log t u \<Longrightarrow> same_log s u"
  unfolding same_log_def by (elim exE, simp) (intro exI, rule refl)

lemma same_log_bufs: "t = s\<lparr>bufs := b\<rparr> \<Longrightarrow> same_log s t"
  unfolding same_log_def by (rule exI [of _ "b"], rule exI [of _ "procs s"], rule exI [of _ "disk s"], rule exI [of _ "writes s"]) simp

lemma same_log_procs: "t = s\<lparr>bufs := b, procs := p\<rparr> \<Longrightarrow> same_log s t"
  unfolding same_log_def by (rule exI [of _ "b"], rule exI [of _ "p"], rule exI [of _ "disk s"], rule exI [of _ "writes s"]) simp

lemma same_log_disk: "t = s\<lparr>disk := d, writes := w\<rparr> \<Longrightarrow> same_log s t"
  unfolding same_log_def by (rule exI [of _ "bufs s"], rule exI [of _ "procs s"], rule exI [of _ "d"], rule exI [of _ "w"]) simp

lemma same_log_lh: "same_log s t \<Longrightarrow> same_log (s\<lparr>lh_n := n\<rparr>) (t\<lparr>lh_n := n\<rparr>)"
  unfolding same_log_def
proof (elim exE)
  fix b p d w assume "t = s\<lparr>bufs := b, procs := p, disk := d, writes := w\<rparr>"
  then have "t\<lparr>lh_n := n\<rparr> = s\<lparr>lh_n := n, bufs := b, procs := p, disk := d, writes := w\<rparr>" by simp
  then show "\<exists>b p d w. t\<lparr>lh_n := n\<rparr> = s\<lparr>lh_n := n, bufs := b, procs := p, disk := d, writes := w\<rparr>" by blast
qed

lemma held_lh [simp]:
  "held dev (s\<lparr>lh_n := n\<rparr>) P H = held dev s P H" "held dev (s\<lparr>lh_block := bl\<rparr>) P H = held dev s P H"
  "content dev (s\<lparr>lh_n := n\<rparr>) = content dev s" "content dev (s\<lparr>lh_block := bl\<rparr>) = content dev s"
  by (simp_all add: held_def cache_ok_def myproc_def content_def fun_eq_iff split: option.split)

text \<open>One iteration of \<^verbatim>\<open>write_log\<close>, of \<^verbatim>\<open>install_trans\<close>, and one run of \<^verbatim>\<open>write_head\<close>.\<close>

lemma write_log_step:
  fixes s :: "'z logst_scheme" and tail :: nat
  defines "dev \<equiv> log_dev s" and "to \<equiv> log_start s + of_nat tail + 1" and "src \<equiv> lh_block s ! tail"
  assumes h: "held dev s P {}" and P: "src \<in> P" "to \<notin> P" "card P < 30"
  obtains t where "write_log_loop tail (Suc n) s = write_log_loop (Suc tail) n t" "held dev t P {}" "same_log s t"
    "content dev t = (content dev s)(to := content dev s src)" "disk t = (disk s)(to := content dev s src)"
    "writes t = writes s @ [(to, content dev s src)]"
proof -
  from P have ne: "to \<noteq> src" by auto
  obtain b1 s1 where 1: "bread dev to s = Done b1 s1" "b1 < 30" "held dev s1 P {b1}"
    "blockno (bufs s1 ! b1) = to" "content dev s1 = content dev s" "s1 = s\<lparr>bufs := bufs s1\<rparr>"
    by (rule held_bread [OF h, of to]) (use P(3) in auto)
  obtain b2 s2 where 2: "bread dev src s1 = Done b2 s2" "b2 < 30" "b2 \<noteq> b1" "held dev s2 P {b2, b1}"
    "blockno (bufs s2 ! b2) = src" "bdata (bufs s2 ! b2) = content dev s src" "content dev s2 = content dev s"
    "bufs s2 ! b1 = bufs s1 ! b1" "s2 = s1\<lparr>bufs := bufs s2\<rparr>"
    by (rule held_bread [OF 1(3), of src]) (use P(1) ne 1(4,5) in auto)
  let ?d = "content dev s src"
  define s3 where "s3 = upd_buf b1 (\<lambda>x. x\<lparr>bdata := bdata (bufs s2 ! b2)\<rparr>) s2"
  note 3 = held_set_data [OF 2(4), of b1 ?d, folded 2(6), folded s3_def, unfolded 2(6), simplified]
  have l: "b1 < length (bufs s2)" using held_buffer(3) [OF 2(4)] by simp
  obtain s4 where 4: "bwrite b1 s3 = Done () s4" "held dev s4 P {b2, b1}" "content dev s4 = content dev s3"
    "disk s4 = (disk s3)(to := ?d)" "bufs s4 = bufs s3" "writes s4 = writes s3 @ [(to, ?d)]"
    "s4 = s3\<lparr>disk := disk s4, writes := writes s4\<rparr>"
    by (rule held_bwrite [OF 3(1), of b1]) (use l in \<open>auto simp: 3(3) 2(8) 1(4)\<close>)
  have b4: "blockno (bufs s4 ! b2) = src" "blockno (bufs s4 ! b1) = to" "bdata (bufs s4 ! b1) = ?d"
    using 2(3,5,8) 1(4) l by (simp_all add: 4(5) 3(3))
  obtain s5 where 5: "brelse b2 s4 = Done () s5" "held dev s5 P {b1}" "content dev s5 = content dev s4"
    "disk s5 = disk s4" "writes s5 = writes s4" "s5 = s4\<lparr>bufs := bufs s5, procs := procs s5\<rparr>"
    "blockno (bufs s5 ! b1) = to" "bdata (bufs s5 ! b1) = ?d"
    by (rule held_brelse [OF 4(2), of b2]) (use P(1) b4 1(2) 2(3) in \<open>auto simp: insert_Diff_if\<close>)
  obtain s6 where 6: "brelse b1 s5 = Done () s6" "held dev s6 P {}" "content dev s6 = content dev s5"
    "disk s6 = disk s5" "writes s6 = writes s5" "s6 = s5\<lparr>bufs := bufs s6, procs := procs s6\<rparr>"
    by (rule held_brelse [OF 5(2), of b1]) (auto simp: 5(4,7,8) 4(4))
  note sl = same_log_bufs [OF 1(6)] same_log_bufs [OF 2(9)] same_log_bufs [OF 3(4)] same_log_disk [OF 4(7)]
    same_log_procs [OF 5(6)] same_log_procs [OF 6(6)]
  note sl6 = same_log_trans [OF sl(1) same_log_trans [OF sl(2) same_log_trans [OF sl(3)
    same_log_trans [OF sl(4) same_log_trans [OF sl(5,6)]]]]]
  have d3: "disk s3 = disk s" "writes s3 = writes s"
    by (subst 3(4), subst 2(9), subst 1(6), simp)+
  have "write_log_loop tail (Suc n) s = write_log_loop (Suc tail) n s6"
    using 1(1) 2(1) 4(1) 5(1) 6(1) same_logD(1,4) [OF sl(1)]
    by (simp add: dev_def to_def src_def flip: s3_def)
  then show thesis
    by (rule that [OF _ 6(2) sl6]) (simp_all add: 6(3-5) 5(3-5) 4(3,4,6) 3(2) 2(7,8) 1(4) d3)
qed

lemma install_trans_step:
  fixes s :: "'z logst_scheme" and tail :: nat
  defines "dev \<equiv> log_dev s" and "slot \<equiv> log_start s + of_nat tail + 1" and "home \<equiv> lh_block s ! tail"
  assumes h: "held dev s P {}" and P: "slot \<notin> P" "slot \<noteq> home"
    and mode: "if recovering then P = {} else home \<in> P \<and> card P < 30"
  obtains t where "install_trans_loop recovering tail (Suc n) s = install_trans_loop recovering (Suc tail) n t"
    "held dev t (P - {home}) {}" "same_log s t"
    "content dev t = (content dev s)(home := disk s slot)" "disk t = (disk s)(home := disk s slot)"
    "writes t = writes s @ [(home, disk s slot)]"
proof -
  let ?d = "disk s slot" and ?P = "P - {home}"
  have cl: "content dev s slot = ?d" using held_clean [OF h P(1)] by simp
  have card: "card P + card ({} :: nat set) < 30" using mode by (simp split: if_splits)
  obtain b1 s1 where 1: "bread dev slot s = Done b1 s1" "b1 < 30" "held dev s1 P {b1}"
    "blockno (bufs s1 ! b1) = slot" "bdata (bufs s1 ! b1) = ?d" "content dev s1 = content dev s" "s1 = s\<lparr>bufs := bufs s1\<rparr>"
    by (rule held_bread [OF h, of slot]) (use card cl in auto)
  have room: "home \<in> P \<or> card P + card {b1} < 30" using mode by (simp split: if_splits)
  obtain b2 s2 where 2: "bread dev home s1 = Done b2 s2" "b2 < 30" "b2 \<noteq> b1" "held dev s2 P {b2, b1}"
    "blockno (bufs s2 ! b2) = home" "content dev s2 = content dev s"
    "bufs s2 ! b1 = bufs s1 ! b1" "s2 = s1\<lparr>bufs := bufs s2\<rparr>"
    by (rule held_bread [OF 1(3), of home]) (use room P(2) 1(4,6) in auto)
  have d2: "bdata (bufs s2 ! b1) = ?d" using 2(7) 1(5) by simp
  define s3 where "s3 = upd_buf b2 (\<lambda>x. x\<lparr>bdata := bdata (bufs s2 ! b1)\<rparr>) s2"
  note 3 = held_set_data [OF 2(4), of b2 ?d, folded d2, folded s3_def, unfolded d2, simplified]
  have l: "b2 < length (bufs s2)" using held_buffer(3) [OF 2(4)] by simp
  obtain s4 where 4: "bwrite b2 s3 = Done () s4" "held dev s4 P {b2, b1}" "content dev s4 = content dev s3"
    "disk s4 = (disk s3)(home := ?d)" "bufs s4 = bufs s3" "writes s4 = writes s3 @ [(home, ?d)]"
    "s4 = s3\<lparr>disk := disk s4, writes := writes s4\<rparr>"
    by (rule held_bwrite [OF 3(1), of b2]) (use l in \<open>auto simp: 3(3) 2(5)\<close>)
  have b4: "blockno (bufs s4 ! b2) = home" "blockno (bufs s4 ! b1) = slot" "bdata (bufs s4 ! b1) = ?d" "bdata (bufs s4 ! b2) = ?d"
    using 2(3,5,7) 1(4,5) l by (simp_all add: 4(5) 3(3))
  define s4u where "s4u = (if \<not> recovering then bunpin b2 s4 else s4)"
  have u4: "held dev s4u ?P {b2, b1}" "content dev s4u = content dev s4" "\<exists>b. s4u = s4\<lparr>bufs := b\<rparr>"
    "disk s4u = disk s4" "writes s4u = writes s4"
    "\<And>c. blockno (bufs s4u ! c) = blockno (bufs s4 ! c) \<and> bdata (bufs s4u ! c) = bdata (bufs s4 ! c)"
  proof -
    show "held dev s4u ?P {b2, b1}" "content dev s4u = content dev s4"
      using 4(2) mode held_bunpin(1,2) [OF 4(2), of b2] by (auto simp: s4u_def b4 split: if_splits)
    show "\<exists>b. s4u = s4\<lparr>bufs := b\<rparr>"
      by (rule exI [of _ "bufs s4u"]) (simp add: s4u_def bunpin_def upd_buf_def)
    show "disk s4u = disk s4" "writes s4u = writes s4" by (simp_all add: s4u_def bunpin_def upd_buf_def)
    show "blockno (bufs s4u ! c) = blockno (bufs s4 ! c) \<and> bdata (bufs s4u ! c) = bdata (bufs s4 ! c)" for c
      using l by (simp add: s4u_def bunpin_def upd_buf_def nth_list_update 4(5) 3(3))
  qed
  have d3: "disk s3 = disk s" "writes s3 = writes s"
    by (subst 3(4), subst 2(8), subst 1(7), simp)+
  obtain s5 where 5: "brelse b1 s4u = Done () s5" "held dev s5 ?P {b2}" "content dev s5 = content dev s4u"
    "disk s5 = disk s4u" "writes s5 = writes s4u" "s5 = s4u\<lparr>bufs := bufs s5, procs := procs s5\<rparr>"
    "blockno (bufs s5 ! b2) = home" "bdata (bufs s5 ! b2) = ?d"
    by (rule held_brelse [OF u4(1), of b1])
      (use b4 P(2) 2(2,3) in \<open>auto simp: insert_Diff_if u4(4,6) 4(4) d3\<close>)
  obtain s6 where 6: "brelse b2 s5 = Done () s6" "held dev s6 ?P {}" "content dev s6 = content dev s5"
    "disk s6 = disk s5" "writes s6 = writes s5" "s6 = s5\<lparr>bufs := bufs s6, procs := procs s6\<rparr>"
    by (rule held_brelse [OF 5(2), of b2]) (auto simp: 5(4,7,8) u4(4) 4(4))
  obtain bb where bb: "s4u = s4\<lparr>bufs := bb\<rparr>" using u4(3) by blast
  note sl = same_log_bufs [OF 1(7)] same_log_bufs [OF 2(8)] same_log_bufs [OF 3(4)] same_log_disk [OF 4(7)]
    same_log_bufs [OF bb] same_log_procs [OF 5(6)] same_log_procs [OF 6(6)]
  note sl6 = same_log_trans [OF sl(1) same_log_trans [OF sl(2) same_log_trans [OF sl(3)
    same_log_trans [OF sl(4) same_log_trans [OF sl(5) same_log_trans [OF sl(6,7)]]]]]]
  have "install_trans_loop recovering tail (Suc n) s = install_trans_loop recovering (Suc tail) n s6"
    using 1(1) 2(1) 4(1) 5(1) 6(1) same_logD(1,4) [OF sl(1)]
    by (simp add: dev_def slot_def home_def flip: s3_def s4u_def)
  then show thesis
    by (rule that [OF _ 6(2) sl6]) (simp_all add: 6(3-5) 5(3-5) u4(2,4,5) 4(3,4,6) 3(2) 2(5,6) d3)
qed

text \<open>\<^verbatim>\<open>write_head\<close> is the commit point; \<^verbatim>\<open>read_head\<close> reads the header back.\<close>

lemma write_head_spec:
  fixes s :: "'z logst_scheme"
  defines "dev \<equiv> log_dev s" and "start \<equiv> log_start s"
  assumes h: "held dev s P {}" and P: "start \<notin> P" "card P < 30"
    and n: "0 \<le> lh_n s" "lh_n s \<le> 30" and len: "length (disk s start) = BSIZE"
  obtains t hd where "write_head s = Done () t" "held dev t P {}" "same_log s t"
    "hdr_n hd = nat (lh_n s)" "\<And>i. i < nat (lh_n s) \<Longrightarrow> hdr_home hd i = lh_block s ! i" "length hd = BSIZE"
    "content dev t = (content dev s)(start := hd)" "disk t = (disk s)(start := hd)"
    "writes t = writes s @ [(start, hd)]"
proof -
  have cl: "content dev s start = disk s start" using held_clean [OF h P(1)] by simp
  have card: "card P + card ({} :: nat set) < 30" using P(2) by simp
  obtain b s1 where 1: "bread dev start s = Done b s1" "b < 30" "held dev s1 P {b}"
    "blockno (bufs s1 ! b) = start" "bdata (bufs s1 ! b) = disk s start" "content dev s1 = content dev s" "s1 = s\<lparr>bufs := bufs s1\<rparr>"
    by (rule held_bread [OF h, of start]) (use card cl in auto)
  note f1 = same_logD [OF same_log_bufs [OF 1(7)]]
  define hd where "hd = write_head_loop (lh_block s) 0 (nat (lh_n s)) (put32 (disk s start) 0 (word_of_int (lh_n s)))"
  note hd = write_head_data [OF n, where d = "disk s start" and bl = "lh_block s", folded hd_def, unfolded len, simplified]
  define s2 where "s2 = upd_buf b (\<lambda>x. x\<lparr>bdata := write_head_loop (lh_block s1) 0 (nat (lh_n s1))
                 (put32 (bdata x) 0 (word_of_int (lh_n s1)))\<rparr>) s1"
  have s2: "s2 = upd_buf b (\<lambda>x. x\<lparr>bdata := hd\<rparr>) s1"
    by (simp add: s2_def hd_def upd_buf_def 1(5) f1)
  note 2 = held_set_data [OF 1(3), of b hd, folded s2, simplified]
  have l: "b < length (bufs s1)" using held_buffer(3) [OF 1(3)] by simp
  obtain s3 where 3: "bwrite b s2 = Done () s3" "held dev s3 P {b}" "content dev s3 = content dev s2"
    "disk s3 = (disk s2)(start := hd)" "bufs s3 = bufs s2" "writes s3 = writes s2 @ [(start, hd)]"
    "s3 = s2\<lparr>disk := disk s3, writes := writes s3\<rparr>"
    by (rule held_bwrite [OF 2(1), of b]) (use l in \<open>auto simp: 2(3) 1(4)\<close>)
  obtain s4 where 4: "brelse b s3 = Done () s4" "held dev s4 P {}" "content dev s4 = content dev s3"
    "disk s4 = disk s3" "writes s4 = writes s3" "s4 = s3\<lparr>bufs := bufs s4, procs := procs s4\<rparr>"
    by (rule held_brelse [OF 3(2), of b]) (use l in \<open>auto simp: 3(4,5) 2(3) 1(4)\<close>)
  note sl = same_log_trans [OF same_log_bufs [OF 1(7)] same_log_trans [OF same_log_bufs [OF 2(4)]
    same_log_trans [OF same_log_disk [OF 3(7)] same_log_procs [OF 4(6)]]]]
  have d2: "disk s2 = disk s" "writes s2 = writes s" by (subst 2(4), subst 1(7), simp)+
  have "write_head s = Done () s4"
    using 1(1) 3(1) 4(1) by (simp add: write_head_def dev_def start_def Let_def flip: s2_def)
  then show thesis
    by (rule that [OF _ 4(2) sl hd(1)]) (simp_all add: hd(2,3) len 4(3-5) 3(3,4,6) 2(2) 1(4,6) d2)
qed

section \<open>Disk writes\<close>

definition apply_writes :: "(uint \<times> block) list \<Rightarrow> (uint \<Rightarrow> block) \<Rightarrow> uint \<Rightarrow> block" where
  "apply_writes ws d = foldl (\<lambda>d (b, x). d(b := x)) d ws"

lemma apply_writes_simps [simp]:
  "apply_writes [] d = d" "apply_writes (w # ws) d = apply_writes ws (d(fst w := snd w))"
  "apply_writes (us @ ws) d = apply_writes ws (apply_writes us d)"
  by (simp_all add: apply_writes_def case_prod_beta)

lemma apply_writes_other: "b \<notin> fst ` set ws \<Longrightarrow> apply_writes ws d b = d b"
  by (induction ws arbitrary: d) auto

lemma apply_writes_hit:
  assumes "(b, x) \<in> set ws" "\<And>y. (b, y) \<in> set ws \<Longrightarrow> y = x"
  shows "apply_writes ws d b = x"
  using assms
proof (induction ws arbitrary: d)
  case (Cons w ws)
  show ?case
  proof (cases "b \<in> fst ` set ws")
    case True
    then obtain y where "(b, y) \<in> set ws" by force
    then show ?thesis using Cons.IH Cons.prems(2) by auto
  next
    case False
    then have "(b, x) \<notin> set ws" by force
    then have "w = (b, x)" using Cons.prems(1) by simp
    then show ?thesis using apply_writes_other [OF False] by simp
  qed
qed simp

definition log_slot :: "uint \<Rightarrow> nat \<Rightarrow> uint" where
  "log_slot start i = start + of_nat i + 1"

definition log_area :: "uint \<Rightarrow> uint set" where
  "log_area start = insert start (log_slot start ` {..<29})"

lemma unat_small: "i < 31 \<Longrightarrow> unat (of_nat i :: uint) = i"
  by (simp add: unat_of_nat take_bit_nat_eq_self)

lemma log_slot_inj: "i < 30 \<Longrightarrow> j < 30 \<Longrightarrow> log_slot start i = log_slot start j \<longleftrightarrow> i = j"
proof
  assume "i < 30" "j < 30" "log_slot start i = log_slot start j"
  then have "unat (of_nat i :: uint) = unat (of_nat j :: uint)" by (simp add: log_slot_def)
  then show "i = j" using \<open>i < 30\<close> \<open>j < 30\<close> by (simp only: unat_small)
qed simp

lemma log_slot_start: "i < 30 \<Longrightarrow> log_slot start i \<noteq> start"
proof
  assume "i < 30" "log_slot start i = start"
  then have "of_nat (Suc i) = (0 :: uint)" by (simp add: log_slot_def add.assoc add.commute)
  then have "unat (of_nat (Suc i) :: uint) = 0" by (simp only: unat_0)
  then show False using \<open>i < 30\<close> unat_small [of "Suc i"] by (simp only:)
qed

lemma write_log_loop_spec:
  fixes s :: "'z logst_scheme"
  assumes "held (log_dev s) s P {}" "card P < 30" "tail + n \<le> 29"
    "\<And>i. i < 29 \<Longrightarrow> log_slot (log_start s) i \<notin> P"
    "\<And>i. i < tail + n \<Longrightarrow> lh_block s ! i \<in> P"
  defines "ws \<equiv> map (\<lambda>i. (log_slot (log_start s) i, content (log_dev s) s (lh_block s ! i))) [tail..<tail + n]"
  shows "\<exists>t. write_log_loop tail n s = Done () t \<and> held (log_dev s) t P {} \<and> same_log s t \<and>
    writes t = writes s @ ws \<and> disk t = apply_writes ws (disk s) \<and>
    (\<forall>b\<in>P. content (log_dev s) t b = content (log_dev s) s b)"
  unfolding ws_def using assms(1-5)
proof (induction n arbitrary: tail s)
  case 0
  then show ?case using same_log_refl by auto
next
  case (Suc n)
  let ?dev = "log_dev s"
  have to: "log_start s + of_nat tail + 1 \<notin> P" and fm: "lh_block s ! tail \<in> P"
    using Suc.prems(3-5) by (auto simp: log_slot_def)
  obtain t where t: "write_log_loop tail (Suc n) s = write_log_loop (Suc tail) n t" "held ?dev t P {}" "same_log s t"
    "content ?dev t = (content ?dev s)(log_slot (log_start s) tail := content ?dev s (lh_block s ! tail))"
    "disk t = (disk s)(log_slot (log_start s) tail := content ?dev s (lh_block s ! tail))"
    "writes t = writes s @ [(log_slot (log_start s) tail, content ?dev s (lh_block s ! tail))]"
    by (rule write_log_step [OF Suc.prems(1) fm to Suc.prems(2), of n]) (simp add: log_slot_def)
  note f = same_logD [OF t(3)]
  have c: "content ?dev t b = content ?dev s b" if "b \<in> P" for b
    using that to by (auto simp: t(4) log_slot_def)
  note IH = Suc.IH [of t "Suc tail", unfolded f, OF t(2) Suc.prems(2)]
  have m: "map (\<lambda>i. (log_slot (log_start s) i, content ?dev t (lh_block s ! i))) [Suc tail..<Suc tail + n] =
      map (\<lambda>i. (log_slot (log_start s) i, content ?dev s (lh_block s ! i))) [Suc tail..<Suc tail + n]"
    using Suc.prems(5) by (intro map_cong) (auto intro!: c)
  have u: "[tail..<tail + Suc n] = tail # [Suc tail..<Suc tail + n]" by (simp add: upt_conv_Cons)
  have "\<exists>u. write_log_loop (Suc tail) n t = Done () u \<and> held ?dev u P {} \<and> same_log t u \<and>
      writes u = writes t @ map (\<lambda>i. (log_slot (log_start s) i, content ?dev s (lh_block s ! i))) [Suc tail..<Suc tail + n] \<and>
      disk u = apply_writes (map (\<lambda>i. (log_slot (log_start s) i, content ?dev s (lh_block s ! i))) [Suc tail..<Suc tail + n]) (disk t) \<and>
      (\<forall>b\<in>P. content ?dev u b = content ?dev t b)"
    using IH Suc.prems(3-5) unfolding m by simp
  then obtain u where u': "write_log_loop (Suc tail) n t = Done () u" "held ?dev u P {}" "same_log t u"
      "writes u = writes t @ map (\<lambda>i. (log_slot (log_start s) i, content ?dev s (lh_block s ! i))) [Suc tail..<Suc tail + n]"
      "disk u = apply_writes (map (\<lambda>i. (log_slot (log_start s) i, content ?dev s (lh_block s ! i))) [Suc tail..<Suc tail + n]) (disk t)"
      "\<forall>b\<in>P. content ?dev u b = content ?dev t b" by blast
  show ?case
    unfolding u t(1) u'(1) using u'(2-6) same_log_trans [OF t(3) u'(3)] c
    by (intro exI [of _ u]) (simp add: t(5,6))
qed

lemma install_trans_loop_spec:
  fixes s :: "'z logst_scheme"
  assumes "held (log_dev s) s P {}" "tail + n \<le> 29"
    "\<And>i. i < 29 \<Longrightarrow> log_slot (log_start s) i \<notin> P"
    "\<And>i j. i < tail + n \<Longrightarrow> j < 29 \<Longrightarrow> lh_block s ! i \<noteq> log_slot (log_start s) j"
    "if recovering then P = {} else card P < 30 \<and> (\<forall>i. tail \<le> i \<and> i < tail + n \<longrightarrow> lh_block s ! i \<in> P) \<and>
       inj_on ((!) (lh_block s)) {tail..<tail + n}"
  defines "ws \<equiv> map (\<lambda>i. (lh_block s ! i, disk s (log_slot (log_start s) i))) [tail..<tail + n]"
  shows "\<exists>t. install_trans_loop recovering tail n s = Done () t \<and> same_log s t \<and>
    held (log_dev s) t (P - fst ` set ws) {} \<and> writes t = writes s @ ws \<and> disk t = apply_writes ws (disk s)"
  unfolding ws_def using assms(1-5)
proof (induction n arbitrary: tail s P)
  case 0
  then show ?case using same_log_refl by auto
next
  case (Suc n)
  let ?dev = "log_dev s" and ?home = "lh_block s ! tail" and ?slot = "log_slot (log_start s)"
  have to: "log_start s + of_nat tail + 1 \<notin> P" "log_start s + of_nat tail + 1 \<noteq> ?home"
    using Suc.prems(2,3) Suc.prems(4) [of tail tail] by (auto simp: log_slot_def)
  have mode: "if recovering then P = {} else ?home \<in> P \<and> card P < 30" using Suc.prems(5) by auto
  obtain t where t: "install_trans_loop recovering tail (Suc n) s = install_trans_loop recovering (Suc tail) n t"
    "held ?dev t (P - {?home}) {}" "same_log s t"
    "disk t = (disk s)(?home := disk s (?slot tail))" "writes t = writes s @ [(?home, disk s (?slot tail))]"
    by (rule install_trans_step [OF Suc.prems(1) to mode, of n]) (simp add: log_slot_def)
  note f = same_logD [OF t(3)]
  let ?ws = "map (\<lambda>i. (lh_block s ! i, disk s (?slot i))) [Suc tail..<Suc tail + n]"
  have m: "map (\<lambda>i. (lh_block s ! i, disk t (?slot i))) [Suc tail..<Suc tail + n] = ?ws"
  proof (intro map_cong refl)
    fix i assume "i \<in> set [Suc tail..<Suc tail + n]"
    then have "?slot i \<noteq> ?home" using Suc.prems(2) Suc.prems(4) [of tail i] by auto
    then show "(lh_block s ! i, disk t (?slot i)) = (lh_block s ! i, disk s (?slot i))" by (simp add: t(4))
  qed
  have mode': "if recovering then P - {?home} = {} else card (P - {?home}) < 30 \<and>
      (\<forall>i. Suc tail \<le> i \<and> i < Suc tail + n \<longrightarrow> lh_block s ! i \<in> P - {?home}) \<and>
      inj_on ((!) (lh_block s)) {Suc tail..<Suc tail + n}"
  proof (cases recovering)
    case False
    then have p: "card P < 30" "\<forall>i. tail \<le> i \<and> i < tail + Suc n \<longrightarrow> lh_block s ! i \<in> P"
      "inj_on ((!) (lh_block s)) {tail..<tail + Suc n}" using Suc.prems(5) by auto
    have "lh_block s ! i \<noteq> ?home" if "Suc tail \<le> i" "i < Suc tail + n" for i
      using inj_onD [OF p(3), of i tail] that by auto
    moreover have "card (P - {?home}) < 30" using p(1) card_Diff1_le [of P ?home] by linarith
    moreover have "inj_on ((!) (lh_block s)) {Suc tail..<Suc tail + n}" using p(3) by (rule inj_on_subset) auto
    ultimately show ?thesis using False p(2) by auto
  qed (use Suc.prems(5) in simp)
  note IH = Suc.IH [of t "P - {?home}" "Suc tail", unfolded f m, OF t(2) _ _ _ mode']
  have "\<exists>u. install_trans_loop recovering (Suc tail) n t = Done () u \<and> same_log t u \<and>
      held ?dev u (P - {?home} - fst ` set ?ws) {} \<and> writes u = writes t @ ?ws \<and> disk u = apply_writes ?ws (disk t)"
    by (rule IH) (use Suc.prems(2-4) in auto)
  then obtain u where u: "install_trans_loop recovering (Suc tail) n t = Done () u" "same_log t u"
      "held ?dev u (P - {?home} - fst ` set ?ws) {}" "writes u = writes t @ ?ws" "disk u = apply_writes ?ws (disk t)"
    by blast
  have e: "[tail..<tail + Suc n] = tail # [Suc tail..<Suc tail + n]" by (simp add: upt_conv_Cons)
  show ?case
    unfolding e t(1) u(1) using u(3-5) same_log_trans [OF t(3) u(2)]
    by (intro exI [of _ u]) (simp add: t(4,5) Diff_insert2 [symmetric] insert_commute)
qed

section \<open>Commit\<close>

text \<open>
  The state of the log between commits: the blocks \<open>L\<close> are logged and pinned, they are home
  blocks, and the header on disk says that nothing is committed. The current process holds
  the buffers \<open>H\<close>; there are none at a commit.
\<close>

definition logging :: "'z logst_scheme \<Rightarrow> uint list \<Rightarrow> nat set \<Rightarrow> bool" where
  "logging s L H \<longleftrightarrow> held (log_dev s) s (set L) H \<and> distinct L \<and> length L < 30 \<and> lh_n s = int (length L) \<and>
     length (lh_block s) = 30 \<and> take (length L) (lh_block s) = L \<and> set L \<inter> log_area (log_start s) = {} \<and>
     length (disk s (log_start s)) = BSIZE \<and> hdr_n (disk s (log_start s)) = 0"

abbreviation logged :: "'z logst_scheme \<Rightarrow> uint list \<Rightarrow> bool" where
  "logged s L \<equiv> logging s L {}"

lemma loggedD:
  assumes "logging s L H"
  shows "held (log_dev s) s (set L) H" "distinct L" "length L < 30" "lh_n s = int (length L)"
    "length (lh_block s) = 30" "i < length L \<Longrightarrow> lh_block s ! i = L ! i"
    "log_start s \<notin> set L" "j < 29 \<Longrightarrow> log_slot (log_start s) j \<notin> set L"
    "length (disk s (log_start s)) = BSIZE" "hdr_n (disk s (log_start s)) = 0" "card (set L) < 30"
proof -
  show "i < length L \<Longrightarrow> lh_block s ! i = L ! i"
  proof -
    have "take (length L) (lh_block s) = L" using assms by (simp add: logging_def)
    then show "i < length L \<Longrightarrow> lh_block s ! i = L ! i" by (metis nth_take)
  qed
  show "card (set L) < 30" using assms card_length [of L] by (simp add: logging_def)
qed (use assms in \<open>auto simp: logging_def log_area_def\<close>)

text \<open>The disk writes of a commit: the log, the header, the home blocks, the header.\<close>

definition commit_writes :: "uint \<Rightarrow> (uint \<Rightarrow> block) \<Rightarrow> uint list \<Rightarrow> block \<Rightarrow> block \<Rightarrow> (uint \<times> block) list" where
  "commit_writes start C L h1 h0 =
     map (\<lambda>i. (log_slot start i, C (L ! i))) [0..<length L] @ (start, h1) # map (\<lambda>b. (b, C b)) L @ [(start, h0)]"

lemma apply_home: "apply_writes (map (\<lambda>b. (b, C b)) L) d b = (if b \<in> set L then C b else d b)"
proof (cases "b \<in> set L")
  case True
  then show ?thesis by (auto intro!: apply_writes_hit)
qed (auto intro!: apply_writes_other)

lemma apply_slots:
  assumes "n \<le> 29"
  shows "i < n \<Longrightarrow> apply_writes (map (\<lambda>i. (log_slot start i, f i)) [0..<n]) d (log_slot start i) = f i"
    "b \<notin> log_area start \<or> b = start \<Longrightarrow> apply_writes (map (\<lambda>i. (log_slot start i, f i)) [0..<n]) d b = d b"
proof -
  show "apply_writes (map (\<lambda>i. (log_slot start i, f i)) [0..<n]) d (log_slot start i) = f i" if "i < n"
  proof (rule apply_writes_hit)
    show "(log_slot start i, f i) \<in> set (map (\<lambda>i. (log_slot start i, f i)) [0..<n])" using that by auto
    fix y assume "(log_slot start i, y) \<in> set (map (\<lambda>i. (log_slot start i, f i)) [0..<n])"
    then obtain j where j: "j < n" "log_slot start i = log_slot start j" "y = f j" by auto
    then have "i = j" using log_slot_inj [of i j start] that assms by simp
    then show "y = f i" using j(3) by simp
  qed
  show "apply_writes (map (\<lambda>i. (log_slot start i, f i)) [0..<n]) d b = d b" if "b \<notin> log_area start \<or> b = start"
  proof (rule apply_writes_other)
    have "b \<noteq> log_slot start j" if "j < n" for j
      using \<open>b \<notin> log_area start \<or> b = start\<close> that assms log_slot_start [of j start] by (auto simp: log_area_def)
    then show "b \<notin> fst ` set (map (\<lambda>i. (log_slot start i, f i)) [0..<n])" by (simp add: image_image image_iff Ball_def)
  qed
qed

lemma commit_spec:
  fixes s :: "'z logst_scheme"
  defines "dev \<equiv> log_dev s" and "start \<equiv> log_start s"
  assumes L: "logged s L" "L \<noteq> []"
  obtains t h1 h0 where "commit s = Done () t" "logged t []"
    "writes t = writes s @ commit_writes start (content dev s) L h1 h0"
    "disk t = apply_writes (commit_writes start (content dev s) L h1 h0) (disk s)"
    "hdr_n h1 = length L" "\<And>i. i < length L \<Longrightarrow> hdr_home h1 i = L ! i" "hdr_n h0 = 0"
    "same_log (s\<lparr>lh_n := 0\<rparr>) t" "length h1 = BSIZE" "length h0 = BSIZE"
proof -
  let ?n = "length L" and ?C = "content dev s"
  note l = loggedD [OF L(1), folded dev_def start_def]
  let ?A = "map (\<lambda>i. (log_slot start i, ?C (L ! i))) [0..<?n]"
  have A: "map (\<lambda>i. (log_slot start i, ?C (lh_block s ! i))) [0..<0 + ?n] = ?A" using l(6) by simp
  have "\<exists>t. write_log_loop 0 ?n s = Done () t \<and> held dev t (set L) {} \<and> same_log s t \<and>
      writes t = writes s @ ?A \<and> disk t = apply_writes ?A (disk s) \<and> (\<forall>b\<in>set L. content dev t b = ?C b)"
    using write_log_loop_spec [of s "set L" 0 ?n, folded dev_def start_def, unfolded A] l by simp
  then obtain s1 where 1: "write_log_loop 0 ?n s = Done () s1" "held dev s1 (set L) {}" "same_log s s1"
      "writes s1 = writes s @ ?A" "disk s1 = apply_writes ?A (disk s)" by blast
  note f1 = same_logD [OF 1(3), folded dev_def start_def]
  have d1: "disk s1 start = disk s start" using apply_slots(2) [of ?n start start] l(3) by (simp add: 1(5))
  obtain s2 h1 where 2: "write_head s1 = Done () s2" "held dev s2 (set L) {}" "same_log s1 s2"
    "hdr_n h1 = ?n" "\<And>i. i < ?n \<Longrightarrow> hdr_home h1 i = L ! i" "length h1 = BSIZE"
    "disk s2 = (disk s1)(start := h1)" "writes s2 = writes s1 @ [(start, h1)]"
    by (rule write_head_spec [of s1 "set L", unfolded f1, OF 1(2) l(7,11)]) (use l d1 in auto)
  note f2 = same_logD [OF 2(3), unfolded f1]
  have sl: "disk s2 (log_slot start i) = ?C (L ! i)" if "i < ?n" for i
    using that l(3) log_slot_start [of i start] apply_slots(1) [of ?n i start] by (simp add: 2(7) 1(5))
  let ?B = "map (\<lambda>b. (b, ?C b)) L"
  have B: "map (\<lambda>i. (lh_block s ! i, disk s2 (log_slot start i))) [0..<0 + ?n] = ?B"
    using l(6) sl by (intro nth_equalityI) simp_all
  have mode: "if False then set L = {} else card (set L) < 30 \<and>
      (\<forall>i. 0 \<le> i \<and> i < 0 + ?n \<longrightarrow> lh_block s ! i \<in> set L) \<and> inj_on ((!) (lh_block s)) {0..<0 + ?n}"
    using l(2,6,11) by (auto simp: inj_on_def nth_eq_iff_index_eq)
  have hm: "lh_block s ! i \<noteq> log_slot start j" if "i < 0 + ?n" "j < 29" for i j
    using that l(6) [of i] l(8) [of j] nth_mem [of i L] by (metis add_0)
  have "\<exists>t. install_trans_loop False 0 ?n s2 = Done () t \<and> same_log s2 t \<and>
      held dev t (set L - fst ` set ?B) {} \<and> writes t = writes s2 @ ?B \<and> disk t = apply_writes ?B (disk s2)"
    by (rule install_trans_loop_spec [of s2 "set L" 0 ?n False, unfolded f2 B, OF 2(2) _ l(8) hm mode])
      (use l(3) in simp_all)
  then have "\<exists>t. install_trans_loop False 0 ?n s2 = Done () t \<and> same_log s2 t \<and>
      held dev t {} {} \<and> writes t = writes s2 @ ?B \<and> disk t = apply_writes ?B (disk s2)"
    by (simp add: image_image)
  then obtain s3 where 3: "install_trans_loop False 0 ?n s2 = Done () s3" "same_log s2 s3"
      "held dev s3 {} {}" "writes s3 = writes s2 @ ?B" "disk s3 = apply_writes ?B (disk s2)" by blast
  note f3 = same_logD [OF 3(2), unfolded f2]
  have d3: "disk s3 start = h1" using l(7) by (simp add: 3(5) apply_home 2(7))
  let ?s3 = "s3\<lparr>lh_n := 0\<rparr>"
  obtain t h0 where 4: "write_head ?s3 = Done () t" "held dev t {} {}" "same_log ?s3 t"
    "hdr_n h0 = 0" "length h0 = BSIZE" "disk t = (disk s3)(start := h0)" "writes t = writes s3 @ [(start, h0)]"
    by (rule write_head_spec [of ?s3 "{}", simplified, unfolded f3, OF 3(3)]) (use d3 2(6) in auto)
  note f4 = same_logD [OF 4(3), simplified, unfolded f3]
  have "commit s = Done () t"
    using 1(1) 2(1) 3(1) 4(1) l(3,4) L(2)
    by (simp add: commit_def write_log_def install_trans_def same_logD(3) [OF 2(3)] same_logD(3) [OF 1(3)])
  moreover have "logged t []" using 4(2,4-6) by (simp add: logging_def f4 l(5))
  moreover have "writes t = writes s @ commit_writes start ?C L h1 h0"
    by (simp add: commit_writes_def 4(7) 3(4) 2(8) 1(4))
  moreover have "disk t = apply_writes (commit_writes start ?C L h1 h0) (disk s)"
    by (simp add: commit_writes_def 4(6) 3(5) 2(7) 1(5))
  moreover have "same_log (s\<lparr>lh_n := 0\<rparr>) t"
    by (rule same_log_trans [OF same_log_lh [OF same_log_trans [OF 1(3) same_log_trans [OF 2(3) 3(2)]]] 4(3)])
  ultimately show thesis using that 2(4-6) 4(4,5) by blast
qed

section \<open>Recovery\<close>

text \<open>The disk that recovery makes of the disk \<open>d\<close>, up to the header.\<close>

definition recovered :: "uint \<Rightarrow> (uint \<Rightarrow> block) \<Rightarrow> uint \<Rightarrow> block" where
  "recovered start d = apply_writes (map (\<lambda>i. (hdr_home (d start) i, d (log_slot start i))) [0..<hdr_n (d start)]) d"

lemma read_head_spec:
  fixes s :: "'z logst_scheme"
  defines "dev \<equiv> log_dev s" and "d \<equiv> disk s (log_start s)"
  assumes h: "held dev s {} {}" and n: "hdr_n d \<le> 30" and bl: "length (lh_block s) = 30"
  obtains t where "read_head s = Done () t" "held dev t {} {}" "disk t = disk s" "writes t = writes s"
    "log_dev t = dev" "log_start t = log_start s" "nat (lh_n t) = hdr_n d" "length (lh_block t) = 30"
    "\<And>i. i < hdr_n d \<Longrightarrow> lh_block t ! i = hdr_home d i"
proof -
  let ?start = "log_start s"
  have cl: "content dev s ?start = d" using held_clean [OF h, of ?start] by (simp add: d_def)
  obtain b s1 where 1: "bread dev ?start s = Done b s1" "b < 30" "held dev s1 {} {b}"
    "blockno (bufs s1 ! b) = ?start" "bdata (bufs s1 ! b) = d" "s1 = s\<lparr>bufs := bufs s1\<rparr>"
    by (rule held_bread [OF h, of ?start]) (use cl in auto)
  note f1 = same_logD [OF same_log_bufs [OF 1(6)]]
  have d1: "disk s1 = disk s" "writes s1 = writes s" by (subst 1(6), simp)+
  let ?s2 = "s1\<lparr>lh_n := sint (get32 d 0), lh_block := read_head_loop d 0 (hdr_n d) (lh_block s1)\<rparr>"
  have 2: "held dev ?s2 {} {b}" using 1(3) by simp
  obtain t where t: "brelse b ?s2 = Done () t" "held dev t {} {}" "disk t = disk ?s2" "writes t = writes ?s2"
    "t = ?s2\<lparr>bufs := bufs t, procs := procs t\<rparr>"
    by (rule held_brelse [OF 2, of b]) (auto simp: 1(4,5) d1 d_def)
  note ft = same_logD [OF same_log_procs [OF t(5)], simplified]
  have "read_head s = Done () t" using 1(1,5) t(1) by (simp add: read_head_def dev_def hdr_n_def Let_def)
  then show thesis
    by (rule that [OF _ t(2)])
      (use n in \<open>simp_all add: t(3,4) d1 ft f1 bl dev_def hdr_n_def hdr_home_def read_head_loop_nth\<close>)
qed

lemma recover_spec:
  fixes s :: "'z logst_scheme"
  defines "dev \<equiv> log_dev s" and "start \<equiv> log_start s"
  assumes h: "held dev s {} {}" and bl: "length (lh_block s) = 30"
    and n: "hdr_n (disk s start) \<le> 29" "length (disk s start) = BSIZE"
    and hm: "\<And>i. i < hdr_n (disk s start) \<Longrightarrow> hdr_home (disk s start) i \<notin> log_area start"
  obtains t h0 where "recover_from_log s = Done () t" "logged t []"
    "disk t = (recovered start (disk s))(start := h0)" "log_dev t = dev" "log_start t = start"
proof -
  let ?d = "disk s start" and ?n = "hdr_n (disk s start)"
  obtain s1 where 1: "read_head s = Done () s1" "held dev s1 {} {}" "disk s1 = disk s"
    "log_dev s1 = dev" "log_start s1 = start" "nat (lh_n s1) = ?n" "length (lh_block s1) = 30"
    "\<And>i. i < ?n \<Longrightarrow> lh_block s1 ! i = hdr_home ?d i"
    by (rule read_head_spec [OF h [unfolded dev_def] _ bl]) (use n(1) in \<open>auto simp: dev_def start_def\<close>)
  let ?ws = "map (\<lambda>i. (hdr_home ?d i, disk s (log_slot start i))) [0..<?n]"
  have B: "map (\<lambda>i. (lh_block s1 ! i, disk s1 (log_slot start i))) [0..<0 + ?n] = ?ws" using 1(8) by (simp add: 1(3))
  have slots: "lh_block s1 ! i \<noteq> log_slot start j" if "i < 0 + ?n" "j < 29" for i j
    using that hm [of i] 1(8) [of i] by (auto simp: log_area_def)
  have "\<exists>t. install_trans_loop True 0 ?n s1 = Done () t \<and> same_log s1 t \<and>
      held dev t ({} - fst ` set ?ws) {} \<and> writes t = writes s1 @ ?ws \<and> disk t = apply_writes ?ws (disk s1)"
    by (rule install_trans_loop_spec [of s1 "{}" 0 ?n True, unfolded 1(4,5) B, OF 1(2) _ _ slots]) (use n in simp_all)
  then obtain s2 where 2: "install_trans_loop True 0 ?n s1 = Done () s2" "same_log s1 s2"
      "held dev s2 {} {}" "disk s2 = recovered start (disk s)"
    by (auto simp: recovered_def 1(3))
  note f2 = same_logD [OF 2(2), unfolded 1(4,5)]
  have "start \<noteq> hdr_home ?d i" if "i < ?n" for i using hm [OF that] by (auto simp: log_area_def)
  then have "start \<notin> fst ` set ?ws" by (simp add: image_image image_iff Ball_def)
  then have d2: "disk s2 start = ?d" by (simp add: 2(4) recovered_def apply_writes_other)
  let ?s3 = "s2\<lparr>lh_n := 0\<rparr>"
  obtain t h0 where 3: "write_head ?s3 = Done () t" "held dev t {} {}" "same_log ?s3 t"
    "hdr_n h0 = 0" "length h0 = BSIZE" "disk t = (disk s2)(start := h0)"
    by (rule write_head_spec [of ?s3 "{}", simplified, unfolded f2, OF 2(3)]) (use d2 n(2) in auto)
  note f3 = same_logD [OF 3(3), simplified, unfolded f2]
  have "recover_from_log s = Done () t"
    using 1(1,6) 2(1) 3(1) by (simp add: recover_from_log_def install_trans_def)
  moreover have "logged t []" using 3(2,4-6) by (simp add: logging_def f3 1(7))
  ultimately show thesis by (rule that) (simp_all add: 3(6) 2(4) f3)
qed

text \<open>Cutting the writes of a commit at any point.\<close>

lemma crash_point:
  fixes C :: "uint \<Rightarrow> block" and k :: nat
  assumes start: "hdr_n (d start) = 0" and L: "distinct L" "length L < 30" "set L \<inter> log_area start = {}"
    and h1: "hdr_n h1 = length L" "\<And>i. i < length L \<Longrightarrow> hdr_home h1 i = L ! i" and h0: "hdr_n h0 = 0"
  defines "e \<equiv> apply_writes (take k (commit_writes start C L h1 h0)) d"
  shows "(e start = d start \<or> e start = h1 \<or> e start = h0) \<and>
    ((\<forall>b. b \<notin> log_area start \<longrightarrow> recovered start e b = d b) \<or>
     (\<forall>b. b \<notin> log_area start \<longrightarrow> recovered start e b = (if b \<in> set L then C b else d b)))"
proof -
  let ?n = "length L"
  define A where "A = map (\<lambda>i. (log_slot start i, C (L ! i))) [0..<?n]"
  define B where "B = map (\<lambda>b. (b, C b)) L"
  have ws: "commit_writes start C L h1 h0 = A @ [(start, h1)] @ B @ [(start, h0)]"
    by (simp add: commit_writes_def A_def B_def)
  have len: "length A = ?n" "length B = ?n" by (simp_all add: A_def B_def)
  have sL: "start \<notin> set L" using L(3) by (auto simp: log_area_def)
  consider "k \<le> ?n" | "?n < k" "k \<le> 2 * ?n + 1" | "k > 2 * ?n + 1" by linarith
  then show ?thesis
  proof cases
    case 1
    have e: "e = apply_writes (map (\<lambda>i. (log_slot start i, C (L ! i))) [0..<k]) d"
      using 1 len by (simp add: e_def ws A_def take_map)
    have "e b = d b" if "b \<notin> log_area start \<or> b = start" for b
      unfolding e using 1 L(2) that by (intro apply_slots(2)) simp_all
    then show ?thesis using start by (simp add: recovered_def)
  next
    case 2
    define j where "j = k - ?n - 1"
    have kj: "k = ?n + 1 + j" "j \<le> ?n" using 2 by (simp_all add: j_def)
    have e: "e = apply_writes (map (\<lambda>b. (b, C b)) (take j L)) ((apply_writes A d)(start := h1))"
      using kj len by (simp add: e_def ws B_def take_map)
    have es: "e start = h1" using sL set_take_subset [of j L] by (auto simp: e apply_home)
    have sl: "e (log_slot start i) = C (L ! i)" if "i < ?n" for i
    proof -
      have "log_slot start i \<notin> set L" using L(2,3) that by (auto simp: log_area_def)
      then have "e (log_slot start i) = apply_writes A d (log_slot start i)"
        using log_slot_start [of i start] L(2) that set_take_subset [of j L] by (auto simp: e apply_home)
      then show ?thesis using apply_slots(1) [of ?n i start] L(2) that by (simp add: A_def)
    qed
    have "map (\<lambda>i. (hdr_home h1 i, e (log_slot start i))) [0..<?n] = map (\<lambda>b. (b, C b)) L"
      using h1(2) sl by (intro nth_equalityI) simp_all
    then have "recovered start e = apply_writes (map (\<lambda>b. (b, C b)) L) e" by (simp add: recovered_def es h1(1))
    moreover have "e b = d b" if "b \<notin> log_area start" "b \<notin> set L" for b
    proof -
      have "b \<notin> set (take j L)" "b \<noteq> start" using that set_take_subset [of j L] by (auto simp: log_area_def)
      then show ?thesis using that(1) apply_slots(2) [of ?n b start] L(2) by (simp add: e apply_home A_def)
    qed
    ultimately show ?thesis using es by (auto simp: apply_home)
  next
    case 3
    then have e: "e = (apply_writes B ((apply_writes A d)(start := h1)))(start := h0)" using len by (simp add: e_def ws)
    then have es: "e start = h0" by simp
    have "e b = (if b \<in> set L then C b else d b)" if "b \<notin> log_area start" for b
    proof -
      have "b \<noteq> start" using that by (auto simp: log_area_def)
      then show ?thesis using that apply_slots(2) [of ?n b start] L(2) by (simp add: e B_def apply_home A_def)
    qed
    then show ?thesis using es h0 by (simp add: recovered_def)
  qed
qed

section \<open>Adding blocks to the transaction\<close>

lemma log_find_spec:
  "i \<le> log_find bl bno i n \<and> log_find bl bno i n \<le> i + n \<and>
   (log_find bl bno i n < i + n \<longrightarrow> bl ! log_find bl bno i n = bno) \<and>
   (\<forall>j. i \<le> j \<and> j < log_find bl bno i n \<longrightarrow> bl ! j \<noteq> bno)"
proof (induction bl bno i n rule: log_find.induct)
  case (2 bl bno i n)
  show ?case
  proof (cases "bl ! i = bno")
    case False
    then have step: "log_find bl bno i (Suc n) = log_find bl bno (Suc i) n" by simp
    have "bl ! j \<noteq> bno" if "i \<le> j" "j < log_find bl bno (Suc i) n" for j
      using 2 [OF False] False that by (cases "j = i") auto
    then show ?thesis using 2 [OF False] unfolding step by auto
  qed auto
qed auto

lemma log_find_logged:
  assumes "take (length L) bl = L" "length L \<le> length bl"
  shows "if bno \<in> set L then log_find bl bno 0 (length L) < length L \<and> bl ! log_find bl bno 0 (length L) = bno
    else log_find bl bno 0 (length L) = length L"
proof -
  let ?i = "log_find bl bno 0 (length L)"
  have n: "bl ! j = L ! j" if "j < length L" for j using assms that by (metis nth_take)
  have "bno \<notin> set L" if "?i = length L"
    using that n log_find_spec [of 0 bl bno "length L"] by (auto simp: in_set_conv_nth)
  moreover have "bno \<in> set L" if "?i < length L"
    using that n log_find_spec [of 0 bl bno "length L"] by (metis add_0 nth_mem)
  moreover have "?i \<le> length L" using log_find_spec [of 0 bl bno "length L"] by simp
  moreover have "bl ! ?i = bno" if "?i < length L" using that log_find_spec [of 0 bl bno "length L"] by simp
  ultimately show ?thesis by (cases "?i < length L") auto
qed

lemma log_write_spec:
  fixes s :: "'z logst_scheme"
  defines "dev \<equiv> log_dev s"
  assumes L: "logging s L H" and b: "b \<in> H" "blockno (bufs s ! b) \<notin> log_area (log_start s)"
    and ok: "int (length L) < log_size s - 1" "log_size s \<le> 30" "0 < log_outstanding s"
  obtains t where "log_write b s = Done () t"
    "logging t (if blockno (bufs s ! b) \<in> set L then L else L @ [blockno (bufs s ! b)]) H"
    "content dev t = content dev s" "disk t = disk s" "writes t = writes s"
    "log_dev t = dev" "log_start t = log_start s" "log_size t = log_size s" "log_outstanding t = log_outstanding s"
    "\<And>c. blockno (bufs t ! c) = blockno (bufs s ! c)"
proof -
  let ?bno = "blockno (bufs s ! b)"
  note l = loggedD [OF L]
  have tk: "take (length L) (lh_block s) = L" using L by (simp add: logging_def)
  note fnd = log_find_logged [OF tk, of ?bno, unfolded l(5), OF less_imp_le [OF l(3)]]
  have n: "nat (lh_n s) = length L" "\<not> lh_n s \<ge> 30" "\<not> lh_n s \<ge> log_size s - 1" "\<not> log_outstanding s < 1"
    using ok l(3,4) by auto
  show thesis
  proof (cases "?bno \<in> set L")
    case True
    then have "(lh_block s)[log_find (lh_block s) ?bno 0 (length L) := ?bno] = lh_block s"
      using fnd list_update_id [of "lh_block s" "log_find (lh_block s) ?bno 0 (length L)"] by simp
    then have "log_write b s = Done () s"
      using n fnd True l(4) by (simp add: log_write_def Let_def)
    then show thesis by (rule that) (use L True in \<open>simp_all add: dev_def\<close>)
  next
    case False
    let ?s = "s\<lparr>lh_block := (lh_block s)[length L := ?bno]\<rparr>"
    have h: "held dev ?s (set L) H" using l(1) by (simp add: dev_def)
    note p = held_bpin [OF h b(1), simplified, OF False]
    let ?t = "(bpin b ?s)\<lparr>lh_n := lh_n s + 1\<rparr>"
    have w: "log_write b s = Done () ?t"
      using n fnd False l(4) by (simp add: log_write_def Let_def)
    have f: "disk ?t = disk s" "writes ?t = writes s" "log_dev ?t = dev" "log_start ?t = log_start s"
      "log_size ?t = log_size s" "log_outstanding ?t = log_outstanding s" "lh_n ?t = lh_n s + 1"
      "lh_block ?t = (lh_block s)[length L := ?bno]"
      by (simp_all add: bpin_def upd_buf_def dev_def)
    have "set (L @ [?bno]) \<inter> log_area (log_start s) = {}" using L b(2) by (auto simp: logging_def)
    moreover have "take (Suc (length L)) ((lh_block s)[length L := ?bno]) = L @ [?bno]"
      using tk l(3,5) by (simp add: take_Suc_conv_app_nth)
    moreover have "held dev ?t (set (L @ [?bno])) H" using p(1) by simp
    ultimately have "logging ?t (L @ [?bno]) H"
      unfolding logging_def f using l ok False by (simp add: dev_def del: f)
    moreover have "content dev ?t = content dev s" using p(2) by simp
    moreover have "blockno (bufs ?t ! c) = blockno (bufs s ! c)" for c
      using held_buffer(3) [OF l(1) b(1)] by (simp add: bpin_def upd_buf_def nth_list_update)
    ultimately show thesis using w False f by (intro that [of ?t]) simp_all
  qed
qed

text \<open>How the file system uses the log: read the block, change it, log it, release it.\<close>

definition log_block :: "uint \<Rightarrow> block \<Rightarrow> 'z logst_scheme \<Rightarrow> (unit, 'z logst_scheme) outcome" where
  "log_block bno d s =
     kbind (bread (log_dev s) bno s) (\<lambda>b s.
     kbind (log_write b (upd_buf b (\<lambda>x. x\<lparr>bdata := d\<rparr>) s)) (\<lambda>_ s.
     brelse b s))"

lemma logging_same:
  assumes "logging s L H" "same_log s t" "held (log_dev s) t (set L) H'" "disk t (log_start s) = disk s (log_start s)"
  shows "logging t L H'"
  using assms same_logD [OF assms(2)] by (simp add: logging_def)

lemma log_block_spec:
  fixes s :: "'z logst_scheme"
  defines "dev \<equiv> log_dev s"
  assumes L: "logged s L" and bno: "bno \<notin> log_area (log_start s)" and sz: "log_size s \<le> 30" "0 < log_outstanding s"
  shows "int (length L) < log_size s - 1 \<Longrightarrow>
      \<exists>t. log_block bno d s = Done () t \<and> logged t (if bno \<in> set L then L else L @ [bno]) \<and>
        content dev t = (content dev s)(bno := d) \<and> disk t = disk s \<and> writes t = writes s \<and>
        log_dev t = dev \<and> log_start t = log_start s \<and> log_size t = log_size s \<and> log_outstanding t = log_outstanding s"
    "\<not> int (length L) < log_size s - 1 \<Longrightarrow> log_block bno d s = Panic ''too big a transaction''"
proof -
  note l = loggedD [OF L, folded dev_def]
  obtain b s1 where 1: "bread dev bno s = Done b s1" "b < 30" "held dev s1 (set L) {b}"
    "blockno (bufs s1 ! b) = bno" "content dev s1 = content dev s" "s1 = s\<lparr>bufs := bufs s1\<rparr>"
    by (rule held_bread [OF l(1), of bno]) (use l(11) in auto)
  let ?s2 = "upd_buf b (\<lambda>x. x\<lparr>bdata := d\<rparr>) s1"
  note 2 = held_set_data [OF 1(3), of b d, simplified]
  note sl = same_log_trans [OF same_log_bufs [OF 1(6)] same_log_bufs [OF 2(4)]]
  note f2 = same_logD [OF sl]
  have d2: "disk ?s2 = disk s" "writes ?s2 = writes s" by (subst 2(4), subst 1(6), simp)+
  have bl: "blockno (bufs ?s2 ! b) = bno" using held_buffer(3) [OF 1(3)] 1(4) by (simp add: 2(3))
  have L2: "logging ?s2 L {b}" by (rule logging_same [OF L sl]) (use 2(1) d2 in \<open>simp_all add: dev_def\<close>)
  show "log_block bno d s = Panic ''too big a transaction''" if "\<not> int (length L) < log_size s - 1"
    using that 1(1) l(4) by (simp add: log_block_def dev_def log_write_def f2)
  assume room: "int (length L) < log_size s - 1"
  let ?L = "if bno \<in> set L then L else L @ [bno]"
  obtain s3 where 3: "log_write b ?s2 = Done () s3" "logging s3 ?L {b}"
    "content dev s3 = content dev ?s2" "disk s3 = disk s" "writes s3 = writes s"
    "log_dev s3 = dev" "log_start s3 = log_start s" "log_size s3 = log_size s" "log_outstanding s3 = log_outstanding s"
    "blockno (bufs s3 ! b) = bno"
    by (rule log_write_spec [OF L2, of b, unfolded bl f2 d2, folded dev_def]) (use room bno sz in \<open>auto simp: bl\<close>)
  have p: "blockno (bufs s3 ! b) \<in> set ?L" by (simp add: 3(10))
  obtain t where t: "brelse b s3 = Done () t" "held dev t (set ?L) {}" "content dev t = content dev s3"
    "disk t = disk s3" "writes t = writes s3" "t = s3\<lparr>bufs := bufs t, procs := procs t\<rparr>"
    by (rule held_brelse [OF loggedD(1) [OF 3(2), unfolded 3(6)], of b]) (use p in auto)
  note st = same_log_procs [OF t(6)]
  note ft = same_logD [OF st]
  have "logged t ?L" by (rule logging_same [OF 3(2) st]) (use t(2) in \<open>simp_all add: 3(6) t(4)\<close>)
  moreover have "log_block bno d s = Done () t" using 1(1) 3(1) t(1) by (simp add: log_block_def dev_def)
  ultimately show "\<exists>t. log_block bno d s = Done () t \<and> logged t ?L \<and>
        content dev t = (content dev s)(bno := d) \<and> disk t = disk s \<and> writes t = writes s \<and>
        log_dev t = dev \<and> log_start t = log_start s \<and> log_size t = log_size s \<and> log_outstanding t = log_outstanding s"
    by (intro exI [of _ t]) (simp add: t(3-5) 3(3-9) ft 2(2) 1(4,5))
qed

text \<open>A log on an empty disk, with three operations begun.\<close>

abbreviation boot_log :: logst where
  "boot_log \<equiv> log_on (binit boot_bio)"

lemma binit_frame: "disk (binit s) = disk s" "writes (binit s) = writes s"
  by (simp_all add: binit_def)

lemma held_boot: "held 1 (binit boot_bio) {} {}"
  by (rule held_fresh [OF binit_boot]) (simp add: binit_refcnt zero_buf_def)

lemma held_log_on: "held dev (log_on s) P H = held dev s P H" "content dev (log_on s) = content dev s"
  by (simp_all add: held_def cache_ok_def myproc_def content_def fun_eq_iff split: option.split)

lemma logged_boot: "logged boot_log []"
proof -
  have "hdr_n (replicate 1024 0) = 0" by code_simp
  then show ?thesis using held_boot by (simp add: logging_def held_log_on binit_frame)
qed

lemma logging_outstanding [simp]: "logging (s\<lparr>log_outstanding := n\<rparr>) L H = logging s L H"
  by (simp add: logging_def held_def cache_ok_def myproc_def)

section \<open>Properties\<close>

lemma held_initlog [simp]:
  "held dev (s\<lparr>log_start := a, log_size := n, log_dev := dv\<rparr>) P H = held dev s P H"
  by (simp add: held_def cache_ok_def myproc_def)

lemma commit_empty:
  assumes "logged s []"
  shows "commit s = Done () s" "content (log_dev s) s b = disk s b"
  using loggedD(4) [OF assms] held_clean [OF loggedD(1) [OF assms]] by (simp_all add: commit_def)

text \<open>What a crash and a reboot make of a disk \<open>d\<close>: the cache and the log in memory are set up anew.\<close>

lemma reboot:
  fixes u :: "'z logst_scheme"
  assumes u: "held dev u {} {}" "length (lh_block u) = 30" "sb_logstart sb = start"
    and n: "hdr_n (disk u start) \<le> 29" "length (disk u start) = BSIZE"
      "\<And>i. i < hdr_n (disk u start) \<Longrightarrow> hdr_home (disk u start) i \<notin> log_area start"
  shows "\<exists>v. initlog dev sb u = Done () v \<and> logged v [] \<and> (\<forall>b. b \<noteq> start \<longrightarrow> disk v b = recovered start (disk u) b)"
proof -
  let ?u = "u\<lparr>log_start := sb_logstart sb, log_size := sint (sb_nlog sb), log_dev := dev\<rparr>"
  obtain v h0 where "recover_from_log ?u = Done () v" "logged v []" "disk v = (recovered start (disk u))(start := h0)"
    by (rule recover_spec [of ?u]) (use assms in auto)
  then show ?thesis by (intro exI [of _ v]) (simp add: initlog_def)
qed

text \<open>
  C1. Crash safety of the log. A commit writes every logged block home. If the machine crashes
  after any number \<open>k\<close> of its disk writes and boots again, with an empty cache, \<^verbatim>\<open>initlog\<close>
  succeeds, clears the log, and brings the home blocks of the disk to a consistent state:
  either all are as before the transaction or all are as the transaction left them.
\<close>

theorem commit_crash_safe:
  fixes s :: "'z logst_scheme"
  assumes L: "logged s L"
  defines "start \<equiv> log_start s" and "new \<equiv> content (log_dev s) s"
  shows "\<exists>t ws. commit s = Done () t \<and> logged t [] \<and> writes t = writes s @ ws \<and>
    (\<forall>b. b \<notin> log_area start \<longrightarrow> disk t b = new b) \<and>
    (\<forall>k dev sb (u :: 'z logst_scheme). held dev u {} {} \<and> length (lh_block u) = 30 \<and> sb_logstart sb = start \<and>
       disk u = apply_writes (take k ws) (disk s) \<longrightarrow>
       (\<exists>v. initlog dev sb u = Done () v \<and> logged v [] \<and>
         ((\<forall>b. b \<notin> log_area start \<longrightarrow> disk v b = disk s b) \<or> (\<forall>b. b \<notin> log_area start \<longrightarrow> disk v b = new b))))"
proof (cases "L = []")
  case True
  note e = commit_empty [OF L [unfolded True], folded new_def]
  have r: "recovered start (disk s) = disk s" using loggedD(10) [OF L, folded start_def] by (simp add: recovered_def)
  have "\<exists>v. initlog dev sb u = Done () v \<and> logged v [] \<and> (\<forall>b. b \<notin> log_area start \<longrightarrow> disk v b = disk s b)"
    if "held dev u {} {}" "length (lh_block u) = 30" "sb_logstart sb = start" "disk u = disk s"
    for dev sb and u :: "'z logst_scheme"
    using reboot [OF that(1-3)] loggedD(9,10) [OF L, folded start_def] that(4) r by (auto simp: log_area_def)
  then show ?thesis using e L True by (intro exI [of _ s] exI [of _ "[]"]) simp
next
  case False
  note l = loggedD [OF L, folded start_def]
  have LA: "set L \<inter> log_area start = {}" using L by (simp add: logging_def start_def)
  obtain t h1 h0 where t: "commit s = Done () t" "logged t []"
    "writes t = writes s @ commit_writes start new L h1 h0"
    "disk t = apply_writes (commit_writes start new L h1 h0) (disk s)"
    "hdr_n h1 = length L" "\<And>i. i < length L \<Longrightarrow> hdr_home h1 i = L ! i" "hdr_n h0 = 0"
    "length h1 = BSIZE" "length h0 = BSIZE"
    by (rule commit_spec [OF L False, folded start_def new_def]) blast
  let ?ws = "commit_writes start new L h1 h0"
  have new: "(if b \<in> set L then new b else disk s b) = new b" for b
    using held_clean [OF l(1)] by (simp add: new_def)
  note cp = crash_point [where d = "disk s" and start = start and C = new, OF l(10,2,3) LA t(5,6,7), unfolded new]
  have fin: "disk t b = new b" if "b \<notin> log_area start" for b
    using that new [of b] apply_slots(2) [of "length L" b start] l(3)
    by (auto simp: t(4) commit_writes_def apply_home log_area_def)
  have "\<exists>v. initlog dev sb u = Done () v \<and> logged v [] \<and>
       ((\<forall>b. b \<notin> log_area start \<longrightarrow> disk v b = disk s b) \<or> (\<forall>b. b \<notin> log_area start \<longrightarrow> disk v b = new b))"
    if u: "held dev u {} {}" "length (lh_block u) = 30" "sb_logstart sb = start"
      "disk u = apply_writes (take k ?ws) (disk s)" for k dev sb and u :: "'z logst_scheme"
  proof -
    have hd: "disk u start = disk s start \<or> disk u start = h1 \<or> disk u start = h0" using cp [of k] u(4) by simp
    have home: "hdr_home h1 i \<notin> log_area start" if "i < hdr_n h1" for i
    proof -
      have i: "i < length L" using that t(5) by simp
      then have "L ! i \<in> set L" by (rule nth_mem)
      then show ?thesis using LA t(6) [OF i] by auto
    qed
    have "\<exists>v. initlog dev sb u = Done () v \<and> logged v [] \<and> (\<forall>b. b \<noteq> start \<longrightarrow> disk v b = recovered start (disk u) b)"
      by (rule reboot [OF u(1-3)]) (use hd home l(3,9,10) t(5,7-9) in auto)
    moreover have "b \<noteq> start" if "b \<notin> log_area start" for b using that by (auto simp: log_area_def)
    ultimately show ?thesis using cp [of k] unfolding u(4) [symmetric] by auto
  qed
  then show ?thesis using t(1-3) fin by (intro exI [of _ t] exI [of _ ?ws]) blast
qed

lemma home_block: "31 < unat b \<Longrightarrow> b \<notin> log_area 2"
proof
  assume b: "31 < unat b" "b \<in> log_area 2"
  then consider "b = 2" | i where "i < 29" "b = log_slot 2 i" by (auto simp: log_area_def)
  then show False
  proof cases
    case 2
    have "log_slot 2 i = of_nat (i + 3)" by (simp add: log_slot_def)
    then have "unat b = i + 3" using 2 by (simp add: unat_of_nat take_bit_nat_eq_self del: of_nat_add)
    then show False using b(1) 2(1) by simp
  qed (use b(1) in simp)
qed

lemma held_reboot: "held 1 (log_on (binit (boot_bio\<lparr>disk := d\<rparr>))) {} {}"
proof -
  have "cache_ok 1 (binit (boot_bio\<lparr>disk := d\<rparr>)) {}"
    using binit_spec [of "boot_bio\<lparr>disk := d\<rparr>" 1] boot_bio_zero by simp
  moreover have "refcnt (bufs (binit (boot_bio\<lparr>disk := d\<rparr>)) ! b) = 0" if "b < 30" for b
    using that by (simp add: binit_refcnt zero_buf_def)
  ultimately show ?thesis by (simp add: held_log_on held_fresh)
qed

theorem commit_crash_safe_witness:
  "\<exists>s t ws. log_block 40 (replicate BSIZE 7) (boot_log\<lparr>log_outstanding := 1\<rparr>) = Done () s \<and>
    commit s = Done () t \<and> writes t = writes s @ ws \<and> disk t 40 = replicate BSIZE 7 \<and>
    (\<forall>k sb. sb_logstart sb = 2 \<longrightarrow>
      (\<exists>v. initlog 1 sb (log_on (binit (boot_bio\<lparr>disk := apply_writes (take k ws) (disk s)\<rparr>))) = Done () v \<and>
        (disk v 40 = replicate BSIZE 0 \<or> disk v 40 = replicate BSIZE 7)))"
proof -
  let ?b = "boot_log\<lparr>log_outstanding := 1\<rparr>" and ?d = "replicate 1024 7 :: block"
  have h: "40 \<notin> log_area 2" by (rule home_block) simp
  have "\<exists>t. log_block 40 ?d ?b = Done () t \<and> logged t [40] \<and>
      content 1 t = (content 1 ?b)(40 := ?d) \<and> disk t = disk ?b \<and> log_dev t = 1 \<and> log_start t = 2"
    using log_block_spec(1) [of ?b "[]" 40 ?d] logged_boot h by auto
  then obtain s where s: "log_block 40 ?d ?b = Done () s" "logged s [40]" "content 1 s = (content 1 ?b)(40 := ?d)"
    "disk s = disk ?b" "log_dev s = 1" "log_start s = 2" by blast
  from commit_crash_safe [OF s(2), unfolded s(5,6)] obtain t ws where
    t: "commit s = Done () t" "writes t = writes s @ ws" "\<forall>b. b \<notin> log_area 2 \<longrightarrow> disk t b = content 1 s b"
    "\<forall>k dev sb (u :: logst). held dev u {} {} \<and> length (lh_block u) = 30 \<and> sb_logstart sb = 2 \<and>
       disk u = apply_writes (take k ws) (disk s) \<longrightarrow>
       (\<exists>v. initlog dev sb u = Done () v \<and> logged v [] \<and>
         ((\<forall>b. b \<notin> log_area 2 \<longrightarrow> disk v b = disk s b) \<or> (\<forall>b. b \<notin> log_area 2 \<longrightarrow> disk v b = content 1 s b)))"
    by blast
  have c: "content 1 s 40 = ?d" "disk s 40 = replicate 1024 0" by (simp_all add: s(3,4) binit_frame)
  have "\<exists>v. initlog 1 sb (log_on (binit (boot_bio\<lparr>disk := apply_writes (take k ws) (disk s)\<rparr>))) = Done () v \<and>
        (disk v 40 = replicate BSIZE 0 \<or> disk v 40 = ?d)" if "sb_logstart sb = 2" for k sb
    using t(4) [rule_format, of 1 "log_on (binit (boot_bio\<lparr>disk := apply_writes (take k ws) (disk s)\<rparr>))" sb k]
      held_reboot that h c by (auto simp: binit_frame)
  then show ?thesis
    using s(1) t(1,2) t(3) [rule_format, OF h] c(1) by (intro exI [of _ s] exI [of _ t] exI [of _ ws]) auto
qed

text \<open>
  \<^verbatim>\<open>log_write\<close> adds the block of the buffer to the transaction and pins it, once: a block
  that is logged already is absorbed. It panics when the log is full or no operation is
  under way. Neither the disk nor what readers see changes.
\<close>

theorem log_write_correct:
  fixes s :: "'z logst_scheme"
  defines "dev \<equiv> log_dev s"
  assumes "logging s L H" "b \<in> H" "blockno (bufs s ! b) \<notin> log_area (log_start s)" "log_size s \<le> LOGSIZE"
  shows "if int (length L) \<ge> log_size s - 1 then log_write b s = Panic ''too big a transaction''
    else if log_outstanding s < 1 then log_write b s = Panic ''log_write outside of trans''
    else \<exists>t. log_write b s = Done () t \<and>
      logging t (if blockno (bufs s ! b) \<in> set L then L else L @ [blockno (bufs s ! b)]) H \<and>
      content dev t = content dev s \<and> disk t = disk s \<and> writes t = writes s"
proof -
  note l = loggedD [OF assms(2)]
  consider "log_size s - 1 \<le> int (length L)" | "\<not> log_size s - 1 \<le> int (length L)" "log_outstanding s < 1"
    | "int (length L) < log_size s - 1" "0 < log_outstanding s" by linarith
  then show ?thesis
  proof cases
    case 3
    obtain t where "log_write b s = Done () t"
      "logging t (if blockno (bufs s ! b) \<in> set L then L else L @ [blockno (bufs s ! b)]) H"
      "content dev t = content dev s" "disk t = disk s" "writes t = writes s"
      unfolding dev_def by (rule log_write_spec [OF assms(2-4) 3(1) assms(5) 3(2)])
    with 3 show ?thesis by auto
  qed (use l(3,4) in \<open>simp_all add: log_write_def\<close>)
qed

theorem log_write_correct_witness:
  "\<exists>(s :: logst) b t. bread 1 40 (boot_log\<lparr>log_outstanding := 1\<rparr>) = Done b s \<and> log_write b s = Done () t \<and> logging t [40] {b}"
proof -
  let ?b = "boot_log\<lparr>log_outstanding := 1\<rparr>"
  have l: "logged ?b []" using logged_boot by simp
  then have h: "held 1 ?b {} {}" using loggedD(1) [OF l] by simp
  obtain b s where s: "bread 1 40 ?b = Done b s" "held 1 s {} {b}" "blockno (bufs s ! b) = 40" "s = ?b\<lparr>bufs := bufs s\<rparr>"
    by (rule held_bread [OF h, of 40]) auto
  note sl = same_log_bufs [OF s(4)]
  have "disk s = disk ?b" by (subst s(4), simp)
  then have "logging s [] {b}" by (intro logging_same [OF l sl]) (use s(2) in simp_all)
  moreover have "40 \<notin> log_area 2" by (rule home_block) simp
  ultimately show ?thesis
    using log_write_correct [of s "[]" "{b}" b] s(1,3) same_logD [OF sl] by auto
qed

text \<open>Operations on the counters keep the logged blocks.\<close>

lemma logging_committing [simp]: "logging (s\<lparr>log_committing := c\<rparr>) L H = logging s L H"
  by (simp add: logging_def held_def cache_ok_def myproc_def)

lemma content_log [simp]:
  "content dev (s\<lparr>log_outstanding := n\<rparr>) = content dev s" "content dev (s\<lparr>log_committing := c\<rparr>) = content dev s"
  by (simp_all add: content_def fun_eq_iff split: option.split)

lemma logging_wakeup: "logging s L H \<Longrightarrow> logging (wakeup ch s) L H"
proof -
  assume "logging s L H"
  moreover have "held dev s P H \<Longrightarrow> held dev (wakeup ch s) P H" for dev P
    using cache_ok_wakeup [of dev s H ch] by (simp add: held_def)
  ultimately show ?thesis by (simp add: logging_def) (simp add: wakeup_def)
qed

text \<open>
  C19. Group commit: \<^verbatim>\<open>end_op\<close> writes nothing to the disk while other operations are under way,
  and the last one to end commits all of them: the log is then empty and every home block
  on disk is as readers of the cache saw it. It panics during a commit.
\<close>

theorem end_op_correct:
  fixes s :: "'z logst_scheme"
  assumes "logged s L" "1 \<le> log_outstanding s"
  defines "s1 \<equiv> s\<lparr>log_outstanding := log_outstanding s - 1\<rparr>"
  shows "if log_committing s then end_op s = Panic ''log.committing''
    else if log_outstanding s > 1 then end_op s = Done () (wakeup ChanLog s1) \<and> writes (wakeup ChanLog s1) = writes s
    else \<exists>t. end_op s = Done () t \<and> logged t [] \<and> log_outstanding t = 0 \<and> \<not> log_committing t \<and>
      (\<forall>b. b \<notin> log_area (log_start s) \<longrightarrow> disk t b = content (log_dev s) s b)"
proof -
  consider "log_committing s" | "\<not> log_committing s" "log_outstanding s > 1"
    | "\<not> log_committing s" "log_outstanding s = 1" using assms(2) by linarith
  then show ?thesis
  proof cases
    case 3
    let ?u = "s\<lparr>log_outstanding := 0, log_committing := True\<rparr>"
    have u: "logged ?u L" using assms(1) by simp
    have "\<exists>t. commit ?u = Done () t \<and> logged t [] \<and> log_outstanding t = 0 \<and>
        (\<forall>b. b \<notin> log_area (log_start s) \<longrightarrow> disk t b = content (log_dev s) s b)"
    proof (cases "L = []")
      case True
      then show ?thesis using commit_empty [of ?u] u by (intro exI [of _ ?u]) simp
    next
      case False
      obtain t h1 h0 where t: "commit ?u = Done () t" "logged t []"
        "disk t = apply_writes (commit_writes (log_start s) (content (log_dev s) s) L h1 h0) (disk s)"
        "same_log (?u\<lparr>lh_n := 0\<rparr>) t"
        by (rule commit_spec [OF u False]) auto
      have "disk t b = content (log_dev s) s b" if "b \<notin> log_area (log_start s)" for b
        using that loggedD(3) [OF u] apply_slots(2) [of "length L" b "log_start s"] held_clean [OF loggedD(1) [OF assms(1)]]
        by (auto simp: t(3) commit_writes_def apply_home log_area_def)
      then show ?thesis using t same_logD(7) [OF t(4)] by auto
    qed
    then obtain t where t: "commit ?u = Done () t" "logged t []" "log_outstanding t = 0"
      "\<forall>b. b \<notin> log_area (log_start s) \<longrightarrow> disk t b = content (log_dev s) s b" by blast
    let ?t = "wakeup ChanLog (t\<lparr>log_committing := False\<rparr>)"
    have "end_op s = Done () ?t" using 3 t(1) by (simp add: end_op_def)
    moreover have "logged ?t []" using t(2) by (intro logging_wakeup) simp
    moreover have "log_outstanding ?t = 0" "\<not> log_committing ?t" "disk ?t = disk t"
      using t(3) by (simp_all add: wakeup_def)
    ultimately show ?thesis using 3 t(4) by auto
  qed (simp_all add: end_op_def Let_def s1_def)
qed

theorem end_op_correct_witness:
  "\<exists>t. end_op (boot_log\<lparr>log_outstanding := 1\<rparr>) = Done () t \<and> logged t [] \<and> log_outstanding t = 0"
  using end_op_correct [of "boot_log\<lparr>log_outstanding := 1\<rparr>" "[]"] logged_boot by auto

text \<open>Logging several blocks, by one or more operations.\<close>

fun log_blocks :: "block \<Rightarrow> uint list \<Rightarrow> 'z logst_scheme \<Rightarrow> (unit, 'z logst_scheme) outcome" where
  "log_blocks d [] s = Done () s"
| "log_blocks d (b # bs) s = kbind (log_block b d s) (\<lambda>_ s. log_blocks d bs s)"

lemma log_blocks_spec:
  assumes "logged s L" "log_size s = 30" "0 < log_outstanding s" "distinct (L @ bs)" "set bs \<inter> log_area (log_start s) = {}"
  shows "if length (L @ bs) \<le> 29 then \<exists>t. log_blocks d bs s = Done () t \<and> logged t (L @ bs)
    else log_blocks d bs s = Panic ''too big a transaction''"
  using assms
proof (induction bs arbitrary: s L)
  case Nil
  then show ?case using loggedD(3) [OF Nil(1)] by simp
next
  case (Cons b bs)
  have b: "b \<notin> log_area (log_start s)" "b \<notin> set L" using Cons.prems(4,5) by auto
  show ?case
  proof (cases "length L < 29")
    case False
    then have "log_block b d s = Panic ''too big a transaction''"
      using Cons.prems(2,3) by (intro log_block_spec(2) [OF Cons.prems(1) b(1)]) simp_all
    then show ?thesis using False by simp
  next
    case True
    then obtain t where t: "log_block b d s = Done () t" "logged t (L @ [b])" "log_start t = log_start s"
      "log_size t = log_size s" "log_outstanding t = log_outstanding s"
      using log_block_spec(1) [OF Cons.prems(1) b(1)] Cons.prems(2,3) b(2) by fastforce
    have "distinct ((L @ [b]) @ bs)" using Cons.prems(4) by simp
    from Cons.IH [OF t(2) _ _ this] show ?thesis using Cons.prems(2,3,5) t by (simp split: if_splits)
  qed
qed

text \<open>
  C20. What \<^verbatim>\<open>begin_op\<close> reserves is more than the log holds. It admits three operations at a time,
  each with a reservation of \<^verbatim>\<open>MAXOPBLOCKS\<close> blocks, and puts a fourth to sleep. When the three
  log up to 29 different blocks together all is well, but with thirty, the number reserved,
  \<^verbatim>\<open>log_write\<close> panics: the header takes one of the \<^verbatim>\<open>LOGSIZE\<close> blocks of the log.
\<close>

theorem begin_op_reservation:
  fixes s :: "'z logst_scheme"
  assumes "logged s []" "log_size s = LOGSIZE" "log_outstanding s = 0" "\<not> log_committing s"
    "distinct bs" "set bs \<inter> log_area (log_start s) = {}"
  shows "\<exists>t. kbind (begin_op s) (\<lambda>_ s. kbind (begin_op s) (\<lambda>_ s. begin_op s)) = Done () t \<and>
    begin_op t = ksleep ChanLog t \<and>
    (if length bs \<le> 29 then \<exists>u. log_blocks d bs t = Done () u \<and> logged u bs
     else log_blocks d bs t = Panic ''too big a transaction'')"
proof -
  let ?t = "s\<lparr>log_outstanding := 3\<rparr>"
  have n: "lh_n s = 0" using loggedD(4) [OF assms(1)] by simp
  have "kbind (begin_op s) (\<lambda>_ s. kbind (begin_op s) (\<lambda>_ s. begin_op s)) = Done () ?t"
    using assms(3,4) n by (simp add: begin_op_def)
  moreover have "begin_op ?t = ksleep ChanLog ?t" using assms(4) n by (simp add: begin_op_def)
  moreover have "logged ?t []" using assms(1) by simp
  ultimately show ?thesis using log_blocks_spec [of ?t "[]" bs d] assms(2,5,6) by (intro exI [of _ ?t]) (simp split: if_splits)
qed

theorem begin_op_reservation_witness:
  "\<exists>t. kbind (begin_op boot_log) (\<lambda>_ s. kbind (begin_op s) (\<lambda>_ s. begin_op s)) = Done () t \<and>
    log_blocks (replicate BSIZE 7) (map of_nat [40..<70]) t = Panic ''too big a transaction''"
proof -
  let ?bs = "map of_nat [40..<70] :: uint list"
  have u: "unat (of_nat i :: uint) = i" if "i < 70" for i
    using that by (simp add: unat_of_nat take_bit_nat_eq_self)
  have "distinct ?bs"
    unfolding distinct_map
  proof (intro conjI inj_onI)
    fix x y :: nat assume "x \<in> set [40..<70]" "y \<in> set [40..<70]" and eq: "(of_nat x :: uint) = of_nat y"
    then have "x < 70" "y < 70" by (simp_all only: set_upt atLeastLessThan_iff)
    then show "x = y" using u [of x] u [of y] eq by metis
  qed simp
  moreover have "of_nat i \<notin> log_area 2" if "i \<in> {40..<70}" for i
    using that u [of i] by (intro home_block) simp
  then have "set ?bs \<inter> log_area (log_start boot_log) = {}" unfolding set_map set_upt by auto
  ultimately show ?thesis
    using begin_op_reservation [OF logged_boot, of ?bs "replicate 1024 7"] by auto
qed

end
