(* ===== verification/Transact.thy ===== *)
theory Transact
  imports Log
begin

text \<open>
  How the file system works inside a transaction of the log: it reads blocks into buffers,
  changes and logs some of them and releases them. Until the commit nothing goes to the
  disk; what changes is the contents that readers of the cache see, the list of logged
  blocks and the buffers held. The lemmas here are the interface that the proofs about
  \<^verbatim>\<open>fs.c\<close> use.
\<close>

section \<open>The frame of a transaction\<close>

text \<open>What a step inside a transaction may change; it wakes other processes, but the current one stays as it is.\<close>

definition same_tx :: "'z logst_scheme \<Rightarrow> 'z logst_scheme \<Rightarrow> bool" where
  "same_tx s t \<longleftrightarrow> (\<exists>b p n bl. t = s\<lparr>bufs := b, procs := p, lh_n := n, lh_block := bl\<rparr> \<and> length p = length (procs s) \<and>
     (curproc s < length (procs s) \<longrightarrow> p ! curproc s = procs s ! curproc s))"

lemma same_txD:
  assumes "same_tx s t"
  shows "log_dev t = log_dev s" "log_start t = log_start s" "log_size t = log_size s"
    "log_outstanding t = log_outstanding s" "log_committing t = log_committing s" "disk t = disk s" "writes t = writes s"
    "mem t = mem s" "curproc t = curproc s" "logst.more t = logst.more s"
  using assms by (auto simp: same_tx_def)

lemma same_tx_proc:
  assumes "same_tx s t"
  shows "length (procs t) = length (procs s)" "curproc s < length (procs s) \<Longrightarrow> myproc t = myproc s"
    "kend t = kend s" "freelist t = freelist s"
  using assms by (auto simp: same_tx_def myproc_def)

lemma same_tx_refl: "same_tx s s"
  unfolding same_tx_def by (rule exI [of _ "bufs s"], rule exI [of _ "procs s"], rule exI [of _ "lh_n s"], rule exI [of _ "lh_block s"]) simp

lemma same_tx_trans [trans]: "same_tx s t \<Longrightarrow> same_tx t u \<Longrightarrow> same_tx s u"
  unfolding same_tx_def by (elim exE conjE, simp) (intro exI conjI, rule refl, auto)

lemma same_tx_bufs: "t = s\<lparr>bufs := b\<rparr> \<Longrightarrow> same_tx s t"
  unfolding same_tx_def by (rule exI [of _ "b"], rule exI [of _ "procs s"], rule exI [of _ "lh_n s"], rule exI [of _ "lh_block s"]) simp

lemma same_tx_procs:
  assumes "t = s\<lparr>bufs := b, procs := p\<rparr>" "length p = length (procs s)" "curproc s < length (procs s) \<longrightarrow> p ! curproc s = procs s ! curproc s"
  shows "same_tx s t"
  unfolding same_tx_def using assms
  by (intro exI [of _ "b"], intro exI [of _ "p"], intro exI [of _ "lh_n s"], intro exI [of _ "lh_block s"]) simp

lemma same_tx_lh: "t = s\<lparr>bufs := b, lh_n := n, lh_block := bl\<rparr> \<Longrightarrow> same_tx s t"
  unfolding same_tx_def by (rule exI [of _ "b"], rule exI [of _ "procs s"], rule exI [of _ "n"], rule exI [of _ "bl"]) simp

lemma brelse_procs:
  assumes "brelse b s = Done () t"
  shows "length (procs t) = length (procs s)" "curproc s < length (procs s) \<longrightarrow> procs t ! curproc s = procs s ! curproc s"
  using assms by (auto simp: brelse_def releasesleep_buf_def upd_buf_def wakeup_def wakeup_proc_def Let_def split: if_splits)

lemma log_write_same_tx:
  assumes "log_write b s = Done () t"
  shows "same_tx s t"
proof -
  have "t = s\<lparr>bufs := bufs t, lh_n := lh_n t, lh_block := lh_block t\<rparr>"
    using assms by (auto simp: log_write_def Let_def bpin_def upd_buf_def split: if_splits)
  then show ?thesis by (rule same_tx_lh)
qed

lemma log_write_bdata:
  assumes "log_write b s = Done () t" "b < length (bufs s)"
  shows "bdata (bufs t ! c) = bdata (bufs s ! c)"
  using assms by (auto simp: log_write_def Let_def bpin_def upd_buf_def nth_list_update split: if_splits)

lemma logging_tx:
  assumes "logging s L H" "held (log_dev s) t (set L) H'" "t = s\<lparr>bufs := b, procs := p\<rparr>"
  shows "logging t L H'"
  using assms by (simp add: logging_def)

lemma logging_tx_bufs:
  assumes "logging s L H" "held (log_dev s) t (set L) H'" "t = s\<lparr>bufs := b\<rparr>"
  shows "logging t L H'"
  using assms by (simp add: logging_def)

section \<open>Steps\<close>

text \<open>The log is the one of \<^verbatim>\<open>mkfs\<close>, and an operation is under way.\<close>

definition tx :: "'z logst_scheme \<Rightarrow> uint list \<Rightarrow> nat set \<Rightarrow> bool" where
  "tx s L H \<longleftrightarrow> logging s L H \<and> log_size s = 30 \<and> 0 < log_outstanding s"

lemma tx_same: "tx s L H \<Longrightarrow> same_tx s t \<Longrightarrow> logging t L' H' \<Longrightarrow> tx t L' H'"
  by (simp add: tx_def same_txD)

lemma txD:
  assumes "tx s L H"
  shows "logging s L H" "held (log_dev s) s (set L) H" "log_size s = 30" "0 < log_outstanding s" "distinct L"
  using assms loggedD(1,2) by (auto simp: tx_def)

lemma tx_bread:
  fixes s :: "'z logst_scheme"
  defines "dev \<equiv> log_dev s"
  assumes tx: "tx s L H" and nh: "\<And>c. c \<in> H \<Longrightarrow> blockno (bufs s ! c) \<noteq> bno"
    and room: "length L + card H < 30"
  obtains b t where "bread dev bno s = Done b t" "b < 30" "b \<notin> H" "tx t L (insert b H)" "same_tx s t"
    "blockno (bufs t ! b) = bno" "bdata (bufs t ! b) = content dev s bno" "content dev t = content dev s"
    "\<And>c. c \<in> H \<Longrightarrow> bufs t ! c = bufs s ! c"
proof -
  note l = txD [OF tx, folded dev_def]
  have "bno \<in> set L \<or> card (set L) + card H < 30" using room card_length [of L] by linarith
  then obtain b t where t: "bread dev bno s = Done b t" "b < 30" "b \<notin> H" "held dev t (set L) (insert b H)"
    "blockno (bufs t ! b) = bno" "bdata (bufs t ! b) = content dev s bno" "content dev t = content dev s"
    "\<And>c. c \<in> H \<Longrightarrow> bufs t ! c = bufs s ! c" "t = s\<lparr>bufs := bufs t\<rparr>"
    using held_bread [OF l(2) nh] by metis
  from logging_tx_bufs [OF l(1) t(4) [unfolded dev_def] t(9)] show thesis using tx_same [OF tx same_tx_bufs [OF t(9)]] same_tx_bufs [OF t(9)] t by (intro that [of b t])
qed

lemma tx_brelse:
  fixes s :: "'z logst_scheme"
  defines "dev \<equiv> log_dev s"
  assumes tx: "tx s L (insert b H)" and b: "b \<notin> H"
    and clean: "blockno (bufs s ! b) \<in> set L \<or> bdata (bufs s ! b) = disk s (blockno (bufs s ! b))"
  obtains t where "brelse b s = Done () t" "tx t L H" "same_tx s t" "content dev t = content dev s"
    "\<And>c. c < 30 \<Longrightarrow> blockno (bufs t ! c) = blockno (bufs s ! c) \<and> bdata (bufs t ! c) = bdata (bufs s ! c)"
proof -
  note l = txD [OF tx, folded dev_def]
  obtain t where t: "brelse b s = Done () t" "held dev t (set L) (insert b H - {b})" "content dev t = content dev s"
    "t = s\<lparr>bufs := bufs t, procs := procs t\<rparr>"
    "\<And>c. c < 30 \<Longrightarrow> blockno (bufs t ! c) = blockno (bufs s ! c) \<and> bdata (bufs t ! c) = bdata (bufs s ! c)"
    by (rule held_brelse [OF l(2) insertI1 clean]) blast
  have "held (log_dev s) t (set L) H" using t(2) b by (simp add: dev_def)
  from logging_tx [OF l(1) this t(4)] show thesis
    using tx_same [OF tx same_tx_procs [OF t(4) brelse_procs [OF t(1)]]] same_tx_procs [OF t(4) brelse_procs [OF t(1)]] t by (intro that [of t])
qed

text \<open>A buffer that was only read is clean.\<close>

lemma tx_clean:
  assumes "tx s L H" "b \<notin> set L" "\<And>c. c \<in> H \<Longrightarrow> blockno (bufs s ! c) \<noteq> b"
  shows "content (log_dev s) s b = disk s b"
  using held_clean [OF txD(2) [OF assms(1)] assms(2)] assms(3) by blast

text \<open>Reading a block and releasing its buffer.\<close>

lemma tx_release_read:
  fixes s :: "'z logst_scheme"
  defines "dev \<equiv> log_dev s"
  assumes tx: "tx s L (insert b H)" and b: "b \<notin> H" "blockno (bufs s ! b) = bno"
    and rd: "bno \<in> set L \<or> bdata (bufs s ! b) = disk s bno"
  obtains t where "brelse b s = Done () t" "tx t L H" "same_tx s t" "content dev t = content dev s"
    "\<And>c. c < 30 \<Longrightarrow> blockno (bufs t ! c) = blockno (bufs s ! c) \<and> bdata (bufs t ! c) = bdata (bufs s ! c)"
  using tx_brelse [OF tx b(1)] rd b(2) dev_def by metis

text \<open>The logged blocks after logging block \<open>b\<close>.\<close>

definition log_add :: "uint \<Rightarrow> uint list \<Rightarrow> uint list" where
  "log_add b L = (if b \<in> set L then L else L @ [b])"

lemma log_add_simps [simp]: "set (log_add b L) = insert b (set L)" "length (log_add b L) \<le> Suc (length L)"
  by (auto simp: log_add_def)

text \<open>Changing the data of a buffer just read, logging it and releasing it.\<close>

definition upd_data :: "nat \<Rightarrow> (block \<Rightarrow> block) \<Rightarrow> 'z bio_scheme \<Rightarrow> 'z bio_scheme" where
  "upd_data b f s = upd_buf b (\<lambda>x. x\<lparr>bdata := f (bdata x)\<rparr>) s"

lemma tx_log:
  fixes s :: "'z logst_scheme"
  defines "dev \<equiv> log_dev s"
  assumes tx: "tx s L H" and b: "b \<in> H" "blockno (bufs s ! b) = bno"
    and home: "bno \<notin> log_area (log_start s)" and room: "length L < 29"
  obtains t where "log_write b (upd_data b f s) = Done () t" "tx t (log_add bno L) H" "same_tx s t"
    "content dev t = (content dev s)(bno := f (bdata (bufs s ! b)))"
    "\<And>c. blockno (bufs t ! c) = blockno (bufs s ! c)"
    "\<And>c. bdata (bufs t ! c) = (if c = b then f (bdata (bufs s ! b)) else bdata (bufs s ! c))"
proof -
  note l = txD [OF tx, folded dev_def]
  let ?d = "f (bdata (bufs s ! b))" and ?s = "upd_data b f s"
  have s1: "?s = upd_buf b (\<lambda>x. x\<lparr>bdata := ?d\<rparr>) s" by (simp add: upd_data_def upd_buf_def)
  note 1 = held_set_data [OF l(2) b(1), of ?d, folded s1]
  have lt: "b < length (bufs s)" using held_buffer(3) [OF l(2) b(1)] .
  note L1 = logging_tx_bufs [OF l(1) 1(1) [unfolded dev_def] 1(4)]
  have bn: "blockno (bufs ?s ! c) = blockno (bufs s ! c)" for c using lt by (simp add: 1(3) nth_list_update)
  note f1 = same_txD [OF same_tx_bufs [OF 1(4)]]
  obtain t where t: "log_write b ?s = Done () t" "logging t (log_add bno L) H" "content dev t = content dev ?s"
    "\<And>c. blockno (bufs t ! c) = blockno (bufs ?s ! c)"
    by (rule log_write_spec [OF L1 b(1), unfolded bn f1 b(2) l(3), folded log_add_def dev_def])
      (use home room l(4) in \<open>auto simp: b(2) bn\<close>)
  have dt: "bdata (bufs t ! c) = bdata (bufs ?s ! c)" for c
    by (rule log_write_bdata [OF t(1)]) (simp add: 1(3) lt)
  note sm = same_tx_trans [OF same_tx_bufs [OF 1(4)] log_write_same_tx [OF t(1)]]
  have "bdata (bufs t ! c) = (if c = b then ?d else bdata (bufs s ! c))" for c
    using lt by (simp add: dt 1(3) nth_list_update)
  then show thesis
    by (intro that [OF t(1) tx_same [OF tx sm t(2)] sm]) (simp_all add: t(3,4) 1(2) b(2) bn)
qed

lemma tx_log_release:
  fixes s :: "'z logst_scheme"
  defines "dev \<equiv> log_dev s"
  assumes tx: "tx s L (insert b H)" and b: "b \<notin> H" "blockno (bufs s ! b) = bno"
    and home: "bno \<notin> log_area (log_start s)" and room: "length L < 29"
  obtains t where "kbind (log_write b (upd_data b f s)) (\<lambda>_ s. brelse b s) = Done () t" "tx t (log_add bno L) H"
    "same_tx s t" "content dev t = (content dev s)(bno := f (bdata (bufs s ! b)))"
    "\<And>c. c < 30 \<Longrightarrow> blockno (bufs t ! c) = blockno (bufs s ! c)"
    "\<And>c. c < 30 \<Longrightarrow> c \<noteq> b \<Longrightarrow> bdata (bufs t ! c) = bdata (bufs s ! c)"
proof -
  obtain u where u: "log_write b (upd_data b f s) = Done () u" "tx u (log_add bno L) (insert b H)" "same_tx s u"
    "content dev u = (content dev s)(bno := f (bdata (bufs s ! b)))" "\<And>c. blockno (bufs u ! c) = blockno (bufs s ! c)"
    "\<And>c. bdata (bufs u ! c) = (if c = b then f (bdata (bufs s ! b)) else bdata (bufs s ! c))"
    unfolding dev_def by (rule tx_log [OF tx insertI1 b(2) home room, where f = f]) blast
  have "blockno (bufs u ! b) \<in> set (log_add bno L)" by (simp add: u(5) b(2))
  then obtain t where t: "brelse b u = Done () t" "tx t (log_add bno L) H" "same_tx u t" "content (log_dev u) t = content (log_dev u) u"
    "\<And>c. c < 30 \<Longrightarrow> blockno (bufs t ! c) = blockno (bufs u ! c) \<and> bdata (bufs t ! c) = bdata (bufs u ! c)"
    using tx_brelse [OF u(2) b(1)] by metis
  have "content dev t = content dev u" using t(4) same_txD(1) [OF u(3)] by (simp add: dev_def)
  then show thesis
    using u(1) t(1) by (intro that [OF _ t(2) same_tx_trans [OF u(3) t(3)]]) (simp_all add: u(4,5,6) t(5))
qed

end
