(* ===== verification/Fs.thy ===== *)
theory Fs
  imports Transact
begin

text \<open>
  \<^verbatim>\<open>kernel/fs.c\<close>: the block allocator, inodes, directories and path names. An inode is named
  by its index in \<^verbatim>\<open>itable.inode[]\<close>; the sleep lock of an inode is a flag and an owner pid;
  sections under \<^verbatim>\<open>itable.lock\<close> are single steps. Path names and path elements are byte
  lists without the terminating NUL. A transfer between an inode and memory names the
  other end as a user address, a kernel (physical) address or a kernel stack variable,
  whose bytes are passed directly. The messages printed when the disk or the inode area
  is full are not part of the state.
\<close>

section \<open>State\<close>

record inode =
  idev :: uint
  inum :: uint
  iref :: int
  ilocked :: bool
  ipid :: int
  ivalid :: bool
  itype :: ushort
  imajor :: ushort
  iminor :: ushort
  inlink :: ushort
  isize :: uint
  iaddrs :: "uint list"

record fsst = logst +
  sb :: superblock
  inodes :: "inode list"

abbreviation (input) NINODE :: nat where "NINODE \<equiv> 50"
abbreviation (input) NDIRECT :: nat where "NDIRECT \<equiv> 12"
abbreviation (input) NINDIRECT :: nat where "NINDIRECT \<equiv> 256"
abbreviation (input) BPB :: nat where "BPB \<equiv> 8192"
abbreviation (input) ROOTDEV :: uint where "ROOTDEV \<equiv> 1"
abbreviation (input) ROOTINO :: uint where "ROOTINO \<equiv> 1"
abbreviation (input) FSMAGIC :: uint where "FSMAGIC \<equiv> 0x10203040"
abbreviation (input) DIRSIZ :: nat where "DIRSIZ \<equiv> 14"
abbreviation (input) T_DIR :: ushort where "T_DIR \<equiv> 1"
abbreviation (input) T_FILE :: ushort where "T_FILE \<equiv> 2"
abbreviation (input) T_DEVICE :: ushort where "T_DEVICE \<equiv> 3"

text \<open>\<^verbatim>\<open>IBLOCK(i, sb)\<close> and \<^verbatim>\<open>BBLOCK(b, sb)\<close>.\<close>

definition IBLOCK :: "uint \<Rightarrow> superblock \<Rightarrow> uint" where
  "IBLOCK i b = i div 16 + sb_inodestart b"

definition BBLOCK :: "uint \<Rightarrow> superblock \<Rightarrow> uint" where
  "BBLOCK b s = b div of_nat BPB + sb_bmapstart s"

definition upd_inode :: "nat \<Rightarrow> (inode \<Rightarrow> inode) \<Rightarrow> 'z fsst_scheme \<Rightarrow> 'z fsst_scheme" where
  "upd_inode ip f s = s\<lparr>inodes := (inodes s)[ip := f (inodes s ! ip)]\<rparr>"

section \<open>The superblock\<close>

definition decode_sb :: "block \<Rightarrow> superblock" where
  "decode_sb d = \<lparr>sb_magic = get32 d 0, sb_size = get32 d 4, sb_nblocks = get32 d 8, sb_ninodes = get32 d 12,
     sb_nlog = get32 d 16, sb_logstart = get32 d 20, sb_inodestart = get32 d 24, sb_bmapstart = get32 d 28\<rparr>"

definition readsb :: "uint \<Rightarrow> 'z fsst_scheme \<Rightarrow> (unit, 'z fsst_scheme) outcome" where
  "readsb dev s = kbind (bread dev 1 s) (\<lambda>bp s. brelse bp (s\<lparr>sb := decode_sb (bdata (bufs s ! bp))\<rparr>))"

definition fsinit :: "uint \<Rightarrow> 'z fsst_scheme \<Rightarrow> (unit, 'z fsst_scheme) outcome" where
  "fsinit dev s =
     kbind (readsb dev s) (\<lambda>_ s.
       if sb_magic (sb s) \<noteq> FSMAGIC then Panic ''invalid file system'' else initlog dev (sb s) s)"

section \<open>Blocks\<close>

definition bzero :: "uint \<Rightarrow> uint \<Rightarrow> 'z fsst_scheme \<Rightarrow> (unit, 'z fsst_scheme) outcome" where
  "bzero dev bno s =
     kbind (bread dev bno s) (\<lambda>bp s.
     kbind (log_write bp (upd_data bp (\<lambda>_. replicate BSIZE 0) s)) (\<lambda>_ s. brelse bp s))"

definition bitmap_bit :: "block \<Rightarrow> nat \<Rightarrow> bool" where
  "bitmap_bit d bi \<longleftrightarrow> byte_at d (bi div 8) AND push_bit (bi mod 8) 1 \<noteq> 0"

text \<open>The inner loop of \<^verbatim>\<open>balloc\<close>: the first clear bit of the bitmap block that stands for a block of the disk.\<close>

definition balloc_scan :: "block \<Rightarrow> nat \<Rightarrow> nat \<Rightarrow> nat option" where
  "balloc_scan d b sz = find (\<lambda>bi. \<not> bitmap_bit d bi) [0..<min BPB (sz - b)]"

function balloc_loop :: "uint \<Rightarrow> nat \<Rightarrow> nat \<Rightarrow> 'z fsst_scheme \<Rightarrow> (uint, 'z fsst_scheme) outcome" where
  "balloc_loop dev sz b s =
     (if b < sz
      then kbind (bread dev (BBLOCK (of_nat b) (sb s)) s) (\<lambda>bp s.
        case balloc_scan (bdata (bufs s ! bp)) b sz of
          Some bi \<Rightarrow>
            (let s = upd_data bp (\<lambda>d. d[bi div 8 := d ! (bi div 8) OR push_bit (bi mod 8) 1]) s
             in kbind (log_write bp s) (\<lambda>_ s.
                kbind (brelse bp s) (\<lambda>_ s.
                kbind (bzero dev (of_nat (b + bi)) s) (\<lambda>_ s. Done (of_nat (b + bi)) s))))
        | None \<Rightarrow> kbind (brelse bp s) (\<lambda>_ s. balloc_loop dev sz (b + BPB) s))
      else Done 0 s)"
  by pat_completeness auto
termination
  by (relation "measure (\<lambda>(dev, sz, b, s). sz - b)") auto

declare balloc_loop.simps [simp del]

definition balloc :: "uint \<Rightarrow> 'z fsst_scheme \<Rightarrow> (uint, 'z fsst_scheme) outcome" where
  "balloc dev s = balloc_loop dev (unat (sb_size (sb s))) 0 s"

definition bfree :: "uint \<Rightarrow> uint \<Rightarrow> 'z fsst_scheme \<Rightarrow> (unit, 'z fsst_scheme) outcome" where
  "bfree dev b s =
     kbind (bread dev (BBLOCK b (sb s)) s) (\<lambda>bp s.
       let bi = unat b mod BPB
       in if \<not> bitmap_bit (bdata (bufs s ! bp)) bi then Panic ''freeing free block''
          else let s = upd_data bp (\<lambda>d. d[bi div 8 := d ! (bi div 8) AND NOT (push_bit (bi mod 8) 1)]) s
               in kbind (log_write bp s) (\<lambda>_ s. brelse bp s))"

section \<open>The inode table\<close>

definition iinit :: "'z fsst_scheme \<Rightarrow> 'z fsst_scheme" where
  "iinit s = s\<lparr>inodes := map (\<lambda>x. x\<lparr>ilocked := False, ipid := 0\<rparr>) (inodes s)\<rparr>"

text \<open>\<^verbatim>\<open>struct dinode\<close> number \<^verbatim>\<open>inum % IPB\<close> of an inode block.\<close>

definition dip_off :: "uint \<Rightarrow> nat" where
  "dip_off i = 64 * (unat i mod 16)"

definition get_dinode :: "block \<Rightarrow> nat \<Rightarrow> inode \<Rightarrow> inode" where
  "get_dinode d o' x = x\<lparr>itype := get16 d o', imajor := get16 d (o' + 2), iminor := get16 d (o' + 4),
     inlink := get16 d (o' + 6), isize := get32 d (o' + 8), iaddrs := get32s d (o' + 12) (NDIRECT + 1)\<rparr>"

definition put_dinode :: "inode \<Rightarrow> nat \<Rightarrow> block \<Rightarrow> block" where
  "put_dinode x o' d =
     (let d = put16 d o' (itype x);
          d = put16 d (o' + 2) (imajor x);
          d = put16 d (o' + 4) (iminor x);
          d = put16 d (o' + 6) (inlink x);
          d = put32 d (o' + 8) (isize x)
      in put32s d (o' + 12) (iaddrs x))"

definition iget :: "uint \<Rightarrow> uint \<Rightarrow> 'z fsst_scheme \<Rightarrow> (nat, 'z fsst_scheme) outcome" where
  "iget dev i s =
     (case find (\<lambda>ip. iref (inodes s ! ip) > 0 \<and> idev (inodes s ! ip) = dev \<and> inum (inodes s ! ip) = i)
             [0..<length (inodes s)] of
        Some ip \<Rightarrow> Done ip (upd_inode ip (\<lambda>x. x\<lparr>iref := iref x + 1\<rparr>) s)
      | None \<Rightarrow>
          (case find (\<lambda>ip. iref (inodes s ! ip) = 0) [0..<length (inodes s)] of
             None \<Rightarrow> Panic ''iget: no inodes''
           | Some ip \<Rightarrow> Done ip (upd_inode ip (\<lambda>x. x\<lparr>idev := dev, inum := i, iref := 1, ivalid := False\<rparr>) s)))"

fun ialloc_loop :: "uint \<Rightarrow> ushort \<Rightarrow> nat \<Rightarrow> nat \<Rightarrow> 'z fsst_scheme \<Rightarrow> (nat option, 'z fsst_scheme) outcome" where
  "ialloc_loop dev type i 0 s = Done None s"
| "ialloc_loop dev type i (Suc n) s =
     kbind (bread dev (IBLOCK (of_nat i) (sb s)) s) (\<lambda>bp s.
       let o' = dip_off (of_nat i)
       in if get16 (bdata (bufs s ! bp)) o' = 0
          then let s = upd_data bp (\<lambda>d. put16 (put_bytes d o' (replicate 64 0)) o' type) s
               in kbind (log_write bp s) (\<lambda>_ s.
                  kbind (brelse bp s) (\<lambda>_ s.
                  kbind (iget dev (of_nat i) s) (\<lambda>ip s. Done (Some ip) s)))
          else kbind (brelse bp s) (\<lambda>_ s. ialloc_loop dev type (Suc i) n s))"

definition ialloc :: "uint \<Rightarrow> ushort \<Rightarrow> 'z fsst_scheme \<Rightarrow> (nat option, 'z fsst_scheme) outcome" where
  "ialloc dev type s = ialloc_loop dev type 1 (unat (sb_ninodes (sb s)) - 1) s"

definition iupdate :: "nat \<Rightarrow> 'z fsst_scheme \<Rightarrow> (unit, 'z fsst_scheme) outcome" where
  "iupdate ip s =
     (let x = inodes s ! ip
      in kbind (bread (idev x) (IBLOCK (inum x) (sb s)) s) (\<lambda>bp s.
         kbind (log_write bp (upd_data bp (put_dinode x (dip_off (inum x))) s)) (\<lambda>_ s. brelse bp s)))"

definition idup :: "nat \<Rightarrow> 'z fsst_scheme \<Rightarrow> 'z fsst_scheme" where
  "idup ip s = upd_inode ip (\<lambda>x. x\<lparr>iref := iref x + 1\<rparr>) s"

definition acquiresleep_inode :: "nat \<Rightarrow> 'z fsst_scheme \<Rightarrow> (unit, 'z fsst_scheme) outcome" where
  "acquiresleep_inode ip s =
     (if ilocked (inodes s ! ip) then ksleep (ChanInodeLock ip) s
      else Done () (upd_inode ip (\<lambda>x. x\<lparr>ilocked := True, ipid := pid (myproc s)\<rparr>) s))"

definition releasesleep_inode :: "nat \<Rightarrow> 'z fsst_scheme \<Rightarrow> 'z fsst_scheme" where
  "releasesleep_inode ip s =
     wakeup (ChanInodeLock ip) (upd_inode ip (\<lambda>x. x\<lparr>ilocked := False, ipid := 0\<rparr>) s)"

definition holdingsleep_inode :: "nat \<Rightarrow> 'z fsst_scheme \<Rightarrow> bool" where
  "holdingsleep_inode ip s \<longleftrightarrow> ilocked (inodes s ! ip) \<and> ipid (inodes s ! ip) = pid (myproc s)"

definition ilock :: "nat \<Rightarrow> 'z fsst_scheme \<Rightarrow> (unit, 'z fsst_scheme) outcome" where
  "ilock ip s =
     (if iref (inodes s ! ip) < 1 then Panic ''ilock''
      else kbind (acquiresleep_inode ip s) (\<lambda>_ s.
        if \<not> ivalid (inodes s ! ip)
        then let x = inodes s ! ip
             in kbind (bread (idev x) (IBLOCK (inum x) (sb s)) s) (\<lambda>bp s.
                  let s = upd_inode ip (get_dinode (bdata (bufs s ! bp)) (dip_off (inum x))) s
                  in kbind (brelse bp s) (\<lambda>_ s.
                       let s = upd_inode ip (\<lambda>x. x\<lparr>ivalid := True\<rparr>) s
                       in if itype (inodes s ! ip) = 0 then Panic ''ilock: no type'' else Done () s))
        else Done () s))"

definition iunlock :: "nat \<Rightarrow> 'z fsst_scheme \<Rightarrow> (unit, 'z fsst_scheme) outcome" where
  "iunlock ip s =
     (if \<not> holdingsleep_inode ip s \<or> iref (inodes s ! ip) < 1 then Panic ''iunlock''
      else Done () (releasesleep_inode ip s))"

section \<open>The blocks of an inode\<close>

definition bmap :: "nat \<Rightarrow> nat \<Rightarrow> 'z fsst_scheme \<Rightarrow> (uint, 'z fsst_scheme) outcome" where
  "bmap ip bn s =
     (let x = inodes s ! ip
      in if bn < NDIRECT
         then if iaddrs x ! bn = 0
              then kbind (balloc (idev x) s) (\<lambda>addr s.
                if addr = 0 then Done 0 s
                else Done addr (upd_inode ip (\<lambda>x. x\<lparr>iaddrs := (iaddrs x)[bn := addr]\<rparr>) s))
              else Done (iaddrs x ! bn) s
         else let bn = bn - NDIRECT
              in if bn < NINDIRECT
                 then kbind (if iaddrs x ! NDIRECT = 0
                        then kbind (balloc (idev x) s) (\<lambda>addr s.
                          if addr = 0 then Done 0 s
                          else Done addr (upd_inode ip (\<lambda>x. x\<lparr>iaddrs := (iaddrs x)[NDIRECT := addr]\<rparr>) s))
                        else Done (iaddrs x ! NDIRECT) s) (\<lambda>addr s.
                   if addr = 0 then Done 0 s
                   else kbind (bread (idev x) addr s) (\<lambda>bp s.
                     kbind (if get32 (bdata (bufs s ! bp)) (4 * bn) = 0
                       then kbind (balloc (idev x) s) (\<lambda>addr s.
                         if addr \<noteq> 0
                         then kbind (log_write bp (upd_data bp (\<lambda>d. put32 d (4 * bn) addr) s)) (\<lambda>_ s. Done addr s)
                         else Done addr s)
                       else Done (get32 (bdata (bufs s ! bp)) (4 * bn)) s) (\<lambda>addr s.
                     kbind (brelse bp s) (\<lambda>_ s. Done addr s))))
                 else Panic ''bmap: out of range'')"

fun itrunc_direct :: "nat \<Rightarrow> nat \<Rightarrow> nat \<Rightarrow> 'z fsst_scheme \<Rightarrow> (unit, 'z fsst_scheme) outcome" where
  "itrunc_direct ip i 0 s = Done () s"
| "itrunc_direct ip i (Suc n) s =
     (let x = inodes s ! ip
      in kbind (if iaddrs x ! i \<noteq> 0
           then kbind (bfree (idev x) (iaddrs x ! i) s) (\<lambda>_ s.
             Done () (upd_inode ip (\<lambda>x. x\<lparr>iaddrs := (iaddrs x)[i := 0]\<rparr>) s))
           else Done () s) (\<lambda>_ s. itrunc_direct ip (Suc i) n s))"

fun itrunc_indirect :: "uint \<Rightarrow> uint list \<Rightarrow> 'z fsst_scheme \<Rightarrow> (unit, 'z fsst_scheme) outcome" where
  "itrunc_indirect dev [] s = Done () s"
| "itrunc_indirect dev (a # as) s =
     kbind (if a \<noteq> 0 then bfree dev a s else Done () s) (\<lambda>_ s. itrunc_indirect dev as s)"

definition itrunc :: "nat \<Rightarrow> 'z fsst_scheme \<Rightarrow> (unit, 'z fsst_scheme) outcome" where
  "itrunc ip s =
     kbind (itrunc_direct ip 0 NDIRECT s) (\<lambda>_ s.
     let x = inodes s ! ip
     in kbind (if iaddrs x ! NDIRECT \<noteq> 0
          then kbind (bread (idev x) (iaddrs x ! NDIRECT) s) (\<lambda>bp s.
               kbind (itrunc_indirect (idev x) (get32s (bdata (bufs s ! bp)) 0 NINDIRECT) s) (\<lambda>_ s.
               kbind (brelse bp s) (\<lambda>_ s.
               kbind (bfree (idev x) (iaddrs x ! NDIRECT) s) (\<lambda>_ s.
                 Done () (upd_inode ip (\<lambda>x. x\<lparr>iaddrs := (iaddrs x)[NDIRECT := 0]\<rparr>) s)))))
          else Done () s) (\<lambda>_ s.
        iupdate ip (upd_inode ip (\<lambda>x. x\<lparr>isize := 0\<rparr>) s)))"

definition iput :: "nat \<Rightarrow> 'z fsst_scheme \<Rightarrow> (unit, 'z fsst_scheme) outcome" where
  "iput ip s =
     kbind (if iref (inodes s ! ip) = 1 \<and> ivalid (inodes s ! ip) \<and> inlink (inodes s ! ip) = 0
       then kbind (acquiresleep_inode ip s) (\<lambda>_ s.
            kbind (itrunc ip s) (\<lambda>_ s.
            kbind (iupdate ip (upd_inode ip (\<lambda>x. x\<lparr>itype := 0\<rparr>) s)) (\<lambda>_ s.
              Done () (releasesleep_inode ip (upd_inode ip (\<lambda>x. x\<lparr>ivalid := False\<rparr>) s)))))
       else Done () s) (\<lambda>_ s.
     Done () (upd_inode ip (\<lambda>x. x\<lparr>iref := iref x - 1\<rparr>) s))"

definition iunlockput :: "nat \<Rightarrow> 'z fsst_scheme \<Rightarrow> (unit, 'z fsst_scheme) outcome" where
  "iunlockput ip s = kbind (iunlock ip s) (\<lambda>_ s. iput ip s)"

record stat =
  st_dev :: uint
  st_ino :: uint
  st_type :: ushort
  st_nlink :: ushort
  st_size :: uint64

definition stati :: "nat \<Rightarrow> 'z fsst_scheme \<Rightarrow> stat" where
  "stati ip s = (let x = inodes s ! ip in
     \<lparr>st_dev = idev x, st_ino = inum x, st_type = itype x, st_nlink = inlink x, st_size = ucast (isize x)\<rparr>)"

section \<open>Reading and writing\<close>

datatype dest = UserDst uint64 | KernelDst uint64 | BufDst
datatype source = UserSrc uint64 | KernelSrc uint64 | BufSrc "byte list"

text \<open>\<^verbatim>\<open>either_copyout\<close> and \<^verbatim>\<open>either_copyin\<close> at distance \<open>k\<close> from the start of the transfer.\<close>

definition put_dest :: "dest \<Rightarrow> nat \<Rightarrow> byte list \<Rightarrow> 'z kproc_scheme \<Rightarrow> (int, 'z kproc_scheme) outcome" where
  "put_dest dst k bs s = (case dst of UserDst a \<Rightarrow> either_copyout True (a + of_nat k) bs s
     | KernelDst a \<Rightarrow> either_copyout False (a + of_nat k) bs s | BufDst \<Rightarrow> Done 0 s)"

definition get_source :: "source \<Rightarrow> nat \<Rightarrow> nat \<Rightarrow> 'z kproc_scheme \<Rightarrow> (int \<times> byte list, 'z kproc_scheme) outcome" where
  "get_source src k m s = (case src of UserSrc a \<Rightarrow> either_copyin True (a + of_nat k) m s
     | KernelSrc a \<Rightarrow> either_copyin False (a + of_nat k) m s | BufSrc bs \<Rightarrow> Done (0, take m (drop k bs)) s)"

text \<open>
  The loop of \<^verbatim>\<open>readi\<close> with \<open>rem\<close> bytes to go after \<open>tot\<close>: the result and the bytes delivered.
  The bytes matter for a stack variable only.
\<close>

function readi_loop ::
  "nat \<Rightarrow> dest \<Rightarrow> nat \<Rightarrow> nat \<Rightarrow> nat \<Rightarrow> 'z fsst_scheme \<Rightarrow> (int \<times> byte list, 'z fsst_scheme) outcome" where
  "readi_loop ip dst off tot rem s =
     (if rem = 0 then Done (int tot, []) s
      else kbind (bmap ip (off div BSIZE) s) (\<lambda>addr s.
        if addr = 0 then Done (int tot, []) s
        else kbind (bread (idev (inodes s ! ip)) addr s) (\<lambda>bp s.
          let m = min rem (BSIZE - off mod BSIZE);
              bs = take m (drop (off mod BSIZE) (bdata (bufs s ! bp)))
          in kbind (put_dest dst tot bs s) (\<lambda>r s.
               if r = -1 then kbind (brelse bp s) (\<lambda>_ s. Done (-1, []) s)
               else kbind (brelse bp s) (\<lambda>_ s.
                 kbind (readi_loop ip dst (off + m) (tot + m) (rem - m) s) (\<lambda>(r, rest) s.
                   Done (r, bs @ rest) s))))))"
  by pat_completeness auto
termination
  by (relation "measure (\<lambda>(ip, dst, off, tot, rem, s). rem)") auto

declare readi_loop.simps [simp del]

definition readi :: "nat \<Rightarrow> dest \<Rightarrow> uint \<Rightarrow> uint \<Rightarrow> 'z fsst_scheme \<Rightarrow> (int \<times> byte list, 'z fsst_scheme) outcome" where
  "readi ip dst off n s =
     (let sz = isize (inodes s ! ip)
      in if off > sz \<or> off + n < off then Done (0, []) s
         else let n = (if off + n > sz then sz - off else n)
              in readi_loop ip dst (unat off) 0 (unat n) s)"

text \<open>The loop of \<^verbatim>\<open>writei\<close>: the number of bytes written. A failed copy may have changed the buffer.\<close>

function writei_loop ::
  "nat \<Rightarrow> source \<Rightarrow> nat \<Rightarrow> nat \<Rightarrow> nat \<Rightarrow> 'z fsst_scheme \<Rightarrow> (nat, 'z fsst_scheme) outcome" where
  "writei_loop ip src off tot rem s =
     (if rem = 0 then Done tot s
      else kbind (bmap ip (off div BSIZE) s) (\<lambda>addr s.
        if addr = 0 then Done tot s
        else kbind (bread (idev (inodes s ! ip)) addr s) (\<lambda>bp s.
          let m = min rem (BSIZE - off mod BSIZE)
          in kbind (get_source src tot m s) (\<lambda>(r, bs) s.
               let s = upd_data bp (\<lambda>d. put_bytes d (off mod BSIZE) bs) s
               in if r = -1 then kbind (brelse bp s) (\<lambda>_ s. Done tot s)
                  else kbind (log_write bp s) (\<lambda>_ s.
                       kbind (brelse bp s) (\<lambda>_ s.
                         writei_loop ip src (off + m) (tot + m) (rem - m) s))))))"
  by pat_completeness auto
termination
  by (relation "measure (\<lambda>(ip, src, off, tot, rem, s). rem)") auto

declare writei_loop.simps [simp del]

definition writei :: "nat \<Rightarrow> source \<Rightarrow> uint \<Rightarrow> uint \<Rightarrow> 'z fsst_scheme \<Rightarrow> (int, 'z fsst_scheme) outcome" where
  "writei ip src off n s =
     (if off > isize (inodes s ! ip) \<or> off + n < off then Done (-1) s
      else if off + n > of_nat ((NDIRECT + NINDIRECT) * BSIZE) then Done (-1) s
      else kbind (writei_loop ip src (unat off) 0 (unat n) s) (\<lambda>tot s.
        let off = off + of_nat tot;
            s = (if off > isize (inodes s ! ip) then upd_inode ip (\<lambda>x. x\<lparr>isize := off\<rparr>) s else s)
        in kbind (iupdate ip s) (\<lambda>_ s. Done (int tot) s)))"

section \<open>Directories\<close>

text \<open>A name as a byte list: the bytes before the first NUL among the first \<open>DIRSIZ\<close>.\<close>

definition cut_name :: "byte list \<Rightarrow> byte list" where
  "cut_name bs = takeWhile (\<lambda>c. c \<noteq> 0) (take DIRSIZ bs)"

definition namecmp :: "byte list \<Rightarrow> byte list \<Rightarrow> bool" where
  "namecmp s t \<longleftrightarrow> cut_name s = cut_name t"

function dirlookup_loop ::
  "nat \<Rightarrow> byte list \<Rightarrow> nat \<Rightarrow> nat \<Rightarrow> 'z fsst_scheme \<Rightarrow> ((nat \<times> nat) option, 'z fsst_scheme) outcome" where
  "dirlookup_loop dp name sz off s =
     (if off < sz
      then kbind (readi dp BufDst (of_nat off) 16 s) (\<lambda>(r, de) s.
        if r \<noteq> 16 then Panic ''dirlookup read''
        else if get16 de 0 = 0 then dirlookup_loop dp name sz (off + 16) s
        else if namecmp name (drop 2 de)
        then kbind (iget (idev (inodes s ! dp)) (ucast (get16 de 0)) s) (\<lambda>ip s. Done (Some (ip, off)) s)
        else dirlookup_loop dp name sz (off + 16) s)
      else Done None s)"
  by pat_completeness auto
termination
  by (relation "measure (\<lambda>(dp, name, sz, off, s). sz - off)") auto

declare dirlookup_loop.simps [simp del]

text \<open>The inode found and the offset of its entry.\<close>

definition dirlookup :: "nat \<Rightarrow> byte list \<Rightarrow> 'z fsst_scheme \<Rightarrow> ((nat \<times> nat) option, 'z fsst_scheme) outcome" where
  "dirlookup dp name s =
     (if itype (inodes s ! dp) \<noteq> T_DIR then Panic ''dirlookup not DIR''
      else dirlookup_loop dp name (unat (isize (inodes s ! dp))) 0 s)"

function dirlink_find :: "nat \<Rightarrow> nat \<Rightarrow> nat \<Rightarrow> 'z fsst_scheme \<Rightarrow> (nat, 'z fsst_scheme) outcome" where
  "dirlink_find dp sz off s =
     (if off < sz
      then kbind (readi dp BufDst (of_nat off) 16 s) (\<lambda>(r, de) s.
        if r \<noteq> 16 then Panic ''dirlink read''
        else if get16 de 0 = 0 then Done off s
        else dirlink_find dp sz (off + 16) s)
      else Done off s)"
  by pat_completeness auto
termination
  by (relation "measure (\<lambda>(dp, sz, off, s). sz - off)") auto

declare dirlink_find.simps [simp del]

text \<open>The bytes of \<^verbatim>\<open>struct dirent\<close>.\<close>

definition dirent :: "uint \<Rightarrow> byte list \<Rightarrow> byte list" where
  "dirent i name = bytes16 (ucast i) @ (let n = cut_name name in n @ replicate (DIRSIZ - length n) 0)"

definition dirlink :: "nat \<Rightarrow> byte list \<Rightarrow> uint \<Rightarrow> 'z fsst_scheme \<Rightarrow> (int, 'z fsst_scheme) outcome" where
  "dirlink dp name i s =
     kbind (dirlookup dp name s) (\<lambda>r s.
       case r of
         Some (ip, _) \<Rightarrow> kbind (iput ip s) (\<lambda>_ s. Done (-1) s)
       | None \<Rightarrow> kbind (dirlink_find dp (unat (isize (inodes s ! dp))) 0 s) (\<lambda>off s.
           kbind (writei dp (BufSrc (dirent i name)) (of_nat off) 16 s) (\<lambda>r s.
             if r \<noteq> 16 then Done (-1) s else Done 0 s)))"

section \<open>Paths\<close>

definition skipelem :: "byte list \<Rightarrow> (byte list \<times> byte list) option" where
  "skipelem path =
     (let path = dropWhile (\<lambda>c. c = 47) path
      in if path = [] then None
         else let elem = takeWhile (\<lambda>c. c \<noteq> 47) path;
                  path = dropWhile (\<lambda>c. c \<noteq> 47) path
              in Some (dropWhile (\<lambda>c. c = 47) path, take DIRSIZ elem))"

lemma skipelem_shorter:
  assumes "skipelem path = Some (rest, name)"
  shows "length rest < length path"
proof -
  let ?p = "dropWhile (\<lambda>c. c = 47) path" and ?q = "dropWhile (\<lambda>c. c \<noteq> 47) (dropWhile (\<lambda>c. c = 47) path)"
  have p: "?p \<noteq> []" and rest: "rest = dropWhile (\<lambda>c. c = 47) ?q"
    using assms by (auto simp: skipelem_def Let_def split: if_splits)
  then have "hd ?p \<noteq> 47" using hd_dropWhile by blast
  with p have "?q = dropWhile (\<lambda>c. c \<noteq> 47) (tl ?p)" by (cases ?p) auto
  then have "length ?q \<le> length (tl ?p)" using length_dropWhile_le [of _ "tl ?p"] by (simp only:)
  moreover have "length rest \<le> length ?q" by (simp add: rest length_dropWhile_le)
  moreover have "length ?p \<le> length path" by (rule length_dropWhile_le)
  moreover have "length (tl ?p) < length ?p" using p by simp
  ultimately show ?thesis by linarith
qed

text \<open>The result: the inode, if any, and the last path element.\<close>

function namex_loop ::
  "nat \<Rightarrow> byte list \<Rightarrow> bool \<Rightarrow> byte list \<Rightarrow> 'z fsst_scheme \<Rightarrow> (nat option \<times> byte list, 'z fsst_scheme) outcome" where
  "namex_loop ip path nameiparent name s =
     (case skipelem path of
        Some (path, name) \<Rightarrow>
          kbind (ilock ip s) (\<lambda>_ s.
            if itype (inodes s ! ip) \<noteq> T_DIR then kbind (iunlockput ip s) (\<lambda>_ s. Done (None, name) s)
            else if nameiparent \<and> path = [] then kbind (iunlock ip s) (\<lambda>_ s. Done (Some ip, name) s)
            else kbind (dirlookup ip name s) (\<lambda>r s.
              case r of
                None \<Rightarrow> kbind (iunlockput ip s) (\<lambda>_ s. Done (None, name) s)
              | Some (next, _) \<Rightarrow> kbind (iunlockput ip s) (\<lambda>_ s. namex_loop next path nameiparent name s)))
      | None \<Rightarrow>
          if nameiparent then kbind (iput ip s) (\<lambda>_ s. Done (None, name) s) else Done (Some ip, name) s)"
  by pat_completeness auto
termination
  by (relation "measure (\<lambda>(ip, path, nameiparent, name, s). length path)") (auto dest: skipelem_shorter)

declare namex_loop.simps [simp del]

definition namex :: "byte list \<Rightarrow> bool \<Rightarrow> 'z fsst_scheme \<Rightarrow> (nat option \<times> byte list, 'z fsst_scheme) outcome" where
  "namex path nameiparent s =
     kbind (if path \<noteq> [] \<and> hd path = 47 then iget ROOTDEV ROOTINO s
       else let ip = the (cwd (myproc s)) in Done ip (idup ip s)) (\<lambda>ip s.
     namex_loop ip path nameiparent [] s)"

definition namei :: "byte list \<Rightarrow> 'z fsst_scheme \<Rightarrow> (nat option, 'z fsst_scheme) outcome" where
  "namei path s = kbind (namex path False s) (\<lambda>(ip, _) s. Done ip s)"

definition nameiparent :: "byte list \<Rightarrow> 'z fsst_scheme \<Rightarrow> (nat option \<times> byte list, 'z fsst_scheme) outcome" where
  "nameiparent path s = namex path True s"

section \<open>A concrete state\<close>

text \<open>The superblock that \<^verbatim>\<open>mkfs\<close> writes, and an empty inode table.\<close>

definition example_sb :: superblock where
  "example_sb = \<lparr>sb_magic = FSMAGIC, sb_size = 2000, sb_nblocks = 1954, sb_ninodes = 200, sb_nlog = 30, sb_logstart = 2,
     sb_inodestart = 32, sb_bmapstart = 45\<rparr>"

definition zero_inode :: inode where
  "zero_inode = \<lparr>idev = 0, inum = 0, iref = 0, ilocked = False, ipid = 0, ivalid = False, itype = 0, imajor = 0, iminor = 0,
     inlink = 0, isize = 0, iaddrs = replicate 13 0\<rparr>"

definition fs_on :: "logst \<Rightarrow> fsst" where
  "fs_on s = logst.extend s (fsst.fields example_sb (replicate NINODE zero_inode))"

lemma fs_on_simps [simp]:
  "mem (fs_on s) = mem s" "kend (fs_on s) = kend s" "freelist (fs_on s) = freelist s"
  "superpages (fs_on s) = superpages s" "nfree (fs_on s) = nfree s"
  "procs (fs_on s) = procs s" "curproc (fs_on s) = curproc s" "initproc (fs_on s) = initproc s"
  "nextpid (fs_on s) = nextpid s" "ticks (fs_on s) = ticks s"
  "bufs (fs_on s) = bufs s" "disk (fs_on s) = disk s" "writes (fs_on s) = writes s"
  "log_start (fs_on s) = log_start s" "log_size (fs_on s) = log_size s" "log_outstanding (fs_on s) = log_outstanding s"
  "log_committing (fs_on s) = log_committing s" "log_dev (fs_on s) = log_dev s" "lh_n (fs_on s) = lh_n s"
  "lh_block (fs_on s) = lh_block s" "sb (fs_on s) = example_sb" "inodes (fs_on s) = replicate NINODE zero_inode"
  by (simp_all add: fs_on_def logst.defs fsst.defs)

end
