(* ===== verification/Ring.thy ===== *)
theory Ring
  imports Prelude
begin

text \<open>
  Ring buffers with free-running counters, as the pipe, the serial port and the console
  use them: element number \<open>i\<close> lies in slot \<open>i mod N\<close>, and the counters wrap around at the
  width of their word. The locale \<open>fifo\<close> is the contract of a bounded first-in first-out
  queue, and the lemmas in it are what the clients of the three rings rely on.
\<close>

section \<open>The contract of a bounded queue\<close>

locale fifo =
  fixes ok :: "'q \<Rightarrow> bool" and items :: "'q \<Rightarrow> 'e list" and cap :: nat
    and put :: "'e \<Rightarrow> 'q \<Rightarrow> 'q" and get :: "'q \<Rightarrow> 'e \<times> 'q"
  assumes bounded: "ok q \<Longrightarrow> length (items q) \<le> cap"
    and put_ok: "ok q \<Longrightarrow> length (items q) < cap \<Longrightarrow> ok (put e q)"
    and put_items: "ok q \<Longrightarrow> length (items q) < cap \<Longrightarrow> items (put e q) = items q @ [e]"
    and get_ok: "ok q \<Longrightarrow> items q \<noteq> [] \<Longrightarrow> ok (snd (get q))"
    and get_items: "ok q \<Longrightarrow> items q \<noteq> [] \<Longrightarrow> items q = fst (get q) # items (snd (get q))"
begin

fun puts :: "'e list \<Rightarrow> 'q \<Rightarrow> 'q" where
  "puts [] q = q"
| "puts (e # es) q = puts es (put e q)"

fun gets :: "nat \<Rightarrow> 'q \<Rightarrow> 'e list \<times> 'q" where
  "gets 0 q = ([], q)"
| "gets (Suc n) q = (let (e, q) = get q; (es, q) = gets n q in (e # es, q))"

lemma puts_spec:
  "ok q \<Longrightarrow> length (items q) + length es \<le> cap \<Longrightarrow> ok (puts es q) \<and> items (puts es q) = items q @ es"
  by (induction es arbitrary: q) (simp_all add: put_ok put_items)

lemma gets_spec:
  "ok q \<Longrightarrow> n \<le> length (items q) \<Longrightarrow>
    fst (gets n q) = take n (items q) \<and> ok (snd (gets n q)) \<and> items (snd (gets n q)) = drop n (items q)"
proof (induction n arbitrary: q)
  case (Suc n)
  then have "items q \<noteq> []" by auto
  then have i: "items q = fst (get q) # items (snd (get q))" and k: "ok (snd (get q))"
    using Suc.prems(1) by (rule get_items [rotated], rule get_ok [rotated])
  have "n \<le> length (items (snd (get q)))" using Suc.prems(2) arg_cong [OF i, of length] by simp
  from Suc.IH [OF k this] show ?case
    using arg_cong [OF i, of "take (Suc n)"] arg_cong [OF i, of "drop (Suc n)"]
    by (simp add: case_prod_unfold Let_def)
qed simp

lemma puts_gets:
  assumes "ok q" "items q = []" "length es \<le> cap"
  shows "fst (gets (length es) (puts es q)) = es" and "items (snd (gets (length es) (puts es q))) = []"
  using puts_spec [OF assms(1), of es] gets_spec [of "puts es q" "length es"] assms(2,3) by simp_all

end

section \<open>Rings\<close>

text \<open>The elements from counter \<open>r\<close> up to counter \<open>w\<close>, oldest first.\<close>

definition ring :: "'e list \<Rightarrow> 'a::len word \<Rightarrow> 'a word \<Rightarrow> 'e list" where
  "ring buf r w = map (\<lambda>i. buf ! ((unat r + i) mod length buf)) [0..<unat (w - r)]"

text \<open>The slot of a counter that wraps around is that of the counter that does not, when the size divides the range.\<close>

lemma slot_wrap:
  fixes r :: "'a::len word"
  assumes "N dvd 2 ^ LENGTH('a)"
  shows "unat (r + of_nat i) mod N = (unat r + i) mod N"
proof -
  have "unat (r + of_nat i) = (unat r + i) mod 2 ^ LENGTH('a)"
    by (simp add: unat_word_ariths unat_of_nat mod_simps)
  then show ?thesis using assms by (simp add: mod_mod_cancel)
qed

lemma length_ring [simp]: "length (ring buf r w) = unat (w - r)"
  by (simp add: ring_def)

lemma ring_empty_iff: "ring buf r w = [] \<longleftrightarrow> r = w"
  using unat_gt_0 [of "w - r"] by (auto simp: ring_def)

lemma unat_Suc_diff:
  fixes r w :: "'a::len word"
  assumes "Suc (unat (w - r)) < 2 ^ LENGTH('a)"
  shows "unat (w + 1 - r) = Suc (unat (w - r))"
proof -
  have "w + 1 - r = (w - r) + 1" by simp
  then show ?thesis using assms unat_add_nowrap [of "w - r" 1] by (simp only: unat_1 Suc_eq_plus1)
qed

lemma ring_put:
  fixes r w :: "'a::len word"
  assumes "length buf dvd 2 ^ LENGTH('a)" "unat (w - r) < length buf" "length buf < 2 ^ LENGTH('a)"
  shows "ring (buf[unat w mod length buf := e]) r (w + 1) = ring buf r w @ [e]"
proof -
  let ?N = "length buf" and ?n = "unat (w - r)"
  have w: "unat w mod ?N = (unat r + ?n) mod ?N"
    using slot_wrap [OF assms(1), of r ?n] by simp
  have ne: "(unat r + i) mod ?N \<noteq> (unat r + ?n) mod ?N" if "i < ?n" for i
  proof
    assume "(unat r + i) mod ?N = (unat r + ?n) mod ?N"
    then have "?N dvd (unat r + ?n) - (unat r + i)"
      using that by (metis add_le_cancel_left less_imp_le mod_eq_dvd_iff_nat)
    then have "?N dvd ?n - i" by simp
    moreover have "0 < ?n - i" "?n - i < ?N" using that assms(2) by simp_all
    ultimately show False using nat_dvd_not_less by blast
  qed
  moreover have "unat (w + 1 - r) = Suc ?n" using assms by (intro unat_Suc_diff) simp
  moreover have "(unat r + ?n) mod ?N < ?N" using assms(2) by (intro mod_less_divisor) linarith
  ultimately show ?thesis unfolding ring_def w using ne [symmetric] by (simp add: nth_list_update)
qed

lemma ring_get:
  fixes r w :: "'a::len word"
  assumes "length buf dvd 2 ^ LENGTH('a)" "r \<noteq> w"
  shows "ring buf r w = buf ! (unat r mod length buf) # ring buf (r + 1) w"
proof -
  have "w - r \<noteq> 0" using assms(2) by simp
  then have d: "unat (w - r) = Suc (unat (w - (r + 1)))"
    by (metis Suc_pred' diff_diff_eq unat_gt_0 unat_minus_one)
  have s: "(unat (r + 1) + i) mod length buf = (unat r + Suc i) mod length buf" for i
    using slot_wrap [OF assms(1), of r 1] by (simp add: mod_simps) (metis add.commute mod_add_left_eq add_Suc_right plus_1_eq_Suc add.assoc)
  show ?thesis by (simp add: ring_def d upt_conv_Cons map_Suc_upt [symmetric] s del: upt_Suc)
qed

lemma ring_full_iff:
  fixes r w :: "'a::len word"
  assumes "N < 2 ^ LENGTH('a)"
  shows "w = r + of_nat N \<longleftrightarrow> unat (w - r) = N"
proof
  assume "unat (w - r) = N"
  then have "w - r = of_nat N" by (simp add: word_unat_eq_iff unat_of_nat assms)
  then show "w = r + of_nat N" by (simp add: algebra_simps)
qed (use assms in \<open>simp add: unat_of_nat\<close>)

lemma ring_append:
  fixes r w e :: "'a::len word"
  assumes "length buf dvd 2 ^ LENGTH('a)" "unat (w - r) \<le> unat (e - r)"
  shows "ring buf r e = ring buf r w @ ring buf w e"
proof -
  let ?n = "unat (w - r)" and ?m = "unat (e - w)"
  have "e - w = (e - r) - (w - r)" by simp
  moreover have "w - r \<le> e - r" using assms(2) by (simp add: word_le_nat_alt)
  ultimately have m: "?m = unat (e - r) - ?n" using unat_sub by metis
  have "unat w mod length buf = (unat r + ?n) mod length buf" using slot_wrap [OF assms(1), of r ?n] by simp
  then have "(unat w + i) mod length buf = (unat r + (?n + i)) mod length buf" for i
    by (metis add.assoc mod_add_left_eq)
  moreover have "[0..<unat (e - r)] = [0..<?n] @ map (\<lambda>i. ?n + i) [0..<?m]"
    using assms(2) by (intro nth_equalityI) (auto simp: nth_append m)
  ultimately show ?thesis by (simp add: ring_def)
qed

lemma ring_snoc:
  fixes r w :: "'a::len word"
  assumes "length buf dvd 2 ^ LENGTH('a)" "r \<noteq> w"
  shows "ring buf r w = ring buf r (w - 1) @ [buf ! (unat (w - 1) mod length buf)]"
proof -
  have ne: "w - r \<noteq> 0" using assms(2) by simp
  have "w - 1 - r = w - r - 1" by simp
  then have d: "unat (w - r) = Suc (unat (w - 1 - r))"
    using ne by (metis Suc_pred' unat_gt_0 unat_minus_one)
  have "unat (w - 1) mod length buf = (unat r + unat (w - 1 - r)) mod length buf"
    using slot_wrap [OF assms(1), of r "unat (w - 1 - r)"] by simp
  then show ?thesis by (simp add: ring_def d)
qed

end
