(* ===== verification/Pipe.thy ===== *)
theory Pipe
  imports Fs Ring
begin

text \<open>
  \<^verbatim>\<open>kernel/pipe.c\<close>: pipes as rings of \<^verbatim>\<open>PIPESIZE\<close> bytes with free-running 32-bit counters.
  A \<^verbatim>\<open>struct pipe\<close> fills a page that \<^verbatim>\<open>pipealloc\<close> takes from \<^verbatim>\<open>kalloc\<close>; the store \<open>pipes\<close>
  gives the structure at the address of such a page, and \<open>None\<close> elsewhere. Sections that
  hold \<^verbatim>\<open>pi->lock\<close> are single steps. A call that sleeps has transferred the bytes before the
  current index; when it is woken its loop goes on at that index.
\<close>

section \<open>State\<close>

abbreviation (input) PIPESIZE :: nat where "PIPESIZE \<equiv> 512"

record pipe =
  pdata :: "byte list"
  nread :: uint
  nwrite :: uint
  readopen :: bool
  writeopen :: bool

record pipest = fsst +
  pipes :: "addr \<Rightarrow> pipe option"

definition upd_pipe :: "addr \<Rightarrow> (pipe \<Rightarrow> pipe) \<Rightarrow> 'z pipest_scheme \<Rightarrow> 'z pipest_scheme" where
  "upd_pipe pi f s = s\<lparr>pipes := (pipes s)(pi \<mapsto> f (the (pipes s pi)))\<rparr>"

section \<open>Operations\<close>

definition pipeclose :: "addr \<Rightarrow> bool \<Rightarrow> 'z pipest_scheme \<Rightarrow> (unit, 'z pipest_scheme) outcome" where
  "pipeclose pi writable s =
     (let s = (if writable
               then wakeup (ChanPipeRead pi) (upd_pipe pi (\<lambda>x. x\<lparr>writeopen := False\<rparr>) s)
               else wakeup (ChanPipeWrite pi) (upd_pipe pi (\<lambda>x. x\<lparr>readopen := False\<rparr>) s))
      in if \<not> readopen (the (pipes s pi)) \<and> \<not> writeopen (the (pipes s pi))
         then kfree pi (s\<lparr>pipes := (pipes s)(pi := None)\<rparr>)
         else Done () s)"

text \<open>The two ring accesses: \<^verbatim>\<open>pi->data[pi->nwrite++ % PIPESIZE] = ch\<close> and \<^verbatim>\<open>ch = pi->data[pi->nread++ % PIPESIZE]\<close>.\<close>

definition pipe_put :: "byte \<Rightarrow> pipe \<Rightarrow> pipe" where
  "pipe_put ch x = x\<lparr>pdata := (pdata x)[unat (nwrite x) mod PIPESIZE := ch], nwrite := nwrite x + 1\<rparr>"

definition pipe_get :: "pipe \<Rightarrow> byte \<times> pipe" where
  "pipe_get x = (pdata x ! (unat (nread x) mod PIPESIZE), x\<lparr>nread := nread x + 1\<rparr>)"

text \<open>The loop of \<^verbatim>\<open>pipewrite\<close> at index \<open>i\<close>, with \<open>n - i\<close> bytes left; the result is the value returned.\<close>

fun pipewrite_loop :: "addr \<Rightarrow> uint64 \<Rightarrow> nat \<Rightarrow> nat \<Rightarrow> 'z pipest_scheme \<Rightarrow> (int, 'z pipest_scheme) outcome" where
  "pipewrite_loop pi addr i 0 s = Done (int i) (wakeup (ChanPipeRead pi) s)"
| "pipewrite_loop pi addr i (Suc left) s =
     (let x = the (pipes s pi)
      in if \<not> readopen x \<or> killed (curproc s) s \<noteq> 0 then Done (-1) s
         else if nwrite x = nread x + of_nat PIPESIZE
         then ksleep (ChanPipeWrite pi) (wakeup (ChanPipeRead pi) s)
         else kbind (copyin (pagetable (myproc s)) (addr + of_nat i) 1 s) (\<lambda>(r, bs) s.
           if r = -1 then Done (int i) (wakeup (ChanPipeRead pi) s)
           else pipewrite_loop pi addr (Suc i) left (upd_pipe pi (pipe_put (hd bs)) s)))"

definition pipewrite :: "addr \<Rightarrow> uint64 \<Rightarrow> int \<Rightarrow> 'z pipest_scheme \<Rightarrow> (int, 'z pipest_scheme) outcome" where
  "pipewrite pi addr n s = pipewrite_loop pi addr 0 (nat n) s"

fun piperead_loop :: "addr \<Rightarrow> uint64 \<Rightarrow> nat \<Rightarrow> nat \<Rightarrow> 'z pipest_scheme \<Rightarrow> (int, 'z pipest_scheme) outcome" where
  "piperead_loop pi addr i 0 s = Done (int i) (wakeup (ChanPipeWrite pi) s)"
| "piperead_loop pi addr i (Suc left) s =
     (let x = the (pipes s pi)
      in if nread x = nwrite x then Done (int i) (wakeup (ChanPipeWrite pi) s)
         else let (ch, x) = pipe_get x
              in kbind (copyout (pagetable (myproc s)) (addr + of_nat i) [ch] (s\<lparr>pipes := (pipes s)(pi \<mapsto> x)\<rparr>)) (\<lambda>r s.
                   if r = -1 then Done (int i) (wakeup (ChanPipeWrite pi) s)
                   else piperead_loop pi addr (Suc i) left s))"

definition piperead :: "addr \<Rightarrow> uint64 \<Rightarrow> int \<Rightarrow> 'z pipest_scheme \<Rightarrow> (int, 'z pipest_scheme) outcome" where
  "piperead pi addr n s =
     (let x = the (pipes s pi)
      in if nread x = nwrite x \<and> writeopen x
         then if killed (curproc s) s \<noteq> 0 then Done (-1) s else ksleep (ChanPipeRead pi) s
         else piperead_loop pi addr 0 (nat n) s)"

section \<open>A pipe is a queue of bytes\<close>

definition pipe_ok :: "pipe \<Rightarrow> bool" where
  "pipe_ok x \<longleftrightarrow> length (pdata x) = PIPESIZE \<and> unat (nwrite x - nread x) \<le> PIPESIZE"

definition pipe_items :: "pipe \<Rightarrow> byte list" where
  "pipe_items x = ring (pdata x) (nread x) (nwrite x)"

lemma length_pipe_items: "length (pipe_items x) = unat (nwrite x - nread x)"
  by (simp add: pipe_items_def)

lemma pipe_full: "pipe_ok x \<Longrightarrow> nwrite x = nread x + 512 \<longleftrightarrow> length (pipe_items x) = 512"
  using ring_full_iff [of 512 "nwrite x" "nread x"] by (simp add: length_pipe_items)

lemma pipe_empty: "nread x = nwrite x \<longleftrightarrow> pipe_items x = []"
  by (simp add: pipe_items_def ring_empty_iff)

interpretation pipeq: fifo pipe_ok pipe_items PIPESIZE pipe_put pipe_get
proof
  fix x :: pipe and e
  assume ok: "pipe_ok x"
  then show "length (pipe_items x) \<le> 512" by (simp add: pipe_ok_def length_pipe_items)
  {
    assume lt: "length (pipe_items x) < 512"
    show "pipe_items (pipe_put e x) = pipe_items x @ [e]"
      using ring_put [of "pdata x" "nwrite x" "nread x" e] ok lt by (simp add: pipe_ok_def pipe_items_def pipe_put_def)
    show "pipe_ok (pipe_put e x)"
      using unat_Suc_diff [of "nwrite x" "nread x"] ok lt by (simp add: pipe_ok_def pipe_put_def length_pipe_items)
  }
  {
    assume ne: "pipe_items x \<noteq> []"
    then have "nread x \<noteq> nwrite x" by (simp add: pipe_empty)
    then show i: "pipe_items x = fst (pipe_get x) # pipe_items (snd (pipe_get x))"
      using ring_get [of "pdata x" "nread x" "nwrite x"] ok by (simp add: pipe_ok_def pipe_items_def pipe_get_def)
    have "length (pipe_items x) = Suc (length (pipe_items (snd (pipe_get x))))" using arg_cong [OF i, of length] by simp
    then show "pipe_ok (snd (pipe_get x))" using ok by (simp add: pipe_ok_def length_pipe_items) (simp add: pipe_get_def)
  }
qed

lemma puts_fields [simp]:
  "readopen (pipeq.puts bs x) = readopen x" "writeopen (pipeq.puts bs x) = writeopen x" "nread (pipeq.puts bs x) = nread x"
  by (induction bs arbitrary: x) (simp_all add: pipe_put_def)

section \<open>Transfers\<close>

lemma user_bytes_Suc: "user_bytes m pt va (Suc n) = m (user_pa m pt va) # user_bytes m pt (va + 1) n"
  by (simp add: user_bytes_def upt_conv_Cons map_Suc_upt [symmetric] add.assoc del: upt_Suc)

lemma user_mapped_Suc: "user_mapped m pt va (Suc n) \<longleftrightarrow> user_frame m pt va \<noteq> 0 \<and> user_mapped m pt (va + 1) n"
  by (auto simp: user_mapped_def less_Suc_eq_0_disj add.assoc)

lemma copyin_byte:
  assumes "pt_state s pt fl" "user_frame (mem s) pt va \<noteq> 0"
  shows "copyin pt va 1 s = Done (0, [mem s (user_pa (mem s) pt va)]) s"
  using copyin_spec [OF assms(1), of va 1] assms(2) by (auto simp: user_mapped_def user_bytes_def)

lemma pt_state_pipes [simp]: "pt_state (s\<lparr>pipes := p\<rparr>) pt fl = pt_state s pt fl"
  by (simp add: pt_state_def kmem_pool_def phys_page_def)

lemma pipewrite_loop_spec:
  assumes "pt_state s (pagetable (myproc s)) fl" "pipes s pi = Some x" "pipe_ok x" "readopen x" "killed (curproc s) s = 0"
    "user_mapped (mem s) (pagetable (myproc s)) (addr + of_nat i) n"
  shows "pipewrite_loop pi addr i n s =
    (if n \<le> 512 - length (pipe_items x)
     then Done (int (i + n)) (wakeup (ChanPipeRead pi) (s\<lparr>pipes := (pipes s)(pi \<mapsto>
       pipeq.puts (user_bytes (mem s) (pagetable (myproc s)) (addr + of_nat i) n) x)\<rparr>))
     else ksleep (ChanPipeWrite pi) (wakeup (ChanPipeRead pi) (s\<lparr>pipes := (pipes s)(pi \<mapsto>
       pipeq.puts (take (512 - length (pipe_items x)) (user_bytes (mem s) (pagetable (myproc s)) (addr + of_nat i) n)) x)\<rparr>)))"
  using assms
proof (induction n arbitrary: i s x)
  case 0
  then show ?case by (simp add: user_bytes_def fun_upd_idem)
next
  case (Suc n)
  note p = Suc.prems
  let ?pt = "pagetable (myproc s)"
  have len: "length (pipe_items x) \<le> 512" using p(3) by (rule pipeq.bounded)
  show ?case
  proof (cases "length (pipe_items x) = 512")
    case True
    then have "nwrite x = nread x + 512" using pipe_full [OF p(3)] by simp
    with True p show ?thesis by (simp add: fun_upd_idem)
  next
    case False
    define b where "b = mem s (user_pa (mem s) ?pt (addr + of_nat i))"
    let ?x = "pipe_put b x" and ?s = "s\<lparr>pipes := (pipes s)(pi \<mapsto> pipe_put b x)\<rparr>"
    have nf: "nwrite x \<noteq> nread x + 512" using pipe_full [OF p(3)] False by simp
    have um: "user_frame (mem s) ?pt (addr + of_nat i) \<noteq> 0" "user_mapped (mem s) ?pt (addr + of_nat (Suc i)) n"
      using p(6) by (simp_all add: user_mapped_Suc ac_simps)
    have loop: "pipewrite_loop pi addr i (Suc n) s = pipewrite_loop pi addr (Suc i) n ?s"
      using p nf copyin_byte [OF p(1) um(1)] by (simp add: Let_def upd_pipe_def b_def)
    have lt: "length (pipe_items x) < 512" using False len by simp
    note q = pipeq.put_ok [OF p(3) lt, of b] pipeq.put_items [OF p(3) lt, of b]
    have my: "myproc ?s = myproc s" by (simp add: myproc_def)
    have ro: "readopen ?x = readopen x" by (simp add: pipe_put_def)
    have ub: "user_bytes (mem s) ?pt (addr + of_nat i) (Suc n) = b # user_bytes (mem s) ?pt (addr + of_nat (Suc i)) n"
      by (simp add: user_bytes_Suc b_def ac_simps)
    have upd: "?s\<lparr>pipes := (pipes ?s)(pi \<mapsto> y)\<rparr> = s\<lparr>pipes := (pipes s)(pi \<mapsto> y)\<rparr>" for y by simp
    have "pt_state ?s (pagetable (myproc ?s)) fl" "pipes ?s pi = Some ?x" "readopen ?x" "killed (curproc ?s) ?s = 0"
      "user_mapped (mem ?s) (pagetable (myproc ?s)) (addr + of_nat (Suc i)) n"
      using p um(2) by (simp_all add: my ro killed_def)
    note IH = Suc.IH [OF this(1,2) q(1) this(3-5), unfolded upd my]
    have room: "512 - length (pipe_items x) = Suc (512 - length (pipe_items ?x))" using q(2) lt by simp
    show ?thesis unfolding loop IH ub room by (simp add: fun_upd_def)
  qed
qed

lemma user_writable_kproc:
  "user_writable (s\<lparr>pipes := p\<rparr>) pt fl va n = user_writable s pt fl va n"
  by (simp add: user_writable_def phys_page_def)

lemma copyout_byte:
  assumes "pt_state s pt fl" "user_writable s pt fl va (Suc n)"
  obtains m where "copyout pt va [b] s = Done 0 (s\<lparr>mem := m\<rparr>)" "pt_state (s\<lparr>mem := m\<rparr>) pt fl"
    "lookup m pt = lookup (mem s) pt" "m (user_pa (mem s) pt va) = b"
    "\<And>a. a \<noteq> user_pa (mem s) pt va \<Longrightarrow> m a = mem s a" "user_writable (s\<lparr>mem := m\<rparr>) pt fl (va + 1) n"
proof -
  have u1: "user_writable s pt fl va (length [b])"
    using assms(2) by (auto simp: user_writable_def)
  from copyout_spec [OF assms(1) u1] obtain m where m: "copyout pt va [b] s = Done 0 (s\<lparr>mem := m\<rparr>)"
    "pt_state (s\<lparr>mem := m\<rparr>) pt fl" "lookup m pt = lookup (mem s) pt" "user_bytes m pt va (length [b]) = [b]"
    "\<forall>a. (\<forall>i<length [b]. a \<noteq> user_pa (mem s) pt (va + of_nat i)) \<longrightarrow> m a = mem s a" by blast
  have upa: "user_pa m pt x = user_pa (mem s) pt x" for x using m(3) by (simp add: user_pa_def user_frame_def)
  have nt: "PGROUNDDOWN (user_pa (mem s) pt va) \<notin> tables (mem s) pt"
    using user_pa_frame [OF assms(2), of 0] user_writable_first(4) [OF assms(2) _ refl] by simp
  have t: "tables m pt = tables (mem s) pt"
  proof (rule tables_same(1))
    fix a assume "PGROUNDDOWN a \<in> tables (mem s) pt"
    then have "a \<noteq> user_pa (mem s) pt va" using nt by blast
    then show "m a = mem s a" using m(5) by simp
  qed (rule pt_state_table(1) [OF assms(1)])
  show thesis
  proof (rule that [OF m(1,2,3)])
    show "m (user_pa (mem s) pt va) = b" using m(4) by (simp add: user_bytes_def upa)
    show "m a = mem s a" if "a \<noteq> user_pa (mem s) pt va" for a using m(5) that by simp
    show "user_writable (s\<lparr>mem := m\<rparr>) pt fl (va + 1) n"
      using user_writable_drop [OF user_writable_cong [OF assms(2), of "s\<lparr>mem := m\<rparr>"], of 1] m(3) t by simp
  qed
qed

lemma piperead_loop_spec:
  assumes "pt_state s (pagetable (myproc s)) fl" "pipes s pi = Some x" "pipe_ok x"
    "user_writable s (pagetable (myproc s)) fl (addr + of_nat i) n"
  shows "\<exists>m. piperead_loop pi addr i n s = Done (int (i + min n (length (pipe_items x))))
      (wakeup (ChanPipeWrite pi) (s\<lparr>mem := m,
         pipes := (pipes s)(pi \<mapsto> snd (pipeq.gets (min n (length (pipe_items x))) x))\<rparr>)) \<and>
    user_bytes m (pagetable (myproc s)) (addr + of_nat i) (min n (length (pipe_items x))) = take n (pipe_items x) \<and>
    lookup m (pagetable (myproc s)) = lookup (mem s) (pagetable (myproc s)) \<and>
    (\<forall>a. (\<forall>j<n. a \<noteq> user_pa (mem s) (pagetable (myproc s)) (addr + of_nat i + of_nat j)) \<longrightarrow> m a = mem s a)"
  using assms
proof (induction n arbitrary: i s x)
  case 0
  then show ?case by (intro exI [of _ "mem s"]) (simp add: user_bytes_def fun_upd_idem)
next
  case (Suc n)
  note p = Suc.prems
  let ?pt = "pagetable (myproc s)" and ?va = "addr + of_nat i"
  show ?case
  proof (cases "pipe_items x = []")
    case True
    then have "nread x = nwrite x" by (simp add: pipe_empty)
    then show ?thesis using True p by (intro exI [of _ "mem s"]) (simp add: user_bytes_def fun_upd_idem)
  next
    case False
    define b where "b = fst (pipe_get x)"
    define y where "y = snd (pipe_get x)"
    have ne: "nread x \<noteq> nwrite x" using False by (simp add: pipe_empty)
    have q: "pipe_ok y" "pipe_items x = b # pipe_items y"
      using pipeq.get_ok [OF p(3) False] pipeq.get_items [OF p(3) False] by (simp_all add: b_def y_def)
    let ?s1 = "s\<lparr>pipes := (pipes s)(pi \<mapsto> y)\<rparr>"
    have st1: "pt_state ?s1 ?pt fl" "user_writable ?s1 ?pt fl ?va (Suc n)"
      using p(1,4) by (simp_all add: user_writable_kproc)
    obtain m where m: "copyout ?pt ?va [b] ?s1 = Done 0 (?s1\<lparr>mem := m\<rparr>)" "pt_state (?s1\<lparr>mem := m\<rparr>) ?pt fl"
      "lookup m ?pt = lookup (mem s) ?pt" "m (user_pa (mem s) ?pt ?va) = b"
      "\<And>a. a \<noteq> user_pa (mem s) ?pt ?va \<Longrightarrow> m a = mem s a" "user_writable (?s1\<lparr>mem := m\<rparr>) ?pt fl (?va + 1) n"
      by (rule copyout_byte [OF st1]) auto
    let ?s = "?s1\<lparr>mem := m\<rparr>"
    have my: "myproc ?s1 = myproc s" "myproc ?s = myproc s" by (simp_all add: myproc_def)
    have va: "addr + of_nat (Suc i) = ?va + 1" by (simp add: ac_simps)
    have loop: "piperead_loop pi addr i (Suc n) s = piperead_loop pi addr (Suc i) n ?s"
      using p ne m(1) by (simp add: b_def y_def my Let_def case_prod_unfold)
    have "pt_state ?s (pagetable (myproc ?s)) fl" "pipes ?s pi = Some y"
      "user_writable ?s (pagetable (myproc ?s)) fl (addr + of_nat (Suc i)) n"
      unfolding my va using m(2,6) by simp_all
    note IH = Suc.IH [OF this(1,2) q(1) this(3)]
    have memS: "mem ?s = m" by simp
    from IH obtain m' where m':
      "piperead_loop pi addr (Suc i) n ?s = Done (int (Suc i + min n (length (pipe_items y))))
        (wakeup (ChanPipeWrite pi) (?s\<lparr>mem := m', pipes := (pipes ?s)(pi \<mapsto> snd (pipeq.gets (min n (length (pipe_items y))) y))\<rparr>))"
      "user_bytes m' ?pt (?va + 1) (min n (length (pipe_items y))) = take n (pipe_items y)"
      "lookup m' ?pt = lookup m ?pt"
      "\<forall>a. (\<forall>j<n. a \<noteq> user_pa m ?pt (?va + 1 + of_nat j)) \<longrightarrow> m' a = m a"
      unfolding my va memS by blast
    have look: "lookup m' ?pt = lookup (mem s) ?pt" using m(3) m'(3) by simp
    have upa: "user_pa m ?pt z = user_pa (mem s) ?pt z" "user_pa m' ?pt z = user_pa (mem s) ?pt z" for z
      using m(3) look by (simp_all add: user_pa_def user_frame_def)
    have "user_pa (mem s) ?pt ?va \<noteq> user_pa (mem s) ?pt (?va + 1 + of_nat j)" if "j < n" for j
      using user_pa_inj [OF p(4), of 0 "Suc j"] that by (auto simp: ac_simps)
    then have hd: "m' (user_pa (mem s) ?pt ?va) = b" using m'(4) m(4) by (auto simp: upa(1))
    have "m' a = mem s a" if a: "\<forall>j<Suc n. a \<noteq> user_pa (mem s) ?pt (?va + of_nat j)" for a
    proof -
      have "a \<noteq> user_pa m ?pt (?va + 1 + of_nat j)" if "j < n" for j
        using a [rule_format, of "Suc j"] that by (simp add: upa ac_simps)
      then have "m' a = m a" using m'(4) by blast
      moreover have "m a = mem s a" using a [rule_format, of 0] by (intro m(5)) simp
      ultimately show ?thesis by simp
    qed
    moreover have "user_bytes m' ?pt ?va (min (Suc n) (length (pipe_items x))) = take (Suc n) (pipe_items x)"
      using m'(2) hd by (simp add: q(2) user_bytes_Suc upa)
    moreover have "piperead_loop pi addr i (Suc n) s = Done (int (i + min (Suc n) (length (pipe_items x))))
      (wakeup (ChanPipeWrite pi) (s\<lparr>mem := m',
         pipes := (pipes s)(pi \<mapsto> snd (pipeq.gets (min (Suc n) (length (pipe_items x))) x))\<rparr>))"
    proof -
      have "snd (pipeq.gets (min (Suc n) (length (pipe_items x))) x) = snd (pipeq.gets (min n (length (pipe_items y))) y)"
        by (simp add: q(2) case_prod_unfold Let_def y_def)
      moreover have "?s\<lparr>mem := m', pipes := (pipes ?s)(pi \<mapsto> z)\<rparr> = s\<lparr>mem := m', pipes := (pipes s)(pi \<mapsto> z)\<rparr>" for z
        by simp
      moreover have "Suc i + min n (length (pipe_items y)) = i + min (Suc n) (length (pipe_items x))" by (simp add: q(2))
      ultimately show ?thesis unfolding loop m'(1) by (simp only:)
    qed
    ultimately show ?thesis using look by blast
  qed
qed

section \<open>A concrete state\<close>

text \<open>A process with user memory at \<open>0x3000\<close>, and one pipe.\<close>

definition pipe_on :: "addr \<Rightarrow> pipe \<Rightarrow> kmem \<Rightarrow> pipest" where
  "pipe_on pi x s = fsst.extend (fs_on (log_on (bio_on (kproc_on s [no_proc\<lparr>pid := 1, pagetable := 0x80024000\<rparr>]))))
     (pipest.fields [pi \<mapsto> x])"

lemma pipe_on_simps [simp]:
  "mem (pipe_on pi x s) = mem s" "kend (pipe_on pi x s) = kend s" "freelist (pipe_on pi x s) = freelist s"
  "procs (pipe_on pi x s) = [no_proc\<lparr>pid := 1, pagetable := 0x80024000\<rparr>]" "curproc (pipe_on pi x s) = 0"
  "pipes (pipe_on pi x s) = [pi \<mapsto> x]" "myproc (pipe_on pi x s) = no_proc\<lparr>pid := 1, pagetable := 0x80024000\<rparr>"
  by (simp_all add: myproc_def) (simp_all add: pipe_on_def fsst.defs pipest.defs)

lemma pt_state_pipe_on: "pt_state s pt fl \<Longrightarrow> pt_state (pipe_on pi x s) pt fl"
  by (simp add: pt_state_def kmem_pool_def phys_page_def)

lemma user_writable_pipe_on: "user_writable (pipe_on pi x s) pt fl va n = user_writable s pt fl va n"
  by (simp add: user_writable_def phys_page_def)

definition example_pipe :: pipe where
  "example_pipe = \<lparr>pdata = replicate PIPESIZE 7, nread = -1, nwrite = 1, readopen = True, writeopen = True\<rparr>"

lemma example_pipe: "pipe_ok example_pipe" "pipe_items example_pipe = [7, 7]" "readopen example_pipe"
  by (simp_all add: example_pipe_def pipe_ok_def pipe_items_def ring_def) (simp add: upt_conv_Cons)

section \<open>Properties\<close>

text \<open>
  C13. \<^verbatim>\<open>pipewrite\<close> appends to the queue of bytes in the pipe, in order. When there is room for
  all \<open>n\<close> bytes it returns \<open>n\<close>; otherwise it fills the pipe with the first bytes and sleeps for
  room. Either way it has woken the readers, and it never overruns the ring, whatever the
  counters, which wrap around.
\<close>

theorem pipewrite_correct:
  fixes s :: "'z pipest_scheme" and pi :: addr
  defines "pt \<equiv> pagetable (myproc s)" and "x \<equiv> the (pipes s pi)"
  assumes "pt_state s pt fl" "pipes s pi \<noteq> None" "pipe_ok x" "readopen x" "killed (curproc s) s = 0"
    "user_mapped (mem s) pt addr n"
  shows "\<exists>y. pipe_ok y \<and>
    pipe_items y = pipe_items x @ take (PIPESIZE - length (pipe_items x)) (user_bytes (mem s) pt addr n) \<and>
    pipewrite pi addr (int n) s =
      (let t = wakeup (ChanPipeRead pi) (s\<lparr>pipes := (pipes s)(pi \<mapsto> y)\<rparr>)
       in if length (pipe_items x) + n \<le> PIPESIZE then Done (int n) t else ksleep (ChanPipeWrite pi) t)"
proof -
  let ?bs = "user_bytes (mem s) pt addr n" and ?room = "512 - length (pipe_items x)"
  have len: "length (pipe_items x) \<le> 512" "length ?bs = n"
    using assms(5) pipeq.bounded by (auto simp: user_bytes_def)
  have "pipe_ok (pipeq.puts (take ?room ?bs) x) \<and> pipe_items (pipeq.puts (take ?room ?bs) x) = pipe_items x @ take ?room ?bs"
    using len by (intro pipeq.puts_spec assms) simp
  moreover have "pipes s pi = Some x" using assms(2,4) by auto
  moreover have "n \<le> ?room \<longleftrightarrow> length (pipe_items x) + n \<le> 512" using len by auto
  ultimately show ?thesis
    using pipewrite_loop_spec [of s fl pi x addr 0 n] assms(1,3,5-8) len
    by (intro exI [of _ "pipeq.puts (take ?room ?bs) x"]) (simp add: pipewrite_def Let_def)
qed

theorem pipewrite_correct_witness:
  "\<exists>s :: pipest. \<exists>y. pipe_items y = [7, 7] @ user_bytes (mem s) 0x80024000 0x3010 3 \<and>
    pipewrite 0x80030000 0x3010 3 s = Done 3 (wakeup (ChanPipeRead 0x80030000) (s\<lparr>pipes := (pipes s)(0x80030000 \<mapsto> y)\<rparr>))"
proof (rule example_user)
  fix s :: kmem and fl
  assume a: "pt_state s 0x80024000 fl" "user_mapped (mem s) 0x80024000 0x3010 3"
  let ?s = "pipe_on 0x80030000 example_pipe s"
  from pipewrite_correct [of ?s fl "0x80030000" "0x3010" 3] a example_pipe pt_state_pipe_on [OF a(1)]
  obtain y where "pipe_items y = [7, 7] @ take 510 (user_bytes (mem s) 0x80024000 0x3010 3)"
    "pipewrite 0x80030000 0x3010 3 ?s = Done 3 (wakeup (ChanPipeRead 0x80030000) (?s\<lparr>pipes := (pipes ?s)(0x80030000 \<mapsto> y)\<rparr>))"
    by (auto simp: killed_def no_proc_def)
  then show ?thesis by (intro exI [of _ ?s] exI [of _ y]) (simp add: user_bytes_def)
qed

text \<open>
  C14. \<^verbatim>\<open>piperead\<close> takes the oldest bytes out of the pipe, in the order in which they were
  written, and stores them in the memory of the reader: as many as there are, at most \<open>n\<close>.
  An empty pipe with a writer makes the reader sleep; one without gives end of file (0).
\<close>

theorem piperead_correct:
  fixes s :: "'z pipest_scheme" and pi :: addr
  defines "pt \<equiv> pagetable (myproc s)" and "x \<equiv> the (pipes s pi)"
  assumes "pt_state s pt fl" "pipes s pi \<noteq> None" "pipe_ok x" "user_writable s pt fl addr n" "killed (curproc s) s = 0"
  shows "if pipe_items x = [] \<and> writeopen x then piperead pi addr (int n) s = ksleep (ChanPipeRead pi) s
    else \<exists>m y. pipe_ok y \<and> pipe_items y = drop n (pipe_items x) \<and>
      user_bytes m pt addr (min n (length (pipe_items x))) = take n (pipe_items x) \<and>
      (\<forall>a. (\<forall>j<n. a \<noteq> user_pa (mem s) pt (addr + of_nat j)) \<longrightarrow> m a = mem s a) \<and>
      piperead pi addr (int n) s = Done (int (min n (length (pipe_items x))))
        (wakeup (ChanPipeWrite pi) (s\<lparr>mem := m, pipes := (pipes s)(pi \<mapsto> y)\<rparr>))"
proof (cases "pipe_items x = [] \<and> writeopen x")
  case True
  then show ?thesis using assms(2,7) pipe_empty [of x] by (simp add: piperead_def Let_def)
next
  case False
  let ?k = "min n (length (pipe_items x))" and ?y = "snd (pipeq.gets (min n (length (pipe_items x))) x)"
  have "pipes s pi = Some x" using assms(2,4) by auto
  from piperead_loop_spec [of s fl pi x addr 0 n, OF assms(3) [unfolded pt_def] this assms(5)] assms(1,6)
  obtain m where m: "piperead_loop pi addr 0 n s = Done (int ?k)
      (wakeup (ChanPipeWrite pi) (s\<lparr>mem := m, pipes := (pipes s)(pi \<mapsto> ?y)\<rparr>))"
    "user_bytes m pt addr ?k = take n (pipe_items x)"
    "\<forall>a. (\<forall>j<n. a \<noteq> user_pa (mem s) pt (addr + of_nat j)) \<longrightarrow> m a = mem s a" by auto
  have "pipe_ok ?y" "pipe_items ?y = drop n (pipe_items x)"
    using pipeq.gets_spec [OF assms(5), of ?k] by (auto simp: min_def)
  moreover have "piperead pi addr (int n) s = piperead_loop pi addr 0 n s"
    using False assms(2) pipe_empty [of x] by (auto simp: piperead_def Let_def)
  ultimately show ?thesis using m False by (simp only: if_False) blast
qed

theorem piperead_correct_witness:
  "\<exists>s :: pipest. \<exists>m y. pipe_items y = [] \<and> user_bytes m 0x80024000 0x3010 2 = [7, 7] \<and>
    piperead 0x80030000 0x3010 3 s =
      Done 2 (wakeup (ChanPipeWrite 0x80030000) (s\<lparr>mem := m, pipes := (pipes s)(0x80030000 \<mapsto> y)\<rparr>))"
proof (rule example_user)
  fix s :: kmem and fl
  assume a: "pt_state s 0x80024000 fl" "user_writable s 0x80024000 fl 0x3010 3"
  let ?s = "pipe_on 0x80030000 example_pipe s"
  from piperead_correct [of ?s fl "0x80030000" "0x3010" 3] example_pipe
    pt_state_pipe_on [OF a(1)] a(2) user_writable_pipe_on
  obtain m y where "pipe_items y = []" "user_bytes m 0x80024000 0x3010 (Suc (Suc 0)) = [7, 7]"
    "piperead 0x80030000 0x3010 3 ?s =
      Done 2 (wakeup (ChanPipeWrite 0x80030000) (?s\<lparr>mem := m, pipes := (pipes ?s)(0x80030000 \<mapsto> y)\<rparr>))"
    by (auto simp: killed_def no_proc_def)
  then show ?thesis unfolding numeral_2_eq_2 by blast
qed

end
