(* ===== verification/Uart.thy ===== *)
theory Uart
  imports Pipe
begin

text \<open>
  \<^verbatim>\<open>kernel/uart.c\<close>: the driver of the serial port. The state holds the transmit ring with its
  free-running 64-bit counters, and what the driver sees of the device: the number \<open>thr_room\<close>
  of bytes that the transmitter takes before it clears \<^verbatim>\<open>LSR_TX_IDLE\<close>, the bytes \<open>sent\<close> through
  the holding register so far, and the bytes \<open>rx\<close> received and not yet read. The sections that
  hold \<^verbatim>\<open>uart_tx_lock\<close> are single steps. Once \<^verbatim>\<open>panicked\<close> is set the output routines spin for
  ever, which is a stop of the system, as \<^verbatim>\<open>panic\<close> is.
\<close>

section \<open>State\<close>

abbreviation (input) UART_TX_BUF_SIZE :: nat where "UART_TX_BUF_SIZE \<equiv> 32"

record uartst = pipest +
  uart_tx_buf :: "byte list"
  uart_tx_w :: uint64
  uart_tx_r :: uint64
  thr_room :: nat
  sent :: "byte list"
  rx :: "byte list"
  uart_regs :: "(nat \<times> byte) list"   \<comment> \<open>the control register writes of \<^verbatim>\<open>uartinit\<close>\<close>
  panicked :: bool

section \<open>Operations\<close>

definition WriteReg :: "nat \<Rightarrow> byte \<Rightarrow> 'z uartst_scheme \<Rightarrow> 'z uartst_scheme" where
  "WriteReg reg v s = s\<lparr>uart_regs := uart_regs s @ [(reg, v)]\<rparr>"

definition uartinit :: "'z uartst_scheme \<Rightarrow> 'z uartst_scheme" where
  "uartinit s =
     (let s = WriteReg 1 0 s;
          s = WriteReg 3 128 s;
          s = WriteReg 0 3 s;
          s = WriteReg 1 0 s;
          s = WriteReg 3 3 s;
          s = WriteReg 2 (1 OR 6) s
      in WriteReg 1 (2 OR 1) s)"

text \<open>\<^verbatim>\<open>WriteReg(THR, c)\<close>: the device takes the byte.\<close>

definition write_thr :: "byte \<Rightarrow> 'z uartst_scheme \<Rightarrow> 'z uartst_scheme" where
  "write_thr c s = s\<lparr>sent := sent s @ [c], thr_room := thr_room s - 1\<rparr>"

text \<open>Taking the next byte out of the ring, and putting one in.\<close>

definition uart_get :: "'z uartst_scheme \<Rightarrow> byte \<times> 'z uartst_scheme" where
  "uart_get s = (uart_tx_buf s ! (unat (uart_tx_r s) mod UART_TX_BUF_SIZE), s\<lparr>uart_tx_r := uart_tx_r s + 1\<rparr>)"

definition uart_put :: "byte \<Rightarrow> 'z uartst_scheme \<Rightarrow> 'z uartst_scheme" where
  "uart_put c s =
     s\<lparr>uart_tx_buf := (uart_tx_buf s)[unat (uart_tx_w s) mod UART_TX_BUF_SIZE := c],
       uart_tx_w := uart_tx_w s + 1\<rparr>"

text \<open>Each round of \<^verbatim>\<open>uartstart\<close> uses room of the transmitter, so the loop ends.\<close>

function uartstart :: "'z uartst_scheme \<Rightarrow> 'z uartst_scheme" where
  "uartstart s =
     (if uart_tx_w s = uart_tx_r s then s
      else if thr_room s = 0 then s
      else let (c, s) = uart_get s;
               s = wakeup ChanUartTx s
           in uartstart (write_thr c s))"
  by pat_completeness auto
termination
  by (relation "measure thr_room") (auto simp: write_thr_def wakeup_def uart_get_def)

declare uartstart.simps [simp del]

definition uartputc :: "byte \<Rightarrow> 'z uartst_scheme \<Rightarrow> (unit, 'z uartst_scheme) outcome" where
  "uartputc c s =
     (if panicked s then Panic ''panicked''
      else if uart_tx_w s = uart_tx_r s + of_nat UART_TX_BUF_SIZE then ksleep ChanUartTx s
      else Done () (uartstart (uart_put c s)))"

text \<open>
  The spin of \<^verbatim>\<open>uartputc_sync\<close> ends when the transmitter has room again, so the byte is sent
  in any case; with no room before, there is none after it.
\<close>

definition uartputc_sync :: "byte \<Rightarrow> 'z uartst_scheme \<Rightarrow> (unit, 'z uartst_scheme) outcome" where
  "uartputc_sync c s = (if panicked s then Panic ''panicked'' else Done () (write_thr c s))"

definition uartgetc :: "'z uartst_scheme \<Rightarrow> int \<times> 'z uartst_scheme" where
  "uartgetc s = (case rx s of c # cs \<Rightarrow> (int (unat c), s\<lparr>rx := cs\<rparr>) | [] \<Rightarrow> (-1, s))"

section \<open>The ring is a queue\<close>

definition uart_ok :: "'z uartst_scheme \<Rightarrow> bool" where
  "uart_ok s \<longleftrightarrow> length (uart_tx_buf s) = UART_TX_BUF_SIZE \<and> unat (uart_tx_w s - uart_tx_r s) \<le> UART_TX_BUF_SIZE"

definition uart_items :: "'z uartst_scheme \<Rightarrow> byte list" where
  "uart_items s = ring (uart_tx_buf s) (uart_tx_r s) (uart_tx_w s)"

text \<open>Everything accepted for output so far: what has been sent, then what waits in the ring.\<close>

definition uart_stream :: "'z uartst_scheme \<Rightarrow> byte list" where
  "uart_stream s = sent s @ uart_items s"

lemma length_uart_items: "length (uart_items s) = unat (uart_tx_w s - uart_tx_r s)"
  by (simp add: uart_items_def)

lemma uart_full: "uart_tx_w s = uart_tx_r s + 32 \<longleftrightarrow> length (uart_items s) = 32"
  using ring_full_iff [of 32 "uart_tx_w s" "uart_tx_r s"] by (simp add: length_uart_items)

lemma uart_empty: "uart_tx_w s = uart_tx_r s \<longleftrightarrow> uart_items s = []"
  by (auto simp: uart_items_def ring_empty_iff)

interpretation uartq: fifo "uart_ok :: 'z uartst_scheme \<Rightarrow> bool" uart_items UART_TX_BUF_SIZE uart_put uart_get
proof
  fix s :: "'z uartst_scheme" and e
  assume ok: "uart_ok s"
  then show "length (uart_items s) \<le> 32" by (simp add: uart_ok_def length_uart_items)
  {
    assume lt: "length (uart_items s) < 32"
    show "uart_items (uart_put e s) = uart_items s @ [e]"
      using ring_put [of "uart_tx_buf s" "uart_tx_w s" "uart_tx_r s" e] ok lt
      by (simp add: uart_ok_def uart_items_def uart_put_def)
    show "uart_ok (uart_put e s)"
      using unat_Suc_diff [of "uart_tx_w s" "uart_tx_r s"] ok lt
      by (simp add: uart_ok_def uart_put_def length_uart_items)
  }
  {
    assume ne: "uart_items s \<noteq> []"
    then have "uart_tx_r s \<noteq> uart_tx_w s" using uart_empty [of s] by auto
    then show i: "uart_items s = fst (uart_get s) # uart_items (snd (uart_get s))"
      using ring_get [of "uart_tx_buf s" "uart_tx_r s" "uart_tx_w s"] ok
      by (simp add: uart_ok_def uart_items_def uart_get_def)
    have "length (uart_items s) = Suc (length (uart_items (snd (uart_get s))))" using arg_cong [OF i, of length] by simp
    then show "uart_ok (snd (uart_get s))" using ok by (simp add: uart_ok_def length_uart_items) (simp add: uart_get_def)
  }
qed

lemma uart_sent_step:
  "uart_items (write_thr c (wakeup ch s)) = uart_items s" "uart_ok (write_thr c (wakeup ch s)) = uart_ok s"
  "sent (write_thr c (wakeup ch s)) = sent s @ [c]" "thr_room (write_thr c (wakeup ch s)) = thr_room s - 1"
  by (simp_all add: uart_items_def uart_ok_def write_thr_def wakeup_def)

lemma uart_get_fields: "sent (snd (uart_get s)) = sent s" "thr_room (snd (uart_get s)) = thr_room s"
  by (simp_all add: uart_get_def)

text \<open>\<^verbatim>\<open>uartstart\<close> sends bytes from the front of the queue until it is empty or the transmitter is full.\<close>

lemma uartstart_spec:
  "uart_ok s \<Longrightarrow> uart_ok (uartstart s) \<and> uart_items (uartstart s) = drop (thr_room s) (uart_items s) \<and>
    sent (uartstart s) = sent s @ take (thr_room s) (uart_items s) \<and>
    thr_room (uartstart s) = thr_room s - length (uart_items s)"
proof (induction s rule: uartstart.induct)
  case (1 s)
  show ?case
  proof (cases "uart_items s = [] \<or> thr_room s = 0")
    case True
    then show ?thesis using "1.prems" uart_empty [of s] by (subst (1 2 3 4) uartstart.simps) auto
  next
    case False
    then have ne: "uart_tx_w s \<noteq> uart_tx_r s" "uart_items s \<noteq> []" and room: "0 < thr_room s"
      using uart_empty [of s] by auto
    define c where "c = fst (uart_get s)"
    define g where "g = snd (uart_get s)"
    have get: "uart_get s = (c, g)" by (simp add: c_def g_def)
    note q = uartq.get_ok [OF "1.prems" ne(2)] uartq.get_items [OF "1.prems" ne(2)]
    let ?t = "write_thr c (wakeup ChanUartTx g)"
    have step: "uartstart s = uartstart ?t" using ne room by (subst uartstart.simps) (simp add: get)
    have "uart_ok ?t" using q by (simp add: uart_sent_step g_def)
    then have IH: "uart_ok (uartstart ?t) \<and> uart_items (uartstart ?t) = drop (thr_room ?t) (uart_items ?t) \<and>
      sent (uartstart ?t) = sent ?t @ take (thr_room ?t) (uart_items ?t) \<and>
      thr_room (uartstart ?t) = thr_room ?t - length (uart_items ?t)"
      using "1.IH" ne(1) room get by simp
    have f: "sent ?t = sent s @ [c]" "thr_room ?t = thr_room s - 1" "uart_items s = c # uart_items ?t"
      using q(2) by (simp_all add: uart_sent_step uart_get_fields g_def c_def)
    obtain k where "thr_room s = Suc k" using room by (cases "thr_room s") auto
    then show ?thesis using IH f by (simp add: step)
  qed
qed

lemma uartstart_stream: "uart_ok s \<Longrightarrow> uart_stream (uartstart s) = uart_stream s"
  using uartstart_spec [of s] by (simp add: uart_stream_def)

text \<open>
  Output through the serial port is neither lost nor reordered: \<^verbatim>\<open>uartputc\<close> sleeps when the
  ring is full, and otherwise appends its byte to the stream of bytes accepted so far. It
  keeps the ring well-formed, and leaves bytes waiting only if the transmitter is full.
\<close>

theorem uartputc_stream:
  assumes "uart_ok s" "\<not> panicked s"
  shows "if length (uart_items s) = UART_TX_BUF_SIZE then uartputc c s = ksleep ChanUartTx s
    else \<exists>t. uartputc c s = Done () t \<and> uart_ok t \<and> uart_stream t = uart_stream s @ [c] \<and>
      (uart_items t = [] \<or> thr_room t = 0)"
proof (cases "length (uart_items s) = 32")
  case True
  then show ?thesis using assms uart_full [of s] by (simp add: uartputc_def)
next
  case False
  then have lt: "length (uart_items s) < 32" using uartq.bounded [OF assms(1)] by simp
  let ?p = "uart_put c s"
  note q = uartq.put_ok [OF assms(1) lt, of c] uartq.put_items [OF assms(1) lt, of c]
  note u = uartstart_spec [OF q(1)]
  have "sent ?p = sent s" by (simp add: uart_put_def)
  then have "uart_stream (uartstart ?p) = uart_stream s @ [c]" using uartstart_stream [OF q(1)] q(2) by (simp add: uart_stream_def)
  moreover have "uart_items (uartstart ?p) = drop (thr_room ?p) (uart_items ?p)"
    using u by simp
  moreover have "uartputc c s = Done () (uartstart ?p)"
    using assms uart_full [of s] False by (simp add: uartputc_def)
  ultimately show ?thesis using u False by auto
qed

text \<open>A serial port after reset, with room for 16 bytes.\<close>

definition uart_on :: "pipest \<Rightarrow> uartst" where
  "uart_on s = pipest.extend s (uartst.fields (replicate UART_TX_BUF_SIZE 0) 0 0 16 [] [] [] False)"

lemma uart_on_simps [simp]:
  "mem (uart_on s) = mem s" "kend (uart_on s) = kend s" "freelist (uart_on s) = freelist s" "procs (uart_on s) = procs s"
  "curproc (uart_on s) = curproc s" "pipes (uart_on s) = pipes s" "uart_tx_buf (uart_on s) = replicate 32 0"
  "uart_tx_w (uart_on s) = 0" "uart_tx_r (uart_on s) = 0" "thr_room (uart_on s) = 16" "sent (uart_on s) = []"
  "rx (uart_on s) = []" "panicked (uart_on s) = False" "myproc (uart_on s) = myproc s"
  by (simp_all add: myproc_def) (simp_all add: uart_on_def pipest.defs uartst.defs)

theorem uartputc_stream_witness:
  "\<exists>t. uartputc 65 (uart_on (pipe_on 0 example_pipe no_mem)) = Done () t \<and> uart_stream t = [65]"
  using uartputc_stream [of "uart_on (pipe_on 0 example_pipe no_mem)" 65]
  by (auto simp: uart_ok_def uart_items_def ring_def uart_stream_def)

end
