(* ===== verification/Printf.thy ===== *)
theory Printf
  imports Machine
begin

text \<open>
  \<^verbatim>\<open>kernel/printf.c\<close>: formatting of numbers and of format strings. A routine gives the bytes
  it hands to \<^verbatim>\<open>consputc\<close>; the theory of the console sends them. \<open>None\<close> stands for the cases
  that C leaves undefined: a store beyond the end of \<^verbatim>\<open>buf[16]\<close>, and a variable argument that
  is missing or of the wrong kind. The formatting code of \<^verbatim>\<open>user/printf.c\<close> is that of the
  kernel; its differences are in the theory of the user library.
\<close>

section \<open>Operations\<close>

definition digits :: "byte list" where
  "digits = [48,49,50,51,52,53,54,55,56,57,97,98,99,100,101,102]"

text \<open>The \<^verbatim>\<open>do\<close> loop of \<^verbatim>\<open>printint\<close>: the digits, the last one first. The base is 10 or 16.\<close>

function digit_loop :: "nat \<Rightarrow> nat \<Rightarrow> byte list" where
  "digit_loop base x =
     digits ! (x mod base) # (if base > 1 \<and> x div base \<noteq> 0 then digit_loop base (x div base) else [])"
  by pat_completeness auto
termination
proof (relation "measure snd", goal_cases)
  case (2 base x)
  then have "0 < x" by (auto intro: gr0I)
  with 2 show ?case by (simp add: div_less_dividend)
qed simp

declare digit_loop.simps [simp del]

definition printint :: "uint64 \<Rightarrow> nat \<Rightarrow> bool \<Rightarrow> byte list option" where
  "printint xx base sign =
     (let neg = (sign \<and> xx <s 0);
          x = (if neg then - xx else xx);
          buf = digit_loop base (unat x) @ (if neg then [45] else [])
      in if length buf \<le> 16 then Some (rev buf) else None)"

fun printptr_loop :: "nat \<Rightarrow> uint64 \<Rightarrow> byte list" where
  "printptr_loop 0 x = []"
| "printptr_loop (Suc n) x = digits ! unat (drop_bit 60 x) # printptr_loop n (push_bit 4 x)"

definition printptr :: "uint64 \<Rightarrow> byte list" where
  "printptr x = [48, 120] @ printptr_loop 16 x"

text \<open>
  The variable arguments: a number as the 64-bit register it is passed in, or a string.
  \<^verbatim>\<open>va_arg(ap, int)\<close> is the low half of the register, sign-extended to \<^verbatim>\<open>long long\<close> by the call of \<^verbatim>\<open>printint\<close>.
\<close>

datatype va = Num uint64 | Str "byte list option"

definition va_int :: "uint64 \<Rightarrow> uint64" where
  "va_int v = scast (ucast v :: 32 word)"

definition emit :: "byte list option \<Rightarrow> byte list option \<Rightarrow> byte list option" where
  "emit a b = (case a of None \<Rightarrow> None | Some xs \<Rightarrow> map_option ((@) xs) b)"

definition fmt_at :: "byte list \<Rightarrow> nat \<Rightarrow> byte" where
  "fmt_at fmt i = (if i < length fmt then fmt ! i else 0)"

text \<open>
  What one \<^verbatim>\<open>%\<close> sequence does with the next argument, and how many characters after the
  first it takes. \<open>Conv_none\<close> is a sequence that takes no argument.
\<close>

datatype conv = Conv "uint64 \<Rightarrow> byte list option" nat | Conv_str | Conv_none "byte list" | Conv_end

definition conversion :: "byte \<Rightarrow> byte \<Rightarrow> byte \<Rightarrow> conv" where
  "conversion c0 c1 c2 =
     (if c0 = 100 then Conv (\<lambda>v. printint (va_int v) 10 True) 0
      else if c0 = 108 \<and> c1 = 100 then Conv (\<lambda>v. printint v 10 True) 1
      else if c0 = 108 \<and> c1 = 108 \<and> c2 = 100 then Conv (\<lambda>v. printint v 10 True) 2
      else if c0 = 117 then Conv (\<lambda>v. printint (va_int v) 10 False) 0
      else if c0 = 108 \<and> c1 = 117 then Conv (\<lambda>v. printint v 10 False) 1
      else if c0 = 108 \<and> c1 = 108 \<and> c2 = 117 then Conv (\<lambda>v. printint v 10 False) 2
      else if c0 = 120 then Conv (\<lambda>v. printint (va_int v) 16 False) 0
      else if c0 = 108 \<and> c1 = 120 then Conv (\<lambda>v. printint v 16 False) 1
      else if c0 = 108 \<and> c1 = 108 \<and> c2 = 120 then Conv (\<lambda>v. printint v 16 False) 2
      else if c0 = 112 then Conv (\<lambda>v. Some (printptr v)) 0
      else if c0 = 115 then Conv_str
      else if c0 = 37 then Conv_none [37]
      else if c0 = 0 then Conv_end
      else Conv_none [37, c0])"

definition null_str :: "byte list" where
  "null_str = [40,110,117,108,108,41]"

function format :: "byte list \<Rightarrow> va list \<Rightarrow> byte list option" where
  "format [] ap = Some []"
| "format (cx # fmt) ap =
     (if cx \<noteq> 37 then emit (Some [cx]) (format fmt ap)
      else case conversion (fmt_at fmt 0) (fmt_at fmt 1) (fmt_at fmt 2) of
          Conv f k \<Rightarrow>
            (case ap of Num v # ap \<Rightarrow> emit (f v) (format (drop (Suc k) fmt) ap) | _ \<Rightarrow> None)
        | Conv_str \<Rightarrow>
            (case ap of Str t # ap \<Rightarrow>
                emit (Some (case t of None \<Rightarrow> null_str | Some bs \<Rightarrow> bs)) (format (drop 1 fmt) ap)
              | _ \<Rightarrow> None)
        | Conv_none bs \<Rightarrow> emit (Some bs) (format (drop 1 fmt) ap)
        | Conv_end \<Rightarrow> Some [])"
  by pat_completeness auto
termination
  by (relation "measure (\<lambda>(fmt, ap). length fmt)") auto

declare format.simps(2) [simp del]

section \<open>The value of a numeral\<close>

definition digit_val :: "byte \<Rightarrow> nat" where
  "digit_val c = (if c < 58 then unat c - 48 else unat c - 87)"

definition num_val :: "nat \<Rightarrow> byte list \<Rightarrow> nat" where
  "num_val base ds = foldl (\<lambda>a c. a * base + digit_val c) 0 ds"

text \<open>The numeral of \<open>v\<close>: digits of the base, lower case, with no leading zero.\<close>

definition is_digit :: "nat \<Rightarrow> byte \<Rightarrow> bool" where
  "is_digit base c \<longleftrightarrow> (48 \<le> c \<and> c \<le> 57 \<or> 97 \<le> c \<and> c \<le> 102) \<and> digit_val c < base"

definition is_numeral :: "nat \<Rightarrow> nat \<Rightarrow> byte list \<Rightarrow> bool" where
  "is_numeral base v ds \<longleftrightarrow> ds \<noteq> [] \<and> list_all (is_digit base) ds \<and> num_val base ds = v \<and> (hd ds = 48 \<longrightarrow> ds = [48])"

lemma digit_val_digits: "d < 16 \<Longrightarrow> digit_val (digits ! d) = d"
  by (simp add: digits_def digit_val_def numeral_eq_Suc less_Suc_eq) auto

lemma is_digit_digits: "d < base \<Longrightarrow> base \<le> 16 \<Longrightarrow> is_digit base (digits ! d)"
proof -
  assume d: "d < base" "base \<le> 16"
  then have "d < 16" by simp
  then have "48 \<le> digits ! d \<and> digits ! d \<le> 57 \<or> 97 \<le> digits ! d \<and> digits ! d \<le> 102"
    by (simp add: digits_def numeral_eq_Suc less_Suc_eq) auto
  then show ?thesis using d digit_val_digits [OF \<open>d < 16\<close>] by (simp add: is_digit_def)
qed

lemma digits_zero: "d < 16 \<Longrightarrow> digits ! d = 48 \<longleftrightarrow> d = 0"
  by (simp add: digits_def numeral_eq_Suc less_Suc_eq) auto

lemma digit_loop_small: "1 < base \<Longrightarrow> x < base \<Longrightarrow> digit_loop base x = [digits ! x]"
  by (simp add: digit_loop.simps)

lemma digit_loop_step:
  "1 < base \<Longrightarrow> base \<le> x \<Longrightarrow> digit_loop base x = digits ! (x mod base) # digit_loop base (x div base)"
  by (subst digit_loop.simps) (simp add: div_greater_zero_iff)

lemma num_val_digit_loop:
  assumes "1 < base" "base \<le> 16"
  shows "num_val base (rev (digit_loop base x)) = x"
proof (induction x rule: less_induct)
  case (less x)
  have d: "x mod base < 16" using assms mod_less_divisor [of base x] by linarith
  show ?case
  proof (cases "x < base")
    case True
    with assms d show ?thesis by (simp add: digit_loop_small num_val_def digit_val_digits)
  next
    case False
    then have "x div base < x" using assms by (intro div_less_dividend) linarith+
    with less False assms d show ?thesis
      by (simp add: digit_loop_step num_val_def digit_val_digits div_mult_mod_eq)
  qed
qed

lemma digit_loop_digits:
  assumes "1 < base" "base \<le> 16"
  shows "list_all (is_digit base) (digit_loop base x)"
proof (induction x rule: less_induct)
  case (less x)
  have d: "is_digit base (digits ! (x mod base))" using assms by (intro is_digit_digits) auto
  show ?case
  proof (cases "x < base")
    case True
    then show ?thesis using d assms by (simp add: digit_loop_small)
  next
    case False
    then have "x div base < x" using assms by (intro div_less_dividend) linarith+
    then show ?thesis using less False assms d by (simp add: digit_loop_step)
  qed
qed

lemma length_digit_loop:
  assumes "1 < base"
  shows "length (digit_loop base x) \<le> Suc k \<longleftrightarrow> x < base ^ Suc k"
proof (induction k arbitrary: x)
  case 0
  show ?case
  proof (cases "x < base")
    case False
    then have "digit_loop base x \<noteq> []" "digit_loop base (x div base) \<noteq> []" by (simp_all add: digit_loop.simps)
    with False assms show ?thesis by (simp add: digit_loop_step)
  qed (use assms in \<open>simp add: digit_loop_small\<close>)
next
  case (Suc k)
  show ?case
  proof (cases "x < base")
    case True
    moreover have "base \<le> base ^ Suc (Suc k)" using assms by (simp add: self_le_power)
    ultimately show ?thesis using assms by (simp add: digit_loop_small del: power_Suc)
  next
    case False
    then have "length (digit_loop base x) \<le> Suc (Suc k) \<longleftrightarrow> x div base < base ^ Suc k"
      using assms Suc.IH [of "x div base"] by (simp add: digit_loop_step)
    also have "\<dots> \<longleftrightarrow> x < base ^ Suc (Suc k)"
      using assms by (simp add: div_less_iff_less_mult mult.commute)
    finally show ?thesis .
  qed
qed

lemma last_digit_loop:
  assumes "1 < base" "base \<le> 16"
  shows "last (digit_loop base x) = 48 \<longleftrightarrow> x = 0"
proof (induction x rule: less_induct)
  case (less x)
  show ?case
  proof (cases "x < base")
    case True
    with assms show ?thesis by (simp add: digit_loop_small digits_zero)
  next
    case False
    then have "x div base < x" "x div base \<noteq> 0" "digit_loop base (x div base) \<noteq> []"
      using assms by (auto simp: digit_loop.simps div_greater_zero_iff intro!: div_less_dividend)
    with less False assms show ?thesis by (simp add: digit_loop_step)
  qed
qed

lemma digit_loop_zero: "1 < base \<Longrightarrow> digit_loop base 0 = [48]"
  by (simp add: digit_loop_small digits_def)

lemma printint_spec:
  fixes xx :: uint64 and sign :: bool
  assumes "base = 10 \<or> base = 16"
  defines "v \<equiv> if sign then sint xx else uint xx"
  shows "if nat \<bar>v\<bar> < base ^ (if v < 0 then 15 else 16)
    then \<exists>ds. printint xx base sign = Some ((if v < 0 then [45] else []) @ ds) \<and> is_numeral base (nat \<bar>v\<bar>) ds
    else printint xx base sign = None"
proof -
  have base: "1 < base" "base \<le> 16" using assms(1) by auto
  have neg: "sign \<and> xx <s 0 \<longleftrightarrow> v < 0" by (simp add: v_def word_sless_alt)
  let ?x = "if v < 0 then - xx else xx" and ?ds = "digit_loop base (nat \<bar>v\<bar>)"
  have x: "unat ?x = nat \<bar>v\<bar>"
  proof (cases "v < 0")
    case True
    then have s: "sign" "sint xx < 0" by (auto simp: v_def split: if_splits)
    have "- xx = word_of_int (- sint xx)" by simp
    moreover have "- sint xx < 18446744073709551616" "0 \<le> - sint xx"
      using s sint_range_size [of xx] by (simp_all add: word_size)
    ultimately have "uint (- xx) = - sint xx"
      using uint_word_of_int [of "- sint xx", where 'a = 64] by (simp only:) simp
    then show ?thesis using True s by (simp add: v_def unat_eq_nat_uint)
  next
    case False
    have "uint xx = sint xx" if "0 \<le> sint xx"
      using uint_word_of_int [of "sint xx", where 'a = 64] sint_range_size [of xx] that by (simp add: word_size)
    then have "v = uint xx" using False by (simp add: v_def not_less split: if_splits)
    then show ?thesis using False by simp
  qed
  have len: "length (?ds @ (if v < 0 then [45] else [])) \<le> 16 \<longleftrightarrow> nat \<bar>v\<bar> < base ^ (if v < 0 then 15 else 16)"
    using length_digit_loop [OF base(1), of "nat \<bar>v\<bar>" 14] length_digit_loop [OF base(1), of "nat \<bar>v\<bar>" 15]
    by (auto simp del: power_Suc)
  have ne: "?ds \<noteq> []" by (subst digit_loop.simps) simp
  have "hd (rev ?ds) = 48 \<longrightarrow> rev ?ds = [48]"
    using last_digit_loop [OF base, of "nat \<bar>v\<bar>"] digit_loop_zero [OF base(1)] by (auto simp: hd_rev)
  then show ?thesis
    using len ne num_val_digit_loop [OF base, of "nat \<bar>v\<bar>"] digit_loop_digits [OF base, of "nat \<bar>v\<bar>"] unfolding printint_def neg Let_def x is_numeral_def
    by (auto intro!: exI [of _ "rev ?ds"])
qed

lemma printint_int:
  obtains bs where "printint (va_int v) 10 True = Some bs"
proof -
  let ?w = "ucast v :: 32 word"
  have r: "- 2147483648 \<le> sint ?w" "sint ?w < 2147483648" using sint_range_size [of ?w] by (simp_all add: word_size)
  have "sint (va_int v) = signed_take_bit 63 (sint ?w)"
    unfolding va_int_def scast_eq by (subst sint_sbintrunc') simp
  also have "\<dots> = sint ?w" using r by (intro signed_take_bit_int_eq_self) simp_all
  finally have "sint (va_int v) = sint ?w" .
  with r have "nat \<bar>sint (va_int v)\<bar> < 10 ^ 15" by simp
  then show thesis using printint_spec [of 10 True "va_int v"] that by (auto split: if_splits)
qed

section \<open>Properties\<close>

text \<open>
  C17. \<^verbatim>\<open>printint\<close> prints the number in the base, with a minus sign for negative numbers and no
  leading zeros, when it has room for all characters; its buffer of 16 characters overruns
  for every number with more digits. The most negative number is no exception.
\<close>

theorem printint_correct:
  fixes xx :: uint64 and sign :: bool
  assumes "base = 10 \<or> base = 16"
  defines "v \<equiv> if sign then sint xx else uint xx"
  shows "if nat \<bar>v\<bar> < base ^ (if v < 0 then 15 else 16)
    then \<exists>ds. printint xx base sign = Some ((if v < 0 then [45] else []) @ ds) \<and> is_numeral base (nat \<bar>v\<bar>) ds
    else printint xx base sign = None"
  using printint_spec [OF assms(1), of sign xx] by (simp only: v_def)

theorem printint_correct_witness:
  "\<exists>ds. printint (-12345) 10 True = Some ([45] @ ds) \<and> is_numeral 10 12345 ds"
  using printint_correct [of 10 True "-12345"] by auto

text \<open>
  The format \<^verbatim>\<open>%u\<close> fetches an \<^verbatim>\<open>int\<close>, so an unsigned argument of \<open>2\<^sup>3\<^sup>1\<close> or more is
  sign-extended to a number of twenty digits, which overruns the buffer of \<^verbatim>\<open>printint\<close>.
\<close>

theorem printf_unsigned_overrun:
  assumes "2 ^ 31 \<le> unat v" "unat v < 2 ^ 32"
  shows "format [37, 117] [Num v] = None"
proof -
  let ?w = "ucast v :: 32 word" and ?m = "18446744073709551616 :: int"
  have "2147483648 \<le> unat v" "unat v < 4294967296" using assms by simp_all
  moreover have "int (unat v) = uint v" by simp
  ultimately have v: "2147483648 \<le> uint v" "uint v < 4294967296" by linarith+
  then have u: "uint ?w = uint v" by (simp add: unsigned_ucast_eq take_bit_int_eq_self)
  have r: "- 2147483648 \<le> sint ?w" "sint ?w < 2147483648" using sint_range_size [of ?w] by (simp_all add: word_size)
  have neg: "sint ?w < 0"
  proof (rule ccontr)
    assume "\<not> sint ?w < 0"
    then have "uint ?w = sint ?w" using uint_word_of_int [of "sint ?w", where 'a = 32] r by simp
    then show False using r v u by linarith
  qed
  have "uint (va_int v) = sint ?w mod ?m"
    unfolding va_int_def scast_eq by (subst uint_word_of_int) simp
  also have "\<dots> = (sint ?w + ?m) mod ?m" by simp
  also have "\<dots> = sint ?w + ?m" using neg r by (intro mod_pos_pos_trivial) linarith+
  finally have "\<not> nat \<bar>uint (va_int v)\<bar> < 10 ^ 16" using r by simp
  then have "printint (va_int v) 10 False = None" using printint_spec [of 10 False "va_int v"] by simp
  then show ?thesis by (simp add: format.simps(2) conversion_def fmt_at_def emit_def)
qed

theorem printf_unsigned_overrun_witness: "format [37, 117] [Num 0xFFFFFFFF] = None"
  by (rule printf_unsigned_overrun) simp_all

end
