(* ===== verification/Console.thy ===== *)
theory Console
  imports Uart Printf
begin

text \<open>
  \<^verbatim>\<open>kernel/console.c\<close>, the output half of \<^verbatim>\<open>kernel/printf.c\<close> and \<^verbatim>\<open>uartintr\<close>: line-buffered console
  input with erase and kill characters, and output to the serial port. The input ring holds
  \<^verbatim>\<open>INPUT_BUF_SIZE\<close> bytes; its three free-running indices separate the lines that a reader may
  take (\<open>r\<close> to \<open>w\<close>) from the line being edited (\<open>w\<close> to \<open>e\<close>). Sections that hold \<^verbatim>\<open>cons.lock\<close> are
  single steps. The device switch names the function in its slot.
\<close>

section \<open>State\<close>

abbreviation (input) INPUT_BUF_SIZE :: nat where "INPUT_BUF_SIZE \<equiv> 128"

datatype devread = Consoleread
datatype devwrite = Consolewrite

record conss = uartst +
  cons_buf :: "byte list"
  cons_r :: uint
  cons_w :: uint
  cons_e :: uint
  devsw_read :: "int \<Rightarrow> devread option"
  devsw_write :: "int \<Rightarrow> devwrite option"

section \<open>Output\<close>

text \<open>\<^verbatim>\<open>consputc(c)\<close> for a byte and \<^verbatim>\<open>consputc(BACKSPACE)\<close>.\<close>

definition consputc :: "int \<Rightarrow> 'z uartst_scheme \<Rightarrow> (unit, 'z uartst_scheme) outcome" where
  "consputc c s =
     (if c = 0x100
      then kbind (uartputc_sync 8 s) (\<lambda>_ s. kbind (uartputc_sync 32 s) (\<lambda>_ s. uartputc_sync 8 s))
      else uartputc_sync (of_int c) s)"

fun consputs :: "byte list \<Rightarrow> 'z uartst_scheme \<Rightarrow> (unit, 'z uartst_scheme) outcome" where
  "consputs [] s = Done () s"
| "consputs (c # cs) s = kbind (consputc (int (unat c)) s) (\<lambda>_ s. consputs cs s)"

text \<open>\<^verbatim>\<open>printf\<close>; undefined formatting has no outcome of its own and counts as a stop.\<close>

definition kprintf :: "byte list \<Rightarrow> va list \<Rightarrow> 'z uartst_scheme \<Rightarrow> (int, 'z uartst_scheme) outcome" where
  "kprintf fmt ap s =
     (case format fmt ap of
        None \<Rightarrow> Panic ''undefined''
      | Some bs \<Rightarrow> kbind (consputs bs s) (\<lambda>_ s. Done 0 s))"

definition ascii :: "string \<Rightarrow> byte list" where
  "ascii cs = map of_char cs"

text \<open>What \<^verbatim>\<open>panic\<close> leaves behind for the other processors: its message printed and \<^verbatim>\<open>panicked\<close> set.\<close>

definition panic :: "string \<Rightarrow> 'z uartst_scheme \<Rightarrow> (unit, 'z uartst_scheme) outcome" where
  "panic msg s =
     kbind (kprintf (ascii ''panic: '') [] s) (\<lambda>_ s.
     kbind (kprintf [37, 115, 10] [Str (Some (ascii msg))] s) (\<lambda>_ s.
     Done () (s\<lparr>panicked := True\<rparr>)))"

fun procdump_loop :: "(int \<times> string \<times> byte list) list \<Rightarrow> 'z uartst_scheme \<Rightarrow> (unit, 'z uartst_scheme) outcome" where
  "procdump_loop [] s = Done () s"
| "procdump_loop ((p, st, name) # ps) s =
     kbind (kprintf (ascii ''%d %s %s'') [Num (of_int p), Str (Some (ascii st)), Str (Some name)] s) (\<lambda>_ s.
     kbind (kprintf [10] [] s) (\<lambda>_ s.
     procdump_loop ps s))"

definition print_procs :: "'z uartst_scheme \<Rightarrow> (unit, 'z uartst_scheme) outcome" where
  "print_procs s = kbind (kprintf [10] [] s) (\<lambda>_ s. procdump_loop (procdump s) s)"

fun consolewrite_loop :: "bool \<Rightarrow> uint64 \<Rightarrow> nat \<Rightarrow> nat \<Rightarrow> 'z conss_scheme \<Rightarrow> (int, 'z conss_scheme) outcome" where
  "consolewrite_loop user_src src i 0 s = Done (int i) s"
| "consolewrite_loop user_src src i (Suc left) s =
     kbind (either_copyin user_src (src + of_nat i) 1 s) (\<lambda>(r, bs) s.
       if r = -1 then Done (int i) s
       else kbind (uartputc (hd bs) s) (\<lambda>_ s. consolewrite_loop user_src src (Suc i) left s))"

definition consolewrite :: "bool \<Rightarrow> uint64 \<Rightarrow> int \<Rightarrow> 'z conss_scheme \<Rightarrow> (int, 'z conss_scheme) outcome" where
  "consolewrite user_src src n s = consolewrite_loop user_src src 0 (nat n) s"

section \<open>Input\<close>

text \<open>The accesses to the ring: \<^verbatim>\<open>cons.buf[cons.e++ % INPUT_BUF_SIZE] = c\<close> and \<^verbatim>\<open>c = cons.buf[cons.r++ % INPUT_BUF_SIZE]\<close>.\<close>

definition cons_put :: "byte \<Rightarrow> 'z conss_scheme \<Rightarrow> 'z conss_scheme" where
  "cons_put c s = s\<lparr>cons_buf := (cons_buf s)[unat (cons_e s) mod INPUT_BUF_SIZE := c], cons_e := cons_e s + 1\<rparr>"

definition cons_get :: "'z conss_scheme \<Rightarrow> byte \<times> 'z conss_scheme" where
  "cons_get s = (cons_buf s ! (unat (cons_r s) mod INPUT_BUF_SIZE), s\<lparr>cons_r := cons_r s + 1\<rparr>)"

fun consoleread_loop ::
  "bool \<Rightarrow> nat \<Rightarrow> uint64 \<Rightarrow> nat \<Rightarrow> 'z conss_scheme \<Rightarrow> (int, 'z conss_scheme) outcome" where
  "consoleread_loop user_dst target dst 0 s = Done (int target) s"
| "consoleread_loop user_dst target dst (Suc m) s =
     (if cons_r s = cons_w s
      then if killed (curproc s) s \<noteq> 0 then Done (-1) s else ksleep ChanCons s
      else let (c, s) = cons_get s
           in if c = 4
              then Done (int target - int (Suc m)) (if Suc m < target then s\<lparr>cons_r := cons_r s - 1\<rparr> else s)
              else kbind (either_copyout user_dst dst [c] s) (\<lambda>r s.
                if r = -1 then Done (int target - int (Suc m)) s
                else if c = 10 then Done (int target - int m) s
                else consoleread_loop user_dst target (dst + 1) m s))"

definition consoleread :: "bool \<Rightarrow> uint64 \<Rightarrow> int \<Rightarrow> 'z conss_scheme \<Rightarrow> (int, 'z conss_scheme) outcome" where
  "consoleread user_dst dst n s = consoleread_loop user_dst (nat n) dst (nat n) s"

text \<open>The loop for control-U.\<close>

function kill_line :: "'z conss_scheme \<Rightarrow> (unit, 'z conss_scheme) outcome" where
  "kill_line s =
     (if cons_e s \<noteq> cons_w s \<and> cons_buf s ! (unat (cons_e s - 1) mod INPUT_BUF_SIZE) \<noteq> 10
      then kbind (consputc 0x100 (s\<lparr>cons_e := cons_e s - 1\<rparr>)) (\<lambda>_ s. kill_line s)
      else Done () s)"
  by pat_completeness auto
termination
proof (relation "measure (\<lambda>s. unat (cons_e s - cons_w s))", goal_cases)
  case (2 s a t)
  then have "cons_e t - cons_w t = cons_e s - cons_w s - 1"
    by (auto simp: consputc_def uartputc_sync_def write_thr_def split: if_splits)
  moreover have "cons_e s - cons_w s \<noteq> 0" using 2 by simp
  ultimately show ?case by (simp add: measure_unat)
qed simp

declare kill_line.simps [simp del]

definition consoleintr :: "int \<Rightarrow> 'z conss_scheme \<Rightarrow> (unit, 'z conss_scheme) outcome" where
  "consoleintr c s =
     (if c = 16 then print_procs s
      else if c = 21 then kill_line s
      else if c = 8 \<or> c = 127
      then if cons_e s \<noteq> cons_w s then consputc 0x100 (s\<lparr>cons_e := cons_e s - 1\<rparr>) else Done () s
      else if c \<noteq> 0 \<and> cons_e s - cons_r s < of_nat INPUT_BUF_SIZE
      then let c = (if c = 13 then 10 else c)
           in kbind (consputc c s) (\<lambda>_ s.
             let s = cons_put (of_int c) s
             in if c = 10 \<or> c = 4 \<or> cons_e s - cons_r s = of_nat INPUT_BUF_SIZE
                then Done () (wakeup ChanCons (s\<lparr>cons_w := cons_e s\<rparr>))
                else Done () s)
      else Done () s)"

definition consoleinit :: "'z conss_scheme \<Rightarrow> 'z conss_scheme" where
  "consoleinit s =
     (let s = uartinit s
      in s\<lparr>devsw_read := (devsw_read s)(1 \<mapsto> Consoleread), devsw_write := (devsw_write s)(1 \<mapsto> Consolewrite)\<rparr>)"

section \<open>The interrupt handler of the serial port\<close>

text \<open>The characters that have arrived, in order; then more output.\<close>

fun uartintr_loop :: "byte list \<Rightarrow> 'z conss_scheme \<Rightarrow> (unit, 'z conss_scheme) outcome" where
  "uartintr_loop [] s = Done () s"
| "uartintr_loop (c # cs) s = kbind (consoleintr (fst (uartgetc s)) (snd (uartgetc s))) (\<lambda>_ s. uartintr_loop cs s)"

definition uartintr :: "'z conss_scheme \<Rightarrow> (unit, 'z conss_scheme) outcome" where
  "uartintr s = kbind (uartintr_loop (rx s) s) (\<lambda>_ s. Done () (uartstart s))"

section \<open>The line discipline\<close>

text \<open>The bytes that a reader may take, and the line being edited.\<close>

definition cons_lines :: "'z conss_scheme \<Rightarrow> byte list" where
  "cons_lines s = ring (cons_buf s) (cons_r s) (cons_w s)"

definition cons_edit :: "'z conss_scheme \<Rightarrow> byte list" where
  "cons_edit s = ring (cons_buf s) (cons_w s) (cons_e s)"

definition cons_all :: "'z conss_scheme \<Rightarrow> byte list" where
  "cons_all s = ring (cons_buf s) (cons_r s) (cons_e s)"

definition cons_fit :: "'z conss_scheme \<Rightarrow> bool" where
  "cons_fit s \<longleftrightarrow> length (cons_buf s) = INPUT_BUF_SIZE \<and> unat (cons_e s - cons_r s) \<le> INPUT_BUF_SIZE"

text \<open>The three indices are in order, at most a buffer apart, and the edited line has no newline yet.\<close>

definition cons_ok :: "'z conss_scheme \<Rightarrow> bool" where
  "cons_ok s \<longleftrightarrow> cons_fit s \<and> unat (cons_w s - cons_r s) \<le> unat (cons_e s - cons_r s) \<and> 10 \<notin> set (cons_edit s)"

lemma cons_all_split: "cons_ok s \<Longrightarrow> cons_all s = cons_lines s @ cons_edit s"
  by (simp add: cons_ok_def cons_fit_def cons_all_def cons_lines_def cons_edit_def ring_append)

interpretation consq: fifo "cons_fit :: 'z conss_scheme \<Rightarrow> bool" cons_all INPUT_BUF_SIZE cons_put cons_get
proof
  fix s :: "'z conss_scheme" and c
  assume ok: "cons_fit s"
  then show "length (cons_all s) \<le> 128" by (simp add: cons_fit_def cons_all_def)
  {
    assume lt: "length (cons_all s) < 128"
    show "cons_all (cons_put c s) = cons_all s @ [c]"
      using ring_put [of "cons_buf s" "cons_e s" "cons_r s" c] ok lt
      by (simp add: cons_fit_def cons_all_def cons_put_def)
    show "cons_fit (cons_put c s)"
      using unat_Suc_diff [of "cons_e s" "cons_r s"] ok lt
      by (simp add: cons_fit_def cons_put_def cons_all_def)
  }
  {
    assume ne: "cons_all s \<noteq> []"
    then have "cons_r s \<noteq> cons_e s" by (simp add: cons_all_def ring_empty_iff)
    then show i: "cons_all s = fst (cons_get s) # cons_all (snd (cons_get s))"
      using ring_get [of "cons_buf s" "cons_r s" "cons_e s"] ok
      by (simp add: cons_fit_def cons_all_def cons_get_def)
    have "length (cons_all s) = Suc (length (cons_all (snd (cons_get s))))" using arg_cong [OF i, of length] by simp
    then show "cons_fit (snd (cons_get s))" using ok by (simp add: cons_fit_def cons_all_def) (simp add: cons_get_def)
  }
qed

text \<open>What a character does to the lines ready and the line being edited.\<close>

definition line_step :: "int \<Rightarrow> byte list \<times> byte list \<Rightarrow> byte list \<times> byte list" where
  "line_step c = (\<lambda>(lines, edit).
     if c = 16 then (lines, edit)
     else if c = 21 then (lines, [])
     else if c = 8 \<or> c = 127 then (lines, butlast edit)
     else if c \<noteq> 0 \<and> length lines + length edit < INPUT_BUF_SIZE
     then let c = (if c = 13 then 10 else c); edit = edit @ [of_int c]
          in if c = 10 \<or> c = 4 \<or> length lines + length edit = INPUT_BUF_SIZE then (lines @ edit, []) else (lines, edit)
     else (lines, edit))"

text \<open>Output changes only the serial port.\<close>

lemma consputc_Done: "\<not> panicked s \<Longrightarrow> \<exists>x y. consputc c s = Done () (s\<lparr>sent := x, thr_room := y\<rparr>)"
  by (cases "c = 0x100") (auto simp: consputc_def uartputc_sync_def write_thr_def)

lemma consputs_Done: "\<not> panicked s \<Longrightarrow> \<exists>x y. consputs bs s = Done () (s\<lparr>sent := x, thr_room := y\<rparr>)"
proof (induction bs arbitrary: s)
  case Nil
  then show ?case by (intro exI [of _ "sent s"] exI [of _ "thr_room s"]) simp
next
  case (Cons b bs)
  obtain x y where u: "consputc (int (unat b)) s = Done () (s\<lparr>sent := x, thr_room := y\<rparr>)"
    using consputc_Done [OF Cons.prems] by blast
  then show ?case using Cons.IH [of "s\<lparr>sent := x, thr_room := y\<rparr>"] Cons.prems by (auto simp del: of_nat_unat)
qed

lemma kprintf_Done:
  "\<not> panicked s \<Longrightarrow> format fmt ap \<noteq> None \<Longrightarrow> \<exists>x y. kprintf fmt ap s = Done 0 (s\<lparr>sent := x, thr_room := y\<rparr>)"
  using consputs_Done [of s "the (format fmt ap)"] by (fastforce simp: kprintf_def)

lemma format_procdump: "format (ascii ''%d %s %s'') [Num p, Str (Some st), Str (Some name)] \<noteq> None"
proof -
  obtain bs where "printint (va_int p) 10 True = Some bs" by (rule printint_int)
  then show ?thesis by (simp add: ascii_def format.simps(2) conversion_def fmt_at_def emit_def)
qed

lemma procdump_loop_Done: "\<not> panicked s \<Longrightarrow> \<exists>x y. procdump_loop ps s = Done () (s\<lparr>sent := x, thr_room := y\<rparr>)"
proof (induction ps arbitrary: s)
  case Nil
  then show ?case by (intro exI [of _ "sent s"] exI [of _ "thr_room s"]) simp
next
  case (Cons p ps)
  obtain q st name where p: "p = (q, st, name)" by (cases p)
  obtain x y where u: "kprintf (ascii ''%d %s %s'') [Num (of_int q), Str (Some (ascii st)), Str (Some name)] s =
      Done 0 (s\<lparr>sent := x, thr_room := y\<rparr>)"
    using kprintf_Done [OF Cons.prems format_procdump] by blast
  let ?s = "s\<lparr>sent := x, thr_room := y\<rparr>"
  obtain x' y' where v: "kprintf [10] [] ?s = Done 0 (?s\<lparr>sent := x', thr_room := y'\<rparr>)"
    using kprintf_Done [of ?s "[10]" "[]"] Cons.prems by (auto simp: format.simps(2) emit_def)
  show ?case using Cons.IH [of "?s\<lparr>sent := x', thr_room := y'\<rparr>"] Cons.prems u v by (auto simp: p)
qed

lemma print_procs_Done: "\<not> panicked s \<Longrightarrow> \<exists>x y. print_procs s = Done () (s\<lparr>sent := x, thr_room := y\<rparr>)"
proof -
  assume a: "\<not> panicked s"
  obtain x y where u: "kprintf [10] [] s = Done 0 (s\<lparr>sent := x, thr_room := y\<rparr>)"
    using kprintf_Done [OF a, of "[10]" "[]"] by (auto simp: format.simps(2) emit_def)
  show ?thesis
    using procdump_loop_Done [of "s\<lparr>sent := x, thr_room := y\<rparr>"] a u by (auto simp: print_procs_def)
qed

lemma cons_output [simp]:
  "cons_lines (s\<lparr>sent := x, thr_room := y\<rparr>) = cons_lines s" "cons_edit (s\<lparr>sent := x, thr_room := y\<rparr>) = cons_edit s"
  "cons_all (s\<lparr>sent := x, thr_room := y\<rparr>) = cons_all s" "cons_fit (s\<lparr>sent := x, thr_room := y\<rparr>) = cons_fit s"
  "cons_ok (s\<lparr>sent := x, thr_room := y\<rparr>) = cons_ok s"
  by (simp_all add: cons_lines_def cons_edit_def cons_all_def cons_fit_def cons_ok_def)

lemma cons_wakeup [simp]:
  "cons_lines (wakeup ch s) = cons_lines s" "cons_edit (wakeup ch s) = cons_edit s" "cons_all (wakeup ch s) = cons_all s"
  "cons_fit (wakeup ch s) = cons_fit s" "cons_ok (wakeup ch s) = cons_ok s"
  by (simp_all add: cons_lines_def cons_edit_def cons_all_def cons_fit_def cons_ok_def wakeup_def)

lemma cons_edit_empty: "cons_e s = cons_w s \<longleftrightarrow> cons_edit s = []"
  by (auto simp: cons_edit_def ring_empty_iff)

text \<open>Erasing the last character.\<close>

lemma cons_erase:
  assumes "length (cons_buf s) = 128" "cons_edit s \<noteq> []"
  shows "cons_edit (s\<lparr>cons_e := cons_e s - 1\<rparr>) = butlast (cons_edit s)"
    and "cons_buf s ! (unat (cons_e s - 1) mod 128) = last (cons_edit s)"
  using ring_snoc [of "cons_buf s" "cons_w s" "cons_e s"] assms
  by (auto simp: cons_edit_def ring_empty_iff)

lemma cons_ok_erase:
  assumes "cons_ok s" "cons_edit s \<noteq> []"
  shows "cons_ok (s\<lparr>cons_e := cons_e s - 1\<rparr>)"
proof -
  let ?r = "cons_r s" and ?w = "cons_w s" and ?e = "cons_e s"
  have len: "length (cons_buf s) = 128" using assms(1) by (simp add: cons_ok_def cons_fit_def)
  have "length (cons_all s) = length (cons_lines s) + length (cons_edit s)" using cons_all_split [OF assms(1)] by simp
  then have lt: "unat (?w - ?r) < unat (?e - ?r)" using assms(2) by (simp add: cons_all_def cons_lines_def)
  then have "?e - ?r \<noteq> 0" by auto
  then have "unat (?e - ?r - 1) = unat (?e - ?r) - 1" by (rule unat_minus_one)
  moreover have "?e - 1 - ?r = ?e - ?r - 1" by simp
  ultimately have "unat (?e - 1 - ?r) = unat (?e - ?r) - 1" by (simp only:)
  then show ?thesis
    using assms lt cons_erase(1) [OF len assms(2)] by (auto simp: cons_ok_def cons_fit_def dest: in_set_butlastD)
qed

lemma kill_line_spec:
  "\<not> panicked s \<Longrightarrow> length (cons_buf s) = 128 \<Longrightarrow> 10 \<notin> set (cons_edit s) \<Longrightarrow>
    \<exists>x y. kill_line s = Done () (s\<lparr>cons_e := cons_w s, sent := x, thr_room := y\<rparr>)"
proof (induction s rule: kill_line.induct)
  case (1 s)
  show ?case
  proof (cases "cons_edit s = []")
    case True
    then have "cons_e s = cons_w s" by (simp add: cons_edit_empty)
    then show ?thesis
      by (subst kill_line.simps) (intro exI [of _ "sent s"] exI [of _ "thr_room s"], simp)
  next
    case False
    note er = cons_erase [OF "1.prems"(2) False]
    have c: "cons_e s \<noteq> cons_w s \<and> cons_buf s ! (unat (cons_e s - 1) mod 128) \<noteq> 10"
      using False er(2) "1.prems"(3) last_in_set by (metis cons_edit_empty)
    obtain x y where u: "consputc 0x100 (s\<lparr>cons_e := cons_e s - 1\<rparr>) =
        Done () (s\<lparr>cons_e := cons_e s - 1, sent := x, thr_room := y\<rparr>)"
      using consputc_Done [of "s\<lparr>cons_e := cons_e s - 1\<rparr>" "0x100"] "1.prems"(1) by auto
    have "10 \<notin> set (cons_edit (s\<lparr>cons_e := cons_e s - 1, sent := x, thr_room := y\<rparr>))"
      using er(1) "1.prems"(3) by (auto dest: in_set_butlastD)
    with "1.IH" [OF c u] "1.prems" show ?thesis using c u by (subst kill_line.simps) auto
  qed
qed

text \<open>Adding a character at the end, and the end of a line.\<close>

lemma cons_put_spec:
  assumes "cons_ok s" "length (cons_lines s) + length (cons_edit s) < 128"
  shows "cons_lines (cons_put c s) = cons_lines s" "cons_edit (cons_put c s) = cons_edit s @ [c]"
    "cons_fit (cons_put c s)" "unat (cons_w s - cons_r s) \<le> unat (cons_e (cons_put c s) - cons_r s)"
proof -
  have fit: "cons_fit s" and le: "unat (cons_w s - cons_r s) \<le> unat (cons_e s - cons_r s)"
    and dv: "length (cons_buf s) dvd 2 ^ LENGTH(32)" and len: "length (cons_buf s) = 128"
    using assms(1) by (simp_all add: cons_ok_def cons_fit_def)
  have lt: "length (cons_all s) < 128" using assms cons_all_split [OF assms(1)] by simp
  note q = consq.put_ok [OF fit lt, of c] consq.put_items [OF fit lt, of c]
  show "cons_fit (cons_put c s)" by (rule q(1))
  have "unat (cons_e s + 1 - cons_r s) = Suc (unat (cons_e s - cons_r s))"
    using lt by (intro unat_Suc_diff) (simp add: cons_all_def)
  then show le': "unat (cons_w s - cons_r s) \<le> unat (cons_e (cons_put c s) - cons_r s)"
    using le by (simp add: cons_put_def)
  have "cons_all (cons_put c s) = cons_lines (cons_put c s) @ cons_edit (cons_put c s)"
    unfolding cons_all_def cons_lines_def cons_edit_def
    using le' len by (intro ring_append) (simp_all add: cons_put_def)
  then have "cons_lines (cons_put c s) @ cons_edit (cons_put c s) = cons_lines s @ (cons_edit s @ [c])"
    using q(2) cons_all_split [OF assms(1)] by simp
  moreover have "length (cons_lines (cons_put c s)) = length (cons_lines s)" by (simp add: cons_lines_def cons_put_def)
  ultimately show "cons_lines (cons_put c s) = cons_lines s" "cons_edit (cons_put c s) = cons_edit s @ [c]"
    by (simp_all add: append_eq_append_conv)
qed

lemma cons_commit:
  assumes "cons_fit s" "unat (cons_w s - cons_r s) \<le> unat (cons_e s - cons_r s)"
  defines "t \<equiv> s\<lparr>cons_w := cons_e s\<rparr>"
  shows "cons_ok t" "cons_lines t = cons_lines s @ cons_edit s" "cons_edit t = []"
proof -
  show e: "cons_edit t = []" by (simp add: cons_edit_def t_def ring_empty_iff)
  show "cons_ok t" using assms(1) e by (simp add: cons_ok_def cons_fit_def t_def)
  show "cons_lines t = cons_lines s @ cons_edit s"
    using ring_append [OF _ assms(2), of "cons_buf s"] assms(1) by (simp add: t_def cons_lines_def cons_edit_def cons_fit_def)
qed

lemma cons_room:
  assumes "cons_ok s"
  shows "cons_e s - cons_r s < 128 \<longleftrightarrow> length (cons_lines s) + length (cons_edit s) < 128"
proof -
  have "length (cons_all s) = length (cons_lines s) + length (cons_edit s)" using cons_all_split [OF assms] by simp
  then show ?thesis by (simp add: cons_all_def word_less_nat_alt)
qed

lemma cons_char:
  assumes ok: "cons_ok s" and np: "\<not> panicked s" and c: "c \<notin> {0, 8, 16, 21, 127}" "0 \<le> c" "c < 256"
    and room: "length (cons_lines s) + length (cons_edit s) < 128"
  shows "\<exists>t. consoleintr c s = Done () t \<and> cons_ok t \<and> (cons_lines t, cons_edit t) = line_step c (cons_lines s, cons_edit s)"
proof -
  define d where "d = (if c = 13 then 10 else c)"
  obtain x y where u: "consputc d s = Done () (s\<lparr>sent := x, thr_room := y\<rparr>)" using consputc_Done [OF np] by blast
  let ?s = "s\<lparr>sent := x, thr_room := y\<rparr>"
  let ?p = "cons_put (of_int d) ?s"
  have ok': "cons_ok ?s" "length (cons_lines ?s) + length (cons_edit ?s) < 128" using ok room by simp_all
  note q = cons_put_spec [OF ok', of "of_int d"]
  have call: "consoleintr c s = Done () (if d = 10 \<or> d = 4 \<or> cons_e ?p - cons_r ?p = 128
      then wakeup ChanCons (?p\<lparr>cons_w := cons_e ?p\<rparr>) else ?p)"
    using c room cons_room [OF ok] u by (simp add: consoleintr_def Let_def d_def [symmetric])
  have f: "cons_r ?p = cons_r s" "cons_w ?p = cons_w s" by (simp_all add: cons_put_def)
  have "unat (cons_e ?p - cons_r ?p) = length (cons_lines s) + Suc (length (cons_edit s))"
  proof -
    have "length (cons_all ?p) = length (cons_lines ?s) + length (cons_edit ?s) + 1"
      using consq.put_items [of ?s "of_int d"] ok' cons_all_split [OF ok'(1)] by (simp add: cons_ok_def)
    then show ?thesis by (simp add: cons_all_def)
  qed
  then have full: "cons_e ?p - cons_r ?p = 128 \<longleftrightarrow> length (cons_lines s) + Suc (length (cons_edit s)) = 128"
    by (simp add: word_unat_eq_iff)
  have le: "unat (cons_w ?p - cons_r ?p) \<le> unat (cons_e ?p - cons_r ?p)" using q(4) by (simp add: f)
  have ls: "line_step c (cons_lines s, cons_edit s) =
    (if d = 10 \<or> d = 4 \<or> length (cons_lines s) + Suc (length (cons_edit s)) = 128
     then (cons_lines s @ cons_edit s @ [of_int d], []) else (cons_lines s, cons_edit s @ [of_int d]))"
    using c room by (simp add: line_step_def Let_def d_def [symmetric])
  show ?thesis
  proof (cases "d = 10 \<or> d = 4 \<or> length (cons_lines s) + Suc (length (cons_edit s)) = 128")
    case True
    with call full ls cons_commit [OF q(3) le] q(1,2) show ?thesis by auto
  next
    case False
    have "(of_int d :: byte) \<noteq> 10"
    proof
      assume "(of_int d :: byte) = 10"
      then have "d mod 256 = 10" using uint_word_of_int [of d, where 'a = 8] by simp
      then show False using False c(2,3) by (simp add: d_def split: if_splits)
    qed
    then have "cons_ok ?p" using q le ok by (simp add: cons_ok_def)
    with False call full ls q(1,2) show ?thesis by auto
  qed
qed

text \<open>
  C15. The console input handler implements the line discipline: what readers may take and the
  line being edited change exactly as the specification \<open>line_step\<close> says for every character,
  with erase, kill, carriage return, end of file and a full buffer. The ring never overflows,
  and a line is handed to the readers only when it is complete.
\<close>

theorem consoleintr_correct:
  assumes "cons_ok s" "\<not> panicked s" "0 \<le> c" "c < 256"
  shows "\<exists>t. consoleintr c s = Done () t \<and> cons_ok t \<and>
    (cons_lines t, cons_edit t) = line_step c (cons_lines s, cons_edit s)"
proof -
  consider "c = 16" | "c = 21" | "c = 8 \<or> c = 127" | "c \<notin> {8, 16, 21, 127}" by auto
  then show ?thesis
  proof cases
    case 1
    then show ?thesis using print_procs_Done [OF assms(2)] assms(1) by (auto simp: consoleintr_def line_step_def)
  next
    case 2
    obtain x y where "kill_line s = Done () (s\<lparr>cons_e := cons_w s, sent := x, thr_room := y\<rparr>)"
      using kill_line_spec [OF assms(2)] assms(1) by (auto simp: cons_ok_def cons_fit_def)
    moreover have "cons_ok (s\<lparr>cons_e := cons_w s\<rparr>)" "cons_lines (s\<lparr>cons_e := cons_w s\<rparr>) = cons_lines s"
      "cons_edit (s\<lparr>cons_e := cons_w s\<rparr>) = []"
      using assms(1) by (auto simp: cons_ok_def cons_fit_def cons_lines_def cons_edit_def ring_def)
    ultimately show ?thesis using 2 by (auto simp: consoleintr_def line_step_def)
  next
    case 3
    have len: "length (cons_buf s) = 128" using assms(1) by (simp add: cons_ok_def cons_fit_def)
    show ?thesis
    proof (cases "cons_edit s = []")
      case True
      then show ?thesis using 3 assms(1) cons_edit_empty [of s] by (auto simp: consoleintr_def line_step_def)
    next
      case False
      let ?s = "s\<lparr>cons_e := cons_e s - 1\<rparr>"
      obtain x y where "consputc 0x100 ?s = Done () (?s\<lparr>sent := x, thr_room := y\<rparr>)"
        using consputc_Done [of ?s "0x100"] assms(2) by auto
      moreover have "cons_lines ?s = cons_lines s" by (simp add: cons_lines_def)
      ultimately show ?thesis
        using 3 False cons_edit_empty [of s] cons_ok_erase [OF assms(1) False] cons_erase(1) [OF len False]
        by (auto simp: consoleintr_def line_step_def)
    qed
  next
    case 4
    show ?thesis
    proof (cases "c \<noteq> 0 \<and> length (cons_lines s) + length (cons_edit s) < 128")
      case True
      then show ?thesis using cons_char [OF assms(1,2) _ assms(3,4)] 4 by auto
    next
      case False
      then show ?thesis using 4 assms(1) cons_room [OF assms(1)] by (auto simp: consoleintr_def line_step_def)
    qed
  qed
qed

section \<open>Reading a line\<close>

text \<open>
  What a read of at most \<open>n\<close> bytes delivers from the lines ready, and what it leaves: up to
  and including a newline, and up to an end of file mark, which is left for the next read if
  bytes were delivered before it. \<open>None\<close> means that the reader waits for more input.
\<close>

fun cons_take :: "bool \<Rightarrow> nat \<Rightarrow> byte list \<Rightarrow> (byte list \<times> byte list) option" where
  "cons_take got 0 ls = Some ([], ls)"
| "cons_take got (Suc n) [] = None"
| "cons_take got (Suc n) (c # ls) =
     (if c = 4 then Some ([], if got then c # ls else ls)
      else if c = 10 then Some ([c], ls)
      else map_option (\<lambda>(d, rest). (c # d, rest)) (cons_take True n ls))"

lemma pt_state_cons [simp]: "pt_state (s\<lparr>cons_r := r\<rparr>) pt fl = pt_state s pt fl"
  by (simp add: pt_state_def kmem_pool_def phys_page_def)

lemma user_writable_cons [simp]: "user_writable (s\<lparr>cons_r := r\<rparr>) pt fl va n = user_writable s pt fl va n"
  by (simp add: user_writable_def phys_page_def)

lemma cons_get_lines:
  assumes "length (cons_buf s) = 128" "cons_lines s = c # ls"
  shows "cons_r s \<noteq> cons_w s" "cons_get s = (c, s\<lparr>cons_r := cons_r s + 1\<rparr>)" "cons_lines (s\<lparr>cons_r := cons_r s + 1\<rparr>) = ls"
proof -
  show ne: "cons_r s \<noteq> cons_w s" using assms(2) by (auto simp: cons_lines_def ring_def)
  show "cons_get s = (c, s\<lparr>cons_r := cons_r s + 1\<rparr>)" "cons_lines (s\<lparr>cons_r := cons_r s + 1\<rparr>) = ls"
    using ring_get [OF _ ne, of "cons_buf s"] assms by (simp_all add: cons_get_def cons_lines_def)
qed

lemma consoleread_loop_spec:
  assumes "pt_state s (pagetable (myproc s)) fl" "user_writable s (pagetable (myproc s)) fl dst n"
    "length (cons_buf s) = 128" "cons_take (n < target) n (cons_lines s) = Some (d, rest)" "n \<le> target"
  shows "\<exists>m r. consoleread_loop True target dst n s = Done (int target - int n + int (length d)) (s\<lparr>mem := m, cons_r := r\<rparr>) \<and>
    user_bytes m (pagetable (myproc s)) dst (length d) = d \<and> cons_lines (s\<lparr>cons_r := r\<rparr>) = rest \<and>
    lookup m (pagetable (myproc s)) = lookup (mem s) (pagetable (myproc s)) \<and>
    (\<forall>a. (\<forall>j<n. a \<noteq> user_pa (mem s) (pagetable (myproc s)) (dst + of_nat j)) \<longrightarrow> m a = mem s a)"
  using assms
proof (induction n arbitrary: dst s d)
  case 0
  then show ?case by (intro exI [of _ "mem s"] exI [of _ "cons_r s"]) (simp add: user_bytes_def)
next
  case (Suc n)
  note p = Suc.prems
  let ?pt = "pagetable (myproc s)" and ?s1 = "s\<lparr>cons_r := cons_r s + 1\<rparr>"
  obtain c ls where cl: "cons_lines s = c # ls" using p(4) by (cases "cons_lines s") auto
  note g = cons_get_lines [OF p(3) cl]
  show ?case
  proof (cases "c = 4")
    case True
    define r where "r = (if Suc n < target then cons_r s else cons_r s + 1)"
    have call: "consoleread_loop True target dst (Suc n) s = Done (int target - int (Suc n)) (s\<lparr>mem := mem s, cons_r := r\<rparr>)"
      using g True by (simp add: r_def)
    have "d = []" "rest = (if Suc n < target then cons_lines s else ls)" using p(4) True cl by (auto split: if_splits)
    then show ?thesis using call g(3)
      by (intro exI [of _ "mem s"] exI [of _ r]) (auto simp: user_bytes_def r_def cl [symmetric])
  next
    case False
    have st1: "pt_state ?s1 ?pt fl" "user_writable ?s1 ?pt fl dst (Suc n)" using p(1,2) by simp_all
    obtain m where m: "copyout ?pt dst [c] ?s1 = Done 0 (?s1\<lparr>mem := m\<rparr>)" "pt_state (?s1\<lparr>mem := m\<rparr>) ?pt fl"
      "lookup m ?pt = lookup (mem s) ?pt" "m (user_pa (mem s) ?pt dst) = c"
      "\<And>a. a \<noteq> user_pa (mem s) ?pt dst \<Longrightarrow> m a = mem s a" "user_writable (?s1\<lparr>mem := m\<rparr>) ?pt fl (dst + 1) n"
      by (rule copyout_byte [OF st1]) auto
    let ?s = "?s1\<lparr>mem := m\<rparr>"
    have my: "myproc ?s1 = myproc s" "myproc ?s = myproc s" by (simp_all add: myproc_def)
    have upa: "user_pa m ?pt z = user_pa (mem s) ?pt z" for z
      using m(3) by (simp add: user_pa_def user_frame_def)
    have out: "m a = mem s a" if "\<forall>j<Suc n. a \<noteq> user_pa (mem s) ?pt (dst + of_nat j)" for a
      using that [rule_format, of 0] by (intro m(5)) simp
    show ?thesis
    proof (cases "c = 10")
      case True
      have "consoleread_loop True target dst (Suc n) s = Done (int target - int n) (s\<lparr>mem := m, cons_r := cons_r s + 1\<rparr>)"
        using g True m(1) by (simp add: either_copyout_def my)
      moreover have "d = [c]" "rest = ls" using p(4) True cl by auto
      ultimately show ?thesis using m(3,4) g(3) out
        by (intro exI [of _ m] exI [of _ "cons_r s + 1"]) (simp add: user_bytes_def upa)
    next
      case nl: False
      from p(4) False nl cl obtain d' where d: "cons_take True n ls = Some (d', rest)" "d = c # d'" by auto
      have lines: "cons_lines ?s = ls" using g(3) by (simp add: cons_lines_def)
      have "pt_state ?s (pagetable (myproc ?s)) fl" "user_writable ?s (pagetable (myproc ?s)) fl (dst + 1) n"
        "length (cons_buf ?s) = 128" "cons_take (n < target) n (cons_lines ?s) = Some (d', rest)" "n \<le> target"
        using m(2,6) p(3,5) d(1) lines by (simp_all add: my Suc_le_eq)
      note IH = Suc.IH [OF this]
      have memS: "mem ?s = m" by simp
      from IH obtain m' r where m': "consoleread_loop True target (dst + 1) n ?s =
          Done (int target - int n + int (length d')) (?s\<lparr>mem := m', cons_r := r\<rparr>)"
        "user_bytes m' ?pt (dst + 1) (length d') = d'" "cons_lines (?s\<lparr>cons_r := r\<rparr>) = rest" "lookup m' ?pt = lookup m ?pt"
        "\<forall>a. (\<forall>j<n. a \<noteq> user_pa m ?pt (dst + 1 + of_nat j)) \<longrightarrow> m' a = m a" unfolding my memS by blast
      have call: "consoleread_loop True target dst (Suc n) s = consoleread_loop True target (dst + 1) n ?s"
        using g False nl m(1) by (simp add: either_copyout_def my)
      have "user_pa (mem s) ?pt dst \<noteq> user_pa (mem s) ?pt (dst + 1 + of_nat j)" if "j < n" for j
        using user_pa_inj [OF p(2), of 0 "Suc j"] that by (auto simp: ac_simps)
      then have hd: "m' (user_pa (mem s) ?pt dst) = c" using m'(5) m(4) by (auto simp: upa)
      have look: "lookup m' ?pt = lookup (mem s) ?pt" using m(3) m'(4) by simp
      then have upa': "user_pa m' ?pt z = user_pa (mem s) ?pt z" for z by (simp add: user_pa_def user_frame_def)
      have "m' a = mem s a" if a: "\<forall>j<Suc n. a \<noteq> user_pa (mem s) ?pt (dst + of_nat j)" for a
      proof -
        have "a \<noteq> user_pa m ?pt (dst + 1 + of_nat j)" if "j < n" for j
          using a [rule_format, of "Suc j"] that by (simp add: upa ac_simps)
        then have "m' a = m a" using m'(5) by blast
        then show ?thesis using out [OF a] by simp
      qed
      moreover have "user_bytes m' ?pt dst (length d) = d" using m'(2) hd by (simp add: d(2) user_bytes_Suc upa')
      moreover have "cons_lines (s\<lparr>cons_r := r\<rparr>) = rest" using m'(3) by (simp add: cons_lines_def)
      moreover have "consoleread_loop True target dst (Suc n) s =
          Done (int target - int (Suc n) + int (length d)) (s\<lparr>mem := m', cons_r := r\<rparr>)"
        unfolding call m'(1) by (simp add: d(2))
      ultimately show ?thesis using look by blast
    qed
  qed
qed

text \<open>
  C16. \<^verbatim>\<open>consoleread\<close> delivers to the user exactly what \<open>cons_take\<close> specifies: at most \<open>n\<close> bytes, at
  most one line, nothing beyond an end-of-file mark; the rest stays for the next read, and no
  byte outside the user's buffer is written. With no complete input it sleeps.
\<close>

theorem consoleread_correct:
  fixes s :: "'z conss_scheme"
  defines "pt \<equiv> pagetable (myproc s)"
  assumes "pt_state s pt fl" "user_writable s pt fl dst n" "cons_ok s" "killed (curproc s) s = 0"
  shows "case cons_take False n (cons_lines s) of
      Some (d, rest) \<Rightarrow> \<exists>m r. consoleread True dst (int n) s = Done (int (length d)) (s\<lparr>mem := m, cons_r := r\<rparr>) \<and>
        user_bytes m pt dst (length d) = d \<and> cons_lines (s\<lparr>cons_r := r\<rparr>) = rest \<and>
        (\<forall>a. (\<forall>j<n. a \<noteq> user_pa (mem s) pt (dst + of_nat j)) \<longrightarrow> m a = mem s a)
    | None \<Rightarrow> cons_lines s = [] \<longrightarrow> consoleread True dst (int n) s = ksleep ChanCons s"
proof (cases "cons_take False n (cons_lines s)")
  case None
  have "consoleread True dst (int n) s = ksleep ChanCons s" if "cons_lines s = []"
  proof -
    have "cons_r s = cons_w s" using that by (simp add: cons_lines_def ring_empty_iff)
    moreover have "n \<noteq> 0" using None that by (cases n) auto
    ultimately show ?thesis using assms(5) by (cases n) (simp_all add: consoleread_def del: of_nat_Suc)
  qed
  with None show ?thesis by simp
next
  case (Some dr)
  obtain d rest where dr: "dr = (d, rest)" by (cases dr)
  have len: "length (cons_buf s) = 128" using assms(4) by (simp add: cons_ok_def cons_fit_def)
  show ?thesis
    using consoleread_loop_spec [of s fl dst n n d rest] assms(1-3) len Some
    by (simp add: dr consoleread_def) blast
qed

section \<open>A concrete state\<close>

text \<open>A console whose indices are about to wrap around, with a line ready and another begun.\<close>

definition cons_on :: "uartst \<Rightarrow> conss" where
  "cons_on s = uartst.extend s
     (conss.fields ((replicate INPUT_BUF_SIZE 0)[126 := 104, 127 := 10, 0 := 97]) (-2) 0 1 (\<lambda>_. None) (\<lambda>_. None))"

lemma cons_on_simps [simp]:
  "mem (cons_on s) = mem s" "kend (cons_on s) = kend s" "freelist (cons_on s) = freelist s" "procs (cons_on s) = procs s"
  "curproc (cons_on s) = curproc s" "panicked (cons_on s) = panicked s" "myproc (cons_on s) = myproc s"
  "cons_buf (cons_on s) = (replicate 128 0)[126 := 104, 127 := 10, 0 := 97]" "cons_r (cons_on s) = -2"
  "cons_w (cons_on s) = 0" "cons_e (cons_on s) = 1"
  by (simp_all add: myproc_def) (simp_all add: cons_on_def uartst.defs conss.defs)

abbreviation example_cons :: "kmem \<Rightarrow> conss" where
  "example_cons s \<equiv> cons_on (uart_on (pipe_on 0 example_pipe s))"

lemma example_cons: "cons_lines (example_cons s) = [104, 10]" "cons_edit (example_cons s) = [97]" "cons_ok (example_cons s)"
proof -
  show l: "cons_lines (example_cons s) = [104, 10]" by (simp add: cons_lines_def ring_def) (simp add: upt_conv_Cons nth_list_update)
  show e: "cons_edit (example_cons s) = [97]" by (simp add: cons_edit_def ring_def)
  show "cons_ok (example_cons s)" using e by (simp add: cons_ok_def cons_fit_def)
qed

theorem consoleintr_correct_witness:
  "\<exists>t. consoleintr 13 (example_cons no_mem) = Done () t \<and> cons_lines t = [104, 10, 97, 10] \<and> cons_edit t = []"
  using consoleintr_correct [of "example_cons no_mem" 13] by (auto simp: example_cons line_step_def)

theorem consoleread_correct_witness:
  "\<exists>s :: conss. \<exists>m r. consoleread True 0x3010 3 s = Done 2 (s\<lparr>mem := m, cons_r := r\<rparr>) \<and>
    user_bytes m 0x80024000 0x3010 2 = [104, 10] \<and> cons_lines (s\<lparr>cons_r := r\<rparr>) = []"
proof (rule example_user)
  fix s :: kmem and fl
  assume a: "pt_state s 0x80024000 fl" "user_writable s 0x80024000 fl 0x3010 3"
  let ?s = "example_cons s"
  have "pt_state ?s 0x80024000 fl" using a(1) by (simp add: pt_state_def kmem_pool_def phys_page_def)
  moreover have "user_writable ?s 0x80024000 fl 0x3010 3 = user_writable s 0x80024000 fl 0x3010 3"
    by (simp add: user_writable_def phys_page_def)
  moreover have my: "pagetable (myproc ?s) = 0x80024000" by simp
  moreover have ct: "cons_take False 3 (cons_lines ?s) = Some ([104, 10], [])"
    by (simp add: example_cons numeral_3_eq_3)
  moreover have "killed (curproc ?s) ?s = 0" by (simp add: killed_def no_proc_def)
  ultimately show ?thesis
    using consoleread_correct [of ?s fl "0x3010" 3, unfolded my ct] a(2) example_cons(3) [of s]
    by (simp add: numeral_2_eq_2) blast
qed

end
