(* ===== verification/File.thy ===== *)
theory File
  imports Console
begin

text \<open>
  \<^verbatim>\<open>kernel/file.c\<close> and \<^verbatim>\<open>pipealloc\<close> of \<^verbatim>\<open>kernel/pipe.c\<close>: the table of open files, their reference
  counts, and the dispatch of reads and writes on the type of the file. A \<^verbatim>\<open>struct file\<close>
  pointer is an index into the table, and \<open>None\<close> is a null pointer. Sections that hold
  \<^verbatim>\<open>ftable.lock\<close> are single steps.
\<close>

section \<open>State\<close>

datatype fdtype = FD_NONE | FD_PIPE | FD_INODE | FD_DEVICE

record kfile =
  ftype :: fdtype
  fref :: int
  readable :: bool
  writable :: bool
  fpipe :: addr
  fip :: nat
  foff :: uint
  fmajor :: int

abbreviation (input) NFILE :: nat where "NFILE \<equiv> 100"
abbreviation (input) NDEV :: int where "NDEV \<equiv> 10"

record filest = conss +
  files :: "kfile list"

definition upd_file :: "nat \<Rightarrow> (kfile \<Rightarrow> kfile) \<Rightarrow> 'z filest_scheme \<Rightarrow> 'z filest_scheme" where
  "upd_file f g s = s\<lparr>files := (files s)[f := g (files s ! f)]\<rparr>"

section \<open>Allocation and reference counts\<close>

text \<open>The scan of \<^verbatim>\<open>filealloc\<close>: the first entry with no references.\<close>

fun free_file :: "kfile list \<Rightarrow> nat \<Rightarrow> nat option" where
  "free_file [] i = None"
| "free_file (f # fs) i = (if fref f = 0 then Some i else free_file fs (Suc i))"

definition filealloc :: "'z filest_scheme \<Rightarrow> nat option \<times> 'z filest_scheme" where
  "filealloc s =
     (case free_file (files s) 0 of
        Some f \<Rightarrow> (Some f, upd_file f (\<lambda>x. x\<lparr>fref := 1\<rparr>) s)
      | None \<Rightarrow> (None, s))"

definition filedup :: "nat \<Rightarrow> 'z filest_scheme \<Rightarrow> (nat, 'z filest_scheme) outcome" where
  "filedup f s =
     (if fref (files s ! f) < 1 then Panic ''filedup''
      else Done f (upd_file f (\<lambda>x. x\<lparr>fref := fref x + 1\<rparr>) s))"

definition fileclose :: "nat \<Rightarrow> 'z filest_scheme \<Rightarrow> (unit, 'z filest_scheme) outcome" where
  "fileclose f s =
     (if fref (files s ! f) < 1 then Panic ''fileclose''
      else let s = upd_file f (\<lambda>x. x\<lparr>fref := fref x - 1\<rparr>) s
           in if fref (files s ! f) > 0 then Done () s
              else let ff = files s ! f;
                       s = upd_file f (\<lambda>x. x\<lparr>fref := 0, ftype := FD_NONE\<rparr>) s
                   in if ftype ff = FD_PIPE then pipeclose (fpipe ff) (writable ff) s
                      else if ftype ff = FD_INODE \<or> ftype ff = FD_DEVICE
                      then kbind (begin_op s) (\<lambda>_ s. kbind (iput (fip ff) s) (\<lambda>_ s. end_op s))
                      else Done () s)"

text \<open>
  \<^verbatim>\<open>pipealloc\<close>: the two files, read end first, or \<open>None\<close> for the result -1. The label
  \<^verbatim>\<open>bad\<close> is reached before a page is taken, so there is none to free there.
\<close>

definition pipealloc_bad ::
  "nat option \<Rightarrow> nat option \<Rightarrow> 'z filest_scheme \<Rightarrow> ((nat \<times> nat) option, 'z filest_scheme) outcome" where
  "pipealloc_bad f0 f1 s =
     kbind (case f0 of None \<Rightarrow> Done () s | Some f \<Rightarrow> fileclose f s) (\<lambda>_ s.
     kbind (case f1 of None \<Rightarrow> Done () s | Some f \<Rightarrow> fileclose f s) (\<lambda>_ s.
     Done None s))"

definition pipealloc :: "'z filest_scheme \<Rightarrow> ((nat \<times> nat) option, 'z filest_scheme) outcome" where
  "pipealloc s =
     (case filealloc s of
        (None, s) \<Rightarrow> pipealloc_bad None None s
      | (Some f0, s) \<Rightarrow>
          (case filealloc s of
             (None, s) \<Rightarrow> pipealloc_bad (Some f0) None s
           | (Some f1, s) \<Rightarrow>
               kbind (kalloc s) (\<lambda>pi s.
                 if pi = 0 then pipealloc_bad (Some f0) (Some f1) s
                 else let s = s\<lparr>pipes := (pipes s)(pi \<mapsto>
                            \<lparr>pdata = load_bytes (mem s) (pi + 24) PIPESIZE, nread = 0, nwrite = 0,
                             readopen = True, writeopen = True\<rparr>)\<rparr>;
                          s = upd_file f0 (\<lambda>x. x\<lparr>ftype := FD_PIPE, readable := True, writable := False, fpipe := pi\<rparr>) s;
                          s = upd_file f1 (\<lambda>x. x\<lparr>ftype := FD_PIPE, readable := False, writable := True, fpipe := pi\<rparr>) s
                      in Done (Some (f0, f1)) s)))"

section \<open>Reading, writing and status\<close>

text \<open>
  The bytes of a \<^verbatim>\<open>struct stat\<close>. The compiler leaves four bytes of padding before the size,
  which nothing initialises; they are the argument \<open>pad\<close>.
\<close>

definition stat_bytes :: "byte list \<Rightarrow> stat \<Rightarrow> byte list" where
  "stat_bytes pad st =
     bytes32 (st_dev st) @ bytes32 (st_ino st) @ bytes16 (st_type st) @ bytes16 (st_nlink st) @ pad @ bytes64 (st_size st)"

definition filestat :: "byte list \<Rightarrow> nat \<Rightarrow> uint64 \<Rightarrow> 'z filest_scheme \<Rightarrow> (int, 'z filest_scheme) outcome" where
  "filestat pad f addr s =
     (let x = files s ! f
      in if ftype x = FD_INODE \<or> ftype x = FD_DEVICE
         then kbind (ilock (fip x) s) (\<lambda>_ s.
              let st = stati (fip x) s
              in kbind (iunlock (fip x) s) (\<lambda>_ s.
                 kbind (copyout (pagetable (myproc s)) addr (stat_bytes pad st) s) (\<lambda>r s.
                   if r < 0 then Done (-1) s else Done 0 s)))
         else Done (-1) s)"

definition fileread :: "nat \<Rightarrow> uint64 \<Rightarrow> int \<Rightarrow> 'z filest_scheme \<Rightarrow> (int, 'z filest_scheme) outcome" where
  "fileread f addr n s =
     (let x = files s ! f
      in if \<not> readable x then Done (-1) s
         else case ftype x of
             FD_PIPE \<Rightarrow> piperead (fpipe x) addr n s
           | FD_DEVICE \<Rightarrow>
               if fmajor x < 0 \<or> fmajor x \<ge> NDEV then Done (-1) s
               else (case devsw_read s (fmajor x) of
                  None \<Rightarrow> Done (-1) s
                | Some Consoleread \<Rightarrow> consoleread True addr n s)
           | FD_INODE \<Rightarrow>
               kbind (ilock (fip x) s) (\<lambda>_ s.
               kbind (readi (fip x) (UserDst addr) (foff (files s ! f)) (of_int n) s) (\<lambda>(r, _) s.
                 let s = (if r > 0 then upd_file f (\<lambda>x. x\<lparr>foff := foff x + of_int r\<rparr>) s else s)
                 in kbind (iunlock (fip x) s) (\<lambda>_ s. Done r s)))
           | FD_NONE \<Rightarrow> Panic ''fileread'')"

text \<open>
  The loop of \<^verbatim>\<open>filewrite\<close> for inodes, with \<open>left\<close> bytes to write after \<open>i\<close>: at most
  \<open>((MAXOPBLOCKS-1-1-2) / 2) * BSIZE\<close> = 3072 bytes per transaction. The result is the final \<open>i\<close>.
\<close>

function filewrite_loop :: "nat \<Rightarrow> uint64 \<Rightarrow> nat \<Rightarrow> nat \<Rightarrow> 'z filest_scheme \<Rightarrow> (nat, 'z filest_scheme) outcome" where
  "filewrite_loop f addr i left s =
     (if left = 0 then Done i s
      else let n1 = min left 3072; ip = fip (files s ! f)
           in kbind (begin_op s) (\<lambda>_ s.
              kbind (ilock ip s) (\<lambda>_ s.
              kbind (writei ip (UserSrc (addr + of_nat i)) (foff (files s ! f)) (of_nat n1) s) (\<lambda>r s.
                let s = (if r > 0 then upd_file f (\<lambda>x. x\<lparr>foff := foff x + of_int r\<rparr>) s else s)
                in kbind (iunlock ip s) (\<lambda>_ s.
                   kbind (end_op s) (\<lambda>_ s.
                     if r \<noteq> int n1 then Done i s
                     else filewrite_loop f addr (i + n1) (left - n1) s))))))"
  by pat_completeness auto
termination
  by (relation "measure (\<lambda>(f, addr, i, left, s). left)") auto

declare filewrite_loop.simps [simp del]

definition filewrite :: "nat \<Rightarrow> uint64 \<Rightarrow> int \<Rightarrow> 'z filest_scheme \<Rightarrow> (int, 'z filest_scheme) outcome" where
  "filewrite f addr n s =
     (let x = files s ! f
      in if \<not> writable x then Done (-1) s
         else case ftype x of
             FD_PIPE \<Rightarrow> pipewrite (fpipe x) addr n s
           | FD_DEVICE \<Rightarrow>
               if fmajor x < 0 \<or> fmajor x \<ge> NDEV then Done (-1) s
               else (case devsw_write s (fmajor x) of
                  None \<Rightarrow> Done (-1) s
                | Some Consolewrite \<Rightarrow> consolewrite True addr n s)
           | FD_INODE \<Rightarrow>
               kbind (filewrite_loop f addr 0 (nat n) s) (\<lambda>i s.
                 Done (if int i = n then n else -1) s)
           | FD_NONE \<Rightarrow> Panic ''filewrite'')"

end
