(* ===== verification/Proc.thy ===== *)
theory Proc
  imports File
begin

text \<open>
  \<^verbatim>\<open>kernel/proc.c\<close>: creation, exit and scheduling of processes. Trap frames lie in physical
  memory at the address \<open>trapframe\<close> of a process. Sections that hold \<^verbatim>\<open>p->lock\<close> or
  \<^verbatim>\<open>wait_lock\<close> are single steps. The index \<open>NPROC\<close> of the current process stands for none, which is
  how the scheduler runs. A context switch is an update of the current process; the saved
  registers other than \<^verbatim>\<open>ra\<close> and \<^verbatim>\<open>sp\<close> are not part of the model.
\<close>

section \<open>Trap frames\<close>

text \<open>The offsets of \<^verbatim>\<open>struct trapframe\<close>.\<close>

abbreviation (input) TF_kernel_satp :: uint64 where "TF_kernel_satp \<equiv> 0"
abbreviation (input) TF_kernel_sp :: uint64 where "TF_kernel_sp \<equiv> 8"
abbreviation (input) TF_kernel_trap :: uint64 where "TF_kernel_trap \<equiv> 16"
abbreviation (input) TF_epc :: uint64 where "TF_epc \<equiv> 24"
abbreviation (input) TF_kernel_hartid :: uint64 where "TF_kernel_hartid \<equiv> 32"
abbreviation (input) TF_sp :: uint64 where "TF_sp \<equiv> 48"
abbreviation (input) TF_a0 :: uint64 where "TF_a0 \<equiv> 112"
abbreviation (input) TF_a1 :: uint64 where "TF_a1 \<equiv> 120"
abbreviation (input) TF_a7 :: uint64 where "TF_a7 \<equiv> 168"

definition tf_read :: "nat \<Rightarrow> uint64 \<Rightarrow> 'z kproc_scheme \<Rightarrow> uint64" where
  "tf_read p field s = load64 (mem s) (trapframe (procs s ! p) + field)"

definition tf_write :: "nat \<Rightarrow> uint64 \<Rightarrow> uint64 \<Rightarrow> 'z kproc_scheme \<Rightarrow> 'z kproc_scheme" where
  "tf_write p field v s = s\<lparr>mem := store64 (mem s) (trapframe (procs s ! p) + field) v\<rparr>"

section \<open>The process table\<close>

definition procinit :: "'z kproc_scheme \<Rightarrow> 'z kproc_scheme" where
  "procinit s = s\<lparr>procs := map2 (\<lambda>i p. p\<lparr>pstate := UNUSED, kstack := KSTACK i\<rparr>) [0..<NPROC] (procs s)\<rparr>"

definition allocpid :: "'z kproc_scheme \<Rightarrow> int \<times> 'z kproc_scheme" where
  "allocpid s = (nextpid s, s\<lparr>nextpid := nextpid s + 1\<rparr>)"

definition proc_pagetable :: "nat \<Rightarrow> 'z kproc_scheme \<Rightarrow> (addr, 'z kproc_scheme) outcome" where
  "proc_pagetable p s =
     kbind (uvmcreate s) (\<lambda>pt s.
       if pt = 0 then Done 0 s
       else kbind (mappages pt TRAMPOLINE PGSIZE (trampoline s) (PTE_R OR PTE_X) s) (\<lambda>r s.
         if r < 0 then kbind (uvmfree pt 0 s) (\<lambda>_ s. Done 0 s)
         else kbind (mappages pt TRAPFRAME PGSIZE (trapframe (procs s ! p)) (PTE_R OR PTE_W) s) (\<lambda>r s.
           if r < 0
           then kbind (uvmunmap pt TRAMPOLINE 1 False s) (\<lambda>_ s. kbind (uvmfree pt 0 s) (\<lambda>_ s. Done 0 s))
           else Done pt s)))"

definition proc_freepagetable :: "addr \<Rightarrow> uint64 \<Rightarrow> 'z kproc_scheme \<Rightarrow> (unit, 'z kproc_scheme) outcome" where
  "proc_freepagetable pt sz s =
     kbind (uvmunmap pt TRAMPOLINE 1 False s) (\<lambda>_ s.
     kbind (uvmunmap pt TRAPFRAME 1 False s) (\<lambda>_ s.
     uvmfree pt sz s))"

definition freeproc :: "nat \<Rightarrow> 'z kproc_scheme \<Rightarrow> (unit, 'z kproc_scheme) outcome" where
  "freeproc i s =
     kbind (if trapframe (procs s ! i) \<noteq> 0 then kfree (trapframe (procs s ! i)) s else Done () s) (\<lambda>_ s.
     let s = upd_proc i (\<lambda>p. p\<lparr>trapframe := 0\<rparr>) s
     in kbind (if pagetable (procs s ! i) \<noteq> 0
               then proc_freepagetable (pagetable (procs s ! i)) (psz (procs s ! i)) s else Done () s) (\<lambda>_ s.
     Done () (upd_proc i (\<lambda>p. p\<lparr>pagetable := 0, psz := 0, pid := 0, parent := None, pname := [], pchan := None,
                pkilled := 0, xstate := 0, pstate := UNUSED\<rparr>) s)))"

text \<open>The scan of \<^verbatim>\<open>allocproc\<close> for an unused slot.\<close>

fun find_unused_proc :: "proc list \<Rightarrow> nat \<Rightarrow> nat option" where
  "find_unused_proc [] i = None"
| "find_unused_proc (p # ps) i = (if pstate p = UNUSED then Some i else find_unused_proc ps (Suc i))"

text \<open>\<open>forkret_addr\<close> is the address of the function \<^verbatim>\<open>forkret\<close>.\<close>

definition allocproc :: "addr \<Rightarrow> 'z kproc_scheme \<Rightarrow> (nat option, 'z kproc_scheme) outcome" where
  "allocproc forkret_addr s =
     (case find_unused_proc (procs s) 0 of
        None \<Rightarrow> Done None s
      | Some i \<Rightarrow>
          let (pd, s) = allocpid s;
              s = upd_proc i (\<lambda>p. p\<lparr>pid := pd, pstate := USED\<rparr>) s
          in kbind (kalloc s) (\<lambda>tf s.
             let s = upd_proc i (\<lambda>p. p\<lparr>trapframe := tf\<rparr>) s
             in if tf = 0 then kbind (freeproc i s) (\<lambda>_ s. Done None s)
                else kbind (proc_pagetable i s) (\<lambda>pt s.
                  let s = upd_proc i (\<lambda>p. p\<lparr>pagetable := pt\<rparr>) s
                  in if pt = 0 then kbind (freeproc i s) (\<lambda>_ s. Done None s)
                     else Done (Some i) (upd_proc i (\<lambda>p. p\<lparr>pcontext :=
                            \<lparr>ctx_ra = forkret_addr, ctx_sp = kstack p + PGSIZE\<rparr>\<rparr>) s))))"

definition initcode :: "byte list" where
  "initcode =
    [0x17, 0x05, 0x00, 0x00, 0x13, 0x05, 0x45, 0x02,
     0x97, 0x05, 0x00, 0x00, 0x93, 0x85, 0x35, 0x02,
     0x93, 0x08, 0x70, 0x00, 0x73, 0x00, 0x00, 0x00,
     0x93, 0x08, 0x20, 0x00, 0x73, 0x00, 0x00, 0x00,
     0xef, 0xf0, 0x9f, 0xff, 0x2f, 0x69, 0x6e, 0x69,
     0x74, 0x00, 0x00, 0x24, 0x00, 0x00, 0x00, 0x00,
     0x00, 0x00, 0x00, 0x00]"

text \<open>A null result of \<^verbatim>\<open>allocproc\<close> is dereferenced by \<^verbatim>\<open>userinit\<close>; \<open>initcode_addr\<close> is the address of the array.\<close>

definition userinit :: "addr \<Rightarrow> addr \<Rightarrow> 'z fsst_scheme \<Rightarrow> (unit, 'z fsst_scheme) outcome" where
  "userinit forkret_addr initcode_addr s =
     kbind (allocproc forkret_addr s) (\<lambda>r s.
       case r of
         None \<Rightarrow> Panic ''null dereference''
       | Some p \<Rightarrow>
           let s = s\<lparr>initproc := p\<rparr>
           in kbind (uvmfirst (pagetable (procs s ! p)) initcode_addr (of_nat (length initcode)) s) (\<lambda>_ s.
              let s = upd_proc p (\<lambda>p. p\<lparr>psz := PGSIZE\<rparr>) s;
                  s = tf_write p TF_epc 0 s;
                  s = tf_write p TF_sp PGSIZE s;
                  s = upd_proc p (\<lambda>p. p\<lparr>pname := map of_char ''initcode''\<rparr>) s
              in kbind (namei [47] s) (\<lambda>ip s.
                 Done () (upd_proc p (\<lambda>p. p\<lparr>cwd := ip, pstate := RUNNABLE\<rparr>) s))))"

definition growproc :: "int \<Rightarrow> 'z kproc_scheme \<Rightarrow> (int, 'z kproc_scheme) outcome" where
  "growproc n s =
     (let p = myproc s; sz = psz p
      in if n > 0
         then kbind (uvmalloc (pagetable p) sz (sz + of_int n) PTE_W s) (\<lambda>sz s.
           if sz = 0 then Done (-1) s
           else Done 0 (upd_proc (curproc s) (\<lambda>p. p\<lparr>psz := sz\<rparr>) s))
         else if n < 0
         then kbind (uvmdealloc (pagetable p) sz (sz + of_int n) s) (\<lambda>sz s.
           Done 0 (upd_proc (curproc s) (\<lambda>p. p\<lparr>psz := sz\<rparr>) s))
         else Done 0 s)"

section \<open>Fork\<close>

fun fork_files :: "nat \<Rightarrow> nat \<Rightarrow> nat option list \<Rightarrow> 'z filest_scheme \<Rightarrow> (unit, 'z filest_scheme) outcome" where
  "fork_files np i [] s = Done () s"
| "fork_files np i (None # fs) s = fork_files np (Suc i) fs s"
| "fork_files np i (Some f # fs) s =
     kbind (filedup f s) (\<lambda>f s.
       fork_files np (Suc i) fs (upd_proc np (\<lambda>p. p\<lparr>ofile := (ofile p)[i := Some f]\<rparr>) s))"

text \<open>The trap frame is a structure of 288 bytes; a name has at most 15 characters.\<close>

definition fork :: "addr \<Rightarrow> 'z filest_scheme \<Rightarrow> (int, 'z filest_scheme) outcome" where
  "fork forkret_addr s =
     kbind (allocproc forkret_addr s) (\<lambda>r s.
       case r of
         None \<Rightarrow> Done (-1) s
       | Some np \<Rightarrow>
           let p = myproc s
           in kbind (uvmcopy (pagetable p) (pagetable (procs s ! np)) (psz p) s) (\<lambda>r s.
             if r < 0 then kbind (freeproc np s) (\<lambda>_ s. Done (-1) s)
             else let s = upd_proc np (\<lambda>q. q\<lparr>psz := psz p\<rparr>) s;
                      s = s\<lparr>mem := memmove (mem s) (trapframe (procs s ! np)) (trapframe p) 288\<rparr>;
                      s = tf_write np TF_a0 0 s
                  in kbind (fork_files np 0 (ofile p) s) (\<lambda>_ s.
                     let s = idup (the (cwd p)) s;
                         s = upd_proc np (\<lambda>q. q\<lparr>cwd := cwd p, pname := take 15 (pname p)\<rparr>) s;
                         pd = pid (procs s ! np);
                         s = upd_proc np (\<lambda>q. q\<lparr>parent := Some (curproc s)\<rparr>) s
                     in Done pd (upd_proc np (\<lambda>q. q\<lparr>pstate := RUNNABLE\<rparr>) s))))"

section \<open>Exit and wait\<close>

fun reparent_loop :: "nat \<Rightarrow> nat \<Rightarrow> nat \<Rightarrow> 'z kproc_scheme \<Rightarrow> 'z kproc_scheme" where
  "reparent_loop p i 0 s = s"
| "reparent_loop p i (Suc n) s =
     reparent_loop p (Suc i) n
       (if parent (procs s ! i) = Some p
        then wakeup (ChanProc (initproc s)) (upd_proc i (\<lambda>q. q\<lparr>parent := Some (initproc s)\<rparr>) s)
        else s)"

definition reparent :: "nat \<Rightarrow> 'z kproc_scheme \<Rightarrow> 'z kproc_scheme" where
  "reparent p s = reparent_loop p 0 NPROC s"

fun close_files :: "nat \<Rightarrow> nat \<Rightarrow> 'z filest_scheme \<Rightarrow> (unit, 'z filest_scheme) outcome" where
  "close_files fd 0 s = Done () s"
| "close_files fd (Suc n) s =
     (case ofile (myproc s) ! fd of
        None \<Rightarrow> close_files (Suc fd) n s
      | Some f \<Rightarrow> kbind (fileclose f s) (\<lambda>_ s.
          close_files (Suc fd) n (upd_proc (curproc s) (\<lambda>p. p\<lparr>ofile := (ofile p)[fd := None]\<rparr>) s)))"

text \<open>
  \<^verbatim>\<open>sched\<close>: the checks on the lock, the nesting depth and the interrupt flag of this
  processor, then the switch to the scheduler.
\<close>

definition sched :: "bool \<Rightarrow> int \<Rightarrow> bool \<Rightarrow> 'z kproc_scheme \<Rightarrow> (unit, 'z kproc_scheme) outcome" where
  "sched holding noff intr s =
     (if \<not> holding then Panic ''sched p->lock''
      else if noff \<noteq> 1 then Panic ''sched locks''
      else if pstate (myproc s) = RUNNING then Panic ''sched running''
      else if intr then Panic ''sched interruptible''
      else Done () (s\<lparr>curproc := NPROC\<rparr>))"

text \<open>The callers of \<^verbatim>\<open>sched\<close> hold \<^verbatim>\<open>p->lock\<close> and no other lock, so interrupts are off at depth 1.\<close>

definition exit :: "int \<Rightarrow> 'z filest_scheme \<Rightarrow> (unit, 'z filest_scheme) outcome" where
  "exit status s =
     (let p = curproc s
      in if p = initproc s then Panic ''init exiting''
         else kbind (close_files 0 NOFILE s) (\<lambda>_ s.
              kbind (begin_op s) (\<lambda>_ s.
              kbind (iput (the (cwd (myproc s))) s) (\<lambda>_ s.
              kbind (end_op s) (\<lambda>_ s.
              let s = upd_proc p (\<lambda>p. p\<lparr>cwd := None\<rparr>) s;
                  s = reparent p s;
                  s = (case parent (procs s ! p) of None \<Rightarrow> s | Some q \<Rightarrow> wakeup (ChanProc q) s);
                  s = upd_proc p (\<lambda>p. p\<lparr>xstate := status, pstate := ZOMBIE\<rparr>) s
              in sched True 1 False s)))))"

text \<open>The scan of \<^verbatim>\<open>wait\<close>: a result, or whether there are children.\<close>

fun wait_scan :: "uint64 \<Rightarrow> nat \<Rightarrow> nat \<Rightarrow> bool \<Rightarrow> 'z kproc_scheme \<Rightarrow> (int option \<times> bool, 'z kproc_scheme) outcome" where
  "wait_scan addr i 0 havekids s = Done (None, havekids) s"
| "wait_scan addr i (Suc n) havekids s =
     (let pp = procs s ! i
      in if parent pp = Some (curproc s)
         then if pstate pp = ZOMBIE
              then kbind (if addr \<noteq> 0 then copyout (pagetable (myproc s)) addr (bytes32 (of_int (xstate pp))) s
                          else Done 0 s) (\<lambda>r s.
                   if addr \<noteq> 0 \<and> r < 0 then Done (Some (-1), True) s
                   else kbind (freeproc i s) (\<lambda>_ s. Done (Some (pid pp), True) s))
              else wait_scan addr (Suc i) n True s
         else wait_scan addr (Suc i) n havekids s)"

definition wait :: "uint64 \<Rightarrow> 'z kproc_scheme \<Rightarrow> (int, 'z kproc_scheme) outcome" where
  "wait addr s =
     kbind (wait_scan addr 0 NPROC False s) (\<lambda>(r, havekids) s.
       case r of
         Some v \<Rightarrow> Done v s
       | None \<Rightarrow> if \<not> havekids \<or> killed (curproc s) s \<noteq> 0 then Done (-1) s
                 else ksleep (ChanProc (curproc s)) s)"

section \<open>Scheduling\<close>

text \<open>
  The inner loop of \<^verbatim>\<open>scheduler\<close> from slot \<open>i\<close> up to the next switch, with \<open>n\<close> slots left in the
  pass: the slot chosen, or \<open>None\<close> at the end of the pass.
\<close>

fun scheduler_scan :: "nat \<Rightarrow> nat \<Rightarrow> 'z kproc_scheme \<Rightarrow> nat option" where
  "scheduler_scan i 0 s = None"
| "scheduler_scan i (Suc n) s =
     (if pstate (procs s ! i) = RUNNABLE then Some i else scheduler_scan (Suc i) n s)"

definition dispatch :: "nat \<Rightarrow> 'z kproc_scheme \<Rightarrow> 'z kproc_scheme" where
  "dispatch i s = (upd_proc i (\<lambda>p. p\<lparr>pstate := RUNNING\<rparr>) s)\<lparr>curproc := i\<rparr>"

text \<open>
  What \<^verbatim>\<open>scheduler\<close> does after the process in slot \<open>i\<close> has switched back to it: the rest of the pass,
  then a new pass; \<open>None\<close> is the wait for an interrupt.
\<close>

definition scheduler :: "nat \<Rightarrow> 'z kproc_scheme \<Rightarrow> (nat \<times> 'z kproc_scheme) option" where
  "scheduler i s =
     (case scheduler_scan (Suc i) (NPROC - Suc i) s of
        Some j \<Rightarrow> Some (j, dispatch j s)
      | None \<Rightarrow> (case scheduler_scan 0 NPROC s of Some j \<Rightarrow> Some (j, dispatch j s) | None \<Rightarrow> None))"

definition yield :: "'z kproc_scheme \<Rightarrow> (unit, 'z kproc_scheme) outcome" where
  "yield s = sched True 1 False (upd_proc (curproc s) (\<lambda>p. p\<lparr>pstate := RUNNABLE\<rparr>) s)"

section \<open>Fairness\<close>

text \<open>
  A run of the scheduler of one processor: it starts after slot \<open>i\<close> in state \<open>s\<close>, and \<open>env n\<close> is what
  the process of the \<open>n\<close>th switch and everything else in the system do until it switches back.
\<close>

fun sched_run :: "(nat \<Rightarrow> 'z kproc_scheme \<Rightarrow> 'z kproc_scheme) \<Rightarrow> nat \<Rightarrow> 'z kproc_scheme \<Rightarrow> nat \<Rightarrow> (nat \<times> 'z kproc_scheme) option" where
  "sched_run env i s 0 = Some (i, s)"
| "sched_run env i s (Suc n) =
     (case sched_run env i s n of
        None \<Rightarrow> None
      | Some (j, t) \<Rightarrow> (case scheduler j t of None \<Rightarrow> None | Some (k, u) \<Rightarrow> Some (k, env n u)))"

lemma scheduler_scan_Some:
  "scheduler_scan i n s = Some j \<Longrightarrow> i \<le> j \<and> j < i + n \<and> pstate (procs s ! j) = RUNNABLE"
  by (induction i n s rule: scheduler_scan.induct) (auto split: if_splits)

lemma scheduler_scan_first:
  "i \<le> p \<Longrightarrow> p < i + n \<Longrightarrow> pstate (procs s ! p) = RUNNABLE \<Longrightarrow> \<exists>j. scheduler_scan i n s = Some j \<and> j \<le> p"
proof (induction i n s rule: scheduler_scan.induct)
  case (2 i n s)
  then show ?case by (cases "p = i") auto
qed simp

text \<open>How many slots the scheduler looks at after slot \<open>i\<close> before it looks at slot \<open>p\<close>.\<close>

definition slots_before :: "nat \<Rightarrow> nat \<Rightarrow> nat" where
  "slots_before i p = (if i < p then p - Suc i else p + NPROC - Suc i)"

text \<open>While slot \<open>p\<close> is runnable, every switch is to \<open>p\<close> or brings the scheduler closer to it.\<close>

lemma scheduler_step:
  assumes p: "p < NPROC" "i < NPROC" and r: "pstate (procs s ! p) = RUNNABLE"
  obtains j where "scheduler i s = Some (j, dispatch j s)" "j < NPROC" "j = p \<or> slots_before j p < slots_before i p"
proof (cases "scheduler_scan (Suc i) (64 - Suc i) s")
  case (Some j)
  note b = scheduler_scan_Some [OF Some]
  have "j \<le> p" if "i < p"
    using scheduler_scan_first [of "Suc i" p "64 - Suc i" s] that p r Some by auto
  then have "j = p \<or> slots_before j p < slots_before i p" using b p by (auto simp: slots_before_def)
  moreover have "scheduler i s = Some (j, dispatch j s)" using Some by (simp add: scheduler_def)
  ultimately show thesis using that b p by auto
next
  case None
  then have ip: "p \<le> i" using scheduler_scan_first [of "Suc i" p "64 - Suc i" s] p r by (cases "p \<le> i") auto
  obtain j where j: "scheduler_scan 0 64 s = Some j" "j \<le> p" using scheduler_scan_first [of 0 p 64 s] p r by auto
  have "j = p \<or> slots_before j p < slots_before i p" using j(2) ip p by (auto simp: slots_before_def)
  then show thesis using that [of j] None j p by (simp add: scheduler_def)
qed

lemma slots_before_bound: "p < NPROC \<Longrightarrow> i < NPROC \<Longrightarrow> slots_before i p < NPROC"
  by (auto simp: slots_before_def)

lemma dispatch_other: "j \<noteq> p \<Longrightarrow> procs (dispatch j s) ! p = procs s ! p"
  by (simp add: dispatch_def upd_proc_def)

lemma sched_run_closer:
  assumes p: "p < NPROC" "i < NPROC" and r: "pstate (procs s ! p) = RUNNABLE"
    and env: "\<And>n u. curproc u \<noteq> p \<Longrightarrow> pstate (procs u ! p) = RUNNABLE \<Longrightarrow> pstate (procs (env n u) ! p) = RUNNABLE"
  shows "(\<exists>m<n. \<exists>t. sched_run env i s (Suc m) = Some (p, t)) \<or>
    (\<exists>j t. sched_run env i s n = Some (j, t) \<and> j < NPROC \<and> pstate (procs t ! p) = RUNNABLE \<and>
       slots_before j p + n \<le> slots_before i p)"
proof (induction n)
  case 0
  then show ?case using p r by simp
next
  case (Suc n)
  then show ?case
  proof
    assume "\<exists>m<n. \<exists>t. sched_run env i s (Suc m) = Some (p, t)"
    then show ?thesis using less_SucI by blast
  next
    assume "\<exists>j t. sched_run env i s n = Some (j, t) \<and> j < NPROC \<and> pstate (procs t ! p) = RUNNABLE \<and>
       slots_before j p + n \<le> slots_before i p"
    then obtain j t where t: "sched_run env i s n = Some (j, t)" "j < 64" "pstate (procs t ! p) = RUNNABLE"
      "slots_before j p + n \<le> slots_before i p" by blast
    obtain k where k: "scheduler j t = Some (k, dispatch k t)" "k < 64" "k = p \<or> slots_before k p < slots_before j p"
      by (rule scheduler_step [OF p(1) t(2,3)])
    have run: "sched_run env i s (Suc n) = Some (k, env n (dispatch k t))" using t(1) k(1) by simp
    show ?thesis
    proof (cases "k = p")
      case True
      then show ?thesis using run by blast
    next
      case False
      have "pstate (procs (env n (dispatch k t)) ! p) = RUNNABLE"
        using env [of "dispatch k t" n] t(3) False by (simp add: dispatch_other) (simp add: dispatch_def)
      then show ?thesis using run k(2,3) False t(4) by auto
    qed
  qed
qed

section \<open>Properties\<close>

text \<open>
  C33. Scheduling is fair: a process that is runnable, and stays so until it runs, runs after at
  most \<open>NPROC\<close> switches, whatever the processes that run before it do.
\<close>

theorem scheduler_fair:
  fixes s :: "'z kproc_scheme"
  assumes "p < NPROC" "i < NPROC" "pstate (procs s ! p) = RUNNABLE"
    and "\<And>n u. curproc u \<noteq> p \<Longrightarrow> pstate (procs u ! p) = RUNNABLE \<Longrightarrow> pstate (procs (env n u) ! p) = RUNNABLE"
  shows "\<exists>n<NPROC. \<exists>t. sched_run env i s (Suc n) = Some (p, t)"
proof -
  have "\<not> slots_before j p + 64 \<le> slots_before i p" for j
    using slots_before_bound [OF assms(1,2)] by linarith
  then show ?thesis using sched_run_closer [where env = env and n = 64, OF assms] by blast
qed

theorem scheduler_fair_witness:
  "\<exists>n<NPROC. \<exists>t. sched_run (\<lambda>n u. upd_proc (curproc u) (\<lambda>p. p\<lparr>pstate := RUNNABLE\<rparr>) u) 0
     (example_kproc (replicate NPROC (no_proc\<lparr>pstate := RUNNABLE\<rparr>))) (Suc n) = Some (5, t)"
  by (rule scheduler_fair) (auto simp: upd_proc_def no_proc_def)

end
