(* ===== verification/Exec.thy ===== *)
theory Exec
  imports Proc
begin

text \<open>
  The argument fetching half of \<^verbatim>\<open>kernel/syscall.c\<close> and \<^verbatim>\<open>kernel/exec.c\<close>: reading system call
  arguments and user strings, and replacing the image of a process by a program file. The
  ELF headers are read into stack variables, as byte lists; the argument strings that
  \<^verbatim>\<open>exec\<close> gets lie in physical memory, one per page.
\<close>

section \<open>System call arguments\<close>

definition fetchaddr :: "uint64 \<Rightarrow> 'z kproc_scheme \<Rightarrow> (int \<times> uint64, 'z kproc_scheme) outcome" where
  "fetchaddr addr s =
     (let p = myproc s
      in if addr \<ge> psz p \<or> addr + 8 > psz p then Done (-1, 0) s
         else kbind (copyin (pagetable p) addr 8 s) (\<lambda>(r, bs) s.
           if r \<noteq> 0 then Done (-1, 0) s else Done (0, get64 bs 0) s))"

text \<open>The result of \<^verbatim>\<open>fetchstr\<close> and the string, without its NUL.\<close>

definition fetchstr :: "uint64 \<Rightarrow> nat \<Rightarrow> 'z kproc_scheme \<Rightarrow> (int \<times> byte list, 'z kproc_scheme) outcome" where
  "fetchstr addr maxlen s =
     kbind (copyinstr (pagetable (myproc s)) addr maxlen s) (\<lambda>(r, bs) s.
       if r < 0 then Done (-1, bs) s
       else let str = takeWhile (\<lambda>c. c \<noteq> 0) bs in Done (int (length str), str) s)"

definition argraw :: "nat \<Rightarrow> 'z kproc_scheme \<Rightarrow> (uint64, 'z kproc_scheme) outcome" where
  "argraw n s =
     (if n < 6 then Done (tf_read (curproc s) (TF_a0 + 8 * of_nat n) s) s else Panic ''argraw'')"

definition argint :: "nat \<Rightarrow> 'z kproc_scheme \<Rightarrow> (int, 'z kproc_scheme) outcome" where
  "argint n s = kbind (argraw n s) (\<lambda>v s. Done (sint (ucast v :: 32 word)) s)"

definition argaddr :: "nat \<Rightarrow> 'z kproc_scheme \<Rightarrow> (uint64, 'z kproc_scheme) outcome" where
  "argaddr n s = argraw n s"

definition argstr :: "nat \<Rightarrow> nat \<Rightarrow> 'z kproc_scheme \<Rightarrow> (int \<times> byte list, 'z kproc_scheme) outcome" where
  "argstr n maxlen s = kbind (argaddr n s) (\<lambda>addr s. fetchstr addr maxlen s)"

section \<open>Loading a program\<close>

abbreviation (input) MAXARG :: nat where "MAXARG \<equiv> 32"
abbreviation (input) MAXPATH :: nat where "MAXPATH \<equiv> 128"
abbreviation (input) USERSTACK :: uint64 where "USERSTACK \<equiv> 1"
abbreviation (input) ELF_MAGIC :: uint where "ELF_MAGIC \<equiv> 0x464C457F"

record elfhdr =
  elf_magic :: uint
  elf_entry :: uint64
  elf_phoff :: uint64
  elf_phnum :: ushort

record proghdr =
  ph_type :: uint
  ph_flags :: uint
  ph_off :: uint64
  ph_vaddr :: uint64
  ph_filesz :: uint64
  ph_memsz :: uint64

text \<open>The fields that \<^verbatim>\<open>exec\<close> reads, at their offsets in the 64 and 56 bytes of the headers.\<close>

definition decode_elf :: "byte list \<Rightarrow> elfhdr" where
  "decode_elf bs = \<lparr>elf_magic = get32 bs 0, elf_entry = get64 bs 24, elf_phoff = get64 bs 32, elf_phnum = get16 bs 56\<rparr>"

definition decode_ph :: "byte list \<Rightarrow> proghdr" where
  "decode_ph bs = \<lparr>ph_type = get32 bs 0, ph_flags = get32 bs 4, ph_off = get64 bs 8, ph_vaddr = get64 bs 16,
     ph_filesz = get64 bs 32, ph_memsz = get64 bs 40\<rparr>"

definition flags2perm :: "uint \<Rightarrow> pte" where
  "flags2perm flags =
     (let perm = (if flags AND 1 \<noteq> 0 then PTE_X else 0)
      in if flags AND 2 \<noteq> 0 then perm OR PTE_W else perm)"

text \<open>
  The loop of \<^verbatim>\<open>loadseg\<close>. The index is a natural number: before a 32-bit index could wrap,
  the loop would have passed more mapped pages than the machine has memory.
\<close>

function loadseg_loop ::
  "addr \<Rightarrow> uint64 \<Rightarrow> nat \<Rightarrow> uint \<Rightarrow> nat \<Rightarrow> nat \<Rightarrow> 'z fsst_scheme \<Rightarrow> (int, 'z fsst_scheme) outcome" where
  "loadseg_loop pt va ip offset sz i s =
     (if i < sz
      then kbind (walkaddr pt (va + of_nat i) s) (\<lambda>pa s.
        if pa = 0 then Panic ''loadseg: address should exist''
        else let n = (if sz - i < 4096 then sz - i else 4096)
             in kbind (readi ip (KernelDst pa) (offset + of_nat i) (of_nat n) s) (\<lambda>(r, _) s.
                  if r \<noteq> int n then Done (-1) s
                  else loadseg_loop pt va ip offset sz (i + 4096) s))
      else Done 0 s)"
  by pat_completeness auto
termination
  by (relation "measure (\<lambda>(pt, va, ip, offset, sz, i, s). sz - i)") auto

declare loadseg_loop.simps [simp del]

definition loadseg ::
  "addr \<Rightarrow> uint64 \<Rightarrow> nat \<Rightarrow> uint \<Rightarrow> uint \<Rightarrow> 'z fsst_scheme \<Rightarrow> (int, 'z fsst_scheme) outcome" where
  "loadseg pt va ip offset sz s = loadseg_loop pt va ip offset (unat sz) 0 s"

text \<open>
  The loop over the program headers: whether it ran to the end, and the size of the image
  so far.
\<close>

fun exec_load ::
  "addr \<Rightarrow> nat \<Rightarrow> uint \<Rightarrow> nat \<Rightarrow> uint64 \<Rightarrow> 'z fsst_scheme \<Rightarrow> (bool \<times> uint64, 'z fsst_scheme) outcome" where
  "exec_load pt ip off 0 sz s = Done (True, sz) s"
| "exec_load pt ip off (Suc n) sz s =
     kbind (readi ip BufDst off 56 s) (\<lambda>(r, bs) s.
       let ph = decode_ph bs
       in if r \<noteq> 56 then Done (False, sz) s
          else if ph_type ph \<noteq> 1 then exec_load pt ip (off + 56) n sz s
          else if ph_memsz ph < ph_filesz ph then Done (False, sz) s
          else if ph_vaddr ph + ph_memsz ph < ph_vaddr ph then Done (False, sz) s
          else if ph_vaddr ph mod PGSIZE \<noteq> 0 then Done (False, sz) s
          else kbind (uvmalloc pt sz (ph_vaddr ph + ph_memsz ph) (flags2perm (ph_flags ph)) s) (\<lambda>sz1 s.
            if sz1 = 0 then Done (False, sz) s
            else kbind (loadseg pt (ph_vaddr ph) ip (ucast (ph_off ph)) (ucast (ph_filesz ph)) s) (\<lambda>r s.
              if r < 0 then Done (False, sz1) s
              else exec_load pt ip (off + 56) n sz1 s)))"

section \<open>The new stack\<close>

definition cstr :: "memory \<Rightarrow> addr \<Rightarrow> byte list" where
  "cstr m a = takeWhile (\<lambda>c. c \<noteq> 0) (load_bytes m a 4096)"

text \<open>\<^verbatim>\<open>sp -= n; sp -= sp % 16\<close>\<close>

definition push_down :: "uint64 \<Rightarrow> uint64 \<Rightarrow> uint64" where
  "push_down sp n = (let sp = sp - n in sp - sp mod 16)"

text \<open>The loop over \<^verbatim>\<open>argv\<close>: the final stack pointer and the entries of \<^verbatim>\<open>ustack\<close>, or \<open>None\<close> for \<^verbatim>\<open>bad\<close>.\<close>

fun exec_args ::
  "addr \<Rightarrow> uint64 \<Rightarrow> addr list \<Rightarrow> nat \<Rightarrow> uint64 \<Rightarrow> uint64 list \<Rightarrow> 'z kproc_scheme
    \<Rightarrow> ((uint64 \<times> uint64 list) option, 'z kproc_scheme) outcome" where
  "exec_args pt stackbase [] argc sp ustack s = Done (Some (sp, ustack)) s"
| "exec_args pt stackbase (a # argv) argc sp ustack s =
     (if argc \<ge> MAXARG then Done None s
      else let str = cstr (mem s) a;
               sp = push_down sp (of_nat (length str) + 1)
           in if sp < stackbase then Done None s
              else kbind (copyout pt sp (str @ [0]) s) (\<lambda>r s.
                if r < 0 then Done None s
                else exec_args pt stackbase argv (Suc argc) sp (ustack @ [sp]) s))"

definition last_elem :: "byte list \<Rightarrow> byte list" where
  "last_elem path = rev (takeWhile (\<lambda>c. c \<noteq> 47) (rev path))"

section \<open>exec\<close>

text \<open>The label \<^verbatim>\<open>bad\<close>, with the page table (0 for none) and the locked inode, if any.\<close>

definition exec_bad :: "addr \<Rightarrow> uint64 \<Rightarrow> nat option \<Rightarrow> 'z fsst_scheme \<Rightarrow> (int, 'z fsst_scheme) outcome" where
  "exec_bad pt sz ip s =
     kbind (if pt \<noteq> 0 then proc_freepagetable pt sz s else Done () s) (\<lambda>_ s.
     kbind (case ip of None \<Rightarrow> Done () s | Some ip \<Rightarrow> kbind (iunlockput ip s) (\<lambda>_ s. end_op s)) (\<lambda>_ s.
     Done (-1) s))"

text \<open>From the stack allocation to the commit, after the file has been released.\<close>

definition exec_stack ::
  "byte list \<Rightarrow> addr list \<Rightarrow> elfhdr \<Rightarrow> addr \<Rightarrow> uint64 \<Rightarrow> 'z fsst_scheme \<Rightarrow> (int, 'z fsst_scheme) outcome" where
  "exec_stack path argv elf pt sz s =
     (let p = curproc s; oldsz = psz (myproc s); sz = PGROUNDUP sz
      in kbind (uvmalloc pt sz (sz + (USERSTACK + 1) * PGSIZE) PTE_W s) (\<lambda>sz1 s.
        if sz1 = 0 then exec_bad pt sz None s
        else let sz = sz1
             in kbind (uvmclear pt (sz - (USERSTACK + 1) * PGSIZE) s) (\<lambda>_ s.
                let stackbase = sz - USERSTACK * PGSIZE
                in kbind (exec_args pt stackbase argv 0 sz [] s) (\<lambda>r s.
                   case r of
                     None \<Rightarrow> exec_bad pt sz None s
                   | Some (sp, ustack) \<Rightarrow>
                       let argc = length ustack; sp = push_down sp (of_nat (argc + 1) * 8)
                       in if sp < stackbase then exec_bad pt sz None s
                          else kbind (copyout pt sp (concat (map bytes64 (ustack @ [0]))) s) (\<lambda>r s.
                            if r < 0 then exec_bad pt sz None s
                            else let s = tf_write p TF_a1 sp s;
                                     s = upd_proc p (\<lambda>p. p\<lparr>pname := take 15 (last_elem path)\<rparr>) s;
                                     oldpt = pagetable (procs s ! p);
                                     s = upd_proc p (\<lambda>p. p\<lparr>pagetable := pt, psz := sz\<rparr>) s;
                                     s = tf_write p TF_epc (elf_entry elf) s;
                                     s = tf_write p TF_sp sp s
                                 in kbind (proc_freepagetable oldpt oldsz s) (\<lambda>_ s. Done (int argc) s))))))"

definition exec :: "byte list \<Rightarrow> addr list \<Rightarrow> 'z fsst_scheme \<Rightarrow> (int, 'z fsst_scheme) outcome" where
  "exec path argv s =
     kbind (begin_op s) (\<lambda>_ s.
     kbind (namei path s) (\<lambda>r s.
       case r of
         None \<Rightarrow> kbind (end_op s) (\<lambda>_ s. Done (-1) s)
       | Some ip \<Rightarrow>
           kbind (ilock ip s) (\<lambda>_ s.
           kbind (readi ip BufDst 0 64 s) (\<lambda>(r, bs) s.
             let elf = decode_elf bs
             in if r \<noteq> 64 then exec_bad 0 0 (Some ip) s
                else if elf_magic elf \<noteq> ELF_MAGIC then exec_bad 0 0 (Some ip) s
                else kbind (proc_pagetable (curproc s) s) (\<lambda>pt s.
                  if pt = 0 then exec_bad 0 0 (Some ip) s
                  else kbind (exec_load pt ip (ucast (elf_phoff elf)) (unat (elf_phnum elf)) 0 s) (\<lambda>(ok, sz) s.
                    if \<not> ok then exec_bad pt sz (Some ip) s
                    else kbind (iunlockput ip s) (\<lambda>_ s.
                         kbind (end_op s) (\<lambda>_ s.
                         exec_stack path argv elf pt sz s))))))))"

end
