(* ===== verification/Sysfile.thy ===== *)
theory Sysfile
  imports Exec
begin

text \<open>
  \<^verbatim>\<open>kernel/sysfile.c\<close>: the system calls on files. Each handler fetches its arguments from the
  trap frame, and gives the value that \<^verbatim>\<open>syscall\<close> stores in \<^verbatim>\<open>a0\<close>. The labels \<^verbatim>\<open>bad\<close> and \<^verbatim>\<open>fail\<close>
  are definitions of their own.
\<close>

section \<open>File descriptors\<close>

text \<open>The descriptor and the file, or \<open>None\<close> for -1.\<close>

definition argfd :: "nat \<Rightarrow> 'z filest_scheme \<Rightarrow> ((nat \<times> nat) option, 'z filest_scheme) outcome" where
  "argfd n s =
     kbind (argint n s) (\<lambda>fd s.
       if fd < 0 \<or> fd \<ge> int NOFILE then Done None s
       else case ofile (myproc s) ! nat fd of None \<Rightarrow> Done None s | Some f \<Rightarrow> Done (Some (nat fd, f)) s)"

fun free_fd :: "nat option list \<Rightarrow> nat \<Rightarrow> nat option" where
  "free_fd [] fd = None"
| "free_fd (f # fs) fd = (if f = None then Some fd else free_fd fs (Suc fd))"

definition set_ofile :: "nat \<Rightarrow> nat option \<Rightarrow> 'z kproc_scheme \<Rightarrow> 'z kproc_scheme" where
  "set_ofile fd v s = upd_proc (curproc s) (\<lambda>p. p\<lparr>ofile := (ofile p)[fd := v]\<rparr>) s"

definition fdalloc :: "nat \<Rightarrow> 'z kproc_scheme \<Rightarrow> nat option \<times> 'z kproc_scheme" where
  "fdalloc f s =
     (case free_fd (ofile (myproc s)) 0 of
        Some fd \<Rightarrow> (Some fd, set_ofile fd (Some f) s)
      | None \<Rightarrow> (None, s))"

definition sys_dup :: "'z filest_scheme \<Rightarrow> (int, 'z filest_scheme) outcome" where
  "sys_dup s =
     kbind (argfd 0 s) (\<lambda>r s.
       case r of
         None \<Rightarrow> Done (-1) s
       | Some (_, f) \<Rightarrow>
           (case fdalloc f s of
              (None, s) \<Rightarrow> Done (-1) s
            | (Some fd, s) \<Rightarrow> kbind (filedup f s) (\<lambda>_ s. Done (int fd) s)))"

definition sys_read :: "'z filest_scheme \<Rightarrow> (int, 'z filest_scheme) outcome" where
  "sys_read s =
     kbind (argaddr 1 s) (\<lambda>p s. kbind (argint 2 s) (\<lambda>n s. kbind (argfd 0 s) (\<lambda>r s.
       case r of None \<Rightarrow> Done (-1) s | Some (_, f) \<Rightarrow> fileread f p n s)))"

definition sys_write :: "'z filest_scheme \<Rightarrow> (int, 'z filest_scheme) outcome" where
  "sys_write s =
     kbind (argaddr 1 s) (\<lambda>p s. kbind (argint 2 s) (\<lambda>n s. kbind (argfd 0 s) (\<lambda>r s.
       case r of None \<Rightarrow> Done (-1) s | Some (_, f) \<Rightarrow> filewrite f p n s)))"

definition sys_close :: "'z filest_scheme \<Rightarrow> (int, 'z filest_scheme) outcome" where
  "sys_close s =
     kbind (argfd 0 s) (\<lambda>r s.
       case r of
         None \<Rightarrow> Done (-1) s
       | Some (fd, f) \<Rightarrow> kbind (fileclose f (set_ofile fd None s)) (\<lambda>_ s. Done 0 s))"

definition sys_fstat :: "byte list \<Rightarrow> 'z filest_scheme \<Rightarrow> (int, 'z filest_scheme) outcome" where
  "sys_fstat pad s =
     kbind (argaddr 1 s) (\<lambda>st s. kbind (argfd 0 s) (\<lambda>r s.
       case r of None \<Rightarrow> Done (-1) s | Some (_, f) \<Rightarrow> filestat pad f st s))"

section \<open>Links\<close>

definition fail_op :: "'z logst_scheme \<Rightarrow> (int, 'z logst_scheme) outcome" where
  "fail_op s = kbind (end_op s) (\<lambda>_ s. Done (-1) s)"

definition sys_link_bad :: "nat \<Rightarrow> 'z fsst_scheme \<Rightarrow> (int, 'z fsst_scheme) outcome" where
  "sys_link_bad ip s =
     kbind (ilock ip s) (\<lambda>_ s.
     kbind (iupdate ip (upd_inode ip (\<lambda>x. x\<lparr>inlink := inlink x - 1\<rparr>) s)) (\<lambda>_ s.
     kbind (iunlockput ip s) (\<lambda>_ s.
     fail_op s)))"

definition sys_link :: "'z fsst_scheme \<Rightarrow> (int, 'z fsst_scheme) outcome" where
  "sys_link s =
     kbind (argstr 0 MAXPATH s) (\<lambda>(r, old) s.
     if r < 0 then Done (-1) s
     else kbind (argstr 1 MAXPATH s) (\<lambda>(r, new) s.
     if r < 0 then Done (-1) s
     else kbind (begin_op s) (\<lambda>_ s.
          kbind (namei old s) (\<lambda>r s.
          case r of
            None \<Rightarrow> fail_op s
          | Some ip \<Rightarrow>
              kbind (ilock ip s) (\<lambda>_ s.
              if itype (inodes s ! ip) = T_DIR then kbind (iunlockput ip s) (\<lambda>_ s. fail_op s)
              else kbind (iupdate ip (upd_inode ip (\<lambda>x. x\<lparr>inlink := inlink x + 1\<rparr>) s)) (\<lambda>_ s.
                   kbind (iunlock ip s) (\<lambda>_ s.
                   kbind (nameiparent new s) (\<lambda>(r, name) s.
                   case r of
                     None \<Rightarrow> sys_link_bad ip s
                   | Some dp \<Rightarrow>
                       kbind (ilock dp s) (\<lambda>_ s.
                       kbind (if idev (inodes s ! dp) \<noteq> idev (inodes s ! ip) then Done (-1) s
                              else dirlink dp name (inum (inodes s ! ip)) s) (\<lambda>r s.
                       if r < 0 then kbind (iunlockput dp s) (\<lambda>_ s. sys_link_bad ip s)
                       else kbind (iunlockput dp s) (\<lambda>_ s.
                            kbind (iput ip s) (\<lambda>_ s.
                            kbind (end_op s) (\<lambda>_ s. Done 0 s)))))))))))))"

function isdirempty_loop :: "nat \<Rightarrow> nat \<Rightarrow> nat \<Rightarrow> 'z fsst_scheme \<Rightarrow> (bool, 'z fsst_scheme) outcome" where
  "isdirempty_loop dp sz off s =
     (if off < sz
      then kbind (readi dp BufDst (of_nat off) 16 s) (\<lambda>(r, de) s.
        if r \<noteq> 16 then Panic ''isdirempty: readi''
        else if get16 de 0 \<noteq> 0 then Done False s
        else isdirempty_loop dp sz (off + 16) s)
      else Done True s)"
  by pat_completeness auto
termination
  by (relation "measure (\<lambda>(dp, sz, off, s). sz - off)") auto

declare isdirempty_loop.simps [simp del]

definition isdirempty :: "nat \<Rightarrow> 'z fsst_scheme \<Rightarrow> (bool, 'z fsst_scheme) outcome" where
  "isdirempty dp s = isdirempty_loop dp (unat (isize (inodes s ! dp))) 32 s"

definition sys_unlink_bad :: "nat \<Rightarrow> 'z fsst_scheme \<Rightarrow> (int, 'z fsst_scheme) outcome" where
  "sys_unlink_bad dp s = kbind (iunlockput dp s) (\<lambda>_ s. fail_op s)"

definition sys_unlink :: "'z fsst_scheme \<Rightarrow> (int, 'z fsst_scheme) outcome" where
  "sys_unlink s =
     kbind (argstr 0 MAXPATH s) (\<lambda>(r, path) s.
     if r < 0 then Done (-1) s
     else kbind (begin_op s) (\<lambda>_ s.
          kbind (nameiparent path s) (\<lambda>(r, name) s.
          case r of
            None \<Rightarrow> fail_op s
          | Some dp \<Rightarrow>
              kbind (ilock dp s) (\<lambda>_ s.
              if namecmp name [46] \<or> namecmp name [46, 46] then sys_unlink_bad dp s
              else kbind (dirlookup dp name s) (\<lambda>r s.
              case r of
                None \<Rightarrow> sys_unlink_bad dp s
              | Some (ip, off) \<Rightarrow>
                  kbind (ilock ip s) (\<lambda>_ s.
                  if sint (inlink (inodes s ! ip)) < 1 then Panic ''unlink: nlink < 1''
                  else kbind (if itype (inodes s ! ip) = T_DIR then isdirempty ip s else Done True s) (\<lambda>empty s.
                  if \<not> empty then kbind (iunlockput ip s) (\<lambda>_ s. sys_unlink_bad dp s)
                  else kbind (writei dp (BufSrc (replicate 16 0)) (of_nat off) 16 s) (\<lambda>r s.
                       if r \<noteq> 16 then Panic ''unlink: writei''
                       else kbind (if itype (inodes s ! ip) = T_DIR
                              then iupdate dp (upd_inode dp (\<lambda>x. x\<lparr>inlink := inlink x - 1\<rparr>) s) else Done () s) (\<lambda>_ s.
                            kbind (iunlockput dp s) (\<lambda>_ s.
                            kbind (iupdate ip (upd_inode ip (\<lambda>x. x\<lparr>inlink := inlink x - 1\<rparr>) s)) (\<lambda>_ s.
                            kbind (iunlockput ip s) (\<lambda>_ s.
                            kbind (end_op s) (\<lambda>_ s. Done 0 s)))))))))))))"

section \<open>Creating files\<close>

definition create_fail :: "nat \<Rightarrow> nat \<Rightarrow> 'z fsst_scheme \<Rightarrow> (nat option, 'z fsst_scheme) outcome" where
  "create_fail ip dp s =
     kbind (iupdate ip (upd_inode ip (\<lambda>x. x\<lparr>inlink := 0\<rparr>) s)) (\<lambda>_ s.
     kbind (iunlockput ip s) (\<lambda>_ s.
     kbind (iunlockput dp s) (\<lambda>_ s. Done None s)))"

text \<open>The part of \<^verbatim>\<open>create\<close> for a name that does not exist yet, with \<open>dp\<close> locked.\<close>

definition create_new ::
  "nat \<Rightarrow> byte list \<Rightarrow> ushort \<Rightarrow> ushort \<Rightarrow> ushort \<Rightarrow> 'z fsst_scheme \<Rightarrow> (nat option, 'z fsst_scheme) outcome" where
  "create_new dp name type major minor s =
     kbind (ialloc (idev (inodes s ! dp)) type s) (\<lambda>r s.
     case r of
       None \<Rightarrow> kbind (iunlockput dp s) (\<lambda>_ s. Done None s)
     | Some ip \<Rightarrow>
         kbind (ilock ip s) (\<lambda>_ s.
         kbind (iupdate ip (upd_inode ip (\<lambda>x. x\<lparr>imajor := major, iminor := minor, inlink := 1\<rparr>) s)) (\<lambda>_ s.
         kbind (if type = T_DIR
                then kbind (dirlink ip [46] (inum (inodes s ! ip)) s) (\<lambda>r s.
                     if r < 0 then Done r s else dirlink ip [46, 46] (inum (inodes s ! dp)) s)
                else Done 0 s) (\<lambda>r s.
         if r < 0 then create_fail ip dp s
         else kbind (dirlink dp name (inum (inodes s ! ip)) s) (\<lambda>r s.
              if r < 0 then create_fail ip dp s
              else kbind (if type = T_DIR
                     then iupdate dp (upd_inode dp (\<lambda>x. x\<lparr>inlink := inlink x + 1\<rparr>) s) else Done () s) (\<lambda>_ s.
                   kbind (iunlockput dp s) (\<lambda>_ s. Done (Some ip) s)))))))"

definition create ::
  "byte list \<Rightarrow> ushort \<Rightarrow> ushort \<Rightarrow> ushort \<Rightarrow> 'z fsst_scheme \<Rightarrow> (nat option, 'z fsst_scheme) outcome" where
  "create path type major minor s =
     kbind (nameiparent path s) (\<lambda>(r, name) s.
     case r of
       None \<Rightarrow> Done None s
     | Some dp \<Rightarrow>
         kbind (ilock dp s) (\<lambda>_ s.
         kbind (dirlookup dp name s) (\<lambda>r s.
         case r of
           Some (ip, _) \<Rightarrow>
             kbind (iunlockput dp s) (\<lambda>_ s.
             kbind (ilock ip s) (\<lambda>_ s.
             if type = T_FILE \<and> (itype (inodes s ! ip) = T_FILE \<or> itype (inodes s ! ip) = T_DEVICE)
             then Done (Some ip) s
             else kbind (iunlockput ip s) (\<lambda>_ s. Done None s)))
         | None \<Rightarrow> create_new dp name type major minor s)))"

definition has_flag :: "int \<Rightarrow> int \<Rightarrow> bool" where
  "has_flag omode flag \<longleftrightarrow> omode AND flag \<noteq> 0"

text \<open>The first half of \<^verbatim>\<open>sys_open\<close>: the locked inode of the path.\<close>

definition open_inode :: "byte list \<Rightarrow> int \<Rightarrow> 'z fsst_scheme \<Rightarrow> (nat option, 'z fsst_scheme) outcome" where
  "open_inode path omode s =
     (if has_flag omode 0x200
      then create path T_FILE 0 0 s
      else kbind (namei path s) (\<lambda>r s.
        case r of
          None \<Rightarrow> Done None s
        | Some ip \<Rightarrow>
            kbind (ilock ip s) (\<lambda>_ s.
            if itype (inodes s ! ip) = T_DIR \<and> omode \<noteq> 0
            then kbind (iunlockput ip s) (\<lambda>_ s. Done None s)
            else Done (Some ip) s)))"

definition open_file :: "nat \<Rightarrow> int \<Rightarrow> 'z filest_scheme \<Rightarrow> (int, 'z filest_scheme) outcome" where
  "open_file ip omode s =
     (let bad = (\<lambda>s. kbind (iunlockput ip s) (\<lambda>_ s. fail_op s))
      in if itype (inodes s ! ip) = T_DEVICE \<and> (sint (imajor (inodes s ! ip)) < 0 \<or> sint (imajor (inodes s ! ip)) \<ge> NDEV)
         then bad s
         else case filealloc s of
             (None, s) \<Rightarrow> bad s
           | (Some f, s) \<Rightarrow>
               (case fdalloc f s of
                  (None, s) \<Rightarrow> kbind (fileclose f s) (\<lambda>_ s. bad s)
                | (Some fd, s) \<Rightarrow>
                    let x = inodes s ! ip;
                        s = (if itype x = T_DEVICE
                             then upd_file f (\<lambda>y. y\<lparr>ftype := FD_DEVICE, fmajor := sint (imajor x)\<rparr>) s
                             else upd_file f (\<lambda>y. y\<lparr>ftype := FD_INODE, foff := 0\<rparr>) s);
                        s = upd_file f (\<lambda>y. y\<lparr>fip := ip, readable := \<not> has_flag omode 1,
                              writable := has_flag omode 1 \<or> has_flag omode 2\<rparr>) s
                    in kbind (if has_flag omode 0x400 \<and> itype x = T_FILE then itrunc ip s else Done () s) (\<lambda>_ s.
                       kbind (iunlock ip s) (\<lambda>_ s.
                       kbind (end_op s) (\<lambda>_ s. Done (int fd) s)))))"

definition sys_open :: "'z filest_scheme \<Rightarrow> (int, 'z filest_scheme) outcome" where
  "sys_open s =
     kbind (argint 1 s) (\<lambda>omode s.
     kbind (argstr 0 MAXPATH s) (\<lambda>(n, path) s.
     if n < 0 then Done (-1) s
     else kbind (begin_op s) (\<lambda>_ s.
          kbind (open_inode path omode s) (\<lambda>r s.
          case r of None \<Rightarrow> fail_op s | Some ip \<Rightarrow> open_file ip omode s))))"

definition sys_mkdir :: "'z fsst_scheme \<Rightarrow> (int, 'z fsst_scheme) outcome" where
  "sys_mkdir s =
     kbind (begin_op s) (\<lambda>_ s.
     kbind (argstr 0 MAXPATH s) (\<lambda>(r, path) s.
     if r < 0 then fail_op s
     else kbind (create path T_DIR 0 0 s) (\<lambda>r s.
          case r of
            None \<Rightarrow> fail_op s
          | Some ip \<Rightarrow> kbind (iunlockput ip s) (\<lambda>_ s. kbind (end_op s) (\<lambda>_ s. Done 0 s)))))"

definition sys_mknod :: "'z fsst_scheme \<Rightarrow> (int, 'z fsst_scheme) outcome" where
  "sys_mknod s =
     kbind (begin_op s) (\<lambda>_ s.
     kbind (argint 1 s) (\<lambda>major s.
     kbind (argint 2 s) (\<lambda>minor s.
     kbind (argstr 0 MAXPATH s) (\<lambda>(r, path) s.
     if r < 0 then fail_op s
     else kbind (create path T_DEVICE (of_int major) (of_int minor) s) (\<lambda>r s.
          case r of
            None \<Rightarrow> fail_op s
          | Some ip \<Rightarrow> kbind (iunlockput ip s) (\<lambda>_ s. kbind (end_op s) (\<lambda>_ s. Done 0 s)))))))"

definition sys_chdir :: "'z fsst_scheme \<Rightarrow> (int, 'z fsst_scheme) outcome" where
  "sys_chdir s =
     kbind (begin_op s) (\<lambda>_ s.
     kbind (argstr 0 MAXPATH s) (\<lambda>(r, path) s.
     if r < 0 then fail_op s
     else kbind (namei path s) (\<lambda>r s.
          case r of
            None \<Rightarrow> fail_op s
          | Some ip \<Rightarrow>
              kbind (ilock ip s) (\<lambda>_ s.
              if itype (inodes s ! ip) \<noteq> T_DIR then kbind (iunlockput ip s) (\<lambda>_ s. fail_op s)
              else kbind (iunlock ip s) (\<lambda>_ s.
                   kbind (iput (the (cwd (myproc s))) s) (\<lambda>_ s.
                   kbind (end_op s) (\<lambda>_ s.
                   Done 0 (upd_proc (curproc s) (\<lambda>p. p\<lparr>cwd := Some ip\<rparr>) s))))))))"

section \<open>exec and pipe\<close>

text \<open>The loop that copies \<^verbatim>\<open>argv\<close>: whether it succeeded, and the pages allocated.\<close>

fun sys_exec_loop ::
  "uint64 \<Rightarrow> nat \<Rightarrow> nat \<Rightarrow> addr list \<Rightarrow> 'z kproc_scheme \<Rightarrow> (bool \<times> addr list, 'z kproc_scheme) outcome" where
  "sys_exec_loop uargv i 0 argv s = Done (False, argv) s"
| "sys_exec_loop uargv i (Suc n) argv s =
     kbind (fetchaddr (uargv + 8 * of_nat i) s) (\<lambda>(r, uarg) s.
     if r < 0 then Done (False, argv) s
     else if uarg = 0 then Done (True, argv) s
     else kbind (kalloc s) (\<lambda>a s.
          if a = 0 then Done (False, argv) s
          else kbind (fetchstr uarg 4096 s) (\<lambda>(r, bs) s.
               let s = s\<lparr>mem := store_bytes (mem s) a (if r < 0 then bs else bs @ [0])\<rparr>
               in if r < 0 then Done (False, argv @ [a]) s
                  else sys_exec_loop uargv (Suc i) n (argv @ [a]) s)))"

fun free_args :: "addr list \<Rightarrow> 'z kproc_scheme \<Rightarrow> (unit, 'z kproc_scheme) outcome" where
  "free_args [] s = Done () s"
| "free_args (a # as) s = kbind (kfree a s) (\<lambda>_ s. free_args as s)"

definition sys_exec :: "'z fsst_scheme \<Rightarrow> (int, 'z fsst_scheme) outcome" where
  "sys_exec s =
     kbind (argaddr 1 s) (\<lambda>uargv s.
     kbind (argstr 0 MAXPATH s) (\<lambda>(r, path) s.
     if r < 0 then Done (-1) s
     else kbind (sys_exec_loop uargv 0 MAXARG [] s) (\<lambda>(ok, argv) s.
          if ok
          then kbind (exec path argv s) (\<lambda>ret s. kbind (free_args argv s) (\<lambda>_ s. Done ret s))
          else kbind (free_args argv s) (\<lambda>_ s. Done (-1) s))))"

definition sys_pipe :: "'z filest_scheme \<Rightarrow> (int, 'z filest_scheme) outcome" where
  "sys_pipe s =
     kbind (argaddr 0 s) (\<lambda>fdarray s.
     kbind (pipealloc s) (\<lambda>r s.
     case r of
       None \<Rightarrow> Done (-1) s
     | Some (rfile, wfile) \<Rightarrow>
         let bad = (\<lambda>s. kbind (fileclose rfile s) (\<lambda>_ s. kbind (fileclose wfile s) (\<lambda>_ s. Done (-1) s)))
         in (case fdalloc rfile s of
             (None, s) \<Rightarrow> bad s
           | (Some fd0, s) \<Rightarrow>
               (case fdalloc wfile s of
                  (None, s) \<Rightarrow> bad (set_ofile fd0 None s)
                | (Some fd1, s) \<Rightarrow>
                    let undo = (\<lambda>s. bad (set_ofile fd1 None (set_ofile fd0 None s)))
                    in kbind (copyout (pagetable (myproc s)) fdarray (bytes32 (of_nat fd0)) s) (\<lambda>r s.
                       if r < 0 then undo s
                       else kbind (copyout (pagetable (myproc s)) (fdarray + 4) (bytes32 (of_nat fd1)) s) (\<lambda>r s.
                            if r < 0 then undo s else Done 0 s))))))"

end
