(* ===== verification/Syscall.thy ===== *)
theory Syscall
  imports Sysfile
begin

text \<open>
  \<^verbatim>\<open>kernel/sysproc.c\<close> and the dispatch in \<^verbatim>\<open>kernel/syscall.c\<close>. A handler gives the value for
  \<^verbatim>\<open>a0\<close>, or \<open>None\<close> when it does not return (\<^verbatim>\<open>exit\<close>). The arguments \<open>forkret_addr\<close> and \<open>pad\<close> are the
  address of \<^verbatim>\<open>forkret\<close> and the bytes that \<^verbatim>\<open>fstat\<close> leaves uninitialised.
\<close>

section \<open>System calls on processes\<close>

definition sys_exit :: "'z filest_scheme \<Rightarrow> (unit, 'z filest_scheme) outcome" where
  "sys_exit s = kbind (argint 0 s) (\<lambda>n s. exit n s)"

definition sys_getpid :: "'z kproc_scheme \<Rightarrow> (int, 'z kproc_scheme) outcome" where
  "sys_getpid s = Done (pid (myproc s)) s"

definition sys_fork :: "addr \<Rightarrow> 'z filest_scheme \<Rightarrow> (int, 'z filest_scheme) outcome" where
  "sys_fork forkret_addr s = fork forkret_addr s"

definition sys_wait :: "'z kproc_scheme \<Rightarrow> (int, 'z kproc_scheme) outcome" where
  "sys_wait s = kbind (argaddr 0 s) (\<lambda>p s. wait p s)"

definition sys_sbrk :: "'z kproc_scheme \<Rightarrow> (int, 'z kproc_scheme) outcome" where
  "sys_sbrk s =
     kbind (argint 0 s) (\<lambda>n s.
       let addr = psz (myproc s)
       in kbind (growproc n s) (\<lambda>r s. if r < 0 then Done (-1) s else Done (uint addr) s))"

text \<open>The loop of \<^verbatim>\<open>sys_sleep\<close>, tested again after every wakeup; the comparison is unsigned.\<close>

definition sleep_until :: "uint \<Rightarrow> int \<Rightarrow> 'z kproc_scheme \<Rightarrow> (int, 'z kproc_scheme) outcome" where
  "sleep_until ticks0 n s =
     (if ticks s - ticks0 < of_int n
      then if killed (curproc s) s \<noteq> 0 then Done (-1) s else ksleep ChanTicks s
      else Done 0 s)"

definition sys_sleep :: "'z kproc_scheme \<Rightarrow> (int, 'z kproc_scheme) outcome" where
  "sys_sleep s = kbind (argint 0 s) (\<lambda>n s. sleep_until (ticks s) (if n < 0 then 0 else n) s)"

text \<open>\<^verbatim>\<open>sys_pgpte\<close> is declared \<^verbatim>\<open>int\<close>, so the entry is cut to 32 bits.\<close>

definition sys_pgpte :: "'z kproc_scheme \<Rightarrow> (int, 'z kproc_scheme) outcome" where
  "sys_pgpte s =
     kbind (argaddr 0 s) (\<lambda>va s.
     kbind (pgpte (pagetable (myproc s)) va s) (\<lambda>pte s.
       if pte \<noteq> 0 then Done (sint (ucast (read_pte pte s) :: 32 word)) s else Done 0 s))"

text \<open>The output of \<^verbatim>\<open>vmprint\<close>, line by line.\<close>

definition vmline_bytes :: "vmline \<Rightarrow> byte list" where
  "vmline_bytes l = (case l of VmLine depth va pte pa \<Rightarrow>
     [32] @ concat (replicate depth [46, 46, 32]) @ [46, 46] @ printptr va @ ascii '': pte '' @ printptr pte
       @ ascii '' pa '' @ printptr pa @ [10])"

definition sys_kpgtbl :: "'z uartst_scheme \<Rightarrow> (int, 'z uartst_scheme) outcome" where
  "sys_kpgtbl s =
     (let pt = pagetable (myproc s)
      in kbind (consputs (ascii ''page table '' @ printptr pt @ [10] @ concat (map vmline_bytes (vmprint pt (mem s)))) s)
           (\<lambda>_ s. Done 0 s))"

definition sys_kill :: "'z kproc_scheme \<Rightarrow> (int, 'z kproc_scheme) outcome" where
  "sys_kill s = kbind (argint 0 s) (\<lambda>pd s. let (r, s) = kill pd s in Done r s)"

definition sys_uptime :: "'z kproc_scheme \<Rightarrow> (int, 'z kproc_scheme) outcome" where
  "sys_uptime s = Done (uint (ticks s)) s"

section \<open>Dispatch\<close>

definition returns :: "('s \<Rightarrow> (int, 's) outcome) \<Rightarrow> 's \<Rightarrow> (int option, 's) outcome" where
  "returns f s = kbind (f s) (\<lambda>v s. Done (Some v) s)"

definition syscalls ::
  "addr \<Rightarrow> byte list \<Rightarrow> (int \<times> ('z filest_scheme \<Rightarrow> (int option, 'z filest_scheme) outcome)) list" where
  "syscalls forkret_addr pad =
    [(1, returns (sys_fork forkret_addr)),
     (2, \<lambda>s. kbind (sys_exit s) (\<lambda>_ s. Done None s)),
     (3, returns sys_wait),
     (4, returns sys_pipe),
     (5, returns sys_read),
     (6, returns sys_kill),
     (7, returns sys_exec),
     (8, returns (sys_fstat pad)),
     (9, returns sys_chdir),
     (10, returns sys_dup),
     (11, returns sys_getpid),
     (12, returns sys_sbrk),
     (13, returns sys_sleep),
     (14, returns sys_uptime),
     (15, returns sys_open),
     (16, returns sys_write),
     (17, returns sys_mknod),
     (18, returns sys_unlink),
     (19, returns sys_link),
     (20, returns sys_mkdir),
     (21, returns sys_close),
     (33, returns sys_pgpte),
     (34, returns sys_kpgtbl)]"

definition syscall :: "addr \<Rightarrow> byte list \<Rightarrow> 'z filest_scheme \<Rightarrow> (unit, 'z filest_scheme) outcome" where
  "syscall forkret_addr pad s =
     (let p = curproc s; num = sint (ucast (tf_read p TF_a7 s) :: 32 word)
      in case map_of (syscalls forkret_addr pad) num of
          Some f \<Rightarrow> kbind (f s) (\<lambda>r s.
            case r of Some v \<Rightarrow> Done () (tf_write p TF_a0 (of_int v) s) | None \<Rightarrow> Done () s)
        | None \<Rightarrow>
            kbind (kprintf (ascii ''%d %s: unknown sys call %d'' @ [10])
                     [Num (of_int (pid (procs s ! p))), Str (Some (pname (procs s ! p))), Num (of_int num)] s) (\<lambda>_ s.
            Done () (tf_write p TF_a0 (-1) s)))"

end
