(* ===== verification/Virtio.thy ===== *)
theory Virtio
  imports File
begin

text \<open>
  \<^verbatim>\<open>kernel/virtio_disk.c\<close>: the driver of the disk. The state holds the descriptor table, the
  two rings and the driver's own records; a descriptor names the memory it describes by the
  object that lies there. The device is not part of the sources: \<^verbatim>\<open>virtio_disk_init\<close> takes a
  function \<open>dev\<close> that gives the value of a register after a history of register writes, and
  the used ring is state that the device changes between the steps of the driver.
  \<^verbatim>\<open>virtio_disk_rw\<close> sleeps until its request is done, so it is in two parts: up to the sleep and
  after it. Sections that hold \<^verbatim>\<open>disk.vdisk_lock\<close> are single steps. The theory of the buffer
  cache treats the pair as one transfer of a block.
\<close>

section \<open>State\<close>

abbreviation (input) NUM :: nat where "NUM \<equiv> 8"

datatype daddr = Null | Op nat | Data nat | Status nat

record virtq_desc =
  d_addr :: daddr
  d_len :: uint
  d_flags :: ushort
  d_next :: ushort

record virtio_blk_req =
  req_type :: uint
  req_sector :: uint64

record vinfo =
  vi_b :: "nat option"
  vi_status :: byte

record virtst = filest +
  desc :: "virtq_desc list"
  vfree :: "nat \<Rightarrow> bool"
  avail_idx :: ushort
  avail_ring :: "ushort list"
  used_idx :: ushort              \<comment> \<open>how far the driver has looked\<close>
  dev_used_idx :: ushort          \<comment> \<open>\<^verbatim>\<open>disk.used->idx\<close>, written by the device\<close>
  dev_used_ring :: "uint list"    \<comment> \<open>the ids in \<^verbatim>\<open>disk.used->ring\<close>\<close>
  vinfos :: "vinfo list"
  vops :: "virtio_blk_req list"
  buf_disk :: "nat \<Rightarrow> bool"      \<comment> \<open>\<^verbatim>\<open>b->disk\<close>\<close>
  mmio :: "(nat \<times> uint) list"   \<comment> \<open>the register writes so far, oldest first\<close>

section \<open>Initialisation\<close>

definition R_write :: "nat \<Rightarrow> uint \<Rightarrow> 'z virtst_scheme \<Rightarrow> 'z virtst_scheme" where
  "R_write r v s = s\<lparr>mmio := mmio s @ [(r, v)]\<rparr>"

definition driver_features :: "uint \<Rightarrow> uint" where
  "driver_features f =
     f AND NOT (push_bit 5 1) AND NOT (push_bit 7 1) AND NOT (push_bit 11 1) AND NOT (push_bit 12 1)
       AND NOT (push_bit 27 1) AND NOT (push_bit 29 1) AND NOT (push_bit 28 1)"

definition virtio_disk_init ::
  "((nat \<times> uint) list \<Rightarrow> nat \<Rightarrow> uint) \<Rightarrow> 'z virtst_scheme \<Rightarrow> (unit, 'z virtst_scheme) outcome" where
  "virtio_disk_init dev s =
     (let R = (\<lambda>r s. dev (mmio s) r)
      in if R 0 s \<noteq> 0x74726976 \<or> R 4 s \<noteq> 2 \<or> R 8 s \<noteq> 2 \<or> R 0xc s \<noteq> 0x554d4551
         then Panic ''could not find virtio disk''
         else let s = R_write 0x70 0 s;
                  s = R_write 0x70 1 s;
                  s = R_write 0x70 3 s;
                  s = R_write 0x20 (driver_features (R 0x10 s)) s;
                  s = R_write 0x70 11 s;
                  status = R 0x70 s
              in if status AND 8 = 0 then Panic ''virtio disk FEATURES_OK unset''
                 else let s = R_write 0x30 0 s
                      in if R 0x44 s \<noteq> 0 then Panic ''virtio disk should not be ready''
                         else if R 0x34 s = 0 then Panic ''virtio disk has no queue 0''
                         else if R 0x34 s < of_nat NUM then Panic ''virtio disk max queue too short''
                         else kbind (kalloc s) (\<lambda>pd s.
                              kbind (kalloc s) (\<lambda>pa s.
                              kbind (kalloc s) (\<lambda>pu s.
                              if pd = 0 \<or> pa = 0 \<or> pu = 0 then Panic ''virtio disk kalloc''
                              else let s = zero_page pu (zero_page pa (zero_page pd s));
                                       s = s\<lparr>desc := replicate NUM \<lparr>d_addr = Null, d_len = 0, d_flags = 0, d_next = 0\<rparr>,
                                             avail_idx := 0, avail_ring := replicate NUM 0,
                                             dev_used_idx := 0, dev_used_ring := replicate NUM 0\<rparr>;
                                       s = R_write 0x38 (of_nat NUM) s;
                                       s = R_write 0x80 (ucast pd) s;
                                       s = R_write 0x84 (ucast (drop_bit 32 pd)) s;
                                       s = R_write 0x90 (ucast pa) s;
                                       s = R_write 0x94 (ucast (drop_bit 32 pa)) s;
                                       s = R_write 0xa0 (ucast pu) s;
                                       s = R_write 0xa4 (ucast (drop_bit 32 pu)) s;
                                       s = R_write 0x44 1 s;
                                       s = s\<lparr>vfree := (\<lambda>i. i < NUM \<or> vfree s i)\<rparr>
                                   in Done () (R_write 0x70 (status OR 4) s)))))"

section \<open>Descriptors\<close>

text \<open>The scan of \<^verbatim>\<open>disk.free\<close> from \<open>i\<close>, with \<open>n\<close> entries left.\<close>

fun find_free :: "(nat \<Rightarrow> bool) \<Rightarrow> nat \<Rightarrow> nat \<Rightarrow> nat option" where
  "find_free f i 0 = None"
| "find_free f i (Suc n) = (if f i then Some i else find_free f (Suc i) n)"

definition alloc_desc :: "'z virtst_scheme \<Rightarrow> nat option \<times> 'z virtst_scheme" where
  "alloc_desc s =
     (case find_free (vfree s) 0 NUM of
        Some i \<Rightarrow> (Some i, s\<lparr>vfree := (vfree s)(i := False)\<rparr>)
      | None \<Rightarrow> (None, s))"

definition free_desc :: "nat \<Rightarrow> 'z virtst_scheme \<Rightarrow> (unit, 'z virtst_scheme) outcome" where
  "free_desc i s =
     (if i \<ge> NUM then Panic ''free_desc 1''
      else if vfree s i then Panic ''free_desc 2''
      else let s = s\<lparr>desc := (desc s)[i := \<lparr>d_addr = Null, d_len = 0, d_flags = 0, d_next = 0\<rparr>]\<rparr>;
               s = s\<lparr>vfree := (vfree s)(i := True)\<rparr>
           in Done () (wakeup ChanDiskFree s))"

text \<open>
  A chain ends at the first descriptor without the \<^verbatim>\<open>NEXT\<close> flag. Each round frees a descriptor
  that was in use, or panics, so the loop ends.
\<close>

function free_chain :: "nat \<Rightarrow> 'z virtst_scheme \<Rightarrow> (unit, 'z virtst_scheme) outcome" where
  "free_chain i s =
     (let flag = d_flags (desc s ! i); nx = d_next (desc s ! i)
      in kbind (free_desc i s) (\<lambda>_ s.
           if flag AND 1 \<noteq> 0 then free_chain (unat nx) s else Done () s))"
  by pat_completeness auto
termination
proof (relation "measure (\<lambda>(i, s). card {j. j < NUM \<and> \<not> vfree s j})", goal_cases)
  case (2 i s flag nx a t)
  then have i: "i < NUM" "\<not> vfree s i" and t: "vfree t = (vfree s)(i := True)"
    by (auto simp: free_desc_def wakeup_def Let_def split: if_splits)
  then have "{j. j < NUM \<and> \<not> vfree t j} \<subset> {j. j < NUM \<and> \<not> vfree s j}" by auto
  then have "card {j. j < NUM \<and> \<not> vfree t j} < card {j. j < NUM \<and> \<not> vfree s j}"
    by (rule psubset_card_mono [rotated]) simp
  then show ?case by simp
qed simp

declare free_chain.simps [simp del]

definition alloc3_desc :: "'z virtst_scheme \<Rightarrow> ((nat \<times> nat \<times> nat) option, 'z virtst_scheme) outcome" where
  "alloc3_desc s =
     (case alloc_desc s of
        (None, s) \<Rightarrow> Done None s
      | (Some i0, s) \<Rightarrow>
          (case alloc_desc s of
             (None, s) \<Rightarrow> kbind (free_desc i0 s) (\<lambda>_ s. Done None s)
           | (Some i1, s) \<Rightarrow>
               (case alloc_desc s of
                  (None, s) \<Rightarrow> kbind (free_desc i0 s) (\<lambda>_ s. kbind (free_desc i1 s) (\<lambda>_ s. Done None s))
                | (Some i2, s) \<Rightarrow> Done (Some (i0, i1, i2)) s)))"

section \<open>Transfers\<close>

text \<open>\<^verbatim>\<open>virtio_disk_rw\<close> up to the wait for the device; the result is the head of the chain.\<close>

definition disk_submit :: "nat \<Rightarrow> bool \<Rightarrow> 'z virtst_scheme \<Rightarrow> (nat, 'z virtst_scheme) outcome" where
  "disk_submit b write s =
     (let sector = ucast (blockno (bufs s ! b) * 2) :: uint64
      in kbind (alloc3_desc s) (\<lambda>r s.
         case r of
           None \<Rightarrow> ksleep ChanDiskFree s
         | Some (i0, i1, i2) \<Rightarrow>
             let s = s\<lparr>vops := (vops s)[i0 := \<lparr>req_type = (if write then 1 else 0), req_sector = sector\<rparr>]\<rparr>;
                 s = s\<lparr>desc := (desc s)[i0 := \<lparr>d_addr = Op i0, d_len = 16, d_flags = 1, d_next = of_nat i1\<rparr>]\<rparr>;
                 s = s\<lparr>desc := (desc s)[i1 := \<lparr>d_addr = Data b, d_len = of_nat BSIZE,
                         d_flags = (if write then 0 else 2) OR 1, d_next = of_nat i2\<rparr>]\<rparr>;
                 s = s\<lparr>vinfos := (vinfos s)[i0 := (vinfos s ! i0)\<lparr>vi_status := 0xff\<rparr>]\<rparr>;
                 s = s\<lparr>desc := (desc s)[i2 := \<lparr>d_addr = Status i0, d_len = 1, d_flags = 2, d_next = 0\<rparr>]\<rparr>;
                 s = s\<lparr>buf_disk := (buf_disk s)(b := True)\<rparr>;
                 s = s\<lparr>vinfos := (vinfos s)[i0 := (vinfos s ! i0)\<lparr>vi_b := Some b\<rparr>]\<rparr>;
                 s = s\<lparr>avail_ring := (avail_ring s)[unat (avail_idx s) mod NUM := of_nat i0]\<rparr>;
                 s = s\<lparr>avail_idx := avail_idx s + 1\<rparr>
             in Done i0 (R_write 0x50 0 s)))"

text \<open>The rest of \<^verbatim>\<open>virtio_disk_rw\<close>, tested again after every wakeup.\<close>

definition disk_finish :: "nat \<Rightarrow> nat \<Rightarrow> 'z virtst_scheme \<Rightarrow> (unit, 'z virtst_scheme) outcome" where
  "disk_finish b i0 s =
     (if buf_disk s b then ksleep (ChanBuf b) s
      else free_chain i0 (s\<lparr>vinfos := (vinfos s)[i0 := (vinfos s ! i0)\<lparr>vi_b := None\<rparr>]\<rparr>))"

section \<open>Interrupts\<close>

text \<open>The loop over the entries that the device has added to the used ring.\<close>

function intr_loop :: "'z virtst_scheme \<Rightarrow> (unit, 'z virtst_scheme) outcome" where
  "intr_loop s =
     (if used_idx s \<noteq> dev_used_idx s
      then let i = unat (dev_used_ring s ! (unat (used_idx s) mod NUM))
           in if vi_status (vinfos s ! i) \<noteq> 0 then Panic ''virtio_disk_intr status''
              else let b = the (vi_b (vinfos s ! i));
                       s = wakeup (ChanBuf b) (s\<lparr>buf_disk := (buf_disk s)(b := False)\<rparr>)
                   in intr_loop (s\<lparr>used_idx := used_idx s + 1\<rparr>)
      else Done () s)"
  by pat_completeness auto
termination
proof (relation "measure (\<lambda>s. unat (dev_used_idx s - used_idx s))", goal_cases)
  case (2 s)
  then have "dev_used_idx s - used_idx s \<noteq> 0" by simp
  then have "unat (dev_used_idx s - used_idx s - 1) < unat (dev_used_idx s - used_idx s)" by (rule measure_unat)
  with 2 show ?case by (simp add: wakeup_def diff_diff_eq)
qed simp

declare intr_loop.simps [simp del]

definition virtio_disk_intr ::
  "((nat \<times> uint) list \<Rightarrow> nat \<Rightarrow> uint) \<Rightarrow> 'z virtst_scheme \<Rightarrow> (unit, 'z virtst_scheme) outcome" where
  "virtio_disk_intr dev s = intr_loop (R_write 0x64 (dev (mmio s) 0x60 AND 3) s)"

end
