(* ===== verification/Trap.thy ===== *)
theory Trap
  imports Syscall Virtio
begin

text \<open>
  \<^verbatim>\<open>kernel/trap.c\<close>, \<^verbatim>\<open>kernel/plic.c\<close> and \<^verbatim>\<open>forkret\<close>: interrupts, exceptions and the way back to user
  space. The control and status registers that the C code reads and writes through the
  accessors of \<^verbatim>\<open>kernel/riscv.h\<close> are components of the state of the hart that runs. The
  interrupt controller is not part of the sources: the claim register gives the interrupt
  numbers in \<open>plic_pending\<close>, one per read, and writes to its registers are recorded. The
  addresses of functions and assembly labels, and the disk device, are gathered in the
  record \<open>env\<close>.
\<close>

section \<open>State\<close>

record trapst = virtst +
  first :: bool
  stvec :: uint64
  sepc :: uint64
  scause :: uint64
  stval :: uint64
  sstatus :: uint64
  tp :: uint64
  time :: uint64
  stimecmp :: uint64
  plic_pending :: "int list"
  plic_writes :: "(addr \<times> uint) list"

record env =
  kernelvec :: addr
  usertrap_addr :: addr
  forkret_addr :: addr
  uservec_off :: uint64     \<comment> \<open>\<^verbatim>\<open>uservec - trampoline\<close>\<close>
  userret_off :: uint64
  stat_pad :: "byte list"
  disk_dev :: "(nat \<times> uint) list \<Rightarrow> nat \<Rightarrow> uint"

abbreviation (input) SSTATUS_SPP :: uint64 where "SSTATUS_SPP \<equiv> 256"
abbreviation (input) SSTATUS_SPIE :: uint64 where "SSTATUS_SPIE \<equiv> 32"
abbreviation (input) SSTATUS_SIE :: uint64 where "SSTATUS_SIE \<equiv> 2"

definition sintr_on :: "'z trapst_scheme \<Rightarrow> 'z trapst_scheme" where
  "sintr_on s = s\<lparr>sstatus := sstatus s OR SSTATUS_SIE\<rparr>"

definition sintr_off :: "'z trapst_scheme \<Rightarrow> 'z trapst_scheme" where
  "sintr_off s = s\<lparr>sstatus := sstatus s AND NOT SSTATUS_SIE\<rparr>"

definition sintr_get :: "'z trapst_scheme \<Rightarrow> bool" where
  "sintr_get s \<longleftrightarrow> sstatus s AND SSTATUS_SIE \<noteq> 0"

definition cpuid :: "'z trapst_scheme \<Rightarrow> int" where
  "cpuid s = sint (ucast (tp s) :: 32 word)"

section \<open>The interrupt controller\<close>

definition PLIC_SENABLE :: "int \<Rightarrow> addr" where
  "PLIC_SENABLE hart = PLIC + 0x2080 + of_int hart * 0x100"

definition PLIC_SPRIORITY :: "int \<Rightarrow> addr" where
  "PLIC_SPRIORITY hart = PLIC + 0x201000 + of_int hart * 0x2000"

definition PLIC_SCLAIM :: "int \<Rightarrow> addr" where
  "PLIC_SCLAIM hart = PLIC + 0x201004 + of_int hart * 0x2000"

abbreviation (input) UART0_IRQ :: int where "UART0_IRQ \<equiv> 10"
abbreviation (input) VIRTIO0_IRQ :: int where "VIRTIO0_IRQ \<equiv> 1"

definition plic_write :: "addr \<Rightarrow> uint \<Rightarrow> 'z trapst_scheme \<Rightarrow> 'z trapst_scheme" where
  "plic_write a v s = s\<lparr>plic_writes := plic_writes s @ [(a, v)]\<rparr>"

definition plicinit :: "'z trapst_scheme \<Rightarrow> 'z trapst_scheme" where
  "plicinit s = plic_write (PLIC + of_int VIRTIO0_IRQ * 4) 1 (plic_write (PLIC + of_int UART0_IRQ * 4) 1 s)"

definition plicinithart :: "'z trapst_scheme \<Rightarrow> 'z trapst_scheme" where
  "plicinithart s =
     plic_write (PLIC_SPRIORITY (cpuid s)) 0
       (plic_write (PLIC_SENABLE (cpuid s)) (push_bit (nat UART0_IRQ) 1 OR push_bit (nat VIRTIO0_IRQ) 1) s)"

text \<open>With nothing pending the claim register reads 0.\<close>

definition plic_claim :: "'z trapst_scheme \<Rightarrow> int \<times> 'z trapst_scheme" where
  "plic_claim s = (case plic_pending s of [] \<Rightarrow> (0, s) | irq # irqs \<Rightarrow> (irq, s\<lparr>plic_pending := irqs\<rparr>))"

definition plic_complete :: "int \<Rightarrow> 'z trapst_scheme \<Rightarrow> 'z trapst_scheme" where
  "plic_complete irq s = plic_write (PLIC_SCLAIM (cpuid s)) (of_int irq) s"

section \<open>Device interrupts\<close>

definition clockintr :: "'z trapst_scheme \<Rightarrow> 'z trapst_scheme" where
  "clockintr s =
     (let s = (if cpuid s = 0 then wakeup ChanTicks (s\<lparr>ticks := ticks s + 1\<rparr>) else s)
      in s\<lparr>stimecmp := time s + 1000000\<rparr>)"

definition devintr :: "env \<Rightarrow> 'z trapst_scheme \<Rightarrow> (int, 'z trapst_scheme) outcome" where
  "devintr e s =
     (if scause s = 0x8000000000000009
      then let (irq, s) = plic_claim s
           in kbind (if irq = UART0_IRQ then uartintr s
                     else if irq = VIRTIO0_IRQ then virtio_disk_intr (disk_dev e) s
                     else if irq \<noteq> 0
                     then kbind (kprintf (ascii ''unexpected interrupt irq=%d'' @ [10]) [Num (of_int irq)] s) (\<lambda>_ s. Done () s)
                     else Done () s) (\<lambda>_ s.
              Done 1 (if irq \<noteq> 0 then plic_complete irq s else s))
      else if scause s = 0x8000000000000005 then Done 2 (clockintr s)
      else Done 0 s)"

section \<open>User space\<close>

definition trapinithart :: "env \<Rightarrow> 'z trapst_scheme \<Rightarrow> 'z trapst_scheme" where
  "trapinithart e s = s\<lparr>stvec := kernelvec e\<rparr>"

text \<open>
  \<^verbatim>\<open>usertrapret\<close>, up to the jump to \<^verbatim>\<open>userret\<close>: the result is the address jumped to and its
  argument.
\<close>

definition usertrapret :: "env \<Rightarrow> 'z trapst_scheme \<Rightarrow> (addr \<times> uint64, 'z trapst_scheme) outcome" where
  "usertrapret e s =
     (let p = curproc s;
          s = sintr_off s;
          s = s\<lparr>stvec := TRAMPOLINE + uservec_off e\<rparr>;
          s = tf_write p TF_kernel_satp (satp s) s;
          s = tf_write p TF_kernel_sp (kstack (procs s ! p) + PGSIZE) s;
          s = tf_write p TF_kernel_trap (usertrap_addr e) s;
          s = tf_write p TF_kernel_hartid (tp s) s;
          s = s\<lparr>sstatus := (sstatus s AND NOT SSTATUS_SPP) OR SSTATUS_SPIE\<rparr>;
          s = s\<lparr>sepc := tf_read p TF_epc s\<rparr>
      in Done (TRAMPOLINE + userret_off e, MAKE_SATP (pagetable (procs s ! p))) s)"

text \<open>
  \<^verbatim>\<open>forkret\<close>, where a new process starts; the release of its lock is not visible here.
\<close>

definition forkret :: "env \<Rightarrow> 'z trapst_scheme \<Rightarrow> (addr \<times> uint64, 'z trapst_scheme) outcome" where
  "forkret e s =
     kbind (if first s then kbind (fsinit ROOTDEV s) (\<lambda>_ s. Done () (s\<lparr>first := False\<rparr>)) else Done () s) (\<lambda>_ s.
     usertrapret e s)"

text \<open>
  How a trap handler leaves: it jumps back to user space, or the process has given up the
  processor, for good after \<^verbatim>\<open>exit\<close> and until it is scheduled again after \<^verbatim>\<open>yield\<close>.
\<close>

datatype leave = To_user addr uint64 | Exited | Yielded

definition do_exit :: "int \<Rightarrow> 'z filest_scheme \<Rightarrow> (leave, 'z filest_scheme) outcome" where
  "do_exit status s = kbind (exit status s) (\<lambda>_ s. Done Exited s)"

definition to_user :: "env \<Rightarrow> 'z trapst_scheme \<Rightarrow> (leave, 'z trapst_scheme) outcome" where
  "to_user e s = kbind (usertrapret e s) (\<lambda>(a, v) s. Done (To_user a v) s)"

text \<open>The end of \<^verbatim>\<open>usertrap\<close>; after a yield the process goes on with \<^verbatim>\<open>usertrapret\<close>.\<close>

definition usertrap_end :: "env \<Rightarrow> int \<Rightarrow> 'z trapst_scheme \<Rightarrow> (leave, 'z trapst_scheme) outcome" where
  "usertrap_end e which_dev s =
     (if killed (curproc s) s \<noteq> 0 then do_exit (-1) s
      else if which_dev = 2 then kbind (yield s) (\<lambda>_ s. Done Yielded s)
      else to_user e s)"

definition usertrap :: "env \<Rightarrow> 'z trapst_scheme \<Rightarrow> (leave, 'z trapst_scheme) outcome" where
  "usertrap e s =
     (if sstatus s AND SSTATUS_SPP \<noteq> 0 then Panic ''usertrap: not from user mode''
      else let s = s\<lparr>stvec := kernelvec e\<rparr>;
               p = curproc s;
               s = tf_write p TF_epc (sepc s) s
           in if scause s = 8
              then if killed p s \<noteq> 0 then do_exit (-1) s
                   else let s = tf_write p TF_epc (tf_read p TF_epc s + 4) s;
                            s = sintr_on s
                        in kbind (syscall (forkret_addr e) (stat_pad e) s) (\<lambda>_ s.
                           if curproc s \<noteq> p then Done Exited s else usertrap_end e 0 s)
              else kbind (devintr e s) (\<lambda>which_dev s.
                   if which_dev \<noteq> 0 then usertrap_end e which_dev s
                   else kbind (kprintf (ascii ''usertrap(): unexpected scause 0x%lx pid=%d'' @ [10])
                                 [Num (scause s), Num (of_int (pid (procs s ! p)))] s) (\<lambda>_ s.
                        kbind (kprintf (ascii ''            sepc=0x%lx stval=0x%lx'' @ [10])
                                 [Num (sepc s), Num (stval s)] s) (\<lambda>_ s.
                        usertrap_end e 0 (setkilled p s)))))"

section \<open>Traps from the kernel\<close>

text \<open>Whether the interrupted code goes on at once, or after a yield, and the saved registers.\<close>

definition kerneltrap :: "env \<Rightarrow> 'z trapst_scheme \<Rightarrow> (bool, 'z trapst_scheme) outcome" where
  "kerneltrap e s =
     (let epc = sepc s; status = sstatus s
      in if status AND SSTATUS_SPP = 0 then Panic ''kerneltrap: not from supervisor mode''
         else if sintr_get s then Panic ''kerneltrap: interrupts enabled''
         else kbind (devintr e s) (\<lambda>which_dev s.
           if which_dev = 0
           then kbind (kprintf (ascii ''scause=0x%lx sepc=0x%lx stval=0x%lx'' @ [10])
                         [Num (scause s), Num (sepc s), Num (stval s)] s) (\<lambda>_ s. Panic ''kerneltrap'')
           else kbind (if which_dev = 2 \<and> curproc s < NPROC then kbind (yield s) (\<lambda>_ s. Done True s) else Done False s) (\<lambda>yielded s.
                Done yielded (s\<lparr>sepc := epc, sstatus := status\<rparr>))))"

end
