(* ===== verification/Boot.thy ===== *)
theory Boot
  imports Trap
begin

text \<open>
  \<^verbatim>\<open>kernel/start.c\<close> and \<^verbatim>\<open>kernel/main.c\<close>: from machine mode to the scheduler. The machine-mode
  registers are components of the state. Boot ends at the call of \<^verbatim>\<open>scheduler\<close>, which does not
  return; the locks that the \<^verbatim>\<open>init\<close> routines set up are free from the start.
\<close>

record bootst = trapst +
  mstatus :: uint64
  mepc :: addr
  medeleg :: uint64
  mideleg :: uint64
  sie :: uint64
  pmpaddr0 :: uint64
  pmpcfg0 :: uint64
  mie :: uint64
  menvcfg :: uint64
  mcounteren :: uint64
  mhartid :: uint64
  pr_locking :: bool
  started :: bool

definition timerinit :: "'z bootst_scheme \<Rightarrow> 'z bootst_scheme" where
  "timerinit s =
     (let s = s\<lparr>mie := mie s OR push_bit 5 1\<rparr>;
          s = s\<lparr>menvcfg := menvcfg s OR push_bit 63 1\<rparr>;
          s = s\<lparr>mcounteren := mcounteren s OR 2\<rparr>
      in s\<lparr>stimecmp := time s + 1000000\<rparr>)"

text \<open>\<open>main_addr\<close> is the address of \<^verbatim>\<open>main\<close>. The \<^verbatim>\<open>int\<close> variable \<^verbatim>\<open>id\<close> is sign-extended into \<^verbatim>\<open>tp\<close>.\<close>

definition start :: "addr \<Rightarrow> 'z bootst_scheme \<Rightarrow> 'z bootst_scheme" where
  "start main_addr s =
     (let x = mstatus s AND NOT (push_bit 11 3);
          x = x OR push_bit 11 1;
          s = s\<lparr>mstatus := x\<rparr>;
          s = s\<lparr>mepc := main_addr\<rparr>;
          s = s\<lparr>satp := 0\<rparr>;
          s = s\<lparr>medeleg := 0xffff, mideleg := 0xffff\<rparr>;
          s = s\<lparr>sie := sie s OR push_bit 9 1 OR push_bit 5 1 OR push_bit 1 1\<rparr>;
          s = s\<lparr>pmpaddr0 := 0x3fffffffffffff, pmpcfg0 := 0xf\<rparr>;
          s = timerinit s
      in s\<lparr>tp := scast (ucast (mhartid s) :: 32 word)\<rparr>)"

definition printfinit :: "'z bootst_scheme \<Rightarrow> 'z bootst_scheme" where
  "printfinit s = s\<lparr>pr_locking := True\<rparr>"

text \<open>
  \<^verbatim>\<open>main\<close> on hart 0; on another hart, once \<^verbatim>\<open>started\<close> is set (\<open>None\<close> while it spins).
\<close>

definition main_boot :: "env \<Rightarrow> addr \<Rightarrow> 'z bootst_scheme \<Rightarrow> (unit, 'z bootst_scheme) outcome" where
  "main_boot e initcode_addr s =
     (let s = printfinit (consoleinit s)
      in kbind (kprintf [10] [] s) (\<lambda>_ s.
         kbind (kprintf (ascii ''xv6 kernel is booting'' @ [10]) [] s) (\<lambda>_ s.
         kbind (kprintf [10] [] s) (\<lambda>_ s.
         kbind (kinit s) (\<lambda>_ s.
         kbind (kvminit s) (\<lambda>_ s.
         kbind (kvminithart s) (\<lambda>_ s.
         let s = procinit s;
             s = trapinithart e s;
             s = plicinit s;
             s = plicinithart s;
             s = binit s;
             s = iinit s
         in kbind (virtio_disk_init (disk_dev e) s) (\<lambda>_ s.
            kbind (userinit (forkret_addr e) initcode_addr s) (\<lambda>_ s.
            Done () (s\<lparr>started := True\<rparr>))))))))))"

definition main_hart :: "env \<Rightarrow> 'z bootst_scheme \<Rightarrow> (unit, 'z bootst_scheme) outcome" where
  "main_hart e s =
     kbind (kprintf (ascii ''hart %d starting'' @ [10]) [Num (of_int (cpuid s))] s) (\<lambda>_ s.
     kbind (kvminithart s) (\<lambda>_ s.
     Done () (plicinithart (trapinithart e s))))"

definition main :: "env \<Rightarrow> addr \<Rightarrow> 'z bootst_scheme \<Rightarrow> (unit, 'z bootst_scheme) outcome option" where
  "main e initcode_addr s =
     (if cpuid s = 0 then Some (main_boot e initcode_addr s)
      else if started s then Some (main_hart e s) else None)"

end
