(* ===== verification/Spinlock.thy ===== *)
theory Spinlock
  imports Prelude
begin

text \<open>
  \<^verbatim>\<open>kernel/spinlock.c\<close>: spinlocks and the nesting of disabled interrupts. The routines of
  one hart are functions on its state and the lock table. How harts interleave is a step
  relation whose atomic steps are the memory operations of \<^verbatim>\<open>acquire\<close> and \<^verbatim>\<open>release\<close> that other
  harts can observe: the atomic swap, the store to \<^verbatim>\<open>lk->cpu\<close> and the atomic release, in the
  order the fences enforce. A hart is named by its number, and \<^verbatim>\<open>lk->cpu\<close> is an option,
  \<open>None\<close> for the null pointer.
\<close>

section \<open>State\<close>

record spinlock =
  locked :: uint
  lkcpu :: "nat option"
  lkname :: string

text \<open>The part of \<^verbatim>\<open>struct cpu\<close> the locks use, and the interrupt enable bit of the hart.\<close>

record cpu =
  noff :: int
  intena :: bool
  sie :: bool

section \<open>Disabling interrupts\<close>

definition intr_get :: "cpu \<Rightarrow> bool" where "intr_get c = sie c"
definition intr_off :: "cpu \<Rightarrow> cpu" where "intr_off c = c\<lparr>sie := False\<rparr>"
definition intr_on :: "cpu \<Rightarrow> cpu" where "intr_on c = c\<lparr>sie := True\<rparr>"

definition push_off :: "cpu \<Rightarrow> cpu" where
  "push_off c =
     (let old = intr_get c;
          c = intr_off c;
          c = (if noff c = 0 then c\<lparr>intena := old\<rparr> else c)
      in c\<lparr>noff := noff c + 1\<rparr>)"

definition pop_off :: "cpu \<Rightarrow> (unit, cpu) outcome" where
  "pop_off c =
     (if intr_get c then Panic ''pop_off - interruptible''
      else if noff c < 1 then Panic ''pop_off''
      else let c = c\<lparr>noff := noff c - 1\<rparr>
           in Done () (if noff c = 0 \<and> intena c then intr_on c else c))"

section \<open>Locks\<close>

definition initlock :: "string \<Rightarrow> spinlock" where
  "initlock name = \<lparr>locked = 0, lkcpu = None, lkname = name\<rparr>"

definition holding :: "nat \<Rightarrow> spinlock \<Rightarrow> bool" where
  "holding h lk \<longleftrightarrow> locked lk \<noteq> 0 \<and> lkcpu lk = Some h"

text \<open>
  The atomic swap \<^verbatim>\<open>__sync_lock_test_and_set(&lk->locked, 1)\<close>: the old value, and the lock
  with the new one.
\<close>

definition test_and_set :: "spinlock \<Rightarrow> uint \<times> spinlock" where
  "test_and_set lk = (locked lk, lk\<lparr>locked := 1\<rparr>)"

text \<open>
  \<^verbatim>\<open>acquire\<close> run by hart \<open>h\<close> with no other hart in between: it panics on a lock the hart
  holds already, spins forever (\<open>None\<close>) on one that is taken, and takes a free one.
\<close>

definition acquire :: "nat \<Rightarrow> spinlock \<Rightarrow> cpu \<Rightarrow> (unit, spinlock \<times> cpu) outcome option" where
  "acquire h lk c =
     (let c = push_off c
      in if holding h lk then Some (Panic ''acquire'')
         else let (old, lk) = test_and_set lk
              in if old \<noteq> 0 then None
                 else Some (Done () (lk\<lparr>lkcpu := Some h\<rparr>, c)))"

definition release :: "nat \<Rightarrow> spinlock \<Rightarrow> cpu \<Rightarrow> (unit, spinlock \<times> cpu) outcome" where
  "release h lk c =
     (if \<not> holding h lk then Panic ''release''
      else let lk = lk\<lparr>lkcpu := None\<rparr>; lk = lk\<lparr>locked := 0\<rparr>
           in case pop_off c of
             Done _ c \<Rightarrow> Done () (lk, c) | Panic msg \<Rightarrow> Panic msg | Sleep ch c \<Rightarrow> Sleep ch (lk, c))"

section \<open>Interleaved harts\<close>

text \<open>
  What a hart is doing: running other code, spinning in \<^verbatim>\<open>acquire\<close>, between the swap and
  the store to \<^verbatim>\<open>lk->cpu\<close>, or between clearing \<^verbatim>\<open>lk->cpu\<close> and the release of the lock.
\<close>

datatype hart_pc = Run | Spin nat | Swapped nat | Clearing nat

record harts =
  locks :: "nat \<Rightarrow> spinlock"
  cpus :: "nat \<Rightarrow> cpu"
  pc :: "nat \<Rightarrow> hart_pc"

inductive hart_step :: "harts \<Rightarrow> harts \<Rightarrow> bool" where
  acquire_begin: "pc s h = Run \<Longrightarrow> \<not> holding h (locks s l) \<Longrightarrow>
    hart_step s (s\<lparr>cpus := (cpus s)(h := push_off (cpus s h)), pc := (pc s)(h := Spin l)\<rparr>)"
| acquire_spin: "pc s h = Spin l \<Longrightarrow> test_and_set (locks s l) = (old, lk) \<Longrightarrow> old \<noteq> 0 \<Longrightarrow>
    hart_step s (s\<lparr>locks := (locks s)(l := lk)\<rparr>)"
| acquire_swap: "pc s h = Spin l \<Longrightarrow> test_and_set (locks s l) = (old, lk) \<Longrightarrow> old = 0 \<Longrightarrow>
    hart_step s (s\<lparr>locks := (locks s)(l := lk), pc := (pc s)(h := Swapped l)\<rparr>)"
| acquire_end: "pc s h = Swapped l \<Longrightarrow>
    hart_step s (s\<lparr>locks := (locks s)(l := (locks s l)\<lparr>lkcpu := Some h\<rparr>), pc := (pc s)(h := Run)\<rparr>)"
| release_begin: "pc s h = Run \<Longrightarrow> holding h (locks s l) \<Longrightarrow>
    hart_step s (s\<lparr>locks := (locks s)(l := (locks s l)\<lparr>lkcpu := None\<rparr>), pc := (pc s)(h := Clearing l)\<rparr>)"
| release_end: "pc s h = Clearing l \<Longrightarrow> pop_off (cpus s h) = Done () c \<Longrightarrow>
    hart_step s (s\<lparr>locks := (locks s)(l := (locks s l)\<lparr>locked := 0\<rparr>),
      cpus := (cpus s)(h := c), pc := (pc s)(h := Run)\<rparr>)"
| interrupts_on: "pc s h = Run \<Longrightarrow> noff (cpus s h) = 0 \<Longrightarrow>
    hart_step s (s\<lparr>cpus := (cpus s)(h := intr_on (cpus s h))\<rparr>)"
| interrupts_off: "pc s h = Run \<Longrightarrow> hart_step s (s\<lparr>cpus := (cpus s)(h := intr_off (cpus s h))\<rparr>)"

definition harts_init :: "harts \<Rightarrow> bool" where
  "harts_init s \<longleftrightarrow> (\<forall>l. locked (locks s l) = 0 \<and> lkcpu (locks s l) = None) \<and>
     (\<forall>h. noff (cpus s h) = 0 \<and> pc s h = Run)"

inductive hart_reach :: "harts \<Rightarrow> bool" where
  hart_start: "harts_init s \<Longrightarrow> hart_reach s"
| hart_next: "hart_reach s \<Longrightarrow> hart_step s t \<Longrightarrow> hart_reach t"

section \<open>Mutual exclusion\<close>

text \<open>Hart \<open>h\<close> is between the swap and the release of lock \<open>l\<close>: in the critical section.\<close>

definition owns :: "harts \<Rightarrow> nat \<Rightarrow> nat \<Rightarrow> bool" where
  "owns s h l \<longleftrightarrow> pc s h = Swapped l \<or> pc s h = Clearing l \<or> holding h (locks s l)"

definition wants :: "harts \<Rightarrow> nat \<Rightarrow> nat \<Rightarrow> bool" where
  "wants s h l \<longleftrightarrow> owns s h l \<or> pc s h = Spin l"

definition wanted :: "harts \<Rightarrow> nat \<Rightarrow> nat set" where
  "wanted s h = {l. wants s h l}"

definition excl_inv :: "harts \<Rightarrow> bool" where
  "excl_inv s \<longleftrightarrow>
     (\<forall>l h. owns s h l \<longrightarrow> locked (locks s l) \<noteq> 0) \<and>
     (\<forall>l h h'. owns s h l \<longrightarrow> owns s h' l \<longrightarrow> h = h') \<and>
     (\<forall>l h. pc s h = Swapped l \<or> pc s h = Clearing l \<longrightarrow> lkcpu (locks s l) = None) \<and>
     (\<forall>l. locked (locks s l) = 0 \<longrightarrow> lkcpu (locks s l) = None) \<and>
     (\<forall>l h. pc s h = Spin l \<longrightarrow> \<not> holding h (locks s l))"

definition intr_inv :: "harts \<Rightarrow> bool" where
  "intr_inv s \<longleftrightarrow> (\<forall>h. finite (wanted s h) \<and> noff (cpus s h) = int (card (wanted s h)) \<and>
     (0 < noff (cpus s h) \<longrightarrow> \<not> sie (cpus s h)))"

lemma excl_inv_step:
  assumes "hart_step s t" "excl_inv s"
  shows "excl_inv t"
  using assms
proof (cases rule: hart_step.cases)
  case (acquire_begin h l)
  with assms(2) show ?thesis unfolding excl_inv_def owns_def holding_def by auto
next
  case (acquire_spin h l old lk)
  have lk: "lk = (locks s l)\<lparr>locked := 1\<rparr>" "old = locked (locks s l)"
    using acquire_spin(3) by (auto simp: test_and_set_def)
  with acquire_spin assms(2) show ?thesis
    unfolding excl_inv_def owns_def holding_def by (simp split: if_splits) blast
next
  case (acquire_swap h l old lk)
  have lk: "lk = (locks s l)\<lparr>locked := 1\<rparr>" "locked (locks s l) = 0"
    using acquire_swap(3,4) by (auto simp: test_and_set_def)
  have free: "pc s h' \<noteq> Swapped l" "pc s h' \<noteq> Clearing l" "lkcpu (locks s l) = None" for h'
    using assms(2) lk(2) unfolding excl_inv_def owns_def by blast+
  show ?thesis
    using assms(2) acquire_swap(1,2) lk free unfolding excl_inv_def owns_def holding_def by auto
next
  case (acquire_end h l)
  with assms(2) show ?thesis unfolding excl_inv_def owns_def holding_def by (simp split: if_splits) metis
next
  case (release_begin h l)
  with assms(2) show ?thesis unfolding excl_inv_def owns_def holding_def by (simp split: if_splits) metis
next
  case (release_end h l c)
  with assms(2) show ?thesis unfolding excl_inv_def owns_def holding_def by (simp split: if_splits) metis
next
  case (interrupts_on h)
  with assms(2) show ?thesis unfolding excl_inv_def owns_def holding_def by simp
next
  case (interrupts_off h)
  with assms(2) show ?thesis unfolding excl_inv_def owns_def holding_def by simp
qed

lemma push_off_noff [simp]: "noff (push_off c) = noff c + 1" "sie (push_off c) = False"
  by (simp_all add: push_off_def Let_def intr_off_def)

lemma pop_off_Done:
  assumes "pop_off c = Done () c'"
  shows "noff c' = noff c - 1" "0 < noff c" "0 < noff c' \<Longrightarrow> \<not> sie c'"
  using assms by (auto simp: pop_off_def Let_def intr_on_def intr_get_def split: if_splits)

text \<open>How the set of locks a hart holds or waits for changes.\<close>

lemma intr_inv_insert:
  assumes "intr_inv s" "wanted t h = insert l (wanted s h)" "l \<notin> wanted s h"
    and "\<And>h'. h' \<noteq> h \<Longrightarrow> wanted t h' = wanted s h' \<and> cpus t h' = cpus s h'"
    and "noff (cpus t h) = noff (cpus s h) + 1" "\<not> sie (cpus t h)"
  shows "intr_inv t"
  unfolding intr_inv_def
proof
  fix h'
  show "finite (wanted t h') \<and> noff (cpus t h') = int (card (wanted t h')) \<and>
     (0 < noff (cpus t h') \<longrightarrow> \<not> sie (cpus t h'))"
    using assms by (cases "h' = h") (simp_all add: intr_inv_def)
qed

lemma intr_inv_remove:
  assumes "intr_inv s" "wanted t h = wanted s h - {l}" "wants s h l"
    and "\<And>h'. h' \<noteq> h \<Longrightarrow> wanted t h' = wanted s h' \<and> cpus t h' = cpus s h'"
    and "noff (cpus t h) = noff (cpus s h) - 1" "0 < noff (cpus t h) \<Longrightarrow> \<not> sie (cpus t h)"
  shows "intr_inv t"
  unfolding intr_inv_def
proof
  fix h'
  have "finite (wanted s h)" using assms(1) by (simp add: intr_inv_def)
  then have "card (wanted s h) = Suc (card (wanted s h - {l}))"
    using assms(3) by (intro card.remove) (auto simp: wanted_def)
  then show "finite (wanted t h') \<and> noff (cpus t h') = int (card (wanted t h')) \<and>
     (0 < noff (cpus t h') \<longrightarrow> \<not> sie (cpus t h'))"
    using assms by (cases "h' = h") (simp_all add: intr_inv_def)
qed

lemma intr_inv_same:
  assumes "intr_inv s" "\<And>h. wanted t h = wanted s h"
    and "\<And>h. noff (cpus t h) = noff (cpus s h) \<and> (0 < noff (cpus t h) \<longrightarrow> \<not> sie (cpus t h))"
  shows "intr_inv t"
  using assms by (simp add: intr_inv_def)

lemma intr_inv_step:
  assumes "hart_step s t" "excl_inv s" "intr_inv s"
  shows "intr_inv t"
  using assms(1)
proof (cases rule: hart_step.cases)
  case (acquire_begin h l)
  show ?thesis
    using assms(3) acquire_begin by (intro intr_inv_insert [of s t h l]) (auto simp: wanted_def wants_def owns_def)
next
  case (acquire_spin h l old lk)
  have lk: "lk = (locks s l)\<lparr>locked := 1\<rparr>" "locked (locks s l) \<noteq> 0"
    using acquire_spin(3,4) by (auto simp: test_and_set_def)
  then show ?thesis
    using assms(3) acquire_spin by (intro intr_inv_same [of s t])
      (auto simp: wanted_def wants_def owns_def holding_def intr_inv_def)
next
  case (acquire_swap h l old lk)
  have lk: "lk = (locks s l)\<lparr>locked := 1\<rparr>" "locked (locks s l) = 0" "lkcpu (locks s l) = None"
    using acquire_swap(3,4) assms(2) by (auto simp: test_and_set_def excl_inv_def)
  then show ?thesis
    using assms(3) acquire_swap by (intro intr_inv_same [of s t])
      (auto simp: wanted_def wants_def owns_def holding_def intr_inv_def)
next
  case (acquire_end h l)
  have "owns s h l" using acquire_end by (simp add: owns_def)
  then have "locked (locks s l) \<noteq> 0" "lkcpu (locks s l) = None"
    using assms(2) acquire_end(2) unfolding excl_inv_def by blast+
  then show ?thesis
    using assms(3) acquire_end by (intro intr_inv_same [of s t])
      (auto simp: wanted_def wants_def owns_def holding_def intr_inv_def)
next
  case (release_begin h l)
  then show ?thesis
    using assms(3) by (intro intr_inv_same [of s t])
      (auto simp: wanted_def wants_def owns_def holding_def intr_inv_def)
next
  case (release_end h l c)
  have "lkcpu (locks s l) = None" using release_end(2) assms(2) unfolding excl_inv_def by blast
  then show ?thesis
    using assms(3) release_end pop_off_Done [OF release_end(3)]
    by (intro intr_inv_remove [of s t h l]) (auto simp: wanted_def wants_def owns_def holding_def)
next
  case (interrupts_on h)
  then show ?thesis
    using assms(3) by (intro intr_inv_same [of s t])
      (auto simp: wanted_def wants_def owns_def intr_inv_def intr_on_def)
next
  case (interrupts_off h)
  then show ?thesis
    using assms(3) by (intro intr_inv_same [of s t])
      (auto simp: wanted_def wants_def owns_def intr_inv_def intr_off_def)
qed

lemma hart_reach_inv:
  assumes "hart_reach s"
  shows "excl_inv s \<and> intr_inv s"
  using assms
proof induction
  case (hart_start s)
  then have "wanted s h = {}" for h by (simp add: harts_init_def wanted_def wants_def owns_def holding_def)
  with hart_start show ?case
    by (simp add: harts_init_def excl_inv_def intr_inv_def owns_def holding_def)
qed (blast intro: excl_inv_step intr_inv_step)

text \<open>
  C10. Mutual exclusion: in every reachable state of any number of harts that acquire and
  release locks in any interleaving, at most one hart is in the critical section of a
  lock. A hart in a critical section has interrupts disabled, and its nesting depth
  \<^verbatim>\<open>noff\<close> is the number of locks it holds or waits for.
\<close>

theorem spinlock_mutual_exclusion:
  assumes "hart_reach s"
  shows "(owns s h l \<longrightarrow> owns s h' l \<longrightarrow> h = h') \<and> (owns s h l \<longrightarrow> \<not> intr_get (cpus s h)) \<and>
    noff (cpus s h) = int (card (wanted s h))"
proof -
  have inv: "excl_inv s" "intr_inv s" using hart_reach_inv [OF assms] by auto
  have "\<not> intr_get (cpus s h)" if "owns s h l"
  proof -
    have "wants s h l" using that by (simp add: wants_def)
    then have "0 < card (wanted s h)" using inv(2) by (auto simp: intr_inv_def card_gt_0_iff wanted_def)
    with inv(2) show ?thesis by (simp add: intr_inv_def intr_get_def)
  qed
  with inv show ?thesis unfolding excl_inv_def intr_inv_def by blast
qed

text \<open>Hart 0 has just taken lock 5.\<close>

definition harts0 :: harts where
  "harts0 = \<lparr>locks = (\<lambda>_. initlock ''l''), cpus = (\<lambda>_. \<lparr>noff = 0, intena = False, sie = True\<rparr>), pc = (\<lambda>_. Run)\<rparr>"

definition harts1 :: harts where
  "harts1 = harts0\<lparr>cpus := (cpus harts0)(0 := push_off (cpus harts0 0)), pc := (pc harts0)(0 := Spin 5)\<rparr>"

definition harts2 :: harts where
  "harts2 = harts1\<lparr>locks := (locks harts1)(5 := (locks harts1 5)\<lparr>locked := 1\<rparr>), pc := (pc harts1)(0 := Swapped 5)\<rparr>"

lemma hart_reach_harts2: "hart_reach harts2"
proof -
  have "hart_reach harts0" by (rule hart_start) (simp add: harts_init_def harts0_def initlock_def)
  moreover have "hart_step harts0 harts1" unfolding harts1_def
    by (rule acquire_begin) (simp_all add: harts0_def initlock_def holding_def)
  moreover have "hart_step harts1 harts2" unfolding harts2_def
    by (rule acquire_swap [OF _ _ refl])
      (simp_all add: harts1_def harts0_def initlock_def test_and_set_def)
  ultimately show ?thesis by (blast intro: hart_next)
qed

theorem spinlock_mutual_exclusion_witness:
  "owns harts2 0 5 \<and> \<not> owns harts2 1 5 \<and> \<not> intr_get (cpus harts2 0)"
proof -
  have "owns harts2 0 5" by (simp add: owns_def harts2_def)
  then show ?thesis
    using spinlock_mutual_exclusion [OF hart_reach_harts2, of 0 5 1] by auto
qed

text \<open>
  \<^verbatim>\<open>acquire\<close> and \<^verbatim>\<open>release\<close> on a free lock restore the lock and the hart: the interrupt
  enable bit comes back to its value before \<^verbatim>\<open>acquire\<close> when the hart held no other
  lock, and stays off otherwise.
\<close>

theorem acquire_release:
  assumes "locked lk = 0" "lkcpu lk = None" "0 \<le> noff c" "0 < noff c \<longrightarrow> \<not> sie c"
  shows "\<exists>lk1 c1 lk2 c2. acquire h lk c = Some (Done () (lk1, c1)) \<and> holding h lk1 \<and> \<not> intr_get c1 \<and>
    release h lk1 c1 = Done () (lk2, c2) \<and> lk2 = lk \<and> noff c2 = noff c \<and> intr_get c2 = intr_get c"
  using assms
  by (auto simp: acquire_def release_def test_and_set_def holding_def push_off_def pop_off_def
      intr_get_def intr_off_def intr_on_def Let_def)

theorem acquire_release_witness:
  "\<exists>lk1 c1 lk2 c2. acquire 3 (initlock ''kmem'') \<lparr>noff = 0, intena = False, sie = True\<rparr> = Some (Done () (lk1, c1)) \<and>
    holding 3 lk1 \<and> release 3 lk1 c1 = Done () (lk2, c2) \<and> lk2 = initlock ''kmem'' \<and> intr_get c2"
  using acquire_release [of "initlock ''kmem''" "\<lparr>noff = 0, intena = False, sie = True\<rparr>" 3]
  by (auto simp: initlock_def intr_get_def)

end
