(* ===== verification/Unmap.thy ===== *)
theory Unmap
  imports Mapping_Vm
begin

text \<open>
  \<^verbatim>\<open>uvmunmap\<close> on a range that is mapped by pages of 4096 bytes and by superpages of 2 MB, in any order. The range is described by its
  tiles: the leaf entries that map it, from the first address on. A page goes back to \<^verbatim>\<open>kalloc\<close>'s free list and a superpage to the pool of
  superpages.
\<close>

section \<open>Tiles\<close>

datatype tile = Small pte | Super pte

fun tile_size :: "tile \<Rightarrow> nat" where
  "tile_size (Small e) = 4096"
| "tile_size (Super e) = 2097152"

definition tiles_size :: "tile list \<Rightarrow> nat" where
  "tiles_size ts = sum_list (map tile_size ts)"

lemma tiles_size_simps [simp]: "tiles_size [] = 0" "tiles_size (t # ts) = tile_size t + tiles_size ts"
  by (simp_all add: tiles_size_def)

text \<open>The entry that maps the tile at \<open>a\<close>; a superpage must be readable, as \<^verbatim>\<open>uvmunmap\<close> tests for it.\<close>

fun tile_at :: "memory \<Rightarrow> addr \<Rightarrow> uint64 \<Rightarrow> tile \<Rightarrow> bool" where
  "tile_at m pt a (Small e) \<longleftrightarrow> lookup m pt a = Some (0, e) \<and> PTE_FLAGS e \<noteq> PTE_V"
| "tile_at m pt a (Super e) \<longleftrightarrow> a mod SUPERPGSIZE = 0 \<and> lookup m pt a = Some (1, e) \<and> bit e 1"

fun tiled :: "memory \<Rightarrow> addr \<Rightarrow> uint64 \<Rightarrow> tile list \<Rightarrow> bool" where
  "tiled m pt a [] \<longleftrightarrow> True"
| "tiled m pt a (t # ts) \<longleftrightarrow> tile_at m pt a t \<and> tiled m pt (a + of_nat (tile_size t)) ts"

fun small_frames :: "tile list \<Rightarrow> addr list" where
  "small_frames [] = []"
| "small_frames (Small e # ts) = PTE2PA e # small_frames ts"
| "small_frames (Super e # ts) = small_frames ts"

fun super_frames :: "tile list \<Rightarrow> addr list" where
  "super_frames [] = []"
| "super_frames (Small e # ts) = super_frames ts"
| "super_frames (Super e # ts) = PTE2PA e # super_frames ts"

text \<open>The frames may be freed: they are allocated, and mapped once in the range.\<close>

definition owned_tiles :: "'z kmem_scheme \<Rightarrow> addr \<Rightarrow> addr list \<Rightarrow> addr list \<Rightarrow> tile list \<Rightarrow> bool" where
  "owned_tiles s pt fl ps ts \<longleftrightarrow> distinct (small_frames ts) \<and> distinct (super_frames ts) \<and>
     (\<forall>f\<in>set (small_frames ts). phys_page s f \<and> f < SUPERBASE \<and> f \<notin> set fl \<and> f \<notin> tables (mem s) pt) \<and>
     (\<forall>p\<in>set (super_frames ts). super_page p \<and> p \<notin> set ps)"

text \<open>As \<^verbatim>\<open>kinit\<close> arranges it, the pages of \<^verbatim>\<open>kalloc\<close>, and so the tables, lie below the pool of superpages.\<close>

definition below_pool :: "'z kmem_scheme \<Rightarrow> addr \<Rightarrow> addr list \<Rightarrow> bool" where
  "below_pool s pt fl \<longleftrightarrow> (\<forall>p\<in>tables (mem s) pt \<union> set fl. p < SUPERBASE)"

definition in_superpage :: "addr \<Rightarrow> addr \<Rightarrow> bool" where
  "in_superpage p x \<longleftrightarrow> unat p \<le> unat x \<and> unat x < unat p + 2097152"

section \<open>Freeing a superpage\<close>

lemma in_superpage_block: "super_page p \<Longrightarrow> in_block p 2097152 x \<longleftrightarrow> in_superpage p x"
proof -
  assume p: "super_page p"
  have lt: "unat p < 2281701376" using p by (simp add: super_page_nat)
  show ?thesis
  proof
    assume "in_block p 2097152 x"
    then have k: "unat (x - p) < 2097152" by (simp add: in_block_def)
    have "unat (p + of_nat (unat (x - p))) = unat p + unat (x - p)" using lt k by (intro unat_add_of_nat64) simp
    then show "in_superpage p x" using k by (simp add: in_superpage_def)
  next
    assume x: "in_superpage p x"
    then have "unat (x - p) = unat x - unat p" by (intro unat_sub) (simp add: in_superpage_def word_le_nat_alt)
    moreover have "unat x - unat p < 2097152" using x unfolding in_superpage_def by linarith
    ultimately show "in_block p 2097152 x" by (simp add: in_block_def)
  qed
qed

lemma memset_superpage: "super_page p \<Longrightarrow> \<not> in_superpage p x \<Longrightarrow> memset m p 1 2097152 x = m x"
  using in_superpage_block by (simp add: memset_eq)

lemma below_not_in: "super_page p \<Longrightarrow> page_aligned q \<Longrightarrow> q < SUPERBASE \<Longrightarrow> PGROUNDDOWN x = q \<Longrightarrow> \<not> in_superpage p x"
proof
  assume p: "super_page p" and q: "page_aligned q" "q < SUPERBASE" "PGROUNDDOWN x = q" and x: "in_superpage p x"
  have "unat q = unat x div 4096 * 4096" using unat_PGROUNDDOWN [of x] q(3) by simp
  moreover have "2155872256 \<le> unat x" using p x by (simp add: super_page_nat in_superpage_def)
  then have "2155872256 div 4096 * 4096 \<le> unat x div 4096 * 4096" by (intro mult_le_mono1 div_le_mono)
  ultimately show False using q(2) by (simp add: SUPERBASE_eq word_less_nat_alt)
qed

lemma superfree_pt_state:
  fixes s :: "'z kmem_scheme"
  assumes st: "pt_state s pt fl" and low: "below_pool s pt fl" and sp: "super_pool s ps" and p: "super_page p" "p \<notin> set ps"
  obtains t where "superfree p s = Done () t" "pt_state t pt fl" "super_pool t (p # ps)" "kend t = kend s"
    "tables (mem t) pt = tables (mem s) pt" "lookup (mem t) pt = lookup (mem s) pt" "\<And>x. \<not> in_superpage p x \<Longrightarrow> mem t x = mem s x"
    "\<And>q. good_path q \<Longrightarrow> tbl (mem t) pt q = tbl (mem s) pt q"
    "\<And>u i. u \<in> tables (mem s) pt \<Longrightarrow> unat i < 512 \<Longrightarrow> load64 (mem t) (pte_slot u i) = load64 (mem s) (pte_slot u i)"
proof -
  let ?m = "memset (mem s) p 1 2097152"
  let ?t = "s\<lparr>mem := ?m, superpages := (superpages s)[nfree s := p], nfree := nfree s + 1\<rparr>"
  note sf = superfree_pool [OF sp p]
  note al = pt_state_table(1) [OF st]
  have eq: "?m x = mem s x" if "PGROUNDDOWN x \<in> tables (mem s) pt \<union> set fl" for x
  proof -
    have "page_aligned (PGROUNDDOWN x)" by simp
    then show ?thesis using low that by (intro memset_superpage [OF p(1)] below_not_in [OF p(1) _ _ refl]) (auto simp: below_pool_def)
  qed
  have eqt: "?m x = mem s x" if "PGROUNDDOWN x \<in> tables (mem s) pt" for x using eq that by blast
  note same = tables_same [OF al eqt]
  have look: "lookup ?m pt = lookup (mem s) pt" using ent_same [OF al eqt] by (intro ext lookup_cong) auto
  have "kmem_pool (s\<lparr>mem := ?m\<rparr>) fl" using st eq by (intro kmem_pool_mem) (auto simp: pt_state_def)
  then have "kmem_pool ?t fl" by (simp add: kmem_pool_def phys_page_def)
  then have "pt_state ?t pt fl" using st same phys_page_cong [of ?t s] by (auto simp: pt_state_def)
  moreover have "tbl ?m pt q = tbl (mem s) pt q" if "good_path q" for q using tbl_same [OF al eqt that] .
  moreover have "load64 ?m (pte_slot u i) = load64 (mem s) (pte_slot u i)" if "u \<in> tables (mem s) pt" "unat i < 512" for u i
    using that al eqt by (intro load64_slot_same) auto
  ultimately show thesis using sf same look memset_superpage [OF p(1)] by (intro that [of ?t]) auto
qed

section \<open>One tile\<close>

definition in_tile :: "uint64 \<Rightarrow> nat \<Rightarrow> uint64 \<Rightarrow> bool" where
  "in_tile a n x \<longleftrightarrow> unat a \<le> unat x \<and> unat x < unat a + n"

lemma path_small:
  assumes "a < MAXVA" "page_aligned a" "x < MAXVA"
  shows "prefix (va_path a) (va_path x) \<longleftrightarrow> in_tile a 4096 x"
proof -
  have "prefix (va_path a) (va_path x) \<longleftrightarrow> PGROUNDDOWN x = a"
    using va_path_eq_iff [OF assms(1,3)] PGROUNDDOWN_of_aligned [OF assms(2)] by (auto simp: va_path_def)
  also have "\<dots> \<longleftrightarrow> in_tile a 4096 x"
  proof -
    have "unat a mod 4096 = 0" using assms(2) by (simp add: page_aligned_nat)
    then obtain c where c: "unat a = 4096 * c" by (auto simp: mod_eq_0_iff_dvd elim: dvdE)
    have "PGROUNDDOWN x = a \<longleftrightarrow> unat x div 4096 = c" by (simp add: word_eq_iff_unat64 unat_PGROUNDDOWN c)
    also have "\<dots> \<longleftrightarrow> in_tile a 4096 x" unfolding in_tile_def c by auto
    finally show ?thesis .
  qed
  finally show ?thesis .
qed

lemma path_super:
  assumes "a < MAXVA" "a mod SUPERPGSIZE = 0" "x < MAXVA"
  shows "prefix [PX 2 a, PX 1 a] (va_path x) \<longleftrightarrow> in_tile a 2097152 x"
proof -
  have m: "unat a mod 2097152 = 0" using assms(2) by (simp add: word_eq_iff_unat64 unat_mod)
  then obtain c where c: "unat a = 2097152 * c" by (auto simp: mod_eq_0_iff_dvd elim: dvdE)
  have lt: "unat x div 2097152 < 131072" "c < 131072" using assms(1,3) c by (simp_all add: word_less_nat_alt less_mult_imp_div_less)
  have dec: "n = n div 512 mod 512 * 512 + n mod 512" if "n < 131072" for n :: nat
    using that div_mult_mod_eq [of n 512] by (simp add: less_mult_imp_div_less)
  have px: "unat (PX 1 y) = unat y div 2097152 mod 512" "unat (PX 2 y) = unat y div 2097152 div 512 mod 512" for y
    by (simp_all add: unat_PX_div div_mult2_eq [symmetric])
  have ca: "unat a div 2097152 = c" using c by simp
  have "prefix [PX 2 a, PX 1 a] (va_path x) \<longleftrightarrow> PX 2 a = PX 2 x \<and> PX 1 a = PX 1 x" by (auto simp: va_path_def)
  also have "\<dots> \<longleftrightarrow> c div 512 mod 512 = unat x div 2097152 div 512 mod 512 \<and> c mod 512 = unat x div 2097152 mod 512"
    by (simp only: word_eq_iff_unat64 px ca)
  also have "\<dots> \<longleftrightarrow> unat x div 2097152 = c" using dec [OF lt(1)] dec [OF lt(2)] by metis
  also have "\<dots> \<longleftrightarrow> in_tile a 2097152 x" unfolding in_tile_def c by auto
  finally show ?thesis .
qed

lemma lookup_level1:
  assumes "lookup m pt va = Some (1, e)"
  obtains t1 where "is_table (load64 m (pte_slot pt (PX 2 va)))" "t1 = PTE2PA (load64 m (pte_slot pt (PX 2 va)))"
    "e = load64 m (pte_slot t1 (PX 1 va))" "bit e 0" "\<not> is_table e" "tbl m pt [PX 2 va] = Some t1"
  using assms by (auto simp: lookup_def va_path_def ent_def child_def Let_def split: option.splits bind_splits if_splits)

lemma superpage_at_level1:
  assumes "lookup (mem s) pt a = Some (1, e)" "a < MAXVA" "a mod SUPERPGSIZE = 0" "bit e 1" and nz: "\<And>t. tbl (mem s) pt [PX 2 a] = Some t \<Longrightarrow> pte_slot t (PX 1 a) \<noteq> 0"
  obtains t1 where "superpage_at pt a s = Done (pte_slot t1 (PX 1 a)) s" "tbl (mem s) pt [PX 2 a] = Some t1"
    "e = load64 (mem s) (pte_slot t1 (PX 1 a))" "\<not> is_table e"
  using assms(1)
proof (rule lookup_level1)
  fix t1
  assume t: "is_table (load64 (mem s) (pte_slot pt (PX 2 a)))" "t1 = PTE2PA (load64 (mem s) (pte_slot pt (PX 2 a)))"
    "e = load64 (mem s) (pte_slot t1 (PX 1 a))" "bit e 0" "\<not> is_table e" "tbl (mem s) pt [PX 2 a] = Some t1"
  have "superpage_at pt a s = Done (pte_slot t1 (PX 1 a)) s"
    using t(1-4) assms(2-4) nz [OF t(6)] by (simp add: superpage_at_def superwalk_def read_pte_def is_table_bits not_le Let_def)
  then show thesis using t(3,5,6) by (intro that)
qed

definition unmapped :: "'z kmem_scheme \<Rightarrow> addr \<Rightarrow> uint64 \<Rightarrow> tile list \<Rightarrow> 'z kmem_scheme \<Rightarrow> bool" where
  "unmapped s pt a ts t \<longleftrightarrow> tables (mem t) pt = tables (mem s) pt \<and> kend t = kend s \<and>
     (\<forall>x<MAXVA. lookup (mem t) pt x = (if in_tile a (tiles_size ts) x then None else lookup (mem s) pt x)) \<and>
     (\<forall>x. PGROUNDDOWN x \<notin> tables (mem s) pt \<union> set (small_frames ts) \<longrightarrow> (\<forall>p\<in>set (super_frames ts). \<not> in_superpage p x) \<longrightarrow> mem t x = mem s x)"

lemma super_pool_cong: "superpages t = superpages s \<Longrightarrow> nfree t = nfree s \<Longrightarrow> super_pool t ps = super_pool s ps"
  by (simp add: super_pool_def)

lemma unmap_small:
  fixes s :: "'z kmem_scheme"
  assumes st: "pt_state s pt fl" and sp: "super_pool s ps" and own: "owned_tiles s pt fl ps [Small e]"
    and a: "a < MAXVA" "page_aligned a" "a < lim" and e: "tile_at (mem s) pt a (Small e)"
  obtains t where "uvmunmap_loop pt a lim True s = uvmunmap_loop pt (a + 4096) lim True t"
    "pt_state t pt (PTE2PA e # fl)" "super_pool t ps" "unmapped s pt a [Small e] t"
proof -
  have f: "phys_page s (PTE2PA e)" "PTE2PA e \<notin> set fl" "PTE2PA e \<notin> tables (mem s) pt" using own by (simp_all add: owned_tiles_def)
  have l: "lookup (mem s) pt a = Some (0, e)" "PTE_FLAGS e \<noteq> PTE_V" using e by simp_all
  obtain t where t: "uvmunmap_loop pt a lim True s = uvmunmap_loop pt (a + 4096) lim True t"
      "pt_state t pt (PTE2PA e # fl)" "tables (mem t) pt = tables (mem s) pt" "kend t = kend s"
      "\<And>x. x < MAXVA \<Longrightarrow> lookup (mem t) pt x = (if PGROUNDDOWN x = a then None else lookup (mem s) pt x)"
      "\<And>x. PGROUNDDOWN x \<notin> tables (mem s) pt \<Longrightarrow> PGROUNDDOWN x \<noteq> PTE2PA e \<Longrightarrow> mem t x = mem s x"
      "superpages t = superpages s \<and> nfree t = nfree s"
    by (rule uvmunmap_step [OF st a l f]) (rule that)
  have "super_pool t ps" using sp super_pool_cong [of t s ps] t(7) by simp
  moreover have "PGROUNDDOWN x = a \<longleftrightarrow> in_tile a 4096 x" if "x < MAXVA" for x
    using path_small [OF a(1,2) that] va_path_eq_iff [OF a(1) that] PGROUNDDOWN_of_aligned [OF a(2)] by (auto simp: va_path_def)
  ultimately show thesis using t by (intro that [of t]) (auto simp: unmapped_def)
qed

lemma unmap_super:
  fixes s :: "'z kmem_scheme"
  assumes st: "pt_state s pt fl" and low: "below_pool s pt fl" and sp: "super_pool s ps" and own: "owned_tiles s pt fl ps [Super e]"
    and a: "a < MAXVA" "a < lim" and e: "tile_at (mem s) pt a (Super e)"
  obtains t where "uvmunmap_loop pt a lim True s = uvmunmap_loop pt (a + 2097152) lim True t"
    "pt_state t pt fl" "super_pool t (PTE2PA e # ps)" "unmapped s pt a [Super e] t"
proof -
  have f: "super_page (PTE2PA e)" "PTE2PA e \<notin> set ps" using own by (simp_all add: owned_tiles_def)
  have l: "a mod SUPERPGSIZE = 0" "lookup (mem s) pt a = Some (1, e)" "bit e 1" using e by simp_all
  have gp: "good_path [PX 2 a]" by (simp add: good_path_def unat_PX)
  have nz: "pte_slot t (PX 1 a) \<noteq> 0" if "tbl (mem s) pt [PX 2 a] = Some t" for t
    using pt_state_table [OF st tblI [OF gp that]] unat_pte_slot [of t] unat_PX [of 1 a] by (auto simp: word_eq_iff_unat64)
  obtain t1 where w: "superpage_at pt a s = Done (pte_slot t1 (PX 1 a)) s" "tbl (mem s) pt [PX 2 a] = Some t1"
      "e = load64 (mem s) (pte_slot t1 (PX 1 a))" "\<not> is_table e"
    by (rule superpage_at_level1 [OF l(2) a(1) l(1,3) nz])
  obtain u where k: "superfree (PTE2PA e) s = Done () u" "pt_state u pt fl" "super_pool u (PTE2PA e # ps)" "kend u = kend s"
      "tables (mem u) pt = tables (mem s) pt" "lookup (mem u) pt = lookup (mem s) pt" "\<And>x. \<not> in_superpage (PTE2PA e) x \<Longrightarrow> mem u x = mem s x"
      "\<And>q. good_path q \<Longrightarrow> tbl (mem u) pt q = tbl (mem s) pt q"
      "\<And>v i. v \<in> tables (mem s) pt \<Longrightarrow> unat i < 512 \<Longrightarrow> load64 (mem u) (pte_slot v i) = load64 (mem s) (pte_slot v i)"
    by (rule superfree_pt_state [OF st low sp f]) blast
  have tu: "tbl (mem u) pt [PX 2 a] = Some t1" using k(8) [OF gp] w(2) by simp
  have t1: "t1 \<in> tables (mem s) pt" using gp w(2) by (rule tblI)
  have old: "no_table ([PX 2 a] @ [PX 1 a]) (load64 (mem u) (pte_slot t1 (PX 1 a)))"
    using k(9) [OF t1 unat_PX] w(3,4) by (simp add: no_table_def)
  have new: "no_table ([PX 2 a] @ [PX 1 a]) 0" by (simp add: no_table_def is_table_bits)
  let ?t = "write_pte (pte_slot t1 (PX 1 a)) 0 u"
  note wl = write_leaf [OF k(2) gp tu unat_PX [of 1 a] old new]
  have "uvmunmap_loop pt a lim True s = uvmunmap_loop pt (a + 2097152) lim True ?t"
    using a(2) w(1,3) nz [OF w(2)] k(1) by (subst uvmunmap_loop.simps) (simp add: read_pte_def)
  moreover have "super_pool ?t (PTE2PA e # ps)" using k(3) super_pool_cong [of ?t u "PTE2PA e # ps"] by (simp add: write_pte_def)
  moreover have "lookup (mem ?t) pt x = (if in_tile a 2097152 x then None else lookup (mem s) pt x)" if "x < MAXVA" for x
    using path_super [OF a(1) l(1) that] wl(3) k(6) by (simp add: set_entry_def)
  moreover have "mem ?t x = mem s x" if "PGROUNDDOWN x \<notin> tables (mem s) pt" "\<not> in_superpage (PTE2PA e) x" for x
  proof -
    have "PGROUNDDOWN x \<noteq> t1" using that(1) t1 by metis
    then show ?thesis using wl(4) k(7) [OF that(2)] by simp
  qed
  moreover have "kend ?t = kend s" using k(4) by (simp add: write_pte_def)
  ultimately show thesis using wl(1,2) k(5) by (intro that [of ?t]) (simp_all add: unmapped_def)
qed

section \<open>The loop\<close>

lemma unat_tile_add: "unat (a :: uint64) + n \<le> 274877906944 \<Longrightarrow> unat (a + of_nat n) = unat a + n"
  by (rule unat_add_of_nat64) simp

lemma tiled_cong:
  assumes "tiled m pt a ts" "unat a + tiles_size ts \<le> 274877906944"
    and "\<And>x. x < MAXVA \<Longrightarrow> in_tile a (tiles_size ts) x \<Longrightarrow> lookup m' pt x = lookup m pt x"
  shows "tiled m' pt a ts"
  using assms
proof (induction ts arbitrary: a)
  case (Cons t ts)
  let ?n = "tile_size t"
  have pos: "0 < ?n" by (cases t) simp_all
  have a: "unat (a + of_nat ?n) = unat a + ?n" using Cons.prems(2) by (intro unat_tile_add) simp
  have "a < MAXVA" using Cons.prems(2) pos by (simp add: word_less_nat_alt)
  then have "lookup m' pt a = lookup m pt a" using Cons.prems(3) pos by (simp add: in_tile_def)
  then have "tile_at m' pt a t" using Cons.prems(1) by (cases t) simp_all
  moreover have "tiled m' pt (a + of_nat ?n) ts"
    using Cons.prems a by (intro Cons.IH) (simp_all add: in_tile_def)
  ultimately show ?case by simp
qed simp

lemma unmapped_trans:
  assumes u: "unmapped s pt a [t] u" and v: "unmapped u pt (a + of_nat (tile_size t)) ts v" and a: "unat a + tiles_size (t # ts) \<le> 274877906944"
  shows "unmapped s pt a (t # ts) v"
proof -
  have n: "unat (a + of_nat (tile_size t)) = unat a + tile_size t" using a by (intro unat_tile_add) simp
  have "in_tile a (tiles_size (t # ts)) x \<longleftrightarrow> in_tile a (tile_size t) x \<or> in_tile (a + of_nat (tile_size t)) (tiles_size ts) x" for x
    by (auto simp: in_tile_def n)
  then show ?thesis using u v by (cases t) (auto simp: unmapped_def)
qed

lemma owned_tiles_step:
  assumes "owned_tiles s pt fl ps (t # ts)" "tables (mem u) pt = tables (mem s) pt" "kend u = kend s"
  shows "owned_tiles s pt fl ps [t]" "owned_tiles u pt (small_frames [t] @ fl) (super_frames [t] @ ps) ts"
  using assms phys_page_cong [OF assms(3)] by (cases t; auto simp: owned_tiles_def)+

lemma tile_aligned:
  assumes "page_aligned a" "unat a + tile_size t \<le> 274877906944"
  shows "page_aligned (a + of_nat (tile_size t))"
proof -
  have "tile_size t mod 4096 = 0" by (cases t) simp_all
  then show ?thesis using assms unat_tile_add [OF assms(2)] by (simp add: page_aligned_nat mod_add_eq [of "unat a" 4096, symmetric])
qed

lemma unmap_tile:
  fixes s :: "'z kmem_scheme"
  assumes st: "pt_state s pt fl" "below_pool s pt fl" "super_pool s ps" and own: "owned_tiles s pt fl ps [t]"
    and a: "a < MAXVA" "page_aligned a" "a < lim" and e: "tile_at (mem s) pt a t"
  obtains u where "uvmunmap_loop pt a lim True s = uvmunmap_loop pt (a + of_nat (tile_size t)) lim True u"
    "pt_state u pt (small_frames [t] @ fl)" "super_pool u (super_frames [t] @ ps)" "unmapped s pt a [t] u"
proof (cases t)
  case (Small e')
  show thesis by (rule unmap_small [OF st(1,3) own [unfolded Small] a e [unfolded Small]]) (rule that; simp add: Small)
next
  case (Super e')
  show thesis by (rule unmap_super [OF st own [unfolded Super] a(1,3) e [unfolded Super]]) (rule that; simp add: Super)
qed

lemma uvmunmap_tiles:
  fixes s :: "'z kmem_scheme"
  assumes "pt_state s pt fl" "below_pool s pt fl" "super_pool s ps" "owned_tiles s pt fl ps ts" "page_aligned a"
    "unat a + tiles_size ts \<le> 274877906944" "tiled (mem s) pt a ts" "unat lim \<le> unat a + tiles_size ts"
    "ts \<noteq> [] \<longrightarrow> unat a + tiles_size (butlast ts) < unat lim"
  shows "\<exists>t. uvmunmap_loop pt a lim True s = Done () t \<and> pt_state t pt (rev (small_frames ts) @ fl) \<and>
    super_pool t (rev (super_frames ts) @ ps) \<and> unmapped s pt a ts t"
  using assms
proof (induction ts arbitrary: a s fl ps)
  case Nil
  then have "\<not> a < lim" by (simp add: word_less_nat_alt)
  then show ?case using Nil.prems by (auto simp: uvmunmap_loop.simps unmapped_def in_tile_def)
next
  case (Cons t ts)
  let ?a = "a + of_nat (tile_size t)"
  have pos: "0 < tile_size t" by (cases t) simp_all
  have na: "unat ?a = unat a + tile_size t" using Cons.prems(6) by (intro unat_tile_add) simp
  have aM: "a < MAXVA" using Cons.prems(6) pos by (simp add: word_less_nat_alt)
  have lim: "a < lim" using Cons.prems(9) by (simp add: word_less_nat_alt)
  have ta: "tile_at (mem s) pt a t" using Cons.prems(7) by simp
  obtain u where u: "uvmunmap_loop pt a lim True s = uvmunmap_loop pt ?a lim True u"
      "pt_state u pt (small_frames [t] @ fl)" "super_pool u (super_frames [t] @ ps)" "unmapped s pt a [t] u"
    by (rule unmap_tile [OF Cons.prems(1-3) owned_tiles_step(1) [OF Cons.prems(4) refl refl] aM Cons.prems(5) lim ta])
  have tu: "tables (mem u) pt = tables (mem s) pt" "kend u = kend s" using u(4) by (simp_all add: unmapped_def)
  note own = owned_tiles_step(2) [OF Cons.prems(4) tu]
  have low: "below_pool u pt (small_frames [t] @ fl)"
    using Cons.prems(2,4) tu(1) by (cases t) (auto simp: below_pool_def owned_tiles_def)
  have til: "tiled (mem u) pt ?a ts"
    by (rule tiled_cong [of "mem s"]) (use Cons.prems(6,7) u(4) na in \<open>auto simp: unmapped_def in_tile_def\<close>)
  have al: "page_aligned ?a" by (rule tile_aligned [OF Cons.prems(5)]) (use Cons.prems(6) in simp)
  have l: "unat ?a + tiles_size ts \<le> 274877906944" "unat lim \<le> unat ?a + tiles_size ts" using Cons.prems(6,8) na by simp_all
  have b: "ts \<noteq> [] \<longrightarrow> unat ?a + tiles_size (butlast ts) < unat lim" using Cons.prems(9) na by auto
  obtain v where v: "uvmunmap_loop pt ?a lim True u = Done () v" "pt_state v pt (rev (small_frames ts) @ small_frames [t] @ fl)"
      "super_pool v (rev (super_frames ts) @ super_frames [t] @ ps)" "unmapped u pt ?a ts v"
    using Cons.IH [OF u(2) low u(3) own al l(1) til l(2) b] by blast
  have eq: "rev (small_frames ts) @ small_frames [t] @ fl = rev (small_frames (t # ts)) @ fl"
    "rev (super_frames ts) @ super_frames [t] @ ps = rev (super_frames (t # ts)) @ ps" by (cases t; simp)+
  show ?case using u(1) v(1) v(2,3) [unfolded eq] unmapped_trans [OF u(4) v(4) Cons.prems(6)] by (intro exI [of _ v]) (simp only: simp_thms)
qed

section \<open>Properties\<close>

text \<open>
  C3. \<^verbatim>\<open>uvmunmap\<close> with \<^verbatim>\<open>do_free\<close> on a range that begins at the first address of a page of 4096 bytes or of a superpage and whose pages and superpages are mapped, once
  each, to allocated memory never panics. It removes exactly the mappings of the pages and superpages that the range
  touches: when the range ends inside a superpage, the whole superpage goes. The frames of the pages are put on the free list and the superpages into
  their pool, in this order; all table pages and all other translations stay, and no byte is written outside the table pages
  and the freed memory.
\<close>

theorem uvmunmap_correct:
  fixes s :: "'z kmem_scheme"
  assumes "pt_state s pt fl" "below_pool s pt fl" "super_pool s ps" "page_aligned va" "tiled (mem s) pt va ts" "owned_tiles s pt fl ps ts"
    "unat va + tiles_size ts \<le> 274877906944" "4096 * n \<le> tiles_size ts" "ts \<noteq> [] \<longrightarrow> tiles_size (butlast ts) < 4096 * n"
  shows "\<exists>t. uvmunmap pt va (of_nat n) True s = Done () t \<and>
    pt_state t pt (rev (small_frames ts) @ fl) \<and> super_pool t (rev (super_frames ts) @ ps) \<and> tables (mem t) pt = tables (mem s) pt \<and>
    (\<forall>x<MAXVA. lookup (mem t) pt x = (if in_tile va (tiles_size ts) x then None else lookup (mem s) pt x)) \<and>
    (\<forall>x. PGROUNDDOWN x \<notin> tables (mem s) pt \<union> set (small_frames ts) \<and> (\<forall>p\<in>set (super_frames ts). \<not> in_superpage p x) \<longrightarrow> mem t x = mem s x)"
proof -
  let ?l = "va + 4096 * of_nat n"
  have l: "unat ?l = unat va + 4096 * n" using assms(7,8) by (intro unat_page_add) simp
  have "uvmunmap pt va (of_nat n) True s = uvmunmap_loop pt va ?l True s"
    using assms(4) by (simp add: uvmunmap_def page_aligned_def mult.commute)
  moreover have "unat ?l \<le> unat va + tiles_size ts" "ts \<noteq> [] \<longrightarrow> unat va + tiles_size (butlast ts) < unat ?l" using assms(8,9) l by simp_all
  moreover from uvmunmap_tiles [OF assms(1-3,6,4,7,5) this] obtain t where "uvmunmap_loop pt va ?l True s = Done () t"
      "pt_state t pt (rev (small_frames ts) @ fl)" "super_pool t (rev (super_frames ts) @ ps)" "unmapped s pt va ts t" by blast
  ultimately show ?thesis unfolding unmapped_def by (intro exI [of _ t]) simp
qed

text \<open>An address space with a superpage at \<open>0x200000\<close>, followed by a page of 4096 bytes.\<close>

abbreviation (input) example_super :: pte where
  "example_super \<equiv> PA2PTE 0x80800000 OR 0x16 OR 1"

abbreviation (input) example_small :: pte where
  "example_small \<equiv> PA2PTE 0x80025000 OR 0x16 OR 1"

lemma example_superpage:
  obtains s :: kmem and fl where "pt_state s 0x80024000 (0x80022000 # 0x80023000 # fl)" "fl = []" "tables (mem s) 0x80024000 = {0x80024000, 0x80021000}"
    "super_pool s []" "kend s = 0x80020000"
    "\<And>x. x < MAXVA \<Longrightarrow> lookup (mem s) 0x80024000 x = (if in_tile 0x200000 2097152 x then Some (1, example_super) else None)"
proof -
  let ?pt = "0x80024000 :: addr" and ?s = "example_state\<lparr>superpages := replicate 60 0\<rparr>" and ?i = "PX 2 0x200000" and ?j = "PX 1 0x200000" and ?u = "0x80021000 :: addr"
  let ?fl = "[0x80022000, 0x80023000 :: addr]"
  have st: "pt_state ?s ?pt (?u # ?fl)" using example_pt_state(1) by (simp add: pt_state_def kmem_pool_def phys_page_def)
  have tb: "tables (mem ?s) ?pt = {?pt}" using empty_table(1) [of ?pt "mem example_state"] example_zero by (simp add: page_aligned_def)
  have gp: "good_path ([] @ [?i])" "good_path [?i]" "good_path [?i, ?j]" by (simp_all add: good_path_def unat_PX)
  have z: "load64 (mem ?s) (pte_slot ?pt ?i) = 0"
    using load64_zeroed [of ?pt ?i "mem example_state"] example_zero unat_PX [of 2 "0x200000"] by (simp add: page_aligned_def)
  have inval: "\<not> bit (load64 (mem ?s) (pte_slot ?pt ?i)) 0" unfolding z by simp
  obtain s1 where k: "kalloc ?s = Done ?u s1" by (simp add: kalloc_def Let_def example_state_def)
  let ?s2 = "write_pte (pte_slot ?pt ?i) (PA2PTE ?u OR PTE_V) (zero_page ?u s1)"
  have root: "tbl (mem ?s) ?pt [] = Some ?pt" by simp
  note it = install_table [OF st gp(1) root inval k]
  have g: "pt_state ?s2 ?pt ?fl" "tables (mem ?s2) ?pt = {?pt, ?u}" "lookup (mem ?s2) ?pt = lookup (mem ?s) ?pt"
      "?s2 = ?s\<lparr>mem := mem ?s2, freelist := freelist ?s2\<rparr>" "tbl (mem ?s2) ?pt [?i] = Some ?u"
    using it(2,3) tb by (auto simp: grows_def table_step_def)
  have inj: "pt_inj (mem ?s2) ?pt" using g(1) by (simp add: pt_state_def)
  have "tbl (mem ?s2) ?pt [?i, ?j] = None"
  proof (rule ccontr)
    assume "tbl (mem ?s2) ?pt [?i, ?j] \<noteq> None"
    then obtain c where c: "tbl (mem ?s2) ?pt [?i, ?j] = Some c" by blast
    then have "c = ?pt \<or> c = ?u" using tblI [OF gp(3)] g(2) by auto
    moreover have "tbl (mem ?s2) ?pt [] = Some ?pt" by simp
    ultimately have "[?i, ?j] = [] \<or> [?i, ?j] = [?i]" using inj gp(2,3) c g(5) unfolding pt_inj_def by (metis good_path_Nil)
    then show False by simp
  qed
  moreover have "tbl (mem ?s2) ?pt ([?i] @ [?j]) = child (mem ?s2) ?u ?j" unfolding tbl_snoc g(5) by simp
  ultimately have old: "no_table ([?i] @ [?j]) (load64 (mem ?s2) (pte_slot ?u ?j))" by (auto simp: no_table_def child_def Let_def split: if_splits)
  have new: "no_table ([?i] @ [?j]) example_super" by (simp add: no_table_def is_table_bits bit_or_iff)
  let ?s3 = "write_pte (pte_slot ?u ?j) example_super ?s2"
  note wl = write_leaf [OF g(1) gp(2) g(5) unat_PX [of 1 "0x200000"] old new]
  have f: "superpages ?s2 = replicate 60 0" "nfree ?s2 = 0" "kend ?s2 = 0x80020000" by (subst g(4), simp add: example_state_def)+
  have "super_pool ?s3 []" using f(1,2) by (simp add: super_pool_def write_pte_def)
  moreover have "lookup (mem ?s3) ?pt x = (if in_tile 0x200000 2097152 x then Some (1, example_super) else None)" if "x < MAXVA" for x
  proof -
    have "prefix [?i, ?j] (va_path x) \<longleftrightarrow> in_tile 0x200000 2097152 x" by (rule path_super [OF _ _ that]) simp_all
    moreover have "bit example_super 0" by (simp add: bit_or_iff)
    ultimately show ?thesis using wl(3) g(3) example_pt_state(2) [of x] by (simp add: set_entry_def)
  qed
  ultimately show thesis using wl(1,2) g(2) f(3) by (intro that [of ?s3 "[]"]) (simp_all add: write_pte_def)
qed

lemma example_tiles:
  obtains s :: kmem and fl where "pt_state s 0x80024000 fl" "below_pool s 0x80024000 fl" "super_pool s []"
    "tiled (mem s) 0x80024000 0x200000 [Super example_super, Small example_small]"
    "owned_tiles s 0x80024000 fl [] [Super example_super, Small example_small]"
proof (rule example_superpage)
  fix s :: kmem and gl :: "addr list"
  let ?pt = "0x80024000 :: addr" and ?fl = "(0x80022000 :: addr) # 0x80023000 # gl"
  assume a: "pt_state s ?pt ?fl" "gl = []" "tables (mem s) ?pt = {0x80024000, 0x80021000}" "super_pool s []" "kend s = 0x80020000"
    "\<And>x. x < MAXVA \<Longrightarrow> lookup (mem s) ?pt x = (if in_tile 0x200000 2097152 x then Some (1, example_super) else None)"
  have free: "lookup (mem s) ?pt x = None" if "x < MAXVA" "in_pages 0x400000 (Suc 0) x" for x
    using a(6) [OF that(1)] that(2) by (simp add: in_pages_def in_tile_def)
  have al: "page_aligned (0x400000 :: uint64)" by (simp add: page_aligned_def)
  have le: "unat (0x400000 :: uint64) + 4096 * Suc 0 \<le> 274877906944" by simp
  have nl: "\<not> length ?fl < 2 * Suc 0" by simp
  obtain us fl t where t: "?fl = us @ fl" "table_step s ?pt us fl t" "maps_pages (mem s) ?pt 0x400000 (Suc 0) 0x80025000 22 (mem t)"
    using mappages_loop_spec [OF a(1) al le free, of "0x80025000" 22] nl by blast
  have st: "pt_state t ?pt fl" "tables (mem t) ?pt = {0x80024000, 0x80021000} \<union> set us" "superpages t = superpages s" "nfree t = nfree s" "kend t = 0x80020000"
    using t(2) a(3,5) unfolding table_step_def by (auto dest: arg_cong [of _ _ superpages] arg_cong [of _ _ nfree] arg_cong [of _ _ kend])
  have sub: "set us \<subseteq> {0x80022000, 0x80023000}" "set fl \<subseteq> {0x80022000, 0x80023000}" using arg_cong [OF t(1), of set] a(2) by auto
  have base: "unat SUPERBASE = 2155872256" by (simp add: SUPERBASE_eq)
  have low: "below_pool t ?pt fl" using sub unfolding below_pool_def st(2) by (auto simp: word_less_nat_alt base)
  have sp: "super_pool t []" using a(4) super_pool_cong [OF st(3,4)] by simp
  have look: "lookup (mem t) ?pt 0x200000 = Some (1, example_super)" "lookup (mem t) ?pt 0x400000 = Some (0, example_small)"
    using t(3) a(6) [of "0x200000"] PGROUNDDOWN_of_aligned [OF al] by (simp_all add: maps_pages_def in_pages_def in_tile_def or.assoc)
  have fl: "PTE_FLAGS example_small = 23" by (simp add: PTE_FLAGS_def PA2PTE_def)
  have pa: "PTE2PA example_small = 0x80025000" "PTE2PA example_super = 0x80800000"
    using PTE2PA_PA2PTE [of "0x80025000" 23] PTE2PA_PA2PTE [of "0x80800000" 23] by (simp_all add: page_aligned_def or.assoc)
  have til: "tiled (mem t) ?pt 0x200000 [Super example_super, Small example_small]"
    using look fl by (simp add: bit_or_iff)
  have "phys_page t 0x80025000" using st(5) by (simp add: phys_page_def page_aligned_def)
  moreover have "(0x80025000 :: addr) < SUPERBASE" by (simp add: SUPERBASE_eq)
  moreover have "super_page 0x80800000" by (simp add: super_page_nat)
  ultimately have own: "owned_tiles t ?pt fl [] [Super example_super, Small example_small]"
    using sub unfolding owned_tiles_def st(2) small_frames.simps super_frames.simps pa by auto
  show thesis using st(1) low sp til own by (rule that)
qed

theorem uvmunmap_correct_witness:
  "\<exists>(s :: kmem) fl t. tiled (mem s) 0x80024000 0x200000 [Super example_super, Small example_small] \<and>
    uvmunmap 0x80024000 0x200000 (of_nat 513) True s = Done () t \<and> pt_state t 0x80024000 (0x80025000 # fl) \<and> super_pool t [0x80800000] \<and>
    lookup (mem t) 0x80024000 0x3ff000 = None \<and> lookup (mem t) 0x80024000 0x400000 = None"
proof (rule example_tiles)
  fix s :: kmem and fl
  let ?ts = "[Super example_super, Small example_small]"
  assume a: "pt_state s 0x80024000 fl" "below_pool s 0x80024000 fl" "super_pool s []" "tiled (mem s) 0x80024000 0x200000 ?ts"
    "owned_tiles s 0x80024000 fl [] ?ts"
  have pa: "PTE2PA example_small = 0x80025000" "PTE2PA example_super = 0x80800000"
    using PTE2PA_PA2PTE [of "0x80025000" 23] PTE2PA_PA2PTE [of "0x80800000" 23] by (simp_all add: page_aligned_def or.assoc)
  have sz: "page_aligned (0x200000 :: uint64)" "unat (0x200000 :: uint64) + tiles_size ?ts \<le> 274877906944" "4096 * 513 \<le> tiles_size ?ts"
      "?ts \<noteq> [] \<longrightarrow> tiles_size (butlast ?ts) < 4096 * 513" by (simp_all add: page_aligned_def)
  from uvmunmap_correct [OF a(1-3) sz(1) a(4,5) sz(2-4)] obtain t where t: "uvmunmap 0x80024000 0x200000 (of_nat 513) True s = Done () t"
      "pt_state t 0x80024000 (rev (small_frames ?ts) @ fl)" "super_pool t (rev (super_frames ?ts) @ [])"
      "\<forall>x<MAXVA. lookup (mem t) 0x80024000 x = (if in_tile 0x200000 (tiles_size ?ts) x then None else lookup (mem s) 0x80024000 x)" by blast
  have "lookup (mem t) 0x80024000 0x3ff000 = None" "lookup (mem t) 0x80024000 0x400000 = None" using t(4) by (simp_all add: in_tile_def)
  moreover have "pt_state t 0x80024000 (0x80025000 # fl)" "super_pool t [0x80800000]"
    using t(2,3) unfolding small_frames.simps super_frames.simps pa by simp_all
  ultimately show ?thesis using a(4) t(1) by blast
qed

end
