(* ===== verification/FsBlocks.thy ===== *)
theory FsBlocks
  imports Fs
begin

text \<open>
  The block allocator of \<^verbatim>\<open>fs.c\<close>: what \<^verbatim>\<open>balloc\<close>, \<^verbatim>\<open>bfree\<close> and \<^verbatim>\<open>bzero\<close> do to the free map and to the
  contents of the blocks, inside a transaction.
\<close>

section \<open>The bitmap\<close>

lemma bitmap_bit_iff: "bitmap_bit d bi \<longleftrightarrow> bit (byte_at d (bi div 8)) (bi mod 8)"
  by (simp add: bitmap_bit_def push_bit_of_1 and_exp_eq_0_iff_not_bit)

lemma byte_at_upd: "i < length d \<Longrightarrow> byte_at (d[i := x]) j = (if j = i then x else byte_at d j)"
  by (auto simp: byte_at_def)

definition set_bit_at :: "nat \<Rightarrow> block \<Rightarrow> block" where
  "set_bit_at bi d = d[bi div 8 := d ! (bi div 8) OR push_bit (bi mod 8) 1]"

definition clear_bit_at :: "nat \<Rightarrow> block \<Rightarrow> block" where
  "clear_bit_at bi d = d[bi div 8 := d ! (bi div 8) AND NOT (push_bit (bi mod 8) 1)]"

lemma set_bit_at:
  assumes "bi < 8 * length d"
  shows "bitmap_bit (set_bit_at bi d) bj \<longleftrightarrow> bj = bi \<or> bitmap_bit d bj" "length (set_bit_at bi d) = length d"
proof -
  have i: "bi div 8 < length d" using assms by auto
  then have at: "d ! (bi div 8) = byte_at d (bi div 8)" by (simp add: byte_at_def)
  have e: "bj = bi \<longleftrightarrow> bj div 8 = bi div 8 \<and> bj mod 8 = bi mod 8" by (metis div_mult_mod_eq)
  have "bj mod 8 < LENGTH(8)" by simp
  then show "bitmap_bit (set_bit_at bi d) bj \<longleftrightarrow> bj = bi \<or> bitmap_bit d bj"
    using i by (auto simp: bitmap_bit_iff set_bit_at_def byte_at_upd e at bit_or_iff push_bit_of_1 bit_exp_iff)
  show "length (set_bit_at bi d) = length d" by (simp add: set_bit_at_def)
qed

lemma clear_bit_at:
  assumes "bi < 8 * length d"
  shows "bitmap_bit (clear_bit_at bi d) bj \<longleftrightarrow> bj \<noteq> bi \<and> bitmap_bit d bj" "length (clear_bit_at bi d) = length d"
proof -
  have i: "bi div 8 < length d" using assms by auto
  then have at: "d ! (bi div 8) = byte_at d (bi div 8)" by (simp add: byte_at_def)
  have e: "bj = bi \<longleftrightarrow> bj div 8 = bi div 8 \<and> bj mod 8 = bi mod 8" by (metis div_mult_mod_eq)
  have "bj mod 8 < LENGTH(8)" by simp
  then show "bitmap_bit (clear_bit_at bi d) bj \<longleftrightarrow> bj \<noteq> bi \<and> bitmap_bit d bj"
    using i by (auto simp: bitmap_bit_iff clear_bit_at_def byte_at_upd e at bit_and_iff bit_not_iff push_bit_of_1 bit_exp_iff)
  show "length (clear_bit_at bi d) = length d" by (simp add: clear_bit_at_def)
qed

text \<open>The free map as the file system sees it: is block \<open>b\<close> marked as used?\<close>

definition used :: "superblock \<Rightarrow> (uint \<Rightarrow> block) \<Rightarrow> nat \<Rightarrow> bool" where
  "used sp C b \<longleftrightarrow> bitmap_bit (C (BBLOCK (of_nat b) sp)) (b mod BPB)"

text \<open>
  The blocks of the free map are whole blocks, outside the log; free blocks are outside the
  log and the free map.
\<close>

definition bitmap_ok :: "superblock \<Rightarrow> uint \<Rightarrow> (uint \<Rightarrow> block) \<Rightarrow> bool" where
  "bitmap_ok sp start C \<longleftrightarrow>
     (\<forall>b < unat (sb_size sp). length (C (BBLOCK (of_nat b) sp)) = BSIZE \<and> BBLOCK (of_nat b) sp \<notin> log_area start) \<and>
     (\<forall>b < unat (sb_size sp). \<not> used sp C b \<longrightarrow>
        of_nat b \<notin> log_area start \<and> (\<forall>c < unat (sb_size sp). of_nat b \<noteq> BBLOCK (of_nat c) sp))"

lemma BBLOCK_eq:
  assumes "b < 2 ^ 32" "c < 2 ^ 32"
  shows "BBLOCK (of_nat b) sp = BBLOCK (of_nat c) sp \<longleftrightarrow> b div BPB = c div BPB"
proof -
  have u: "unat ((of_nat x :: uint) div of_nat BPB) = x div BPB" if "x < 2 ^ 32" for x
    using that by (simp add: unat_div unat_of_nat take_bit_nat_eq_self)
  have "BBLOCK (of_nat b) sp = BBLOCK (of_nat c) sp \<longleftrightarrow> (of_nat b :: uint) div of_nat BPB = of_nat c div of_nat BPB"
    by (simp add: BBLOCK_def)
  also have "\<dots> \<longleftrightarrow> unat ((of_nat b :: uint) div of_nat BPB) = unat ((of_nat c :: uint) div of_nat BPB)"
    by (rule word_unat_eq_iff)
  finally show ?thesis using u [OF assms(1)] u [OF assms(2)] by simp
qed

section \<open>The operations\<close>

lemma bzero_spec:
  fixes s :: "'z fsst_scheme"
  assumes tx: "tx s L H" and b: "bno \<notin> log_area (log_start s)" "\<And>c. c \<in> H \<Longrightarrow> blockno (bufs s ! c) \<noteq> bno"
    and room: "length L < 29" "length L + card H < 30"
  obtains t where "bzero (log_dev s) bno s = Done () t" "tx t (log_add bno L) H" "same_tx s t"
    "content (log_dev s) t = (content (log_dev s) s)(bno := replicate BSIZE 0)"
    "\<And>c. c \<in> H \<Longrightarrow> blockno (bufs t ! c) = blockno (bufs s ! c) \<and> bdata (bufs t ! c) = bdata (bufs s ! c)"
proof -
  obtain bp u where u: "bread (log_dev s) bno s = Done bp u" "bp < 30" "bp \<notin> H" "tx u L (insert bp H)" "same_tx s u"
    "blockno (bufs u ! bp) = bno" "content (log_dev s) u = content (log_dev s) s"
    "\<And>c. c \<in> H \<Longrightarrow> bufs u ! c = bufs s ! c"
    by (rule tx_bread [OF tx b(2) room(2)]) auto
  note f = same_txD [OF u(5)]
  obtain t where t: "kbind (log_write bp (upd_data bp (\<lambda>_. replicate BSIZE 0) u)) (\<lambda>_ s. brelse bp s) = Done () t"
    "tx t (log_add bno L) H" "same_tx u t"
    "content (log_dev s) t = (content (log_dev s) u)(bno := replicate BSIZE 0)"
    "\<And>c. c < 30 \<Longrightarrow> blockno (bufs t ! c) = blockno (bufs u ! c)"
    "\<And>c. c < 30 \<Longrightarrow> c \<noteq> bp \<Longrightarrow> bdata (bufs t ! c) = bdata (bufs u ! c)"
    by (rule tx_log_release [OF u(4,3,6) b(1) [folded f(2)] room(1), where f = "\<lambda>_. replicate BSIZE 0", unfolded f]) blast
  have oth: "c < 30 \<and> c \<noteq> bp" if "c \<in> H" for c using that u(3) held_buffer(1) [OF txD(2) [OF tx]] by blast
  show thesis
    by (rule that [OF _ t(2) same_tx_trans [OF u(5) t(3)]])
      (use u(1) t(1) oth in \<open>simp_all add: bzero_def t(4-6) u(7,8)\<close>)
qed

text \<open>A free map that marks one more block, and the block zeroed.\<close>

definition allocated :: "superblock \<Rightarrow> nat \<Rightarrow> (uint \<Rightarrow> block) \<Rightarrow> uint \<Rightarrow> block" where
  "allocated sp b C = C(BBLOCK (of_nat b) sp := set_bit_at (b mod BPB) (C (BBLOCK (of_nat b) sp)), of_nat b := replicate BSIZE 0)"

lemma find_upt_split:
  assumes "b \<le> m" "m \<le> n"
  shows "find P [b..<n] = (case find P [b..<m] of Some x \<Rightarrow> Some x | None \<Rightarrow> find P [m..<n])"
proof -
  have "[b..<n] = [b..<m] @ [m..<n]" using assms by (metis le_add_diff_inverse upt_add_eq_append)
  moreover have "find P (xs @ ys) = (case find P xs of Some x \<Rightarrow> Some x | None \<Rightarrow> find P ys)" for xs ys :: "nat list"
    by (induction xs) auto
  ultimately show ?thesis by simp
qed

lemma find_upt_shift: "find P [b..<b + n] = map_option ((+) b) (find (\<lambda>i. P (b + i)) [0..<n])"
proof -
  have "[b..<b + n] = map ((+) b) [0..<n]" by (rule nth_equalityI) simp_all
  moreover have "find P (map f xs) = map_option f (find (P \<circ> f) xs)" for f :: "nat \<Rightarrow> nat" and xs
    by (induction xs) auto
  ultimately show ?thesis by (simp add: o_def)
qed

lemma balloc_scan_find:
  assumes "b mod BPB = 0" "b \<le> sz" "sz \<le> unat (sb_size sp)"
  shows "map_option ((+) b) (balloc_scan (C (BBLOCK (of_nat b) sp)) b sz) =
    find (\<lambda>x. \<not> used sp C x) [b..<min (b + BPB) sz]"
proof -
  have m: "min (b + BPB) sz = b + min BPB (sz - b)" using assms(2) by simp
  have lt: "sz < 2 ^ 32" using le_less_trans [OF assms(3) unsigned_less] by simp
  have "used sp C (b + i) = bitmap_bit (C (BBLOCK (of_nat b) sp)) i" if "i < min BPB (sz - b)" for i
  proof -
    have i: "i < 8192" "b + i < 2 ^ 32" using that lt by auto
    obtain k where k: "b = 8192 * k" using assms(1) by auto
    have "(b + i) div 8192 = b div 8192" "(b + i) mod 8192 = i" using i(1) by (simp_all add: k)
    then show ?thesis using BBLOCK_eq [of "b + i" b sp] i(2) by (simp add: used_def)
  qed
  then have "find (\<lambda>i. \<not> used sp C (b + i)) [0..<min BPB (sz - b)] =
      find (\<lambda>i. \<not> bitmap_bit (C (BBLOCK (of_nat b) sp)) i) [0..<min BPB (sz - b)]"
    by (intro find_cong) auto
  then show ?thesis unfolding m find_upt_shift balloc_scan_def by simp
qed

lemma same_tx_fs: "same_tx s t \<Longrightarrow> sb t = sb s \<and> inodes t = inodes s"
  by (auto simp: same_tx_def)

text \<open>The buffers \<open>H\<close> keep their blocks and data.\<close>

definition kept :: "nat set \<Rightarrow> 'z bio_scheme \<Rightarrow> 'z bio_scheme \<Rightarrow> bool" where
  "kept H s t \<longleftrightarrow> (\<forall>c\<in>H. blockno (bufs t ! c) = blockno (bufs s ! c) \<and> bdata (bufs t ! c) = bdata (bufs s ! c))"

lemma kept_trans: "kept H s t \<Longrightarrow> kept H t u \<Longrightarrow> kept H s u"
  by (simp add: kept_def)

text \<open>When blocks may be allocated: the buffers held are not blocks of the free map, nor free blocks.\<close>

definition alloc_pre :: "'z fsst_scheme \<Rightarrow> uint list \<Rightarrow> nat set \<Rightarrow> bool" where
  "alloc_pre s L H \<longleftrightarrow> tx s L H \<and> bitmap_ok (sb s) (log_start s) (content (log_dev s) s) \<and>
     (\<forall>c\<in>H. \<forall>x < unat (sb_size (sb s)). blockno (bufs s ! c) \<noteq> BBLOCK (of_nat x) (sb s) \<and>
        (\<not> used (sb s) (content (log_dev s) s) x \<longrightarrow> blockno (bufs s ! c) \<noteq> of_nat x))"

lemma alloc_preD:
  assumes "alloc_pre s L H"
  shows "tx s L H" "bitmap_ok (sb s) (log_start s) (content (log_dev s) s)"
    "x < unat (sb_size (sb s)) \<Longrightarrow> c \<in> H \<Longrightarrow> blockno (bufs s ! c) \<noteq> BBLOCK (of_nat x) (sb s)"
    "x < unat (sb_size (sb s)) \<Longrightarrow> c \<in> H \<Longrightarrow> \<not> used (sb s) (content (log_dev s) s) x \<Longrightarrow> blockno (bufs s ! c) \<noteq> of_nat x"
  using assms by (auto simp: alloc_pre_def)

lemma alloc_pre_same:
  assumes "alloc_pre s L H" "tx t L H" "same_tx s t" "content (log_dev s) t = content (log_dev s) s" "kept H s t"
  shows "alloc_pre t L H"
  using assms same_txD(1,2) [OF assms(3)] same_tx_fs [OF assms(3)] by (simp add: alloc_pre_def kept_def)

lemma bitmap_okD:
  assumes "bitmap_ok sp start C" "b < unat (sb_size sp)"
  shows "length (C (BBLOCK (of_nat b) sp)) = 1024" "BBLOCK (of_nat b) sp \<notin> log_area start"
    "\<not> used sp C b \<Longrightarrow> of_nat b \<notin> log_area start"
    "\<not> used sp C b \<Longrightarrow> c < unat (sb_size sp) \<Longrightarrow> of_nat b \<noteq> BBLOCK (of_nat c) sp"
  using assms by (auto simp: bitmap_ok_def)

text \<open>One step of \<^verbatim>\<open>balloc\<close> that finds a free bit.\<close>

lemma balloc_found:
  fixes s :: "'z fsst_scheme"
  defines "dev \<equiv> log_dev s" and "C \<equiv> content (log_dev s) s" and "sp \<equiv> sb s"
  assumes pre: "alloc_pre s L H" and room: "length L < 28" "length L + card H < 29"
    and bp: "bread dev (BBLOCK (of_nat x) sp) s = Done bp u" "bp < 30" "bp \<notin> H" "tx u L (insert bp H)" "same_tx s u"
      "blockno (bufs u ! bp) = BBLOCK (of_nat x) sp" "bdata (bufs u ! bp) = C (BBLOCK (of_nat x) sp)"
      "content dev u = C" "\<And>c. c \<in> H \<Longrightarrow> bufs u ! c = bufs s ! c"
    and x: "x < unat (sb_size sp)" "\<not> used sp C x"
  obtains t where "kbind (log_write bp (upd_data bp (set_bit_at (x mod BPB)) u)) (\<lambda>_ s.
                kbind (brelse bp s) (\<lambda>_ s.
                kbind (bzero dev (of_nat x) s) (\<lambda>_ s. Done (of_nat x :: uint) s))) = Done (of_nat x) t"
    "tx t (log_add (of_nat x) (log_add (BBLOCK (of_nat x) sp) L)) H" "same_tx s t"
    "content dev t = allocated sp x C" "kept H s t"
proof -
  note p = alloc_preD [OF pre, folded C_def sp_def dev_def]
  note bo = bitmap_okD [OF p(2) x(1)]
  let ?B = "BBLOCK (of_nat x) sp" and ?f = "set_bit_at (x mod BPB)"
  note f = same_txD [OF bp(5), folded dev_def]
  have h30: "c < 30 \<and> c \<noteq> bp" if "c \<in> H" for c using that bp(3) held_buffer(1) [OF txD(2) [OF p(1)]] by blast
  obtain v where v: "kbind (log_write bp (upd_data bp ?f u)) (\<lambda>_ s. brelse bp s) = Done () v" "tx v (log_add ?B L) H"
    "same_tx u v" "content dev v = (content dev u)(?B := ?f (bdata (bufs u ! bp)))"
    "\<And>c. c < 30 \<Longrightarrow> blockno (bufs v ! c) = blockno (bufs u ! c)"
    "\<And>c. c < 30 \<Longrightarrow> c \<noteq> bp \<Longrightarrow> bdata (bufs v ! c) = bdata (bufs u ! c)"
    by (rule tx_log_release [OF bp(4,3,6) bo(2) [folded f(2)] _ , where f = ?f, unfolded f]) (use room in auto)
  note sv = same_tx_trans [OF bp(5) v(3)]
  note fv = same_txD [OF sv, folded dev_def]
  have kv: "kept H s v" using h30 by (auto simp: kept_def v(5,6) bp(9))
  have len: "length (log_add ?B L) < 29" "length (log_add ?B L) + card H < 30" using room log_add_simps(2) [of ?B L] by linarith+
  obtain t where t: "bzero dev (of_nat x) v = Done () t" "tx t (log_add (of_nat x) (log_add ?B L)) H" "same_tx v t"
    "content dev t = (content dev v)(of_nat x := replicate BSIZE 0)"
    "\<And>c. c \<in> H \<Longrightarrow> blockno (bufs t ! c) = blockno (bufs v ! c) \<and> bdata (bufs t ! c) = bdata (bufs v ! c)"
    by (rule bzero_spec [OF v(2) _ _ len, of "of_nat x", unfolded fv])
      (use bo(3) [OF x(2)] p(4) [OF x(1) _ x(2)] kv in \<open>auto simp: kept_def\<close>)
  have "kbind (log_write bp (upd_data bp ?f u)) (\<lambda>_ s. kbind (brelse bp s) (\<lambda>_ s.
      kbind (bzero dev (of_nat x) s) (\<lambda>_ s. Done (of_nat x :: uint) s))) = Done (of_nat x) t"
    using v(1) t(1) by (simp flip: kbind_assoc)
  then show thesis
  proof (rule that [OF _ t(2) same_tx_trans [OF sv t(3)]])
    show "content dev t = allocated sp x C" by (simp add: t(4) v(4) bp(7,8) allocated_def)
    show "kept H s t" using kv t(5) by (auto simp: kept_def)
  qed
qed

text \<open>Reading a block that turns out not to be changed.\<close>

lemma tx_read:
  fixes s :: "'z fsst_scheme"
  defines "dev \<equiv> log_dev s" and "C \<equiv> content (log_dev s) s"
  assumes tx: "tx s L H" and nh: "\<And>c. c \<in> H \<Longrightarrow> blockno (bufs s ! c) \<noteq> bno" and room: "length L + card H < 30"
  obtains bp u t where "bread dev bno s = Done bp u" "bp < 30" "bp \<notin> H" "tx u L (insert bp H)" "same_tx s u"
      "blockno (bufs u ! bp) = bno" "bdata (bufs u ! bp) = C bno"
      "content dev u = C" "\<And>c. c \<in> H \<Longrightarrow> bufs u ! c = bufs s ! c"
    "brelse bp u = Done () t" "tx t L H" "same_tx s t" "content dev t = C" "kept H s t"
proof -
  obtain bp u where u: "bread dev bno s = Done bp u" "bp < 30" "bp \<notin> H" "tx u L (insert bp H)" "same_tx s u"
      "blockno (bufs u ! bp) = bno" "bdata (bufs u ! bp) = C bno"
      "content dev u = C" "\<And>c. c \<in> H \<Longrightarrow> bufs u ! c = bufs s ! c"
    unfolding dev_def C_def by (rule tx_bread [OF tx nh room]) auto
  note f = same_txD [OF u(5), folded dev_def]
  have "bno \<in> set L \<or> bdata (bufs u ! bp) = disk s bno"
    using tx_clean [OF tx, of bno] nh u(7) by (auto simp: f C_def)
  then obtain t where t: "brelse bp u = Done () t" "tx t L H" "same_tx u t" "content dev t = content dev u"
    "\<And>c. c < 30 \<Longrightarrow> blockno (bufs t ! c) = blockno (bufs u ! c) \<and> bdata (bufs t ! c) = bdata (bufs u ! c)"
    using tx_release_read [OF u(4,3,6), unfolded f] by metis
  have "c < 30" if "c \<in> H" for c using that held_buffer(1) [OF txD(2) [OF tx]] by blast
  then have "kept H s t" using u(9) t(5) by (simp add: kept_def)
  then show thesis using that [OF u t(1,2) same_tx_trans [OF u(5) t(3)]] t(4) u(8) by simp
qed

lemma find_upt_SomeD: "find P [a..<b] = Some x \<Longrightarrow> P x \<and> a \<le> x \<and> x < b"
  by (auto simp: find_Some_iff)

lemma set_bit_fun: "set_bit_at bi = (\<lambda>d. d[bi div 8 := d ! (bi div 8) OR push_bit (bi mod 8) 1])"
  and clear_bit_fun: "clear_bit_at bi = (\<lambda>d. d[bi div 8 := d ! (bi div 8) AND NOT (push_bit (bi mod 8) 1)])"
  by (simp_all add: fun_eq_iff set_bit_at_def clear_bit_at_def)

lemma balloc_loop_spec:
  fixes s :: "'z fsst_scheme"
  assumes pre: "alloc_pre s L H" and room: "length L < 28" "length L + card H < 29"
    and b: "b mod BPB = 0" "sz = unat (sb_size (sb s))"
  shows "case find (\<lambda>x. \<not> used (sb s) (content (log_dev s) s) x) [b..<sz] of
      None \<Rightarrow> \<exists>t. balloc_loop (log_dev s) sz b s = Done 0 t \<and> tx t L H \<and> same_tx s t \<and>
        content (log_dev s) t = content (log_dev s) s \<and> kept H s t
    | Some x \<Rightarrow> \<exists>t. balloc_loop (log_dev s) sz b s = Done (of_nat x) t \<and>
        tx t (log_add (of_nat x) (log_add (BBLOCK (of_nat x) (sb s)) L)) H \<and> same_tx s t \<and>
        content (log_dev s) t = allocated (sb s) x (content (log_dev s) s) \<and> kept H s t"
  using pre b
proof (induction "sz - b" arbitrary: b s rule: less_induct)
  case less
  note pre = less.prems(1) and b = less.prems(2,3)
  let ?dev = "log_dev s" and ?C = "content (log_dev s) s" and ?sp = "sb s"
  let ?P = "\<lambda>x. \<not> used ?sp ?C x"
  show ?case
  proof (cases "b < sz")
    case False
    then show ?thesis
      using alloc_preD(1) [OF pre] same_tx_refl [of s] by (simp add: balloc_loop.simps kept_def)
  next
    case True
    let ?m = "min (b + 8192) sz" and ?B = "BBLOCK (of_nat b) ?sp"
    have sp: "find ?P [b..<sz] = (case find ?P [b..<?m] of Some x \<Rightarrow> Some x | None \<Rightarrow> find ?P [?m..<sz])"
      using True by (intro find_upt_split) auto
    have nh: "blockno (bufs s ! c) \<noteq> ?B" if "c \<in> H" for c
      using alloc_preD(3) [OF pre _ that, of b] True b(2) by auto
    obtain bp u t where u: "bread ?dev ?B s = Done bp u" "bp < 30" "bp \<notin> H" "tx u L (insert bp H)" "same_tx s u"
      "blockno (bufs u ! bp) = ?B" "bdata (bufs u ! bp) = ?C ?B" "content ?dev u = ?C" "\<And>c. c \<in> H \<Longrightarrow> bufs u ! c = bufs s ! c"
      and t: "brelse bp u = Done () t" "tx t L H" "same_tx s t" "content ?dev t = ?C" "kept H s t"
      by (rule tx_read [OF alloc_preD(1) [OF pre] nh]) (use room in auto)
    note scan = balloc_scan_find [of b sz ?sp ?C, OF _ _ eq_refl [OF b(2)]]
    show ?thesis
    proof (cases "balloc_scan (?C ?B) b sz")
      case None
      then have "find ?P [b..<?m] = None" using scan b(1) True by simp
      moreover have "find ?P [?m..<sz] = find ?P [b + 8192..<sz]" by (cases "b + 8192 \<le> sz") simp_all
      ultimately have fs: "find ?P [b..<sz] = find ?P [b + 8192..<sz]" using sp by simp
      have step: "balloc_loop ?dev sz b s = balloc_loop ?dev sz (b + 8192) t"
        using True u(1) t(1) None by (subst balloc_loop.simps) (simp add: u(7))
      note ft = same_txD [OF t(3)] same_tx_fs [OF t(3)]
      have m8: "(b + 8192) mod 8192 = 0" using b(1) by simp
      have "sz - (b + 8192) < sz - b" using True by simp
      from less.hyps [OF this alloc_pre_same [OF pre t(2-5)] m8]
      have IH: "case find (\<lambda>x. \<not> used (sb t) (content (log_dev t) t) x) [b + 8192..<sz] of
          None \<Rightarrow> \<exists>v. balloc_loop (log_dev t) sz (b + 8192) t = Done 0 v \<and> tx v L H \<and> same_tx t v \<and>
            content (log_dev t) v = content (log_dev t) t \<and> kept H t v
        | Some x \<Rightarrow> \<exists>v. balloc_loop (log_dev t) sz (b + 8192) t = Done (of_nat x) v \<and>
            tx v (log_add (of_nat x) (log_add (BBLOCK (of_nat x) (sb t)) L)) H \<and> same_tx t v \<and>
            content (log_dev t) v = allocated (sb t) x (content (log_dev t) t) \<and> kept H t v"
        using b(2) ft by simp
      show ?thesis
      proof (cases "find ?P [b + 8192..<sz]")
        case None
        then obtain v where "balloc_loop ?dev sz (b + 8192) t = Done 0 v" "tx v L H" "same_tx t v" "content ?dev v = ?C" "kept H t v"
          using IH by (auto simp: ft t(4))
        then show ?thesis
          unfolding fs step None option.case using same_tx_trans [OF t(3)] kept_trans [OF t(5)] by (intro exI [of _ v]) simp
      next
        case (Some x)
        then obtain v where "balloc_loop ?dev sz (b + 8192) t = Done (of_nat x) v"
          "tx v (log_add (of_nat x) (log_add (BBLOCK (of_nat x) ?sp) L)) H" "same_tx t v"
          "content ?dev v = allocated ?sp x ?C" "kept H t v"
          using IH by (auto simp: ft t(4))
        then show ?thesis
          unfolding fs step Some option.case using same_tx_trans [OF t(3)] kept_trans [OF t(5)] by (intro exI [of _ v]) simp
      qed
    next
      case (Some bi)
      then have fx: "find ?P [b..<?m] = Some (b + bi)" using scan b(1) True by (simp split: option.splits)
      note fd = find_upt_SomeD [OF fx]
      then have x: "\<not> used ?sp ?C (b + bi)" "b + bi < sz" and bi: "bi < 8192" by simp_all
      obtain k where k: "b = 8192 * k" using b(1) by auto
      have "sz < 2 ^ 32" using b(2) unsigned_less [of "sb_size ?sp"] by simp
      then have Bx: "BBLOCK (of_nat (b + bi)) ?sp = ?B" "(b + bi) mod 8192 = bi"
        using BBLOCK_eq [of "b + bi" b ?sp] x(2) bi by (simp_all add: k)
      obtain v where v: "kbind (log_write bp (upd_data bp (set_bit_at ((b + bi) mod BPB)) u)) (\<lambda>_ s.
                kbind (brelse bp s) (\<lambda>_ s.
                kbind (bzero ?dev (of_nat (b + bi)) s) (\<lambda>_ s. Done (of_nat (b + bi) :: uint) s))) = Done (of_nat (b + bi)) v"
        "tx v (log_add (of_nat (b + bi)) (log_add (BBLOCK (of_nat (b + bi)) ?sp) L)) H" "same_tx s v"
        "content ?dev v = allocated ?sp (b + bi) ?C" "kept H s v"
        by (rule balloc_found [OF pre room, of "b + bi" bp u, unfolded Bx(1), OF u _ x(1)])
          (use x(2) b(2) Bx(1) in auto)
      have "balloc_loop ?dev sz b s = Done (of_nat (b + bi)) v"
        using True u(1) Some v(1) unfolding Bx(2) set_bit_fun by (subst balloc_loop.simps) (simp add: u(7) Let_def)
      then show ?thesis using v(2-5) sp fx by simp
    qed
  qed
qed

lemma size_32: "x < unat (sb_size sp) \<Longrightarrow> x < 2 ^ 32"
  using order.strict_trans [OF _ unsigned_less [of "sb_size sp"]] by simp

lemma used_allocated:
  assumes ok: "bitmap_ok sp start C" and x: "x < unat (sb_size sp)" "\<not> used sp C x" and y: "y < unat (sb_size sp)"
  shows "used sp (allocated sp x C) y \<longleftrightarrow> y = x \<or> used sp C y"
proof -
  note bo = bitmap_okD [OF ok x(1)]
  have ne: "BBLOCK (of_nat y) sp \<noteq> of_nat x" using bo(4) [OF x(2) y] by simp
  show ?thesis
  proof (cases "y div 8192 = x div 8192")
    case True
    then have B: "BBLOCK (of_nat y) sp = BBLOCK (of_nat x) sp" using BBLOCK_eq size_32 [OF y] size_32 [OF x(1)] by blast
    have "y mod 8192 = x mod 8192 \<longleftrightarrow> y = x" using True by (metis div_mult_mod_eq)
    then show ?thesis using ne set_bit_at(1) [of "x mod 8192" "C (BBLOCK (of_nat x) sp)" "y mod 8192"] bo(1)
      by (simp add: used_def allocated_def B)
  next
    case False
    then have "BBLOCK (of_nat y) sp \<noteq> BBLOCK (of_nat x) sp" using BBLOCK_eq size_32 [OF y] size_32 [OF x(1)] by blast
    then show ?thesis using ne False by (auto simp: used_def allocated_def)
  qed
qed

lemma bitmap_ok_allocated:
  assumes ok: "bitmap_ok sp start C" and x: "x < unat (sb_size sp)" "\<not> used sp C x"
  shows "bitmap_ok sp start (allocated sp x C)"
proof -
  have "length (allocated sp x C (BBLOCK (of_nat y) sp)) = 1024" if "y < unat (sb_size sp)" for y
    using bitmap_okD(1) [OF ok that] bitmap_okD(1) [OF ok x(1)] set_bit_at(2) [of "x mod 8192"] by (auto simp: allocated_def)
  then show ?thesis
    using bitmap_okD(2-4) [OF ok] used_allocated [OF ok x] by (auto simp: bitmap_ok_def)
qed

definition freed :: "superblock \<Rightarrow> nat \<Rightarrow> (uint \<Rightarrow> block) \<Rightarrow> uint \<Rightarrow> block" where
  "freed sp b C = C(BBLOCK (of_nat b) sp := clear_bit_at (b mod BPB) (C (BBLOCK (of_nat b) sp)))"

lemma used_freed:
  assumes ok: "bitmap_ok sp start C" and x: "x < unat (sb_size sp)" and y: "y < unat (sb_size sp)"
  shows "used sp (freed sp x C) y \<longleftrightarrow> y \<noteq> x \<and> used sp C y"
proof (cases "y div 8192 = x div 8192")
  case True
  then have B: "BBLOCK (of_nat y) sp = BBLOCK (of_nat x) sp" using BBLOCK_eq size_32 [OF y] size_32 [OF x(1)] by blast
  have "y mod 8192 = x mod 8192 \<longleftrightarrow> y = x" using True by (metis div_mult_mod_eq)
  then show ?thesis using clear_bit_at(1) [of "x mod 8192" "C (BBLOCK (of_nat x) sp)" "y mod 8192"] bitmap_okD(1) [OF ok x]
    by (simp add: used_def freed_def B)
next
  case False
  then have "BBLOCK (of_nat y) sp \<noteq> BBLOCK (of_nat x) sp" using BBLOCK_eq size_32 [OF y] size_32 [OF x(1)] by blast
  then show ?thesis using False by (auto simp: used_def freed_def)
qed

lemma bfree_spec:
  fixes s :: "'z fsst_scheme"
  defines "dev \<equiv> log_dev s" and "C \<equiv> content (log_dev s) s" and "sp \<equiv> sb s"
  assumes pre: "alloc_pre s L H" and room: "length L < 29" "length L + card H < 30" and x: "x < unat (sb_size sp)"
  shows "if used sp C x
    then \<exists>t. bfree dev (of_nat x) s = Done () t \<and> tx t (log_add (BBLOCK (of_nat x) sp) L) H \<and> same_tx s t \<and>
      content dev t = freed sp x C \<and> kept H s t
    else bfree dev (of_nat x) s = Panic ''freeing free block''"
proof -
  note p = alloc_preD [OF pre, folded C_def sp_def dev_def]
  note bo = bitmap_okD [OF p(2) x(1)]
  let ?B = "BBLOCK (of_nat x) sp" and ?f = "clear_bit_at (x mod BPB)"
  obtain bp u t where u: "bread dev ?B s = Done bp u" "bp < 30" "bp \<notin> H" "tx u L (insert bp H)" "same_tx s u"
    "blockno (bufs u ! bp) = ?B" "bdata (bufs u ! bp) = C ?B" "content dev u = C" "\<And>c. c \<in> H \<Longrightarrow> bufs u ! c = bufs s ! c"
    by (rule tx_read [OF p(1) _ room(2), of ?B, folded dev_def C_def]) (use p(3) [OF x] in auto)
  note f = same_txD [OF u(5), folded dev_def]
  have um: "unat (of_nat x :: uint) = x" using size_32 [OF x] by (simp add: unat_of_nat take_bit_nat_eq_self)
  have h30: "c < 30 \<and> c \<noteq> bp" if "c \<in> H" for c using that u(3) held_buffer(1) [OF txD(2) [OF p(1)]] by blast
  show ?thesis
  proof (cases "used sp C x")
    case True
    obtain v where v: "kbind (log_write bp (upd_data bp ?f u)) (\<lambda>_ s. brelse bp s) = Done () v" "tx v (log_add ?B L) H"
      "same_tx u v" "content dev v = (content dev u)(?B := ?f (bdata (bufs u ! bp)))"
      "\<And>c. c < 30 \<Longrightarrow> blockno (bufs v ! c) = blockno (bufs u ! c)"
      "\<And>c. c < 30 \<Longrightarrow> c \<noteq> bp \<Longrightarrow> bdata (bufs v ! c) = bdata (bufs u ! c)"
      by (rule tx_log_release [OF u(4,3,6) bo(2) [folded f(2)] _ , where f = ?f, unfolded f]) (use room in auto)
    have "bfree dev (of_nat x) s = Done () v"
      using True u(1) v(1) unfolding clear_bit_fun by (simp add: bfree_def um Let_def used_def u(7) sp_def)
    moreover have "kept H s v" using h30 by (auto simp: kept_def v(5,6) u(9))
    moreover have "content dev v = freed sp x C" by (simp add: v(4) u(7,8) freed_def)
    ultimately show ?thesis using True v(2) same_tx_trans [OF u(5) v(3)] by auto
  next
    case False
    then have "bfree dev (of_nat x) s = Panic ''freeing free block''"
      using u(1) by (simp add: bfree_def um Let_def used_def u(7) sp_def)
    with False show ?thesis by simp
  qed
qed

section \<open>Properties\<close>

text \<open>
  C21. \<^verbatim>\<open>balloc\<close> inside a transaction returns the first block that the free map has free, marks it
  as used and no other, zeroes it and leaves every other block as it was; with no free
  block it returns zero and changes nothing. The free map stays well-formed.
\<close>

theorem balloc_correct:
  fixes s :: "'z fsst_scheme"
  defines "dev \<equiv> log_dev s" and "C \<equiv> content (log_dev s) s" and "sp \<equiv> sb s"
  assumes "alloc_pre s L H" "length L < 28" "length L + card H < 29"
  shows "case find (\<lambda>x. \<not> used sp C x) [0..<unat (sb_size sp)] of
      None \<Rightarrow> \<exists>t. balloc dev s = Done 0 t \<and> tx t L H \<and> content dev t = C
    | Some x \<Rightarrow> \<exists>t. balloc dev s = Done (of_nat x) t \<and> content dev t (of_nat x) = replicate BSIZE 0 \<and>
        (\<forall>y < unat (sb_size sp). used sp (content dev t) y \<longleftrightarrow> y = x \<or> used sp C y) \<and>
        (\<forall>b. b \<noteq> of_nat x \<and> b \<noteq> BBLOCK (of_nat x) sp \<longrightarrow> content dev t b = C b) \<and>
        bitmap_ok sp (log_start s) (content dev t) \<and> tx t (log_add (of_nat x) (log_add (BBLOCK (of_nat x) sp) L)) H"
proof (cases "find (\<lambda>x. \<not> used sp C x) [0..<unat (sb_size sp)]")
  case None
  then show ?thesis
    using balloc_loop_spec [OF assms(4-6), of 0] unfolding dev_def C_def sp_def balloc_def by auto
next
  case (Some x)
  note fd = find_upt_SomeD [OF Some]
  obtain t where t: "balloc dev s = Done (of_nat x) t" "tx t (log_add (of_nat x) (log_add (BBLOCK (of_nat x) sp) L)) H"
    "content dev t = allocated sp x C"
    using balloc_loop_spec [OF assms(4-6), of 0] Some unfolding dev_def C_def sp_def balloc_def by auto
  note ok = alloc_preD(2) [OF assms(4), folded C_def sp_def dev_def]
  have "\<forall>y < unat (sb_size sp). used sp (content dev t) y \<longleftrightarrow> y = x \<or> used sp C y"
    using used_allocated [OF ok] fd by (simp add: t(3))
  moreover have "bitmap_ok sp (log_start s) (content dev t)" using bitmap_ok_allocated [OF ok] fd by (simp add: t(3))
  ultimately show ?thesis unfolding Some option.case using t(1,2) by (intro exI [of _ t]) (simp add: t(3) allocated_def)
qed

text \<open>
  C22. \<^verbatim>\<open>bfree\<close> clears the bit of the block in the free map and changes nothing else; it panics
  for a block that is free already.
\<close>

theorem bfree_correct:
  fixes s :: "'z fsst_scheme"
  defines "dev \<equiv> log_dev s" and "C \<equiv> content (log_dev s) s" and "sp \<equiv> sb s"
  assumes "alloc_pre s L H" "length L < 29" "length L + card H < 30" "x < unat (sb_size sp)"
  shows "if used sp C x
    then \<exists>t. bfree dev (of_nat x) s = Done () t \<and> tx t (log_add (BBLOCK (of_nat x) sp) L) H \<and>
      (\<forall>y < unat (sb_size sp). used sp (content dev t) y \<longleftrightarrow> y \<noteq> x \<and> used sp C y) \<and>
      (\<forall>b. b \<noteq> BBLOCK (of_nat x) sp \<longrightarrow> content dev t b = C b)
    else bfree dev (of_nat x) s = Panic ''freeing free block''"
proof (cases "used sp C x")
  case True
  note x = assms(7) [unfolded sp_def]
  obtain t where t: "bfree dev (of_nat x) s = Done () t" "tx t (log_add (BBLOCK (of_nat x) sp) L) H"
    "content dev t = freed sp x C"
    using bfree_spec [OF assms(4-6) x] True unfolding dev_def C_def sp_def by auto
  note ok = alloc_preD(2) [OF assms(4), folded C_def sp_def dev_def]
  have "\<forall>y < unat (sb_size sp). used sp (content dev t) y \<longleftrightarrow> y \<noteq> x \<and> used sp C y"
    using used_freed [OF ok assms(7)] by (simp add: t(3))
  then show ?thesis using True t by (auto simp: freed_def)
next
  case False
  then show ?thesis using bfree_spec [OF assms(4-6), of x] assms(7) unfolding dev_def C_def sp_def by simp
qed

text \<open>A file system of \<^verbatim>\<open>mkfs\<close> size, with blocks 0 to 47 in use and one operation begun.\<close>

definition example_bitmap :: block where
  "example_bitmap = replicate 6 255 @ replicate 1018 0"

definition example_disk :: "uint \<Rightarrow> block" where
  "example_disk = (\<lambda>_. replicate BSIZE 0)(45 := example_bitmap)"

definition fs_with :: "(uint \<Rightarrow> block) \<Rightarrow> fsst" where
  "fs_with d = (fs_on (log_on (binit (boot_bio\<lparr>disk := d\<rparr>))))\<lparr>log_outstanding := 1\<rparr>"

abbreviation example_fs :: fsst where
  "example_fs \<equiv> fs_with example_disk"

lemma held_fs_on: "held dev (fs_on s) P H = held dev s P H"
  by (simp add: held_def cache_ok_def myproc_def)

lemma logging_fs_on: "logging (fs_on s) L H = logging s L H"
  by (simp add: logging_def held_fs_on)

lemma fs_with_simps [simp]:
  "log_dev (fs_with d) = 1" "log_start (fs_with d) = 2" "sb (fs_with d) = example_sb" "inodes (fs_with d) = replicate 50 zero_inode"
  "log_outstanding (fs_with d) = 1" "log_size (fs_with d) = 30" "disk (fs_with d) = d"
  by (simp_all add: fs_with_def binit_frame)

lemma fs_with_tx:
  assumes d: "d 2 = replicate BSIZE 0"
  shows "tx (fs_with d) [] {}" "content 1 (fs_with d) = d"
proof -
  have "hdr_n (d 2) = 0" "length (d 2) = 1024"
    unfolding d by code_simp simp
  then have "logged (log_on (binit (boot_bio\<lparr>disk := d\<rparr>))) []"
    using held_reboot by (simp add: logging_def binit_frame)
  then show tx: "tx (fs_with d) [] {}" by (simp add: tx_def logging_fs_on) (simp add: fs_with_def logging_fs_on)
  show "content 1 (fs_with d) = d" using tx_clean [OF tx] by (auto simp: fun_eq_iff)
qed

lemma example_content: "tx example_fs [] {}" "content 1 example_fs = example_disk"
  using fs_with_tx [of example_disk] by (simp_all add: example_disk_def)

lemma example_used:
  assumes "b < 2000"
  shows "BBLOCK (of_nat b) example_sb = 45" "used example_sb example_disk b \<longleftrightarrow> b < 48"
proof -
  have "(of_nat b :: uint) div 8192 = 0"
    using assms by (simp add: word_unat_eq_iff unat_div unat_of_nat take_bit_nat_eq_self)
  then show B: "BBLOCK (of_nat b) example_sb = 45" by (simp add: BBLOCK_def example_sb_def)
  have "byte_at example_bitmap (b div 8) = (if b < 48 then -1 else 0)"
    using assms by (auto simp: byte_at_def example_bitmap_def nth_append)
  then show "used example_sb example_disk b \<longleftrightarrow> b < 48"
    using assms by (simp add: used_def B bitmap_bit_iff example_disk_def)
qed

lemma example_alloc: "alloc_pre example_fs [] {}"
proof -
  have sz: "unat (sb_size example_sb) = 2000" by (simp add: example_sb_def)
  have 45: "45 \<notin> log_area 2" by (rule home_block) simp
  have free: "of_nat b \<notin> log_area 2 \<and> of_nat b \<noteq> (45 :: uint)" if "b < 2000" "\<not> b < 48" for b
  proof -
    have "unat (of_nat b :: uint) = b" using that by (simp add: unat_of_nat take_bit_nat_eq_self)
    moreover have "(of_nat b :: uint) = 45 \<Longrightarrow> unat (of_nat b :: uint) = 45" by simp
    ultimately show ?thesis using that home_block [of "of_nat b"] by auto
  qed
  have "length (example_disk 45) = 1024" by (simp add: example_disk_def example_bitmap_def)
  then have "bitmap_ok example_sb 2 example_disk"
    unfolding bitmap_ok_def sz using example_used 45 free by auto
  then show ?thesis by (simp add: alloc_pre_def example_content)
qed

theorem balloc_correct_witness:
  "\<exists>t. balloc 1 example_fs = Done 48 t \<and> content 1 t 48 = replicate BSIZE 0 \<and> used example_sb (content 1 t) 48"
proof -
  have sz: "unat (sb_size example_sb) = 2000" by (simp add: example_sb_def)
  have "find (\<lambda>x. \<not> used example_sb example_disk x) [0..<2000] = Some 48"
    unfolding find_Some_iff using example_used(2) by (intro exI [of _ 48]) auto
  then show ?thesis
    using balloc_correct [OF example_alloc] by (auto simp: sz example_content)
qed

theorem bfree_correct_witness:
  "(\<exists>t. bfree 1 (of_nat 47) example_fs = Done () t \<and> \<not> used example_sb (content 1 t) 47) \<and>
   bfree 1 (of_nat 48) example_fs = Panic ''freeing free block''"
proof -
  have sz: "unat (sb_size example_sb) = 2000" by (simp add: example_sb_def)
  show ?thesis
    using bfree_correct [OF example_alloc, of 47] bfree_correct [OF example_alloc, of 48] example_used(2) [of 47] example_used(2) [of 48]
    by (auto simp: sz example_content)
qed

end
