(* ===== verification/FsDest.thy ===== *)
theory FsDest
  imports FsBlocks
begin

text \<open>
  The destinations of \<^verbatim>\<open>readi\<close> and the sources of \<^verbatim>\<open>writei\<close>: a user address, a kernel address or a variable of the kernel. The
  bytes move block by block through \<^verbatim>\<open>either_copyout\<close> and \<^verbatim>\<open>either_copyin\<close> of \<^verbatim>\<open>proc.c\<close>; what such a step does is stated
  relative to the whole transfer, for a copy that succeeds and for one that meets a page the user may not write.
\<close>

section \<open>The state of a transaction with changing memory\<close>

lemma tx_mem [simp]: "tx (s\<lparr>mem := m\<rparr>) L H = tx s L H"
  by (simp add: tx_def logging_def held_def cache_ok_def myproc_def)

lemma content_mem [simp]: "content dev (s\<lparr>mem := m\<rparr>) = content dev s"
  by (simp add: content_def fun_eq_iff split: option.split)

lemma same_tx_mem: "same_tx s t \<Longrightarrow> same_tx (s\<lparr>mem := m\<rparr>) (t\<lparr>mem := m\<rparr>)"
proof -
  assume "same_tx s t"
  then obtain b p n bl where "t = s\<lparr>bufs := b, procs := p, lh_n := n, lh_block := bl\<rparr>" "length p = length (procs s)"
      "curproc s < length (procs s) \<longrightarrow> p ! curproc s = procs s ! curproc s" by (auto simp: same_tx_def)
  then show ?thesis unfolding same_tx_def by (intro exI [of _ b] exI [of _ p] exI [of _ n] exI [of _ bl]) simp
qed

text \<open>As \<open>same_tx\<close>, but the memory may change.\<close>

definition same_io :: "'z logst_scheme \<Rightarrow> 'z logst_scheme \<Rightarrow> bool" where
  "same_io s t \<longleftrightarrow> same_tx s (t\<lparr>mem := mem s\<rparr>)"

lemma same_io_tx: "same_tx s t \<Longrightarrow> same_io s t"
proof -
  assume a: "same_tx s t"
  have "t\<lparr>mem := mem s\<rparr> = t" using same_txD(8) [OF a] by simp
  then show ?thesis using a by (simp add: same_io_def)
qed

lemma same_io_mem: "same_io s (s\<lparr>mem := m\<rparr>)"
  by (simp add: same_io_def same_tx_refl)

lemma same_io_trans: "same_io s t \<Longrightarrow> same_io t u \<Longrightarrow> same_io s u"
proof -
  assume a: "same_io s t" "same_io t u"
  have "same_tx (t\<lparr>mem := mem s\<rparr>) (u\<lparr>mem := mem t, mem := mem s\<rparr>)" using same_tx_mem [of t "u\<lparr>mem := mem t\<rparr>" "mem s"] a(2) by (simp add: same_io_def)
  then show ?thesis using a(1) same_tx_trans unfolding same_io_def by simp
qed

lemma same_ioD:
  assumes "same_io s t"
  shows "log_dev t = log_dev s" "log_start t = log_start s" "curproc t = curproc s" "kend t = kend s" "freelist t = freelist s"
    "length (procs t) = length (procs s)" "curproc s < length (procs s) \<Longrightarrow> myproc t = myproc s"
  using same_txD [OF assms [unfolded same_io_def]] same_tx_proc [OF assms [unfolded same_io_def]] by (simp_all add: myproc_def)

lemma same_io_fs: "same_io s t \<Longrightarrow> sb t = sb s \<and> inodes t = inodes s"
  using same_tx_fs [of s "t\<lparr>mem := mem s\<rparr>"] by (simp add: same_io_def)

section \<open>Destinations\<close>

text \<open>The transfer of \<open>n\<close> bytes to \<open>dst\<close> cannot fail.\<close>

definition dest_ok :: "'z kproc_scheme \<Rightarrow> addr list \<Rightarrow> dest \<Rightarrow> nat \<Rightarrow> bool" where
  "dest_ok s fl dst n \<longleftrightarrow> (case dst of
     UserDst a \<Rightarrow> curproc s < length (procs s) \<and> pt_state s (pagetable (myproc s)) fl \<and> user_writable s (pagetable (myproc s)) fl a n
   | KernelDst a \<Rightarrow> n \<le> 2 ^ 64
   | BufDst \<Rightarrow> True)"

text \<open>The memory \<open>m\<close> is that of \<open>s\<close> but for the bytes \<open>bs\<close> at the destination.\<close>

definition delivered :: "'z kproc_scheme \<Rightarrow> dest \<Rightarrow> byte list \<Rightarrow> memory \<Rightarrow> bool" where
  "delivered s dst bs m \<longleftrightarrow> (case dst of
     UserDst a \<Rightarrow> (let pt = pagetable (myproc s) in lookup m pt = lookup (mem s) pt \<and> user_bytes m pt a (length bs) = bs \<and>
        (\<forall>x. (\<forall>i<length bs. x \<noteq> user_pa (mem s) pt (a + of_nat i)) \<longrightarrow> m x = mem s x))
   | KernelDst a \<Rightarrow> m = store_bytes (mem s) a bs
   | BufDst \<Rightarrow> m = mem s)"

lemma delivered_Nil: "delivered s dst [] (mem s)"
  by (simp add: delivered_def user_bytes_def store_bytes_def split: dest.split)

lemma user_bytes_append: "user_bytes m pt a (i + j) = user_bytes m pt a i @ user_bytes m pt (a + of_nat i) j"
  by (rule nth_equalityI) (auto simp: user_bytes_def nth_append add.assoc of_nat_add [symmetric] simp del: of_nat_add)

lemma store_bytes_append:
  assumes "length bs + length cs \<le> 2 ^ 64"
  shows "store_bytes (store_bytes m a bs) (a + of_nat (length bs)) cs = store_bytes m a (bs @ cs)"
proof
  fix x
  let ?d = "x - a" and ?n = "length bs"
  have e: "x - (a + of_nat ?n) = ?d - of_nat ?n" by simp
  show "store_bytes (store_bytes m a bs) (a + of_nat ?n) cs x = store_bytes m a (bs @ cs) x"
  proof (cases "unat ?d < ?n")
    case True
    have "\<not> unat (?d - of_nat ?n) < length cs"
    proof
      assume lt: "unat (?d - of_nat ?n) < length cs"
      have d: "?d = of_nat (?n + unat (?d - of_nat ?n))" by simp
      have "unat (of_nat (?n + unat (?d - of_nat ?n)) :: uint64) = ?n + unat (?d - of_nat ?n)" by (rule unat_of_nat64) (use lt assms in simp)
      then have "unat ?d = ?n + unat (?d - of_nat ?n)" using d by metis
      then show False using True by simp
    qed
    then show ?thesis using True by (simp add: store_bytes_def e nth_append)
  next
    case False
    have "?n < 18446744073709551616" using False unat_word64_less [of ?d] by linarith
    then have n: "unat (of_nat ?n :: uint64) = ?n" by (rule unat_of_nat64)
    have "unat (?d - of_nat ?n) = unat ?d - unat (of_nat ?n :: uint64)" by (rule unat_sub) (use False n in \<open>simp add: word_le_nat_alt\<close>)
    then have "unat (?d - of_nat ?n) = unat ?d - ?n" unfolding n .
    then show ?thesis using False by (auto simp: store_bytes_def e nth_append)
  qed
qed

lemma pt_state_agree:
  assumes st: "pt_state s pt fl" and eq: "\<And>x. PGROUNDDOWN x \<in> tables (mem s) pt \<union> set fl \<Longrightarrow> mem u x = mem s x"
    and u: "kend u = kend s" "freelist u = freelist s"
  shows "pt_state u pt fl" "tables (mem u) pt = tables (mem s) pt"
proof -
  note al = pt_state_table(1) [OF st]
  have eqt: "mem u x = mem s x" if "PGROUNDDOWN x \<in> tables (mem s) pt" for x using eq that by blast
  have same: "tables (mem u) pt = tables (mem s) pt" "pt_inj (mem u) pt = pt_inj (mem s) pt"
    by (rule tables_same; use al eqt in blast)+
  show "tables (mem u) pt = tables (mem s) pt" by (rule same(1))
  have "kmem_pool (s\<lparr>mem := mem u\<rparr>) fl" using st eq by (intro kmem_pool_mem) (auto simp: pt_state_def)
  then have "kmem_pool u fl" using u by (simp add: kmem_pool_def phys_page_def)
  then show "pt_state u pt fl" using st same phys_page_cong [OF u(1)] by (auto simp: pt_state_def)
qed

text \<open>After a part of the bytes, the rest of the destination is as it was.\<close>

lemma delivered_user:
  fixes s u :: "'z kproc_scheme"
  assumes d: "delivered s (UserDst a) bs (mem u)" and ok: "pt_state s pt fl" "user_writable s pt fl a n" and pt: "pt = pagetable (myproc s)"
    and le: "length bs \<le> n" and u: "kend u = kend s" "freelist u = freelist s"
  shows "pt_state u pt fl" "lookup (mem u) pt = lookup (mem s) pt" "user_writable u pt fl (a + of_nat (length bs)) (n - length bs)"
    "user_pa (mem u) pt x = user_pa (mem s) pt x"
proof -
  have l: "lookup (mem u) pt = lookup (mem s) pt" and f: "\<And>x. (\<forall>i<length bs. x \<noteq> user_pa (mem s) pt (a + of_nat i)) \<Longrightarrow> mem u x = mem s x"
    using d by (simp_all add: delivered_def Let_def pt)
  show "lookup (mem u) pt = lookup (mem s) pt" by (rule l)
  then show "user_pa (mem u) pt x = user_pa (mem s) pt x" by (simp add: user_pa_def user_frame_def)
  have eq: "mem u x = mem s x" if "PGROUNDDOWN x \<in> tables (mem s) pt \<union> set fl" for x
  proof (rule f, intro allI impI)
    fix i assume "i < length bs"
    then have i: "i < n" using le by simp
    then show "x \<noteq> user_pa (mem s) pt (a + of_nat i)"
      using user_pa_frame [OF ok(2) i] user_writable_frame(3,4) [OF ok(2) i refl] that by auto
  qed
  note ag = pt_state_agree [OF ok(1) eq u]
  show "pt_state u pt fl" by (rule ag(1))
  show "user_writable u pt fl (a + of_nat (length bs)) (n - length bs)"
    by (rule user_writable_drop [OF user_writable_cong [OF ok(2) l ag(2) u(1)] le])
qed

lemma delivered_append:
  fixes s u :: "'z kproc_scheme"
  assumes d: "delivered s (UserDst a) bs (mem u)" and ok: "pt_state s pt fl" "user_writable s pt fl a n" and pt: "pt = pagetable (myproc s)"
    and le: "length bs + length cs \<le> n" and u: "kend u = kend s" "freelist u = freelist s"
    and m: "lookup m pt = lookup (mem u) pt" "user_bytes m pt (a + of_nat (length bs)) (length cs) = cs"
      "\<And>x. (\<forall>i<length cs. x \<noteq> user_pa (mem u) pt (a + of_nat (length bs) + of_nat i)) \<Longrightarrow> m x = mem u x"
  shows "delivered s (UserDst a) (bs @ cs) m"
proof -
  let ?b = "length bs"
  have lb: "?b \<le> n" using le by simp
  note du = delivered_user [OF d ok pt lb u]
  have l: "lookup m pt = lookup (mem s) pt" using m(1) du(2) by simp
  then have pa: "user_pa m pt x = user_pa (mem s) pt x" for x by (simp add: user_pa_def user_frame_def)
  have f: "\<And>x. (\<forall>i<?b. x \<noteq> user_pa (mem s) pt (a + of_nat i)) \<Longrightarrow> mem u x = mem s x" and ub: "user_bytes (mem u) pt a ?b = bs"
    using d by (simp_all add: delivered_def Let_def pt)
  have m': "m x = mem u x" if "\<And>i. i < length cs \<Longrightarrow> x \<noteq> user_pa (mem s) pt (a + of_nat (?b + i))" for x
    by (rule m(3)) (use that du(4) in \<open>simp add: add.assoc\<close>)
  have keep: "m (user_pa (mem s) pt (a + of_nat i)) = mem u (user_pa (mem s) pt (a + of_nat i))" if i: "i < ?b" for i
  proof (rule m')
    fix j assume "j < length cs"
    then have j: "?b + j < n" "i < n" using le i by simp_all
    show "user_pa (mem s) pt (a + of_nat i) \<noteq> user_pa (mem s) pt (a + of_nat (?b + j))"
      using user_pa_inj [OF ok(2) j(2,1)] i by auto
  qed
  have "user_bytes m pt a ?b = user_bytes (mem u) pt a ?b" using keep by (simp add: user_bytes_def pa du(4))
  then have "user_bytes m pt a (length (bs @ cs)) = bs @ cs" using user_bytes_append [of m pt a ?b "length cs"] ub m(2) by simp
  moreover have "m x = mem s x" if x: "\<forall>i<length (bs @ cs). x \<noteq> user_pa (mem s) pt (a + of_nat i)" for x
  proof -
    have "m x = mem u x" by (rule m') (use x in \<open>simp del: of_nat_add\<close>)
    moreover have "mem u x = mem s x" by (rule f) (use x in simp)
    ultimately show ?thesis by simp
  qed
  ultimately show ?thesis using l by (simp add: delivered_def Let_def pt)
qed

lemma put_dest_ok:
  fixes s u :: "'z logst_scheme"
  assumes d: "delivered s dst bs (mem u)" and ok: "dest_ok s fl dst n" and le: "length bs + length cs \<le> n" and io: "same_io s u"
  shows "\<exists>m. put_dest dst (length bs) cs u = Done 0 (u\<lparr>mem := m\<rparr>) \<and> delivered s dst (bs @ cs) m"
proof (cases dst)
  case (UserDst a)
  let ?pt = "pagetable (myproc s)"
  note f = same_ioD [OF io]
  have o: "curproc s < length (procs s)" "pt_state s ?pt fl" "user_writable s ?pt fl a n" using ok by (simp_all add: dest_ok_def UserDst)
  have lb: "length bs \<le> n" using le by simp
  note d' = d [unfolded UserDst]
  note du = delivered_user [OF d' o(2,3) refl lb f(4,5)]
  have w: "user_writable u ?pt fl (a + of_nat (length bs)) (length cs)"
    using du(3) le unfolding user_writable_def by auto
  obtain m where m: "copyout ?pt (a + of_nat (length bs)) cs u = Done 0 (u\<lparr>mem := m\<rparr>)" "lookup m ?pt = lookup (mem u) ?pt"
      "user_bytes m ?pt (a + of_nat (length bs)) (length cs) = cs"
      "\<And>x. (\<forall>i<length cs. x \<noteq> user_pa (mem u) ?pt (a + of_nat (length bs) + of_nat i)) \<Longrightarrow> m x = mem u x"
    using copyout_spec [OF du(1) w] by blast
  have "delivered s (UserDst a) (bs @ cs) m" by (rule delivered_append [OF d' o(2,3) refl le f(4,5) m(2-4)])
  then show ?thesis using m(1) f(7) [OF o(1)] by (auto simp: UserDst put_dest_def either_copyout_def)
next
  case (KernelDst a)
  have "length bs + length cs \<le> 2 ^ 64" using ok le by (simp add: dest_ok_def KernelDst)
  from store_bytes_append [OF this, of "mem s" a] show ?thesis
    using d by (auto simp: KernelDst put_dest_def either_copyout_def delivered_def)
next
  case BufDst
  have "u\<lparr>mem := mem u\<rparr> = u" by simp
  then show ?thesis using d by (auto simp: BufDst put_dest_def delivered_def intro!: exI [of _ "mem u"])
qed

lemma put_dest_fails:
  fixes s u :: "'z logst_scheme"
  assumes d: "delivered s (UserDst a) bs (mem u)" and ok: "dest_ok s fl (UserDst a) k" and k: "length bs \<le> k" "k < length bs + length cs"
    and bad: "no_write (mem s) (pagetable (myproc s)) (a + of_nat k)" and io: "same_io s u"
  shows "\<exists>m. put_dest (UserDst a) (length bs) cs u = Done (-1) (u\<lparr>mem := m\<rparr>) \<and> delivered s (UserDst a) (bs @ take (k - length bs) cs) m"
proof -
  let ?pt = "pagetable (myproc s)" and ?j = "k - length bs"
  note f = same_ioD [OF io]
  have o: "curproc s < length (procs s)" "pt_state s ?pt fl" "user_writable s ?pt fl a k" using ok by (simp_all add: dest_ok_def)
  note du = delivered_user [OF d o(2,3) refl k(1) f(4,5)]
  have j: "?j < length cs" "length (take ?j cs) = ?j" using k by simp_all
  have "a + of_nat (length bs) + of_nat ?j = a + of_nat k" using k(1) by (simp add: add.assoc of_nat_add [symmetric] del: of_nat_add)
  then have b: "no_write (mem u) ?pt (a + of_nat (length bs) + of_nat ?j)" using bad unfolding no_write_def user_frame_def du(2) by (simp only:)
  obtain m where m: "copyout ?pt (a + of_nat (length bs)) cs u = Done (-1) (u\<lparr>mem := m\<rparr>)" "lookup m ?pt = lookup (mem u) ?pt"
      "user_bytes m ?pt (a + of_nat (length bs)) ?j = take ?j cs"
      "\<And>x. (\<forall>i<?j. x \<noteq> user_pa (mem u) ?pt (a + of_nat (length bs) + of_nat i)) \<Longrightarrow> m x = mem u x"
    using copyout_fails [OF du(1,3) j(1) b] by blast
  have "delivered s (UserDst a) (bs @ take ?j cs) m"
    by (rule delivered_append [OF d o(2,3) refl _ f(4,5) m(2)]) (use m(3,4) j k in simp_all)
  then show ?thesis using m(1) f(7) [OF o(1)] by (auto simp: put_dest_def either_copyout_def)
qed

section \<open>Sources\<close>

text \<open>The memory and the current process are the same.\<close>

definition same_proc :: "'z kproc_scheme \<Rightarrow> 'z kproc_scheme \<Rightarrow> bool" where
  "same_proc s t \<longleftrightarrow> mem t = mem s \<and> kend t = kend s \<and> freelist t = freelist s \<and> curproc t = curproc s \<and>
     length (procs t) = length (procs s) \<and> (curproc s < length (procs s) \<longrightarrow> myproc t = myproc s)"

lemma same_proc_tx: "same_tx s t \<Longrightarrow> same_proc s t"
  by (frule same_txD(8), frule same_txD(9), frule same_tx_proc(1), frule same_tx_proc(3), frule same_tx_proc(4))
    (simp add: same_proc_def same_tx_proc(2))

lemma same_proc_trans: "same_proc s t \<Longrightarrow> same_proc t u \<Longrightarrow> same_proc s u"
  by (simp add: same_proc_def)

lemma same_proc_inode [simp]: "same_proc s (upd_inode ip f t) = same_proc s t" "same_proc (upd_inode ip f s) t = same_proc s t"
  by (simp_all add: same_proc_def upd_inode_def myproc_def)

text \<open>The transfer of \<open>n\<close> bytes from \<open>src\<close> cannot fail, and the bytes.\<close>

definition src_ok :: "'z kproc_scheme \<Rightarrow> addr list \<Rightarrow> source \<Rightarrow> nat \<Rightarrow> bool" where
  "src_ok s fl src n \<longleftrightarrow> (case src of
     UserSrc a \<Rightarrow> curproc s < length (procs s) \<and> pt_state s (pagetable (myproc s)) fl \<and> user_mapped (mem s) (pagetable (myproc s)) a n
   | KernelSrc a \<Rightarrow> True
   | BufSrc bs \<Rightarrow> n \<le> length bs)"

definition src_bytes :: "'z kproc_scheme \<Rightarrow> source \<Rightarrow> nat \<Rightarrow> byte list" where
  "src_bytes s src n = (case src of
     UserSrc a \<Rightarrow> user_bytes (mem s) (pagetable (myproc s)) a n
   | KernelSrc a \<Rightarrow> load_bytes (mem s) a n
   | BufSrc bs \<Rightarrow> take n bs)"

lemma src_bytes_length: "src_ok s fl src n \<Longrightarrow> length (src_bytes s src n) = n"
  by (auto simp: src_ok_def src_bytes_def user_bytes_def load_bytes_def split: source.splits)

lemma map_upt_part: "k + m \<le> n \<Longrightarrow> take m (drop k (map f [0..<n])) = map (\<lambda>i. f (k + i)) [0..<m :: nat]"
  by (rule nth_equalityI) auto

lemma get_source_ok:
  fixes s u :: "'z kproc_scheme"
  assumes ok: "src_ok s fl src n" and same: "same_proc s u" and le: "k + m \<le> n"
  shows "get_source src k m u = Done (0, take m (drop k (src_bytes s src n))) u"
proof (cases src)
  case (UserSrc a)
  let ?pt = "pagetable (myproc s)"
  have o: "curproc s < length (procs s)" "pt_state s ?pt fl" "user_mapped (mem s) ?pt a n" using ok by (simp_all add: src_ok_def UserSrc)
  have f: "mem u = mem s" "kend u = kend s" "freelist u = freelist s" "myproc u = myproc s" using same o(1) by (simp_all add: same_proc_def)
  have st: "pt_state u ?pt fl" by (rule pt_state_agree(1) [OF o(2) _ f(2,3)]) (simp add: f(1))
  have e: "a + of_nat k + of_nat i = a + of_nat (k + i)" for i by (simp add: add.assoc)
  have "user_mapped (mem u) ?pt (a + of_nat k) m" unfolding user_mapped_def e using o(3) le by (simp add: user_mapped_def f(1) del: of_nat_add)
  moreover have "user_bytes (mem u) ?pt (a + of_nat k) m = take m (drop k (user_bytes (mem s) ?pt a n))"
    unfolding user_bytes_def map_upt_part [OF le] e f(1) by (rule refl)
  ultimately show ?thesis
    using copyin_spec [OF st, of "a + of_nat k" m] f(4) by (auto simp: UserSrc get_source_def either_copyin_def src_bytes_def)
next
  case (KernelSrc a)
  have e: "a + of_nat k + of_nat i = a + of_nat (k + i)" for i by (simp add: add.assoc)
  have "mem u = mem s" using same by (simp add: same_proc_def)
  then have "load_bytes (mem u) (a + of_nat k) m = take m (drop k (load_bytes (mem s) a n))"
    unfolding load_bytes_def map_upt_part [OF le] e by simp
  then show ?thesis by (simp add: KernelSrc get_source_def either_copyin_def src_bytes_def)
next
  case (BufSrc bs)
  then show ?thesis using le by (simp add: get_source_def src_bytes_def take_drop min_def)
qed

lemma dest_ok_same: "same_proc s t \<Longrightarrow> dest_ok s fl dst n \<Longrightarrow> m \<le> n \<Longrightarrow> dest_ok t fl dst m"
  by (auto simp: same_proc_def dest_ok_def user_writable_def phys_page_def pt_state_def kmem_pool_def split: dest.splits)

lemma delivered_same: "same_proc s t \<Longrightarrow> dest_ok s fl dst n \<Longrightarrow> delivered t dst bs m = delivered s dst bs m"
  by (auto simp: same_proc_def dest_ok_def delivered_def split: dest.splits)

end
