(* ===== verification/FsInodes.thy ===== *)
theory FsInodes
  imports FsDest
begin

text \<open>
  Inodes of \<^verbatim>\<open>fs.c\<close>: the inode table in memory, the dinodes on disk, and reading files and
  directories. All of it happens inside a transaction, without disk writes.
\<close>

section \<open>The inode table\<close>

text \<open>No inode has two entries in use.\<close>

definition itable_ok :: "inode list \<Rightarrow> bool" where
  "itable_ok xs \<longleftrightarrow> (\<forall>x\<in>set xs. 0 \<le> iref x) \<and>
     (\<forall>i<length xs. \<forall>j<length xs. 0 < iref (xs ! i) \<longrightarrow> 0 < iref (xs ! j) \<longrightarrow>
        idev (xs ! i) = idev (xs ! j) \<longrightarrow> inum (xs ! i) = inum (xs ! j) \<longrightarrow> i = j)"

lemma itable_ok_unused:
  assumes "\<And>x. x \<in> set xs \<Longrightarrow> iref x = 0"
  shows "itable_ok xs"
  using assms nth_mem [of _ xs] by (force simp: itable_ok_def)

lemma itable_ok_upd:
  assumes ok: "itable_ok xs" and i: "i < length xs" and x: "0 < iref x"
    and u: "\<And>j. j < length xs \<Longrightarrow> j \<noteq> i \<Longrightarrow> 0 < iref (xs ! j) \<Longrightarrow> \<not> (idev (xs ! j) = idev x \<and> inum (xs ! j) = inum x)"
  shows "itable_ok (xs[i := x])"
proof -
  have "0 \<le> iref y" if "y \<in> set (xs[i := x])" for y
    using that ok x set_update_subset_insert [of xs i x] by (auto simp: itable_ok_def)
  moreover have "j = k" if "j < length xs" "k < length xs" "0 < iref (xs[i := x] ! j)" "0 < iref (xs[i := x] ! k)"
      "idev (xs[i := x] ! j) = idev (xs[i := x] ! k)" "inum (xs[i := x] ! j) = inum (xs[i := x] ! k)" for j k
    using that ok u i by (cases "j = i"; cases "k = i") (auto simp: itable_ok_def)
  ultimately show ?thesis by (simp add: itable_ok_def)
qed

lemma iget_spec:
  fixes s :: "'z fsst_scheme"
  assumes ok: "itable_ok (inodes s)"
  shows "(\<exists>ip x. ip < length (inodes s) \<and> iget dev i s = Done ip (s\<lparr>inodes := (inodes s)[ip := x]\<rparr>) \<and>
      itable_ok ((inodes s)[ip := x]) \<and> idev x = dev \<and> inum x = i \<and>
      (let old = inodes s ! ip in
        if 0 < iref old then idev old = dev \<and> inum old = i \<and> x = old\<lparr>iref := iref old + 1\<rparr>
        else iref x = 1 \<and> \<not> ivalid x)) \<or>
    (iget dev i s = Panic ''iget: no inodes'' \<and>
      (\<forall>x\<in>set (inodes s). 0 < iref x \<and> \<not> (idev x = dev \<and> inum x = i)))"
proof -
  let ?xs = "inodes s"
  let ?P = "\<lambda>ip. iref (?xs ! ip) > 0 \<and> idev (?xs ! ip) = dev \<and> inum (?xs ! ip) = i"
  show ?thesis
  proof (cases "find ?P [0..<length ?xs]")
    case (Some ip)
    note fd = find_upt_SomeD [OF Some]
    let ?x = "(?xs ! ip)\<lparr>iref := iref (?xs ! ip) + 1\<rparr>"
    have "itable_ok (?xs[ip := ?x])"
      using ok fd by (intro itable_ok_upd) (auto simp: itable_ok_def)
    then show ?thesis using Some fd
      by (intro disjI1 exI [of _ ip] exI [of _ ?x]) (simp add: iget_def upd_inode_def Let_def)
  next
    case None
    then have none: "\<not> ?P j" if "j < length ?xs" for j using that by (auto simp: find_None_iff)
    show ?thesis
    proof (cases "find (\<lambda>ip. iref (?xs ! ip) = 0) [0..<length ?xs]")
      case (Some ip)
      note fd = find_upt_SomeD [OF Some]
      let ?x = "(?xs ! ip)\<lparr>idev := dev, inum := i, iref := 1, ivalid := False\<rparr>"
      have "itable_ok (?xs[ip := ?x])" using ok fd none by (intro itable_ok_upd) auto
      then show ?thesis using Some None fd
        by (intro disjI1 exI [of _ ip] exI [of _ ?x]) (simp add: iget_def upd_inode_def Let_def)
    next
      case full: None
      have "0 < iref x \<and> \<not> (idev x = dev \<and> inum x = i)" if mem: "x \<in> set ?xs" for x
      proof -
        obtain j where j: "j < length ?xs" "?xs ! j = x" using mem unfolding in_set_conv_nth by blast
        then have "iref x \<noteq> 0" "0 \<le> iref x" using full ok mem by (auto simp: find_None_iff itable_ok_def)
        then show ?thesis using none [OF j(1)] j(2) by auto
      qed
      then show ?thesis using None full by (simp add: iget_def)
    qed
  qed
qed

section \<open>Dinodes\<close>

text \<open>What the disk records of an inode.\<close>

definition meta :: "inode \<Rightarrow> ushort \<times> ushort \<times> ushort \<times> ushort \<times> uint \<times> uint list" where
  "meta x = (itype x, imajor x, iminor x, inlink x, isize x, iaddrs x)"

lemma get16_put32s: "j + 2 \<le> i \<Longrightarrow> get16 (put32s d i vs) j = get16 d j"
proof (induction d i vs rule: put32s.induct)
  case (2 d i v vs)
  then show ?case by (simp add: put32_def get16_put_other)
qed simp

lemma meta_get_put:
  assumes "o' + 64 \<le> length d" "length (iaddrs x) = 13"
  shows "meta (get_dinode (put_dinode x o' d) o' y) = meta x"
proof -
  have "get32s (put32s d' (o' + 12) (iaddrs x)) (o' + 12) 13 = iaddrs x" if "length d' = length d" for d'
    using get32s_put32s [of "o' + 12" "iaddrs x" d'] assms that by simp
  then show ?thesis
    using assms
    by (simp add: meta_def get_dinode_def put_dinode_def Let_def get16_put32s get32_put32s_before
        get16_put16_same get32_put32_same) (simp add: put16_def put32_def get16_put_other get16_put16_same [unfolded put16_def])
qed

lemma byte_at_put32s: "k < i \<or> i + 4 * length vs \<le> k \<Longrightarrow> byte_at (put32s d i vs) k = byte_at d k"
  by (induction d i vs rule: put32s.induct) (auto simp: put32_def byte_at_put_bytes)

lemma put_dinode_other:
  assumes "k < o' \<or> o' + 64 \<le> k" "length (iaddrs x) = 13"
  shows "byte_at (put_dinode x o' d) k = byte_at d k"
  using assms by (auto simp: put_dinode_def Let_def byte_at_put32s put16_def put32_def byte_at_put_bytes)

lemma get_dinode_cong:
  assumes "\<And>k. o' \<le> k \<Longrightarrow> k < o' + 64 \<Longrightarrow> byte_at d' k = byte_at d k"
  shows "get_dinode d' o' y = get_dinode d o' y"
proof -
  have 16: "get16 d' (o' + j) = get16 d (o' + j)" if "j \<le> 6" for j
    using that by (intro get16_cong assms) auto
  have 32: "get32 d' (o' + j) = get32 d (o' + j)" if "j \<le> 60" for j
    using that by (intro get32_cong assms) auto
  have "map (\<lambda>k. get32 d' (o' + 12 + 4 * k)) [0..<13] = map (\<lambda>k. get32 d (o' + 12 + 4 * k)) [0..<13]"
    using 32 by (intro map_cong) (auto simp: add.assoc)
  then show ?thesis
    using 16 [of 0] 16 [of 2] 16 [of 4] 16 [of 6] 32 [of 8] by (simp only: get_dinode_def get32s_def add_0_right) simp
qed

text \<open>The dinode number \<open>i\<close> in the blocks \<open>C\<close>.\<close>

definition dinode :: "superblock \<Rightarrow> (uint \<Rightarrow> block) \<Rightarrow> uint \<Rightarrow> ushort \<times> ushort \<times> ushort \<times> ushort \<times> uint \<times> uint list" where
  "dinode sp C i = meta (get_dinode (C (IBLOCK i sp)) (dip_off i) zero_inode)"

lemma meta_get_dinode: "meta (get_dinode d o' x) = meta (get_dinode d o' y)"
  by (simp add: meta_def get_dinode_def)

lemma dip_off_bound: "dip_off i + 64 \<le> 1024"
proof -
  have "unat i mod 16 < 16" by simp
  then show ?thesis unfolding dip_off_def by linarith
qed

lemma dip_off_other:
  assumes "IBLOCK j sp = IBLOCK i sp" "j \<noteq> i"
  shows "dip_off j + 64 \<le> dip_off i \<or> dip_off i + 64 \<le> dip_off j"
proof -
  have "unat (j div 16) = unat (i div 16)" using assms(1) by (simp add: IBLOCK_def)
  then have "unat j div 16 = unat i div 16" by (simp add: unat_div)
  moreover have "unat j \<noteq> unat i" using assms(2) by (simp add: word_unat_eq_iff)
  ultimately have "unat j mod 16 \<noteq> unat i mod 16" by (metis div_mult_mod_eq)
  then show ?thesis unfolding dip_off_def by linarith
qed

lemma dinode_put:
  assumes "length (C (IBLOCK i sp)) = 1024" "length (iaddrs x) = 13"
  shows "dinode sp (C(IBLOCK i sp := put_dinode x (dip_off i) (C (IBLOCK i sp)))) j =
    (if j = i then meta x else dinode sp C j)"
proof (cases "IBLOCK j sp = IBLOCK i sp")
  case False
  then show ?thesis by (auto simp: dinode_def)
next
  case True
  show ?thesis
  proof (cases "j = i")
    case True
    then show ?thesis using meta_get_put [of "dip_off i" "C (IBLOCK i sp)" x] assms dip_off_bound by (simp add: dinode_def)
  next
    case False
    have "get_dinode (put_dinode x (dip_off i) (C (IBLOCK i sp))) (dip_off j) zero_inode =
        get_dinode (C (IBLOCK i sp)) (dip_off j) zero_inode"
      using dip_off_other [OF True False] assms(2) by (intro get_dinode_cong put_dinode_other) auto
    then show ?thesis using False True by (simp add: dinode_def)
  qed
qed

lemma iupdate_spec:
  fixes s :: "'z fsst_scheme" and ip :: nat
  defines "dev \<equiv> log_dev s" and "C \<equiv> content (log_dev s) s" and "x \<equiv> inodes s ! ip" and "B \<equiv> IBLOCK (inum (inodes s ! ip)) (sb s)"
  assumes tx: "tx s L H" and x: "idev x = dev"
    and B: "B \<notin> log_area (log_start s)" "\<And>c. c \<in> H \<Longrightarrow> blockno (bufs s ! c) \<noteq> B"
    and room: "length L < 29" "length L + card H < 30"
  obtains t where "iupdate ip s = Done () t" "tx t (log_add B L) H" "same_tx s t"
    "content dev t = C(B := put_dinode x (dip_off (inum x)) (C B))" "kept H s t"
proof -
  obtain bp u t' where u: "bread dev B s = Done bp u" "bp < 30" "bp \<notin> H" "tx u L (insert bp H)" "same_tx s u"
    "blockno (bufs u ! bp) = B" "bdata (bufs u ! bp) = C B" "content dev u = C" "\<And>c. c \<in> H \<Longrightarrow> bufs u ! c = bufs s ! c"
    by (rule tx_read [OF tx B(2) room(2), folded dev_def C_def]) auto
  note f = same_txD [OF u(5), folded dev_def]
  let ?f = "put_dinode x (dip_off (inum x))"
  obtain v where v: "kbind (log_write bp (upd_data bp ?f u)) (\<lambda>_ s. brelse bp s) = Done () v" "tx v (log_add B L) H"
    "same_tx u v" "content dev v = (content dev u)(B := ?f (bdata (bufs u ! bp)))"
    "\<And>c. c < 30 \<Longrightarrow> blockno (bufs v ! c) = blockno (bufs u ! c)"
    "\<And>c. c < 30 \<Longrightarrow> c \<noteq> bp \<Longrightarrow> bdata (bufs v ! c) = bdata (bufs u ! c)"
    by (rule tx_log_release [OF u(4,3,6) B(1) [folded f(2)] room(1), where f = ?f, unfolded f]) blast
  have h30: "c < 30 \<and> c \<noteq> bp" if "c \<in> H" for c using that u(3) held_buffer(1) [OF txD(2) [OF tx]] by blast
  have "iupdate ip s = Done () v"
    using u(1) v(1) x by (simp add: iupdate_def Let_def x_def B_def)
  then show thesis
  proof (rule that [OF _ v(2) same_tx_trans [OF u(5) v(3)]])
    show "content dev v = C(B := put_dinode x (dip_off (inum x)) (C B))" by (simp add: v(4) u(7,8))
    show "kept H s v" using h30 by (auto simp: kept_def v(5,6) u(9))
  qed
qed

lemma fs_inodes [simp]:
  "tx (s\<lparr>inodes := xs\<rparr>) L H = tx s L H" "content dev (s\<lparr>inodes := xs\<rparr>) = content dev s"
  by (simp_all add: tx_def logging_def held_def cache_ok_def myproc_def content_def fun_eq_iff split: option.split)

lemma ilock_spec:
  fixes s :: "'z fsst_scheme" and ip :: nat
  defines "dev \<equiv> log_dev s" and "C \<equiv> content (log_dev s) s" and "x \<equiv> inodes s ! ip" and "B \<equiv> IBLOCK (inum (inodes s ! ip)) (sb s)"
  assumes tx: "tx s L H" and x: "idev x = dev" "ip < length (inodes s)" "1 \<le> iref x" "\<not> ilocked x" "\<not> ivalid x"
    and B: "\<And>c. c \<in> H \<Longrightarrow> blockno (bufs s ! c) \<noteq> B" and room: "length L + card H < 30"
  defines "y \<equiv> (get_dinode (C B) (dip_off (inum x)) x)\<lparr>ilocked := True, ipid := pid (myproc s), ivalid := True\<rparr>"
  shows "if itype y = 0 then ilock ip s = Panic ''ilock: no type''
    else \<exists>t. ilock ip s = Done () t \<and> tx t L H \<and> inodes t = (inodes s)[ip := y] \<and> content dev t = C \<and> kept H s t \<and>
      sb t = sb s \<and> log_dev t = dev"
proof -
  let ?l = "x\<lparr>ilocked := True, ipid := pid (myproc s)\<rparr>"
  let ?s = "s\<lparr>inodes := (inodes s)[ip := ?l]\<rparr>"
  have lk: "acquiresleep_inode ip s = Done () ?s" using x by (simp add: acquiresleep_inode_def upd_inode_def x_def)
  have tx1: "tx ?s L H" using tx by simp
  obtain bp u t' where u: "bread dev B ?s = Done bp u" "bp < 30" "bp \<notin> H" "tx u L (insert bp H)" "same_tx ?s u"
      "blockno (bufs u ! bp) = B" "bdata (bufs u ! bp) = C B" "content dev u = C" "\<And>c. c \<in> H \<Longrightarrow> bufs u ! c = bufs s ! c"
    by (rule tx_read [OF tx1 _ room, of B]) (use B in \<open>auto simp: dev_def C_def\<close>)
  note fu = same_txD [OF u(5), simplified] same_tx_fs [OF u(5), simplified]
  let ?g = "get_dinode (C B) (dip_off (inum x)) ?l"
  let ?u = "u\<lparr>inodes := (inodes s)[ip := ?g]\<rparr>"
  have cl: "B \<in> set L \<or> bdata (bufs u ! bp) = disk s B" using tx_clean [OF tx, of B] B u(7) by (auto simp: C_def)
  obtain t where t: "brelse bp ?u = Done () t" "tx t L H" "same_tx ?u t" "content dev t = C" "kept H s t"
  proof -
    have tu: "tx ?u L (insert bp H)" using u(4) by simp
    obtain t where t: "brelse bp ?u = Done () t" "tx t L H" "same_tx ?u t" "content dev t = content dev ?u"
      "\<And>c. c < 30 \<Longrightarrow> blockno (bufs t ! c) = blockno (bufs ?u ! c) \<and> bdata (bufs t ! c) = bdata (bufs ?u ! c)"
      using tx_release_read [OF tu u(3), of B] u(6) cl fu by (simp add: dev_def) metis
    have "c < 30" if "c \<in> H" for c using that held_buffer(1) [OF txD(2) [OF tx]] by blast
    then have "kept H s t" using u(9) t(5) by (simp add: kept_def)
    then show thesis using that [OF t(1-3)] t(4) u(8) by simp
  qed
  note ft = same_txD [OF t(3), simplified] same_tx_fs [OF t(3), simplified]
  have y: "?g\<lparr>ivalid := True\<rparr> = y" by (simp add: y_def get_dinode_def)
  have l1: "inodes ?s ! ip = ?l" using x(2) by simp
  have "ilock ip s = (let v = t\<lparr>inodes := (inodes s)[ip := y]\<rparr> in if itype y = 0 then Panic ''ilock: no type'' else Done () v)"
  proof -
    have "bread (idev ?l) (IBLOCK (inum ?l) (sb ?s)) ?s = Done bp u" using u(1) x(1) by (simp add: x_def B_def)
    moreover have "upd_inode ip (get_dinode (bdata (bufs u ! bp)) (dip_off (inum ?l))) u = ?u"
      using x(2) by (simp add: upd_inode_def u(7) fu)
    moreover have "upd_inode ip (\<lambda>x. x\<lparr>ivalid := True\<rparr>) t = t\<lparr>inodes := (inodes s)[ip := y]\<rparr>"
      using x(2) by (simp add: upd_inode_def ft y)
    ultimately show ?thesis
      using lk x(2-5) t(1) by (simp add: ilock_def Let_def x_def)
  qed
  then show ?thesis using t ft fu x(2) by (simp add: Let_def dev_def kept_def)
qed

section \<open>Reading files\<close>

text \<open>The block of the disk that holds block \<open>bn\<close> of the file, or zero; and byte \<open>k\<close> of the file.\<close>

definition fblock :: "(uint \<Rightarrow> block) \<Rightarrow> inode \<Rightarrow> nat \<Rightarrow> uint" where
  "fblock C x bn = (if bn < NDIRECT then iaddrs x ! bn
     else if iaddrs x ! NDIRECT = 0 then 0 else get32 (C (iaddrs x ! NDIRECT)) (4 * (bn - NDIRECT)))"

definition fbyte :: "(uint \<Rightarrow> block) \<Rightarrow> inode \<Rightarrow> nat \<Rightarrow> byte" where
  "fbyte C x k = C (fblock C x (k div BSIZE)) ! (k mod BSIZE)"

text \<open>The first \<open>n\<close> bytes of the file are in blocks of the disk.\<close>

definition file_ok :: "(uint \<Rightarrow> block) \<Rightarrow> inode \<Rightarrow> nat \<Rightarrow> bool" where
  "file_ok C x n \<longleftrightarrow> n \<le> (NDIRECT + NINDIRECT) * BSIZE \<and>
     (\<forall>k<n. fblock C x (k div BSIZE) \<noteq> 0 \<and> length (C (fblock C x (k div BSIZE))) = BSIZE)"

lemma bmap_spec:
  fixes s :: "'z fsst_scheme" and ip :: nat
  defines "dev \<equiv> log_dev s" and "C \<equiv> content (log_dev s) s" and "x \<equiv> inodes s ! ip"
  assumes tx: "tx s L {}" and x: "idev x = dev" and bn: "bn < 268" "fblock C x bn \<noteq> 0"
  shows "\<exists>t. bmap ip bn s = Done (fblock C x bn) t \<and> tx t L {} \<and> same_tx s t \<and> content dev t = C"
proof (cases "bn < 12")
  case True
  then have "bmap ip bn s = Done (fblock C x bn) s" using bn(2) by (simp add: bmap_def fblock_def x_def)
  then show ?thesis using tx same_tx_refl [of s] by (auto simp: dev_def C_def)
next
  case False
  let ?a = "iaddrs x ! 12"
  have a: "?a \<noteq> 0" and g: "get32 (C ?a) (4 * (bn - 12)) = fblock C x bn" using False bn(2) by (auto simp: fblock_def split: if_splits)
  have room: "length L + card ({} :: nat set) < 30" using loggedD(3) [OF txD(1) [OF tx]] by simp
  obtain bp u t where u: "bread dev ?a s = Done bp u" "bdata (bufs u ! bp) = C ?a"
    and t: "brelse bp u = Done () t" "tx t L {}" "same_tx s t" "content dev t = C"
    by (rule tx_read [OF tx _ room, of ?a, folded dev_def C_def]) auto
  have "bmap ip bn s = Done (fblock C x bn) t"
    using False bn a u t(1) g x by (simp add: bmap_def Let_def x_def)
  then show ?thesis using t by blast
qed

lemma brelse_mem: "brelse b s = Done () t \<Longrightarrow> brelse b (s\<lparr>mem := m\<rparr>) = Done () (t\<lparr>mem := m\<rparr>)"
  by (auto simp: brelse_def Let_def holdingsleep_buf_def releasesleep_buf_def upd_buf_def wakeup_def myproc_def split: if_splits)

text \<open>One round of the loop: the block is read, its bytes go to the destination, and the buffer is released.\<close>

lemma readi_round:
  fixes s :: "'z fsst_scheme" and ip :: nat
  defines "dev \<equiv> log_dev s" and "C \<equiv> content (log_dev s) s" and "x \<equiv> inodes s ! ip"
  assumes tx: "tx s L {}" and x: "idev x = dev" and fo: "file_ok C x (off + rem)" and rem: "0 < rem"
    and m: "m = min rem (1024 - off mod 1024)" and bs: "bs = map (\<lambda>k. fbyte C x (off + k)) [0..<m]"
  obtains bp u t where "same_tx s u" "tx t L {}" "same_tx s t" "content dev t = C" "\<And>q. brelse bp (u\<lparr>mem := q\<rparr>) = Done () (t\<lparr>mem := q\<rparr>)"
    "\<And>dst tot. readi_loop ip dst off tot rem s = kbind (put_dest dst tot bs u) (\<lambda>r s.
       if r = -1 then kbind (brelse bp s) (\<lambda>_ s. Done (-1, []) s)
       else kbind (brelse bp s) (\<lambda>_ s. kbind (readi_loop ip dst (off + m) (tot + m) (rem - m) s) (\<lambda>(r, rest) s. Done (r, bs @ rest) s)))"
proof -
  let ?a = "fblock C x (off div 1024)"
  have m': "0 < m" "m \<le> rem" "off mod 1024 + m \<le> 1024" using rem m by auto
  have f: "off + rem \<le> 274432" "?a \<noteq> 0" "length (C ?a) = 1024" using fo rem by (auto simp: file_ok_def)
  then have bn: "off div 1024 < 268" using rem by auto
  obtain s1 where 1: "bmap ip (off div 1024) s = Done ?a s1" "tx s1 L {}" "same_tx s s1" "content dev s1 = C"
    using bmap_spec [OF tx, of ip "off div 1024"] x bn f(2) by (auto simp: dev_def C_def x_def)
  note f1 = same_txD [OF 1(3)] same_tx_fs [OF 1(3)]
  have room: "length L + card ({} :: nat set) < 30" using loggedD(3) [OF txD(1) [OF tx]] by simp
  obtain bp u t where u: "bread dev ?a s1 = Done bp u" "same_tx s1 u" "bdata (bufs u ! bp) = C ?a"
    and t: "brelse bp u = Done () t" "tx t L {}" "same_tx s1 t" "content dev t = C"
    by (rule tx_read [OF 1(2) _ room, of ?a, unfolded f1 1(4) [unfolded dev_def], folded dev_def]) auto
  have bs': "take m (drop (off mod 1024) (C ?a)) = bs"
  proof (rule nth_equalityI)
    show "length (take m (drop (off mod 1024) (C ?a))) = length bs" using m' f(3) bs by simp
    fix k assume "k < length (take m (drop (off mod 1024) (C ?a)))"
    then have k: "k < m" by simp
    then have lt: "off mod 1024 + k < 1024" using m' by linarith
    have "off + k = 1024 * (off div 1024) + (off mod 1024 + k)" by simp
    then have "(off + k) div 1024 = off div 1024" "(off + k) mod 1024 = off mod 1024 + k"
      using lt by (metis div_mult_self4 div_less add_0_right zero_neq_numeral, metis mod_mult_self4 mod_less)
    then show "take m (drop (off mod 1024) (C ?a)) ! k = bs ! k" using k f(3) lt by (simp add: fbyte_def bs)
  qed
  show thesis
  proof (rule that [OF same_tx_trans [OF 1(3) u(2)] t(2) same_tx_trans [OF 1(3) t(3)] t(4) brelse_mem [OF t(1)]])
    fix dst tot
    have "idev (inodes s1 ! ip) = dev" using x f1 by (simp add: x_def)
    then show "readi_loop ip dst off tot rem s = kbind (put_dest dst tot bs u) (\<lambda>r s.
       if r = -1 then kbind (brelse bp s) (\<lambda>_ s. Done (-1, []) s)
       else kbind (brelse bp s) (\<lambda>_ s. kbind (readi_loop ip dst (off + m) (tot + m) (rem - m) s) (\<lambda>(r, rest) s. Done (r, bs @ rest) s)))"
      using rem f(2) 1(1) u(1,3) bs' by (subst readi_loop.simps) (simp add: m [symmetric] Let_def split_def cong: if_cong)
  qed
qed

lemma map_upt_split: "m \<le> n \<Longrightarrow> map (\<lambda>k. f (i + k)) [0..<m] @ map (\<lambda>k. f (i + m + k)) [0..<n - m] = map (\<lambda>k. f (i + k)) [0..<n :: nat]"
  by (rule nth_equalityI) (auto simp: nth_append add.assoc)

lemma readi_loop_all:
  fixes s s0 :: "'z fsst_scheme" and ip :: nat
  assumes "tx s L {}" "idev (inodes s ! ip) = log_dev s" "file_ok (content (log_dev s) s) (inodes s ! ip) (off + rem)"
    and "dest_ok s0 fl dst n" "delivered s0 dst bs (mem s)" "same_io s0 s" "length bs + rem \<le> n"
  shows "\<exists>t bytes. bytes = map (\<lambda>k. fbyte (content (log_dev s) s) (inodes s ! ip) (off + k)) [0..<rem] \<and>
    readi_loop ip dst off (length bs) rem s = Done (int (length bs + rem), bytes) t \<and>
    tx t L {} \<and> same_io s t \<and> content (log_dev s) t = content (log_dev s) s \<and> delivered s0 dst (bs @ bytes) (mem t)"
  using assms
proof (induction rem arbitrary: off bs s rule: less_induct)
  case (less rem)
  let ?dev = "log_dev s" and ?C = "content (log_dev s) s" and ?x = "inodes s ! ip"
  show ?case
  proof (cases "rem = 0")
    case True
    then show ?thesis using less.prems(1,5) same_io_tx [OF same_tx_refl [of s]] by (simp add: readi_loop.simps)
  next
    case False
    define m where "m = min rem (1024 - off mod 1024)"
    define cs where "cs = map (\<lambda>k. fbyte ?C ?x (off + k)) [0..<m]"
    have m: "0 < m" "m \<le> rem" "length cs = m" using False by (auto simp: m_def cs_def)
    have rem: "0 < rem" using False by simp
    obtain bp u t where r: "same_tx s u" "tx t L {}" "same_tx s t" "content ?dev t = ?C" "\<And>q. brelse bp (u\<lparr>mem := q\<rparr>) = Done () (t\<lparr>mem := q\<rparr>)"
      "\<And>dst tot. readi_loop ip dst off tot rem s = kbind (put_dest dst tot cs u) (\<lambda>r s.
         if r = -1 then kbind (brelse bp s) (\<lambda>_ s. Done (-1, []) s)
         else kbind (brelse bp s) (\<lambda>_ s. kbind (readi_loop ip dst (off + m) (tot + m) (rem - m) s) (\<lambda>(r, rest) s. Done (r, cs @ rest) s)))"
      by (rule readi_round [OF less.prems(1-3) rem m_def cs_def]) (rule that)
    note mu = same_txD(8) [OF r(1)]
    have su: "same_io s0 u" by (rule same_io_trans [OF less.prems(6) same_io_tx [OF r(1)]])
    obtain q where q: "put_dest dst (length bs) cs u = Done 0 (u\<lparr>mem := q\<rparr>)" "delivered s0 dst (bs @ cs) q"
      using put_dest_ok [of s0 dst bs u, OF _ less.prems(4) _ su, of cs] less.prems(5,7) m mu by auto
    let ?t = "t\<lparr>mem := q\<rparr>"
    have st: "same_io s ?t" by (rule same_io_trans [OF same_io_tx [OF r(3)] same_io_mem])
    note ft = same_ioD [OF st] same_io_fs [OF st]
    have "\<exists>v. readi_loop ip dst (off + m) (length (bs @ cs)) (rem - m) ?t =
        Done (int (length (bs @ cs) + (rem - m)), map (\<lambda>k. fbyte ?C ?x (off + m + k)) [0..<rem - m]) v \<and>
        tx v L {} \<and> same_io ?t v \<and> content ?dev v = ?C \<and> delivered s0 dst ((bs @ cs) @ map (\<lambda>k. fbyte ?C ?x (off + m + k)) [0..<rem - m]) (mem v)"
      using less.IH [of "rem - m" ?t "off + m" "bs @ cs"] r(2,4) less.prems(2-4,7) m q(2) ft same_io_trans [OF less.prems(6) st] by simp
    then obtain v where v: "readi_loop ip dst (off + m) (length (bs @ cs)) (rem - m) ?t =
        Done (int (length (bs @ cs) + (rem - m)), map (\<lambda>k. fbyte ?C ?x (off + m + k)) [0..<rem - m]) v"
        "tx v L {}" "same_io ?t v" "content ?dev v = ?C" "delivered s0 dst ((bs @ cs) @ map (\<lambda>k. fbyte ?C ?x (off + m + k)) [0..<rem - m]) (mem v)" by blast
    have c: "cs @ map (\<lambda>k. fbyte ?C ?x (off + m + k)) [0..<rem - m] = map (\<lambda>k. fbyte ?C ?x (off + k)) [0..<rem]"
      unfolding cs_def by (rule map_upt_split [OF m(2)])
    have "readi_loop ip dst off (length bs) rem s = Done (int (length bs + rem), cs @ map (\<lambda>k. fbyte ?C ?x (off + m + k)) [0..<rem - m]) v"
      using q(1) r(5) v(1) m(2,3) unfolding r(6) by simp
    then show ?thesis using v(2,4,5) c same_io_trans [OF st v(3)] by (intro exI [of _ v]) simp
  qed
qed


lemma unat_32: "unat (w :: uint) < 2 ^ 32"
proof -
  have "unat w < 2 ^ LENGTH(32)" by (rule unsigned_less)
  then show ?thesis by simp
qed

lemma readi_range:
  fixes s :: "'z fsst_scheme" and ip :: nat
  assumes "\<not> (off > isize (inodes s ! ip) \<or> off + n < off)"
  defines "m \<equiv> min (unat n) (unat (isize (inodes s ! ip)) - unat off)"
  shows "readi ip dst off n s = readi_loop ip dst (unat off) 0 m s" "unat off + m \<le> unat (isize (inodes s ! ip))"
proof -
  let ?x = "inodes s ! ip"
  have le: "off \<le> isize ?x" "off \<le> off + n" using assms(1) by auto
  have "unat (off + n) = unat off + unat n" using le(2) by (simp add: unat_plus_simple)
  then have "unat (if off + n > isize ?x then isize ?x - off else n) = m" using le(1) by (auto simp: unat_sub word_less_nat_alt m_def)
  then show "readi ip dst off n s = readi_loop ip dst (unat off) 0 m s" using assms(1) by (simp only: readi_def Let_def if_False)
  show "unat off + m \<le> unat (isize ?x)" using le(1) by (simp add: word_le_nat_alt m_def)
qed

text \<open>The whole transfer, and one that meets a page the user may not write.\<close>

lemma readi_all:
  fixes s :: "'z fsst_scheme" and ip :: nat
  defines "dev \<equiv> log_dev s" and "C \<equiv> content (log_dev s) s" and "x \<equiv> inodes s ! ip"
  assumes "tx s L {}" "idev x = dev" "file_ok C x (unat (isize x))" "\<not> (off > isize x \<or> off + n < off)"
    and m: "m = min (unat n) (unat (isize x) - unat off)" and ok: "dest_ok s fl dst m"
  shows "\<exists>t. readi ip dst off n s = Done (int m, map (\<lambda>k. fbyte C x (unat off + k)) [0..<m]) t \<and>
    tx t L {} \<and> same_io s t \<and> content dev t = C \<and> delivered s dst (map (\<lambda>k. fbyte C x (unat off + k)) [0..<m]) (mem t)"
proof -
  note r = readi_range [OF assms(7) [unfolded x_def], folded x_def, folded m]
  have "file_ok C x (unat off + m)" using r(2) assms(6) by (auto simp: file_ok_def)
  then show ?thesis
    using readi_loop_all [OF assms(4), of ip "unat off" m s fl dst m "[]"] assms(5) ok delivered_Nil [of s dst] same_io_tx [OF same_tx_refl [of s]]
    unfolding r(1) by (simp add: dev_def C_def x_def)
qed


lemma readi_spec:
  fixes s :: "'z fsst_scheme" and ip :: nat
  defines "dev \<equiv> log_dev s" and "C \<equiv> content (log_dev s) s" and "x \<equiv> inodes s ! ip"
  assumes "tx s L {}" "idev x = dev" "file_ok C x (unat (isize x))"
  shows "if off > isize x \<or> off + n < off then readi ip BufDst off n s = Done (0, []) s
    else let m = min (unat n) (unat (isize x) - unat off) in
      \<exists>t. readi ip BufDst off n s = Done (int m, map (\<lambda>k. fbyte C x (unat off + k)) [0..<m]) t \<and>
        tx t L {} \<and> same_tx s t \<and> content dev t = C"
proof (cases "off > isize x \<or> off + n < off")
  case True
  then show ?thesis by (simp add: readi_def x_def)
next
  case False
  let ?m = "min (unat n) (unat (isize x) - unat off)"
  have "dest_ok s [] BufDst ?m" by (simp add: dest_ok_def)
  from readi_all [OF assms(4) assms(5,6) [unfolded x_def dev_def C_def] False [unfolded x_def] refl this [unfolded x_def]]
  obtain t where t: "readi ip BufDst off n s = Done (int ?m, map (\<lambda>k. fbyte C x (unat off + k)) [0..<?m]) t"
      "tx t L {}" "same_io s t" "content dev t = C" "mem t = mem s"
    by (auto simp: delivered_def dev_def C_def x_def)
  have "t\<lparr>mem := mem s\<rparr> = t" using t(5) by simp
  then have "same_tx s t" using t(3) by (simp add: same_io_def)
  then show ?thesis using t(1,2,4) False by (simp only: if_False Let_def) blast
qed

section \<open>Directories\<close>

text \<open>Entry number \<open>k\<close> of a directory, and whether it has the name.\<close>

definition dir_entry :: "(uint \<Rightarrow> block) \<Rightarrow> inode \<Rightarrow> nat \<Rightarrow> byte list" where
  "dir_entry C x k = map (\<lambda>j. fbyte C x (16 * k + j)) [0..<16]"

definition dir_match :: "(uint \<Rightarrow> block) \<Rightarrow> inode \<Rightarrow> byte list \<Rightarrow> nat \<Rightarrow> bool" where
  "dir_match C x name k \<longleftrightarrow> get16 (dir_entry C x k) 0 \<noteq> 0 \<and> namecmp name (drop 2 (dir_entry C x k))"

lemma dirlookup_loop_spec:
  fixes s :: "'z fsst_scheme" and dp :: nat
  assumes "tx s L {}" "idev (inodes s ! dp) = log_dev s" "unat (isize (inodes s ! dp)) = 16 * n"
    "file_ok (content (log_dev s) s) (inodes s ! dp) (16 * n)"
  shows "case find (dir_match (content (log_dev s) s) (inodes s ! dp) name) [k..<n] of
      None \<Rightarrow> \<exists>t. dirlookup_loop dp name (16 * n) (16 * k) s = Done None t \<and> tx t L {} \<and> same_tx s t \<and>
        content (log_dev s) t = content (log_dev s) s
    | Some i \<Rightarrow> \<exists>t. dirlookup_loop dp name (16 * n) (16 * k) s =
          kbind (iget (log_dev s) (ucast (get16 (dir_entry (content (log_dev s) s) (inodes s ! dp) i) 0)) t)
            (\<lambda>ip s. Done (Some (ip, 16 * i)) s) \<and> tx t L {} \<and> same_tx s t \<and>
        content (log_dev s) t = content (log_dev s) s"
  using assms
proof (induction "n - k" arbitrary: k s rule: less_induct)
  case less
  let ?dev = "log_dev s" and ?C = "content (log_dev s) s" and ?x = "inodes s ! dp"
  let ?P = "dir_match ?C ?x name"
  show ?case
  proof (cases "k < n")
    case False
    then show ?thesis using less.prems(1) same_tx_refl [of s] by (simp add: dirlookup_loop.simps)
  next
    case True
    let ?off = "of_nat (16 * k) :: uint"
    have lt: "16 * n < 2 ^ 32" using unat_32 [of "isize ?x"] less.prems(3) by simp
    have off: "unat ?off = 16 * k" using True lt by (simp add: unat_of_nat take_bit_nat_eq_self del: of_nat_mult)
    have "unat ?off + unat (16 :: uint) < 2 ^ 32" using off True lt by simp
    then have ov: "unat (?off + 16) = unat ?off + 16" by (subst unat_add_lem [THEN iffD1]) simp_all
    have no: "\<not> (?off > isize ?x \<or> ?off + 16 < ?off)"
      using True less.prems(3) off ov by (simp add: word_less_nat_alt)
    have mn: "min (unat (16 :: uint)) (unat (isize ?x) - unat ?off) = 16" using True less.prems(3) off by simp
    obtain u where u: "readi dp BufDst ?off 16 s = Done (16, dir_entry ?C ?x k) u" "tx u L {}" "same_tx s u" "content ?dev u = ?C"
      using readi_spec [OF less.prems(1,2), of ?off 16] less.prems(3,4) no mn off by (auto simp: dir_entry_def Let_def)
    note fu = same_txD [OF u(3)] same_tx_fs [OF u(3), THEN conjunct1] same_tx_fs [OF u(3), THEN conjunct2]
    have fnd: "find ?P [k..<n] = (if ?P k then Some k else find ?P [Suc k..<n])"
      using True by (simp add: upt_conv_Cons)
    show ?thesis
    proof (cases "?P k")
      case True
      then have "dirlookup_loop dp name (16 * n) (16 * k) s =
          kbind (iget ?dev (ucast (get16 (dir_entry ?C ?x k) 0)) u) (\<lambda>ip s. Done (Some (ip, 16 * k)) s)"
        using \<open>k < n\<close> u(1) less.prems(2) by (subst dirlookup_loop.simps) (simp add: dir_match_def fu)
      then show ?thesis using True u(2-4) fnd by auto
    next
      case False
      then have step: "dirlookup_loop dp name (16 * n) (16 * k) s = dirlookup_loop dp name (16 * n) (16 * Suc k) u"
        using \<open>k < n\<close> u(1) by (subst dirlookup_loop.simps) (auto simp: dir_match_def add.commute)
      have lt: "n - Suc k < n - k" using \<open>k < n\<close> by simp
      note IH = less.hyps [OF lt u(2), unfolded fu u(4), OF less.prems(2-4)]
      have st: "same_tx s v" if "same_tx u v" for v using same_tx_trans [OF u(3) that] .
      show ?thesis
      proof (cases "find ?P [Suc k..<n]")
        case None
        then show ?thesis using IH st unfolding step fnd by (auto simp: False)
      next
        case (Some i)
        then show ?thesis using IH st unfolding step fnd by (auto simp: False)
      qed
    qed
  qed
qed

section \<open>Properties\<close>

text \<open>
  \<^verbatim>\<open>iget\<close> keeps the inode table free of duplicates: it returns the entry in use for the inode
  with one more reference, or else takes over an unused entry, which it marks as not read
  yet. It panics only when all entries are in use by other inodes.
\<close>

theorem iget_correct:
  fixes s :: "'z fsst_scheme"
  assumes "itable_ok (inodes s)"
  shows "(\<exists>ip x. ip < length (inodes s) \<and> iget dev i s = Done ip (s\<lparr>inodes := (inodes s)[ip := x]\<rparr>) \<and>
      itable_ok ((inodes s)[ip := x]) \<and> idev x = dev \<and> inum x = i \<and>
      (let old = inodes s ! ip in
        if 0 < iref old then idev old = dev \<and> inum old = i \<and> x = old\<lparr>iref := iref old + 1\<rparr>
        else iref x = 1 \<and> \<not> ivalid x)) \<or>
    (iget dev i s = Panic ''iget: no inodes'' \<and>
      (\<forall>x\<in>set (inodes s). 0 < iref x \<and> \<not> (idev x = dev \<and> inum x = i)))"
  using assms by (rule iget_spec)

theorem iget_correct_witness:
  "\<exists>ip x. iget 1 5 example_fs = Done ip (example_fs\<lparr>inodes := (inodes example_fs)[ip := x]\<rparr>) \<and> inum x = 5 \<and> iref x = 1"
proof -
  have ok: "itable_ok (inodes example_fs)" by (rule itable_ok_unused) (simp add: zero_inode_def)
  have z: "zero_inode \<in> set (inodes example_fs)" "\<not> 0 < iref zero_inode" by (simp_all add: zero_inode_def)
  from iget_correct [OF ok, of 1 5] z obtain ip x where
    g: "ip < length (inodes example_fs)" "iget 1 5 example_fs = Done ip (example_fs\<lparr>inodes := (inodes example_fs)[ip := x]\<rparr>)"
      "inum x = 5" "let old = inodes example_fs ! ip in
        if 0 < iref old then idev old = 1 \<and> inum old = 5 \<and> x = old\<lparr>iref := iref old + 1\<rparr>
        else iref x = 1 \<and> \<not> ivalid x"
    by blast
  have "inodes example_fs ! ip = zero_inode" using g(1) by simp
  then have "iref x = 1" using g(4) z(2) unfolding Let_def by presburger
  then show ?thesis using g(2,3) by blast
qed

text \<open>
  \<^verbatim>\<open>iupdate\<close> writes the inode to its place on disk, through the log: the dinode of its number
  then records exactly its type, device numbers, link count, size and block addresses, every
  other dinode is as before, and so is every other block.
\<close>

theorem iupdate_correct:
  fixes s :: "'z fsst_scheme" and ip :: nat
  defines "dev \<equiv> log_dev s" and "C \<equiv> content (log_dev s) s" and "x \<equiv> inodes s ! ip" and "B \<equiv> IBLOCK (inum (inodes s ! ip)) (sb s)"
  assumes "tx s L H" "idev x = dev" "length (iaddrs x) = NDIRECT + 1" "length (C B) = BSIZE"
    "B \<notin> log_area (log_start s)" "\<And>c. c \<in> H \<Longrightarrow> blockno (bufs s ! c) \<noteq> B" "length L < 29" "length L + card H < 30"
  shows "\<exists>t. iupdate ip s = Done () t \<and> tx t (log_add B L) H \<and>
    (\<forall>j. dinode (sb s) (content dev t) j = (if j = inum x then meta x else dinode (sb s) C j)) \<and>
    (\<forall>b. b \<noteq> B \<longrightarrow> content dev t b = C b)"
proof -
  obtain t where t: "iupdate ip s = Done () t" "tx t (log_add B L) H"
    "content dev t = C(B := put_dinode x (dip_off (inum x)) (C B))"
    by (rule iupdate_spec [of s L H ip, folded dev_def C_def x_def B_def [unfolded x_def [symmetric]]])
      (use assms(5-) in \<open>auto simp: x_def B_def dev_def C_def\<close>)
  have "\<forall>j. dinode (sb s) (content dev t) j = (if j = inum x then meta x else dinode (sb s) C j)"
    using dinode_put [of C "inum x" "sb s" x] assms(7,8) unfolding t(3) B_def x_def by simp
  then show ?thesis using t by (intro exI [of _ t]) simp
qed

text \<open>
  C23. \<^verbatim>\<open>ilock\<close> of an inode that is not in memory yet reads its dinode: the entry then has exactly
  what the disk records, is marked as read and is locked by the current process. It panics
  if the dinode is not in use.
\<close>

theorem ilock_correct:
  fixes s :: "'z fsst_scheme" and ip :: nat
  defines "dev \<equiv> log_dev s" and "C \<equiv> content (log_dev s) s" and "x \<equiv> inodes s ! ip"
  assumes "tx s L {}" "idev x = dev" "ip < length (inodes s)" "1 \<le> iref x" "\<not> ilocked x" "\<not> ivalid x"
  shows "if fst (dinode (sb s) C (inum x)) = 0 then ilock ip s = Panic ''ilock: no type''
    else \<exists>t y. ilock ip s = Done () t \<and> inodes t = (inodes s)[ip := y] \<and> meta y = dinode (sb s) C (inum x) \<and>
      ivalid y \<and> ilocked y \<and> ipid y = pid (myproc s) \<and> iref y = iref x \<and> tx t L {} \<and> content dev t = C"
proof -
  let ?y = "(get_dinode (C (IBLOCK (inum x) (sb s))) (dip_off (inum x)) x)\<lparr>ilocked := True, ipid := pid (myproc s), ivalid := True\<rparr>"
  have m: "meta ?y = dinode (sb s) C (inum x)"
    by (simp add: dinode_def meta_def get_dinode_def)
  then have ty: "itype ?y = fst (dinode (sb s) C (inum x))" by (metis fst_conv meta_def)
  have room: "length L + card ({} :: nat set) < 30" using loggedD(3) [OF txD(1) [OF assms(4)]] by simp
  have sp: "if itype ?y = 0 then ilock ip s = Panic ''ilock: no type''
    else \<exists>t. ilock ip s = Done () t \<and> tx t L {} \<and> inodes t = (inodes s)[ip := ?y] \<and> content dev t = C"
    using ilock_spec [OF assms(4) _ assms(6) _ _ _ _ room] assms(5,7-9) by (auto simp: x_def dev_def C_def)
  have "ivalid ?y \<and> ilocked ?y \<and> ipid ?y = pid (myproc s) \<and> iref ?y = iref x" by (simp add: get_dinode_def)
  then show ?thesis
  proof (cases "itype ?y = 0")
    case True
    then show ?thesis using sp ty by simp
  next
    case False
    then obtain t where "ilock ip s = Done () t" "tx t L {}" "inodes t = (inodes s)[ip := ?y]" "content dev t = C"
      using sp by (auto simp only: if_False)
    moreover note \<open>ivalid ?y \<and> ilocked ?y \<and> ipid ?y = pid (myproc s) \<and> iref ?y = iref x\<close>
    ultimately show ?thesis using False m unfolding ty by (simp only: if_False) blast
  qed
qed


text \<open>
  C27. \<^verbatim>\<open>dirlookup\<close> finds the first entry of the directory in use that has the name, as far as the
  \<open>DIRSIZ\<close> bytes that count, and gets its inode; with no such entry it returns none. It panics
  when the inode is not a directory.
\<close>

theorem dirlookup_correct:
  fixes s :: "'z fsst_scheme" and dp :: nat
  defines "dev \<equiv> log_dev s" and "C \<equiv> content (log_dev s) s" and "x \<equiv> inodes s ! dp"
  assumes "tx s L {}" "idev x = dev" "unat (isize x) = 16 * n" "file_ok C x (16 * n)"
  shows "if itype x \<noteq> T_DIR then dirlookup dp name s = Panic ''dirlookup not DIR''
    else case find (dir_match C x name) [0..<n] of
      None \<Rightarrow> \<exists>t. dirlookup dp name s = Done None t \<and> tx t L {} \<and> content dev t = C \<and> inodes t = inodes s
    | Some i \<Rightarrow> \<exists>t. tx t L {} \<and> content dev t = C \<and> inodes t = inodes s \<and>
        dirlookup dp name s = kbind (iget dev (ucast (get16 (dir_entry C x i) 0)) t) (\<lambda>ip s. Done (Some (ip, 16 * i)) s)"
proof (cases "itype x = T_DIR")
  case False
  then show ?thesis by (simp add: dirlookup_def x_def)
next
  case True
  have d: "dirlookup dp name s = dirlookup_loop dp name (16 * n) (16 * 0) s"
    using True assms(6) by (simp add: dirlookup_def x_def)
  note sp = dirlookup_loop_spec [OF assms(4) assms(5-7) [unfolded x_def dev_def C_def], of name 0, folded dev_def x_def C_def]
  show ?thesis
  proof (cases "find (dir_match C x name) [0..<n]")
    case None
    then show ?thesis using sp True same_tx_fs [of s] unfolding d by auto
  next
    case (Some i)
    then show ?thesis using sp True same_tx_fs [of s] unfolding d by auto
  qed
qed

text \<open>A root directory with entries for itself and for a file \<^verbatim>\<open>a\<close>, on disk and in memory.\<close>

definition root_inode :: inode where
  "root_inode = \<lparr>idev = 1, inum = 1, iref = 1, ilocked = False, ipid = 0, ivalid = True, itype = T_DIR, imajor = 0, iminor = 0,
     inlink = 1, isize = 32, iaddrs = 46 # replicate 12 0\<rparr>"

definition root_data :: block where
  "root_data = dirent 1 [46] @ dirent 2 [97] @ replicate 992 0"

definition root_disk :: "uint \<Rightarrow> block" where
  "root_disk = (\<lambda>_. replicate BSIZE 0)(32 := put_dinode root_inode 64 (replicate BSIZE 0), 46 := root_data)"

definition root_fs :: fsst where
  "root_fs = (fs_with root_disk)\<lparr>inodes := [root_inode]\<rparr>"

lemma root_fs: "tx root_fs [] {}" "content 1 root_fs = root_disk" "log_dev root_fs = 1" "log_start root_fs = 2"
  "sb root_fs = example_sb" "inodes root_fs = [root_inode]" "bufs root_fs = bufs (fs_with root_disk)"
  using fs_with_tx [of root_disk] by (simp_all add: root_fs_def) (simp_all add: root_disk_def)

lemma root_data: "length root_data = 1024"
  by (simp add: root_data_def dirent_def bytes16_def cut_name_def Let_def)

lemma root_file: "file_ok root_disk root_inode (16 * 2)"
proof -
  have "fblock root_disk root_inode (k div 1024) = 46" if "k < 32" for k
    using that by (simp add: fblock_def root_inode_def)
  then show ?thesis by (simp add: file_ok_def root_disk_def root_data)
qed

lemma root_block: "IBLOCK 1 example_sb = 32" "dip_off 1 = 64" "32 \<notin> log_area 2"
proof -
  show "IBLOCK 1 example_sb = 32" by (simp add: IBLOCK_def example_sb_def word_unat_eq_iff unat_div)
  show "dip_off 1 = 64" by (simp add: dip_off_def)
  show "32 \<notin> log_area 2" by (rule home_block) simp
qed

lemma root_entries: "dir_entry root_disk root_inode 0 = dirent 1 [46]" "dir_entry root_disk root_inode (Suc 0) = dirent 2 [97]"
proof -
  have l: "length (dirent i n) = 16" for i n
    by (simp add: dirent_def Let_def cut_name_def min_def le_trans [OF length_takeWhile_le])
  have "fbyte root_disk root_inode k = (dirent 1 [46] @ dirent 2 [97]) ! k" if "k < 32" for k
  proof -
    have "k - 16 < 16" using that by simp
    then show ?thesis using that l by (simp add: fbyte_def fblock_def root_inode_def root_disk_def root_data_def nth_append)
  qed
  then show "dir_entry root_disk root_inode 0 = dirent 1 [46]" "dir_entry root_disk root_inode (Suc 0) = dirent 2 [97]"
    using l by (auto simp: dir_entry_def nth_append intro!: nth_equalityI)
qed

theorem iupdate_correct_witness:
  "\<exists>t. iupdate 0 root_fs = Done () t \<and> dinode example_sb (content 1 t) 1 = meta root_inode"
proof -
  have "length (root_disk 32) = 1024" by (simp add: root_disk_def put_dinode_def Let_def)
  moreover have "idev root_inode = 1" "inum root_inode = 1" "length (iaddrs root_inode) = 13" by (simp_all add: root_inode_def)
  ultimately show ?thesis
    using iupdate_correct [OF root_fs(1), of 0] root_block by (auto simp: root_fs(2-6))
qed

theorem ilock_correct_witness:
  "\<exists>t y. ilock 0 (root_fs\<lparr>inodes := [zero_inode\<lparr>idev := 1, inum := 1, iref := 1\<rparr>]\<rparr>) = Done () t \<and> inodes t = [y] \<and> meta y = meta root_inode"
proof -
  let ?x = "zero_inode\<lparr>idev := 1, inum := 1, iref := 1\<rparr>"
  let ?s = "root_fs\<lparr>inodes := [?x]\<rparr>"
  have d: "dinode example_sb root_disk 1 = meta root_inode"
    using dinode_put [of "\<lambda>_. replicate 1024 0" 1 example_sb root_inode 1]
    by (simp add: root_block dinode_def root_disk_def root_inode_def)
  have tx: "tx ?s [] {}" using root_fs(1) by simp
  have "fst (meta root_inode) \<noteq> 0" by (simp add: meta_def root_inode_def)
  then show ?thesis using ilock_correct [OF tx, of 0] d by (auto simp: root_fs(2-6) zero_inode_def)
qed








theorem dirlookup_correct_witness:
  "(\<exists>t. dirlookup 0 [97] root_fs = kbind (iget 1 2 t) (\<lambda>ip s. Done (Some (ip, 16)) s)) \<and>
   (\<exists>t. dirlookup 0 [98] root_fs = Done None t)"
proof -
  have x: "isize root_inode = 32" "idev root_inode = 1" "itype root_inode = 1" by (simp_all add: root_inode_def)
  have 2: "[0..<2] = [0, Suc 0]" by (simp add: upt_conv_Cons)
  have m: "dir_match root_disk root_inode n 0 \<longleftrightarrow> get16 (dirent 1 [46]) 0 \<noteq> 0 \<and> namecmp n (drop 2 (dirent 1 [46]))"
    "dir_match root_disk root_inode n (Suc 0) \<longleftrightarrow> get16 (dirent 2 [97]) 0 \<noteq> 0 \<and> namecmp n (drop 2 (dirent 2 [97]))" for n
    by (simp_all only: dir_match_def root_entries)
  have c: "get16 (dirent 1 [46]) 0 = 1" "get16 (dirent 2 [97]) 0 = 2"
    "\<not> namecmp [97] (drop 2 (dirent 1 [46]))" "namecmp [97] (drop 2 (dirent 2 [97]))"
    "\<not> namecmp [98] (drop 2 (dirent 1 [46]))" "\<not> namecmp [98] (drop 2 (dirent 2 [97]))"
    by code_simp+
  have f: "find (dir_match root_disk root_inode [97]) [0..<2] = Some (Suc 0)" "find (dir_match root_disk root_inode [98]) [0..<2] = None"
    "get16 (dir_entry root_disk root_inode (Suc 0)) 0 = 2"
    unfolding 2 by (simp_all add: m c root_entries)
  show ?thesis
    using dirlookup_correct [OF root_fs(1), of 0 2 "[97]"] dirlookup_correct [OF root_fs(1), of 0 2 "[98]"] root_file
    by (auto simp: root_fs(2-6) x f)
qed

end
