(* ===== verification/FsWrite.thy ===== *)
theory FsWrite
  imports FsInodes
begin

text \<open>
  Writing files: \<^verbatim>\<open>bmap\<close> where it allocates blocks, and \<^verbatim>\<open>writei\<close>. The blocks of a file are its data blocks and its block of addresses; a
  well-formed file has each of them once, marked as used in the free map. Writing keeps this, changes exactly the bytes of the range, and touches no
  block of another file. The transaction must have room in the log for four blocks for each block written.
\<close>

section \<open>Well-formed files\<close>

definition map_block :: "superblock \<Rightarrow> uint \<Rightarrow> bool" where
  "map_block sp b \<longleftrightarrow> (\<exists>c < unat (sb_size sp). b = BBLOCK (of_nat c) sp)"

definition free_block :: "superblock \<Rightarrow> (uint \<Rightarrow> block) \<Rightarrow> uint \<Rightarrow> bool" where
  "free_block sp C b \<longleftrightarrow> unat b < unat (sb_size sp) \<and> \<not> used sp C (unat b)"

definition file_block :: "(uint \<Rightarrow> block) \<Rightarrow> inode \<Rightarrow> uint \<Rightarrow> bool" where
  "file_block C x b \<longleftrightarrow> b \<noteq> 0 \<and> (b = iaddrs x ! 12 \<or> (\<exists>i<268. b = fblock C x i))"

text \<open>A block in use by a file: in the file system, outside the log and the free map.\<close>

definition home_ok :: "superblock \<Rightarrow> uint \<Rightarrow> (uint \<Rightarrow> block) \<Rightarrow> uint \<Rightarrow> bool" where
  "home_ok sp start C b \<longleftrightarrow> b \<notin> log_area start \<and> unat b < unat (sb_size sp) \<and> used sp C (unat b) \<and> \<not> map_block sp b \<and> length (C b) = BSIZE"

definition wf_file :: "superblock \<Rightarrow> uint \<Rightarrow> (uint \<Rightarrow> block) \<Rightarrow> inode \<Rightarrow> bool" where
  "wf_file sp start C x \<longleftrightarrow> length (iaddrs x) = NDIRECT + 1 \<and> (\<forall>b. file_block C x b \<longrightarrow> home_ok sp start C b) \<and>
     (\<forall>i<268. \<forall>j<268. fblock C x i \<noteq> 0 \<longrightarrow> fblock C x i = fblock C x j \<longrightarrow> i = j) \<and>
     (\<forall>i<268. fblock C x i \<noteq> 0 \<longrightarrow> fblock C x i \<noteq> iaddrs x ! 12)"

lemma wf_fileI:
  assumes "length (iaddrs x) = 13" "\<And>b. file_block C x b \<Longrightarrow> home_ok sp start C b"
    "\<And>i j. i < 268 \<Longrightarrow> j < 268 \<Longrightarrow> fblock C x i \<noteq> 0 \<Longrightarrow> fblock C x i = fblock C x j \<Longrightarrow> i = j"
    "\<And>i. i < 268 \<Longrightarrow> fblock C x i \<noteq> 0 \<Longrightarrow> fblock C x i \<noteq> iaddrs x ! 12"
  shows "wf_file sp start C x"
proof -
  have "length (iaddrs x) = 12 + 1" using assms(1) by simp
  then show ?thesis using assms(2-4) unfolding wf_file_def by blast
qed

lemma wf_fileD:
  assumes "wf_file sp start C x"
  shows "length (iaddrs x) = 13" "\<And>b. file_block C x b \<Longrightarrow> home_ok sp start C b"
    "\<And>i j. i < 268 \<Longrightarrow> j < 268 \<Longrightarrow> fblock C x i \<noteq> 0 \<Longrightarrow> fblock C x i = fblock C x j \<Longrightarrow> i = j"
    "\<And>i. i < 268 \<Longrightarrow> fblock C x i \<noteq> 0 \<Longrightarrow> fblock C x i \<noteq> iaddrs x ! 12"
    "\<And>i. i < 268 \<Longrightarrow> fblock C x i \<noteq> 0 \<Longrightarrow> home_ok sp start C (fblock C x i)"
    "iaddrs x ! 12 \<noteq> 0 \<Longrightarrow> home_ok sp start C (iaddrs x ! 12)"
proof -
  show h: "home_ok sp start C b" if "file_block C x b" for b using that assms by (simp add: wf_file_def)
  show "length (iaddrs x) = 13" using assms by (simp add: wf_file_def)
  show "i = j" if "i < 268" "j < 268" "fblock C x i \<noteq> 0" "fblock C x i = fblock C x j" for i j
    using assms that unfolding wf_file_def by blast
  show "fblock C x i \<noteq> iaddrs x ! 12" if "i < 268" "fblock C x i \<noteq> 0" for i using assms that unfolding wf_file_def by blast
  show "home_ok sp start C (fblock C x i)" if "i < 268" "fblock C x i \<noteq> 0" for i by (rule h) (use that in \<open>auto simp: file_block_def\<close>)
  show "home_ok sp start C (iaddrs x ! 12)" if "iaddrs x ! 12 \<noteq> 0" by (rule h) (use that in \<open>simp add: file_block_def\<close>)
qed

text \<open>
  The file grows from \<open>x\<close> over \<open>C\<close> to \<open>x'\<close> over \<open>C'\<close>: its blocks stay, new ones come from the free blocks, and a block
  that is no longer free is one of them; nothing else changes but the free map, free blocks and blocks of the file.
\<close>

definition grown :: "superblock \<Rightarrow> (uint \<Rightarrow> block) \<Rightarrow> inode \<Rightarrow> (uint \<Rightarrow> block) \<Rightarrow> inode \<Rightarrow> bool" where
  "grown sp C x C' x' \<longleftrightarrow> x' = x\<lparr>iaddrs := iaddrs x'\<rparr> \<and>
     (\<forall>i<268. fblock C x i \<noteq> 0 \<longrightarrow> fblock C' x' i = fblock C x i) \<and> (iaddrs x ! 12 \<noteq> 0 \<longrightarrow> iaddrs x' ! 12 = iaddrs x ! 12) \<and>
     (\<forall>b. free_block sp C b \<longrightarrow> free_block sp C' b \<or> file_block C' x' b) \<and>
     (\<forall>b. file_block C' x' b \<longrightarrow> file_block C x b \<or> free_block sp C b) \<and>
     (\<forall>b. free_block sp C' b \<longrightarrow> free_block sp C b) \<and>
     (\<forall>b. C' b \<noteq> C b \<longrightarrow> map_block sp b \<or> free_block sp C b \<or> file_block C x b)"

lemma grown_file:
  assumes "grown sp C x C' x'" "file_block C x b"
  shows "file_block C' x' b"
proof -
  consider "b \<noteq> 0" "b = iaddrs x ! 12" | i where "i < 268" "b \<noteq> 0" "b = fblock C x i" using assms(2) by (auto simp: file_block_def)
  then show ?thesis
  proof cases
    case 1
    then show ?thesis using assms(1) by (simp add: grown_def file_block_def)
  next
    case 2
    then have "fblock C' x' i = b" using assms(1) by (simp add: grown_def)
    then show ?thesis using 2 by (auto simp: file_block_def)
  qed
qed

lemma grown_refl: "grown sp C x C x"
  by (simp add: grown_def)

lemma grown_trans:
  assumes "grown sp C x C1 x1" "grown sp C1 x1 C2 x2"
  shows "grown sp C x C2 x2"
proof -
  have e: "x1 = x\<lparr>iaddrs := iaddrs x1\<rparr>" "x2 = x1\<lparr>iaddrs := iaddrs x2\<rparr>" using assms by (simp_all add: grown_def)
  have "x1\<lparr>iaddrs := v\<rparr> = x\<lparr>iaddrs := v\<rparr>" for v by (subst e(1)) simp
  then have "x2 = x\<lparr>iaddrs := iaddrs x2\<rparr>" using e(2) by simp
  moreover have "fblock C2 x2 i = fblock C x i" if "i < 268" "fblock C x i \<noteq> 0" for i
    using assms that unfolding grown_def by simp
  moreover have "file_block C x b \<or> free_block sp C b" if "file_block C2 x2 b" for b
    using assms that unfolding grown_def by blast
  moreover have "free_block sp C2 b \<or> file_block C2 x2 b" if "free_block sp C b" for b
    using assms(1) grown_file [OF assms(2)] assms(2) that unfolding grown_def by blast
  moreover have "iaddrs x2 ! 12 = iaddrs x ! 12" if "iaddrs x ! 12 \<noteq> 0" using assms that unfolding grown_def by simp
  moreover have "free_block sp C b" if "free_block sp C2 b" for b using assms that unfolding grown_def by blast
  moreover have "map_block sp b \<or> free_block sp C b \<or> file_block C x b" if "C2 b \<noteq> C b" for b
  proof (cases "C2 b = C1 b")
    case True
    then have "C1 b \<noteq> C b" using that by simp
    then show ?thesis using assms(1) unfolding grown_def by blast
  next
    case False
    then have "map_block sp b \<or> free_block sp C1 b \<or> file_block C1 x1 b" using assms(2) unfolding grown_def by blast
    then show ?thesis using assms(1) unfolding grown_def by blast
  qed
  ultimately show ?thesis unfolding grown_def by blast
qed

section \<open>A new block\<close>

lemma fblock_cong: "iaddrs x' = iaddrs x \<Longrightarrow> (iaddrs x ! 12 \<noteq> 0 \<Longrightarrow> C' (iaddrs x ! 12) = C (iaddrs x ! 12)) \<Longrightarrow> fblock C' x' i = fblock C x i"
  by (simp add: fblock_def)

lemma file_block_cong: "iaddrs x' = iaddrs x \<Longrightarrow> (\<And>i. i < 268 \<Longrightarrow> fblock C' x' i = fblock C x i) \<Longrightarrow> file_block C' x' b = file_block C x b"
  by (auto simp: file_block_def)

lemma wf_file_cong:
  assumes wf: "wf_file sp start C x" and x: "iaddrs x' = iaddrs x" and f: "\<And>i. i < 268 \<Longrightarrow> fblock C' x' i = fblock C x i"
    and h: "\<And>b. home_ok sp start C b \<Longrightarrow> file_block C x b \<Longrightarrow> home_ok sp start C' b"
  shows "wf_file sp start C' x'"
proof -
  have "file_block C' x' b \<longleftrightarrow> file_block C x b" for b by (rule file_block_cong [OF x f])
  then show ?thesis using wf h x f unfolding wf_file_def by simp
qed

lemma unat_block: "y < unat (sb_size sp) \<Longrightarrow> unat (of_nat y :: uint) = y"
  using size_32 [of y sp] by (simp add: unat_of_nat take_bit_nat_eq_self)

lemma free_block_of_nat: "y < unat (sb_size sp) \<Longrightarrow> free_block sp C (of_nat y) \<longleftrightarrow> \<not> used sp C y"
  by (simp add: free_block_def unat_block)

lemma home_not_free: "home_ok sp start C b \<Longrightarrow> \<not> free_block sp C b"
  by (simp add: home_ok_def free_block_def)

lemma allocated_blocks:
  assumes ok: "bitmap_ok sp start C" and y: "y < unat (sb_size sp)" "\<not> used sp C y"
  shows "home_ok sp start C b \<Longrightarrow> allocated sp y C b = C b" "home_ok sp start C b \<Longrightarrow> home_ok sp start (allocated sp y C) b"
    "home_ok sp start (allocated sp y C) (of_nat y)" "allocated sp y C (of_nat y) = replicate BSIZE 0"
    "free_block sp (allocated sp y C) b \<longleftrightarrow> free_block sp C b \<and> b \<noteq> of_nat y"
    "allocated sp y C b \<noteq> C b \<Longrightarrow> map_block sp b \<or> free_block sp C b"
proof -
  have u: "unat (of_nat y :: uint) = y" by (rule unat_block [OF y(1)])
  note us = used_allocated [OF ok y] and bo = bitmap_okD [OF ok y(1)]
  show z: "allocated sp y C (of_nat y) = replicate BSIZE 0" by (simp add: allocated_def)
  show same: "allocated sp y C b = C b" if "home_ok sp start C b" for b
    using that y u unfolding allocated_def home_ok_def map_block_def by auto
  show "home_ok sp start (allocated sp y C) b" if "home_ok sp start C b"
    using that same [OF that] us [of "unat b"] by (simp add: home_ok_def)
  have "\<not> map_block sp (of_nat y)" using bo(4) [OF y(2)] by (auto simp: map_block_def)
  then show "home_ok sp start (allocated sp y C) (of_nat y)"
    using bo(3) [OF y(2)] y(1) us [OF y(1)] u z by (simp add: home_ok_def)
  have "unat b = y \<longleftrightarrow> b = of_nat y" using u by (simp add: word_unat_eq_iff)
  then show "free_block sp (allocated sp y C) b \<longleftrightarrow> free_block sp C b \<and> b \<noteq> of_nat y"
    using us [of "unat b"] by (auto simp: free_block_def)
  show "map_block sp b \<or> free_block sp C b" if "allocated sp y C b \<noteq> C b"
    using that y free_block_of_nat [OF y(1)] by (auto simp: allocated_def map_block_def split: if_splits)
qed

lemma wf_allocated:
  assumes ok: "bitmap_ok sp start C" and y: "y < unat (sb_size sp)" "\<not> used sp C y" and wf: "wf_file sp start C x"
  shows "wf_file sp start (allocated sp y C) x" "fblock (allocated sp y C) x i = fblock C x i" "\<not> file_block C x (of_nat y)"
    "file_block C x b \<Longrightarrow> allocated sp y C b = C b"
proof -
  note ab = allocated_blocks [OF ok y] and w = wf_fileD [OF wf]
  show f: "fblock (allocated sp y C) x i = fblock C x i" for i by (rule fblock_cong) (use w(6) ab(1) in auto)
  show "wf_file sp start (allocated sp y C) x" by (rule wf_file_cong [OF wf refl f ab(2)])
  show "\<not> file_block C x (of_nat y)" using w(2) home_not_free free_block_of_nat [OF y(1)] y(2) by blast
  show "file_block C x b \<Longrightarrow> allocated sp y C b = C b" using w(2) ab(1) by blast
qed


text \<open>A block outside the free map changes.\<close>

lemma used_upd: "\<not> map_block sp c \<Longrightarrow> y < unat (sb_size sp) \<Longrightarrow> used sp (C(c := d)) y = used sp C y"
  by (auto simp: used_def map_block_def)

lemma home_upd: "\<not> map_block sp c \<Longrightarrow> length d = length (C c) \<Longrightarrow> home_ok sp start (C(c := d)) b = home_ok sp start C b"
  using used_upd [of sp c "unat b" C d] by (auto simp: home_ok_def)

lemma free_upd: "\<not> map_block sp c \<Longrightarrow> free_block sp (C(c := d)) b = free_block sp C b"
  using used_upd [of sp c "unat b" C d] by (auto simp: free_block_def)

lemma bitmap_ok_upd: "\<not> map_block sp c \<Longrightarrow> bitmap_ok sp start C \<Longrightarrow> bitmap_ok sp start (C(c := d))"
  using used_upd [of sp c _ C d] by (auto simp: bitmap_ok_def map_block_def)

text \<open>The new block becomes block \<open>bn\<close> of the file.\<close>

lemma wf_add:
  assumes wf: "wf_file sp start C x" and a: "a \<noteq> 0" "home_ok sp start C' a" "\<not> file_block C x a" and bn: "bn < 268"
    and x': "length (iaddrs x') = 13" "iaddrs x' ! 12 = iaddrs x ! 12"
    and f: "\<And>i. i < 268 \<Longrightarrow> fblock C' x' i = (if i = bn then a else fblock C x i)"
    and h: "\<And>b. home_ok sp start C b \<Longrightarrow> home_ok sp start C' b"
  shows "wf_file sp start C' x'" "file_block C' x' b \<Longrightarrow> file_block C x b \<or> b = a"
proof -
  note w = wf_fileD [OF wf]
  show fb: "file_block C x b \<or> b = a" if "file_block C' x' b" for b
    using that f x'(2) by (auto simp: file_block_def split: if_splits)
  have home: "home_ok sp start C' b" if "file_block C' x' b" for b using fb [OF that] w(2) h a(2) by blast
  have na: "fblock C x i \<noteq> a" if "i < 268" for i using a(1,3) that by (auto simp: file_block_def)
  have "i = j" if "i < 268" "j < 268" "fblock C' x' i \<noteq> 0" "fblock C' x' i = fblock C' x' j" for i j
    using that f na w(3) [of i j] by (auto split: if_splits)
  moreover have "fblock C' x' i \<noteq> iaddrs x' ! 12" if "i < 268" "fblock C' x' i \<noteq> 0" for i
    using that f [OF that(1)] w(4) [of i] a(1,3) x'(2) by (auto simp: file_block_def split: if_splits)
  ultimately show "wf_file sp start C' x'" using home x'(1) by (intro wf_fileI)
qed

lemma wf_direct:
  assumes wf: "wf_file sp start C x" and bn: "bn < 12" and a: "a \<noteq> 0" "home_ok sp start C a" "\<not> file_block C x a"
  defines "x' \<equiv> x\<lparr>iaddrs := (iaddrs x)[bn := a]\<rparr>"
  shows "wf_file sp start C x'" "file_block C x' b \<Longrightarrow> file_block C x b \<or> b = a"
    "i < 268 \<Longrightarrow> fblock C x' i = (if i = bn then a else fblock C x i)"
proof -
  note w = wf_fileD [OF wf]
  show f: "fblock C x' i = (if i = bn then a else fblock C x i)" if "i < 268" for i
    using bn w(1) by (auto simp: fblock_def x'_def nth_list_update)
  have l: "length (iaddrs x') = 13" "iaddrs x' ! 12 = iaddrs x ! 12" "bn < 268" using w(1) bn by (simp_all add: x'_def)
  show "wf_file sp start C x'" "file_block C x' b \<Longrightarrow> file_block C x b \<or> b = a" using wf_add [OF wf a l(3,1,2) f] by blast+
qed

lemma wf_entry:
  assumes wf: "wf_file sp start C x" and bn: "12 \<le> bn" "bn < 268" and ia: "iaddrs x ! 12 \<noteq> 0"
    and a: "a \<noteq> 0" "home_ok sp start C a" "\<not> file_block C x a"
  defines "C' \<equiv> C(iaddrs x ! 12 := put32 (C (iaddrs x ! 12)) (4 * (bn - 12)) a)"
  shows "wf_file sp start C' x" "file_block C' x b \<Longrightarrow> file_block C x b \<or> b = a"
    "i < 268 \<Longrightarrow> fblock C' x i = (if i = bn then a else fblock C x i)"
proof -
  note w = wf_fileD [OF wf]
  have h: "\<not> map_block sp (iaddrs x ! 12)" "length (C (iaddrs x ! 12)) = 1024" using w(6) [OF ia] by (simp_all add: home_ok_def)
  have "get32 (put32 (C (iaddrs x ! 12)) (4 * (bn - 12)) a) (4 * (i - 12)) = (if i = bn then a else get32 (C (iaddrs x ! 12)) (4 * (i - 12)))"
    if "12 \<le> i" "i < 268" for i
  proof (cases "i = bn")
    case True
    then show ?thesis using bn h(2) by (simp add: get32_put32_same)
  next
    case False
    then have "4 * (i - 12) + 4 \<le> 4 * (bn - 12) \<or> 4 * (bn - 12) + 4 \<le> 4 * (i - 12)" using that bn by linarith
    then show ?thesis using False by (simp add: get32_put32_other)
  qed
  then show f: "fblock C' x i = (if i = bn then a else fblock C x i)" if "i < 268" for i
    using that bn ia by (auto simp: fblock_def C'_def)
  have hh: "home_ok sp start C' b = home_ok sp start C b" for b unfolding C'_def by (rule home_upd [OF h(1)]) simp
  have "home_ok sp start C' a" using a(2) hh by simp
  from wf_add [OF wf a(1) this a(3) bn(2) w(1) refl f] show "wf_file sp start C' x" "file_block C' x b \<Longrightarrow> file_block C x b \<or> b = a"
    using hh by blast+
qed

lemma wf_indirect:
  assumes wf: "wf_file sp start C x" and ia: "iaddrs x ! 12 = 0" and a: "a \<noteq> 0" "home_ok sp start C a" "\<not> file_block C x a"
    and z: "C a = replicate BSIZE 0"
  defines "x' \<equiv> x\<lparr>iaddrs := (iaddrs x)[12 := a]\<rparr>"
  shows "wf_file sp start C x'" "file_block C x' b \<Longrightarrow> file_block C x b \<or> b = a" "fblock C x' i = fblock C x i" "iaddrs x' ! 12 = a"
proof -
  note w = wf_fileD [OF wf]
  show a12: "iaddrs x' ! 12 = a" using w(1) by (simp add: x'_def)
  have "get32 (C a) k = 0" for k by (rule get32_zeros [OF z])
  then show f: "fblock C x' i = fblock C x i" for i using ia a(1) w(1) by (simp add: fblock_def x'_def)
  show fb: "file_block C x b \<or> b = a" if "file_block C x' b" for b using that f a12 by (auto simp: file_block_def)
  have "home_ok sp start C b" if "file_block C x' b" for b using fb [OF that] w(2) a(2) by blast
  moreover have "fblock C x i \<noteq> a" if "i < 268" for i using a(1,3) that by (auto simp: file_block_def)
  ultimately show "wf_file sp start C x'" using w(1,3) a12 f unfolding wf_file_def by (simp add: x'_def)
qed


section \<open>Allocation in a transaction\<close>

lemma alloc_pre_inodes [simp]: "alloc_pre (s\<lparr>inodes := xs\<rparr>) L H = alloc_pre s L H"
  by (simp add: alloc_pre_def)

lemma balloc_cases:
  fixes s :: "'z fsst_scheme"
  defines "sp \<equiv> sb s" and "C \<equiv> content (log_dev s) s"
  assumes pre: "alloc_pre s L H" and boot: "used sp C 0" and room: "length L < 28" "length L + card H < 29"
  obtains (full) t where "balloc (log_dev s) s = Done 0 t" "alloc_pre t L H" "same_tx s t" "content (log_dev s) t = C" "kept H s t"
      "\<And>b. \<not> free_block sp C b"
  | (ok) y t L' where "balloc (log_dev s) s = Done (of_nat y) t" "y < unat (sb_size sp)" "\<not> used sp C y" "of_nat y \<noteq> (0 :: uint)" "alloc_pre t L' H"
      "same_tx s t" "content (log_dev s) t = allocated sp y C" "kept H s t" "length L' \<le> length L + 2" "of_nat y \<in> set L'" "set L \<subseteq> set L'"
proof -
  note sp = balloc_loop_spec [OF pre room, of 0, OF _ refl, folded sp_def C_def]
  have bl: "balloc (log_dev s) s = balloc_loop (log_dev s) (unat (sb_size sp)) 0 s" by (simp add: balloc_def sp_def)
  show thesis
  proof (cases "find (\<lambda>x. \<not> used sp C x) [0..<unat (sb_size sp)]")
    case None
    then obtain t where t: "balloc (log_dev s) s = Done 0 t" "tx t L H" "same_tx s t" "content (log_dev s) t = C" "kept H s t"
      using sp unfolding bl by auto
    have "\<not> free_block sp C b" for b using None by (auto simp: find_None_iff free_block_def)
    then show thesis using t alloc_pre_same [OF pre t(2,3) _ t(5)] by (intro full [of t]) (simp_all add: C_def)
  next
    case (Some y)
    let ?L = "log_add (of_nat y) (log_add (BBLOCK (of_nat y) sp) L)"
    obtain t where t: "balloc (log_dev s) s = Done (of_nat y) t" "tx t ?L H" "same_tx s t" "content (log_dev s) t = allocated sp y C" "kept H s t"
      using sp Some unfolding bl by auto
    note y = find_upt_SomeD [OF Some]
    have y': "y < unat (sb_size sp)" "\<not> used sp C y" using y by simp_all
    note f = same_txD [OF t(3)] same_tx_fs [OF t(3)] and p = alloc_preD [OF pre, folded sp_def C_def]
    have "y \<noteq> 0" using y boot by (cases y) auto
    then have "of_nat y \<noteq> (0 :: uint)" using unat_block [OF y'(1)] by (metis unat_0)
    moreover have "alloc_pre t ?L H"
      using t(2,5) p(3,4) bitmap_ok_allocated [OF p(2) y'] used_allocated [OF p(2) y']
      unfolding alloc_pre_def kept_def by (simp add: f t(4) sp_def [symmetric])
    moreover have "length ?L \<le> length L + 2"
      using log_add_simps(2) [of "of_nat y" "log_add (BBLOCK (of_nat y) sp) L"] log_add_simps(2) [of "BBLOCK (of_nat y) sp" L] by linarith
    ultimately show thesis using t y' by (intro ok [of y t ?L]) auto
  qed
qed

text \<open>A transaction with a well-formed file; the boot block counts as used.\<close>

definition file_state :: "'z fsst_scheme \<Rightarrow> uint list \<Rightarrow> nat \<Rightarrow> bool" where
  "file_state s L ip \<longleftrightarrow> alloc_pre s L {} \<and> ip < length (inodes s) \<and> idev (inodes s ! ip) = log_dev s \<and>
     wf_file (sb s) (log_start s) (content (log_dev s) s) (inodes s ! ip) \<and> 0 < unat (sb_size (sb s)) \<and> used (sb s) (content (log_dev s) s) 0"

text \<open>The file grows and the data of its blocks stays.\<close>

definition grew :: "nat \<Rightarrow> 'z fsst_scheme \<Rightarrow> 'z fsst_scheme \<Rightarrow> bool" where
  "grew ip s t \<longleftrightarrow> same_proc s t \<and> log_dev t = log_dev s \<and> log_start t = log_start s \<and> sb t = sb s \<and> inodes t = (inodes s)[ip := inodes t ! ip] \<and>
     grown (sb s) (content (log_dev s) s) (inodes s ! ip) (content (log_dev s) t) (inodes t ! ip) \<and>
     (\<forall>i<268. fblock (content (log_dev s) s) (inodes s ! ip) i \<noteq> 0 \<longrightarrow>
        content (log_dev s) t (fblock (content (log_dev s) s) (inodes s ! ip) i) = content (log_dev s) s (fblock (content (log_dev s) s) (inodes s ! ip) i))"

lemma grew_trans:
  assumes "grew ip s t" "grew ip t u"
  shows "grew ip s u"
proof -
  let ?C = "content (log_dev s)"
  have t: "log_dev t = log_dev s" "sb t = sb s" "grown (sb s) (?C s) (inodes s ! ip) (?C t) (inodes t ! ip)"
    and d: "\<And>i. i < 268 \<Longrightarrow> fblock (?C s) (inodes s ! ip) i \<noteq> 0 \<Longrightarrow> ?C t (fblock (?C s) (inodes s ! ip) i) = ?C s (fblock (?C s) (inodes s ! ip) i)"
    using assms(1) by (simp_all add: grew_def)
  have u: "grown (sb s) (?C t) (inodes t ! ip) (?C u) (inodes u ! ip)"
    and du: "\<And>i. i < 268 \<Longrightarrow> fblock (?C t) (inodes t ! ip) i \<noteq> 0 \<Longrightarrow> ?C u (fblock (?C t) (inodes t ! ip) i) = ?C t (fblock (?C t) (inodes t ! ip) i)"
    using assms(2) t by (simp_all add: grew_def)
  have "fblock (?C t) (inodes t ! ip) i = fblock (?C s) (inodes s ! ip) i" if "i < 268" "fblock (?C s) (inodes s ! ip) i \<noteq> 0" for i
    using t(3) that by (simp add: grown_def)
  then have "?C u (fblock (?C s) (inodes s ! ip) i) = ?C s (fblock (?C s) (inodes s ! ip) i)" if "i < 268" "fblock (?C s) (inodes s ! ip) i \<noteq> 0" for i
    using d [OF that] du [OF that(1)] that by simp
  moreover have "inodes u = (inodes s)[ip := inodes u ! ip]"
  proof -
    have e: "inodes u = (inodes t)[ip := inodes u ! ip]" "inodes t = (inodes s)[ip := inodes t ! ip]" using assms by (simp_all add: grew_def)
    have "(inodes t)[ip := v] = (inodes s)[ip := v]" for v by (subst e(2)) simp
    then show ?thesis using e(1) by simp
  qed
  moreover have "same_proc s u" using assms same_proc_trans by (auto simp: grew_def)
  ultimately show ?thesis using assms grown_trans [OF t(3) u] by (simp add: grew_def)
qed

lemma grew_same:
  assumes "same_tx s t" "content (log_dev s) t = content (log_dev s) s"
  shows "grew ip s t"
  using same_txD [OF assms(1)] same_tx_fs [OF assms(1)] same_proc_tx [OF assms(1)] assms(2) grown_refl by (simp add: grew_def)

lemma file_state_same:
  assumes "file_state s L ip" "alloc_pre t L' {}" "same_tx s t" "content (log_dev s) t = content (log_dev s) s"
  shows "file_state t L' ip"
  using assms(1,2) same_txD [OF assms(3)] same_tx_fs [OF assms(3)] assms(4) by (simp add: file_state_def)


text \<open>A new block whose address goes into the inode.\<close>

lemma alloc_inode:
  fixes s :: "'z fsst_scheme" and ip :: nat
  defines "C \<equiv> content (log_dev s) s" and "x \<equiv> inodes s ! ip"
  assumes fs: "file_state s L ip" and k: "k < 13" "iaddrs x ! k = 0" and room: "length L < 28"
  obtains (full) t where "kbind (balloc (idev x) s) (\<lambda>addr s. if addr = 0 then Done 0 s
        else Done addr (upd_inode ip (\<lambda>x. x\<lparr>iaddrs := (iaddrs x)[k := addr]\<rparr>) s)) = Done 0 t"
      "file_state t L ip" "grew ip s t" "content (log_dev s) t = C" "inodes t = inodes s" "\<And>b. \<not> free_block (sb s) C b"
  | (ok) a t L' where "kbind (balloc (idev x) s) (\<lambda>addr s. if addr = 0 then Done 0 s
        else Done addr (upd_inode ip (\<lambda>x. x\<lparr>iaddrs := (iaddrs x)[k := addr]\<rparr>) s)) = Done a t" "a \<noteq> 0"
      "file_state t L' ip" "grew ip s t" "length L' \<le> length L + 2" "a \<in> set L'" "iaddrs (inodes t ! ip) = (iaddrs x)[k := a]"
      "\<And>i. i < 268 \<Longrightarrow> fblock (content (log_dev s) t) (inodes t ! ip) i = (if i = k \<and> k < 12 then a else fblock C x i)"
proof -
  let ?sp = "sb s" and ?st = "log_start s" and ?dev = "log_dev s"
  have f: "alloc_pre s L {}" "ip < length (inodes s)" "idev x = ?dev" "wf_file ?sp ?st C x" "used ?sp C 0" and r: "length L + card ({} :: nat set) < 29"
    using fs room by (simp_all add: file_state_def C_def x_def)
  have bok: "bitmap_ok ?sp ?st C" using alloc_preD(2) [OF f(1)] by (simp add: C_def)
  from f(1) f(5) [unfolded C_def] room r show thesis
  proof (cases rule: balloc_cases [of s L "{}"])
    case (full t)
    then show thesis using file_state_same [OF fs full(2-4)] grew_same [OF full(3,4)] same_tx_fs [OF full(3)] f(3)
      by (intro that(1) [of t]) (simp_all add: C_def)
  next
    case (ok y t L')
    let ?a = "of_nat y :: uint" and ?C' = "allocated ?sp y C" and ?x = "x\<lparr>iaddrs := (iaddrs x)[k := of_nat y]\<rparr>"
    let ?t = "upd_inode ip (\<lambda>x. x\<lparr>iaddrs := (iaddrs x)[k := ?a]\<rparr>) t"
    have y: "y < unat (sb_size ?sp)" "\<not> used ?sp C y" using ok(2,3) by (simp_all add: C_def)
    note ab = allocated_blocks [OF bok y] and wa = wf_allocated [OF bok y f(4)]
    have ct: "content ?dev t = ?C'" using ok(7) by (simp add: C_def)
    have nfa: "\<not> file_block ?C' x ?a" using wa(3) file_block_cong [OF refl wa(2)] by blast
    have wf: "wf_file ?sp ?st ?C' ?x" and fb: "\<And>b. file_block ?C' ?x b \<Longrightarrow> file_block ?C' x b \<or> b = ?a"
      and fbl: "\<And>i. i < 268 \<Longrightarrow> fblock ?C' ?x i = (if i = k \<and> k < 12 then ?a else fblock C x i)"
    proof (atomize (full), cases "k = 12")
      case True
      have ia: "iaddrs x ! 12 = 0" using k(2) True by simp
      show "wf_file ?sp ?st ?C' ?x \<and> (\<forall>b. file_block ?C' ?x b \<longrightarrow> file_block ?C' x b \<or> b = ?a) \<and>
          (\<forall>i. i < 268 \<longrightarrow> fblock ?C' ?x i = (if i = k \<and> k < 12 then ?a else fblock C x i))"
        using wf_indirect [OF wa(1) ia ok(4) ab(3) nfa ab(4)] wa(2) unfolding True by simp
    next
      case False
      then have k12: "k < 12" using k(1) by simp
      from wf_direct [OF wa(1) this ok(4) ab(3) nfa] show "wf_file ?sp ?st ?C' ?x \<and> (\<forall>b. file_block ?C' ?x b \<longrightarrow> file_block ?C' x b \<or> b = ?a) \<and>
          (\<forall>i. i < 268 \<longrightarrow> fblock ?C' ?x i = (if i = k \<and> k < 12 then ?a else fblock C x i))"
        using wa(2) k12 by simp
    qed
    note ft = same_txD [OF ok(6)] same_tx_fs [OF ok(6)]
    have it: "inodes ?t = (inodes s)[ip := ?x]" "inodes ?t ! ip = ?x" using f(2) ft by (simp_all add: upd_inode_def x_def)
    have ct': "content ?dev ?t = ?C'" using ct by (simp add: upd_inode_def)
    have "file_state ?t L' ip" using ok(5) f(2,3) wf ab(1) used_allocated [OF bok y, of 0] f(5) y ft ct
      by (auto simp: file_state_def upd_inode_def x_def)
    moreover have "grew ip s ?t"
    proof -
      have nz: "\<not> (i = k \<and> k < 12)" if "fblock C x i \<noteq> 0" for i using that k(2) by (auto simp: fblock_def)
      have "free_block ?sp C ?a" using free_block_of_nat [OF y(1)] y(2) by simp
      then have "file_block C x b \<or> free_block ?sp C b" if "file_block ?C' ?x b" for b
        using fb [OF that] file_block_cong [OF refl wa(2)] by blast
      moreover have "map_block ?sp b \<or> free_block ?sp C b \<or> file_block C x b" if "?C' b \<noteq> C b" for b using ab(6) [OF that] by blast
      moreover have "free_block ?sp C b" if "free_block ?sp ?C' b" for b using ab(5) that by blast
      moreover have "fblock ?C' ?x i = fblock C x i" if "i < 268" "fblock C x i \<noteq> 0" for i using fbl that nz by auto
      moreover have "?x = x\<lparr>iaddrs := iaddrs ?x\<rparr>" by simp
      moreover have "file_block ?C' ?x ?a"
        using k(1) fbl [of k] ok(4) wf_fileD(1) [OF f(4)] by (cases "k = 12") (auto simp: file_block_def intro!: exI [of _ k])
      then have "free_block ?sp ?C' b \<or> file_block ?C' ?x b" if "free_block ?sp C b" for b using ab(5) that by blast
      moreover have "iaddrs ?x ! 12 = iaddrs x ! 12" if "iaddrs x ! 12 \<noteq> 0" using k(2) that by (cases "k = 12") simp_all
      ultimately have "grown ?sp C x ?C' ?x" unfolding grown_def by blast
      moreover have "?C' (fblock C x i) = C (fblock C x i)" if "i < 268" "fblock C x i \<noteq> 0" for i
        using wa(4) that by (auto simp: file_block_def)
      moreover have "log_dev ?t = log_dev s" "log_start ?t = log_start s" "sb ?t = sb s" "same_proc s ?t"
        using ft same_proc_tx [OF ok(6)] by (simp_all) (simp_all add: upd_inode_def)
      ultimately show ?thesis unfolding grew_def it(2) ct' C_def x_def [symmetric] using it(1) by simp
    qed
    moreover have "kbind (balloc (idev x) s) (\<lambda>addr s. if addr = 0 then Done 0 s
        else Done addr (upd_inode ip (\<lambda>x. x\<lparr>iaddrs := (iaddrs x)[k := addr]\<rparr>) s)) = Done ?a ?t" using ok(1,4) f(3) by simp
    ultimately show thesis using ok(4,9,10) it ct' fbl by (intro that(2) [of ?a ?t L']) simp_all
  qed
qed


text \<open>The part of \<^verbatim>\<open>bmap\<close> that looks up, or makes, an entry of the block of addresses \<open>ia\<close>.\<close>

definition bmap_entry :: "uint \<Rightarrow> uint \<Rightarrow> nat \<Rightarrow> 'z fsst_scheme \<Rightarrow> (uint, 'z fsst_scheme) outcome" where
  "bmap_entry dev ia j s =
     kbind (bread dev ia s) (\<lambda>bp s.
       kbind (if get32 (bdata (bufs s ! bp)) (4 * j) = 0
         then kbind (balloc dev s) (\<lambda>addr s.
           if addr \<noteq> 0
           then kbind (log_write bp (upd_data bp (\<lambda>d. put32 d (4 * j) addr) s)) (\<lambda>_ s. Done addr s)
           else Done addr s)
         else Done (get32 (bdata (bufs s ! bp)) (4 * j)) s) (\<lambda>addr s.
       kbind (brelse bp s) (\<lambda>_ s. Done addr s)))"

lemma alloc_pre_hold:
  fixes s :: "'z fsst_scheme"
  assumes pre: "alloc_pre s L {}" and u: "tx u L {bp}" "same_tx s u" "content (log_dev s) u = content (log_dev s) s" "blockno (bufs u ! bp) = ia"
    and ia: "home_ok (sb s) (log_start s) (content (log_dev s) s) ia"
  shows "alloc_pre u L {bp}"
proof -
  note f = same_txD [OF u(2)] same_tx_fs [OF u(2)]
  have "ia \<noteq> BBLOCK (of_nat y) (sb s)" if "y < unat (sb_size (sb s))" for y using ia that by (auto simp: home_ok_def map_block_def)
  moreover have "ia \<noteq> of_nat y" if "y < unat (sb_size (sb s))" "\<not> used (sb s) (content (log_dev s) s) y" for y
    using home_not_free [OF ia] free_block_of_nat [OF that(1)] that(2) by auto
  ultimately show ?thesis using alloc_preD(2) [OF pre] u(1,3,4) f by (simp add: alloc_pre_def)
qed

lemma bmap_entry_new:
  fixes s :: "'z fsst_scheme" and ip :: nat
  defines "C \<equiv> content (log_dev s) s" and "x \<equiv> inodes s ! ip" and "ia \<equiv> iaddrs (inodes s ! ip) ! 12"
  assumes fs: "file_state s L ip" and bn: "12 \<le> bn" "bn < 268" and ia: "ia \<noteq> 0" and z: "fblock C x bn = 0" and room: "length L < 27"
    and u: "bread (log_dev s) ia s = Done bp u" "tx u L {bp}" "same_tx s u" "blockno (bufs u ! bp) = ia" "bdata (bufs u ! bp) = C ia" "content (log_dev s) u = C"
  obtains (full) t where "bmap_entry (log_dev s) ia (bn - 12) s = Done 0 t"
      "file_state t L ip" "grew ip s t" "content (log_dev s) t = C" "inodes t = inodes s" "\<And>b. \<not> free_block (sb s) C b"
  | (ok) a t L' where "bmap_entry (log_dev s) ia (bn - 12) s = Done a t" "a \<noteq> 0"
      "file_state t L' ip" "grew ip s t" "length L' \<le> length L + 3" "a \<in> set L'" "ia \<in> set L \<longrightarrow> length L' \<le> length L + 2" "inodes t = inodes s"
      "\<And>i. i < 268 \<Longrightarrow> fblock (content (log_dev s) t) x i = (if i = bn then a else fblock C x i)"
proof -
  let ?sp = "sb s" and ?st = "log_start s" and ?dev = "log_dev s" and ?j = "4 * (bn - 12)"
  have f: "alloc_pre s L {}" "ip < length (inodes s)" "idev x = ?dev" "wf_file ?sp ?st C x" "used ?sp C 0"
    using fs by (simp_all add: file_state_def C_def x_def)
  have hia: "home_ok ?sp ?st C ia" using wf_fileD(6) [OF f(4)] ia by (simp add: ia_def x_def)
  note fu = same_txD [OF u(3)] same_tx_fs [OF u(3)]
  have g0: "get32 (C ia) ?j = 0" using z bn(1) ia by (simp add: fblock_def ia_def x_def)
  have pre: "alloc_pre u L {bp}" by (rule alloc_pre_hold [OF f(1) u(2,3) _ u(4)]) (use u(6) hia in \<open>simp_all add: C_def\<close>)
  have cu: "content (log_dev u) u = C" "used (sb u) (content (log_dev u) u) 0" using u(6) f(5) by (simp_all add: fu)
  have r: "length L < 28" "length L + card {bp} < 29" using room by simp_all
  from pre cu(2) r show thesis
  proof (cases rule: balloc_cases [of u L "{bp}"])
    case (full t)
    note ft = same_txD [OF full(3)] same_tx_fs [OF full(3)]
    have kb: "blockno (bufs t ! bp) = ia" "bdata (bufs t ! bp) = C ia" using full(5) u(4,5) by (simp_all add: kept_def)
    have rd: "ia \<in> set L \<or> bdata (bufs t ! bp) = disk t ia"
      using tx_clean [OF alloc_preD(1) [OF f(1)], of ia] kb(2) ft fu by (auto simp: C_def)
    obtain v where v: "brelse bp t = Done () v" "tx v L {}" "same_tx t v" "content (log_dev t) v = content (log_dev t) t"
      by (rule tx_release_read [OF alloc_preD(1) [OF full(2)] _ kb(1) rd]) auto
    have sv: "same_tx s v" using u(3) full(3) v(3) by (blast intro: same_tx_trans)
    have cv: "content ?dev v = content ?dev s" using v(4) full(4) cu(1) ft fu by (simp add: C_def)
    have pv: "alloc_pre v L {}" by (rule alloc_pre_same [OF f(1) v(2) sv cv]) (simp add: kept_def)
    have "bmap_entry ?dev ia (bn - 12) s = Done 0 v" using full(1) u(1,5) g0 v(1) fu by (simp add: bmap_entry_def)
    then show thesis using file_state_same [OF fs pv sv cv] grew_same [OF sv cv] cv same_tx_fs [OF sv] full(6) cu(1) fu
      by (intro that(1) [of v]) (simp_all add: C_def)
  next
    case (ok y t L')
    let ?a = "of_nat y :: uint" and ?C1 = "allocated ?sp y C" and ?L = "log_add ia L'"
    let ?C2 = "?C1(ia := put32 (?C1 ia) ?j (of_nat y))"
    note ft = same_txD [OF ok(6)] same_tx_fs [OF ok(6)]
    have y: "y < unat (sb_size ?sp)" "\<not> used ?sp C y" using ok(2,3) cu(1) fu by simp_all
    have bok: "bitmap_ok ?sp ?st C" using alloc_preD(2) [OF f(1)] by (simp add: C_def)
    note ab = allocated_blocks [OF bok y] and wa = wf_allocated [OF bok y f(4)]
    have ct: "content ?dev t = ?C1" using ok(7) cu(1) fu by simp
    have C1: "?C1 ia = C ia" by (rule ab(1) [OF hia])
    have kb: "blockno (bufs t ! bp) = ia" "bdata (bufs t ! bp) = C ia" using ok(8) u(4,5) by (simp_all add: kept_def)
    have home: "ia \<notin> log_area (log_start t)" and nm: "\<not> map_block ?sp ia" using hia ft fu by (simp_all add: home_ok_def)
    have L': "length L' < 29" using ok(9) room by simp
    obtain v where v: "kbind (log_write bp (upd_data bp (\<lambda>d. put32 d ?j ?a) t)) (\<lambda>_ s. brelse bp s) = Done () v" "tx v ?L {}"
        "same_tx t v" "content (log_dev t) v = (content (log_dev t) t)(ia := put32 (bdata (bufs t ! bp)) ?j ?a)"
      by (rule tx_log_release [OF alloc_preD(1) [OF ok(5)] _ kb(1) home L', of "\<lambda>d. put32 d ?j ?a"]) auto
    have sv: "same_tx s v" using u(3) ok(6) v(3) by (blast intro: same_tx_trans)
    note fv = same_txD [OF sv] same_tx_fs [OF sv]
    have cv: "content ?dev v = ?C2" using v(4) ct kb(2) C1 ft fu by simp
    have nfa: "\<not> file_block ?C1 x ?a" using wa(3) file_block_cong [OF refl wa(2)] by blast
    have we: "wf_file ?sp ?st ?C2 x" "\<And>b. file_block ?C2 x b \<Longrightarrow> file_block ?C1 x b \<or> b = ?a"
        "\<And>i. i < 268 \<Longrightarrow> fblock ?C2 x i = (if i = bn then ?a else fblock ?C1 x i)"
      using wf_entry [OF wa(1) bn _ ok(4) ab(3) nfa] ia by (simp_all add: ia_def x_def)
    have fbl: "fblock ?C2 x i = (if i = bn then ?a else fblock C x i)" if "i < 268" for i using we(3) [OF that] wa(2) by simp
    have eq: "bmap_entry ?dev ia (bn - 12) s = Done ?a v"
      using v(1) ok(1,4) u(1,5) g0 fu by (auto simp: bmap_entry_def kbind_eq_Done)
    have fsv: "file_state v ?L ip"
    proof -
      have "bitmap_ok ?sp ?st ?C2" by (rule bitmap_ok_upd [OF nm bitmap_ok_allocated [OF bok y]])
      then have "alloc_pre v ?L {}" using v(2) cv fv by (simp add: alloc_pre_def)
      moreover have "used ?sp ?C2 0" using used_upd [OF nm, of 0 ?C1] used_allocated [OF bok y, of 0] f(5) y by auto
      moreover have "0 < unat (sb_size ?sp)" using y(1) by linarith
      ultimately show ?thesis using f(2,3) we(1) cv fv by (simp add: file_state_def x_def)
    qed
    have gr: "grew ip s v"
    proof -
      have fa: "free_block ?sp C ?a" using free_block_of_nat [OF y(1)] y(2) by simp
      have fia: "file_block C x ia" using ia by (simp add: file_block_def ia_def x_def)
      have "file_block C x b \<or> free_block ?sp C b" if "file_block ?C2 x b" for b
        using we(2) [OF that] file_block_cong [OF refl wa(2)] fa by blast
      moreover have "map_block ?sp b \<or> free_block ?sp C b \<or> file_block C x b" if "?C2 b \<noteq> C b" for b
        using ab(6) [of b] that fia by (cases "b = ia") auto
      moreover have "free_block ?sp C b" if "free_block ?sp ?C2 b" for b using that ab(5) free_upd [OF nm] by blast
      moreover have "fblock ?C2 x i = fblock C x i" if "i < 268" "fblock C x i \<noteq> 0" for i using fbl that z by auto
      moreover have "file_block ?C2 x ?a" using fbl [OF bn(2)] bn(2) ok(4) by (auto simp: file_block_def intro!: exI [of _ bn])
      then have "free_block ?sp ?C2 b \<or> file_block ?C2 x b" if "free_block ?sp C b" for b using ab(5) free_upd [OF nm] that by blast
      ultimately have "grown ?sp C x ?C2 x" unfolding grown_def by simp
      moreover have "?C2 (fblock C x i) = C (fblock C x i)" if "i < 268" "fblock C x i \<noteq> 0" for i
        using wa(4) wf_fileD(4) [OF f(4) that] that by (auto simp: file_block_def ia_def x_def)
      ultimately show ?thesis unfolding grew_def cv using fv same_proc_tx [OF sv] by (simp add: C_def x_def)
    qed
    have "length ?L \<le> length L + 3" using ok(9) log_add_simps(2) [of ia L'] by linarith
    moreover have "length ?L \<le> length L + 2" if "ia \<in> set L" using ok(9,11) that by (auto simp: log_add_def)
    moreover have "?a \<in> set ?L" using ok(10) by (simp add: log_add_def)
    ultimately show thesis using eq ok(4) fsv gr fv fbl cv by (intro that(2) [of ?a v ?L]) simp_all
  qed
qed


lemma bmap_entry_spec:
  fixes s :: "'z fsst_scheme" and ip :: nat
  defines "C \<equiv> content (log_dev s) s" and "x \<equiv> inodes s ! ip" and "ia \<equiv> iaddrs (inodes s ! ip) ! 12"
  assumes fs: "file_state s L ip" and bn: "12 \<le> bn" "bn < 268" and ia: "ia \<noteq> 0" and z: "fblock C x bn = 0" and room: "length L < 27"
  obtains (full) t where "bmap_entry (log_dev s) ia (bn - 12) s = Done 0 t"
      "file_state t L ip" "grew ip s t" "content (log_dev s) t = C" "inodes t = inodes s" "\<And>b. \<not> free_block (sb s) C b"
  | (ok) a t L' where "bmap_entry (log_dev s) ia (bn - 12) s = Done a t" "a \<noteq> 0"
      "file_state t L' ip" "grew ip s t" "length L' \<le> length L + 3" "a \<in> set L'" "ia \<in> set L \<longrightarrow> length L' \<le> length L + 2" "inodes t = inodes s"
      "\<And>i. i < 268 \<Longrightarrow> fblock (content (log_dev s) t) x i = (if i = bn then a else fblock C x i)"
proof -
  have tx: "tx s L {}" using fs alloc_preD(1) by (auto simp: file_state_def)
  have r: "length L + card ({} :: nat set) < 30" using room by simp
  obtain bp u where u: "bread (log_dev s) ia s = Done bp u" "tx u L {bp}" "same_tx s u" "blockno (bufs u ! bp) = ia" "bdata (bufs u ! bp) = C ia"
      "content (log_dev s) u = C"
    unfolding C_def by (rule tx_bread [OF tx _ r, of ia]) auto
  show thesis by (rule bmap_entry_new [OF fs bn ia [unfolded ia_def] z [unfolded C_def x_def] room u [unfolded C_def ia_def], folded C_def x_def ia_def])
    (rule that; assumption)+
qed

text \<open>The three outcomes of \<^verbatim>\<open>bmap\<close>: the block is there, it is allocated, or the disk is full.\<close>

lemma bmap_direct: "bn < 12 \<Longrightarrow> iaddrs (inodes s ! ip) ! bn = 0 \<Longrightarrow> bmap ip bn s =
    kbind (balloc (idev (inodes s ! ip)) s) (\<lambda>addr s. if addr = 0 then Done 0 s
        else Done addr (upd_inode ip (\<lambda>x. x\<lparr>iaddrs := (iaddrs x)[bn := addr]\<rparr>) s))"
  by (simp add: bmap_def)

lemma bmap_indirect: "12 \<le> bn \<Longrightarrow> bn < 268 \<Longrightarrow> bmap ip bn s =
    kbind (if iaddrs (inodes s ! ip) ! 12 = 0
      then kbind (balloc (idev (inodes s ! ip)) s) (\<lambda>addr s. if addr = 0 then Done 0 s
        else Done addr (upd_inode ip (\<lambda>x. x\<lparr>iaddrs := (iaddrs x)[12 := addr]\<rparr>) s))
      else Done (iaddrs (inodes s ! ip) ! 12) s) (\<lambda>addr t. if addr = 0 then Done 0 t else bmap_entry (idev (inodes s ! ip)) addr (bn - 12) t)"
proof -
  assume "12 \<le> bn" "bn < 268"
  then have "\<not> bn < 12" "bn - 12 < 256" by linarith+
  then show ?thesis unfolding bmap_def bmap_entry_def Let_def by (simp only: if_True if_False)
qed

lemma bmap_new:
  fixes s :: "'z fsst_scheme" and ip :: nat
  defines "C \<equiv> content (log_dev s) s" and "x \<equiv> inodes s ! ip"
  assumes fs: "file_state s L ip" and bn: "bn < 268" and z: "fblock C x bn = 0" and room: "length L < 25"
  obtains (full) t L' where "bmap ip bn s = Done 0 t" "file_state t L' ip" "grew ip s t" "length L' \<le> length L + 2"
      "\<And>b. \<not> free_block (sb s) (content (log_dev s) t) b" "\<And>i. i < 268 \<Longrightarrow> fblock (content (log_dev s) t) (inodes t ! ip) i = fblock C x i"
  | (ok) a t L' where "bmap ip bn s = Done a t" "a \<noteq> 0" "file_state t L' ip" "grew ip s t" "length L' \<le> length L + 4" "a \<in> set L'"
      "\<And>i. i < 268 \<Longrightarrow> fblock (content (log_dev s) t) (inodes t ! ip) i = (if i = bn then a else fblock C x i)"
proof -
  have dev: "idev x = log_dev s" using fs by (simp add: file_state_def x_def)
  have r: "length L < 28" "length L < 27" using room by simp_all
  consider (direct) "bn < 12" | (indirect) "12 \<le> bn" "iaddrs x ! 12 \<noteq> 0" | (none) "12 \<le> bn" "iaddrs x ! 12 = 0" by linarith
  then show thesis
  proof cases
    case direct
    then have b: "iaddrs x ! bn = 0" "bn < 13" using z by (simp_all add: fblock_def)
    note e = bmap_direct [OF direct b(1) [unfolded x_def]]
    from fs b(2) b(1) [unfolded x_def] r(1) show thesis
    proof (cases rule: alloc_inode [of s L ip bn])
      case (full t)
      then show thesis by (intro that(1) [of t L]) (simp_all add: e C_def x_def)
    next
      case (ok a t L')
      then show thesis using direct by (intro that(2) [of a t L']) (simp_all add: e C_def x_def)
    qed
  next
    case indirect
    have e: "bmap ip bn s = bmap_entry (log_dev s) (iaddrs (inodes s ! ip) ! 12) (bn - 12) s"
      using bmap_indirect [OF indirect(1) bn, of ip s] indirect(2) dev by (simp add: x_def)
    from fs indirect(1) bn indirect(2) [unfolded x_def] z [unfolded C_def x_def] r(2) show thesis
    proof (cases rule: bmap_entry_spec [of s L ip bn])
      case (full t)
      then show thesis by (intro that(1) [of t L]) (simp_all add: e C_def x_def)
    next
      case (ok a t L')
      then show thesis by (intro that(2) [of a t L']) (simp_all add: e C_def x_def)
    qed
  next
    case none
    note e = bmap_indirect [OF none(1) bn, of ip s]
    have k: "(12 :: nat) < 13" by simp
    from fs k none(2) [unfolded x_def] r(1) show thesis
    proof (cases rule: alloc_inode [of s L ip 12])
      case (full t)
      then show thesis using none(2) by (intro that(1) [of t L]) (simp_all add: e C_def x_def)
    next
      case (ok ia t L')
      have ft: "log_dev t = log_dev s" "sb t = sb s" using ok(4) by (simp_all add: grew_def)
      have len: "length (iaddrs (inodes s ! ip)) = 13" using fs wf_fileD(1) by (auto simp: file_state_def)
      have ia: "iaddrs (inodes t ! ip) ! 12 = ia" using ok(7) len by simp
      have zt: "fblock (content (log_dev t) t) (inodes t ! ip) bn = 0" using ok(8) [OF bn] z ft by (simp add: C_def x_def)
      have rt: "length L' < 27" using ok(5) room by simp
      have e': "bmap ip bn s = bmap_entry (log_dev t) (iaddrs (inodes t ! ip) ! 12) (bn - 12) t"
        using e ok(1,2) none(2) dev ft ia by (simp add: x_def)
      have iat: "iaddrs (inodes t ! ip) ! 12 \<noteq> 0" using ia ok(2) by simp
      from ok(3) none(1) bn iat zt rt show thesis
      proof (cases rule: bmap_entry_spec [of t L' ip bn])
        case (full v)
        then show thesis using ok(4,5,8) grew_trans [OF ok(4) full(3)] ft by (intro that(1) [of v L']) (simp_all add: e' C_def x_def)
      next
        case (ok a v L'')
        have "length L'' \<le> length L + 4" using ok(7) \<open>length L' \<le> length L + 2\<close> \<open>ia \<in> set L'\<close> ia by simp
        then show thesis using ok ft \<open>\<And>i. i < 268 \<Longrightarrow> fblock (content (log_dev s) t) (inodes t ! ip) i = _\<close> grew_trans [OF \<open>grew ip s t\<close> ok(4)]
          by (intro that(2) [of a v L'']) (simp_all add: e' C_def x_def)
      qed
    qed
  qed
qed


section \<open>Writing the bytes\<close>

text \<open>From \<open>s\<close> to \<open>t\<close> the bytes \<open>bs\<close> were written at \<open>off\<close>; the other bytes in blocks of the file stay.\<close>

definition written :: "nat \<Rightarrow> byte list \<Rightarrow> nat \<Rightarrow> 'z fsst_scheme \<Rightarrow> 'z fsst_scheme \<Rightarrow> bool" where
  "written ip bs off s t \<longleftrightarrow> same_proc s t \<and> log_dev t = log_dev s \<and> log_start t = log_start s \<and> sb t = sb s \<and> inodes t = (inodes s)[ip := inodes t ! ip] \<and>
     grown (sb s) (content (log_dev s) s) (inodes s ! ip) (content (log_dev s) t) (inodes t ! ip) \<and>
     (\<forall>k<268 * 1024. off \<le> k \<and> k < off + length bs \<longrightarrow>
        fblock (content (log_dev s) t) (inodes t ! ip) (k div 1024) \<noteq> 0 \<and> fbyte (content (log_dev s) t) (inodes t ! ip) k = bs ! (k - off)) \<and>
     (\<forall>k<268 * 1024. \<not> (off \<le> k \<and> k < off + length bs) \<longrightarrow> fblock (content (log_dev s) s) (inodes s ! ip) (k div 1024) \<noteq> 0 \<longrightarrow>
        fbyte (content (log_dev s) t) (inodes t ! ip) k = fbyte (content (log_dev s) s) (inodes s ! ip) k)"

lemma writtenD:
  assumes "written ip bs off s t"
  shows "log_dev t = log_dev s" "log_start t = log_start s" "sb t = sb s" "inodes t = (inodes s)[ip := inodes t ! ip]"
    "grown (sb s) (content (log_dev s) s) (inodes s ! ip) (content (log_dev s) t) (inodes t ! ip)"
    "\<And>k. k < 268 * 1024 \<Longrightarrow> off \<le> k \<Longrightarrow> k < off + length bs \<Longrightarrow>
      fblock (content (log_dev s) t) (inodes t ! ip) (k div 1024) \<noteq> 0 \<and> fbyte (content (log_dev s) t) (inodes t ! ip) k = bs ! (k - off)"
    "\<And>k. k < 268 * 1024 \<Longrightarrow> \<not> (off \<le> k \<and> k < off + length bs) \<Longrightarrow> fblock (content (log_dev s) s) (inodes s ! ip) (k div 1024) \<noteq> 0 \<Longrightarrow>
      fbyte (content (log_dev s) t) (inodes t ! ip) k = fbyte (content (log_dev s) s) (inodes s ! ip) k"
    "same_proc s t"
  using assms unfolding written_def by blast+

lemma grown_fblock: "grown sp C x C' x' \<Longrightarrow> i < 268 \<Longrightarrow> fblock C x i \<noteq> 0 \<Longrightarrow> fblock C' x' i = fblock C x i"
  by (simp add: grown_def)

lemma block_less: "k < 268 * 1024 \<Longrightarrow> k div 1024 < (268 :: nat)"
  by (simp add: less_mult_imp_div_less)

lemma grew_written:
  assumes "grew ip s t"
  shows "written ip [] off s t"
proof -
  have g: "grown (sb s) (content (log_dev s) s) (inodes s ! ip) (content (log_dev s) t) (inodes t ! ip)" using assms by (simp add: grew_def)
  have "fbyte (content (log_dev s) t) (inodes t ! ip) k = fbyte (content (log_dev s) s) (inodes s ! ip) k"
    if "k < 268 * 1024" "fblock (content (log_dev s) s) (inodes s ! ip) (k div 1024) \<noteq> 0" for k
    using assms grown_fblock [OF g block_less [OF that(1)] that(2)] block_less [OF that(1)] that(2) by (simp add: grew_def fbyte_def)
  moreover have "\<not> (off \<le> k \<and> k < off + length ([] :: byte list))" for k by simp
  ultimately show ?thesis using assms g unfolding grew_def written_def by blast
qed

lemma written_trans:
  assumes w1: "written ip bs off s t" and w2: "written ip cs (off + length bs) t u"
  shows "written ip (bs @ cs) off s u"
proof -
  note d1 = writtenD [OF w1] and d2 = writtenD [OF w2, unfolded d1(1-3)]
  let ?C = "content (log_dev s)"
  have "(inodes t)[ip := v] = (inodes s)[ip := v]" for v by (subst d1(4)) simp
  then have i: "inodes u = (inodes s)[ip := inodes u ! ip]" using d2(4) by simp
  have inr: "fblock (?C u) (inodes u ! ip) (k div 1024) \<noteq> 0 \<and> fbyte (?C u) (inodes u ! ip) k = (bs @ cs) ! (k - off)"
    if k: "k < 268 * 1024" "off \<le> k" "k < off + length (bs @ cs)" for k
  proof (cases "k < off + length bs")
    case True
    note a = d1(6) [OF k(1,2) True]
    have n: "\<not> (off + length bs \<le> k \<and> k < off + length bs + length cs)" using True by simp
    have "k - off < length bs" using True k(2) by simp
    then show ?thesis using a d2(7) [OF k(1) n] grown_fblock [OF d2(5) block_less [OF k(1)]] by (simp add: nth_append)
  next
    case False
    have r: "off + length bs \<le> k" "k < off + length bs + length cs" using False k(3) by simp_all
    have "\<not> k - off < length bs" "k - off - length bs = k - (off + length bs)" using False k(2) by linarith+
    then show ?thesis using d2(6) [OF k(1) r] by (simp add: nth_append)
  qed
  have out: "fbyte (?C u) (inodes u ! ip) k = fbyte (?C s) (inodes s ! ip) k"
    if k: "k < 268 * 1024" "\<not> (off \<le> k \<and> k < off + length (bs @ cs))" "fblock (?C s) (inodes s ! ip) (k div 1024) \<noteq> 0" for k
  proof -
    have n: "\<not> (off \<le> k \<and> k < off + length bs)" "\<not> (off + length bs \<le> k \<and> k < off + length bs + length cs)" using k(2) by auto
    have "fblock (?C t) (inodes t ! ip) (k div 1024) \<noteq> 0" using grown_fblock [OF d1(5) block_less [OF k(1)] k(3)] k(3) by simp
    from d2(7) [OF k(1) n(2) this] d1(7) [OF k(1) n(1) k(3)] show ?thesis by simp
  qed
  show ?thesis unfolding written_def using d1(1-3) d2(1-3) i grown_trans [OF d1(5) d2(5)] inr out same_proc_trans [OF d1(8) d2(8)] by simp
qed


text \<open>One block of the loop: the block is read, changed, logged and released.\<close>

lemma write_block:
  fixes s :: "'z fsst_scheme" and ip :: nat
  defines "C \<equiv> content (log_dev s) s" and "x \<equiv> inodes s ! ip"
  assumes fs: "file_state s L ip" and n: "n < 268" "fblock C x n \<noteq> 0" and q: "o' + length q \<le> 1024" and room: "length L < 29"
  obtains bp u t where "bread (log_dev s) (fblock C x n) s = Done bp u"
    "kbind (log_write bp (upd_data bp (\<lambda>d. put_bytes d o' q) u)) (\<lambda>_ s. brelse bp s) = Done () t"
    "file_state t (log_add (fblock C x n) L) ip" "written ip q (n * 1024 + o') s t" "same_tx s u"
proof -
  let ?sp = "sb s" and ?st = "log_start s" and ?dev = "log_dev s" and ?a = "fblock C x n"
  have f: "alloc_pre s L {}" "ip < length (inodes s)" "idev x = ?dev" "wf_file ?sp ?st C x" "used ?sp C 0"
    using fs by (simp_all add: file_state_def C_def x_def)
  note w = wf_fileD [OF f(4)]
  have h: "?a \<notin> log_area ?st" "\<not> map_block ?sp ?a" "length (C ?a) = 1024" using w(5) [OF n] by (simp_all add: home_ok_def)
  have r: "length L + card ({} :: nat set) < 30" using room by simp
  obtain bp u where u: "bread ?dev ?a s = Done bp u" "tx u L {bp}" "same_tx s u" "blockno (bufs u ! bp) = ?a" "bdata (bufs u ! bp) = C ?a"
      "content ?dev u = C"
    unfolding C_def by (rule tx_bread [OF alloc_preD(1) [OF f(1)] _ r, of "fblock C x n"]) (auto simp: C_def)
  note fu = same_txD [OF u(3)] same_tx_fs [OF u(3)]
  have hu: "?a \<notin> log_area (log_start u)" using h(1) fu by simp
  obtain v where v: "kbind (log_write bp (upd_data bp (\<lambda>d. put_bytes d o' q) u)) (\<lambda>_ s. brelse bp s) = Done () v" "tx v (log_add ?a L) {}"
      "same_tx u v" "content (log_dev u) v = (content (log_dev u) u)(?a := put_bytes (bdata (bufs u ! bp)) o' q)"
    by (rule tx_log_release [OF u(2) _ u(4) hu room, of "\<lambda>d. put_bytes d o' q"]) auto
  have sv: "same_tx s v" using u(3) v(3) by (blast intro: same_tx_trans)
  note fv = same_txD [OF sv] same_tx_fs [OF sv]
  let ?C = "C(?a := put_bytes (C ?a) o' q)"
  have cv: "content ?dev v = ?C" using v(4) u(5,6) fu by simp
  have fb: "fblock ?C x i = fblock C x i" for i by (rule fblock_cong) (use w(4) [OF n] in auto)
  have hh: "home_ok ?sp ?st ?C b = home_ok ?sp ?st C b" for b by (rule home_upd [OF h(2)]) simp
  have wf: "wf_file ?sp ?st ?C x" by (rule wf_file_cong [OF f(4) refl fb]) (simp add: hh)
  have bo: "bitmap_ok ?sp ?st ?C" using bitmap_ok_upd [OF h(2)] alloc_preD(2) [OF f(1)] by (simp add: C_def)
  have z: "0 < unat (sb_size ?sp)" using fs by (simp add: file_state_def)
  have us: "used ?sp ?C 0" using f(5) used_upd [OF h(2) z, of C] by simp
  have "file_state v (log_add ?a L) ip" using v(2) bo us z wf f(2,3) cv fv by (simp add: file_state_def alloc_pre_def x_def)
  moreover have "written ip q (n * 1024 + o') s v"
  proof -
    have fab: "file_block C x ?a" using n by (auto simp: file_block_def)
    have "grown ?sp C x ?C x"
      unfolding grown_def using fb file_block_cong [OF refl fb] free_upd [OF h(2)] fab by auto
    moreover have "fblock ?C x (k div 1024) \<noteq> 0 \<and> fbyte ?C x k = q ! (k - (n * 1024 + o'))"
      if k: "n * 1024 + o' \<le> k" "k < n * 1024 + o' + length q" for k
    proof -
      have "k div 1024 = n" using k q by (intro div_nat_eqI) auto
      moreover from this have "k mod 1024 = k - n * 1024" by (simp add: modulo_nat_def)
      moreover have "o' \<le> k - n * 1024" "k - n * 1024 < o' + length q" "k - n * 1024 - o' = k - (n * 1024 + o')" "k - n * 1024 < 1024"
        using k q by linarith+
      ultimately show ?thesis using n(2) fb h(3) by (simp add: fbyte_def put_bytes_nth)
    qed
    moreover have "fbyte ?C x k = fbyte C x k" if k: "k < 268 * 1024" "\<not> (n * 1024 + o' \<le> k \<and> k < n * 1024 + o' + length q)"
        "fblock C x (k div 1024) \<noteq> 0" for k
    proof (cases "k div 1024 = n")
      case True
      then have "k = n * 1024 + k mod 1024" using div_mult_mod_eq [of k 1024] by simp
      then have "\<not> (o' \<le> k mod 1024 \<and> k mod 1024 < o' + length q)" using k(2) by linarith
      then show ?thesis using True h(3) fb by (auto simp: fbyte_def put_bytes_nth)
    next
      case False
      then have "fblock C x (k div 1024) \<noteq> ?a" using w(3) [OF block_less [OF k(1)] n(1) k(3)] by blast
      then show ?thesis using fb by (simp add: fbyte_def)
    qed
    ultimately show ?thesis unfolding written_def cv using fv same_proc_tx [OF sv] by (simp add: C_def x_def)
  qed
  ultimately show thesis using u(1,3) v(1) that by blast
qed


text \<open>\<^verbatim>\<open>bmap\<close> for a write: the block is there afterwards, or no block is free.\<close>

lemma bmap_write:
  fixes s :: "'z fsst_scheme" and ip :: nat
  assumes fs: "file_state s L ip" and bn: "bn < 268" and room: "length L < 25"
  obtains (full) t L' where "bmap ip bn s = Done 0 t" "file_state t L' ip" "grew ip s t" "length L' \<le> length L + 4"
      "\<And>b. \<not> free_block (sb s) (content (log_dev s) t) b"
  | (ok) t L' where "bmap ip bn s = Done (fblock (content (log_dev t) t) (inodes t ! ip) bn) t" "fblock (content (log_dev t) t) (inodes t ! ip) bn \<noteq> 0"
      "file_state t L' ip" "grew ip s t" "length (log_add (fblock (content (log_dev t) t) (inodes t ! ip) bn) L') \<le> length L + 4" "length L' < 29"
proof (cases "fblock (content (log_dev s) s) (inodes s ! ip) bn = 0")
  case True
  from fs bn True room show thesis
  proof (cases rule: bmap_new [of s L ip bn])
    case (full t L')
    then show thesis using room by (intro that(1) [of t L']) simp_all
  next
    case (ok a t L')
    have "log_dev t = log_dev s" using ok(4) by (simp add: grew_def)
    moreover from this have "fblock (content (log_dev t) t) (inodes t ! ip) bn = a" using ok(7) [OF bn] by simp
    ultimately show thesis using ok(1-6) room by (intro that(2) [of t L']) (simp_all add: log_add_def)
  qed
next
  case False
  have p: "alloc_pre s L {}" "idev (inodes s ! ip) = log_dev s" using fs by (simp_all add: file_state_def)
  obtain t where t: "bmap ip bn s = Done (fblock (content (log_dev s) s) (inodes s ! ip) bn) t" "tx t L {}" "same_tx s t"
      "content (log_dev s) t = content (log_dev s) s"
    using bmap_spec [OF alloc_preD(1) [OF p(1)] p(2) bn False] by blast
  have pt: "alloc_pre t L {}" by (rule alloc_pre_same [OF p(1) t(2-4)]) (simp add: kept_def)
  have e: "fblock (content (log_dev t) t) (inodes t ! ip) bn = fblock (content (log_dev s) s) (inodes s ! ip) bn"
    using t(4) same_txD [OF t(3)] same_tx_fs [OF t(3)] by simp
  have "length (log_add (fblock (content (log_dev t) t) (inodes t ! ip) bn) L) \<le> length L + 4" "length L < 29"
    using log_add_simps(2) [of "fblock (content (log_dev t) t) (inodes t ! ip) bn" L] room by linarith+
  then show thesis using t(1) False e file_state_same [OF fs pt t(3,4)] grew_same [OF t(3,4)] by (intro that(2) [of t L]) simp_all
qed

text \<open>The number of blocks that \<open>rem\<close> bytes at \<open>off\<close> touch.\<close>

definition span :: "nat \<Rightarrow> nat \<Rightarrow> nat" where
  "span off rem = (if rem = 0 then 0 else Suc ((off + rem - 1) div 1024 - off div 1024))"

lemma span_step:
  assumes "0 < rem"
  shows "Suc (span (off + min rem (1024 - off mod 1024)) (rem - min rem (1024 - off mod 1024))) \<le> span off rem"
proof (cases "rem \<le> 1024 - off mod 1024")
  case True
  then show ?thesis using assms by (simp add: span_def)
next
  case False
  let ?m = "1024 - off mod 1024"
  have m: "off + ?m = (off div 1024 + 1) * 1024"
  proof -
    have e: "off + (1024 - r) = (d + 1) * 1024" if "r < 1024" "d * 1024 + r = off" for d r :: nat using that by (simp add: algebra_simps)
    show ?thesis by (rule e [OF _ div_mult_mod_eq]) simp
  qed
  have d: "(off + ?m) div 1024 = off div 1024 + 1" unfolding m by simp
  have le: "off div 1024 + 1 \<le> (off + rem - 1) div 1024" unfolding d [symmetric] by (rule div_le_mono) (use False in linarith)
  have e: "off + ?m + (rem - ?m) - 1 = off + rem - 1" "min rem ?m = ?m" "rem - ?m \<noteq> 0" using False by linarith+
  have "span (off + ?m) (rem - ?m) = Suc ((off + rem - 1) div 1024 - (off div 1024 + 1))" unfolding span_def e(1) d by (simp only: e(3) if_False)
  moreover have "span off rem = Suc ((off + rem - 1) div 1024 - off div 1024)" using assms by (simp add: span_def)
  moreover have "Suc (Suc (x - (y + 1))) \<le> Suc (x - y)" if "y + 1 \<le> x" for x y :: nat using that by linarith
  ultimately show ?thesis unfolding e(2) by (simp only: le)
qed


lemma writei_loop_spec:
  fixes s :: "'z fsst_scheme" and ip :: nat
  assumes "src_ok s0 fl src n" "bs = src_bytes s0 src n"
    and "file_state s L ip" "off + rem \<le> 268 * 1024" "n = tot + rem" "length L + 4 * span off rem \<le> 28" "same_proc s0 s"
  shows "\<exists>r t L'. writei_loop ip src off tot rem s = Done (tot + r) t \<and> r \<le> rem \<and> file_state t L' ip \<and>
    length L' \<le> length L + 4 * span off rem \<and> written ip (take r (drop tot bs)) off s t \<and>
    (r < rem \<longrightarrow> (\<forall>b. \<not> free_block (sb s) (content (log_dev s) t) b))"
  using assms(3-)
proof (induction rem arbitrary: off tot s L rule: less_induct)
  case (less rem)
  have lbs: "length bs = tot + rem" using src_bytes_length [OF assms(1)] assms(2) less.prems(3) by simp
  show ?case
  proof (cases "rem = 0")
    case True
    then show ?thesis using less.prems(1) grew_written [OF grew_same [OF same_tx_refl [of s] refl], of ip off]
      by (intro exI [of _ 0] exI [of _ s] exI [of _ L]) (simp add: writei_loop.simps)
  next
    case False
    let ?m = "min rem (1024 - off mod 1024)" and ?n = "off div 1024"
    have sp: "Suc (span (off + ?m) (rem - ?m)) \<le> span off rem" by (rule span_step) (use False in simp)
    have n: "?n < 268" by (rule block_less) (use less.prems(2) False in linarith)
    have room: "length L < 25" using less.prems(4) sp by linarith
    from less.prems(1) n room show ?thesis
    proof (cases rule: bmap_write [of s L ip ?n])
      case (full t L')
      have "length L' \<le> length L + 4 * span off rem" using full(4) sp by linarith
      then show ?thesis using full False grew_written [OF full(3)]
        by (intro exI [of _ 0] exI [of _ t] exI [of _ L']) (simp add: writei_loop.simps)
    next
      case (ok t L1)
      let ?a = "fblock (content (log_dev t) t) (inodes t ! ip) ?n" and ?q = "take ?m (drop tot bs)"
      have m0: "off mod 1024 < 1024" by simp
      have lq: "length ?q = ?m" using lbs by simp
      then have q: "off mod 1024 + length ?q \<le> 1024" using m0 by linarith
      obtain bp u v where v: "bread (log_dev t) ?a t = Done bp u"
          "kbind (log_write bp (upd_data bp (\<lambda>d. put_bytes d (off mod 1024) ?q) u)) (\<lambda>_ s. brelse bp s) = Done () v"
          "file_state v (log_add ?a L1) ip" "written ip ?q (?n * 1024 + off mod 1024) t v" "same_tx t u"
        by (rule write_block [OF ok(3) n ok(2) q ok(6)])
      have dt: "idev (inodes t ! ip) = log_dev t" using ok(3) by (simp add: file_state_def)
      have lt: "rem - ?m < rem" using False m0 by linarith
      have w: "written ip ?q off s v" using written_trans [OF grew_written [OF ok(4), of off]] v(4) by simp
      have p: "off + ?m + (rem - ?m) \<le> 268 * 1024" "n = tot + ?m + (rem - ?m)"
        "length (log_add ?a L1) + 4 * span (off + ?m) (rem - ?m) \<le> 28"
        using less.prems(2-4) ok(5) sp by linarith+
      obtain r z L2 where r: "writei_loop ip src (off + ?m) (tot + ?m) (rem - ?m) v = Done (tot + ?m + r) z" "r \<le> rem - ?m"
          "file_state z L2 ip" "length L2 \<le> length (log_add ?a L1) + 4 * span (off + ?m) (rem - ?m)"
          "written ip (take r (drop (tot + ?m) bs)) (off + ?m) v z" "r < rem - ?m \<longrightarrow> (\<forall>b. \<not> free_block (sb v) (content (log_dev v) z) b)"
        using less.IH [OF lt v(3) p same_proc_trans [OF less.prems(5) writtenD(8) [OF w]]] by blast
      have su: "same_proc s0 u" using less.prems(5) ok(4) same_proc_tx [OF v(5)] same_proc_trans unfolding grew_def by blast
      have gs: "get_source src tot ?m u = Done (0, ?q) u"
        using get_source_ok [OF assms(1) su, of tot ?m] less.prems(3) assms(2) by simp
      have "writei_loop ip src off tot rem s = Done (tot + (?m + r)) z"
        using False ok(1,2) v(1,2) r(1) dt gs
        by (subst writei_loop.simps) (auto simp: Let_def kbind_eq_Done)
      moreover have "take (?m + r) (drop tot bs) = ?q @ take r (drop (tot + ?m) bs)" unfolding take_add drop_drop by (simp only: add.commute [of tot])
      moreover have "written ip (?q @ take r (drop (tot + ?m) bs)) off s z"
        using written_trans [OF w] r(5) lq by simp
      moreover have "length L2 \<le> length L + 4 * span off rem" using r(4) ok(5) sp by linarith
      moreover have "?m + r \<le> rem" "?m + r < rem \<longrightarrow> (\<forall>b. \<not> free_block (sb s) (content (log_dev s) z) b)"
        using r(2,6) writtenD(1,3) [OF w] by auto
      ultimately show ?thesis using r(3) by (intro exI [of _ "?m + r"] exI [of _ z] exI [of _ L2]) simp
    qed
  qed
qed


section \<open>The whole write\<close>

text \<open>The block of the inode: outside the log, the free map, the free blocks and the file.\<close>

definition inode_home :: "superblock \<Rightarrow> uint \<Rightarrow> (uint \<Rightarrow> block) \<Rightarrow> inode \<Rightarrow> bool" where
  "inode_home sp start C x \<longleftrightarrow> (let b = IBLOCK (inum x) sp in
     b \<notin> log_area start \<and> \<not> map_block sp b \<and> \<not> free_block sp C b \<and> \<not> file_block C x b \<and> length (C b) = BSIZE)"

text \<open>
  A write of the bytes \<open>bs\<close> at \<open>off\<close>: the size is at least the end of the bytes, the inode on disk is the one in memory, the bytes of the range
  are \<open>bs\<close> and the others stay, a block is taken from the free ones exactly when it becomes one of the file, and no other block changes.
\<close>

definition write_result :: "nat \<Rightarrow> byte list \<Rightarrow> uint \<Rightarrow> 'z fsst_scheme \<Rightarrow> 'z fsst_scheme \<Rightarrow> bool" where
  "write_result ip bs off s t \<longleftrightarrow>
     (let sp = sb s; C = content (log_dev s) s; x = inodes s ! ip; C' = content (log_dev s) t; y = inodes t ! ip in
      inodes t = (inodes s)[ip := x\<lparr>iaddrs := iaddrs y, isize := max (isize x) (off + of_nat (length bs))\<rparr>] \<and>
      (\<forall>j. IBLOCK j sp = IBLOCK (inum x) sp \<longrightarrow> dinode sp C' j = (if j = inum x then meta y else dinode sp C j)) \<and>
      (\<forall>k<268 * 1024. unat off \<le> k \<and> k < unat off + length bs \<longrightarrow>
         fblock C' y (k div 1024) \<noteq> 0 \<and> fbyte C' y k = bs ! (k - unat off)) \<and>
      (\<forall>k<268 * 1024. \<not> (unat off \<le> k \<and> k < unat off + length bs) \<longrightarrow> fblock C x (k div 1024) \<noteq> 0 \<longrightarrow>
         fblock C' y (k div 1024) = fblock C x (k div 1024) \<and> fbyte C' y k = fbyte C x k) \<and>
      (\<forall>b. free_block sp C' b \<longleftrightarrow> free_block sp C b \<and> \<not> file_block C' y b) \<and>
      (\<forall>b. C' b \<noteq> C b \<longrightarrow> b = IBLOCK (inum x) sp \<or> map_block sp b \<or> free_block sp C b \<or> file_block C x b))"

lemma inode_home_grown:
  assumes h: "inode_home sp start C x" and g: "grown sp C x C' x'"
  shows "\<not> free_block sp C' (IBLOCK (inum x) sp)" "\<not> file_block C' x' (IBLOCK (inum x) sp)" "C' (IBLOCK (inum x) sp) = C (IBLOCK (inum x) sp)"
  using assms unfolding inode_home_def grown_def Let_def by blast+

lemma upd_isize:
  assumes "file_state s L ip"
  shows "file_state (upd_inode ip (\<lambda>x. x\<lparr>isize := v\<rparr>) s) L ip"
proof -
  have wf: "wf_file sp st C (x\<lparr>isize := v\<rparr>)" if "wf_file sp st C x" for sp st C x
    by (rule wf_file_cong [OF that]) (simp_all add: fblock_def)
  have l: "ip < length (inodes s)" using assms by (simp add: file_state_def)
  then show ?thesis using assms wf [of "sb s" "log_start s" "content (log_dev s) s" "inodes s ! ip"]
    unfolding file_state_def upd_inode_def by simp
qed

lemma iupdate_file:
  fixes s :: "'z fsst_scheme" and ip :: nat
  defines "C \<equiv> content (log_dev s) s" and "x \<equiv> inodes s ! ip" and "B \<equiv> IBLOCK (inum (inodes s ! ip)) (sb s)"
  assumes fs: "file_state s L ip" and B: "B \<notin> log_area (log_start s)" "\<not> map_block (sb s) B" "\<not> file_block C x B" "length (C B) = 1024"
    and room: "length L < 29"
  obtains t where "iupdate ip s = Done () t" "file_state t (log_add B L) ip" "same_tx s t"
    "content (log_dev s) t = C(B := put_dinode x (dip_off (inum x)) (C B))" "length (put_dinode x (dip_off (inum x)) (C B)) = 1024"
proof -
  let ?sp = "sb s" and ?st = "log_start s" and ?D = "put_dinode x (dip_off (inum x)) (C B)"
  have f: "alloc_pre s L {}" "ip < length (inodes s)" "idev x = log_dev s" "wf_file ?sp ?st C x" "used ?sp C 0"
    using fs by (simp_all add: file_state_def C_def x_def)
  have r: "length L + card ({} :: nat set) < 30" using room by simp
  have lD: "length ?D = 1024" using B(4) by (simp add: put_dinode_def Let_def)
  obtain t where t: "iupdate ip s = Done () t" "tx t (log_add B L) {}" "same_tx s t" "content (log_dev s) t = C(B := ?D)"
    unfolding C_def x_def B_def by (rule iupdate_spec [OF alloc_preD(1) [OF f(1)] f(3) [unfolded x_def] B(1) [unfolded B_def] _ room r]) auto
  note ft = same_txD [OF t(3)] same_tx_fs [OF t(3)]
  let ?C = "C(B := ?D)"
  have nb: "iaddrs x ! 12 \<noteq> B" if "iaddrs x ! 12 \<noteq> 0" using B(3) that by (auto simp: file_block_def)
  have fb: "fblock ?C x i = fblock C x i" for i by (rule fblock_cong) (use nb in auto)
  have hh: "home_ok ?sp ?st ?C b = home_ok ?sp ?st C b" for b by (rule home_upd [OF B(2)]) (simp add: lD B(4))
  have wf: "wf_file ?sp ?st ?C x" by (rule wf_file_cong [OF f(4) refl fb]) (simp add: hh)
  have bo: "bitmap_ok ?sp ?st ?C" using bitmap_ok_upd [OF B(2)] alloc_preD(2) [OF f(1)] by (simp add: C_def)
  have z: "0 < unat (sb_size ?sp)" using fs by (simp add: file_state_def)
  have us: "used ?sp ?C 0" using f(5) used_upd [OF B(2) z, of C] by simp
  have "file_state t (log_add B L) ip" using t(2,4) bo us z wf f(2,3) ft by (simp add: file_state_def alloc_pre_def x_def)
  then show thesis using t lD that by blast
qed


text \<open>The end of the write: the bytes are there, the size is set and the inode is written to its block.\<close>

lemma write_finish:
  fixes s :: "'z fsst_scheme" and ip :: nat
  defines "C \<equiv> content (log_dev s) s" and "x \<equiv> inodes s ! ip" and "B \<equiv> IBLOCK (inum (inodes s ! ip)) (sb s)"
  assumes w: "written ip bs (unat off) s u" and fs: "file_state u L ip" and home: "inode_home (sb s) (log_start s) C x"
    and y: "y = x\<lparr>iaddrs := iaddrs (inodes u ! ip), isize := max (isize x) (off + of_nat (length bs))\<rparr>"
    and t: "inodes t = (inodes s)[ip := y]" "content (log_dev s) t = (content (log_dev s) u)(B := put_dinode y (dip_off (inum x)) (content (log_dev s) u B))"
  shows "write_result ip bs off s t"
proof -
  let ?sp = "sb s" and ?C1 = "content (log_dev s) u" and ?x1 = "inodes u ! ip" and ?C' = "content (log_dev s) t"
  note d = writtenD [OF w, folded C_def x_def] and g = writtenD(5) [OF w, folded C_def x_def]
  note h = inode_home_grown [OF home g, folded B_def [folded x_def]]
  have B: "\<not> map_block ?sp B" "length (C B) = 1024" using home by (simp_all add: inode_home_def Let_def B_def x_def)
  have iu: "ip < length (inodes u)" "wf_file ?sp (log_start s) ?C1 ?x1" using fs d(1-3) by (simp_all add: file_state_def)
  have "length (inodes u) = length (inodes s)" using arg_cong [OF d(4), of length] by simp
  then have ty: "inodes t ! ip = y" using t(1) iu(1) by simp
  have nb: "?C' b = ?C1 b" if "b \<noteq> B" for b using that by (simp add: t(2))
  have fb: "fblock ?C' y i = fblock ?C1 ?x1 i" for i
    by (rule fblock_cong) (use y h(2) nb in \<open>auto simp: file_block_def\<close>)
  have ff: "file_block ?C' y b = file_block ?C1 ?x1 b" for b by (rule file_block_cong [OF _ fb]) (simp add: y)
  have fy: "fbyte ?C' y k = fbyte ?C1 ?x1 k" if "k < 268 * 1024" "fblock ?C1 ?x1 (k div 1024) \<noteq> 0" for k
  proof -
    have "fblock ?C1 ?x1 (k div 1024) \<noteq> B" using h(2) that block_less [OF that(1)] by (auto simp: file_block_def)
    then show ?thesis by (simp add: fbyte_def fb nb)
  qed
  have di: "dinode ?sp ?C' j = (if j = inum x then meta y else dinode ?sp C j)" if j: "IBLOCK j ?sp = B" for j
  proof -
    have Bx: "IBLOCK (inum x) ?sp = B" by (simp add: B_def x_def)
    have l: "length (?C1 (IBLOCK (inum x) ?sp)) = 1024" "length (iaddrs y) = 13" using B(2) h(3) Bx wf_fileD(1) [OF iu(2)] y by simp_all
    have "dinode ?sp ?C1 j = dinode ?sp C j" using j h(3) by (simp add: dinode_def)
    then show ?thesis using dinode_put [of ?C1 "inum x" ?sp y j, OF l] unfolding t(2) Bx by simp
  qed
  have fr: "free_block ?sp ?C' b = free_block ?sp ?C1 b" for b unfolding t(2) by (rule free_upd [OF B(1)])
  have free: "free_block ?sp ?C1 b \<longleftrightarrow> free_block ?sp C b \<and> \<not> file_block ?C1 ?x1 b" for b
    using g wf_fileD(2) [OF iu(2)] home_not_free unfolding grown_def by blast
  have ch: "b = B \<or> map_block ?sp b \<or> free_block ?sp C b \<or> file_block C x b" if "?C' b \<noteq> C b" for b
    using that nb [of b] g unfolding grown_def by auto
  have inr: "fblock ?C' y (k div 1024) \<noteq> 0 \<and> fbyte ?C' y k = bs ! (k - unat off)"
    if "k < 268 * 1024" "unat off \<le> k \<and> k < unat off + length bs" for k
    using d(6) [OF that(1)] that fy [OF that(1)] fb by auto
  have out: "fblock ?C' y (k div 1024) = fblock C x (k div 1024) \<and> fbyte ?C' y k = fbyte C x k"
    if k: "k < 268 * 1024" "\<not> (unat off \<le> k \<and> k < unat off + length bs)" "fblock C x (k div 1024) \<noteq> 0" for k
    using d(7) [OF k] grown_fblock [OF g block_less [OF k(1)] k(3)] fy [OF k(1)] fb k(3) by simp
  have it: "inodes t = (inodes s)[ip := x\<lparr>iaddrs := iaddrs y, isize := max (isize x) (off + of_nat (length bs))\<rparr>]" using t(1) y by simp
  show ?thesis
    unfolding write_result_def Let_def ty C_def [symmetric] x_def [symmetric] fr
    using it di inr out free ff ch unfolding B_def [folded x_def] by blast
qed


lemma offsets:
  fixes off n :: uint
  assumes "\<not> off + n < off" "\<not> off + n > of_nat ((NDIRECT + NINDIRECT) * BSIZE)"
  shows "unat off + unat n \<le> 268 * 1024" "r \<le> unat n \<Longrightarrow> unat (off + of_nat r) = unat off + r"
proof -
  have "unat (off + n) = unat off + unat n" using assms(1) by (simp add: not_less word_le_nat_alt unat_plus_simple [symmetric] no_olen_add_nat [symmetric])
  moreover have "unat (off + n) \<le> 268 * 1024" using assms(2) by (simp add: not_less word_le_nat_alt)
  ultimately show le: "unat off + unat n \<le> 268 * 1024" by simp
  show "unat (off + of_nat r) = unat off + r" if "r \<le> unat n"
  proof -
    have "unat (of_nat r :: uint) = r" using that unsigned_less [of n, where 'a = nat] by (simp add: unat_of_nat take_bit_nat_eq_self)
    then show ?thesis using le that by (simp add: unat_word_ariths)
  qed
qed


lemma writei_spec:
  fixes s :: "'z fsst_scheme" and ip :: nat
  defines "C \<equiv> content (log_dev s) s" and "x \<equiv> inodes s ! ip"
  assumes fs: "file_state s L ip" and home: "inode_home (sb s) (log_start s) C x" and src: "src_ok s fl src (unat n)" "bs = src_bytes s src (unat n)"
    and ok: "off \<le> isize x" "\<not> off + n < off" "\<not> off + n > of_nat ((NDIRECT + NINDIRECT) * BSIZE)"
    and room: "length L + 4 * span (unat off) (unat n) \<le> 28"
  shows "\<exists>r t L'. writei ip src off n s = Done (int r) t \<and> r \<le> unat n \<and> file_state t L' ip \<and> log_dev t = log_dev s \<and> sb t = sb s \<and> same_proc s t \<and>
    write_result ip (take r bs) off s t \<and> (r < unat n \<longrightarrow> (\<forall>b. \<not> free_block (sb s) (content (log_dev s) t) b))"
proof -
  have n: "length bs = unat n" "unat n = 0 + unat n" using src_bytes_length [OF src(1)] src(2) by simp_all
  have refl: "same_proc s s" by (simp add: same_proc_def)
  obtain r u L1 where u: "writei_loop ip src (unat off) 0 (unat n) s = Done r u" "r \<le> unat n" "file_state u L1 ip"
      "length L1 \<le> length L + 4 * span (unat off) (unat n)" "written ip (take r bs) (unat off) s u"
      "r < unat n \<longrightarrow> (\<forall>b. \<not> free_block (sb s) (content (log_dev s) u) b)"
    using writei_loop_spec [OF src fs offsets(1) [OF ok(2,3)] n(2) room refl] by auto
  let ?fin = "off + of_nat r" and ?x1 = "inodes u ! ip"
  let ?y = "x\<lparr>iaddrs := iaddrs ?x1, isize := max (isize x) ?fin\<rparr>"
  let ?v = "if ?fin > isize ?x1 then upd_inode ip (\<lambda>x. x\<lparr>isize := ?fin\<rparr>) u else u"
  note d = writtenD [OF u(5), folded C_def x_def]
  have g: "?x1 = x\<lparr>iaddrs := iaddrs ?x1\<rparr>" using d(5) by (simp add: grown_def)
  have x1: "isize ?x1 = isize x" "inum ?x1 = inum x" by (subst g, simp)+
  have up: "?x1\<lparr>isize := v\<rparr> = x\<lparr>iaddrs := iaddrs ?x1, isize := v\<rparr>" for v by (subst g) simp
  have len: "ip < length (inodes u)" "length (inodes u) = length (inodes s)"
    using u(3) arg_cong [OF d(4), of length] by (simp_all add: file_state_def)
  have iu: "(inodes u)[ip := v] = (inodes s)[ip := v]" for v by (subst d(4)) simp
  have yv: "inodes ?v = (inodes s)[ip := ?y]" "inodes ?v ! ip = ?y"
  proof -
    have same: "?x1\<lparr>isize := isize x\<rparr> = ?x1" using x1(1) by simp
    show a: "inodes ?v = (inodes s)[ip := ?y]"
    proof (cases "?fin > isize x")
      case True
      then have "inodes ?v = (inodes u)[ip := ?x1\<lparr>isize := ?fin\<rparr>]" "max (isize x) ?fin = ?fin" by (simp_all add: upd_inode_def x1)
      then show ?thesis by (simp only: iu up)
    next
      case False
      then have "inodes ?v = inodes u" "max (isize x) ?fin = isize x" by (simp_all add: x1 max_def)
      then show ?thesis using d(4) by (simp only: up [symmetric] same)
    qed
    then show "inodes ?v ! ip = ?y" using len by simp
  qed
  have fv: "file_state ?v L1 ip" using u(3) upd_isize [OF u(3), of ?fin] by simp
  have cv: "log_dev ?v = log_dev s" "log_start ?v = log_start s" "sb ?v = sb s" "content dev ?v = content dev u" for dev
    using d(1-3) by (simp_all add: upd_inode_def)
  let ?B = "IBLOCK (inum x) (sb s)"
  note h = inode_home_grown [OF home d(5)]
  have fbl: "file_block C1 ?y b = file_block C1 ?x1 b" for C1 b by (rule file_block_cong) (simp_all add: fblock_def)
  have B: "?B \<notin> log_area (log_start s)" "\<not> map_block (sb s) ?B" "length (C ?B) = 1024"
    using home by (simp_all add: inode_home_def Let_def)
  have l: "length L1 < 29" using u(4) room by linarith
  obtain t where t: "iupdate ip ?v = Done () t" "file_state t (log_add ?B L1) ip" "same_tx ?v t"
      "content (log_dev s) t = (content (log_dev s) u)(?B := put_dinode ?y (dip_off (inum x)) (content (log_dev s) u ?B))"
      "length (put_dinode ?y (dip_off (inum x)) (content (log_dev s) u ?B)) = 1024"
    by (rule iupdate_file [OF fv _ _ _ _ l, unfolded cv yv(2)]) (use B h fbl in simp_all)
  note ft = same_txD [OF t(3), unfolded cv] same_tx_fs [OF t(3), unfolded cv yv(1)]
  have lr: "min (length bs) r = r" using u(2) n(1) by simp
  have sp: "same_proc s t" using same_proc_trans [OF d(8), of t] same_proc_tx [OF t(3)] by (simp split: if_splits)
  have "write_result ip (take r bs) off s t"
    by (rule write_finish [OF u(5,3) home [unfolded C_def x_def], of ?y])
      (use ft t(4) in \<open>simp_all add: lr x_def\<close>)
  moreover have "writei ip src off n s = Done (int r) t"
    using ok u(1) t(1) by (simp add: writei_def not_less [symmetric] x_def Let_def)
  moreover have "free_block (sb s) (content (log_dev s) t) b = free_block (sb s) (content (log_dev s) u) b" for b
    unfolding t(4) by (rule free_upd [OF B(2)])
  ultimately show ?thesis using u(2,6) t(2) ft sp by (intro exI [of _ r] exI [of _ t] exI [of _ "log_add ?B L1"]) simp
qed



text \<open>A file has at most 269 blocks, so a disk with more free blocks does not run full.\<close>

lemma write_complete:
  assumes w: "write_result ip bs off s t" and full: "\<And>b. \<not> free_block (sb s) (content (log_dev s) t) b"
  shows "card {b. free_block (sb s) (content (log_dev s) s) b} \<le> 269"
proof -
  let ?C' = "content (log_dev s) t" and ?y = "inodes t ! ip"
  let ?F = "insert (iaddrs ?y ! 12) (fblock ?C' ?y ` {..<268})"
  have f: "free_block (sb s) ?C' b \<longleftrightarrow> free_block (sb s) (content (log_dev s) s) b \<and> \<not> file_block ?C' ?y b" for b
    using w by (simp add: write_result_def Let_def)
  have "{b. free_block (sb s) (content (log_dev s) s) b} \<subseteq> ?F"
  proof
    fix b assume "b \<in> {b. free_block (sb s) (content (log_dev s) s) b}"
    then have "file_block ?C' ?y b" using f full by blast
    then show "b \<in> ?F" by (auto simp: file_block_def)
  qed
  moreover have "card ?F \<le> Suc (card (fblock ?C' ?y ` {..<268}))" by (rule card_insert_le_m1) simp_all
  moreover have "card (fblock ?C' ?y ` {..<268}) \<le> 268" using card_image_le [of "{..<268 :: nat}" "fblock ?C' ?y"] by simp
  ultimately show ?thesis using card_mono [of ?F "{b. free_block (sb s) (content (log_dev s) s) b}"] by simp
qed



section \<open>Properties\<close>

text \<open>
  C25. \<^verbatim>\<open>writei\<close> refuses, with -1, an offset past the end of the file, a range that wraps around and one past the largest
  file. Otherwise, for a source in the kernel or a range of user memory that is mapped, it returns the number \<open>r\<close> of bytes written, which is less
  than \<open>n\<close> only when no block of the disk is free. The bytes of the
  range are then the first \<open>r\<close> bytes of the source, every other byte in a block of the file stays, the size covers the range, and the inode on
  disk is the one in memory. The file stays well-formed; a block stops being free exactly when it joins the file; and no other block changes but
  the free map and the block of the inode. Memory is not changed. The transaction needs room in the log for four blocks for each block of the
  range. A user range with a page that is not mapped is outside this statement: the copy then fails in the middle of a buffer, which is released changed but not logged.
\<close>

theorem writei_correct:
  fixes s :: "'z fsst_scheme" and ip :: nat
  defines "x \<equiv> inodes s ! ip"
  assumes "file_state s L ip" "inode_home (sb s) (log_start s) (content (log_dev s) s) x" "src_ok s fl src (unat n)" "bs = src_bytes s src (unat n)"
    "length L + 4 * span (unat off) (unat n) \<le> 28"
  shows "if off > isize x \<or> off + n < off \<or> off + n > of_nat ((NDIRECT + NINDIRECT) * BSIZE) then writei ip src off n s = Done (-1) s
    else \<exists>r t L'. writei ip src off n s = Done (int r) t \<and> r \<le> unat n \<and> file_state t L' ip \<and> write_result ip (take r bs) off s t \<and> mem t = mem s \<and>
      (r < unat n \<longrightarrow> (\<forall>b. \<not> free_block (sb s) (content (log_dev s) t) b))"
proof (cases "off > isize x \<or> off + n < off \<or> off + n > of_nat ((NDIRECT + NINDIRECT) * BSIZE)")
  case True
  then show ?thesis unfolding writei_def x_def by (simp only: if_True if_False if_cancel disj_assoc split: if_split) auto
next
  case False
  then have ok: "off \<le> isize x" "\<not> off + n < off" "\<not> off + n > of_nat ((NDIRECT + NINDIRECT) * BSIZE)" by (simp_all only: de_Morgan_disj not_less)
  show ?thesis using writei_spec [OF assms(2,3) [unfolded x_def] assms(4,5) ok [unfolded x_def] assms(6)] False by (simp only: if_False same_proc_def) blast
qed



text \<open>The root directory of before, on a disk whose free map marks the first 48 blocks as used.\<close>

definition write_disk :: "uint \<Rightarrow> block" where
  "write_disk = root_disk(45 := example_bitmap)"

definition write_fs :: fsst where
  "write_fs = (fs_with write_disk)\<lparr>inodes := [root_inode]\<rparr>"

lemma write_fs: "tx write_fs [] {}" "content 1 write_fs = write_disk" "log_dev write_fs = 1" "log_start write_fs = 2"
  "sb write_fs = example_sb" "inodes write_fs = [root_inode]"
  using fs_with_tx [of write_disk] by (simp_all add: write_fs_def) (simp_all add: write_disk_def root_disk_def)

lemma write_disk_used:
  assumes "b < 2000"
  shows "used example_sb write_disk b \<longleftrightarrow> b < 48"
  using example_used [OF assms] by (simp add: used_def write_disk_def example_disk_def)

lemma write_disk_map: "map_block example_sb b \<longleftrightarrow> b = 45"
proof -
  have "unat (sb_size example_sb) = 2000" by (simp add: example_sb_def)
  then show ?thesis using example_used(1) example_used(1) [of 0] unfolding map_block_def by (auto intro!: exI [of _ 0])
qed

lemma write_disk_fblock: "i < 268 \<Longrightarrow> fblock write_disk root_inode i = (if i = 0 then 46 else 0)" "file_block write_disk root_inode b \<longleftrightarrow> b = 46"
proof -
  show f: "fblock write_disk root_inode i = (if i = 0 then 46 else 0)" for i
    by (cases i) (simp_all add: fblock_def root_inode_def)
  have "iaddrs root_inode ! 12 = 0" by (simp add: root_inode_def)
  then show "file_block write_disk root_inode b \<longleftrightarrow> b = 46" unfolding file_block_def f by (auto intro!: exI [of _ 0])
qed

lemma write_fs_ok:
  "file_state write_fs [] 0" "inode_home (sb write_fs) (log_start write_fs) (content (log_dev write_fs) write_fs) (inodes write_fs ! 0)"
  "file_ok (content (log_dev write_fs) write_fs) (inodes write_fs ! 0) (unat (isize (inodes write_fs ! 0)))"
proof -
  have sz: "unat (sb_size example_sb) = 2000" by (simp add: example_sb_def)
  have "write_disk 45 = example_disk 45" by (simp add: write_disk_def example_disk_def)
  then have "bitmap_ok example_sb 2 write_disk \<longleftrightarrow> bitmap_ok example_sb 2 example_disk"
    unfolding bitmap_ok_def sz by (simp add: example_used write_disk_used)
  then have bo: "bitmap_ok example_sb 2 write_disk" using alloc_preD(2) [OF example_alloc] by (simp add: example_content)
  have h: "home_ok example_sb 2 write_disk 46"
    using home_block [of 46] write_disk_used [of 46] by (simp add: home_ok_def write_disk_map sz write_disk_def root_disk_def root_data)
  have a12: "iaddrs root_inode ! 12 = 0" "length (iaddrs root_inode) = 13" by (simp_all add: root_inode_def)
  have wf: "wf_file example_sb 2 write_disk root_inode"
  proof (rule wf_fileI)
    show "length (iaddrs root_inode) = 13" by (rule a12(2))
    show "home_ok example_sb 2 write_disk b" if "file_block write_disk root_inode b" for b using that h by (simp add: write_disk_fblock(2))
    show "i = j" if "i < 268" "j < 268" "fblock write_disk root_inode i \<noteq> 0" "fblock write_disk root_inode i = fblock write_disk root_inode j" for i j
      using that write_disk_fblock(1) by (auto split: if_splits)
    show "fblock write_disk root_inode i \<noteq> iaddrs root_inode ! 12" if "i < 268" "fblock write_disk root_inode i \<noteq> 0" for i using that a12(1) by simp
  qed
  have d: "idev root_inode = 1" "inum root_inode = 1" "isize root_inode = 32" by (simp_all add: root_inode_def)
  show "file_state write_fs [] 0"
    using bo wf write_fs(1) write_disk_used [of 0] d by (simp add: file_state_def alloc_pre_def write_fs(2-6) sz)
  have "length (write_disk 32) = 1024" by (simp add: write_disk_def root_disk_def put_dinode_def Let_def)
  then show "inode_home (sb write_fs) (log_start write_fs) (content (log_dev write_fs) write_fs) (inodes write_fs ! 0)"
    using root_block write_disk_used [of 32] by (simp add: inode_home_def write_fs(2-6) d write_disk_map write_disk_fblock(2) free_block_def)
  have "k div 1024 = 0" if "k < 32" for k :: nat using that by simp
  then show "file_ok (content (log_dev write_fs) write_fs) (inodes write_fs ! 0) (unat (isize (inodes write_fs ! 0)))"
    using h write_disk_fblock(1) by (simp add: file_ok_def write_fs(2-6) d home_ok_def)
qed

lemma write_fs_free: "269 < card {b. free_block (sb write_fs) (content (log_dev write_fs) write_fs) b}"
proof -
  have sz: "unat (sb_size example_sb) = 2000" by (simp add: example_sb_def)
  have "unat (of_nat y :: uint) = y" if "y < 2000" for y using unat_block [of y example_sb] that by (simp add: sz)
  then have inj: "inj_on (of_nat :: nat \<Rightarrow> uint) {48..<2000}" by (intro inj_on_inverseI [of _ unat]) simp
  have "of_nat ` {48..<2000} \<subseteq> {b. free_block example_sb write_disk b}"
    using free_block_of_nat [of _ example_sb write_disk] write_disk_used by (auto simp: sz)
  from card_mono [OF _ this] card_image [OF inj] show ?thesis by (simp add: write_fs(2-6))
qed


theorem writei_correct_witness:
  "writei 0 (KernelSrc 0x80030000) 33 1 write_fs = Done (-1) write_fs \<and>
   (\<exists>t L. writei 0 (KernelSrc 0x80030000) 32 1200 write_fs = Done 1200 t \<and> file_state t L 0 \<and>
      write_result 0 (load_bytes (mem write_fs) 0x80030000 1200) 32 write_fs t)"
proof -
  have sp: "span (unat (33 :: uint)) (unat (1 :: uint)) = 1" "span (unat (32 :: uint)) (unat (1200 :: uint)) = 2" by (simp_all add: span_def)
  have sz: "isize (inodes write_fs ! 0) = 32" by (simp add: write_fs(6) root_inode_def)
  have src: "src_ok write_fs [] (KernelSrc a) n" "src_bytes write_fs (KernelSrc a) n = load_bytes (mem write_fs) a n" for a n
    by (simp_all add: src_ok_def src_bytes_def)
  note c = writei_correct [OF write_fs_ok(1,2) src(1) refl]
  from c [of 32 1200 "0x80030000"] obtain r t L where t: "writei 0 (KernelSrc 0x80030000) 32 1200 write_fs = Done (int r) t" "r \<le> 1200"
      "file_state t L 0" "write_result 0 (take r (load_bytes (mem write_fs) 0x80030000 1200)) 32 write_fs t"
      "r < 1200 \<longrightarrow> (\<forall>b. \<not> free_block (sb write_fs) (content (log_dev write_fs) t) b)"
    unfolding sp sz src(2) by auto
  have "r = 1200" using write_complete [OF t(4)] t(2,5) write_fs_free by (meson le_neq_implies_less not_le)
  then show ?thesis using t(1,3,4) c [of 33 1 "0x80030000"] unfolding sp sz by (auto simp: load_bytes_def)
qed


end
