(* ===== verification/Asm.thy ===== *)
theory Asm
  imports Machine
begin

text \<open>
  The assembly routines of the kernel: \<^verbatim>\<open>trampoline.S\<close>, \<^verbatim>\<open>swtch.S\<close>, \<^verbatim>\<open>kernelvec.S\<close> and \<^verbatim>\<open>entry.S\<close>. Each is
  a list of instructions, in the order of the source, and \<open>run\<close> executes it on the registers of
  a hart and the physical memory. The translation of virtual addresses is a parameter: \<open>tr\<close>
  gives the physical address for a value of \<^verbatim>\<open>satp\<close> and a virtual address. Fences and the TLB
  are not part of the model.
\<close>

section \<open>Instructions\<close>

datatype reg = RA | SP | GP | TP | T0 | T1 | T2 | T3 | T4 | T5 | T6
  | S0 | S1 | S2 | S3 | S4 | S5 | S6 | S7 | S8 | S9 | S10 | S11
  | A0 | A1 | A2 | A3 | A4 | A5 | A6 | A7

datatype csr = Sscratch | Satp | Sepc | Mhartid

datatype instr =
    Sd reg nat reg       \<comment> \<open>\<^verbatim>\<open>sd r, off(base)\<close>\<close>
  | Ld reg nat reg       \<comment> \<open>\<^verbatim>\<open>ld r, off(base)\<close>\<close>
  | Li reg uint64        \<comment> \<open>\<^verbatim>\<open>li\<close> and \<^verbatim>\<open>la\<close>\<close>
  | Addi reg reg uint64
  | Add reg reg reg
  | Mul reg reg reg
  | Csrw csr reg
  | Csrr reg csr
  | SfenceVma
  | Jr reg               \<comment> \<open>\<^verbatim>\<open>jr\<close>; \<^verbatim>\<open>ret\<close> is \<^verbatim>\<open>jr ra\<close>\<close>
  | Sret

record hart =
  regs :: "reg \<Rightarrow> uint64"
  csrs :: "csr \<Rightarrow> uint64"
  pmem :: memory
  pc :: uint64

type_synonym mmu = "uint64 \<Rightarrow> addr \<Rightarrow> addr"

fun step :: "mmu \<Rightarrow> instr \<Rightarrow> hart \<Rightarrow> hart" where
  "step tr (Sd r off b) h = h\<lparr>pmem := store64 (pmem h) (tr (csrs h Satp) (regs h b + of_nat off)) (regs h r)\<rparr>"
| "step tr (Ld r off b) h = h\<lparr>regs := (regs h)(r := load64 (pmem h) (tr (csrs h Satp) (regs h b + of_nat off)))\<rparr>"
| "step tr (Li r v) h = h\<lparr>regs := (regs h)(r := v)\<rparr>"
| "step tr (Addi r r' v) h = h\<lparr>regs := (regs h)(r := regs h r' + v)\<rparr>"
| "step tr (Add r r' r'') h = h\<lparr>regs := (regs h)(r := regs h r' + regs h r'')\<rparr>"
| "step tr (Mul r r' r'') h = h\<lparr>regs := (regs h)(r := regs h r' * regs h r'')\<rparr>"
| "step tr (Csrw c r) h = h\<lparr>csrs := (csrs h)(c := regs h r)\<rparr>"
| "step tr (Csrr r c) h = h\<lparr>regs := (regs h)(r := csrs h c)\<rparr>"
| "step tr SfenceVma h = h"
| "step tr (Jr r) h = h\<lparr>pc := regs h r\<rparr>"
| "step tr Sret h = h\<lparr>pc := csrs h Sepc\<rparr>"

definition run :: "mmu \<Rightarrow> instr list \<Rightarrow> hart \<Rightarrow> hart" where
  "run tr is h = fold (step tr) is h"

lemma run_simps [simp]: "run tr [] h = h" "run tr (i # is) h = run tr is (step tr i h)"
  "run tr (is @ js) h = run tr js (run tr is h)"
  by (simp_all add: run_def)

section \<open>The routines\<close>

definition uservec :: "instr list" where
  "uservec =
    [Csrw Sscratch A0, Li A0 TRAPFRAME,
     Sd RA 40 A0, Sd SP 48 A0, Sd GP 56 A0, Sd TP 64 A0, Sd T0 72 A0, Sd T1 80 A0, Sd T2 88 A0, Sd S0 96 A0,
     Sd S1 104 A0, Sd A1 120 A0, Sd A2 128 A0, Sd A3 136 A0, Sd A4 144 A0, Sd A5 152 A0, Sd A6 160 A0, Sd A7 168 A0,
     Sd S2 176 A0, Sd S3 184 A0, Sd S4 192 A0, Sd S5 200 A0, Sd S6 208 A0, Sd S7 216 A0, Sd S8 224 A0, Sd S9 232 A0,
     Sd S10 240 A0, Sd S11 248 A0, Sd T3 256 A0, Sd T4 264 A0, Sd T5 272 A0, Sd T6 280 A0,
     Csrr T0 Sscratch, Sd T0 112 A0,
     Ld SP 8 A0, Ld TP 32 A0, Ld T0 16 A0, Ld T1 0 A0,
     SfenceVma, Csrw Satp T1, SfenceVma, Jr T0]"

definition userret :: "instr list" where
  "userret =
    [SfenceVma, Csrw Satp A0, SfenceVma, Li A0 TRAPFRAME,
     Ld RA 40 A0, Ld SP 48 A0, Ld GP 56 A0, Ld TP 64 A0, Ld T0 72 A0, Ld T1 80 A0, Ld T2 88 A0, Ld S0 96 A0,
     Ld S1 104 A0, Ld A1 120 A0, Ld A2 128 A0, Ld A3 136 A0, Ld A4 144 A0, Ld A5 152 A0, Ld A6 160 A0, Ld A7 168 A0,
     Ld S2 176 A0, Ld S3 184 A0, Ld S4 192 A0, Ld S5 200 A0, Ld S6 208 A0, Ld S7 216 A0, Ld S8 224 A0, Ld S9 232 A0,
     Ld S10 240 A0, Ld S11 248 A0, Ld T3 256 A0, Ld T4 264 A0, Ld T5 272 A0, Ld T6 280 A0,
     Ld A0 112 A0, Sret]"

definition swtch :: "instr list" where
  "swtch =
    [Sd RA 0 A0, Sd SP 8 A0, Sd S0 16 A0, Sd S1 24 A0, Sd S2 32 A0, Sd S3 40 A0, Sd S4 48 A0, Sd S5 56 A0,
     Sd S6 64 A0, Sd S7 72 A0, Sd S8 80 A0, Sd S9 88 A0, Sd S10 96 A0, Sd S11 104 A0,
     Ld RA 0 A1, Ld SP 8 A1, Ld S0 16 A1, Ld S1 24 A1, Ld S2 32 A1, Ld S3 40 A1, Ld S4 48 A1, Ld S5 56 A1,
     Ld S6 64 A1, Ld S7 72 A1, Ld S8 80 A1, Ld S9 88 A1, Ld S10 96 A1, Ld S11 104 A1,
     Jr RA]"

text \<open>\<^verbatim>\<open>kernelvec\<close> before and after the call of \<^verbatim>\<open>kerneltrap\<close>.\<close>

definition kernelvec_save :: "instr list" where
  "kernelvec_save =
    [Addi SP SP (-256),
     Sd RA 0 SP, Sd SP 8 SP, Sd GP 16 SP, Sd TP 24 SP, Sd T0 32 SP, Sd T1 40 SP, Sd T2 48 SP,
     Sd A0 72 SP, Sd A1 80 SP, Sd A2 88 SP, Sd A3 96 SP, Sd A4 104 SP, Sd A5 112 SP, Sd A6 120 SP, Sd A7 128 SP,
     Sd T3 216 SP, Sd T4 224 SP, Sd T5 232 SP, Sd T6 240 SP]"

definition kernelvec_restore :: "instr list" where
  "kernelvec_restore =
    [Ld RA 0 SP, Ld SP 8 SP, Ld GP 16 SP, Ld T0 32 SP, Ld T1 40 SP, Ld T2 48 SP,
     Ld A0 72 SP, Ld A1 80 SP, Ld A2 88 SP, Ld A3 96 SP, Ld A4 104 SP, Ld A5 112 SP, Ld A6 120 SP, Ld A7 128 SP,
     Ld T3 216 SP, Ld T4 224 SP, Ld T5 232 SP, Ld T6 240 SP,
     Addi SP SP 256, Sret]"

text \<open>\<^verbatim>\<open>_entry\<close>; \<open>stack0\<close> and \<open>start\<close> are the addresses of the symbols.\<close>

definition entry :: "addr \<Rightarrow> addr \<Rightarrow> instr list" where
  "entry stack0 start =
    [Li SP stack0, Li A0 (1024 * 4), Csrr A1 Mhartid, Addi A1 A1 1, Mul A0 A0 A1, Add SP SP A0,
     Li RA start, Jr RA]"

section \<open>Saving and restoring registers\<close>

lemma load64_store64_other:
  assumes "i + 8 \<le> 4096" "j + 8 \<le> 4096" "i + 8 \<le> j \<or> j + 8 \<le> i"
  shows "load64 (store64 m (t + of_nat i) v) (t + of_nat j) = load64 m (t + of_nat j)"
proof (rule load64_cong)
  fix k :: nat assume k: "k < 8"
  have "\<not> (t + of_nat j + of_nat k) - (t + of_nat i) < 8"
  proof
    let ?d = "(t + of_nat j + of_nat k) - (t + of_nat i)"
    assume "?d < 8"
    then have d: "unat ?d < 8" by (simp add: word_less_nat_alt)
    have "(of_nat (i + unat ?d) :: 64 word) = of_nat (j + k)" by (simp add: algebra_simps)
    then have "unat (of_nat (i + unat ?d) :: 64 word) = unat (of_nat (j + k) :: 64 word)" by (simp only:)
    then have "i + unat ?d = j + k" using d k assms(1,2) by (simp del: of_nat_add)
    then show False using d k assms(3) by linarith
  qed
  then show "store64 m (t + of_nat i) v (t + of_nat j + of_nat k) = m (t + of_nat j + of_nat k)" by (rule store64_other)
qed

text \<open>A list of slots in increasing order, and the instructions that save to and load from them.\<close>

definition slots_ok :: "(reg \<times> nat) list \<Rightarrow> bool" where
  "slots_ok xs \<longleftrightarrow> sorted_wrt (\<lambda>x y. snd x + 8 \<le> snd y) xs \<and> (\<forall>x\<in>set xs. snd x + 8 \<le> 4096)"

definition saves :: "reg \<Rightarrow> (reg \<times> nat) list \<Rightarrow> instr list" where
  "saves b xs = map (\<lambda>(r, off). Sd r off b) xs"

definition loads :: "reg \<Rightarrow> (reg \<times> nat) list \<Rightarrow> instr list" where
  "loads b xs = map (\<lambda>(r, off). Ld r off b) xs"

definition stored :: "addr \<Rightarrow> (reg \<Rightarrow> uint64) \<Rightarrow> (reg \<times> nat) list \<Rightarrow> memory \<Rightarrow> memory" where
  "stored t rs xs m = fold (\<lambda>(r, off) m. store64 m (t + of_nat off) (rs r)) xs m"

text \<open>The \<open>n\<close> bytes from the virtual address \<open>a\<close> on lie at the physical address \<open>t\<close>.\<close>

definition maps_to :: "mmu \<Rightarrow> uint64 \<Rightarrow> addr \<Rightarrow> nat \<Rightarrow> addr \<Rightarrow> bool" where
  "maps_to tr sat a n t \<longleftrightarrow> (\<forall>k<n. tr sat (a + of_nat k) = t + of_nat k)"

lemma run_saves:
  assumes "maps_to tr (csrs h Satp) (regs h b) n t" "\<forall>x\<in>set xs. snd x + 8 \<le> n"
  shows "run tr (saves b xs) h = h\<lparr>pmem := stored t (regs h) xs (pmem h)\<rparr>"
  using assms
proof (induction xs arbitrary: h)
  case (Cons x xs)
  obtain r off where x: "x = (r, off)" by fastforce
  have "tr (csrs h Satp) (regs h b + of_nat off) = t + of_nat off" using Cons.prems x by (auto simp: maps_to_def)
  then show ?case using Cons.prems Cons.IH [of "step tr (Sd r off b) h"] by (simp add: saves_def stored_def x)
qed (simp add: saves_def stored_def)

lemma load_stored_other:
  assumes "\<forall>x\<in>set xs. snd x + 8 \<le> 4096 \<and> (snd x + 8 \<le> j \<or> j + 8 \<le> snd x)" "j + 8 \<le> 4096"
  shows "load64 (stored t rs xs m) (t + of_nat j) = load64 m (t + of_nat j)"
  using assms
proof (induction xs arbitrary: m)
  case (Cons x xs)
  obtain r off where x: "x = (r, off)" by fastforce
  then show ?case using Cons load64_store64_other [of off j m t "rs r"] by (simp add: stored_def)
qed (simp add: stored_def)

lemma load_stored:
  assumes "slots_ok xs" "(r, off) \<in> set xs"
  shows "load64 (stored t rs xs m) (t + of_nat off) = rs r"
  using assms
proof (induction xs arbitrary: m)
  case (Cons x xs)
  have ok: "slots_ok xs" using Cons.prems(1) by (auto simp: slots_ok_def)
  show ?case
  proof (cases "x = (r, off)")
    case True
    then have "load64 (stored t rs xs (store64 m (t + of_nat off) (rs r))) (t + of_nat off) = rs r"
      using Cons.prems(1) load_stored_other [of xs off t rs] by (auto simp: slots_ok_def)
    then show ?thesis using True by (simp add: stored_def)
  next
    case False
    then show ?thesis using Cons ok by (cases x) (auto simp: stored_def)
  qed
qed simp

lemma run_loads:
  assumes "maps_to tr (csrs h Satp) (regs h b) n t" "\<forall>x\<in>set xs. snd x + 8 \<le> n \<and> fst x \<noteq> b"
  shows "run tr (loads b xs) h = h\<lparr>regs := (\<lambda>r. case map_of (rev xs) r of None \<Rightarrow> regs h r | Some off \<Rightarrow> load64 (pmem h) (t + of_nat off))\<rparr>"
  using assms
proof (induction xs arbitrary: h)
  case (Cons x xs)
  obtain r off where x: "x = (r, off)" by fastforce
  have "tr (csrs h Satp) (regs h b + of_nat off) = t + of_nat off" using Cons.prems x by (auto simp: maps_to_def)
  then show ?case using Cons.prems Cons.IH [of "step tr (Ld r off b) h"]
    by (auto simp: loads_def x fun_eq_iff map_add_def split: option.splits)
qed (simp add: loads_def)

section \<open>User registers\<close>

definition user_slots :: "(reg \<times> nat) list" where
  "user_slots =
    [(RA, 40), (SP, 48), (GP, 56), (TP, 64), (T0, 72), (T1, 80), (T2, 88), (S0, 96), (S1, 104), (A1, 120), (A2, 128),
     (A3, 136), (A4, 144), (A5, 152), (A6, 160), (A7, 168), (S2, 176), (S3, 184), (S4, 192), (S5, 200), (S6, 208),
     (S7, 216), (S8, 224), (S9, 232), (S10, 240), (S11, 248), (T3, 256), (T4, 264), (T5, 272), (T6, 280)]"

lemma user_slots_ok: "slots_ok user_slots" "\<forall>x\<in>set user_slots. snd x + 8 \<le> 4096 \<and> fst x \<noteq> A0"
  "\<forall>x\<in>set user_slots. snd x + 8 \<le> 4096 \<and> (snd x + 8 \<le> 112 \<or> 112 + 8 \<le> snd x)"
  "\<forall>x\<in>set user_slots. 40 \<le> snd x"
  by (simp_all add: slots_ok_def user_slots_def)

lemma user_slots_all: "r \<noteq> A0 \<Longrightarrow> \<exists>off. map_of (rev user_slots) r = Some off \<and> (r, off) \<in> set user_slots"
  by (cases r) (simp_all add: user_slots_def)

lemma uservec_eq: "uservec = [Csrw Sscratch A0, Li A0 TRAPFRAME] @ saves A0 user_slots @
    [Csrr T0 Sscratch, Sd T0 112 A0, Ld SP 8 A0, Ld TP 32 A0, Ld T0 16 A0, Ld T1 0 A0, SfenceVma, Csrw Satp T1, SfenceVma, Jr T0]"
  by (simp add: uservec_def saves_def user_slots_def)

lemma userret_eq: "userret = [SfenceVma, Csrw Satp A0, SfenceVma, Li A0 TRAPFRAME] @ loads A0 user_slots @ [Ld A0 112 A0, Sret]"
  by (simp add: userret_def loads_def user_slots_def)

text \<open>What \<^verbatim>\<open>uservec\<close> leaves in the trap frame and in the registers it loads.\<close>

lemma uservec_spec:
  fixes h :: hart
  assumes tf: "maps_to tr (csrs h Satp) TRAPFRAME 4096 tf"
  defines "h' \<equiv> run tr uservec h"
  shows "(r, off) \<in> set user_slots \<Longrightarrow> load64 (pmem h') (tf + of_nat off) = regs h r"
    "load64 (pmem h') (tf + 112) = regs h A0"
    "\<And>off. off < 5 \<Longrightarrow> load64 (pmem h') (tf + of_nat (8 * off)) = load64 (pmem h) (tf + of_nat (8 * off))"
    "regs h' SP = load64 (pmem h) (tf + 8)" "regs h' TP = load64 (pmem h) (tf + 32)"
    "pc h' = load64 (pmem h) (tf + 16)" "csrs h' Satp = load64 (pmem h) tf"
proof -
  let ?h1 = "run tr [Csrw Sscratch A0, Li A0 TRAPFRAME] h"
  have rs: "regs ?h1 r = regs h r" if "r \<noteq> A0" for r using that by simp
  let ?m = "stored tf (regs ?h1) user_slots (pmem h)"
  let ?h2 = "run tr (saves A0 user_slots) ?h1"
  have 2: "?h2 = ?h1\<lparr>pmem := ?m\<rparr>"
    using run_saves [of tr ?h1 A0 4096 tf user_slots] tf user_slots_ok(2) by simp
  have at: "tr (csrs h Satp) (TRAPFRAME + of_nat k) = tf + of_nat k" if "k < 4096" for k
    using tf that by (simp add: maps_to_def)
  let ?m' = "store64 ?m (tf + of_nat 112) (regs h A0)"
  have low: "load64 ?m' (tf + of_nat (8 * k)) = load64 (pmem h) (tf + of_nat (8 * k))" if "k < 5" for k
  proof -
    have "\<forall>x\<in>set user_slots. snd x + 8 \<le> 4096 \<and> (snd x + 8 \<le> 8 * k \<or> 8 * k + 8 \<le> snd x)"
      using that user_slots_ok(2,4) by fastforce
    then show ?thesis
      using that load64_store64_other [of 112 "8 * k" ?m tf] load_stored_other [of user_slots "8 * k" tf "regs ?h1" "pmem h"] by simp
  qed
  have l0: "load64 ?m' tf = load64 (pmem h) tf" "load64 ?m' (tf + 8) = load64 (pmem h) (tf + 8)"
    "load64 ?m' (tf + 16) = load64 (pmem h) (tf + 16)" "load64 ?m' (tf + 32) = load64 (pmem h) (tf + 32)"
    using low [of 0] low [of 1] low [of 2] low [of 4] by simp_all
  have a0: "tr (csrs h Satp) TRAPFRAME = tf" "tr (csrs h Satp) (TRAPFRAME + 8) = tf + 8" "tr (csrs h Satp) (TRAPFRAME + 16) = tf + 16"
    "tr (csrs h Satp) (TRAPFRAME + 32) = tf + 32" "tr (csrs h Satp) (TRAPFRAME + 112) = tf + 112"
    using at [of 0] at [of 8] at [of 16] at [of 32] at [of 112] by simp_all
  have h': "h' = (?h1\<lparr>pmem := ?m', regs := (regs ?h1)(SP := load64 (pmem h) (tf + 8), TP := load64 (pmem h) (tf + 32),
      T0 := load64 (pmem h) (tf + 16), T1 := load64 (pmem h) tf)\<rparr>)\<lparr>csrs := (csrs ?h1)(Satp := load64 (pmem h) tf), pc := load64 (pmem h) (tf + 16)\<rparr>"
    unfolding h'_def uservec_eq run_simps(3) 2 using l0 a0 by (simp add: fun_upd_twist)
  show "load64 (pmem h') (tf + of_nat off) = regs h r" if "(r, off) \<in> set user_slots"
  proof -
    have o: "off + 8 \<le> 4096" "off + 8 \<le> 112 \<or> 112 + 8 \<le> off" "r \<noteq> A0" using that user_slots_ok(2,3) by force+
    then show ?thesis
      using load64_store64_other [of 112 off ?m tf "regs h A0"] load_stored [OF user_slots_ok(1) that, of tf "regs ?h1" "pmem h"] rs
      by (auto simp: h')
  qed
  show "load64 (pmem h') (tf + 112) = regs h A0" by (simp add: h')
  show "load64 (pmem h') (tf + of_nat (8 * k)) = load64 (pmem h) (tf + of_nat (8 * k))" if "k < 5" for k
    using low [OF that] by (simp add: h')
  show "regs h' SP = load64 (pmem h) (tf + 8)" "regs h' TP = load64 (pmem h) (tf + 32)"
    "pc h' = load64 (pmem h) (tf + 16)" "csrs h' Satp = load64 (pmem h) tf" by (simp_all add: h')
qed

text \<open>The bytes of two memories agree on the \<open>n\<close> bytes at distance \<open>i\<close> from \<open>t\<close>.\<close>

definition agree :: "addr \<Rightarrow> nat \<Rightarrow> nat \<Rightarrow> memory \<Rightarrow> memory \<Rightarrow> bool" where
  "agree t i n m m' \<longleftrightarrow> (\<forall>k. i \<le> k \<and> k < i + n \<longrightarrow> m (t + of_nat k) = m' (t + of_nat k))"

lemma load_agree:
  assumes "agree t i n m m'" "i \<le> j" "j + 8 \<le> i + n"
  shows "load64 m (t + of_nat j) = load64 m' (t + of_nat j)"
proof (rule load64_cong)
  fix k :: nat assume "k < 8"
  then have "i \<le> j + k \<and> j + k < i + n" using assms(2,3) by linarith
  then have "m (t + of_nat (j + k)) = m' (t + of_nat (j + k))" using assms(1) unfolding agree_def by blast
  then show "m (t + of_nat j + of_nat k) = m' (t + of_nat j + of_nat k)" by (simp add: add.assoc)
qed

lemma userret_spec:
  fixes k :: hart
  assumes tf: "maps_to tr (regs k A0) TRAPFRAME 4096 tf"
  defines "h \<equiv> run tr userret k"
  shows "(r, off) \<in> set user_slots \<Longrightarrow> map_of (rev user_slots) r = Some off \<Longrightarrow> regs h r = load64 (pmem k) (tf + of_nat off)"
    "regs h A0 = load64 (pmem k) (tf + 112)" "pc h = csrs k Sepc" "csrs h Satp = regs k A0" "pmem h = pmem k"
proof -
  let ?k1 = "run tr [SfenceVma, Csrw Satp A0, SfenceVma, Li A0 TRAPFRAME] k"
  have "maps_to tr (csrs ?k1 Satp) (regs ?k1 A0) 4096 tf" using tf by simp
  note l = run_loads [OF this user_slots_ok(2)]
  have n: "map_of (rev user_slots) A0 = None" using user_slots_ok(2) by (force simp: map_of_eq_None_iff)
  have at: "tr (regs k A0) (TRAPFRAME + 112) = tf + 112" using tf [unfolded maps_to_def, rule_format, of 112] by simp
  have h: "h = ?k1\<lparr>regs := (\<lambda>r. case map_of (rev user_slots) r of None \<Rightarrow> regs ?k1 r | Some off \<Rightarrow> load64 (pmem k) (tf + of_nat off))
      (A0 := load64 (pmem k) (tf + 112)), pc := csrs k Sepc\<rparr>"
    unfolding h_def userret_eq run_simps(3) l using at n by (simp cong: option.case_cong)
  show "regs h r = load64 (pmem k) (tf + of_nat off)" if "(r, off) \<in> set user_slots" "map_of (rev user_slots) r = Some off"
    using that user_slots_ok(2) by (auto simp: h)
  show "regs h A0 = load64 (pmem k) (tf + 112)" "pc h = csrs k Sepc" "csrs h Satp = regs k A0" "pmem h = pmem k"
    by (simp_all add: h)
qed

section \<open>Switching\<close>

definition context_slots :: "(reg \<times> nat) list" where
  "context_slots =
    [(RA, 0), (SP, 8), (S0, 16), (S1, 24), (S2, 32), (S3, 40), (S4, 48), (S5, 56), (S6, 64), (S7, 72), (S8, 80),
     (S9, 88), (S10, 96), (S11, 104)]"

lemma context_slots_ok: "slots_ok context_slots" "\<forall>x\<in>set context_slots. snd x + 8 \<le> 112 \<and> fst x \<noteq> A0 \<and> fst x \<noteq> A1"
  "map_of (rev context_slots) r = Some off \<longleftrightarrow> (r, off) \<in> set context_slots" "map_of (rev context_slots) RA = Some 0"
proof -
  show "slots_ok context_slots" by (simp add: slots_ok_def context_slots_def)
  show "\<forall>x\<in>set context_slots. snd x + 8 \<le> 112 \<and> fst x \<noteq> A0 \<and> fst x \<noteq> A1" by (simp add: context_slots_def)
  have "distinct (map fst (rev context_slots))" by (simp add: context_slots_def)
  then show "map_of (rev context_slots) r = Some off \<longleftrightarrow> (r, off) \<in> set context_slots" by simp
  show "map_of (rev context_slots) RA = Some 0" by (simp add: context_slots_def)
qed

lemma swtch_eq: "swtch = saves A0 context_slots @ loads A1 context_slots @ [Jr RA]"
  by (simp add: swtch_def saves_def loads_def context_slots_def)

text \<open>
  The context at virtual address \<open>a\<close> lies at the physical address \<open>t\<close>. Only the first 112 bytes
  matter; contexts are inside \<^verbatim>\<open>struct proc\<close> and \<^verbatim>\<open>struct cpu\<close>, in memory that the kernel maps as it is.
  Two contexts are \<open>apart\<close> when they share no byte.
\<close>

definition apart :: "nat \<Rightarrow> addr \<Rightarrow> addr \<Rightarrow> bool" where
  "apart n a b \<longleftrightarrow> (\<forall>i<n. \<forall>j<n. a + of_nat i \<noteq> b + of_nat j)"

lemma swtch_spec:
  fixes h :: hart
  assumes o: "maps_to tr (csrs h Satp) (regs h A0) 112 old" and n: "maps_to tr (csrs h Satp) (regs h A1) 112 new"
    and disj: "apart 112 old new"
  defines "h' \<equiv> run tr swtch h"
  shows "(r, off) \<in> set context_slots \<Longrightarrow> regs h' r = load64 (pmem h) (new + of_nat off)"
    "(r, off) \<in> set context_slots \<Longrightarrow> load64 (pmem h') (old + of_nat off) = regs h r"
    "pc h' = load64 (pmem h) new" "csrs h' = csrs h"
    "r \<notin> fst ` set context_slots \<Longrightarrow> regs h' r = regs h r"
proof -
  let ?m = "stored old (regs h) context_slots (pmem h)"
  have c: "\<forall>x\<in>set context_slots. snd x + 8 \<le> 112" "\<forall>x\<in>set context_slots. snd x + 8 \<le> 112 \<and> fst x \<noteq> A1" using context_slots_ok(2) by auto
  note 1 = run_saves [OF o c(1)]
  let ?h1 = "h\<lparr>pmem := ?m\<rparr>"
  have "maps_to tr (csrs ?h1 Satp) (regs ?h1 A1) 112 new" using n by simp
  note 2 = run_loads [OF this c(2)]
  have far: "store64 m (old + of_nat i) v (new + of_nat j) = m (new + of_nat j)" if "i + 8 \<le> 112" "j < 112" for m i v j
  proof (rule store64_other, rule notI)
    assume "new + of_nat j - (old + of_nat i) < 8"
    then have d: "unat (new + of_nat j - (old + of_nat i)) < 8" by (simp add: word_less_nat_alt)
    let ?d = "unat (new + of_nat j - (old + of_nat i))"
    have "old + of_nat (i + ?d) = new + of_nat j" by (simp add: algebra_simps)
    then show False using disj [unfolded apart_def, rule_format, of "i + ?d" j] d that by simp
  qed
  have "stored old rs xs m (new + of_nat j) = m (new + of_nat j)" if "\<forall>x\<in>set xs. snd x + 8 \<le> 112" "j < 112" for rs xs m j
    using that
  proof (induction xs arbitrary: m)
    case (Cons x xs)
    then show ?case using far by (cases x) (simp add: stored_def)
  qed (simp add: stored_def)
  then have ag: "agree new 0 112 ?m (pmem h)" using c(1) by (simp add: agree_def)
  have ld: "load64 ?m (new + of_nat off) = load64 (pmem h) (new + of_nat off)" if "off + 8 \<le> 112" for off
    using load_agree [OF ag, of off] that by simp
  have h': "h' = h\<lparr>pmem := ?m, regs := (\<lambda>r. case map_of (rev context_slots) r of None \<Rightarrow> regs h r | Some off \<Rightarrow> load64 ?m (new + of_nat off)),
      pc := load64 ?m new\<rparr>"
    unfolding h'_def swtch_eq run_simps(3) 1 2 by (simp add: context_slots_ok(4) cong: option.case_cong)
  show "regs h' r = load64 (pmem h) (new + of_nat off)" if "(r, off) \<in> set context_slots"
    using that context_slots_ok(2,3) ld [of off] by (force simp: h')
  show "load64 (pmem h') (old + of_nat off) = regs h r" if "(r, off) \<in> set context_slots"
    using load_stored [OF context_slots_ok(1) that] by (simp add: h')
  show "pc h' = load64 (pmem h) new" using ld [of 0] by (simp add: h')
  show "csrs h' = csrs h" by (simp add: h')
  show "regs h' r = regs h r" if "r \<notin> fst ` set context_slots"
  proof -
    have "map_of (rev context_slots) r = None" using that by (simp add: map_of_eq_None_iff)
    then show ?thesis by (simp add: h')
  qed
qed

section \<open>Traps from the kernel\<close>

definition kernel_slots :: "(reg \<times> nat) list" where
  "kernel_slots =
    [(GP, 16), (T0, 32), (T1, 40), (T2, 48), (A0, 72), (A1, 80), (A2, 88), (A3, 96), (A4, 104), (A5, 112), (A6, 120),
     (A7, 128), (T3, 216), (T4, 224), (T5, 232), (T6, 240)]"

definition pushed_slots :: "(reg \<times> nat) list" where
  "pushed_slots =
    [(RA, 0), (SP, 8), (GP, 16), (TP, 24), (T0, 32), (T1, 40), (T2, 48), (A0, 72), (A1, 80), (A2, 88), (A3, 96),
     (A4, 104), (A5, 112), (A6, 120), (A7, 128), (T3, 216), (T4, 224), (T5, 232), (T6, 240)]"

lemma kernel_slots_ok: "slots_ok pushed_slots" "\<forall>x\<in>set pushed_slots. snd x + 8 \<le> 256"
  "\<forall>x\<in>set kernel_slots. snd x + 8 \<le> 256 \<and> fst x \<noteq> SP" "set kernel_slots \<subseteq> set pushed_slots"
  "map_of (rev kernel_slots) SP = None" "map_of (rev kernel_slots) RA = None" "map_of (rev kernel_slots) r = Some off \<Longrightarrow> (r, off) \<in> set kernel_slots"
  "(RA, 0) \<in> set pushed_slots" "(SP, 8) \<in> set pushed_slots"
  by (simp_all add: slots_ok_def pushed_slots_def kernel_slots_def split: if_splits)

lemma kernelvec_eq: "kernelvec_save = Addi SP SP (-256) # saves SP pushed_slots"
  "kernelvec_restore = [Ld RA 0 SP, Ld SP 8 SP] @ loads SP kernel_slots @ [Addi SP SP 256, Sret]"
  by (simp_all add: kernelvec_save_def kernelvec_restore_def saves_def loads_def pushed_slots_def kernel_slots_def)

text \<open>The callee-saved registers, which \<^verbatim>\<open>kerneltrap\<close> preserves by the calling convention.\<close>

definition callee_saved :: "reg list" where
  "callee_saved = [S0, S1, S2, S3, S4, S5, S6, S7, S8, S9, S10, S11]"

lemma kernel_slots_all: "r \<noteq> TP \<Longrightarrow> r \<noteq> SP \<Longrightarrow> r \<noteq> RA \<Longrightarrow> r \<notin> set callee_saved \<Longrightarrow>
    \<exists>off. map_of (rev kernel_slots) r = Some off"
  "r \<in> set callee_saved \<Longrightarrow> map_of (rev kernel_slots) r = None"
  by (cases r; simp add: kernel_slots_def callee_saved_def)+

lemma kernelvec_save_spec:
  fixes h :: hart
  assumes st: "maps_to tr (csrs h Satp) (regs h SP - 256) 256 t"
  defines "h' \<equiv> run tr kernelvec_save h"
  shows "regs h' = (regs h)(SP := regs h SP - 256)" "csrs h' = csrs h" "pc h' = pc h"
    "(r, off) \<in> set pushed_slots \<Longrightarrow> load64 (pmem h') (t + of_nat off) = ((regs h)(SP := regs h SP - 256)) r"
proof -
  let ?h1 = "step tr (Addi SP SP (-256)) h"
  have "maps_to tr (csrs ?h1 Satp) (regs ?h1 SP) 256 t" using st by simp
  note 1 = run_saves [OF this kernel_slots_ok(2)]
  show "regs h' = (regs h)(SP := regs h SP - 256)" "csrs h' = csrs h" "pc h' = pc h"
    unfolding h'_def kernelvec_eq(1) run_simps(2) 1 by simp_all
  show "load64 (pmem h') (t + of_nat off) = ((regs h)(SP := regs h SP - 256)) r" if "(r, off) \<in> set pushed_slots"
    using load_stored [OF kernel_slots_ok(1) that, of t "regs ?h1" "pmem h"]
    unfolding h'_def kernelvec_eq(1) run_simps(2) 1 by simp
qed

lemma kernelvec_restore_spec:
  fixes k :: hart
  assumes st: "maps_to tr (csrs k Satp) (regs k SP) 256 t" and sp: "load64 (pmem k) (t + of_nat 8) = regs k SP"
  defines "h \<equiv> run tr kernelvec_restore k"
  shows "regs h SP = regs k SP + 256" "regs h RA = load64 (pmem k) t"
    "map_of (rev kernel_slots) r = Some off \<Longrightarrow> regs h r = load64 (pmem k) (t + of_nat off)"
    "map_of (rev kernel_slots) r = None \<Longrightarrow> r \<noteq> SP \<Longrightarrow> r \<noteq> RA \<Longrightarrow> regs h r = regs k r"
    "pc h = csrs k Sepc" "csrs h = csrs k" "pmem h = pmem k"
proof -
  let ?k1 = "k\<lparr>regs := (regs k)(RA := load64 (pmem k) t)\<rparr>"
  have at: "tr (csrs k Satp) (regs k SP) = t" "tr (csrs k Satp) (regs k SP + 8) = t + 8"
    using st [unfolded maps_to_def, rule_format, of 0] st [unfolded maps_to_def, rule_format, of 8] by simp_all
  have 0: "run tr [Ld RA 0 SP, Ld SP 8 SP] k = ?k1" using at sp by (simp add: fun_upd_twist [of SP RA] fun_upd_idem)
  have "maps_to tr (csrs ?k1 Satp) (regs ?k1 SP) 256 t" using st by simp
  note 1 = run_loads [OF this kernel_slots_ok(3)]
  have h: "h = k\<lparr>regs := (\<lambda>r. case map_of (rev kernel_slots) r of None \<Rightarrow> regs ?k1 r | Some off \<Rightarrow> load64 (pmem k) (t + of_nat off))
      (SP := regs k SP + 256), pc := csrs k Sepc\<rparr>"
    unfolding h_def kernelvec_eq(2) run_simps(3) 0 1 by (simp add: kernel_slots_ok(5) cong: option.case_cong)
  show "regs h SP = regs k SP + 256" "regs h RA = load64 (pmem k) t" "pc h = csrs k Sepc" "csrs h = csrs k" "pmem h = pmem k"
    by (simp_all add: h kernel_slots_ok(6))
  show "regs h r = load64 (pmem k) (t + of_nat off)" if "map_of (rev kernel_slots) r = Some off"
    using that kernel_slots_ok(5) by (auto simp: h)
  show "regs h r = regs k r" if "map_of (rev kernel_slots) r = None" "r \<noteq> SP" "r \<noteq> RA"
    using that by (simp add: h)
qed

section \<open>Properties\<close>

text \<open>
  C30. The trampoline is transparent to the user. \<^verbatim>\<open>uservec\<close>, entered with the registers of the user,
  continues on the kernel stack with the hart id, the address and the page table that the trap
  frame names, and leaves those entries of the trap frame as they were. When \<^verbatim>\<open>userret\<close> runs later, from any state in which the
  page table given to it maps the same trap frame and the saved registers in the frame are
  untouched, every one of the 31 user registers has its old value, and execution continues
  at \<^verbatim>\<open>sepc\<close> with the user page table.
\<close>

theorem uservec_userret:
  fixes h k :: hart
  assumes "maps_to tr (csrs h Satp) TRAPFRAME 4096 tf" "maps_to tr (regs k A0) TRAPFRAME 4096 tf"
    and "agree tf 40 248 (pmem k) (pmem (run tr uservec h))"
  shows "regs (run tr uservec h) SP = load64 (pmem h) (tf + 8) \<and> regs (run tr uservec h) TP = load64 (pmem h) (tf + 32) \<and>
      pc (run tr uservec h) = load64 (pmem h) (tf + 16) \<and> csrs (run tr uservec h) Satp = load64 (pmem h) tf \<and>
      (\<forall>i<5. load64 (pmem (run tr uservec h)) (tf + of_nat (8 * i)) = load64 (pmem h) (tf + of_nat (8 * i))) \<and>
      regs (run tr userret k) = regs h \<and> pc (run tr userret k) = csrs k Sepc \<and> csrs (run tr userret k) Satp = regs k A0"
proof -
  note 1 = uservec_spec [OF assms(1)] and 2 = userret_spec [OF assms(2)]
  have ag: "load64 (pmem k) (tf + of_nat off) = load64 (pmem (run tr uservec h)) (tf + of_nat off)" if "40 \<le> off" "off + 8 \<le> 288" for off
    by (rule load_agree [OF assms(3)]) (use that in simp_all)
  have le: "40 \<le> off \<and> off + 8 \<le> 288" if "(r, off) \<in> set user_slots" for r off using that by (auto simp: user_slots_def)
  have "regs (run tr userret k) r = regs h r" for r
  proof (cases "r = A0")
    case True
    then show ?thesis using 2(2) 1(2) ag [of 112] by simp
  next
    case False
    then obtain off where o: "map_of (rev user_slots) r = Some off" "(r, off) \<in> set user_slots" using user_slots_all by blast
    then show ?thesis using 2(1) [OF o(2,1)] 1(1) [OF o(2)] ag [of off] le [OF o(2)] by simp
  qed
  then have "regs (run tr userret k) = regs h" by (rule ext)
  then show ?thesis using 1(3-7) 2(3,4) by blast
qed

definition example_hart :: "uint64 \<Rightarrow> hart" where
  "example_hart v = \<lparr>regs = (\<lambda>r. if r = SP then v + 0x3000 else v), csrs = (\<lambda>_. v), pmem = (\<lambda>_. 0), pc = 0\<rparr>"

theorem uservec_userret_witness:
  "let h = example_hart 7; m = run (\<lambda>s a. a) uservec h; k = m\<lparr>regs := (\<lambda>_. 1), csrs := (csrs m)(Sepc := 0x100)\<rparr>
   in maps_to (\<lambda>s a. a) (csrs h Satp) TRAPFRAME 4096 TRAPFRAME \<and> maps_to (\<lambda>s a. a) (regs k A0) TRAPFRAME 4096 TRAPFRAME \<and>
      agree TRAPFRAME 40 248 (pmem k) (pmem m) \<and> regs (run (\<lambda>s a. a) userret k) = regs h \<and> pc (run (\<lambda>s a. a) userret k) = 0x100"
proof -
  have id: "maps_to (\<lambda>s a. a) x TRAPFRAME 4096 TRAPFRAME" for x by (simp add: maps_to_def)
  define m where "m = run (\<lambda>s a. a) uservec (example_hart 7)"
  define k where "k = m\<lparr>regs := (\<lambda>_. 1), csrs := (csrs m)(Sepc := 0x100)\<rparr>"
  have ag: "agree TRAPFRAME 40 248 (pmem k) (pmem m)" by (simp add: agree_def k_def)
  have "regs (run (\<lambda>s a. a) userret k) = regs (example_hart 7) \<and> pc (run (\<lambda>s a. a) userret k) = csrs k Sepc"
    using uservec_userret [OF id id ag [unfolded m_def]] by blast
  then show ?thesis using id ag by (simp add: Let_def m_def [symmetric] k_def [symmetric]) (simp add: k_def)
qed

text \<open>
  C31. \<^verbatim>\<open>swtch\<close> suspends and resumes a thread. It continues where the context \<open>new\<close> was left, with the
  registers of that context, and any later switch back to \<open>old\<close>, from any state that left that
  context alone, returns to the caller of the first \<^verbatim>\<open>swtch\<close> with its return address, stack
  pointer and callee-saved registers.
\<close>

theorem swtch_correct:
  fixes h k :: hart
  assumes "maps_to tr (csrs h Satp) (regs h A0) 112 old" "maps_to tr (csrs h Satp) (regs h A1) 112 new"
    and "apart 112 old new"
    and "maps_to tr (csrs k Satp) (regs k A0) 112 other" "maps_to tr (csrs k Satp) (regs k A1) 112 old"
    and "apart 112 other old"
    and "agree old 0 112 (pmem k) (pmem (run tr swtch h))"
  shows "pc (run tr swtch h) = load64 (pmem h) new \<and> regs (run tr swtch h) SP = load64 (pmem h) (new + 8) \<and>
      (\<forall>r\<in>{RA, SP} \<union> set callee_saved. regs (run tr swtch k) r = regs h r) \<and> pc (run tr swtch k) = regs h RA \<and>
      (\<forall>r. r \<notin> {RA, SP} \<union> set callee_saved \<longrightarrow> regs (run tr swtch k) r = regs k r)"
proof -
  note 1 = swtch_spec [OF assms(1-3)] and 2 = swtch_spec [OF assms(4-6)]
  have dom: "fst ` set context_slots = {RA, SP} \<union> set callee_saved" by (simp add: context_slots_def callee_saved_def) blast
  have ag: "load64 (pmem k) (old + of_nat off) = regs h r" if "(r, off) \<in> set context_slots" for r off
  proof -
    have "off + 8 \<le> 0 + 112" using that context_slots_ok(2) by force
    then show ?thesis using load_agree [OF assms(7) le0, of off] 1(2) [OF that] by simp
  qed
  have mem: "(RA, 0) \<in> set context_slots" "(SP, 8) \<in> set context_slots" by (simp_all add: context_slots_def)
  have "regs (run tr swtch k) r = regs h r" if r: "r \<in> fst ` set context_slots" for r
  proof -
    obtain off where o: "(r, off) \<in> set context_slots" using r by force
    show ?thesis using 2(1) [OF o] ag [OF o] by simp
  qed
  moreover have "pc (run tr swtch k) = regs h RA" using 2(3) ag [OF mem(1)] by simp
  moreover have "regs (run tr swtch h) SP = load64 (pmem h) (new + 8)" using 1(1) [OF mem(2)] by simp
  moreover have "regs (run tr swtch k) r = regs k r" if "r \<notin> fst ` set context_slots" for r by (rule 2(5) [OF that])
  ultimately show ?thesis using 1(3) unfolding dom by blast
qed

theorem swtch_correct_witness:
  "let tr = (\<lambda>s a. a); h = (example_hart 7)\<lparr>regs := (regs (example_hart 7))(A0 := 0x1000, A1 := 0x2000)\<rparr>;
       k = (run tr swtch h)\<lparr>regs := (\<lambda>_. 9)(A0 := 0x2000, A1 := 0x1000)\<rparr>
   in regs (run tr swtch k) SP = regs h SP \<and> regs (run tr swtch k) S3 = 7 \<and> pc (run tr swtch k) = 7 \<and> regs (run tr swtch k) A2 = 9"
proof -
  define tr :: mmu where "tr = (\<lambda>s a. a)"
  define h where "h = (example_hart 7)\<lparr>regs := (regs (example_hart 7))(A0 := 0x1000, A1 := 0x2000)\<rparr>"
  define k where "k = (run tr swtch h)\<lparr>regs := (\<lambda>_. 9)(A0 := 0x2000, A1 := 0x1000)\<rparr>"
  have id: "maps_to tr x a 112 a" for x a by (simp add: maps_to_def tr_def)
  have far: "(0x1000 :: uint64) + of_nat i \<noteq> 0x2000 + of_nat j" if "i < 112" "j < 112" for i j :: nat
  proof
    assume "(0x1000 :: uint64) + of_nat i = 0x2000 + of_nat j"
    then have "(of_nat (0x1000 + i) :: uint64) = of_nat (0x2000 + j)" by simp
    then have "unat (of_nat (0x1000 + i) :: uint64) = unat (of_nat (0x2000 + j) :: uint64)" by (simp only:)
    then show False using that by (simp add: unat_of_nat64 del: of_nat_add)
  qed
  have ap: "apart 112 0x1000 0x2000" "apart 112 0x2000 0x1000" using far far [symmetric] unfolding apart_def by blast+
  have r: "regs h A0 = 0x1000" "regs h A1 = 0x2000" "regs k A0 = 0x2000" "regs k A1 = 0x1000" by (simp_all add: h_def k_def)
  have m: "maps_to tr (csrs h Satp) (regs h A0) 112 0x1000" "maps_to tr (csrs h Satp) (regs h A1) 112 0x2000"
    "maps_to tr (csrs k Satp) (regs k A0) 112 0x2000" "maps_to tr (csrs k Satp) (regs k A1) 112 0x1000"
    unfolding r by (rule id)+
  have ag: "agree 0x1000 0 112 (pmem k) (pmem (run tr swtch h))" by (simp add: agree_def k_def)
  have "(\<forall>r\<in>{RA, SP} \<union> set callee_saved. regs (run tr swtch k) r = regs h r) \<and> pc (run tr swtch k) = regs h RA \<and>
      (\<forall>r. r \<notin> {RA, SP} \<union> set callee_saved \<longrightarrow> regs (run tr swtch k) r = regs k r)"
    using swtch_correct [OF m(1,2) ap(1) m(3,4) ap(2) ag] by blast
  moreover have "S3 \<in> set callee_saved" "A2 \<notin> {RA, SP} \<union> set callee_saved" by (simp_all add: callee_saved_def)
  moreover have "regs h S3 = 7" "regs h RA = 7" "regs k A2 = 9" by (simp_all add: h_def k_def example_hart_def)
  ultimately show ?thesis unfolding Let_def tr_def [symmetric] h_def [symmetric] k_def [symmetric] by (metis UnCI insertCI)
qed

text \<open>
  C32. An interrupt in the kernel is transparent to the code it interrupts. When \<^verbatim>\<open>kerneltrap\<close> returns
  with the stack pointer and the callee-saved registers it was called with, and without
  writing the frame that \<^verbatim>\<open>kernelvec\<close> pushed below the stack pointer, then \<^verbatim>\<open>kernelvec\<close> resumes at
  \<^verbatim>\<open>sepc\<close> with every register as it was, except \<^verbatim>\<open>tp\<close>, which keeps the value it has after
  \<^verbatim>\<open>kerneltrap\<close> because the thread may have moved to another hart.
\<close>

theorem kernelvec_correct:
  fixes h k :: hart
  assumes "maps_to tr (csrs h Satp) (regs h SP - 256) 256 t" "csrs k Satp = csrs h Satp"
    and "regs k SP = regs h SP - 256" "\<forall>r\<in>set callee_saved. regs k r = regs h r"
    and "agree t 0 256 (pmem k) (pmem (run tr kernelvec_save h))"
  shows "(\<forall>r. r \<noteq> TP \<longrightarrow> regs (run tr kernelvec_restore k) r = regs h r) \<and> regs (run tr kernelvec_restore k) TP = regs k TP \<and>
      pc (run tr kernelvec_restore k) = csrs k Sepc"
proof -
  note 1 = kernelvec_save_spec [OF assms(1)]
  have ag: "load64 (pmem k) (t + of_nat off) = ((regs h)(SP := regs h SP - 256)) r" if "(r, off) \<in> set pushed_slots" for r off
  proof -
    have "off + 8 \<le> 0 + 256" using that kernel_slots_ok(2) by force
    then show ?thesis using load_agree [OF assms(5) le0, of off] 1(4) [OF that] by simp
  qed
  have st: "maps_to tr (csrs k Satp) (regs k SP) 256 t" using assms(1-3) by simp
  have sp: "load64 (pmem k) (t + of_nat 8) = regs k SP" using ag [OF kernel_slots_ok(9)] assms(3) by simp
  note 2 = kernelvec_restore_spec [OF st sp]
  have "regs (run tr kernelvec_restore k) r = regs h r" if r: "r \<noteq> TP" for r
  proof (cases "r = SP \<or> r = RA \<or> r \<in> set callee_saved")
    case True
    moreover have "SP \<notin> set callee_saved" "RA \<notin> set callee_saved" by (simp_all add: callee_saved_def)
    ultimately show ?thesis using 2(1,2) 2(4) [OF kernel_slots_all(2)] assms(3,4) ag [OF kernel_slots_ok(8)] by auto
  next
    case False
    then obtain off where o: "map_of (rev kernel_slots) r = Some off" using kernel_slots_all(1) r by blast
    then have "(r, off) \<in> set pushed_slots" using kernel_slots_ok(4,7) by blast
    then show ?thesis using 2(3) [OF o] ag [of r off] False by simp
  qed
  moreover have "map_of (rev kernel_slots) TP = None" by (simp add: kernel_slots_def)
  then have "regs (run tr kernelvec_restore k) TP = regs k TP" using 2(4) by simp
  ultimately show ?thesis using 2(5) by blast
qed

theorem kernelvec_correct_witness:
  "let tr = (\<lambda>s a. a); h = example_hart 7; m = run tr kernelvec_save h;
       k = m\<lparr>regs := (regs m)(TP := 1, A0 := 5, T3 := 6, RA := 4), csrs := (csrs m)(Sepc := 0x100)\<rparr>
   in regs (run tr kernelvec_restore k) SP = 0x3007 \<and> regs (run tr kernelvec_restore k) A0 = 7 \<and>
      regs (run tr kernelvec_restore k) TP = 1 \<and> pc (run tr kernelvec_restore k) = 0x100"
proof -
  define tr :: mmu where "tr = (\<lambda>s a. a)"
  define m where "m = run tr kernelvec_save (example_hart 7)"
  define k where "k = m\<lparr>regs := (regs m)(TP := 1, A0 := 5, T3 := 6, RA := 4), csrs := (csrs m)(Sepc := 0x100)\<rparr>"
  have id: "maps_to tr x a n a" for x a n by (simp add: maps_to_def tr_def)
  note s = kernelvec_save_spec(1-3) [OF id, of "example_hart 7", folded m_def]
  have c: "csrs k Satp = csrs (example_hart 7) Satp" "regs k SP = regs (example_hart 7) SP - 256"
    "\<forall>r\<in>set callee_saved. regs k r = regs (example_hart 7) r"
    by (simp_all add: k_def s callee_saved_def)
  have ag: "agree (regs (example_hart 7) SP - 256) 0 256 (pmem k) (pmem (run tr kernelvec_save (example_hart 7)))"
    by (simp add: agree_def k_def m_def)
  have "(\<forall>r. r \<noteq> TP \<longrightarrow> regs (run tr kernelvec_restore k) r = regs (example_hart 7) r) \<and>
      regs (run tr kernelvec_restore k) TP = regs k TP \<and> pc (run tr kernelvec_restore k) = csrs k Sepc"
    by (rule kernelvec_correct [OF id c ag])
  then have "regs (run tr kernelvec_restore k) SP = regs (example_hart 7) SP" "regs (run tr kernelvec_restore k) A0 = regs (example_hart 7) A0"
    "regs (run tr kernelvec_restore k) TP = 1" "pc (run tr kernelvec_restore k) = 0x100" by (simp_all add: k_def)
  then show ?thesis unfolding Let_def tr_def [symmetric] m_def [symmetric] k_def [symmetric] by (simp add: example_hart_def)
qed

text \<open>Each hart starts at the top of its own 4096-byte stack.\<close>

lemma entry_stack:
  "regs (run tr (entry stack0 start) h) SP = stack0 + 4096 * (csrs h Mhartid + 1)" "pc (run tr (entry stack0 start) h) = start"
  by (simp_all add: entry_def)


end
