(* ===== verification/Grep.thy ===== *)
theory Grep
  imports Prelude
begin

text \<open>
  \<^verbatim>\<open>user/grep.c\<close>: the regular-expression matcher and the loop that reads the input through a
  buffer of 1024 bytes. A C string is the list of its characters before the NUL, so that the
  empty list is a pointer to the NUL. The matcher is shown equivalent to a declarative meaning of
  patterns, and the loop to print exactly the matching lines.
\<close>

abbreviation (input) NUL :: char where "NUL \<equiv> CHR 0x00"
abbreviation (input) NL :: char where "NL \<equiv> CHR 0x0A"

section \<open>The matcher\<close>

function matchhere :: "string \<Rightarrow> string \<Rightarrow> bool"
  and matchstar :: "char \<Rightarrow> string \<Rightarrow> string \<Rightarrow> bool" where
  "matchhere [] text = True"
| "matchhere (c # re) text =
     (if re \<noteq> [] \<and> hd re = CHR ''*'' then matchstar c (tl re) text
      else if c = CHR ''$'' \<and> re = [] then text = []
      else if text \<noteq> [] \<and> (c = CHR ''.'' \<or> c = hd text) then matchhere re (tl text)
      else False)"
| "matchstar c re text =
     (if matchhere re text then True
      else if text \<noteq> [] \<and> (hd text = c \<or> c = CHR ''.'') then matchstar c re (tl text)
      else False)"
  by pat_completeness auto
termination
  by (relation "measure (\<lambda>x. case x of Inl (re, text) \<Rightarrow> 2 * (length re + length text) | Inr (c, re, text) \<Rightarrow> 2 * (length re + length text) + 1)")
    (auto simp: neq_Nil_conv)

fun match_loop :: "string \<Rightarrow> string \<Rightarrow> bool" where
  "match_loop re [] = matchhere re []"
| "match_loop re (t # text) = (if matchhere re (t # text) then True else match_loop re text)"

definition match :: "string \<Rightarrow> string \<Rightarrow> bool" where
  "match re text = (if re \<noteq> [] \<and> hd re = CHR ''^'' then matchhere (tl re) text else match_loop re text)"

section \<open>The input loop\<close>

text \<open>\<^verbatim>\<open>strchr(p, c)\<close> for a pointer \<^verbatim>\<open>p\<close> into the buffer; the buffer has a NUL, before which the search ends.\<close>

function strchr :: "char list \<Rightarrow> nat \<Rightarrow> char \<Rightarrow> nat option" where
  "strchr buf p c =
     (if length buf \<le> p \<or> buf ! p = NUL then None
      else if buf ! p = c then Some p else strchr buf (Suc p) c)"
  by pat_completeness auto
termination by (relation "measure (\<lambda>(buf, p, c). length buf - p)") auto

declare strchr.simps [simp del]

definition cstring :: "char list \<Rightarrow> nat \<Rightarrow> string" where
  "cstring buf p = takeWhile (\<lambda>b. b \<noteq> NUL) (drop p buf)"

lemma strchr_Some: "strchr buf p c = Some q \<Longrightarrow> p \<le> q \<and> q < length buf"
proof (induction buf p c rule: strchr.induct)
  case (1 buf p c)
  show ?case
  proof (cases "length buf \<le> p \<or> buf ! p = NUL \<or> buf ! p = c")
    case True
    then show ?thesis using "1.prems" by (subst (asm) strchr.simps) (auto split: if_splits)
  next
    case False
    then have "strchr buf (Suc p) c = Some q" using "1.prems" by (subst (asm) strchr.simps) simp
    then show ?thesis using "1.IH" False by fastforce
  qed
qed

text \<open>
  The inner loop, over the lines in the buffer. The last component is what \<^verbatim>\<open>write\<close> was called
  with, one list of characters per call.
\<close>

function grep_lines :: "string \<Rightarrow> char list \<Rightarrow> nat \<Rightarrow> char list list \<Rightarrow> char list \<times> nat \<times> char list list" where
  "grep_lines pattern buf p out =
     (case strchr buf p NL of
        None \<Rightarrow> (buf, p, out)
      | Some q \<Rightarrow>
          let buf0 = buf[q := NUL]
          in if match pattern (cstring buf0 p)
             then let buf1 = buf0[q := NL] in grep_lines pattern buf1 (q + 1) (out @ [take (q + 1 - p) (drop p buf1)])
             else grep_lines pattern buf0 (q + 1) out)"
  by pat_completeness auto
termination
  by (relation "measure (\<lambda>(pattern, buf, p, out). length buf - p)") (auto dest: strchr_Some)

declare grep_lines.simps [simp del]

text \<open>
  The outer loop. \<open>rd\<close> is \<^verbatim>\<open>read\<close> on the descriptor: the bytes it delivers, at most as many as
  asked, none at the end of the file or on an error, and the descriptor's next state. The loop goes on as long as
  bytes come, so it is a partial function.
\<close>

partial_function (option) grep_loop ::
    "('f \<Rightarrow> nat \<Rightarrow> char list \<times> 'f) \<Rightarrow> string \<Rightarrow> char list \<Rightarrow> nat \<Rightarrow> 'f \<Rightarrow> char list list \<Rightarrow> (char list list \<times> 'f) option" where
  "grep_loop rd pattern buf m f out =
     (let (data, f') = rd f (1024 - m - 1)
      in if data = [] then Some (out, f')
         else
           let n = length data;
               buf = take m buf @ data @ drop (m + n) buf;
               m = m + n;
               buf = buf[m := NUL];
               (buf, p, out) = grep_lines pattern buf 0 out
           in if m > 0
              then grep_loop rd pattern (take (m - p) (drop p buf) @ drop (m - p) buf) (m - p) f' out
              else grep_loop rd pattern buf m f' out)"

definition grep :: "('f \<Rightarrow> nat \<Rightarrow> char list \<times> 'f) \<Rightarrow> string \<Rightarrow> char list \<Rightarrow> 'f \<Rightarrow> (char list list \<times> 'f) option" where
  "grep rd pattern buf f = grep_loop rd pattern buf 0 f []"

section \<open>The meaning of patterns\<close>

text \<open>
  A pattern is a sequence of items, each a character or a starred character, with an optional
  anchor at either end; the character \<^verbatim>\<open>.\<close> fits every character.
\<close>

datatype item = One char | Many char

fun items :: "string \<Rightarrow> item list" where
  "items [] = []"
| "items [c] = (if c = CHR ''$'' then [] else [One c])"
| "items (c # d # re) = (if d = CHR ''*'' then Many c # items re else One c # items (d # re))"

fun end_anchor :: "string \<Rightarrow> bool" where
  "end_anchor [] = False"
| "end_anchor [c] = (c = CHR ''$'')"
| "end_anchor (c # d # re) = (if d = CHR ''*'' then end_anchor re else end_anchor (d # re))"

definition fits :: "char \<Rightarrow> char \<Rightarrow> bool" where
  "fits c b \<longleftrightarrow> c = CHR ''.'' \<or> c = b"

fun lang :: "item list \<Rightarrow> string set" where
  "lang [] = {[]}"
| "lang (One c # is) = {b # w |b w. fits c b \<and> w \<in> lang is}"
| "lang (Many c # is) = {u @ w |u w. (\<forall>b\<in>set u. fits c b) \<and> w \<in> lang is}"

text \<open>Some part of the text, at the beginning and at the end if the pattern is anchored there, is in the language of the items.\<close>

definition meaning :: "string \<Rightarrow> string \<Rightarrow> bool" where
  "meaning re text \<longleftrightarrow>
     (let front = re \<noteq> [] \<and> hd re = CHR ''^''; re' = (if front then tl re else re)
      in \<exists>u w v. text = u @ w @ v \<and> w \<in> lang (items re') \<and> (front \<longrightarrow> u = []) \<and> (end_anchor re' \<longrightarrow> v = []))"

definition here :: "string \<Rightarrow> string \<Rightarrow> bool" where
  "here re text \<longleftrightarrow> (\<exists>w v. text = w @ v \<and> w \<in> lang (items re) \<and> (end_anchor re \<longrightarrow> v = []))"

lemma here_Nil [simp]: "here [] text"
  by (simp add: here_def)

lemma here_dollar: "here [CHR ''$''] text \<longleftrightarrow> text = []"
  by (auto simp: here_def)

lemma here_one:
  assumes "re = [] \<or> hd re \<noteq> CHR ''*''" "\<not> (c = CHR ''$'' \<and> re = [])"
  shows "here (c # re) text \<longleftrightarrow> text \<noteq> [] \<and> fits c (hd text) \<and> here re (tl text)"
proof -
  have "items (c # re) = One c # items re" "end_anchor (c # re) = end_anchor re"
    using assms by (cases re; auto)+
  then show ?thesis by (cases "text") (auto simp: here_def Cons_eq_append_conv)
qed

lemma here_star:
  "here (c # CHR ''*'' # re) text \<longleftrightarrow> (\<exists>u t. text = u @ t \<and> (\<forall>b\<in>set u. fits c b) \<and> here re t)"
proof
  assume "here (c # CHR ''*'' # re) text"
  then obtain w v where w: "text = w @ v" "w \<in> lang (Many c # items re)" "end_anchor re \<longrightarrow> v = []" unfolding here_def by auto
  from w(2) obtain u t where "w = u @ t" "\<forall>b\<in>set u. fits c b" "t \<in> lang (items re)" by auto
  then have "text = u @ (t @ v) \<and> (\<forall>b\<in>set u. fits c b) \<and> here re (t @ v)" unfolding here_def using w by auto
  then show "\<exists>u t. text = u @ t \<and> (\<forall>b\<in>set u. fits c b) \<and> here re t" by blast
next
  assume "\<exists>u t. text = u @ t \<and> (\<forall>b\<in>set u. fits c b) \<and> here re t"
  then obtain u w v where u: "text = u @ w @ v" "\<forall>b\<in>set u. fits c b" "w \<in> lang (items re)" "end_anchor re \<longrightarrow> v = []"
    unfolding here_def by blast
  then have "u @ w \<in> lang (items (c # CHR ''*'' # re))" by auto
  then show "here (c # CHR ''*'' # re) text" unfolding here_def using u by (intro exI [of _ "u @ w"] exI [of _ v]) simp
qed

lemma here_star_step:
  "here (c # CHR ''*'' # re) text \<longleftrightarrow> here re text \<or> text \<noteq> [] \<and> fits c (hd text) \<and> here (c # CHR ''*'' # re) (tl text)"
proof (cases "text")
  case Nil
  then show ?thesis by (simp add: here_star)
next
  case (Cons b t)
  have "(\<exists>u r. b # t = u @ r \<and> P u \<and> Q r) \<longleftrightarrow> P [] \<and> Q (b # t) \<or> (\<exists>u r. t = u @ r \<and> P (b # u) \<and> Q r)" for P Q
    by (auto simp: Cons_eq_append_conv)
  then show ?thesis unfolding here_star Cons by simp blast
qed

lemma matchhere_here: "matchhere re text = here re text" "matchstar c re text = here (c # CHR ''*'' # re) text"
proof (induction re "text" and c re "text" rule: matchhere_matchstar.induct)
  case (2 c re tx)
  show ?case
  proof (cases "re \<noteq> [] \<and> hd re = CHR ''*''")
    case True
    then have "c # re = c # CHR ''*'' # tl re" by (metis list.collapse)
    then show ?thesis using 2(1) [OF True] True by simp
  next
    case star: False
    show ?thesis
    proof (cases "c = CHR ''$'' \<and> re = []")
      case True
      then show ?thesis by (simp add: here_dollar)
    next
      case False
      then have h: "here (c # re) tx \<longleftrightarrow> tx \<noteq> [] \<and> fits c (hd tx) \<and> here re (tl tx)" using here_one star by blast
      show ?thesis
      proof (cases "tx \<noteq> [] \<and> (c = CHR ''.'' \<or> c = hd tx)")
        case True
        have "matchhere (c # re) tx = matchhere re (tl tx)" by (subst matchhere.simps) (simp only: star False True if_False if_True simp_thms)
        then show ?thesis unfolding 2(2) [OF star False True] h using True by (auto simp: fits_def)
      next
        case n: False
        have "matchhere (c # re) tx = False" by (subst matchhere.simps) (simp only: star False n if_False simp_thms)
        then show ?thesis unfolding h using n by (auto simp: fits_def)
      qed
    qed
  qed
next
  case (3 c re tx)
  show ?case using 3 by (subst here_star_step) (auto simp: fits_def)
qed simp

lemma match_loop_here: "match_loop re text \<longleftrightarrow> (\<exists>u t. text = u @ t \<and> here re t)"
proof (induction re "text" rule: match_loop.induct)
  case (1 re)
  then show ?case by (simp add: matchhere_here)
next
  case (2 re t tx)
  have "(\<exists>u r. t # tx = u @ r \<and> here re r) \<longleftrightarrow> here re (t # tx) \<or> (\<exists>u r. tx = u @ r \<and> here re r)"
    by (auto simp: Cons_eq_append_conv)
  then show ?case using 2 by (auto simp: matchhere_here)
qed

lemma match_meaning: "match re text = meaning re text"
  unfolding match_def meaning_def Let_def
  by (auto simp: matchhere_here match_loop_here here_def)

text \<open>
  C34. \<^verbatim>\<open>match\<close> decides the meaning of patterns: it succeeds exactly when some part of the text, at the
  beginning for a pattern that starts with \<^verbatim>\<open>^\<close> and at the end for one that ends with \<^verbatim>\<open>$\<close>, is a sequence
  of characters that fit the items of the pattern, a starred item any number of times.
\<close>

theorem match_correct: "match re text = meaning re text"
  by (rule match_meaning)

theorem match_correct_witness: "meaning ''b*.d$'' ''abbcd'' \<and> \<not> meaning ''^b*.d$'' ''abbcd''"
  using match_correct [of "''b*.d$''" "''abbcd''"] match_correct [of "''^b*.d$''" "''abbcd''"] by (simp add: match_def)

section \<open>Lines\<close>

text \<open>The complete lines of an input, each with its newline, and what follows the last newline.\<close>

function lines :: "char list \<Rightarrow> char list list" where
  "lines xs = (if NL \<in> set xs then (takeWhile (\<lambda>b. b \<noteq> NL) xs @ [NL]) # lines (tl (dropWhile (\<lambda>b. b \<noteq> NL) xs)) else [])"
  by pat_completeness auto
termination
proof (relation "measure length")
  fix xs :: "char list" assume "NL \<in> set xs"
  then have "dropWhile (\<lambda>b. b \<noteq> NL) xs \<noteq> []" by auto
  then have "length (tl (dropWhile (\<lambda>b. b \<noteq> NL) xs)) < length (dropWhile (\<lambda>b. b \<noteq> NL) xs)" by simp
  also have "\<dots> \<le> length xs" by (rule length_dropWhile_le)
  finally show "(tl (dropWhile (\<lambda>b. b \<noteq> NL) xs), xs) \<in> measure length" by simp
qed simp

definition rest :: "char list \<Rightarrow> char list" where
  "rest xs = drop (length (concat (lines xs))) xs"

declare lines.simps [simp del]

lemma lines_line: "NL \<notin> set l \<Longrightarrow> lines (l @ NL # xs) = (l @ [NL]) # lines xs"
proof -
  assume l: "NL \<notin> set l"
  then have "takeWhile (\<lambda>b. b \<noteq> NL) (l @ NL # xs) = l" "dropWhile (\<lambda>b. b \<noteq> NL) (l @ NL # xs) = NL # xs"
    by (subst takeWhile_append2 dropWhile_append2; auto)+
  then show ?thesis by (subst lines.simps) simp
qed

lemma lines_none: "NL \<notin> set xs \<Longrightarrow> lines xs = []"
  by (subst lines.simps) simp

lemma rest_line: "NL \<notin> set l \<Longrightarrow> rest (l @ NL # xs) = rest xs"
  by (simp add: rest_def lines_line)

lemma rest_none: "NL \<notin> set xs \<Longrightarrow> rest xs = xs"
  by (simp add: rest_def lines_none)

lemma line_cases [case_names none line]:
  assumes "NL \<notin> set xs \<Longrightarrow> P" "\<And>l ys. xs = l @ NL # ys \<Longrightarrow> NL \<notin> set l \<Longrightarrow> P"
  shows P
  using assms by (meson split_list_first)

lemma lines_split: "xs = concat (lines xs) @ rest xs \<and> NL \<notin> set (rest xs)"
proof (induction "length xs" arbitrary: xs rule: less_induct)
  case less
  show ?case
  proof (cases xs rule: line_cases)
    case none
    then show ?thesis by (simp add: lines_none rest_none)
  next
    case (line l ys)
    then show ?thesis using less [of ys] by (simp add: lines_line rest_line)
  qed
qed

lemma lines_append: "lines (xs @ ys) = lines xs @ lines (rest xs @ ys)"
proof (induction "length xs" arbitrary: xs rule: less_induct)
  case less
  show ?case
  proof (cases xs rule: line_cases)
    case none
    then show ?thesis by (simp add: lines_none rest_none)
  next
    case (line l zs)
    then show ?thesis using less [of zs] by (simp add: lines_line rest_line)
  qed
qed

section \<open>The loops\<close>

lemma strchr_hit:
  assumes "drop p buf = l @ c # ys" "NUL \<notin> set l" "c \<notin> set l" "c \<noteq> NUL"
  shows "strchr buf p c = Some (p + length l)"
  using assms
proof (induction l arbitrary: p)
  case Nil
  then have "p < length buf" "buf ! p = c" by (metis drop_all linorder_not_less append_Nil list.discI, metis append_Nil hd_drop_conv_nth drop_all linorder_not_less list.discI list.sel(1))
  then show ?case using Nil by (subst strchr.simps) simp
next
  case (Cons b l)
  have p: "p < length buf" using Cons.prems(1) by (metis append_Cons drop_all linorder_not_less list.discI)
  then have b: "buf ! p = b" "drop (Suc p) buf = l @ c # ys" using Cons.prems(1) Cons_nth_drop_Suc [OF p] by simp_all
  have "strchr buf p c = strchr buf (Suc p) c" using p b Cons.prems by (subst strchr.simps) auto
  then show ?case using Cons.IH [OF b(2)] Cons.prems by simp
qed

lemma strchr_miss:
  assumes "drop p buf = l @ NUL # ys" "c \<notin> set l" "NUL \<notin> set l"
  shows "strchr buf p c = None"
  using assms
proof (induction l arbitrary: p)
  case Nil
  then have "length buf \<le> p \<or> buf ! p = NUL" by (metis append_Nil hd_drop_conv_nth linorder_not_less list.sel(1))
  then show ?case by (subst strchr.simps) simp
next
  case (Cons b l)
  have p: "p < length buf" using Cons.prems(1) by (metis append_Cons drop_all linorder_not_less list.discI)
  then have b: "buf ! p = b" "drop (Suc p) buf = l @ NUL # ys" using Cons.prems(1) Cons_nth_drop_Suc [OF p] by simp_all
  have "strchr buf p c = strchr buf (Suc p) c" using p b Cons.prems by (subst strchr.simps) auto
  then show ?case using Cons.IH [OF b(2)] Cons.prems by simp
qed

abbreviation (input) matching :: "string \<Rightarrow> char list list \<Rightarrow> char list list" where
  "matching pattern ls \<equiv> filter (\<lambda>l. match pattern (butlast l)) ls"

lemma grep_lines_spec:
  assumes "drop p buf = d @ NUL # ys" "NUL \<notin> set d"
  shows "\<exists>buf'. grep_lines pattern buf p out = (buf', p + length (concat (lines d)), out @ matching pattern (lines d)) \<and>
    drop (p + length (concat (lines d))) buf' = rest d @ NUL # ys \<and> length buf' = length buf"
  using assms
proof (induction "length d" arbitrary: d p buf out rule: less_induct)
  case less
  show ?case
  proof (cases d rule: line_cases)
    case none
    then have "strchr buf p NL = None" using strchr_miss less.prems by blast
    then show ?thesis using less.prems none by (subst grep_lines.simps) (simp add: lines_none rest_none)
  next
    case (line l e)
    let ?q = "p + length l"
    have d: "drop p buf = l @ NL # e @ NUL # ys" "NUL \<notin> set l" "NUL \<notin> set e" using less.prems line by auto
    have q: "strchr buf p NL = Some ?q" by (rule strchr_hit [OF d(1,2)]) (use line in simp_all)
    have "p \<le> length buf" using d(1) by (metis append_is_Nil_conv drop_all linorder_not_le list.discI order_less_imp_le)
    then have u: "drop p (buf[?q := b]) = l @ b # e @ NUL # ys" for b
      by (simp add: drop_update_swap d(1) list_update_append)
    then have cs: "cstring (buf[?q := NUL]) p = l" unfolding cstring_def u by (subst takeWhile_append2) (use d(2) in auto)
    have same: "buf[?q := NUL, ?q := NL] = buf"
      using d(1) by (metis list_update_id list_update_overwrite nth_append_length nth_drop \<open>p \<le> length buf\<close>)
    have after: "drop (?q + 1) (buf[?q := b]) = e @ NUL # ys" for b
      using u [of b] by (metis add.assoc add.commute drop_drop append.assoc append_Cons append_Nil append_eq_conv_conj length_append_singleton Suc_eq_plus1)
    have len: "length e < length d" using line by simp
    show ?thesis
    proof (cases "match pattern l")
      case True
      have "grep_lines pattern buf p out = grep_lines pattern buf (?q + 1) (out @ [l @ [NL]])"
        using True cs same d(1) by (subst grep_lines.simps) (simp add: q)
      moreover have "drop (?q + 1) buf = e @ NUL # ys" using after [of NL] same by (metis list_update_overwrite)
      ultimately show ?thesis using less.hyps [OF len _ d(3), of "?q + 1" buf "out @ [l @ [NL]]"] True line
        by (simp add: lines_line rest_line add.assoc)
    next
      case False
      have "grep_lines pattern buf p out = grep_lines pattern (buf[?q := NUL]) (?q + 1) out"
        using False cs by (subst grep_lines.simps) (simp add: q)
      then show ?thesis using less.hyps [OF len after [of NUL] d(3), of out] False line
        by (simp add: lines_line rest_line add.assoc)
    qed
  qed
qed

text \<open>
  What \<^verbatim>\<open>read\<close> promises on a finite input: it delivers the next bytes, at most as many as asked, and
  none only at the end or when none were asked for.
\<close>

definition reader_ok :: "('f \<Rightarrow> nat \<Rightarrow> char list \<times> 'f) \<Rightarrow> ('f \<Rightarrow> char list) \<Rightarrow> bool" where
  "reader_ok rd contents \<longleftrightarrow>
     (\<forall>f n. contents f = fst (rd f n) @ contents (snd (rd f n)) \<and> length (fst (rd f n)) \<le> n \<and>
        (fst (rd f n) = [] \<longrightarrow> n = 0 \<or> contents f = []))"

lemma lines_long:
  assumes "\<forall>l\<in>set (lines (xs @ ys)). length l \<le> length xs" "NL \<notin> set xs"
  shows "lines (xs @ ys) = []"
proof (cases ys rule: line_cases)
  case none
  then show ?thesis using assms(2) by (simp add: lines_none)
next
  case (line l zs)
  then have "lines (xs @ ys) = ((xs @ l) @ [NL]) # lines zs" using lines_line [of "xs @ l" zs] assms(2) by simp
  then show ?thesis using assms(1) by simp
qed

lemma put_data:
  assumes "length buf = 1024" "m + length data < 1024"
  shows "(take m buf @ data @ drop (m + length data) buf)[m + length data := NUL] =
    (take m buf @ data) @ NUL # drop (Suc (m + length data)) buf"
proof -
  have "drop (m + length data) buf = buf ! (m + length data) # drop (Suc (m + length data)) buf"
    using assms by (simp add: Cons_nth_drop_Suc)
  then show ?thesis using assms by (simp add: list_update_append)
qed

lemma grep_loop_spec:
  assumes "reader_ok rd contents" "length buf = 1024" "m \<le> 1023" "NL \<notin> set (take m buf)" "NUL \<notin> set (take m buf @ contents f)"
    and "\<forall>l\<in>set (lines (take m buf @ contents f)). length l \<le> 1023"
  shows "\<exists>f'. grep_loop rd pattern buf m f out = Some (out @ matching pattern (lines (take m buf @ contents f)), f')"
  using assms(2-)
proof (induction "length (contents f)" arbitrary: f buf m out rule: less_induct)
  case less
  obtain data f' where rd: "rd f (1023 - m) = (data, f')" by fastforce
  have r: "contents f = data @ contents f'" "length data \<le> 1023 - m" "data = [] \<Longrightarrow> 1023 - m = 0 \<or> contents f = []"
    using assms(1) rd unfolding reader_ok_def by (metis fst_conv snd_conv)+
  show ?case
  proof (cases "data = []")
    case True
    have "lines (take m buf @ contents f) = []"
    proof (cases "contents f = []")
      case True
      then show ?thesis using less.prems(3) by (simp add: lines_none)
    next
      case False
      then have "m = 1023" using r(3) True less.prems(2) by simp
      then show ?thesis using lines_long less.prems(1,3,5) by simp
    qed
    then show ?thesis using rd True by (subst grep_loop.simps) simp
  next
    case False
    let ?n = "length data"
    let ?b = "(take m buf @ data @ drop (m + ?n) buf)[m + ?n := NUL]"
    have mn: "m + ?n < 1024" "0 < m + ?n" using r(2) less.prems(2) False by auto
    have b: "?b = (take m buf @ data) @ NUL # drop (Suc (m + ?n)) buf" by (rule put_data [OF less.prems(1) mn(1)])
    let ?d = "take m buf @ data"
    have d: "NUL \<notin> set ?d" using less.prems(4) r(1) by auto
    obtain buf' where g: "grep_lines pattern ?b 0 out = (buf', length (concat (lines ?d)), out @ matching pattern (lines ?d))"
      "drop (length (concat (lines ?d))) buf' = rest ?d @ NUL # drop (Suc (m + ?n)) buf" "length buf' = length ?b"
      using grep_lines_spec [of 0 ?b ?d _ pattern out] b d by auto
    let ?p = "length (concat (lines ?d))" and ?m = "length (rest ?d)"
    have "length ?d = ?p + ?m" using lines_split [of ?d] by (metis length_append)
    then have pm: "m + ?n - ?p = ?m" "m + ?n = ?p + ?m" using less.prems(1,2) by auto
    let ?b' = "take ?m (drop ?p buf') @ drop ?m buf'"
    have tk: "take ?m ?b' = rest ?d" using g(2) by simp
    have step: "grep_loop rd pattern buf m f out = grep_loop rd pattern ?b' ?m f' (out @ matching pattern (lines ?d))"
      using rd False g(1) mn(2) pm(1) by (subst grep_loop.simps) (simp add: Let_def)
    have all: "take m buf @ contents f = ?d @ contents f'" using r(1) by simp
    have ln: "lines (take m buf @ contents f) = lines ?d @ lines (rest ?d @ contents f')" unfolding all by (rule lines_append)
    have 1: "length (contents f') < length (contents f)" using r(1) False by simp
    have 2: "length ?b' = 1024"
    proof -
      have "length buf' = 1024" using g(3) less.prems(1) mn(1) by simp
      then show ?thesis using pm(2) mn(1) by simp
    qed
    have 3: "?m \<le> 1023" using pm(2) mn(1) by simp
    have 4: "NL \<notin> set (take ?m ?b')" unfolding tk using lines_split by blast
    have 5: "NUL \<notin> set (take ?m ?b' @ contents f')"
    proof -
      have "set (rest ?d) \<subseteq> set ?d" using lines_split [of ?d] by (metis Un_upper2 set_append)
      then show ?thesis unfolding tk using d less.prems(4) r(1) by auto
    qed
    have 6: "\<forall>l\<in>set (lines (take ?m ?b' @ contents f')). length l \<le> 1023" unfolding tk using less.prems(5) ln by auto
    show ?thesis using less.hyps [OF 1 2 3 4 5 6, of "out @ matching pattern (lines ?d)"] unfolding step ln tk by simp
  qed
qed

text \<open>
  C35. \<^verbatim>\<open>grep\<close> prints exactly the matching lines. On an input without NUL bytes, all of whose lines have
  at most 1023 bytes with their newline, and however \<^verbatim>\<open>read\<close> splits the input, \<^verbatim>\<open>grep\<close> ends and its calls of \<^verbatim>\<open>write\<close> are
  the lines that match the pattern, in order, each in one call. Bytes after the last newline are not a line.
\<close>

theorem grep_correct:
  assumes "reader_ok rd contents" "length buf = 1024" "NUL \<notin> set (contents f)" "\<forall>l\<in>set (lines (contents f)). length l \<le> 1023"
  shows "\<exists>f'. grep rd pattern buf f = Some (filter (\<lambda>l. meaning pattern (butlast l)) (lines (contents f)), f')"
proof -
  have "match pattern = meaning pattern" by (rule ext) (rule match_meaning)
  then show ?thesis using grep_loop_spec [of rd contents buf 0 f pattern "[]"] assms by (simp add: grep_def)
qed

text \<open>An input given three bytes at a time.\<close>

definition example_read :: "char list \<Rightarrow> nat \<Rightarrow> char list \<times> char list" where
  "example_read f n = (take (min 3 n) f, drop (min 3 n) f)"

lemma example_read_ok: "reader_ok example_read (\<lambda>f. f)"
  by (auto simp: reader_ok_def example_read_def)

theorem grep_correct_witness:
  "\<exists>f'. grep example_read ''^a.*c$'' (replicate 1024 NUL) (''abc'' @ [NL] @ ''xac'' @ [NL] @ ''ac'' @ [NL] @ ''abc'') =
     Some ([''abc'' @ [NL], ''ac'' @ [NL]], f')"
proof -
  let ?f = "''abc'' @ [NL] @ ''xac'' @ [NL] @ ''ac'' @ [NL] @ ''abc''"
  have l: "lines ?f = [''abc'' @ [NL], ''xac'' @ [NL], ''ac'' @ [NL]]" by (simp add: lines.simps)
  have m: "match ''^a.*c$'' ''abc''" "\<not> match ''^a.*c$'' ''xac''" "match ''^a.*c$'' ''ac''" by (simp_all add: match_def)
  have "\<exists>f'. grep example_read ''^a.*c$'' (replicate 1024 NUL) ?f =
      Some (filter (\<lambda>l. meaning ''^a.*c$'' (butlast l)) (lines ?f), f')"
    by (rule grep_correct [OF example_read_ok], simp, simp, unfold l, simp)
  then show ?thesis using m unfolding l match_meaning by simp
qed

text \<open>
  A line of more than 1023 bytes ends the search: \<^verbatim>\<open>grep\<close> fills its buffer, asks \<^verbatim>\<open>read\<close> for zero bytes, takes the
  result for the end of the file and returns, so no later line is printed, whatever it is.
\<close>

theorem grep_long_line:
  assumes "reader_ok rd contents" "length buf = 1024" "NUL \<notin> set (contents f)" "1023 \<le> length (contents f)" "NL \<notin> set (take 1023 (contents f))"
  shows "\<exists>f'. grep rd pattern buf f = Some ([], f')"
proof -
  have "\<exists>f'. grep_loop rd pattern buf m f [] = Some ([], f')"
    if "length buf = 1024" "m \<le> 1023" "NL \<notin> set (take m buf)" "NUL \<notin> set (take m buf @ contents f)"
      "1023 \<le> m + length (contents f)" "NL \<notin> set (take (1023 - m) (contents f))" for f buf m
    using that
  proof (induction "length (contents f)" arbitrary: f buf m rule: less_induct)
    case less
    obtain data f' where rd: "rd f (1023 - m) = (data, f')" by fastforce
    have r: "contents f = data @ contents f'" "length data \<le> 1023 - m" using assms(1) rd unfolding reader_ok_def by (metis fst_conv snd_conv)+
    show ?case
    proof (cases "data = []")
      case True
      then show ?thesis using rd by (subst grep_loop.simps) simp
    next
      case False
      let ?n = "length data"
      let ?b = "take m buf @ data @ drop (m + ?n) buf"
      have mn: "m + ?n < 1024" "0 < m + ?n" using r(2) less.prems(2) False by auto
      have d: "NL \<notin> set (take m buf @ data)" "NUL \<notin> set (take m buf @ data)" using less.prems(3,4,6) r by auto
      have b: "?b[m + ?n := NUL] = (take m buf @ data) @ NUL # drop (Suc (m + ?n)) buf" by (rule put_data [OF less.prems(1) mn(1)])
      have "strchr (?b[m + ?n := NUL]) 0 NL = None" by (rule strchr_miss [of _ _ "take m buf @ data"]) (use b d in simp_all)
      then have "grep_lines pattern (?b[m + ?n := NUL]) 0 [] = (?b[m + ?n := NUL], 0, [])" by (subst grep_lines.simps) simp
      then have step: "grep_loop rd pattern buf m f [] =
          grep_loop rd pattern (take (m + ?n) (?b[m + ?n := NUL]) @ drop (m + ?n) (?b[m + ?n := NUL])) (m + ?n) f' []"
        using rd False mn(2) by (subst grep_loop.simps) (simp add: Let_def)
      have "take (1023 - m) (contents f) = data @ take (1023 - (m + ?n)) (contents f')" using r by simp
      then have "NL \<notin> set (take (1023 - (m + ?n)) (contents f'))" using less.prems(6) by auto
      moreover have "take (m + ?n) (?b[m + ?n := NUL]) = take m buf @ data" unfolding b using less.prems(1,2) by simp
      ultimately show ?thesis unfolding step append_take_drop_id
        using less.hyps [of f' "?b[m + ?n := NUL]" "m + ?n"] r(1) False d less.prems(1,4,5) mn(1) by simp
    qed
  qed
  from this [of buf 0 f] show ?thesis using assms by (simp add: grep_def)
qed

theorem grep_long_line_witness:
  "\<exists>f'. grep example_read ''a'' (replicate 1024 NUL) (replicate 1023 CHR ''b'' @ [NL] @ ''a'' @ [NL]) = Some ([], f')"
  by (rule grep_long_line [OF example_read_ok]) simp_all

end
