(* ===== verification/Umalloc.thy ===== *)
theory Umalloc
  imports Prelude
begin

text \<open>
  \<^verbatim>\<open>user/umalloc.c\<close>: the memory allocator of user programs, a circular list of free blocks in the order of
  their addresses. A \<^verbatim>\<open>Header\<close> pointer is its address in units of \<^verbatim>\<open>sizeof(Header)\<close>, 16 bytes, with 0 for
  the null pointer, and the block that \<^verbatim>\<open>malloc\<close> returns is one unit above its header. The two
  fields of the headers are functions of the address. The system call \<^verbatim>\<open>sbrk\<close> is a parameter.
\<close>

section \<open>The allocator\<close>

record 'k heap =
  hptr :: "nat \<Rightarrow> nat"
  hsize :: "nat \<Rightarrow> nat"
  freep :: nat
  kern :: 'k

text \<open>The loop of \<^verbatim>\<open>free\<close>, which looks for the free block \<^verbatim>\<open>p\<close> after which \<^verbatim>\<open>bp\<close> belongs.\<close>

partial_function (option) free_find :: "nat \<Rightarrow> 'k heap \<Rightarrow> nat \<Rightarrow> nat option" where
  "free_find bp h p =
     (if p < bp \<and> bp < hptr h p then Some p
      else if hptr h p \<le> p \<and> (p < bp \<or> bp < hptr h p) then Some p
      else free_find bp h (hptr h p))"

text \<open>Sizes are of type \<^verbatim>\<open>uint\<close>, so that their sums wrap.\<close>

definition free_join :: "nat \<Rightarrow> nat \<Rightarrow> 'k heap \<Rightarrow> 'k heap" where
  "free_join bp p h =
     (let n = hptr h p;
          h = (if bp + hsize h bp = n
               then h\<lparr>hsize := (hsize h)(bp := (hsize h bp + hsize h n) mod 2 ^ 32), hptr := (hptr h)(bp := hptr h n)\<rparr>
               else h\<lparr>hptr := (hptr h)(bp := n)\<rparr>);
          h = (if p + hsize h p = bp
               then h\<lparr>hsize := (hsize h)(p := (hsize h p + hsize h bp) mod 2 ^ 32), hptr := (hptr h)(p := hptr h bp)\<rparr>
               else h\<lparr>hptr := (hptr h)(p := bp)\<rparr>)
      in h\<lparr>freep := p\<rparr>)"

definition free :: "nat \<Rightarrow> 'k heap \<Rightarrow> 'k heap option" where
  "free ap h =
     (let bp = ap - 1
      in case free_find bp h (freep h) of None \<Rightarrow> None | Some p \<Rightarrow> Some (free_join bp p h))"

text \<open>
  \<^verbatim>\<open>sbrk\<close> takes an \<^verbatim>\<open>int\<close>, so the number of bytes is truncated to 32 bits and taken as signed. \<open>sb\<close> gives the
  address in units, or \<open>None\<close> for \<^verbatim>\<open>-1\<close>.
\<close>

definition morecore :: "(int \<Rightarrow> 'k \<Rightarrow> nat option \<times> 'k) \<Rightarrow> nat \<Rightarrow> 'k heap \<Rightarrow> (nat \<times> 'k heap) option" where
  "morecore sb nu h =
     (let nu = (if nu < 4096 then 4096 else nu);
          (p, k) = sb (sint (of_nat (nu * 16) :: 32 word)) (kern h);
          h = h\<lparr>kern := k\<rparr>
      in case p of
           None \<Rightarrow> Some (0, h)
         | Some hp \<Rightarrow>
             (case free (hp + 1) (h\<lparr>hsize := (hsize h)(hp := nu)\<rparr>) of
                None \<Rightarrow> None
              | Some h \<Rightarrow> Some (freep h, h)))"

definition malloc_take :: "nat \<Rightarrow> nat \<Rightarrow> nat \<Rightarrow> 'k heap \<Rightarrow> nat \<times> 'k heap" where
  "malloc_take nunits prevp p h =
     (if hsize h p = nunits
      then (p + 1, h\<lparr>hptr := (hptr h)(prevp := hptr h p), freep := prevp\<rparr>)
      else let h = h\<lparr>hsize := (hsize h)(p := hsize h p - nunits)\<rparr>;
               p = p + hsize h p
           in (p + 1, h\<lparr>hsize := (hsize h)(p := nunits), freep := prevp\<rparr>))"

partial_function (option) malloc_loop ::
    "(int \<Rightarrow> 'k \<Rightarrow> nat option \<times> 'k) \<Rightarrow> nat \<Rightarrow> nat \<Rightarrow> nat \<Rightarrow> 'k heap \<Rightarrow> (nat \<times> 'k heap) option" where
  "malloc_loop sb nunits prevp p h =
     (if nunits \<le> hsize h p then Some (malloc_take nunits prevp p h)
      else if p = freep h
      then (case morecore sb nunits h of
              None \<Rightarrow> None
            | Some (p, h) \<Rightarrow> if p = 0 then Some (0, h) else malloc_loop sb nunits p (hptr h p) h)
      else malloc_loop sb nunits p (hptr h p) h)"

text \<open>\<open>base\<close> is the address of the static header, below the heap.\<close>

definition malloc :: "(int \<Rightarrow> 'k \<Rightarrow> nat option \<times> 'k) \<Rightarrow> nat \<Rightarrow> uint \<Rightarrow> 'k heap \<Rightarrow> (nat \<times> 'k heap) option" where
  "malloc sb base nbytes h =
     (let nunits = (unat nbytes + 16 - 1) div 16 + 1;
          h = (if freep h = 0
               then h\<lparr>freep := base, hptr := (hptr h)(base := base), hsize := (hsize h)(base := 0)\<rparr>
               else h);
          prevp = freep h
      in malloc_loop sb nunits prevp (hptr h prevp) h)"

section \<open>Circular lists\<close>

text \<open>From \<open>a\<close> the pointers lead through \<open>xs\<close> to \<open>b\<close>.\<close>

fun path :: "(nat \<Rightarrow> nat) \<Rightarrow> nat \<Rightarrow> nat list \<Rightarrow> nat \<Rightarrow> bool" where
  "path f a [] b \<longleftrightarrow> f a = b"
| "path f a (x # xs) b \<longleftrightarrow> f a = x \<and> path f x xs b"

lemma path_append [simp]: "path f a (xs @ y # ys) b \<longleftrightarrow> path f a xs y \<and> path f y ys b"
  by (induction xs arbitrary: a) auto

lemma path_last: "path f a xs b \<Longrightarrow> f (last (a # xs)) = b"
  by (induction xs arbitrary: a) auto

lemma path_hd: "path f a xs b \<Longrightarrow> f a = hd (xs @ [b])"
  by (cases xs) auto

lemma path_cong: "(\<And>x. x \<in> set (a # xs) \<Longrightarrow> f x = g x) \<Longrightarrow> path f a xs b = path g a xs b"
  by (induction xs arbitrary: a) auto

lemma path_upd [simp]: "y \<noteq> a \<Longrightarrow> y \<notin> set xs \<Longrightarrow> path (f(y := z)) a xs b = path f a xs b"
  by (rule path_cong) auto

lemma path_upd_last:
  "distinct (a # xs) \<Longrightarrow> path f a xs b \<Longrightarrow> path (f(last (a # xs) := z)) a xs z"
proof (induction xs arbitrary: a)
  case (Cons x xs)
  then have "a \<noteq> last (x # xs)" by (metis distinct.simps(2) last_in_set list.discI)
  then show ?case using Cons by simp
qed simp

lemma path_map: "path f a xs b \<Longrightarrow> map f (a # xs) = xs @ [b]"
  by (induction xs arbitrary: a) auto

lemma ring_inj:
  assumes "path f a xs a" "distinct (a # xs)"
  shows "inj_on f (set (a # xs))"
proof -
  have "distinct (map f (a # xs))" using path_map [OF assms(1)] assms(2) by simp
  then show ?thesis by (simp only: distinct_map)
qed

lemma ring_rotate:
  assumes "path f a xs a" "b \<in> set (a # xs)" "distinct (a # xs)"
  shows "\<exists>zs. path f b zs b \<and> set (b # zs) = set (a # xs) \<and> distinct (b # zs)"
proof (cases "b = a")
  case False
  then obtain us vs where xs: "xs = us @ b # vs" using assms(2) by (auto simp: in_set_conv_decomp)
  then have "path f b (vs @ a # us) b" using assms(1) by simp
  then show ?thesis using xs assms(3) by (intro exI [of _ "vs @ a # us"]) auto
qed (use assms in blast)

section \<open>The invariant\<close>

text \<open>
  \<open>F\<close> lists the free blocks, as pairs of the address and the size in units, in the order of their addresses, no two adjacent;
  \<open>A\<close> is the set of allocated blocks. All blocks are disjoint and lie above \<open>base\<close> and below \<open>lim\<close>.
\<close>

definition apart2 :: "nat \<times> nat \<Rightarrow> nat \<times> nat \<Rightarrow> bool" where
  "apart2 x y \<longleftrightarrow> fst x + snd x \<le> fst y \<or> fst y + snd y \<le> fst x"

definition blocks_ok :: "nat \<Rightarrow> (nat \<times> nat) list \<Rightarrow> (nat \<times> nat) set \<Rightarrow> nat \<Rightarrow> bool" where
  "blocks_ok base F A lim \<longleftrightarrow>
     0 < base \<and> base < lim \<and> lim < 2 ^ 32 \<and> sorted_wrt (\<lambda>x y. fst x + snd x < fst y) F \<and>
     (\<forall>x\<in>set F \<union> A. base < fst x \<and> 0 < snd x \<and> fst x + snd x \<le> lim) \<and>
     (\<forall>x\<in>set F. \<forall>y\<in>A. apart2 x y) \<and> (\<forall>x\<in>A. \<forall>y\<in>A. x = y \<or> apart2 x y)"

definition heap_ok :: "nat \<Rightarrow> 'k heap \<Rightarrow> (nat \<times> nat) list \<Rightarrow> (nat \<times> nat) set \<Rightarrow> nat \<Rightarrow> bool" where
  "heap_ok base h F A lim \<longleftrightarrow>
     blocks_ok base F A lim \<and> path (hptr h) base (map fst F) base \<and> freep h \<in> set (base # map fst F) \<and>
     hsize h base = 0 \<and> (\<forall>x\<in>set F \<union> A. hsize h (fst x) = snd x)"

lemma blocks_sorted: "blocks_ok base F A lim \<Longrightarrow> sorted_wrt (<) (base # map fst F)"
  by (auto simp: blocks_ok_def sorted_wrt_map elim: sorted_wrt_mono_rel [rotated])

lemma blocks_distinct: "blocks_ok base F A lim \<Longrightarrow> distinct (base # map fst F)"
  using blocks_sorted strict_sorted_iff by blast

text \<open>The units that a list of blocks covers.\<close>

definition units :: "(nat \<times> nat) list \<Rightarrow> nat set" where
  "units F = (\<Union>x\<in>set F. {fst x..<fst x + snd x})"

lemma units_simps [simp]: "units [] = {}" "units (x # F) = {fst x..<fst x + snd x} \<union> units F" "units (F @ G) = units F \<union> units G"
  by (auto simp: units_def)

section \<open>Where a freed block belongs\<close>

lemma find_after:
  assumes "path (hptr h) y ys base" "sorted_wrt (<) (y # ys)" "bp < y" "base < bp"
  shows "free_find bp h y = free_find bp h base"
  using assms
proof (induction ys arbitrary: y)
  case Nil
  then show ?case by (subst free_find.simps) auto
next
  case (Cons z zs)
  then have "free_find bp h y = free_find bp h z" by (subst free_find.simps) auto
  then show ?case using Cons by auto
qed

lemma find_before:
  assumes "path (hptr h) x xs b" "sorted_wrt (<) (x # xs)" "\<forall>y\<in>set (x # xs). y < bp" "b \<le> x \<or> bp < b"
  shows "free_find bp h x = Some (last (x # xs))"
  using assms
proof (induction xs arbitrary: x)
  case Nil
  then show ?case by (subst free_find.simps) auto
next
  case (Cons z zs)
  then have "free_find bp h x = free_find bp h z" by (subst free_find.simps) auto
  moreover have "free_find bp h z = Some (last (z # zs))" using Cons by (intro Cons.IH) auto
  ultimately show ?case by simp
qed

lemma blocks_split:
  assumes "blocks_ok base F (insert (bp, s) A) lim"
  obtains F1 F2 where "F = F1 @ F2" "\<forall>x\<in>set F1. fst x + snd x \<le> bp" "\<forall>x\<in>set F2. bp + s \<le> fst x" "base < bp" "0 < s"
proof -
  let ?P = "\<lambda>x. fst x < bp"
  have b: "base < bp" "0 < s" "sorted_wrt (\<lambda>x y. fst x + snd x < fst y) F" "\<forall>x\<in>set F. apart2 x (bp, s) \<and> 0 < snd x"
    using assms by (simp_all add: blocks_ok_def)
  have "\<forall>x\<in>set (takeWhile ?P F). fst x + snd x \<le> bp"
  proof
    fix x assume "x \<in> set (takeWhile ?P F)"
    then have "fst x < bp" "x \<in> set F" by (auto dest: set_takeWhileD)
    then show "fst x + snd x \<le> bp" using b(2,4) by (auto simp: apart2_def)
  qed
  moreover have "\<forall>x\<in>set (dropWhile ?P F). bp + s \<le> fst x"
  proof
    fix x assume x: "x \<in> set (dropWhile ?P F)"
    then obtain y ys where y: "dropWhile ?P F = y # ys" by (cases "dropWhile ?P F") auto
    have "\<not> fst y < bp" using hd_dropWhile [of ?P F] y by simp
    moreover have "sorted_wrt (\<lambda>x y. fst x + snd x < fst y) (takeWhile ?P F @ y # ys)" unfolding y [symmetric] takeWhile_dropWhile_id by (rule b(3))
    then have "x = y \<or> fst y + snd y < fst x" using x y by (auto simp: sorted_wrt_append)
    ultimately have "bp \<le> fst x" by auto
    moreover have "apart2 x (bp, s)" "0 < snd x" using b(4) x by (auto dest: set_dropWhileD)
    ultimately show "bp + s \<le> fst x" by (auto simp: apart2_def)
  qed
  ultimately show ?thesis using that [of "takeWhile ?P F" "dropWhile ?P F", OF takeWhile_dropWhile_id [symmetric]] b(1,2) by blast
qed

lemma find_spec:
  assumes "path (hptr h) base (map fst (F1 @ F2)) base" "q \<in> set (base # map fst (F1 @ F2))" "sorted_wrt (<) (base # map fst (F1 @ F2))"
    and "\<forall>x\<in>set F1. fst x < bp" "\<forall>x\<in>set F2. bp < fst x" "base < bp"
  shows "free_find bp h q = Some (last (base # map fst F1))"
proof -
  let ?b = "hd (map fst F2 @ [base])"
  have b: "?b = base \<or> bp < ?b" using assms(5) by (cases F2) auto
  have p1: "path (hptr h) base (map fst F1) ?b" using assms(1) by (cases F2) auto
  have before: "free_find bp h x = Some (last (base # map fst F1))" if x: "x \<in> set (base # map fst F1)" for x
  proof -
    obtain us vs where uv: "base # map fst F1 = us @ x # vs" using x by (meson split_list)
    have "path (hptr h) x vs ?b"
    proof (cases us)
      case (Cons u us')
      then show ?thesis using uv p1 by simp
    qed (use uv p1 in simp)
    moreover have "sorted_wrt (<) (us @ x # vs)" using assms(3) unfolding uv [symmetric] by (simp add: sorted_wrt_append)
    moreover have "\<forall>y\<in>set (us @ x # vs). y < bp" unfolding uv [symmetric] using assms(4,6) by auto
    moreover have "\<forall>y\<in>set (map fst F1). base < y" using assms(3) by auto
    then have "base \<le> x" using x by (metis less_imp_le order_refl set_ConsD)
    ultimately have "free_find bp h x = Some (last (x # vs))" using b by (intro find_before) (auto simp: sorted_wrt_append)
    then show ?thesis unfolding uv by simp
  qed
  show ?thesis
  proof (cases "q \<in> set (base # map fst F1)")
    case False
    then obtain us vs where uv: "map fst F2 = us @ q # vs" using assms(2) by (auto dest: split_list)
    have "path (hptr h) q vs base" using assms(1) path_append [of "hptr h" base "map fst F1 @ us" q vs base] unfolding map_append uv by simp
    moreover have "sorted_wrt (<) (q # vs)" using assms(3) unfolding map_append uv by (auto simp: sorted_wrt_append)
    moreover have "q \<in> set (map fst F2)" unfolding uv by simp
    then have "bp < q" using assms(5) by auto
    ultimately have "free_find bp h q = free_find bp h base" using assms(6) by (rule find_after)
    then show ?thesis using before by simp
  qed (rule before)
qed

section \<open>Joining\<close>

lemma join_right:
  fixes h :: "'k heap"
  assumes "n = hd (map fst F2 @ [base])" "F2 \<noteq> [] \<Longrightarrow> path (hptr h) (hd (map fst F2)) (map fst (tl F2)) base"
    and "\<forall>x\<in>set F2. hsize h (fst x) = snd x \<and> bp < fst x \<and> fst x + snd x < 2 ^ 32" "base < bp" "hsize h bp = s"
  defines "h1 \<equiv> (if bp + hsize h bp = n
      then h\<lparr>hsize := (hsize h)(bp := (hsize h bp + hsize h n) mod 2 ^ 32), hptr := (hptr h)(bp := hptr h n)\<rparr>
      else h\<lparr>hptr := (hptr h)(bp := n)\<rparr>)"
  obtains G s' where "path (hptr h1) bp (map fst G) base" "hsize h1 bp = s'"
    "F2 = G \<and> s' = s \<and> (F2 \<noteq> [] \<longrightarrow> bp + s \<noteq> fst (hd F2)) \<or> (\<exists>t. F2 = (bp + s, t) # G \<and> s' = s + t)"
    "\<forall>a. a \<noteq> bp \<longrightarrow> hptr h1 a = hptr h a \<and> hsize h1 a = hsize h a" "freep h1 = freep h" "kern h1 = kern h"
proof (cases "bp + s = n")
  case True
  then obtain t G where F2: "F2 = (bp + s, t) # G" using assms(1,4) by (cases F2) auto
  have "path (hptr h) n (map fst G) base" using assms(2) F2 True by simp
  moreover have "bp \<notin> set (map fst G)" "bp \<noteq> n" using assms(3) F2 True by auto
  ultimately have "path ((hptr h)(bp := hptr h n)) bp (map fst G) base" by (cases G) auto
  moreover have "hsize h n = t" "s + t < 2 ^ 32" using assms(3) F2 True by auto
  ultimately show ?thesis using True assms(5) F2 that [of G "s + t"] by (simp add: h1_def)
next
  case False
  have "path ((hptr h)(bp := n)) bp (map fst F2) base"
  proof (cases F2)
    case (Cons y G)
    moreover have "bp \<notin> fst ` set F2" using assms(3) by auto
    ultimately show ?thesis using assms(1,2) by auto
  qed (use assms(1) in simp)
  moreover have "F2 \<noteq> [] \<longrightarrow> bp + s \<noteq> fst (hd F2)" using False assms(1) by (cases F2) auto
  ultimately show ?thesis using False assms(5) that [of F2 s] by (simp add: h1_def)
qed

lemma join_left:
  fixes h :: "'k heap"
  assumes "path (hptr h) base (map fst F1) n" "distinct (base # map fst F1)" "path (hptr h) bp (map fst G) base"
    and "\<forall>x\<in>set F1. hsize h (fst x) = snd x \<and> fst x < bp" "\<forall>x\<in>set G. bp < fst x" "base < bp" "hsize h base = 0" "hsize h bp = s" "bp + s < 2 ^ 32"
  defines "p \<equiv> last (base # map fst F1)"
  defines "h2 \<equiv> (if p + hsize h p = bp
      then h\<lparr>hsize := (hsize h)(p := (hsize h p + hsize h bp) mod 2 ^ 32), hptr := (hptr h)(p := hptr h bp)\<rparr>
      else h\<lparr>hptr := (hptr h)(p := bp)\<rparr>)"
  obtains F1' where "path (hptr h2) base (map fst (F1' @ G)) base"
    "F1' = F1 @ [(bp, s)] \<and> hsize h2 bp = s \<and> hsize h2 p = hsize h p \<and> (F1 \<noteq> [] \<longrightarrow> fst (last F1) + snd (last F1) \<noteq> bp) \<or>
      (\<exists>F0 d u. F1 = F0 @ [(d, u)] \<and> d + u = bp \<and> F1' = F0 @ [(d, u + s)] \<and> hsize h2 d = u + s)"
    "p \<in> set (base # map fst F1')" "\<forall>a. a \<noteq> p \<longrightarrow> hsize h2 a = hsize h a" "freep h2 = freep h" "kern h2 = kern h"
proof (cases "p + hsize h p = bp")
  case True
  have "F1 \<noteq> []" using True assms(6,7) by (auto simp: p_def)
  then obtain F0 d u where F1: "F1 = F0 @ [(d, u)]" by (cases F1 rule: rev_cases) auto
  have p: "p = d" "hsize h d = u" "d + u = bp" using True assms(4) F1 by (auto simp: p_def)
  have 1: "path (hptr h) base (map fst F0) d" using assms(1) F1 by simp
  have nd: "d \<noteq> base" "d \<notin> set (map fst F0)" "d \<notin> set (map fst G)" using assms(2,5) F1 p(3) by auto
  then have "path ((hptr h)(d := hptr h bp)) base (map fst F0) d" using 1 by simp
  moreover have "path ((hptr h)(d := hptr h bp)) d (map fst G) base" using assms(3) nd by (cases G) auto
  moreover have "u + s < 2 ^ 32" using assms(9) p(3) by simp
  ultimately show ?thesis using that [of "F0 @ [(d, u + s)]"] True p F1 assms(8) by (simp add: h2_def)
next
  case False
  have pin: "p \<in> set (base # map fst F1)" unfolding p_def by (rule last_in_set) simp
  have 1: "path ((hptr h)(p := bp)) base (map fst F1) bp" unfolding p_def by (rule path_upd_last [OF assms(2,1)])
  have "\<forall>y\<in>set (base # map fst F1). y < bp" "\<forall>y\<in>set (map fst G). bp < y" using assms(4,5,6) by auto
  then have "p \<noteq> bp" "p \<notin> set (map fst G)" using pin by (metis less_irrefl, metis less_asym)
  then have 2: "path ((hptr h)(p := bp)) bp (map fst G) base" using assms(3) by simp
  have "F1 \<noteq> [] \<longrightarrow> fst (last F1) + snd (last F1) \<noteq> bp" using False assms(4) by (auto simp: p_def last_map)
  then show ?thesis using that [of "F1 @ [(bp, s)]"] False 1 2 pin assms(8) by (auto simp: h2_def)
qed

lemma blocks_join:
  assumes ok: "blocks_ok base (F1 @ F2) (insert (bp, s) A) lim" and new: "(bp, s) \<notin> A"
    and F1: "\<forall>x\<in>set F1. fst x + snd x \<le> bp" and F2: "\<forall>x\<in>set F2. bp + s \<le> fst x"
    and right: "F2 = G \<and> s' = s \<and> (F2 \<noteq> [] \<longrightarrow> bp + s \<noteq> fst (hd F2)) \<or> (\<exists>t. F2 = (bp + s, t) # G \<and> s' = s + t)"
    and left: "F1' = F1 @ [(bp, s')] \<and> (F1 \<noteq> [] \<longrightarrow> fst (last F1) + snd (last F1) \<noteq> bp) \<or>
      (\<exists>F0 d u. F1 = F0 @ [(d, u)] \<and> d + u = bp \<and> F1' = F0 @ [(d, u + s')])"
  shows "blocks_ok base (F1' @ G) A lim" "units (F1' @ G) = units (F1 @ F2) \<union> {bp..<bp + s}" "\<exists>x\<in>set (F1' @ G). s \<le> snd x"
proof -
  have o: "0 < base \<and> base < lim" "lim < 2 ^ 32" "sorted_wrt (\<lambda>x y. fst x + snd x < fst y) (F1 @ F2)"
    "\<forall>x\<in>set F1 \<union> set F2 \<union> A. base < fst x \<and> 0 < snd x \<and> fst x + snd x \<le> lim" "base < bp" "0 < s" "bp + s \<le> lim"
    "\<forall>x\<in>set F1 \<union> set F2. \<forall>y\<in>A. apart2 x y" "\<forall>x\<in>A. \<forall>y\<in>A. x = y \<or> apart2 x y" "\<forall>y\<in>A. apart2 (bp, s) y"
    using ok new unfolding blocks_ok_def by (auto simp: apart2_def)
  have G: "\<forall>x\<in>set G. bp + s' < fst x \<and> x \<in> set F2" "sorted_wrt (\<lambda>x y. fst x + snd x < fst y) G" "s \<le> s'" "bp + s' \<le> lim"
    "\<forall>y\<in>A. apart2 (bp, s') y" "units ((bp, s') # G) = units ((bp, s) # F2)"
  proof -
    consider "F2 = G" "s' = s" "F2 \<noteq> [] \<longrightarrow> bp + s \<noteq> fst (hd F2)" | t where "F2 = (bp + s, t) # G" "s' = s + t" using right by blast
    then show "\<forall>x\<in>set G. bp + s' < fst x \<and> x \<in> set F2"
    proof cases
      case 1
      show ?thesis
      proof (cases G)
        case (Cons y ys)
        then have "bp + s < fst y" using 1 F2 by force
        moreover have "\<forall>x\<in>set ys. fst y < fst x" using o(3) 1 Cons by (auto simp: sorted_wrt_append)
        ultimately show ?thesis using 1 Cons by auto
      qed simp
    next
      case 2
      then show ?thesis using o(3) by (auto simp: sorted_wrt_append)
    qed
    show "sorted_wrt (\<lambda>x y. fst x + snd x < fst y) G" "s \<le> s'" "bp + s' \<le> lim"
      using right o(3,4,7) by (auto simp: sorted_wrt_append)
    show "\<forall>y\<in>A. apart2 (bp, s') y"
    proof
      fix y assume y: "y \<in> A"
      then have a: "apart2 (bp, s) y" "\<forall>x\<in>set F2. apart2 x y" "0 < snd y" "\<forall>x\<in>set F2. 0 < snd x" using o by auto
      then show "apart2 (bp, s') y" using right by (auto simp: apart2_def)
    qed
    show "units ((bp, s') # G) = units ((bp, s) # F2)" using right by auto
  qed
  consider "F1' = F1 @ [(bp, s')]" "F1 \<noteq> [] \<longrightarrow> fst (last F1) + snd (last F1) \<noteq> bp" |
    F0 d u where "F1 = F0 @ [(d, u)]" "d + u = bp" "F1' = F0 @ [(d, u + s')]" using left by blast
  then have "blocks_ok base (F1' @ G) A lim \<and> units F1' = units F1 \<union> {bp..<bp + s'}"
  proof cases
    case 1
    have lt: "\<forall>x\<in>set F1. fst x + snd x < bp"
    proof (cases F1 rule: rev_cases)
      case (snoc ys y)
      then have "fst y + snd y < bp" using 1(2) F1 by force
      moreover have "\<forall>x\<in>set ys. fst x + snd x < fst y" using o(3) snoc by (auto simp: sorted_wrt_append)
      ultimately show ?thesis using snoc by auto
    qed simp
    then have "sorted_wrt (\<lambda>x y. fst x + snd x < fst y) (F1' @ G)" using o(3) G(1,2) 1(1) by (force simp: sorted_wrt_append)
    then show ?thesis unfolding blocks_ok_def using o G 1(1) by auto
  next
    case 2
    have "\<forall>x\<in>set F0. fst x + snd x < d" using o(3) 2(1) by (auto simp: sorted_wrt_append)
    then have "sorted_wrt (\<lambda>x y. fst x + snd x < fst y) (F1' @ G)" using o(3) G(1,2) 2 by (fastforce simp: sorted_wrt_append)
    moreover have "\<forall>y\<in>A. apart2 (d, u + s') y"
    proof
      fix y assume y: "y \<in> A"
      then have "apart2 (d, u) y" "apart2 (bp, s') y" "0 < snd y" "0 < u" using o 2(1) G(5) by auto
      then show "apart2 (d, u + s') y" using 2(2) o(6) G(3) by (auto simp: apart2_def)
    qed
    ultimately show ?thesis unfolding blocks_ok_def using o G 2 by auto
  qed
  then show "blocks_ok base (F1' @ G) A lim" "units (F1' @ G) = units (F1 @ F2) \<union> {bp..<bp + s}"
    using G(6) by auto
  show "\<exists>x\<in>set (F1' @ G). s \<le> snd x" using left G(3) by auto
qed

lemma join_sizes:
  fixes h h1 h2 :: "'k heap" and F1 :: "(nat \<times> nat) list" and base :: nat
  defines "p \<equiv> last (base # map fst F1)"
  assumes ds: "distinct (base # map fst F1)" and bs: "base < bp" and s1: "\<forall>x\<in>set F1. hsize h1 (fst x) = snd x \<and> fst x < bp"
    and z: "hsize h1 base = 0" and r: "\<forall>a. a \<noteq> bp \<longrightarrow> hsize h1 a = hsize h a"
    and l: "F1' = F1 @ [(bp, s')] \<and> hsize h2 bp = s' \<and> hsize h2 p = hsize h1 p \<and> (F1 \<noteq> [] \<longrightarrow> fst (last F1) + snd (last F1) \<noteq> bp) \<or>
        (\<exists>F0 d u. F1 = F0 @ [(d, u)] \<and> d + u = bp \<and> F1' = F0 @ [(d, u + s')] \<and> hsize h2 d = u + s')"
      "\<forall>a. a \<noteq> p \<longrightarrow> hsize h2 a = hsize h1 a"
    and A: "\<forall>x\<in>A. hsize h (fst x) = snd x \<and> fst x \<noteq> bp \<and> fst x \<notin> set (base # map fst F1)"
    and G: "\<forall>x\<in>set G. hsize h (fst x) = snd x \<and> bp < fst x"
  shows "hsize h2 base = 0 \<and> (\<forall>x\<in>set (F1' @ G) \<union> A. hsize h2 (fst x) = snd x)"
proof -
  have pin: "p \<in> set (base # map fst F1)" unfolding p_def by (rule last_in_set) simp
  have pb: "p < bp" using pin s1 bs by auto
  have other: "hsize h2 a = hsize h a" if "a \<noteq> p" "a \<noteq> bp" for a using l(2) r that by simp
  have "hsize h2 base = 0"
  proof (cases "F1 = []")
    case True
    then show ?thesis using l(1) z by (simp add: p_def)
  next
    case False
    then have "p \<in> set (map fst F1)" unfolding p_def by (metis last.simps last_in_set list.map_disc_iff)
    then have "base \<noteq> p" using ds by (metis distinct.simps(2))
    then show ?thesis using l(2) z by metis
  qed
  moreover have "hsize h2 (fst x) = snd x" if x: "x \<in> A" for x
    using A x pin other by (metis (no_types))
  moreover have "hsize h2 (fst x) = snd x" if x: "x \<in> set G" for x
    using G x other pb by (metis less_irrefl less_trans)
  moreover have "hsize h2 (fst x) = snd x" if x: "x \<in> set F1'" for x
    using l(1)
  proof (elim disjE exE conjE)
    fix F0 d u assume a: "F1 = F0 @ [(d, u)]" "F1' = F0 @ [(d, u + s')]" "hsize h2 d = u + s'"
    show ?thesis
    proof (cases "x = (d, u + s')")
      case False
      then have "x \<in> set F0" using x a(2) by simp
      then have "fst x \<noteq> p" "hsize h1 (fst x) = snd x" using ds a(1) s1 by (force simp: p_def)+
      then show ?thesis using l(2) by simp
    qed (use a(3) in simp)
  next
    assume a: "F1' = F1 @ [(bp, s')]" "hsize h2 bp = s'" "hsize h2 p = hsize h1 p"
    show ?thesis
    proof (cases "x \<in> set F1")
      case True
      then show ?thesis using s1 l(2) a(3) by metis
    qed (use x a in simp)
  qed
  ultimately show ?thesis by auto
qed

lemma free_spec:
  fixes h :: "'k heap"
  assumes ok: "heap_ok base h F (insert (bp, s) A) lim" and new: "(bp, s) \<notin> A"
  obtains h' F' where "free (bp + 1) h = Some h'" "heap_ok base h' F' A lim" "units F' = units F \<union> {bp..<bp + s}"
    "\<exists>x\<in>set F'. s \<le> snd x" "kern h' = kern h"
proof -
  have b: "blocks_ok base F (insert (bp, s) A) lim" and pt: "path (hptr h) base (map fst F) base" and fp: "freep h \<in> set (base # map fst F)"
    and sz: "hsize h base = 0" "hsize h bp = s" "\<forall>x\<in>set F \<union> A. hsize h (fst x) = snd x" using ok by (auto simp: heap_ok_def)
  obtain F1 F2 where F: "F = F1 @ F2" and F1: "\<forall>x\<in>set F1. fst x + snd x \<le> bp" and F2: "\<forall>x\<in>set F2. bp + s \<le> fst x"
    and bs: "base < bp" "0 < s" by (rule blocks_split [OF b])
  have pos: "\<forall>x\<in>set F \<union> A. base < fst x \<and> 0 < snd x \<and> fst x + snd x \<le> lim" "lim < 2 ^ 32" "bp + s \<le> lim" "\<forall>x\<in>set F. \<forall>y\<in>A. apart2 x y"
    "\<forall>y\<in>A. apart2 (bp, s) y"
    using b new unfolding blocks_ok_def by auto
  let ?p = "last (base # map fst F1)" and ?n = "hd (map fst F2 @ [base])"
  have lt: "\<forall>x\<in>set F1. fst x < bp" "\<forall>x\<in>set F2. bp < fst x"
    using F1 F2 pos(1) F bs(2) by (metis UnI1 add_lessD1 le_neq_implies_less less_add_same_cancel1 order_less_le_trans set_append, metis less_add_same_cancel1 order_less_le_trans)
  have find: "free_find bp h (freep h) = Some ?p"
    using find_spec [of h base F1 F2 "freep h" bp] pt fp blocks_sorted [OF b] lt bs(1) F by simp
  have p1: "path (hptr h) base (map fst F1) ?n" using pt F by (cases F2) auto
  have n: "hptr h ?p = ?n" by (rule path_last [OF p1])
  have p2: "path (hptr h) (hd (map fst F2)) (map fst (tl F2)) base" if "F2 \<noteq> []" using pt F that by (cases F2) auto
  have s2: "\<forall>x\<in>set F2. hsize h (fst x) = snd x \<and> bp < fst x \<and> fst x + snd x < 2 ^ 32"
  proof
    fix x assume x: "x \<in> set F2"
    then have "x \<in> set F \<union> A" using F by simp
    then have "hsize h (fst x) = snd x" "fst x + snd x \<le> lim" using sz(3) pos(1) by blast+
    then show "hsize h (fst x) = snd x \<and> bp < fst x \<and> fst x + snd x < 2 ^ 32" using lt(2) x pos(2) by (meson order_le_less_trans)
  qed
  define h1 where "h1 = (if bp + hsize h bp = ?n
      then h\<lparr>hsize := (hsize h)(bp := (hsize h bp + hsize h ?n) mod 2 ^ 32), hptr := (hptr h)(bp := hptr h ?n)\<rparr>
      else h\<lparr>hptr := (hptr h)(bp := ?n)\<rparr>)"
  obtain G s' where r: "path (hptr h1) bp (map fst G) base" "hsize h1 bp = s'"
      "F2 = G \<and> s' = s \<and> (F2 \<noteq> [] \<longrightarrow> bp + s \<noteq> fst (hd F2)) \<or> (\<exists>t. F2 = (bp + s, t) # G \<and> s' = s + t)"
      "\<forall>a. a \<noteq> bp \<longrightarrow> hptr h1 a = hptr h a \<and> hsize h1 a = hsize h a" "freep h1 = freep h" "kern h1 = kern h"
    by (rule join_right [OF refl p2 s2 bs(1) sz(2), folded h1_def]) blast
  have GF: "set G \<subseteq> set F2" using r(3) by auto
  have nb: "bp \<notin> set (base # map fst F1)" using lt(1) bs(1) by auto
  have q1: "path (hptr h1) base (map fst F1) ?n"
    using p1 path_cong [of base "map fst F1" "hptr h1" "hptr h" ?n] r(4) nb by (metis (no_types))
  have ds: "distinct (base # map fst F1)" using blocks_distinct [OF b] F by simp
  have s1: "\<forall>x\<in>set F1. hsize h1 (fst x) = snd x \<and> fst x < bp"
  proof
    fix x assume x: "x \<in> set F1"
    then have "fst x < bp" "hsize h (fst x) = snd x" using lt(1) sz(3) F by auto
    then show "hsize h1 (fst x) = snd x \<and> fst x < bp" using r(4) by simp
  qed
  have g1: "\<forall>x\<in>set G. bp < fst x" using GF lt(2) by auto
  have z: "hsize h1 base = 0" using r(4) sz(1) bs(1) by simp
  have "bp + s' \<le> lim" using r(3) pos(1,3) F by auto
  then have bound: "bp + s' < 2 ^ 32" using pos(2) by linarith
  define h2 where "h2 = (if ?p + hsize h1 ?p = bp
      then h1\<lparr>hsize := (hsize h1)(?p := (hsize h1 ?p + hsize h1 bp) mod 2 ^ 32), hptr := (hptr h1)(?p := hptr h1 bp)\<rparr>
      else h1\<lparr>hptr := (hptr h1)(?p := bp)\<rparr>)"
  obtain F1' where l: "path (hptr h2) base (map fst (F1' @ G)) base"
      "F1' = F1 @ [(bp, s')] \<and> hsize h2 bp = s' \<and> hsize h2 ?p = hsize h1 ?p \<and> (F1 \<noteq> [] \<longrightarrow> fst (last F1) + snd (last F1) \<noteq> bp) \<or>
        (\<exists>F0 d u. F1 = F0 @ [(d, u)] \<and> d + u = bp \<and> F1' = F0 @ [(d, u + s')] \<and> hsize h2 d = u + s')"
      "?p \<in> set (base # map fst F1')" "\<forall>a. a \<noteq> ?p \<longrightarrow> hsize h2 a = hsize h1 a" "freep h2 = freep h1" "kern h2 = kern h1"
    by (rule join_left [OF q1 ds r(1) s1 g1 bs(1) z r(2) bound, folded h2_def]) blast
  have free: "free (bp + 1) h = Some (h2\<lparr>freep := ?p\<rparr>)"
  proof -
    have "free_join bp ?p h = h2\<lparr>freep := ?p\<rparr>"
      unfolding free_join_def Let_def n h1_def [symmetric] h2_def [symmetric] by (rule refl)
    then show ?thesis using find by (simp add: free_def del: last.simps)
  qed
  have left: "F1' = F1 @ [(bp, s')] \<and> (F1 \<noteq> [] \<longrightarrow> fst (last F1) + snd (last F1) \<noteq> bp) \<or>
      (\<exists>F0 d u. F1 = F0 @ [(d, u)] \<and> d + u = bp \<and> F1' = F0 @ [(d, u + s')])" using l(2) by blast
  note j = blocks_join [OF b [unfolded F] new F1 F2 r(3) left]
  have As: "\<forall>x\<in>A. hsize h (fst x) = snd x \<and> fst x \<noteq> bp \<and> fst x \<notin> set (base # map fst F1)"
  proof
    fix x assume x: "x \<in> A"
    have "0 < snd x" "base < fst x" "hsize h (fst x) = snd x" "apart2 (bp, s) x" "\<forall>y\<in>set F1. apart2 y x \<and> 0 < snd y"
      using x pos(1,4,5) sz(3) F by auto
    then show "hsize h (fst x) = snd x \<and> fst x \<noteq> bp \<and> fst x \<notin> set (base # map fst F1)" using bs(2) by (auto simp: apart2_def)
  qed
  have Gs: "\<forall>x\<in>set G. hsize h (fst x) = snd x \<and> bp < fst x" using g1 GF s2 by auto
  have r': "\<forall>a. a \<noteq> bp \<longrightarrow> hsize h1 a = hsize h a" using r(4) by blast
  note sizes = join_sizes [OF ds bs(1) s1 z r' l(2,4) As Gs]
  have "heap_ok base (h2\<lparr>freep := ?p\<rparr>) (F1' @ G) A lim" using j(1) l(1,3) sizes unfolding heap_ok_def by (auto simp del: last.simps)
  then show ?thesis using that [OF free] j(2,3) F l(6) r(6) by simp
qed

section \<open>Allocation\<close>

lemma ring_split:
  assumes "heap_ok base h F A lim" "p \<in> set (base # map fst F)" "0 < hsize h p"
  obtains F1 s F2 where "F = F1 @ (p, s) # F2" "hsize h p = s"
proof -
  have "p \<noteq> base" using assms(1,3) by (auto simp: heap_ok_def)
  then obtain x where "x \<in> set F" "p = fst x" using assms(2) by auto
  then show ?thesis using that assms(1) by (metis heap_ok_def UnI1 split_list surjective_pairing)
qed

lemma take_all:
  fixes h :: "'k heap"
  assumes ok: "heap_ok base h (F1 @ (p, n) # F2) A lim" and prev: "prevp \<in> set (base # map fst (F1 @ (p, n) # F2))" "hptr h prevp = p"
  defines "h' \<equiv> h\<lparr>hptr := (hptr h)(prevp := hptr h p), freep := prevp\<rparr>"
  shows "heap_ok base h' (F1 @ F2) (insert (p, n) A) lim" "(p, n) \<notin> A"
proof -
  let ?F = "F1 @ (p, n) # F2" and ?q = "last (base # map fst F1)"
  have b: "blocks_ok base ?F A lim" and pt: "path (hptr h) base (map fst ?F) base" using ok by (auto simp: heap_ok_def)
  have ds: "distinct (base # map fst ?F)" by (rule blocks_distinct [OF b])
  have p1: "path (hptr h) base (map fst F1) p" and p2: "path (hptr h) p (map fst F2) base" using pt by auto
  have qin: "?q \<in> set (base # map fst F1)" by (rule last_in_set) simp
  have q: "prevp = ?q"
    using inj_onD [OF ring_inj [OF pt ds], of prevp ?q] prev path_last [OF p1] qin by (auto simp del: last.simps)
  have nb: "0 < n" "\<forall>y\<in>A. apart2 (p, n) y \<and> 0 < snd y" using b unfolding blocks_ok_def by auto
  then show "(p, n) \<notin> A" by (auto simp: apart2_def)
  have "path ((hptr h)(?q := hptr h p)) base (map fst F1) (hptr h p)" by (rule path_upd_last [OF _ p1]) (use ds in simp)
  moreover have "path ((hptr h)(?q := hptr h p)) (hd (map fst F2)) (map fst (tl F2)) base" if "F2 \<noteq> []"
  proof -
    have "set (base # map fst F1) \<inter> set (map fst F2) = {}" using ds by auto
    then have "?q \<notin> set (map fst F2)" using qin by blast
    then show ?thesis using p2 that by (cases F2) (auto simp del: last.simps)
  qed
  ultimately have "path (hptr h') base (map fst (F1 @ F2)) base" using p2 unfolding h'_def q by (cases F2) (auto simp del: last.simps)
  moreover have "blocks_ok base (F1 @ F2) (insert (p, n) A) lim"
  proof -
    have "sorted_wrt (\<lambda>x y. fst x + snd x < fst y) ?F" using b by (simp add: blocks_ok_def)
    then have "sorted_wrt (\<lambda>x y. fst x + snd x < fst y) (F1 @ F2)" "\<forall>x\<in>set (F1 @ F2). apart2 x (p, n)"
      by (auto simp: sorted_wrt_append apart2_def)
    then show ?thesis using b nb unfolding blocks_ok_def by (auto simp: apart2_def)
  qed
  moreover have "prevp \<in> set (base # map fst (F1 @ F2))" using qin unfolding q by (simp only: list.set map_append set_append Un_iff insert_iff) blast
  ultimately show "heap_ok base h' (F1 @ F2) (insert (p, n) A) lim" using ok unfolding heap_ok_def h'_def by auto
qed

lemma take_tail:
  fixes h :: "'k heap"
  assumes ok: "heap_ok base h (F1 @ (p, s) # F2) A lim" and n: "0 < n" "n < s" and prev: "prevp \<in> set (base # map fst (F1 @ (p, s) # F2))"
  defines "h' \<equiv> h\<lparr>hsize := (hsize h)(p := s - n, p + (s - n) := n), freep := prevp\<rparr>"
  shows "heap_ok base h' (F1 @ (p, s - n) # F2) (insert (p + (s - n), n) A) lim" "(p + (s - n), n) \<notin> A"
proof -
  let ?F = "F1 @ (p, s) # F2" and ?a = "p + (s - n)"
  have b: "blocks_ok base ?F A lim" using ok by (simp add: heap_ok_def)
  have o: "sorted_wrt (\<lambda>x y. fst x + snd x < fst y) ?F" "\<forall>y\<in>A. apart2 (p, s) y \<and> 0 < snd y" "base < p" "p + s \<le> lim"
    "\<forall>x\<in>set F1 \<union> set F2. 0 < snd x" using b unfolding blocks_ok_def by auto
  show "(?a, n) \<notin> A" using o(2) n by (auto simp: apart2_def)
  have sorted: "sorted_wrt (\<lambda>x y. fst x + snd x < fst y) (F1 @ (p, s - n) # F2)" using o(1) by (auto simp: sorted_wrt_append)
  have ap: "\<forall>x\<in>set (F1 @ (p, s - n) # F2). apart2 x (?a, n)" "\<forall>y\<in>A. apart2 (?a, n) y \<and> apart2 (p, s - n) y"
    using o(1,2) n by (fastforce simp: sorted_wrt_append apart2_def)+
  have b': "blocks_ok base (F1 @ (p, s - n) # F2) (insert (?a, n) A) lim"
    unfolding blocks_ok_def
  proof (intro conjI)
    show "\<forall>x\<in>insert (?a, n) A. \<forall>y\<in>insert (?a, n) A. x = y \<or> apart2 x y"
      using b ap(2) unfolding blocks_ok_def by (auto simp: apart2_def)
  qed (use b n o sorted ap in \<open>auto simp: blocks_ok_def\<close>)
  have a: "fst x \<noteq> ?a \<and> (x = (p, s - n) \<or> fst x \<noteq> p)" if "x \<in> set (F1 @ (p, s - n) # F2) \<union> A" for x
    using that o n ap by (fastforce simp: sorted_wrt_append apart2_def)
  have "\<forall>x\<in>set (F1 @ (p, s - n) # F2) \<union> insert (?a, n) A. hsize h' (fst x) = snd x"
  proof
    fix x assume x: "x \<in> set (F1 @ (p, s - n) # F2) \<union> insert (?a, n) A"
    show "hsize h' (fst x) = snd x"
    proof (cases "x = (?a, n) \<or> x = (p, s - n)")
      case True
      then show ?thesis using n by (auto simp: h'_def)
    next
      case False
      then have "hsize h (fst x) = snd x" using ok x unfolding heap_ok_def by auto
      then show ?thesis using a [of x] x False by (auto simp: h'_def)
    qed
  qed
  then show "heap_ok base h' (F1 @ (p, s - n) # F2) (insert (?a, n) A) lim"
    using ok b' prev n o(3) unfolding heap_ok_def h'_def by auto
qed

lemma malloc_take_spec:
  fixes h :: "'k heap"
  assumes ok: "heap_ok base h F A lim" and prev: "prevp \<in> set (base # map fst F)" "hptr h prevp = p" and p: "p \<in> set (base # map fst F)"
    and n: "0 < n" "n \<le> hsize h p"
  obtains a h' F' where "malloc_take n prevp p h = (a + 1, h')" "heap_ok base h' F' (insert (a, n) A) lim" "(a, n) \<notin> A"
    "units F' \<union> {a..<a + n} = units F" "kern h' = kern h"
proof -
  obtain F1 s F2 where F: "F = F1 @ (p, s) # F2" "hsize h p = s" using ring_split [OF ok p] n by (metis order_less_le_trans)
  show ?thesis
  proof (cases "s = n")
    case True
    have "malloc_take n prevp p h = (p + 1, h\<lparr>hptr := (hptr h)(prevp := hptr h p), freep := prevp\<rparr>)"
      using True F(2) by (simp add: malloc_take_def)
    from that [OF this take_all [OF ok [unfolded F(1) True] prev(1) [unfolded F(1) True] prev(2)]]
    show ?thesis using True F(1) by auto
  next
    case False
    then have ns: "n < s" using n F(2) by simp
    have "malloc_take n prevp p h = (p + (s - n) + 1, h\<lparr>hsize := (hsize h)(p := s - n, p + (s - n) := n), freep := prevp\<rparr>)"
      using False F(2) by (simp add: malloc_take_def Let_def)
    from that [OF this take_tail [OF ok [unfolded F(1)] n(1) ns prev(1) [unfolded F(1)]]]
    moreover have "{p..<p + (s - n)} \<union> {p + (s - n)..<p + (s - n) + n} = {p..<p + s}" using ns by auto
    ultimately show ?thesis using F(1) by (simp add: Un_ac)
  qed
qed

lemma loop_skip:
  assumes "path (hptr h) q xs b" "\<forall>x\<in>set xs. hsize h x < n \<and> x \<noteq> freep h"
  shows "malloc_loop sb n q (hptr h q) h = malloc_loop sb n (last (q # xs)) b h"
  using assms
proof (induction xs arbitrary: q)
  case (Cons x xs)
  then have "malloc_loop sb n q x h = malloc_loop sb n x (hptr h x) h" by (subst malloc_loop.simps) simp
  then show ?case using Cons by simp
qed simp

lemma path_first:
  assumes "path f a zs b" "zs @ [b] = us @ x # vs"
  shows "path f a us x" "set us \<subseteq> set zs"
  using assms by (cases vs rule: rev_cases; auto)+

lemma loop_fit:
  fixes h :: "'k heap"
  assumes ok: "heap_ok base h F A lim" and n: "0 < n" "x \<in> set F" "n \<le> snd x"
  obtains a h' F' where "malloc_loop sb n (freep h) (hptr h (freep h)) h = Some (a + 1, h')" "heap_ok base h' F' (insert (a, n) A) lim"
    "(a, n) \<notin> A" "units F' \<union> {a..<a + n} = units F" "kern h' = kern h"
proof -
  let ?f = "freep h" and ?R = "set (base # map fst F)"
  have pt: "path (hptr h) base (map fst F) base" and f: "?f \<in> ?R" using ok by (simp_all add: heap_ok_def)
  have ds: "distinct (base # map fst F)" using ok unfolding heap_ok_def by (blast intro: blocks_distinct)
  obtain zs where zs: "path (hptr h) ?f zs ?f" "set (?f # zs) = ?R" "distinct (?f # zs)" using ring_rotate [OF pt f ds] by blast
  have "fst x \<in> set (zs @ [?f])" "n \<le> hsize h (fst x)" using n(2,3) zs(2) ok by (auto simp: heap_ok_def)
  then obtain us p vs where s: "zs @ [?f] = us @ p # vs" "n \<le> hsize h p" "\<forall>u\<in>set us. \<not> n \<le> hsize h u"
    using split_list_first_prop [of "zs @ [?f]" "\<lambda>y. n \<le> hsize h y"] by blast
  note u = path_first [OF zs(1) s(1)]
  let ?q = "last (?f # us)"
  have "malloc_loop sb n ?f (hptr h ?f) h = malloc_loop sb n ?q p h"
    by (rule loop_skip [OF u(1)]) (use s(3) u(2) zs(3) in auto)
  also have "\<dots> = Some (malloc_take n ?q p h)" using s(2) by (subst malloc_loop.simps) simp
  finally have l: "malloc_loop sb n ?f (hptr h ?f) h = Some (malloc_take n ?q p h)" .
  have "?q \<in> set (?f # us)" by (rule last_in_set) simp
  then have q: "?q \<in> ?R" using u(2) unfolding zs(2) [symmetric] by (simp only: list.set insert_iff) blast
  have "p \<in> set (zs @ [?f])" unfolding s(1) by simp
  then have p: "p \<in> ?R" using zs(2) by auto
  obtain a h' F' where "malloc_take n ?q p h = (a + 1, h')" "heap_ok base h' F' (insert (a, n) A) lim" "(a, n) \<notin> A"
      "units F' \<union> {a..<a + n} = units F" "kern h' = kern h"
    by (rule malloc_take_spec [OF ok q path_last [OF u(1)] p n(1) s(2)])
  then show ?thesis using that l by simp
qed

text \<open>
  What \<^verbatim>\<open>sbrk\<close> promises, with \<open>brk\<close> the end of the memory of the process, in units: growing returns the old end and moves it, or
  fails and leaves it. The memory of a process is smaller than 64 GB.
\<close>

definition sbrk_ok :: "(int \<Rightarrow> 'k \<Rightarrow> nat option \<times> 'k) \<Rightarrow> ('k \<Rightarrow> nat) \<Rightarrow> bool" where
  "sbrk_ok sb brk \<longleftrightarrow>
     (\<forall>k u. case sb (int (16 * u)) k of
        (None, k') \<Rightarrow> brk k' = brk k
      | (Some a, k') \<Rightarrow> a = brk k \<and> brk k' = brk k + u \<and> brk k' < 2 ^ 32)"

lemma freep_pos:
  assumes "heap_ok base h F A lim"
  shows "freep h \<noteq> 0"
proof -
  have "\<forall>y\<in>set (map fst F). base < y" "0 < base" using assms by (auto simp: heap_ok_def blocks_ok_def)
  moreover have "freep h = base \<or> freep h \<in> set (map fst F)" using assms by (simp add: heap_ok_def)
  ultimately show ?thesis by (metis less_nat_zero_code)
qed

lemma sint_bytes: "nu < 2 ^ 27 \<Longrightarrow> sint (of_nat (nu * 16) :: 32 word) = int (16 * nu)"
  by (simp add: signed_of_nat signed_take_bit_int_eq_self del: of_nat_mult)

lemma morecore_spec:
  fixes h :: "'k heap"
  assumes sb: "sbrk_ok sb brk" and ok: "heap_ok base h F A (brk (kern h))" and n: "0 < n" "n < 2 ^ 27"
  obtains h' where "morecore sb n h = Some (0, h')" "heap_ok base h' F A (brk (kern h'))" "brk (kern h') = brk (kern h)"
      "fst (sb (int (16 * max 4096 n)) (kern h)) = None"
  | h' F' x where "morecore sb n h = Some (freep h', h')" "heap_ok base h' F' A (brk (kern h'))" "x \<in> set F'" "n \<le> snd x"
      "units F' = units F \<union> {brk (kern h)..<brk (kern h')}" "freep h' \<noteq> 0"
proof -
  let ?nu = "if n < 4096 then 4096 else n"
  have nu: "0 < ?nu" "?nu < 2 ^ 27" "n \<le> ?nu" using n by auto
  note b = sint_bytes [OF nu(2)]
  obtain p k where s: "sb (int (16 * ?nu)) (kern h) = (p, k)" by fastforce
  have sk: "case (p, k) of (None, k') \<Rightarrow> brk k' = brk (kern h) | (Some a, k') \<Rightarrow> a = brk (kern h) \<and> brk k' = brk (kern h) + ?nu \<and> brk k' < 2 ^ 32"
    unfolding s [symmetric] by (rule spec [OF spec [OF sb [unfolded sbrk_ok_def], of "kern h"], of ?nu])
  show ?thesis
  proof (cases p)
    case None
    have "morecore sb n h = Some (0, h\<lparr>kern := k\<rparr>)" unfolding morecore_def Let_def b s using None by simp
    moreover have "brk k = brk (kern h)" using sk None by simp
    moreover have "?nu = max 4096 n" by (simp add: max_def)
    then have "fst (sb (int (16 * max 4096 n)) (kern h)) = None" using s None by simp
    ultimately show ?thesis using ok that(1) by (simp add: heap_ok_def)
  next
    case (Some hp)
    have k: "hp = brk (kern h)" "brk k = brk (kern h) + ?nu" "brk k < 2 ^ 32" using sk Some by simp_all
    let ?h = "h\<lparr>kern := k, hsize := (hsize h)(hp := ?nu)\<rparr>"
    have bo: "blocks_ok base F A (brk (kern h))" using ok by (simp add: heap_ok_def)
    have far: "fst x \<noteq> hp \<and> apart2 x (hp, ?nu) \<and> apart2 (hp, ?nu) x" if "x \<in> set F \<union> A" for x
    proof -
      have "0 < snd x" "fst x + snd x \<le> hp" using bo that k(1) unfolding blocks_ok_def by blast+
      then show ?thesis by (auto simp: apart2_def)
    qed
    have new: "(hp, ?nu) \<notin> A" using far [of "(hp, ?nu)"] by auto
    have "blocks_ok base F (insert (hp, ?nu) A) (brk k)"
      using bo k nu(1) far unfolding blocks_ok_def by (auto simp: trans_le_add1)
    then have ok': "heap_ok base ?h F (insert (hp, ?nu) A) (brk k)"
      using ok far bo k(1) unfolding heap_ok_def by (auto simp: blocks_ok_def)
    obtain h' F' where f: "free (hp + 1) ?h = Some h'" "heap_ok base h' F' A (brk k)" "units F' = units F \<union> {hp..<hp + ?nu}"
        "\<exists>x\<in>set F'. ?nu \<le> snd x" "kern h' = kern ?h"
      by (rule free_spec [OF ok' new])
    obtain x where x: "x \<in> set F'" "n \<le> snd x" using f(4) nu(3) le_trans by blast
    have "morecore sb n h = Some (freep h', h')" unfolding morecore_def Let_def b s using Some f(1) by simp
    moreover have "freep h' \<noteq> 0" by (rule freep_pos [OF f(2)])
    ultimately show ?thesis using that(2) [of h' F' x] f k x by simp
  qed
qed

section \<open>Properties\<close>

text \<open>Before the first call of \<^verbatim>\<open>malloc\<close> there is no list; afterwards the list is well-formed.\<close>

definition alloc_ok :: "nat \<Rightarrow> 'k heap \<Rightarrow> (nat \<times> nat) list \<Rightarrow> (nat \<times> nat) set \<Rightarrow> nat \<Rightarrow> bool" where
  "alloc_ok base h F A lim \<longleftrightarrow>
     freep h = 0 \<and> F = [] \<and> A = {} \<and> 0 < base \<and> base < lim \<and> lim < 2 ^ 32 \<or> heap_ok base h F A lim"

lemma malloc_loop_spec:
  fixes h :: "'k heap"
  assumes sb: "sbrk_ok sb brk" and ok: "heap_ok base h F A (brk (kern h))" and n: "0 < n" "n < 2 ^ 27"
  obtains h' where "malloc_loop sb n (freep h) (hptr h (freep h)) h = Some (0, h')" "heap_ok base h' F A (brk (kern h'))"
      "brk (kern h') = brk (kern h)" "\<forall>x\<in>set F. snd x < n" "fst (sb (int (16 * max 4096 n)) (kern h)) = None"
  | a h' F' where "malloc_loop sb n (freep h) (hptr h (freep h)) h = Some (a + 1, h')" "heap_ok base h' F' (insert (a, n) A) (brk (kern h'))"
      "(a, n) \<notin> A" "units F' \<union> {a..<a + n} = units F \<union> {brk (kern h)..<brk (kern h')}"
proof (cases "\<exists>x\<in>set F. n \<le> snd x")
  case True
  then obtain x where x: "x \<in> set F" "n \<le> snd x" by blast
  obtain a h' F' where "malloc_loop sb n (freep h) (hptr h (freep h)) h = Some (a + 1, h')" "heap_ok base h' F' (insert (a, n) A) (brk (kern h))"
      "(a, n) \<notin> A" "units F' \<union> {a..<a + n} = units F" "kern h' = kern h"
    by (rule loop_fit [OF ok n(1) x])
  then show ?thesis using that(2) by simp
next
  case False
  let ?f = "freep h" and ?R = "set (base # map fst F)"
  have pt: "path (hptr h) base (map fst F) base" and f: "?f \<in> ?R" using ok by (simp_all add: heap_ok_def)
  have ds: "distinct (base # map fst F)" using ok unfolding heap_ok_def by (blast intro: blocks_distinct)
  obtain zs where zs: "path (hptr h) ?f zs ?f" "set (?f # zs) = ?R" "distinct (?f # zs)" using ring_rotate [OF pt f ds] by blast
  have small: "hsize h y < n" if y: "y \<in> ?R" for y
  proof (cases "y = base")
    case True
    then show ?thesis using ok n(1) by (simp add: heap_ok_def)
  next
    case neq: False
    then obtain x where "x \<in> set F" "y = fst x" using y by auto
    moreover have "hsize h (fst x) = snd x" using ok calculation(1) by (simp add: heap_ok_def)
    ultimately show ?thesis using False by auto
  qed
  have sz: "\<forall>y\<in>set zs. hsize h y < n \<and> y \<noteq> ?f" using small zs(2,3) by auto
  have fs: "\<not> n \<le> hsize h ?f" using small [OF f] by simp
  have l: "malloc_loop sb n ?f (hptr h ?f) h = (case morecore sb n h of None \<Rightarrow> None
      | Some (p, h) \<Rightarrow> if p = 0 then Some (0, h) else malloc_loop sb n p (hptr h p) h)"
    unfolding loop_skip [OF zs(1) sz, of sb] using fs by (subst malloc_loop.simps) (simp del: last.simps)
  from sb ok n show ?thesis
  proof (cases rule: morecore_spec)
    case (1 h')
    moreover have "\<forall>x\<in>set F. snd x < n" using False by auto
    ultimately show ?thesis using l that(1) by simp
  next
    case (2 h' F' x)
    obtain a h'' F'' where m: "malloc_loop sb n (freep h') (hptr h' (freep h')) h' = Some (a + 1, h'')"
        "heap_ok base h'' F'' (insert (a, n) A) (brk (kern h'))" "(a, n) \<notin> A" "units F'' \<union> {a..<a + n} = units F'" "kern h'' = kern h'"
      by (rule loop_fit [OF 2(2) n(1) 2(3,4)])
    have "malloc_loop sb n ?f (hptr h ?f) h = Some (a + 1, h'')" using l 2(1,6) m(1) by simp
    then show ?thesis using that(2) [of a h'' F''] m 2(5) by simp
  qed
qed

lemma apart2_disjoint: "apart2 (a, n) x \<Longrightarrow> {a..<a + n} \<inter> {fst x..<fst x + snd x} = {}"
  by (auto simp: apart2_def)

lemma fresh_heap:
  assumes "0 < base" "base < lim" "lim < 2 ^ 32"
  shows "heap_ok base (h\<lparr>freep := base, hptr := (hptr h)(base := base), hsize := (hsize h)(base := 0)\<rparr>) [] {} lim"
  using assms by (simp add: heap_ok_def blocks_ok_def)

text \<open>
  C36. \<^verbatim>\<open>malloc\<close> of less than \<open>2\<^sup>3\<^sup>1 - 31\<close> bytes always returns. It returns a null pointer only when no free block has the units needed and \<^verbatim>\<open>sbrk\<close>
  refused to add them, at least 4096; then the blocks are as before. Otherwise it
  returns a block that has room for the bytes asked for and shares no byte with any allocated block. The list of free
  blocks stays well-formed, and no memory is lost: the new block and the free blocks together are the former free blocks and what
  \<^verbatim>\<open>sbrk\<close> added.
\<close>

theorem malloc_correct:
  fixes h :: "'k heap"
  assumes "sbrk_ok sb brk" "alloc_ok base h F A (brk (kern h))" "unat nbytes < 2 ^ 31 - 31"
  shows "\<exists>r h'. malloc sb base nbytes h = Some (r, h') \<and>
      (r = 0 \<and> alloc_ok base h' F A (brk (kern h')) \<and> brk (kern h') = brk (kern h) \<and>
          (\<forall>x\<in>set F. snd x < (unat nbytes + 15) div 16 + 1) \<and> fst (sb (int (16 * max 4096 ((unat nbytes + 15) div 16 + 1))) (kern h)) = None \<or>
       (\<exists>a n F'. r = a + 1 \<and> unat nbytes \<le> 16 * (n - 1) \<and> (a, n) \<notin> A \<and> (\<forall>x\<in>A. {a..<a + n} \<inter> {fst x..<fst x + snd x} = {}) \<and>
          alloc_ok base h' F' (insert (a, n) A) (brk (kern h')) \<and> units F' \<union> {a..<a + n} = units F \<union> {brk (kern h)..<brk (kern h')}))"
proof -
  let ?n = "(unat nbytes + 16 - 1) div 16 + 1"
  let ?h = "if freep h = 0 then h\<lparr>freep := base, hptr := (hptr h)(base := base), hsize := (hsize h)(base := 0)\<rparr> else h"
  have n: "0 < ?n" "?n < 2 ^ 27" "unat nbytes \<le> 16 * (?n - 1)" using assms(3) by auto
  have k: "kern ?h = kern h" by simp
  have ok: "heap_ok base ?h F A (brk (kern ?h))"
  proof (cases "freep h = 0")
    case True
    moreover have "\<not> heap_ok base h F A (brk (kern h))" using True freep_pos by blast
    ultimately show ?thesis using assms(2) fresh_heap [of base "brk (kern h)" h] unfolding alloc_ok_def by auto
  qed (use assms(2) in \<open>simp add: alloc_ok_def\<close>)
  have m: "malloc sb base nbytes h = malloc_loop sb ?n (freep ?h) (hptr ?h (freep ?h)) ?h" by (simp add: malloc_def Let_def)
  from assms(1) ok n(1,2) show ?thesis
  proof (cases rule: malloc_loop_spec)
    case (1 h')
    then show ?thesis unfolding m using k by (simp add: alloc_ok_def add.commute)
  next
    case (2 a h' F')
    have all: "\<forall>x\<in>insert (a, ?n) A. \<forall>y\<in>insert (a, ?n) A. x = y \<or> apart2 x y" using 2(2) unfolding heap_ok_def blocks_ok_def by (elim conjE)
    have "apart2 (a, ?n) x" if x: "x \<in> A" for x
    proof -
      have "(a, ?n) = x \<or> apart2 (a, ?n) x" by (rule bspec [OF bspec [OF all insertI1] insertI2 [OF x]])
      moreover have "(a, ?n) \<noteq> x" using 2(3) x by (metis (no_types))
      ultimately show ?thesis by (simp only: simp_thms)
    qed
    then have "\<forall>x\<in>A. {a..<a + ?n} \<inter> {fst x..<fst x + snd x} = {}" by (intro ballI apart2_disjoint)
    then show ?thesis unfolding m 2(1) using 2(2-4) n(3) k by (intro exI [of _ "a + 1"] exI [of _ h'] conjI disjI2 exI [of _ a] exI [of _ ?n] exI [of _ F'])
      (simp_all add: alloc_ok_def)
  qed
qed

text \<open>An \<^verbatim>\<open>sbrk\<close> that grants memory up to the unit 100000; the state is the end of the memory.\<close>

definition example_sbrk :: "int \<Rightarrow> nat \<Rightarrow> nat option \<times> nat" where
  "example_sbrk n k = (if k + nat n div 16 < 100000 then (Some k, k + nat n div 16) else (None, k))"

lemma example_sbrk_ok: "sbrk_ok example_sbrk (\<lambda>k. k)"
  by (auto simp: sbrk_ok_def example_sbrk_def nat_mult_distrib)

definition example_heap :: "nat heap" where
  "example_heap = \<lparr>hptr = (\<lambda>_. 0), hsize = (\<lambda>_. 0), freep = 0, kern = 256\<rparr>"

theorem malloc_correct_witness:
  "alloc_ok 16 example_heap [] {} 256 \<and>
   (\<exists>a n h' F'. malloc example_sbrk 16 100 example_heap = Some (a + 1, h') \<and> 100 \<le> 16 * (n - 1) \<and> alloc_ok 16 h' F' {(a, n)} (kern h'))"
proof -
  have "alloc_ok 16 example_heap [] {} (kern example_heap)" by (simp add: alloc_ok_def example_heap_def)
  moreover from malloc_correct [OF example_sbrk_ok this, of 100]
  have "\<exists>a n h' F'. malloc example_sbrk 16 100 example_heap = Some (a + 1, h') \<and> 100 \<le> 16 * (n - 1) \<and> alloc_ok 16 h' F' {(a, n)} (kern h')"
    by (auto simp: example_sbrk_def example_heap_def)
  ultimately show ?thesis by (simp add: example_heap_def)
qed

text \<open>
  C37. \<^verbatim>\<open>free\<close> of an allocated block always returns; it adds exactly the units of the block to the free blocks, joins it with the
  free blocks it touches, and keeps the list well-formed and every other allocated block as it was.
\<close>

theorem free_correct:
  fixes h :: "'k heap"
  assumes "alloc_ok base h F (insert (a, n) A) lim" "(a, n) \<notin> A"
  shows "\<exists>h' F'. free (a + 1) h = Some h' \<and> alloc_ok base h' F' A lim \<and> units F' = units F \<union> {a..<a + n} \<and> kern h' = kern h"
proof -
  have ok: "heap_ok base h F (insert (a, n) A) lim" using assms(1) by (simp add: alloc_ok_def)
  obtain h' F' where "free (a + 1) h = Some h'" "heap_ok base h' F' A lim" "units F' = units F \<union> {a..<a + n}" "kern h' = kern h"
    using free_spec [OF ok assms(2)] by blast
  then show ?thesis by (auto simp: alloc_ok_def)
qed

theorem free_correct_witness:
  "let h = \<lparr>hptr = (\<lambda>_. 0)(16 := 300, 300 := 16), hsize = (\<lambda>_. 0)(300 := 5, 305 := 7), freep = 16, kern = ()\<rparr>
   in alloc_ok 16 h [(300, 5)] {(305, 7)} 400 \<and> (\<exists>h' F'. free (305 + 1) h = Some h' \<and> alloc_ok 16 h' F' {} 400 \<and> units F' = {300..<312})"
proof -
  define h where "h = \<lparr>hptr = (\<lambda>_. 0)(16 := 300, 300 := 16), hsize = (\<lambda>_. 0)(300 := 5, 305 := 7), freep = 16, kern = ()\<rparr>"
  have ok: "alloc_ok 16 h [(300, 5)] {(305, 7)} 400" by (simp add: alloc_ok_def heap_ok_def blocks_ok_def apart2_def h_def)
  have "\<exists>h' F'. free (305 + 1) h = Some h' \<and> alloc_ok 16 h' F' {} 400 \<and> units F' = units [(300, 5)] \<union> {305..<305 + 7} \<and> kern h' = kern h"
    by (rule free_correct) (use ok in simp_all)
  moreover have "units [(300, 5)] \<union> {305..<305 + 7} = {300..<312}" by auto
  ultimately show ?thesis using ok unfolding Let_def h_def [symmetric] by metis
qed

text \<open>
  A request of 4294967295 bytes wraps: the number of bytes passed to \<^verbatim>\<open>sbrk\<close> is 16, but the block that \<^verbatim>\<open>malloc\<close> returns is recorded with
  268435457 units.
\<close>

theorem malloc_wraps:
  fixes h :: "'k heap"
  assumes "freep h = 0" "0 < base" "base < a" "sb 16 (kern h) = (Some a, k)"
  shows "\<exists>h'. malloc sb base 0xFFFFFFFF h = Some (a + 1, h') \<and> hsize h' a = 268435457 \<and> kern h' = k"
proof -
  define h0 where "h0 = h\<lparr>freep := base, hptr := (hptr h)(base := base), hsize := (hsize h)(base := 0)\<rparr>"
  define h1 where "h1 = h0\<lparr>kern := k, hsize := (hsize h0)(a := 268435457), hptr := (hptr h0)(a := base, base := a), freep := base\<rparr>"
  have arg: "sint (of_nat (268435457 * 16) :: 32 word) = 16" by simp
  have "free_find a (h0\<lparr>kern := k, hsize := (hsize h0)(a := 268435457)\<rparr>) base = Some base"
    using assms(3) by (subst free_find.simps) (simp add: h0_def)
  then have "free (a + 1) (h0\<lparr>kern := k, hsize := (hsize h0)(a := 268435457)\<rparr>) = Some h1"
    using assms(2,3) by (simp add: free_def free_join_def h1_def h0_def fun_upd_twist)
  then have "morecore sb 268435457 h0 = Some (base, h1)" unfolding morecore_def Let_def using arg assms(4) by (simp add: h0_def h1_def)
  moreover have "malloc_loop sb 268435457 base a h1 = Some (malloc_take 268435457 base a h1)"
    by (subst malloc_loop.simps) (simp add: h1_def)
  ultimately have "malloc_loop sb 268435457 base base h0 = Some (malloc_take 268435457 base a h1)"
    using assms(2,3) by (subst malloc_loop.simps) (simp add: h0_def, simp add: h1_def)
  moreover have "malloc sb base 0xFFFFFFFF h = malloc_loop sb 268435457 base base h0" using assms(1) by (simp add: malloc_def h0_def)
  ultimately show ?thesis by (simp add: malloc_take_def h1_def)
qed

end
