(* ===== verification/Sh.thy ===== *)
theory Sh
  imports Prelude "HOL-Library.Sublist"
begin

text \<open>
  \<^verbatim>\<open>user/sh.c\<close>: the parser of the shell and the way it runs commands. A pointer into the command line is the
  list of the characters from there to the end, so that the empty list is the pointer \<^verbatim>\<open>es\<close> to the NUL. A word of a command
  is the pair of the pointers to its first character and to the end. Allocation of command nodes succeeds; a
  call of \<^verbatim>\<open>panic\<close> is an error value.
\<close>

section \<open>Commands\<close>

abbreviation (input) O_RDONLY :: nat where "O_RDONLY \<equiv> 0"
abbreviation (input) O_WRONLY :: nat where "O_WRONLY \<equiv> 1"
abbreviation (input) O_CREATE :: nat where "O_CREATE \<equiv> 0x200"
abbreviation (input) O_TRUNC :: nat where "O_TRUNC \<equiv> 0x400"
abbreviation (input) MAXARGS :: nat where "MAXARGS \<equiv> 10"

datatype 'w cmd =
    EXEC "'w list"                \<comment> \<open>\<^verbatim>\<open>argv\<close>\<close>
  | REDIR "'w cmd" 'w nat nat     \<comment> \<open>\<^verbatim>\<open>cmd\<close>, \<^verbatim>\<open>file\<close>, \<^verbatim>\<open>mode\<close>, \<^verbatim>\<open>fd\<close>\<close>
  | PIPE "'w cmd" "'w cmd"
  | LIST "'w cmd" "'w cmd"
  | BACK "'w cmd"

type_synonym ptr = string
type_synonym word_ptrs = "ptr \<times> ptr"

section \<open>Tokens\<close>

definition whitespace :: string where
  "whitespace = [CHR 0x20, CHR 0x09, CHR 0x0D, CHR 0x0A, CHR 0x0B]"

definition symbols :: string where
  "symbols = ''<|>&;()''"

definition skip :: "ptr \<Rightarrow> ptr" where
  "skip s = dropWhile (\<lambda>c. c \<in> set whitespace) s"

text \<open>The token, the pointers \<^verbatim>\<open>q\<close> and \<^verbatim>\<open>eq\<close>, and the new value of \<^verbatim>\<open>*ps\<close>; the token 0 is the NUL.\<close>

definition gettoken :: "ptr \<Rightarrow> char \<times> ptr \<times> ptr \<times> ptr" where
  "gettoken ps =
     (let s = skip ps
      in case s of
           [] \<Rightarrow> (CHR 0x00, s, s, skip s)
         | c # t \<Rightarrow>
             if c \<in> set ''|();&<'' then (c, s, t, skip t)
             else if c = CHR ''>''
             then (if t \<noteq> [] \<and> hd t = CHR ''>'' then (CHR ''+'', s, tl t, skip (tl t)) else (c, s, t, skip t))
             else let e = dropWhile (\<lambda>c. c \<notin> set whitespace \<and> c \<notin> set symbols) s in (CHR ''a'', s, e, skip e))"

definition peek :: "ptr \<Rightarrow> string \<Rightarrow> bool \<times> ptr" where
  "peek ps toks = (let s = skip ps in (s \<noteq> [] \<and> hd s \<in> set toks, s))"

lemma skip_length: "length (skip s) \<le> length s"
  by (simp add: skip_def length_dropWhile_le)

lemma skip_skip [simp]: "skip (skip s) = skip s"
  by (simp add: skip_def)

lemma gettoken_sym: "skip s = c # t \<Longrightarrow> c \<in> set ''|();&<'' \<Longrightarrow> gettoken s = (c, c # t, t, skip t)"
  by (simp add: gettoken_def Let_def)

lemma gettoken_length:
  assumes "gettoken s = (tok, q, eq, s')"
  shows "length s' \<le> length s" "tok \<noteq> CHR 0x00 \<Longrightarrow> length s' < length s"
proof -
  have "length s' \<le> length s \<and> (tok \<noteq> CHR 0x00 \<longrightarrow> length s' < length s)"
  proof (cases "skip s")
    case Nil
    then have "gettoken s = (CHR 0x00, [], [], [])" by (simp add: gettoken_def Let_def) (simp add: skip_def)
    then show ?thesis using assms by simp
  next
    case (Cons c t)
    have t: "length t < length s" using skip_length [of s] Cons by simp
    have le: "length (skip t) < length s" "length (skip (tl t)) < length s"
      using t skip_length [of t] skip_length [of "tl t"] by auto
    let ?e = "dropWhile (\<lambda>c. c \<notin> set whitespace \<and> c \<notin> set symbols) (c # t)"
    have c: "c \<notin> set whitespace" using Cons hd_dropWhile [of "\<lambda>c. c \<in> set whitespace" s] by (auto simp: skip_def)
    have "length (skip ?e) < length s" if "c \<notin> set symbols"
    proof -
      have "length ?e \<le> length t" using c that by (simp add: length_dropWhile_le)
      then show ?thesis using t skip_length [of ?e] by linarith
    qed
    then show ?thesis using assms le Cons by (auto simp: gettoken_def Let_def symbols_def split: if_splits)
  qed
  then show "length s' \<le> length s" "tok \<noteq> CHR 0x00 \<Longrightarrow> length s' < length s" by auto
qed

section \<open>The parser\<close>

text \<open>
  The redirections, in a list with the innermost first: \<^verbatim>\<open>parseexec\<close> goes on adding arguments to the command
  inside the redirections it has already parsed.
\<close>

type_synonym redirs = "(word_ptrs \<times> nat \<times> nat) list"

definition redircmds :: "'w cmd \<Rightarrow> ('w \<times> nat \<times> nat) list \<Rightarrow> 'w cmd" where
  "redircmds cmd rs = foldl (\<lambda>c (w, m, f). REDIR c w m f) cmd rs"

definition redir_mode :: "char \<Rightarrow> nat \<times> nat" where
  "redir_mode tok =
     (if tok = CHR ''<'' then (O_RDONLY, 0)
      else if tok = CHR ''>'' then (O_WRONLY + O_CREATE + O_TRUNC, 1)
      else (O_WRONLY + O_CREATE, 1))"

function parseredirs :: "redirs \<Rightarrow> ptr \<Rightarrow> string + (redirs \<times> ptr)" where
  "parseredirs rs s =
     (let (b, s1) = peek s ''<>''
      in if b
         then let (tok, _, _, s2) = gettoken s1; (t, q, eq, s3) = gettoken s2
              in if t \<noteq> CHR ''a'' then Inl ''missing file for redirection''
                 else parseredirs (rs @ [((q, eq), redir_mode tok)]) s3
         else Inr (rs, s1))"
  by pat_completeness auto
termination
proof (relation "measure (\<lambda>(rs, s). length s)")
  fix rs :: redirs and s s1 s2 s3 q eq q' eq' :: ptr and tok t :: char and x b x1 y1 x2 y2 x3 y3
  assume "x = peek s ''<>''" "(b, s1) = x" "x1 = gettoken s1" "(tok, y1) = x1" "(q', y2) = y1" "(eq', s2) = y2"
    "x2 = gettoken s2" "(t, y3) = x2" "(q, x3) = y3" "(eq, s3) = x3" "\<not> t \<noteq> CHR ''a''"
  then have "gettoken s2 = (CHR ''a'', q, eq, s3)" "gettoken s1 = (tok, q', eq', s2)" "s1 = skip s" by (auto simp: peek_def Let_def)
  then have "length s3 < length s2" "length s2 \<le> length s1" "length s1 \<le> length s" using gettoken_length skip_length by auto
  then show "((rs @ [((q, eq), redir_mode tok)], s3), rs, s) \<in> measure (\<lambda>(rs, s). length s)" by simp
qed simp

declare parseredirs.simps [simp del]

lemma parseredirs_length: "parseredirs rs s = Inr (rs', s') \<Longrightarrow> length s' \<le> length s"
proof (induction rs s rule: parseredirs.induct)
  case (1 rs s)
  obtain b s1 where p: "peek s ''<>'' = (b, s1)" by fastforce
  obtain tok q0 eq0 s2 where g: "gettoken s1 = (tok, q0, eq0, s2)" by (metis prod_cases4)
  obtain t q eq s3 where g': "gettoken s2 = (t, q, eq, s3)" by (metis prod_cases4)
  have s1: "length s1 \<le> length s" using p skip_length [of s] by (auto simp: peek_def Let_def)
  show ?case
  proof (cases b)
    case True
    then have t: "t = CHR ''a''" "parseredirs (rs @ [((q, eq), redir_mode tok)]) s3 = Inr (rs', s')"
      using "1.prems" p g g' by (auto simp: parseredirs.simps [of rs] split: if_splits)
    have "length s' \<le> length s3" using "1.IH" [OF p [symmetric] refl True g [symmetric] refl refl refl g' [symmetric] refl refl refl] t by simp
    then show ?thesis using gettoken_length(1) [OF g] gettoken_length(1) [OF g'] s1 by linarith
  next
    case False
    then show ?thesis using "1.prems" p s1 by (simp add: parseredirs.simps [of rs])
  qed
qed

text \<open>The loop of \<^verbatim>\<open>parseexec\<close> over the arguments.\<close>

function parse_args :: "word_ptrs list \<Rightarrow> redirs \<Rightarrow> ptr \<Rightarrow> string + (word_ptrs list \<times> redirs \<times> ptr)" where
  "parse_args args rs s =
     (let (b, s1) = peek s ''|)&;''
      in if b then Inr (args, rs, s1)
         else let (tok, q, eq, s2) = gettoken s1
              in if tok = CHR 0x00 then Inr (args, rs, s2)
                 else if tok \<noteq> CHR ''a'' then Inl ''syntax''
                 else if length args + 1 \<ge> MAXARGS then Inl ''too many args''
                 else case parseredirs rs s2 of
                        Inl e \<Rightarrow> Inl e
                      | Inr (rs', s3) \<Rightarrow> parse_args (args @ [(q, eq)]) rs' s3)"
  by pat_completeness auto
termination
proof (relation "measure (\<lambda>(args, rs, s). length s)")
  fix args and rs rs' :: redirs and s s1 s2 s3 q eq :: ptr and tok :: char and x b x1 y1 y2 r r'
  assume "x = peek s ''|)&;''" "(b, s1) = x" "x1 = gettoken s1" "(tok, y1) = x1" "(q, y2) = y1" "(eq, s2) = y2" "tok \<noteq> CHR 0x00"
    "parseredirs rs s2 = Inr r" "(rs', s3) = r"
  then have "gettoken s1 = (tok, q, eq, s2)" "tok \<noteq> CHR 0x00" "s1 = skip s" "parseredirs rs s2 = Inr (rs', s3)" by (auto simp: peek_def Let_def)
  then have "length s2 < length s1" "length s3 \<le> length s2" "length s1 \<le> length s" using gettoken_length skip_length parseredirs_length by auto
  then show "((args @ [(q, eq)], rs', s3), args, rs, s) \<in> measure (\<lambda>(args, rs, s). length s)" by simp
qed simp

declare parse_args.simps [simp del]

definition parse_simple :: "ptr \<Rightarrow> string + (word_ptrs cmd \<times> ptr)" where
  "parse_simple s =
     (case parseredirs [] s of
        Inl e \<Rightarrow> Inl e
      | Inr (rs, s) \<Rightarrow>
          (case parse_args [] rs s of
             Inl e \<Rightarrow> Inl e
           | Inr (args, rs, s) \<Rightarrow> Inr (redircmds (EXEC args) rs, s)))"

text \<open>The loop of \<^verbatim>\<open>parseline\<close> over \<^verbatim>\<open>&\<close>.\<close>

function parse_back :: "word_ptrs cmd \<Rightarrow> ptr \<Rightarrow> word_ptrs cmd \<times> ptr" where
  "parse_back cmd s =
     (let (b, s1) = peek s ''&''
      in if b then let (_, _, _, s2) = gettoken s1 in parse_back (BACK cmd) s2 else (cmd, s1))"
  by pat_completeness auto
termination
proof (relation "measure (\<lambda>(cmd, s). length s)")
  fix cmd :: "word_ptrs cmd" and s s1 s2 q eq :: ptr and tok x b x1 y1 y2
  assume "x = peek s ''&''" "(b, s1) = x" b "x1 = gettoken s1" "(tok, y1) = x1" "(q, y2) = y1" "(eq, s2) = y2"
  then have g: "gettoken s1 = (tok, q, eq, s2)" "s1 = skip s" "s1 \<noteq> []" "hd s1 = CHR ''&''" by (auto simp: peek_def Let_def)
  then have "skip s1 = CHR ''&'' # tl s1" by (metis list.collapse skip_skip)
  then have "tok = CHR ''&''" using gettoken_sym [of s1] g(1) by simp
  then have "length s2 < length s1" "length s1 \<le> length s" using gettoken_length [OF g(1)] g(2) skip_length by auto
  then show "((BACK cmd, s2), cmd, s) \<in> measure (\<lambda>(cmd, s). length s)" by simp
qed simp

declare parse_back.simps [simp del]

text \<open>
  The mutually recursive part. The first argument bounds the depth of the recursion; \<open>None\<close> means that the bound was
  too small, and \<open>Inl\<close> is a call of \<^verbatim>\<open>panic\<close>.
\<close>

type_synonym parsed = "(string + (word_ptrs cmd \<times> ptr)) option"

fun pbind :: "parsed \<Rightarrow> (word_ptrs cmd \<Rightarrow> ptr \<Rightarrow> parsed) \<Rightarrow> parsed" where
  "pbind None f = None"
| "pbind (Some (Inl e)) f = Some (Inl e)"
| "pbind (Some (Inr (cmd, s))) f = f cmd s"

definition after_token :: "ptr \<Rightarrow> ptr" where
  "after_token s = (case gettoken s of (_, _, _, s') \<Rightarrow> s')"

fun parseline :: "nat \<Rightarrow> ptr \<Rightarrow> parsed"
  and parsepipe :: "nat \<Rightarrow> ptr \<Rightarrow> parsed"
  and parseexec :: "nat \<Rightarrow> ptr \<Rightarrow> parsed"
  and parseblock :: "nat \<Rightarrow> ptr \<Rightarrow> parsed" where
  "parseline 0 s = None"
| "parseline (Suc k) s =
     pbind (parsepipe k s) (\<lambda>cmd s.
       let (cmd, s) = parse_back cmd s; (b, s) = peek s '';''
       in if b then pbind (parseline k (after_token s)) (\<lambda>right s. Some (Inr (LIST cmd right, s)))
          else Some (Inr (cmd, s)))"
| "parsepipe 0 s = None"
| "parsepipe (Suc k) s =
     pbind (parseexec k s) (\<lambda>cmd s.
       let (b, s) = peek s ''|''
       in if b then pbind (parsepipe k (after_token s)) (\<lambda>right s. Some (Inr (PIPE cmd right, s)))
          else Some (Inr (cmd, s)))"
| "parseexec 0 s = None"
| "parseexec (Suc k) s = (let (b, s) = peek s ''('' in if b then parseblock k s else Some (parse_simple s))"
| "parseblock 0 s = None"
| "parseblock (Suc k) s =
     (let (b, s) = peek s ''(''
      in if \<not> b then Some (Inl ''parseblock'')
         else pbind (parseline k (after_token s)) (\<lambda>cmd s.
           let (b, s) = peek s '')''
           in if \<not> b then Some (Inl ''syntax - missing )'')
              else case parseredirs [] (after_token s) of
                     Inl e \<Rightarrow> Some (Inl e)
                   | Inr (rs, s) \<Rightarrow> Some (Inr (redircmds cmd rs, s))))"

text \<open>\<^verbatim>\<open>parsecmd\<close> up to the call of \<^verbatim>\<open>nulterminate\<close>; the bound is justified below.\<close>

definition parse_fuel :: "ptr \<Rightarrow> nat" where
  "parse_fuel s = 4 * length s + 4"

definition parsecmd :: "ptr \<Rightarrow> (string + word_ptrs cmd) option" where
  "parsecmd s =
     (case parseline (parse_fuel s) s of
        None \<Rightarrow> None
      | Some (Inl e) \<Rightarrow> Some (Inl e)
      | Some (Inr (cmd, s)) \<Rightarrow>
          (let (b, s) = peek s [] in if s \<noteq> [] then Some (Inl ''syntax'') else Some (Inr cmd)))"

section \<open>Words\<close>

definition plain :: "char \<Rightarrow> bool" where
  "plain c \<longleftrightarrow> c \<notin> set whitespace \<and> c \<notin> set symbols"

definition word_text :: "word_ptrs \<Rightarrow> string" where
  "word_text w = take (length (fst w) - length (snd w)) (fst w)"

text \<open>A word of the line \<open>s\<close>: some plain characters, up to the end or the next character that is not plain.\<close>

definition word_ok :: "string \<Rightarrow> word_ptrs \<Rightarrow> bool" where
  "word_ok s w \<longleftrightarrow>
     suffix (fst w) s \<and> word_text w \<noteq> [] \<and> fst w = word_text w @ snd w \<and> (\<forall>c\<in>set (word_text w). plain c) \<and>
     (snd w \<noteq> [] \<longrightarrow> \<not> plain (hd (snd w)))"

lemma word_ok_suffix: "word_ok s' w \<Longrightarrow> suffix s' s \<Longrightarrow> word_ok s w"
  by (auto simp: word_ok_def intro: suffix_order.order_trans)

lemma skip_suffix: "suffix (skip s) s"
  by (simp add: skip_def suffix_dropWhile)

lemma peek_suffix: "peek s toks = (b, s') \<Longrightarrow> suffix s' s"
  using skip_suffix by (auto simp: peek_def Let_def)

lemma gettoken_suffix:
  assumes "gettoken s = (tok, q, eq, s')"
  shows "suffix s' s"
proof (cases "skip s")
  case Nil
  then have "gettoken s = (CHR 0x00, [], [], [])" by (simp add: gettoken_def Let_def) (simp add: skip_def)
  then show ?thesis using assms by simp
next
  case (Cons c t)
  have s: "suffix (c # t) s" using skip_suffix [of s] Cons by simp
  then have t: "suffix t s" "suffix (tl t) s" by (auto dest: suffix_ConsD intro: suffix_tl suffix_order.order_trans)
  let ?e = "dropWhile (\<lambda>c. c \<notin> set whitespace \<and> c \<notin> set symbols) (c # t)"
  have "suffix ?e s" using suffix_dropWhile s suffix_order.order_trans by blast
  then have "suffix (skip ?e) s" "suffix (skip t) s" "suffix (skip (tl t)) s" using t skip_suffix suffix_order.order_trans by blast+
  then show ?thesis using assms Cons by (auto simp: gettoken_def Let_def split: if_splits)
qed

lemma gettoken_word:
  assumes "gettoken s = (CHR ''a'', q, eq, s')"
  shows "word_ok s (q, eq)"
proof (cases "skip s")
  case Nil
  then show ?thesis using assms by (simp add: gettoken_def Let_def)
next
  case (Cons c t)
  let ?P = "\<lambda>c. c \<notin> set whitespace \<and> c \<notin> set symbols"
  have c: "c \<notin> set whitespace" using Cons hd_dropWhile [of "\<lambda>c. c \<in> set whitespace" s] by (auto simp: skip_def)
  have x: "c \<notin> set ''|();&<''" "c \<noteq> CHR ''>''" "q = c # t" "eq = dropWhile ?P (c # t)"
    using assms Cons by (auto simp: gettoken_def Let_def split: if_splits)
  have sp: "q = takeWhile ?P q @ eq" using x by simp
  then have w: "word_text (q, eq) = takeWhile ?P q" by (metis add_diff_cancel_right' append_eq_conv_conj fst_conv length_append snd_conv word_text_def)
  have "?P c" using c x by (auto simp: symbols_def)
  then have "takeWhile ?P q \<noteq> []" using x(3) by simp
  moreover have "\<forall>c\<in>set (takeWhile ?P q). plain c" by (auto simp: plain_def dest: set_takeWhileD)
  moreover have "eq \<noteq> [] \<longrightarrow> \<not> plain (hd eq)" using x(3,4) hd_dropWhile [of ?P q] by (auto simp: plain_def)
  moreover have "suffix q s" using skip_suffix [of s] Cons x(3) by simp
  ultimately show ?thesis using sp w by (simp add: word_ok_def)
qed

definition words_ok :: "string \<Rightarrow> word_ptrs set \<Rightarrow> bool" where
  "words_ok s W \<longleftrightarrow> (\<forall>w\<in>W. word_ok s w)"

lemma words_ok_suffix: "words_ok s' W \<Longrightarrow> suffix s' s \<Longrightarrow> words_ok s W"
  by (auto simp: words_ok_def intro: word_ok_suffix)

lemma words_ok_Un [simp]: "words_ok s (V \<union> W) \<longleftrightarrow> words_ok s V \<and> words_ok s W" "words_ok s {}" "words_ok s (insert w W) \<longleftrightarrow> word_ok s w \<and> words_ok s W"
  by (auto simp: words_ok_def)

lemma redircmds_words: "set_cmd (redircmds cmd rs) = set_cmd cmd \<union> fst ` set rs"
  by (induction rs arbitrary: cmd) (auto simp: redircmds_def)

lemma parseredirs_words:
  "parseredirs rs s = Inr (rs', s') \<Longrightarrow> suffix s s0 \<Longrightarrow> words_ok s0 (fst ` set rs) \<Longrightarrow> suffix s' s0 \<and> words_ok s0 (fst ` set rs')"
proof (induction rs s rule: parseredirs.induct)
  case (1 rs s)
  obtain b s1 where p: "peek s ''<>'' = (b, s1)" by fastforce
  obtain tok q0 eq0 s2 where g: "gettoken s1 = (tok, q0, eq0, s2)" by (metis prod_cases4)
  obtain t q eq s3 where g': "gettoken s2 = (t, q, eq, s3)" by (metis prod_cases4)
  have s1: "suffix s1 s0" using peek_suffix [OF p] "1.prems"(2) by (rule suffix_order.order_trans)
  have s2: "suffix s2 s0" using gettoken_suffix [OF g] s1 by (rule suffix_order.order_trans)
  have s3: "suffix s3 s0" using gettoken_suffix [OF g'] s2 by (rule suffix_order.order_trans)
  show ?case
  proof (cases b)
    case True
    then have t: "t = CHR ''a''" "parseredirs (rs @ [((q, eq), redir_mode tok)]) s3 = Inr (rs', s')"
      using "1.prems" p g g' by (auto simp: parseredirs.simps [of rs] split: if_splits)
    have "word_ok s0 (q, eq)" by (rule word_ok_suffix [OF gettoken_word [OF g' [unfolded t(1)]] s2])
    then show ?thesis
      using "1.IH" [OF p [symmetric] refl True g [symmetric] refl refl refl g' [symmetric] refl refl refl] t s3 "1.prems"(3) by simp
  next
    case False
    then show ?thesis using "1.prems" p s1 by (simp add: parseredirs.simps [of rs])
  qed
qed

lemma parse_args_words:
  "parse_args args rs s = Inr (args', rs', s') \<Longrightarrow> suffix s s0 \<Longrightarrow> words_ok s0 (set args \<union> fst ` set rs) \<Longrightarrow>
    suffix s' s0 \<and> length s' \<le> length s \<and> words_ok s0 (set args' \<union> fst ` set rs')"
proof (induction args rs s rule: parse_args.induct)
  case (1 args rs s)
  obtain b s1 where p: "peek s ''|)&;'' = (b, s1)" by fastforce
  obtain tok q eq s2 where g: "gettoken s1 = (tok, q, eq, s2)" by (metis prod_cases4)
  have s1: "suffix s1 s0" "length s1 \<le> length s"
    using suffix_order.order_trans [OF peek_suffix [OF p] "1.prems"(2)] suffix_length_le [OF peek_suffix [OF p]] by simp_all
  have s2: "suffix s2 s0" "length s2 \<le> length s1" using suffix_order.order_trans [OF gettoken_suffix [OF g] s1(1)] gettoken_length(1) [OF g] by simp_all
  show ?case
  proof (cases "b \<or> tok = CHR 0x00")
    case True
    then show ?thesis using "1.prems" p g s1 s2 by (auto simp: parse_args.simps [of args] split: if_splits)
  next
    case False
    obtain rs1 s3 where r: "parseredirs rs s2 = Inr (rs1, s3)" and t: "tok = CHR ''a''" "\<not> MAXARGS \<le> length args + 1"
        "parse_args (args @ [(q, eq)]) rs1 s3 = Inr (args', rs', s')"
      using "1.prems"(1) False p g by (auto simp: parse_args.simps [of args] split: if_splits sum.splits)
    have w: "word_ok s0 (q, eq)" by (rule word_ok_suffix [OF gettoken_word [OF g [unfolded t(1)]] s1(1)])
    have s3: "suffix s3 s0 \<and> words_ok s0 (fst ` set rs1)" using parseredirs_words [OF r s2(1)] "1.prems"(3) by simp
    have "suffix s' s0 \<and> length s' \<le> length s3 \<and> words_ok s0 (set args' \<union> fst ` set rs')"
      using "1.IH" [OF p [symmetric] refl _ g [symmetric] refl refl refl _ _ _ r refl] False t s3 w "1.prems"(3) by simp
    then show ?thesis using parseredirs_length [OF r] s1(2) s2(2) by linarith
  qed
qed

lemma parse_back_words:
  "parse_back cmd s = (cmd', s') \<Longrightarrow> suffix s' s \<and> set_cmd cmd' = set_cmd cmd"
proof (induction cmd s rule: parse_back.induct)
  case (1 cmd s)
  obtain b s1 where p: "peek s ''&'' = (b, s1)" by fastforce
  obtain tok q eq s2 where g: "gettoken s1 = (tok, q, eq, s2)" by (metis prod_cases4)
  have s2: "suffix s2 s" using gettoken_suffix [OF g] peek_suffix [OF p] by (rule suffix_order.order_trans)
  show ?case
  proof (cases b)
    case True
    then have "parse_back (BACK cmd) s2 = (cmd', s')" using "1.prems" p g by (simp add: parse_back.simps [of cmd])
    then have "suffix s' s2 \<and> set_cmd cmd' = set_cmd cmd" using "1.IH" [OF p [symmetric] refl True g [symmetric] refl refl refl] by simp
    then show ?thesis using s2 suffix_order.order_trans by blast
  next
    case False
    then show ?thesis using "1.prems" p peek_suffix [OF p] by (simp add: parse_back.simps [of cmd])
  qed
qed

section \<open>The parser ends\<close>

text \<open>A result that is not \<open>None\<close>, and if it is a command, then its words are words of \<open>s0\<close> and the rest is a suffix of \<open>s\<close>.\<close>

fun good :: "string \<Rightarrow> ptr \<Rightarrow> parsed \<Rightarrow> bool" where
  "good s0 s None = False"
| "good s0 s (Some (Inl e)) = True"
| "good s0 s (Some (Inr (cmd, s'))) \<longleftrightarrow> suffix s' s0 \<and> length s' \<le> length s \<and> words_ok s0 (set_cmd cmd)"

lemma good_pbind:
  assumes "good s0 s m" "\<And>cmd s'. suffix s' s0 \<Longrightarrow> length s' \<le> length s \<Longrightarrow> words_ok s0 (set_cmd cmd) \<Longrightarrow> good s0 s (f cmd s')"
  shows "good s0 s (pbind m f)"
  using assms by (cases "(s0, s, m)" rule: good.cases) auto

lemma good_mono: "good s0 s r \<Longrightarrow> length s \<le> length s' \<Longrightarrow> good s0 s' r"
  by (cases "(s0, s, r)" rule: good.cases) auto

lemma peek_after:
  assumes "peek s toks = (True, s1)" "set toks \<subseteq> set ''|();&<''"
  shows "suffix (after_token s1) s1" "length (after_token s1) < length s1" "length s1 \<le> length s" "suffix s1 s"
proof -
  have s1: "s1 = skip s" "s1 \<noteq> []" "hd s1 \<in> set ''|();&<''" using assms by (auto simp: peek_def Let_def)
  then have "skip s1 = hd s1 # tl s1" by simp
  then have g: "gettoken s1 = (hd s1, hd s1 # tl s1, tl s1, skip (tl s1))" using gettoken_sym s1(3) by blast
  then show "suffix (after_token s1) s1" using gettoken_suffix [OF g] by (simp add: after_token_def)
  have "hd s1 \<noteq> CHR 0x00" using s1(3) by auto
  then show "length (after_token s1) < length s1" using gettoken_length(2) [OF g] g by (simp add: after_token_def)
  show "length s1 \<le> length s" "suffix s1 s" using s1(1) skip_length skip_suffix by auto
qed

lemma parse_simple_good: "suffix s s0 \<Longrightarrow> good s0 s (Some (parse_simple s))"
proof -
  assume s: "suffix s s0"
  show ?thesis
  proof (cases "parseredirs [] s")
    case (Inr r)
    obtain rs s1 where r: "r = (rs, s1)" by fastforce
    have w: "suffix s1 s0 \<and> words_ok s0 (fst ` set rs)" using parseredirs_words [of "[]" s rs s1 s0] Inr r s by simp
    show ?thesis
    proof (cases "parse_args [] rs s1")
      case (Inr x)
      obtain args rs' s2 where x: "x = (args, rs', s2)" by (metis prod_cases3)
      have "suffix s2 s0 \<and> length s2 \<le> length s1 \<and> words_ok s0 (set args \<union> fst ` set rs')"
        using parse_args_words [of "[]" rs s1 args rs' s2 s0] Inr x w by simp
      moreover have "length s1 \<le> length s" using parseredirs_length \<open>parseredirs [] s = Inr r\<close> r by blast
      ultimately show ?thesis using \<open>parseredirs [] s = Inr r\<close> r Inr x by (simp add: parse_simple_def redircmds_words)
    qed (use Inr r in \<open>simp add: parse_simple_def\<close>)
  qed (simp add: parse_simple_def)
qed

lemma one_tok: "set '';'' \<subseteq> set ''|();&<''" "set ''|'' \<subseteq> set ''|();&<''" "set ''('' \<subseteq> set ''|();&<''" "set '')'' \<subseteq> set ''|();&<''"
  by simp_all

lemma parse_good:
  "suffix s s0 \<Longrightarrow> 4 * length s + 4 \<le> k \<Longrightarrow> good s0 s (parseline k s)"
  "suffix s s0 \<Longrightarrow> 4 * length s + 3 \<le> k \<Longrightarrow> good s0 s (parsepipe k s)"
  "suffix s s0 \<Longrightarrow> 4 * length s + 2 \<le> k \<Longrightarrow> good s0 s (parseexec k s)"
  "suffix s s0 \<Longrightarrow> 4 * length s + 1 \<le> k \<Longrightarrow> good s0 s (parseblock k s)"
proof (induction k arbitrary: s)
  case (Suc k)
  { case 1
    have m: "good s0 s (parsepipe k s)" using Suc.IH(2) 1 by simp
    show ?case unfolding parseline.simps
    proof (rule good_pbind [OF m])
      fix cmd s' assume s': "suffix s' s0" "length s' \<le> length s" "words_ok s0 (set_cmd cmd)"
      obtain cmd1 s1 where b: "parse_back cmd s' = (cmd1, s1)" by fastforce
      obtain t s2 where p: "peek s1 '';'' = (t, s2)" by fastforce
      note w = parse_back_words [OF b]
      have s1: "suffix s1 s0" "length s1 \<le> length s" using w s' suffix_length_le suffix_order.order_trans by (blast, fastforce)
      have s2: "suffix s2 s0" "length s2 \<le> length s" using peek_suffix [OF p] s1 suffix_length_le suffix_order.order_trans by (blast, fastforce)
      show "good s0 s (let (cmd, s) = parse_back cmd s'; (b, s) = peek s '';''
          in if b then pbind (parseline k (after_token s)) (\<lambda>right s. Some (Inr (LIST cmd right, s))) else Some (Inr (cmd, s)))"
      proof (cases t)
        case True
        note a = peek_after [OF p [unfolded eqTrueI [OF True]] one_tok(1)]
        have "good s0 (after_token s2) (parseline k (after_token s2))"
          using Suc.IH(1) [of "after_token s2"] a(1,2) s2 1(2) suffix_order.order_trans by simp
        then have "good s0 s (parseline k (after_token s2))" using good_mono a(2) s2(2) by fastforce
        then have "good s0 s (pbind (parseline k (after_token s2)) (\<lambda>right s. Some (Inr (LIST cmd1 right, s))))"
          by (rule good_pbind) (use w s'(3) in auto)
        then show ?thesis using b p True by simp
      next
        case False
        then show ?thesis using b p s2 w s'(3) by simp
      qed
    qed
  next
    case 2
    have m: "good s0 s (parseexec k s)" using Suc.IH(3) 2 by simp
    show ?case unfolding parsepipe.simps
    proof (rule good_pbind [OF m])
      fix cmd s' assume s': "suffix s' s0" "length s' \<le> length s" "words_ok s0 (set_cmd cmd)"
      obtain t s2 where p: "peek s' ''|'' = (t, s2)" by fastforce
      have s2: "suffix s2 s0" "length s2 \<le> length s" using peek_suffix [OF p] s' suffix_length_le suffix_order.order_trans by (blast, fastforce)
      show "good s0 s (let (b, s) = peek s' ''|''
          in if b then pbind (parsepipe k (after_token s)) (\<lambda>right s. Some (Inr (PIPE cmd right, s))) else Some (Inr (cmd, s)))"
      proof (cases t)
        case True
        note a = peek_after [OF p [unfolded eqTrueI [OF True]] one_tok(2)]
        have "good s0 (after_token s2) (parsepipe k (after_token s2))"
          using Suc.IH(2) [of "after_token s2"] a(1,2) s2 2(2) suffix_order.order_trans by simp
        then have "good s0 s (parsepipe k (after_token s2))" using good_mono a(2) s2(2) by fastforce
        then have "good s0 s (pbind (parsepipe k (after_token s2)) (\<lambda>right s. Some (Inr (PIPE cmd right, s))))"
          by (rule good_pbind) (use s'(3) in auto)
        then show ?thesis using p True by simp
      next
        case False
        then show ?thesis using p s2 s'(3) by simp
      qed
    qed
  next
    case 3
    obtain t s2 where p: "peek s ''('' = (t, s2)" by fastforce
    have s2: "suffix s2 s0" "length s2 \<le> length s" using peek_suffix [OF p] 3(1) suffix_length_le suffix_order.order_trans by (blast, fastforce)
    have "good s0 s2 (if t then parseblock k s2 else Some (parse_simple s2))" using Suc.IH(4) [of s2] s2 3(2) parse_simple_good by simp
    then show ?case using p good_mono [OF _ s2(2)] by simp
  next
    case 4
    obtain t s2 where p: "peek s ''('' = (t, s2)" by fastforce
    show ?case
    proof (cases t)
      case True
      note a = peek_after [OF p [unfolded eqTrueI [OF True]] one_tok(3)]
      have s3: "suffix (after_token s2) s0" "length (after_token s2) < length s" using a 4(1) suffix_order.order_trans by (blast, linarith)
      then have "good s0 (after_token s2) (parseline k (after_token s2))" using Suc.IH(1) [of "after_token s2"] 4(2) by simp
      then have m: "good s0 s (parseline k (after_token s2))" using good_mono s3(2) by fastforce
      show ?thesis unfolding parseblock.simps p Let_def prod.case using True
      proof (simp, intro good_pbind [OF m])
        fix cmd s' assume s': "suffix s' s0" "length s' \<le> length s" "words_ok s0 (set_cmd cmd)"
        obtain u s4 where p': "peek s' '')'' = (u, s4)" by fastforce
        show "good s0 s (case peek s' '')'' of (b, s) \<Rightarrow> if \<not> b then Some (Inl ''syntax - missing )'')
            else case parseredirs [] (after_token s) of Inl e \<Rightarrow> Some (Inl e) | Inr (rs, s) \<Rightarrow> Some (Inr (redircmds cmd rs, s)))"
        proof (cases u)
          case True
          note a' = peek_after [OF p' [unfolded eqTrueI [OF True]] one_tok(4)]
          have s5: "suffix (after_token s4) s0" "length (after_token s4) \<le> length s" using a' s'(1,2) suffix_order.order_trans by (blast, linarith)
          show ?thesis
          proof (cases "parseredirs [] (after_token s4)")
            case (Inr x)
            obtain rs s6 where x: "x = (rs, s6)" by fastforce
            have "suffix s6 s0 \<and> words_ok s0 (fst ` set rs)" using parseredirs_words [of "[]" "after_token s4" rs s6 s0] Inr x s5(1) by simp
            moreover have "length s6 \<le> length s" using parseredirs_length [of "[]" "after_token s4" rs s6] Inr x s5(2) by simp
            ultimately show ?thesis using p' True Inr x s'(3) by (simp add: redircmds_words)
          qed (use p' True in simp)
        qed (use p' in simp)
      qed
    qed (use p in simp)
  }
qed simp_all

section \<open>Ending the words\<close>

text \<open>\<^verbatim>\<open>nulterminate\<close> writes a NUL at the end of every word, into the buffer that holds the line and its NUL.\<close>

definition offset :: "string \<Rightarrow> ptr \<Rightarrow> nat" where
  "offset line p = length line - length p"

fun nulterminate :: "string \<Rightarrow> word_ptrs cmd \<Rightarrow> char list \<Rightarrow> char list" where
  "nulterminate line (EXEC args) buf = fold (\<lambda>w buf. buf[offset line (snd w) := CHR 0x00]) args buf"
| "nulterminate line (REDIR cmd w m f) buf = (nulterminate line cmd buf)[offset line (snd w) := CHR 0x00]"
| "nulterminate line (PIPE left right) buf = nulterminate line right (nulterminate line left buf)"
| "nulterminate line (LIST left right) buf = nulterminate line right (nulterminate line left buf)"
| "nulterminate line (BACK cmd) buf = nulterminate line cmd buf"

lemma fold_nul:
  "length (fold (\<lambda>w buf. buf[offset line (snd w) := CHR 0x00]) ws buf) = length buf"
  "i < length buf \<Longrightarrow> fold (\<lambda>w buf. buf[offset line (snd w) := CHR 0x00]) ws buf ! i =
    (if i \<in> (\<lambda>w. offset line (snd w)) ` set ws then CHR 0x00 else buf ! i)"
  by (induction ws arbitrary: buf) (auto simp: nth_list_update)

lemma nulterminate_spec:
  "length (nulterminate line cmd buf) = length buf \<and>
   (\<forall>i<length buf. nulterminate line cmd buf ! i = (if i \<in> (\<lambda>w. offset line (snd w)) ` set_cmd cmd then CHR 0x00 else buf ! i))"
proof (induction cmd arbitrary: buf)
  case (EXEC args)
  then show ?case using fold_nul(1) [of line args buf] fold_nul(2) [of _ buf line args] by simp
next
  case (PIPE c d)
  show ?case using PIPE.IH(1) [of buf] PIPE.IH(2) [of "nulterminate line c buf"] by auto
next
  case (LIST c d)
  show ?case using LIST.IH(1) [of buf] LIST.IH(2) [of "nulterminate line c buf"] by auto
next
  case (REDIR c w m f)
  let ?b = "nulterminate line c buf"
  have "length ?b = length buf" "\<forall>i<length buf. ?b ! i = (if i \<in> (\<lambda>w. offset line (snd w)) ` set_cmd c then CHR 0x00 else buf ! i)"
    using REDIR.IH [of buf] by blast+
  then have "?b[offset line (snd w) := CHR 0x00] ! i = (if i \<in> (\<lambda>w. offset line (snd w)) ` insert w (set_cmd c) then CHR 0x00 else buf ! i)"
    if "i < length buf" for i using that by (cases "i = offset line (snd w)") simp_all
  then show ?case using REDIR.IH [of buf] by (simp add: insert_commute)
qed simp

lemma parsecmd_words:
  assumes "parsecmd s = Some (Inr cmd)"
  shows "words_ok s (set_cmd cmd)"
proof -
  have g: "good s s (parseline (parse_fuel s) s)" by (rule parse_good(1)) (simp_all add: parse_fuel_def)
  obtain s' where "parseline (parse_fuel s) s = Some (Inr (cmd, s'))"
    using assms by (auto simp: parsecmd_def split: option.splits sum.splits if_splits prod.splits)
  then show ?thesis using g by simp
qed

text \<open>
  C38. The parser ends on every command line: the recursion is never deeper than the bound, so that \<^verbatim>\<open>parsecmd\<close> either reports
  a syntax error or returns a command, all of whose words are non-empty sequences of plain characters of the line that extend to the next
  white space, symbol or the end of the line.
\<close>

theorem parsecmd_total:
  "\<exists>r. parsecmd s = Some r \<and> (case r of Inl msg \<Rightarrow> True | Inr cmd \<Rightarrow> \<forall>w\<in>set_cmd cmd. word_ok s w)"
proof -
  have g: "good s s (parseline (parse_fuel s) s)" by (rule parse_good(1)) (simp_all add: parse_fuel_def)
  then have "parsecmd s \<noteq> None"
    by (cases "(s, s, parseline (parse_fuel s) s)" rule: good.cases) (auto simp: parsecmd_def split: prod.splits)
  then obtain r where r: "parsecmd s = Some r" by blast
  then show ?thesis using parsecmd_words by (auto simp: words_ok_def split: sum.splits)
qed

theorem parsecmd_total_witness:
  "parsecmd ''ls|wc &'' = Some (Inr (BACK (PIPE (EXEC [(''ls|wc &'', ''|wc &'')]) (EXEC [(''wc &'', '' &'')])))) \<and>
   word_ok ''ls|wc &'' (''wc &'', '' &'')"
proof -
  have e: "parsecmd ''ls|wc &'' = Some (Inr (BACK (PIPE (EXEC [(''ls|wc &'', ''|wc &'')]) (EXEC [(''wc &'', '' &'')]))))" by code_simp
  then show ?thesis using parsecmd_total [of "''ls|wc &''"] by simp
qed

text \<open>
  After \<^verbatim>\<open>nulterminate\<close> every argument and every file name of a parsed command is a C string in the buffer of the line: the
  characters from its first pointer to the next NUL are exactly the word.
\<close>

theorem nulterminate_correct:
  assumes "parsecmd s = Some (Inr cmd)" "CHR 0x00 \<notin> set s" "w \<in> set_cmd cmd"
  shows "takeWhile (\<lambda>c. c \<noteq> CHR 0x00) (drop (offset s (fst w)) (nulterminate s cmd (s @ [CHR 0x00]))) = word_text w"
proof -
  let ?b = "nulterminate s cmd (s @ [CHR 0x00])" and ?E = "(\<lambda>w. offset s (snd w)) ` set_cmd cmd"
  have ok: "word_ok s v" if "v \<in> set_cmd cmd" for v using parsecmd_words [OF assms(1)] that by (simp add: words_ok_def)
  have b: "length ?b = length s + 1" "\<And>i. i < length s + 1 \<Longrightarrow> ?b ! i = (if i \<in> ?E then CHR 0x00 else (s @ [CHR 0x00]) ! i)"
    using nulterminate_spec [of s cmd "s @ [CHR 0x00]"] by auto
  obtain pre where s: "s = pre @ word_text w @ snd w" using ok [OF assms(3)] by (auto simp: word_ok_def suffix_def)
  let ?t = "word_text w" and ?a = "length pre"
  have w: "\<forall>c\<in>set ?t. plain c" "fst w = ?t @ snd w" using ok [OF assms(3)] by (auto simp: word_ok_def)
  have a: "offset s (fst w) = ?a" unfolding offset_def w(2) using s by simp
  have stop: "\<not> plain (s ! e) \<or> e = length s" if e: "e \<in> ?E" for e
  proof -
    obtain v where v: "v \<in> set_cmd cmd" "e = offset s (snd v)" using e by blast
    then obtain p where "s = p @ word_text v @ snd v" and np: "snd v \<noteq> [] \<longrightarrow> \<not> plain (hd (snd v))"
      using ok [OF v(1)] by (auto simp: word_ok_def suffix_def)
    then have "s = (p @ word_text v) @ snd v" "e = length (p @ word_text v)" using v(2) by (auto simp: offset_def)
    then show ?thesis using np by (metis append_Nil2 hd_conv_nth nth_append_length_plus Nat.add_0_right length_greater_0_conv)
  qed
  have inside: "?b ! (?a + j) = ?t ! j" if j: "j < length ?t" for j
  proof -
    have sj: "s ! (?a + j) = ?t ! j" "?a + j < length s" using s j by (auto simp: nth_append)
    then have "?a + j \<notin> ?E" using stop [of "?a + j"] w(1) j by auto
    then show ?thesis using b(2) [of "?a + j"] sj by (simp add: nth_append)
  qed
  have "?a + length ?t \<in> ?E"
  proof -
    have "offset s (snd w) = ?a + length ?t" using s by (simp add: offset_def)
    then show ?thesis using assms(3) by (metis imageI)
  qed
  moreover have len: "?a + length ?t < length s + 1" using s by simp
  ultimately have fin: "?b ! (?a + length ?t) = CHR 0x00" using b(2) by simp
  have "drop ?a ?b = ?t @ CHR 0x00 # drop (?a + length ?t + 1) ?b"
  proof (rule nth_equalityI)
    show "length (drop ?a ?b) = length (?t @ CHR 0x00 # drop (?a + length ?t + 1) ?b)" using b(1) len by simp
    fix i assume "i < length (drop ?a ?b)"
    then show "drop ?a ?b ! i = (?t @ CHR 0x00 # drop (?a + length ?t + 1) ?b) ! i"
      using inside fin b(1) len by (auto simp: nth_append nth_Cons not_less split: nat.splits) (metis add.assoc add_Suc_right le_add_diff_inverse)
  qed
  moreover have "CHR 0x00 \<notin> set ?t"
  proof -
    have "set s = set pre \<union> set ?t \<union> set (snd w)" using arg_cong [OF s, of set] by auto
    then show ?thesis using assms(2) by auto
  qed
  ultimately have d: "takeWhile (\<lambda>c. c \<noteq> CHR 0x00) (drop ?a ?b) = takeWhile (\<lambda>c. c \<noteq> CHR 0x00) (?t @ CHR 0x00 # drop (?a + length ?t + 1) ?b)"
    and n: "\<And>c. c \<in> set ?t \<Longrightarrow> c \<noteq> CHR 0x00" by auto
  show ?thesis unfolding a d by (subst takeWhile_append2) (use n in auto)
qed

theorem nulterminate_correct_witness:
  "takeWhile (\<lambda>c. c \<noteq> CHR 0x00) (drop 3 (nulterminate ''ls|wc &'' (BACK (PIPE (EXEC [(''ls|wc &'', ''|wc &'')]) (EXEC [(''wc &'', '' &'')])))
     (''ls|wc &'' @ [CHR 0x00]))) = ''wc''"
proof -
  have "parsecmd ''ls|wc &'' = Some (Inr (BACK (PIPE (EXEC [(''ls|wc &'', ''|wc &'')]) (EXEC [(''wc &'', '' &'')]))))" by code_simp
  from nulterminate_correct [OF this, of "(''wc &'', '' &'')"] show ?thesis by (simp add: offset_def word_text_def)
qed

section \<open>Printing and parsing\<close>

text \<open>A larger bound does not change a result.\<close>

definition below :: "parsed \<Rightarrow> parsed \<Rightarrow> bool" where
  "below m m' \<longleftrightarrow> m = None \<or> m = m'"

lemma below_pbind: "below m m' \<Longrightarrow> (\<And>cmd s. below (f cmd s) (g cmd s)) \<Longrightarrow> below (pbind m f) (pbind m' g)"
  by (cases "(m, f)" rule: pbind.cases) (simp_all add: below_def, metis pbind.simps(2), metis pbind.simps(3))

lemma below_if: "below x x' \<Longrightarrow> below y y' \<Longrightarrow> below (if b then x else y) (if b then x' else y')"
  by simp

lemma belowD: "below m m' \<Longrightarrow> m = Some r \<Longrightarrow> m' = Some r"
  by (auto simp: below_def)

lemma below_refl [simp]: "below m m"
  by (simp add: below_def)

lemma parse_Suc:
  "below (parseline k s) (parseline (Suc k) s) \<and> below (parsepipe k s) (parsepipe (Suc k) s) \<and>
   below (parseexec k s) (parseexec (Suc k) s) \<and> below (parseblock k s) (parseblock (Suc k) s)"
proof (induction k arbitrary: s)
  case 0
  then show ?case by (simp add: below_def)
next
  case (Suc k)
  note ih = Suc [THEN conjunct1] Suc [THEN conjunct2, THEN conjunct1] Suc [THEN conjunct2, THEN conjunct2, THEN conjunct1]
    Suc [THEN conjunct2, THEN conjunct2, THEN conjunct2]
  have "below (parseline (Suc k) s) (parseline (Suc (Suc k)) s)"
    unfolding parseline.simps(2) [of "Suc k" s] parseline.simps(2) [of k s] Let_def case_prod_unfold
    by (intro below_pbind below_if ih below_refl)
  moreover have "below (parsepipe (Suc k) s) (parsepipe (Suc (Suc k)) s)"
    unfolding parsepipe.simps(2) [of "Suc k" s] parsepipe.simps(2) [of k s] Let_def case_prod_unfold
    by (intro below_pbind below_if ih below_refl)
  moreover have "below (parseexec (Suc k) s) (parseexec (Suc (Suc k)) s)"
    unfolding parseexec.simps(2) [of "Suc k" s] parseexec.simps(2) [of k s] Let_def case_prod_unfold
    by (intro below_if ih below_refl)
  moreover have "below (parseblock (Suc k) s) (parseblock (Suc (Suc k)) s)"
    unfolding parseblock.simps(2) [of "Suc k" s] parseblock.simps(2) [of k s] Let_def case_prod_unfold
    by (intro below_pbind below_if ih below_refl)
  ultimately show ?case by blast
qed

lemma parse_mono:
  assumes "k \<le> k'"
  shows "parseline k s = Some r \<Longrightarrow> parseline k' s = Some r" "parsepipe k s = Some r \<Longrightarrow> parsepipe k' s = Some r"
    "parseexec k s = Some r \<Longrightarrow> parseexec k' s = Some r" "parseblock k s = Some r \<Longrightarrow> parseblock k' s = Some r"
proof -
  have "(parseline k s = Some r \<longrightarrow> parseline k' s = Some r) \<and> (parsepipe k s = Some r \<longrightarrow> parsepipe k' s = Some r) \<and>
      (parseexec k s = Some r \<longrightarrow> parseexec k' s = Some r) \<and> (parseblock k s = Some r \<longrightarrow> parseblock k' s = Some r)"
    using assms
  proof (induction rule: dec_induct)
    case (step n)
    then show ?case using parse_Suc [of n s] by (blast intro: belowD)
  qed simp
  then show "parseline k s = Some r \<Longrightarrow> parseline k' s = Some r" "parsepipe k s = Some r \<Longrightarrow> parsepipe k' s = Some r"
    "parseexec k s = Some r \<Longrightarrow> parseexec k' s = Some r" "parseblock k s = Some r \<Longrightarrow> parseblock k' s = Some r" by blast+
qed

text \<open>
  A printer of commands. The level says where the text stands: 0 where \<^verbatim>\<open>parseexec\<close> reads it, 1 where \<^verbatim>\<open>parsepipe\<close>
  does, 2 before \<^verbatim>\<open>&\<close> and 3 where \<^verbatim>\<open>parseline\<close> reads it; a command of a higher level is put into parentheses.
\<close>

fun pr_words :: "string list \<Rightarrow> string" where
  "pr_words [] = []"
| "pr_words (w # ws) = w @ CHR '' '' # pr_words ws"

definition redir_sym :: "nat \<Rightarrow> nat \<Rightarrow> string" where
  "redir_sym m f = (if f = 0 then ''<'' else if m = O_WRONLY + O_CREATE + O_TRUNC then ''>'' else ''>>'')"

definition pr_redir :: "string \<times> nat \<times> nat \<Rightarrow> string" where
  "pr_redir r = (case r of (w, m, f) \<Rightarrow> redir_sym m f @ w @ '' '')"

definition paren :: "bool \<Rightarrow> string \<Rightarrow> string" where
  "paren b s = (if b then ''('' @ s @ '')'' else s)"

fun pr :: "nat \<Rightarrow> string cmd \<Rightarrow> string" where
  "pr l (EXEC ws) = pr_words ws"
| "pr l (REDIR c w m f) = pr 0 c @ pr_redir (w, m, f)"
| "pr l (PIPE a b) = paren (l < 1) (pr 0 a @ ''|'' @ pr 1 b)"
| "pr l (BACK c) = paren (l < 2) (pr 2 c @ ''&'')"
| "pr l (LIST a b) = paren (l < 3) (pr 2 a @ '';'' @ pr 3 b)"

definition valid_word :: "string \<Rightarrow> bool" where
  "valid_word w \<longleftrightarrow> w \<noteq> [] \<and> (\<forall>c\<in>set w. plain c)"

definition valid_redir :: "string \<times> nat \<times> nat \<Rightarrow> bool" where
  "valid_redir r \<longleftrightarrow> valid_word (fst r) \<and> snd r \<in> {(O_RDONLY, 0), (O_WRONLY + O_CREATE + O_TRUNC, 1), (O_WRONLY + O_CREATE, 1)}"

fun valid :: "string cmd \<Rightarrow> bool" where
  "valid (EXEC ws) \<longleftrightarrow> length ws < MAXARGS \<and> (\<forall>w\<in>set ws. valid_word w)"
| "valid (REDIR c w m f) \<longleftrightarrow> valid c \<and> valid_redir (w, m, f)"
| "valid (PIPE a b) \<longleftrightarrow> valid a \<and> valid b"
| "valid (BACK c) \<longleftrightarrow> valid c"
| "valid (LIST a b) \<longleftrightarrow> valid a \<and> valid b"

text \<open>What may follow: after white space, the end or one of the given characters.\<close>

definition followed :: "string \<Rightarrow> string \<Rightarrow> bool" where
  "followed cs rest \<longleftrightarrow> skip rest = [] \<or> hd (skip rest) \<in> set cs"

lemma skip_symbol: "c \<in> set symbols \<Longrightarrow> skip (c # t) = c # t"
  by (auto simp: skip_def symbols_def whitespace_def)

lemma skip_space [simp]: "skip (CHR '' '' # t) = skip t"
  by (simp add: skip_def whitespace_def)

lemma skip_word: "valid_word w \<Longrightarrow> skip (w @ t) = w @ t"
  by (cases w) (auto simp: valid_word_def skip_def plain_def)

lemma followed_sym: "c \<in> set symbols \<Longrightarrow> c \<in> set cs \<Longrightarrow> followed cs (c # t)"
  by (simp add: followed_def skip_symbol)

lemma followed_skip [simp]: "followed cs (skip rest) = followed cs rest"
  by (simp add: followed_def)

lemma peek_followed: "followed cs rest \<Longrightarrow> set cs \<inter> set toks = {} \<Longrightarrow> peek rest toks = (False, skip rest)"
  by (auto simp: followed_def peek_def Let_def)

lemma peek_symbol: "c \<in> set symbols \<Longrightarrow> peek (c # t) toks = (c \<in> set toks, c # t)"
  by (simp add: peek_def skip_symbol Let_def)

lemma after_symbol: "c \<in> set ''|();&<'' \<Longrightarrow> after_token (c # t) = skip t"
proof -
  assume c: "c \<in> set ''|();&<''"
  then have "skip (c # t) = c # t" by (intro skip_symbol) (auto simp: symbols_def)
  then show ?thesis using gettoken_sym [OF _ c, of "c # t" t] by (simp add: after_token_def)
qed

lemma gettoken_print:
  assumes "valid_word w"
  shows "gettoken (w @ CHR '' '' # t) = (CHR ''a'', w @ CHR '' '' # t, CHR '' '' # t, skip t)"
proof -
  let ?P = "\<lambda>c. c \<notin> set whitespace \<and> c \<notin> set symbols"
  obtain c w' where w: "w = c # w'" using assms by (cases w) (auto simp: valid_word_def)
  have c: "c \<notin> set ''|();&<''" "c \<noteq> CHR ''>''" using assms w by (auto simp: valid_word_def plain_def symbols_def)
  have "\<And>x. x \<in> set w \<Longrightarrow> ?P x" using assms by (auto simp: valid_word_def plain_def)
  then have "dropWhile ?P (w @ CHR '' '' # t) = dropWhile ?P (CHR '' '' # t)" by (rule dropWhile_append2)
  then have "dropWhile ?P (w @ CHR '' '' # t) = CHR '' '' # t" by (simp add: whitespace_def)
  then show ?thesis using skip_word [OF assms, of "CHR '' '' # t"] w c by (simp add: gettoken_def Let_def)
qed

lemma word_text_print: "word_text (w @ t, t) = w"
  by (simp add: word_text_def)

lemma parse_skip: "parseredirs rs (skip s) = parseredirs rs s" "parse_args args rs (skip s) = parse_args args rs s"
  "parse_back cmd (skip s) = parse_back cmd s"
  by (simp_all add: parseredirs.simps [of rs] parse_args.simps [of args] parse_back.simps [of cmd] peek_def)

abbreviation (input) pr_redirs :: "(string \<times> nat \<times> nat) list \<Rightarrow> string" where
  "pr_redirs rs \<equiv> concat (map pr_redir rs)"

abbreviation (input) redir_texts :: "redirs \<Rightarrow> (string \<times> nat \<times> nat) list" where
  "redir_texts rs \<equiv> map (\<lambda>(w, x). (word_text w, x)) rs"

lemma peek_word: "valid_word w \<Longrightarrow> set toks \<subseteq> set symbols \<Longrightarrow> peek (w @ t) toks = (False, w @ t)"
  using skip_word [of w t] by (cases w) (auto simp: peek_def Let_def valid_word_def plain_def)

lemma peek_skip: "peek (skip s) toks = peek s toks"
  by (simp add: peek_def)

lemma gettoken_redir:
  assumes "valid_redir (w, x)"
  obtains tok q eq where "gettoken (redir_sym (fst x) (snd x) @ w @ CHR '' '' # u) = (tok, q, eq, w @ CHR '' '' # u)" "redir_mode tok = x"
proof -
  have w: "skip (w @ CHR '' '' # u) = w @ CHR '' '' # u" using assms skip_word by (simp add: valid_redir_def)
  have hd: "hd (w @ CHR '' '' # u) \<noteq> CHR ''>''" using assms by (cases w) (auto simp: valid_redir_def valid_word_def plain_def symbols_def)
  have sk: "skip (c # t) = c # t" if "c = CHR ''<'' \<or> c = CHR ''>''" for c t using that by (intro skip_symbol) (auto simp: symbols_def)
  consider "x = (O_RDONLY, 0)" | "x = (O_WRONLY + O_CREATE + O_TRUNC, 1)" | "x = (O_WRONLY + O_CREATE, 1)" using assms by (auto simp: valid_redir_def)
  then show ?thesis
  proof cases
    case 1
    then show ?thesis using that [of "CHR ''<''"] w sk by (simp add: gettoken_def redir_sym_def redir_mode_def Let_def)
  next
    case 2
    then show ?thesis using that [of "CHR ''>''"] w sk hd by (simp add: gettoken_def redir_sym_def redir_mode_def Let_def)
  next
    case 3
    then show ?thesis using that [of "CHR ''+''"] w sk by (simp add: gettoken_def redir_sym_def redir_mode_def Let_def)
  qed
qed

lemma peek_redir: "peek (redir_sym m f @ t) ''<>'' = (True, redir_sym m f @ t)" "peek (redir_sym m f @ t) ''('' = (False, redir_sym m f @ t)"
  by (simp_all add: redir_sym_def peek_symbol symbols_def)

lemma parseredirs_print:
  assumes "\<forall>r\<in>set rs. valid_redir r"
  shows "\<exists>rs'. redir_texts rs' = rs \<and> parseredirs rs0 (pr_redirs rs @ t) = parseredirs (rs0 @ rs') t"
  using assms
proof (induction rs arbitrary: rs0)
  case (Cons r rs)
  obtain w m f where r: "r = (w, m, f)" by (metis prod_cases3)
  let ?u = "pr_redirs rs @ t"
  have w: "valid_word w" "valid_redir (w, m, f)" using Cons.prems r by (auto simp: valid_redir_def)
  obtain tok q eq where g: "gettoken (redir_sym m f @ w @ CHR '' '' # ?u) = (tok, q, eq, w @ CHR '' '' # ?u)" "redir_mode tok = (m, f)"
    using gettoken_redir [OF w(2), of ?u] by auto
  let ?p = "((w @ CHR '' '' # ?u, CHR '' '' # ?u), m, f)"
  have "parseredirs rs0 (pr_redirs (r # rs) @ t) = parseredirs (rs0 @ [?p]) ?u"
    using g gettoken_print [OF w(1), of ?u] peek_redir(1) [of m f "w @ CHR '' '' # ?u"]
    by (subst parseredirs.simps) (simp add: r pr_redir_def parse_skip)
  moreover obtain rs' where "redir_texts rs' = rs" "parseredirs (rs0 @ [?p]) ?u = parseredirs ((rs0 @ [?p]) @ rs') t"
    using Cons.IH Cons.prems by (metis list.set_intros(2))
  ultimately show ?case by (intro exI [of _ "?p # rs'"]) (simp add: r word_text_print)
qed simp

lemma parseredirs_stop: "followed cs rest \<Longrightarrow> set cs \<inter> set ''<>'' = {} \<Longrightarrow> parseredirs rs rest = Inr (rs, skip rest)"
  using peek_followed [of cs rest "''<>''"] by (subst parseredirs.simps) simp

lemma parseredirs_word: "valid_word w \<Longrightarrow> parseredirs rs (w @ t) = Inr (rs, w @ t)"
  using peek_word [of w "''<>''" t] by (subst parseredirs.simps) (simp add: symbols_def)

lemma parse_args_stop: "followed ''|)&;'' rest \<Longrightarrow> parse_args args rs rest = Inr (args, rs, skip rest)"
proof (cases "skip rest")
  case Nil
  then have "peek rest ''|)&;'' = (False, [])" "gettoken [] = (CHR 0x00, [], [], [])"
    by (simp_all add: peek_def gettoken_def Let_def skip_def)
  then show ?thesis using Nil by (subst parse_args.simps) simp
next
  case (Cons c t)
  assume "followed ''|)&;'' rest"
  then have "peek rest ''|)&;'' = (True, skip rest)" using Cons by (simp add: followed_def peek_def Let_def)
  then show ?thesis by (subst parse_args.simps) simp
qed

lemma parse_args_print:
  assumes "\<forall>w\<in>set ws. valid_word w" "length args + length ws < MAXARGS" "\<forall>r\<in>set rs. valid_redir r" "followed ''|)&;'' rest" "ws \<noteq> []"
  shows "\<exists>args' rs'. parse_args args rs0 (pr_words ws @ pr_redirs rs @ rest) = Inr (args @ args', rs0 @ rs', skip rest) \<and>
    map word_text args' = ws \<and> redir_texts rs' = rs"
  using assms
proof (induction ws arbitrary: args)
  case (Cons w ws)
  let ?u = "pr_words ws @ pr_redirs rs @ rest"
  let ?p = "(w @ CHR '' '' # ?u, CHR '' '' # ?u)"
  have w: "valid_word w" using Cons.prems by simp
  have p: "peek (w @ CHR '' '' # ?u) ''|)&;'' = (False, w @ CHR '' '' # ?u)" by (rule peek_word [OF w]) (simp add: symbols_def)
  have step: "parse_args args rs0 (pr_words (w # ws) @ pr_redirs rs @ rest) =
      (case parseredirs rs0 ?u of Inl e \<Rightarrow> Inl e | Inr (rs', s3) \<Rightarrow> parse_args (args @ [?p]) rs' s3)"
    using p gettoken_print [OF w, of ?u] Cons.prems(2) by (subst parse_args.simps) (simp add: parse_skip)
  show ?case
  proof (cases ws)
    case Nil
    obtain rs' where rs': "redir_texts rs' = rs" "parseredirs rs0 ?u = Inr (rs0 @ rs', skip rest)"
      using parseredirs_print [OF Cons.prems(3), of rs0 rest] parseredirs_stop [OF Cons.prems(4)] Nil by auto
    then have "parse_args args rs0 (pr_words (w # ws) @ pr_redirs rs @ rest) = Inr (args @ [?p], rs0 @ rs', skip rest)"
      unfolding step using parse_args_stop [OF Cons.prems(4)] by (simp add: parse_skip)
    then show ?thesis using rs' Nil by (intro exI [of _ "[?p]"] exI [of _ rs']) (simp add: word_text_print)
  next
    case (Cons v vs)
    have "parseredirs rs0 ?u = Inr (rs0, ?u)" using parseredirs_word [of v] Cons.prems(1) local.Cons by simp
    moreover obtain args' rs' where "parse_args (args @ [?p]) rs0 ?u = Inr ((args @ [?p]) @ args', rs0 @ rs', skip rest)" "map word_text args' = ws"
        "redir_texts rs' = rs"
      using Cons.IH [of "args @ [?p]"] Cons.prems local.Cons by auto
    ultimately show ?thesis unfolding step by (intro exI [of _ "?p # args'"] exI [of _ rs']) (simp add: word_text_print)
  qed
qed simp

lemma redircmds_texts: "map_cmd word_text (redircmds cmd rs) = redircmds (map_cmd word_text cmd) (redir_texts rs)"
  by (induction rs arbitrary: cmd) (auto simp: redircmds_def split: prod.splits)

lemma parse_simple_print:
  assumes "valid (EXEC ws)" "\<forall>r\<in>set rs. valid_redir r" "followed ''|)&;'' rest"
  shows "\<exists>cmd. parse_simple (pr_words ws @ pr_redirs rs @ rest) = Inr (cmd, skip rest) \<and> map_cmd word_text cmd = redircmds (EXEC ws) rs"
proof (cases ws)
  case Nil
  obtain rs' where "redir_texts rs' = rs" "parseredirs [] (pr_redirs rs @ rest) = Inr (rs', skip rest)"
    using parseredirs_print [OF assms(2), of "[]" rest] parseredirs_stop [OF assms(3)] by auto
  then show ?thesis using Nil parse_args_stop [OF assms(3)] by (intro exI [of _ "redircmds (EXEC []) rs'"]) (simp add: parse_simple_def parse_skip redircmds_texts)
next
  case (Cons v vs)
  have "parseredirs [] (pr_words ws @ pr_redirs rs @ rest) = Inr ([], pr_words ws @ pr_redirs rs @ rest)"
    using parseredirs_word [of v] assms(1) Cons by simp
  moreover obtain args' rs' where "parse_args [] [] (pr_words ws @ pr_redirs rs @ rest) = Inr (args', rs', skip rest)" "map word_text args' = ws"
      "redir_texts rs' = rs"
    using parse_args_print [of ws "[]" rs rest "[]"] assms Cons by auto
  ultimately show ?thesis by (intro exI [of _ "redircmds (EXEC args') rs'"]) (simp add: parse_simple_def redircmds_texts)
qed

lemma parseexec_skip: "parseexec k (skip s) = parseexec k s"
  by (cases k) (simp_all add: peek_skip)

lemma parsepipe_skip: "parsepipe k (skip s) = parsepipe k s"
  by (cases k) (simp_all add: parseexec_skip)

lemma parseline_skip: "parseline k (skip s) = parseline k s"
  by (cases k) (simp_all add: parsepipe_skip)

text \<open>The four levels at which a printed command is read back.\<close>

definition reads0 :: "string cmd \<Rightarrow> bool" where
  "reads0 c \<longleftrightarrow> (\<forall>rs rest. (\<forall>r\<in>set rs. valid_redir r) \<longrightarrow> followed ''|)&;'' rest \<longrightarrow>
     (\<exists>k cmd. parseexec k (pr 0 c @ pr_redirs rs @ rest) = Some (Inr (cmd, skip rest)) \<and> map_cmd word_text cmd = redircmds c rs))"

definition reads1 :: "string cmd \<Rightarrow> bool" where
  "reads1 c \<longleftrightarrow> (\<forall>rest. followed '')&;'' rest \<longrightarrow>
     (\<exists>k cmd. parsepipe k (pr 1 c @ rest) = Some (Inr (cmd, skip rest)) \<and> map_cmd word_text cmd = c))"

definition reads2 :: "string cmd \<Rightarrow> bool" where
  "reads2 c \<longleftrightarrow> (\<forall>rest. followed '')&;'' rest \<longrightarrow>
     (\<exists>k cmd0 s0 cmd. parsepipe k (pr 2 c @ rest) = Some (Inr (cmd0, s0)) \<and> parse_back cmd0 s0 = parse_back cmd rest \<and> map_cmd word_text cmd = c))"

definition reads3 :: "string cmd \<Rightarrow> bool" where
  "reads3 c \<longleftrightarrow> (\<forall>rest. followed '')'' rest \<longrightarrow>
     (\<exists>k cmd. parseline k (pr 3 c @ rest) = Some (Inr (cmd, skip rest)) \<and> map_cmd word_text cmd = c))"

lemma followed_mono: "followed cs rest \<Longrightarrow> set cs \<subseteq> set ds \<Longrightarrow> followed ds rest"
  by (auto simp: followed_def)

lemma reads_01:
  assumes "reads0 c" "pr 1 c = pr 0 c"
  shows "reads1 c"
  unfolding reads1_def
proof (intro allI impI)
  fix rest assume f: "followed '')&;'' rest"
  have f': "followed ''|)&;'' rest" by (rule followed_mono [OF f]) auto
  obtain k cmd where r: "parseexec k (pr 0 c @ rest) = Some (Inr (cmd, skip rest))" "map_cmd word_text cmd = c"
    using assms(1) [unfolded reads0_def, THEN spec [of _ "[]"], THEN spec [of _ rest]] f' by (auto simp: redircmds_def)
  have "parsepipe (Suc k) (pr 0 c @ rest) = Some (Inr (cmd, skip rest))" using r peek_followed [OF f, of "''|''"] by (simp add: peek_skip)
  then show "\<exists>k cmd. parsepipe k (pr 1 c @ rest) = Some (Inr (cmd, skip rest)) \<and> map_cmd word_text cmd = c" unfolding assms(2) using r(2) by blast
qed

lemma reads_12:
  assumes "reads1 c" "pr 2 c = pr 1 c"
  shows "reads2 c"
  unfolding reads2_def
proof (intro allI impI)
  fix rest assume f: "followed '')&;'' rest"
  then obtain k cmd where "parsepipe k (pr 1 c @ rest) = Some (Inr (cmd, skip rest))" "map_cmd word_text cmd = c" using assms(1) unfolding reads1_def by blast
  then show "\<exists>k cmd0 s0 cmd. parsepipe k (pr 2 c @ rest) = Some (Inr (cmd0, s0)) \<and> parse_back cmd0 s0 = parse_back cmd rest \<and> map_cmd word_text cmd = c"
    unfolding assms(2) using parse_skip(3) by blast
qed

lemma reads_23:
  assumes "reads2 c" "pr 3 c = pr 2 c"
  shows "reads3 c"
  unfolding reads3_def
proof (intro allI impI)
  fix rest assume f: "followed '')'' rest"
  have "followed '')&;'' rest" by (rule followed_mono [OF f]) auto
  then obtain k cmd0 s0 cmd where r: "parsepipe k (pr 2 c @ rest) = Some (Inr (cmd0, s0))" "parse_back cmd0 s0 = parse_back cmd rest" "map_cmd word_text cmd = c"
    using assms(1) unfolding reads2_def by blast
  have "parse_back cmd rest = (cmd, skip rest)" using peek_followed [OF f, of "''&''"] by (subst parse_back.simps) simp
  then have "parseline (Suc k) (pr 2 c @ rest) = Some (Inr (cmd, skip rest))" using r peek_followed [OF f, of "'';''"] by (simp add: peek_skip)
  then show "\<exists>k cmd. parseline k (pr 3 c @ rest) = Some (Inr (cmd, skip rest)) \<and> map_cmd word_text cmd = c" unfolding assms(2) using r(3) by blast
qed

lemma reads_30:
  assumes "reads3 c" "pr 0 c = ''('' @ pr 3 c @ '')''"
  shows "reads0 c"
  unfolding reads0_def
proof (intro allI impI)
  fix rs rest assume rs: "\<forall>r\<in>set rs. valid_redir r" and f: "followed ''|)&;'' rest"
  let ?u = "CHR '')'' # pr_redirs rs @ rest"
  have sym: "CHR ''('' \<in> set symbols" "CHR '')'' \<in> set symbols" by (simp_all add: symbols_def)
  obtain k cmd where r: "parseline k (pr 3 c @ ?u) = Some (Inr (cmd, skip ?u))" "map_cmd word_text cmd = c"
    using assms(1) followed_sym [OF sym(2), of "'')''"] unfolding reads3_def by force
  obtain rs' where rs': "redir_texts rs' = rs" "parseredirs [] (pr_redirs rs @ rest) = Inr (rs', skip rest)"
    using parseredirs_print [OF rs, of "[]" rest] parseredirs_stop [OF f] by auto
  have "parseblock (Suc k) (CHR ''('' # pr 3 c @ ?u) = Some (Inr (redircmds cmd rs', skip rest))"
    using r(1) rs'(2) peek_symbol [OF sym(1), of "pr 3 c @ ?u" "''(''"] peek_symbol [OF sym(2), of "pr_redirs rs @ rest" "'')''"]
      skip_symbol [OF sym(2), of "pr_redirs rs @ rest"] after_symbol [of "CHR ''(''" "pr 3 c @ ?u"] after_symbol [of "CHR '')''" "pr_redirs rs @ rest"]
    by (simp add: parseline_skip parse_skip)
  then have "parseexec (Suc (Suc k)) (CHR ''('' # pr 3 c @ ?u) = Some (Inr (redircmds cmd rs', skip rest))"
    using peek_symbol [OF sym(1), of "pr 3 c @ ?u" "''(''"] by (simp del: parseblock.simps)
  then show "\<exists>k cmd. parseexec k (pr 0 c @ pr_redirs rs @ rest) = Some (Inr (cmd, skip rest)) \<and> map_cmd word_text cmd = redircmds c rs"
    unfolding assms(2) using rs'(1) r(2) by (intro exI [of _ "Suc (Suc k)"] exI [of _ "redircmds cmd rs'"]) (simp add: redircmds_texts del: parseexec.simps)
qed

lemma reads_pipe:
  assumes "reads0 a" "reads1 b"
  shows "reads1 (PIPE a b)"
  unfolding reads1_def
proof (intro allI impI)
  fix rest assume f: "followed '')&;'' rest"
  let ?u = "CHR ''|'' # pr 1 b @ rest"
  have sym: "CHR ''|'' \<in> set symbols" by (simp add: symbols_def)
  have "followed ''|)&;'' ?u" by (rule followed_sym [OF sym]) simp
  then obtain k1 left where l: "parseexec k1 (pr 0 a @ ?u) = Some (Inr (left, skip ?u))" "map_cmd word_text left = a"
    using assms(1) [unfolded reads0_def, THEN spec [of _ "[]"], THEN spec [of _ ?u]] by (auto simp: redircmds_def)
  obtain k2 right where r: "parsepipe k2 (pr 1 b @ rest) = Some (Inr (right, skip rest))" "map_cmd word_text right = b"
    using assms(2) f unfolding reads1_def by blast
  let ?k = "max k1 k2"
  have "parseexec ?k (pr 0 a @ ?u) = Some (Inr (left, skip ?u))" "parsepipe ?k (pr 1 b @ rest) = Some (Inr (right, skip rest))"
    using parse_mono(3) [OF max.cobounded1 l(1)] parse_mono(2) [OF max.cobounded2 r(1)] by blast+
  then have "parsepipe (Suc ?k) (pr 0 a @ ?u) = Some (Inr (PIPE left right, skip rest))"
    using peek_symbol [OF sym, of "pr 1 b @ rest" "''|''"] after_symbol [of "CHR ''|''" "pr 1 b @ rest"] by (simp add: peek_skip parsepipe_skip)
  then show "\<exists>k cmd. parsepipe k (pr 1 (PIPE a b) @ rest) = Some (Inr (cmd, skip rest)) \<and> map_cmd word_text cmd = PIPE a b"
    using l(2) r(2) by (intro exI [of _ "Suc ?k"] exI [of _ "PIPE left right"]) (simp add: paren_def del: parsepipe.simps)
qed

lemma reads_back:
  assumes "reads2 c"
  shows "reads2 (BACK c)"
  unfolding reads2_def
proof (intro allI impI)
  fix rest assume "followed '')&;'' rest"
  let ?u = "CHR ''&'' # rest"
  have sym: "CHR ''&'' \<in> set symbols" by (simp add: symbols_def)
  have "followed '')&;'' ?u" by (rule followed_sym [OF sym]) simp
  then obtain k cmd0 s0 cmd where r: "parsepipe k (pr 2 c @ ?u) = Some (Inr (cmd0, s0))" "parse_back cmd0 s0 = parse_back cmd ?u" "map_cmd word_text cmd = c"
    using assms unfolding reads2_def by blast
  have g: "gettoken ?u = (CHR ''&'', ?u, rest, skip rest)" by (rule gettoken_sym) (use skip_symbol [OF sym] in auto)
  have "parse_back cmd ?u = parse_back (BACK cmd) rest"
    using peek_symbol [OF sym, of rest "''&''"] g by (subst parse_back.simps) (simp add: parse_skip)
  then show "\<exists>k cmd0 s0 cmd. parsepipe k (pr 2 (BACK c) @ rest) = Some (Inr (cmd0, s0)) \<and> parse_back cmd0 s0 = parse_back cmd rest \<and> map_cmd word_text cmd = BACK c"
    using r by (intro exI [of _ k] exI [of _ cmd0] exI [of _ s0] exI [of _ "BACK cmd"]) (simp add: paren_def)
qed

lemma reads_list:
  assumes "reads2 a" "reads3 b"
  shows "reads3 (LIST a b)"
  unfolding reads3_def
proof (intro allI impI)
  fix rest assume f: "followed '')'' rest"
  let ?u = "CHR '';'' # pr 3 b @ rest"
  have sym: "CHR '';'' \<in> set symbols" by (simp add: symbols_def)
  have "followed '')&;'' ?u" by (rule followed_sym [OF sym]) simp
  then obtain k1 cmd0 s0 left where l: "parsepipe k1 (pr 2 a @ ?u) = Some (Inr (cmd0, s0))" "parse_back cmd0 s0 = parse_back left ?u" "map_cmd word_text left = a"
    using assms(1) unfolding reads2_def by blast
  obtain k2 right where r: "parseline k2 (pr 3 b @ rest) = Some (Inr (right, skip rest))" "map_cmd word_text right = b"
    using assms(2) f unfolding reads3_def by blast
  have b: "parse_back left ?u = (left, ?u)" using peek_symbol [OF sym, of "pr 3 b @ rest" "''&''"] by (subst parse_back.simps) simp
  let ?k = "max k1 k2"
  have "parsepipe ?k (pr 2 a @ ?u) = Some (Inr (cmd0, s0))" "parseline ?k (pr 3 b @ rest) = Some (Inr (right, skip rest))"
    using parse_mono(2) [OF max.cobounded1 l(1)] parse_mono(1) [OF max.cobounded2 r(1)] by blast+
  then have "parseline (Suc ?k) (pr 2 a @ ?u) = Some (Inr (LIST left right, skip rest))"
    using l(2) b peek_symbol [OF sym, of "pr 3 b @ rest" "'';''"] after_symbol [of "CHR '';''" "pr 3 b @ rest"] by (simp add: parseline_skip)
  then show "\<exists>k cmd. parseline k (pr 3 (LIST a b) @ rest) = Some (Inr (cmd, skip rest)) \<and> map_cmd word_text cmd = LIST a b"
    using l(3) r(2) by (intro exI [of _ "Suc ?k"] exI [of _ "LIST left right"]) (simp add: paren_def del: parseline.simps)
qed

lemma peek_simple:
  assumes "valid (EXEC ws)" "\<forall>r\<in>set rs. valid_redir r" "followed ''|)&;'' rest"
  shows "\<not> fst (peek (pr_words ws @ pr_redirs rs @ rest) ''('')"
proof (cases ws)
  case Nil
  then show ?thesis
  proof (cases rs)
    case (Cons r rs')
    then show ?thesis using Nil peek_redir(2) [of "fst (snd r)" "snd (snd r)"] by (cases r) (simp add: pr_redir_def)
  qed (use peek_followed [OF assms(3), of "''(''"] Nil in simp)
next
  case (Cons w vs)
  then show ?thesis using peek_word [of w "''(''"] assms(1) by (simp add: symbols_def)
qed

lemma reads_exec: "valid (EXEC ws) \<Longrightarrow> reads0 (EXEC ws)"
  unfolding reads0_def
proof (intro allI impI)
  fix rs rest assume v: "valid (EXEC ws)" "\<forall>r\<in>set rs. valid_redir r" "followed ''|)&;'' rest"
  let ?s = "pr_words ws @ pr_redirs rs @ rest"
  obtain cmd where c: "parse_simple ?s = Inr (cmd, skip rest)" "map_cmd word_text cmd = redircmds (EXEC ws) rs" using parse_simple_print [OF v] by blast
  have "parseexec (Suc 0) ?s = Some (parse_simple (skip ?s))" using peek_simple [OF v] by (simp add: peek_def Let_def)
  also have "parse_simple (skip ?s) = parse_simple ?s" unfolding parse_simple_def parse_skip by (rule refl)
  finally show "\<exists>k cmd. parseexec k (pr 0 (EXEC ws) @ pr_redirs rs @ rest) = Some (Inr (cmd, skip rest)) \<and> map_cmd word_text cmd = redircmds (EXEC ws) rs"
    using c by (metis pr.simps(1))
qed

lemma reads_redir:
  assumes "reads0 c" "valid_redir (w, m, f)"
  shows "reads0 (REDIR c w m f)"
  unfolding reads0_def
proof (intro allI impI)
  fix rs rest assume v: "\<forall>r\<in>set rs. valid_redir r" "followed ''|)&;'' rest"
  have "\<forall>r\<in>set ((w, m, f) # rs). valid_redir r" using v(1) assms(2) by simp
  then obtain k cmd where "parseexec k (pr 0 c @ pr_redirs ((w, m, f) # rs) @ rest) = Some (Inr (cmd, skip rest))"
      "map_cmd word_text cmd = redircmds c ((w, m, f) # rs)"
    using assms(1) v(2) unfolding reads0_def by blast
  then show "\<exists>k cmd. parseexec k (pr 0 (REDIR c w m f) @ pr_redirs rs @ rest) = Some (Inr (cmd, skip rest)) \<and> map_cmd word_text cmd = redircmds (REDIR c w m f) rs"
    by (intro exI [of _ k] exI [of _ cmd]) (simp add: redircmds_def)
qed

lemma reads_all: "valid c \<Longrightarrow> reads0 c \<and> reads1 c \<and> reads2 c \<and> reads3 c"
proof (induction c)
  case (EXEC ws)
  then have "reads0 (EXEC ws)" by (rule reads_exec)
  moreover from this have "reads1 (EXEC ws)" by (rule reads_01) simp
  moreover from this have "reads2 (EXEC ws)" by (rule reads_12) simp
  moreover from this have "reads3 (EXEC ws)" by (rule reads_23) simp
  ultimately show ?case by blast
next
  case (REDIR c w m f)
  then have "reads0 (REDIR c w m f)" using reads_redir by simp
  moreover from this have "reads1 (REDIR c w m f)" by (rule reads_01) simp
  moreover from this have "reads2 (REDIR c w m f)" by (rule reads_12) simp
  moreover from this have "reads3 (REDIR c w m f)" by (rule reads_23) simp
  ultimately show ?case by blast
next
  case (PIPE a b)
  then have "reads1 (PIPE a b)" using reads_pipe by simp
  moreover from this have "reads2 (PIPE a b)" by (rule reads_12) (simp add: paren_def)
  moreover from this have "reads3 (PIPE a b)" by (rule reads_23) (simp add: paren_def)
  moreover from this have "reads0 (PIPE a b)" by (rule reads_30) (simp add: paren_def)
  ultimately show ?case by blast
next
  case (LIST a b)
  then have "reads3 (LIST a b)" using reads_list by simp
  moreover from this have "reads0 (LIST a b)" by (rule reads_30) (simp add: paren_def)
  moreover from this have "reads1 (LIST a b)" by (rule reads_01) (simp add: paren_def)
  moreover from this have "reads2 (LIST a b)" by (rule reads_12) (simp add: paren_def)
  ultimately show ?case by blast
next
  case (BACK c)
  then have "reads2 (BACK c)" using reads_back by simp
  moreover from this have "reads3 (BACK c)" by (rule reads_23) (simp add: paren_def)
  moreover from this have "reads0 (BACK c)" by (rule reads_30) (simp add: paren_def)
  moreover from this have "reads1 (BACK c)" by (rule reads_01) (simp add: paren_def)
  ultimately show ?case by blast
qed

text \<open>
  C39. The parser reads every command back from its printed form. For each command whose words are non-empty and plain,
  with less than ten arguments per program and redirections of the three kinds the shell has, \<^verbatim>\<open>parsecmd\<close> on the text of the
  command returns that command.
\<close>

theorem parse_print:
  assumes "valid c"
  shows "\<exists>cmd. parsecmd (pr 3 c) = Some (Inr cmd) \<and> map_cmd word_text cmd = c"
proof -
  have "followed '')'' []" by (simp add: followed_def skip_def)
  then obtain k cmd where k: "parseline k (pr 3 c) = Some (Inr (cmd, []))" "map_cmd word_text cmd = c"
    using reads_all [OF assms] unfolding reads3_def by (metis append_Nil2 dropWhile.simps(1) skip_def)
  have "good (pr 3 c) (pr 3 c) (parseline (parse_fuel (pr 3 c)) (pr 3 c))" by (rule parse_good(1)) (simp_all add: parse_fuel_def)
  then obtain r where r: "parseline (parse_fuel (pr 3 c)) (pr 3 c) = Some r" by (metis good.simps(1) not_None_eq)
  let ?m = "max k (parse_fuel (pr 3 c))"
  have "parseline ?m (pr 3 c) = Some (Inr (cmd, []))" "parseline ?m (pr 3 c) = Some r"
    using parse_mono(1) [OF max.cobounded1 k(1)] parse_mono(1) [OF max.cobounded2 r] by blast+
  then have "r = Inr (cmd, [])" by simp
  then show ?thesis using r k(2) by (simp add: parsecmd_def peek_def skip_def)
qed

definition example_cmd :: "string cmd" where
  "example_cmd = LIST (BACK (PIPE (REDIR (EXEC [''cat'']) ''in'' 0 0) (EXEC [''grep'', ''a.b''])))
     (REDIR (LIST (EXEC [''echo'', ''x'']) (EXEC [''ls''])) ''out'' 0x601 1)"

theorem parse_print_witness:
  "pr 3 example_cmd = ''cat <in |grep a.b &;(echo x ;ls )>out '' \<and>
   (\<exists>cmd. parsecmd ''cat <in |grep a.b &;(echo x ;ls )>out '' = Some (Inr cmd) \<and> map_cmd word_text cmd = example_cmd)"
proof -
  have p: "pr 3 example_cmd = ''cat <in |grep a.b &;(echo x ;ls )>out ''" by (simp add: example_cmd_def paren_def pr_redir_def redir_sym_def)
  moreover have "valid example_cmd" by (simp add: example_cmd_def valid_redir_def valid_word_def plain_def whitespace_def symbols_def)
  ultimately show ?thesis using parse_print [of example_cmd] by simp
qed

section \<open>Running commands\<close>




































end
