(* ===== verification/Mkfs.thy ===== *)
theory Mkfs
  imports FsInodes
begin

text \<open>
  \<^verbatim>\<open>mkfs/mkfs.c\<close>: the tool that writes the initial disk image. The image is a function from sector numbers to blocks; the
  conversions \<^verbatim>\<open>xint\<close> and \<^verbatim>\<open>xshort\<close> to the byte order of the kernel are the little-endian encodings of theory \<open>Bytes\<close>. Reading
  past the last sector that was written ends the tool, as do failed assertions; these are error values. The files to be stored
  are given by their names and the pieces in which \<^verbatim>\<open>read\<close> delivers them. The lemmas show that the kernel
  finds in the image what was stored, with the functions that describe the file system in theory \<open>FsInodes\<close>.
\<close>

section \<open>The tool\<close>

abbreviation (input) FSSIZE :: nat where "FSSIZE \<equiv> 2000"
abbreviation (input) NINODES :: nat where "NINODES \<equiv> 200"

definition nbitmap :: nat where "nbitmap = FSSIZE div BPB + 1"
definition ninodeblocks :: nat where "ninodeblocks = NINODES div 16 + 1"
definition nlog :: nat where "nlog = nat LOGSIZE"
definition nmeta :: nat where "nmeta = 2 + nlog + ninodeblocks + nbitmap"

definition mkfs_sb :: superblock where
  "mkfs_sb = \<lparr>sb_magic = FSMAGIC, sb_size = of_nat FSSIZE, sb_nblocks = of_nat (FSSIZE - nmeta), sb_ninodes = of_nat NINODES,
     sb_nlog = of_nat nlog, sb_logstart = 2, sb_inodestart = of_nat (2 + nlog), sb_bmapstart = of_nat (2 + nlog + ninodeblocks)\<rparr>"

record mkst =
  img :: "uint \<Rightarrow> block"
  freeinode :: uint
  freeblock :: uint

definition wsect :: "uint \<Rightarrow> block \<Rightarrow> mkst \<Rightarrow> mkst" where
  "wsect sec buf s = s\<lparr>img := (img s)(sec := buf)\<rparr>"

definition rsect :: "uint \<Rightarrow> mkst \<Rightarrow> string + block" where
  "rsect sec s = (if unat sec < FSSIZE then Inr (img s sec) else Inl ''read'')"

definition winode :: "uint \<Rightarrow> inode \<Rightarrow> mkst \<Rightarrow> string + mkst" where
  "winode ino ip s =
     (let bn = IBLOCK ino mkfs_sb
      in case rsect bn s of Inl e \<Rightarrow> Inl e | Inr buf \<Rightarrow> Inr (wsect bn (put_dinode ip (dip_off ino) buf) s))"

definition rinode :: "uint \<Rightarrow> mkst \<Rightarrow> string + inode" where
  "rinode ino s =
     (case rsect (IBLOCK ino mkfs_sb) s of Inl e \<Rightarrow> Inl e | Inr buf \<Rightarrow> Inr (get_dinode buf (dip_off ino) zero_inode))"

definition mk_ialloc :: "ushort \<Rightarrow> mkst \<Rightarrow> string + (uint \<times> mkst)" where
  "mk_ialloc type s =
     (let ino = freeinode s; s = s\<lparr>freeinode := freeinode s + 1\<rparr>; din = zero_inode\<lparr>itype := type, inlink := 1, isize := 0\<rparr>
      in case winode ino din s of Inl e \<Rightarrow> Inl e | Inr s \<Rightarrow> Inr (ino, s))"

definition mk_balloc :: "uint \<Rightarrow> mkst \<Rightarrow> string + mkst" where
  "mk_balloc blocks s =
     (if unat blocks < BPB
      then Inr (wsect (sb_bmapstart mkfs_sb)
             (fold (\<lambda>i buf. buf[i div 8 := buf ! (i div 8) OR push_bit (i mod 8) 1]) [0..<unat blocks] (replicate BSIZE 0)) s)
      else Inl ''assert'')"

text \<open>The part of the loop of \<^verbatim>\<open>iappend\<close> that finds the block \<^verbatim>\<open>x\<close> of the file, and allocates it if there is none.\<close>

definition iappend_block :: "nat \<Rightarrow> inode \<Rightarrow> mkst \<Rightarrow> string + (uint \<times> inode \<times> mkst)" where
  "iappend_block fbn din s =
     (if fbn < NDIRECT
      then let (din, s) = (if iaddrs din ! fbn = 0
             then (din\<lparr>iaddrs := (iaddrs din)[fbn := freeblock s]\<rparr>, s\<lparr>freeblock := freeblock s + 1\<rparr>) else (din, s))
           in Inr (iaddrs din ! fbn, din, s)
      else let (din, s) = (if iaddrs din ! NDIRECT = 0
             then (din\<lparr>iaddrs := (iaddrs din)[NDIRECT := freeblock s]\<rparr>, s\<lparr>freeblock := freeblock s + 1\<rparr>) else (din, s))
           in case rsect (iaddrs din ! NDIRECT) s of
                Inl e \<Rightarrow> Inl e
              | Inr indirect \<Rightarrow>
                  let (indirect, s) = (if get32 indirect (4 * (fbn - NDIRECT)) = 0
                        then let indirect = put32 indirect (4 * (fbn - NDIRECT)) (freeblock s)
                             in (indirect, wsect (iaddrs din ! NDIRECT) indirect (s\<lparr>freeblock := freeblock s + 1\<rparr>))
                        else (indirect, s))
                  in Inr (get32 indirect (4 * (fbn - NDIRECT)), din, s))"

function iappend_loop :: "byte list \<Rightarrow> nat \<Rightarrow> inode \<Rightarrow> mkst \<Rightarrow> string + (nat \<times> inode \<times> mkst)" where
  "iappend_loop p off din s =
     (if p = [] then Inr (off, din, s)
      else let fbn = off div BSIZE
           in if fbn \<ge> NDIRECT + NINDIRECT then Inl ''assert''
              else case iappend_block fbn din s of
                     Inl e \<Rightarrow> Inl e
                   | Inr (x, din, s) \<Rightarrow>
                       let n1 = min (length p) ((fbn + 1) * BSIZE - off)
                       in case rsect x s of
                            Inl e \<Rightarrow> Inl e
                          | Inr buf \<Rightarrow>
                              iappend_loop (drop n1 p) (off + n1) din
                                (wsect x (put_bytes buf (off - fbn * BSIZE) (take n1 p)) s))"
  by pat_completeness auto
termination
proof (relation "measure (\<lambda>(p, off, din, s). length p)")
  fix p :: "byte list" and off fbn n1 :: nat
  assume "p \<noteq> []" "fbn = off div BSIZE" "n1 = min (length p) ((fbn + 1) * BSIZE - off)"
  moreover have "off < (off div BSIZE + 1) * BSIZE" by (metis div_less_iff_less_mult less_add_one zero_less_numeral)
  ultimately have "0 < n1" by simp
  then show "((drop n1 p, off + n1, din', s'), p, off, din, s) \<in> measure (\<lambda>(p, off, din, s). length p)" for din' s' din s
    using \<open>p \<noteq> []\<close> by simp
qed simp

declare iappend_loop.simps [simp del]

definition iappend :: "uint \<Rightarrow> byte list \<Rightarrow> mkst \<Rightarrow> string + mkst" where
  "iappend ino p s =
     (case rinode ino s of
        Inl e \<Rightarrow> Inl e
      | Inr din \<Rightarrow>
          (case iappend_loop p (unat (isize din)) din s of
             Inl e \<Rightarrow> Inl e
           | Inr (off, din, s) \<Rightarrow> winode ino (din\<lparr>isize := of_nat off\<rparr>) s))"

text \<open>\<^verbatim>\<open>main\<close>: the empty image with its superblock and root directory, the loop over the files, and the end.\<close>

definition shortname :: "byte list \<Rightarrow> byte list" where
  "shortname path =
     (let n = (if take 5 path = [0x75, 0x73, 0x65, 0x72, 0x2f] then drop 5 path else path)
      in if n \<noteq> [] \<and> hd n = 0x5f then tl n else n)"

fun append_pieces :: "uint \<Rightarrow> byte list list \<Rightarrow> mkst \<Rightarrow> string + mkst" where
  "append_pieces ino [] s = Inr s"
| "append_pieces ino (p # ps) s = (case iappend ino p s of Inl e \<Rightarrow> Inl e | Inr s \<Rightarrow> append_pieces ino ps s)"

definition mkfs_file :: "byte list \<Rightarrow> byte list list \<Rightarrow> mkst \<Rightarrow> string + mkst" where
  "mkfs_file path pieces s =
     (let n = shortname path
      in if 0x2f \<in> set n \<or> length n > DIRSIZ then Inl ''assert''
         else case mk_ialloc T_FILE s of
                Inl e \<Rightarrow> Inl e
              | Inr (ino, s) \<Rightarrow>
                  (case iappend ROOTINO (dirent ino n) s of
                     Inl e \<Rightarrow> Inl e
                   | Inr s \<Rightarrow> append_pieces ino pieces s))"

fun mkfs_files :: "(byte list \<times> byte list list) list \<Rightarrow> mkst \<Rightarrow> string + mkst" where
  "mkfs_files [] s = Inr s"
| "mkfs_files ((path, pieces) # fs) s = (case mkfs_file path pieces s of Inl e \<Rightarrow> Inl e | Inr s \<Rightarrow> mkfs_files fs s)"

definition encode_sb :: "superblock \<Rightarrow> block" where
  "encode_sb b = put32s (replicate BSIZE 0) 0
     [sb_magic b, sb_size b, sb_nblocks b, sb_ninodes b, sb_nlog b, sb_logstart b, sb_inodestart b, sb_bmapstart b]"

definition mkfs_begin :: "string + mkst" where
  "mkfs_begin =
     (let s = \<lparr>img = (\<lambda>_. replicate BSIZE 0), freeinode = 1, freeblock = of_nat nmeta\<rparr>;
          s = wsect 1 (encode_sb mkfs_sb) s
      in case mk_ialloc T_DIR s of
           Inl e \<Rightarrow> Inl e
         | Inr (rootino, s) \<Rightarrow>
             if rootino \<noteq> ROOTINO then Inl ''assert''
             else case iappend rootino (dirent rootino [0x2e]) s of
                    Inl e \<Rightarrow> Inl e
                  | Inr s \<Rightarrow> iappend rootino (dirent rootino [0x2e, 0x2e]) s)"

definition mkfs_end :: "mkst \<Rightarrow> string + mkst" where
  "mkfs_end s =
     (case rinode ROOTINO s of
        Inl e \<Rightarrow> Inl e
      | Inr din \<Rightarrow>
          let off = (unat (isize din) div BSIZE + 1) * BSIZE
          in case winode ROOTINO (din\<lparr>isize := of_nat off\<rparr>) s of
               Inl e \<Rightarrow> Inl e
             | Inr s \<Rightarrow> mk_balloc (freeblock s) s)"

definition mkfs :: "(byte list \<times> byte list list) list \<Rightarrow> string + mkst" where
  "mkfs fs =
     (case mkfs_begin of
        Inl e \<Rightarrow> Inl e
      | Inr s \<Rightarrow> (case mkfs_files fs s of Inl e \<Rightarrow> Inl e | Inr s \<Rightarrow> mkfs_end s))"

lemma nmeta_eq: "nmeta = 46" "nlog = 30" "ninodeblocks = 13"
  by (simp_all add: nmeta_def nlog_def ninodeblocks_def nbitmap_def)

lemma mkfs_sb_eq: "mkfs_sb = example_sb"
  by (simp add: mkfs_sb_def example_sb_def nmeta_eq)

section \<open>Slots\<close>

text \<open>
  The places of an inode that hold a block number: the blocks 0 to 267 of the file, and 268 for the indirect
  block. Only the inodes in the inode area count.
\<close>

definition slot :: "(uint \<Rightarrow> block) \<Rightarrow> inode \<Rightarrow> nat \<Rightarrow> uint" where
  "slot C x t = (if t < 268 then fblock C x t else iaddrs x ! 12)"

abbreviation (input) inode_no :: "uint \<Rightarrow> bool" where
  "inode_no i \<equiv> unat i < 208"

definition slots_ok :: "(uint \<Rightarrow> nat \<Rightarrow> uint) \<Rightarrow> nat \<Rightarrow> bool" where
  "slots_ok S fb \<longleftrightarrow>
     (\<forall>i t. inode_no i \<longrightarrow> t < 269 \<longrightarrow> S i t \<noteq> 0 \<longrightarrow> 46 \<le> unat (S i t) \<and> unat (S i t) < fb) \<and>
     (\<forall>i j t u. inode_no i \<longrightarrow> inode_no j \<longrightarrow> t < 269 \<longrightarrow> u < 269 \<longrightarrow> S i t \<noteq> 0 \<longrightarrow> S i t = S j u \<longrightarrow> i = j \<and> t = u)"

lemma slots_okD:
  assumes "slots_ok S fb" "inode_no i" "t < 269" "S i t \<noteq> 0"
  shows "46 \<le> unat (S i t)" "unat (S i t) < fb" "inode_no j \<Longrightarrow> u < 269 \<Longrightarrow> S i t = S j u \<Longrightarrow> i = j \<and> t = u"
  using assms unfolding slots_ok_def by blast+

lemma slots_ok_alloc:
  assumes ok: "slots_ok S (unat b)" and b: "46 \<le> unat b" and new: "S' i0 t0 = b"
    and same: "\<And>j u. inode_no j \<Longrightarrow> u < 269 \<Longrightarrow> (j, u) \<noteq> (i0, t0) \<Longrightarrow> S' j u = S j u"
  shows "slots_ok S' (unat b + 1)"
  unfolding slots_ok_def
proof (intro conjI allI impI)
  have old: "S' j u = S j u \<and> (S j u \<noteq> 0 \<longrightarrow> 46 \<le> unat (S j u) \<and> unat (S j u) < unat b)" if "inode_no j" "u < 269" "(j, u) \<noteq> (i0, t0)" for j u
    using same that slots_okD(1,2) [OF ok that(1,2)] by blast
  fix i t assume i: "inode_no i" "t < 269" "S' i t \<noteq> 0"
  show "46 \<le> unat (S' i t)" "unat (S' i t) < unat b + 1"
    using old [OF i(1,2)] i(3) new b by (cases "(i, t) = (i0, t0)"; force)+
next
  have lt: "unat (S' j u) < unat b" if "inode_no j" "u < 269" "S' j u \<noteq> 0" "(j, u) \<noteq> (i0, t0)" for j u
    using same [OF that(1,2,4)] slots_okD(2) [OF ok that(1,2)] that(3) by simp
  fix i j t u assume i: "inode_no i" "inode_no j" "t < 269" "u < 269" "S' i t \<noteq> 0" "S' i t = S' j u"
  have "(i, t) = (j, u)"
  proof (cases "(i, t) = (i0, t0)")
    case True
    then have "unat (S' j u) = unat b" using i(6) new by auto
    then show ?thesis using lt [OF i(2,4)] i(5,6) True by force
  next
    case False
    note f = False
    show ?thesis
    proof (cases "(j, u) = (i0, t0)")
      case True
      then have "unat (S' i t) = unat b" using i(6) new by auto
      then show ?thesis using lt [OF i(1,3,5) f] by simp
    next
      case False
      have "S' i t = S i t" "S' j u = S j u" using same [OF i(1,3) f] same [OF i(2,4) False] by blast+
      then have "S i t \<noteq> 0" "S i t = S j u" using i(5,6) by simp_all
      then have "i = j \<and> t = u" by (rule slots_okD(3) [OF ok i(1,3) _ i(2,4)])
      then show ?thesis by simp
    qed
  qed
  then show "i = j" "t = u" by simp_all
qed

definition mk_inv :: "(uint \<Rightarrow> block) \<Rightarrow> (uint \<Rightarrow> inode) \<Rightarrow> uint \<Rightarrow> bool" where
  "mk_inv C V fb \<longleftrightarrow>
     46 \<le> unat fb \<and> unat fb \<le> 2000 \<and> (\<forall>b. length (C b) = 1024) \<and> (\<forall>b. unat fb \<le> unat b \<longrightarrow> C b = replicate 1024 0) \<and>
     (\<forall>i. inode_no i \<longrightarrow> length (iaddrs (V i)) = 13) \<and> slots_ok (\<lambda>i. slot C (V i)) (unat fb)"

lemma mk_invD:
  assumes "mk_inv C V fb" "inode_no i" "t < 269" "slot C (V i) t \<noteq> 0"
  shows "46 \<le> unat (slot C (V i) t)" "unat (slot C (V i) t) < unat fb"
    "inode_no j \<Longrightarrow> u < 269 \<Longrightarrow> slot C (V i) t = slot C (V j) u \<Longrightarrow> i = j \<and> t = u"
proof -
  have ok: "slots_ok (\<lambda>i. slot C (V i)) (unat fb)" using assms(1) by (simp add: mk_inv_def)
  show "46 \<le> unat (slot C (V i) t)" "unat (slot C (V i) t) < unat fb" using slots_okD(1,2) [OF ok assms(2,3)] assms(4) by simp_all
  show "i = j \<and> t = u" if "inode_no j" "u < 269" "slot C (V i) t = slot C (V j) u"
    by (rule slots_okD(3) [OF ok assms(2,3) _ that(1,2)]) (use assms(4) that(3) in simp_all)
qed

text \<open>What an inode has keeps its place; only inode \<open>i\<close> gets more; and the blocks below 46 are not touched.\<close>

definition mk_keeps :: "uint \<Rightarrow> (uint \<Rightarrow> block) \<Rightarrow> (uint \<Rightarrow> inode) \<Rightarrow> (uint \<Rightarrow> block) \<Rightarrow> (uint \<Rightarrow> inode) \<Rightarrow> bool" where
  "mk_keeps i C V C' V' \<longleftrightarrow>
     (\<forall>j m. inode_no j \<longrightarrow> m < 268 \<longrightarrow> fblock C (V j) m \<noteq> 0 \<longrightarrow>
        fblock C' (V' j) m = fblock C (V j) m \<and> C' (fblock C (V j) m) = C (fblock C (V j) m)) \<and>
     (\<forall>j m. inode_no j \<longrightarrow> m < 268 \<longrightarrow> j \<noteq> i \<longrightarrow> fblock C' (V' j) m = fblock C (V j) m) \<and>
     (\<forall>b. unat b < 46 \<longrightarrow> C' b = C b)"

lemma mk_keeps_refl [simp]: "mk_keeps i C V C V"
  by (simp add: mk_keeps_def)

lemma mk_keepsD:
  assumes "mk_keeps i C V C' V'"
  shows "inode_no j \<Longrightarrow> m < 268 \<Longrightarrow> fblock C (V j) m \<noteq> 0 \<Longrightarrow>
      fblock C' (V' j) m = fblock C (V j) m \<and> C' (fblock C (V j) m) = C (fblock C (V j) m)"
    "inode_no j \<Longrightarrow> m < 268 \<Longrightarrow> j \<noteq> i \<Longrightarrow> fblock C' (V' j) m = fblock C (V j) m"
    "unat b < 46 \<Longrightarrow> C' b = C b"
  using assms unfolding mk_keeps_def by blast+

lemma mk_keeps_trans:
  assumes 1: "mk_keeps i C V C' V'" and 2: "mk_keeps i C' V' C'' V''"
  shows "mk_keeps i C V C'' V''"
  unfolding mk_keeps_def
proof (intro conjI allI impI)
  fix j m assume a: "inode_no j" "m < (268 :: nat)" "fblock C (V j) m \<noteq> 0"
  note b = mk_keepsD(1) [OF 1 a]
  have "fblock C' (V' j) m \<noteq> 0" using b a(3) by simp
  note c = mk_keepsD(1) [OF 2 a(1,2) this]
  show "fblock C'' (V'' j) m = fblock C (V j) m" "C'' (fblock C (V j) m) = C (fblock C (V j) m)" using b c by simp_all
next
  fix j m assume a: "inode_no j" "m < (268 :: nat)" "j \<noteq> i"
  show "fblock C'' (V'' j) m = fblock C (V j) m" using mk_keepsD(2) [OF 1 a] mk_keepsD(2) [OF 2 a] by simp
next
  fix b :: uint assume "unat b < 46"
  then show "C'' b = C b" using mk_keepsD(3) [OF 1] mk_keepsD(3) [OF 2] by simp
qed

lemma unat_next: "unat (fb :: uint) < 2000 \<Longrightarrow> unat (fb + 1) = unat fb + 1"
  by (simp add: unat_word_ariths)

text \<open>A direct block, the indirect block, and an entry of the indirect block.\<close>

lemma alloc_direct:
  assumes inv: "mk_inv C V fb" and i: "inode_no i" and n: "n < 12" "iaddrs (V i) ! n = 0" and fb: "unat fb < 2000"
  defines "V' \<equiv> V(i := (V i)\<lparr>iaddrs := (iaddrs (V i))[n := fb]\<rparr>)"
  shows "mk_inv C V' (fb + 1)" "mk_keeps i C V C V'" "\<And>m. m < 268 \<Longrightarrow> m \<noteq> n \<Longrightarrow> fblock C (V' i) m = fblock C (V i) m"
proof -
  have len: "length (iaddrs (V i)) = 13" and ok: "slots_ok (\<lambda>i. slot C (V i)) (unat fb)" and fb46: "46 \<le> unat fb" using inv i by (auto simp: mk_inv_def)
  have S': "slot C (V' j) u = slot C (V j) u" if "(j, u) \<noteq> (i, n)" for j u
    using that n(1) len by (auto simp: V'_def slot_def fblock_def)
  show "fblock C (V' i) m = fblock C (V i) m" if "m < 268" "m \<noteq> n" for m using S' [of i m] that by (simp add: slot_def)
  have "slot C (V' i) n = fb" using n len by (simp add: V'_def slot_def fblock_def)
  then have "slots_ok (\<lambda>i. slot C (V' i)) (unat fb + 1)" using slots_ok_alloc [OF ok fb46, of "\<lambda>i. slot C (V' i)" i n] S' by blast
  then show "mk_inv C V' (fb + 1)" using inv len fb by (auto simp: mk_inv_def unat_next V'_def)
  have "fblock C (V' j) m = fblock C (V j) m" if "fblock C (V j) m \<noteq> 0" "m < 268" for j m
  proof -
    have "(j, m) \<noteq> (i, n)" using that(1) n by (auto simp: fblock_def)
    then show ?thesis using S' [of j m] that(2) by (auto simp: slot_def)
  qed
  then show "mk_keeps i C V C V'" by (simp add: mk_keeps_def V'_def)
qed

lemma alloc_indirect:
  assumes inv: "mk_inv C V fb" and i: "inode_no i" and n: "iaddrs (V i) ! 12 = 0" and fb: "unat fb < 2000"
  defines "V' \<equiv> V(i := (V i)\<lparr>iaddrs := (iaddrs (V i))[12 := fb]\<rparr>)"
  shows "mk_inv C V' (fb + 1)" "mk_keeps i C V C V'" "\<And>m. m < 268 \<Longrightarrow> fblock C (V' i) m = fblock C (V i) m"
proof -
  have len: "length (iaddrs (V i)) = 13" and ok: "slots_ok (\<lambda>i. slot C (V i)) (unat fb)" and fb46: "46 \<le> unat fb"
    and z: "C fb = replicate 1024 0" using inv i by (auto simp: mk_inv_def)
  have S': "slot C (V' j) u = slot C (V j) u" if "u < 269" "(j, u) \<noteq> (i, 268)" for j u
    using that n len get32_zeros [OF z] by (auto simp: V'_def slot_def fblock_def)
  have "slots_ok (\<lambda>i. slot C (V' i)) (unat fb + 1)"
    by (rule slots_ok_alloc [OF ok fb46, of _ i 268]) (use S' len in \<open>simp_all add: V'_def slot_def\<close>)
  then show "mk_inv C V' (fb + 1)" using inv len fb by (auto simp: mk_inv_def unat_next V'_def)
  have k: "fblock C (V' j) m = fblock C (V j) m" if "m < 268" for j m
    using S' [of m j] that by (simp add: slot_def)
  then show "fblock C (V' i) m = fblock C (V i) m" if "m < 268" for m using that by blast
  show "mk_keeps i C V C V'" using k by (simp add: mk_keeps_def)
qed

lemma alloc_entry:
  assumes inv: "mk_inv C V fb" and i: "inode_no i" and a: "a = iaddrs (V i) ! 12" "a \<noteq> 0"
    and n: "12 \<le> n" "n < 268" "get32 (C a) (4 * (n - 12)) = 0" and fb: "unat fb < 2000"
  defines "C' \<equiv> C(a := put32 (C a) (4 * (n - 12)) fb)"
  shows "mk_inv C' V (fb + 1)" "mk_keeps i C V C' V" "\<And>m. m < 268 \<Longrightarrow> m \<noteq> n \<Longrightarrow> fblock C' (V i) m = fblock C (V i) m"
proof -
  have ok: "slots_ok (\<lambda>i. slot C (V i)) (unat fb)" and fb46: "46 \<le> unat fb" and lenC: "\<And>b. length (C b) = 1024" using inv by (auto simp: mk_inv_def)
  have sa: "slot C (V i) 268 = a" using a by (simp add: slot_def)
  have ar: "46 \<le> unat a" "unat a < unat fb" using mk_invD(1,2) [OF inv i, of 268] sa a(2) by simp_all
  have ind: "iaddrs (V j) ! 12 \<noteq> a" if j: "inode_no j" "j \<noteq> i" for j
  proof
    assume "iaddrs (V j) ! 12 = a"
    then have "slot C (V i) 268 = slot C (V j) 268" using sa by (simp add: slot_def)
    then have "i = j \<and> (268 :: nat) = 268" by (intro mk_invD(3) [OF inv i _ _ j(1)]) (use sa a(2) in simp_all)
    then show False using j(2) by simp
  qed
  have nl: "4 * (n - 12) + 4 \<le> length (C a)" using n lenC by auto
  have g: "get32 (C' a) (4 * (m - 12)) = (if m = n then fb else get32 (C a) (4 * (m - 12)))" if "12 \<le> m" "m < 268" for m
  proof (cases "m = n")
    case True
    then show ?thesis using get32_put32_same [OF nl] by (simp add: C'_def)
  next
    case False
    then have "4 * (m - 12) + 4 \<le> 4 * (n - 12) \<or> 4 * (n - 12) + 4 \<le> 4 * (m - 12)" using that n by linarith
    then show ?thesis using False by (simp add: C'_def get32_put32_other)
  qed
  have S': "slot C' (V j) u = (if (j, u) = (i, n) then fb else slot C (V j) u)" if j: "inode_no j" "u < 269" for j u
  proof (cases "u < 12 \<or> u = 268")
    case True
    then show ?thesis using n by (auto simp: slot_def fblock_def)
  next
    case False
    then have u: "12 \<le> u" "u < 268" using j(2) by auto
    show ?thesis
    proof (cases "j = i")
      case True
      then show ?thesis using g [OF u] u a by (auto simp: slot_def fblock_def)
    next
      case False
      then show ?thesis using ind [OF j(1) False] u by (auto simp: slot_def fblock_def C'_def)
    qed
  qed
  show "fblock C' (V i) m = fblock C (V i) m" if "m < 268" "m \<noteq> n" for m using S' [OF i, of m] that by (simp add: slot_def)
  have "slots_ok (\<lambda>i. slot C' (V i)) (unat fb + 1)"
    by (rule slots_ok_alloc [OF ok fb46, of _ i n]) (use S' i n in auto)
  moreover have "C' b = replicate 1024 0" if "unat fb + 1 \<le> unat b" for b
    using that ar inv by (auto simp: C'_def mk_inv_def)
  ultimately show "mk_inv C' V (fb + 1)" using inv fb by (auto simp: mk_inv_def unat_next C'_def)
  have "fblock C' (V j) m = fblock C (V j) m \<and> C' (fblock C (V j) m) = C (fblock C (V j) m)"
    if j: "inode_no j" "m < 268" "fblock C (V j) m \<noteq> 0" for j m
  proof -
    have "(j, m) \<noteq> (i, n)" using j(3) n a by (auto simp: fblock_def)
    then have "slot C' (V j) m = slot C (V j) m" using S' [of j m] j by auto
    moreover have "slot C (V j) m \<noteq> a"
    proof
      assume "slot C (V j) m = a"
      then have "j = i \<and> m = 268" using j sa by (intro mk_invD(3) [OF inv j(1) _ _ i]) (simp_all add: slot_def)
      then show False using j(2) by simp
    qed
    ultimately show ?thesis using j(2) by (simp add: slot_def C'_def)
  qed
  moreover have "fblock C' (V j) m = fblock C (V j) m" if "inode_no j" "m < 268" "j \<noteq> i" for j m
    using S' [OF that(1), of m] that by (simp add: slot_def)
  moreover have "C' b = C b" if "unat b < 46" for b using ar that by (auto simp: C'_def)
  ultimately show "mk_keeps i C V C' V" unfolding mk_keeps_def by blast
qed

text \<open>Writing a data block of the file.\<close>

lemma write_data:
  assumes inv: "mk_inv C V fb" and i: "inode_no i" and n: "n < 268" "x = fblock C (V i) n" "x \<noteq> 0" and d: "length d = 1024"
  defines "C' \<equiv> C(x := d)"
  shows "mk_inv C' V fb" "\<And>j m. inode_no j \<Longrightarrow> m < 268 \<Longrightarrow> fblock C' (V j) m = fblock C (V j) m"
    "\<And>j m. inode_no j \<Longrightarrow> m < 268 \<Longrightarrow> fblock C (V j) m \<noteq> 0 \<Longrightarrow> (j, m) \<noteq> (i, n) \<Longrightarrow> C' (fblock C (V j) m) = C (fblock C (V j) m)"
    "\<And>b. unat b < 46 \<Longrightarrow> C' b = C b"
proof -
  have ok: "slots_ok (\<lambda>i. slot C (V i)) (unat fb)" using inv by (auto simp: mk_inv_def)
  have sx: "slot C (V i) n = x" using n by (simp add: slot_def)
  have xr: "46 \<le> unat x" "unat x < unat fb" using mk_invD(1,2) [OF inv i, of n] sx n by simp_all
  have ind: "iaddrs (V j) ! 12 \<noteq> x" if j: "inode_no j" for j
  proof
    assume "iaddrs (V j) ! 12 = x"
    then have "slot C (V i) n = slot C (V j) 268" using sx by (simp add: slot_def)
    then have "i = j \<and> n = 268" by (intro mk_invD(3) [OF inv i _ _ j]) (use sx n in simp_all)
    then show False using n(1) by simp
  qed
  show fb': "fblock C' (V j) m = fblock C (V j) m" if "inode_no j" "m < 268" for j m
    using ind [OF that(1)] by (simp add: fblock_def C'_def)
  show "C' (fblock C (V j) m) = C (fblock C (V j) m)" if "inode_no j" "m < 268" "fblock C (V j) m \<noteq> 0" "(j, m) \<noteq> (i, n)" for j m
  proof -
    have "fblock C (V j) m \<noteq> x"
    proof
      assume "fblock C (V j) m = x"
      then have "slot C (V i) n = slot C (V j) m" using sx that(2) by (simp add: slot_def)
      then have "i = j \<and> n = m" by (intro mk_invD(3) [OF inv i _ _ that(1)]) (use sx n that(2) in simp_all)
      then show False using that(4) by simp
    qed
    then show ?thesis by (simp add: C'_def)
  qed
  show "C' b = C b" if "unat b < 46" for b using that xr by (auto simp: C'_def)
  have "slot C' (V j) u = slot C (V j) u" if "inode_no j" "u < 269" for j u
    using fb' [OF that(1)] that(2) by (auto simp: slot_def)
  then have "slots_ok (\<lambda>i. slot C' (V i)) (unat fb)" using ok unfolding slots_ok_def by simp
  moreover have "C' b = replicate 1024 0" if "unat fb \<le> unat b" for b using that xr inv by (auto simp: C'_def mk_inv_def)
  ultimately show "mk_inv C' V fb" using inv d by (auto simp: mk_inv_def C'_def)
qed

section \<open>Appending\<close>

text \<open>What the block \<open>n\<close> of a file costs: an indirect block when there is none, and the block itself.\<close>

definition ind_cost :: "inode \<Rightarrow> nat \<Rightarrow> nat" where
  "ind_cost x n = (if 12 \<le> n \<and> iaddrs x ! 12 = 0 then 1 else 0)"

definition block_cost :: "(uint \<Rightarrow> block) \<Rightarrow> inode \<Rightarrow> nat \<Rightarrow> nat" where
  "block_cost C x n = ind_cost x n + (if fblock C x n = 0 then 1 else 0)"

lemma iappend_block_spec:
  assumes inv: "mk_inv (img s) V (freeblock s)" and i: "inode_no i" and n: "n < 268"
    and room: "unat (freeblock s) + block_cost (img s) (V i) n \<le> 2000"
  obtains x din' s' where "iappend_block n (V i) s = Inr (x, din', s')" "x = fblock (img s') din' n" "x \<noteq> 0" "unat x < 2000"
    "mk_inv (img s') (V(i := din')) (freeblock s')" "mk_keeps i (img s) V (img s') (V(i := din'))"
    "unat (freeblock s') = unat (freeblock s) + block_cost (img s) (V i) n" "freeinode s' = freeinode s"
    "din' = (V i)\<lparr>iaddrs := iaddrs din'\<rparr>" "\<And>m. m < 268 \<Longrightarrow> m \<noteq> n \<Longrightarrow> fblock (img s') din' m = fblock (img s) (V i) m"
    "iaddrs din' ! 12 = 0 \<longleftrightarrow> n < 12 \<and> iaddrs (V i) ! 12 = 0" "fblock (img s) (V i) n = 0 \<Longrightarrow> img s' x = replicate 1024 0"
proof -
  let ?din = "V i"
  have fb: "freeblock s \<noteq> 0" and len: "length (iaddrs ?din) = 13" using room inv i by (auto simp: mk_inv_def)
  have range: "unat x < 2000" if "mk_inv C W f" "inode_no i" "x = fblock C (W i) n" "x \<noteq> 0" for C W f x
  proof -
    have "unat (slot C (W i) n) < unat f" using mk_invD(2) [OF that(1,2), of n] that n by (simp add: slot_def)
    then show ?thesis using that n by (simp add: mk_inv_def slot_def)
  qed
  show ?thesis
  proof (cases "n < 12")
    case dir: True
    show ?thesis
    proof (cases "iaddrs ?din ! n = 0")
      case True
      let ?d = "?din\<lparr>iaddrs := (iaddrs ?din)[n := freeblock s]\<rparr>" and ?s = "s\<lparr>freeblock := freeblock s + 1\<rparr>"
      have fbn: "fblock (img s) ?din n = 0" using dir True by (simp add: fblock_def)
      have fb2: "unat (freeblock s) < 2000" using room fbn by (simp add: block_cost_def)
      note a = alloc_direct [OF inv i dir True fb2]
      have e: "iappend_block n ?din s = Inr (freeblock s, ?d, ?s)" using dir True len by (simp add: iappend_block_def)
      have x: "freeblock s = fblock (img ?s) ?d n" using dir len by (simp add: fblock_def)
      have z: "img s (freeblock s) = replicate 1024 0" using inv by (simp add: mk_inv_def)
      show ?thesis by (rule that [OF e x fb(1) fb2]) (use a z dir fbn in \<open>simp_all add: unat_next fb2 block_cost_def ind_cost_def\<close>)
    next
      case False
      have e: "iappend_block n ?din s = Inr (iaddrs ?din ! n, ?din, s)" using dir False by (simp add: iappend_block_def)
      have x: "iaddrs ?din ! n = fblock (img s) ?din n" using dir by (simp add: fblock_def)
      then have "fblock (img s) ?din n \<noteq> 0" using False by simp
      then show ?thesis by (intro that [OF e x False range [OF inv i x False]]) (use inv dir in \<open>simp_all add: block_cost_def ind_cost_def\<close>)
    qed
  next
    case indir: False
    then have n12: "12 \<le> n" by simp
    define V1 where "V1 = (if iaddrs ?din ! 12 = 0 then V(i := ?din\<lparr>iaddrs := (iaddrs ?din)[12 := freeblock s]\<rparr>) else V)"
    define s1 where "s1 = (if iaddrs ?din ! 12 = 0 then s\<lparr>freeblock := freeblock s + 1\<rparr> else s)"
    have ic: "unat (freeblock s) < 2000" if "iaddrs ?din ! 12 = 0" using room n12 that by (simp add: block_cost_def ind_cost_def)
    have 1: "mk_inv (img s1) V1 (freeblock s1)" "mk_keeps i (img s) V (img s1) V1" "V1 = V(i := V1 i)"
        "unat (freeblock s1) = unat (freeblock s) + ind_cost ?din n" "V1 i = ?din\<lparr>iaddrs := iaddrs (V1 i)\<rparr>"
        "freeinode s1 = freeinode s" "iaddrs (V1 i) ! 12 \<noteq> 0" "\<And>m. m < 268 \<Longrightarrow> fblock (img s1) (V1 i) m = fblock (img s) ?din m"
      using alloc_indirect [OF inv i _ ic] inv fb len n12 ic by (auto simp: V1_def s1_def unat_next ind_cost_def)
    let ?a = "iaddrs (V1 i) ! 12"
    have a: "unat ?a < 2000"
    proof -
      have "unat (slot (img s1) (V1 i) 268) < unat (freeblock s1)" using mk_invD(2) [OF 1(1) i, of 268] 1(7) by (simp add: slot_def)
      then show ?thesis using 1(1) by (simp add: mk_inv_def slot_def)
    qed
    have e: "iappend_block n ?din s = (let indirect = img s1 ?a; (indirect, s) = (if get32 indirect (4 * (n - 12)) = 0
          then let indirect = put32 indirect (4 * (n - 12)) (freeblock s1)
               in (indirect, wsect ?a indirect (s1\<lparr>freeblock := freeblock s1 + 1\<rparr>)) else (indirect, s1))
        in Inr (get32 indirect (4 * (n - 12)), V1 i, s))"
      by (cases "iaddrs ?din ! 12 = 0") (use indir a in \<open>simp_all add: iappend_block_def V1_def s1_def rsect_def Let_def\<close>)
    have fbn: "fblock (img s) ?din n = get32 (img s1 ?a) (4 * (n - 12))" using 1(8) [OF n] n12 1(7) by (simp add: fblock_def)
    show ?thesis
    proof (cases "get32 (img s1 ?a) (4 * (n - 12)) = 0")
      case True
      have fb1: "unat (freeblock s1) < 2000" "freeblock s1 \<noteq> 0" using 1(1,4) room fbn True by (auto simp: mk_inv_def block_cost_def)
      let ?C = "(img s1)(?a := put32 (img s1 ?a) (4 * (n - 12)) (freeblock s1))"
      let ?s = "wsect ?a (put32 (img s1 ?a) (4 * (n - 12)) (freeblock s1)) (s1\<lparr>freeblock := freeblock s1 + 1\<rparr>)"
      note c = alloc_entry [OF 1(1) i refl 1(7) n12 n True fb1(1)]
      have l: "length (img s1 ?a) = 1024" using 1(1) by (simp add: mk_inv_def)
      have g: "get32 (put32 (img s1 ?a) (4 * (n - 12)) (freeblock s1)) (4 * (n - 12)) = freeblock s1"
        by (rule get32_put32_same) (use n n12 l in auto)
      have e': "iappend_block n ?din s = Inr (freeblock s1, V1 i, ?s)" unfolding e using True g by (simp add: Let_def)
      have x: "freeblock s1 = fblock (img ?s) (V1 i) n" using indir g 1(7) by (simp add: fblock_def wsect_def)
      have "unat ?a < unat (freeblock s1)" using mk_invD(2) [OF 1(1) i, of 268] 1(7) by (simp add: slot_def)
      then have z: "?C (freeblock s1) = replicate 1024 0" using 1(1) by (auto simp: mk_inv_def)
      show ?thesis
        by (rule that [OF e' x fb1(2,1)])
          (use z c 1 indir fbn True mk_keeps_trans [OF 1(2) c(2)] in \<open>simp_all add: wsect_def unat_next [OF fb1(1)] 1(3) [symmetric] block_cost_def\<close>)
    next
      case False
      have e': "iappend_block n ?din s = Inr (get32 (img s1 ?a) (4 * (n - 12)), V1 i, s1)" unfolding e using False by (simp add: Let_def)
      have x: "get32 (img s1 ?a) (4 * (n - 12)) = fblock (img s1) (V1 i) n" using indir 1(7) by (simp add: fblock_def)
      show ?thesis
        by (rule that [OF e' x False range [OF 1(1) i x False]])
          (use 1 indir fbn False in \<open>simp_all add: 1(3) [symmetric] block_cost_def\<close>)
    qed
  qed
qed

text \<open>A file of \<open>off\<close> bytes has just the blocks it needs, with zeros after its end; \<open>blocks_for\<close> is their number, with the indirect block.\<close>

definition tight :: "(uint \<Rightarrow> block) \<Rightarrow> inode \<Rightarrow> nat \<Rightarrow> bool" where
  "tight C x off \<longleftrightarrow> (\<forall>m<268. fblock C x m \<noteq> 0 \<longleftrightarrow> m * 1024 < off) \<and> (iaddrs x ! 12 \<noteq> 0 \<longleftrightarrow> 12 * 1024 < off) \<and>
     (\<forall>k. k div 1024 < 268 \<longrightarrow> fblock C x (k div 1024) \<noteq> 0 \<longrightarrow> off \<le> k \<longrightarrow> fbyte C x k = 0)"

definition blocks_for :: "nat \<Rightarrow> nat" where
  "blocks_for off = (off + 1023) div 1024 + (if 12 * 1024 < off then 1 else 0)"

lemma blocks_for_step:
  assumes t: "tight C x off" and off: "off div 1024 < 268" and q: "0 < q" "off mod 1024 + q \<le> 1024"
  shows "blocks_for off + block_cost C x (off div 1024) = blocks_for (off + q)"
proof -
  define n r where "n = off div 1024" and "r = off mod 1024"
  have o: "off = 1024 * n + r" "r < 1024" by (simp_all add: n_def r_def)
  have f: "fblock C x n = 0 \<longleftrightarrow> r = 0" using t off o unfolding tight_def n_def [symmetric] by auto
  have i: "iaddrs x ! 12 = 0 \<longleftrightarrow> off \<le> 12288" using t by (auto simp: tight_def)
  have c: "(off + 1023) div 1024 = n + (if r = 0 then 0 else 1)" using o by (auto simp: div_nat_eqI)
  have c': "(off + q + 1023) div 1024 = n + 1" using o q r_def by (intro div_nat_eqI) auto
  have g: "12 * 1024 < off + q \<longleftrightarrow> 12 \<le> n" using o q r_def by auto
  have g': "12 \<le> n \<and> off \<le> 12288 \<longleftrightarrow> 12 \<le> n \<and> \<not> 12 * 1024 < off" by auto
  have g'': "12 * 1024 < off \<Longrightarrow> 12 \<le> n" using o by auto
  show ?thesis unfolding blocks_for_def block_cost_def ind_cost_def n_def [symmetric] f i c c' g g' using g'' by auto
qed

text \<open>The bytes that stay: those of the other files, and those of file \<open>i\<close> before \<open>off\<close>.\<close>

definition byte_keeps ::
  "(uint \<Rightarrow> block) \<Rightarrow> (uint \<Rightarrow> inode) \<Rightarrow> (uint \<Rightarrow> block) \<Rightarrow> (uint \<Rightarrow> inode) \<Rightarrow> uint \<Rightarrow> nat \<Rightarrow> bool" where
  "byte_keeps C V C' V' i off \<longleftrightarrow>
     (\<forall>j k. inode_no j \<longrightarrow> k div 1024 < 268 \<longrightarrow> fblock C (V j) (k div 1024) \<noteq> 0 \<longrightarrow> (j = i \<longrightarrow> k < off) \<longrightarrow>
        fblock C' (V' j) (k div 1024) \<noteq> 0 \<and> fbyte C' (V' j) k = fbyte C (V j) k) \<and>
     (\<forall>j m. inode_no j \<longrightarrow> m < 268 \<longrightarrow> j \<noteq> i \<longrightarrow> fblock C' (V' j) m = fblock C (V j) m) \<and>
     (\<forall>b. unat b < 46 \<longrightarrow> C' b = C b)"

lemma byte_keeps_refl [simp]: "byte_keeps C V C V i off"
  by (simp add: byte_keeps_def)

lemma byte_keepsD:
  assumes "byte_keeps C V C' V' i off"
  shows "inode_no j \<Longrightarrow> k div 1024 < 268 \<Longrightarrow> fblock C (V j) (k div 1024) \<noteq> 0 \<Longrightarrow> (j = i \<longrightarrow> k < off) \<Longrightarrow>
      fblock C' (V' j) (k div 1024) \<noteq> 0 \<and> fbyte C' (V' j) k = fbyte C (V j) k"
    "inode_no j \<Longrightarrow> m < 268 \<Longrightarrow> j \<noteq> i \<Longrightarrow> fblock C' (V' j) m = fblock C (V j) m"
    "unat b < 46 \<Longrightarrow> C' b = C b"
  using assms unfolding byte_keeps_def by blast+

lemma byte_keeps_trans:
  assumes 1: "byte_keeps C V C' V' i off" and 2: "byte_keeps C' V' C'' V'' i off'" and le: "off \<le> off'"
  shows "byte_keeps C V C'' V'' i off"
  unfolding byte_keeps_def
proof (intro conjI allI impI)
  fix j k assume a: "inode_no j" "k div 1024 < 268" "fblock C (V j) (k div 1024) \<noteq> 0" "j = i \<longrightarrow> k < off"
  note b = byte_keepsD(1) [OF 1 a]
  have "fblock C'' (V'' j) (k div 1024) \<noteq> 0 \<and> fbyte C'' (V'' j) k = fbyte C' (V' j) k"
    by (rule byte_keepsD(1) [OF 2 a(1,2)]) (use b a(4) le in auto)
  then show "fblock C'' (V'' j) (k div 1024) \<noteq> 0" "fbyte C'' (V'' j) k = fbyte C (V j) k" using b by simp_all
next
  fix j m assume a: "inode_no j" "m < (268 :: nat)" "j \<noteq> i"
  show "fblock C'' (V'' j) m = fblock C (V j) m" using byte_keepsD(2) [OF 1 a] byte_keepsD(2) [OF 2 a] by simp
next
  fix b :: uint assume "unat b < 46"
  then show "C'' b = C b" using byte_keepsD(3) [OF 1] byte_keepsD(3) [OF 2] by simp
qed

text \<open>One iteration of the loop.\<close>

lemma append_step:
  assumes inv: "mk_inv (img s) V (freeblock s)" and i: "inode_no i" and t: "tight (img s) (V i) off"
    and off: "off div 1024 < 268" and q: "q \<noteq> []" "off mod 1024 + length q \<le> 1024"
    and room: "unat (freeblock s) + blocks_for (off + length q) \<le> 2000 + blocks_for off"
  obtains x din1 s1 s2 where "iappend_block (off div 1024) (V i) s = Inr (x, din1, s1)" "rsect x s1 = Inr (img s1 x)"
    "s2 = wsect x (put_bytes (img s1 x) (off mod 1024) q) s1" "mk_inv (img s2) (V(i := din1)) (freeblock s2)"
    "byte_keeps (img s) V (img s2) (V(i := din1)) i off" "tight (img s2) din1 (off + length q)"
    "\<And>k. k < length q \<Longrightarrow> fbyte (img s2) din1 (off + k) = q ! k"
    "unat (freeblock s2) + blocks_for off = unat (freeblock s) + blocks_for (off + length q)" "freeinode s2 = freeinode s"
    "din1 = (V i)\<lparr>iaddrs := iaddrs din1\<rparr>"
proof -
  define n r where "n = off div 1024" and "r = off mod 1024"
  note nr = n_def [symmetric] r_def [symmetric]
  have o: "off = n * 1024 + r" "r < 1024" by (simp_all add: n_def r_def)
  note off = off [unfolded nr] and q = q [unfolded nr]
  have lq: "0 < length q" using q by simp
  note cost = blocks_for_step [OF t, unfolded nr, OF off lq q(2)]
  have "unat (freeblock s) + block_cost (img s) (V i) n \<le> 2000" using room cost by simp
  from iappend_block_spec [OF inv i off this] obtain x din1 s1
    where b: "iappend_block n (V i) s = Inr (x, din1, s1)" "x = fblock (img s1) din1 n" "x \<noteq> 0" "unat x < 2000"
      "mk_inv (img s1) (V(i := din1)) (freeblock s1)" "mk_keeps i (img s) V (img s1) (V(i := din1))"
      "unat (freeblock s1) = unat (freeblock s) + block_cost (img s) (V i) n" "freeinode s1 = freeinode s"
      "din1 = (V i)\<lparr>iaddrs := iaddrs din1\<rparr>" "\<And>m. m < 268 \<Longrightarrow> m \<noteq> n \<Longrightarrow> fblock (img s1) din1 m = fblock (img s) (V i) m"
      "iaddrs din1 ! 12 = 0 \<longleftrightarrow> n < 12 \<and> iaddrs (V i) ! 12 = 0" "fblock (img s) (V i) n = 0 \<Longrightarrow> img s1 x = replicate 1024 0" by blast
  let ?V = "V(i := din1)" and ?d = "put_bytes (img s1 x) r q"
  define s2 where "s2 = wsect x ?d s1"
  have l: "length (img s1 x) = 1024" using b(5) by (simp add: mk_inv_def)
  then have ld: "length ?d = 1024" by simp
  have Vi: "?V i = din1" by simp
  have x': "x = fblock (img s1) (?V i) n" using b(2) by simp
  have C: "img s2 = (img s1)(x := ?d)" by (simp add: s2_def wsect_def)
  note w = write_data [OF b(5) i off x' b(3) ld, folded C]
  have fx: "fblock (img s2) din1 n = x" using w(2) [OF i off] b(2) by simp
  have new: "fbyte (img s2) din1 (off + k) = q ! k" if "k < length q" for k
  proof -
    have "(off + k) div 1024 = n" using o that q(2) by (intro div_nat_eqI) simp_all
    moreover have "(off + k) mod 1024 = r + k" using that q(2) unfolding r_def by (subst mod_add_left_eq [symmetric]) simp
    ultimately show ?thesis using that q(2) fx l by (simp add: fbyte_def C put_bytes_nth)
  qed
  have keep: "fblock (img s2) (?V j) (k div 1024) \<noteq> 0 \<and> fbyte (img s2) (?V j) k = fbyte (img s) (V j) k"
    if a: "inode_no j" "k div 1024 < 268" "fblock (img s) (V j) (k div 1024) \<noteq> 0" "j = i \<longrightarrow> k < off" for j k
  proof -
    have 1: "fblock (img s1) (?V j) (k div 1024) = fblock (img s) (V j) (k div 1024)"
        "img s1 (fblock (img s) (V j) (k div 1024)) = img s (fblock (img s) (V j) (k div 1024))"
      using mk_keepsD(1) [OF b(6) a(1-3)] by simp_all
    have 2: "fblock (img s2) (?V j) (k div 1024) = fblock (img s) (V j) (k div 1024)" using w(2) [OF a(1,2)] 1(1) by simp
    have "fbyte (img s2) (?V j) k = fbyte (img s) (V j) k"
    proof (cases "(j, k div 1024) = (i, n)")
      case False
      have "img s2 (fblock (img s1) (?V j) (k div 1024)) = img s1 (fblock (img s1) (?V j) (k div 1024))"
        by (rule w(3) [OF a(1,2) _ False]) (use 1(1) a(3) in simp)
      then show ?thesis using 1 2 by (simp add: fbyte_def)
    next
      case True
      then have k: "k < off" "k div 1024 = n" "j = i" using a(4) by auto
      have km: "k mod 1024 < r" using k(1,2) o by (metis div_mult_mod_eq nat_add_left_cancel_less)
      have xe: "fblock (img s) (V j) (k div 1024) = x" using 2 fx k by simp
      have "fbyte (img s2) (?V j) k = ?d ! (k mod 1024)" using fx k by (simp add: fbyte_def C)
      also have "\<dots> = img s1 x ! (k mod 1024)" using km l by (simp add: put_bytes_nth)
      also have "\<dots> = fbyte (img s) (V j) k" using 1(2) xe by (simp add: fbyte_def)
      finally show ?thesis .
    qed
    then show ?thesis using 2 a(3) by simp
  qed
  have oth: "fblock (img s2) (?V j) m = fblock (img s) (V j) m" if "inode_no j" "m < 268" "j \<noteq> i" for j m
    using w(2) [OF that(1,2)] mk_keepsD(2) [OF b(6) that] by simp
  have "img s2 b = img s b" if "unat b < 46" for b using w(4) [OF that] b(6) that by (simp add: mk_keeps_def)
  then have bk: "byte_keeps (img s) V (img s2) ?V i off" unfolding byte_keeps_def using keep oth by blast
  have blk: "fblock (img s2) din1 m \<noteq> 0 \<longleftrightarrow> m * 1024 < off + length q" if "m < 268" for m
  proof (cases "m = n")
    case True
    then show ?thesis using fx b(3) lq o by auto
  next
    case False
    then have "fblock (img s2) din1 m = fblock (img s) (V i) m" using w(2) [OF i that] b(10) [OF that] by simp
    moreover have "m * 1024 < off + length q \<longleftrightarrow> m * 1024 < off" using False o q(2) by auto
    ultimately show ?thesis using t that by (simp add: tight_def)
  qed
  have "12 * 1024 < off + length q \<longleftrightarrow> 12 \<le> n" "12 * 1024 < off \<Longrightarrow> 12 \<le> n" using lq o q(2) by linarith+
  with blk have "iaddrs din1 ! 12 \<noteq> 0 \<longleftrightarrow> 12 * 1024 < off + length q" using b(11) t unfolding tight_def by auto
  moreover have "fbyte (img s2) din1 k = 0" if k: "k div 1024 < 268" "fblock (img s2) din1 (k div 1024) \<noteq> 0" "off + length q \<le> k" for k
  proof -
    have "k div 1024 * 1024 < off + length q" using blk k by blast
    then have "k div 1024 \<le> n" using o q(2) by linarith
    moreover have "n \<le> k div 1024" using k(3) o by (simp add: less_eq_div_iff_mult_less_eq)
    ultimately have kn: "k div 1024 = n" by simp
    have kr: "r + length q \<le> k mod 1024" using kn k(3) o(1) by (metis add.assoc div_mult_mod_eq nat_add_left_cancel_le)
    have e: "fbyte (img s2) din1 k = img s1 x ! (k mod 1024)" using fx kn kr l by (simp add: fbyte_def C put_bytes_nth)
    show ?thesis
    proof (cases "fblock (img s) (V i) n = 0")
      case True
      then show ?thesis using e b(12) by simp
    next
      case False
      then have "fblock (img s1) (?V i) n = fblock (img s) (V i) n" "img s1 (fblock (img s) (V i) n) = img s (fblock (img s) (V i) n)"
        using mk_keepsD(1) [OF b(6) i off] by simp_all
      then have "img s1 x ! (k mod 1024) = fbyte (img s) (V i) k" using b(2) kn by (simp add: fbyte_def)
      moreover have "fbyte (img s) (V i) k = 0" using t False kn k(1,3) by (simp add: tight_def)
      ultimately show ?thesis using e by simp
    qed
  qed
  ultimately have tg: "tight (img s2) din1 (off + length q)" using blk by (simp add: tight_def)
  have fs: "freeblock s2 = freeblock s1" "freeinode s2 = freeinode s1" by (simp_all add: s2_def wsect_def)
  have m: "mk_inv (img s2) ?V (freeblock s2)" unfolding fs by (rule w(1))
  show ?thesis
    by (rule that [unfolded nr, OF b(1) _ s2_def m bk tg new]) (use b(4,7,8,9) fs cost in \<open>simp_all add: rsect_def\<close>)
qed


lemma iappend_loop_spec:
  assumes "mk_inv (img s) V (freeblock s)" "inode_no i" "tight (img s) (V i) off" "off + length p \<le> 268 * 1024"
    "unat (freeblock s) + blocks_for (off + length p) \<le> 2000 + blocks_for off"
  shows "\<exists>din' s'. iappend_loop p off (V i) s = Inr (off + length p, din', s') \<and> mk_inv (img s') (V(i := din')) (freeblock s') \<and>
    byte_keeps (img s) V (img s') (V(i := din')) i off \<and> tight (img s') din' (off + length p) \<and>
    (\<forall>k<length p. fbyte (img s') din' (off + k) = p ! k) \<and>
    unat (freeblock s') + blocks_for off = unat (freeblock s) + blocks_for (off + length p) \<and>
    freeinode s' = freeinode s \<and> din' = (V i)\<lparr>iaddrs := iaddrs din'\<rparr>"
  using assms
proof (induction "length p" arbitrary: p V off s rule: less_induct)
  case less
  note inv = less.prems(1) and i = less.prems(2) and t = less.prems(3) and len = less.prems(4) and room = less.prems(5)
  show ?case
  proof (cases "p = []")
    case True
    then show ?thesis using inv t by (subst iappend_loop.simps) simp
  next
    case False
    define n r where "n = off div 1024" and "r = off mod 1024"
    define n1 where "n1 = min (length p) (1024 - r)"
    define q p' where "q = take n1 p" and "p' = drop n1 p"
    have o: "off = n * 1024 + r" "r < 1024" by (simp_all add: n_def r_def)
    have n1: "0 < n1" "n1 \<le> length p" "r + n1 \<le> 1024" using False o by (auto simp: n1_def)
    have q: "q \<noteq> []" "length q = n1" "p = q @ p'" "length p' = length p - n1" using False n1 by (simp_all add: q_def p'_def)
    have n: "n < 268" using o len n1 by linarith
    have mono: "blocks_for (off + n1) \<le> blocks_for (off + length p)" using n1(2) unfolding blocks_for_def by (auto intro: add_mono div_le_mono)
    have "unat (freeblock s) + blocks_for (off + length q) \<le> 2000 + blocks_for off" using room mono unfolding q(2) by linarith
    from append_step [OF inv i t n [unfolded n_def] q(1) n1(3) [folded q(2), unfolded r_def] this] obtain x din1 s1 s2
      where st: "iappend_block n (V i) s = Inr (x, din1, s1)" "rsect x s1 = Inr (img s1 x)"
        "s2 = wsect x (put_bytes (img s1 x) r q) s1" "mk_inv (img s2) (V(i := din1)) (freeblock s2)"
        "byte_keeps (img s) V (img s2) (V(i := din1)) i off" "tight (img s2) din1 (off + n1)"
        "\<And>k. k < n1 \<Longrightarrow> fbyte (img s2) din1 (off + k) = q ! k"
        "unat (freeblock s2) + blocks_for off = unat (freeblock s) + blocks_for (off + n1)" "freeinode s2 = freeinode s"
        "din1 = (V i)\<lparr>iaddrs := iaddrs din1\<rparr>" unfolding n_def r_def q(2) by blast
    let ?V = "V(i := din1)"
    have l: "off + n1 + length p' = off + length p" using q(4) n1 by simp
    have e: "iappend_loop p off (V i) s = iappend_loop p' (off + n1) din1 s2"
    proof -
      have "(n + 1) * 1024 - off = 1024 - r" "off - n * 1024 = r" using o by simp_all
      then show ?thesis
        using False n st(1,2) unfolding st(3) q_def p'_def n1_def by (subst iappend_loop.simps) (simp add: Let_def n_def [symmetric])
    qed
    have "length p' < length p" using q(4) n1 by simp
    have p: "tight (img s2) (?V i) (off + n1)" "off + n1 + length p' \<le> 268 * 1024"
        "unat (freeblock s2) + blocks_for (off + n1 + length p') \<le> 2000 + blocks_for (off + n1)"
      using st(6,8) len room unfolding l by simp_all
    obtain din' s' where "iappend_loop p' (off + n1) (?V i) s2 = Inr (off + n1 + length p', din', s') \<and> mk_inv (img s') (?V(i := din')) (freeblock s') \<and>
      byte_keeps (img s2) ?V (img s') (?V(i := din')) i (off + n1) \<and> tight (img s') din' (off + n1 + length p') \<and>
      (\<forall>k<length p'. fbyte (img s') din' (off + n1 + k) = p' ! k) \<and>
      unat (freeblock s') + blocks_for (off + n1) = unat (freeblock s2) + blocks_for (off + n1 + length p') \<and>
      freeinode s' = freeinode s2 \<and> din' = (?V i)\<lparr>iaddrs := iaddrs din'\<rparr>"
      using less.hyps [OF \<open>length p' < length p\<close> st(4) i p] by (elim exE)
    then have IH: "iappend_loop p' (off + n1) (?V i) s2 = Inr (off + n1 + length p', din', s')" "mk_inv (img s') (?V(i := din')) (freeblock s')"
        "byte_keeps (img s2) ?V (img s') (?V(i := din')) i (off + n1)" "tight (img s') din' (off + n1 + length p')"
        "\<forall>k<length p'. fbyte (img s') din' (off + n1 + k) = p' ! k"
        "unat (freeblock s') + blocks_for (off + n1) = unat (freeblock s2) + blocks_for (off + n1 + length p')"
        "freeinode s' = freeinode s2" "din' = (?V i)\<lparr>iaddrs := iaddrs din'\<rparr>" by - (elim conjE, assumption)+
    have VV: "?V(i := din') = V(i := din')" by simp
    have bytes: "fbyte (img s') din' (off + k) = p ! k" if "k < length p" for k
    proof (cases "k < n1")
      case True
      have k: "(off + k) div 1024 = n" using o n1(3) True by (intro div_nat_eqI) simp_all
      have "n * 1024 < off + n1" using o n1(1) by linarith
      then have "fblock (img s2) (?V i) ((off + k) div 1024) \<noteq> 0" using st(6) n k by (simp add: tight_def)
      then have "fbyte (img s') ((?V(i := din')) i) (off + k) = fbyte (img s2) (?V i) (off + k)"
        using byte_keepsD(1) [OF IH(3) i, of "off + k"] k n True by simp
      then show ?thesis using st(7) [OF True] True q(2) by (subst q(3)) (simp add: nth_append)
    next
      case False
      have "k - n1 < length p'" using that False q(4) by simp
      then have "fbyte (img s') din' (off + n1 + (k - n1)) = p' ! (k - n1)" using IH(5) by blast
      then show ?thesis using False q(2) by (subst q(3)) (simp add: nth_append)
    qed
    have "byte_keeps (img s) V (img s') (V(i := din')) i off" using byte_keeps_trans [OF st(5) IH(3)] unfolding VV by simp
    moreover have "din' = (V i)\<lparr>iaddrs := iaddrs din'\<rparr>" by (subst IH(8), simp, subst st(10), simp)
    ultimately show ?thesis using e IH(1,2,4,6,7) bytes st(8,9) l unfolding VV by (intro exI [of _ din'] exI [of _ s']) simp
  qed
qed


section \<open>The inodes in the image\<close>

definition mk_inode :: "(uint \<Rightarrow> block) \<Rightarrow> uint \<Rightarrow> inode" where
  "mk_inode C i = get_dinode (C (IBLOCK i mkfs_sb)) (dip_off i) zero_inode"

definition file_bytes :: "(uint \<Rightarrow> block) \<Rightarrow> uint \<Rightarrow> byte list" where
  "file_bytes C i = map (fbyte C (mk_inode C i)) [0..<unat (isize (mk_inode C i))]"

text \<open>The image between two calls of \<^verbatim>\<open>iappend\<close>.\<close>

definition mk_ok :: "mkst \<Rightarrow> bool" where
  "mk_ok s \<longleftrightarrow> mk_inv (img s) (mk_inode (img s)) (freeblock s) \<and>
     (\<forall>i. inode_no i \<longrightarrow> unat (isize (mk_inode (img s) i)) \<le> 268 * 1024 \<and>
        tight (img s) (mk_inode (img s) i) (unat (isize (mk_inode (img s) i))))"

lemma mk_okD:
  assumes "mk_ok s"
  shows "mk_inv (img s) (mk_inode (img s)) (freeblock s)" "\<And>b. length (img s b) = 1024"
    "inode_no i \<Longrightarrow> unat (isize (mk_inode (img s) i)) \<le> 268 * 1024"
    "inode_no i \<Longrightarrow> tight (img s) (mk_inode (img s) i) (unat (isize (mk_inode (img s) i)))"
  using assms by (auto simp: mk_ok_def mk_inv_def)

lemma iblock_range:
  assumes "inode_no i" shows "unat (IBLOCK i mkfs_sb) < 45" "32 \<le> unat (IBLOCK i mkfs_sb)"
proof -
  have "unat (i div 16 + 32) = unat i div 16 + 32" using assms by (simp add: unat_word_ariths unat_div)
  then show "unat (IBLOCK i mkfs_sb) < 45" "32 \<le> unat (IBLOCK i mkfs_sb)" using assms by (auto simp: IBLOCK_def mkfs_sb_eq example_sb_def)
qed

definition on_disk :: "inode \<Rightarrow> bool" where
  "on_disk x \<longleftrightarrow> x = zero_inode\<lparr>itype := itype x, imajor := imajor x, iminor := iminor x, inlink := inlink x, isize := isize x, iaddrs := iaddrs x\<rparr>"

lemma on_disk_inode [simp]: "on_disk (mk_inode C i)"
  by (simp add: on_disk_def mk_inode_def get_dinode_def)

lemma on_disk_upd: "on_disk x \<Longrightarrow> on_disk (x\<lparr>iaddrs := a\<rparr>)" "on_disk x \<Longrightarrow> on_disk (x\<lparr>isize := n\<rparr>)"
  by (cases x, simp add: on_disk_def zero_inode_def)+

lemma on_disk_eq: "on_disk x \<Longrightarrow> on_disk y \<Longrightarrow> meta x = meta y \<Longrightarrow> x = y"
  unfolding on_disk_def meta_def by (metis prod.inject)

lemma mk_inode_len [simp]: "length (iaddrs (mk_inode C i)) = 13"
  by (simp add: mk_inode_def get_dinode_def get32s_def)

lemma mk_inode_put:
  assumes "length (C (IBLOCK i mkfs_sb)) = 1024" "length (iaddrs x) = 13" "on_disk x"
  shows "mk_inode (C(IBLOCK i mkfs_sb := put_dinode x (dip_off i) (C (IBLOCK i mkfs_sb)))) = (mk_inode C)(i := x)"
proof
  fix j
  have "meta (mk_inode (C(IBLOCK i mkfs_sb := put_dinode x (dip_off i) (C (IBLOCK i mkfs_sb)))) j) = meta (((mk_inode C)(i := x)) j)"
    using dinode_put [of C i mkfs_sb x j, OF assms(1,2)] by (simp add: dinode_def mk_inode_def)
  then show "mk_inode (C(IBLOCK i mkfs_sb := put_dinode x (dip_off i) (C (IBLOCK i mkfs_sb)))) j = ((mk_inode C)(i := x)) j"
    by (rule on_disk_eq [rotated 2]) (use assms(3) in simp_all)
qed

lemma mk_inode_cong: "(\<And>b. unat b < 46 \<Longrightarrow> C' b = C b) \<Longrightarrow> inode_no i \<Longrightarrow> mk_inode C' i = mk_inode C i"
  using iblock_range [of i] by (simp add: mk_inode_def)

text \<open>A change of the blocks below 46 is not seen in the files.\<close>

lemma low_blocks:
  assumes inv: "mk_inv C V fb" and C': "\<And>b. 46 \<le> unat b \<Longrightarrow> C' b = C b" "\<And>b. length (C' b) = 1024"
  shows "inode_no i \<Longrightarrow> m < 268 \<Longrightarrow> fblock C' (V i) m = fblock C (V i) m" "mk_inv C' V fb"
    "inode_no i \<Longrightarrow> k div 1024 < 268 \<Longrightarrow> fblock C (V i) (k div 1024) \<noteq> 0 \<Longrightarrow> fbyte C' (V i) k = fbyte C (V i) k"
    "inode_no i \<Longrightarrow> tight C' (V i) off = tight C (V i) off"
proof -
  have f: "fblock C' (V i) m = fblock C (V i) m" if "inode_no i" for i m
  proof -
    have "iaddrs (V i) ! 12 \<noteq> 0 \<Longrightarrow> 46 \<le> unat (iaddrs (V i) ! 12)" using mk_invD(1) [OF inv that, of 268] by (simp add: slot_def)
    then show ?thesis using C'(1) by (auto simp: fblock_def)
  qed
  then show "inode_no i \<Longrightarrow> m < 268 \<Longrightarrow> fblock C' (V i) m = fblock C (V i) m" by simp
  have "slot C' (V j) u = slot C (V j) u" if "inode_no j" "u < 269" for j u using f [OF that(1)] by (simp add: slot_def)
  then have "slots_ok (\<lambda>i. slot C' (V i)) (unat fb)" using inv unfolding mk_inv_def slots_ok_def by simp
  then show "mk_inv C' V fb" using inv C' by (auto simp: mk_inv_def)
  show b: "fbyte C' (V i) k = fbyte C (V i) k" if "inode_no i" "k div 1024 < 268" "fblock C (V i) (k div 1024) \<noteq> 0" for k
    using mk_invD(1) [OF inv that(1), of "k div 1024"] that f C'(1) by (simp add: slot_def fbyte_def)
  show "tight C' (V i) off = tight C (V i) off" if "inode_no i" using f [OF that] b [OF that] by (simp add: tight_def)
qed


lemma same_iaddrs:
  assumes "\<And>j. inode_no j \<Longrightarrow> iaddrs (V' j) = iaddrs (V j)"
  shows "mk_inv C V' fb = mk_inv C V fb" "inode_no j \<Longrightarrow> fbyte C (V' j) k = fbyte C (V j) k"
    "inode_no j \<Longrightarrow> tight C (V' j) off = tight C (V j) off"
proof -
  have f: "fblock C (V' j) m = fblock C (V j) m" if "inode_no j" for j m using assms [OF that] by (simp add: fblock_def)
  have s: "slot C (V' j) t = slot C (V j) t" if "inode_no j" for j t using assms [OF that] f [OF that] by (simp add: slot_def)
  then have "slots_ok (\<lambda>i. slot C (V' i)) (unat fb) = slots_ok (\<lambda>i. slot C (V i)) (unat fb)" unfolding slots_ok_def by simp
  then show "mk_inv C V' fb = mk_inv C V fb" using assms by (simp add: mk_inv_def)
  show "fbyte C (V' j) k = fbyte C (V j) k" if "inode_no j" using f [OF that] by (simp add: fbyte_def)
  show "tight C (V' j) off = tight C (V j) off" if "inode_no j" using assms [OF that] f [OF that] by (simp add: tight_def fbyte_def)
qed

lemma rinode_spec: "inode_no i \<Longrightarrow> rinode i s = Inr (mk_inode (img s) i)"
  using iblock_range(1) [of i] by (simp add: rinode_def rsect_def mk_inode_def)

text \<open>Writing the dinode of \<open>i\<close>.\<close>

lemma winode_spec:
  assumes inv: "mk_inv (img s) V (freeblock s)" and i: "inode_no i" and x: "length (iaddrs x) = 13" "on_disk x"
    and same: "iaddrs x = iaddrs (V i)" and V: "\<And>j. inode_no j \<Longrightarrow> j \<noteq> i \<Longrightarrow> mk_inode (img s) j = V j"
  obtains s' where "winode i x s = Inr s'" "mk_inv (img s') (mk_inode (img s')) (freeblock s')" "freeblock s' = freeblock s" "freeinode s' = freeinode s"
    "mk_inode (img s') i = x" "\<And>j. inode_no j \<Longrightarrow> j \<noteq> i \<Longrightarrow> mk_inode (img s') j = V j"
    "\<And>b. unat b < 32 \<or> 45 \<le> unat b \<Longrightarrow> img s' b = img s b"
    "\<And>j k. inode_no j \<Longrightarrow> k div 1024 < 268 \<Longrightarrow> fblock (img s) (V j) (k div 1024) \<noteq> 0 \<Longrightarrow>
      fbyte (img s') (mk_inode (img s') j) k = fbyte (img s) (V j) k"
    "\<And>j off. inode_no j \<Longrightarrow> tight (img s') (mk_inode (img s') j) off = tight (img s) (V j) off"
    "\<And>j m. inode_no j \<Longrightarrow> m < 268 \<Longrightarrow> fblock (img s') (mk_inode (img s') j) m = fblock (img s) (V j) m"
proof -
  let ?B = "IBLOCK i mkfs_sb"
  let ?C = "(img s)(?B := put_dinode x (dip_off i) (img s ?B))"
  let ?s = "wsect ?B (put_dinode x (dip_off i) (img s ?B)) s"
  note B = iblock_range [OF i]
  have l: "\<And>b. length (img s b) = 1024" using inv by (simp add: mk_inv_def)
  have len: "length (?C b) = 1024" for b using l by (simp add: put_dinode_def Let_def put16_def put32_def)
  have img: "img ?s = ?C" by (simp add: wsect_def)
  have hi: "?C b = img s b" if "46 \<le> unat b" for b using B that by auto
  have lo: "mk_inv ?C V (freeblock s)" "tight ?C (V j) off = tight (img s) (V j) off" if "inode_no j" for j off
    using low_blocks(2,4) [OF inv, of ?C] hi len that by blast+
  have lob: "fbyte ?C (V j) k = fbyte (img s) (V j) k" if "inode_no j" "k div 1024 < 268" "fblock (img s) (V j) (k div 1024) \<noteq> 0" for j k
    using low_blocks(3) [OF inv, of ?C] hi len that by blast
  have mi: "mk_inode ?C = (mk_inode (img s))(i := x)" by (rule mk_inode_put [OF l x])
  have ia: "iaddrs (mk_inode ?C j) = iaddrs (V j)" if "inode_no j" for j using V [OF that] same by (simp add: mi)
  have sa: "mk_inv ?C (mk_inode ?C) (freeblock s)" "fbyte ?C (mk_inode ?C j) k = fbyte ?C (V j) k" "tight ?C (mk_inode ?C j) off = tight ?C (V j) off"
    if "inode_no j" for j k off using same_iaddrs [of "mk_inode ?C" V] ia that lo(1) by blast+
  show ?thesis
  proof (rule that [of ?s])
    show "winode i x s = Inr ?s" using B by (simp add: winode_def rsect_def Let_def)
    show "mk_inv (img ?s) (mk_inode (img ?s)) (freeblock ?s)" using sa(1) [OF i] unfolding img by (simp add: wsect_def)
    show "freeblock ?s = freeblock s" "freeinode ?s = freeinode s" by (simp_all add: wsect_def)
    show "mk_inode (img ?s) i = x" unfolding img mi by simp
    show "mk_inode (img ?s) j = V j" if "inode_no j" "j \<noteq> i" for j unfolding img mi using V that by simp
    show "img ?s b = img s b" if "unat b < 32 \<or> 45 \<le> unat b" for b unfolding img using B that by auto
    show "fbyte (img ?s) (mk_inode (img ?s) j) k = fbyte (img s) (V j) k"
      if "inode_no j" "k div 1024 < 268" "fblock (img s) (V j) (k div 1024) \<noteq> 0" for j k
      unfolding img sa(2) [OF that(1)] by (rule lob [OF that])
    show "tight (img ?s) (mk_inode (img ?s) j) off = tight (img s) (V j) off" if "inode_no j" for j off
      unfolding img sa(3) [OF that] by (rule lo(2) [OF that])
    show "fblock (img ?s) (mk_inode (img ?s) j) m = fblock (img s) (V j) m" if "inode_no j" "m < 268" for j m
    proof -
      have "fblock ?C (V j) m = fblock (img s) (V j) m" using low_blocks(1) [OF inv, of ?C] hi len that by blast
      moreover have "fblock ?C (mk_inode ?C j) m = fblock ?C (V j) m" unfolding fblock_def ia [OF that(1)] ..
      ultimately show ?thesis unfolding img by simp
    qed
  qed
qed


lemma file_bytes_keep:
  assumes "isize x' = isize x" "unat (isize x) \<le> 268 * 1024" "tight C x (unat (isize x))"
    and "\<And>k. k div 1024 < 268 \<Longrightarrow> fblock C x (k div 1024) \<noteq> 0 \<Longrightarrow> fbyte C' x' k = fbyte C x k"
  shows "map (fbyte C' x') [0..<unat (isize x')] = map (fbyte C x) [0..<unat (isize x)]"
proof (rule map_cong)
  fix k assume "k \<in> set [0..<unat (isize x)]"
  then have k: "k < unat (isize x)" by simp
  have "k div 1024 < 268" using k assms(2) by (simp add: div_less_iff_less_mult)
  moreover have "k div 1024 * 1024 < unat (isize x)" using k by (meson div_times_less_eq_dividend order_le_less_trans)
  ultimately show "fbyte C' x' k = fbyte C x k" using assms(3) by (intro assms(4)) (simp_all add: tight_def)
qed (simp add: assms(1))

lemma tight_block:
  "tight C x off \<Longrightarrow> off \<le> 268 * 1024 \<Longrightarrow> k < off \<Longrightarrow> k div 1024 < 268 \<and> fblock C x (k div 1024) \<noteq> 0"
proof -
  assume a: "tight C x off" "off \<le> 268 * 1024" "k < off"
  have "k div 1024 < 268" using a by (simp add: div_less_iff_less_mult)
  moreover have "k div 1024 * 1024 < off" using a(3) by (meson div_times_less_eq_dividend order_le_less_trans)
  ultimately show ?thesis using a(1) by (simp add: tight_def)
qed

lemma iappend_spec:
  assumes ok: "mk_ok s" and i: "inode_no i" and x: "x = mk_inode (img s) i" and n: "n = unat (isize x)"
    and len: "n + length p \<le> 268 * 1024" and room: "unat (freeblock s) + blocks_for (n + length p) \<le> 2000 + blocks_for n"
  obtains s' where "iappend i p s = Inr s'" "mk_ok s'" "file_bytes (img s') i = file_bytes (img s) i @ p"
    "mk_inode (img s') i = x\<lparr>isize := of_nat (n + length p), iaddrs := iaddrs (mk_inode (img s') i)\<rparr>"
    "\<And>j. inode_no j \<Longrightarrow> j \<noteq> i \<Longrightarrow> mk_inode (img s') j = mk_inode (img s) j \<and> file_bytes (img s') j = file_bytes (img s) j"
    "unat (freeblock s') + blocks_for n = unat (freeblock s) + blocks_for (n + length p)" "freeinode s' = freeinode s"
    "\<And>b. unat b < 32 \<Longrightarrow> img s' b = img s b"
proof -
  let ?V = "mk_inode (img s)"
  note okd = mk_okD [OF ok]
  have inv: "mk_inv (img s) ?V (freeblock s)" and t: "tight (img s) (?V i) n" using okd(1) okd(4) [OF i] by (simp_all add: x n)
  obtain d s1 where "iappend_loop p n (?V i) s = Inr (n + length p, d, s1) \<and> mk_inv (img s1) (?V(i := d)) (freeblock s1) \<and>
    byte_keeps (img s) ?V (img s1) (?V(i := d)) i n \<and> tight (img s1) d (n + length p) \<and>
    (\<forall>k<length p. fbyte (img s1) d (n + k) = p ! k) \<and>
    unat (freeblock s1) + blocks_for n = unat (freeblock s) + blocks_for (n + length p) \<and>
    freeinode s1 = freeinode s \<and> d = (?V i)\<lparr>iaddrs := iaddrs d\<rparr>"
    using iappend_loop_spec [OF inv i t len room] by (elim exE)
  then have l: "iappend_loop p n (?V i) s = Inr (n + length p, d, s1)" "mk_inv (img s1) (?V(i := d)) (freeblock s1)"
    "byte_keeps (img s) ?V (img s1) (?V(i := d)) i n" "tight (img s1) d (n + length p)"
    "\<forall>k<length p. fbyte (img s1) d (n + k) = p ! k"
    "unat (freeblock s1) + blocks_for n = unat (freeblock s) + blocks_for (n + length p)"
    "freeinode s1 = freeinode s" "d = (?V i)\<lparr>iaddrs := iaddrs d\<rparr>" by - (elim conjE, assumption)+
  let ?W = "?V(i := d)" and ?y = "d\<lparr>isize := of_nat (n + length p)\<rparr>"
  have sz: "unat (of_nat (n + length p) :: uint) = n + length p" by (subst unat_of_nat) (use len in \<open>simp add: take_bit_eq_mod\<close>)
  have "length (iaddrs (?W i)) = 13" using l(2) i unfolding mk_inv_def by blast
  then have ld: "length (iaddrs ?y) = 13" by simp
  have od: "on_disk ?y" by (subst l(8)) (intro on_disk_upd on_disk_inode)
  have V1: "mk_inode (img s1) j = ?W j" if "inode_no j" "j \<noteq> i" for j
    using mk_inode_cong [OF byte_keepsD(3) [OF l(3)] that(1)] that(2) by simp
  have ia: "iaddrs ?y = iaddrs (?W i)" by simp
  obtain s' where w: "winode i ?y s1 = Inr s'" "mk_inv (img s') (mk_inode (img s')) (freeblock s')" "freeblock s' = freeblock s1"
    "freeinode s' = freeinode s1" "mk_inode (img s') i = ?y" "\<And>j. inode_no j \<Longrightarrow> j \<noteq> i \<Longrightarrow> mk_inode (img s') j = ?W j"
    "\<And>b. unat b < 32 \<or> 45 \<le> unat b \<Longrightarrow> img s' b = img s1 b"
    "\<And>j k. inode_no j \<Longrightarrow> k div 1024 < 268 \<Longrightarrow> fblock (img s1) (?W j) (k div 1024) \<noteq> 0 \<Longrightarrow>
      fbyte (img s') (mk_inode (img s') j) k = fbyte (img s1) (?W j) k"
    "\<And>j off. inode_no j \<Longrightarrow> tight (img s') (mk_inode (img s') j) off = tight (img s1) (?W j) off"
    by (rule winode_spec [OF l(2) i ld od ia]) (erule (1) V1, rule that)
  have e: "iappend i p s = Inr s'" using l(1) w(1) by (simp add: iappend_def rinode_spec [OF i] x [symmetric] n [symmetric])
  have other: "mk_inode (img s') j = ?V j" if "inode_no j" "j \<noteq> i" for j using w(6) [OF that] that by simp
  have keep: "fbyte (img s') (mk_inode (img s') j) k = fbyte (img s) (?V j) k"
    if a: "inode_no j" "k div 1024 < 268" "fblock (img s) (?V j) (k div 1024) \<noteq> 0" "j = i \<longrightarrow> k < n" for j k
    using byte_keepsD(1) [OF l(3) a] w(8) [OF a(1,2)] by simp
  show ?thesis
  proof (rule that [OF e])
    have "tight (img s') (mk_inode (img s') j) (unat (isize (mk_inode (img s') j))) \<and> unat (isize (mk_inode (img s') j)) \<le> 268 * 1024"
      if j: "inode_no j" for j
    proof (cases "j = i")
      case True
      then show ?thesis unfolding w(9) [OF j] using l(4) w(5) sz len by simp
    next
      case False
      have "fblock (img s1) (?W j) m = fblock (img s) (?V j) m" if "m < 268" for m by (rule byte_keepsD(2) [OF l(3) j that False])
      moreover have "fbyte (img s1) (?W j) k = fbyte (img s) (?V j) k" if "k div 1024 < 268" "fblock (img s) (?V j) (k div 1024) \<noteq> 0" for k
        using byte_keepsD(1) [OF l(3) j that] False by blast
      moreover have "iaddrs (?W j) = iaddrs (?V j)" using False by simp
      ultimately have "tight (img s1) (?W j) off = tight (img s) (?V j) off" for off by (simp add: tight_def del: fun_upd_apply)
      then show ?thesis unfolding w(9) [OF j] using other [OF j False] okd(3,4) [OF j] False by simp
    qed
    then show "mk_ok s'" using w(2) by (simp add: mk_ok_def)
    show "file_bytes (img s') i = file_bytes (img s) i @ p"
    proof (rule nth_equalityI)
      show lens: "length (file_bytes (img s') i) = length (file_bytes (img s) i @ p)" using w(5) sz by (simp add: file_bytes_def x n)
      fix k assume "k < length (file_bytes (img s') i)"
      then have k: "k < n + length p" using w(5) sz by (simp add: file_bytes_def)
      then have nth: "file_bytes (img s') i ! k = fbyte (img s') (mk_inode (img s') i) k" using w(5) sz by (simp add: file_bytes_def)
      show "file_bytes (img s') i ! k = (file_bytes (img s) i @ p) ! k"
      proof (cases "k < n")
        case True
        have "k div 1024 < 268 \<and> fblock (img s) (?V i) (k div 1024) \<noteq> 0" by (rule tight_block [OF t _ True]) (use len in simp)
        then have "fbyte (img s') (mk_inode (img s') i) k = fbyte (img s) (?V i) k" using keep [OF i] True by simp
        then show ?thesis unfolding nth using True by (simp add: nth_append file_bytes_def x n)
      next
        case False
        have "k div 1024 < 268 \<and> fblock (img s1) d (k div 1024) \<noteq> 0" by (rule tight_block [OF l(4) len k])
        then have "fbyte (img s') (mk_inode (img s') i) k = fbyte (img s1) d (n + (k - n))" using w(8) [OF i, of k] False by simp
        also have "\<dots> = p ! (k - n)" using l(5) [rule_format, of "k - n"] k False by simp
        finally show ?thesis unfolding nth using False by (simp add: nth_append file_bytes_def x n)
      qed
    qed
    show "mk_inode (img s') i = x\<lparr>isize := of_nat (n + length p), iaddrs := iaddrs (mk_inode (img s') i)\<rparr>"
      unfolding w(5) x by (subst l(8)) simp
    show "mk_inode (img s') j = ?V j \<and> file_bytes (img s') j = file_bytes (img s) j" if j: "inode_no j" "j \<noteq> i" for j
    proof
      show o: "mk_inode (img s') j = ?V j" by (rule other [OF j])
      show "file_bytes (img s') j = file_bytes (img s) j"
        unfolding file_bytes_def by (rule file_bytes_keep) (use o okd(3,4) [OF j(1)] keep [OF j(1)] j(2) in auto)
    qed
    show "unat (freeblock s') + blocks_for n = unat (freeblock s) + blocks_for (n + length p)" using l(6) w(3) by simp
    show "freeinode s' = freeinode s" using l(7) w(4) by simp
    show "img s' b = img s b" if "unat b < 32" for b using w(7) byte_keepsD(3) [OF l(3)] that by simp
  qed
qed


text \<open>Allocating an inode.\<close>

lemma mk_inv_reset:
  assumes inv: "mk_inv C V fb" and x: "iaddrs x = replicate 13 0"
  shows "mk_inv C (V(i := x)) fb"
proof -
  have "slot C x t = 0" if "t < 269" for t using x by (simp add: slot_def fblock_def)
  then have "slots_ok (\<lambda>j. slot C ((V(i := x)) j)) (unat fb)" using inv unfolding mk_inv_def slots_ok_def by (simp add: if_distrib)
  then show ?thesis using inv x by (auto simp: mk_inv_def)
qed

lemma tight_empty: "iaddrs x = replicate 13 0 \<Longrightarrow> tight C x 0"
  by (simp add: tight_def fblock_def)

lemma ialloc_spec:
  assumes ok: "mk_ok s" and i: "inode_no i" "i = freeinode s"
  obtains s' where "mk_ialloc type s = Inr (i, s')" "mk_ok s'" "mk_inode (img s') i = zero_inode\<lparr>itype := type, inlink := 1\<rparr>"
    "\<And>j. inode_no j \<Longrightarrow> j \<noteq> i \<Longrightarrow> mk_inode (img s') j = mk_inode (img s) j \<and> file_bytes (img s') j = file_bytes (img s) j"
    "freeblock s' = freeblock s" "freeinode s' = freeinode s + 1" "\<And>b. unat b < 32 \<Longrightarrow> img s' b = img s b"
proof -
  let ?x = "zero_inode\<lparr>itype := type, inlink := 1\<rparr>" and ?s = "s\<lparr>freeinode := freeinode s + 1\<rparr>"
  let ?V = "mk_inode (img s)"
  note okd = mk_okD [OF ok]
  have x: "iaddrs ?x = replicate 13 0" "isize ?x = 0" "?x\<lparr>isize := 0\<rparr> = ?x" by (simp_all add: zero_inode_def)
  have inv: "mk_inv (img ?s) (?V(i := ?x)) (freeblock ?s)" using mk_inv_reset [OF okd(1) x(1)] by simp
  have l: "length (iaddrs ?x) = 13" "on_disk ?x" "iaddrs ?x = iaddrs ((?V(i := ?x)) i)" using x by (simp_all add: on_disk_def)
  have V: "mk_inode (img ?s) j = (?V(i := ?x)) j" if "inode_no j" "j \<noteq> i" for j using that by simp
  obtain s' where w: "winode i ?x ?s = Inr s'" "mk_inv (img s') (mk_inode (img s')) (freeblock s')" "freeblock s' = freeblock ?s"
    "freeinode s' = freeinode ?s" "mk_inode (img s') i = ?x" "\<And>j. inode_no j \<Longrightarrow> j \<noteq> i \<Longrightarrow> mk_inode (img s') j = (?V(i := ?x)) j"
    "\<And>b. unat b < 32 \<or> 45 \<le> unat b \<Longrightarrow> img s' b = img ?s b"
    "\<And>j k. inode_no j \<Longrightarrow> k div 1024 < 268 \<Longrightarrow> fblock (img ?s) ((?V(i := ?x)) j) (k div 1024) \<noteq> 0 \<Longrightarrow>
      fbyte (img s') (mk_inode (img s') j) k = fbyte (img ?s) ((?V(i := ?x)) j) k"
    "\<And>j off. inode_no j \<Longrightarrow> tight (img s') (mk_inode (img s') j) off = tight (img ?s) ((?V(i := ?x)) j) off"
    by (rule winode_spec [OF inv i(1) l]) (erule (1) V, rule that)
  have e: "mk_ialloc type s = Inr (i, s')" using w(1) i(2) x(3) by (simp add: mk_ialloc_def Let_def)
  show ?thesis
  proof (rule that [OF e])
    have "tight (img s') (mk_inode (img s') j) (unat (isize (mk_inode (img s') j))) \<and> unat (isize (mk_inode (img s') j)) \<le> 268 * 1024"
      if j: "inode_no j" for j
      unfolding w(9) [OF j] using w(5) w(6) [OF j] x tight_empty [OF x(1)] okd(3,4) [OF j] by (cases "j = i") simp_all
    then show "mk_ok s'" using w(2) by (simp add: mk_ok_def)
    show "mk_inode (img s') i = ?x" by (rule w(5))
    show "mk_inode (img s') j = ?V j \<and> file_bytes (img s') j = file_bytes (img s) j" if j: "inode_no j" "j \<noteq> i" for j
    proof
      show o: "mk_inode (img s') j = ?V j" using w(6) [OF j] j by simp
      show "file_bytes (img s') j = file_bytes (img s) j"
        unfolding file_bytes_def by (rule file_bytes_keep) (use o okd(3,4) [OF j(1)] w(8) [OF j(1)] j(2) in auto)
    qed
  qed (use w in simp_all)
qed

lemma append_pieces_spec:
  assumes "mk_ok s" "inode_no i" "n = unat (isize (mk_inode (img s) i))" "n + length (concat ps) \<le> 268 * 1024"
    "unat (freeblock s) + blocks_for (n + length (concat ps)) \<le> 2000 + blocks_for n"
  shows "\<exists>s'. append_pieces i ps s = Inr s' \<and> mk_ok s' \<and> file_bytes (img s') i = file_bytes (img s) i @ concat ps \<and>
    mk_inode (img s') i = (mk_inode (img s) i)\<lparr>isize := of_nat (n + length (concat ps)), iaddrs := iaddrs (mk_inode (img s') i)\<rparr> \<and>
    (\<forall>j. inode_no j \<longrightarrow> j \<noteq> i \<longrightarrow> mk_inode (img s') j = mk_inode (img s) j \<and> file_bytes (img s') j = file_bytes (img s) j) \<and>
    unat (freeblock s') + blocks_for n = unat (freeblock s) + blocks_for (n + length (concat ps)) \<and> freeinode s' = freeinode s \<and>
    (\<forall>b. unat b < 32 \<longrightarrow> img s' b = img s b)"
  using assms
proof (induction ps arbitrary: s n)
  case Nil
  then have "of_nat n = isize (mk_inode (img s) i)" by simp
  then show ?case using Nil.prems(1) by simp
next
  case (Cons p ps)
  have mono: "blocks_for (n + length p) \<le> blocks_for (n + length (concat (p # ps)))" unfolding blocks_for_def by (auto intro: add_mono div_le_mono)
  obtain s1 where s1: "iappend i p s = Inr s1" "mk_ok s1" "file_bytes (img s1) i = file_bytes (img s) i @ p"
    "mk_inode (img s1) i = (mk_inode (img s) i)\<lparr>isize := of_nat (n + length p), iaddrs := iaddrs (mk_inode (img s1) i)\<rparr>"
    "\<And>j. inode_no j \<Longrightarrow> j \<noteq> i \<Longrightarrow> mk_inode (img s1) j = mk_inode (img s) j \<and> file_bytes (img s1) j = file_bytes (img s) j"
    "unat (freeblock s1) + blocks_for n = unat (freeblock s) + blocks_for (n + length p)" "freeinode s1 = freeinode s"
    "\<And>b. unat b < 32 \<Longrightarrow> img s1 b = img s b"
    by (rule iappend_spec [OF Cons.prems(1,2) refl Cons.prems(3), of p]) (use Cons.prems(4,5) mono in \<open>simp_all add: that\<close>)
  have n1: "n + length p = unat (isize (mk_inode (img s1) i))"
    by (subst s1(4), simp add: unat_of_nat del: of_nat_add, use Cons.prems(4) in \<open>simp add: take_bit_eq_mod\<close>)
  have "n + length p + length (concat ps) \<le> 268 * 1024"
    "unat (freeblock s1) + blocks_for (n + length p + length (concat ps)) \<le> 2000 + blocks_for (n + length p)"
    using Cons.prems(4,5) s1(6) by (simp_all add: add.assoc)
  from Cons.IH [OF s1(2) Cons.prems(2) n1 this] obtain s' where s': "append_pieces i ps s1 = Inr s'" "mk_ok s'"
    "file_bytes (img s') i = file_bytes (img s1) i @ concat ps"
    "mk_inode (img s') i = (mk_inode (img s1) i)\<lparr>isize := of_nat (n + length p + length (concat ps)), iaddrs := iaddrs (mk_inode (img s') i)\<rparr>"
    "\<forall>j. inode_no j \<longrightarrow> j \<noteq> i \<longrightarrow> mk_inode (img s') j = mk_inode (img s1) j \<and> file_bytes (img s') j = file_bytes (img s1) j"
    "unat (freeblock s') + blocks_for (n + length p) = unat (freeblock s1) + blocks_for (n + length p + length (concat ps))"
    "freeinode s' = freeinode s1" "\<forall>b. unat b < 32 \<longrightarrow> img s' b = img s1 b" by (elim exE conjE) (rule that)
  have "mk_inode (img s') i = (mk_inode (img s) i)\<lparr>isize := of_nat (n + length (concat (p # ps))), iaddrs := iaddrs (mk_inode (img s') i)\<rparr>"
    by (subst s'(4), subst s1(4)) (simp add: add.assoc)
  moreover have "unat (freeblock s') + blocks_for n = unat (freeblock s) + blocks_for (n + length (concat (p # ps)))"
    using s'(6) s1(6) by (simp add: add.assoc)
  ultimately show ?case using s1(1,3,5,7,8) s'(1,2,3,5,7,8) by (intro exI [of _ s']) simp
qed


section \<open>The whole image\<close>

text \<open>The entries of the root directory; the blocks that the files need; and the inputs that fit into the file system.\<close>

fun entries :: "nat \<Rightarrow> (byte list \<times> byte list list) list \<Rightarrow> byte list" where
  "entries k [] = []"
| "entries k (f # fs) = dirent (of_nat k) (shortname (fst f)) @ entries (k + 1) fs"

definition root_bytes :: "(byte list \<times> byte list list) list \<Rightarrow> byte list" where
  "root_bytes fs = dirent 1 [0x2e] @ dirent 1 [0x2e, 0x2e] @ entries 2 fs"

definition file_data :: "byte list \<times> byte list list \<Rightarrow> byte list" where
  "file_data f = concat (snd f)"

definition image_blocks :: "(byte list \<times> byte list list) list \<Rightarrow> nat" where
  "image_blocks fs = nmeta + blocks_for (16 * (length fs + 2)) + sum_list (map (\<lambda>f. blocks_for (length (file_data f))) fs)"

definition fits :: "(byte list \<times> byte list list) list \<Rightarrow> bool" where
  "fits fs \<longleftrightarrow> length fs + 2 \<le> NINODES \<and> image_blocks fs \<le> FSSIZE \<and>
     list_all (\<lambda>f. 0x2f \<notin> set (shortname (fst f)) \<and> length (shortname (fst f)) \<le> DIRSIZ \<and> length (file_data f) \<le> 268 * 1024) fs"

text \<open>The inode of a file with the given type and data.\<close>

definition stored :: "mkst \<Rightarrow> uint \<Rightarrow> ushort \<Rightarrow> byte list \<Rightarrow> bool" where
  "stored s i type bs \<longleftrightarrow>
     itype (mk_inode (img s) i) = type \<and> inlink (mk_inode (img s) i) = 1 \<and> file_bytes (img s) i = bs"

definition mkfs_inv :: "(byte list \<times> byte list list) list \<Rightarrow> mkst \<Rightarrow> bool" where
  "mkfs_inv fs s \<longleftrightarrow> mk_ok s \<and> img s 1 = encode_sb mkfs_sb \<and> freeinode s = of_nat (length fs + 2) \<and>
     unat (freeblock s) = image_blocks fs \<and> stored s 1 T_DIR (root_bytes fs) \<and>
     (\<forall>k<length fs. stored s (of_nat (k + 2)) T_FILE (file_data (fs ! k))) \<and>
     (\<forall>i. inode_no i \<longrightarrow> length fs + 2 \<le> unat i \<longrightarrow> itype (mk_inode (img s) i) = 0)"

lemma length_dirent [simp]: "length (dirent i n) = 16"
  by (simp add: dirent_def Let_def cut_name_def min_def le_trans [OF length_takeWhile_le])

lemma length_entries [simp]: "length (entries k fs) = 16 * length fs"
  by (induction fs arbitrary: k) simp_all

lemma length_root_bytes [simp]: "length (root_bytes fs) = 16 * (length fs + 2)"
  by (simp add: root_bytes_def)

lemma entries_append: "entries k (fs @ gs) = entries k fs @ entries (k + length fs) gs"
  by (induction fs arbitrary: k) simp_all

lemma stored_size: "stored s i type bs \<Longrightarrow> unat (isize (mk_inode (img s) i)) = length bs"
  by (auto simp: stored_def file_bytes_def)

lemma unat_image_size: "n \<le> 268 * 1024 \<Longrightarrow> unat (of_nat n :: uint) = n"
  by (simp add: unat_of_nat take_bit_eq_mod)

lemma blocks_for_0 [simp]: "blocks_for 0 = 0"
  by (simp add: blocks_for_def)

lemma stored_cong:
  "mk_inode (img s') i = mk_inode (img s) i \<and> file_bytes (img s') i = file_bytes (img s) i \<Longrightarrow> stored s' i type bs = stored s i type bs"
  by (simp add: stored_def)

lemma mkfs_file_spec:
  assumes inv: "mkfs_inv d s" and f: "fits (d @ [f])"
  shows "\<exists>s'. mkfs_file (fst f) (snd f) s = Inr s' \<and> mkfs_inv (d @ [f]) s'"
proof -
  let ?n = "length d + 2" and ?i = "of_nat (length d + 2) :: uint" and ?p = "dirent (of_nat (length d + 2)) (shortname (fst f))"
  have ok: "mk_ok s" and fi: "?i = freeinode s" and fb: "unat (freeblock s) = image_blocks d" and root: "stored s 1 T_DIR (root_bytes d)"
    using inv by (simp_all add: mkfs_inv_def)
  have len: "?n \<le> 199" and room: "image_blocks (d @ [f]) \<le> 2000" and nm: "0x2f \<notin> set (shortname (fst f))" "length (shortname (fst f)) \<le> 14"
    and sz: "length (file_data f) \<le> 268 * 1024" using f by (simp_all add: fits_def)
  have i: "unat ?i = ?n" "inode_no ?i" using unat_image_size [of ?n] len by simp_all
  then have i1: "(1 :: uint) \<noteq> ?i" "inode_no (1 :: uint)" by (auto simp: word_unat_eq_iff simp del: of_nat_add)
  have ib: "image_blocks (d @ [f]) + blocks_for (16 * ?n) = image_blocks d + blocks_for (16 * ?n + 16) + blocks_for (length (file_data f))"
    by (simp add: image_blocks_def algebra_simps)
  obtain s1 where s1: "mk_ialloc T_FILE s = Inr (?i, s1)" "mk_ok s1" "mk_inode (img s1) ?i = zero_inode\<lparr>itype := T_FILE, inlink := 1\<rparr>"
    "\<And>j. inode_no j \<Longrightarrow> j \<noteq> ?i \<Longrightarrow> mk_inode (img s1) j = mk_inode (img s) j \<and> file_bytes (img s1) j = file_bytes (img s) j"
    "freeblock s1 = freeblock s" "freeinode s1 = freeinode s + 1" "\<And>b. unat b < 32 \<Longrightarrow> img s1 b = img s b"
    by (rule ialloc_spec [OF ok i(2) fi]) (rule that)
  have root1: "stored s1 1 T_DIR (root_bytes d)" using root stored_cong [OF s1(4) [OF i1(2,1)]] by simp
  have n: "16 * ?n = unat (isize (mk_inode (img s1) 1))" using stored_size [OF root1] by simp
  have a: "16 * ?n + length ?p \<le> 268 * 1024" "unat (freeblock s1) + blocks_for (16 * ?n + length ?p) \<le> 2000 + blocks_for (16 * ?n)"
    using len room ib s1(5) fb by simp_all
  obtain s2 where s2: "iappend 1 ?p s1 = Inr s2" "mk_ok s2" "file_bytes (img s2) 1 = file_bytes (img s1) 1 @ ?p"
    "mk_inode (img s2) 1 = (mk_inode (img s1) 1)\<lparr>isize := of_nat (16 * ?n + length ?p), iaddrs := iaddrs (mk_inode (img s2) 1)\<rparr>"
    "\<And>j. inode_no j \<Longrightarrow> j \<noteq> 1 \<Longrightarrow> mk_inode (img s2) j = mk_inode (img s1) j \<and> file_bytes (img s2) j = file_bytes (img s1) j"
    "unat (freeblock s2) + blocks_for (16 * ?n) = unat (freeblock s1) + blocks_for (16 * ?n + length ?p)" "freeinode s2 = freeinode s1"
    "\<And>b. unat b < 32 \<Longrightarrow> img s2 b = img s1 b"
    by (rule iappend_spec [OF s1(2) i1(2) refl n a]) (rule that)
  have i2: "mk_inode (img s2) ?i = zero_inode\<lparr>itype := T_FILE, inlink := 1\<rparr>" using s2(5) [OF i(2)] i1(1) s1(3) by simp
  have n2: "0 = unat (isize (mk_inode (img s2) ?i))" using i2 by (simp add: zero_inode_def)
  have "0 + length (concat (snd f)) \<le> 268 * 1024"
    "unat (freeblock s2) + blocks_for (0 + length (concat (snd f))) \<le> 2000 + blocks_for 0"
    using sz room ib s1(5) s2(6) fb by (simp_all add: file_data_def)
  from append_pieces_spec [OF s2(2) i(2) n2 this] obtain s3 where s3: "append_pieces ?i (snd f) s2 = Inr s3" "mk_ok s3"
    "file_bytes (img s3) ?i = file_bytes (img s2) ?i @ concat (snd f)"
    "mk_inode (img s3) ?i = (mk_inode (img s2) ?i)\<lparr>isize := of_nat (0 + length (concat (snd f))), iaddrs := iaddrs (mk_inode (img s3) ?i)\<rparr>"
    "\<forall>j. inode_no j \<longrightarrow> j \<noteq> ?i \<longrightarrow> mk_inode (img s3) j = mk_inode (img s2) j \<and> file_bytes (img s3) j = file_bytes (img s2) j"
    "unat (freeblock s3) + blocks_for 0 = unat (freeblock s2) + blocks_for (0 + length (concat (snd f)))" "freeinode s3 = freeinode s2"
    "\<forall>b. unat b < 32 \<longrightarrow> img s3 b = img s2 b" by (elim exE conjE) (rule that)
  have other: "mk_inode (img s3) j = mk_inode (img s) j \<and> file_bytes (img s3) j = file_bytes (img s) j" if "inode_no j" "j \<noteq> 1" "j \<noteq> ?i" for j
    using s1(4) [OF that(1,3)] s2(5) [OF that(1,2)] s3(5) that by simp
  have "mkfs_file (fst f) (snd f) s = Inr s3" using nm s1(1) s2(1) s3(1) by (simp add: mkfs_file_def Let_def)
  moreover have "mkfs_inv (d @ [f]) s3"
    unfolding mkfs_inv_def
  proof (intro conjI allI impI)
    show "mk_ok s3" by (rule s3(2))
    show "img s3 1 = encode_sb mkfs_sb" using s3(8) s2(8) s1(7) inv by (simp add: mkfs_inv_def)
    show "freeinode s3 = of_nat (length (d @ [f]) + 2)" using s3(7) s2(7) s1(6) fi by simp
    show "unat (freeblock s3) = image_blocks (d @ [f])" using s3(6) s2(6) s1(5) fb ib by (simp add: file_data_def)
    have "mk_inode (img s3) 1 = mk_inode (img s2) 1 \<and> file_bytes (img s3) 1 = file_bytes (img s2) 1" using s3(5) i1 by blast
    moreover have "itype (mk_inode (img s2) 1) = itype (mk_inode (img s1) 1)" "inlink (mk_inode (img s2) 1) = inlink (mk_inode (img s1) 1)"
      by (subst s2(4), simp)+
    ultimately show "stored s3 1 T_DIR (root_bytes (d @ [f]))"
      using root1 s2(3) by (simp add: stored_def root_bytes_def entries_append add.commute)
    show "stored s3 (of_nat (k + 2)) T_FILE (file_data ((d @ [f]) ! k))" if k: "k < length (d @ [f])" for k
    proof (cases "k = length d")
      case True
      have "itype (mk_inode (img s3) ?i) = T_FILE" "inlink (mk_inode (img s3) ?i) = 1" by (subst s3(4), unfold i2, simp)+
      moreover have "file_bytes (img s2) ?i = []" using n2 by (simp add: file_bytes_def)
      ultimately show ?thesis using s3(3) True by (simp add: stored_def file_data_def)
    next
      case False
      have u: "unat (of_nat (k + 2) :: uint) = k + 2" using unat_image_size [of "k + 2"] k len by simp
      have j: "inode_no (of_nat (k + 2))" "(of_nat (k + 2) :: uint) \<noteq> 1" "(of_nat (k + 2) :: uint) \<noteq> ?i"
        using u i(1) k len False by (auto simp: word_unat_eq_iff simp del: of_nat_add)
      show ?thesis using stored_cong [OF other [OF j]] inv k False by (simp add: mkfs_inv_def nth_append)
    qed
    show "itype (mk_inode (img s3) j) = 0" if "inode_no j" "length (d @ [f]) + 2 \<le> unat j" for j
    proof -
      have "j \<noteq> 1" "j \<noteq> ?i" using that(2) i(1) by auto
      then show ?thesis using other [OF that(1)] inv that by (simp add: mkfs_inv_def)
    qed
  qed
  ultimately show ?thesis by blast
qed


lemma fits_prefix: "fits (d @ f # fs) \<Longrightarrow> fits (d @ [f])"
proof -
  have "blocks_for (16 * (length (d @ [f]) + 2)) \<le> blocks_for (16 * (length (d @ f # fs) + 2))"
    unfolding blocks_for_def by (auto intro: add_mono div_le_mono)
  then show "fits (d @ f # fs) \<Longrightarrow> fits (d @ [f])" by (auto simp: fits_def image_blocks_def)
qed

lemma mkfs_files_spec:
  "mkfs_inv d s \<Longrightarrow> fits (d @ fs) \<Longrightarrow> \<exists>s'. mkfs_files fs s = Inr s' \<and> mkfs_inv (d @ fs) s'"
proof (induction fs arbitrary: d s)
  case (Cons f fs)
  obtain s1 where s1: "mkfs_file (fst f) (snd f) s = Inr s1" "mkfs_inv (d @ [f]) s1"
    using mkfs_file_spec [OF Cons.prems(1) fits_prefix [OF Cons.prems(2)]] by blast
  from Cons.IH [OF s1(2)] Cons.prems(2) obtain s' where "mkfs_files fs s1 = Inr s'" "mkfs_inv (d @ f # fs) s'" by auto
  then show ?case using s1(1) by (cases f) simp
qed simp

lemma zeros_inode: "C (IBLOCK i mkfs_sb) = replicate 1024 0 \<Longrightarrow> mk_inode C i = zero_inode"
proof -
  assume c: "C (IBLOCK i mkfs_sb) = replicate 1024 0"
  have "byte_at (replicate 1024 0) k = 0" for k by (simp add: byte_at_def)
  then have 16: "get16 (replicate 1024 0) k = 0" for k by (simp add: get16_def word_rcat_def)
  have 32: "get32s (replicate 1024 0) k 13 = replicate 13 0" for k
    by (simp add: get32s_def get32_zeros [OF refl] map_replicate_const)
  show ?thesis using 32 get32_zeros [OF refl] by (simp add: mk_inode_def c get_dinode_def zero_inode_def 16)
qed

lemma mkfs_begin_spec: "\<exists>s. mkfs_begin = Inr s \<and> mkfs_inv [] s"
proof -
  let ?s0 = "wsect 1 (encode_sb mkfs_sb) \<lparr>img = \<lambda>_. replicate BSIZE 0, freeinode = 1, freeblock = of_nat nmeta\<rparr>"
  let ?p = "dirent 1 [0x2e]" and ?q = "dirent 1 [0x2e, 0x2e]"
  have z: "mk_inode (img ?s0) i = zero_inode" if "inode_no i" for i
    by (rule zeros_inode) (use iblock_range(2) [OF that] in \<open>auto simp: wsect_def\<close>)
  have sl: "slots_ok (\<lambda>i. slot (img ?s0) (mk_inode (img ?s0) i)) 46"
  proof -
    have "slot (img ?s0) (mk_inode (img ?s0) i) t = 0" if "inode_no i" "t < 269" for i t
      using that by (simp add: z slot_def fblock_def zero_inode_def)
    then show ?thesis unfolding slots_ok_def by simp
  qed
  have ok: "mk_ok ?s0" unfolding mk_ok_def mk_inv_def
  proof (intro conjI allI impI)
    show "length (img ?s0 b) = 1024" for b by (simp add: wsect_def encode_sb_def)
    show "img ?s0 b = replicate 1024 0" if "unat (freeblock ?s0) \<le> unat b" for b
      using that by (auto simp: wsect_def nmeta_eq)
    show "tight (img ?s0) (mk_inode (img ?s0) i) (unat (isize (mk_inode (img ?s0) i)))" if "inode_no i" for i
      using tight_empty [of zero_inode] by (simp add: z [OF that] zero_inode_def)
  qed (use sl z in \<open>simp_all add: wsect_def nmeta_eq zero_inode_def\<close>)
  have i1: "inode_no (1 :: uint)" "(1 :: uint) = freeinode ?s0" by (simp_all add: wsect_def)
  obtain s1 where s1: "mk_ialloc T_DIR ?s0 = Inr (1, s1)" "mk_ok s1" "mk_inode (img s1) 1 = zero_inode\<lparr>itype := T_DIR, inlink := 1\<rparr>"
    "\<And>j. inode_no j \<Longrightarrow> j \<noteq> 1 \<Longrightarrow> mk_inode (img s1) j = mk_inode (img ?s0) j \<and> file_bytes (img s1) j = file_bytes (img ?s0) j"
    "freeblock s1 = freeblock ?s0" "freeinode s1 = freeinode ?s0 + 1" "\<And>b. unat b < 32 \<Longrightarrow> img s1 b = img ?s0 b"
    by (rule ialloc_spec [OF ok i1]) (rule that)
  have n1: "0 = unat (isize (mk_inode (img s1) 1))" by (simp add: s1(3) zero_inode_def)
  have a1: "0 + length ?p \<le> 268 * 1024" "unat (freeblock s1) + blocks_for (0 + length ?p) \<le> 2000 + blocks_for 0"
    using s1(5) by (simp_all add: wsect_def nmeta_eq blocks_for_def)
  obtain s2 where s2: "iappend 1 ?p s1 = Inr s2" "mk_ok s2" "file_bytes (img s2) 1 = file_bytes (img s1) 1 @ ?p"
    "mk_inode (img s2) 1 = (mk_inode (img s1) 1)\<lparr>isize := of_nat (0 + length ?p), iaddrs := iaddrs (mk_inode (img s2) 1)\<rparr>"
    "\<And>j. inode_no j \<Longrightarrow> j \<noteq> 1 \<Longrightarrow> mk_inode (img s2) j = mk_inode (img s1) j \<and> file_bytes (img s2) j = file_bytes (img s1) j"
    "unat (freeblock s2) + blocks_for 0 = unat (freeblock s1) + blocks_for (0 + length ?p)" "freeinode s2 = freeinode s1"
    "\<And>b. unat b < 32 \<Longrightarrow> img s2 b = img s1 b"
    by (rule iappend_spec [OF s1(2) i1(1) refl n1 a1]) (rule that)
  have n2: "16 = unat (isize (mk_inode (img s2) 1))" by (subst s2(4)) simp
  have a2: "16 + length ?q \<le> 268 * 1024" "unat (freeblock s2) + blocks_for (16 + length ?q) \<le> 2000 + blocks_for 16"
    using s1(5) s2(6) by (simp_all add: wsect_def nmeta_eq blocks_for_def)
  obtain s3 where s3: "iappend 1 ?q s2 = Inr s3" "mk_ok s3" "file_bytes (img s3) 1 = file_bytes (img s2) 1 @ ?q"
    "mk_inode (img s3) 1 = (mk_inode (img s2) 1)\<lparr>isize := of_nat (16 + length ?q), iaddrs := iaddrs (mk_inode (img s3) 1)\<rparr>"
    "\<And>j. inode_no j \<Longrightarrow> j \<noteq> 1 \<Longrightarrow> mk_inode (img s3) j = mk_inode (img s2) j \<and> file_bytes (img s3) j = file_bytes (img s2) j"
    "unat (freeblock s3) + blocks_for 16 = unat (freeblock s2) + blocks_for (16 + length ?q)" "freeinode s3 = freeinode s2"
    "\<And>b. unat b < 32 \<Longrightarrow> img s3 b = img s2 b"
    by (rule iappend_spec [OF s2(2) i1(1) refl n2 a2]) (rule that)
  have "mkfs_begin = Inr s3" using s1(1) s2(1) s3(1) by (simp add: mkfs_begin_def Let_def)
  moreover have "mkfs_inv [] s3"
    unfolding mkfs_inv_def
  proof (intro conjI allI impI)
    show "img s3 1 = encode_sb mkfs_sb" using s3(8) s2(8) s1(7) by (simp add: wsect_def)
    show "freeinode s3 = of_nat (length [] + 2)" using s3(7) s2(7) s1(6) by (simp add: wsect_def)
    show "unat (freeblock s3) = image_blocks []" using s3(6) s2(6) s1(5) by (simp add: wsect_def image_blocks_def nmeta_eq blocks_for_def)
    have "file_bytes (img s1) 1 = []" using n1 by (simp add: file_bytes_def)
    moreover have "itype (mk_inode (img s3) 1) = T_DIR" "inlink (mk_inode (img s3) 1) = 1"
      by (subst s3(4), simp, subst s2(4), simp add: s1(3))+
    ultimately show "stored s3 1 T_DIR (root_bytes [])" using s3(3) s2(3) by (simp add: stored_def root_bytes_def)
    show "itype (mk_inode (img s3) j) = 0" if "inode_no j" "length ([] :: (byte list \<times> byte list list) list) + 2 \<le> unat j" for j
    proof -
      have j: "j \<noteq> 1" using that(2) by auto
      have "mk_inode (img s3) j = mk_inode (img ?s0) j" using s1(4) [OF that(1) j] s2(5) [OF that(1) j] s3(5) [OF that(1) j] by simp
      then show ?thesis using z [OF that(1)] by (simp add: zero_inode_def)
    qed
  qed (use s3(2) in simp_all)
  ultimately show ?thesis by blast
qed


text \<open>The free map.\<close>

lemma bitmap_fold:
  assumes "n \<le> 8192" "b < 8192"
  shows "bitmap_bit (fold set_bit_at [0..<n] (replicate 1024 0)) b \<longleftrightarrow> b < n" "length (fold set_bit_at [0..<n] (replicate 1024 0)) = 1024"
proof -
  have l: "length (fold set_bit_at [0..<m] (replicate 1024 0)) = 1024" for m by (induction m) (simp_all add: set_bit_at_def)
  show "bitmap_bit (fold set_bit_at [0..<n] (replicate 1024 0)) b \<longleftrightarrow> b < n"
    using assms(1)
  proof (induction n)
    case 0
    show ?case by (simp add: bitmap_bit_iff byte_at_def)
  next
    case (Suc n)
    then show ?case using set_bit_at(1) [of n "fold set_bit_at [0..<n] (replicate 1024 0)" b] l [of n] by (simp add: less_Suc_eq disj_commute)
  qed
  show "length (fold set_bit_at [0..<n] (replicate 1024 0)) = 1024" by (rule l)
qed

lemma decode_encode: "decode_sb (encode_sb b) = b"
  by (simp add: decode_sb_def encode_sb_def get32_put32_same get32_put32_other put32_def [symmetric])


lemma mkfs_end_spec:
  assumes inv: "mkfs_inv fs s" and f: "fits fs"
  defines "n \<equiv> 16 * (length fs + 2)"
  obtains s' where "mkfs_end s = Inr s'" "mk_inv (img s') (mk_inode (img s')) (freeblock s')" "unat (freeblock s') = image_blocks fs"
    "img s' 1 = encode_sb mkfs_sb" "\<And>b. b < 2000 \<Longrightarrow> used mkfs_sb (img s') b \<longleftrightarrow> b < image_blocks fs"
    "\<And>k. k < length fs \<Longrightarrow> stored s' (of_nat (k + 2)) T_FILE (file_data (fs ! k))"
    "\<And>i. inode_no i \<Longrightarrow> length fs + 2 \<le> unat i \<Longrightarrow> itype (mk_inode (img s') i) = 0"
    "itype (mk_inode (img s') 1) = T_DIR" "unat (isize (mk_inode (img s') 1)) = (n div 1024 + 1) * 1024"
    "tight (img s') (mk_inode (img s') 1) n" "\<And>k. k < n \<Longrightarrow> fbyte (img s') (mk_inode (img s') 1) k = root_bytes fs ! k"
proof -
  let ?V = "mk_inode (img s)" and ?off = "(n div 1024 + 1) * 1024"
  let ?y = "(?V 1)\<lparr>isize := of_nat ?off\<rparr>"
  have ok: "mk_ok s" and fb: "unat (freeblock s) = image_blocks fs" and root: "stored s 1 T_DIR (root_bytes fs)" using inv by (simp_all add: mkfs_inv_def)
  note okd = mk_okD [OF ok]
  have n: "unat (isize (?V 1)) = n" "n \<le> 3200" and ib: "image_blocks fs \<le> 2000" using stored_size [OF root] f by (simp_all add: n_def fits_def)
  have i1: "inode_no (1 :: uint)" by simp
  have l: "length (iaddrs ?y) = 13" "on_disk ?y" "iaddrs ?y = iaddrs (?V 1)" by (simp_all add: on_disk_upd)
  obtain s1 where w: "winode 1 ?y s = Inr s1" "mk_inv (img s1) (mk_inode (img s1)) (freeblock s1)" "freeblock s1 = freeblock s"
    "freeinode s1 = freeinode s" "mk_inode (img s1) 1 = ?y" "\<And>j. inode_no j \<Longrightarrow> j \<noteq> 1 \<Longrightarrow> mk_inode (img s1) j = ?V j"
    "\<And>b. unat b < 32 \<or> 45 \<le> unat b \<Longrightarrow> img s1 b = img s b"
    "\<And>j k. inode_no j \<Longrightarrow> k div 1024 < 268 \<Longrightarrow> fblock (img s) (?V j) (k div 1024) \<noteq> 0 \<Longrightarrow>
      fbyte (img s1) (mk_inode (img s1) j) k = fbyte (img s) (?V j) k"
    "\<And>j off. inode_no j \<Longrightarrow> tight (img s1) (mk_inode (img s1) j) off = tight (img s) (?V j) off"
    "\<And>j m. inode_no j \<Longrightarrow> m < 268 \<Longrightarrow> fblock (img s1) (mk_inode (img s1) j) m = fblock (img s) (?V j) m"
    by (rule winode_spec [OF okd(1) i1 l refl]) (rule that)
  let ?bm = "fold set_bit_at [0..<image_blocks fs] (replicate 1024 0)"
  let ?C = "(img s1)(45 := ?bm)" and ?s = "s1\<lparr>img := (img s1)(45 := ?bm)\<rparr>"
  have ibm: "image_blocks fs \<le> 8192" using ib by simp
  have sf: "set_bit_at = (\<lambda>i buf. buf[i div 8 := buf ! (i div 8) OR push_bit (i mod 8) 1])" by (intro ext) (simp only: set_bit_at_def)
  have mb: "mk_balloc (freeblock s1) s1 = Inr ?s" unfolding mk_balloc_def sf using w(3) ib fb by (simp add: wsect_def mkfs_sb_eq example_sb_def)
  have e: "mkfs_end s = Inr ?s" using w(1) mb by (simp only: mkfs_end_def rinode_spec [OF i1] sum.case n Let_def)
  have hi: "?C b = img s1 b" if "46 \<le> unat b" for b using that by auto
  have len: "length (?C b) = 1024" for b using w(2) bitmap_fold(2) [OF ibm, of 0] by (simp add: mk_inv_def)
  have mi: "mk_inode ?C j = mk_inode (img s1) j" if "inode_no j" for j
    using iblock_range(1) [OF that] by (auto simp: mk_inode_def)
  have lo: "mk_inv ?C (mk_inode (img s1)) (freeblock s1)" "tight ?C (mk_inode (img s1) j) off = tight (img s1) (mk_inode (img s1) j) off"
    if "inode_no j" for j off using low_blocks(2,4) [OF w(2), of ?C] hi len that by blast+
  have lof: "fblock (img s1) (mk_inode (img s1) j) m = fblock (img s) (?V j) m" if "inode_no j" "m < 268" for j m
    by (rule w(10) [OF that])
  have bytes: "fbyte ?C (mk_inode ?C j) k = fbyte (img s) (?V j) k" if a: "inode_no j" "k div 1024 < 268" "fblock (img s) (?V j) (k div 1024) \<noteq> 0" for j k
    using low_blocks(3) [OF w(2), of ?C j k] hi len a mi [OF a(1)] w(8) [OF a] lof [OF a(1,2)] by simp
  show ?thesis
  proof (rule that [OF e])
    have "mk_inv ?C (mk_inode ?C) (freeblock s1) = mk_inv ?C (mk_inode (img s1)) (freeblock s1)" using same_iaddrs(1) [of "mk_inode ?C" "mk_inode (img s1)"] mi by simp
    then show "mk_inv (img ?s) (mk_inode (img ?s)) (freeblock ?s)" using lo(1) [OF i1] by simp
    show "unat (freeblock ?s) = image_blocks fs" using w(3) fb by simp
    show "img ?s 1 = encode_sb mkfs_sb" using w(7) [of 1] inv by (simp add: mkfs_inv_def)
    show "used mkfs_sb (img ?s) b \<longleftrightarrow> b < image_blocks fs" if "b < 2000" for b
    proof -
      have "unat (of_nat b :: uint) div 8192 = 0" using that unat_image_size [of b] by simp
      then have "(of_nat b :: uint) div 8192 = 0" by (simp add: word_unat_eq_iff unat_div)
      then have "BBLOCK (of_nat b) mkfs_sb = 45" by (simp add: BBLOCK_def mkfs_sb_eq example_sb_def)
      then show ?thesis using bitmap_fold(1) [OF ibm, of b] that by (simp add: used_def)
    qed
    show "stored ?s (of_nat (k + 2)) T_FILE (file_data (fs ! k))" if k: "k < length fs" for k
    proof -
      have u: "unat (of_nat (k + 2) :: uint) = k + 2" using unat_image_size [of "k + 2"] k f by (simp add: fits_def)
      have j: "inode_no (of_nat (k + 2))" "(of_nat (k + 2) :: uint) \<noteq> 1" using u k f by (auto simp: fits_def word_unat_eq_iff simp del: of_nat_add)
      have m: "mk_inode ?C (of_nat (k + 2)) = ?V (of_nat (k + 2))" using mi [OF j(1)] w(6) [OF j] by simp
      moreover have "file_bytes ?C (of_nat (k + 2)) = file_bytes (img s) (of_nat (k + 2))"
        unfolding file_bytes_def by (rule file_bytes_keep) (use m okd(3,4) [OF j(1)] bytes [OF j(1)] in \<open>auto simp del: of_nat_add\<close>)
      ultimately have "stored ?s (of_nat (k + 2)) T_FILE (file_data (fs ! k)) = stored s (of_nat (k + 2)) T_FILE (file_data (fs ! k))"
        by (intro stored_cong) (simp del: of_nat_add)
      then show ?thesis using inv k by (simp add: mkfs_inv_def)
    qed
    show "itype (mk_inode (img ?s) i) = 0" if "inode_no i" "length fs + 2 \<le> unat i" for i
    proof -
      have "i \<noteq> 1" using that(2) by auto
      then show ?thesis using mi [OF that(1)] w(6) [OF that(1)] inv that by (simp add: mkfs_inv_def)
    qed
    have r: "mk_inode (img ?s) 1 = ?y" using mi [OF i1] w(5) by simp
    show "itype (mk_inode (img ?s) 1) = T_DIR" using r root by (simp add: stored_def)
    have "?off \<le> 268 * 1024" using n(2) by (simp add: div_le_mono)
    then show "unat (isize (mk_inode (img ?s) 1)) = ?off" using r unat_image_size [of ?off] by simp
    have t: "tight (img s) (?V 1) n" using okd(4) [OF i1] n by simp
    then show "tight (img ?s) (mk_inode (img ?s) 1) n" using lo(2) [OF i1] w(9) [OF i1] mi [OF i1] by simp
    show "fbyte (img ?s) (mk_inode (img ?s) 1) k = root_bytes fs ! k" if k: "k < n" for k
    proof -
      have "k div 1024 < 268 \<and> fblock (img s) (?V 1) (k div 1024) \<noteq> 0" by (rule tight_block [OF t _ k]) (use n in simp)
      then have "fbyte (img ?s) (mk_inode (img ?s) 1) k = fbyte (img s) (?V 1) k" using bytes [OF i1] by simp
      also have "\<dots> = file_bytes (img s) 1 ! k" using k n by (simp add: file_bytes_def)
      finally show ?thesis using root by (simp add: stored_def)
    qed
  qed
qed


lemma mkfs_spec:
  assumes f: "fits fs"
  defines "n \<equiv> 16 * (length fs + 2)"
  obtains s where "mkfs fs = Inr s" "mk_inv (img s) (mk_inode (img s)) (freeblock s)" "unat (freeblock s) = image_blocks fs"
    "img s 1 = encode_sb mkfs_sb" "\<And>b. b < 2000 \<Longrightarrow> used mkfs_sb (img s) b \<longleftrightarrow> b < image_blocks fs"
    "\<And>k. k < length fs \<Longrightarrow> stored s (of_nat (k + 2)) T_FILE (file_data (fs ! k))"
    "\<And>i. inode_no i \<Longrightarrow> length fs + 2 \<le> unat i \<Longrightarrow> itype (mk_inode (img s) i) = 0"
    "itype (mk_inode (img s) 1) = T_DIR" "unat (isize (mk_inode (img s) 1)) = (n div 1024 + 1) * 1024"
    "tight (img s) (mk_inode (img s) 1) n" "\<And>k. k < n \<Longrightarrow> fbyte (img s) (mk_inode (img s) 1) k = root_bytes fs ! k"
proof -
  obtain s0 where s0: "mkfs_begin = Inr s0" "mkfs_inv [] s0" using mkfs_begin_spec by blast
  obtain s1 where s1: "mkfs_files fs s0 = Inr s1" "mkfs_inv fs s1" using mkfs_files_spec [OF s0(2), of fs] f by auto
  have e: "mkfs fs = mkfs_end s1" by (simp add: mkfs_def s0(1) s1(1))
  show ?thesis unfolding n_def by (rule mkfs_end_spec [OF s1(2) f, folded e]) (rule that [unfolded n_def])
qed

section \<open>Properties\<close>

text \<open>
  C28. For files that fit into the file system, mkfs ends without an error, and the image holds what it was given: block 1 decodes
  to the superblock, inode \<open>k + 2\<close> is a file whose bytes, found through the block numbers in the inode the way
  the kernel finds them, are those of the file number \<open>k\<close>, and the root directory is the entries of dot, dot-dot
  and the files in order, followed by zeros in its last block.
\<close>

theorem mkfs_correct:
  assumes "fits fs"
  shows "\<exists>s. mkfs fs = Inr s \<and> decode_sb (img s 1) = mkfs_sb \<and>
    (\<forall>k<length fs. stored s (of_nat (k + 2)) T_FILE (file_data (fs ! k))) \<and>
    (let root = mk_inode (img s) 1 in itype root = T_DIR \<and> length (root_bytes fs) \<le> unat (isize root) \<and>
      (\<forall>k<length (root_bytes fs). fbyte (img s) root k = root_bytes fs ! k) \<and>
      (\<forall>k. k div 1024 < 268 \<and> fblock (img s) root (k div 1024) \<noteq> 0 \<and> length (root_bytes fs) \<le> k \<longrightarrow> fbyte (img s) root k = 0))"
proof (rule mkfs_spec [OF assms])
  fix s :: mkst
  let ?n = "16 * (length fs + 2)" and ?root = "mk_inode (img s) 1"
  assume a: "mkfs fs = Inr s" "img s 1 = encode_sb mkfs_sb" "\<And>k. k < length fs \<Longrightarrow> stored s (of_nat (k + 2)) T_FILE (file_data (fs ! k))"
    "itype ?root = T_DIR" "unat (isize ?root) = (?n div 1024 + 1) * 1024" "tight (img s) ?root ?n"
    "\<And>k. k < ?n \<Longrightarrow> fbyte (img s) ?root k = root_bytes fs ! k"
  have "m \<le> (m div 1024 + 1) * 1024" for m :: nat
    using less_imp_le [OF dividend_less_div_times [of 1024 m]] by (simp add: add.commute)
  then have "length (root_bytes fs) \<le> unat (isize ?root)" using a(5) by simp
  moreover have "fbyte (img s) ?root k = 0" if "k div 1024 < 268" "fblock (img s) ?root (k div 1024) \<noteq> 0" "?n \<le> k" for k
    using a(6) that unfolding tight_def by blast
  ultimately show ?thesis using a(1-4,7) decode_encode by (intro exI [of _ s]) (simp add: Let_def)
qed

text \<open>
  C29. The image is a well-formed file system: every block is 1024 bytes long, the free map marks as used just the
  blocks that were handed out, every block number in an inode or in an indirect block is one of these and outside the metadata,
  none of them occurs twice, and the inodes that were not allocated have type 0.
\<close>

theorem mkfs_well_formed:
  assumes "fits fs"
  shows "\<exists>s. mkfs fs = Inr s \<and> (\<forall>b. length (img s b) = BSIZE) \<and>
    (\<forall>b<FSSIZE. used mkfs_sb (img s) b \<longleftrightarrow> b < image_blocks fs) \<and>
    (let S = \<lambda>i. slot (img s) (mk_inode (img s) i)
     in (\<forall>i t. inode_no i \<and> t < 269 \<and> S i t \<noteq> 0 \<longrightarrow> nmeta \<le> unat (S i t) \<and> unat (S i t) < image_blocks fs) \<and>
        (\<forall>i j t u. inode_no i \<and> inode_no j \<and> t < 269 \<and> u < 269 \<and> S i t \<noteq> 0 \<and> S i t = S j u \<longrightarrow> i = j \<and> t = u)) \<and>
    (\<forall>i. inode_no i \<and> length fs + 2 \<le> unat i \<longrightarrow> itype (mk_inode (img s) i) = 0)"
proof (rule mkfs_spec [OF assms])
  fix s assume a: "mkfs fs = Inr s" "mk_inv (img s) (mk_inode (img s)) (freeblock s)" "unat (freeblock s) = image_blocks fs"
    "\<And>b. b < 2000 \<Longrightarrow> used mkfs_sb (img s) b \<longleftrightarrow> b < image_blocks fs"
    "\<And>i. inode_no i \<Longrightarrow> length fs + 2 \<le> unat i \<Longrightarrow> itype (mk_inode (img s) i) = 0"
  let ?S = "\<lambda>i. slot (img s) (mk_inode (img s) i)"
  have "nmeta \<le> unat (?S i t) \<and> unat (?S i t) < image_blocks fs" if "inode_no i" "t < 269" "?S i t \<noteq> 0" for i t
    using mk_invD(1,2) [OF a(2) that] a(3) by (simp add: nmeta_eq)
  moreover have "i = j \<and> t = u" if "inode_no i" "inode_no j" "t < 269" "u < 269" "?S i t \<noteq> 0" "?S i t = ?S j u" for i j t u
    by (rule mk_invD(3) [OF a(2) that(1,3,5,2,4,6)])
  moreover have "length (img s b) = 1024" for b using a(2) by (simp add: mk_inv_def)
  ultimately show ?thesis using a(1,4,5) unfolding Let_def by (intro exI [of _ s] conjI allI impI) (simp, blast+)
qed

text \<open>
  The size of the root directory is rounded up by a whole block even when its entries fill their blocks: with 62 files, say, the
  second kilobyte of the directory is inside its size but has no block.
\<close>

theorem mkfs_root_hole:
  assumes f: "fits fs" and 64: "(length fs + 2) mod 64 = 0"
  shows "\<exists>s n. mkfs fs = Inr s \<and> n * 1024 < unat (isize (mk_inode (img s) 1)) \<and> n < 268 \<and> fblock (img s) (mk_inode (img s) 1) n = 0"
proof (rule mkfs_spec [OF f])
  fix s :: mkst
  let ?n = "16 * (length fs + 2)" and ?root = "mk_inode (img s) 1"
  assume a: "mkfs fs = Inr s" "unat (isize ?root) = (?n div 1024 + 1) * 1024" "tight (img s) ?root ?n"
  obtain m where m: "length fs + 2 = 64 * m" using 64 by blast
  have "64 * m \<le> 200" using f m by (simp add: fits_def)
  then have "m < 268" by simp
  moreover have "fblock (img s) ?root m = 0" using a(3) \<open>m < 268\<close> unfolding tight_def m by auto
  moreover have "m * 1024 < unat (isize ?root)" unfolding a(2) m by simp
  ultimately show ?thesis using a(1) by blast
qed

section \<open>Witnesses\<close>

definition example_files :: "(byte list \<times> byte list list) list" where
  "example_files = [([0x52], [replicate 1024 7, [1, 2, 3]]), ([0x75, 0x73, 0x65, 0x72, 0x2f, 0x5f, 0x73, 0x68], [[9]])]"

lemma example_fits: "fits example_files" "image_blocks example_files = 50"
  by (simp_all add: fits_def image_blocks_def example_files_def shortname_def file_data_def nmeta_eq blocks_for_def Let_def)

theorem mkfs_correct_witness:
  "fits example_files \<and> (\<exists>s. mkfs example_files = Inr s \<and> stored s 3 T_FILE [9] \<and> decode_sb (img s 1) = mkfs_sb)"
proof -
  have "stored s (of_nat (1 + 2)) T_FILE (file_data (example_files ! 1)) = stored s 3 T_FILE [9]" for s
    by (simp add: example_files_def file_data_def)
  moreover have "(1 :: nat) < length example_files" by (simp add: example_files_def)
  ultimately show ?thesis using mkfs_correct [OF example_fits(1)] example_fits(1) by metis
qed

theorem mkfs_well_formed_witness:
  "fits example_files \<and> (\<exists>s. mkfs example_files = Inr s \<and> used mkfs_sb (img s) 49 \<and> \<not> used mkfs_sb (img s) 50)"
proof -
  obtain s where s: "mkfs example_files = Inr s" "\<forall>b<2000. used mkfs_sb (img s) b \<longleftrightarrow> b < image_blocks example_files"
    using mkfs_well_formed [OF example_fits(1)] by blast
  have "used mkfs_sb (img s) 49 \<longleftrightarrow> (49 :: nat) < 50" "used mkfs_sb (img s) 50 \<longleftrightarrow> (50 :: nat) < 50"
    using s(2) unfolding example_fits(2) by simp_all
  then show ?thesis using s(1) example_fits(1) by (intro conjI exI [of _ s]) simp_all
qed

end
