(* ===== verification/Ulib.thy ===== *)
theory Ulib
  imports CString Printf
begin

text \<open>
  The library of user programs. \<^verbatim>\<open>user/ulib.c\<close>: byte and string routines as loops over byte memory, in the style of the
  routines of the kernel; the loops that only a NUL ends are partial functions. \<^verbatim>\<open>user/printf.c\<close>: the formatting code; a routine
  gives the bytes that it hands to \<^verbatim>\<open>write\<close> one by one, and \<open>None\<close> stands for an overrun of \<^verbatim>\<open>buf[16]\<close> or an argument that is
  missing or of the wrong kind. The system calls that the library makes are parameters.
\<close>

section \<open>Bytes and strings\<close>

partial_function (option) strcpy_loop :: "memory \<Rightarrow> addr \<Rightarrow> addr \<Rightarrow> memory option" where
  "strcpy_loop m s t = (let m' = m(s := m t) in if m t \<noteq> 0 then strcpy_loop m' (s + 1) (t + 1) else Some m')"

definition strcpy :: "memory \<Rightarrow> addr \<Rightarrow> addr \<Rightarrow> memory option" where
  "strcpy m s t = strcpy_loop m s t"

partial_function (option) strcmp :: "memory \<Rightarrow> addr \<Rightarrow> addr \<Rightarrow> int option" where
  "strcmp m p q = (if m p \<noteq> 0 \<and> m p = m q then strcmp m (p + 1) (q + 1) else Some (uint (m p) - uint (m q)))"

definition ulib_strlen :: "memory \<Rightarrow> addr \<Rightarrow> nat option" where
  "ulib_strlen m s = strlen_loop m s 0"

definition ulib_memset :: "memory \<Rightarrow> addr \<Rightarrow> uint \<Rightarrow> uint \<Rightarrow> memory" where
  "ulib_memset m dst c n = memset_loop m dst (ucast c) 0 (unat n)"

text \<open>\<^verbatim>\<open>gets\<close>: the bytes it stores before the NUL. \<open>rd\<close> is \<^verbatim>\<open>read(0, &c, 1)\<close>, \<open>None\<close> at the end of the input.\<close>

function gets_loop :: "('f \<Rightarrow> byte option \<times> 'f) \<Rightarrow> int \<Rightarrow> nat \<Rightarrow> 'f \<Rightarrow> byte list \<times> 'f" where
  "gets_loop rd mx i f =
     (if int i + 1 < mx
      then case rd f of
             (None, f) \<Rightarrow> ([], f)
           | (Some c, f) \<Rightarrow>
               if c = 10 \<or> c = 13 then ([c], f)
               else let (bs, f) = gets_loop rd mx (Suc i) f in (c # bs, f)
      else ([], f))"
  by pat_completeness auto
termination
  by (relation "measure (\<lambda>(rd, mx, i, f). nat (mx - int i))") auto

declare gets_loop.simps [simp del]

definition gets :: "('f \<Rightarrow> byte option \<times> 'f) \<Rightarrow> int \<Rightarrow> 'f \<Rightarrow> byte list \<times> 'f" where
  "gets rd mx f = gets_loop rd mx 0 f"

text \<open>\<^verbatim>\<open>atoi\<close> on a string; \<^verbatim>\<open>int\<close> arithmetic wraps around at 32 bits, as the compiled code does.\<close>

fun atoi_loop :: "32 word \<Rightarrow> byte list \<Rightarrow> 32 word" where
  "atoi_loop n [] = n"
| "atoi_loop n (c # s) = (if 48 \<le> c \<and> c \<le> 57 then atoi_loop (n * 10 + ucast c - 48) s else n)"

definition atoi :: "byte list \<Rightarrow> int" where
  "atoi s = sint (atoi_loop 0 s)"

definition ulib_memmove :: "memory \<Rightarrow> addr \<Rightarrow> addr \<Rightarrow> int \<Rightarrow> memory" where
  "ulib_memmove m dst src n =
     (if src > dst then move_up m dst src (nat n)
      else move_down m (dst + of_int n) (src + of_int n) (nat n))"

definition ulib_memcmp :: "memory \<Rightarrow> addr \<Rightarrow> addr \<Rightarrow> uint \<Rightarrow> int" where
  "ulib_memcmp m s1 s2 n = memcmp_loop m s1 s2 (unat n)"

definition ulib_memcpy :: "memory \<Rightarrow> addr \<Rightarrow> addr \<Rightarrow> uint \<Rightarrow> memory" where
  "ulib_memcpy m dst src n = ulib_memmove m dst src (sint n)"

section \<open>Formatted output\<close>

definition DIGITS :: "byte list" where
  "DIGITS = [48,49,50,51,52,53,54,55,56,57,65,66,67,68,69,70]"

function udigit_loop :: "nat \<Rightarrow> nat \<Rightarrow> byte list" where
  "udigit_loop base x =
     DIGITS ! (x mod base) # (if base > 1 \<and> x div base \<noteq> 0 then udigit_loop base (x div base) else [])"
  by pat_completeness auto
termination
proof (relation "measure snd", goal_cases)
  case (2 base x)
  then have "0 < x" by (auto intro: gr0I)
  with 2 show ?case by (simp add: div_less_dividend)
qed simp

declare udigit_loop.simps [simp del]

definition uprintint :: "32 word \<Rightarrow> nat \<Rightarrow> bool \<Rightarrow> byte list option" where
  "uprintint xx base sgned =
     (let neg = (sgned \<and> xx <s 0);
          x = (if neg then - xx else xx);
          buf = udigit_loop base (unat x) @ (if neg then [45] else [])
      in if length buf \<le> 16 then Some (rev buf) else None)"

fun uprintptr_loop :: "nat \<Rightarrow> uint64 \<Rightarrow> byte list" where
  "uprintptr_loop 0 x = []"
| "uprintptr_loop (Suc n) x = DIGITS ! unat (drop_bit 60 x) # uprintptr_loop n (push_bit 4 x)"

definition uprintptr :: "uint64 \<Rightarrow> byte list" where
  "uprintptr x = [48, 120] @ uprintptr_loop 16 x"

text \<open>The conversions: all integers are passed to \<^verbatim>\<open>printint\<close> as \<^verbatim>\<open>int\<close>, also those fetched as \<^verbatim>\<open>uint64\<close>.\<close>

definition uconversion :: "byte \<Rightarrow> byte \<Rightarrow> byte \<Rightarrow> conv" where
  "uconversion c0 c1 c2 =
     (if c0 = 100 then Conv (\<lambda>v. uprintint (ucast v) 10 True) 0
      else if c0 = 108 \<and> c1 = 100 then Conv (\<lambda>v. uprintint (ucast v) 10 True) 1
      else if c0 = 108 \<and> c1 = 108 \<and> c2 = 100 then Conv (\<lambda>v. uprintint (ucast v) 10 True) 2
      else if c0 = 117 then Conv (\<lambda>v. uprintint (ucast v) 10 False) 0
      else if c0 = 108 \<and> c1 = 117 then Conv (\<lambda>v. uprintint (ucast v) 10 False) 1
      else if c0 = 108 \<and> c1 = 108 \<and> c2 = 117 then Conv (\<lambda>v. uprintint (ucast v) 10 False) 2
      else if c0 = 120 then Conv (\<lambda>v. uprintint (ucast v) 16 False) 0
      else if c0 = 108 \<and> c1 = 120 then Conv (\<lambda>v. uprintint (ucast v) 16 False) 1
      else if c0 = 108 \<and> c1 = 108 \<and> c2 = 120 then Conv (\<lambda>v. uprintint (ucast v) 16 False) 2
      else if c0 = 112 then Conv (\<lambda>v. Some (uprintptr v)) 0
      else if c0 = 115 then Conv_str
      else if c0 = 37 then Conv_none [37]
      else Conv_none [37, c0])"

text \<open>The loop of \<^verbatim>\<open>vprintf\<close>, from the character number \<^verbatim>\<open>i\<close> on; \<open>state\<close> is true after a percent sign.\<close>

function vprintf_loop :: "bool \<Rightarrow> byte list \<Rightarrow> va list \<Rightarrow> byte list option" where
  "vprintf_loop state [] ap = Some []"
| "vprintf_loop state (c0 # fmt) ap =
     (if \<not> state
      then if c0 = 37 then vprintf_loop True fmt ap else emit (Some [c0]) (vprintf_loop False fmt ap)
      else let c1 = fmt_at fmt 0; c2 = (if c1 \<noteq> 0 then fmt_at fmt 1 else 0)
           in case uconversion c0 c1 c2 of
                Conv f k \<Rightarrow>
                  (case ap of Num v # ap \<Rightarrow> emit (f v) (vprintf_loop False (drop k fmt) ap) | _ \<Rightarrow> None)
              | Conv_str \<Rightarrow>
                  (case ap of Str t # ap \<Rightarrow>
                      emit (Some (case t of None \<Rightarrow> null_str | Some bs \<Rightarrow> bs)) (vprintf_loop False fmt ap)
                    | _ \<Rightarrow> None)
              | Conv_none bs \<Rightarrow> emit (Some bs) (vprintf_loop False fmt ap)
              | Conv_end \<Rightarrow> Some [])"
  by pat_completeness auto
termination
  by (relation "measure (\<lambda>(state, fmt, ap). length fmt)") auto

declare vprintf_loop.simps(2) [simp del]

definition vprintf :: "byte list \<Rightarrow> va list \<Rightarrow> byte list option" where
  "vprintf fmt ap = vprintf_loop False fmt ap"

section \<open>Copying and comparing\<close>

lemma ulib_memmove_eq:
  assumes d: "unat dst + nat n \<le> 18446744073709551616" and s: "unat src + nat n \<le> 18446744073709551616" and n: "0 \<le> n"
  shows "ulib_memmove m dst src n = copy_block m dst src (nat n)"
proof -
  have au: "unat (a + of_nat i) = unat a + i" if "i < nat n" "unat a + nat n \<le> 18446744073709551616" for a :: addr and i
    using that by (intro unat_add_of_nat64; linarith)
  show ?thesis
  proof (cases "src > dst")
    case True
    have "dst + of_nat j \<noteq> src + of_nat i" if "j < i" "i < nat n" for i j
    proof
      assume "dst + of_nat j = src + of_nat i"
      then have "unat dst + j = unat src + i" using au [of j dst] au [of i src] that d s by simp
      then show False using that True by (simp add: word_less_nat_alt)
    qed
    then show ?thesis using True move_up_eq [of "nat n" dst src m] d by (simp add: ulib_memmove_def)
  next
    case False
    have "dst + of_nat i \<noteq> src + of_nat j" if "j < i" "i < nat n" for i j
    proof
      assume "dst + of_nat i = src + of_nat j"
      then have "unat dst + i = unat src + j" using au [of i dst] au [of j src] that d s by simp
      then show False using that False by (simp add: word_less_nat_alt)
    qed
    moreover have "(of_int n :: addr) = of_nat (nat n)" using n by simp
    ultimately show ?thesis using False move_down_eq [of "nat n" dst src m] d by (simp add: ulib_memmove_def)
  qed
qed

text \<open>The two implementations of \<^verbatim>\<open>memmove\<close>, in the kernel and in user programs, agree.\<close>

theorem memmove_agree:
  assumes "unat dst + unat n \<le> 18446744073709551616" "unat src + unat n \<le> 18446744073709551616"
  shows "ulib_memmove m dst src (uint n) = memmove m dst src n"
  using ulib_memmove_eq [of dst "uint n" src m] memmove_eq [OF assms, of m] assms by simp

lemma strcmp_spec:
  assumes "cbytes m p k = xs" "length xs < k" "cbytes m q k = ys" "length ys < k"
  shows "\<exists>r. strcmp m p q = Some r \<and> (r = 0 \<longleftrightarrow> xs = ys) \<and> (r < 0 \<longleftrightarrow> ord_class.lexordp xs ys)"
  using assms
proof (induction k arbitrary: p q xs ys)
  case (Suc k)
  show ?case
  proof (cases "m p \<noteq> 0 \<and> m p = m q")
    case True
    let ?xs = "cbytes m (p + 1) k" and ?ys = "cbytes m (q + 1) k"
    have e: "xs = m p # ?xs" "ys = m p # ?ys" using True Suc.prems by auto
    obtain r where "strcmp m (p + 1) (q + 1) = Some r" "r = 0 \<longleftrightarrow> ?xs = ?ys" "r < 0 \<longleftrightarrow> ord_class.lexordp ?xs ?ys"
      using Suc.IH [OF refl _ refl] e Suc.prems by auto
    moreover have "m q \<noteq> 0" "m p = m q" using True by auto
    ultimately show ?thesis using e by (subst strcmp.simps) simp
  next
    case False
    have l: "uint (m p) - uint (m q) < 0 \<longleftrightarrow> m p < m q" "uint (m p) - uint (m q) = 0 \<longleftrightarrow> m p = m q"
      by (simp_all only: byte_diff_zero) (simp add: word_less_def)
    have xs: "xs = (if m p = 0 then [] else m p # cbytes m (p + 1) k)" and ys: "ys = (if m q = 0 then [] else m q # cbytes m (q + 1) k)"
      using Suc.prems(1,3) by auto
    have "(m p = m q \<longleftrightarrow> xs = ys) \<and> (m p < m q \<longleftrightarrow> ord_class.lexordp xs ys)"
      using False unfolding xs ys by (cases "m p = 0"; cases "m q = 0") (auto simp: word_gt_0)
    then have "(uint (m p) - uint (m q) = 0 \<longleftrightarrow> xs = ys) \<and> (uint (m p) - uint (m q) < 0 \<longleftrightarrow> ord_class.lexordp xs ys)" unfolding l .
    moreover have "strcmp m p q = Some (uint (m p) - uint (m q))" using False by (subst strcmp.simps) auto
    ultimately show ?thesis by blast
  qed
qed simp

lemma strcpy_loop_spec:
  assumes "cbytes m t (Suc n) = xs" "length xs = n" "Suc n \<le> 18446744073709551616" "disjoint_blocks s t (Suc n)"
  shows "strcpy_loop m s t = Some (\<lambda>a. if in_block s (Suc n) a then padded xs (unat (a - s)) else m a)"
  using assms
proof (induction n arbitrary: m s t xs)
  case 0
  then have "m t = 0" by (auto split: if_splits)
  then show ?case using 0 by (subst strcpy_loop.simps) (auto simp: in_block_def padded_def unat_eq_0 fun_eq_iff)
next
  case (Suc n)
  let ?m = "m(s := m t)"
  have t: "m t \<noteq> 0" and xs: "xs = m t # cbytes m (t + 1) (Suc n)" using Suc.prems(1,2) by (auto split: if_splits)
  have ne: "s \<noteq> t + of_nat j" if "j < Suc (Suc n)" for j
    using Suc.prems(4) [unfolded disjoint_blocks_def, rule_format, of 0 j] that by simp
  have cb: "cbytes ?m (t + 1) (Suc n) = cbytes m (t + 1) (Suc n)"
    by (rule cbytes_upd) (use ne [of "Suc _"] in \<open>simp add: add.assoc\<close>)
  have IH: "strcpy_loop ?m (s + 1) (t + 1) = Some (\<lambda>a. if in_block (s + 1) (Suc n) a then padded (tl xs) (unat (a - (s + 1))) else ?m a)"
  proof (rule Suc.IH)
    show "cbytes ?m (t + 1) (Suc n) = tl xs" unfolding cb by (subst xs) simp
    show "length (tl xs) = n" using Suc.prems(2) by simp
  qed (use Suc.prems(3) disjoint_blocks_Suc [OF Suc.prems(4)] in simp_all)
  have "(\<lambda>a. if in_block (s + 1) (Suc n) a then padded (tl xs) (unat (a - (s + 1))) else ?m a) =
      (\<lambda>a. if in_block s (Suc (Suc n)) a then padded xs (unat (a - s)) else m a)"
  proof
    fix a
    show "(if in_block (s + 1) (Suc n) a then padded (tl xs) (unat (a - (s + 1))) else ?m a) =
        (if in_block s (Suc (Suc n)) a then padded xs (unat (a - s)) else m a)"
    proof (cases "a = s")
      case True
      have "unat (- 1 :: addr) = 18446744073709551615" by (subst unsigned_minus_1_eq_mask) (simp add: mask_eq_exp_minus_1)
      then have "\<not> in_block (s + 1) (Suc n) s" using Suc.prems(3) by (simp add: in_block_def)
      then show ?thesis using True xs by (simp add: in_block_def padded_def)
    next
      case False
      then show ?thesis using in_block_Suc [OF Suc.prems(3), of s a] unat_diff_Suc [OF False] xs by (cases xs) (auto simp: padded_def)
    qed
  qed
  then show ?case using t IH by (subst strcpy_loop.simps) simp
qed


text \<open>
  \<^verbatim>\<open>strcmp\<close> of two strings returns, and its sign is the lexicographic order of the strings as unsigned bytes.
\<close>

theorem strcmp_correct:
  assumes "cbytes m p k = xs" "length xs < k" "cbytes m q k = ys" "length ys < k"
  shows "\<exists>r. strcmp m p q = Some r \<and> (r = 0 \<longleftrightarrow> xs = ys) \<and> (r < 0 \<longleftrightarrow> ord_class.lexordp xs ys)"
  by (rule strcmp_spec [OF assms])

text \<open>\<^verbatim>\<open>strcpy\<close> to a place that does not overlap the source copies the string with its NUL and changes nothing else.\<close>

theorem strcpy_correct:
  assumes "cbytes m t (Suc n) = xs" "length xs = n" "n < 2 ^ 63" "disjoint_blocks s t (Suc n)"
  shows "\<exists>m'. strcpy m s t = Some m' \<and> cbytes m' s (Suc n) = xs \<and> (\<forall>a. \<not> in_block s (Suc n) a \<longrightarrow> m' a = m a)"
proof -
  have n: "Suc n \<le> 18446744073709551616" using assms(3) by simp
  let ?m = "\<lambda>a. if in_block s (Suc n) a then padded xs (unat (a - s)) else m a"
  have "?m (s + of_nat i) = padded xs i" if "i < Suc n" for i
  proof -
    have "unat (of_nat i :: addr) = i" using that assms(3) by (subst unat_of_nat) (simp add: take_bit_eq_mod)
    then show ?thesis using that by (simp add: in_block_def)
  qed
  then have "cbytes ?m s (Suc n) = xs" by (rule cbytes_padded) (use cbytes_nonzero [of m t "Suc n"] assms(1,2) in auto)
  then show ?thesis using strcpy_loop_spec [OF assms(1,2) n assms(4)] by (intro exI [of _ ?m]) (simp add: strcpy_def del: cbytes.simps)
qed

section \<open>Reading a line\<close>

text \<open>
  When \<open>rd\<close> delivers the bytes of \<open>contents\<close> one after the other, \<^verbatim>\<open>gets\<close> takes a prefix of them that fits into the buffer with the NUL. It has
  no newline or carriage return except as its last byte, and it ends there, with a full buffer, or at the end of the input.
\<close>

definition byte_reader :: "('f \<Rightarrow> byte option \<times> 'f) \<Rightarrow> ('f \<Rightarrow> byte list) \<Rightarrow> bool" where
  "byte_reader rd contents \<longleftrightarrow>
     (\<forall>f. fst (rd f) = (case contents f of [] \<Rightarrow> None | c # cs \<Rightarrow> Some c) \<and> contents (snd (rd f)) = tl (contents f))"

lemma gets_loop_spec:
  assumes rd: "byte_reader rd contents"
  shows "gets_loop rd mx i f = (bs, f') \<Longrightarrow> contents f = bs @ contents f' \<and> (bs \<noteq> [] \<longrightarrow> int i + int (length bs) < mx) \<and>
    list_all (\<lambda>c. c \<noteq> 10 \<and> c \<noteq> 13) (butlast bs) \<and>
    (contents f' = [] \<or> mx \<le> int i + int (length bs) + 1 \<or> (bs \<noteq> [] \<and> last bs \<in> {10, 13}))"
proof (induction "nat (mx - int i)" arbitrary: i f bs rule: less_induct)
  case less
  show ?case
  proof (cases "int i + 1 < mx")
    case False
    then show ?thesis using less.prems by (subst (asm) gets_loop.simps) simp
  next
    case room: True
    obtain r f1 where r: "rd f = (r, f1)" by fastforce
    then have c: "r = (case contents f of [] \<Rightarrow> None | c # cs \<Rightarrow> Some c)" "contents f1 = tl (contents f)"
      using rd by (metis byte_reader_def fst_conv, metis byte_reader_def snd_conv)
    show ?thesis
    proof (cases "contents f")
      case Nil
      then show ?thesis using less.prems room r c by (subst (asm) gets_loop.simps) simp
    next
      case (Cons x xs)
      show ?thesis
      proof (cases "x = 10 \<or> x = 13")
        case True
        then show ?thesis using less.prems room r c Cons by (subst (asm) gets_loop.simps) auto
      next
        case False
        obtain bs1 f2 where g: "gets_loop rd mx (Suc i) f1 = (bs1, f2)" by fastforce
        have e: "bs = x # bs1" "f' = f2" using less.prems room r c Cons False g by (subst (asm) gets_loop.simps, simp)+
        have "nat (mx - int (Suc i)) < nat (mx - int i)" using room by simp
        then show ?thesis using less.hyps [of "Suc i" f1 bs1] g e c Cons False room by auto
      qed
    qed
  qed
qed

theorem gets_correct:
  assumes "byte_reader rd contents" "gets rd mx f = (bs, f')"
  shows "contents f = bs @ contents f'" "bs \<noteq> [] \<Longrightarrow> int (length bs) < mx" "list_all (\<lambda>c. c \<noteq> 10 \<and> c \<noteq> 13) (butlast bs)"
    "contents f' = [] \<or> mx \<le> int (length bs) + 1 \<or> (bs \<noteq> [] \<and> last bs \<in> {10, 13})"
  using gets_loop_spec [OF assms(1), of mx 0 f bs f'] assms(2) by (auto simp: gets_def)

section \<open>Numbers\<close>

lemma of_nat_foldl:
  "(of_nat (foldl (\<lambda>a c. a * 10 + digit_val c) a ds) :: 32 word) = foldl (\<lambda>a c. a * 10 + of_nat (digit_val c)) (of_nat a) ds"
  by (induction ds arbitrary: a) simp_all

lemma atoi_loop_num:
  assumes "list_all (\<lambda>c. 48 \<le> c \<and> c \<le> 57) ds" "rest = [] \<or> \<not> (48 \<le> hd rest \<and> hd rest \<le> 57)"
  shows "atoi_loop n (ds @ rest) = of_nat (foldl (\<lambda>a c. a * 10 + digit_val c) (unat n) ds)"
  using assms(1)
proof (induction ds arbitrary: n)
  case Nil
  then show ?case using assms(2) by (cases rest) auto
next
  case (Cons c ds)
  let ?n = "n * 10 + ucast c - 48 :: 32 word"
  have c: "48 \<le> c" "c \<le> 57" using Cons.prems by simp_all
  then have cn: "48 \<le> unat c" "unat c \<le> 57" by (simp_all add: word_le_nat_alt)
  have "c < 58" using c(2) by (simp add: word_le_nat_alt word_less_nat_alt)
  then have dv: "digit_val c = unat c - 48" by (simp add: digit_val_def)
  have eq: "?n = of_nat (unat n * 10 + digit_val c)"
    using cn by (simp add: dv of_nat_diff unsigned_ucast_eq)
  have key: "(of_nat (foldl (\<lambda>a c. a * 10 + digit_val c) (unat (of_nat k :: 32 word)) ds) :: 32 word) =
      of_nat (foldl (\<lambda>a c. a * 10 + digit_val c) k ds)" for k
    by (simp add: of_nat_foldl)
  have "atoi_loop n ((c # ds) @ rest) = atoi_loop ?n (ds @ rest)" using c by simp
  also have "\<dots> = of_nat (foldl (\<lambda>a c. a * 10 + digit_val c) (unat ?n) ds)" by (rule Cons.IH) (use Cons.prems in simp)
  also have "\<dots> = of_nat (foldl (\<lambda>a c. a * 10 + digit_val c) (unat n * 10 + digit_val c) ds)" unfolding eq by (rule key)
  finally show ?case by (simp only: foldl_Cons)
qed

text \<open>\<^verbatim>\<open>atoi\<close> gives the value of the decimal numeral at the start of the string, when it is below \<open>2\<^sup>3\<^sup>1\<close>.\<close>

theorem atoi_correct:
  assumes "list_all (\<lambda>c. 48 \<le> c \<and> c \<le> 57) ds" "rest = [] \<or> \<not> (48 \<le> hd rest \<and> hd rest \<le> 57)" "num_val 10 ds < 2 ^ 31"
  shows "atoi (ds @ rest) = int (num_val 10 ds)"
proof -
  have "sint (of_nat (num_val 10 ds) :: 32 word) = int (num_val 10 ds)"
    using assms(3) sint_sbintrunc' [of "int (num_val 10 ds)", where 'a = 32] by (simp add: signed_take_bit_int_eq_self)
  then show ?thesis using atoi_loop_num [OF assms(1,2), of 0] by (simp add: atoi_def num_val_def)
qed

section \<open>Formatting\<close>

lemma udigits10: "d < 10 \<Longrightarrow> DIGITS ! d = digits ! d"
  by (simp add: DIGITS_def digits_def numeral_eq_Suc less_Suc_eq) auto

lemma udigit_loop10: "udigit_loop 10 x = digit_loop 10 x"
proof (induction x rule: less_induct)
  case (less x)
  have "udigit_loop 10 (x div 10) = digit_loop 10 (x div 10)" if "x div 10 \<noteq> 0" by (rule less) (use that in auto)
  then show ?case by (subst udigit_loop.simps, subst digit_loop.simps) (simp add: udigits10)
qed

lemma length_udigit_loop: "length (udigit_loop base x) = length (digit_loop base x)"
proof (induction x rule: less_induct)
  case (less x)
  have "length (udigit_loop base (x div base)) = length (digit_loop base (x div base))" if "base > 1 \<and> x div base \<noteq> 0"
    by (rule less) (use that in \<open>auto intro!: div_less_dividend gr0I\<close>)
  then show ?case by (subst udigit_loop.simps, subst digit_loop.simps) simp
qed


lemma va_int_sint: "sint (va_int v) = sint (ucast v :: 32 word)"
proof -
  let ?w = "ucast v :: 32 word"
  have r: "- 2147483648 \<le> sint ?w" "sint ?w < 2147483648" using sint_range_size [of ?w] by (simp_all add: word_size)
  have "sint (va_int v) = signed_take_bit 63 (sint ?w)"
    unfolding va_int_def scast_eq by (subst sint_sbintrunc') simp
  also have "\<dots> = sint ?w" using r by (intro signed_take_bit_int_eq_self) simp_all
  finally show ?thesis .
qed

text \<open>The absolute value of a signed number, as the loop of \<^verbatim>\<open>printint\<close> sees it.\<close>

lemma unat_abs32: "unat (if xx <s 0 then - xx else xx) = nat \<bar>sint xx\<bar>" for xx :: "32 word"
proof (cases "xx <s 0")
  case True
  then have s: "sint xx < 0" by (simp add: word_sless_alt)
  have "- xx = word_of_int (- sint xx)" by simp
  moreover have "- sint xx < 4294967296" "0 \<le> - sint xx" using s sint_range_size [of xx] by (simp_all add: word_size)
  ultimately have "uint (- xx) = - sint xx" using uint_word_of_int [of "- sint xx", where 'a = 32] by (simp only:) simp
  then show ?thesis using True s by (simp add: unat_eq_nat_uint)
next
  case False
  then have p: "0 \<le> sint xx" by (simp add: word_sless_alt)
  then have "uint xx = sint xx" using uint_word_of_int [of "sint xx", where 'a = 32] sint_range_size [of xx] by (simp add: word_size)
  then show ?thesis using False p by (simp add: unat_eq_nat_uint)
qed

lemma unat_abs64: "unat (if xx <s 0 then - xx else xx) = nat \<bar>sint xx\<bar>" for xx :: uint64
proof (cases "xx <s 0")
  case True
  then have s: "sint xx < 0" by (simp add: word_sless_alt)
  have "- xx = word_of_int (- sint xx)" by simp
  moreover have "- sint xx < 18446744073709551616" "0 \<le> - sint xx" using s sint_range_size [of xx] by (simp_all add: word_size)
  ultimately have "uint (- xx) = - sint xx" using uint_word_of_int [of "- sint xx", where 'a = 64] by (simp only:) simp
  then show ?thesis using True s by (simp add: unat_eq_nat_uint)
next
  case False
  then have p: "0 \<le> sint xx" by (simp add: word_sless_alt)
  then have "uint xx = sint xx" using uint_word_of_int [of "sint xx", where 'a = 64] sint_range_size [of xx] by (simp add: word_size)
  then show ?thesis using False p by (simp add: unat_eq_nat_uint)
qed

lemma uprintint_agree: "uprintint (ucast v) 10 True = printint (va_int v) 10 True"
proof -
  have n: "(ucast v :: 32 word) <s 0 \<longleftrightarrow> va_int v <s 0" by (simp add: word_sless_alt va_int_sint)
  have "unat (if (ucast v :: 32 word) <s 0 then - ucast v else ucast v :: 32 word) = unat (if va_int v <s 0 then - va_int v else va_int v)"
    unfolding unat_abs32 unat_abs64 va_int_sint ..
  then show ?thesis unfolding uprintint_def printint_def Let_def by (simp add: n udigit_loop10 del: ucast_id)
qed

text \<open>Format strings with the conversions \<^verbatim>\<open>%d\<close>, \<^verbatim>\<open>%s\<close> and \<^verbatim>\<open>%%\<close>, and unknown ones.\<close>

fun plain_fmt :: "byte list \<Rightarrow> bool" where
  "plain_fmt [] = True"
| "plain_fmt [c] = True"
| "plain_fmt (c # c0 # fmt) = (if c = 37 then c0 \<notin> {0, 108, 112, 117, 120} \<and> plain_fmt fmt else plain_fmt (c0 # fmt))"

lemma conversion_plain:
  assumes "c0 \<notin> {0, 108, 112, 117, 120}"
  shows "uconversion c0 c1 c2 = conversion c0 c1' c2'"
  using assms uprintint_agree by (auto simp: uconversion_def conversion_def fun_eq_iff)

lemma conversion_plain_drop:
  assumes "c0 \<notin> {0, 108, 112, 117, 120}" "conversion c0 c1 c2 = Conv f k"
  shows "k = 0"
  using assms by (auto simp: conversion_def split: if_splits)

lemma vprintf_format: "plain_fmt fmt \<Longrightarrow> vprintf_loop False fmt ap = format fmt ap"
proof (induction fmt arbitrary: ap rule: plain_fmt.induct)
  case (2 c)
  show ?case
    by (simp add: vprintf_loop.simps(2) format.simps(2) conversion_def fmt_at_def)
next
  case (3 c c0 fmt)
  show ?case
  proof (cases "c = 37")
    case True
    then have c0: "c0 \<notin> {0, 108, 112, 117, 120}" and p: "plain_fmt fmt" using "3.prems" by simp_all
    note IH = "3.IH"(1) [OF True p]
    let ?k = "conversion c0 (fmt_at fmt 0) (fmt_at fmt 1)"
    have u: "uconversion c0 (fmt_at fmt 0) c2 = ?k" for c2 by (rule conversion_plain [OF c0])
    have a: "fmt_at (c0 # fmt) 0 = c0" "fmt_at (c0 # fmt) 1 = fmt_at fmt 0" "fmt_at (c0 # fmt) 2 = fmt_at fmt 1"
        "drop 1 (c0 # fmt) = fmt" "((37 :: byte) \<noteq> 37) = False" by (simp_all add: fmt_at_def numeral_2_eq_2)
    have F: "format (37 # c0 # fmt) ap =
        (case ?k of
           Conv f k \<Rightarrow> (case ap of Num v # ap \<Rightarrow> emit (f v) (format (drop k fmt) ap) | _ \<Rightarrow> None)
         | Conv_str \<Rightarrow> (case ap of Str t # ap \<Rightarrow>
               emit (Some (case t of None \<Rightarrow> null_str | Some bs \<Rightarrow> bs)) (format fmt ap) | _ \<Rightarrow> None)
         | Conv_none bs \<Rightarrow> emit (Some bs) (format fmt ap)
         | Conv_end \<Rightarrow> Some [])"
      unfolding format.simps(2) a drop_Suc_Cons if_False ..
    have V: "vprintf_loop True (c0 # fmt) ap =
        (case ?k of
           Conv f k \<Rightarrow> (case ap of Num v # ap \<Rightarrow> emit (f v) (vprintf_loop False (drop k fmt) ap) | _ \<Rightarrow> None)
         | Conv_str \<Rightarrow> (case ap of Str t # ap \<Rightarrow>
               emit (Some (case t of None \<Rightarrow> null_str | Some bs \<Rightarrow> bs)) (vprintf_loop False fmt ap) | _ \<Rightarrow> None)
         | Conv_none bs \<Rightarrow> emit (Some bs) (vprintf_loop False fmt ap)
         | Conv_end \<Rightarrow> Some [])"
      by (simp only: vprintf_loop.simps(2) Let_def u not_True_eq_False if_False)
    have "vprintf_loop False (c # c0 # fmt) ap = vprintf_loop True (c0 # fmt) ap" using True by (subst vprintf_loop.simps(2)) simp
    also have "\<dots> = format (37 # c0 # fmt) ap"
      unfolding F V using IH by (cases ?k) (auto dest: conversion_plain_drop [OF c0] split: list.splits va.splits)
    also have "\<dots> = format (c # c0 # fmt) ap" using True by simp
    finally show ?thesis .
  next
    case False
    then show ?thesis using "3.IH"(2) [OF False] "3.prems" by (simp add: vprintf_loop.simps(2) [of False c] format.simps(2) [of c])
  qed
qed simp

section \<open>Properties\<close>

text \<open>
  On format strings whose conversions are \<^verbatim>\<open>%d\<close>, \<^verbatim>\<open>%s\<close>, \<^verbatim>\<open>%%\<close> or unknown ones, the \<^verbatim>\<open>printf\<close> of user programs, which
  handles 32-bit numbers and runs as a machine with two states, gives the same bytes as that of the kernel.
\<close>

theorem vprintf_agree: "plain_fmt fmt \<Longrightarrow> vprintf fmt ap = format fmt ap"
  unfolding vprintf_def by (rule vprintf_format)

theorem vprintf_agree_witness:
  "vprintf [120, 37, 100, 37, 115] [Num 0xFFFFFFFF, Str (Some [33])] = format [120, 37, 100, 37, 115] [Num 0xFFFFFFFF, Str (Some [33])]"
  by (rule vprintf_agree) simp

text \<open>
  The buffer of the \<^verbatim>\<open>printint\<close> of user programs does not overrun: 32-bit numbers have at most ten digits. It prints
  the low half of its argument only.
\<close>

theorem uprintint_fits:
  assumes "base = 10 \<or> base = 16"
  shows "\<exists>bs. uprintint xx base sgned = Some bs \<and> length bs \<le> 11"
proof -
  let ?x = "if sgned \<and> xx <s 0 then - xx else xx"
  have "unat ?x < 10 ^ Suc 9" "unat ?x < 16 ^ Suc 7" using unat_word32_less [of ?x] by (simp_all del: if_split)
  then have "length (digit_loop base (unat ?x)) \<le> 10"
    using assms length_digit_loop [of 10 "unat ?x" 9] length_digit_loop [of 16 "unat ?x" 7] by auto
  then show ?thesis by (auto simp: uprintint_def length_udigit_loop Let_def)
qed

end
