(* ===== verification/Programs.thy ===== *)
theory Programs
  imports Ulib Sh
begin

text \<open>
  The small user programs: \<^verbatim>\<open>cat.c\<close>, \<^verbatim>\<open>wc.c\<close>, \<^verbatim>\<open>echo.c\<close>, \<^verbatim>\<open>rm.c\<close>, \<^verbatim>\<open>mkdir.c\<close>, \<^verbatim>\<open>ln.c\<close>, \<^verbatim>\<open>kill.c\<close>, \<^verbatim>\<open>ls.c\<close>, \<^verbatim>\<open>init.c\<close>, \<^verbatim>\<open>zombie.c\<close> and the main loop of \<^verbatim>\<open>sh.c\<close>. The system calls are the
  functions of the record \<open>sys\<close>, on a state of the system of any type \<open>'w\<close>; a program is a function of this record, of its arguments and
  of the state. \<^verbatim>\<open>argv\<close> is a list of strings, the name of the program first. A program ends by \<^verbatim>\<open>exit\<close>; a loop that goes on
  as long as \<^verbatim>\<open>read\<close> delivers bytes is a partial function.
\<close>

section \<open>System calls\<close>

record 'w sys =
  sc_read :: "int \<Rightarrow> nat \<Rightarrow> 'w \<Rightarrow> byte list option \<times> 'w"      \<comment> \<open>the bytes read, or \<open>None\<close> for -1\<close>
  sc_write :: "int \<Rightarrow> byte list \<Rightarrow> 'w \<Rightarrow> int \<times> 'w"
  sc_open :: "byte list \<Rightarrow> nat \<Rightarrow> 'w \<Rightarrow> int \<times> 'w"
  sc_close :: "int \<Rightarrow> 'w \<Rightarrow> 'w"
  sc_fstat :: "int \<Rightarrow> 'w \<Rightarrow> (nat \<times> uint \<times> uint64) option \<times> 'w"   \<comment> \<open>type, inode number and size\<close>
  sc_unlink :: "byte list \<Rightarrow> 'w \<Rightarrow> int \<times> 'w"
  sc_mkdir :: "byte list \<Rightarrow> 'w \<Rightarrow> int \<times> 'w"
  sc_link :: "byte list \<Rightarrow> byte list \<Rightarrow> 'w \<Rightarrow> int \<times> 'w"
  sc_kill :: "int \<Rightarrow> 'w \<Rightarrow> 'w"

datatype ('a, 'w) uout = Ret 'a 'w | Exited int 'w

definition ubind :: "('a, 'w) uout \<Rightarrow> ('a \<Rightarrow> 'w \<Rightarrow> ('b, 'w) uout option) \<Rightarrow> ('b, 'w) uout option" where
  "ubind r k = (case r of Ret a w \<Rightarrow> k a w | Exited n w \<Rightarrow> Some (Exited n w))"

text \<open>\<^verbatim>\<open>fprintf\<close> hands its bytes to \<^verbatim>\<open>write\<close> one at a time; the messages are formatted by \<open>vprintf\<close>.\<close>

definition putbytes :: "'w sys \<Rightarrow> int \<Rightarrow> byte list \<Rightarrow> 'w \<Rightarrow> 'w" where
  "putbytes sys fd bs w = fold (\<lambda>b w. snd (sc_write sys fd [b] w)) bs w"

definition ufprintf :: "'w sys \<Rightarrow> int \<Rightarrow> byte list \<Rightarrow> va list \<Rightarrow> 'w \<Rightarrow> 'w" where
  "ufprintf sys fd fmt ap w = (case vprintf fmt ap of None \<Rightarrow> w | Some bs \<Rightarrow> putbytes sys fd bs w)"

definition bytes_of :: "string \<Rightarrow> byte list" where
  "bytes_of s = map of_char s"

text \<open>\<^verbatim>\<open>stat\<close> of \<^verbatim>\<open>ulib.c\<close>.\<close>

definition ulib_stat :: "'w sys \<Rightarrow> byte list \<Rightarrow> 'w \<Rightarrow> (nat \<times> uint \<times> uint64) option \<times> 'w" where
  "ulib_stat sys n w =
     (let (fd, w) = sc_open sys n 0 w
      in if fd < 0 then (None, w)
         else let (r, w) = sc_fstat sys fd w in (r, sc_close sys fd w))"

section \<open>cat.c\<close>

partial_function (option) cat :: "'w sys \<Rightarrow> int \<Rightarrow> 'w \<Rightarrow> (unit, 'w) uout option" where
  "cat sys fd w =
     (case sc_read sys fd 512 w of
        (None, w) \<Rightarrow> Some (Exited 1 (ufprintf sys 2 (bytes_of ''cat: read error'' @ [10]) [] w))
      | (Some buf, w) \<Rightarrow>
          if buf = [] then Some (Ret () w)
          else let (r, w) = sc_write sys 1 buf w
               in if r \<noteq> int (length buf)
                  then Some (Exited 1 (ufprintf sys 2 (bytes_of ''cat: write error'' @ [10]) [] w))
                  else cat sys fd w)"

fun cat_files :: "'w sys \<Rightarrow> byte list list \<Rightarrow> 'w \<Rightarrow> (unit, 'w) uout option" where
  "cat_files sys [] w = Some (Exited 0 w)"
| "cat_files sys (a # args) w =
     (let (fd, w) = sc_open sys a 0 w
      in if fd < 0 then Some (Exited 1 (ufprintf sys 2 (bytes_of ''cat: cannot open %s'' @ [10]) [Str (Some a)] w))
         else Option.bind (cat sys fd w) (\<lambda>r. ubind r (\<lambda>_ w. cat_files sys args (sc_close sys fd w))))"

definition cat_main :: "'w sys \<Rightarrow> byte list list \<Rightarrow> 'w \<Rightarrow> (unit, 'w) uout option" where
  "cat_main sys argv w =
     (if length argv \<le> 1 then Option.bind (cat sys 0 w) (\<lambda>r. ubind r (\<lambda>_ w. Some (Exited 0 w)))
      else cat_files sys (tl argv) w)"

section \<open>wc.c\<close>

definition wc_space :: "byte \<Rightarrow> bool" where
  "wc_space c \<longleftrightarrow> c \<in> {32, 13, 9, 10, 11}"

text \<open>The counters \<^verbatim>\<open>l\<close>, \<^verbatim>\<open>w\<close>, \<^verbatim>\<open>c\<close> and \<^verbatim>\<open>inword\<close>, and one turn of the inner loop.\<close>

type_synonym wcst = "32 word \<times> 32 word \<times> 32 word \<times> bool"

definition wc_char :: "byte \<Rightarrow> wcst \<Rightarrow> wcst" where
  "wc_char b st =
     (let (l, w, c, inword) = st;
          c = c + 1;
          l = (if b = 10 then l + 1 else l)
      in if wc_space b then (l, w, c, False) else if \<not> inword then (l, w + 1, c, True) else (l, w, c, inword))"

partial_function (option) wc_loop :: "'w sys \<Rightarrow> int \<Rightarrow> wcst \<Rightarrow> 'w \<Rightarrow> (wcst, 'w) uout option" where
  "wc_loop sys fd st w =
     (case sc_read sys fd 512 w of
        (None, w) \<Rightarrow> Some (Exited 1 (ufprintf sys 1 (bytes_of ''wc: read error'' @ [10]) [] w))
      | (Some buf, w) \<Rightarrow> if buf = [] then Some (Ret st w) else wc_loop sys fd (fold wc_char buf st) w)"

definition wc :: "'w sys \<Rightarrow> int \<Rightarrow> byte list \<Rightarrow> 'w \<Rightarrow> (unit, 'w) uout option" where
  "wc sys fd name w =
     Option.bind (wc_loop sys fd (0, 0, 0, False) w) (\<lambda>r. ubind r (\<lambda>(l, wd, c, _) w.
       Some (Ret () (ufprintf sys 1 (bytes_of ''%d %d %d %s'' @ [10])
         [Num (ucast l), Num (ucast wd), Num (ucast c), Str (Some name)] w))))"

fun wc_files :: "'w sys \<Rightarrow> byte list list \<Rightarrow> 'w \<Rightarrow> (unit, 'w) uout option" where
  "wc_files sys [] w = Some (Exited 0 w)"
| "wc_files sys (a # args) w =
     (let (fd, w) = sc_open sys a 0 w
      in if fd < 0 then Some (Exited 1 (ufprintf sys 1 (bytes_of ''wc: cannot open %s'' @ [10]) [Str (Some a)] w))
         else Option.bind (wc sys fd a w) (\<lambda>r. ubind r (\<lambda>_ w. wc_files sys args (sc_close sys fd w))))"

definition wc_main :: "'w sys \<Rightarrow> byte list list \<Rightarrow> 'w \<Rightarrow> (unit, 'w) uout option" where
  "wc_main sys argv w =
     (if length argv \<le> 1 then Option.bind (wc sys 0 [] w) (\<lambda>r. ubind r (\<lambda>_ w. Some (Exited 0 w)))
      else wc_files sys (tl argv) w)"

section \<open>echo.c, rm.c, mkdir.c, ln.c, kill.c\<close>

fun echo_loop :: "'w sys \<Rightarrow> byte list list \<Rightarrow> 'w \<Rightarrow> 'w" where
  "echo_loop sys [] w = w"
| "echo_loop sys (a # args) w =
     (let w = snd (sc_write sys 1 a w) in echo_loop sys args (snd (sc_write sys 1 (if args \<noteq> [] then [32] else [10]) w)))"

definition echo_main :: "'w sys \<Rightarrow> byte list list \<Rightarrow> 'w \<Rightarrow> (unit, 'w) uout" where
  "echo_main sys argv w = Exited 0 (echo_loop sys (tl argv) w)"

fun rm_loop :: "'w sys \<Rightarrow> byte list list \<Rightarrow> 'w \<Rightarrow> 'w" where
  "rm_loop sys [] w = w"
| "rm_loop sys (a # args) w =
     (let (r, w) = sc_unlink sys a w
      in if r < 0 then ufprintf sys 2 (bytes_of ''rm: %s failed to delete'' @ [10]) [Str (Some a)] w else rm_loop sys args w)"

definition rm_main :: "'w sys \<Rightarrow> byte list list \<Rightarrow> 'w \<Rightarrow> (unit, 'w) uout" where
  "rm_main sys argv w =
     (if length argv < 2 then Exited 1 (ufprintf sys 2 (bytes_of ''Usage: rm files...'' @ [10]) [] w)
      else Exited 0 (rm_loop sys (tl argv) w))"

fun mkdir_loop :: "'w sys \<Rightarrow> byte list list \<Rightarrow> 'w \<Rightarrow> 'w" where
  "mkdir_loop sys [] w = w"
| "mkdir_loop sys (a # args) w =
     (let (r, w) = sc_mkdir sys a w
      in if r < 0 then ufprintf sys 2 (bytes_of ''mkdir: %s failed to create'' @ [10]) [Str (Some a)] w else mkdir_loop sys args w)"

definition mkdir_main :: "'w sys \<Rightarrow> byte list list \<Rightarrow> 'w \<Rightarrow> (unit, 'w) uout" where
  "mkdir_main sys argv w =
     (if length argv < 2 then Exited 1 (ufprintf sys 2 (bytes_of ''Usage: mkdir files...'' @ [10]) [] w)
      else Exited 0 (mkdir_loop sys (tl argv) w))"

definition ln_main :: "'w sys \<Rightarrow> byte list list \<Rightarrow> 'w \<Rightarrow> (unit, 'w) uout" where
  "ln_main sys argv w =
     (if length argv \<noteq> 3 then Exited 1 (ufprintf sys 2 (bytes_of ''Usage: ln old new'' @ [10]) [] w)
      else let (r, w) = sc_link sys (argv ! 1) (argv ! 2) w
           in Exited 0 (if r < 0 then ufprintf sys 2 (bytes_of ''link %s %s: failed'' @ [10]) [Str (Some (argv ! 1)), Str (Some (argv ! 2))] w
                        else w))"

definition kill_main :: "'w sys \<Rightarrow> byte list list \<Rightarrow> 'w \<Rightarrow> (unit, 'w) uout" where
  "kill_main sys argv w =
     (if length argv < 2 then Exited 1 (ufprintf sys 2 (bytes_of ''usage: kill pid...'' @ [10]) [] w)
      else Exited 0 (fold (\<lambda>a w. sc_kill sys (atoi a) w) (tl argv) w))"

section \<open>ls.c\<close>

definition fmtname :: "byte list \<Rightarrow> byte list" where
  "fmtname path =
     (let p = rev (takeWhile (\<lambda>c. c \<noteq> 47) (rev path))
      in if length p \<ge> 14 then p else p @ replicate (14 - length p) 32)"

definition ls_entry :: "'w sys \<Rightarrow> byte list \<Rightarrow> nat \<times> uint \<times> uint64 \<Rightarrow> 'w \<Rightarrow> 'w" where
  "ls_entry sys path st w =
     (let (type, ino, size) = st
      in ufprintf sys 1 (bytes_of ''%s %d %d %d'' @ [10])
           [Str (Some (fmtname path)), Num (of_nat type), Num (ucast ino), Num size] w)"

text \<open>The loop over the entries of a directory; \<open>pre\<close> is what \<^verbatim>\<open>buf\<close> holds before \<^verbatim>\<open>p\<close>.\<close>

partial_function (option) ls_dir :: "'w sys \<Rightarrow> byte list \<Rightarrow> int \<Rightarrow> 'w \<Rightarrow> 'w option" where
  "ls_dir sys pre fd w =
     (case sc_read sys fd 16 w of
        (None, w) \<Rightarrow> Some w
      | (Some de, w) \<Rightarrow>
          if length de \<noteq> 16 then Some w
          else if de ! 0 = 0 \<and> de ! 1 = 0 then ls_dir sys pre fd w
          else let buf = pre @ takeWhile (\<lambda>c. c \<noteq> 0) (drop 2 de);
                   (st, w) = ulib_stat sys buf w
               in ls_dir sys pre fd
                    (case st of None \<Rightarrow> ufprintf sys 1 (bytes_of ''ls: cannot stat %s'' @ [10]) [Str (Some buf)] w
                              | Some st \<Rightarrow> ls_entry sys buf st w))"

definition ls :: "'w sys \<Rightarrow> byte list \<Rightarrow> 'w \<Rightarrow> 'w option" where
  "ls sys path w =
     (let (fd, w) = sc_open sys path 0 w
      in if fd < 0 then Some (ufprintf sys 2 (bytes_of ''ls: cannot open %s'' @ [10]) [Str (Some path)] w)
         else case sc_fstat sys fd w of
                (None, w) \<Rightarrow> Some (sc_close sys fd (ufprintf sys 2 (bytes_of ''ls: cannot stat %s'' @ [10]) [Str (Some path)] w))
              | (Some st, w) \<Rightarrow>
                  map_option (sc_close sys fd)
                    (if fst st = 3 \<or> fst st = 2 then Some (ls_entry sys path st w)
                     else if fst st = 1
                     then if length path + 1 + 14 + 1 > 512 then Some (ufprintf sys 1 (bytes_of ''ls: path too long'' @ [10]) [] w)
                          else ls_dir sys (path @ [47]) fd w
                     else Some w))"

fun ls_args :: "'w sys \<Rightarrow> byte list list \<Rightarrow> 'w \<Rightarrow> 'w option" where
  "ls_args sys [] w = Some w"
| "ls_args sys (a # args) w = Option.bind (ls sys a w) (ls_args sys args)"

definition ls_main :: "'w sys \<Rightarrow> byte list list \<Rightarrow> 'w \<Rightarrow> (unit, 'w) uout option" where
  "ls_main sys argv w =
     map_option (Exited 0) (if length argv < 2 then ls sys (bytes_of ''.'') w else ls_args sys (tl argv) w)"

section \<open>Programs that start others\<close>

text \<open>
  The calls of the shell and of \<^verbatim>\<open>init.c\<close> about processes. A call of \<^verbatim>\<open>fork\<close> says what the child goes on with, of a type \<open>'k\<close> that depends on the
  program, and gives what it returns to the parent.
\<close>

record ('w, 'k) psys = "'w sys" +
  sc_fork :: "'k \<Rightarrow> 'w \<Rightarrow> int \<times> 'w"
  sc_wait :: "'w \<Rightarrow> int \<times> 'w"
  sc_exec :: "byte list \<Rightarrow> byte list list \<Rightarrow> 'w \<Rightarrow> 'w"   \<comment> \<open>returns only when it fails\<close>
  sc_chdir :: "byte list \<Rightarrow> 'w \<Rightarrow> int \<times> 'w"
  sc_mknod :: "byte list \<Rightarrow> nat \<Rightarrow> nat \<Rightarrow> 'w \<Rightarrow> int \<times> 'w"
  sc_dup :: "int \<Rightarrow> 'w \<Rightarrow> int \<times> 'w"
  sc_sleep :: "int \<Rightarrow> 'w \<Rightarrow> 'w"

text \<open>\<^verbatim>\<open>read(0, &c, 1)\<close>, as \<^verbatim>\<open>gets\<close> calls it.\<close>

definition read_byte :: "('w, 'k, 'z) psys_scheme \<Rightarrow> 'w \<Rightarrow> byte option \<times> 'w" where
  "read_byte sys w = (case sc_read sys 0 1 w of (Some (c # _), w) \<Rightarrow> (Some c, w) | (_, w) \<Rightarrow> (None, w))"

text \<open>
  \<^verbatim>\<open>getcmd\<close> and \<^verbatim>\<open>main\<close> of \<^verbatim>\<open>sh.c\<close>. The buffer of 100 bytes is cleared before each line, so the line ends at its first NUL. A line is a
  built-in \<^verbatim>\<open>cd\<close>, or is parsed and run in a child.
\<close>

type_synonym shchild = "(string + word_ptrs cmd) option"

definition getcmd :: "('w, 'k) psys \<Rightarrow> 'w \<Rightarrow> byte list option \<times> 'w" where
  "getcmd sys w =
     (let w = snd (sc_write sys 2 [36, 32] w);
          (bs, w) = gets (read_byte sys) 100 w;
          buf = takeWhile (\<lambda>b. b \<noteq> 0) bs
      in (if buf = [] then None else Some buf, w))"

definition fork1 :: "('w, 'k) psys \<Rightarrow> 'k \<Rightarrow> 'w \<Rightarrow> (int, 'w) uout" where
  "fork1 sys child w =
     (let (pid, w) = sc_fork sys child w
      in if pid = -1 then Exited 1 (ufprintf (sys.truncate sys) 2 (bytes_of ''%s'' @ [10]) [Str (Some (bytes_of ''fork''))] w)
         else Ret pid w)"

partial_function (option) sh_loop :: "('w, shchild) psys \<Rightarrow> 'w \<Rightarrow> (unit, 'w) uout option" where
  "sh_loop sys w =
     (case getcmd sys w of
        (None, w) \<Rightarrow> Some (Exited 0 w)
      | (Some buf, w) \<Rightarrow>
          if take 3 buf = bytes_of ''cd ''
          then let path = drop 3 (butlast buf);
                   (r, w) = sc_chdir sys path w
               in sh_loop sys (if r < 0 then ufprintf (sys.truncate sys) 2 (bytes_of ''cannot cd %s'' @ [10]) [Str (Some path)] w else w)
          else (case fork1 sys (parsecmd (map (\<lambda>b. char_of (unat b)) buf)) w of
                  Exited n w \<Rightarrow> Some (Exited n w)
                | Ret pid w \<Rightarrow> sh_loop sys (snd (sc_wait sys w))))"

text \<open>Before that, \<^verbatim>\<open>main\<close> opens the console until three descriptors are in use.\<close>

partial_function (option) sh_fds :: "('w, 'k) psys \<Rightarrow> 'w \<Rightarrow> 'w option" where
  "sh_fds sys w =
     (let (fd, w) = sc_open sys (bytes_of ''console'') 2 w
      in if fd < 0 then Some w else if fd \<ge> 3 then Some (sc_close sys fd w) else sh_fds sys w)"

definition sh_main :: "('w, shchild) psys \<Rightarrow> 'w \<Rightarrow> (unit, 'w) uout option" where
  "sh_main sys w = Option.bind (sh_fds sys w) (sh_loop sys)"

text \<open>\<^verbatim>\<open>init.c\<close>: the child is always \<open>init_child\<close>.\<close>

definition init_child :: "('w, 'k) psys \<Rightarrow> 'w \<Rightarrow> (unit, 'w) uout" where
  "init_child sys w =
     (let w = sc_exec sys (bytes_of ''sh'') [bytes_of ''sh''] w
      in Exited 1 (ufprintf (sys.truncate sys) 1 (bytes_of ''init: exec sh failed'' @ [10]) [] w))"

partial_function (option) init_wait :: "('w, 'k) psys \<Rightarrow> int \<Rightarrow> 'w \<Rightarrow> (unit, 'w) uout option" where
  "init_wait sys pid w =
     (let (wpid, w) = sc_wait sys w
      in if wpid = pid then Some (Ret () w)
         else if wpid < 0 then Some (Exited 1 (ufprintf (sys.truncate sys) 1 (bytes_of ''init: wait returned an error'' @ [10]) [] w))
         else init_wait sys pid w)"

partial_function (option) init_loop :: "('w, unit) psys \<Rightarrow> 'w \<Rightarrow> (unit, 'w) uout option" where
  "init_loop sys w =
     (let w = ufprintf (sys.truncate sys) 1 (bytes_of ''init: starting sh'' @ [10]) [] w;
          (pid, w) = sc_fork sys () w
      in if pid < 0 then Some (Exited 1 (ufprintf (sys.truncate sys) 1 (bytes_of ''init: fork failed'' @ [10]) [] w))
         else Option.bind (init_wait sys pid w) (\<lambda>r. case r of Ret _ w \<Rightarrow> init_loop sys w | Exited n w \<Rightarrow> Some (Exited n w)))"

definition init_main :: "('w, unit) psys \<Rightarrow> 'w \<Rightarrow> (unit, 'w) uout option" where
  "init_main sys w =
     (let (fd, w) = sc_open sys (bytes_of ''console'') 2 w;
          w = (if fd < 0
               then let w = snd (sc_mknod sys (bytes_of ''console'') 1 0 w) in snd (sc_open sys (bytes_of ''console'') 2 w)
               else w);
          w = snd (sc_dup sys 0 w);
          w = snd (sc_dup sys 0 w)
      in init_loop sys w)"

definition zombie_main :: "('w, unit) psys \<Rightarrow> 'w \<Rightarrow> (unit, 'w) uout" where
  "zombie_main sys w =
     (let (pid, w) = sc_fork sys () w;
          w = (if pid > 0 then sc_sleep sys 5 w else w)
      in Exited 0 w)"

section \<open>Input and output\<close>

text \<open>
  What the programs rely on: \<^verbatim>\<open>read\<close> on the descriptor \<open>fd\<close> delivers the rest of its contents in pieces, none only at the end, and
  \<^verbatim>\<open>write\<close> to descriptor 1 appends to what was written there; neither disturbs the other.
\<close>

definition stdio :: "'w sys \<Rightarrow> int \<Rightarrow> ('w \<Rightarrow> byte list) \<Rightarrow> ('w \<Rightarrow> byte list) \<Rightarrow> bool" where
  "stdio sys fd contents out \<longleftrightarrow>
     (\<forall>w n. 0 < n \<longrightarrow> (\<exists>bs w'. sc_read sys fd n w = (Some bs, w') \<and> length bs \<le> n \<and> contents w = bs @ contents w' \<and>
        (bs = [] \<longrightarrow> contents w = []) \<and> out w' = out w)) \<and>
     (\<forall>w bs. \<exists>w'. sc_write sys 1 bs w = (int (length bs), w') \<and> out w' = out w @ bs \<and> contents w' = contents w)"

lemma stdio_read:
  assumes "stdio sys fd contents out" "0 < n"
  obtains bs w' where "sc_read sys fd n w = (Some bs, w')" "length bs \<le> n" "contents w = bs @ contents w'" "bs = [] \<longrightarrow> contents w = []"
    "out w' = out w"
  using assms unfolding stdio_def by blast

lemma stdio_write:
  assumes "stdio sys fd contents out"
  obtains w' where "sc_write sys 1 bs w = (int (length bs), w')" "out w' = out w @ bs" "contents w' = contents w"
  using assms unfolding stdio_def by blast

lemma putbytes_out:
  assumes io: "stdio sys fd contents out"
  shows "out (putbytes sys 1 bs w) = out w @ bs \<and> contents (putbytes sys 1 bs w) = contents w"
proof (induction bs arbitrary: w)
  case (Cons b bs)
  obtain w' where "sc_write sys 1 [b] w = (1, w')" "out w' = out w @ [b]" "contents w' = contents w"
    using stdio_write [OF io, of "[b]" w] by auto
  then show ?case using Cons.IH [of w'] by (simp add: putbytes_def)
qed (simp add: putbytes_def)

lemma cat_spec:
  assumes io: "stdio sys fd contents out"
  shows "\<exists>w'. cat sys fd w = Some (Ret () w') \<and> out w' = out w @ contents w \<and> contents w' = []"
proof (induction "length (contents w)" arbitrary: w rule: less_induct)
  case less
  obtain bs w1 where r: "sc_read sys fd 512 w = (Some bs, w1)" "contents w = bs @ contents w1" "bs = [] \<longrightarrow> contents w = []" "out w1 = out w"
    by (rule stdio_read [OF io, of 512 w]) (simp, rule that)
  show ?case
  proof (cases "bs = []")
    case True
    then show ?thesis using r by (subst cat.simps) simp
  next
    case False
    obtain w2 where w2: "sc_write sys 1 bs w1 = (int (length bs), w2)" "out w2 = out w1 @ bs" "contents w2 = contents w1"
      using stdio_write [OF io] by blast
    have "length (contents w2) < length (contents w)" using r(2) w2(3) False by simp
    from less [OF this] obtain w' where "cat sys fd w2 = Some (Ret () w')" "out w' = out w2 @ contents w2" "contents w' = []" by blast
    then show ?thesis using r w2 False by (subst cat.simps) simp
  qed
qed

text \<open>The reference for \<^verbatim>\<open>wc\<close>: a word starts at every byte that is no space and comes first or after a space.\<close>

definition word_starts :: "byte list \<Rightarrow> nat" where
  "word_starts bs = length (filter (\<lambda>i. \<not> wc_space (bs ! i) \<and> (i = 0 \<or> wc_space (bs ! (i - 1)))) [0..<length bs])"

definition wc_count :: "byte list \<Rightarrow> wcst" where
  "wc_count bs = (of_nat (length (filter (\<lambda>b. b = 10) bs)), of_nat (word_starts bs), of_nat (length bs), bs \<noteq> [] \<and> \<not> wc_space (last bs))"

lemma word_starts_snoc:
  "word_starts (bs @ [b]) = word_starts bs + (if \<not> wc_space b \<and> (bs = [] \<or> wc_space (last bs)) then 1 else 0)"
proof -
  have "filter (\<lambda>i. \<not> wc_space ((bs @ [b]) ! i) \<and> (i = 0 \<or> wc_space ((bs @ [b]) ! (i - 1)))) [0..<length bs] =
      filter (\<lambda>i. \<not> wc_space (bs ! i) \<and> (i = 0 \<or> wc_space (bs ! (i - 1)))) [0..<length bs]"
    by (rule filter_cong) (auto simp: nth_append)
  moreover have "(bs @ [b]) ! (length bs - 1) = last bs" if "bs \<noteq> []" using that by (simp add: nth_append last_conv_nth)
  ultimately show ?thesis by (auto simp: word_starts_def nth_append)
qed

lemma wc_fold: "fold wc_char bs (0, 0, 0, False) = wc_count bs"
proof (induction bs rule: rev_induct)
  case (snoc b bs)
  then show ?case by (auto simp: wc_count_def wc_char_def word_starts_snoc Let_def)
qed (simp add: wc_count_def word_starts_def)

lemma wc_loop_spec:
  assumes io: "stdio sys fd contents out"
  shows "\<exists>w'. wc_loop sys fd st w = Some (Ret (fold wc_char (contents w) st) w') \<and> out w' = out w \<and> contents w' = []"
proof (induction "length (contents w)" arbitrary: w st rule: less_induct)
  case less
  obtain bs w1 where r: "sc_read sys fd 512 w = (Some bs, w1)" "contents w = bs @ contents w1" "bs = [] \<longrightarrow> contents w = []" "out w1 = out w"
    by (rule stdio_read [OF io, of 512 w]) (simp, rule that)
  show ?case
  proof (cases "bs = []")
    case True
    then show ?thesis using r by (subst wc_loop.simps) simp
  next
    case False
    have "length (contents w1) < length (contents w)" using r(2) False by simp
    from less [OF this, of "fold wc_char bs st"] show ?thesis using r False by (subst wc_loop.simps) simp
  qed
qed

lemma wc_format:
  assumes "printint (va_int l) 10 True = Some bl" "printint (va_int wd) 10 True = Some bw" "printint (va_int c) 10 True = Some bc"
  shows "vprintf (bytes_of ''%d %d %d %s'' @ [10]) [Num l, Num wd, Num c, Str (Some name)] =
      Some (bl @ [32] @ bw @ [32] @ bc @ [32] @ name @ [10])"
proof -
  have "bytes_of ''%d %d %d %s'' @ [10] = [37, 100, 32, 37, 100, 32, 37, 100, 32, 37, 115, 10]" by (simp add: bytes_of_def)
  then show ?thesis using assms
    by (simp add: vprintf_def vprintf_format format.simps(2) conversion_def fmt_at_def emit_def)
qed


lemma numeral_of:
  assumes "k < 2 ^ 31"
  obtains ds where "printint (va_int (ucast (of_nat k :: 32 word))) 10 True = Some ds" "is_numeral 10 k ds"
proof -
  let ?w = "of_nat k :: 32 word"
  have k: "k < 2147483648" using assms by simp
  have w: "(ucast (ucast ?w :: uint64) :: 32 word) = ?w" by (intro bit_word_eqI) (simp add: bit_unsigned_iff)
  have "sint ?w = int k" using k sint_sbintrunc' [of "int k", where 'a = 32] by (simp add: signed_take_bit_int_eq_self)
  then have "sint (va_int (ucast ?w)) = int k" by (simp only: va_int_sint w)
  then show ?thesis using printint_spec [of 10 True "va_int (ucast ?w)"] k that by auto
qed

lemma word_starts_le: "word_starts bs \<le> length bs"
  by (simp add: word_starts_def order_trans [OF length_filter_le])

section \<open>Properties\<close>

text \<open>
  C18. \<^verbatim>\<open>wc\<close> prints the number of newlines, of words and of bytes of its input in decimal, followed by the name: whatever the pieces in
  which \<^verbatim>\<open>read\<close> delivers the input, a word that is cut by the end of the buffer counts once.
\<close>

theorem wc_correct:
  assumes "stdio sys fd contents out" "length (contents w) < 2 ^ 31"
  shows "\<exists>w' ls ws cs. wc sys fd name w = Some (Ret () w') \<and> out w' = out w @ ls @ [32] @ ws @ [32] @ cs @ [32] @ name @ [10] \<and>
    is_numeral 10 (length (filter (\<lambda>b. b = 10) (contents w))) ls \<and> is_numeral 10 (word_starts (contents w)) ws \<and>
    is_numeral 10 (length (contents w)) cs"
proof -
  let ?bs = "contents w"
  obtain w1 where w1: "wc_loop sys fd (0, 0, 0, False) w = Some (Ret (wc_count ?bs) w1)" "out w1 = out w"
    using wc_loop_spec [OF assms(1), of "(0, 0, 0, False)" w] unfolding wc_fold by blast
  have b: "length (filter (\<lambda>b. b = 10) ?bs) < 2 ^ 31" "word_starts ?bs < 2 ^ 31"
    using assms(2) length_filter_le [of "\<lambda>b. b = 10" ?bs] word_starts_le [of ?bs] by linarith+
  obtain ls where ls: "printint (va_int (ucast (of_nat (length (filter (\<lambda>b. b = 10) ?bs)) :: 32 word))) 10 True = Some ls"
    "is_numeral 10 (length (filter (\<lambda>b. b = 10) ?bs)) ls" by (rule numeral_of [OF b(1)])
  obtain ws where ws: "printint (va_int (ucast (of_nat (word_starts ?bs) :: 32 word))) 10 True = Some ws" "is_numeral 10 (word_starts ?bs) ws"
    by (rule numeral_of [OF b(2)])
  obtain cs where cs: "printint (va_int (ucast (of_nat (length ?bs) :: 32 word))) 10 True = Some cs" "is_numeral 10 (length ?bs) cs"
    by (rule numeral_of [OF assms(2)])
  let ?line = "ls @ [32] @ ws @ [32] @ cs @ [32] @ name @ [10]"
  have fmt: "vprintf (bytes_of ''%d %d %d %s'' @ [10])
      [Num (ucast (of_nat (length (filter (\<lambda>b. b = 10) ?bs)) :: 32 word)), Num (ucast (of_nat (word_starts ?bs) :: 32 word)),
       Num (ucast (of_nat (length ?bs) :: 32 word)), Str (Some name)] = Some ?line"
    by (rule wc_format [OF ls(1) ws(1) cs(1)])
  have "wc sys fd name w = Some (Ret () (putbytes sys 1 ?line w1))"
    unfolding wc_def w1(1) using fmt by (simp add: ubind_def wc_count_def ufprintf_def)
  moreover have "out (putbytes sys 1 ?line w1) = out w @ ?line" using putbytes_out [OF assms(1)] w1(2) by simp
  ultimately show ?thesis using ls(2) ws(2) cs(2)
    by (intro exI [of _ "putbytes sys 1 ?line w1"] exI [of _ ls] exI [of _ ws] exI [of _ cs] conjI)
qed

text \<open>\<^verbatim>\<open>cat\<close> copies the whole input to its output.\<close>

theorem cat_correct:
  assumes "stdio sys fd contents out"
  shows "\<exists>w'. cat sys fd w = Some (Ret () w') \<and> out w' = out w @ contents w \<and> contents w' = []"
  by (rule cat_spec [OF assms])

text \<open>\<^verbatim>\<open>echo\<close> prints its arguments with blanks between them, and a newline if there are any.\<close>

theorem echo_correct:
  assumes "stdio sys fd contents out"
  shows "out (echo_loop sys args w) = out w @ (if args = [] then [] else concat (map (\<lambda>a. a @ [32]) (butlast args)) @ last args @ [10])"
proof (induction args arbitrary: w)
  case (Cons a args)
  obtain w1 where w1: "sc_write sys 1 a w = (int (length a), w1)" "out w1 = out w @ a" by (rule stdio_write [OF assms])
  let ?c = "if args \<noteq> [] then [32] else [10 :: byte]"
  obtain w2 where w2: "sc_write sys 1 ?c w1 = (int (length ?c), w2)" "out w2 = out w1 @ ?c" by (rule stdio_write [OF assms])
  have e: "echo_loop sys (a # args) w = echo_loop sys args w2" by (simp only: echo_loop.simps Let_def w1(1) w2(1) snd_conv)
  show ?case unfolding e using Cons.IH [of w2] w1(2) w2(2) by (cases "args = []") simp_all
qed simp

section \<open>Witnesses\<close>

definition mem_sys :: "(byte list \<times> byte list) sys" where
  "mem_sys = \<lparr>sc_read = (\<lambda>fd n (i, o'). (Some (take n i), (drop n i, o'))), sc_write = (\<lambda>fd bs (i, o'). (int (length bs), (i, o' @ bs))),
     sc_open = (\<lambda>p m w. (- 1, w)), sc_close = (\<lambda>fd w. w), sc_fstat = (\<lambda>fd w. (None, w)), sc_unlink = (\<lambda>p w. (- 1, w)),
     sc_mkdir = (\<lambda>p w. (- 1, w)), sc_link = (\<lambda>p q w. (- 1, w)), sc_kill = (\<lambda>p w. w)\<rparr>"

lemma mem_stdio: "stdio mem_sys 0 fst snd"
  by (auto simp: stdio_def mem_sys_def)

theorem wc_correct_witness:
  "\<exists>w' ls ws cs. wc mem_sys 0 [] ([97, 98, 32, 99, 10], []) = Some (Ret () w') \<and> snd w' = ls @ [32] @ ws @ [32] @ cs @ [32] @ [10] \<and>
    is_numeral 10 1 ls \<and> is_numeral 10 2 ws \<and> is_numeral 10 5 cs"
proof -
  let ?bs = "[97, 98, 32, 99, 10] :: byte list"
  have e: "word_starts ?bs = 2" "length (filter (\<lambda>b. b = 10) ?bs) = 1" "length ?bs = 5"
    by (simp_all add: word_starts_def wc_space_def upt_rec)
  show ?thesis using wc_correct [OF mem_stdio, of "(?bs, [])" "[]"] unfolding fst_conv e by simp
qed

end
