(* ===== verification/Usys.thy ===== *)
theory Usys
  imports Asm Syscall
begin

text \<open>
  How a user program enters the kernel: the stubs of \<^verbatim>\<open>user/usys.S\<close> and the first program, \<^verbatim>\<open>user/initcode.S\<close>. The instruction \<^verbatim>\<open>ecall\<close> is a
  parameter: \<open>trap\<close> is what the registers and the memory are when the program goes on after it. A stub puts the number of the call
  into \<^verbatim>\<open>a7\<close>; \<^verbatim>\<open>uservec\<close> saves it in the trap frame, where \<^verbatim>\<open>syscall\<close> finds it.
\<close>

definition usys :: "(string \<times> nat) list" where
  "usys = [(''fork'', 1), (''exit'', 2), (''wait'', 3), (''pipe'', 4), (''read'', 5), (''write'', 16), (''close'', 21), (''kill'', 6),
     (''exec'', 7), (''open'', 15), (''mknod'', 17), (''unlink'', 18), (''fstat'', 8), (''link'', 19), (''mkdir'', 20), (''chdir'', 9),
     (''dup'', 10), (''getpid'', 11), (''sbrk'', 12), (''sleep'', 13), (''uptime'', 14), (''bind'', 29), (''unbind'', 30), (''send'', 31),
     (''recv'', 32), (''pgpte'', 33), (''kpgtbl'', 34)]"

definition stub :: "mmu \<Rightarrow> (hart \<Rightarrow> hart) \<Rightarrow> nat \<Rightarrow> hart \<Rightarrow> hart" where
  "stub tr trap n h = step tr (Jr RA) (trap (step tr (Li A7 (of_nat n)) h))"

text \<open>\<^verbatim>\<open>initcode.S\<close>: the call of \<^verbatim>\<open>exec\<close>; and one turn of the loop that calls \<^verbatim>\<open>exit\<close> should \<^verbatim>\<open>exec\<close> return.\<close>

definition initcode_exec :: "mmu \<Rightarrow> addr \<Rightarrow> addr \<Rightarrow> hart \<Rightarrow> hart" where
  "initcode_exec tr init argv h = run tr [Li A0 init, Li A1 argv, Li A7 7] h"

definition initcode_exit :: "mmu \<Rightarrow> hart \<Rightarrow> hart" where
  "initcode_exit tr h = step tr (Li A7 2) h"

lemma usys_numbers: "distinct (map snd usys)" "distinct (map fst usys)"
  by (simp_all add: usys_def)

text \<open>
  Every stub but four calls a system call that the kernel has: the dispatch table has an entry for the number that \<^verbatim>\<open>syscall\<close> reads from the
  trap frame. The stubs for the network calls \<^verbatim>\<open>bind\<close>, \<^verbatim>\<open>unbind\<close>, \<^verbatim>\<open>send\<close> and \<^verbatim>\<open>recv\<close> have no handler in this kernel.
\<close>

theorem usys_dispatch:
  fixes s :: "'z filest_scheme"
  assumes "(name, n) \<in> set usys" "tf_read (curproc s) TF_a7 s = of_nat n"
  shows "let t = syscalls forkret_addr pad :: (int \<times> ('z filest_scheme \<Rightarrow> (int option, 'z filest_scheme) outcome)) list;
      num = sint (ucast (tf_read (curproc s) TF_a7 s) :: 32 word)
    in map_of t num = None \<longleftrightarrow> name \<in> {''bind'', ''unbind'', ''send'', ''recv''}"
proof -
  let ?t = "syscalls forkret_addr pad :: (int \<times> ('z filest_scheme \<Rightarrow> (int option, 'z filest_scheme) outcome)) list"
  have keys: "map fst ?t = [1, 2, 3, 4, 5, 6, 7, 8, 9, 10, 11, 12, 13, 14, 15, 16, 17, 18, 19, 20, 21, 33, 34]" by (simp add: syscalls_def)
  have n: "n \<le> 34" and d: "int n \<in> set (map fst ?t) \<longleftrightarrow> name \<notin> {''bind'', ''unbind'', ''send'', ''recv''}"
    unfolding keys using assms(1) by (auto simp: usys_def)
  have "(ucast (of_nat n :: uint64) :: 32 word) = of_nat n" using n by (simp add: word_unat_eq_iff unat_of_nat unsigned_ucast_eq take_bit_eq_mod)
  moreover have "sint (of_nat n :: 32 word) = int n" using n sint_sbintrunc' [of "int n", where 'a = 32] by (simp add: signed_take_bit_int_eq_self)
  ultimately have "sint (ucast (tf_read (curproc s) TF_a7 s) :: 32 word) = int n" using assms(2) by simp
  then show ?thesis using d map_of_eq_None_iff [of ?t "int n"] unfolding Let_def by (simp only: set_map) blast
qed

text \<open>A stub returns to its caller, and keeps what the kernel keeps of the registers, \<^verbatim>\<open>a7\<close> apart.\<close>

theorem stub_returns:
  assumes "regs (trap (h\<lparr>regs := (regs h)(A7 := of_nat n)\<rparr>)) = ((regs h)(A7 := of_nat n))(A0 := v)"
  shows "pc (stub tr trap n h) = regs h RA \<and> regs (stub tr trap n h) A0 = v \<and>
    (\<forall>r. r \<noteq> A0 \<longrightarrow> r \<noteq> A7 \<longrightarrow> regs (stub tr trap n h) r = regs h r)"
  using assms by (simp add: stub_def)

end
