(* ===== verification/Fork.thy ===== *)
theory Fork
  imports Mapping_Vm
begin

text \<open>
  \<^verbatim>\<open>uvmcopy\<close> of \<^verbatim>\<open>kernel/vm.c\<close>, by which \<^verbatim>\<open>fork\<close> gives a child its memory: two page tables over one pool of free pages. The loop is shown to
  build up a copy of the parent's pages behind the child's table without touching the parent, and to undo all of it when
  memory runs out. The ranges are of 4096-byte pages.
\<close>

section \<open>Two page tables\<close>

text \<open>What happens to one page table when another one, or a page of neither, changes.\<close>

lemma pt_state_other:
  assumes st: "pt_state s pt fl" and pool: "kmem_pool t fl'" "kend t = kend s"
    and eq: "\<And>a. PGROUNDDOWN a \<in> tables (mem s) pt \<Longrightarrow> mem t a = mem s a" and dj: "tables (mem s) pt \<inter> set fl' = {}"
  shows "pt_state t pt fl'" "tables (mem t) pt = tables (mem s) pt" "lookup (mem t) pt = lookup (mem s) pt"
proof -
  note al = pt_state_table(1) [OF st]
  note same = tables_same [OF al eq]
  show "tables (mem t) pt = tables (mem s) pt" by (rule same)
  show "lookup (mem t) pt = lookup (mem s) pt" using ent_same [OF al eq] by (intro ext lookup_cong) auto
  show "pt_state t pt fl'" using st pool same dj phys_page_cong [OF pool(2)] by (auto simp: pt_state_def)
qed

definition page_eq :: "memory \<Rightarrow> addr \<Rightarrow> memory \<Rightarrow> addr \<Rightarrow> bool" where
  "page_eq m p m' q \<longleftrightarrow> (\<forall>k<4096. m' (q + of_nat k) = m (p + of_nat k))"

definition va_of :: "nat \<Rightarrow> uint64" where
  "va_of k = 4096 * of_nat k"

text \<open>The parent's pages: mapped as pages of 4096 bytes, to frames that the allocator and the child's table do not use.\<close>

definition source_pages :: "'z kmem_scheme \<Rightarrow> addr \<Rightarrow> addr \<Rightarrow> addr list \<Rightarrow> nat \<Rightarrow> bool" where
  "source_pages s old new fl n \<longleftrightarrow>
     (\<forall>k<n. \<exists>e. lookup (mem s) old (va_of k) = Some (0, e) \<and> PTE_FLAGS e \<noteq> PTE_V \<and>
        PTE2PA e \<notin> set fl \<and> PTE2PA e \<notin> tables (mem s) new)"

text \<open>The first \<open>i\<close> pages are copied.\<close>

definition copied :: "'z kmem_scheme \<Rightarrow> addr \<Rightarrow> addr \<Rightarrow> 'z kmem_scheme \<Rightarrow> nat \<Rightarrow> bool" where
  "copied s old new t i \<longleftrightarrow>
     (\<forall>k<i. \<exists>e e'. lookup (mem s) old (va_of k) = Some (0, e) \<and> lookup (mem t) new (va_of k) = Some (0, e') \<and>
        PTE_FLAGS e' = PTE_FLAGS e \<and> page_eq (mem s) (PTE2PA e) (mem t) (PTE2PA e'))"

definition fork_part :: "'z kmem_scheme \<Rightarrow> addr \<Rightarrow> addr \<Rightarrow> addr list \<Rightarrow> 'z kmem_scheme \<Rightarrow> addr list \<Rightarrow> nat \<Rightarrow> bool" where
  "fork_part s old new fl t fl' i \<longleftrightarrow>
     pt_state t old fl' \<and> pt_state t new fl' \<and> kend t = kend s \<and> set fl' \<subseteq> set fl \<and>
     tables (mem t) old = tables (mem s) old \<and> lookup (mem t) old = lookup (mem s) old \<and>
     tables (mem t) new \<subseteq> tables (mem s) new \<union> set fl \<and>
     (\<forall>x. PGROUNDDOWN x \<notin> set fl \<union> tables (mem s) new \<longrightarrow> mem t x = mem s x) \<and>
     owned_pages t new fl' 0 i \<and> set (frames (mem t) new 0 i) \<subseteq> set fl \<and> copied s old new t i"

text \<open>
  The other translations of the child are as before, and no page is lost: what is no longer free is a table of the child or one of the
  pages copied.
\<close>

definition fork_inv :: "'z kmem_scheme \<Rightarrow> addr \<Rightarrow> addr \<Rightarrow> addr list \<Rightarrow> 'z kmem_scheme \<Rightarrow> addr list \<Rightarrow> nat \<Rightarrow> bool" where
  "fork_inv s old new fl t fl' i \<longleftrightarrow> fork_part s old new fl t fl' i \<and>
     (\<forall>x<MAXVA. \<not> in_pages 0 i x \<longrightarrow> lookup (mem t) new x = lookup (mem s) new x) \<and>
     set fl \<subseteq> set fl' \<union> tables (mem t) new \<union> set (frames (mem t) new 0 i)"

lemma frames_va: "frames m pt 0 n = map (\<lambda>k. PTE2PA (snd (the (lookup m pt (va_of k))))) [0..<n]"
  by (simp add: frames_def va_of_def)

lemma unat_va_of: "4096 * k < 18446744073709551616 \<Longrightarrow> unat (va_of k) = 4096 * k"
  using unat_page_add [of 0 k] by (simp add: va_of_def)

lemma page_aligned_va_of [simp]: "page_aligned (va_of k)"
proof -
  have "va_of k = push_bit 12 (of_nat k)" by (simp add: va_of_def push_bit_eq_mult mult.commute)
  then show ?thesis by (simp add: page_aligned_bits bit_simps)
qed

lemma va_of_pages:
  assumes "4096 * n \<le> 274877906944" "k < n"
  shows "va_of k < MAXVA" "in_pages 0 n (va_of k)" "in_pages 0 k x \<Longrightarrow> in_pages 0 n x" "\<not> in_pages 0 k (va_of k)"
proof -
  have "unat (va_of k) = 4096 * k" using assms by (intro unat_va_of) simp
  then show "va_of k < MAXVA" "in_pages 0 n (va_of k)" "\<not> in_pages 0 k (va_of k)" "in_pages 0 k x \<Longrightarrow> in_pages 0 n x"
    using assms by (auto simp: word_less_nat_alt in_pages_def)
qed

lemma page_offset: "k < 4096 \<Longrightarrow> page_aligned p \<Longrightarrow> PGROUNDDOWN (p + of_nat k) = p"
  by (rule PGROUNDDOWN_offset)

lemma page_eq_cong:
  assumes "page_eq m p m' q" "page_aligned q" "\<And>x. PGROUNDDOWN x = q \<Longrightarrow> m'' x = m' x"
  shows "page_eq m p m'' q"
  using assms page_offset [of _ q] by (simp add: page_eq_def)

text \<open>Changes that keep to the free pages and the child's table, and keep the translations of the pages copied so far.\<close>

lemma fork_part_keep:
  assumes old: "pt_state s old fl" "tables (mem s) old \<inter> tables (mem s) new = {}"
    and inv: "fork_part s old new fl t fl' i"
    and u: "pt_state u new fl3" "kend u = kend t" "set fl3 \<subseteq> set fl'" "tables (mem u) new \<subseteq> tables (mem t) new \<union> set fl'"
      "\<And>x. PGROUNDDOWN x \<notin> set fl' \<union> tables (mem t) new \<Longrightarrow> mem u x = mem t x"
    and look: "\<And>k. k < i \<Longrightarrow> lookup (mem u) new (va_of k) = lookup (mem t) new (va_of k)"
  shows "fork_part s old new fl u fl3 i"
proof -
  have t: "pt_state t old fl'" "kend t = kend s" "set fl' \<subseteq> set fl" "tables (mem t) old = tables (mem s) old"
    "lookup (mem t) old = lookup (mem s) old" "tables (mem t) new \<subseteq> tables (mem s) new \<union> set fl"
    "\<And>x. PGROUNDDOWN x \<notin> set fl \<union> tables (mem s) new \<Longrightarrow> mem t x = mem s x"
    "owned_pages t new fl' 0 i" "set (frames (mem t) new 0 i) \<subseteq> set fl" "copied s old new t i"
    using inv by (simp_all add: fork_part_def)
  have nofl: "tables (mem s) old \<inter> set fl = {}" using pt_state_table(3) [OF old(1)] by blast
  have pool: "kmem_pool u fl3" using u(1) by (simp add: pt_state_def)
  have eq: "mem u a = mem t a" if "PGROUNDDOWN a \<in> tables (mem t) old" for a
    by (rule u(5)) (use that t(3,4,6) nofl old(2) in auto)
  have dj: "tables (mem t) old \<inter> set fl3 = {}" using nofl t(3,4) u(3) by auto
  have po: "pt_state u old fl3" "tables (mem u) old = tables (mem t) old" "lookup (mem u) old = lookup (mem t) old"
    using pt_state_other [OF t(1) pool u(2)] eq dj by blast+
  have out: "mem u x = mem s x" if "PGROUNDDOWN x \<notin> set fl \<union> tables (mem s) new" for x
    using u(5) [of x] t(7) [OF that] that t(3,6) by auto
  have fr: "frames (mem u) new 0 i = frames (mem t) new 0 i" unfolding frames_va using look by simp
  have fk: "f \<notin> set fl3 \<and> f \<notin> tables (mem u) new \<and> phys_page u f" if "f \<in> set (frames (mem t) new 0 i)" for f
    using that t(8) u(3,4) phys_page_cong [OF u(2)] unfolding owned_pages_def by auto
  have own: "owned_pages u new fl3 0 i"
    using t(8) fr fk look unfolding owned_pages_def by (simp add: va_of_def)
  have "page_eq (mem s) (PTE2PA e) (mem u) (PTE2PA e')"
    if k: "k < i" "lookup (mem t) new (va_of k) = Some (0, e')" "page_eq (mem s) (PTE2PA e) (mem t) (PTE2PA e')" for k e e'
  proof (rule page_eq_cong [OF k(3)])
    have "PTE2PA e' \<in> set (frames (mem t) new 0 i)" unfolding frames_va using k(1,2) by force
    then have "PTE2PA e' \<notin> set fl' \<union> tables (mem t) new" using t(8) by (auto simp: owned_pages_def)
    then show "mem u x = mem t x" if "PGROUNDDOWN x = PTE2PA e'" for x using u(5) that by simp
  qed simp
  then have cp: "copied s old new u i" using t(10) look unfolding copied_def by metis
  have "set fl3 \<subseteq> set fl" "tables (mem u) new \<subseteq> tables (mem s) new \<union> set fl" using u(3,4) t(3,6) by auto
  then show ?thesis using po u(1,2) t(2,4,5,9) own fr cp out unfolding fork_part_def by simp
qed

text \<open>One more page.\<close>

lemma fork_part_Suc:
  assumes inv: "fork_part s old new fl u fl3 i" and e: "lookup (mem s) old (va_of i) = Some (0, e)"
    and e': "lookup (mem u) new (va_of i) = Some (0, e')" "PTE_FLAGS e' = PTE_FLAGS e" "PTE_FLAGS e \<noteq> PTE_V"
      "page_eq (mem s) (PTE2PA e) (mem u) (PTE2PA e')"
    and f: "PTE2PA e' \<in> set fl" "PTE2PA e' \<notin> set fl3" "PTE2PA e' \<notin> tables (mem u) new" "phys_page u (PTE2PA e')"
      "PTE2PA e' \<notin> set (frames (mem u) new 0 i)"
  shows "fork_part s old new fl u fl3 (Suc i)"
proof -
  have fr: "frames (mem u) new 0 (Suc i) = frames (mem u) new 0 i @ [PTE2PA e']" unfolding frames_va using e'(1) by simp
  have "owned_pages u new fl3 0 (Suc i)"
    using inv fr f e' unfolding fork_part_def owned_pages_def by (auto simp: less_Suc_eq va_of_def)
  moreover have "copied s old new u (Suc i)" using inv e e' unfolding fork_part_def copied_def by (auto simp: less_Suc_eq)
  ultimately show ?thesis using inv fr f(1) unfolding fork_part_def by auto
qed

text \<open>The error path: what was copied is unmapped and freed again.\<close>

lemma fork_undo:
  assumes old: "pt_state s old fl" "tables (mem s) old \<inter> tables (mem s) new = {}"
    and inv: "fork_inv s old new fl t fl' i" and i: "4096 * i \<le> 274877906944"
    and none: "\<And>x. x < MAXVA \<Longrightarrow> in_pages 0 i x \<Longrightarrow> lookup (mem s) new x = None"
  obtains w flw where "uvmunmap new 0 (va_of i div PGSIZE) True t = Done () w" "fork_inv s old new fl w flw 0"
proof -
  have t: "pt_state t old fl'" "pt_state t new fl'" "kend t = kend s" "set fl' \<subseteq> set fl" "tables (mem t) old = tables (mem s) old"
    "lookup (mem t) old = lookup (mem s) old" "tables (mem t) new \<subseteq> tables (mem s) new \<union> set fl"
    "\<And>x. PGROUNDDOWN x \<notin> set fl \<union> tables (mem s) new \<Longrightarrow> mem t x = mem s x"
    "owned_pages t new fl' 0 i" "set (frames (mem t) new 0 i) \<subseteq> set fl"
    "\<And>x. x < MAXVA \<Longrightarrow> \<not> in_pages 0 i x \<Longrightarrow> lookup (mem t) new x = lookup (mem s) new x"
    "set fl \<subseteq> set fl' \<union> tables (mem t) new \<union> set (frames (mem t) new 0 i)"
    using inv by (simp_all add: fork_inv_def fork_part_def)
  let ?fr = "frames (mem t) new 0 i"
  have d: "va_of i div PGSIZE = of_nat i"
  proof -
    have "unat (va_of i div 4096) = i" using unat_va_of [of i] i by (simp add: unat_div)
    moreover have "unat (of_nat i :: uint64) = i" using i by (subst unat_of_nat) (simp add: take_bit_eq_mod)
    ultimately show ?thesis by (simp add: word_unat_eq_iff)
  qed
  have "unat (0 :: uint64) + 4096 * i \<le> 274877906944" "page_aligned (0 :: uint64)" using i by (simp_all add: page_aligned_def)
  from uvmunmap_loop_spec [OF t(2) this(2,1) t(9)] obtain w where
    w: "uvmunmap_loop new 0 (0 + 4096 * of_nat i) True t = Done () w" "pt_state w new (rev ?fr @ fl')" "tables (mem w) new = tables (mem t) new"
      "\<And>x. x < MAXVA \<Longrightarrow> lookup (mem w) new x = (if in_pages 0 i x then None else lookup (mem t) new x)"
      "\<And>x. PGROUNDDOWN x \<notin> tables (mem t) new \<union> set ?fr \<Longrightarrow> mem w x = mem t x" "kend w = kend t" by auto
  have nofl: "tables (mem s) old \<inter> set fl = {}" using pt_state_table(3) [OF old(1)] by blast
  have eq: "mem w a = mem t a" if "PGROUNDDOWN a \<in> tables (mem t) old" for a
    by (rule w(5)) (use that t(5,7,10) nofl old(2) in auto)
  have dj: "tables (mem t) old \<inter> set (rev ?fr @ fl') = {}" using nofl t(4,5,10) by auto
  have pool: "kmem_pool w (rev ?fr @ fl')" using w(2) by (simp add: pt_state_def)
  have po: "pt_state w old (rev ?fr @ fl')" "tables (mem w) old = tables (mem t) old" "lookup (mem w) old = lookup (mem t) old"
    using pt_state_other [OF t(1) pool w(6)] eq dj by blast+
  have out: "mem w x = mem s x" if "PGROUNDDOWN x \<notin> set fl \<union> tables (mem s) new" for x
    using w(5) [of x] t(8) [OF that] that t(7,10) by auto
  have "lookup (mem w) new x = lookup (mem s) new x" if "x < MAXVA" for x
    using w(4) [OF that] t(11) [OF that] none [OF that] by simp
  moreover have "fork_part s old new fl w (rev ?fr @ fl') 0"
    using po w(2,3,6) t(3-7,10) out by (simp add: fork_part_def owned_pages_def frames_def copied_def)
  moreover have "set fl \<subseteq> set (rev ?fr @ fl') \<union> tables (mem w) new" using t(12) w(3) by auto
  ultimately have "fork_inv s old new fl w (rev ?fr @ fl') 0" by (simp add: fork_inv_def frames_def)
  moreover have "uvmunmap new 0 (va_of i div PGSIZE) True t = Done () w"
    using w(1) unfolding d by (simp add: uvmunmap_def mult.commute)
  ultimately show ?thesis using that by blast
qed


section \<open>One page\<close>

lemma PTE_FLAGS_take: "PTE_FLAGS e = take_bit 10 e"
  by (simp add: PTE_FLAGS_def take_bit_eq_mask mask_eq_exp_minus_1)

lemma fork_entry_flags:
  assumes "bit e 0" "page_aligned p" "unat p < 2281701376"
  shows "PTE_FLAGS (PA2PTE p OR PTE_FLAGS e OR 1) = PTE_FLAGS e" "PTE2PA (PA2PTE p OR PTE_FLAGS e OR 1) = p"
proof -
  show "PTE_FLAGS (PA2PTE p OR PTE_FLAGS e OR 1) = PTE_FLAGS e" unfolding PTE_FLAGS_take
    by (rule bit_word_eqI) (use assms(1) bit_PA2PTE_low [of _ p] in \<open>auto simp: bit_simps\<close>)
  have "PTE_FLAGS e OR 1 = PTE_FLAGS e" unfolding PTE_FLAGS_take
    by (rule bit_word_eqI) (use assms(1) in \<open>auto simp: bit_simps\<close>)
  moreover have "unat (PTE_FLAGS e) < 1024"
    unfolding PTE_FLAGS_take using take_bit_nat_less_exp [of 10 "unat e"] by (simp add: unsigned_take_bit_eq)
  ultimately show "PTE2PA (PA2PTE p OR PTE_FLAGS e OR 1) = p" using PTE2PA_PA2PTE [OF assms(2)] assms(3) by simp
qed

text \<open>A page taken from the free list and filled with a copy.\<close>

lemma kalloc_copy:
  assumes pool: "kmem_pool t (p # fl)" and pa: "page_aligned pa" "pa \<noteq> p"
  obtains t1 where "kalloc t = Done p t1" "kmem_pool (t1\<lparr>mem := memmove (mem t1) p pa 4096\<rparr>) fl" "kend t1 = kend t"
    "\<And>x. PGROUNDDOWN x \<noteq> p \<Longrightarrow> memmove (mem t1) p pa 4096 x = mem t x"
    "page_eq (mem t) pa (memmove (mem t1) p pa 4096) p"
proof -
  let ?t1 = "t\<lparr>mem := memset (mem t) p 5 4096, freelist := load64 (mem t) p\<rparr>"
  have k: "kalloc t = Done p ?t1" by (rule kalloc_Cons [OF pool])
  note kp = kalloc_pool [OF pool k]
  have p: "phys_page t p" "p \<notin> set fl" "page_aligned p" using pool by (auto simp: kmem_pool_def phys_page_def)
  have pb: "unat p < 2281701376" by (rule unat_phys_page [OF p(1)])
  let ?m = "memmove (mem ?t1) p pa 4096"
  have "unat pa + 4096 \<le> 18446744073709551616"
    using pa(1) unat_word64_less [of pa] by (auto simp: page_aligned_nat elim!: dvdE)
  then have mm: "?m x = (if in_block p 4096 x then mem ?t1 (pa + (x - p)) else mem ?t1 x)" for x
    using memmove_eq [of p 4096 pa "mem ?t1"] pb by (simp add: copy_block_def)
  have out: "?m x = mem t x" if "PGROUNDDOWN x \<noteq> p" for x
    using mm [of x] in_block_page [OF p(3), of x] that kp(5) by (simp add: same_except_page_def)
  have "?m (p + of_nat n) = mem t (pa + of_nat n)" if "n < 4096" for n
  proof -
    have u: "unat (of_nat n :: addr) = n" using that by (subst unat_of_nat) (simp add: take_bit_eq_mod)
    have "PGROUNDDOWN (pa + of_nat n) \<noteq> p" using page_offset [OF that pa(1)] pa(2) by simp
    then have "mem ?t1 (pa + of_nat n) = mem t (pa + of_nat n)" using kp(5) by (simp add: same_except_page_def)
    then show ?thesis using mm [of "p + of_nat n"] that u by (simp add: in_block_def)
  qed
  then have pe: "page_eq (mem t) pa ?m p" by (simp add: page_eq_def)
  have "mem ?t1 a = ?m a" if "PGROUNDDOWN a \<in> set fl" for a
  proof -
    have "PGROUNDDOWN a \<noteq> p" using that p(2) by auto
    then show ?thesis using out [of a] kp(5) by (simp add: same_except_page_def)
  qed
  then have "kmem_pool (?t1\<lparr>mem := ?m\<rparr>) fl" by (intro kmem_pool_mem [OF kp(1)]) simp
  then show ?thesis using that [OF k _ kp(3) out pe] by simp
qed


lemma uvmcopy_unfold:
  assumes st: "pt_state t old fl" and e: "lookup (mem t) old a = Some (0, e)" and a: "a < MAXVA" "a < sz"
  shows "uvmcopy_loop old new a sz t = kbind (kalloc t) (\<lambda>p s.
    if p = 0 then kbind (uvmunmap new 0 (a div PGSIZE) True s) (\<lambda>_ s. Done (-1) s)
    else kbind (mappages new a PGSIZE p (PTE_FLAGS e) (s\<lparr>mem := memmove (mem s) p (PTE2PA e) 4096\<rparr>)) (\<lambda>r s.
      if r \<noteq> 0 then kbind (kfree p s) (\<lambda>_ s. kbind (uvmunmap new 0 (a div PGSIZE) True s) (\<lambda>_ s. Done (-1) s))
      else uvmcopy_loop old new (a + PGSIZE) sz s))"
proof -
  obtain t0 where w: "walk old a False t = Done (pte_slot t0 (PX 0 a)) t"
    "tbl (mem t) old [PX 2 a, PX 1 a] = Some t0" "e = load64 (mem t) (pte_slot t0 (PX 0 a))" "bit e 0"
    by (rule walk_level0 [OF e a(1)])
  have t0: "t0 \<in> tables (mem t) old" using _ w(2) by (rule tblI) (simp add: good_path_def unat_PX)
  have nz: "pte_slot t0 (PX 0 a) \<noteq> 0"
    using pt_state_table [OF st t0] unat_pte_slot [of t0] unat_PX [of 0 a] by (auto simp: word_eq_iff_unat64)
  show ?thesis
    using a(2) superpage_at_level0 [OF e a(1)] w(1,4) nz unfolding w(3)
    by (subst uvmcopy_loop.simps) (simp add: read_pte_def Let_def)
qed

text \<open>The child's table is given a page at \<open>a\<close>; when the tables for it cannot be allocated nothing is mapped.\<close>

lemma map_one:
  assumes st: "pt_state u pt fl" and a: "page_aligned a" "a < MAXVA" and none: "lookup (mem u) pt a = None"
  obtains (ok) us fl' w where "mappages pt a PGSIZE p perm u = Done 0 w" "fl = us @ fl'" "table_step u pt us fl' w"
      "\<And>x. x < MAXVA \<Longrightarrow> lookup (mem w) pt x = (if PGROUNDDOWN x = a then Some (0, PA2PTE p OR perm OR 1) else lookup (mem u) pt x)"
      "length us \<le> 2"
  | (fail) w where "mappages pt a PGSIZE p perm u = Done (-1) w" "table_step u pt fl [] w" "lookup (mem w) pt = lookup (mem u) pt"
      "length fl < 2"
proof -
  have m: "mappages pt a PGSIZE p perm u = mappages_loop pt a a p perm u"
    using a(1) by (simp add: mappages_def page_aligned_def)
  from st a(2,1) none show thesis
  proof (cases rule: mappages_step [where l = a and pa = p and perm = perm])
    case (fail t)
    then show ?thesis using m by (intro that(2) [of t]) (simp_all add: grows_def)
  next
    case (ok us fl' t)
    then show ?thesis using m by (intro that(1) [of t us fl']) simp_all
  qed
qed


text \<open>
  The situation in which \<^verbatim>\<open>fork\<close> calls \<^verbatim>\<open>uvmcopy\<close>: the parent's first \<open>n\<close> pages are mapped, and the child's table,
  which shares no page with the parent's, maps nothing there.
\<close>

definition fork_start :: "'z kmem_scheme \<Rightarrow> addr \<Rightarrow> addr \<Rightarrow> addr list \<Rightarrow> nat \<Rightarrow> bool" where
  "fork_start s old new fl n \<longleftrightarrow> pt_state s old fl \<and> pt_state s new fl \<and> tables (mem s) old \<inter> tables (mem s) new = {} \<and>
     source_pages s old new fl n \<and> 4096 * n \<le> 274877906944 \<and>
     (\<forall>x<MAXVA. in_pages 0 n x \<longrightarrow> lookup (mem s) new x = None)"

lemma page_of_va:
  assumes "4096 * n \<le> 274877906944" "i < n"
  shows "PGROUNDDOWN x = va_of i \<Longrightarrow> in_pages 0 n x \<and> \<not> in_pages 0 i x"
    "in_pages 0 (Suc i) x \<longleftrightarrow> in_pages 0 i x \<or> PGROUNDDOWN x = va_of i"
proof -
  have "unat (va_of i) = 4096 * i" using assms by (intro unat_va_of) simp
  moreover have "unat (PGROUNDDOWN x) = unat x div 4096 * 4096" by (rule unat_PGROUNDDOWN)
  ultimately have "PGROUNDDOWN x = va_of i \<longleftrightarrow> unat x div 4096 = i" by (simp add: word_eq_iff_unat64)
  also have "\<dots> \<longleftrightarrow> 4096 * i \<le> unat x \<and> unat x < 4096 * Suc i" by auto
  finally show "PGROUNDDOWN x = va_of i \<Longrightarrow> in_pages 0 n x \<and> \<not> in_pages 0 i x"
    "in_pages 0 (Suc i) x \<longleftrightarrow> in_pages 0 i x \<or> PGROUNDDOWN x = va_of i"
    using assms by (auto simp: in_pages_def)
qed

lemma PGROUNDDOWN_va_of:
  assumes "4096 * n \<le> 274877906944" "k < n" "i < n" "k \<noteq> i"
  shows "PGROUNDDOWN (va_of k) \<noteq> va_of i"
proof -
  have "unat (va_of k) = 4096 * k" "unat (va_of i) = 4096 * i" using assms by (auto intro!: unat_va_of)
  then show ?thesis using assms(4) PGROUNDDOWN_of_aligned [of "va_of k"] by (auto simp: word_eq_iff_unat64)
qed

lemma fork_startD:
  assumes "fork_start s old new fl n" "fork_inv s old new fl t fl' i" "i < n"
  obtains e where "lookup (mem s) old (va_of i) = Some (0, e)" "lookup (mem t) old (va_of i) = Some (0, e)" "PTE_FLAGS e \<noteq> PTE_V"
    "PTE2PA e \<notin> set fl" "\<And>m q. page_eq (mem t) (PTE2PA e) m q \<Longrightarrow> page_eq (mem s) (PTE2PA e) m q"
    "\<And>x. x < MAXVA \<Longrightarrow> PGROUNDDOWN x = va_of i \<Longrightarrow> lookup (mem t) new x = None"
proof -
  from assms(1,3) obtain e where e: "lookup (mem s) old (va_of i) = Some (0, e)" "PTE_FLAGS e \<noteq> PTE_V"
    "PTE2PA e \<notin> set fl" "PTE2PA e \<notin> tables (mem s) new" unfolding fork_start_def source_pages_def by blast
  have t: "lookup (mem t) old = lookup (mem s) old" "\<And>x. PGROUNDDOWN x \<notin> set fl \<union> tables (mem s) new \<Longrightarrow> mem t x = mem s x"
    "\<And>x. x < MAXVA \<Longrightarrow> \<not> in_pages 0 i x \<Longrightarrow> lookup (mem t) new x = lookup (mem s) new x"
    using assms(2) by (simp_all add: fork_inv_def fork_part_def)
  have n: "4096 * n \<le> 274877906944" "\<And>x. x < MAXVA \<Longrightarrow> in_pages 0 n x \<Longrightarrow> lookup (mem s) new x = None"
    using assms(1) by (simp_all add: fork_start_def)
  have "mem t (PTE2PA e + of_nat k) = mem s (PTE2PA e + of_nat k)" if "k < 4096" for k
    using t(2) page_offset [OF that, of "PTE2PA e"] e(3,4) by simp
  then have "page_eq (mem s) (PTE2PA e) m q" if "page_eq (mem t) (PTE2PA e) m q" for m q using that by (simp add: page_eq_def)
  moreover have "lookup (mem t) new x = None" if "x < MAXVA" "PGROUNDDOWN x = va_of i" for x
    using t(3) [OF that(1)] n(2) [OF that(1)] page_of_va(1) [OF n(1) assms(3) that(2)] by simp
  ultimately show thesis using e t(1) by (intro that [of e]) simp_all
qed


lemma table_stepD:
  assumes "table_step s pt us fl t"
  shows "pt_state t pt fl" "tables (mem t) pt = tables (mem s) pt \<union> set us" "kend t = kend s"
    "\<And>a. PGROUNDDOWN a \<notin> tables (mem t) pt \<Longrightarrow> mem t a = mem s a"
proof -
  have "t = s\<lparr>mem := mem t, freelist := freelist t\<rparr>" using assms unfolding table_step_def by (elim conjE)
  from arg_cong [OF this, of kend] show "kend t = kend s" by simp
qed (use assms in \<open>simp_all add: table_step_def\<close>)

text \<open>The state after a page is allocated and filled, before it is mapped.\<close>

lemma fork_alloc:
  assumes st: "pt_state t new (p # fl)" and pa: "page_aligned pa" "pa \<noteq> p"
  obtains t1 u where "kalloc t = Done p t1" "u = t1\<lparr>mem := memmove (mem t1) p pa 4096\<rparr>" "pt_state u new fl" "kend u = kend t"
    "tables (mem u) new = tables (mem t) new" "lookup (mem u) new = lookup (mem t) new"
    "\<And>x. PGROUNDDOWN x \<noteq> p \<Longrightarrow> mem u x = mem t x" "page_eq (mem t) pa (mem u) p"
    "phys_page t p" "p \<notin> tables (mem t) new" "p \<notin> set fl" "p \<noteq> 0"
proof -
  have pool: "kmem_pool t (p # fl)" using st by (simp add: pt_state_def)
  have p: "phys_page t p" "p \<notin> tables (mem t) new" "p \<notin> set fl" "p \<noteq> 0" and fl: "tables (mem t) new \<inter> set fl = {}"
    using st pool pt_state_table(3) [OF st] by (auto simp: pt_state_def kmem_pool_def phys_page_def word_less_nat_alt)
  obtain t1 where t1: "kalloc t = Done p t1" "kmem_pool (t1\<lparr>mem := memmove (mem t1) p pa 4096\<rparr>) fl" "kend t1 = kend t"
    "\<And>x. PGROUNDDOWN x \<noteq> p \<Longrightarrow> memmove (mem t1) p pa 4096 x = mem t x" "page_eq (mem t) pa (memmove (mem t1) p pa 4096) p"
    by (rule kalloc_copy [OF pool pa]) (rule that)
  let ?u = "t1\<lparr>mem := memmove (mem t1) p pa 4096\<rparr>"
  have eq: "mem ?u x = mem t x" if "PGROUNDDOWN x \<in> tables (mem t) new" for x using t1(4) [of x] that p(2) by auto
  have k: "kend ?u = kend t" using t1(3) by simp
  have "pt_state ?u new fl" "tables (mem ?u) new = tables (mem t) new" "lookup (mem ?u) new = lookup (mem t) new"
    using pt_state_other [OF st t1(2) k] eq fl by blast+
  then show thesis using that [OF t1(1) refl _ k _ _ _ _ p] t1(4,5) by simp
qed

lemma uvmcopy_step:
  assumes base: "fork_start s old new fl n" and inv: "fork_inv s old new fl t fl' i" and i: "i < n" "va_of i < sz"
  obtains (fail) v flv where "uvmcopy_loop old new (va_of i) sz t =
      kbind (uvmunmap new 0 (va_of i div PGSIZE) True v) (\<lambda>_ s. Done (-1) s)" "fork_inv s old new fl v flv i" "length fl' < 3"
  | (ok) u fl3 where "uvmcopy_loop old new (va_of i) sz t = uvmcopy_loop old new (va_of (Suc i)) sz u" "fork_inv s old new fl u fl3 (Suc i)"
      "length fl' \<le> length fl3 + 3"
proof -
  have old: "pt_state s old fl" "tables (mem s) old \<inter> tables (mem s) new = {}" and n: "4096 * n \<le> 274877906944"
    using base by (simp_all add: fork_start_def)
  have part: "fork_part s old new fl t fl' i" and rest: "\<And>x. x < MAXVA \<Longrightarrow> \<not> in_pages 0 i x \<Longrightarrow> lookup (mem t) new x = lookup (mem s) new x"
    and all: "set fl \<subseteq> set fl' \<union> tables (mem t) new \<union> set (frames (mem t) new 0 i)"
    using inv by (simp_all add: fork_inv_def)
  have t: "pt_state t old fl'" "pt_state t new fl'" "set fl' \<subseteq> set fl" "kend t = kend s" "owned_pages t new fl' 0 i"
    using part by (simp_all add: fork_part_def)
  obtain e where e: "lookup (mem s) old (va_of i) = Some (0, e)" "lookup (mem t) old (va_of i) = Some (0, e)" "PTE_FLAGS e \<noteq> PTE_V"
    "PTE2PA e \<notin> set fl" "\<And>m q. page_eq (mem t) (PTE2PA e) m q \<Longrightarrow> page_eq (mem s) (PTE2PA e) m q"
    "\<And>x. x < MAXVA \<Longrightarrow> PGROUNDDOWN x = va_of i \<Longrightarrow> lookup (mem t) new x = None"
    by (rule fork_startD [OF base inv i(1)]) (rule that)
  have a: "va_of i < MAXVA" "PGROUNDDOWN (va_of i) = va_of i"
    using va_of_pages(1) [OF n i(1)] by (simp_all add: PGROUNDDOWN_of_aligned)
  note un = uvmcopy_unfold [OF t(1) e(2) a(1) i(2), of new]
  show thesis
  proof (cases fl')
    case Nil
    then have "kalloc t = Done 0 t" using t(2) by (intro kalloc_empty) (simp add: pt_state_def)
    then show thesis using un inv Nil by (intro fail) simp_all
  next
    case (Cons p fl2)
    have ne: "PTE2PA e \<noteq> p" using e(4) t(3) Cons by auto
    obtain t1 u where u: "kalloc t = Done p t1" "u = t1\<lparr>mem := memmove (mem t1) p (PTE2PA e) 4096\<rparr>" "pt_state u new fl2" "kend u = kend t"
      "tables (mem u) new = tables (mem t) new" "lookup (mem u) new = lookup (mem t) new"
      "\<And>x. PGROUNDDOWN x \<noteq> p \<Longrightarrow> mem u x = mem t x" "page_eq (mem t) (PTE2PA e) (mem u) p"
      "phys_page t p" "p \<notin> tables (mem t) new" "p \<notin> set fl2" "p \<noteq> 0"
      by (rule fork_alloc [OF t(2) [unfolded Cons] page_aligned_PTE2PA ne]) (rule that)
    have none: "lookup (mem u) new (va_of i) = None" using u(6) e(6) a by simp
    have keep: "fork_part s old new fl w flw i"
      if w: "pt_state w new flw" "kend w = kend t" "set flw \<subseteq> set fl'" "tables (mem w) new \<subseteq> tables (mem t) new \<union> set fl'"
        "\<And>x. PGROUNDDOWN x \<notin> set fl' \<union> tables (mem t) new \<Longrightarrow> mem w x = mem t x"
        "\<And>k. k < i \<Longrightarrow> lookup (mem w) new (va_of k) = lookup (mem t) new (va_of k)" for w flw
      by (rule fork_part_keep [OF old part w])
    from u(3) page_aligned_va_of a(1) none show thesis
    proof (cases rule: map_one [where p = p and perm = "PTE_FLAGS e"])
      case (fail w)
      have w: "kend w = kend u" "tables (mem w) new = tables (mem u) new \<union> set fl2" "pt_state w new []"
        "\<And>x. PGROUNDDOWN x \<notin> tables (mem w) new \<Longrightarrow> mem w x = mem u x"
        using table_stepD [OF fail(2)] by simp_all
      have f: "phys_page w p" "p \<notin> set []" "p \<notin> tables (mem w) new"
        using u(4,5,9,10,11) w(1,2) phys_page_cong [of w t] by simp_all
      obtain v where v: "kfree p w = Done () v" "pt_state v new [p]" "kend v = kend w" "tables (mem v) new = tables (mem w) new"
        "lookup (mem v) new = lookup (mem w) new" "same_except_page p (mem w) (mem v)"
        by (rule kfree_pt_state [OF w(3) f]) (rule that)
      have look: "lookup (mem v) new = lookup (mem t) new" using v(5) fail(3) u(6) by simp
      have out: "mem v x = mem t x" if "PGROUNDDOWN x \<notin> set fl' \<union> tables (mem t) new" for x
        using that v(6) w(2) w(4) [of x] u(5) u(7) [of x] Cons by (simp add: same_except_page_def)
      have "fork_part s old new fl v [p] i"
        by (rule keep [OF v(2)]) (use v(3,4) w(1,2) u(4,5) Cons out look in auto)
      moreover have "set fl \<subseteq> set [p] \<union> tables (mem v) new \<union> set (frames (mem v) new 0 i)"
        using all Cons v(4) w(2) u(5) look unfolding frames_va by auto
      ultimately have "fork_inv s old new fl v [p] i" using rest look by (simp add: fork_inv_def)
      moreover have "uvmcopy_loop old new (va_of i) sz t = kbind (uvmunmap new 0 (va_of i div PGSIZE) True v) (\<lambda>_ s. Done (-1) s)"
        using un u(1,2,12) fail(1) v(1) by simp
      moreover have "length fl' < 3" using fail(4) Cons by simp
      ultimately show thesis using that(1) by blast
    next
      case (ok us fl3 w)
      note w = table_stepD [OF ok(3)]
      have p: "p \<notin> tables (mem w) new" "p \<notin> set fl3" "phys_page w p" "p \<in> set fl" "page_aligned p" "unat p < 2281701376"
        using u(4,5,9,10,11) w(2,3) ok(2) phys_page_cong [of w t] t(3) Cons unat_phys_page [OF u(9)] by (auto simp: phys_page_def)
      have k: "lookup (mem w) new (va_of k) = lookup (mem t) new (va_of k)" if "k < i" for k
        using ok(4) [of "va_of k"] va_of_pages(1) [OF n, of k] PGROUNDDOWN_va_of [OF n _ i(1), of k] that i(1) u(6) by simp
      have out: "mem w x = mem t x" if "PGROUNDDOWN x \<notin> set fl' \<union> tables (mem t) new" for x
        using that w(2) w(4) [of x] u(5) u(7) [of x] Cons ok(2) by simp
      have kp: "fork_part s old new fl w fl3 i"
        by (rule keep [OF w(1)]) (use w(2,3) u(4,5) Cons ok(2) out k in auto)
      let ?e = "PA2PTE p OR PTE_FLAGS e OR 1"
      have "bit e 0" by (rule lookup_level0 [OF e(1)])
      note fe = fork_entry_flags [OF this p(5,6)]
      have f: "frames (mem w) new 0 i = frames (mem t) new 0 i" unfolding frames_va using k by simp
      then have fr: "p \<notin> set (frames (mem w) new 0 i)" using t(5) Cons unfolding owned_pages_def by auto
      have eq: "page_eq (mem s) (PTE2PA e) (mem w) p"
        by (rule e(5), rule page_eq_cong [OF u(8) p(5)]) (use w(4) p(1) in auto)
      have li: "lookup (mem w) new (va_of i) = Some (0, ?e)" using ok(4) [OF a(1)] a(2) by simp
      then have "frames (mem w) new 0 (Suc i) = frames (mem t) new 0 i @ [p]" using f fe(2) unfolding frames_va by simp
      then have "set fl \<subseteq> set fl3 \<union> tables (mem w) new \<union> set (frames (mem w) new 0 (Suc i))"
        using all Cons ok(2) w(2) u(5) by auto
      moreover from fork_part_Suc [OF kp e(1) li fe(1) e(3)] have "fork_part s old new fl w fl3 (Suc i)"
        unfolding fe(2) using eq p fr by simp
      moreover have "lookup (mem w) new x = lookup (mem s) new x" if "x < MAXVA" "\<not> in_pages 0 (Suc i) x" for x
        using ok(4) [OF that(1)] rest [OF that(1)] that(2) u(6) page_of_va(2) [OF n i(1), of x] by simp
      ultimately have "fork_inv s old new fl w fl3 (Suc i)" by (simp add: fork_inv_def)
      moreover have "va_of i + 4096 = va_of (Suc i)" by (simp add: va_of_def algebra_simps)
      then have "uvmcopy_loop old new (va_of i) sz t = uvmcopy_loop old new (va_of (Suc i)) sz w"
        using un u(1,2,12) ok(1) by simp
      moreover have "length fl' \<le> length fl3 + 3" using ok(2,5) Cons by simp
      ultimately show thesis using that(2) by blast
    qed
  qed
qed


section \<open>The loop\<close>

lemma uvmcopy_loop_spec:
  assumes base: "fork_start s old new fl n" and sz: "unat sz \<le> 4096 * n" "4096 * n < unat sz + 4096"
  shows "i \<le> n \<Longrightarrow> fork_inv s old new fl t fl' i \<Longrightarrow> \<exists>r w flw. uvmcopy_loop old new (va_of i) sz t = Done r w \<and>
    (r = 0 \<and> fork_inv s old new fl w flw n \<or> r = -1 \<and> fork_inv s old new fl w flw 0 \<and> length fl' < 3 * (n - i))"
proof (induction "n - i" arbitrary: i t fl')
  case 0
  have n: "4096 * n \<le> 274877906944" using base by (simp add: fork_start_def)
  have "unat (va_of n) = 4096 * n" using n by (intro unat_va_of) simp
  then have "\<not> va_of n < sz" using sz(1) by (simp add: word_less_nat_alt)
  then show ?case using 0 by (subst uvmcopy_loop.simps) (auto simp: Let_def)
next
  case (Suc j)
  then have i: "i < n" by simp
  have old: "pt_state s old fl" "tables (mem s) old \<inter> tables (mem s) new = {}" and n: "4096 * n \<le> 274877906944"
    and none: "\<And>x. x < MAXVA \<Longrightarrow> in_pages 0 n x \<Longrightarrow> lookup (mem s) new x = None" using base by (simp_all add: fork_start_def)
  have "unat (va_of i) = 4096 * i" using n i by (intro unat_va_of) simp
  then have lt: "va_of i < sz" using i sz(2) by (simp add: word_less_nat_alt)
  from base Suc.prems(2) i lt show ?case
  proof (cases rule: uvmcopy_step)
    case (fail v flv)
    have "4096 * i \<le> 274877906944" using n i by simp
    moreover have "lookup (mem s) new x = None" if "x < MAXVA" "in_pages 0 i x" for x
      using none [OF that(1)] va_of_pages(3) [OF n i that(2)] by simp
    ultimately obtain w flw where "uvmunmap new 0 (va_of i div PGSIZE) True v = Done () w" "fork_inv s old new fl w flw 0"
      by (rule fork_undo [OF old fail(2)])
    moreover have "length fl' < 3 * (n - i)" using fail(3) i by simp
    ultimately show ?thesis using fail(1) by auto
  next
    case (ok u fl3)
    have "j = n - Suc i" using Suc.hyps(2) by simp
    from Suc.hyps(1) [OF this _ ok(2)] i obtain r w flw where "uvmcopy_loop old new (va_of i) sz t = Done r w"
      "r = 0 \<and> fork_inv s old new fl w flw n \<or> r = -1 \<and> fork_inv s old new fl w flw 0 \<and> length fl3 < 3 * (n - Suc i)"
      unfolding ok(1) by auto
    moreover have "length fl' < 3 * (n - i)" if "length fl3 < 3 * (n - Suc i)" using that ok(3) i by simp
    ultimately show ?thesis by blast
  qed
qed

lemma fork_inv_start: "fork_start s old new fl n \<Longrightarrow> fork_inv s old new fl s fl 0"
  by (simp add: fork_start_def fork_inv_def fork_part_def owned_pages_def frames_def copied_def)

section \<open>Property\<close>

text \<open>
  C4. \<^verbatim>\<open>uvmcopy\<close> of the first \<open>sz\<close> bytes, on \<open>n\<close> pages of 4096 bytes, always returns. When it returns 0, the child's table maps each of these pages
  with the parent's flags to a page of its own, taken from the free list, with the same contents; when it returns -1, there were fewer than
  three free pages for each page to copy, nothing is mapped and every page taken is free again or a table of the child. In both cases the parent's translations, and all memory but the pages
  that were free and the child's tables, are unchanged, no page is lost, and the child's other translations stay.
\<close>

theorem uvmcopy_correct:
  assumes "fork_start s old new fl n" "unat sz \<le> 4096 * n" "4096 * n < unat sz + 4096"
  shows "\<exists>r t fl'. uvmcopy old new sz s = Done r t \<and>
    (r = 0 \<and> fork_inv s old new fl t fl' n \<or> r = -1 \<and> fork_inv s old new fl t fl' 0 \<and> length fl < 3 * n)"
  using uvmcopy_loop_spec [OF assms, of 0 s fl] fork_inv_start [OF assms(1)] by (simp add: uvmcopy_def va_of_def)


section \<open>Witness\<close>

lemma free_pages:
  fixes s :: "'z kmem_scheme"
  assumes "kmem_pool s []"
  shows "distinct ps \<Longrightarrow> \<forall>p\<in>set ps. phys_page s p \<Longrightarrow>
    \<exists>t :: 'z kmem_scheme. kmem_pool t ps \<and> kend t = kend s \<and> (\<forall>x. PGROUNDDOWN x \<notin> set ps \<longrightarrow> mem t x = mem s x)"
proof (induction ps)
  case Nil
  then show ?case using assms by (intro exI [of _ s]) simp
next
  case (Cons p ps)
  then obtain t :: "'z kmem_scheme" where t: "kmem_pool t ps" "kend t = kend s" "\<And>x. PGROUNDDOWN x \<notin> set ps \<Longrightarrow> mem t x = mem s x" by auto
  have "phys_page t p" "p \<notin> set ps" using Cons.prems phys_page_cong [OF t(2)] by simp_all
  from kfree_pool [OF t(1) this] obtain u :: "'z kmem_scheme" where "kmem_pool u (p # ps)" "kend u = kend t" "same_except_page p (mem t) (mem u)" by metis
  then show ?case using t(2,3) by (intro exI [of _ u]) (auto simp: same_except_page_def)
qed

definition fork_free :: "addr list" where
  "fork_free = [0x80030000, 0x80031000, 0x80032000, 0x80033000, 0x80034000, 0x80035000]"

text \<open>A parent with one page at address 0, a child without memory, and at least four free pages.\<close>

lemma fork_example:
  obtains s :: kmem and fl where "fork_start s 0x80024000 0x80026000 fl 1" "4 \<le> length fl"
    "lookup (mem s) 0x80024000 0 = Some (0, PA2PTE 0x80025000 OR 22 OR 1)"
proof -
  let ?s0 = "\<lparr>mem = \<lambda>_. 0, kend = 0x80020000, freelist = 0, superpages = [], nfree = 0\<rparr> :: kmem"
  let ?e = "PA2PTE 0x80025000 OR 22 OR 1 :: pte" and ?pt = "0x80024000 :: addr" and ?ch = "0x80026000 :: addr"
  have "kmem_pool ?s0 []" by (simp add: kmem_pool_def)
  moreover have "distinct fork_free" "\<forall>p\<in>set fork_free. phys_page ?s0 p"
    by (simp_all add: fork_free_def phys_page_def page_aligned_def)
  ultimately obtain u :: kmem where u: "kmem_pool u fork_free" "kend u = 0x80020000" "\<And>x. PGROUNDDOWN x \<notin> set fork_free \<Longrightarrow> mem u x = 0"
    using free_pages [of ?s0 fork_free] by auto
  have al: "page_aligned ?pt" "page_aligned ?ch" by (simp_all add: page_aligned_def)
  have z: "mem u a = 0" if "PGROUNDDOWN a = ?pt \<or> PGROUNDDOWN a = ?ch" for a
    using that by (intro u(3)) (auto simp: fork_free_def)
  note e = empty_table [OF al(1), of "mem u"] empty_table [OF al(2), of "mem u"]
  have pt: "pt_state u ?pt fork_free" "pt_state u ?ch fork_free"
    using e u(1,2) z by (simp_all add: pt_state_def phys_page_def page_aligned_def) (simp_all add: fork_free_def)
  have "page_aligned (0 :: uint64)" "(0 :: uint64) < MAXVA" "lookup (mem u) ?pt 0 = None" using e(3) z by (simp_all add: page_aligned_def)
  from pt(1) this show thesis
  proof (cases rule: map_one [where p = "0x80025000" and perm = 22])
    case (ok us fl' w)
    note w = table_stepD [OF ok(3)]
    have sub: "set us \<union> set fl' = set fork_free" unfolding ok(2) by simp
    have no: "?ch \<notin> set us \<union> set fl'" "0x80025000 \<notin> set us \<union> set fl'" unfolding sub by (simp_all add: fork_free_def)
    have tab: "tables (mem w) ?pt = {?pt} \<union> set us" "tables (mem u) ?ch = {?ch}" using w(2) e(1,4) z by simp_all
    have pool: "kmem_pool w fl'" using w(1) by (simp add: pt_state_def)
    have eq: "mem w a = mem u a" if "PGROUNDDOWN a \<in> tables (mem u) ?ch" for a
      using that no(1) by (intro w(4)) (auto simp: tab)
    have dj: "tables (mem u) ?ch \<inter> set fl' = {}" using no(1) by (auto simp: tab)
    have ch: "pt_state w ?ch fl'" "tables (mem w) ?ch = {?ch}" "lookup (mem w) ?ch = lookup (mem u) ?ch"
      using pt_state_other [OF pt(2) pool w(3)] eq dj tab by blast+
    have look: "lookup (mem w) ?pt 0 = Some (0, ?e)" using ok(4) [of 0] by (simp add: PGROUNDDOWN_of_aligned page_aligned_def)
    have pa: "PTE2PA ?e = 0x80025000" using PTE2PA_PA2PTE [of "0x80025000" 23] by (simp add: page_aligned_def or.assoc)
    have "PTE_FLAGS ?e = 23" by (simp add: PTE_FLAGS_def PA2PTE_def)
    then have "source_pages w ?pt ?ch fl' 1"
      using look pa ch(2) no by (auto simp: source_pages_def va_of_def)
    moreover have "tables (mem w) ?pt \<inter> tables (mem w) ?ch = {}" using ch(2) tab no(1) by auto
    ultimately have "fork_start w ?pt ?ch fl' 1" using w(1) ch e(6) z by (simp add: fork_start_def)
    moreover have "length us + length fl' = 6" using arg_cong [OF ok(2), of length] by (simp add: fork_free_def)
    then have "4 \<le> length fl'" using ok(5) by simp
    ultimately show thesis using look by (intro that)
  next
    case (fail w)
    then show thesis by (simp add: fork_free_def)
  qed
qed

theorem uvmcopy_correct_witness:
  "\<exists>(s :: kmem) t fl fl' e'. uvmcopy 0x80024000 0x80026000 4096 s = Done 0 t \<and> fork_inv s 0x80024000 0x80026000 fl t fl' 1 \<and>
    lookup (mem t) 0x80026000 0 = Some (0, e') \<and> PTE_FLAGS e' = 23 \<and> page_eq (mem s) 0x80025000 (mem t) (PTE2PA e')"
proof (rule fork_example)
  fix s :: kmem and fl
  let ?e = "PA2PTE 0x80025000 OR 22 OR 1 :: pte"
  assume a: "fork_start s 0x80024000 0x80026000 fl 1" "4 \<le> length fl" "lookup (mem s) 0x80024000 0 = Some (0, ?e)"
  have "PTE2PA ?e = 0x80025000" using PTE2PA_PA2PTE [of "0x80025000" 23] by (simp add: page_aligned_def or.assoc)
  moreover have "PTE_FLAGS ?e = 23" by (simp add: PTE_FLAGS_def PA2PTE_def)
  moreover from uvmcopy_correct [OF a(1), of 4096] a(2) obtain t fl' where
    t: "uvmcopy 0x80024000 0x80026000 4096 s = Done 0 t" "fork_inv s 0x80024000 0x80026000 fl t fl' 1" by auto
  moreover from t(2) a(3) obtain e' where "lookup (mem t) 0x80026000 0 = Some (0, e')" "PTE_FLAGS e' = PTE_FLAGS ?e"
    "page_eq (mem s) (PTE2PA ?e) (mem t) (PTE2PA e')"
    by (auto simp: fork_inv_def fork_part_def copied_def va_of_def)
  ultimately show ?thesis by metis
qed

end
