(* ===== verification/DiskProtocol.thy ===== *)
theory DiskProtocol
  imports Virtio
begin

text \<open>
  The protocol between the driver of \<^verbatim>\<open>kernel/virtio_disk.c\<close> and the disk: processes submit requests and finish them, the device
  takes requests from the ring of available descriptors and completes them in any order, and interrupts tell the driver. The
  steps interleave freely. The device is a parameter: when it completes a chain of descriptors that has the form of a request, it does
  what the chain says. The invariant shows that the chains always have this form, that what the device does is the
  transfer \<open>disk_rw\<close> by which theory \<open>Bio\<close> describes \<^verbatim>\<open>virtio_disk_rw\<close>, and that the driver never panics and loses no descriptor.
\<close>

section \<open>Requests and the device\<close>

datatype phase = Queued | Fetched | Completed | Signalled

text \<open>What the proof remembers of a request, under the index of its first descriptor.\<close>

record vreq =
  rq_buf :: nat
  rq_write :: bool
  rq_data :: nat      \<comment> \<open>the descriptor of the data\<close>
  rq_stat :: nat      \<comment> \<open>the descriptor of the status\<close>
  rq_phase :: phase

text \<open>
  The driver and the device: \<open>vc_taken\<close> is how far the device has read the ring of available descriptors and \<open>vc_flight\<close> are the chains
  that it works on.
\<close>

record 'z vconf =
  vc_st :: "'z virtst_scheme"
  vc_taken :: ushort
  vc_flight :: "nat set"
  vc_reqs :: "nat \<rightharpoonup> vreq"

text \<open>The request that the chain of descriptors from \<open>h\<close> describes: the buffer, whether to write, the sector and the place for the status.\<close>

definition chain :: "'z virtst_scheme \<Rightarrow> nat \<Rightarrow> (nat \<times> bool \<times> uint64 \<times> nat) option" where
  "chain s h =
     (let d0 = desc s ! h; d1 = desc s ! unat (d_next d0); d2 = desc s ! unat (d_next d1)
      in case (d_addr d0, d_addr d1, d_addr d2) of
           (Op k, Data b, Status j) \<Rightarrow>
             let write = (req_type (vops s ! k) = 1)
             in if (write \<or> req_type (vops s ! k) = 0) \<and> d_len d0 = 16 \<and> d_flags d0 = 1 \<and> d_len d1 = 1024 \<and>
                   d_flags d1 = (if write then 1 else 3) \<and> d_len d2 = 1 \<and> d_flags d2 = 2
                then Some (b, write, req_sector (vops s ! k), j) else None
         | _ \<Rightarrow> None)"

text \<open>
  What the device does with a request for the two sectors of a block: it moves the data, reports success and appends the chain
  to the used ring.
\<close>

definition dev_effect :: "nat \<Rightarrow> nat \<Rightarrow> bool \<Rightarrow> uint64 \<Rightarrow> nat \<Rightarrow> 'z virtst_scheme \<Rightarrow> 'z virtst_scheme" where
  "dev_effect h b write sector j s =
     (let bno = ucast (sector div 2) :: uint;
          s = (if write then s\<lparr>disk := (disk s)(bno := bdata (bufs s ! b)), writes := writes s @ [(bno, bdata (bufs s ! b))]\<rparr>
               else upd_buf b (\<lambda>x. x\<lparr>bdata := disk s bno\<rparr>) s);
          s = s\<lparr>vinfos := (vinfos s)[j := (vinfos s ! j)\<lparr>vi_status := 0\<rparr>]\<rparr>;
          s = s\<lparr>dev_used_ring := (dev_used_ring s)[unat (dev_used_idx s) mod 8 := of_nat h]\<rparr>
      in s\<lparr>dev_used_idx := dev_used_idx s + 1\<rparr>)"

definition device_ok :: "(nat \<Rightarrow> 'z virtst_scheme \<Rightarrow> 'z virtst_scheme option) \<Rightarrow> bool" where
  "device_ok dev \<longleftrightarrow> (\<forall>h s b write sector j. h < 8 \<longrightarrow> chain s h = Some (b, write, sector, j) \<longrightarrow> even (unat sector) \<longrightarrow>
     dev h s = Some (dev_effect h b write sector j s))"

section \<open>Steps\<close>

definition set_phase :: "nat \<Rightarrow> phase \<Rightarrow> (nat \<rightharpoonup> vreq) \<Rightarrow> (nat \<rightharpoonup> vreq)" where
  "set_phase h p R = R(h := map_option (\<lambda>r. r\<lparr>rq_phase := p\<rparr>) (R h))"

definition signal :: "(nat \<rightharpoonup> vreq) \<Rightarrow> (nat \<rightharpoonup> vreq)" where
  "signal R = (\<lambda>i. map_option (\<lambda>r. if rq_phase r = Completed then r\<lparr>rq_phase := Signalled\<rparr> else r) (R i))"

text \<open>The rest of the kernel does not touch the driver's state, nor the block numbers of buffers under transfer.\<close>

definition same_driver :: "'z virtst_scheme \<Rightarrow> 'z virtst_scheme \<Rightarrow> bool" where
  "same_driver s t \<longleftrightarrow> desc t = desc s \<and> vfree t = vfree s \<and> avail_idx t = avail_idx s \<and> avail_ring t = avail_ring s \<and>
     used_idx t = used_idx s \<and> dev_used_idx t = dev_used_idx s \<and> dev_used_ring t = dev_used_ring s \<and> vinfos t = vinfos s \<and>
     vops t = vops s \<and> buf_disk t = buf_disk s"

inductive vstep :: "(nat \<Rightarrow> 'z virtst_scheme \<Rightarrow> 'z virtst_scheme option) \<Rightarrow> ((nat \<times> uint) list \<Rightarrow> nat \<Rightarrow> uint) \<Rightarrow>
    'z vconf \<Rightarrow> 'z vconf \<Rightarrow> bool" for dev regs where
  submit: "disk_submit b w (vc_st c) = Done i t \<Longrightarrow> b < length (bufs (vc_st c)) \<Longrightarrow> unat (blockno (bufs (vc_st c) ! b)) < 2 ^ 31 \<Longrightarrow>
    \<forall>r\<in>ran (vc_reqs c). rq_buf r \<noteq> b \<Longrightarrow> j = unat (d_next (desc t ! i)) \<Longrightarrow>
    vstep dev regs c (c\<lparr>vc_st := t, vc_reqs := (vc_reqs c)(i \<mapsto>
      \<lparr>rq_buf = b, rq_write = w, rq_data = j, rq_stat = unat (d_next (desc t ! j)), rq_phase = Queued\<rparr>)\<rparr>)"
| submit_wait: "disk_submit b w (vc_st c) = Sleep ch t \<Longrightarrow> vstep dev regs c (c\<lparr>vc_st := t\<rparr>)"
| fetch: "vc_taken c \<noteq> avail_idx (vc_st c) \<Longrightarrow> h = unat (avail_ring (vc_st c) ! (unat (vc_taken c) mod 8)) \<Longrightarrow>
    vstep dev regs c (c\<lparr>vc_taken := vc_taken c + 1, vc_flight := insert h (vc_flight c), vc_reqs := set_phase h Fetched (vc_reqs c)\<rparr>)"
| complete: "h \<in> vc_flight c \<Longrightarrow> dev h (vc_st c) = Some t \<Longrightarrow>
    vstep dev regs c (c\<lparr>vc_st := t, vc_flight := vc_flight c - {h}, vc_reqs := set_phase h Completed (vc_reqs c)\<rparr>)"
| intr: "virtio_disk_intr regs (vc_st c) = Done () t \<Longrightarrow> vstep dev regs c (c\<lparr>vc_st := t, vc_reqs := signal (vc_reqs c)\<rparr>)"
| finish: "vc_reqs c i = Some r \<Longrightarrow> disk_finish (rq_buf r) i (vc_st c) = Done () t \<Longrightarrow>
    vstep dev regs c (c\<lparr>vc_st := t, vc_reqs := (vc_reqs c)(i := None)\<rparr>)"
| finish_wait: "vc_reqs c i = Some r \<Longrightarrow> disk_finish (rq_buf r) i (vc_st c) = Sleep ch t \<Longrightarrow> vstep dev regs c (c\<lparr>vc_st := t\<rparr>)"
| other: "same_driver (vc_st c) t \<Longrightarrow> length (bufs t) = length (bufs (vc_st c)) \<Longrightarrow>
    \<forall>r\<in>ran (vc_reqs c). blockno (bufs t ! rq_buf r) = blockno (bufs (vc_st c) ! rq_buf r) \<Longrightarrow> vstep dev regs c (c\<lparr>vc_st := t\<rparr>)"

section \<open>The invariant\<close>

definition parts :: "nat \<Rightarrow> vreq \<Rightarrow> nat set" where
  "parts i r = {i, rq_data r, rq_stat r}"

definition in_phase :: "(nat \<rightharpoonup> vreq) \<Rightarrow> phase \<Rightarrow> nat set" where
  "in_phase R p = {i. \<exists>r. R i = Some r \<and> rq_phase r = p}"

text \<open>Descriptors are free or belong to one request.\<close>

definition descs_ok :: "(nat \<rightharpoonup> vreq) \<Rightarrow> (nat \<Rightarrow> bool) \<Rightarrow> bool" where
  "descs_ok R f \<longleftrightarrow>
     (\<forall>i r. R i = Some r \<longrightarrow> parts i r \<subseteq> {..<8} \<and> i \<noteq> rq_data r \<and> i \<noteq> rq_stat r \<and> rq_data r \<noteq> rq_stat r) \<and>
     (\<forall>i r j q. R i = Some r \<longrightarrow> R j = Some q \<longrightarrow> i \<noteq> j \<longrightarrow> parts i r \<inter> parts j q = {}) \<and>
     (\<forall>k<8. f k \<longleftrightarrow> (\<forall>i r. R i = Some r \<longrightarrow> k \<notin> parts i r))"

definition req_ok :: "'z virtst_scheme \<Rightarrow> nat \<Rightarrow> vreq \<Rightarrow> bool" where
  "req_ok s i r \<longleftrightarrow>
     desc s ! i = \<lparr>d_addr = Op i, d_len = 16, d_flags = 1, d_next = of_nat (rq_data r)\<rparr> \<and>
     desc s ! rq_data r = \<lparr>d_addr = Data (rq_buf r), d_len = 1024, d_flags = (if rq_write r then 1 else 3), d_next = of_nat (rq_stat r)\<rparr> \<and>
     desc s ! rq_stat r = \<lparr>d_addr = Status i, d_len = 1, d_flags = 2, d_next = 0\<rparr> \<and>
     vops s ! i = \<lparr>req_type = (if rq_write r then 1 else 0), req_sector = ucast (blockno (bufs s ! rq_buf r) * 2)\<rparr> \<and>
     vi_b (vinfos s ! i) = Some (rq_buf r) \<and> rq_buf r < length (bufs s) \<and> unat (blockno (bufs s ! rq_buf r)) < 2 ^ 31 \<and>
     (buf_disk s (rq_buf r) \<longleftrightarrow> rq_phase r \<noteq> Signalled) \<and> (rq_phase r = Completed \<longrightarrow> vi_status (vinfos s ! i) = 0)"

text \<open>The ring from \<open>r\<close> to \<open>w\<close> holds the elements of \<open>A\<close>, each once.\<close>

definition holds :: "'a::len word list \<Rightarrow> ushort \<Rightarrow> ushort \<Rightarrow> nat set \<Rightarrow> bool" where
  "holds buf r w A \<longleftrightarrow> distinct (map unat (ring buf r w)) \<and> set (map unat (ring buf r w)) = A"

definition sizes_ok :: "'z virtst_scheme \<Rightarrow> bool" where
  "sizes_ok s \<longleftrightarrow> length (desc s) = 8 \<and> length (vops s) = 8 \<and> length (vinfos s) = 8 \<and> length (avail_ring s) = 8 \<and> length (dev_used_ring s) = 8"

definition vinv :: "'z vconf \<Rightarrow> bool" where
  "vinv c \<longleftrightarrow> sizes_ok (vc_st c) \<and> descs_ok (vc_reqs c) (vfree (vc_st c)) \<and> (\<forall>i r. vc_reqs c i = Some r \<longrightarrow> req_ok (vc_st c) i r) \<and>
     (\<forall>i r j q. vc_reqs c i = Some r \<longrightarrow> vc_reqs c j = Some q \<longrightarrow> i \<noteq> j \<longrightarrow> rq_buf r \<noteq> rq_buf q) \<and>
     holds (avail_ring (vc_st c)) (vc_taken c) (avail_idx (vc_st c)) (in_phase (vc_reqs c) Queued) \<and>
     vc_flight c = in_phase (vc_reqs c) Fetched \<and>
     holds (dev_used_ring (vc_st c)) (used_idx (vc_st c)) (dev_used_idx (vc_st c)) (in_phase (vc_reqs c) Completed)"

lemma vinvD:
  assumes "vinv c"
  shows "sizes_ok (vc_st c)" "descs_ok (vc_reqs c) (vfree (vc_st c))" "\<And>i r. vc_reqs c i = Some r \<Longrightarrow> req_ok (vc_st c) i r"
    "\<And>i r j q. vc_reqs c i = Some r \<Longrightarrow> vc_reqs c j = Some q \<Longrightarrow> i \<noteq> j \<Longrightarrow> rq_buf r \<noteq> rq_buf q"
    "holds (avail_ring (vc_st c)) (vc_taken c) (avail_idx (vc_st c)) (in_phase (vc_reqs c) Queued)"
    "vc_flight c = in_phase (vc_reqs c) Fetched"
    "holds (dev_used_ring (vc_st c)) (used_idx (vc_st c)) (dev_used_idx (vc_st c)) (in_phase (vc_reqs c) Completed)"
  using assms by (simp_all add: vinv_def)

lemma vinvI:
  assumes "sizes_ok s" "descs_ok R (vfree s)" "\<And>i r. R i = Some r \<Longrightarrow> req_ok s i r"
    "\<And>i r j q. R i = Some r \<Longrightarrow> R j = Some q \<Longrightarrow> i \<noteq> j \<Longrightarrow> rq_buf r \<noteq> rq_buf q"
    "holds (avail_ring s) (vc_taken c) (avail_idx s) (in_phase R Queued)" "vc_flight c = in_phase R Fetched"
    "holds (dev_used_ring s) (used_idx s) (dev_used_idx s) (in_phase R Completed)"
  shows "vinv (c\<lparr>vc_st := s, vc_reqs := R\<rparr>)"
  unfolding vinv_def by (intro conjI allI impI) (simp_all add: assms)

lemma descs_okD:
  assumes "descs_ok R f" "R i = Some r"
  shows "i < 8" "rq_data r < 8" "rq_stat r < 8" "i \<noteq> rq_data r" "i \<noteq> rq_stat r" "rq_data r \<noteq> rq_stat r"
    "\<And>k. k \<in> parts i r \<Longrightarrow> \<not> f k" "\<And>j q. R j = Some q \<Longrightarrow> i \<noteq> j \<Longrightarrow> parts i r \<inter> parts j q = {}"
proof -
  have "parts i r \<subseteq> {..<8}" using assms unfolding descs_ok_def by blast
  then show "i < 8" "rq_data r < 8" "rq_stat r < 8" by (auto simp: parts_def)
  show "i \<noteq> rq_data r" "i \<noteq> rq_stat r" "rq_data r \<noteq> rq_stat r" using assms unfolding descs_ok_def by blast+
  show "\<not> f k" if "k \<in> parts i r" for k using assms that \<open>parts i r \<subseteq> {..<8}\<close> unfolding descs_ok_def by blast
  show "parts i r \<inter> parts j q = {}" if "R j = Some q" "i \<noteq> j" for j q using assms that unfolding descs_ok_def by blast
qed

lemma in_phase_8: "descs_ok R f \<Longrightarrow> in_phase R p \<subseteq> {..<8}"
  using descs_okD(1) by (auto simp: in_phase_def)

section \<open>Rings\<close>

lemma holds_card: "holds buf r w A \<Longrightarrow> unat (w - r) = card A"
  unfolding holds_def by (metis distinct_card length_map length_ring)

lemma holds_put:
  assumes "holds buf r w A" "length buf = 8" "A \<subseteq> {..<8}" "h < 8" "h \<notin> A" "unat x = h"
  shows "holds (buf[unat w mod 8 := x]) r (w + 1) (insert h A)"
proof -
  have "A \<subset> {..<8}" using assms(3-5) by auto
  then have "card A < 8" using psubset_card_mono [of "{..<8}" A] by simp
  then have lt: "unat (w - r) < 8" using holds_card [OF assms(1)] by simp
  have "ring (buf[unat w mod length buf := x]) r (w + 1) = ring buf r w @ [x]"
    by (rule ring_put) (use assms(2) lt in simp_all)
  then show ?thesis using assms unfolding holds_def by simp
qed

lemma holds_get:
  assumes "holds buf r w A" "length buf = 8" "r \<noteq> w"
  shows "unat (buf ! (unat r mod 8)) \<in> A" "holds buf (r + 1) w (A - {unat (buf ! (unat r mod 8))})"
proof -
  have "ring buf r w = buf ! (unat r mod length buf) # ring buf (r + 1) w"
    by (rule ring_get) (use assms(2,3) in simp_all)
  then have "distinct (map unat (ring buf (r + 1) w))" "A = insert (unat (buf ! (unat r mod 8))) (set (map unat (ring buf (r + 1) w)))"
    "unat (buf ! (unat r mod 8)) \<notin> set (map unat (ring buf (r + 1) w))"
    using assms(1,2) unfolding holds_def by simp_all
  then show "unat (buf ! (unat r mod 8)) \<in> A" "holds buf (r + 1) w (A - {unat (buf ! (unat r mod 8))})"
    unfolding holds_def by (simp, blast)
qed

lemma holds_empty: "holds buf r r A \<longleftrightarrow> A = {}"
  by (auto simp: holds_def ring_def)


section \<open>Descriptors\<close>

text \<open>Changes that leave the driver as it is, apart from the contents of free descriptors.\<close>

definition same_but_free :: "'z virtst_scheme \<Rightarrow> 'z virtst_scheme \<Rightarrow> bool" where
  "same_but_free s t \<longleftrightarrow> length (desc t) = length (desc s) \<and> (\<forall>k<8. \<not> vfree s k \<longrightarrow> desc t ! k = desc s ! k) \<and> vfree t = vfree s \<and>
     avail_idx t = avail_idx s \<and> avail_ring t = avail_ring s \<and> used_idx t = used_idx s \<and> dev_used_idx t = dev_used_idx s \<and>
     dev_used_ring t = dev_used_ring s \<and> vinfos t = vinfos s \<and> vops t = vops s \<and> buf_disk t = buf_disk s"

lemma same_driver_but_free: "same_driver s t \<Longrightarrow> same_but_free s t"
  by (simp add: same_driver_def same_but_free_def)

lemma vinv_keep:
  assumes v: "vinv c" and t: "same_but_free (vc_st c) t" and b: "length (bufs t) = length (bufs (vc_st c))"
    "\<forall>r\<in>ran (vc_reqs c). blockno (bufs t ! rq_buf r) = blockno (bufs (vc_st c) ! rq_buf r)"
  shows "vinv (c\<lparr>vc_st := t\<rparr>)"
proof -
  note d = vinvD [OF v]
  have "req_ok t i r" if r: "vc_reqs c i = Some r" for i r
  proof -
    note p = descs_okD [OF d(2) r]
    have "desc t ! k = desc (vc_st c) ! k" if "k \<in> parts i r" for k
      using t p(1-3) p(7) [OF that] that by (auto simp: same_but_free_def parts_def)
    moreover have "blockno (bufs t ! rq_buf r) = blockno (bufs (vc_st c) ! rq_buf r)" using b(2) r by (auto simp: ran_def)
    ultimately show ?thesis using d(3) [OF r] t b(1) unfolding req_ok_def same_but_free_def by (simp add: parts_def)
  qed
  then show ?thesis using d t unfolding vinv_def same_but_free_def sizes_ok_def by simp
qed

lemma find_free_Some: "find_free f i n = Some k \<Longrightarrow> i \<le> k \<and> k < i + n \<and> f k"
  by (induction f i n rule: find_free.induct) (auto split: if_splits)

lemma alloc_desc_cases:
  obtains "alloc_desc s = (None, s)"
  | i where "alloc_desc s = (Some i, s\<lparr>vfree := (vfree s)(i := False)\<rparr>)" "i < 8" "vfree s i"
proof (cases "find_free (vfree s) 0 8")
  case None
  then show ?thesis by (intro that(1)) (simp add: alloc_desc_def)
next
  case (Some i)
  then show ?thesis using find_free_Some [OF Some] by (intro that(2) [of i]) (simp_all add: alloc_desc_def)
qed

lemma free_desc_Done:
  "i < 8 \<Longrightarrow> \<not> vfree s i \<Longrightarrow> free_desc i s = Done () (wakeup ChanDiskFree
     (s\<lparr>desc := (desc s)[i := \<lparr>d_addr = Null, d_len = 0, d_flags = 0, d_next = 0\<rparr>], vfree := (vfree s)(i := True)\<rparr>))"
  by (simp add: free_desc_def)

lemma wakeup_virt [simp]:
  fixes s :: "'z virtst_scheme"
  shows "desc (wakeup ch s) = desc s" "vfree (wakeup ch s) = vfree s" "avail_idx (wakeup ch s) = avail_idx s" "avail_ring (wakeup ch s) = avail_ring s"
    "used_idx (wakeup ch s) = used_idx s" "dev_used_idx (wakeup ch s) = dev_used_idx s" "dev_used_ring (wakeup ch s) = dev_used_ring s"
    "vinfos (wakeup ch s) = vinfos s" "vops (wakeup ch s) = vops s" "buf_disk (wakeup ch s) = buf_disk s" "bufs (wakeup ch s) = bufs s"
    "mmio (wakeup ch s) = mmio s" "disk (wakeup ch s) = disk s" "writes (wakeup ch s) = writes s"
  by (simp_all add: wakeup_def)

lemma nth_update_free: "vfree s i \<Longrightarrow> \<not> vfree s k \<Longrightarrow> xs[i := v] ! k = xs ! k"
  by (metis nth_list_update_neq)

lemma alloc3_desc_cases:
  fixes s :: "'z virtst_scheme"
  obtains (none) t where "alloc3_desc s = Done None t" "same_but_free s t" "bufs t = bufs s"
  | (some) i0 i1 i2 where "alloc3_desc s = Done (Some (i0, i1, i2)) (s\<lparr>vfree := (vfree s)(i0 := False, i1 := False, i2 := False)\<rparr>)"
      "i0 < 8" "i1 < 8" "i2 < 8" "i0 \<noteq> i1" "i0 \<noteq> i2" "i1 \<noteq> i2" "vfree s i0" "vfree s i1" "vfree s i2"
proof (cases rule: alloc_desc_cases [of s])
  case 1
  then show ?thesis by (intro none [of s]) (simp_all add: alloc3_desc_def same_but_free_def)
next
  case (2 i0)
  let ?s1 = "s\<lparr>vfree := (vfree s)(i0 := False)\<rparr>"
  show ?thesis
  proof (cases rule: alloc_desc_cases [of ?s1])
    case 1
    then have e: "alloc3_desc s = kbind (free_desc i0 ?s1) (\<lambda>_ s. Done None s)" using 2 by (simp add: alloc3_desc_def)
    have "\<exists>t. free_desc i0 ?s1 = Done () t \<and> same_but_free s t \<and> bufs t = bufs s"
      using 2(2,3) by (auto simp: free_desc_Done same_but_free_def nth_update_free [of s] fun_eq_iff)
    then obtain t where "free_desc i0 ?s1 = Done () t" "same_but_free s t" "bufs t = bufs s" by (elim exE conjE) (rule that)
    then show ?thesis using e by (intro none [of t]) simp_all
  next
    case a: (2 i1)
    let ?s2 = "?s1\<lparr>vfree := (vfree ?s1)(i1 := False)\<rparr>"
    have i1: "i1 \<noteq> i0" "vfree s i1" using a(3) by (auto split: if_splits)
    show ?thesis
    proof (cases rule: alloc_desc_cases [of ?s2])
      case 1
      then have e: "alloc3_desc s = kbind (free_desc i0 ?s2) (\<lambda>_ s. kbind (free_desc i1 s) (\<lambda>_ s. Done None s))"
        using 2 a by (simp add: alloc3_desc_def)
      have "\<exists>t u. free_desc i0 ?s2 = Done () t \<and> free_desc i1 t = Done () u \<and> same_but_free s u \<and> bufs u = bufs s"
        using 2(2,3) a(2) i1 by (auto simp: free_desc_Done same_but_free_def nth_update_free [of s] fun_eq_iff)
      then obtain t u where "free_desc i0 ?s2 = Done () t" "free_desc i1 t = Done () u" "same_but_free s u" "bufs u = bufs s"
        by (elim exE conjE) (rule that)
      then show ?thesis using e by (intro none [of u]) simp_all
    next
      case b: (2 i2)
      have "i2 \<noteq> i0" "i2 \<noteq> i1" "vfree s i2" using b(3) by (auto split: if_splits)
      then show ?thesis using 2 a b i1 by (intro some [of i0 i1 i2]) (simp_all add: alloc3_desc_def)
    qed
  qed
qed


section \<open>Submitting\<close>

lemma vinfo_upd: "(x :: vinfo)\<lparr>vi_status := a, vi_b := b\<rparr> = \<lparr>vi_b = b, vi_status = a\<rparr>"
  by (cases x) simp

lemma disk_submit_cases:
  fixes s :: "'z virtst_scheme"
  assumes "length (vinfos s) = 8"
  obtains (wait) t where "disk_submit b w s = Sleep ChanDiskFree t" "same_but_free s t" "bufs t = bufs s"
  | (ok) i0 i1 i2 t where "disk_submit b w s = Done i0 t"
      "i0 < 8" "i1 < 8" "i2 < 8" "i0 \<noteq> i1" "i0 \<noteq> i2" "i1 \<noteq> i2" "vfree s i0" "vfree s i1" "vfree s i2"
      "vfree t = (vfree s)(i0 := False, i1 := False, i2 := False)"
      "desc t = (desc s)[i0 := \<lparr>d_addr = Op i0, d_len = 16, d_flags = 1, d_next = of_nat i1\<rparr>,
         i1 := \<lparr>d_addr = Data b, d_len = 1024, d_flags = (if w then 1 else 3), d_next = of_nat i2\<rparr>,
         i2 := \<lparr>d_addr = Status i0, d_len = 1, d_flags = 2, d_next = 0\<rparr>]"
      "vops t = (vops s)[i0 := \<lparr>req_type = (if w then 1 else 0), req_sector = ucast (blockno (bufs s ! b) * 2)\<rparr>]"
      "vinfos t = (vinfos s)[i0 := \<lparr>vi_b = Some b, vi_status = 0xff\<rparr>]" "buf_disk t = (buf_disk s)(b := True)"
      "avail_ring t = (avail_ring s)[unat (avail_idx s) mod 8 := of_nat i0]" "avail_idx t = avail_idx s + 1"
      "used_idx t = used_idx s" "dev_used_idx t = dev_used_idx s" "dev_used_ring t = dev_used_ring s" "bufs t = bufs s"
proof (cases rule: alloc3_desc_cases [of s])
  case (none t)
  have "disk_submit b w s = ksleep ChanDiskFree t" by (simp add: disk_submit_def none(1))
  then show ?thesis
    using none(2,3) by (intro wait [of "upd_proc (curproc t) (\<lambda>p. p\<lparr>pchan := Some ChanDiskFree, pstate := SLEEPING\<rparr>) t"])
      (simp_all add: ksleep_def same_but_free_def upd_proc_def)
next
  case (some i0 i1 i2)
  have "\<exists>t. disk_submit b w s = Done i0 t \<and> vfree t = (vfree s)(i0 := False, i1 := False, i2 := False) \<and>
      desc t = (desc s)[i0 := \<lparr>d_addr = Op i0, d_len = 16, d_flags = 1, d_next = of_nat i1\<rparr>,
         i1 := \<lparr>d_addr = Data b, d_len = 1024, d_flags = (if w then 1 else 3), d_next = of_nat i2\<rparr>,
         i2 := \<lparr>d_addr = Status i0, d_len = 1, d_flags = 2, d_next = 0\<rparr>] \<and>
      vops t = (vops s)[i0 := \<lparr>req_type = (if w then 1 else 0), req_sector = ucast (blockno (bufs s ! b) * 2)\<rparr>] \<and>
      vinfos t = (vinfos s)[i0 := \<lparr>vi_b = Some b, vi_status = 0xff\<rparr>] \<and> buf_disk t = (buf_disk s)(b := True) \<and>
      avail_ring t = (avail_ring s)[unat (avail_idx s) mod 8 := of_nat i0] \<and> avail_idx t = avail_idx s + 1 \<and>
      used_idx t = used_idx s \<and> dev_used_idx t = dev_used_idx s \<and> dev_used_ring t = dev_used_ring s \<and> bufs t = bufs s"
    using some(2) assms by (simp add: disk_submit_def some(1) R_write_def vinfo_upd)
  then show ?thesis by (elim exE conjE) (rule ok [OF _ some(2-10)])
qed

lemma descs_ok_add:
  assumes "descs_ok R f" "R i = None" "parts i r \<subseteq> {..<8}" "i \<noteq> rq_data r" "i \<noteq> rq_stat r" "rq_data r \<noteq> rq_stat r"
    "\<And>k. k \<in> parts i r \<Longrightarrow> f k"
  shows "descs_ok (R(i \<mapsto> r)) (\<lambda>k. f k \<and> k \<notin> parts i r)"
proof -
  have new: "parts i r \<inter> parts j q = {}" if "R j = Some q" for j q
    using descs_okD(7) [OF assms(1) that] assms(7) by blast
  have "parts j q \<inter> parts j' q' = {}" if "(R(i \<mapsto> r)) j = Some q" "(R(i \<mapsto> r)) j' = Some q'" "j \<noteq> j'" for j q j' q'
    using that new [of j q] new [of j' q'] descs_okD(8) [OF assms(1), of j q j' q'] by (auto split: if_splits)
  moreover have "parts j q \<subseteq> {..<8} \<and> j \<noteq> rq_data q \<and> j \<noteq> rq_stat q \<and> rq_data q \<noteq> rq_stat q" if "(R(i \<mapsto> r)) j = Some q" for j q
    using that assms(1,3-6) unfolding descs_ok_def by (metis fun_upd_apply option.sel)
  moreover have "(f k \<and> k \<notin> parts i r) \<longleftrightarrow> (\<forall>j q. (R(i \<mapsto> r)) j = Some q \<longrightarrow> k \<notin> parts j q)" if "k < 8" for k
    using that assms(1,2) unfolding descs_ok_def by (auto split: if_splits)
  ultimately show ?thesis unfolding descs_ok_def by blast
qed

lemma vinv_submit:
  assumes v: "vinv c" and d: "disk_submit b w (vc_st c) = Done i t" and b: "b < length (bufs (vc_st c))"
    "unat (blockno (bufs (vc_st c) ! b)) < 2 ^ 31" "\<forall>r\<in>ran (vc_reqs c). rq_buf r \<noteq> b"
    and j: "j = unat (d_next (desc t ! i))"
  shows "vinv (c\<lparr>vc_st := t, vc_reqs := (vc_reqs c)(i \<mapsto>
      \<lparr>rq_buf = b, rq_write = w, rq_data = j, rq_stat = unat (d_next (desc t ! j)), rq_phase = Queued\<rparr>)\<rparr>)"
proof -
  let ?s = "vc_st c" and ?R = "vc_reqs c"
  note vd = vinvD [OF v]
  have sz: "length (desc ?s) = 8" "length (vops ?s) = 8" "length (vinfos ?s) = 8" "length (avail_ring ?s) = 8" "length (dev_used_ring ?s) = 8"
    using vd(1) by (simp_all add: sizes_ok_def)
  from sz(3) show ?thesis
  proof (cases rule: disk_submit_cases [of ?s b w])
    case (wait t)
    then show ?thesis using d by simp
  next
    case (ok i0 i1 i2 u)
    have u: "u = t" "i0 = i" using ok(1) d by simp_all
    have ij: "j = i1" "unat (d_next (desc t ! j)) = i2"
      using ok(2-7) sz(1) unfolding j u(1) [symmetric] u(2) [symmetric] ok(12) by (simp_all add: nth_list_update unat_of_nat take_bit_nat_eq_self)
    let ?r = "\<lparr>rq_buf = b, rq_write = w, rq_data = i1, rq_stat = i2, rq_phase = Queued\<rparr>"
    let ?R' = "?R(i0 \<mapsto> ?r)"
    have new: "k \<notin> parts i' r'" if "?R i' = Some r'" "k \<in> {i0, i1, i2}" for k i' r'
      using descs_okD(7) [OF vd(2) that(1)] ok(8-10) that(2) by auto
    have n0: "?R i0 = None" using new [of i0 _ i0] by (cases "?R i0") (auto simp: parts_def)
    have "parts i0 ?r = {i0, i1, i2}" by (simp add: parts_def)
    then have "vfree u = (\<lambda>k. vfree ?s k \<and> k \<notin> parts i0 ?r)" unfolding ok(11) by (auto simp: fun_eq_iff)
    then have D: "descs_ok ?R' (vfree u)"
      using descs_ok_add [OF vd(2) n0, of ?r] ok(2-10) by (auto simp: parts_def)
    have Q: "req_ok u i r" if r: "?R' i = Some r" for i r
    proof (cases "i = i0")
      case True
      then have "r = ?r" using r by simp
      then show ?thesis using True ok(2-7,12-15,21) sz b(1,2) by (simp add: req_ok_def nth_list_update)
    next
      case False
      then have r: "?R i = Some r" using r by simp
      have "desc u ! k = desc ?s ! k" if "k \<in> parts i r" for k
      proof -
        have "i0 \<noteq> k" "i1 \<noteq> k" "i2 \<noteq> k" using new [OF r, of k] that by auto
        then show ?thesis unfolding ok(12) by simp
      qed
      moreover have "rq_buf r \<noteq> b" using b(3) r by (auto simp: ran_def)
      ultimately show ?thesis using vd(3) [OF r] False ok(13-15,21) unfolding req_ok_def by (simp add: parts_def)
    qed
    have B: "rq_buf r \<noteq> rq_buf q" if "?R' i = Some r" "?R' j = Some q" "i \<noteq> j" for i j r q
      using that vd(4) [of i r j q] b(3) by (auto simp: ran_def split: if_splits)
    have ph: "in_phase ?R' p = (if p = Queued then insert i0 (in_phase ?R p) else in_phase ?R p)" for p
      using n0 by (auto simp: in_phase_def)
    have "i0 \<notin> in_phase ?R Queued" using n0 by (simp add: in_phase_def)
    from holds_put [OF vd(5) sz(4) in_phase_8 [OF vd(2)] ok(2) this, of "of_nat i0"]
    have A: "holds (avail_ring u) (vc_taken c) (avail_idx u) (in_phase ?R' Queued)"
      using ok(2) unfolding ph ok(16,17) by (simp add: unat_of_nat take_bit_nat_eq_self)
    have "sizes_ok u" using sz ok(12-14,16,20) by (simp add: sizes_ok_def)
    moreover have "vc_flight c = in_phase ?R' Fetched" using vd(6) ph by simp
    moreover have "holds (dev_used_ring u) (used_idx u) (dev_used_idx u) (in_phase ?R' Completed)" using vd(7) ph ok(18-20) by simp
    ultimately have "vinv (c\<lparr>vc_st := u, vc_reqs := ?R'\<rparr>)" using D Q B A by (intro vinvI)
    then show ?thesis unfolding ij(2) unfolding ij(1) u .
  qed
qed


section \<open>The device\<close>

lemma set_phase_Some:
  "set_phase h p R i = Some r' \<longleftrightarrow> (\<exists>r. R i = Some r \<and> r' = (if i = h then r\<lparr>rq_phase := p\<rparr> else r))"
  by (auto simp: set_phase_def)

lemma set_phase_buf: "set_phase h p R i = Some q \<Longrightarrow> \<exists>r. R i = Some r \<and> rq_buf q = rq_buf r"
  by (auto simp: set_phase_Some)

lemma descs_ok_phase:
  assumes "\<And>i r'. R' i = Some r' \<longleftrightarrow> (\<exists>r. R i = Some r \<and> r' = g i r)" "\<And>i r. rq_data (g i r) = rq_data r \<and> rq_stat (g i r) = rq_stat r"
    and "descs_ok R f"
  shows "descs_ok R' f"
proof -
  have p: "parts i (g i r) = parts i r" for i r by (simp add: parts_def assms(2))
  have "parts i r \<subseteq> {..<8} \<and> i \<noteq> rq_data r \<and> i \<noteq> rq_stat r \<and> rq_data r \<noteq> rq_stat r" if "R' i = Some r" for i r
  proof -
    from that obtain q where q: "R i = Some q" "r = g i q" unfolding assms(1) by blast
    show ?thesis using descs_okD(1-6) [OF assms(3) q(1)] assms(2) by (auto simp: parts_def q(2))
  qed
  moreover have "parts i r \<inter> parts j q = {}" if "R' i = Some r" "R' j = Some q" "i \<noteq> j" for i r j q
  proof -
    from that(1,2) obtain a b where ab: "R i = Some a" "r = g i a" "R j = Some b" "q = g j b" unfolding assms(1) by blast
    show ?thesis using descs_okD(8) [OF assms(3) ab(1,3) that(3)] p by (simp add: ab(2,4))
  qed
  moreover have "f k \<longleftrightarrow> (\<forall>i r. R' i = Some r \<longrightarrow> k \<notin> parts i r)" if "k < 8" for k
  proof -
    have "(\<forall>i r. R' i = Some r \<longrightarrow> k \<notin> parts i r) \<longleftrightarrow> (\<forall>i r. R i = Some r \<longrightarrow> k \<notin> parts i r)"
      unfolding assms(1) using p by metis
    then show ?thesis using that assms(3) unfolding descs_ok_def by simp
  qed
  ultimately show ?thesis unfolding descs_ok_def by blast
qed

lemma descs_ok_set_phase: "descs_ok R f \<Longrightarrow> descs_ok (set_phase h p R) f"
  by (rule descs_ok_phase [where g = "\<lambda>i r. if i = h then r\<lparr>rq_phase := p\<rparr> else r"]) (auto simp: set_phase_Some)

lemma in_phase_set:
  assumes "R h = Some r" "rq_phase r = q" "p \<noteq> q"
  shows "in_phase (set_phase h p R) x = (if x = p then insert h (in_phase R p) else if x = q then in_phase R q - {h} else in_phase R x)"
proof (rule set_eqI)
  fix j
  show "j \<in> in_phase (set_phase h p R) x \<longleftrightarrow>
      j \<in> (if x = p then insert h (in_phase R p) else if x = q then in_phase R q - {h} else in_phase R x)"
    by (cases "j = h") (use assms in \<open>auto simp: in_phase_def set_phase_def\<close>)
qed

lemma vinv_fetch:
  assumes v: "vinv c" and ne: "vc_taken c \<noteq> avail_idx (vc_st c)" and h: "h = unat (avail_ring (vc_st c) ! (unat (vc_taken c) mod 8))"
  shows "vinv (c\<lparr>vc_taken := vc_taken c + 1, vc_flight := insert h (vc_flight c), vc_reqs := set_phase h Fetched (vc_reqs c)\<rparr>)"
proof -
  note vd = vinvD [OF v]
  have "length (avail_ring (vc_st c)) = 8" using vd(1) by (simp add: sizes_ok_def)
  note g = holds_get [OF vd(5) this ne, folded h]
  obtain r where r: "vc_reqs c h = Some r" "rq_phase r = Queued" using g(1) by (auto simp: in_phase_def)
  note ph = in_phase_set [of "vc_reqs c" h r Queued Fetched, OF r, simplified]
  have "req_ok (vc_st c) i q" if "set_phase h Fetched (vc_reqs c) i = Some q" for i q
  proof -
    obtain q' where q: "vc_reqs c i = Some q'" "q = (if i = h then q'\<lparr>rq_phase := Fetched\<rparr> else q')" using \<open>_ = Some q\<close> unfolding set_phase_Some by blast
    show ?thesis using vd(3) [OF q(1)] q r by (auto simp: req_ok_def)
  qed
  moreover have "rq_buf q \<noteq> rq_buf q'" if "set_phase h Fetched (vc_reqs c) i = Some q" "set_phase h Fetched (vc_reqs c) j = Some q'" "i \<noteq> j" for i j q q'
    using set_phase_buf [OF that(1)] set_phase_buf [OF that(2)] vd(4) [OF _ _ that(3)] by metis
  ultimately show ?thesis using vd(1,6,7) g(2) descs_ok_set_phase [OF vd(2)] unfolding vinv_def by (simp add: ph)
qed


lemma chain_req:
  assumes "req_ok s h r" "rq_data r < 8" "rq_stat r < 8"
  shows "chain s h = Some (rq_buf r, rq_write r, ucast (blockno (bufs s ! rq_buf r) * 2), h)"
  using assms by (simp add: req_ok_def chain_def Let_def unat_of_nat take_bit_nat_eq_self)

lemma block_sector:
  assumes "unat (bno :: uint) < 2 ^ 31"
  shows "even (unat (ucast (bno * 2) :: uint64))" "ucast ((ucast (bno * 2) :: uint64) div 2) = bno"
proof -
  have u: "unat (ucast (bno * 2) :: uint64) = unat bno * 2"
    using assms unat_word32_less [of "bno * 2"] by (simp add: unat_word_ariths take_bit_nat_eq_self unsigned_ucast_eq)
  then show "even (unat (ucast (bno * 2) :: uint64))" by simp
  have "unat ((ucast (bno * 2) :: uint64) div 2) = unat bno" using u by (simp add: unat_div)
  then have "(ucast (bno * 2) :: uint64) div 2 = ucast bno" using unat_word32_less [of bno] by (simp add: word_eq_iff_unat64 unsigned_ucast_eq take_bit_nat_eq_self)
  moreover have "ucast (ucast bno :: uint64) = bno" by (rule bit_word_eqI) (simp add: bit_simps)
  ultimately show "ucast ((ucast (bno * 2) :: uint64) div 2) = bno" by simp
qed

text \<open>What the device does with a chain that it took is the transfer of the request.\<close>

lemma dev_transfer:
  fixes c :: "'z vconf"
  assumes dev: "device_ok dev" and v: "vinv c" and h: "h \<in> vc_flight c"
  obtains r t where "vc_reqs c h = Some r" "rq_phase r = Fetched" "dev h (vc_st c) = Some t" "h < 8"
    "disk t = disk (disk_rw (rq_buf r) (rq_write r) (vc_st c))" "bufs t = bufs (disk_rw (rq_buf r) (rq_write r) (vc_st c))"
    "writes t = writes (disk_rw (rq_buf r) (rq_write r) (vc_st c))"
    "desc t = desc (vc_st c)" "vfree t = vfree (vc_st c)" "vops t = vops (vc_st c)" "buf_disk t = buf_disk (vc_st c)"
    "avail_ring t = avail_ring (vc_st c)" "avail_idx t = avail_idx (vc_st c)" "used_idx t = used_idx (vc_st c)"
    "vinfos t = (vinfos (vc_st c))[h := (vinfos (vc_st c) ! h)\<lparr>vi_status := 0\<rparr>]" "dev_used_idx t = dev_used_idx (vc_st c) + 1"
    "dev_used_ring t = (dev_used_ring (vc_st c))[unat (dev_used_idx (vc_st c)) mod 8 := of_nat h]"
proof -
  let ?s = "vc_st c"
  note vd = vinvD [OF v]
  obtain r where r: "vc_reqs c h = Some r" "rq_phase r = Fetched" using h unfolding vd(6) in_phase_def by blast
  note p = descs_okD(1-3) [OF vd(2) r(1)] and q = vd(3) [OF r(1)]
  let ?b = "rq_buf r" and ?w = "rq_write r" and ?sec = "ucast (blockno (bufs ?s ! rq_buf r) * 2) :: uint64"
  have bs: "even (unat ?sec)" "(ucast (?sec div 2) :: uint) = blockno (bufs ?s ! ?b)" using q by (intro block_sector, simp add: req_ok_def)+
  have d: "dev h ?s = Some (dev_effect h ?b ?w ?sec h ?s)"
    using dev chain_req [OF q p(2,3)] p(1) bs(1) unfolding device_ok_def by blast
  show thesis
    by (rule that [OF r d p(1)]) (simp_all add: dev_effect_def Let_def bs(2) disk_rw_def upd_buf_def)
qed


lemma blockno_upd: "blockno ((xs[b := (xs ! b)\<lparr>bdata := d\<rparr>]) ! k) = blockno (xs ! k)"
  by (cases "b = k"; cases "b < length xs") (simp_all add: list_update_beyond)

lemma blockno_disk_rw: "blockno (bufs (disk_rw b w s) ! k) = blockno (bufs s ! k)"
  by (simp add: disk_rw_def upd_buf_def blockno_upd)

lemma length_disk_rw: "length (bufs (disk_rw b w s)) = length (bufs s)"
  by (simp add: disk_rw_def upd_buf_def)

lemma vinv_complete:
  assumes dev: "device_ok dev" and v: "vinv c" and h: "h \<in> vc_flight c" and d: "dev h (vc_st c) = Some t"
  shows "vinv (c\<lparr>vc_st := t, vc_flight := vc_flight c - {h}, vc_reqs := set_phase h Completed (vc_reqs c)\<rparr>)"
  using dev v h
proof (rule dev_transfer)
  fix r t'
  let ?s = "vc_st c" and ?R = "set_phase h Completed (vc_reqs c)"
  assume r: "vc_reqs c h = Some r" "rq_phase r = Fetched" and t': "dev h ?s = Some t'" and h8: "h < 8"
    and bu: "bufs t' = bufs (disk_rw (rq_buf r) (rq_write r) ?s)"
    and f: "desc t' = desc ?s" "vfree t' = vfree ?s" "vops t' = vops ?s" "buf_disk t' = buf_disk ?s"
      "avail_ring t' = avail_ring ?s" "avail_idx t' = avail_idx ?s" "used_idx t' = used_idx ?s"
    and vi: "vinfos t' = (vinfos ?s)[h := (vinfos ?s ! h)\<lparr>vi_status := 0\<rparr>]"
    and us: "dev_used_idx t' = dev_used_idx ?s + 1" "dev_used_ring t' = (dev_used_ring ?s)[unat (dev_used_idx ?s) mod 8 := of_nat h]"
  note vd = vinvD [OF v]
  have sz: "sizes_ok t'" "length (dev_used_ring ?s) = 8" "length (vinfos ?s) = 8" using vd(1) f(1,3,5) vi us(2) by (simp_all add: sizes_ok_def)
  note ph = in_phase_set [of "vc_reqs c" h r Fetched Completed, OF r, simplified]
  have "req_ok t' i q" if R: "?R i = Some q" for i q
  proof -
    obtain q' where q: "vc_reqs c i = Some q'" "q = (if i = h then q'\<lparr>rq_phase := Completed\<rparr> else q')" using R unfolding set_phase_Some by blast
    show ?thesis using vd(3) [OF q(1)] q(2) h8 sz(3) r q(1)
      by (cases "i = h") (auto simp: req_ok_def bu f vi blockno_disk_rw length_disk_rw)
  qed
  moreover have "rq_buf q \<noteq> rq_buf q'" if "?R i = Some q" "?R j = Some q'" "i \<noteq> j" for i j q q'
    using set_phase_buf [OF that(1)] set_phase_buf [OF that(2)] vd(4) [OF _ _ that(3)] by metis
  moreover have "h \<notin> in_phase (vc_reqs c) Completed" using r by (simp add: in_phase_def)
  from holds_put [OF vd(7) sz(2) in_phase_8 [OF vd(2)] h8 this, of "of_nat h"]
  have "holds (dev_used_ring t') (used_idx t') (dev_used_idx t') (in_phase ?R Completed)"
    using h8 unfolding ph us f(7) by (simp add: unat_of_nat take_bit_nat_eq_self)
  moreover have "holds (avail_ring t') (vc_taken c) (avail_idx t') (in_phase ?R Queued)" using vd(5) unfolding ph f by simp
  ultimately have "vinv ((c\<lparr>vc_flight := vc_flight c - {h}\<rparr>)\<lparr>vc_st := t', vc_reqs := ?R\<rparr>)"
    using sz(1) descs_ok_set_phase [OF vd(2)] vd(6) f(2) ph by (intro vinvI) simp_all
  moreover have "t' = t" using t' d by simp
  moreover have "(c\<lparr>vc_flight := F\<rparr>)\<lparr>vc_st := t, vc_reqs := R\<rparr> = c\<lparr>vc_st := t, vc_flight := F, vc_reqs := R\<rparr>" for F R by (cases c) simp
  ultimately show ?thesis by simp
qed


section \<open>Interrupts\<close>

definition after_intr :: "'z virtst_scheme \<Rightarrow> nat \<Rightarrow> 'z virtst_scheme" where
  "after_intr s b = (wakeup (ChanBuf b) (s\<lparr>buf_disk := (buf_disk s)(b := False)\<rparr>))\<lparr>used_idx := used_idx s + 1\<rparr>"

lemma vinv_intr1:
  fixes c :: "'z vconf"
  assumes v: "vinv c" and ne: "used_idx (vc_st c) \<noteq> dev_used_idx (vc_st c)"
    and h: "h = unat (dev_used_ring (vc_st c) ! (unat (used_idx (vc_st c)) mod 8))"
  obtains r where "vc_reqs c h = Some r" "rq_phase r = Completed" "vi_status (vinfos (vc_st c) ! h) = 0" "vi_b (vinfos (vc_st c) ! h) = Some (rq_buf r)"
    "vinv (c\<lparr>vc_st := after_intr (vc_st c) (rq_buf r), vc_reqs := set_phase h Signalled (vc_reqs c)\<rparr>)"
proof -
  let ?s = "vc_st c" and ?R = "set_phase h Signalled (vc_reqs c)"
  note vd = vinvD [OF v]
  have "length (dev_used_ring ?s) = 8" using vd(1) by (simp add: sizes_ok_def)
  note g = holds_get [OF vd(7) this ne, folded h]
  obtain r where r: "vc_reqs c h = Some r" "rq_phase r = Completed" using g(1) by (auto simp: in_phase_def)
  let ?t = "after_intr ?s (rq_buf r)"
  have f: "desc ?t = desc ?s" "vfree ?t = vfree ?s" "vops ?t = vops ?s" "vinfos ?t = vinfos ?s" "buf_disk ?t = (buf_disk ?s)(rq_buf r := False)"
    "avail_ring ?t = avail_ring ?s" "avail_idx ?t = avail_idx ?s" "used_idx ?t = used_idx ?s + 1" "dev_used_ring ?t = dev_used_ring ?s"
    "dev_used_idx ?t = dev_used_idx ?s" "bufs ?t = bufs ?s"
    by (simp_all add: after_intr_def wakeup_def)
  note ph = in_phase_set [of "vc_reqs c" h r Completed Signalled, OF r, simplified]
  have "req_ok ?t i q" if R: "?R i = Some q" for i q
  proof (cases "i = h")
    case True
    then have "q = r\<lparr>rq_phase := Signalled\<rparr>" using R r(1) by (simp add: set_phase_def)
    then show ?thesis using vd(3) [OF r(1)] r(2) True by (simp add: req_ok_def f)
  next
    case False
    then have q: "vc_reqs c i = Some q" using R by (simp add: set_phase_def)
    show ?thesis using vd(3) [OF q] vd(4) [OF r(1) q] False by (simp add: req_ok_def f)
  qed
  moreover have "rq_buf q \<noteq> rq_buf q'" if "?R i = Some q" "?R j = Some q'" "i \<noteq> j" for i j q q'
    using set_phase_buf [OF that(1)] set_phase_buf [OF that(2)] vd(4) [OF _ _ that(3)] by metis
  moreover have "sizes_ok ?t" "descs_ok ?R (vfree ?t)" using vd(1) descs_ok_set_phase [OF vd(2)] by (simp_all add: sizes_ok_def f)
  ultimately have "vinv (c\<lparr>vc_st := ?t, vc_reqs := ?R\<rparr>)"
    using vd(5,6) g(2) by (intro vinvI) (simp_all add: f ph)
  then show thesis using r vd(3) [OF r(1)] by (intro that [of r]) (simp_all add: req_ok_def)
qed

lemma signal_set: "R h = Some r \<Longrightarrow> rq_phase r = Completed \<Longrightarrow> signal (set_phase h Signalled R) = signal R"
  by (rule ext) (simp add: signal_def set_phase_def)

lemma signal_none: "in_phase R Completed = {} \<Longrightarrow> signal R = R"
  by (rule ext) (auto simp: signal_def in_phase_def option.map_ident_strong split: option.splits intro!: option.map_ident_strong)

lemma intr_loop_spec:
  fixes c :: "'z vconf"
  assumes "vinv c"
  shows "\<exists>t. intr_loop (vc_st c) = Done () t \<and> vinv (c\<lparr>vc_st := t, vc_reqs := signal (vc_reqs c)\<rparr>)"
  using assms
proof (induction "unat (dev_used_idx (vc_st c) - used_idx (vc_st c))" arbitrary: c)
  case 0
  then have e: "used_idx (vc_st c) = dev_used_idx (vc_st c)" by (simp add: unat_eq_0)
  then have "signal (vc_reqs c) = vc_reqs c" using vinvD(7) [OF 0(2)] by (intro signal_none) (simp add: holds_empty)
  then show ?case using 0(2) e by (subst intr_loop.simps) simp
next
  case (Suc n)
  let ?s = "vc_st c" let ?h = "unat (dev_used_ring ?s ! (unat (used_idx ?s) mod 8))"
  have ne: "used_idx ?s \<noteq> dev_used_idx ?s" using Suc.hyps(2) by auto
  obtain r where r: "vc_reqs c ?h = Some r" "rq_phase r = Completed" "vi_status (vinfos ?s ! ?h) = 0" "vi_b (vinfos ?s ! ?h) = Some (rq_buf r)"
    "vinv (c\<lparr>vc_st := after_intr ?s (rq_buf r), vc_reqs := set_phase ?h Signalled (vc_reqs c)\<rparr>)"
    by (rule vinv_intr1 [OF Suc.prems ne refl]) (rule that)
  let ?c = "c\<lparr>vc_st := after_intr ?s (rq_buf r), vc_reqs := set_phase ?h Signalled (vc_reqs c)\<rparr>"
  have "dev_used_idx (vc_st ?c) - used_idx (vc_st ?c) = dev_used_idx ?s - used_idx ?s - 1" by (simp add: after_intr_def wakeup_def)
  then have "n = unat (dev_used_idx (vc_st ?c) - used_idx (vc_st ?c))" using Suc.hyps(2) ne
    by (metis diff_Suc_1 eq_iff_diff_eq_0 unat_minus_one)
  from Suc.hyps(1) [OF this r(5)] obtain t where
    t: "intr_loop (after_intr ?s (rq_buf r)) = Done () t" "vinv (c\<lparr>vc_st := t, vc_reqs := signal (vc_reqs c)\<rparr>)"
    using signal_set [of "vc_reqs c" ?h r, OF r(1,2)] by auto
  have "intr_loop ?s = intr_loop (after_intr ?s (rq_buf r))"
    using ne r(3,4) by (subst intr_loop.simps) (simp add: after_intr_def Let_def)
  then show ?case using t by simp
qed


section \<open>Finishing\<close>

lemma free_chain3:
  fixes s :: "'z virtst_scheme"
  assumes "i < 8" "j < 8" "k < 8" "i \<noteq> j" "i \<noteq> k" "j \<noteq> k" "\<not> vfree s i" "\<not> vfree s j" "\<not> vfree s k"
    and "d_flags (desc s ! i) AND 1 \<noteq> 0" "d_next (desc s ! i) = of_nat j" "d_flags (desc s ! j) AND 1 \<noteq> 0" "d_next (desc s ! j) = of_nat k"
      "d_flags (desc s ! k) AND 1 = 0"
  obtains t where "free_chain i s = Done () t" "vfree t = (vfree s)(i := True, j := True, k := True)" "length (desc t) = length (desc s)"
    "\<And>x. x \<notin> {i, j, k} \<Longrightarrow> desc t ! x = desc s ! x" "vops t = vops s" "vinfos t = vinfos s" "avail_ring t = avail_ring s" "avail_idx t = avail_idx s"
    "used_idx t = used_idx s" "dev_used_ring t = dev_used_ring s" "dev_used_idx t = dev_used_idx s" "buf_disk t = buf_disk s" "bufs t = bufs s"
    "disk t = disk s" "writes t = writes s"
proof -
  let ?z = "\<lparr>d_addr = Null, d_len = 0, d_flags = 0, d_next = 0\<rparr>"
  let ?fr = "\<lambda>x s. wakeup ChanDiskFree (s\<lparr>desc := (desc s)[x := ?z], vfree := (vfree s)(x := True)\<rparr>)"
  let ?s1 = "?fr i s" let ?s2 = "?fr j ?s1" let ?s3 = "?fr k ?s2"
  have u: "unat (of_nat x :: ushort) = x" if "x < 8" for x using that by (simp add: unat_of_nat take_bit_nat_eq_self)
  have "free_chain i s = free_chain j ?s1"
    using assms(1,7,10,11) u [OF assms(2)] by (subst free_chain.simps) (simp add: free_desc_Done)
  also have "\<dots> = free_chain k ?s2"
    using assms(2,4,8,12,13) u [OF assms(3)] by (subst free_chain.simps) (simp add: free_desc_Done)
  also have "\<dots> = Done () ?s3"
    using assms(3,5,6,9,14) by (subst free_chain.simps) (simp add: free_desc_Done)
  finally have "free_chain i s = Done () ?s3" .
  then show thesis by (rule that) simp_all
qed

lemma descs_ok_del:
  assumes "descs_ok R f" "R i = Some r"
  shows "descs_ok (R(i := None)) (\<lambda>k. f k \<or> k \<in> parts i r)"
proof -
  have "parts j q \<subseteq> {..<8} \<and> j \<noteq> rq_data q \<and> j \<noteq> rq_stat q \<and> rq_data q \<noteq> rq_stat q" if "(R(i := None)) j = Some q" for j q
    using that assms(1) unfolding descs_ok_def by (simp split: if_splits)
  moreover have "parts j q \<inter> parts j' q' = {}" if "(R(i := None)) j = Some q" "(R(i := None)) j' = Some q'" "j \<noteq> j'" for j q j' q'
    using that descs_okD(8) [OF assms(1), of j q j' q'] by (simp split: if_splits)
  moreover have "(f k \<or> k \<in> parts i r) \<longleftrightarrow> (\<forall>j q. (R(i := None)) j = Some q \<longrightarrow> k \<notin> parts j q)" if k: "k < 8" for k
  proof -
    have "f k \<longleftrightarrow> (\<forall>j q. R j = Some q \<longrightarrow> k \<notin> parts j q)" using assms(1) k unfolding descs_ok_def by blast
    moreover have "k \<notin> parts j q" if "R j = Some q" "j \<noteq> i" "k \<in> parts i r" for j q
      using descs_okD(8) [OF assms(1,2) that(1)] that(2,3) by auto
    ultimately show ?thesis using assms(2) by (metis fun_upd_apply option.distinct(1) option.sel)
  qed
  ultimately show ?thesis unfolding descs_ok_def by blast
qed

lemma disk_finish_spec:
  fixes c :: "'z vconf"
  assumes v: "vinv c" and r: "vc_reqs c i = Some r"
  shows "rq_phase r = Signalled \<Longrightarrow> \<exists>t. disk_finish (rq_buf r) i (vc_st c) = Done () t \<and> vinv (c\<lparr>vc_st := t, vc_reqs := (vc_reqs c)(i := None)\<rparr>)"
    and "rq_phase r \<noteq> Signalled \<Longrightarrow> \<exists>t. disk_finish (rq_buf r) i (vc_st c) = Sleep (ChanBuf (rq_buf r)) t \<and> vinv (c\<lparr>vc_st := t\<rparr>)"
proof -
  let ?s = "vc_st c"
  note vd = vinvD [OF v]
  note q = vd(3) [OF r] and p = descs_okD [OF vd(2) r]
  {
    assume s: "rq_phase r = Signalled"
    let ?s1 = "?s\<lparr>vinfos := (vinfos ?s)[i := (vinfos ?s ! i)\<lparr>vi_b := None\<rparr>]\<rparr>"
    have "\<not> vfree ?s1 i" "\<not> vfree ?s1 (rq_data r)" "\<not> vfree ?s1 (rq_stat r)" using p(7) by (simp_all add: parts_def)
    moreover have "d_flags (desc ?s1 ! i) AND 1 \<noteq> 0" "d_next (desc ?s1 ! i) = of_nat (rq_data r)" "d_flags (desc ?s1 ! rq_data r) AND 1 \<noteq> 0"
      "d_next (desc ?s1 ! rq_data r) = of_nat (rq_stat r)" "d_flags (desc ?s1 ! rq_stat r) AND 1 = 0"
      using q by (simp_all add: req_ok_def)
    ultimately obtain t where t: "free_chain i ?s1 = Done () t" "vfree t = (vfree ?s1)(i := True, rq_data r := True, rq_stat r := True)" "length (desc t) = length (desc ?s1)"
      "\<And>x. x \<notin> {i, rq_data r, rq_stat r} \<Longrightarrow> desc t ! x = desc ?s1 ! x" "vops t = vops ?s1" "vinfos t = vinfos ?s1" "avail_ring t = avail_ring ?s1"
      "avail_idx t = avail_idx ?s1" "used_idx t = used_idx ?s1" "dev_used_ring t = dev_used_ring ?s1" "dev_used_idx t = dev_used_idx ?s1"
      "buf_disk t = buf_disk ?s1" "bufs t = bufs ?s1"
      by (rule free_chain3 [OF p(1-6)]) (rule that)
    let ?R = "(vc_reqs c)(i := None)"
    have ph: "in_phase ?R x = in_phase (vc_reqs c) x" if "x \<noteq> Signalled" for x using that s r by (auto simp: in_phase_def)
    have "vfree t = (\<lambda>k. vfree ?s k \<or> k \<in> parts i r)" using t(2) by (auto simp: parts_def fun_eq_iff)
    then have "descs_ok ?R (vfree t)" using descs_ok_del [OF vd(2) r] by simp
    moreover have "req_ok t j q" if "?R j = Some q" for j q
    proof -
      have j: "j \<noteq> i" "vc_reqs c j = Some q" using that by (auto split: if_splits)
      have "desc t ! x = desc ?s ! x" if "x \<in> parts j q" for x
        using t(4) [of x] p(8) [OF j(2)] j(1) that by (auto simp: parts_def)
      then show ?thesis using vd(3) [OF j(2)] j(1) t(5,6,12,13) by (simp add: req_ok_def parts_def)
    qed
    moreover have "rq_buf q \<noteq> rq_buf q'" if "?R j = Some q" "?R j' = Some q'" "j \<noteq> j'" for j j' q q'
      using that vd(4) [of j q j' q'] by (simp split: if_splits)
    moreover have "sizes_ok t" using vd(1) t(3,5,6,7,10) by (simp add: sizes_ok_def)
    ultimately have "vinv (c\<lparr>vc_st := t, vc_reqs := ?R\<rparr>)"
      using vd(5-7) t(7-11) by (intro vinvI) (simp_all add: ph)
    moreover have "disk_finish (rq_buf r) i ?s = Done () t" using q s t(1) by (simp add: disk_finish_def req_ok_def)
    ultimately show "\<exists>t. disk_finish (rq_buf r) i ?s = Done () t \<and> vinv (c\<lparr>vc_st := t, vc_reqs := ?R\<rparr>)" by blast
  next
    assume "rq_phase r \<noteq> Signalled"
    then have "disk_finish (rq_buf r) i ?s = ksleep (ChanBuf (rq_buf r)) ?s" using q by (simp add: disk_finish_def req_ok_def)
    then show "\<exists>t. disk_finish (rq_buf r) i ?s = Sleep (ChanBuf (rq_buf r)) t \<and> vinv (c\<lparr>vc_st := t\<rparr>)"
      using vinv_keep [OF v, of "upd_proc (curproc ?s) (\<lambda>p. p\<lparr>pchan := Some (ChanBuf (rq_buf r)), pstate := SLEEPING\<rparr>) ?s"]
      by (simp add: ksleep_def same_but_free_def upd_proc_def)
  }
qed


section \<open>Safety\<close>

text \<open>
  What holds in every state of the protocol: the interrupt handler returns; submitting a request does not panic; what the device does with a chain that it
  took is the transfer of a request that is not completed yet; a process finishes a request exactly when the driver
  was told that it is completed, and sleeps before; and every descriptor in use belongs to a request.
\<close>

definition vsafe :: "(nat \<Rightarrow> 'z virtst_scheme \<Rightarrow> 'z virtst_scheme option) \<Rightarrow> ((nat \<times> uint) list \<Rightarrow> nat \<Rightarrow> uint) \<Rightarrow> 'z vconf \<Rightarrow> bool" where
  "vsafe dev regs c \<longleftrightarrow>
     (\<exists>t. virtio_disk_intr regs (vc_st c) = Done () t) \<and> (\<forall>b w m. disk_submit b w (vc_st c) \<noteq> Panic m) \<and>
     (\<forall>h\<in>vc_flight c. \<exists>r t. vc_reqs c h = Some r \<and> rq_phase r = Fetched \<and> dev h (vc_st c) = Some t \<and>
        disk t = disk (disk_rw (rq_buf r) (rq_write r) (vc_st c)) \<and> bufs t = bufs (disk_rw (rq_buf r) (rq_write r) (vc_st c)) \<and>
        writes t = writes (disk_rw (rq_buf r) (rq_write r) (vc_st c))) \<and>
     (\<forall>i r. vc_reqs c i = Some r \<longrightarrow>
        (if rq_phase r = Signalled then \<exists>t. disk_finish (rq_buf r) i (vc_st c) = Done () t
         else \<exists>t. disk_finish (rq_buf r) i (vc_st c) = Sleep (ChanBuf (rq_buf r)) t)) \<and>
     (\<forall>k<NUM. vfree (vc_st c) k \<longleftrightarrow> (\<forall>i r. vc_reqs c i = Some r \<longrightarrow> k \<notin> parts i r))"

lemma R_write_virt [simp]:
  "desc (R_write r v s) = desc s" "vfree (R_write r v s) = vfree s" "avail_idx (R_write r v s) = avail_idx s" "avail_ring (R_write r v s) = avail_ring s"
  "used_idx (R_write r v s) = used_idx s" "dev_used_idx (R_write r v s) = dev_used_idx s" "dev_used_ring (R_write r v s) = dev_used_ring s"
  "vinfos (R_write r v s) = vinfos s" "vops (R_write r v s) = vops s" "buf_disk (R_write r v s) = buf_disk s" "bufs (R_write r v s) = bufs s"
  "disk (R_write r v s) = disk s"
  by (simp_all add: R_write_def)

lemma vinv_ack: "vinv c \<Longrightarrow> vinv (c\<lparr>vc_st := R_write r v (vc_st c)\<rparr>)"
  by (erule vinv_keep) (simp_all add: same_but_free_def)

lemma intr_spec:
  fixes c :: "'z vconf"
  assumes "vinv c"
  shows "\<exists>t. virtio_disk_intr regs (vc_st c) = Done () t \<and> vinv (c\<lparr>vc_st := t, vc_reqs := signal (vc_reqs c)\<rparr>)"
  using intr_loop_spec [OF vinv_ack [OF assms, of "0x64" "regs (mmio (vc_st c)) 0x60 AND 3"]] by (simp add: virtio_disk_intr_def)

lemma vinv_safe:
  fixes c :: "'z vconf"
  assumes dev: "device_ok dev" and v: "vinv c"
  shows "vsafe dev regs c"
proof -
  note vd = vinvD [OF v]
  have "\<exists>t. virtio_disk_intr regs (vc_st c) = Done () t" using intr_spec [OF v] by blast
  moreover have "disk_submit b w (vc_st c) \<noteq> Panic m" for b w m
    by (rule disk_submit_cases [of "vc_st c" b w]) (use vd(1) in \<open>simp_all add: sizes_ok_def\<close>)
  moreover have "\<exists>r t. vc_reqs c h = Some r \<and> rq_phase r = Fetched \<and> dev h (vc_st c) = Some t \<and>
        disk t = disk (disk_rw (rq_buf r) (rq_write r) (vc_st c)) \<and> bufs t = bufs (disk_rw (rq_buf r) (rq_write r) (vc_st c)) \<and>
        writes t = writes (disk_rw (rq_buf r) (rq_write r) (vc_st c))" if "h \<in> vc_flight c" for h
    by (rule dev_transfer [OF dev v that]) (intro exI conjI)
  moreover have "if rq_phase r = Signalled then \<exists>t. disk_finish (rq_buf r) i (vc_st c) = Done () t
         else \<exists>t. disk_finish (rq_buf r) i (vc_st c) = Sleep (ChanBuf (rq_buf r)) t" if "vc_reqs c i = Some r" for i r
    using disk_finish_spec [OF v that] by auto
  moreover have "\<forall>k<8. vfree (vc_st c) k \<longleftrightarrow> (\<forall>i r. vc_reqs c i = Some r \<longrightarrow> k \<notin> parts i r)" using vd(2) by (simp add: descs_ok_def)
  ultimately show ?thesis unfolding vsafe_def by blast
qed

lemma vinv_step:
  assumes dev: "device_ok dev"
  shows "vstep dev regs c c' \<Longrightarrow> vinv c \<Longrightarrow> vinv c'"
proof (induction rule: vstep.induct)
  case (submit b w c i t j)
  then show ?case by (intro vinv_submit)
next
  case (submit_wait b w c ch t)
  have "length (vinfos (vc_st c)) = 8" using vinvD(1) [OF submit_wait(2)] by (simp add: sizes_ok_def)
  then have "same_but_free (vc_st c) t \<and> bufs t = bufs (vc_st c)"
    by (rule disk_submit_cases [of "vc_st c" b w]) (use submit_wait(1) in simp_all)
  then show ?case using submit_wait(2) by (intro vinv_keep) simp_all
next
  case (fetch c h)
  then show ?case by (intro vinv_fetch)
next
  case (complete h c t)
  then show ?case by (intro vinv_complete [OF dev])
next
  case (intr c t)
  then show ?case using intr_spec [OF intr(2), of regs] by auto
next
  case (finish c i r t)
  then show ?case using disk_finish_spec [OF finish(3,1)] by (cases "rq_phase r = Signalled") auto
next
  case (finish_wait c i r ch t)
  then show ?case using disk_finish_spec [OF finish_wait(3,1)] by (cases "rq_phase r = Signalled") auto
next
  case (other c t)
  then show ?case by (intro vinv_keep same_driver_but_free)
qed


section \<open>Initialisation\<close>

definition vstart :: "'z virtst_scheme \<Rightarrow> 'z vconf" where
  "vstart s = \<lparr>vc_st = s, vc_taken = 0, vc_flight = {}, vc_reqs = Map.empty\<rparr>"

lemma kalloc_virt:
  fixes s :: "'z virtst_scheme"
  assumes "kalloc s = Done p t"
  shows "used_idx t = used_idx s \<and> vops t = vops s \<and> vinfos t = vinfos s"
  using assms by (auto simp: kalloc_def Let_def split: if_splits)

lemma vinv_start:
  assumes "sizes_ok s" "\<And>k. k < 8 \<Longrightarrow> vfree s k" "avail_idx s = 0" "used_idx s = 0" "dev_used_idx s = 0"
  shows "vinv (vstart s)"
  using assms by (simp add: vinv_def vstart_def descs_ok_def in_phase_def holds_empty)

lemma virtio_disk_init_spec:
  fixes s :: "'z virtst_scheme"
  assumes "virtio_disk_init regs s = Done () t" "used_idx s = 0" "length (vops s) = NUM" "length (vinfos s) = NUM"
  shows "vinv (vstart t)"
proof -
  have "used_idx t = used_idx s \<and> vops t = vops s \<and> vinfos t = vinfos s \<and> (\<forall>k<8. vfree t k) \<and>
      length (desc t) = 8 \<and> avail_idx t = 0 \<and> length (avail_ring t) = 8 \<and> dev_used_idx t = 0 \<and> length (dev_used_ring t) = 8"
    using assms(1) unfolding virtio_disk_init_def Let_def
    by (simp only: outcome_simps) (auto simp: zero_page_def dest!: kalloc_virt split: if_splits)
  then show ?thesis using assms(2-4) by (intro vinv_start) (simp_all add: sizes_ok_def)
qed


section \<open>Property\<close>

text \<open>
  C12. After \<^verbatim>\<open>virtio_disk_init\<close>, and after any interleaving of processes that submit and finish requests for different buffers, of the device, which takes
  and completes requests in any order, and of interrupts: the driver does not panic; what the device does is exactly the transfer of a block
  between buffer and disk that was asked for, once for each request; a process gets past the wait for its request only when the
  transfer is done; and no descriptor is lost or used twice.
\<close>

theorem disk_protocol_safe:
  assumes "device_ok dev" "virtio_disk_init regs s = Done () t" "used_idx s = 0" "length (vops s) = NUM" "length (vinfos s) = NUM"
    and "(vstep dev regs)\<^sup>*\<^sup>* (vstart t) c"
  shows "vsafe dev regs c"
proof -
  from assms(6) have "vinv c"
    by (induction rule: rtranclp_induct) (use virtio_disk_init_spec [OF assms(2-5)] vinv_step [OF assms(1)] in auto)
  then show ?thesis by (rule vinv_safe [OF assms(1)])
qed

section \<open>Witness\<close>

text \<open>A device that answers the requests of the driver, with the registers that \<^verbatim>\<open>virtio_disk_init\<close> expects.\<close>

definition example_dev :: "nat \<Rightarrow> 'z virtst_scheme \<Rightarrow> 'z virtst_scheme option" where
  "example_dev h s = (case chain s h of Some (b, w, sector, j) \<Rightarrow> Some (dev_effect h b w sector j s) | None \<Rightarrow> None)"

definition example_regs :: "(nat \<times> uint) list \<Rightarrow> nat \<Rightarrow> uint" where
  "example_regs ws r = (if r = 0 then 0x74726976 else if r = 4 then 2 else if r = 8 then 2 else if r = 0xc then 0x554d4551
     else if r = 0x34 then 8 else if r = 0x70 then 11 else 0)"

definition virt_on :: "kmem \<Rightarrow> virtst" where
  "virt_on s = filest.extend (conss.extend (cons_on (uart_on (pipe_on 0 example_pipe s))) (filest.fields []))
     (virtst.fields [] (\<lambda>_. False) 0 [] 0 0 [] (replicate NUM \<lparr>vi_b = None, vi_status = 0\<rparr>)
       (replicate NUM \<lparr>req_type = 0, req_sector = 0\<rparr>) (\<lambda>_. False) [])"

lemma virt_on_simps [simp]:
  "mem (virt_on s) = mem s" "kend (virt_on s) = kend s" "freelist (virt_on s) = freelist s" "used_idx (virt_on s) = 0"
  "vops (virt_on s) = replicate NUM \<lparr>req_type = 0, req_sector = 0\<rparr>" "vinfos (virt_on s) = replicate NUM \<lparr>vi_b = None, vi_status = 0\<rparr>"
  "bufs (virt_on s) = replicate 31 zero_buf" "mmio (virt_on s) = []"
  by (simp_all add: virt_on_def filest.defs conss.defs virtst.defs cons_on_def uart_on_def uartst.defs pipest.defs
      pipe_on_def fsst.defs fs_on_def logst.defs log_on_def bio.defs bio_on_def kproc.defs)

lemma virt_on_pool: "kmem_pool (virt_on example_state) [0x80021000, 0x80022000, 0x80023000]"
  using example_kmem_pool by (simp add: kmem_pool_def phys_page_def)


lemma kalloc_step:
  fixes s :: "'z virtst_scheme"
  assumes "kmem_pool s (p # fl)"
  obtains t where "kalloc s = Done p t" "kmem_pool t fl" "bufs t = bufs s" "mmio t = mmio s" "p \<noteq> 0"
proof -
  let ?t = "s\<lparr>mem := memset (mem s) p 5 4096, freelist := load64 (mem s) p\<rparr>"
  have k: "kalloc s = Done p ?t" by (rule kalloc_Cons [OF assms])
  have "p \<noteq> 0" using assms by (auto simp: kmem_pool_def phys_page_def word_less_nat_alt)
  then show thesis using that [OF k kalloc_pool(1) [OF assms k]] by simp
qed

lemma example_init:
  obtains t where "virtio_disk_init example_regs (virt_on example_state) = Done () t" "bufs t = replicate 31 zero_buf"
    "\<And>k. k < 8 \<Longrightarrow> vfree t k" "avail_idx t = 0" "length (vinfos t) = 8"
proof -
  let ?s0 = "R_write 0x30 0 (R_write 0x70 11 (R_write 0x20 0 (R_write 0x70 3 (R_write 0x70 1 (R_write 0x70 0 (virt_on example_state))))))"
  have "kmem_pool ?s0 [0x80021000, 0x80022000, 0x80023000]" using virt_on_pool by (simp add: kmem_pool_def phys_page_def R_write_def)
  then obtain s1 where s1: "kalloc ?s0 = Done 0x80021000 s1" "kmem_pool s1 [0x80022000, 0x80023000]" "bufs s1 = bufs ?s0" "mmio s1 = mmio ?s0"
    by (rule kalloc_step)
  from s1(2) obtain s2 where s2: "kalloc s1 = Done 0x80022000 s2" "kmem_pool s2 [0x80023000]" "bufs s2 = bufs s1" "mmio s2 = mmio s1"
    by (rule kalloc_step)
  from s2(2) obtain s3 where s3: "kalloc s2 = Done 0x80023000 s3" "bufs s3 = bufs s2" "mmio s3 = mmio s2" by (rule kalloc_step)
  have "\<exists>t. virtio_disk_init example_regs (virt_on example_state) = Done () t \<and> bufs t = bufs s3 \<and> avail_idx t = 0"
    using s1(1) s2(1) s3(1) by (simp add: virtio_disk_init_def example_regs_def driver_features_def zero_page_def)
  then obtain t where t: "virtio_disk_init example_regs (virt_on example_state) = Done () t" "bufs t = bufs s3" "avail_idx t = 0" by blast
  have "vinv (vstart t)" by (rule virtio_disk_init_spec [OF t(1)]) simp_all
  then show thesis using t s1(3) s2(3) s3(2) by (intro that [of t]) (auto simp: vinv_def vstart_def descs_ok_def sizes_ok_def)
qed

lemma find_free8: "f 0 \<Longrightarrow> find_free f 0 8 = Some 0" "\<not> f 0 \<Longrightarrow> f 1 \<Longrightarrow> find_free f 0 8 = Some 1"
  "\<not> f 0 \<Longrightarrow> \<not> f 1 \<Longrightarrow> f 2 \<Longrightarrow> find_free f 0 8 = Some 2"
  by (simp_all add: eval_nat_numeral)

lemma example_submit:
  fixes t :: virtst
  assumes "\<And>k. k < 8 \<Longrightarrow> vfree t k" "length (vinfos t) = 8"
  obtains u where "disk_submit b w t = Done 0 u" "avail_idx u = avail_idx t + 1"
proof -
  have "alloc_desc t = (Some 0, t\<lparr>vfree := (vfree t)(0 := False)\<rparr>)"
    "alloc_desc (t\<lparr>vfree := (vfree t)(0 := False)\<rparr>) = (Some 1, t\<lparr>vfree := (vfree t)(0 := False, 1 := False)\<rparr>)"
    "alloc_desc (t\<lparr>vfree := (vfree t)(0 := False, 1 := False)\<rparr>) = (Some 2, t\<lparr>vfree := (vfree t)(0 := False, 1 := False, 2 := False)\<rparr>)"
    using assms(1) by (simp_all add: alloc_desc_def find_free8)
  then have "alloc3_desc t = Done (Some (0, 1, 2)) (t\<lparr>vfree := (vfree t)(0 := False, 1 := False, 2 := False)\<rparr>)"
    by (simp add: alloc3_desc_def)
  then have "\<exists>u. disk_submit b w t = Done 0 u \<and> avail_idx u = avail_idx t + 1" by (simp add: disk_submit_def)
  then show thesis using that by blast
qed

text \<open>In a run from boot the device takes a request to write buffer 0.\<close>

theorem disk_protocol_safe_witness:
  "\<exists>t c. virtio_disk_init example_regs (virt_on example_state) = Done () t \<and> vc_flight c \<noteq> {} \<and>
    (vstep example_dev example_regs)\<^sup>*\<^sup>* (vstart t) c \<and> vsafe example_dev example_regs c"
proof -
  obtain t where t: "virtio_disk_init example_regs (virt_on example_state) = Done () t" "bufs t = replicate 31 zero_buf"
    "\<And>k. k < 8 \<Longrightarrow> vfree t k" "avail_idx t = 0" "length (vinfos t) = 8" by (rule example_init) (rule that)
  obtain u where u: "disk_submit 0 True t = Done 0 u" "avail_idx u = avail_idx t + 1" by (rule example_submit [of t 0 True]) (use t(3,5) that in auto)
  let ?c = "vstart t"
  let ?j = "unat (d_next (desc u ! 0))"
  let ?c1 = "?c\<lparr>vc_st := u, vc_reqs := (vc_reqs ?c)(0 \<mapsto>
    \<lparr>rq_buf = 0, rq_write = True, rq_data = ?j, rq_stat = unat (d_next (desc u ! ?j)), rq_phase = Queued\<rparr>)\<rparr>"
  let ?h = "unat (avail_ring (vc_st ?c1) ! (unat (vc_taken ?c1) mod 8))"
  let ?c2 = "?c1\<lparr>vc_taken := vc_taken ?c1 + 1, vc_flight := insert ?h (vc_flight ?c1), vc_reqs := set_phase ?h Fetched (vc_reqs ?c1)\<rparr>"
  have "vstep example_dev example_regs ?c ?c1"
    by (rule vstep.submit) (use u(1) t(2) in \<open>simp_all add: vstart_def zero_buf_def\<close>)
  moreover have "vstep example_dev example_regs ?c1 ?c2"
    by (rule vstep.fetch) (use u(2) t(4) in \<open>simp_all add: vstart_def\<close>)
  ultimately have r: "(vstep example_dev example_regs)\<^sup>*\<^sup>* ?c ?c2" by simp
  have "device_ok example_dev" by (simp add: device_ok_def example_dev_def)
  from disk_protocol_safe [OF this t(1) _ _ _ r] have "vsafe example_dev example_regs ?c2" by simp
  moreover have "vc_flight ?c2 \<noteq> {}" by simp
  ultimately show ?thesis using t(1) r by blast
qed

end
