(* ===== verification/Spec2Isabelle.thy ===== *)
theory Spec2Isabelle
  imports Boot Spinlock Unmap FsWrite Asm Grep Umalloc Sh Mkfs Programs Usys Fork DiskProtocol
begin

text \<open>
  This library models the xv6 kernel for RISC-V of this repository, in the version of the page-table lab with superpages, the tool that
  makes its disk image, and its user programs, and proves what makes them correct.

  \<^bold>\<open>The program and how its parts interact.\<close> At the bottom are physical memory and the devices. \<^verbatim>\<open>kalloc.c\<close> hands out pages and
  superpages; \<^verbatim>\<open>vm.c\<close> builds page tables from them and copies between kernel and user memory. \<^verbatim>\<open>proc.c\<close> keeps the process table, on which
  every routine that sleeps or wakes relies. The file system is a stack: \<^verbatim>\<open>virtio_disk.c\<close> moves blocks, \<^verbatim>\<open>bio.c\<close> caches them, \<^verbatim>\<open>log.c\<close>
  makes groups of writes atomic, \<^verbatim>\<open>fs.c\<close> keeps blocks, inodes, directories and paths, \<^verbatim>\<open>file.c\<close> and \<^verbatim>\<open>pipe.c\<close> give them to processes as
  descriptors. \<^verbatim>\<open>console.c\<close>, \<^verbatim>\<open>uart.c\<close> and \<^verbatim>\<open>printf.c\<close> are the terminal. \<^verbatim>\<open>trampoline.S\<close> and \<^verbatim>\<open>trap.c\<close> bring a process into the kernel,
  \<^verbatim>\<open>syscall.c\<close> dispatches to \<^verbatim>\<open>sysproc.c\<close>, \<^verbatim>\<open>sysfile.c\<close> and \<^verbatim>\<open>exec.c\<close>; \<^verbatim>\<open>swtch.S\<close> switches between processes. \<^verbatim>\<open>mkfs.c\<close> writes the
  first file system, \<^verbatim>\<open>user/*.c\<close> are the programs on it.

  \<^bold>\<open>State and effects.\<close> A kernel routine is a function from the state it works on to an \<open>outcome\<close> (theory \<open>Prelude\<close>): \<open>Done\<close> with a result
  and a state, \<open>Panic\<close> with the message, or \<open>Sleep\<close> with the channel and the state in which the process sleeps; the run
  after the wakeup is a new call of the loop that slept. The state is one record that grows from theory to theory by record extension, each
  component adding its variables: \<open>kmem\<close> (memory and the allocators), \<open>vm\<close>, \<open>kproc\<close>, \<open>bio\<close>, \<open>logst\<close>, \<open>fsst\<close>, \<open>pipest\<close>, \<open>uartst\<close>, \<open>conss\<close>, \<open>filest\<close>,
  \<open>virtst\<close>, \<open>trapst\<close>, \<open>bootst\<close>. Every routine is polymorphic in the components above its own, so that a routine of a lower layer is called
  by a higher one unchanged. Machine integers have the width of the C types: \<open>uint64\<close> and 32-bit words where wrap-around can be seen.
  A section of code under one spinlock is a single step; theory \<open>Spinlock\<close> justifies this for the locks themselves.

  \<^bold>\<open>The theories.\<close>

  \<^item> \<open>Prelude\<close>, \<open>Machine\<close>, \<open>Bytes\<close>: types and outcomes; the macros of \<^verbatim>\<open>riscv.h\<close>, \<^verbatim>\<open>memlayout.h\<close> and \<^verbatim>\<open>param.h\<close>; loads and stores; the
    little-endian layout of on-disk structures.

  \<^item> \<open>CString\<close> (\<^verbatim>\<open>string.c\<close>): every routine as its loop, with closed forms.

  \<^item> \<open>Kalloc\<close> (\<^verbatim>\<open>kalloc.c\<close>): both allocators; each is an instance of the locale \<open>page_pool\<close>, the contract of an allocator.

  \<^item> \<open>Vm\<close> (\<^verbatim>\<open>vm.c\<close>) has the definitions; \<open>PageTable\<close> the invariant \<open>pt_state\<close> and the abstraction \<open>lookup\<close> from addresses to
    entries; \<open>Mapping_Vm\<close>, \<open>Unmap\<close>, \<open>Copy\<close> and \<open>Fork\<close> the effect of \<^verbatim>\<open>mappages\<close>, \<^verbatim>\<open>uvmunmap\<close> (on pages and superpages), \<^verbatim>\<open>copyin\<close>, \<^verbatim>\<open>copyout\<close> and \<^verbatim>\<open>uvmcopy\<close> on it.

  \<^item> \<open>ProcState\<close> and \<open>Proc\<close> (\<^verbatim>\<open>proc.c\<close>, \<^verbatim>\<open>proc.h\<close>): the process table, sleep and wakeup, fork, exit, wait and the scheduler with its fairness.

  \<^item> \<open>Spinlock\<close> (\<^verbatim>\<open>spinlock.c\<close>): one hart as functions, all harts as a step relation with mutual exclusion as its invariant. Sleep
    locks (\<^verbatim>\<open>sleeplock.c\<close>) are in \<open>Bio\<close> and \<open>Fs\<close>, where they are used.

  \<^item> \<open>Bio\<close>, \<open>Cache\<close> (\<^verbatim>\<open>bio.c\<close>): the list of buffers as indices, what readers see, and the buffers held and pinned by a client.
    \<open>Log\<close>, \<open>Transact\<close> (\<^verbatim>\<open>log.c\<close>): the log with the history of disk writes, crash safety, and the interface of a transaction.
    \<open>Fs\<close> (\<^verbatim>\<open>fs.c\<close>) has the definitions, \<open>FsBlocks\<close>, \<open>FsDest\<close>, \<open>FsInodes\<close> and \<open>FsWrite\<close> the lemmas on the block allocator, on the
    user and kernel memory that files are read into and written from, on inodes, files and directories, and on writing files.

  \<^item> \<open>Ring\<close>: the locale \<open>fifo\<close> of bounded queues, with instances in \<open>Pipe\<close> (\<^verbatim>\<open>pipe.c\<close>), \<open>Uart\<close> (\<^verbatim>\<open>uart.c\<close>) and \<open>Console\<close>
    (\<^verbatim>\<open>console.c\<close>). \<open>Printf\<close> (\<^verbatim>\<open>printf.c\<close>): formatting.

  \<^item> \<open>File\<close>, \<open>Exec\<close>, \<open>Sysfile\<close>, \<open>Syscall\<close>, \<open>Virtio\<close>, \<open>Trap\<close>, \<open>Boot\<close> (\<^verbatim>\<open>file.c\<close>, \<^verbatim>\<open>exec.c\<close>, \<^verbatim>\<open>sysfile.c\<close>, \<^verbatim>\<open>syscall.c\<close>, \<^verbatim>\<open>sysproc.c\<close>,
    \<^verbatim>\<open>virtio_disk.c\<close>, \<^verbatim>\<open>trap.c\<close>, \<^verbatim>\<open>plic.c\<close>, \<^verbatim>\<open>start.c\<close>, \<^verbatim>\<open>main.c\<close>): definitions of every routine, on which no properties rest yet
    beyond those of the routines they call.

  \<^item> \<open>DiskProtocol\<close>: the driver of \<open>Virtio\<close>, the device and interrupts as a step relation; its invariant justifies that \<open>Bio\<close> takes
    \<^verbatim>\<open>virtio_disk_rw\<close> for one transfer of a block.

  \<^item> \<open>Asm\<close> (\<^verbatim>\<open>trampoline.S\<close>, \<^verbatim>\<open>swtch.S\<close>, \<^verbatim>\<open>kernelvec.S\<close>, \<^verbatim>\<open>entry.S\<close>) and \<open>Usys\<close> (\<^verbatim>\<open>usys.S\<close>, \<^verbatim>\<open>initcode.S\<close>): lists of instructions executed on registers and memory.

  \<^item> \<open>Mkfs\<close> (\<^verbatim>\<open>mkfs.c\<close>): the image as a function of the files, and that the kernel's view of it holds these files.

  \<^item> \<open>Ulib\<close> (\<^verbatim>\<open>ulib.c\<close>, \<^verbatim>\<open>user/printf.c\<close>), \<open>Umalloc\<close>, \<open>Grep\<close>, \<open>Sh\<close> and \<open>Programs\<close> (\<^verbatim>\<open>cat.c\<close>, \<^verbatim>\<open>wc.c\<close>, \<^verbatim>\<open>echo.c\<close>, \<^verbatim>\<open>rm.c\<close>, \<^verbatim>\<open>mkdir.c\<close>, \<^verbatim>\<open>ln.c\<close>, \<^verbatim>\<open>kill.c\<close>,
    \<^verbatim>\<open>ls.c\<close>, \<^verbatim>\<open>init.c\<close>, \<^verbatim>\<open>zombie.c\<close> and the main loop of the shell): user programs over system calls given as parameters.
\<close>

text \<open>
  \<^bold>\<open>What the properties show.\<close> Memory: the allocators give out every page once; page-table routines change exactly the
  translations they are asked to change, keep the invariant, and undo or report what they cannot finish; copies move exactly the bytes that
  the page table locates; \<^verbatim>\<open>fork\<close> gives the child equal pages of its own and loses none. Storage: readers of the
  cache see what was last written; a commit is atomic under a crash at any disk write; the block allocator, inodes, files and
  directories do what their descriptions in terms of block contents say, a write changes its bytes and touches no block of another file, and \<^verbatim>\<open>mkfs\<close> makes an image that satisfies these descriptions.
  Concurrency: spinlocks exclude, the disk driver and the device carry out every request once, the scheduler is fair, pipes and console refine queues of bytes and lines. Control: trap entry and exit, kernel
  interrupts and context switches restore the registers. User programs: \<^verbatim>\<open>printf\<close>, \<^verbatim>\<open>grep\<close>, \<^verbatim>\<open>wc\<close>, \<^verbatim>\<open>malloc\<close> and the shell's parser and
  pipelines meet specifications that do not mention their code. Where the code does not do what it means to, a theorem says so: a superpage
  below which \<^verbatim>\<open>copyin\<close> finds no page, a stale table under a superpage, a log one block smaller than its reservations, an overrun of
  the buffer of \<^verbatim>\<open>printint\<close>, a \<^verbatim>\<open>malloc\<close> that wraps, long lines in \<^verbatim>\<open>grep\<close>, a hole in the root directory that \<^verbatim>\<open>mkfs\<close> makes.

  \<^bold>\<open>Termination, bounds and fuel.\<close> Loops are total functions with a measure where C bounds them: page-table loops end because
  \<^verbatim>\<open>walk\<close> panics at \<open>MAXVA\<close>, so that the distance to it decreases. Loops that only the data ends are partial functions, whose value \<open>None\<close> is
  a run without end (\<^verbatim>\<open>strlen\<close>, \<^verbatim>\<open>strcmp\<close>, \<^verbatim>\<open>strcpy\<close>, the loops of \<^verbatim>\<open>malloc\<close> and \<^verbatim>\<open>free\<close>, and the programs that read to the end of the input); the properties
  about them include that they return. The only fuel is that of the shell's parser, four calls for each character left and four
  more: every cycle of the grammar passes four routines and consumes a character, and \<open>parsecmd_total\<close> shows that
  the fuel never runs out. Properties of address ranges are stated up to \<open>MAXVA\<close>, 2 to the 38, above which the code panics; sizes that are C
  integers are bounded where the code would overflow: \<^verbatim>\<open>printint\<close> by its buffer of 16 characters, \<^verbatim>\<open>malloc\<close> by the \<^verbatim>\<open>int\<close> that \<^verbatim>\<open>sbrk\<close> takes.
  \<^verbatim>\<open>readi\<close> is covered for every destination, with the copy that fails; \<^verbatim>\<open>writei\<close> for kernel memory and for user memory that is mapped,
  in a transaction with room in the log. \<^verbatim>\<open>uvmunmap\<close> is covered for ranges that begin at the boundary of a page or superpage.

  \<^bold>\<open>Parameters.\<close> What is not in the sources is an argument: the registers of the virtio device and the interrupt controller, address
  translation in the assembly routines, \<^verbatim>\<open>ecall\<close>, addresses that the linker chooses, and the bytes that \<^verbatim>\<open>fstat\<close> leaves uninitialised. For user programs
  the system calls are arguments, with what a program relies on as a named predicate (\<open>stdio\<close>, \<open>reader_ok\<close>, \<open>sbrk_ok\<close>, \<open>byte_reader\<close>) and an
  instance of it in the witness. \<^verbatim>\<open>runcmd\<close> of the shell takes the success or failure of each \<^verbatim>\<open>open\<close>, \<^verbatim>\<open>exec\<close>, \<^verbatim>\<open>fork\<close> and \<^verbatim>\<open>pipe\<close> as its argument
  \<open>shsys\<close>; its result is the tree of forks, waits, messages and exits of the process.

  \<^bold>\<open>Not modelled.\<close> The test programs \<^verbatim>\<open>usertests.c\<close>, \<^verbatim>\<open>grind.c\<close>, \<^verbatim>\<open>forktest.c\<close>, \<^verbatim>\<open>stressfs.c\<close> and \<^verbatim>\<open>pgtbltest.c\<close>: sequences of system
  calls with the expected results, and no operation of their own. \<^verbatim>\<open>main\<close> of \<^verbatim>\<open>grep.c\<close>: it only opens the files. \<^verbatim>\<open>defs.h\<close> and \<^verbatim>\<open>user.h\<close>: declarations. The accessors of \<^verbatim>\<open>riscv.h\<close> are one instruction each; the registers they
  read and write are components of the state. Interleavings of processes inside the kernel are modelled only at the points where
  a routine sleeps; weak memory is not modelled beyond the order that the fences in \<^verbatim>\<open>spinlock.c\<close> enforce; the
  translation cache and \<^verbatim>\<open>sfence_vma\<close> have no effect on the state.
\<close>

end
